(* ===== verification/Py_Prelude.thy ===== *)
theory Py_Prelude
  imports Main "HOL-Library.AList" "HOL-Library.Multiset"
begin

text \<open>
  Shared vocabulary of the development: the Python exceptions the modelled code raises, results
  that may be an exception, list indexing and ranges with Python's conventions, insertion-ordered
  dictionaries, and the generic list lemmas that the component theories rest on.

  Python integers are \<open>int\<close>; \<open>//\<close> and \<open>%\<close> on a non-zero divisor are \<open>div\<close> and \<open>mod\<close> of \<open>int\<close>
  (both round towards minus infinity). Where the code could divide by zero the model raises
  \<open>ZeroDivisionError\<close> explicitly. The text of an exception message is not modelled.
\<close>

named_theorems result_simps \<open>unfolding of results, indexing and ranges\<close>

section \<open>Exceptions and results\<close>

datatype py_error =
    AssertionError
  | AttributeError
  | Exception
  | IndexError
  | KeyError
  | NameError
  | NotImplementedError
  | RuntimeError
  | TypeError
  | ValueError
  | ZeroDivisionError

type_synonym 'a result = "py_error + 'a"

definition res_bind :: "'a result \<Rightarrow> ('a \<Rightarrow> 'b result) \<Rightarrow> 'b result" where
  "res_bind r f = (case r of Inl e \<Rightarrow> Inl e | Inr x \<Rightarrow> f x)"

lemma res_bind_simps [simp, result_simps]:
  "res_bind (Inl e) f = Inl e"
  "res_bind (Inr x) f = f x"
  by (simp_all add: res_bind_def)

lemma res_bind_Inr [simp]:
  "res_bind r f = Inr y \<longleftrightarrow> (\<exists>x. r = Inr x \<and> f x = Inr y)"
  by (cases r) auto

lemma res_bind_Inl:
  "res_bind r f = Inl e \<longleftrightarrow> r = Inl e \<or> (\<exists>x. r = Inr x \<and> f x = Inl e)"
  by (cases r) auto

definition py_assert :: "bool \<Rightarrow> unit result" where
  "py_assert b = (if b then Inr () else Inl AssertionError)"

lemma py_assert_Inr [simp]: "py_assert b = Inr u \<longleftrightarrow> b"
  by (auto simp: py_assert_def)

text \<open>A list comprehension whose element expression may raise: the first exception wins.\<close>

fun res_map :: "('a \<Rightarrow> 'b result) \<Rightarrow> 'a list \<Rightarrow> 'b list result" where
  "res_map f [] = Inr []"
| "res_map f (x # xs) = res_bind (f x) (\<lambda>y. res_bind (res_map f xs) (\<lambda>ys. Inr (y # ys)))"

lemma res_map_Inr_iff:
  "res_map f xs = Inr ys \<longleftrightarrow> list_all2 (\<lambda>x y. f x = Inr y) xs ys"
  by (induction xs arbitrary: ys) (auto simp: list_all2_Cons1)

lemma res_map_total: "(\<And>x. x \<in> set xs \<Longrightarrow> f x = Inr (g x)) \<Longrightarrow> res_map f xs = Inr (map g xs)"
  by (induction xs) auto

text \<open>A loop over a list whose body may raise.\<close>

fun res_fold :: "('a \<Rightarrow> 's \<Rightarrow> 's result) \<Rightarrow> 'a list \<Rightarrow> 's \<Rightarrow> 's result" where
  "res_fold f [] s = Inr s"
| "res_fold f (x # xs) s = res_bind (f x s) (res_fold f xs)"

lemma res_fold_invariant:
  assumes "I s" "\<And>x s. x \<in> set xs \<Longrightarrow> I s \<Longrightarrow> \<exists>s'. f x s = Inr s' \<and> I s'"
  shows "\<exists>s'. res_fold f xs s = Inr s' \<and> I s'"
  using assms
proof (induction xs arbitrary: s)
  case (Cons x xs)
  then obtain s' where "f x s = Inr s'" "I s'" by (meson list.set_intros(1))
  with Cons show ?case by simp
qed simp

section \<open>Indexing, division and ranges\<close>

definition py_index :: "'a list \<Rightarrow> int \<Rightarrow> 'a result" where
  \<comment> \<open>\<open>xs[i]\<close>: a negative index counts from the end.\<close>
  "py_index xs i =
     (if 0 \<le> i then (if nat i < length xs then Inr (xs ! nat i) else Inl IndexError)
      else if nat (- i) \<le> length xs then Inr (xs ! (length xs - nat (- i)))
      else Inl IndexError)"

lemma py_index_nonneg [simp]:
  "0 \<le> i \<Longrightarrow> i < int (length xs) \<Longrightarrow> py_index xs i = Inr (xs ! nat i)"
  by (simp add: py_index_def)

lemma py_index_beyond [simp]: "int (length xs) \<le> i \<Longrightarrow> py_index xs i = Inl IndexError"
  by (auto simp: py_index_def Let_def)

lemma py_index_Inr_mem: "py_index xs i = Inr x \<Longrightarrow> x \<in> set xs"
  by (auto simp: py_index_def Let_def split: if_splits)

definition py_pos :: "nat \<Rightarrow> int \<Rightarrow> nat" where
  \<comment> \<open>the position that a valid Python index names\<close>
  "py_pos n i = (if 0 \<le> i then nat i else n - nat (- i))"

lemma py_index_pos: "py_index xs i = Inr x \<Longrightarrow> py_pos (length xs) i < length xs \<and> x = xs ! py_pos (length xs) i"
  by (auto simp: py_index_def py_pos_def Let_def split: if_splits)

definition py_set :: "'a list \<Rightarrow> int \<Rightarrow> 'a \<Rightarrow> 'a list result" where
  \<comment> \<open>\<open>xs[i] = v\<close>\<close>
  "py_set xs i v = res_bind (py_index xs i) (\<lambda>_. Inr (xs[py_pos (length xs) i := v]))"

definition slice_bound :: "nat \<Rightarrow> int \<Rightarrow> nat" where
  "slice_bound n i = (if i < 0 then nat (max 0 (int n + i)) else min n (nat i))"

definition py_slice :: "'a list \<Rightarrow> int \<Rightarrow> int \<Rightarrow> 'a list" where
  \<comment> \<open>\<open>xs[a:b]\<close>\<close>
  "py_slice xs a b = take (slice_bound (length xs) b - slice_bound (length xs) a) (drop (slice_bound (length xs) a) xs)"

lemma py_slice_nonneg: "py_slice xs (int a) (int a + int n) = take n (drop a xs)"
proof -
  have "nat (int a + int n) = a + n" by simp
  then have "py_slice xs (int a) (int a + int n) = take (min (length xs) (a + n) - min (length xs) a) (drop (min (length xs) a) xs)"
    by (simp add: py_slice_def slice_bound_def)
  also have "\<dots> = take n (drop a xs)" by (cases "a \<le> length xs") (auto simp: min_def)
  finally show ?thesis .
qed

lemma py_slice_from_to: "py_slice xs (int a) (int b) = take (b - a) (drop a xs)"
proof -
  have "py_slice xs (int a) (int b) = take (min (length xs) b - min (length xs) a) (drop (min (length xs) a) xs)"
    by (simp add: py_slice_def slice_bound_def)
  also have "\<dots> = take (b - a) (drop a xs)" by (cases "a \<le> length xs") (auto simp: min_def)
  finally show ?thesis .
qed

definition str_lower :: "string \<Rightarrow> string" where
  \<comment> \<open>\<open>str.lower\<close> on ASCII letters\<close>
  "str_lower xs = map (\<lambda>c. let n = of_char c :: nat in if 65 \<le> n \<and> n \<le> 90 then char_of (n + 32) else c) xs"

definition starts_with :: "string \<Rightarrow> string \<Rightarrow> bool" where
  \<comment> \<open>\<open>key.startswith(p)\<close>\<close>
  "starts_with p key \<longleftrightarrow> take (length p) key = p"

definition py_div :: "int \<Rightarrow> int \<Rightarrow> int result" where
  "py_div a b = (if b = 0 then Inl ZeroDivisionError else Inr (a div b))"

definition py_mod :: "int \<Rightarrow> int \<Rightarrow> int result" where
  "py_mod a b = (if b = 0 then Inl ZeroDivisionError else Inr (a mod b))"

lemma py_div_nonzero [simp]: "b \<noteq> 0 \<Longrightarrow> py_div a b = Inr (a div b)"
  by (simp add: py_div_def)

lemma py_mod_nonzero [simp]: "b \<noteq> 0 \<Longrightarrow> py_mod a b = Inr (a mod b)"
  by (simp add: py_mod_def)

lemma py_div_zero [simp]: "py_div a 0 = Inl ZeroDivisionError"
  by (simp add: py_div_def)

lemma py_mod_zero [simp]: "py_mod a 0 = Inl ZeroDivisionError"
  by (simp add: py_mod_def)

lemma int_div_less: "0 < b \<Longrightarrow> a < c * b \<Longrightarrow> a div b < (c::int)"
proof (rule ccontr)
  assume b: "0 < b" and a: "a < c * b" and "\<not> a div b < c"
  then have "c * b \<le> a div b * b" by (intro mult_right_mono) auto
  also have "\<dots> \<le> a" using b div_mult_mod_eq[of a b] pos_mod_sign[OF b, of a] by linarith
  finally show False using a by simp
qed

lemma int_div_eq_iff: "0 < b \<Longrightarrow> a div b = q \<longleftrightarrow> q * b \<le> a \<and> a < (q + 1) * (b::int)"
proof
  assume b: "0 < b" and "a div b = q"
  then show "q * b \<le> a \<and> a < (q + 1) * b"
    using div_mult_mod_eq[of a b] pos_mod_sign[OF b, of a] pos_mod_bound[OF b, of a]
    by (simp add: algebra_simps)
next
  assume b: "0 < b" and q: "q * b \<le> a \<and> a < (q + 1) * b"
  have "a div b < q + 1" using b q by (intro int_div_less) auto
  moreover have "q \<le> a div b" using b q zdiv_mono1[of "q * b" a b] by simp
  ultimately show "a div b = q" by simp
qed

lemma int_ceil_div: "0 < t \<Longrightarrow> (m + t - 1) div t = (if m mod t > 0 then m div t + 1 else m div (t::int))"
proof -
  assume t: "0 < t"
  have m: "m = m div t * t + m mod t" by simp
  have b: "0 \<le> m mod t" "m mod t < t" using t by simp_all
  show ?thesis unfolding int_div_eq_iff[OF t] distrib_right mult_1
    using t m b by (cases "m mod t > 0") (simp only: if_True if_False distrib_right mult_1; linarith)+
qed

definition py_range :: "int \<Rightarrow> int \<Rightarrow> int list" where
  \<comment> \<open>\<open>range(a, b)\<close>\<close>
  "py_range a b = map (\<lambda>k. a + int k) [0..<nat (b - a)]"

definition py_range_step :: "int \<Rightarrow> int \<Rightarrow> int \<Rightarrow> int list" where
  \<comment> \<open>\<open>range(a, b, s)\<close> for a positive step \<open>s\<close>\<close>
  "py_range_step a b s = map (\<lambda>k. a + int k * s) [0..<nat ((b - a + s - 1) div s)]"

lemma length_py_range [simp]: "length (py_range a b) = nat (b - a)"
  by (simp add: py_range_def)

lemma nth_py_range [simp]: "k < nat (b - a) \<Longrightarrow> py_range a b ! k = a + int k"
  by (simp add: py_range_def)

lemma set_py_range [simp]: "set (py_range a b) = {a..<b}"
proof
  show "{a..<b} \<subseteq> set (py_range a b)"
  proof
    fix x assume "x \<in> {a..<b}"
    then have "x = a + int (nat (x - a))" "nat (x - a) \<in> {0..<nat (b - a)}" by auto
    then have "x \<in> (\<lambda>k. a + int k) ` {0..<nat (b - a)}" by (rule image_eqI)
    then show "x \<in> set (py_range a b)" by (simp add: py_range_def)
  qed
qed (auto simp: py_range_def)

lemma distinct_py_range [simp]: "distinct (py_range a b)"
  by (auto simp: py_range_def distinct_map inj_on_def)

lemma py_range_rec: "a < b \<Longrightarrow> py_range a b = a # py_range (a + 1) b"
  by (rule nth_equalityI) (auto simp: nth_Cons split: nat.split)

lemma py_range_zero: "py_range 0 n = map int [0..<nat n]"
  by (simp add: py_range_def)

lemma length_py_range_step [simp]:
  "length (py_range_step a b s) = nat ((b - a + s - 1) div s)"
  by (simp add: py_range_step_def)

lemma nth_py_range_step [simp]:
  "k < nat ((b - a + s - 1) div s) \<Longrightarrow> py_range_step a b s ! k = a + int k * s"
  by (simp add: py_range_step_def)

lemma py_range_step_count:
  assumes "0 < s" "0 \<le> n" "a + n * s - s < b" "b \<le> a + n * s"
  shows "(b - a + s - 1) div s = (n::int)"
proof -
  have "b - a + s - 1 = n * s + (b - a - n * s + s - 1)" by simp
  moreover have "0 \<le> b - a - n * s + s - 1" "b - a - n * s + s - 1 < s" using assms by auto
  ultimately show ?thesis using assms(1)
    by (metis add.commute div_mult_self1 div_pos_pos_trivial less_numeral_extra(3) add_0)
qed

lemma py_range_step_index:
  assumes "0 < s" "0 \<le> n" "a + n * s - s < b" "b \<le> a + n * s"
  shows "length (py_range_step a b s) = nat n"
    and "0 \<le> k \<Longrightarrow> k < n \<Longrightarrow> py_range_step a b s ! nat k = a + k * s"
  using py_range_step_count[OF assms] by (simp_all add: py_range_step_def)

section \<open>Nested loops that append to one list\<close>

definition grid :: "int \<Rightarrow> int \<Rightarrow> (int \<Rightarrow> int \<Rightarrow> 'a) \<Rightarrow> 'a list" where
  \<comment> \<open>\<open>for i in range(n): for j in range(k): out.append(f(i, j))\<close>\<close>
  "grid n k f = concat (map (\<lambda>i. map (f i) (py_range 0 k)) (py_range 0 n))"

lemma length_concat_const: "(\<And>x. x \<in> set xs \<Longrightarrow> length (f x) = k) \<Longrightarrow> length (concat (map f xs)) = length xs * k"
  by (induction xs) auto

lemma nth_concat_const:
  assumes "\<And>x. x \<in> set xs \<Longrightarrow> length (f x) = k" "i < length xs" "j < k"
  shows "concat (map f xs) ! (i * k + j) = f (xs ! i) ! j"
  using assms
proof (induction xs arbitrary: i)
  case (Cons x xs)
  show ?case
  proof (cases i)
    case 0
    with Cons.prems show ?thesis by (simp add: nth_append)
  next
    case (Suc i')
    with Cons have "concat (map f xs) ! (i' * k + j) = f (xs ! i') ! j" by simp
    with Suc Cons.prems(1)[of x] show ?thesis by (simp add: nth_append add.assoc)
  qed
qed simp

lemma py_index_concat_const:
  assumes "\<And>x. x \<in> set xs \<Longrightarrow> length (f x) = nat k" "0 \<le> i" "i < int (length xs)" "0 \<le> j" "j < k"
  shows "py_index (concat (map f xs)) (i * k + j) = Inr (f (xs ! nat i) ! nat j)"
proof -
  have "i * k + j < (i + 1) * k" using assms by (simp add: algebra_simps)
  also have "\<dots> \<le> int (length xs) * k" using assms by (intro mult_right_mono) auto
  also have "\<dots> = int (length (concat (map f xs)))"
    using assms length_concat_const[of xs f, OF assms(1)] by simp
  finally have "py_index (concat (map f xs)) (i * k + j) = Inr (concat (map f xs) ! nat (i * k + j))"
    using assms by (intro py_index_nonneg) auto
  moreover have "nat (i * k + j) = nat i * nat k + nat j"
    using assms by (simp add: nat_add_distrib nat_mult_distrib)
  ultimately show ?thesis using nth_concat_const[of xs f "nat k" "nat i" "nat j", OF assms(1)] assms
    by simp
qed

lemma length_grid [simp]: "length (grid n k f) = nat n * nat k"
  by (simp add: grid_def length_concat_const[where k = "nat k"])

lemma set_grid: "set (grid n k f) = (\<Union>i\<in>{0..<n}. f i ` {0..<k})"
  by (auto simp: grid_def)

lemma py_index_grid:
  assumes "0 \<le> i" "i < n" "0 \<le> j" "j < k"
  shows "py_index (grid n k f) (i * k + j) = Inr (f i j)"
  unfolding grid_def using assms by (subst py_index_concat_const) auto

lemma nth_grid:
  assumes "0 \<le> i" "i < n" "0 \<le> j" "j < k"
  shows "grid n k f ! nat (i * k + j) = f i j"
proof -
  have "0 \<le> i * k + j" using assms by simp
  then show ?thesis using py_index_grid[OF assms, of f]
    by (auto simp: py_index_def Let_def split: if_splits)
qed

section \<open>Insertion-ordered dictionaries\<close>

text \<open>
  A Python dictionary is an association list with distinct keys in insertion order: reading is
  \<open>map_of\<close>, \<open>d[k] = v\<close> is \<open>AList.update\<close> (in place for a present key, at the end otherwise) and
  \<open>del d[k]\<close> is \<open>AList.delete\<close>.
\<close>

type_synonym ('k, 'v) dict = "('k \<times> 'v) list"

abbreviation keys_of :: "('k, 'v) dict \<Rightarrow> 'k list" where
  "keys_of d \<equiv> map fst d"

definition dict_get :: "('k, 'v) dict \<Rightarrow> 'k \<Rightarrow> 'v result" where
  \<comment> \<open>\<open>d[k]\<close>\<close>
  "dict_get d k = (case map_of d k of None \<Rightarrow> Inl KeyError | Some v \<Rightarrow> Inr v)"

lemma dict_get_Inr [simp]: "dict_get d k = Inr v \<longleftrightarrow> map_of d k = Some v"
  by (auto simp: dict_get_def split: option.splits)

lemma dict_get_Inl [simp]: "dict_get d k = Inl e \<longleftrightarrow> map_of d k = None \<and> e = KeyError"
  by (auto simp: dict_get_def split: option.splits)

lemma dict_get_conv [simp]:
  "map_of d k = Some v \<Longrightarrow> dict_get d k = Inr v" "map_of d k = None \<Longrightarrow> dict_get d k = Inl KeyError"
  by simp_all

lemma set_update_subset: "set (AList.update k v d) \<subseteq> insert (k, v) (set d)"
  by (induction d) auto

lemma keys_delete: "fst ` set (AList.delete k d) = fst ` set d - {k}"
  by (force simp: AList.delete_eq)

lemma update_new: "k \<notin> fst ` set d \<Longrightarrow> AList.update k v d = d @ [(k, v)]"
  by (induction d) auto

lemmas dict_lookup [simp] = update_conv' delete_conv'

end
