(* ===== verification/Parallel_Mapping.thy ===== *)
theory Parallel_Mapping
  imports Py_Prelude
begin

text \<open>
  The rank topology of \<open>tensorrt_llm/mapping.py\<close>: the constructor of \<open>MappingBase\<close> with its
  defaulting and validation, the rank arithmetic of \<open>MpiTopology\<close>, the process groups it builds,
  and the distribution of layers and experts over ranks.

  \<open>torch\<close> is not part of the repository: \<open>torch.tensor_split\<close> and \<open>Tensor.split\<close> are arguments
  of the definitions that call them, with their documented behaviour as the predicates
  \<open>tensor_split_spec\<close> and \<open>split_spec\<close>.

  The constructor does not require positive sizes. With a size of zero the rank properties of the code
  divide by zero; the model uses \<open>div\<close> and \<open>mod\<close> of \<open>int\<close> there, and every theorem is about mappings
  with positive sizes.
\<close>

section \<open>Configuration\<close>

datatype CpType = ULYSSES | STAR | RING | HELIX

text \<open>
  \<open>cp_config["cp_type"]\<close> is an enum value or a string that the constructor converts; the other
  keys the repository uses are \<open>tokens_per_block\<close>, \<open>block_size\<close> and \<open>cp_anchor_size\<close>.
\<close>

datatype cp_type_val = CpEnum CpType | CpStr string

record cp_config =
  cp_type :: "cp_type_val option"
  cp_tokens_per_block :: "int option"
  cp_block_size :: "int option"
  cp_anchor_size :: "int option"

definition empty_cp_config :: cp_config where
  "empty_cp_config = \<lparr>cp_type = None, cp_tokens_per_block = None, cp_block_size = None,
     cp_anchor_size = None\<rparr>"

definition char_upper :: "char \<Rightarrow> char" where
  "char_upper c =
     (let n = of_char c :: nat in if 97 \<le> n \<and> n \<le> 122 then char_of (n - 32) else c)"

definition cp_type_of_name :: "string \<Rightarrow> CpType option" where
  \<comment> \<open>\<open>CpType[name]\<close>\<close>
  "cp_type_of_name s =
     (if s = ''ULYSSES'' then Some ULYSSES
      else if s = ''STAR'' then Some STAR
      else if s = ''RING'' then Some RING
      else if s = ''HELIX'' then Some HELIX
      else None)"

text \<open>Lines 70 to 77: the conversion of a string, then the default.\<close>

definition convert_cp_config :: "cp_config option \<Rightarrow> (cp_config option \<times> CpType) result" where
  "convert_cp_config cfg =
     (case cfg of
        None \<Rightarrow> Inr (None, ULYSSES)
      | Some c \<Rightarrow>
          (case cp_type c of
             None \<Rightarrow> Inr (Some c, ULYSSES)
           | Some (CpEnum t) \<Rightarrow> Inr (Some c, t)
           | Some (CpStr s) \<Rightarrow>
               (case cp_type_of_name (map char_upper s) of
                  None \<Rightarrow> Inl ValueError
                | Some t \<Rightarrow> Inr (Some (c\<lparr>cp_type := Some (CpEnum t)\<rparr>), t))))"

record mapping_args =
  a_world_size :: int
  a_rank :: int
  a_gpus_per_node :: int
  a_cp_size :: int
  a_cp_config :: "cp_config option"
  a_tp_size :: int
  a_pp_size :: int
  a_pp_partition :: "int list option"
  a_moe_cluster_size :: int
  a_moe_tp_size :: int
  a_moe_ep_size :: int
  a_attn_tp_size :: int
  a_attn_cp_size :: int
  a_enable_attention_dp :: bool
  a_enable_lm_head_tp_in_adp :: bool

definition default_args :: mapping_args where
  "default_args = \<lparr>a_world_size = 1, a_rank = 0, a_gpus_per_node = 8, a_cp_size = 1,
     a_cp_config = None, a_tp_size = 1, a_pp_size = 1, a_pp_partition = None,
     a_moe_cluster_size = -1, a_moe_tp_size = -1, a_moe_ep_size = -1,
     a_attn_tp_size = -1, a_attn_cp_size = -1,
     a_enable_attention_dp = False, a_enable_lm_head_tp_in_adp = False\<rparr>"

record pmapping =
  tp_size :: int
  cp_size :: int
  cp_cfg :: cp_config
  pp_size :: int
  pp_partition :: "int list option"
  moe_tp_size :: int
  moe_ep_size :: int
  moe_cluster_size :: int
  moe_tp_cluster_ep_size :: int
  attn_tp_size :: int
  attn_cp_size :: int
  world_size :: int
  enable_attention_dp :: bool
  enable_lm_head_tp_in_adp :: bool
  rank :: int
  gpus_per_node :: int

section \<open>The constructor\<close>

text \<open>Lines 81 to 89: the sizes of the mixture-of-experts groups that were left at \<open>-1\<close>.\<close>

definition moe_sizes :: "int \<Rightarrow> int \<Rightarrow> int \<Rightarrow> int \<Rightarrow> (int \<times> int) result" where
  "moe_sizes moe_world_size cluster mtp mep =
     (if mtp = -1 \<and> mep = -1 then
        res_bind (py_div moe_world_size cluster) (\<lambda>q. Inr (q, 1))
      else if mtp = -1 then
        res_bind (py_div moe_world_size (mep * cluster)) (\<lambda>q. Inr (q, mep))
      else if mep = -1 then
        res_bind (py_div moe_world_size (mtp * cluster)) (\<lambda>q. Inr (mtp, q))
      else Inr (mtp, mep))"

text \<open>Lines 91 to 105: the same for attention.\<close>

definition attn_sizes :: "CpType \<Rightarrow> int \<Rightarrow> int \<Rightarrow> int \<Rightarrow> int \<Rightarrow> (int \<times> int) result" where
  "attn_sizes t tp cp atp acp =
     (if atp = -1 \<and> acp = -1 then
        (if t = ULYSSES then Inr (tp * cp, 1) else Inr (tp, cp))
      else if atp = -1 then res_bind (py_div (tp * cp) acp) (\<lambda>q. Inr (q, acp))
      else if acp = -1 then res_bind (py_div (tp * cp) atp) (\<lambda>q. Inr (atp, q))
      else Inr (atp, acp))"

definition set_rank :: "int \<Rightarrow> pmapping \<Rightarrow> pmapping result" where
  \<comment> \<open>the setter of the property \<open>rank\<close>\<close>
  "set_rank r m =
     (if \<not> enable_attention_dp m \<and> (r < 0 \<or> r \<ge> world_size m) then Inl ValueError
      else Inr (m\<lparr>rank := r\<rparr>))"

definition mapping_init :: "mapping_args \<Rightarrow> pmapping result" where
  "mapping_init a =
     (let cluster = (if a_moe_cluster_size a = -1 then 1 else a_moe_cluster_size a);
          tp = a_tp_size a; cp = a_cp_size a; pp = a_pp_size a in
      res_bind (convert_cp_config (a_cp_config a)) (\<lambda>(cfg, t).
      let moe_world_size = (if t = ULYSSES then tp else tp * cp) in
      res_bind (moe_sizes moe_world_size cluster (a_moe_tp_size a) (a_moe_ep_size a)) (\<lambda>(mtp, mep).
      res_bind (attn_sizes t tp cp (a_attn_tp_size a) (a_attn_cp_size a)) (\<lambda>(atp, acp).
      if acp \<noteq> 1 \<and> t = ULYSSES then Inl ValueError
      else if tp * pp * cp \<noteq> a_world_size a then Inl ValueError
      else if mtp * mep * cluster \<noteq> moe_world_size then Inl ValueError
      else if atp * acp \<noteq> tp * cp then Inl ValueError
      else if mep \<noteq> 1 \<and> cp > 1 \<and> t \<noteq> HELIX then Inl NotImplementedError
      else if cluster > 1 \<and> mep \<noteq> 1 then Inl AssertionError
      else if a_enable_lm_head_tp_in_adp a \<and> \<not> a_enable_attention_dp a then Inl AssertionError
      else set_rank (a_rank a)
        \<lparr>tp_size = tp, cp_size = cp,
         cp_cfg = (case cfg of None \<Rightarrow> empty_cp_config | Some c \<Rightarrow> c),
         pp_size = pp, pp_partition = a_pp_partition a,
         moe_tp_size = mtp, moe_ep_size = mep, moe_cluster_size = cluster,
         moe_tp_cluster_ep_size = mtp * mep * cluster,
         attn_tp_size = atp, attn_cp_size = acp, world_size = a_world_size a,
         enable_attention_dp = a_enable_attention_dp a,
         enable_lm_head_tp_in_adp = a_enable_lm_head_tp_in_adp a,
         rank = 0, gpus_per_node = a_gpus_per_node a\<rparr>))))"

section \<open>Equality and hashing\<close>

definition mapping_eq :: "pmapping \<Rightarrow> pmapping \<Rightarrow> bool" where
  "mapping_eq a b \<longleftrightarrow> world_size a = world_size b \<and> rank a = rank b \<and>
     gpus_per_node a = gpus_per_node b \<and> cp_size a = cp_size b \<and> tp_size a = tp_size b \<and>
     moe_cluster_size a = moe_cluster_size b \<and> pp_size a = pp_size b \<and>
     pp_partition a = pp_partition b \<and> moe_tp_size a = moe_tp_size b \<and>
     moe_ep_size a = moe_ep_size b \<and> attn_tp_size a = attn_tp_size b \<and>
     attn_cp_size a = attn_cp_size b \<and> cp_cfg a = cp_cfg b"

text \<open>The tuple that \<open>__hash__\<close> hashes: the numbers, the configuration and the partition (empty for \<open>None\<close>).\<close>

definition hash_key :: "pmapping \<Rightarrow> int list \<times> cp_config \<times> int list" where
  "hash_key m =
     ([world_size m, rank m, gpus_per_node m, cp_size m, tp_size m, pp_size m, moe_tp_size m,
       moe_cluster_size m, moe_ep_size m, attn_tp_size m, attn_cp_size m],
      cp_cfg m, case pp_partition m of None \<Rightarrow> [] | Some p \<Rightarrow> p)"

text \<open>Equal mappings hash alike, so a mapping can be a dictionary key.\<close>

lemma mapping_eq_hash: "mapping_eq a b \<Longrightarrow> hash_key a = hash_key b"
  by (simp add: mapping_eq_def hash_key_def)

section \<open>Rank arithmetic\<close>

definition tp_rank :: "pmapping \<Rightarrow> int" where
  "tp_rank m = rank m mod (tp_size m * cp_size m) div cp_size m"

definition pp_rank :: "pmapping \<Rightarrow> int" where
  "pp_rank m = rank m div (tp_size m * cp_size m)"

definition cp_rank :: "pmapping \<Rightarrow> int" where
  "cp_rank m = rank m mod cp_size m"

definition moe_tp_rank :: "pmapping \<Rightarrow> int" where
  "moe_tp_rank m = tp_rank m div (moe_ep_size m * moe_cluster_size m)"

definition moe_cluster_rank :: "pmapping \<Rightarrow> int" where
  "moe_cluster_rank m = tp_rank m mod moe_cluster_size m"

definition moe_ep_rank :: "pmapping \<Rightarrow> int" where
  "moe_ep_rank m = tp_rank m mod moe_ep_size m"

definition node_rank :: "pmapping \<Rightarrow> int" where
  "node_rank m = rank m div gpus_per_node m"

definition local_rank :: "pmapping \<Rightarrow> int" where
  "local_rank m = rank m mod gpus_per_node m"

definition dp_size :: "pmapping \<Rightarrow> int" where
  "dp_size m = (if enable_attention_dp m then tp_size m else 1)"

definition has_cp_ulysses :: "pmapping \<Rightarrow> bool" where
  "has_cp_ulysses m \<longleftrightarrow> cp_size m > 1 \<and> cp_type (cp_cfg m) = Some (CpEnum ULYSSES)"

definition has_cp_helix :: "pmapping \<Rightarrow> bool" where
  "has_cp_helix m \<longleftrightarrow> cp_size m > 1 \<and> cp_type (cp_cfg m) = Some (CpEnum HELIX)"

definition get_node_rank :: "pmapping \<Rightarrow> int \<Rightarrow> int" where
  "get_node_rank m r = r div gpus_per_node m"

definition get_local_rank :: "pmapping \<Rightarrow> int \<Rightarrow> int" where
  "get_local_rank m r = r mod gpus_per_node m"

definition has_tp :: "pmapping \<Rightarrow> bool" where
  "has_tp m \<longleftrightarrow> tp_size m > 1"

definition is_second_last_pp_rank :: "pmapping \<Rightarrow> bool" where
  "is_second_last_pp_rank m \<longleftrightarrow> pp_rank m = pp_size m - 2"

definition is_last_cp_rank :: "pmapping \<Rightarrow> bool" where
  "is_last_cp_rank m \<longleftrightarrow> cp_rank m = cp_size m - 1"

definition is_first_cp_rank :: "pmapping \<Rightarrow> bool" where
  "is_first_cp_rank m \<longleftrightarrow> cp_rank m = 0"

definition has_cp :: "pmapping \<Rightarrow> bool" where
  "has_cp m \<longleftrightarrow> cp_size m > 1"

definition has_moe_cluster :: "pmapping \<Rightarrow> bool" where
  "has_moe_cluster m \<longleftrightarrow> moe_cluster_size m > 1"

definition has_moe_tp :: "pmapping \<Rightarrow> bool" where
  "has_moe_tp m \<longleftrightarrow> moe_tp_size m > 1"

definition has_moe_ep :: "pmapping \<Rightarrow> bool" where
  "has_moe_ep m \<longleftrightarrow> moe_ep_size m > 1"

definition is_multi_node :: "pmapping \<Rightarrow> bool" where
  "is_multi_node m \<longleftrightarrow> world_size m > gpus_per_node m"

definition has_pp :: "pmapping \<Rightarrow> bool" where
  "has_pp m \<longleftrightarrow> pp_size m > 1"

definition is_last_pp_rank :: "pmapping \<Rightarrow> bool" where
  "is_last_pp_rank m \<longleftrightarrow> pp_rank m = pp_size m - 1"

definition is_first_pp_rank :: "pmapping \<Rightarrow> bool" where
  "is_first_pp_rank m \<longleftrightarrow> pp_rank m = 0"

definition prev_pp_rank :: "pmapping \<Rightarrow> int" where
  "prev_pp_rank m = (let p = rank m - tp_size m * cp_size m in
     if p < 0 then p + world_size m else p)"

definition next_pp_rank :: "pmapping \<Rightarrow> int" where
  "next_pp_rank m = (let p = rank m + tp_size m * cp_size m in
     if p \<ge> world_size m then p - world_size m else p)"

definition prev_cp_rank :: "pmapping \<Rightarrow> int" where
  "prev_cp_rank m = (if cp_rank m = 0 then rank m + cp_size m - 1 else rank m - 1)"

definition next_cp_rank :: "pmapping \<Rightarrow> int" where
  "next_cp_rank m =
     (if cp_rank m = cp_size m - 1 then rank m - cp_size m + 1 else rank m + 1)"

section \<open>Process groups\<close>

definition pp_groups :: "pmapping \<Rightarrow> int list list" where
  "pp_groups m = map (\<lambda>i. py_range_step i (world_size m) (tp_size m * cp_size m))
     (py_range 0 (tp_size m * cp_size m))"

definition cp_groups :: "pmapping \<Rightarrow> int list list" where
  "cp_groups m = grid (pp_size m) (tp_size m) (\<lambda>i j.
     py_range (i * tp_size m * cp_size m + j * cp_size m)
              (i * tp_size m * cp_size m + (j + 1) * cp_size m))"

definition tp_groups :: "pmapping \<Rightarrow> int list list" where
  "tp_groups m = grid (pp_size m) (cp_size m) (\<lambda>i j.
     py_range_step (i * tp_size m * cp_size m + j)
                   ((i + 1) * tp_size m * cp_size m + j) (cp_size m))"

definition moe_tp_groups :: "pmapping \<Rightarrow> int list list" where
  "moe_tp_groups m = grid (pp_size m) (moe_cluster_size m * moe_ep_size m) (\<lambda>i j.
     py_range_step (i * moe_tp_cluster_ep_size m + j) ((i + 1) * moe_tp_cluster_ep_size m)
                   (moe_cluster_size m * moe_ep_size m))"

definition moe_cluster_groups :: "pmapping \<Rightarrow> int list list" where
  "moe_cluster_groups m = grid (pp_size m) (moe_tp_size m) (\<lambda>i j.
     py_range (i * moe_tp_cluster_ep_size m + j * moe_cluster_size m * moe_ep_size m)
              (i * moe_tp_cluster_ep_size m + (j + 1) * moe_cluster_size m * moe_ep_size m))"

definition moe_ep_groups :: "pmapping \<Rightarrow> int list list" where
  "moe_ep_groups m = concat (map (\<lambda>i. grid (moe_tp_size m) (moe_cluster_size m) (\<lambda>j k.
     py_range (i * moe_tp_cluster_ep_size m + j * moe_cluster_size m * moe_ep_size m
                 + k * moe_ep_size m)
              (i * moe_tp_cluster_ep_size m + j * moe_cluster_size m * moe_ep_size m
                 + (k + 1) * moe_ep_size m))) (py_range 0 (pp_size m)))"

definition tp_group :: "pmapping \<Rightarrow> int list result" where
  "tp_group m = py_index (tp_groups m) (pp_rank m * cp_size m + cp_rank m)"

definition pp_group :: "pmapping \<Rightarrow> int list result" where
  "pp_group m = py_index (pp_groups m) (tp_rank m * cp_size m + cp_rank m)"

definition cp_group :: "pmapping \<Rightarrow> int list result" where
  "cp_group m = py_index (cp_groups m) (pp_rank m * tp_size m + tp_rank m)"

definition moe_tp_group :: "pmapping \<Rightarrow> int list result" where
  "moe_tp_group m = py_index (moe_tp_groups m)
     (pp_rank m * moe_cluster_size m * moe_ep_size m + moe_cluster_rank m * moe_ep_size m
       + moe_ep_rank m)"

definition moe_ep_group :: "pmapping \<Rightarrow> int list result" where
  "moe_ep_group m = py_index (moe_ep_groups m)
     (pp_rank m * moe_tp_size m * moe_cluster_size m + moe_tp_rank m * moe_cluster_size m
       + moe_cluster_rank m)"

definition moe_cluster_group :: "pmapping \<Rightarrow> int list result" where
  "moe_cluster_group m = py_index (moe_cluster_groups m)
     (pp_rank m * moe_tp_size m + moe_tp_rank m)"

section \<open>Layers, experts and serialisation\<close>

type_synonym 'a tensor_split_fn = "'a list \<Rightarrow> int \<Rightarrow> 'a list list"
type_synonym split_fn = "int list \<Rightarrow> int list \<Rightarrow> int list list"

definition pp_layers :: "int tensor_split_fn \<Rightarrow> split_fn \<Rightarrow> pmapping \<Rightarrow> int \<Rightarrow> int list result" where
  "pp_layers tensor_split split m num_layers =
     (case pp_partition m of
        Some part \<Rightarrow>
          if int (length part) \<noteq> pp_size m then Inl ValueError
          else if sum_list part \<noteq> num_layers then Inl ValueError
          else py_index (split (py_range 0 num_layers) part) (pp_rank m)
      | None \<Rightarrow> py_index (tensor_split (py_range 0 num_layers) (pp_size m)) (pp_rank m))"

fun find_partition :: "int list \<Rightarrow> int \<Rightarrow> int \<Rightarrow> int \<Rightarrow> int result" where
  \<comment> \<open>the loop over \<open>enumerate(self.pp_partition)\<close>, with the running \<open>end\<close> and the rank\<close>
  "find_partition [] layer_idx acc r = Inl RuntimeError"
| "find_partition (n # ns) layer_idx acc r =
     (if layer_idx < acc + n then Inr r else find_partition ns layer_idx (acc + n) (r + 1))"

definition pp_rank_of_layer :: "pmapping \<Rightarrow> int \<Rightarrow> int \<Rightarrow> int result" where
  "pp_rank_of_layer m layer_idx num_layers =
     (if layer_idx < 0 \<or> layer_idx \<ge> num_layers then Inl ValueError
      else if \<not> has_pp m then Inr 0
      else (case pp_partition m of
        Some part \<Rightarrow>
          if int (length part) \<noteq> pp_size m then Inl ValueError
          else if sum_list part \<noteq> num_layers then Inl ValueError
          else find_partition part layer_idx 0 0
      | None \<Rightarrow>
          let base = num_layers div pp_size m; rem = num_layers mod pp_size m in
          if base = 0 then Inr layer_idx
          else let cutoff = (base + 1) * rem in
            if layer_idx < cutoff then Inr (layer_idx div (base + 1))
            else Inr (rem + (layer_idx - cutoff) div base)))"

definition ep_experts :: "pmapping \<Rightarrow> int \<Rightarrow> int list result" where
  "ep_experts m num_experts =
     res_bind (py_assert (cp_size m = 1)) (\<lambda>_.
     res_bind (py_div num_experts (moe_ep_size m)) (\<lambda>experts_per_rank.
     Inr (py_range (moe_ep_rank m * experts_per_rank) ((moe_ep_rank m + 1) * experts_per_rank))))"

text \<open>
  \<open>to_dict\<close> returns the keyword arguments that \<open>from_dict\<close> passes to the constructor; a key it does
  not list keeps the constructor's default.
\<close>

definition to_dict :: "pmapping \<Rightarrow> mapping_args" where
  "to_dict m = default_args\<lparr>a_world_size := world_size m, a_rank := rank m,
     a_gpus_per_node := gpus_per_node m, a_cp_size := cp_size m, a_tp_size := tp_size m,
     a_pp_size := pp_size m, a_moe_tp_size := moe_tp_size m,
     a_moe_cluster_size := moe_cluster_size m, a_moe_ep_size := moe_ep_size m,
     a_attn_tp_size := attn_tp_size m, a_attn_cp_size := attn_cp_size m,
     a_cp_config := Some (cp_cfg m), a_enable_attention_dp := enable_attention_dp m,
     a_enable_lm_head_tp_in_adp := enable_lm_head_tp_in_adp m\<rparr>"

definition from_dict :: "mapping_args \<Rightarrow> pmapping result" where
  "from_dict d = mapping_init d"

definition repurpose_helix_cp_to_tp :: "pmapping \<Rightarrow> pmapping result" where
  "repurpose_helix_cp_to_tp m =
     res_bind (py_assert (has_cp_helix m)) (\<lambda>_.
     mapping_init (default_args\<lparr>a_world_size := world_size m, a_rank := rank m,
       a_gpus_per_node := gpus_per_node m, a_cp_size := 1, a_cp_config := Some empty_cp_config,
       a_tp_size := tp_size m * cp_size m, a_pp_size := pp_size m,
       a_pp_partition := pp_partition m, a_moe_cluster_size := moe_cluster_size m,
       a_moe_tp_size := moe_tp_size m, a_moe_ep_size := moe_ep_size m,
       a_enable_attention_dp := enable_attention_dp m,
       a_enable_lm_head_tp_in_adp := enable_lm_head_tp_in_adp m\<rparr>))"

section \<open>Well-formed mappings\<close>

text \<open>
  What the constructor establishes for a mapping without attention data parallelism: the sizes
  multiply up to the world size and the rank is one of the world's. The sizes themselves are never
  checked to be positive, so this is a hypothesis of the constructor lemma.
\<close>

definition wf_mapping :: "pmapping \<Rightarrow> bool" where
  "wf_mapping m \<longleftrightarrow> 0 < tp_size m \<and> 0 < cp_size m \<and> 0 < pp_size m \<and>
     world_size m = pp_size m * (tp_size m * cp_size m) \<and> 0 \<le> rank m \<and> rank m < world_size m"

lemma set_rank_Inr:
  "set_rank r m = Inr m' \<longleftrightarrow>
     m' = m\<lparr>rank := r\<rparr> \<and> (enable_attention_dp m \<or> (0 \<le> r \<and> r < world_size m))"
  by (auto simp: set_rank_def)

lemma mapping_init_Inr:
  assumes "mapping_init a = Inr m"
  obtains cfg t mtp mep atp acp cluster
  where "convert_cp_config (a_cp_config a) = Inr (cfg, t)"
    and "cluster = (if a_moe_cluster_size a = -1 then 1 else a_moe_cluster_size a)"
    and "moe_sizes (if t = ULYSSES then a_tp_size a else a_tp_size a * a_cp_size a) cluster
           (a_moe_tp_size a) (a_moe_ep_size a) = Inr (mtp, mep)"
    and "attn_sizes t (a_tp_size a) (a_cp_size a) (a_attn_tp_size a) (a_attn_cp_size a) = Inr (atp, acp)"
    and "acp = 1 \<or> t \<noteq> ULYSSES"
    and "a_tp_size a * a_pp_size a * a_cp_size a = a_world_size a"
    and "mtp * mep * cluster = (if t = ULYSSES then a_tp_size a else a_tp_size a * a_cp_size a)"
    and "atp * acp = a_tp_size a * a_cp_size a"
    and "mep = 1 \<or> a_cp_size a \<le> 1 \<or> t = HELIX"
    and "cluster \<le> 1 \<or> mep = 1"
    and "a_enable_lm_head_tp_in_adp a \<longrightarrow> a_enable_attention_dp a"
    and "a_enable_attention_dp a \<or> 0 \<le> a_rank a \<and> a_rank a < a_world_size a"
    and "m = \<lparr>tp_size = a_tp_size a, cp_size = a_cp_size a,
         cp_cfg = (case cfg of None \<Rightarrow> empty_cp_config | Some c \<Rightarrow> c),
         pp_size = a_pp_size a, pp_partition = a_pp_partition a,
         moe_tp_size = mtp, moe_ep_size = mep, moe_cluster_size = cluster,
         moe_tp_cluster_ep_size = mtp * mep * cluster,
         attn_tp_size = atp, attn_cp_size = acp, world_size = a_world_size a,
         enable_attention_dp = a_enable_attention_dp a,
         enable_lm_head_tp_in_adp = a_enable_lm_head_tp_in_adp a,
         rank = a_rank a, gpus_per_node = a_gpus_per_node a\<rparr>"
proof -
  obtain cfg t where 1: "convert_cp_config (a_cp_config a) = Inr (cfg, t)"
    using assms by (auto simp: mapping_init_def Let_def)
  let ?w = "if t = ULYSSES then a_tp_size a else a_tp_size a * a_cp_size a"
  let ?c = "if a_moe_cluster_size a = -1 then 1 else a_moe_cluster_size a"
  from assms 1 obtain mtp mep where
    2: "moe_sizes ?w ?c (a_moe_tp_size a) (a_moe_ep_size a) = Inr (mtp, mep)"
    unfolding mapping_init_def Let_def by (simp only: res_bind_simps prod.case) (force simp: res_bind_def split: sum.splits)
  from assms 1 2 obtain atp acp where
    3: "attn_sizes t (a_tp_size a) (a_cp_size a) (a_attn_tp_size a) (a_attn_cp_size a) = Inr (atp, acp)"
    unfolding mapping_init_def Let_def by (simp only: res_bind_simps prod.case) (force simp: res_bind_def split: sum.splits)
  note body = assms[unfolded mapping_init_def Let_def 1 2 3 res_bind_simps prod.case]
  show thesis
    by (rule that[OF 1 refl 2 3])
       (use body in \<open>simp_all add: set_rank_def not_less not_le del: res_bind_Inr split: if_split_asm\<close>)
qed

lemma mapping_init_intro:
  assumes "convert_cp_config (a_cp_config a) = Inr (cfg, t)"
    and "cluster = (if a_moe_cluster_size a = -1 then 1 else a_moe_cluster_size a)"
    and "w = (if t = ULYSSES then a_tp_size a else a_tp_size a * a_cp_size a)"
    and "moe_sizes w cluster (a_moe_tp_size a) (a_moe_ep_size a) = Inr (mtp, mep)"
    and "attn_sizes t (a_tp_size a) (a_cp_size a) (a_attn_tp_size a) (a_attn_cp_size a) = Inr (atp, acp)"
    and "acp = 1 \<or> t \<noteq> ULYSSES"
    and "a_tp_size a * a_pp_size a * a_cp_size a = a_world_size a"
    and "mtp * mep * cluster = w"
    and "atp * acp = a_tp_size a * a_cp_size a"
    and "mep = 1 \<or> a_cp_size a \<le> 1 \<or> t = HELIX"
    and "cluster \<le> 1 \<or> mep = 1"
    and "a_enable_lm_head_tp_in_adp a \<longrightarrow> a_enable_attention_dp a"
    and "a_enable_attention_dp a \<or> 0 \<le> a_rank a \<and> a_rank a < a_world_size a"
  shows "mapping_init a = Inr \<lparr>tp_size = a_tp_size a, cp_size = a_cp_size a,
         cp_cfg = (case cfg of None \<Rightarrow> empty_cp_config | Some c \<Rightarrow> c),
         pp_size = a_pp_size a, pp_partition = a_pp_partition a,
         moe_tp_size = mtp, moe_ep_size = mep, moe_cluster_size = cluster,
         moe_tp_cluster_ep_size = mtp * mep * cluster,
         attn_tp_size = atp, attn_cp_size = acp, world_size = a_world_size a,
         enable_attention_dp = a_enable_attention_dp a,
         enable_lm_head_tp_in_adp = a_enable_lm_head_tp_in_adp a,
         rank = a_rank a, gpus_per_node = a_gpus_per_node a\<rparr>"
proof -
  have "\<not> (acp \<noteq> 1 \<and> t = ULYSSES)" "\<not> (mep \<noteq> 1 \<and> a_cp_size a > 1 \<and> t \<noteq> HELIX)"
    "\<not> (cluster > 1 \<and> mep \<noteq> 1)" "\<not> (a_enable_lm_head_tp_in_adp a \<and> \<not> a_enable_attention_dp a)"
    "\<not> (\<not> a_enable_attention_dp a \<and> (a_rank a < 0 \<or> a_rank a \<ge> a_world_size a))"
    using assms by auto
  with assms(1,5,7,9) assms(4,8)[unfolded assms(3)] show ?thesis
    unfolding mapping_init_def Let_def assms(2)[symmetric]
    by (simp only: res_bind_simps prod.case if_False if_True simp_thms set_rank_def
        pmapping.select_convs pmapping.update_convs)
qed

lemma mapping_init_fields:
  assumes "mapping_init a = Inr m"
  shows "tp_size m = a_tp_size a" "cp_size m = a_cp_size a" "pp_size m = a_pp_size a"
    "world_size m = a_world_size a" "rank m = a_rank a" "pp_partition m = a_pp_partition a"
    "a_tp_size a * a_pp_size a * a_cp_size a = a_world_size a"
    "\<not> a_enable_attention_dp a \<Longrightarrow> 0 \<le> a_rank a \<and> a_rank a < a_world_size a"
  by (rule mapping_init_Inr[OF assms]; simp; fail)+

lemma mapping_init_wf:
  assumes "mapping_init a = Inr m" "\<not> a_enable_attention_dp a"
    "0 < a_tp_size a" "0 < a_cp_size a" "0 < a_pp_size a"
  shows "wf_mapping m"
  using assms mapping_init_fields[OF assms(1)] by (simp add: wf_mapping_def algebra_simps)

section \<open>Ranks as digits\<close>

lemma digits_unique:
  fixes q r b :: int
  assumes "0 < b" "0 \<le> r" "r < b"
  shows "(q * b + r) div b = q" "(q * b + r) mod b = r"
  using assms by simp_all

lemma rank_digits:
  assumes "wf_mapping m"
  shows "rank m = pp_rank m * (tp_size m * cp_size m) + (tp_rank m * cp_size m + cp_rank m)"
    and "0 \<le> tp_rank m" "tp_rank m < tp_size m"
    and "0 \<le> cp_rank m" "cp_rank m < cp_size m"
    and "0 \<le> pp_rank m" "pp_rank m < pp_size m"
proof -
  let ?tp = "tp_size m" and ?cp = "cp_size m" and ?r = "rank m"
  have pos: "0 < ?tp" "0 < ?cp" "0 < ?tp * ?cp" and r: "0 \<le> ?r" "?r < pp_size m * (?tp * ?cp)"
    using assms by (auto simp: wf_mapping_def)
  have "?r mod (?tp * ?cp) mod ?cp = ?r mod ?cp" by (simp add: mod_mod_cancel)
  then have "?r mod (?tp * ?cp) = tp_rank m * ?cp + cp_rank m"
    using div_mult_mod_eq[of "?r mod (?tp * ?cp)" ?cp] by (simp add: tp_rank_def cp_rank_def)
  then show "?r = pp_rank m * (?tp * ?cp) + (tp_rank m * ?cp + cp_rank m)"
    using div_mult_mod_eq[of ?r "?tp * ?cp"] by (simp add: pp_rank_def)
  show "0 \<le> tp_rank m" using pos by (simp add: tp_rank_def pos_imp_zdiv_nonneg_iff)
  have "?r mod (?tp * ?cp) < ?tp * ?cp" using pos(3) by (rule pos_mod_bound)
  then show "tp_rank m < ?tp"
    unfolding tp_rank_def by (rule int_div_less[OF pos(2)])
  show "0 \<le> cp_rank m" "cp_rank m < ?cp" using pos by (simp_all add: cp_rank_def)
  show "0 \<le> pp_rank m" using pos r by (simp add: pp_rank_def pos_imp_zdiv_nonneg_iff)
  show "pp_rank m < pp_size m" using pos(3) r unfolding pp_rank_def by (intro int_div_less)
qed

lemma inner_rank_bound:
  assumes "wf_mapping m"
  shows "0 \<le> tp_rank m * cp_size m + cp_rank m" "tp_rank m * cp_size m + cp_rank m < tp_size m * cp_size m"
proof -
  note d = rank_digits[OF assms]
  show "0 \<le> tp_rank m * cp_size m + cp_rank m" using d by simp
  have "tp_rank m * cp_size m + cp_rank m < (tp_rank m + 1) * cp_size m"
    using d by (simp add: algebra_simps)
  also have "\<dots> \<le> tp_size m * cp_size m" using d by (intro mult_right_mono) auto
  finally show "tp_rank m * cp_size m + cp_rank m < tp_size m * cp_size m" .
qed

lemma tp_group_eq:
  assumes "wf_mapping m"
  shows "tp_group m = Inr (py_range_step (pp_rank m * tp_size m * cp_size m + cp_rank m)
           ((pp_rank m + 1) * tp_size m * cp_size m + cp_rank m) (cp_size m))"
  unfolding tp_group_def tp_groups_def using rank_digits[OF assms] by (intro py_index_grid) auto

lemma cp_group_eq:
  assumes "wf_mapping m"
  shows "cp_group m = Inr (py_range (pp_rank m * tp_size m * cp_size m + tp_rank m * cp_size m)
           (pp_rank m * tp_size m * cp_size m + (tp_rank m + 1) * cp_size m))"
  unfolding cp_group_def cp_groups_def using rank_digits[OF assms] by (intro py_index_grid) auto

lemma pp_group_eq:
  assumes "wf_mapping m"
  shows "pp_group m = Inr (py_range_step (tp_rank m * cp_size m + cp_rank m) (world_size m)
           (tp_size m * cp_size m))"
  using inner_rank_bound[OF assms] by (simp add: pp_group_def pp_groups_def)

lemma tp_group_index:
  assumes "wf_mapping m" "tp_group m = Inr g"
  shows "length g = nat (tp_size m)" "g ! nat (tp_rank m) = rank m"
proof -
  note d = rank_digits[OF assms(1)]
  let ?a = "pp_rank m * tp_size m * cp_size m + cp_rank m"
  let ?b = "(pp_rank m + 1) * tp_size m * cp_size m + cp_rank m"
  have g: "g = py_range_step ?a ?b (cp_size m)"
    using assms tp_group_eq by simp
  have n: "0 < cp_size m" "0 \<le> tp_size m" "?a + tp_size m * cp_size m - cp_size m < ?b"
    "?b \<le> ?a + tp_size m * cp_size m"
    using d by (auto simp: algebra_simps)
  show "length g = nat (tp_size m)" unfolding g by (rule py_range_step_index(1)[OF n])
  have "g ! nat (tp_rank m) = ?a + tp_rank m * cp_size m"
    unfolding g using d by (intro py_range_step_index(2)[OF n])
  then show "g ! nat (tp_rank m) = rank m" using d by (simp add: algebra_simps)
qed

lemma cp_group_index:
  assumes "wf_mapping m" "cp_group m = Inr g"
  shows "length g = nat (cp_size m)" "g ! nat (cp_rank m) = rank m"
proof -
  note d = rank_digits[OF assms(1)]
  have g: "g = py_range (pp_rank m * tp_size m * cp_size m + tp_rank m * cp_size m)
      (pp_rank m * tp_size m * cp_size m + (tp_rank m + 1) * cp_size m)"
    using assms cp_group_eq by simp
  show "length g = nat (cp_size m)" by (simp add: g algebra_simps)
  have "g ! nat (cp_rank m) =
      pp_rank m * tp_size m * cp_size m + tp_rank m * cp_size m + int (nat (cp_rank m))"
    unfolding g using d by (intro nth_py_range) (simp add: algebra_simps)
  then show "g ! nat (cp_rank m) = rank m" using d by (simp add: algebra_simps)
qed

lemma pp_group_index:
  assumes "wf_mapping m" "pp_group m = Inr g"
  shows "length g = nat (pp_size m)" "g ! nat (pp_rank m) = rank m"
proof -
  note d = rank_digits[OF assms(1)] and b = inner_rank_bound[OF assms(1)]
  let ?i = "tp_rank m * cp_size m + cp_rank m" and ?s = "tp_size m * cp_size m"
  have w: "world_size m = pp_size m * ?s" and "0 < ?s" using assms(1) by (auto simp: wf_mapping_def)
  then have n: "0 < ?s" "0 \<le> pp_size m" "?i + pp_size m * ?s - ?s < world_size m"
    "world_size m \<le> ?i + pp_size m * ?s"
    using d b by auto
  have g: "g = py_range_step ?i (world_size m) ?s" using assms pp_group_eq by simp
  show "length g = nat (pp_size m)" unfolding g by (rule py_range_step_index(1)[OF n])
  have "g ! nat (pp_rank m) = ?i + pp_rank m * ?s"
    unfolding g using d by (intro py_range_step_index(2)[OF n])
  then show "g ! nat (pp_rank m) = rank m" using d by (simp add: algebra_simps)
qed

section \<open>The groups cover the world\<close>

lemma wf_set_rank:
  assumes "wf_mapping m" "0 \<le> r" "r < world_size m"
  shows "wf_mapping (m\<lparr>rank := r\<rparr>)"
  using assms by (simp add: wf_mapping_def)

lemma groups_set_rank [simp]:
  "tp_groups (m\<lparr>rank := r\<rparr>) = tp_groups m"
  "cp_groups (m\<lparr>rank := r\<rparr>) = cp_groups m"
  "pp_groups (m\<lparr>rank := r\<rparr>) = pp_groups m"
  by (simp_all add: tp_groups_def cp_groups_def pp_groups_def)

lemma tp_group_covers:
  assumes "wf_mapping m" "0 \<le> r" "r < world_size m"
  shows "r \<in> set (concat (tp_groups m))"
proof -
  let ?m = "m\<lparr>rank := r\<rparr>"
  have wf: "wf_mapping ?m" using assms by (rule wf_set_rank)
  obtain g where g: "tp_group ?m = Inr g" using tp_group_eq[OF wf] by simp
  then have "g \<in> set (tp_groups m)" by (auto simp: tp_group_def dest: py_index_Inr_mem)
  moreover have "r \<in> set g"
    using tp_group_index[OF wf g] rank_digits(2,3)[OF wf] nth_mem[of "nat (tp_rank ?m)" g] by simp
  ultimately show ?thesis by auto
qed

lemma length_concat_tp_groups:
  assumes "wf_mapping m"
  shows "length (concat (tp_groups m)) = nat (world_size m)"
proof -
  have pos: "0 < tp_size m" "0 < cp_size m" "0 < pp_size m" using assms by (auto simp: wf_mapping_def)
  have "length g = nat (tp_size m)" if "g \<in> set (tp_groups m)" for g
  proof -
    from that obtain i j where "0 \<le> j"
      and g: "g = py_range_step (i * tp_size m * cp_size m + j)
          ((i + 1) * tp_size m * cp_size m + j) (cp_size m)"
      by (auto simp: tp_groups_def set_grid)
    show ?thesis unfolding g using pos
      by (intro py_range_step_index(1)) (auto simp: algebra_simps)
  qed
  then have "length (concat (tp_groups m)) = length (tp_groups m) * nat (tp_size m)"
    using length_concat_const[of "tp_groups m" id "nat (tp_size m)"] by simp
  then show ?thesis using pos assms
    by (simp add: tp_groups_def wf_mapping_def nat_mult_distrib)
qed

lemma tp_groups_within:
  assumes "wf_mapping m" "x \<in> set (concat (tp_groups m))"
  shows "0 \<le> x \<and> x < world_size m"
proof -
  have pos: "0 < tp_size m" "0 < cp_size m" "0 < pp_size m" using assms by (auto simp: wf_mapping_def)
  from assms(2) obtain i j where ij: "0 \<le> i" "i < pp_size m" "0 \<le> j" "j < cp_size m"
    and "x \<in> set (py_range_step (i * tp_size m * cp_size m + j)
          ((i + 1) * tp_size m * cp_size m + j) (cp_size m))"
    by (auto simp: tp_groups_def set_grid)
  then obtain k where k: "x = i * tp_size m * cp_size m + j + int k * cp_size m"
    "k < length (py_range_step (i * tp_size m * cp_size m + j)
          ((i + 1) * tp_size m * cp_size m + j) (cp_size m))"
    by (auto simp: py_range_step_def)
  have "length (py_range_step (i * tp_size m * cp_size m + j)
          ((i + 1) * tp_size m * cp_size m + j) (cp_size m)) = nat (tp_size m)"
    using pos by (intro py_range_step_index(1)) (auto simp: algebra_simps)
  with k have "int k < tp_size m" by simp
  then have "(int k + 1) * cp_size m \<le> tp_size m * cp_size m" using pos by (intro mult_right_mono) auto
  moreover have "(i + 1) * (tp_size m * cp_size m) \<le> pp_size m * (tp_size m * cp_size m)"
    using ij pos by (intro mult_right_mono) auto
  ultimately show ?thesis using k(1) ij pos assms(1)
    by (simp add: wf_mapping_def algebra_simps)
qed

text \<open>
  The tensor-parallel groups partition the world. Every rank of a well-formed mapping occurs in
  exactly one tensor-parallel group and no group holds anything else.
\<close>

theorem tp_groups_partition:
  assumes "wf_mapping m"
  shows "distinct (concat (tp_groups m)) \<and> set (concat (tp_groups m)) = {0..<world_size m}"
proof
  show s: "set (concat (tp_groups m)) = {0..<world_size m}"
    using tp_group_covers[OF assms] tp_groups_within[OF assms] by (auto simp del: set_concat)
  show "distinct (concat (tp_groups m))"
    by (rule card_distinct) (simp add: s length_concat_tp_groups[OF assms] del: set_concat)
qed

text \<open>
  C6: the group a rank looks up is its own. The tensor, context and pipeline groups have the sizes
  of the configuration and the rank sits in each of them at the position its rank property names.
\<close>

theorem rank_sits_in_its_groups:
  assumes "wf_mapping m"
  shows "\<exists>tg cg pg. tp_group m = Inr tg \<and> cp_group m = Inr cg \<and> pp_group m = Inr pg \<and>
     int (length tg) = tp_size m \<and> tg ! nat (tp_rank m) = rank m \<and>
     int (length cg) = cp_size m \<and> cg ! nat (cp_rank m) = rank m \<and>
     int (length pg) = pp_size m \<and> pg ! nat (pp_rank m) = rank m"
proof -
  obtain tg cg pg where g: "tp_group m = Inr tg" "cp_group m = Inr cg" "pp_group m = Inr pg"
    using tp_group_eq[OF assms] cp_group_eq[OF assms] pp_group_eq[OF assms] by simp
  have "0 < tp_size m" "0 < cp_size m" "0 < pp_size m" using assms by (auto simp: wf_mapping_def)
  with g tp_group_index[OF assms g(1)] cp_group_index[OF assms g(2)] pp_group_index[OF assms g(3)]
  show ?thesis by auto
qed

section \<open>The pipeline ring\<close>

lemma pp_digit_unique:
  assumes "wf_mapping m" "0 \<le> q" "q < pp_size m"
    "r = q * (tp_size m * cp_size m) + (tp_rank m * cp_size m + cp_rank m)"
  shows "wf_mapping (m\<lparr>rank := r\<rparr>)" "pp_rank (m\<lparr>rank := r\<rparr>) = q"
    "tp_rank (m\<lparr>rank := r\<rparr>) = tp_rank m" "cp_rank (m\<lparr>rank := r\<rparr>) = cp_rank m"
proof -
  let ?s = "tp_size m * cp_size m" and ?i = "tp_rank m * cp_size m + cp_rank m"
  note b = inner_rank_bound[OF assms(1)] and d = rank_digits[OF assms(1)]
  have s: "0 < ?s" and w: "world_size m = pp_size m * ?s" using assms by (auto simp: wf_mapping_def)
  have "r < (q + 1) * ?s" using assms(4) b by (simp add: algebra_simps)
  also have "\<dots> \<le> pp_size m * ?s" using assms(3) s by (intro mult_right_mono) auto
  finally have "r < world_size m" by (simp add: w)
  moreover have "0 \<le> r" using assms s b by simp
  ultimately show "wf_mapping (m\<lparr>rank := r\<rparr>)" using assms(1) by (intro wf_set_rank)
  have div: "r div ?s = q" and mod: "r mod ?s = ?i"
    unfolding assms(4) using digits_unique[OF s b] by simp_all
  show "pp_rank (m\<lparr>rank := r\<rparr>) = q" by (simp add: pp_rank_def div)
  show "tp_rank (m\<lparr>rank := r\<rparr>) = tp_rank m"
    using d digits_unique(1)[of "cp_size m" "cp_rank m" "tp_rank m"] by (simp add: tp_rank_def mod)
  have "r mod cp_size m = r mod ?s mod cp_size m" by (simp add: mod_mod_cancel)
  also have "\<dots> = cp_rank m" unfolding mod using d by (intro digits_unique(2)) auto
  finally show "cp_rank (m\<lparr>rank := r\<rparr>) = cp_rank m" by (simp add: cp_rank_def)
qed

lemma next_pp_rank_digits:
  assumes "wf_mapping m"
  shows "next_pp_rank m = ((pp_rank m + 1) mod pp_size m) * (tp_size m * cp_size m)
           + (tp_rank m * cp_size m + cp_rank m)"
proof -
  let ?s = "tp_size m * cp_size m"
  note b = inner_rank_bound[OF assms] and d = rank_digits[OF assms]
  have s: "0 < ?s" and w: "world_size m = pp_size m * ?s" using assms by (auto simp: wf_mapping_def)
  show ?thesis
  proof (cases "pp_rank m = pp_size m - 1")
    case True
    with d(1) b w s show ?thesis by (simp add: next_pp_rank_def Let_def algebra_simps)
  next
    case False
    then have "pp_rank m + 2 \<le> pp_size m" using d by simp
    then have "(pp_rank m + 2) * ?s \<le> pp_size m * ?s" using s by (intro mult_right_mono) auto
    moreover have "(pp_rank m + 1) mod pp_size m = pp_rank m + 1" using d False by simp
    ultimately show ?thesis using d(1) b w by (simp add: next_pp_rank_def Let_def algebra_simps)
  qed
qed

text \<open>
  The pipeline stages form a ring. The rank that \<open>next_pp_rank\<close> names is the same position of
  the next stage (cyclically), and \<open>prev_pp_rank\<close> leads back from it.
\<close>

theorem pp_ring:
  assumes "wf_mapping m"
  shows "wf_mapping (m\<lparr>rank := next_pp_rank m\<rparr>) \<and>
     pp_rank (m\<lparr>rank := next_pp_rank m\<rparr>) = (pp_rank m + 1) mod pp_size m \<and>
     tp_rank (m\<lparr>rank := next_pp_rank m\<rparr>) = tp_rank m \<and>
     cp_rank (m\<lparr>rank := next_pp_rank m\<rparr>) = cp_rank m \<and>
     prev_pp_rank (m\<lparr>rank := next_pp_rank m\<rparr>) = rank m"
proof -
  have pos: "0 < pp_size m" using assms by (simp add: wf_mapping_def)
  have "prev_pp_rank (m\<lparr>rank := next_pp_rank m\<rparr>) = rank m"
    using assms by (auto simp: prev_pp_rank_def next_pp_rank_def Let_def wf_mapping_def)
  then show ?thesis
    using pp_digit_unique[OF assms _ _ next_pp_rank_digits[OF assms]] pos by simp
qed

section \<open>Layers over pipeline stages\<close>

text \<open>
  The documented behaviour of \<open>torch.tensor_split(x, k)\<close> for a positive number of sections and of
  \<open>x.split(sizes)\<close>: the sections are consecutive pieces of the input, of the lengths stated.
\<close>

definition tensor_split_spec :: "'a tensor_split_fn \<Rightarrow> bool" where
  "tensor_split_spec f \<longleftrightarrow> (\<forall>xs k. 0 < k \<longrightarrow> concat (f xs k) = xs \<and> int (length (f xs k)) = k \<and>
     (\<forall>i < length (f xs k). int (length (f xs k ! i)) =
        int (length xs) div k + (if int i < int (length xs) mod k then 1 else 0)))"

definition split_spec :: "split_fn \<Rightarrow> bool" where
  "split_spec f \<longleftrightarrow> (\<forall>xs part. (\<forall>n \<in> set part. 0 \<le> n) \<and> sum_list part = int (length xs) \<longrightarrow>
     concat (f xs part) = xs \<and> map (int \<circ> length) (f xs part) = part)"

fun pieces :: "nat list \<Rightarrow> 'a list \<Rightarrow> 'a list list" where
  "pieces [] xs = []"
| "pieces (n # ns) xs = take n xs # pieces ns (drop n xs)"

lemma pieces_concat: "pieces (map length xss) (concat xss) = xss"
  by (induction xss) auto

lemma length_pieces [simp]: "length (pieces ns xs) = length ns"
  by (induction ns arbitrary: xs) auto

lemma map_length_pieces: "sum_list ns = length xs \<Longrightarrow> map length (pieces ns xs) = ns"
  by (induction ns arbitrary: xs) auto

lemma concat_pieces: "sum_list ns = length xs \<Longrightarrow> concat (pieces ns xs) = xs"
  by (induction ns arbitrary: xs) auto

lemma nth_pieces:
  "i < length ns \<Longrightarrow> pieces ns xs ! i = take (ns ! i) (drop (sum_list (take i ns)) xs)"
proof (induction ns arbitrary: xs i)
  case (Cons n ns)
  then show ?case by (cases i) (simp_all add: add.commute)
qed simp

lemma sum_list_map_int: "sum_list (map int ns) = int (sum_list ns)"
  by (induction ns) auto

lemma take_drop_py_range:
  assumes "int (a + n) \<le> b"
  shows "set (take n (drop a (py_range 0 b))) = {int a..<int (a + n)}"
proof -
  have "take n (drop a (py_range 0 b)) = map int [a..<a + n]"
    using assms by (simp add: py_range_zero take_map drop_map)
  then show ?thesis by (simp add: image_int_atLeastLessThan)
qed

lemma section_members:
  assumes "concat xss = py_range 0 n" "i < length xss" "0 \<le> n"
  shows "l \<in> set (xss ! i) \<longleftrightarrow>
     int (sum_list (take i (map length xss))) \<le> l \<and> l < int (sum_list (take (Suc i) (map length xss)))"
proof -
  let ?ns = "map length xss"
  have "xss ! i = take (?ns ! i) (drop (sum_list (take i ?ns)) (py_range 0 n))"
    using nth_pieces[of i ?ns "concat xss", unfolded pieces_concat] assms by simp
  moreover have suc: "sum_list (take (Suc i) ?ns) = sum_list (take i ?ns) + ?ns ! i"
    using assms(2) by (simp add: take_Suc_conv_app_nth)
  moreover have "int (sum_list (take (Suc i) ?ns)) \<le> n"
  proof -
    have "sum_list ?ns = length (concat xss)" by (simp add: length_concat)
    moreover have "sum_list ?ns = sum_list (take (Suc i) ?ns) + sum_list (drop (Suc i) ?ns)"
      by (metis append_take_drop_id sum_list_append)
    ultimately show ?thesis using assms by auto
  qed
  ultimately show ?thesis using take_drop_py_range[of "sum_list (take i ?ns)" "?ns ! i" n] by simp
qed

lemma find_partition_Inr:
  assumes "\<forall>n \<in> set ns. 0 \<le> n" "acc \<le> l"
  shows "find_partition ns l acc r = Inr (r + int i) \<longleftrightarrow>
     i < length ns \<and> acc + sum_list (take i ns) \<le> l \<and> l < acc + sum_list (take (Suc i) ns)"
  using assms
proof (induction ns arbitrary: acc r i)
  case (Cons n ns)
  show ?case
  proof (cases i)
    case 0
    have "find_partition ns l (acc + n) (r + 1) \<noteq> Inr r" for acc
    proof -
      have "find_partition ns l acc r' = Inr q \<Longrightarrow> r' \<le> q" for acc r' q
        by (induction ns arbitrary: acc r') (auto split: if_splits, force)
      then show ?thesis by force
    qed
    with 0 Cons.prems show ?thesis by auto
  next
    case (Suc i')
    show ?thesis
    proof (cases "l < acc + n")
      case True
      moreover have "0 \<le> sum_list (take i' ns)"
        using Cons.prems by (intro sum_list_nonneg) (auto dest: in_set_takeD)
      ultimately show ?thesis using Suc by auto
    next
      case False
      with Cons.IH[of "acc + n" "r + 1" i'] Cons.prems Suc show ?thesis by (simp add: algebra_simps)
    qed
  qed
qed simp

lemma sum_list_take_nonneg_mono:
  "\<forall>n \<in> set ns. 0 \<le> (n::int) \<Longrightarrow> sum_list (take i ns) \<le> sum_list ns"
  using append_take_drop_id[of i ns] sum_list_append[of "take i ns" "drop i ns"]
    sum_list_nonneg[of "drop i ns"] by (auto dest: in_set_dropD)

lemma sum_even_sections:
  assumes "\<forall>j < length xss. int (length (xss ! j)) = base + (if int j < rem then 1 else 0)"
    "0 \<le> rem" "i \<le> length xss"
  shows "int (sum_list (take i (map length xss))) = int i * base + min (int i) rem"
  using assms
proof (induction i)
  case (Suc i)
  then have "int (sum_list (take (Suc i) (map length xss))) =
      int (sum_list (take i (map length xss))) + int (length (xss ! i))"
    by (simp add: take_Suc_conv_app_nth)
  also have "\<dots> = int i * base + min (int i) rem + (base + (if int i < rem then 1 else 0))"
    using Suc by simp
  also have "\<dots> = int (Suc i) * base + min (int (Suc i)) rem"
    by (simp add: algebra_simps min_def)
  finally show ?case .
qed simp

lemma even_section_owner:
  fixes n k p l base rem :: int
  assumes "0 \<le> l" "l < n" "0 \<le> p" "p < k" "n = base * k + rem" "0 \<le> base" "0 \<le> rem" "rem < k"
  shows "p * base + min p rem \<le> l \<and> l < (p + 1) * base + min (p + 1) rem \<longleftrightarrow>
     (if base = 0 then l
      else if l < (base + 1) * rem then l div (base + 1)
      else rem + (l - (base + 1) * rem) div base) = p"
proof (cases "base = 0")
  case True
  then have "n = rem" using assms by simp
  with True assms(1-4,7,8) show ?thesis by (auto simp: min_def)
next
  case False
  with assms(6) have bpos: "0 < base" by simp
  show ?thesis
  proof (cases "p < rem")
    case True
    have "(p + 1) * (base + 1) \<le> rem * (base + 1)" using True bpos by (intro mult_right_mono) auto
    then have "\<not> l < (p + 1) * (base + 1)" if "\<not> l < (base + 1) * rem"
      using that by (simp only: mult.commute[of "base + 1" rem] not_less)
    moreover have "p * base + min p rem = p * (base + 1)"
      "(p + 1) * base + min (p + 1) rem = (p + 1) * (base + 1)"
      using True by (auto simp: min_def algebra_simps)
    moreover have "rem + (l - (base + 1) * rem) div base \<noteq> p" if "\<not> l < (base + 1) * rem"
      using that bpos True pos_imp_zdiv_nonneg_iff[OF bpos, of "l - (base + 1) * rem"] by simp
    ultimately show ?thesis
      using \<open>base \<noteq> 0\<close> bpos int_div_eq_iff[of "base + 1" l p]
      by (cases "l < (base + 1) * rem") (simp_all add: mult.commute[of "base + 1" rem])
  next
    case False
    have "l div (base + 1) \<noteq> p" if "l < (base + 1) * rem"
      using that bpos False int_div_less[of "base + 1" l rem] by (auto simp: mult.commute)
    moreover have "0 \<le> (p - rem) * base" using False bpos by simp
    moreover have "p * base + min p rem = (p - rem) * base + (base + 1) * rem"
      "(p + 1) * base + min (p + 1) rem = (p - rem + 1) * base + (base + 1) * rem"
      using False by (auto simp: min_def algebra_simps)
    moreover have "rem + (l - (base + 1) * rem) div base = p \<longleftrightarrow>
        (p - rem) * base \<le> l - (base + 1) * rem \<and> l - (base + 1) * rem < (p - rem + 1) * base"
      using int_div_eq_iff[OF bpos, of "l - (base + 1) * rem" "p - rem"] by auto
    ultimately show ?thesis
      using \<open>base \<noteq> 0\<close> by (cases "l < (base + 1) * rem") auto
  qed
qed

lemma pp_layers_even:
  assumes "wf_mapping m" "tensor_split_spec ts" "pp_partition m = None" "0 \<le> l" "l < n"
    "pp_layers ts sp m n = Inr ls"
  shows "l \<in> set ls \<longleftrightarrow> pp_rank_of_layer m l n = Inr (pp_rank m)"
proof -
  note d = rank_digits[OF assms(1)]
  let ?xss = "ts (py_range 0 n) (pp_size m)" and ?p = "nat (pp_rank m)"
  have pos: "0 < pp_size m" and n: "0 \<le> n" using d assms by simp_all
  then have xss: "concat ?xss = py_range 0 n" "int (length ?xss) = pp_size m"
    "\<forall>j < length ?xss. int (length (?xss ! j)) =
        n div pp_size m + (if int j < n mod pp_size m then 1 else 0)"
    using assms(2,4,5) unfolding tensor_split_spec_def by auto
  have p: "?p < length ?xss" using d xss(2) by auto
  then have ls: "ls = ?xss ! ?p" using assms(3,6) d by (auto simp: pp_layers_def)
  have "l \<in> set ls \<longleftrightarrow> pp_rank m * (n div pp_size m) + min (pp_rank m) (n mod pp_size m) \<le> l \<and>
      l < (pp_rank m + 1) * (n div pp_size m) + min (pp_rank m + 1) (n mod pp_size m)"
    unfolding ls section_members[OF xss(1) p n]
    using sum_even_sections[OF xss(3), of ?p] sum_even_sections[OF xss(3), of "Suc ?p"] p pos d
    by (simp add: add.commute)
  also have "\<dots> \<longleftrightarrow> pp_rank_of_layer m l n = Inr (pp_rank m)"
  proof (cases "has_pp m")
    case True
    let ?b = "n div pp_size m" and ?r = "n mod pp_size m"
    have "pp_rank_of_layer m l n = Inr (if ?b = 0 then l
        else if l < (?b + 1) * ?r then l div (?b + 1) else ?r + (l - (?b + 1) * ?r) div ?b)"
      using True assms by (simp add: pp_rank_of_layer_def Let_def)
    moreover have "0 \<le> ?b" "0 \<le> ?r" "?r < pp_size m"
      using pos n by (simp_all add: pos_imp_zdiv_nonneg_iff)
    ultimately show ?thesis
      using even_section_owner[OF assms(4,5) d(6,7), of ?b ?r]
      by (simp only: sum.inject div_mult_mod_eq)
  next
    case False
    then have "pp_size m = 1" "pp_rank m = 0" using d pos by (auto simp: has_pp_def)
    with False assms show ?thesis by (simp add: pp_rank_of_layer_def)
  qed
  finally show ?thesis .
qed

lemma pp_layers_partition:
  assumes "wf_mapping m" "split_spec sp" "pp_partition m = Some part" "\<forall>n \<in> set part. 0 \<le> n"
    "0 \<le> l" "l < n" "pp_layers ts sp m n = Inr ls"
  shows "l \<in> set ls \<longleftrightarrow> pp_rank_of_layer m l n = Inr (pp_rank m)"
proof -
  note d = rank_digits[OF assms(1)]
  let ?xss = "sp (py_range 0 n) part" and ?p = "nat (pp_rank m)"
  have part: "int (length part) = pp_size m" "sum_list part = n"
    using assms(3,7) by (auto simp: pp_layers_def split: if_splits)
  have xss: "concat ?xss = py_range 0 n" "map (int \<circ> length) ?xss = part"
    using assms(2,4,5,6) part(2) unfolding split_spec_def by auto
  have len: "length ?xss = length part" using arg_cong[OF xss(2), of length] by simp
  have p: "?p < length ?xss" using d part(1) len by auto
  then have ls: "ls = ?xss ! ?p" using assms(3,7) d part len by (auto simp: pp_layers_def)
  have n: "0 \<le> n" using assms by simp
  have sums: "int (sum_list (take i (map length ?xss))) = sum_list (take i part)" for i
  proof -
    have "take i part = map int (take i (map length ?xss))"
      using arg_cong[OF xss(2), of "take i"] by (simp add: take_map)
    then show ?thesis by (simp add: sum_list_map_int)
  qed
  have "l \<in> set ls \<longleftrightarrow> sum_list (take ?p part) \<le> l \<and> l < sum_list (take (Suc ?p) part)"
    unfolding ls section_members[OF xss(1) p n] sums ..
  also have "\<dots> \<longleftrightarrow> find_partition part l 0 0 = Inr (pp_rank m)"
    using find_partition_Inr[OF assms(4), of 0 l 0 ?p] assms(5) p len d by simp
  also have "\<dots> \<longleftrightarrow> pp_rank_of_layer m l n = Inr (pp_rank m)"
  proof (cases "has_pp m")
    case True
    then show ?thesis using assms part by (simp add: pp_rank_of_layer_def)
  next
    case False
    then have "pp_size m = 1" "pp_rank m = 0" using d by (auto simp: has_pp_def)
    moreover from this part obtain q where "part = [q]"
      by (metis One_nat_def Suc_length_conv int_eq_iff_numeral length_0_conv nat_int of_nat_1 of_nat_eq_iff)
    ultimately show ?thesis using False assms part by (simp add: pp_rank_of_layer_def)
  qed
  finally show ?thesis .
qed

text \<open>
  \<open>pp_rank_of_layer\<close> mirrors \<open>pp_layers\<close>. For an even split and for an explicit \<open>pp_partition\<close>
  alike, a layer is in the list a rank computes for itself exactly when \<open>pp_rank_of_layer\<close> names
  that rank's pipeline stage.
\<close>

theorem pp_layers_owner:
  assumes "wf_mapping m" "tensor_split_spec ts" "split_spec sp"
    "\<forall>part. pp_partition m = Some part \<longrightarrow> (\<forall>n \<in> set part. 0 \<le> n)"
    "0 \<le> l" "l < n" "pp_layers ts sp m n = Inr ls"
  shows "l \<in> set ls \<longleftrightarrow> pp_rank_of_layer m l n = Inr (pp_rank m)"
proof (cases "pp_partition m")
  case None
  then show ?thesis using assms by (intro pp_layers_even)
next
  case (Some part)
  then show ?thesis using assms by (intro pp_layers_partition) auto
qed

section \<open>Serialisation\<close>

lemma moe_sizes_fixed:
  assumes "moe_sizes w c mtp0 mep0 = Inr (mtp, mep)" "mtp * mep * c = w" "w \<noteq> 0"
  shows "moe_sizes w c mtp mep = Inr (mtp, mep)"
proof -
  have nz: "mtp \<noteq> 0" "mep \<noteq> 0" "c \<noteq> 0" using assms by auto
  have "mep \<noteq> -1 \<or> mtp \<noteq> -1"
    using assms(1) by (auto simp: moe_sizes_def split: if_splits)
  moreover have "w div (mep * c) = mtp" "w div (mtp * c) = mep"
    using nz unfolding assms(2)[symmetric] by (simp_all add: mult.assoc mult.left_commute)
  ultimately show ?thesis using nz by (auto simp: moe_sizes_def)
qed

lemma attn_sizes_fixed:
  assumes "attn_sizes t tp cp atp0 acp0 = Inr (atp, acp)" "atp * acp = tp * cp" "0 < tp" "0 < cp"
  shows "attn_sizes t tp cp atp acp = Inr (atp, acp)"
proof -
  have nz: "atp \<noteq> 0" "acp \<noteq> 0" using assms by auto
  have "acp \<noteq> -1 \<or> atp \<noteq> -1"
  proof (rule ccontr)
    assume "\<not> (acp \<noteq> -1 \<or> atp \<noteq> -1)"
    with assms(1,3,4) show False
      by (auto simp: attn_sizes_def py_div_def split: if_splits)
  qed
  moreover have "tp * cp div acp = atp" "tp * cp div atp = acp"
    using nz unfolding assms(2)[symmetric] by simp_all
  ultimately show ?thesis using nz by (auto simp: attn_sizes_def)
qed

lemma convert_cp_config_fixed:
  assumes "convert_cp_config cfg = Inr (cfg', t)"
  shows "convert_cp_config (Some (case cfg' of None \<Rightarrow> empty_cp_config | Some c \<Rightarrow> c)) =
     Inr (Some (case cfg' of None \<Rightarrow> empty_cp_config | Some c \<Rightarrow> c), t)"
  using assms
  by (auto simp: convert_cp_config_def empty_cp_config_def split: option.splits cp_type_val.splits)

text \<open>
  What a dictionary round trip keeps. Rebuilding a mapping from its own dictionary succeeds and
  restores every field except \<open>pp_partition\<close>, which \<open>to_dict\<close> does not write.
\<close>

theorem from_dict_to_dict:
  assumes "mapping_init a = Inr m" "0 < a_tp_size a" "0 < a_cp_size a"
  shows "from_dict (to_dict m) = Inr (m\<lparr>pp_partition := None\<rparr>)"
proof -
  obtain cfg t mtp mep atp acp cluster where
    c: "convert_cp_config (a_cp_config a) = Inr (cfg, t)"
    and cl: "cluster = (if a_moe_cluster_size a = -1 then 1 else a_moe_cluster_size a)"
    and mo: "moe_sizes (if t = ULYSSES then a_tp_size a else a_tp_size a * a_cp_size a) cluster
           (a_moe_tp_size a) (a_moe_ep_size a) = Inr (mtp, mep)"
    and at: "attn_sizes t (a_tp_size a) (a_cp_size a) (a_attn_tp_size a) (a_attn_cp_size a) = Inr (atp, acp)"
    and h: "acp = 1 \<or> t \<noteq> ULYSSES" "a_tp_size a * a_pp_size a * a_cp_size a = a_world_size a"
      "mtp * mep * cluster = (if t = ULYSSES then a_tp_size a else a_tp_size a * a_cp_size a)"
      "atp * acp = a_tp_size a * a_cp_size a" "mep = 1 \<or> a_cp_size a \<le> 1 \<or> t = HELIX"
      "cluster \<le> 1 \<or> mep = 1" "a_enable_lm_head_tp_in_adp a \<longrightarrow> a_enable_attention_dp a"
      "a_enable_attention_dp a \<or> 0 \<le> a_rank a \<and> a_rank a < a_world_size a"
    and m: "m = \<lparr>tp_size = a_tp_size a, cp_size = a_cp_size a,
         cp_cfg = (case cfg of None \<Rightarrow> empty_cp_config | Some c \<Rightarrow> c),
         pp_size = a_pp_size a, pp_partition = a_pp_partition a,
         moe_tp_size = mtp, moe_ep_size = mep, moe_cluster_size = cluster,
         moe_tp_cluster_ep_size = mtp * mep * cluster,
         attn_tp_size = atp, attn_cp_size = acp, world_size = a_world_size a,
         enable_attention_dp = a_enable_attention_dp a,
         enable_lm_head_tp_in_adp = a_enable_lm_head_tp_in_adp a,
         rank = a_rank a, gpus_per_node = a_gpus_per_node a\<rparr>"
    by (rule mapping_init_Inr[OF assms(1)]) blast
  let ?w = "if t = ULYSSES then a_tp_size a else a_tp_size a * a_cp_size a"
  have cl': "cluster \<noteq> -1" using cl by auto
  have mo': "moe_sizes ?w cluster mtp mep = Inr (mtp, mep)"
    using assms(2,3) by (intro moe_sizes_fixed[OF mo h(3)]) auto
  have at': "attn_sizes t (a_tp_size a) (a_cp_size a) atp acp = Inr (atp, acp)"
    by (rule attn_sizes_fixed[OF at h(4) assms(2,3)])
  have "mapping_init (to_dict m) = Inr \<lparr>tp_size = a_tp_size (to_dict m), cp_size = a_cp_size (to_dict m),
         cp_cfg = cp_cfg m, pp_size = a_pp_size (to_dict m), pp_partition = a_pp_partition (to_dict m),
         moe_tp_size = mtp, moe_ep_size = mep, moe_cluster_size = cluster,
         moe_tp_cluster_ep_size = mtp * mep * cluster,
         attn_tp_size = atp, attn_cp_size = acp, world_size = a_world_size (to_dict m),
         enable_attention_dp = a_enable_attention_dp (to_dict m),
         enable_lm_head_tp_in_adp = a_enable_lm_head_tp_in_adp (to_dict m),
         rank = a_rank (to_dict m), gpus_per_node = a_gpus_per_node (to_dict m)\<rparr>"
    using convert_cp_config_fixed[OF c] cl' mo' at' h
    by (subst mapping_init_intro[where cfg = "Some (cp_cfg m)" and t = t and w = ?w])
       (simp_all add: to_dict_def m default_args_def)
  then show ?thesis by (simp add: from_dict_def to_dict_def default_args_def m)
qed

section \<open>Mixture-of-experts groups\<close>

definition wf_moe :: "pmapping \<Rightarrow> bool" where
  "wf_moe m \<longleftrightarrow> cp_size m = 1 \<and> 0 < moe_tp_size m \<and> 0 < moe_ep_size m \<and> 0 < moe_cluster_size m \<and>
     tp_size m = moe_tp_size m * (moe_cluster_size m * moe_ep_size m) \<and>
     moe_tp_cluster_ep_size m = tp_size m \<and> (moe_cluster_size m = 1 \<or> moe_ep_size m = 1)"

lemma moe_digits:
  assumes "wf_mapping m" "wf_moe m"
  shows "tp_rank m = moe_tp_rank m * (moe_cluster_size m * moe_ep_size m)
           + (moe_cluster_rank m * moe_ep_size m + moe_ep_rank m)"
    and "0 \<le> moe_tp_rank m" "moe_tp_rank m < moe_tp_size m"
    and "0 \<le> moe_cluster_rank m" "moe_cluster_rank m < moe_cluster_size m"
    and "0 \<le> moe_ep_rank m" "moe_ep_rank m < moe_ep_size m"
    and "rank m = pp_rank m * moe_tp_cluster_ep_size m + tp_rank m"
proof -
  note d = rank_digits[OF assms(1)]
  have pos: "0 < moe_tp_size m" "0 < moe_ep_size m" "0 < moe_cluster_size m" "cp_size m = 1"
    and tp: "tp_size m = moe_tp_size m * (moe_cluster_size m * moe_ep_size m)"
    and s: "moe_tp_cluster_ep_size m = tp_size m"
    and one: "moe_cluster_size m = 1 \<or> moe_ep_size m = 1"
    using assms(2) by (auto simp: wf_moe_def)
  show "tp_rank m = moe_tp_rank m * (moe_cluster_size m * moe_ep_size m)
      + (moe_cluster_rank m * moe_ep_size m + moe_ep_rank m)"
    using one by (auto simp: moe_tp_rank_def moe_cluster_rank_def moe_ep_rank_def)
  show "0 \<le> moe_tp_rank m"
    using d pos by (simp add: moe_tp_rank_def pos_imp_zdiv_nonneg_iff)
  show "moe_tp_rank m < moe_tp_size m"
    unfolding moe_tp_rank_def using d pos tp by (intro int_div_less) (auto simp: mult.commute)
  show "0 \<le> moe_cluster_rank m" "moe_cluster_rank m < moe_cluster_size m"
    "0 \<le> moe_ep_rank m" "moe_ep_rank m < moe_ep_size m"
    using pos by (simp_all add: moe_cluster_rank_def moe_ep_rank_def)
  have "cp_rank m = 0" using pos by (simp add: cp_rank_def)
  then show "rank m = pp_rank m * moe_tp_cluster_ep_size m + tp_rank m"
    using d(1) pos(4) s by simp
qed

lemma moe_tp_group_index:
  assumes "wf_mapping m" "wf_moe m"
  shows "\<exists>g. moe_tp_group m = Inr g \<and> int (length g) = moe_tp_size m \<and> g ! nat (moe_tp_rank m) = rank m"
proof -
  note d = moe_digits[OF assms] and r = rank_digits[OF assms(1)]
  let ?ce = "moe_cluster_size m * moe_ep_size m" and ?s = "moe_tp_cluster_ep_size m"
  let ?j = "moe_cluster_rank m * moe_ep_size m + moe_ep_rank m"
  let ?a = "pp_rank m * ?s + ?j" and ?b = "(pp_rank m + 1) * ?s"
  have s: "?s = moe_tp_size m * ?ce" using assms(2) by (simp add: wf_moe_def)
  have "(moe_cluster_rank m + 1) * moe_ep_size m \<le> ?ce" using d by (intro mult_right_mono) auto
  then have j: "0 \<le> ?j" "?j < ?ce" using d by (auto simp: algebra_simps)
  have "moe_tp_group m = py_index (moe_tp_groups m) (pp_rank m * ?ce + ?j)"
    by (simp add: moe_tp_group_def algebra_simps)
  also have "\<dots> = Inr (py_range_step ?a ?b ?ce)"
    unfolding moe_tp_groups_def using j r by (intro py_index_grid) auto
  finally have g: "moe_tp_group m = Inr (py_range_step ?a ?b ?ce)" .
  have n: "0 < ?ce" "0 \<le> moe_tp_size m" "?a + moe_tp_size m * ?ce - ?ce < ?b" "?b \<le> ?a + moe_tp_size m * ?ce"
    using j d by (auto simp: s algebra_simps)
  have "py_range_step ?a ?b ?ce ! nat (moe_tp_rank m) = rank m"
    using py_range_step_index(2)[OF n, of "moe_tp_rank m"] d by (simp add: algebra_simps)
  with g py_range_step_index(1)[OF n] n(2) show ?thesis by auto
qed

lemma moe_ep_group_index:
  assumes "wf_mapping m" "wf_moe m"
  shows "\<exists>g. moe_ep_group m = Inr g \<and> int (length g) = moe_ep_size m \<and> g ! nat (moe_ep_rank m) = rank m"
proof -
  note d = moe_digits[OF assms] and r = rank_digits[OF assms(1)]
  let ?t = "moe_tp_size m" and ?c = "moe_cluster_size m"
  define F where "F i j k = py_range (i * moe_tp_cluster_ep_size m + j * ?c * moe_ep_size m + k * moe_ep_size m)
      (i * moe_tp_cluster_ep_size m + j * ?c * moe_ep_size m + (k + 1) * moe_ep_size m)" for i j k
  let ?in = "moe_tp_rank m * ?c + moe_cluster_rank m"
  have "(moe_tp_rank m + 1) * ?c \<le> ?t * ?c" using d by (intro mult_right_mono) auto
  then have inner: "0 \<le> ?in" "?in < ?t * ?c" using d by (auto simp: algebra_simps)
  have len: "length (grid ?t ?c (F i)) = nat (?t * ?c)" for i
    using d by (simp add: nat_mult_distrib)
  have "moe_ep_group m = py_index (concat (map (\<lambda>i. grid ?t ?c (F i)) (py_range 0 (pp_size m))))
      (pp_rank m * (?t * ?c) + ?in)"
    by (simp add: moe_ep_group_def moe_ep_groups_def F_def[abs_def] algebra_simps)
  also have "\<dots> = Inr (grid ?t ?c (F (pp_rank m)) ! nat ?in)"
    using r inner by (subst py_index_concat_const[OF len]) auto
  also have "\<dots> = Inr (F (pp_rank m) (moe_tp_rank m) (moe_cluster_rank m))"
    using d by (simp add: nth_grid)
  finally have "moe_ep_group m = Inr (F (pp_rank m) (moe_tp_rank m) (moe_cluster_rank m))" .
  moreover have "F (pp_rank m) (moe_tp_rank m) (moe_cluster_rank m) ! nat (moe_ep_rank m) = rank m"
    unfolding F_def using d by (subst nth_py_range) (auto simp: algebra_simps)
  moreover have "int (length (F (pp_rank m) (moe_tp_rank m) (moe_cluster_rank m))) = moe_ep_size m"
    unfolding F_def using d by (simp add: algebra_simps)
  ultimately show ?thesis by blast
qed

text \<open>
  Without context parallelism the expert groups are consistent. Each rank sits in the
  mixture-of-experts tensor group and expert group that it looks up, at the position its
  \<open>moe_tp_rank\<close> and \<open>moe_ep_rank\<close> name.
\<close>

theorem rank_sits_in_its_moe_groups:
  assumes "wf_mapping m" "wf_moe m"
  shows "\<exists>tg eg. moe_tp_group m = Inr tg \<and> moe_ep_group m = Inr eg \<and>
     int (length tg) = moe_tp_size m \<and> tg ! nat (moe_tp_rank m) = rank m \<and>
     int (length eg) = moe_ep_size m \<and> eg ! nat (moe_ep_rank m) = rank m"
  using moe_tp_group_index[OF assms] moe_ep_group_index[OF assms] by blast

text \<open>
  With context parallelism of type ULYSSES the expert groups are not consistent: the groups are
  laid out over \<open>moe_tp_cluster_ep_size = tp_size\<close> consecutive ranks while the ranks of one
  tensor-parallel group are \<open>cp_size\<close> apart. In a world of four ranks with \<open>tp_size = cp_size = 2\<close>,
  rank 2 looks up a mixture-of-experts tensor group that does not contain it.
\<close>

theorem ulysses_moe_group_misses_rank:
  "\<exists>m. mapping_init (default_args\<lparr>a_world_size := 4, a_rank := 2, a_tp_size := 2, a_cp_size := 2\<rparr>) = Inr m \<and>
     wf_mapping m \<and> moe_tp_group m = Inr [0, 1] \<and> rank m = 2"
  by (simp add: mapping_init_def default_args_def convert_cp_config_def moe_sizes_def attn_sizes_def
      set_rank_def wf_mapping_def moe_tp_group_def moe_tp_groups_def grid_def py_range_def
      py_range_step_def pp_rank_def moe_cluster_rank_def moe_ep_rank_def tp_rank_def py_index_def
      upt_rec Let_def)

section \<open>Reference splits and witnesses\<close>

definition tensor_split_ref :: "'a tensor_split_fn" where
  "tensor_split_ref xs k = pieces (map (\<lambda>i. nat (int (length xs) div k +
     (if int i < int (length xs) mod k then 1 else 0))) [0..<nat k]) xs"

definition split_ref :: split_fn where
  "split_ref xs part = pieces (map nat part) xs"

lemma sum_even_lengths:
  assumes "0 \<le> base" "0 \<le> rem"
  shows "int (sum_list (map (\<lambda>i. nat (base + (if int i < rem then 1 else 0))) [0..<k])) =
    int k * base + min (int k) rem"
  using assms by (induction k) (auto simp: min_def algebra_simps)

lemma tensor_split_ref_spec: "tensor_split_spec tensor_split_ref"
  unfolding tensor_split_spec_def
proof (intro allI impI)
  fix xs :: "'a list" and k :: int assume k: "0 < k"
  let ?b = "int (length xs) div k" and ?r = "int (length xs) mod k"
  let ?ns = "map (\<lambda>i. nat (?b + (if int i < ?r then 1 else 0))) [0..<nat k]"
  have b: "0 \<le> ?b" "0 \<le> ?r" "?r < k" using k by (simp_all add: pos_imp_zdiv_nonneg_iff)
  have "int (sum_list ?ns) = int (nat k) * ?b + min (int (nat k)) ?r"
    by (rule sum_even_lengths[OF b(1,2)])
  also have "\<dots> = k * ?b + ?r" using b(3) k by simp
  also have "\<dots> = int (length xs)" by simp
  finally have sum: "sum_list ?ns = length xs" by (simp only: of_nat_eq_iff)
  have ref: "tensor_split_ref xs k = pieces ?ns xs" by (simp add: tensor_split_ref_def)
  have "int (length (pieces ?ns xs ! i)) = ?b + (if int i < ?r then 1 else 0)" if "i < nat k" for i
  proof -
    have "length (pieces ?ns xs ! i) = ?ns ! i"
      using map_length_pieces[OF sum] that by (metis (no_types, lifting) length_map length_pieces length_upt nth_map diff_zero)
    then show ?thesis using that b by simp
  qed
  then show "concat (tensor_split_ref xs k) = xs \<and> int (length (tensor_split_ref xs k)) = k \<and>
      (\<forall>i < length (tensor_split_ref xs k). int (length (tensor_split_ref xs k ! i)) =
         ?b + (if int i < ?r then 1 else 0))"
    unfolding ref using concat_pieces[OF sum] k by simp
qed

lemma split_ref_spec: "split_spec split_ref"
  unfolding split_spec_def split_ref_def
proof (intro allI impI)
  fix xs part :: "int list"
  assume h: "(\<forall>n \<in> set part. 0 \<le> n) \<and> sum_list part = int (length xs)"
  have "map int (map nat part) = part" using h by (simp add: map_idI)
  then have "int (sum_list (map nat part)) = int (length xs)" using h by (metis sum_list_map_int)
  then have sum: "sum_list (map nat part) = length xs" by (simp only: of_nat_eq_iff)
  have "map (int \<circ> length) (pieces (map nat part) xs) = map int (map nat part)"
    using map_length_pieces[OF sum] by (metis map_map)
  with \<open>map int (map nat part) = part\<close> concat_pieces[OF sum]
  show "concat (pieces (map nat part) xs) = xs \<and> map (int \<circ> length) (pieces (map nat part) xs) = part"
    by simp
qed

text \<open>A world of four ranks: two pipeline stages of two tensor-parallel ranks, seen from rank 3.\<close>

definition example_args :: mapping_args where
  "example_args = default_args\<lparr>a_world_size := 4, a_rank := 3, a_tp_size := 2, a_pp_size := 2\<rparr>"

definition example_mapping :: pmapping where
  "example_mapping = \<lparr>tp_size = 2, cp_size = 1, cp_cfg = empty_cp_config, pp_size = 2,
     pp_partition = None, moe_tp_size = 2, moe_ep_size = 1, moe_cluster_size = 1,
     moe_tp_cluster_ep_size = 2, attn_tp_size = 2, attn_cp_size = 1, world_size = 4,
     enable_attention_dp = False, enable_lm_head_tp_in_adp = False, rank = 3, gpus_per_node = 8\<rparr>"

lemma example_mapping_init: "mapping_init example_args = Inr example_mapping"
  by (simp add: mapping_init_def example_args_def default_args_def convert_cp_config_def
      moe_sizes_def attn_sizes_def set_rank_def example_mapping_def)

lemma example_mapping_wf: "wf_mapping example_mapping" "wf_moe example_mapping"
  by (simp_all add: wf_mapping_def wf_moe_def example_mapping_def)

theorem tp_groups_partition_witness:
  "wf_mapping example_mapping \<and> distinct (concat (tp_groups example_mapping)) \<and>
     set (concat (tp_groups example_mapping)) = {0..<world_size example_mapping}"
  using example_mapping_wf(1) tp_groups_partition[OF example_mapping_wf(1)] by blast

theorem rank_sits_in_its_groups_witness:
  "wf_mapping example_mapping \<and> (\<exists>tg. tp_group example_mapping = Inr tg \<and>
     tg ! nat (tp_rank example_mapping) = rank example_mapping)"
  using example_mapping_wf(1) rank_sits_in_its_groups[OF example_mapping_wf(1)] by blast

theorem pp_ring_witness:
  "wf_mapping example_mapping \<and>
     prev_pp_rank (example_mapping\<lparr>rank := next_pp_rank example_mapping\<rparr>) = rank example_mapping"
  using example_mapping_wf(1) pp_ring[OF example_mapping_wf(1)] by blast

theorem pp_layers_owner_witness:
  "tensor_split_spec tensor_split_ref \<and> split_spec split_ref \<and> wf_mapping example_mapping \<and>
     pp_layers tensor_split_ref split_ref example_mapping 5 = Inr [3, 4] \<and>
     ((3::int) \<in> set [3, 4] \<longleftrightarrow> pp_rank_of_layer example_mapping 3 5 = Inr (pp_rank example_mapping))"
proof -
  have h: "pp_layers tensor_split_ref split_ref example_mapping 5 = Inr [3, 4]"
    by (simp add: pp_layers_def example_mapping_def tensor_split_ref_def pp_rank_def py_index_def
        py_range_def upt_rec)
  have p: "\<forall>part. pp_partition example_mapping = Some part \<longrightarrow> (\<forall>n \<in> set part. 0 \<le> n)"
    by (simp add: example_mapping_def)
  from pp_layers_owner[OF example_mapping_wf(1) tensor_split_ref_spec split_ref_spec p _ _ h, of 3]
  show ?thesis using h tensor_split_ref_spec split_ref_spec example_mapping_wf(1) by simp
qed

theorem from_dict_to_dict_witness:
  "mapping_init example_args = Inr example_mapping \<and>
     from_dict (to_dict example_mapping) = Inr (example_mapping\<lparr>pp_partition := None\<rparr>)"
  using example_mapping_init from_dict_to_dict[OF example_mapping_init]
  by (simp add: example_args_def default_args_def)

theorem rank_sits_in_its_moe_groups_witness:
  "wf_mapping example_mapping \<and> wf_moe example_mapping \<and> (\<exists>tg. moe_tp_group example_mapping = Inr tg \<and>
     tg ! nat (moe_tp_rank example_mapping) = rank example_mapping)"
  using example_mapping_wf rank_sits_in_its_moe_groups[OF example_mapping_wf] by blast

end
