(* ===== verification/Owner_Pool.thy ===== *)
theory Owner_Pool
  imports Py_Prelude
begin

text \<open>
  The contract of the resource pools of the runtime. Three components hand out numbered units (cache
  blocks, sequence slots) to owners (sequences, requests) and take all units of an owner back at
  once: \<open>BlocksManager\<close> of \<open>runtime/kv_cache_manager.py\<close>, and \<open>SlotManager\<close> and \<open>BlockManager\<close> of
  \<open>_torch/pyexecutor/resource_manager.py\<close>. The locales state what each of them promises to its
  clients; the lemmas are proved here once and reach the code through the interpretations in the
  theories of the three components.
\<close>

section \<open>Units held by the values of a dictionary\<close>

definition owned :: "('k, 'a list) dict \<Rightarrow> 'a multiset" where
  "owned d = mset (concat (map snd d))"

lemma owned_simps [simp]: "owned [] = {#}" "owned ((k, v) # d) = mset v + owned d" "owned (d @ e) = owned d + owned e"
  by (simp_all add: owned_def)

lemma owned_update_new: "k \<notin> set (keys_of d) \<Longrightarrow> owned (AList.update k v d) = owned d + mset v"
  by (simp add: update_new)

lemma owned_update: "map_of d k = Some w \<Longrightarrow> owned (AList.update k v d) + mset w = owned d + mset v"
  by (induction d) (auto split: if_splits simp: ac_simps)

lemma owned_delete: "distinct (keys_of d) \<Longrightarrow> map_of d k = Some w \<Longrightarrow> owned (AList.delete k d) + mset w = owned d"
  by (induction d) (auto simp: ac_simps split: if_splits)

lemma owned_in: "distinct (keys_of d) \<Longrightarrow> b \<in># owned d \<longleftrightarrow> (\<exists>k v. map_of d k = Some v \<and> b \<in> set v)"
  by (force simp: owned_def map_of_eq_Some_iff)

lemma owned_pair:
  assumes "distinct (keys_of d)" "map_of d s = Some v" "map_of d t = Some w" "s \<noteq> t"
  shows "mset v + mset w \<subseteq># owned d"
proof -
  have "owned d = owned (AList.delete s d) + mset v" using owned_delete[OF assms(1,2)] by simp
  moreover have "owned (AList.delete s d) = owned (AList.delete t (AList.delete s d)) + mset w"
    using owned_delete[of "AList.delete s d" t w] assms by (simp add: distinct_delete)
  ultimately show ?thesis by (simp add: ac_simps)
qed

section \<open>The contract\<close>

locale owner_pool =
  fixes inv :: "'p \<Rightarrow> bool"
    and owners :: "'o set"
    and units :: "'p \<Rightarrow> nat set"
    and avail :: "'p \<Rightarrow> nat set"
    and held :: "'p \<Rightarrow> 'o \<Rightarrow> nat set"
    and release :: "'o \<Rightarrow> 'p \<Rightarrow> 'p"
  assumes cover: "inv p \<Longrightarrow> avail p \<union> (\<Union>s\<in>owners. held p s) = units p"
    and avail_unheld: "inv p \<Longrightarrow> s \<in> owners \<Longrightarrow> avail p \<inter> held p s = {}"
    and separate: "inv p \<Longrightarrow> s \<in> owners \<Longrightarrow> t \<in> owners \<Longrightarrow> s \<noteq> t \<Longrightarrow> held p s \<inter> held p t = {}"
    and release_inv: "inv p \<Longrightarrow> s \<in> owners \<Longrightarrow> inv (release s p)"
    and release_units: "inv p \<Longrightarrow> s \<in> owners \<Longrightarrow> units (release s p) = units p"
    and release_held: "inv p \<Longrightarrow> s \<in> owners \<Longrightarrow> t \<in> owners \<Longrightarrow>
      held (release s p) t = (if t = s then {} else held p t)"
begin

lemma avail_eq: "inv p \<Longrightarrow> avail p = units p - (\<Union>s\<in>owners. held p s)"
  using cover[of p] avail_unheld[of p] by blast

lemma release_returns:
  assumes "inv p" "s \<in> owners"
  shows "avail (release s p) = avail p \<union> held p s"
proof -
  have "(\<Union>t\<in>owners. held (release s p) t) = (\<Union>t\<in>owners - {s}. held p t)"
    using release_held[OF assms] assms(2) by auto
  moreover have "held p s \<subseteq> units p" "held p s \<inter> (\<Union>t\<in>owners - {s}. held p t) = {}"
    using cover[OF assms(1)] separate[OF assms(1,2)] assms(2) by blast+
  moreover have "(\<Union>t\<in>owners. held p t) = held p s \<union> (\<Union>t\<in>owners - {s}. held p t)"
    using assms(2) by blast
  ultimately show ?thesis
    using avail_eq[OF release_inv[OF assms]] avail_eq[OF assms(1)] release_units[OF assms] by auto
qed

lemma release_list:
  assumes "inv p" "set ss \<subseteq> owners"
  shows "inv (fold release ss p) \<and> units (fold release ss p) = units p \<and>
    (\<forall>t \<in> owners. held (fold release ss p) t = (if t \<in> set ss then {} else held p t))"
  using assms by (induction ss arbitrary: p) (auto simp: release_inv release_units release_held)

text \<open>Releasing every owner that holds something makes every unit available again.\<close>

lemma release_all:
  assumes "inv p" "set ss \<subseteq> owners" "\<And>t. t \<in> owners \<Longrightarrow> held p t \<noteq> {} \<Longrightarrow> t \<in> set ss"
  shows "avail (fold release ss p) = units p"
proof -
  note r = release_list[OF assms(1,2)]
  then have "(\<Union>t\<in>owners. held (fold release ss p) t) = {}" using assms(3) by auto
  then show ?thesis using avail_eq r by auto
qed

end

locale growing_pool = owner_pool +
  fixes acquire :: "'m \<Rightarrow> 'o \<Rightarrow> 'p \<Rightarrow> 'e result \<times> 'p"
  assumes acquire_inv: "inv p \<Longrightarrow> s \<in> owners \<Longrightarrow> acquire m s p = (r, p') \<Longrightarrow> inv p'"
    and acquire_units: "inv p \<Longrightarrow> s \<in> owners \<Longrightarrow> acquire m s p = (r, p') \<Longrightarrow> units p' = units p"
    and acquire_others: "inv p \<Longrightarrow> s \<in> owners \<Longrightarrow> acquire m s p = (r, p') \<Longrightarrow> t \<in> owners \<Longrightarrow> t \<noteq> s \<Longrightarrow>
      held p' t = held p t"
    and acquire_mono: "inv p \<Longrightarrow> s \<in> owners \<Longrightarrow> acquire m s p = (r, p') \<Longrightarrow> held p s \<subseteq> held p' s"
begin

text \<open>An acquisition takes its new units from the available ones.\<close>

lemma acquire_takes:
  assumes "inv p" "s \<in> owners" "acquire m s p = (r, p')"
  shows "avail p' = avail p - (held p' s - held p s)" and "held p' s \<subseteq> held p s \<union> avail p"
proof -
  note i = acquire_inv[OF assms] and o = acquire_others[OF assms] and u = acquire_units[OF assms]
  have split: "(\<Union>t\<in>owners. held q t) = held q s \<union> (\<Union>t\<in>owners - {s}. held q t)" for q
    using assms(2) by blast
  have rest: "(\<Union>t\<in>owners - {s}. held p' t) = (\<Union>t\<in>owners - {s}. held p t)" using o by auto
  have "held p' s \<subseteq> units p" "held p' s \<inter> (\<Union>t\<in>owners - {s}. held p' t) = {}"
    using cover[OF i] separate[OF i assms(2)] assms(2) u by blast+
  then show "avail p' = avail p - (held p' s - held p s)" "held p' s \<subseteq> held p s \<union> avail p"
    using avail_eq[OF i] avail_eq[OF assms(1)] u split[of p] split[of p'] rest acquire_mono[OF assms] by auto
qed

text \<open>Releasing an owner undoes what it acquired, successfully or not.\<close>

lemma acquire_release:
  assumes "inv p" "s \<in> owners" "acquire m s p = (r, p')"
  shows "avail (release s p') = avail p \<union> held p s"
proof -
  have "avail (release s p') = avail p' \<union> held p' s"
    using release_returns acquire_inv[OF assms] assms(2) by blast
  then show ?thesis using acquire_takes[OF assms] acquire_mono[OF assms] by blast
qed

end

end
