(* ===== verification/Paged_KV_Cache.thy ===== *)
theory Paged_KV_Cache
  imports Owner_Pool
begin

text \<open>
  The block pool of \<open>tensorrt_llm/runtime/kv_cache_manager.py\<close>: \<open>Block\<close>, \<open>GenerationSequence\<close> and
  \<open>BlocksManager\<close>.

  \<open>Block\<close> objects are created once, one per index, and shared by reference: a block is its index
  and the reference counts live in a store \<open>ref_count\<close> of the manager. \<open>GenerationSequence\<close> objects
  are mutated (\<open>batch_idx\<close>) while they are keys of \<open>allocated_blocks\<close>, so they are addresses into an
  explicit heap; a dictionary key matches when it is the same object or compares equal. The beam
  width is at least one, as the callers pass it. \<open>get_offset_array\<close> is modelled up to the nested list
  that it hands to \<open>torch.tensor\<close>; \<open>get_continuous_caches\<close> moves tensors only and is not modelled.
\<close>

section \<open>Sequences as objects\<close>

type_synonym block = nat
type_synonym sref = nat

record gen_seq =
  seq_idx :: int
  batch_idx :: int

type_synonym seq_heap = "sref \<Rightarrow> gen_seq"

definition gen_seq_eq :: "gen_seq \<Rightarrow> gen_seq \<Rightarrow> bool" where
  \<comment> \<open>\<open>__eq__\<close>; \<open>__hash__\<close> is \<open>seq_idx\<close>, so equal objects have equal hashes\<close>
  "gen_seq_eq a b \<longleftrightarrow> seq_idx a = seq_idx b \<and> batch_idx a = batch_idx b"

definition same_key :: "seq_heap \<Rightarrow> sref \<Rightarrow> sref \<Rightarrow> bool" where
  "same_key H k s \<longleftrightarrow> k = s \<or> gen_seq_eq (H k) (H s)"

fun owner_get :: "seq_heap \<Rightarrow> (sref, 'v) dict \<Rightarrow> sref \<Rightarrow> 'v option" where
  "owner_get H [] s = None"
| "owner_get H ((k, v) # d) s = (if same_key H k s then Some v else owner_get H d s)"

fun owner_set :: "seq_heap \<Rightarrow> (sref, 'v) dict \<Rightarrow> sref \<Rightarrow> 'v \<Rightarrow> (sref, 'v) dict" where
  "owner_set H [] s v = [(s, v)]"
| "owner_set H ((k, w) # d) s v =
     (if same_key H k s then (k, v) # d else (k, w) # owner_set H d s v)"

fun owner_pop :: "seq_heap \<Rightarrow> (sref, 'v) dict \<Rightarrow> sref \<Rightarrow> (sref, 'v) dict" where
  "owner_pop H [] s = []"
| "owner_pop H ((k, w) # d) s = (if same_key H k s then d else (k, w) # owner_pop H d s)"

section \<open>The block pool\<close>

record blocks_manager =
  num_layers :: nat
  num_blocks :: nat
  bm_block_size :: nat
  max_blocks_per_seq :: nat
  bm_beam_width :: nat
  free_blocks :: "block list"
  ref_count :: "block \<Rightarrow> int"
  allocated_blocks :: "(sref, block list list) dict"

definition blocks_manager_init :: "nat \<Rightarrow> nat \<Rightarrow> nat \<Rightarrow> nat \<Rightarrow> nat \<Rightarrow> blocks_manager" where
  "blocks_manager_init layers blocks bsize max_per_seq beams =
     \<lparr>num_layers = layers, num_blocks = blocks, bm_block_size = bsize,
      max_blocks_per_seq = max_per_seq, bm_beam_width = beams,
      free_blocks = [0..<blocks], ref_count = (\<lambda>_. 0), allocated_blocks = []\<rparr>"

definition add_link :: "block \<Rightarrow> blocks_manager \<Rightarrow> blocks_manager" where
  "add_link b bm = bm\<lparr>ref_count := (ref_count bm)(b := ref_count bm b + 1)\<rparr>"

definition remove_link :: "block \<Rightarrow> blocks_manager \<Rightarrow> blocks_manager" where
  "remove_link b bm = bm\<lparr>ref_count := (ref_count bm)(b := ref_count bm b - 1)\<rparr>"

definition has_link :: "blocks_manager \<Rightarrow> block \<Rightarrow> bool" where
  "has_link bm b \<longleftrightarrow> ref_count bm b > 0"

definition is_shared :: "blocks_manager \<Rightarrow> block \<Rightarrow> bool" where
  "is_shared bm b \<longleftrightarrow> ref_count bm b > 1"

definition has_free_block :: "blocks_manager \<Rightarrow> bool" where
  "has_free_block bm \<longleftrightarrow> length (free_blocks bm) > 0"

text \<open>Reading \<open>allocated_blocks[owner]\<close> of the \<open>defaultdict\<close> creates the entry when it is missing.\<close>

definition touch_owner :: "seq_heap \<Rightarrow> sref \<Rightarrow> blocks_manager \<Rightarrow> blocks_manager" where
  "touch_owner H s bm =
     (case owner_get H (allocated_blocks bm) s of
        Some _ \<Rightarrow> bm
      | None \<Rightarrow> bm\<lparr>allocated_blocks := allocated_blocks bm @ [(s, replicate (bm_beam_width bm) [])]\<rparr>)"

definition beams_of :: "seq_heap \<Rightarrow> sref \<Rightarrow> blocks_manager \<Rightarrow> block list list" where
  "beams_of H s bm =
     (case owner_get H (allocated_blocks bm) s of
        Some v \<Rightarrow> v
      | None \<Rightarrow> replicate (bm_beam_width bm) [])"

definition set_beams :: "seq_heap \<Rightarrow> sref \<Rightarrow> block list list \<Rightarrow> blocks_manager \<Rightarrow> blocks_manager" where
  "set_beams H s v bm = bm\<lparr>allocated_blocks := owner_set H (allocated_blocks bm) s v\<rparr>"

text \<open>
  \<open>allocate\<close>: the loop over \<open>range(beam_width)\<close>, carrying the local variable \<open>block\<close>. An exception
  leaves the links made so far in place, so the state is returned in either case.
\<close>

fun allocate_loop :: "seq_heap \<Rightarrow> sref \<Rightarrow> bool \<Rightarrow> nat list \<Rightarrow> block option \<Rightarrow> blocks_manager
    \<Rightarrow> unit result \<times> blocks_manager" where
  "allocate_loop H s share [] cur bm = (Inr (), bm)"
| "allocate_loop H s share (bi # bis) cur bm =
     (if \<not> has_free_block bm then (Inl RuntimeError, bm)
      else
        let (b, bm1) = (if cur = None \<or> \<not> share
                        then (hd (free_blocks bm), bm\<lparr>free_blocks := tl (free_blocks bm)\<rparr>)
                        else (the cur, bm));
            bm2 = add_link b bm1;
            v = beams_of H s bm2
        in allocate_loop H s share bis (Some b) (set_beams H s (v[bi := v ! bi @ [b]]) bm2))"

definition allocate :: "seq_heap \<Rightarrow> sref \<Rightarrow> bool \<Rightarrow> blocks_manager \<Rightarrow> unit result \<times> blocks_manager" where
  "allocate H s share bm = allocate_loop H s share [0..<bm_beam_width bm] None bm"

definition unlink :: "block \<Rightarrow> blocks_manager \<Rightarrow> blocks_manager" where
  \<comment> \<open>\<open>block.remove_link(); if not block.has_link(): self.free_blocks.append(block)\<close>\<close>
  "unlink b bm =
     (let bm1 = remove_link b bm in
      if \<not> has_link bm1 b then bm1\<lparr>free_blocks := free_blocks bm1 @ [b]\<rparr> else bm1)"

fun unlink_beams :: "block list list \<Rightarrow> int \<Rightarrow> nat list \<Rightarrow> blocks_manager
    \<Rightarrow> unit result \<times> blocks_manager" where
  \<comment> \<open>the first loop of \<open>replace_shared_block\<close>\<close>
  "unlink_beams v i [] bm = (Inr (), bm)"
| "unlink_beams v i (bi # bis) bm =
     (case res_bind (py_index v (int bi)) (\<lambda>beam. py_index beam i) of
        Inl e \<Rightarrow> (Inl e, bm)
      | Inr b \<Rightarrow> unlink_beams v i bis (unlink b bm))"

fun relink_beams :: "seq_heap \<Rightarrow> sref \<Rightarrow> int \<Rightarrow> nat list \<Rightarrow> blocks_manager
    \<Rightarrow> unit result \<times> blocks_manager" where
  \<comment> \<open>the second loop of \<open>replace_shared_block\<close>\<close>
  "relink_beams H s i [] bm = (Inr (), bm)"
| "relink_beams H s i (bi # bis) bm =
     (if \<not> has_free_block bm then (Inl RuntimeError, bm)
      else
        let b = hd (free_blocks bm);
            bm1 = add_link b (bm\<lparr>free_blocks := tl (free_blocks bm)\<rparr>);
            v = beams_of H s bm1
        in relink_beams H s i bis (set_beams H s (v[bi := (v ! bi)[py_pos (length (v ! bi)) i := b]]) bm1))"

definition replace_shared_block :: "seq_heap \<Rightarrow> sref \<Rightarrow> int \<Rightarrow> blocks_manager
    \<Rightarrow> unit result \<times> blocks_manager" where
  "replace_shared_block H s i bm =
     (let bm0 = touch_owner H s bm; v = beams_of H s bm0 in
      case res_bind (py_index v 0) (\<lambda>beam. py_index beam i) of
        Inl e \<Rightarrow> (Inl e, bm0)
      | Inr b0 \<Rightarrow>
          if \<not> is_shared bm0 b0 then (Inr (), bm0)
          else (case unlink_beams v i [0..<bm_beam_width bm0] bm0 of
                  (Inl e, bm1) \<Rightarrow> (Inl e, bm1)
                | (Inr _, bm1) \<Rightarrow>
                    relink_beams H s i [0..<bm_beam_width bm1] bm1))"

definition free_owner :: "seq_heap \<Rightarrow> sref \<Rightarrow> blocks_manager \<Rightarrow> blocks_manager" where
  "free_owner H s bm =
     (let bm0 = touch_owner H s bm;
          bm1 = fold unlink (concat (take (bm_beam_width bm0) (beams_of H s bm0))) bm0
      in bm1\<lparr>allocated_blocks := owner_pop H (allocated_blocks bm1) s\<rparr>)"

definition get_number_blocks :: "seq_heap \<Rightarrow> sref \<Rightarrow> blocks_manager
    \<Rightarrow> nat result \<times> blocks_manager" where
  "get_number_blocks H s bm =
     (res_bind (py_index (beams_of H s bm) 0) (\<lambda>beam. Inr (length beam)), touch_owner H s bm)"

definition get_k_or_v_block_offset :: "blocks_manager \<Rightarrow> nat \<Rightarrow> nat \<Rightarrow> nat" where
  "get_k_or_v_block_offset bm block_idx field_idx = block_idx * num_layers bm * 2 + field_idx"

section \<open>The offset array\<close>

type_synonym offsets = "nat list list list list"

definition set_offset :: "offsets \<Rightarrow> int \<Rightarrow> nat \<Rightarrow> nat \<Rightarrow> nat \<Rightarrow> nat \<Rightarrow> offsets result" where
  \<comment> \<open>\<open>offset_array[batch][bi][x][i] = o\<close>\<close>
  "set_offset A batch bi x i off =
     res_bind (py_index A batch) (\<lambda>A1.
     res_bind (py_index A1 (int bi)) (\<lambda>A2.
     res_bind (py_index A2 (int x)) (\<lambda>A3.
     if i < length A3
     then Inr (A[py_pos (length A) batch := A1[bi := A2[x := A3[i := off]]]])
     else Inl IndexError)))"

fun fill_beam :: "blocks_manager \<Rightarrow> int \<Rightarrow> nat \<Rightarrow> nat \<Rightarrow> block list \<Rightarrow> offsets \<Rightarrow> offsets result" where
  \<comment> \<open>the loop over \<open>enumerate(beams_blocks[bi])\<close>, from position \<open>i\<close> on, with both fields\<close>
  "fill_beam bm batch bi i [] A = Inr A"
| "fill_beam bm batch bi i (b # bs) A =
     res_bind (set_offset A batch bi 0 i (get_k_or_v_block_offset bm b 0)) (\<lambda>A1.
     res_bind (set_offset A1 batch bi 1 i (get_k_or_v_block_offset bm b 1)) (\<lambda>A2.
     fill_beam bm batch bi (Suc i) bs A2))"

fun fill_beams :: "blocks_manager \<Rightarrow> int \<Rightarrow> block list list \<Rightarrow> nat list \<Rightarrow> offsets \<Rightarrow> offsets result" where
  "fill_beams bm batch v [] A = Inr A"
| "fill_beams bm batch v (bi # bis) A =
     res_bind (py_index v (int bi)) (\<lambda>blocks.
     res_bind (fill_beam bm batch bi 0 blocks A) (fill_beams bm batch v bis))"

fun fill_owners :: "seq_heap \<Rightarrow> blocks_manager \<Rightarrow> nat \<Rightarrow> (sref, block list list) dict \<Rightarrow> offsets
    \<Rightarrow> offsets result" where
  "fill_owners H bm beams [] A = Inr A"
| "fill_owners H bm beams ((s, v) # d) A =
     res_bind (fill_beams bm (batch_idx (H s)) v [0..<beams] A) (fill_owners H bm beams d)"

definition get_offset_array :: "seq_heap \<Rightarrow> nat \<Rightarrow> blocks_manager \<Rightarrow> offsets result" where
  "get_offset_array H beams bm =
     (if \<not> beams \<le> bm_beam_width bm then Inl AssertionError
      else fill_owners H bm beams (allocated_blocks bm)
        (replicate (length (allocated_blocks bm))
          (replicate beams (replicate 2 (replicate (max_blocks_per_seq bm) 0)))))"

section \<open>Dictionary access under distinct sequence numbers\<close>

text \<open>
  The callers number the sequences, so no two live sequences share a \<open>seq_idx\<close>. Then a key is found
  by object identity whatever its \<open>batch_idx\<close> has become, and the three dictionary operations are
  those of an association list.
\<close>

definition owner_ok :: "seq_heap \<Rightarrow> sref set \<Rightarrow> bool" where
  "owner_ok H A \<longleftrightarrow> inj_on (\<lambda>s. seq_idx (H s)) A"

lemma same_key_ok: "owner_ok H A \<Longrightarrow> k \<in> A \<Longrightarrow> s \<in> A \<Longrightarrow> same_key H k s \<longleftrightarrow> k = s"
  by (auto simp: same_key_def gen_seq_eq_def owner_ok_def dest: inj_onD)

lemma owner_get_map_of:
  "owner_ok H A \<Longrightarrow> set (keys_of d) \<subseteq> A \<Longrightarrow> s \<in> A \<Longrightarrow> owner_get H d s = map_of d s"
  by (induction d) (auto simp: same_key_ok)

lemma owner_set_update:
  "owner_ok H A \<Longrightarrow> set (keys_of d) \<subseteq> A \<Longrightarrow> s \<in> A \<Longrightarrow> owner_set H d s v = AList.update s v d"
  by (induction d) (auto simp: same_key_ok)

lemma owner_pop_delete:
  "owner_ok H A \<Longrightarrow> set (keys_of d) \<subseteq> A \<Longrightarrow> s \<in> A \<Longrightarrow> distinct (keys_of d) \<Longrightarrow>
     owner_pop H d s = AList.delete s d"
  by (induction d) (auto simp: same_key_ok)

section \<open>Links and the pool invariant\<close>

definition links :: "(sref, block list list) dict \<Rightarrow> block multiset" where
  "links d = (\<Sum>(s, v) \<leftarrow> d. mset (concat v))"

lemma links_simps [simp]:
  "links [] = {#}" "links ((s, v) # d) = mset (concat v) + links d" "links (d @ e) = links d + links e"
  by (simp_all add: links_def)

lemma in_links_iff: "b \<in># links d \<longleftrightarrow> (\<exists>(t, w) \<in> set d. b \<in> set (concat w))"
  by (induction d) auto

lemma links_update_new: "s \<notin> set (keys_of d) \<Longrightarrow> links (AList.update s v d) = links d + mset (concat v)"
  by (induction d) auto

lemma links_update:
  "map_of d s = Some w \<Longrightarrow> links (AList.update s v d) + mset (concat w) = links d + mset (concat v)"
  by (induction d) (auto split: if_splits simp: ac_simps)

lemma links_delete:
  "distinct (keys_of d) \<Longrightarrow> map_of d s = Some w \<Longrightarrow> links (AList.delete s d) + mset (concat w) = links d"
  by (induction d) (auto simp: ac_simps split: if_splits)

text \<open>
  Every block is either free or linked: the free list holds exactly the blocks without a link, once
  each, and the reference count of a block is the number of its occurrences in \<open>allocated_blocks\<close>.
  No block occurs under two owners.
\<close>

definition pool_inv :: "blocks_manager \<Rightarrow> bool" where
  "pool_inv bm \<longleftrightarrow> distinct (free_blocks bm) \<and>
     (\<forall>b. b \<in> set (free_blocks bm) \<longleftrightarrow> b < num_blocks bm \<and> ref_count bm b = 0) \<and>
     (\<forall>b. 0 \<le> ref_count bm b)"

definition exclusive :: "(sref, block list list) dict \<Rightarrow> bool" where
  "exclusive d \<longleftrightarrow> (\<forall>s t v w b. map_of d s = Some v \<longrightarrow> map_of d t = Some w \<longrightarrow>
     b \<in> set (concat v) \<longrightarrow> b \<in> set (concat w) \<longrightarrow> s = t)"

lemma exclusive_update:
  assumes "exclusive d"
    "\<And>c t w. c \<in> set (concat v) \<Longrightarrow> map_of d t = Some w \<Longrightarrow> t \<noteq> s \<Longrightarrow> c \<notin> set (concat w)"
  shows "exclusive (AList.update s v d)"
  unfolding exclusive_def
proof (intro allI impI)
  fix t u x w c
  assume h: "map_of (AList.update s v d) t = Some x" "map_of (AList.update s v d) u = Some w"
    "c \<in> set (concat x)" "c \<in> set (concat w)"
  have ex: "map_of d t = Some x \<Longrightarrow> map_of d u = Some w \<Longrightarrow> t = u"
    using assms(1) h(3,4) unfolding exclusive_def by blast
  show "t = u"
  proof (cases "t = s \<or> u = s")
    case True
    then show ?thesis using h assms(2) by (auto simp del: set_concat split: if_splits)
  next
    case False
    then show ?thesis using h ex by simp
  qed
qed

definition bm_inv :: "blocks_manager \<Rightarrow> bool" where
  "bm_inv bm \<longleftrightarrow> pool_inv bm \<and> distinct (keys_of (allocated_blocks bm)) \<and>
     (\<forall>b. ref_count bm b = int (count (links (allocated_blocks bm)) b)) \<and>
     (\<forall>b. 0 < ref_count bm b \<longrightarrow> b < num_blocks bm) \<and>
     (\<forall>(s, v) \<in> set (allocated_blocks bm). length v = bm_beam_width bm) \<and>
     exclusive (allocated_blocks bm)"

lemma bm_inv_init: "bm_inv (blocks_manager_init l n z k w)"
  by (auto simp: bm_inv_def pool_inv_def exclusive_def blocks_manager_init_def)

section \<open>Allocation keeps the invariant\<close>

definition keys_ok :: "seq_heap \<Rightarrow> sref set \<Rightarrow> blocks_manager \<Rightarrow> bool" where
  "keys_ok H A bm \<longleftrightarrow> owner_ok H A \<and> set (keys_of (allocated_blocks bm)) \<subseteq> A"

lemma beams_of_map_of:
  "keys_ok H A bm \<Longrightarrow> s \<in> A \<Longrightarrow> beams_of H s bm =
     (case map_of (allocated_blocks bm) s of Some v \<Rightarrow> v | None \<Rightarrow> replicate (bm_beam_width bm) [])"
  by (simp add: beams_of_def keys_ok_def owner_get_map_of[where A = A])

lemma set_beams_update:
  "keys_ok H A bm \<Longrightarrow> s \<in> A \<Longrightarrow>
     set_beams H s v bm = bm\<lparr>allocated_blocks := AList.update s v (allocated_blocks bm)\<rparr>"
  by (simp add: set_beams_def keys_ok_def owner_set_update[where A = A])

lemma keys_ok_update [simp]:
  "s \<in> A \<Longrightarrow> keys_ok H A bm \<Longrightarrow> keys_ok H A (bm\<lparr>allocated_blocks := AList.update s v (allocated_blocks bm)\<rparr>)"
  by (auto simp: keys_ok_def dom_update)

lemma keys_ok_cong [simp]:
  "keys_ok H A (bm\<lparr>free_blocks := f\<rparr>) = keys_ok H A bm"
  "keys_ok H A (bm\<lparr>ref_count := r\<rparr>) = keys_ok H A bm"
  by (simp_all add: keys_ok_def)

lemma add_link_simps [simp]:
  "allocated_blocks (add_link b bm) = allocated_blocks bm"
  "free_blocks (add_link b bm) = free_blocks bm"
  "num_blocks (add_link b bm) = num_blocks bm"
  "bm_beam_width (add_link b bm) = bm_beam_width bm"
  "ref_count (add_link b bm) = (ref_count bm)(b := ref_count bm b + 1)"
  "keys_ok H A (add_link b bm) = keys_ok H A bm"
  by (simp_all add: add_link_def)

lemma mset_concat_append_at:
  "bi < length v \<Longrightarrow> mset (concat (v[bi := v ! bi @ [b]])) = add_mset b (mset (concat v))"
proof (induction v arbitrary: bi)
  case (Cons x v)
  then show ?case by (cases bi) auto
qed simp

lemma length_beams:
  "bm_inv bm \<Longrightarrow> keys_ok H A bm \<Longrightarrow> s \<in> A \<Longrightarrow> length (beams_of H s bm) = bm_beam_width bm"
  by (auto simp: beams_of_map_of bm_inv_def split: option.splits dest!: map_of_SomeD)

lemma links_append_block:
  assumes "distinct (keys_of d)" "bi < length v"
    "v = (case map_of d s of Some v \<Rightarrow> v | None \<Rightarrow> replicate k [])"
  shows "links (AList.update s (v[bi := v ! bi @ [b]]) d) = add_mset b (links d)"
proof (cases "map_of d s")
  case None
  then have "s \<notin> set (keys_of d)" by (simp add: map_of_eq_None_iff)
  moreover have "mset (concat v) = {#}" using None assms by simp
  ultimately show ?thesis using assms(2) by (simp add: links_update_new mset_concat_append_at)
next
  case (Some w)
  with assms links_update[OF Some, of "v[bi := v ! bi @ [b]]"] show ?thesis
    by (simp add: mset_concat_append_at)
qed

text \<open>One iteration: a block without other owners is linked into a beam of \<open>s\<close>.\<close>

lemma append_block_inv:
  assumes inv: "bm_inv bm" and ok: "keys_ok H A bm" "s \<in> A" and bi: "bi < bm_beam_width bm"
    and b: "b < num_blocks bm"
    and excl: "\<And>t w. map_of (allocated_blocks bm) t = Some w \<Longrightarrow> t \<noteq> s \<Longrightarrow> b \<notin> set (concat w)"
    and free: "distinct fr" "set fr = set (free_blocks bm) - {b}"
    and v: "v = beams_of H s bm"
  shows "bm_inv (bm\<lparr>free_blocks := fr, ref_count := (ref_count bm)(b := ref_count bm b + 1),
           allocated_blocks := AList.update s (v[bi := v ! bi @ [b]]) (allocated_blocks bm)\<rparr>)"
proof -
  let ?d = "allocated_blocks bm" and ?v' = "v[bi := v ! bi @ [b]]"
  have dist: "distinct (keys_of ?d)" and pool: "pool_inv bm"
    and cnt: "\<And>b. ref_count bm b = int (count (links ?d) b)"
    and lenv: "\<And>s v. (s, v) \<in> set ?d \<Longrightarrow> length v = bm_beam_width bm"
    and num: "\<And>b. 0 < ref_count bm b \<Longrightarrow> b < num_blocks bm" and ex: "exclusive ?d"
    using inv by (auto simp: bm_inv_def)
  have len: "length v = bm_beam_width bm" unfolding v by (rule length_beams[OF inv ok])
  have lk: "links (AList.update s ?v' ?d) = add_mset b (links ?d)"
    using dist bi len v beams_of_map_of[OF ok] by (intro links_append_block) auto
  have setv: "set (concat ?v') = insert b (set (concat v))"
    using arg_cong[OF mset_concat_append_at[of bi v b], of set_mset] bi len by simp
  have ex': "exclusive (AList.update s ?v' ?d)"
  proof (rule exclusive_update[OF ex])
    fix c t w assume h: "c \<in> set (concat ?v')" "map_of ?d t = Some w" "t \<noteq> s"
    then consider "c = b" | "map_of ?d s = Some v" "c \<in> set (concat v)"
      using setv v beams_of_map_of[OF ok] by (auto simp del: set_concat split: option.splits)
    then show "c \<notin> set (concat w)"
      using excl[OF h(2,3)] ex h(2,3) unfolding exclusive_def by cases blast+
  qed
  have lens': "\<forall>(t, w) \<in> set (AList.update s ?v' ?d). length w = bm_beam_width bm"
    using lenv len set_update_subset[of s ?v' ?d] by auto
  have pool': "0 \<le> ref_count bm c" "c \<in> set (free_blocks bm) \<longleftrightarrow> c < num_blocks bm \<and> ref_count bm c = 0" for c
    using pool by (auto simp: pool_inv_def)
  show ?thesis
    unfolding bm_inv_def pool_inv_def
    using free pool' b num dist lens' ex' cnt
    by (auto simp: lk distinct_update intro: add_nonneg_eq_0_iff)
qed

definition sole_owner :: "blocks_manager \<Rightarrow> sref \<Rightarrow> block \<Rightarrow> bool" where
  "sole_owner bm s b \<longleftrightarrow> 0 < ref_count bm b \<and>
     (\<forall>t w. map_of (allocated_blocks bm) t = Some w \<longrightarrow> t \<noteq> s \<longrightarrow> b \<notin> set (concat w))"

text \<open>What one iteration of the loop does, for the block it takes.\<close>

definition take_block :: "bool \<Rightarrow> block option \<Rightarrow> blocks_manager \<Rightarrow> block \<times> block list" where
  "take_block share cur bm =
     (if cur = None \<or> \<not> share then (hd (free_blocks bm), tl (free_blocks bm))
      else (the cur, free_blocks bm))"

definition link_at :: "sref \<Rightarrow> nat \<Rightarrow> block \<Rightarrow> block list \<Rightarrow> block list list \<Rightarrow> blocks_manager \<Rightarrow> blocks_manager" where
  "link_at s bi b fr v bm =
     bm\<lparr>free_blocks := fr, ref_count := (ref_count bm)(b := ref_count bm b + 1),
        allocated_blocks := AList.update s (v[bi := v ! bi @ [b]]) (allocated_blocks bm)\<rparr>"

lemma link_at_simps [simp]:
  "num_blocks (link_at s bi b fr v bm) = num_blocks bm"
  "num_layers (link_at s bi b fr v bm) = num_layers bm"
  "bm_beam_width (link_at s bi b fr v bm) = bm_beam_width bm"
  "free_blocks (link_at s bi b fr v bm) = fr"
  "allocated_blocks (link_at s bi b fr v bm) = AList.update s (v[bi := v ! bi @ [b]]) (allocated_blocks bm)"
  "s \<in> A \<Longrightarrow> keys_ok H A bm \<Longrightarrow> keys_ok H A (link_at s bi b fr v bm)"
  by (auto simp: link_at_def keys_ok_def dom_update)

lemma allocate_loop_step:
  assumes "keys_ok H A bm" "s \<in> A" "has_free_block bm"
  shows "allocate_loop H s share (bi # bis) cur bm =
     (let (b, fr) = take_block share cur bm in
      allocate_loop H s share bis (Some b) (link_at s bi b fr (beams_of H s bm) bm))"
proof -
  have "beams_of H s (add_link b (bm\<lparr>free_blocks := fr\<rparr>)) = beams_of H s bm" for b fr
    by (simp add: beams_of_def split: option.split)
  moreover have "beams_of H s (add_link b bm) = beams_of H s bm" for b
    by (simp add: beams_of_def split: option.split)
  ultimately show ?thesis
    using assms
    by (auto simp: take_block_def link_at_def set_beams_update[of H A] add_link_def Let_def keys_ok_def)
qed

lemma take_block_ok:
  assumes "bm_inv bm" "has_free_block bm" "\<And>c. cur = Some c \<Longrightarrow> sole_owner bm s c"
    "take_block share cur bm = (b, fr)"
  shows "b < num_blocks bm" "distinct fr" "set fr = set (free_blocks bm) - {b}"
    "map_of (allocated_blocks bm) t = Some w \<Longrightarrow> t \<noteq> s \<Longrightarrow> b \<notin> set (concat w)"
proof -
  let ?d = "allocated_blocks bm"
  have pool: "distinct (free_blocks bm)" "\<And>b. b \<in> set (free_blocks bm) \<longleftrightarrow> b < num_blocks bm \<and> ref_count bm b = 0"
    and num: "\<And>b. 0 < ref_count bm b \<Longrightarrow> b < num_blocks bm"
    and cnt: "\<And>b. ref_count bm b = int (count (links ?d) b)"
    using assms(1) by (auto simp: bm_inv_def pool_inv_def)
  have in_links: "map_of ?d t = Some w \<Longrightarrow> b \<in> set (concat w) \<Longrightarrow> b \<in># links ?d" for t w b
    using map_of_SomeD[of ?d t w] unfolding in_links_iff by blast
  have "b < num_blocks bm \<and> distinct fr \<and> set fr = set (free_blocks bm) - {b} \<and>
      (\<forall>t w. map_of ?d t = Some w \<longrightarrow> t \<noteq> s \<longrightarrow> b \<notin> set (concat w))"
  proof (cases "cur = None \<or> \<not> share")
    case True
    then have fr: "free_blocks bm = b # fr"
      using assms(2,4) by (auto simp: take_block_def has_free_block_def)
    then have "ref_count bm b = 0" "b < num_blocks bm" using pool(2)[of b] by auto
    then have "b \<notin># links ?d" using cnt[of b] by (simp add: count_eq_zero_iff)
    with in_links fr pool(1) \<open>b < num_blocks bm\<close> show ?thesis by auto
  next
    case False
    then have fr: "fr = free_blocks bm" "cur = Some b" using assms(4) by (auto simp: take_block_def)
    then have "sole_owner bm s b" using assms(3) by simp
    with fr num pool show ?thesis by (auto simp: sole_owner_def)
  qed
  then show "b < num_blocks bm" "distinct fr" "set fr = set (free_blocks bm) - {b}"
    "map_of ?d t = Some w \<Longrightarrow> t \<noteq> s \<Longrightarrow> b \<notin> set (concat w)" by blast+
qed

lemma link_at_inv:
  assumes "bm_inv bm" "keys_ok H A bm" "s \<in> A" "bi < bm_beam_width bm" "has_free_block bm"
    "\<And>c. cur = Some c \<Longrightarrow> sole_owner bm s c" "take_block share cur bm = (b, fr)"
  shows "bm_inv (link_at s bi b fr (beams_of H s bm) bm)"
    and "sole_owner (link_at s bi b fr (beams_of H s bm) bm) s b"
proof -
  note t = take_block_ok[OF assms(1,5,6,7)]
  show "bm_inv (link_at s bi b fr (beams_of H s bm) bm)"
    unfolding link_at_def using assms(1-4) t by (intro append_block_inv) auto
  have "0 \<le> ref_count bm b" using assms(1) by (simp add: bm_inv_def pool_inv_def)
  with t(4) show "sole_owner (link_at s bi b fr (beams_of H s bm) bm) s b"
    by (auto simp: sole_owner_def link_at_def)
qed

lemma allocate_loop_inv:
  assumes "bm_inv bm" "keys_ok H A bm" "s \<in> A" "\<forall>bi \<in> set bis. bi < bm_beam_width bm"
    "\<And>c. cur = Some c \<Longrightarrow> sole_owner bm s c"
  shows "bm_inv (snd (allocate_loop H s share bis cur bm)) \<and>
     keys_ok H A (snd (allocate_loop H s share bis cur bm))"
  using assms
proof (induction bis arbitrary: cur bm)
  case (Cons bi bis)
  show ?case
  proof (cases "has_free_block bm")
    case True
    obtain b fr where t: "take_block share cur bm = (b, fr)" by fastforce
    let ?bm = "link_at s bi b fr (beams_of H s bm) bm"
    have "bm_inv ?bm" "sole_owner ?bm s b" using link_at_inv[OF Cons.prems(1-3) _ True Cons.prems(5) t] Cons.prems(4) by auto
    then have "bm_inv (snd (allocate_loop H s share bis (Some b) ?bm)) \<and>
        keys_ok H A (snd (allocate_loop H s share bis (Some b) ?bm))"
      using Cons.prems by (intro Cons.IH) auto
    then show ?thesis by (simp only: allocate_loop_step[OF Cons.prems(2,3) True] t Let_def prod.case)
  qed (use Cons.prems in simp)
qed simp

lemma allocate_inv:
  assumes "bm_inv bm" "keys_ok H A bm" "s \<in> A"
  shows "bm_inv (snd (allocate H s share bm))" "keys_ok H A (snd (allocate H s share bm))"
  using allocate_loop_inv[OF assms, of "[0..<bm_beam_width bm]" None share] by (simp_all add: allocate_def)

text \<open>What an allocation changes: the entry of its owner only, one more block per beam.\<close>

definition same_config :: "blocks_manager \<Rightarrow> blocks_manager \<Rightarrow> bool" where
  "same_config bm bm' \<longleftrightarrow> num_layers bm' = num_layers bm \<and> num_blocks bm' = num_blocks bm \<and>
     bm_beam_width bm' = bm_beam_width bm \<and> max_blocks_per_seq bm' = max_blocks_per_seq bm"

lemma same_config_refl [simp]: "same_config bm bm"
  by (simp add: same_config_def)

lemma same_config_trans [trans]: "same_config a b \<Longrightarrow> same_config b c \<Longrightarrow> same_config a c"
  by (simp add: same_config_def)

lemma link_at_effect:
  assumes "keys_ok H A bm" "s \<in> A" "v = beams_of H s bm"
  shows "same_config bm (link_at s bi b fr v bm)"
    "t \<noteq> s \<Longrightarrow> map_of (allocated_blocks (link_at s bi b fr v bm)) t = map_of (allocated_blocks bm) t"
    "beams_of H s (link_at s bi b fr v bm) = v[bi := v ! bi @ [b]]"
    "set (keys_of (allocated_blocks (link_at s bi b fr v bm))) = insert s (set (keys_of (allocated_blocks bm)))"
proof -
  have "keys_ok H A (link_at s bi b fr v bm)" using assms by simp
  then show "beams_of H s (link_at s bi b fr v bm) = v[bi := v ! bi @ [b]]"
    using assms by (simp add: beams_of_map_of[of H A])
qed (auto simp: same_config_def link_at_def dom_update)

lemma allocate_loop_effect:
  assumes "keys_ok H A bm" "s \<in> A" "allocate_loop H s share bis cur bm = (r, bm')"
  shows "same_config bm bm' \<and> (r = Inr () \<or> r = Inl RuntimeError) \<and>
     (\<forall>t. t \<noteq> s \<longrightarrow> map_of (allocated_blocks bm') t = map_of (allocated_blocks bm) t) \<and>
     set (keys_of (allocated_blocks bm')) \<subseteq> insert s (set (keys_of (allocated_blocks bm)))"
  using assms
proof (induction bis arbitrary: cur bm)
  case (Cons bi bis)
  show ?case
  proof (cases "has_free_block bm")
    case True
    obtain b fr where t: "take_block share cur bm = (b, fr)" by fastforce
    let ?bm = "link_at s bi b fr (beams_of H s bm) bm"
    have "allocate_loop H s share bis (Some b) ?bm = (r, bm')"
      using Cons.prems(3) by (simp only: allocate_loop_step[OF Cons.prems(1,2) True] t Let_def prod.case)
    from Cons.IH[OF _ Cons.prems(2) this] Cons.prems(1,2) link_at_effect[OF Cons.prems(1,2) refl, where bi = bi and b = b and fr = fr]
    show ?thesis by (auto simp: same_config_def simp del: link_at_simps(5))
  qed (use Cons.prems in auto)
qed auto

lemma allocate_loop_lengths:
  assumes "keys_ok H A bm" "s \<in> A" "distinct bis" "\<forall>bi \<in> set bis. bi < length (beams_of H s bm)"
    "allocate_loop H s share bis cur bm = (Inr (), bm')"
  shows "length (beams_of H s bm') = length (beams_of H s bm) \<and>
     (\<forall>i < length (beams_of H s bm). length (beams_of H s bm' ! i) =
        length (beams_of H s bm ! i) + (if i \<in> set bis then 1 else 0))"
  using assms
proof (induction bis arbitrary: cur bm)
  case (Cons bi bis)
  have free: "has_free_block bm" using Cons.prems(5) by (rule contrapos_pp) simp
  obtain b fr where t: "take_block share cur bm = (b, fr)" by fastforce
  let ?v = "beams_of H s bm" and ?bm = "link_at s bi b fr (beams_of H s bm) bm"
  have v: "beams_of H s ?bm = ?v[bi := ?v ! bi @ [b]]" by (rule link_at_effect(3)[OF Cons.prems(1,2) refl])
  have "length (beams_of H s bm') = length (beams_of H s ?bm) \<and>
     (\<forall>i < length (beams_of H s ?bm). length (beams_of H s bm' ! i) =
        length (beams_of H s ?bm ! i) + (if i \<in> set bis then 1 else 0))"
    using Cons.prems t allocate_loop_step[OF Cons.prems(1,2) free]
    by (intro Cons.IH) (auto simp: v simp del: allocate_loop.simps)
  then show ?case using Cons.prems(3,4) by (auto simp: v nth_list_update)
qed simp

lemma allocate_effect:
  assumes "bm_inv bm" "keys_ok H A bm" "s \<in> A" "allocate H s share bm = (r, bm')"
  shows "same_config bm bm'" "r = Inr () \<or> r = Inl RuntimeError"
    "t \<noteq> s \<Longrightarrow> map_of (allocated_blocks bm') t = map_of (allocated_blocks bm) t"
    "set (keys_of (allocated_blocks bm')) \<subseteq> insert s (set (keys_of (allocated_blocks bm)))"
    "r = Inr () \<Longrightarrow> i < bm_beam_width bm \<Longrightarrow>
       length (beams_of H s bm' ! i) = length (beams_of H s bm ! i) + 1"
proof -
  note e = assms(4)[unfolded allocate_def] and l = length_beams[OF assms(1-3)]
  show "same_config bm bm'" "r = Inr () \<or> r = Inl RuntimeError"
    "t \<noteq> s \<Longrightarrow> map_of (allocated_blocks bm') t = map_of (allocated_blocks bm) t"
    "set (keys_of (allocated_blocks bm')) \<subseteq> insert s (set (keys_of (allocated_blocks bm)))"
    using allocate_loop_effect[OF assms(2,3) e] by auto
  show "r = Inr () \<Longrightarrow> i < bm_beam_width bm \<Longrightarrow>
       length (beams_of H s bm' ! i) = length (beams_of H s bm ! i) + 1"
    using allocate_loop_lengths[OF assms(2,3), of "[0..<bm_beam_width bm]" share None bm'] e l by auto
qed

section \<open>When an allocation succeeds\<close>

lemma allocate_loop_unshared:
  assumes "keys_ok H A bm" "s \<in> A"
  shows "fst (allocate_loop H s False bis cur bm) = Inr () \<longleftrightarrow> length bis \<le> length (free_blocks bm)"
  using assms
proof (induction bis arbitrary: cur bm)
  case (Cons bi bis)
  show ?case
  proof (cases "free_blocks bm")
    case (Cons b fr)
    with Cons.prems Cons.IH[of "link_at s bi b fr (beams_of H s bm) bm" "Some b"] show ?thesis
      by (simp add: allocate_loop_step has_free_block_def take_block_def del: allocate_loop.simps)
  qed (simp add: has_free_block_def)
qed simp

lemma allocate_loop_shared:
  assumes "keys_ok H A bm" "s \<in> A"
  shows "fst (allocate_loop H s True bis (Some b) bm) = Inr () \<longleftrightarrow> bis = [] \<or> free_blocks bm \<noteq> []"
  using assms
proof (induction bis arbitrary: bm)
  case (Cons bi bis)
  show ?case
  proof (cases "free_blocks bm")
    case (Cons c fr)
    with Cons.prems Cons.IH[of "link_at s bi b (free_blocks bm) (beams_of H s bm) bm"] show ?thesis
      by (simp add: allocate_loop_step has_free_block_def take_block_def del: allocate_loop.simps)
  qed (simp add: has_free_block_def)
qed simp

text \<open>
  C5: when \<open>allocate\<close> succeeds. Without sharing it needs one free block per beam. With sharing all
  beams get the same single block, and yet more than one beam needs two free blocks: the loop tests
  \<open>has_free_block\<close> again for every beam, after the last free block has been taken.
\<close>

theorem allocate_succeeds_iff:
  assumes "keys_ok H A bm" "s \<in> A"
  shows "(fst (allocate H s False bm) = Inr () \<longleftrightarrow> bm_beam_width bm \<le> length (free_blocks bm)) \<and>
     (fst (allocate H s True bm) = Inr () \<longleftrightarrow> min 2 (bm_beam_width bm) \<le> length (free_blocks bm))"
proof
  show "fst (allocate H s False bm) = Inr () \<longleftrightarrow> bm_beam_width bm \<le> length (free_blocks bm)"
    using allocate_loop_unshared[OF assms, of "[0..<bm_beam_width bm]" None] by (simp add: allocate_def)
  show "fst (allocate H s True bm) = Inr () \<longleftrightarrow> min 2 (bm_beam_width bm) \<le> length (free_blocks bm)"
  proof (cases "bm_beam_width bm = 0 \<or> free_blocks bm = []")
    case True
    then show ?thesis
      by (cases "bm_beam_width bm") (auto simp: allocate_def has_free_block_def upt_rec[of 0] upt_rec)
  next
    case False
    then obtain b fr w where f: "free_blocks bm = b # fr" "bm_beam_width bm = Suc w"
      by (cases "free_blocks bm"; cases "bm_beam_width bm") auto
    have u: "[0..<Suc w] = 0 # [1..<Suc w]" by (simp add: upt_rec)
    show ?thesis
      using f allocate_loop_shared[of H A "link_at s 0 b fr (beams_of H s bm) bm" s "[1..<Suc w]" b] assms
        allocate_loop_step[OF assms, of True 0 "[1..<Suc w]" None]
      by (cases fr) (auto simp: allocate_def u take_block_def has_free_block_def simp del: upt_Suc allocate_loop.simps)
  qed
qed

section \<open>Freeing\<close>

lemma unlink_simps [simp]:
  "allocated_blocks (unlink b bm) = allocated_blocks bm"
  "same_config bm (unlink b bm)"
  "ref_count (unlink b bm) = (ref_count bm)(b := ref_count bm b - 1)"
  "keys_ok H A (unlink b bm) = keys_ok H A bm"
  by (simp_all add: unlink_def remove_link_def Let_def same_config_def)

lemma unlink_pool:
  assumes "pool_inv bm" "0 < ref_count bm b" "b < num_blocks bm"
  shows "pool_inv (unlink b bm)"
  using assms by (auto simp: pool_inv_def unlink_def remove_link_def has_link_def Let_def)

lemma fold_unlink:
  assumes "pool_inv bm" "\<forall>b. int (count (mset xs) b) \<le> ref_count bm b" "\<forall>b \<in> set xs. b < num_blocks bm"
  shows "pool_inv (fold unlink xs bm) \<and> same_config bm (fold unlink xs bm) \<and>
     allocated_blocks (fold unlink xs bm) = allocated_blocks bm \<and>
     (\<forall>b. ref_count (fold unlink xs bm) b = ref_count bm b - int (count (mset xs) b))"
  using assms
proof (induction xs arbitrary: bm)
  case (Cons x xs)
  have "0 < ref_count bm x" using Cons.prems(2)[rule_format, of x] by simp
  then have pool: "pool_inv (unlink x bm)" using Cons.prems by (intro unlink_pool) auto
  have cfg: "num_blocks (unlink x bm) = num_blocks bm"
    using unlink_simps(2)[of bm x] by (simp add: same_config_def)
  have cnt: "int (count (mset xs) b) \<le> ref_count (unlink x bm) b" for b
    using Cons.prems(2)[rule_format, of b] by (auto split: if_splits)
  from Cons.IH[OF pool] cnt Cons.prems(3) cfg
  have "pool_inv (fold unlink xs (unlink x bm)) \<and> same_config (unlink x bm) (fold unlink xs (unlink x bm)) \<and>
     allocated_blocks (fold unlink xs (unlink x bm)) = allocated_blocks bm \<and>
     (\<forall>b. ref_count (fold unlink xs (unlink x bm)) b = ref_count (unlink x bm) b - int (count (mset xs) b))"
    by simp
  then show ?case using same_config_trans[OF unlink_simps(2)[of bm x]] by auto
qed simp

lemma touch_owner_inv:
  assumes "bm_inv bm" "keys_ok H A bm" "s \<in> A"
  shows "bm_inv (touch_owner H s bm)" "keys_ok H A (touch_owner H s bm)"
    "same_config bm (touch_owner H s bm)" "free_blocks (touch_owner H s bm) = free_blocks bm"
    "map_of (allocated_blocks (touch_owner H s bm)) s = Some (beams_of H s bm)"
    "t \<noteq> s \<Longrightarrow> map_of (allocated_blocks (touch_owner H s bm)) t = map_of (allocated_blocks bm) t"
proof -
  have get: "owner_get H (allocated_blocks bm) s = map_of (allocated_blocks bm) s"
    using assms(2,3) by (simp add: keys_ok_def owner_get_map_of[where A = A])
  let ?d = "allocated_blocks bm" and ?e = "replicate (bm_beam_width bm) ([] :: block list)"
  have upd: "?d @ [(s, ?e)] = AList.update s ?e ?d" if "map_of ?d s = None"
    using that by (simp add: update_new map_of_eq_None_iff)
  have "bm_inv (touch_owner H s bm) \<and> keys_ok H A (touch_owner H s bm) \<and>
    same_config bm (touch_owner H s bm) \<and> free_blocks (touch_owner H s bm) = free_blocks bm \<and>
    map_of (allocated_blocks (touch_owner H s bm)) s = Some (beams_of H s bm) \<and>
    (\<forall>t. t \<noteq> s \<longrightarrow> map_of (allocated_blocks (touch_owner H s bm)) t = map_of ?d t)"
  proof (cases "map_of ?d s")
    case None
    have "links (AList.update s ?e ?d) = links ?d"
      using None by (subst links_update_new) (auto simp: map_of_eq_None_iff)
    moreover have "exclusive (AList.update s ?e ?d)"
      using assms(1) by (intro exclusive_update) (auto simp: bm_inv_def)
    ultimately show ?thesis
      using None assms get set_update_subset[of s ?e ?d] upd[OF None]
      by (fastforce simp: touch_owner_def bm_inv_def pool_inv_def same_config_def keys_ok_def beams_of_def
          dom_update distinct_update)
  next
    case (Some v)
    then show ?thesis using assms get by (simp add: touch_owner_def beams_of_def)
  qed
  then show "bm_inv (touch_owner H s bm)" "keys_ok H A (touch_owner H s bm)"
    "same_config bm (touch_owner H s bm)" "free_blocks (touch_owner H s bm) = free_blocks bm"
    "map_of (allocated_blocks (touch_owner H s bm)) s = Some (beams_of H s bm)"
    "t \<noteq> s \<Longrightarrow> map_of (allocated_blocks (touch_owner H s bm)) t = map_of ?d t" by auto
qed

lemma bm_inv_facts:
  assumes "bm_inv bm"
  shows "pool_inv bm" "distinct (keys_of (allocated_blocks bm))"
    "ref_count bm b = int (count (links (allocated_blocks bm)) b)"
    "b \<in># links (allocated_blocks bm) \<Longrightarrow> b < num_blocks bm"
    "map_of (allocated_blocks bm) s = Some v \<Longrightarrow> length v = bm_beam_width bm"
    "exclusive (allocated_blocks bm)"
  using assms by (auto simp: bm_inv_def dest!: map_of_SomeD)

lemma exclusive_delete: "exclusive d \<Longrightarrow> exclusive (AList.delete s d)"
  unfolding exclusive_def by (auto simp del: set_concat split: if_splits)

lemma mset_concat_le_links: "map_of d s = Some v \<Longrightarrow> mset (concat v) \<subseteq># links d"
  by (induction d) (fastforce split: if_splits simp: subseteq_mset_def intro: trans_le_add2)+

text \<open>Freeing an owner returns its blocks to the pool and removes its entry.\<close>

lemma free_owner_inv:
  assumes "bm_inv bm" "keys_ok H A bm" "s \<in> A"
  shows "bm_inv (free_owner H s bm)" "keys_ok H A (free_owner H s bm)"
    "same_config bm (free_owner H s bm)"
    "map_of (allocated_blocks (free_owner H s bm)) = (map_of (allocated_blocks bm))(s := None)"
proof -
  let ?bm0 = "touch_owner H s bm" and ?v = "beams_of H s bm"
  note t = touch_owner_inv[OF assms]
  let ?d = "allocated_blocks ?bm0" and ?xs = "concat ?v"
  note f = bm_inv_facts[OF t(1)]
  have beams: "beams_of H s ?bm0 = ?v" using beams_of_map_of[OF t(2) assms(3)] t(5) by simp
  have len: "length ?v = bm_beam_width ?bm0" using f(5)[OF t(5)] .
  have sub: "mset ?xs \<subseteq># links ?d" by (rule mset_concat_le_links[OF t(5)])
  then have "\<forall>b. int (count (mset ?xs) b) \<le> ref_count ?bm0 b"
    by (simp add: f(3) mset_subset_eq_count)
  moreover have "\<forall>b \<in> set ?xs. b < num_blocks ?bm0"
    using f(4) sub mset_subset_eqD by fastforce
  ultimately have fu: "pool_inv (fold unlink ?xs ?bm0)" "same_config ?bm0 (fold unlink ?xs ?bm0)"
    "allocated_blocks (fold unlink ?xs ?bm0) = ?d"
    "\<And>b. ref_count (fold unlink ?xs ?bm0) b = ref_count ?bm0 b - int (count (mset ?xs) b)"
    using fold_unlink[OF f(1), of ?xs] by blast+
  have pop: "owner_pop H ?d s = AList.delete s ?d"
    using t(2) assms(3) f(2) by (intro owner_pop_delete[where A = A]) (auto simp: keys_ok_def)
  have eq: "free_owner H s bm = (fold unlink ?xs ?bm0)\<lparr>allocated_blocks := AList.delete s ?d\<rparr>"
    by (simp add: free_owner_def Let_def beams len fu(3) pop)
  have lk: "links (AList.delete s ?d) = links ?d - mset ?xs"
    using links_delete[OF f(2) t(5)] by (metis add_diff_cancel_right')
  have cnt: "ref_count (fold unlink ?xs ?bm0) b = int (count (links (AList.delete s ?d)) b)" for b
    using sub by (simp add: lk fu(4) f(3) mset_subset_eq_count)
  have num: "b < num_blocks ?bm0" if "0 < ref_count (fold unlink ?xs ?bm0) b" for b
    using that f(4)[of b] cnt[of b] count_eq_zero_iff[of "links (AList.delete s ?d)" b]
    by (auto simp: lk dest: in_diffD)
  have "\<forall>(u, w) \<in> set (AList.delete s ?d). length w = bm_beam_width ?bm0"
    using t(1) by (auto simp: bm_inv_def AList.delete_eq)
  with fu(1,2) cnt num f(2) exclusive_delete[OF f(6), of s]
  show "bm_inv (free_owner H s bm)"
    unfolding eq by (auto simp: bm_inv_def pool_inv_def same_config_def distinct_delete)
  show "keys_ok H A (free_owner H s bm)"
    using t(2) dom_delete_subset[of s ?d] unfolding eq by (auto simp: keys_ok_def)
  show "same_config bm (free_owner H s bm)"
    using t(3) fu(2) unfolding eq by (simp add: same_config_def)
  show "map_of (allocated_blocks (free_owner H s bm)) = (map_of (allocated_blocks bm))(s := None)"
    unfolding eq using t(6) by (auto simp: fun_eq_iff)
qed

text \<open>
  \<open>BlocksManager\<close> is an owner pool: its units are the block indices, an owner holds the blocks of its
  beams, and the available units are the free list.
\<close>

lemma beams_of_cong:
  assumes "keys_ok H A bm" "keys_ok G A bm'" "s \<in> A" "same_config bm bm'"
    "map_of (allocated_blocks bm') s = map_of (allocated_blocks bm) s"
  shows "beams_of G s bm' = beams_of H s bm"
  using assms by (simp add: beams_of_map_of[where A = A] same_config_def split: option.split)

lemma held_beams:
  assumes "keys_ok H A bm" "s \<in> A" "b \<in> set (concat (beams_of H s bm))"
  obtains v where "map_of (allocated_blocks bm) s = Some v" "b \<in> set (concat v)"
  using assms by (auto simp: beams_of_map_of[OF assms(1,2)] split: option.splits)

lemma blocks_partition:
  assumes "bm_inv bm" "keys_ok H A bm"
  shows "set (free_blocks bm) \<union> (\<Union>s\<in>A. set (concat (beams_of H s bm))) = {..<num_blocks bm}"
    and "s \<in> A \<Longrightarrow> set (free_blocks bm) \<inter> set (concat (beams_of H s bm)) = {}"
    and "s \<in> A \<Longrightarrow> t \<in> A \<Longrightarrow> s \<noteq> t \<Longrightarrow> set (concat (beams_of H s bm)) \<inter> set (concat (beams_of H t bm)) = {}"
proof -
  note f = bm_inv_facts[OF assms(1)]
  have free: "b \<in> set (free_blocks bm) \<longleftrightarrow> b < num_blocks bm \<and> b \<notin># links (allocated_blocks bm)" for b
    using f(1) by (simp add: pool_inv_def f(3) count_eq_zero_iff)
  have linked: "b \<in># links (allocated_blocks bm) \<longleftrightarrow> (\<exists>s\<in>A. b \<in> set (concat (beams_of H s bm)))" for b
  proof
    assume "b \<in># links (allocated_blocks bm)"
    then obtain s v where "(s, v) \<in> set (allocated_blocks bm)" "b \<in> set (concat v)"
      unfolding in_links_iff by blast
    moreover from this have "s \<in> A" "map_of (allocated_blocks bm) s = Some v"
      using assms(2) f(2) by (auto simp: keys_ok_def map_of_eq_Some_iff)
    ultimately show "\<exists>s\<in>A. b \<in> set (concat (beams_of H s bm))"
      by (intro bexI[of _ s]) (simp_all add: beams_of_map_of[OF assms(2)] del: set_concat)
  next
    assume "\<exists>s\<in>A. b \<in> set (concat (beams_of H s bm))"
    then show "b \<in># links (allocated_blocks bm)"
    proof
      fix s assume "s \<in> A" "b \<in> set (concat (beams_of H s bm))"
      then obtain v where "map_of (allocated_blocks bm) s = Some v" "b \<in> set (concat v)"
        by (rule held_beams[OF assms(2)])
      then show ?thesis unfolding in_links_iff by (intro bexI[OF _ map_of_SomeD]) auto
    qed
  qed
  show "set (free_blocks bm) \<union> (\<Union>s\<in>A. set (concat (beams_of H s bm))) = {..<num_blocks bm}"
    using free linked f(4) by (auto simp del: set_concat)
  show "s \<in> A \<Longrightarrow> set (free_blocks bm) \<inter> set (concat (beams_of H s bm)) = {}"
    using free linked by (auto simp del: set_concat)
  show "s \<in> A \<Longrightarrow> t \<in> A \<Longrightarrow> s \<noteq> t \<Longrightarrow> set (concat (beams_of H s bm)) \<inter> set (concat (beams_of H t bm)) = {}"
    using f(6) held_beams[OF assms(2)] unfolding exclusive_def by (metis disjoint_iff)
qed

lemma allocate_loop_mono:
  assumes "keys_ok H A bm" "s \<in> A" "allocate_loop H s share bis cur bm = (r, bm')"
    "\<forall>bi \<in> set bis. bi < length (beams_of H s bm)"
  shows "set (concat (beams_of H s bm)) \<subseteq> set (concat (beams_of H s bm'))"
  using assms
proof (induction bis arbitrary: cur bm)
  case (Cons bi bis)
  show ?case
  proof (cases "has_free_block bm")
    case True
    obtain b fr where t: "take_block share cur bm = (b, fr)" by fastforce
    let ?v = "beams_of H s bm" and ?bm = "link_at s bi b fr (beams_of H s bm) bm"
    have v: "beams_of H s ?bm = ?v[bi := ?v ! bi @ [b]]" by (rule link_at_effect(3)[OF Cons.prems(1,2) refl])
    have "set (concat (beams_of H s ?bm)) \<subseteq> set (concat (beams_of H s bm'))"
      using Cons.prems t allocate_loop_step[OF Cons.prems(1,2) True]
      by (intro Cons.IH) (auto simp: v simp del: allocate_loop.simps)
    moreover have "set (concat (beams_of H s ?bm)) = insert b (set (concat ?v))"
      unfolding v using arg_cong[OF mset_concat_append_at[of bi ?v b], of set_mset] Cons.prems(4) by simp
    ultimately show ?thesis by blast
  qed (use Cons.prems in simp)
qed simp

interpretation blocks_pool: growing_pool
  "\<lambda>bm. bm_inv bm \<and> keys_ok H A bm" A "\<lambda>bm. {..<num_blocks bm}" "\<lambda>bm. set (free_blocks bm)"
  "\<lambda>bm s. set (concat (beams_of H s bm))" "free_owner H" "\<lambda>share s. allocate H s share"
  for H A
proof (unfold_locales, goal_cases)
  case (6 bm s t)
  then show ?case
    using free_owner_inv[of bm H A s] beams_of_cong[of H A bm H "free_owner H s bm" t]
    by (auto simp: beams_of_map_of[of H A "free_owner H s bm" s])
next
  case (9 bm s share r bm' t)
  then show ?case
    using allocate_effect(1,3)[of bm H A s share r bm'] allocate_inv[of bm H A s share]
      beams_of_cong[of H A bm H bm' t]
    by simp
next
  case (10 bm s share r bm')
  then show ?case
    using allocate_loop_mono[of H A bm s share "[0..<bm_beam_width bm]" None r bm'] length_beams[of bm H A s]
    by (simp add: allocate_def)
next
  case (1 bm)
  then show ?case using blocks_partition(1) by blast
next
  case (2 bm s)
  then show ?case using blocks_partition(2) by blast
next
  case (3 bm s t)
  then show ?case using blocks_partition(3) by blast
next
  case (4 bm s)
  then show ?case using free_owner_inv(1,2) by blast
next
  case (5 bm s)
  then show ?case using free_owner_inv(3)[of bm H A s] by (simp add: same_config_def)
next
  case (7 bm s share r bm')
  then show ?case using allocate_inv[of bm H A s share] by simp
next
  case (8 bm s share r bm')
  then show ?case using allocate_effect(1)[of bm H A s share r bm'] by (simp add: same_config_def)
qed

text \<open>
  C3: blocks are conserved by \<open>BlocksManager\<close>. Whatever \<open>allocate\<close> did for an owner, with or without
  sharing and even when it raised for lack of blocks, a following \<open>free\<close> puts exactly the blocks the
  owner held and those it had just been given back into the free list, and leaves it with none; no
  other owner gains or loses a block.
\<close>

theorem allocate_free_conserves:
  assumes "bm_inv bm" "keys_ok H A bm" "s \<in> A" "allocate H s share bm = (r, bm')"
  shows "set (free_blocks (free_owner H s bm')) = set (free_blocks bm) \<union> set (concat (beams_of H s bm)) \<and>
     (\<forall>t \<in> A. set (concat (beams_of H t (free_owner H s bm'))) =
        (if t = s then {} else set (concat (beams_of H t bm))))"
proof
  note i = blocks_pool.acquire_inv[OF conjI[OF assms(1,2)] assms(3,4)]
  show "set (free_blocks (free_owner H s bm')) = set (free_blocks bm) \<union> set (concat (beams_of H s bm))"
    using blocks_pool.acquire_release assms by blast
  show "\<forall>t \<in> A. set (concat (beams_of H t (free_owner H s bm'))) =
        (if t = s then {} else set (concat (beams_of H t bm)))"
    using blocks_pool.release_held[OF i assms(3)] blocks_pool.acquire_others[OF conjI[OF assms(1,2)] assms(3,4)]
    by simp
qed

section \<open>Replacing a shared block\<close>

definition slot :: "int \<Rightarrow> block list \<Rightarrow> block" where
  "slot i beam = beam ! py_pos (length beam) i"

lemma unlink_beams_fold:
  assumes "unlink_beams v i bis bm = (Inr u, bm')" "\<forall>bi \<in> set bis. bi < length v"
  shows "bm' = fold unlink (map (\<lambda>bi. slot i (v ! bi)) bis) bm \<and>
     (\<forall>bi \<in> set bis. py_pos (length (v ! bi)) i < length (v ! bi))"
  using assms
  by (induction v i bis bm rule: unlink_beams.induct)
    (auto simp: slot_def split: sum.splits dest!: py_index_pos)

text \<open>
  The invariant of the second loop: the beams \<open>k, k + 1, \<dots>\<close> still hold the block that the first loop
  has unlinked, so their slots are the ones the reference counts do not see.
\<close>

definition relinking :: "sref \<Rightarrow> int \<Rightarrow> nat \<Rightarrow> block list list \<Rightarrow> blocks_manager \<Rightarrow> bool" where
  "relinking s i k v bm \<longleftrightarrow> pool_inv bm \<and> distinct (keys_of (allocated_blocks bm)) \<and>
     map_of (allocated_blocks bm) s = Some v \<and> k \<le> length v \<and>
     (\<forall>beam \<in> set v. py_pos (length beam) i < length beam) \<and>
     (\<forall>b. ref_count bm b + int (count (mset (map (slot i) (drop k v))) b)
        = int (count (links (allocated_blocks bm)) b)) \<and>
     (\<forall>b. b \<in># links (allocated_blocks bm) \<longrightarrow> b < num_blocks bm) \<and>
     (\<forall>(s, v) \<in> set (allocated_blocks bm). length v = bm_beam_width bm) \<and>
     exclusive (allocated_blocks bm) \<and>
     (\<forall>bi < k. ref_count bm (slot i (v ! bi)) = 1)"

lemma relinking_facts:
  assumes "relinking s i k v bm"
  shows "pool_inv bm" "distinct (keys_of (allocated_blocks bm))" "map_of (allocated_blocks bm) s = Some v"
    "\<forall>beam \<in> set v. py_pos (length beam) i < length beam"
    "ref_count bm b + int (count (mset (map (slot i) (drop k v))) b) = int (count (links (allocated_blocks bm)) b)"
    "b \<in># links (allocated_blocks bm) \<Longrightarrow> b < num_blocks bm"
    "\<forall>(s, v) \<in> set (allocated_blocks bm). length v = bm_beam_width bm"
    "exclusive (allocated_blocks bm)" "bi < k \<Longrightarrow> ref_count bm (slot i (v ! bi)) = 1"
  using assms unfolding relinking_def by blast+

lemma mset_slots_le: "\<forall>beam \<in> set v. py_pos (length beam) i < length beam \<Longrightarrow>
    mset (map (slot i) v) \<subseteq># mset (concat v)"
proof (induction v)
  case (Cons x v)
  then have "{#slot i x#} \<subseteq># mset x" by (simp add: slot_def)
  moreover have "mset (map (slot i) v) \<subseteq># mset (concat v)" using Cons by simp
  ultimately have "{#slot i x#} + mset (map (slot i) v) \<subseteq># mset x + mset (concat v)"
    by (rule subset_mset.add_mono)
  then show ?case by simp
qed simp

lemma mset_concat_replace:
  "bi < length v \<Longrightarrow> p < length (v ! bi) \<Longrightarrow>
     add_mset (v ! bi ! p) (mset (concat (v[bi := (v ! bi)[p := b]]))) = add_mset b (mset (concat v))"
proof (induction v arbitrary: bi)
  case (Cons x v)
  then show ?case by (cases bi) (auto simp: mset_update ac_simps)
qed simp

lemma relinking_init:
  assumes "bm_inv bm" "map_of (allocated_blocks bm) s = Some v"
    "unlink_beams v i [0..<length v] bm = (Inr u, bm')"
  shows "relinking s i 0 v bm' \<and> same_config bm bm' \<and> allocated_blocks bm' = allocated_blocks bm"
proof -
  let ?xs = "map (slot i) v"
  note f = bm_inv_facts[OF assms(1)]
  have m: "map (\<lambda>bi. slot i (v ! bi)) [0..<length v] = ?xs"
    by (rule nth_equalityI) auto
  from unlink_beams_fold[OF assms(3)] have b: "bm' = fold unlink ?xs bm"
    and p: "\<forall>beam \<in> set v. py_pos (length beam) i < length beam"
    by (auto simp: m in_set_conv_nth)
  have sub: "mset ?xs \<subseteq># links (allocated_blocks bm)"
    using mset_slots_le[OF p] mset_concat_le_links[OF assms(2)] by (rule subset_mset.order_trans)
  have "\<forall>b. int (count (mset ?xs) b) \<le> ref_count bm b"
    using sub by (simp add: f(3) mset_subset_eq_count)
  moreover have "\<forall>b \<in> set ?xs. b < num_blocks bm"
    using f(4) sub mset_subset_eqD by fastforce
  ultimately have "pool_inv bm' \<and> same_config bm bm' \<and> allocated_blocks bm' = allocated_blocks bm \<and>
     (\<forall>b. ref_count bm' b = ref_count bm b - int (count (mset ?xs) b))"
    using fold_unlink[OF f(1), of ?xs] b by blast
  with assms(1,2) f(4) p show ?thesis
    by (auto simp: relinking_def bm_inv_def same_config_def)
qed

definition relink_at :: "sref \<Rightarrow> int \<Rightarrow> nat \<Rightarrow> block list list \<Rightarrow> blocks_manager \<Rightarrow> blocks_manager" where
  "relink_at s i k v bm =
     (let b = hd (free_blocks bm) in
      bm\<lparr>free_blocks := tl (free_blocks bm), ref_count := (ref_count bm)(b := ref_count bm b + 1),
         allocated_blocks :=
           AList.update s (v[k := (v ! k)[py_pos (length (v ! k)) i := b]]) (allocated_blocks bm)\<rparr>)"

lemma relink_beams_step:
  assumes "keys_ok H A bm" "s \<in> A" "has_free_block bm" "v = beams_of H s bm"
  shows "relink_beams H s i (k # ks) bm = relink_beams H s i ks (relink_at s i k v bm)"
proof -
  have "beams_of H s (add_link b (bm\<lparr>free_blocks := fr\<rparr>)) = beams_of H s bm" for b fr
    by (simp add: beams_of_def split: option.split)
  then show ?thesis
    using assms by (simp add: relink_at_def set_beams_update[of H A] add_link_def Let_def keys_ok_def)
qed

text \<open>The block that is relinked had no reference: it occurs in stale slots of the owner, if at all.\<close>

lemma relinking_fresh:
  assumes "relinking s i k v bm" "b \<in> set (free_blocks bm)" "map_of (allocated_blocks bm) t = Some w" "t \<noteq> s"
  shows "b \<notin> set (concat w)"
proof
  assume b: "b \<in> set (concat w)"
  have pos: "\<forall>beam \<in> set v. py_pos (length beam) i < length beam"
    and ex: "exclusive (allocated_blocks bm)" and sv: "map_of (allocated_blocks bm) s = Some v"
    using relinking_facts[OF assms(1)] by simp_all
  have ref: "ref_count bm b = 0"
    using relinking_facts(1)[OF assms(1)] assms(2) by (simp add: pool_inv_def)
  note cnt = relinking_facts(5)[OF assms(1), of b]
  have "b \<in># links (allocated_blocks bm)"
    using b map_of_SomeD[OF assms(3)] unfolding in_links_iff by blast
  then have "0 < count (links (allocated_blocks bm)) b" by simp
  then have "0 < count (mset (map (slot i) (drop k v))) b" using cnt ref by linarith
  then have "b \<in> set (map (slot i) (drop k v))" unfolding count_greater_zero_iff set_mset_mset .
  then obtain beam where "beam \<in> set v" "b = slot i beam" by (auto dest: in_set_dropD)
  then have "b \<in> set (concat v)" using pos by (auto simp: slot_def intro!: bexI[of _ beam])
  with ex sv assms(3,4) b show False unfolding exclusive_def by blast
qed

lemma relinking_step:
  assumes "relinking s i k v bm" "k < length v" "has_free_block bm"
  shows "relinking s i (Suc k) (v[k := (v ! k)[py_pos (length (v ! k)) i := hd (free_blocks bm)]]) (relink_at s i k v bm)"
proof -
  let ?d = "allocated_blocks bm" and ?p = "py_pos (length (v ! k)) i"
  obtain b fr where fr: "free_blocks bm = b # fr" using assms(3) by (auto simp: has_free_block_def neq_Nil_conv)
  let ?v = "v[k := (v ! k)[?p := b]]"
  have pool: "pool_inv bm" and dist: "distinct (keys_of ?d)" and sv: "map_of ?d s = Some v"
    and pos: "\<forall>beam \<in> set v. py_pos (length beam) i < length beam"
    and cnt: "\<And>b. ref_count bm b + int (count (mset (map (slot i) (drop k v))) b) = int (count (links ?d) b)"
    and num: "\<And>b. b \<in># links ?d \<Longrightarrow> b < num_blocks bm"
    and len: "\<forall>(s, v) \<in> set ?d. length v = bm_beam_width bm"
    and ex: "exclusive ?d" and one: "\<And>bi. bi < k \<Longrightarrow> ref_count bm (slot i (v ! bi)) = 1"
    using relinking_facts[OF assms(1)] by simp_all
  have b0: "ref_count bm b = 0" "b < num_blocks bm" using pool fr by (auto simp: pool_inv_def)
  have p: "?p < length (v ! k)" using pos assms(2) by simp
  have mv: "add_mset (slot i (v ! k)) (mset (concat ?v)) = add_mset b (mset (concat v))"
    using mset_concat_replace[OF assms(2) p, of b] by (simp add: slot_def)
  have lk: "add_mset (slot i (v ! k)) (links (AList.update s ?v ?d)) = add_mset b (links ?d)"
  proof -
    have "add_mset (slot i (v ! k)) (links (AList.update s ?v ?d)) + mset (concat v)
        = links ?d + add_mset (slot i (v ! k)) (mset (concat ?v))"
      using links_update[OF sv, of ?v] by simp
    also have "\<dots> = add_mset b (links ?d) + mset (concat v)" unfolding mv by simp
    finally show ?thesis by simp
  qed
  have drop: "drop k v = v ! k # drop (Suc k) v" by (rule Cons_nth_drop_Suc[OF assms(2), symmetric])
  have dropv: "drop (Suc k) ?v = drop (Suc k) v" by simp
  have "exclusive (AList.update s ?v ?d)"
  proof (rule exclusive_update[OF ex])
    fix c t w assume h: "c \<in> set (concat ?v)" "map_of ?d t = Some w" "t \<noteq> s"
    have "c \<in># add_mset b (mset (concat v))" using h(1) by (subst mv[symmetric]) simp
    then have "c = b \<or> c \<in> set (concat v)" by simp
    moreover have "b \<notin> set (concat w)" using relinking_fresh[OF assms(1) _ h(2,3)] fr by simp
    ultimately show "c \<notin> set (concat w)" using ex sv h(2,3) unfolding exclusive_def by blast
  qed
  moreover have "((ref_count bm)(b := ref_count bm b + 1)) c + int (count (mset (map (slot i) (drop (Suc k) ?v))) c)
      = int (count (links (AList.update s ?v ?d)) c)" for c
    using cnt[of c] arg_cong[OF lk, of "\<lambda>M. count M c"] unfolding dropv drop
    by (auto split: if_splits)
  moreover have "c < num_blocks bm" if "c \<in># links (AList.update s ?v ?d)" for c
  proof -
    have "c \<in># add_mset b (links ?d)" using that by (subst lk[symmetric]) simp
    then show ?thesis using num b0 by auto
  qed
  moreover have "\<forall>(t, w) \<in> set (AList.update s ?v ?d). length w = bm_beam_width bm"
    using len set_update_subset[of s ?v ?d] map_of_SomeD[OF sv] by fastforce
  moreover have "\<forall>beam \<in> set ?v. py_pos (length beam) i < length beam"
    using pos p set_update_subset_insert[of v k] by fastforce
  moreover have "((ref_count bm)(b := ref_count bm b + 1)) (slot i (?v ! bi)) = 1" if "bi < Suc k" for bi
    using that one[of bi] b0 p assms(2) by (cases "bi = k") (auto simp: slot_def)
  moreover have "pool_inv (relink_at s i k v bm)"
    using pool fr b0 by (auto simp: pool_inv_def relink_at_def)
  ultimately show ?thesis
    using dist assms(2) by (auto simp: relinking_def relink_at_def fr distinct_update Let_def)
qed

lemma relink_beams_effect:
  assumes "relinking s i k v bm" "keys_ok H A bm" "s \<in> A"
    "relink_beams H s i [k..<length v] bm = (Inr u, bm')"
  shows "\<exists>v'. relinking s i (length v) v' bm' \<and> map length v' = map length v \<and> keys_ok H A bm' \<and>
     same_config bm bm' \<and> (\<forall>t. t \<noteq> s \<longrightarrow> map_of (allocated_blocks bm') t = map_of (allocated_blocks bm) t)"
  using assms
proof (induction "length v - k" arbitrary: k v bm)
  case 0
  then show ?case by (auto simp: relinking_def)
next
  case (Suc n)
  let ?bm = "relink_at s i k v bm"
  let ?v = "v[k := (v ! k)[py_pos (length (v ! k)) i := hd (free_blocks bm)]]"
  have k: "k < length v" using Suc.hyps(2) by simp
  then have u: "[k..<length v] = k # [Suc k..<length v]" by (rule upt_conv_Cons)
  have free: "has_free_block bm" using Suc.prems(4) unfolding u by (rule contrapos_pp) simp
  have v: "v = beams_of H s bm"
    using relinking_facts(3)[OF Suc.prems(1)] by (simp add: beams_of_map_of[OF Suc.prems(2,3)])
  have ok: "keys_ok H A ?bm" using Suc.prems(2,3) by (auto simp: relink_at_def keys_ok_def Let_def dom_update)
  have "\<exists>v'. relinking s i (length ?v) v' bm' \<and> map length v' = map length ?v \<and> keys_ok H A bm' \<and>
     same_config ?bm bm' \<and> (\<forall>t. t \<noteq> s \<longrightarrow> map_of (allocated_blocks bm') t = map_of (allocated_blocks ?bm) t)"
    using Suc.hyps(2) relinking_step[OF Suc.prems(1) k free] ok Suc.prems(3,4) relink_beams_step[OF Suc.prems(2,3) free v]
    by (intro Suc.hyps(1)) (auto simp: u)
  moreover have "map length ?v = map length v" using k by (simp add: map_update list_update_same_conv)
  ultimately show ?case by (auto simp: relink_at_def same_config_def Let_def)
qed

lemma relinking_done: "relinking s i (length v) v bm \<Longrightarrow> bm_inv bm"
  by (auto simp: relinking_def bm_inv_def)

lemma replace_shared_block_effect:
  assumes "bm_inv bm" "keys_ok H A bm" "s \<in> A" "replace_shared_block H s i bm = (Inr u, bm')"
  shows "bm_inv bm' \<and> keys_ok H A bm' \<and> same_config bm bm' \<and>
     (\<forall>t. t \<noteq> s \<longrightarrow> map_of (allocated_blocks bm') t = map_of (allocated_blocks bm) t) \<and>
     map length (beams_of H s bm') = map length (beams_of H s bm) \<and>
     (is_shared bm (slot i (beams_of H s bm ! 0)) \<longrightarrow>
        (\<forall>bi < bm_beam_width bm. ref_count bm' (slot i (beams_of H s bm' ! bi)) = 1))"
proof -
  let ?bm0 = "touch_owner H s bm" and ?v = "beams_of H s bm"
  note t = touch_owner_inv[OF assms(1-3)]
  have v: "beams_of H s ?bm0 = ?v" using beams_of_map_of[OF t(2) assms(3)] t(5) by simp
  have lv: "length ?v = bm_beam_width bm" by (rule length_beams[OF assms(1-3)])
  have ref: "ref_count ?bm0 = ref_count bm" by (simp add: touch_owner_def split: option.split)
  from assms(4) obtain b where b: "res_bind (py_index ?v 0) (\<lambda>beam. py_index beam i) = Inr b"
    by (auto simp: replace_shared_block_def v Let_def split: sum.splits)
  then have b0: "b = slot i (?v ! 0)"
    by (cases ?v) (auto simp: slot_def dest: py_index_pos)
  show ?thesis
  proof (cases "is_shared bm b")
    case False
    then have "bm' = ?bm0" using assms(4) b by (simp add: replace_shared_block_def v Let_def is_shared_def ref)
    then show ?thesis using t False v b0 by auto
  next
    case True
    with assms(4) b obtain u1 bm1 where u: "unlink_beams ?v i [0..<length ?v] ?bm0 = (Inr u1, bm1)"
      and r: "relink_beams H s i [0..<bm_beam_width bm1] bm1 = (Inr u, bm')"
      using t(3) lv
      by (auto simp: replace_shared_block_def v Let_def is_shared_def ref same_config_def split: prod.splits sum.splits)
    note i = relinking_init[OF t(1,5) u]
    have ok: "keys_ok H A bm1" using i t(2) by (simp add: keys_ok_def)
    have w: "bm_beam_width bm1 = length ?v" using i t(3) lv by (simp add: same_config_def)
    from relink_beams_effect[OF conjunct1[OF i] ok assms(3) r[unfolded w]]
    obtain v' where e: "relinking s i (length ?v) v' bm'" "map length v' = map length ?v"
      "keys_ok H A bm'" "same_config bm1 bm'"
      "\<forall>t. t \<noteq> s \<longrightarrow> map_of (allocated_blocks bm') t = map_of (allocated_blocks bm1) t" by blast
    have "length v' = length ?v" using arg_cong[OF e(2), of length] by simp
    moreover have "beams_of H s bm' = v'"
      using relinking_facts(3)[OF e(1)] by (simp add: beams_of_map_of[OF e(3) assms(3)])
    moreover have "same_config bm bm'" using t(3) i e(4) same_config_trans by blast
    ultimately show ?thesis
      using relinking_done[of s i v' bm'] relinking_facts(9)[OF e(1)] e t(6) i lv by simp
  qed
qed

text \<open>
  C4: a successful \<open>replace_shared_block\<close> is a copy-on-write. The pool stays consistent, no other
  owner is affected, no beam changes its length, and when the block of the first beam was shared then
  afterwards every beam of the owner has a block of its own in that slot.
\<close>

theorem replace_shared_block_unshares:
  assumes "bm_inv bm" "keys_ok H A bm" "s \<in> A" "replace_shared_block H s i bm = (Inr u, bm')"
  shows "bm_inv bm' \<and> keys_ok H A bm' \<and> same_config bm bm' \<and>
     (\<forall>t. t \<noteq> s \<longrightarrow> map_of (allocated_blocks bm') t = map_of (allocated_blocks bm) t) \<and>
     map length (beams_of H s bm') = map length (beams_of H s bm) \<and>
     (is_shared bm (slot i (beams_of H s bm ! 0)) \<longrightarrow>
        (\<forall>bi < bm_beam_width bm. ref_count bm' (slot i (beams_of H s bm' ! bi)) = 1))"
  using assms by (rule replace_shared_block_effect)

section \<open>How many free blocks an operation needs\<close>

lemma allocate_loop_free:
  assumes "keys_ok H A bm" "s \<in> A" "length bis \<le> length (free_blocks bm)"
  shows "\<exists>bm'. allocate_loop H s False bis cur bm = (Inr (), bm') \<and>
    length (free_blocks bm') + length bis = length (free_blocks bm)"
  using assms
proof (induction bis arbitrary: cur bm)
  case (Cons bi bis)
  then obtain b fr where fr: "free_blocks bm = b # fr" by (cases "free_blocks bm") auto
  let ?bm = "link_at s bi b fr (beams_of H s bm) bm"
  have "\<exists>bm'. allocate_loop H s False bis (Some b) ?bm = (Inr (), bm') \<and>
    length (free_blocks bm') + length bis = length (free_blocks ?bm)"
    using Cons.prems fr by (intro Cons.IH) auto
  moreover have "allocate_loop H s False (bi # bis) cur bm = allocate_loop H s False bis (Some b) ?bm"
    using allocate_loop_step[OF Cons.prems(1,2), of False bi bis cur] fr
    by (simp add: take_block_def has_free_block_def del: allocate_loop.simps)
  ultimately show ?case using fr by auto
qed simp

lemma relink_beams_free:
  assumes "keys_ok H A bm" "s \<in> A" "length bis \<le> length (free_blocks bm)"
  shows "\<exists>bm'. relink_beams H s i bis bm = (Inr (), bm') \<and>
    length (free_blocks bm') + length bis = length (free_blocks bm)"
  using assms
proof (induction bis arbitrary: bm)
  case (Cons bi bis)
  then have free: "has_free_block bm" by (cases "free_blocks bm") (auto simp: has_free_block_def)
  let ?bm = "relink_at s i bi (beams_of H s bm) bm"
  have "keys_ok H A ?bm" using Cons.prems(1,2) by (auto simp: relink_at_def keys_ok_def Let_def dom_update)
  moreover have "free_blocks ?bm = tl (free_blocks bm)" by (simp add: relink_at_def Let_def)
  ultimately have "\<exists>bm'. relink_beams H s i bis ?bm = (Inr (), bm') \<and>
    length (free_blocks bm') + length bis = length (tl (free_blocks bm))"
    using Cons.prems(2,3) Cons.IH[of ?bm] by auto
  then show ?case
    using free relink_beams_step[OF Cons.prems(1,2) free refl] by (auto simp: has_free_block_def simp del: relink_beams.simps)
qed simp

lemma relink_beams_errors: "relink_beams H s i bis bm = (Inl e, bm') \<Longrightarrow> e = RuntimeError"
  by (induction bis arbitrary: bm) (auto simp: Let_def split: if_splits)

lemma unlink_beams_total:
  assumes "\<forall>bi \<in> set bis. bi < length v \<and> 0 \<le> i \<and> i < int (length (v ! bi))"
  shows "\<exists>bm'. unlink_beams v i bis bm = (Inr (), bm') \<and> length (free_blocks bm) \<le> length (free_blocks bm') \<and>
    allocated_blocks bm' = allocated_blocks bm \<and> same_config bm bm'"
  using assms
proof (induction bis arbitrary: bm)
  case (Cons bi bis)
  let ?bm = "unlink (v ! bi ! nat i) bm"
  have "\<exists>bm'. unlink_beams v i bis ?bm = (Inr (), bm') \<and> length (free_blocks ?bm) \<le> length (free_blocks bm') \<and>
    allocated_blocks bm' = allocated_blocks ?bm \<and> same_config ?bm bm'"
    using Cons.prems by (intro Cons.IH) simp
  moreover have "length (free_blocks bm) \<le> length (free_blocks ?bm)"
    by (simp add: unlink_def remove_link_def Let_def)
  ultimately show ?case using Cons.prems same_config_trans[OF unlink_simps(2)] by fastforce
qed simp

lemma replace_shared_block_total:
  assumes "bm_inv bm" "keys_ok H A bm" "s \<in> A" "0 < bm_beam_width bm" "0 \<le> i"
    "\<forall>beam \<in> set (beams_of H s bm). i < int (length beam)"
  shows "fst (replace_shared_block H s i bm) \<in> {Inr (), Inl RuntimeError}"
    and "bm_beam_width bm \<le> length (free_blocks bm) \<Longrightarrow>
      \<exists>bm'. replace_shared_block H s i bm = (Inr (), bm') \<and>
        length (free_blocks bm) \<le> length (free_blocks bm') + bm_beam_width bm"
proof -
  let ?bm0 = "touch_owner H s bm" and ?v = "beams_of H s bm"
  note t = touch_owner_inv[OF assms(1-3)]
  have v: "beams_of H s ?bm0 = ?v" using beams_of_map_of[OF t(2) assms(3)] t(5) by simp
  have lv: "length ?v = bm_beam_width ?bm0" using length_beams[OF assms(1-3)] t(3) by (simp add: same_config_def)
  have w: "bm_beam_width ?bm0 = bm_beam_width bm" using t(3) by (simp add: same_config_def)
  have len: "\<forall>bi \<in> set [0..<bm_beam_width ?bm0]. bi < length ?v \<and> 0 \<le> i \<and> i < int (length (?v ! bi))"
    using assms(5,6) lv by auto
  then have head: "res_bind (py_index ?v 0) (\<lambda>beam. py_index beam i) = Inr (?v ! 0 ! nat i)"
    using assms(4) lv w by simp
  obtain bm1 where u: "unlink_beams ?v i [0..<bm_beam_width ?bm0] ?bm0 = (Inr (), bm1)"
    "length (free_blocks ?bm0) \<le> length (free_blocks bm1)" "allocated_blocks bm1 = allocated_blocks ?bm0"
    "same_config ?bm0 bm1"
    using unlink_beams_total[OF len] by blast
  have e: "replace_shared_block H s i bm =
     (if \<not> is_shared ?bm0 (?v ! 0 ! nat i) then (Inr (), ?bm0) else relink_beams H s i [0..<bm_beam_width bm1] bm1)"
    by (simp add: replace_shared_block_def v head u(1) del: res_bind_simps)
  have "fst (relink_beams H s i bis bm1) \<in> {Inr (), Inl RuntimeError}" for bis
    using relink_beams_errors[of H s i bis bm1] by (cases "relink_beams H s i bis bm1"; cases "fst (relink_beams H s i bis bm1)") auto
  then show "fst (replace_shared_block H s i bm) \<in> {Inr (), Inl RuntimeError}"
    unfolding e by (cases "is_shared ?bm0 (?v ! 0 ! nat i)") auto
  assume free: "bm_beam_width bm \<le> length (free_blocks bm)"
  have "keys_ok H A bm1" using t(2) u(3) by (simp add: keys_ok_def)
  then show "\<exists>bm'. replace_shared_block H s i bm = (Inr (), bm') \<and>
        length (free_blocks bm) \<le> length (free_blocks bm') + bm_beam_width bm"
    unfolding e using relink_beams_free[of H A bm1 s "[0..<bm_beam_width bm1]" i] assms(3) free u t(3,4)
    by (cases "is_shared ?bm0 (?v ! 0 ! nat i)") (auto simp: same_config_def)
qed

section \<open>A concrete pool\<close>

definition example_heap :: seq_heap where
  "example_heap s = \<lparr>seq_idx = int s, batch_idx = int s\<rparr>"

definition example_pool :: blocks_manager where
  "example_pool = blocks_manager_init 1 4 8 4 2"

definition example_shared :: blocks_manager where
  "example_shared = snd (allocate example_heap 0 True example_pool)"

lemma example_pool_ok: "bm_inv example_pool" "keys_ok example_heap UNIV example_pool"
  by (simp_all add: example_pool_def bm_inv_init keys_ok_def owner_ok_def example_heap_def inj_on_def)

lemma example_shared_ok: "bm_inv example_shared" "keys_ok example_heap UNIV example_shared"
  unfolding example_shared_def using allocate_inv[OF example_pool_ok] by simp_all

theorem allocate_succeeds_iff_witness:
  "fst (allocate example_heap 0 False example_pool) = Inr () \<and>
   fst (allocate example_heap 0 True (example_pool\<lparr>free_blocks := [3]\<rparr>)) \<noteq> Inr ()"
proof -
  have "bm_beam_width example_pool = 2" "free_blocks example_pool = [0, 1, 2, 3]" by code_simp+
  then show ?thesis
    using allocate_succeeds_iff[OF example_pool_ok(2), of 0]
      allocate_succeeds_iff[of example_heap UNIV "example_pool\<lparr>free_blocks := [3]\<rparr>" 0] example_pool_ok(2)
    by simp
qed

theorem allocate_free_conserves_witness:
  "set (free_blocks (free_owner example_heap 0 example_shared)) = {0, 1, 2, 3}"
proof -
  have "allocate example_heap 0 True example_pool = (fst (allocate example_heap 0 True example_pool), example_shared)"
    by (simp add: example_shared_def)
  from allocate_free_conserves[OF example_pool_ok _ this] show ?thesis
    by (simp add: example_pool_def blocks_manager_init_def beams_of_def) auto
qed

theorem replace_shared_block_unshares_witness:
  "\<exists>bm'. replace_shared_block example_heap 0 0 example_shared = (Inr (), bm') \<and> bm_inv bm' \<and>
     ref_count bm' (slot 0 (beams_of example_heap 0 bm' ! 0)) = 1 \<and>
     ref_count bm' (slot 0 (beams_of example_heap 0 bm' ! 1)) = 1"
proof -
  have ok: "fst (replace_shared_block example_heap 0 0 example_shared) = Inr ()" by code_simp
  have sh: "is_shared example_shared (slot 0 (beams_of example_heap 0 example_shared ! 0))"
    "bm_beam_width example_shared = 2" by code_simp+
  obtain bm' where r: "replace_shared_block example_heap 0 0 example_shared = (Inr (), bm')"
    using ok by (metis prod.collapse)
  show ?thesis using replace_shared_block_unshares[OF example_shared_ok _ r] sh r by simp
qed

end
