(* ===== verification/KV_Cache_Manager.thy ===== *)
theory KV_Cache_Manager
  imports Paged_KV_Cache
begin

text \<open>
  \<open>KVCacheManager\<close> of \<open>tensorrt_llm/runtime/kv_cache_manager.py\<close>: the client of the block pool that
  adds sequences, grows them token by token (with a cyclic window after the sink tokens) and removes
  the finished ones. \<open>KVCacheUpdater\<close> moves tensors only and is not modelled.

  The invariant says that every live sequence owns exactly the blocks that its tokens need. It is
  proved for all states reachable by \<open>add_sequence\<close> and \<open>step\<close>.
\<close>

section \<open>The cache manager\<close>

record kv_cache_manager =
  blocks_mgr :: blocks_manager
  tokens_per_block :: int
  max_attention_window_size :: int
  sink_token_len :: int
  kv_beam_width :: nat
  bubble_len :: int
  sink_block_token_num :: int
  max_token_num :: int
  lens :: "int list"
  sequences :: "sref list"
  seq_objs :: seq_heap

definition kv_cache_manager_init ::
    "seq_heap \<Rightarrow> nat \<Rightarrow> nat \<Rightarrow> nat \<Rightarrow> int \<Rightarrow> nat \<Rightarrow> int \<Rightarrow> int \<Rightarrow> nat \<Rightarrow> bool \<Rightarrow> kv_cache_manager result" where
  "kv_cache_manager_init H layers blocks bsize tpb max_per_seq window sink beams one_more =
     res_bind (py_mod sink tpb) (\<lambda>r.
     let bubble = (if r = 0 then 0 else tpb - r);
         max_num = window + bubble in
     Inr \<lparr>blocks_mgr = blocks_manager_init layers blocks bsize max_per_seq beams,
          tokens_per_block = tpb, max_attention_window_size = window, sink_token_len = sink,
          kv_beam_width = beams, bubble_len = bubble, sink_block_token_num = sink + bubble,
          max_token_num = (if one_more then max_num + tpb else max_num),
          lens = [], sequences = [], seq_objs = H\<rparr>)"

text \<open>Running an operation of the block manager inside the cache manager.\<close>

definition on_blocks :: "(blocks_manager \<Rightarrow> unit result \<times> blocks_manager) \<Rightarrow> kv_cache_manager
    \<Rightarrow> unit result \<times> kv_cache_manager" where
  "on_blocks f kv = (case f (blocks_mgr kv) of (r, bm) \<Rightarrow> (r, kv\<lparr>blocks_mgr := bm\<rparr>))"

text \<open>The body of the loop of \<open>step\<close> up to the increment of the length.\<close>

definition step_grow :: "bool list \<Rightarrow> sref \<Rightarrow> kv_cache_manager \<Rightarrow> unit result \<times> kv_cache_manager" where
  "step_grow finished s kv =
     (let i = batch_idx (seq_objs kv s);
          cyclic = max_token_num kv - sink_block_token_num kv in
      case res_bind (py_index (lens kv) i) (\<lambda>len.
           res_bind (py_mod (len - sink_block_token_num kv) cyclic) (\<lambda>m.
           res_bind (py_index finished i) (\<lambda>fin.
           let nxt = sink_block_token_num kv + m in
           if fin then Inr (len, nxt, False)
           else res_bind (py_mod nxt (tokens_per_block kv)) (\<lambda>r.
             if r = 0 then Inr (len, nxt, True)
             else res_bind (py_mod (nxt - sink_block_token_num kv) cyclic) (\<lambda>r2.
               Inr (len, nxt, r2 = 0)))))) of
        Inl e \<Rightarrow> (Inl e, kv)
      | Inr (len, nxt, grow) \<Rightarrow>
          if \<not> grow then (Inr (), kv)
          else if len < max_token_num kv then on_blocks (allocate (seq_objs kv) s False) kv
          else if kv_beam_width kv > 1
          then on_blocks (replace_shared_block (seq_objs kv) s (nxt div tokens_per_block kv)) kv
          else (Inr (), kv))"

fun step_loop :: "bool list \<Rightarrow> sref list \<Rightarrow> kv_cache_manager \<Rightarrow> unit result \<times> kv_cache_manager" where
  "step_loop finished [] kv = (Inr (), kv)"
| "step_loop finished (s # ss) kv =
     (case step_grow finished s kv of
        (Inl e, kv1) \<Rightarrow> (Inl e, kv1)
      | (Inr _, kv1) \<Rightarrow>
          let p = py_pos (length (lens kv1)) (batch_idx (seq_objs kv1 s)) in
          step_loop finished ss (kv1\<lparr>lens := (lens kv1)[p := lens kv1 ! p + 1]\<rparr>))"

fun free_finished :: "nat list \<Rightarrow> bool list \<Rightarrow> kv_cache_manager \<Rightarrow> unit result \<times> kv_cache_manager" where
  "free_finished [] finished kv = (Inr (), kv)"
| "free_finished (fi # fis) finished kv =
     (if finished ! fi then
        (case py_index (sequences kv) (int fi) of
           Inl e \<Rightarrow> (Inl e, kv)
         | Inr s \<Rightarrow> free_finished fis finished
             (kv\<lparr>blocks_mgr := free_owner (seq_objs kv) s (blocks_mgr kv)\<rparr>))
      else free_finished fis finished kv)"

fun remap :: "(sref \<times> bool) list \<Rightarrow> int \<Rightarrow> seq_heap \<Rightarrow> sref list \<times> seq_heap" where
  "remap [] i H = ([], H)"
| "remap ((s, fin) # rest) i H =
     (if fin then remap rest i H
      else (case remap rest (i + 1) (H(s := (H s)\<lparr>batch_idx := i\<rparr>)) of
              (ss, H') \<Rightarrow> (s # ss, H')))"

definition step :: "bool list \<Rightarrow> kv_cache_manager \<Rightarrow> unit result \<times> kv_cache_manager" where
  "step finished kv =
     (case step_loop finished (sequences kv) kv of
        (Inl e, kv1) \<Rightarrow> (Inl e, kv1)
      | (Inr _, kv1) \<Rightarrow>
          (case free_finished [0..<length finished] finished kv1 of
             (Inl e, kv2) \<Rightarrow> (Inl e, kv2)
           | (Inr _, kv2) \<Rightarrow>
               let kv3 = kv2\<lparr>lens := map fst (filter (Not \<circ> snd) (zip (lens kv2) finished))\<rparr>;
                   (ss, H) = remap (zip (sequences kv3) finished) 0 (seq_objs kv3) in
               (Inr (), kv3\<lparr>sequences := ss, seq_objs := H\<rparr>)))"

fun allocate_context :: "sref \<Rightarrow> bool \<Rightarrow> int \<Rightarrow> nat list \<Rightarrow> kv_cache_manager
    \<Rightarrow> unit result \<times> kv_cache_manager" where
  "allocate_context s always_share unshared [] kv = (Inr (), kv)"
| "allocate_context s always_share unshared (i # is) kv =
     (case on_blocks (allocate (seq_objs kv) s
             (if always_share then True else int i \<noteq> unshared)) kv of
        (Inl e, kv1) \<Rightarrow> (Inl e, kv1)
      | (Inr _, kv1) \<Rightarrow> allocate_context s always_share unshared is kv1)"

definition unshared_block_index :: "kv_cache_manager \<Rightarrow> int \<Rightarrow> int result" where
  \<comment> \<open>lines 346 to 359, for the length including the bubble\<close>
  "unshared_block_index kv seq_len =
     (let cyclic_on = (seq_len \<ge> max_token_num kv); tpb = tokens_per_block kv in
      res_bind (py_mod (seq_len - 1 - sink_block_token_num kv)
                  (max_token_num kv - sink_block_token_num kv)) (\<lambda>m.
      let final = sink_block_token_num kv + m in
      res_bind (if \<not> cyclic_on \<or> kv_beam_width kv > 1 then Inr True
                else res_bind (py_mod final tpb) (\<lambda>r. Inr (r > 0))) (\<lambda>unshared.
      if unshared then
        res_bind (py_mod (final + 1) tpb) (\<lambda>r.
        Inr (if r = 0 then final div tpb + 1 else final div tpb))
      else Inr (-1))))"

definition add_sequence :: "sref \<Rightarrow> int \<Rightarrow> bool \<Rightarrow> kv_cache_manager \<Rightarrow> unit result \<times> kv_cache_manager" where
  "add_sequence s context_len always_share kv =
     (let seq_len = context_len + bubble_len kv;
          kv1 = kv\<lparr>lens := lens kv @ [seq_len], sequences := sequences kv @ [s]\<rparr> in
      case unshared_block_index kv1 seq_len of
        Inl e \<Rightarrow> (Inl e, kv1)
      | Inr unshared \<Rightarrow>
          let n = min seq_len (max_token_num kv1) in
          (case res_bind (py_div n (tokens_per_block kv1)) (\<lambda>q.
                Inr (if n mod tokens_per_block kv1 > 0 then q + 1 else q)) of
             Inl e \<Rightarrow> (Inl e, kv1)
           | Inr context_blocks \<Rightarrow>
               allocate_context s always_share unshared [0..<nat context_blocks] kv1))"

definition get_block_offsets :: "nat \<Rightarrow> kv_cache_manager \<Rightarrow> offsets result" where
  "get_block_offsets beams kv = get_offset_array (seq_objs kv) beams (blocks_mgr kv)"

section \<open>The invariant\<close>

text \<open>
  The number of blocks that \<open>n\<close> tokens need, in a cache of at most \<open>max_token_num\<close> tokens.
\<close>

definition blocks_for :: "kv_cache_manager \<Rightarrow> int \<Rightarrow> int" where
  "blocks_for kv n = (min n (max_token_num kv) + tokens_per_block kv - 1) div tokens_per_block kv"

definition kv_config_ok :: "kv_cache_manager \<Rightarrow> bool" where
  "kv_config_ok kv \<longleftrightarrow> 0 < tokens_per_block kv \<and> 0 \<le> sink_block_token_num kv \<and>
     sink_block_token_num kv mod tokens_per_block kv = 0 \<and>
     sink_block_token_num kv < max_token_num kv \<and> kv_beam_width kv = bm_beam_width (blocks_mgr kv) \<and>
     0 < kv_beam_width kv"

definition covered :: "kv_cache_manager \<Rightarrow> nat \<Rightarrow> bool" where
  "covered kv i \<longleftrightarrow> sink_block_token_num kv \<le> lens kv ! i \<and>
     (\<forall>beam \<in> set (beams_of (seq_objs kv) (sequences kv ! i) (blocks_mgr kv)).
        int (length beam) = blocks_for kv (lens kv ! i))"

text \<open>The part of the invariant that holds at every point of \<open>step\<close>, too.\<close>

definition kv_frame :: "kv_cache_manager \<Rightarrow> bool" where
  "kv_frame kv \<longleftrightarrow> kv_config_ok kv \<and> bm_inv (blocks_mgr kv) \<and>
     keys_ok (seq_objs kv) (set (sequences kv)) (blocks_mgr kv) \<and>
     distinct (sequences kv) \<and> length (lens kv) = length (sequences kv) \<and>
     (\<forall>i < length (sequences kv). batch_idx (seq_objs kv (sequences kv ! i)) = int i)"

definition kv_inv :: "kv_cache_manager \<Rightarrow> bool" where
  "kv_inv kv \<longleftrightarrow> kv_frame kv \<and> (\<forall>i < length (sequences kv). covered kv i)"

lemma blocks_for_grow:
  assumes "kv_config_ok kv" "sink_block_token_num kv \<le> n"
  shows "blocks_for kv (n + 1) = blocks_for kv n + (if n < max_token_num kv \<and> n mod tokens_per_block kv = 0 then 1 else 0)"
proof (cases "n < max_token_num kv")
  case True
  let ?t = "tokens_per_block kv"
  have t: "0 < ?t" "0 \<le> n" using assms by (auto simp: kv_config_ok_def)
  have "n mod ?t > 0 \<or> n mod ?t = 0" using pos_mod_sign[OF t(1), of n] by linarith
  then have "(n + ?t) div ?t = (n + ?t - 1) div ?t + (if n mod ?t = 0 then 1 else 0)"
    using int_ceil_div[OF t(1), of n] t(1) div_add_self2[of ?t n] by auto
  then show ?thesis using True by (simp add: blocks_for_def algebra_simps)
next
  case False
  then show ?thesis by (simp add: blocks_for_def min_def)
qed

text \<open>The blocks of a covered sequence have room for all tokens that the cache keeps of it.\<close>

lemma blocks_for_capacity:
  assumes "0 < tokens_per_block kv"
  shows "min n (max_token_num kv) \<le> blocks_for kv n * tokens_per_block kv"
    and "blocks_for kv n * tokens_per_block kv < min n (max_token_num kv) + tokens_per_block kv"
  using assms int_div_eq_iff[OF assms, of "min n (max_token_num kv) + tokens_per_block kv - 1" "blocks_for kv n"]
  by (auto simp: blocks_for_def algebra_simps)

section \<open>Adding a sequence\<close>

lemma on_blocks_eq: "on_blocks f kv = (r, kv') \<longleftrightarrow> (\<exists>bm. f (blocks_mgr kv) = (r, bm) \<and> kv' = kv\<lparr>blocks_mgr := bm\<rparr>)"
  by (auto simp: on_blocks_def split: prod.splits)

text \<open>What any growth of one owner leaves as it is.\<close>

definition grows :: "seq_heap \<Rightarrow> sref set \<Rightarrow> sref \<Rightarrow> nat \<Rightarrow> blocks_manager \<Rightarrow> blocks_manager \<Rightarrow> bool" where
  "grows H A s n bm bm' \<longleftrightarrow> bm_inv bm' \<and> keys_ok H A bm' \<and> same_config bm bm' \<and>
     (\<forall>t. t \<noteq> s \<longrightarrow> map_of (allocated_blocks bm') t = map_of (allocated_blocks bm) t) \<and>
     map length (beams_of H s bm') = map (\<lambda>beam. length beam + n) (beams_of H s bm)"

lemma grows_refl: "bm_inv bm \<Longrightarrow> keys_ok H A bm \<Longrightarrow> grows H A s 0 bm bm"
  by (simp add: grows_def)

lemma map_length_add:
  "map length xs = map (\<lambda>beam. length beam + n) ys \<Longrightarrow>
     map (\<lambda>beam. length beam + m) xs = map (\<lambda>beam. length beam + (n + m)) ys"
  by (induction xs arbitrary: ys) (auto simp: Cons_eq_map_conv)

lemma grows_trans:
  assumes "grows H A s n bm bm'" "grows H A s m bm' bm''"
  shows "grows H A s (n + m) bm bm''"
  using assms same_config_trans[of bm bm' bm''] map_length_add[of "beams_of H s bm'" n "beams_of H s bm" m]
  by (simp add: grows_def)

lemma allocate_grows:
  assumes "bm_inv bm" "keys_ok H A bm" "s \<in> A" "allocate H s share bm = (Inr u, bm')"
  shows "grows H A s 1 bm bm'"
proof -
  note e = allocate_effect[OF assms] and i = allocate_inv[OF assms(1-3), of share]
  have ok: "bm_inv bm'" "keys_ok H A bm'" using i assms(4) by simp_all
  have "map length (beams_of H s bm') = map (\<lambda>beam. length beam + 1) (beams_of H s bm)"
    using e(1,5) length_beams[OF ok assms(3)] length_beams[OF assms(1-3)]
    by (intro nth_equalityI) (auto simp: same_config_def)
  then show ?thesis using ok e(1,3) by (simp add: grows_def)
qed

lemma allocate_context_grows:
  assumes "allocate_context s share k is kv = (Inr u, kv')" "bm_inv (blocks_mgr kv)"
    "keys_ok (seq_objs kv) A (blocks_mgr kv)" "s \<in> A"
  shows "\<exists>bm'. kv' = kv\<lparr>blocks_mgr := bm'\<rparr> \<and> grows (seq_objs kv) A s (length is) (blocks_mgr kv) bm'"
  using assms
proof (induction "is" arbitrary: kv)
  case Nil
  then show ?case by (auto intro!: exI[of _ "blocks_mgr kv"] grows_refl)
next
  case (Cons i "is")
  let ?sh = "if share then True else int i \<noteq> k"
  from Cons.prems(1) obtain u1 bm1 where a: "allocate (seq_objs kv) s ?sh (blocks_mgr kv) = (Inr u1, bm1)"
    and c: "allocate_context s share k is (kv\<lparr>blocks_mgr := bm1\<rparr>) = (Inr u, kv')"
    by (auto simp: on_blocks_def split: prod.splits sum.splits)
  note g = allocate_grows[OF Cons.prems(2-4) a]
  then have "bm_inv bm1" "keys_ok (seq_objs kv) A bm1" by (simp_all add: grows_def)
  with Cons.IH[OF c] Cons.prems(4) obtain bm2 where "kv' = kv\<lparr>blocks_mgr := bm2\<rparr>"
    "grows (seq_objs kv) A s (length is) bm1 bm2" by auto
  with grows_trans[OF g] show ?case by auto
qed

lemma allocate_context_errors:
  assumes "allocate_context s share k is kv = (Inl e, kv')" "bm_inv (blocks_mgr kv)"
    "keys_ok (seq_objs kv) A (blocks_mgr kv)" "s \<in> A"
  shows "e = RuntimeError"
  using assms
proof (induction "is" arbitrary: kv)
  case (Cons i "is")
  let ?sh = "if share then True else int i \<noteq> k"
  obtain r bm1 where a: "allocate (seq_objs kv) s ?sh (blocks_mgr kv) = (r, bm1)" by fastforce
  show ?case
  proof (cases r)
    case (Inl e1)
    with a Cons.prems allocate_effect(2)[OF Cons.prems(2-4) a] show ?thesis by (simp add: on_blocks_def)
  next
    case (Inr u1)
    note g = allocate_grows[OF Cons.prems(2-4) a[unfolded Inr]]
    from Cons.prems(1) a Inr have "allocate_context s share k is (kv\<lparr>blocks_mgr := bm1\<rparr>) = (Inl e, kv')"
      by (simp add: on_blocks_def)
    then show ?thesis using g Cons.prems(4) by (intro Cons.IH) (auto simp: grows_def)
  qed
qed simp

lemma unshared_block_index_total: "kv_config_ok kv \<Longrightarrow> \<exists>k. unshared_block_index kv n = Inr k"
  by (auto simp: unshared_block_index_def kv_config_ok_def Let_def)

lemma context_blocks:
  assumes "kv_config_ok kv" "0 \<le> n"
  shows "res_bind (py_div (min n (max_token_num kv)) (tokens_per_block kv)) (\<lambda>q.
     Inr (if min n (max_token_num kv) mod tokens_per_block kv > 0 then q + 1 else q)) = Inr (blocks_for kv n)"
proof -
  let ?t = "tokens_per_block kv" and ?m = "min n (max_token_num kv)"
  have t: "0 < ?t" using assms by (simp add: kv_config_ok_def)
  from int_ceil_div[OF t, of ?m]
  show ?thesis using t by (simp add: blocks_for_def)
qed

lemma add_sequence_eq:
  assumes "kv1 = kv\<lparr>lens := lens kv @ [context_len + bubble_len kv], sequences := sequences kv @ [s]\<rparr>"
    "kv_config_ok kv1" "0 \<le> context_len + bubble_len kv"
    "unshared_block_index kv1 (context_len + bubble_len kv) = Inr k"
  shows "add_sequence s context_len share kv =
    allocate_context s share k [0..<nat (blocks_for kv1 (context_len + bubble_len kv))] kv1"
  using assms(4) context_blocks[OF assms(2,3)]
  unfolding add_sequence_def Let_def assms(1)[symmetric] by (simp only: sum.case)

text \<open>
  The caller creates the sequence object with a new sequence number and the next batch index, as
  \<open>GenerationSession.decode\<close> does, and then adds it.
\<close>

definition new_sequence :: "sref \<Rightarrow> int \<Rightarrow> kv_cache_manager \<Rightarrow> kv_cache_manager" where
  "new_sequence s n kv = kv\<lparr>seq_objs := (seq_objs kv)
     (s := \<lparr>seq_idx = n, batch_idx = int (length (sequences kv))\<rparr>)\<rparr>"

definition fresh_sequence :: "kv_cache_manager \<Rightarrow> sref \<Rightarrow> int \<Rightarrow> bool" where
  "fresh_sequence kv s n \<longleftrightarrow> s \<notin> set (sequences kv) \<and> n \<notin> (\<lambda>t. seq_idx (seq_objs kv t)) ` set (sequences kv)"

lemma new_sequence_keys:
  assumes "keys_ok (seq_objs kv) (set (sequences kv)) bm" "fresh_sequence kv s n"
  shows "keys_ok (seq_objs (new_sequence s n kv)) (insert s (set (sequences kv))) bm"
  using assms
  by (auto simp: keys_ok_def owner_ok_def new_sequence_def fresh_sequence_def inj_on_def)

lemma covered_cong:
  assumes "sink_block_token_num kv' = sink_block_token_num kv" "max_token_num kv' = max_token_num kv"
    "tokens_per_block kv' = tokens_per_block kv" "lens kv' ! i = lens kv ! j"
    "beams_of (seq_objs kv') (sequences kv' ! i) (blocks_mgr kv') =
     beams_of (seq_objs kv) (sequences kv ! j) (blocks_mgr kv)"
  shows "covered kv' i = covered kv j"
  using assms by (simp add: covered_def blocks_for_def)

lemma add_sequence_inv:
  assumes inv: "kv_inv kv" and fresh: "fresh_sequence kv s n" and len: "sink_token_len kv \<le> context_len"
    and sink: "sink_block_token_num kv = sink_token_len kv + bubble_len kv"
    and add: "add_sequence s context_len share (new_sequence s n kv) = (Inr u, kv')"
  shows "kv_inv kv'"
proof -
  let ?L = "context_len + bubble_len kv" and ?A = "insert s (set (sequences kv))"
  let ?kv = "(new_sequence s n kv)\<lparr>lens := lens kv @ [?L], sequences := sequences kv @ [s]\<rparr>"
  let ?H = "seq_objs ?kv" and ?bm = "blocks_mgr kv"
  have fr: "kv_config_ok kv" "bm_inv ?bm" "keys_ok (seq_objs kv) (set (sequences kv)) ?bm"
    "distinct (sequences kv)" "length (lens kv) = length (sequences kv)"
    "\<And>i. i < length (sequences kv) \<Longrightarrow> batch_idx (seq_objs kv (sequences kv ! i)) = int i"
    "\<And>i. i < length (sequences kv) \<Longrightarrow> covered kv i"
    using inv by (auto simp: kv_inv_def kv_frame_def)
  have cfg: "kv_config_ok ?kv" using fr(1) by (simp add: kv_config_ok_def new_sequence_def)
  have L: "0 \<le> ?L" "sink_block_token_num kv \<le> ?L" using sink len fr(1) by (auto simp: kv_config_ok_def)
  obtain k where k: "unshared_block_index ?kv ?L = Inr k" using unshared_block_index_total[OF cfg] by blast
  have ac: "allocate_context s share k [0..<nat (blocks_for ?kv ?L)] ?kv = (Inr u, kv')"
    using add add_sequence_eq[where ?kv1.0 = ?kv and kv = "new_sequence s n kv" and context_len = context_len and s = s and k = k and share = share] k cfg L(1)
    by (simp add: new_sequence_def)
  have ok: "keys_ok ?H ?A ?bm" using new_sequence_keys[OF fr(3) fresh] by simp
  have bm: "blocks_mgr ?kv = ?bm" by (simp add: new_sequence_def)
  obtain bm where kv': "kv' = ?kv\<lparr>blocks_mgr := bm\<rparr>"
    and g: "grows ?H ?A s (nat (blocks_for ?kv ?L)) ?bm bm"
    using allocate_context_grows[OF ac, of ?A] fr(2) ok unfolding bm by auto
  have s: "s \<notin> set (sequences kv)" using fresh by (simp add: fresh_sequence_def)
  have old: "beams_of ?H t bm = beams_of (seq_objs kv) t ?bm" if "t \<in> set (sequences kv)" for t
  proof -
    have "t \<noteq> s" using that s by auto
    then have "beams_of ?H t bm = beams_of ?H t ?bm"
      using g ok that by (intro beams_of_cong[of _ ?A]) (auto simp: grows_def)
    also have "\<dots> = beams_of (seq_objs kv) t ?bm"
      using that ok fr(3) by (simp add: beams_of_map_of[of _ ?A] beams_of_map_of[of _ "set (sequences kv)"])
    finally show ?thesis .
  qed
  have "map_of (allocated_blocks ?bm) s = None"
    using s fr(3) by (auto simp: keys_ok_def map_of_eq_None_iff)
  then have new: "beams_of ?H s ?bm = replicate (bm_beam_width ?bm) []"
    using beams_of_map_of[OF ok] by simp
  have "0 \<le> blocks_for ?kv ?L" using L(1) cfg by (auto simp: blocks_for_def kv_config_ok_def intro!: pos_imp_zdiv_nonneg_iff[THEN iffD2])
  moreover have "map length (beams_of ?H s bm) = replicate (bm_beam_width ?bm) (nat (blocks_for ?kv ?L))"
    using g unfolding grows_def new by simp
  then have "set (map length (beams_of ?H s bm)) \<subseteq> {nat (blocks_for ?kv ?L)}" by (simp only: set_replicate_conv_if) auto
  ultimately have lens_new: "int (length beam) = blocks_for ?kv ?L" if "beam \<in> set (beams_of ?H s bm)" for beam
    using that by auto
  have "covered kv' i" if "i < length (sequences kv')" for i
  proof (cases "i < length (sequences kv)")
    case True
    then have "covered kv' i = covered kv i"
      using old[of "sequences kv ! i"] fr(5) by (intro covered_cong) (auto simp: kv' new_sequence_def nth_append)
    then show ?thesis using fr(7)[OF True] by simp
  next
    case False
    then have "i = length (sequences kv)" using that by (simp add: kv')
    then show ?thesis using lens_new fr(5) L(2) by (simp add: kv' covered_def new_sequence_def blocks_for_def nth_append)
  qed
  moreover have "kv_frame kv'"
    using g cfg fr s by (auto simp: kv' kv_frame_def kv_config_ok_def new_sequence_def grows_def same_config_def
        nth_append less_Suc_eq)
  ultimately show ?thesis by (simp add: kv_inv_def)
qed

section \<open>A generation step\<close>

lemma kv_frame_facts:
  assumes "kv_frame kv"
  shows "kv_config_ok kv" "bm_inv (blocks_mgr kv)" "keys_ok (seq_objs kv) (set (sequences kv)) (blocks_mgr kv)"
    "distinct (sequences kv)" "length (lens kv) = length (sequences kv)"
    "i < length (sequences kv) \<Longrightarrow> batch_idx (seq_objs kv (sequences kv ! i)) = int i"
  using assms by (auto simp: kv_frame_def)

text \<open>The index in the cache of the next token of a sequence of length \<open>n\<close>.\<close>

definition next_token_idx :: "kv_cache_manager \<Rightarrow> int \<Rightarrow> int" where
  "next_token_idx kv n = sink_block_token_num kv +
     (n - sink_block_token_num kv) mod (max_token_num kv - sink_block_token_num kv)"

lemma next_token_idx_linear:
  "sink_block_token_num kv \<le> n \<Longrightarrow> n < max_token_num kv \<Longrightarrow> next_token_idx kv n = n"
  by (simp add: next_token_idx_def mod_pos_pos_trivial)

lemma next_token_idx_bounds:
  "kv_config_ok kv \<Longrightarrow> sink_block_token_num kv \<le> next_token_idx kv n \<and> next_token_idx kv n < max_token_num kv"
proof -
  assume "kv_config_ok kv"
  then have c: "0 < max_token_num kv - sink_block_token_num kv" by (simp add: kv_config_ok_def)
  show ?thesis unfolding next_token_idx_def
    using pos_mod_sign[OF c, of "n - sink_block_token_num kv"] pos_mod_bound[OF c, of "n - sink_block_token_num kv"]
    by linarith
qed

lemma step_grow_eq:
  assumes fr: "kv_frame kv" and k: "k < length (sequences kv)" and fin: "length finished = length (sequences kv)"
    and n: "n = lens kv ! k" "sink_block_token_num kv \<le> n" and s: "s = sequences kv ! k"
  shows "step_grow finished s kv =
    (if finished ! k then (Inr (), kv)
     else if n < max_token_num kv then
       (if n mod tokens_per_block kv = 0 then on_blocks (allocate (seq_objs kv) s False) kv else (Inr (), kv))
     else if (next_token_idx kv n mod tokens_per_block kv = 0 \<or>
         (next_token_idx kv n - sink_block_token_num kv) mod
           (max_token_num kv - sink_block_token_num kv) = 0) \<and> kv_beam_width kv > 1
       then on_blocks (replace_shared_block (seq_objs kv) s (next_token_idx kv n div tokens_per_block kv)) kv
     else (Inr (), kv))"
proof -
  note f = kv_frame_facts[OF fr]
  have b: "batch_idx (seq_objs kv s) = int k" using f(6) k s by simp
  have i: "py_index (lens kv) (int k) = Inr n" "py_index finished (int k) = Inr (finished ! k)"
    using k fin f(5) n by simp_all
  have t: "tokens_per_block kv \<noteq> 0" "max_token_num kv - sink_block_token_num kv \<noteq> 0"
    using f(1) by (auto simp: kv_config_ok_def)
  have lin: "next_token_idx kv n = n" if "n < max_token_num kv" using next_token_idx_linear n(2) that by simp
  have start: "n mod tokens_per_block kv = 0"
    if "n < max_token_num kv" "(n - sink_block_token_num kv) mod (max_token_num kv - sink_block_token_num kv) = 0"
  proof -
    have "n = sink_block_token_num kv" using that n(2) by (simp add: mod_pos_pos_trivial)
    then show ?thesis using f(1) by (simp add: kv_config_ok_def)
  qed
  show ?thesis
    unfolding step_grow_def Let_def b i res_bind_simps py_mod_nonzero[OF t(1)] py_mod_nonzero[OF t(2)]
      next_token_idx_def[symmetric]
    using lin start by (cases "finished ! k"; cases "n < max_token_num kv") auto
qed

lemma step_grow_grows:
  assumes fr: "kv_frame kv" and k: "k < length (sequences kv)" and fin: "length finished = length (sequences kv)"
    and n: "n = lens kv ! k" "sink_block_token_num kv \<le> n" and s: "s = sequences kv ! k"
    and ok: "step_grow finished s kv = (Inr u, kv')"
  shows "\<exists>bm' m. kv' = kv\<lparr>blocks_mgr := bm'\<rparr> \<and>
    grows (seq_objs kv) (set (sequences kv)) s m (blocks_mgr kv) bm' \<and>
    (\<not> finished ! k \<longrightarrow> blocks_for kv (n + 1) = blocks_for kv n + int m)"
proof -
  note f = kv_frame_facts[OF fr] and e = step_grow_eq[OF fr k fin n s]
  have A: "s \<in> set (sequences kv)" using k s by simp
  note g = blocks_for_grow[OF f(1) n(2)]
  consider (idle) "finished ! k \<or> \<not> (n < max_token_num kv \<and> n mod tokens_per_block kv = 0)" "kv' = kv"
    | (alloc) "\<not> finished ! k" "n < max_token_num kv" "n mod tokens_per_block kv = 0"
      "on_blocks (allocate (seq_objs kv) s False) kv = (Inr u, kv')"
    | (replace) i where "\<not> finished ! k" "\<not> n < max_token_num kv"
      "on_blocks (replace_shared_block (seq_objs kv) s i) kv = (Inr u, kv')"
  proof (cases "n < max_token_num kv")
    case True
    show ?thesis
    proof (cases "finished ! k \<or> n mod tokens_per_block kv \<noteq> 0")
      case idle': True
      then have "kv' = kv" using ok True unfolding e by (auto split: if_splits)
      then show ?thesis using idle' True by (intro idle) auto
    next
      case False
      then have "on_blocks (allocate (seq_objs kv) s False) kv = (Inr u, kv')"
        using ok True unfolding e by simp
      then show ?thesis using False True by (intro alloc) auto
    qed
  next
    case False
    show ?thesis
    proof (cases "kv' = kv")
      case True
      then show ?thesis using False by (intro idle) simp_all
    next
      case ne: False
      then show ?thesis using ok False unfolding e by (intro replace) (simp_all split: if_splits)
    qed
  qed
  then show ?thesis
  proof cases
    case alloc
    then obtain bm where bm: "allocate (seq_objs kv) s False (blocks_mgr kv) = (Inr u, bm)"
      "kv' = kv\<lparr>blocks_mgr := bm\<rparr>" by (auto simp: on_blocks_eq)
    then show ?thesis using allocate_grows[OF f(2,3) A bm(1)] g alloc by (intro exI[of _ bm] exI[of _ 1]) simp
  next
    case replace
    then obtain bm where bm: "replace_shared_block (seq_objs kv) s i (blocks_mgr kv) = (Inr u, bm)"
      "kv' = kv\<lparr>blocks_mgr := bm\<rparr>" by (auto simp: on_blocks_eq)
    then have "grows (seq_objs kv) (set (sequences kv)) s 0 (blocks_mgr kv) bm"
      using replace_shared_block_effect[OF f(2,3) A bm(1)] by (simp add: grows_def)
    then show ?thesis using bm replace g by (intro exI[of _ bm] exI[of _ 0]) auto
  next
    case idle
    then show ?thesis using grows_refl[OF f(2,3)] g by (intro exI[of _ "blocks_mgr kv"] exI[of _ 0]) auto
  qed
qed

text \<open>
  In the loop of \<open>step\<close>, before iteration \<open>k\<close>: the sequences are covered, except for the finished ones
  among the first \<open>k\<close>, whose length was counted up without a new block.
\<close>

definition loop_inv :: "bool list \<Rightarrow> nat \<Rightarrow> kv_cache_manager \<Rightarrow> bool" where
  "loop_inv finished k kv \<longleftrightarrow> kv_frame kv \<and> length finished = length (sequences kv) \<and>
     (\<forall>i < length (sequences kv). i < k \<and> finished ! i \<or> covered kv i)"

definition count_token :: "nat \<Rightarrow> kv_cache_manager \<Rightarrow> kv_cache_manager" where
  "count_token k kv = kv\<lparr>lens := (lens kv)[k := lens kv ! k + 1]\<rparr>"

lemma loop_inv_step:
  assumes inv: "loop_inv finished k kv" and k: "k < length (sequences kv)"
    and ok: "step_grow finished (sequences kv ! k) kv = (Inr u, kv1)"
  shows "loop_inv finished (Suc k) (count_token k kv1)"
    and "\<exists>bm. kv1 = kv\<lparr>blocks_mgr := bm\<rparr>"
proof -
  let ?s = "sequences kv ! k" and ?n = "lens kv ! k" and ?A = "set (sequences kv)"
  have fr: "kv_frame kv" and fin: "length finished = length (sequences kv)"
    and cov: "\<And>i. i < length (sequences kv) \<Longrightarrow> i < k \<and> finished ! i \<or> covered kv i"
    using inv by (auto simp: loop_inv_def)
  note f = kv_frame_facts[OF fr]
  have ck: "sink_block_token_num kv \<le> ?n"
    "\<And>beam. beam \<in> set (beams_of (seq_objs kv) ?s (blocks_mgr kv)) \<Longrightarrow> int (length beam) = blocks_for kv ?n"
    using cov[OF k] by (auto simp: covered_def)
  obtain bm m where kv1: "kv1 = kv\<lparr>blocks_mgr := bm\<rparr>"
    and g: "grows (seq_objs kv) ?A ?s m (blocks_mgr kv) bm"
    and m: "\<not> finished ! k \<Longrightarrow> blocks_for kv (?n + 1) = blocks_for kv ?n + int m"
    using step_grow_grows[OF fr k fin refl ck(1) refl ok] by blast
  then show "\<exists>bm. kv1 = kv\<lparr>blocks_mgr := bm\<rparr>" by blast
  let ?kv = "count_token k kv1"
  have g': "bm_inv bm" "keys_ok (seq_objs kv) ?A bm" "same_config (blocks_mgr kv) bm"
    "\<And>t. t \<noteq> ?s \<Longrightarrow> map_of (allocated_blocks bm) t = map_of (allocated_blocks (blocks_mgr kv)) t"
    "map length (beams_of (seq_objs kv) ?s bm) = map (\<lambda>beam. length beam + m) (beams_of (seq_objs kv) ?s (blocks_mgr kv))"
    using g by (auto simp: grows_def)
  have "kv_frame ?kv"
    using fr g'(1-3) by (auto simp: kv_frame_def kv_config_ok_def kv1 count_token_def same_config_def)
  moreover have "i < Suc k \<and> finished ! i \<or> covered ?kv i" if i: "i < length (sequences kv)" for i
  proof (cases "i = k")
    case False
    then have "sequences kv ! i \<noteq> ?s" using f(4) i k by (simp add: nth_eq_iff_index_eq)
    then have "beams_of (seq_objs kv) (sequences kv ! i) bm = beams_of (seq_objs kv) (sequences kv ! i) (blocks_mgr kv)"
      using g' f(3) i by (intro beams_of_cong[of _ ?A]) auto
    then have "covered ?kv i = covered kv i"
      using False by (intro covered_cong) (simp_all add: kv1 count_token_def)
    then show ?thesis using cov[OF i] by auto
  next
    case True
    show ?thesis
    proof (cases "finished ! k")
      case False
      have "int (length beam) = blocks_for kv (?n + 1)" if "beam \<in> set (beams_of (seq_objs kv) ?s bm)" for beam
      proof -
        have "length beam \<in> set (map length (beams_of (seq_objs kv) ?s bm))" using that by simp
        then obtain old where "old \<in> set (beams_of (seq_objs kv) ?s (blocks_mgr kv))" "length beam = length old + m"
          unfolding g'(5) by auto
        then show ?thesis using ck(2) m[OF False] by simp
      qed
      then show ?thesis using ck(1) k f(5) True by (simp add: covered_def kv1 count_token_def blocks_for_def)
    qed (use True in simp)
  qed
  ultimately show "loop_inv finished (Suc k) ?kv" using fin by (simp add: loop_inv_def kv1 count_token_def)
qed

lemma step_loop_inv:
  assumes "loop_inv finished k kv" "step_loop finished (drop k (sequences kv)) kv = (Inr u, kv')" "k \<le> length (sequences kv)"
  shows "loop_inv finished (length (sequences kv)) kv' \<and>
    (\<exists>bm. kv' = kv\<lparr>blocks_mgr := bm, lens := take k (lens kv) @ map (\<lambda>n. n + 1) (drop k (lens kv))\<rparr>)"
  using assms
proof (induction "length (sequences kv) - k" arbitrary: k kv)
  case 0
  moreover have "length (lens kv) = length (sequences kv)" using 0 by (simp add: loop_inv_def kv_frame_def)
  ultimately show ?case by (auto intro!: exI[of _ "blocks_mgr kv"])
next
  case (Suc j)
  have k: "k < length (sequences kv)" using Suc.hyps(2) by simp
  then have d: "drop k (sequences kv) = sequences kv ! k # drop (Suc k) (sequences kv)"
    by (simp add: Cons_nth_drop_Suc)
  have fr: "kv_frame kv" using Suc.prems(1) by (simp add: loop_inv_def)
  note f = kv_frame_facts[OF fr]
  from Suc.prems(2) obtain u1 kv1 where g: "step_grow finished (sequences kv ! k) kv = (Inr u1, kv1)"
    unfolding d by (auto split: prod.splits sum.splits)
  from loop_inv_step[OF Suc.prems(1) k g] obtain bm1 where kv1: "kv1 = kv\<lparr>blocks_mgr := bm1\<rparr>"
    and inv: "loop_inv finished (Suc k) (count_token k kv1)" by blast
  have "step_loop finished (drop (Suc k) (sequences (count_token k kv1))) (count_token k kv1) = (Inr u, kv')"
    using Suc.prems(2) f(6)[OF k] unfolding d by (simp add: g kv1 Let_def py_pos_def count_token_def)
  moreover have "j = length (sequences (count_token k kv1)) - Suc k" "Suc k \<le> length (sequences (count_token k kv1))"
    using Suc.hyps(2) k by (simp_all add: kv1 count_token_def)
  ultimately obtain bm where "loop_inv finished (length (sequences kv)) kv'"
    "kv' = (count_token k kv1)\<lparr>blocks_mgr := bm, lens := take (Suc k) (lens (count_token k kv1)) @
       map (\<lambda>n. n + 1) (drop (Suc k) (lens (count_token k kv1)))\<rparr>"
    using Suc.hyps(1)[OF _ inv] by (auto simp: kv1 count_token_def)
  moreover have "take (Suc k) ((lens kv)[k := lens kv ! k + 1]) = take k (lens kv) @ [lens kv ! k + 1]"
    using k f(5) by (simp add: take_Suc_conv_app_nth)
  moreover have "drop k (lens kv) = lens kv ! k # drop (Suc k) (lens kv)"
    using k f(5) by (simp add: Cons_nth_drop_Suc)
  ultimately show ?case by (auto simp: kv1 count_token_def intro!: exI[of _ bm])
qed

text \<open>Freeing the finished sequences.\<close>

lemma free_finished_eq:
  assumes "length finished = length (sequences kv)" "set fis \<subseteq> {..<length finished}"
  shows "free_finished fis finished kv = (Inr (), kv\<lparr>blocks_mgr :=
     fold (free_owner (seq_objs kv)) (map ((!) (sequences kv)) (filter ((!) finished) fis)) (blocks_mgr kv)\<rparr>)"
  using assms by (induction fis arbitrary: kv) auto

lemma fold_free_effect:
  assumes "bm_inv bm" "keys_ok H A bm" "set ss \<subseteq> A"
  shows "bm_inv (fold (free_owner H) ss bm) \<and> keys_ok H A (fold (free_owner H) ss bm) \<and>
    same_config bm (fold (free_owner H) ss bm) \<and>
    map_of (allocated_blocks (fold (free_owner H) ss bm)) = (map_of (allocated_blocks bm)) |` (- set ss)"
  using assms
proof (induction ss arbitrary: bm)
  case (Cons s ss)
  note f = free_owner_inv[OF Cons.prems(1,2), of s]
  have "map_of (allocated_blocks (fold (free_owner H) ss (free_owner H s bm))) = (map_of (allocated_blocks bm)) |` (- set (s # ss))"
    using Cons.IH[of "free_owner H s bm"] f Cons.prems(3) by (auto simp: restrict_map_def fun_eq_iff)
  then show ?case using Cons.IH[of "free_owner H s bm"] f Cons.prems(3) same_config_trans[OF f(3)] by simp
qed (simp add: restrict_map_def)

text \<open>Renumbering the sequences that go on.\<close>

lemma remap_eq:
  assumes "distinct (map fst xs)"
  shows "fst (remap xs i H) = map fst (filter (Not \<circ> snd) xs)"
    and "j < length (fst (remap xs i H)) \<Longrightarrow> snd (remap xs i H) (fst (remap xs i H) ! j) = (H (fst (remap xs i H) ! j))\<lparr>batch_idx := i + int j\<rparr>"
    and "seq_idx (snd (remap xs i H) t) = seq_idx (H t)"
    and "t \<notin> fst ` set xs \<Longrightarrow> snd (remap xs i H) t = H t"
proof -
  have "fst (remap xs i H) = map fst (filter (Not \<circ> snd) xs) \<and>
    (\<forall>j < length (fst (remap xs i H)). snd (remap xs i H) (fst (remap xs i H) ! j) = (H (fst (remap xs i H) ! j))\<lparr>batch_idx := i + int j\<rparr>) \<and>
    (\<forall>t. seq_idx (snd (remap xs i H) t) = seq_idx (H t)) \<and>
    (\<forall>t. t \<notin> fst ` set xs \<longrightarrow> snd (remap xs i H) t = H t)"
    using assms
  proof (induction xs arbitrary: i H)
    case (Cons x xs)
    obtain s fin where x: "x = (s, fin)" by fastforce
    show ?case
    proof (cases fin)
      case True
      then have e: "remap (x # xs) i H = remap xs i H" "filter (Not \<circ> snd) (x # xs) = filter (Not \<circ> snd) xs"
        using x by simp_all
      have "distinct (map fst xs)" using Cons.prems by simp
      moreover have "t \<notin> fst ` set (x # xs) \<Longrightarrow> t \<notin> fst ` set xs" for t by simp
      ultimately show ?thesis unfolding e using Cons.IH[of i H] by blast
    next
      case False
      let ?H = "H(s := (H s)\<lparr>batch_idx := i\<rparr>)"
      obtain ss H' where r: "remap xs (i + 1) ?H = (ss, H')" by fastforce
      have d: "distinct (map fst xs)" using Cons.prems by simp
      have ih: "ss = map fst (filter (Not \<circ> snd) xs)" "\<And>t. seq_idx (H' t) = seq_idx (?H t)"
        "\<And>t. t \<notin> fst ` set xs \<Longrightarrow> H' t = ?H t"
        "\<And>j. j < length ss \<Longrightarrow> H' (ss ! j) = (?H (ss ! j))\<lparr>batch_idx := i + 1 + int j\<rparr>"
        using Cons.IH[OF d, of "i + 1" ?H, unfolded r fst_conv snd_conv] by blast+
      have s: "s \<notin> fst ` set xs" "s \<notin> set ss" using Cons.prems x ih(1) by auto
      have "H' ((s # ss) ! j) = (H ((s # ss) ! j))\<lparr>batch_idx := i + int j\<rparr>" if "j < length (s # ss)" for j
        using that ih(3)[OF s(1)] ih(4) s(2) by (cases j) (auto simp: algebra_simps)
      then show ?thesis using r x False ih s by (auto simp: image_iff o_def)
    qed
  qed simp
  then show "fst (remap xs i H) = map fst (filter (Not \<circ> snd) xs)"
    "j < length (fst (remap xs i H)) \<Longrightarrow> snd (remap xs i H) (fst (remap xs i H) ! j) = (H (fst (remap xs i H) ! j))\<lparr>batch_idx := i + int j\<rparr>"
    "seq_idx (snd (remap xs i H) t) = seq_idx (H t)"
    "t \<notin> fst ` set xs \<Longrightarrow> snd (remap xs i H) t = H t" by blast+
qed

definition live :: "bool list \<Rightarrow> nat list" where
  "live finished = filter (\<lambda>i. \<not> finished ! i) [0..<length finished]"

lemma filter_zip_live:
  assumes "length xs = length finished"
  shows "map fst (filter (Not \<circ> snd) (zip xs finished)) = map ((!) xs) (live finished)"
proof -
  have "zip xs finished = map (\<lambda>i. (xs ! i, finished ! i)) [0..<length finished]"
    using assms by (intro nth_equalityI) auto
  then show ?thesis by (simp add: live_def filter_map o_def)
qed

lemma live_props: "i < length (live finished) \<Longrightarrow> live finished ! i < length finished \<and> \<not> finished ! (live finished ! i)"
  using nth_mem[of i "live finished"] by (auto simp: live_def)

lemma distinct_live [simp]: "distinct (live finished)"
  by (simp add: live_def)

text \<open>The second half of \<open>step\<close>: finished sequences are freed, the others move up.\<close>

definition retire :: "bool list \<Rightarrow> kv_cache_manager \<Rightarrow> kv_cache_manager" where
  "retire finished kv =
     (let xs = zip (sequences kv) finished in
      kv\<lparr>blocks_mgr := fold (free_owner (seq_objs kv)) (map ((!) (sequences kv)) (filter ((!) finished) [0..<length finished])) (blocks_mgr kv),
         lens := map fst (filter (Not \<circ> snd) (zip (lens kv) finished)),
         sequences := fst (remap xs 0 (seq_objs kv)), seq_objs := snd (remap xs 0 (seq_objs kv))\<rparr>)"

lemma step_eq:
  assumes "step_loop finished (sequences kv) kv = (Inr u, kv1)" "length finished = length (sequences kv1)"
  shows "step finished kv = (Inr (), retire finished kv1)"
proof -
  have "free_finished [0..<length finished] finished kv1 = (Inr (), kv1\<lparr>blocks_mgr :=
     fold (free_owner (seq_objs kv1)) (map ((!) (sequences kv1)) (filter ((!) finished) [0..<length finished])) (blocks_mgr kv1)\<rparr>)"
    using assms(2) by (intro free_finished_eq) auto
  with assms(1) show ?thesis
    by (simp add: step_def retire_def Let_def split: prod.split)
qed

lemma live_set:
  assumes "distinct xs" "length finished = length xs"
  shows "set (map ((!) xs) (live finished)) = set xs - set (map ((!) xs) (filter ((!) finished) [0..<length finished]))"
proof -
  let ?n = "length finished"
  have "set (map ((!) xs) (live finished)) = (!) xs ` ({..<?n} - {i. i < ?n \<and> finished ! i})" by (auto simp: live_def)
  also have "\<dots> = (!) xs ` {..<?n} - (!) xs ` {i. i < ?n \<and> finished ! i}"
    using inj_on_nth[OF assms(1), of "{..<?n}"] assms(2) by (intro inj_on_image_set_diff) auto
  also have "\<dots> = set xs - set (map ((!) xs) (filter ((!) finished) [0..<length finished]))"
    using nth_image[of ?n xs] assms(2) by (simp add: lessThan_atLeast0)
  finally show ?thesis .
qed

lemma keys_ok_restrict:
  assumes ok: "owner_ok H A" and keys: "keys_ok H0 A bm" and m: "map_of (allocated_blocks bm) = m0 |` (- G)"
  shows "keys_ok H (A - G) bm"
proof -
  have "t \<in> A - G" if "t \<in> set (keys_of (allocated_blocks bm))" for t
  proof -
    have "map_of (allocated_blocks bm) t \<noteq> None" using that by (simp add: map_of_eq_None_iff)
    then show ?thesis using that keys m by (auto simp: keys_ok_def restrict_map_def split: if_splits)
  qed
  then show ?thesis unfolding keys_ok_def using ok by (auto simp: owner_ok_def intro: inj_on_subset)
qed

lemma retire_inv:
  assumes "loop_inv finished (length (sequences kv)) kv"
  shows "kv_inv (retire finished kv)"
    and "sequences (retire finished kv) = map ((!) (sequences kv)) (live finished)"
    and "lens (retire finished kv) = map ((!) (lens kv)) (live finished)"
proof -
  let ?A = "set (sequences kv)" and ?xs = "zip (sequences kv) finished" and ?kv = "retire finished kv"
  let ?gone = "map ((!) (sequences kv)) (filter ((!) finished) [0..<length finished])"
  let ?H = "snd (remap ?xs 0 (seq_objs kv))"
  have fr: "kv_frame kv" and fin: "length finished = length (sequences kv)"
    and cov: "\<And>i. i < length (sequences kv) \<Longrightarrow> finished ! i \<or> covered kv i"
    using assms by (auto simp: loop_inv_def)
  note f = kv_frame_facts[OF fr]
  have dx: "distinct (map fst ?xs)" using f(4) fin by simp
  note r = remap_eq[OF dx]
  show sq: "sequences ?kv = map ((!) (sequences kv)) (live finished)"
    using r(1) filter_zip_live[of "sequences kv" finished] fin by (simp add: retire_def Let_def)
  show ls: "lens ?kv = map ((!) (lens kv)) (live finished)"
    using filter_zip_live[of "lens kv" finished] fin f(5) by (simp add: retire_def Let_def)
  have fold: "bm_inv (blocks_mgr ?kv)" "keys_ok (seq_objs kv) ?A (blocks_mgr ?kv)"
    "same_config (blocks_mgr kv) (blocks_mgr ?kv)"
    "map_of (allocated_blocks (blocks_mgr ?kv)) = map_of (allocated_blocks (blocks_mgr kv)) |` (- set ?gone)"
  proof -
    have "blocks_mgr ?kv = fold (free_owner (seq_objs kv)) ?gone (blocks_mgr kv)" by (simp add: retire_def Let_def)
    moreover have "set ?gone \<subseteq> ?A" using fin by auto
    ultimately show "bm_inv (blocks_mgr ?kv)" "keys_ok (seq_objs kv) ?A (blocks_mgr ?kv)"
      "same_config (blocks_mgr kv) (blocks_mgr ?kv)"
      "map_of (allocated_blocks (blocks_mgr ?kv)) = map_of (allocated_blocks (blocks_mgr kv)) |` (- set ?gone)"
      using fold_free_effect[OF f(2,3), of ?gone] by metis+
  qed
  have stay: "sequences kv ! i \<notin> set ?gone" if "i < length finished" "\<not> finished ! i" for i
    using that f(4) fin by (auto simp: nth_eq_iff_index_eq)
  have ok: "owner_ok ?H ?A" using f(3) r(3) by (simp add: keys_ok_def owner_ok_def)
  have seqs: "set (sequences ?kv) = ?A - set ?gone" unfolding sq using live_set[OF f(4)] fin by simp
  have keys: "keys_ok ?H (set (sequences ?kv)) (blocks_mgr ?kv)"
    unfolding seqs using keys_ok_restrict[OF ok fold(2,4)] by simp
  have "covered ?kv i" if i: "i < length (sequences ?kv)" for i
  proof -
    let ?j = "live finished ! i"
    have j: "?j < length (sequences kv)" "\<not> finished ! ?j" using live_props[of i finished] i fin sq by simp_all
    have "sequences kv ! ?j \<in> set (sequences ?kv)" using i sq nth_mem[OF i] by simp
    moreover have "map_of (allocated_blocks (blocks_mgr ?kv)) (sequences kv ! ?j) = map_of (allocated_blocks (blocks_mgr kv)) (sequences kv ! ?j)"
      using fold(4) stay j fin by simp
    ultimately have "beams_of ?H (sequences kv ! ?j) (blocks_mgr ?kv) = beams_of (seq_objs kv) (sequences kv ! ?j) (blocks_mgr kv)"
      using keys f(3) fold(3) j(1)
      by (simp add: beams_of_map_of[of ?H "set (sequences ?kv)"] beams_of_map_of[of _ ?A] same_config_def split: option.split)
    then have "covered ?kv i = covered kv ?j"
      using sq ls i by (intro covered_cong) (simp_all add: retire_def Let_def)
    then show ?thesis using cov j by auto
  qed
  moreover have "kv_frame ?kv"
    using f(1) fold(1,3) keys r(2)[of _ 0 "seq_objs kv"] sq ls f(4)
    by (auto simp: kv_frame_def kv_config_ok_def same_config_def retire_def Let_def distinct_map inj_on_def
        live_def nth_eq_iff_index_eq fin)
  ultimately show "kv_inv ?kv" by (simp add: kv_inv_def)
qed

section \<open>When a step goes through\<close>

lemma blocks_for_max: "\<not> n < max_token_num kv \<Longrightarrow> blocks_for kv n = blocks_for kv (max_token_num kv)"
  by (simp add: blocks_for_def min_def)

lemma next_block_in_range:
  assumes "kv_config_ok kv" "\<not> n < max_token_num kv"
  shows "0 \<le> next_token_idx kv n div tokens_per_block kv"
    and "next_token_idx kv n div tokens_per_block kv < blocks_for kv n"
proof -
  let ?t = "tokens_per_block kv" and ?i = "next_token_idx kv n"
  have t: "0 < ?t" "0 \<le> sink_block_token_num kv" using assms(1) by (auto simp: kv_config_ok_def)
  note b = next_token_idx_bounds[OF assms(1), of n]
  show "0 \<le> ?i div ?t" using b t by (simp add: pos_imp_zdiv_nonneg_iff)
  have "?i < blocks_for kv n * ?t"
    using blocks_for_capacity(1)[OF t(1), of "max_token_num kv"] b blocks_for_max[OF assms(2)] by simp
  then show "?i div ?t < blocks_for kv n" by (rule int_div_less[OF t(1)])
qed

lemma step_grow_total:
  assumes fr: "kv_frame kv" and k: "k < length (sequences kv)" and fin: "length finished = length (sequences kv)"
    and cov: "covered kv k"
  shows "fst (step_grow finished (sequences kv ! k) kv) \<in> {Inr (), Inl RuntimeError}"
    and "kv_beam_width kv \<le> length (free_blocks (blocks_mgr kv)) \<Longrightarrow>
      \<exists>kv1. step_grow finished (sequences kv ! k) kv = (Inr (), kv1) \<and>
        length (free_blocks (blocks_mgr kv)) \<le> length (free_blocks (blocks_mgr kv1)) + kv_beam_width kv"
proof -
  let ?s = "sequences kv ! k" and ?n = "lens kv ! k" and ?H = "seq_objs kv" and ?bm = "blocks_mgr kv"
  let ?i = "next_token_idx kv ?n div tokens_per_block kv"
  note f = kv_frame_facts[OF fr]
  have n: "sink_block_token_num kv \<le> ?n"
    "\<And>beam. beam \<in> set (beams_of ?H ?s ?bm) \<Longrightarrow> int (length beam) = blocks_for kv ?n"
    using cov by (auto simp: covered_def)
  note e = step_grow_eq[OF fr k fin refl n(1) refl]
  have A: "?s \<in> set (sequences kv)" using k by simp
  have w: "bm_beam_width ?bm = kv_beam_width kv" "0 < bm_beam_width ?bm"
    using f(1) by (simp_all add: kv_config_ok_def)
  have a: "fst (on_blocks (allocate ?H ?s False) kv) \<in> {Inr (), Inl RuntimeError}"
    using allocate_effect(2)[OF f(2,3) A, of False] by (auto simp: on_blocks_def split: prod.splits)
  have r: "fst (on_blocks (replace_shared_block ?H ?s ?i) kv) \<in> {Inr (), Inl RuntimeError}"
    if "\<not> ?n < max_token_num kv"
    using replace_shared_block_total(1)[OF f(2,3) A w(2), of ?i] next_block_in_range[OF f(1) that] n(2)
    by (auto simp: on_blocks_def split: prod.splits)
  show "fst (step_grow finished ?s kv) \<in> {Inr (), Inl RuntimeError}"
    unfolding e using a r by simp
  assume free: "kv_beam_width kv \<le> length (free_blocks ?bm)"
  have a2: "\<exists>kv1. on_blocks (allocate ?H ?s False) kv = (Inr (), kv1) \<and>
        length (free_blocks ?bm) \<le> length (free_blocks (blocks_mgr kv1)) + kv_beam_width kv"
    using allocate_loop_free[OF f(3) A, of "[0..<bm_beam_width ?bm]" None] free w
    by (auto simp: on_blocks_eq allocate_def)
  have r2: "\<exists>kv1. on_blocks (replace_shared_block ?H ?s ?i) kv = (Inr (), kv1) \<and>
        length (free_blocks ?bm) \<le> length (free_blocks (blocks_mgr kv1)) + kv_beam_width kv"
    if "\<not> ?n < max_token_num kv"
    using replace_shared_block_total(2)[OF f(2,3) A w(2), of ?i] next_block_in_range[OF f(1) that] n(2) free w
    by (auto simp: on_blocks_eq)
  show "\<exists>kv1. step_grow finished ?s kv = (Inr (), kv1) \<and>
        length (free_blocks ?bm) \<le> length (free_blocks (blocks_mgr kv1)) + kv_beam_width kv"
    unfolding e using a2 r2 by simp
qed

lemma step_loop_step:
  assumes "loop_inv finished k kv" "k < length (sequences kv)"
  shows "step_loop finished (drop k (sequences kv)) kv =
    (case step_grow finished (sequences kv ! k) kv of
       (Inl e, kv1) \<Rightarrow> (Inl e, kv1)
     | (Inr _, kv1) \<Rightarrow> step_loop finished (drop (Suc k) (sequences (count_token k kv1))) (count_token k kv1))"
proof -
  have d: "drop k (sequences kv) = sequences kv ! k # drop (Suc k) (sequences kv)"
    using assms(2) by (simp add: Cons_nth_drop_Suc)
  have b: "batch_idx (seq_objs kv (sequences kv ! k)) = int k"
    using assms by (simp add: loop_inv_def kv_frame_facts(6))
  show ?thesis
  proof (cases "step_grow finished (sequences kv ! k) kv")
    case (Pair r kv1)
    then show ?thesis
      using loop_inv_step(2)[OF assms, of _ kv1] b unfolding d
      by (cases r) (auto simp: Let_def py_pos_def count_token_def)
  qed
qed

lemma step_loop_total:
  assumes "loop_inv finished k kv" "k \<le> length (sequences kv)"
  shows "fst (step_loop finished (drop k (sequences kv)) kv) \<in> {Inr (), Inl RuntimeError} \<and>
    (kv_beam_width kv * (length (sequences kv) - k) \<le> length (free_blocks (blocks_mgr kv)) \<longrightarrow>
      fst (step_loop finished (drop k (sequences kv)) kv) = Inr ())"
  using assms
proof (induction "length (sequences kv) - k" arbitrary: k kv)
  case (Suc j)
  have k: "k < length (sequences kv)" using Suc.hyps(2) by simp
  have i: "kv_frame kv" "length finished = length (sequences kv)" "covered kv k"
    using Suc.prems(1) k by (auto simp: loop_inv_def)
  note g = step_grow_total[OF i(1) k i(2,3)] and e = step_loop_step[OF Suc.prems(1) k]
  obtain r kv1 where r: "step_grow finished (sequences kv ! k) kv = (r, kv1)" by fastforce
  let ?kv = "count_token k kv1"
  show ?case
  proof (cases r)
    case (Inl err)
    have "\<not> kv_beam_width kv \<le> length (free_blocks (blocks_mgr kv))" using g(2) r Inl by auto
    moreover have "kv_beam_width kv \<le> kv_beam_width kv * (length (sequences kv) - k)"
      using k by (cases "length (sequences kv) - k") auto
    ultimately have "\<not> kv_beam_width kv * (length (sequences kv) - k) \<le> length (free_blocks (blocks_mgr kv))"
      by linarith
    then show ?thesis using g(1) r Inl e by auto
  next
    case (Inr u)
    note l = loop_inv_step[OF Suc.prems(1) k r[unfolded Inr]]
    then have s: "sequences ?kv = sequences kv" "kv_beam_width ?kv = kv_beam_width kv" "blocks_mgr ?kv = blocks_mgr kv1"
      by (auto simp: count_token_def)
    have "fst (step_loop finished (drop (Suc k) (sequences ?kv)) ?kv) \<in> {Inr (), Inl RuntimeError} \<and>
    (kv_beam_width ?kv * (length (sequences ?kv) - Suc k) \<le> length (free_blocks (blocks_mgr ?kv)) \<longrightarrow>
      fst (step_loop finished (drop (Suc k) (sequences ?kv)) ?kv) = Inr ())"
      using Suc.hyps l(1) k s by (intro Suc.hyps(1)) simp_all
    moreover have "kv_beam_width kv * (length (sequences kv) - Suc k) \<le> length (free_blocks (blocks_mgr kv1))"
      if h: "kv_beam_width kv * (length (sequences kv) - k) \<le> length (free_blocks (blocks_mgr kv))"
    proof -
      have m: "kv_beam_width kv * (length (sequences kv) - k) =
          kv_beam_width kv + kv_beam_width kv * (length (sequences kv) - Suc k)"
        using k by (metis Suc_diff_Suc mult_Suc_right)
      then show ?thesis using g(2) r h by auto
    qed
    ultimately show ?thesis using e r Inr s by simp
  qed
qed simp

section \<open>Reachable states\<close>

inductive kv_reachable :: "kv_cache_manager \<Rightarrow> bool" where
  init: "kv_cache_manager_init H layers blocks bsize tpb max_per_seq window sink beams one_more = Inr kv \<Longrightarrow>
    0 < tpb \<Longrightarrow> 0 \<le> sink \<Longrightarrow> sink < window \<Longrightarrow> 0 < beams \<Longrightarrow> kv_reachable kv"
| add: "kv_reachable kv \<Longrightarrow> fresh_sequence kv s n \<Longrightarrow> sink_token_len kv \<le> context_len \<Longrightarrow>
    add_sequence s context_len share (new_sequence s n kv) = (Inr u, kv') \<Longrightarrow> kv_reachable kv'"
| step: "kv_reachable kv \<Longrightarrow> length finished = length (sequences kv) \<Longrightarrow>
    step finished kv = (Inr u, kv') \<Longrightarrow> kv_reachable kv'"

lemma init_inv:
  assumes "kv_cache_manager_init H layers blocks bsize tpb max_per_seq window sink beams one_more = Inr kv"
    "0 < tpb" "0 \<le> sink" "sink < window" "0 < beams"
  shows "kv_inv kv \<and> sink_block_token_num kv = sink_token_len kv + bubble_len kv"
proof -
  have "sink + (tpb - sink mod tpb) = tpb * (sink div tpb + 1)" by (simp add: algebra_simps minus_mod_eq_mult_div)
  then have "(sink + (tpb - sink mod tpb)) mod tpb = 0" by simp
  moreover have "0 \<le> tpb - sink mod tpb" using pos_mod_bound[OF assms(2), of sink] by linarith
  ultimately have "kv_config_ok kv"
    using assms by (auto simp: kv_cache_manager_init_def kv_config_ok_def blocks_manager_init_def Let_def split: if_splits)
  then show ?thesis
    using assms bm_inv_init
    by (auto simp: kv_cache_manager_init_def kv_inv_def kv_frame_def keys_ok_def owner_ok_def Let_def
        blocks_manager_init_def split: if_splits)
qed

lemma step_inv:
  assumes "kv_inv kv" "length finished = length (sequences kv)" "step finished kv = (Inr u, kv')"
  shows "kv_inv kv' \<and> sequences kv' = map ((!) (sequences kv)) (live finished) \<and>
    lens kv' = map (\<lambda>i. lens kv ! i + 1) (live finished) \<and>
    sink_block_token_num kv' = sink_block_token_num kv \<and> sink_token_len kv' = sink_token_len kv \<and>
    bubble_len kv' = bubble_len kv"
proof -
  have inv: "loop_inv finished 0 kv" using assms(1,2) by (simp add: loop_inv_def kv_inv_def)
  have ll: "length (lens kv) = length (sequences kv)" using assms(1) by (simp add: kv_inv_def kv_frame_facts)
  obtain v kv1 where l: "step_loop finished (sequences kv) kv = (Inr v, kv1)"
    using assms(3) by (auto simp: step_def split: prod.splits sum.splits)
  from step_loop_inv[OF inv, of v kv1] l obtain bm where i1: "loop_inv finished (length (sequences kv)) kv1"
    and kv1: "kv1 = kv\<lparr>blocks_mgr := bm, lens := map (\<lambda>n. n + 1) (lens kv)\<rparr>" by auto
  have kv': "kv' = retire finished kv1"
    using step_eq[OF l] assms(2,3) kv1 by simp
  have "lens kv' = map ((!) (lens kv1)) (live finished)" using retire_inv(3)[of finished kv1] i1 kv1 kv' by simp
  then have "lens kv' = map (\<lambda>i. lens kv ! i + 1) (live finished)"
    using assms(2) ll by (auto simp: kv1 live_def)
  then show ?thesis
    using retire_inv[of finished kv1] i1 kv1 kv' by (simp add: retire_def Let_def)
qed

lemma add_sequence_config:
  "add_sequence s c share kv = (r, kv') \<Longrightarrow> sink_block_token_num kv' = sink_block_token_num kv \<and>
     sink_token_len kv' = sink_token_len kv \<and> bubble_len kv' = bubble_len kv \<and>
     sequences kv' = sequences kv @ [s] \<and> lens kv' = lens kv @ [c + bubble_len kv]"
proof -
  have "allocate_context s share k is kv = (r, kv') \<Longrightarrow> \<exists>bm. kv' = kv\<lparr>blocks_mgr := bm\<rparr>" for k "is" kv
  proof (induction "is" arbitrary: kv)
    case Nil
    then show ?case by (auto intro: exI[of _ "blocks_mgr kv"])
  next
    case (Cons i "is")
    then show ?case by (fastforce simp: on_blocks_def split: prod.splits sum.splits)
  qed
  then show "add_sequence s c share kv = (r, kv') \<Longrightarrow> ?thesis"
    by (fastforce simp: add_sequence_def Let_def split: sum.splits)
qed

lemma kv_reachable_inv:
  "kv_reachable kv \<Longrightarrow> kv_inv kv \<and> sink_block_token_num kv = sink_token_len kv + bubble_len kv"
proof (induction rule: kv_reachable.induct)
  case init
  then show ?case by (rule init_inv)
next
  case (add kv s n context_len share u kv')
  then show ?case
    using add_sequence_inv[of kv s n context_len share u kv'] add_sequence_config[OF add(4)] by (simp add: new_sequence_def)
next
  case (step kv finished u kv')
  then show ?case using step_inv[of kv finished u kv'] by auto
qed

text \<open>
  C1: the paged cache keeps every sequence in blocks of its own. In every state reached from the
  initial one by adding sequences and by generation steps, each beam of each live sequence has enough
  blocks for the tokens kept of it and less than one block too many, its blocks are disjoint from
  those of every other sequence and from the free list, and every block of the pool is either free or
  held by a live sequence.
\<close>

theorem reachable_cache_consistent:
  assumes "kv_reachable kv"
  shows "(\<forall>i < length (sequences kv). \<forall>beam \<in> set (beams_of (seq_objs kv) (sequences kv ! i) (blocks_mgr kv)).
       min (lens kv ! i) (max_token_num kv) \<le> int (length beam) * tokens_per_block kv \<and>
       int (length beam) * tokens_per_block kv < min (lens kv ! i) (max_token_num kv) + tokens_per_block kv) \<and>
     (\<forall>s \<in> set (sequences kv). \<forall>t \<in> set (sequences kv). s \<noteq> t \<longrightarrow>
       set (concat (beams_of (seq_objs kv) s (blocks_mgr kv))) \<inter>
       set (concat (beams_of (seq_objs kv) t (blocks_mgr kv))) = {}) \<and>
     set (free_blocks (blocks_mgr kv)) =
       {..<num_blocks (blocks_mgr kv)} - (\<Union>s \<in> set (sequences kv). set (concat (beams_of (seq_objs kv) s (blocks_mgr kv))))"
proof -
  have inv: "kv_inv kv" using kv_reachable_inv[OF assms] by simp
  note f = kv_frame_facts[of kv] 
  have fr: "kv_frame kv" using inv by (simp add: kv_inv_def)
  have t: "0 < tokens_per_block kv" using f(1)[OF fr] by (simp add: kv_config_ok_def)
  have pool: "bm_inv (blocks_mgr kv) \<and> keys_ok (seq_objs kv) (set (sequences kv)) (blocks_mgr kv)"
    using f(2,3)[OF fr] by simp
  show ?thesis
    using inv blocks_for_capacity[OF t] blocks_pool.separate[OF pool] blocks_pool.avail_eq[OF pool]
    by (auto simp: kv_inv_def covered_def simp del: set_concat)
qed

text \<open>
  C2: a generation step of a reachable cache either succeeds or raises the documented
  \<open>RuntimeError\<close> (no index or division error), and it does succeed when there is one free block per
  beam and live sequence. After a success the finished sequences are gone, the others keep their
  order, are one token longer and are renumbered to their new positions.
\<close>

theorem step_behaviour:
  assumes "kv_reachable kv" "length finished = length (sequences kv)"
  shows "fst (step finished kv) \<in> {Inr (), Inl RuntimeError} \<and>
     (kv_beam_width kv * length (sequences kv) \<le> length (free_blocks (blocks_mgr kv)) \<longrightarrow>
        fst (step finished kv) = Inr ()) \<and>
     (\<forall>kv'. step finished kv = (Inr (), kv') \<longrightarrow>
        sequences kv' = map ((!) (sequences kv)) (live finished) \<and>
        lens kv' = map (\<lambda>i. lens kv ! i + 1) (live finished) \<and>
        (\<forall>i < length (sequences kv'). batch_idx (seq_objs kv' (sequences kv' ! i)) = int i))"
proof -
  have inv: "kv_inv kv" using kv_reachable_inv[OF assms(1)] by simp
  then have l: "loop_inv finished 0 kv" using assms(2) by (simp add: loop_inv_def kv_inv_def)
  obtain r kv1 where r: "step_loop finished (sequences kv) kv = (r, kv1)" by fastforce
  have "fst (step finished kv) = r"
  proof (cases r)
    case (Inr u)
    then have "sequences kv1 = sequences kv" using step_loop_inv[OF l, of u kv1] r by auto
    then show ?thesis using step_eq[OF r[unfolded Inr]] assms(2) Inr by simp
  qed (simp add: step_def r)
  then show ?thesis
    using step_loop_total[OF l] r step_inv[OF inv assms(2)] by (auto simp: kv_inv_def kv_frame_def)
qed

section \<open>A concrete run\<close>

text \<open>
  Two beams, six blocks of four tokens, a window of ten tokens without sink: one sequence with a
  context of five tokens is added, then two steps are taken.
\<close>

definition example_kv :: kv_cache_manager where
  "example_kv = projr (kv_cache_manager_init (\<lambda>s. \<lparr>seq_idx = int s, batch_idx = int s\<rparr>) 1 6 8 4 3 10 0 2 False)"

definition example_run :: kv_cache_manager where
  "example_run = snd (step [False] (snd (add_sequence 0 5 False (new_sequence 0 7 example_kv))))"

lemma example_reachable: "kv_reachable example_run"
proof -
  let ?kv1 = "snd (add_sequence 0 5 False (new_sequence 0 7 example_kv))"
  have "kv_cache_manager_init (\<lambda>s. \<lparr>seq_idx = int s, batch_idx = int s\<rparr>) 1 6 8 4 3 10 0 2 False = Inr example_kv"
    by (simp add: example_kv_def kv_cache_manager_init_def)
  then have 0: "kv_reachable example_kv" by (rule kv_reachable.init) auto
  have a: "fst (add_sequence 0 5 False (new_sequence 0 7 example_kv)) = Inr ()" by code_simp
  have "kv_reachable ?kv1"
  proof (rule kv_reachable.add[OF 0])
    show "fresh_sequence example_kv 0 7" by code_simp
    show "sink_token_len example_kv \<le> 5" by code_simp
    show "add_sequence 0 5 False (new_sequence 0 7 example_kv) = (Inr (), ?kv1)" using a by (metis prod.collapse)
  qed
  then show ?thesis
  proof (rule kv_reachable.step)
    show "length [False] = length (sequences ?kv1)" by code_simp
    have "fst (step [False] ?kv1) = Inr ()" by code_simp
    then show "step [False] ?kv1 = (Inr (), example_run)" unfolding example_run_def by (metis prod.collapse)
  qed
qed

theorem reachable_cache_consistent_witness:
  "kv_reachable example_run \<and> sequences example_run = [0] \<and> lens example_run = [6] \<and>
   beams_of (seq_objs example_run) 0 (blocks_mgr example_run) = [[0, 1], [0, 2]] \<and>
   set (free_blocks (blocks_mgr example_run)) = {3, 4, 5} \<and>
   6 \<le> int (length (hd (beams_of (seq_objs example_run) 0 (blocks_mgr example_run)))) * 4"
proof -
  have v: "sequences example_run = [0]" "lens example_run = [6]" "max_token_num example_run = 10"
    "tokens_per_block example_run = 4" by code_simp+
  have b: "beams_of (seq_objs example_run) 0 (blocks_mgr example_run) = [[0, 1], [0, 2]]" by code_simp
  have n: "{..<num_blocks (blocks_mgr example_run)} = {0, 1, 2, 3, 4, 5}" by code_simp
  show ?thesis
    using reachable_cache_consistent[OF example_reachable] example_reachable by (auto simp: v b n)
qed

theorem step_behaviour_witness:
  "fst (step [False] example_run) = Inr () \<and> sequences (snd (step [False] example_run)) = [0] \<and>
   lens (snd (step [False] example_run)) = [7]"
proof -
  have v: "sequences example_run = [0]" "lens example_run = [6]" "kv_beam_width example_run = 2"
    "length (free_blocks (blocks_mgr example_run)) = 3" by code_simp+
  have l: "live [False] = [0]" by code_simp
  note b = step_behaviour[OF example_reachable, of "[False]"]
  from b v have ok: "fst (step [False] example_run) = Inr ()" by simp
  then have "step [False] example_run = (Inr (), snd (step [False] example_run))" by (metis prod.collapse)
  with b ok v l show ?thesis by auto
qed

end
