(* ===== verification/Resource_Slots.thy ===== *)
theory Resource_Slots
  imports Owner_Pool
begin

text \<open>
  The per-request resource bookkeeping of \<open>tensorrt_llm/_torch/pyexecutor\<close>: \<open>SlotManager\<close>,
  \<open>BlockManager\<close> and \<open>ResourceManager\<close> of \<open>resource_manager.py\<close> and \<open>SeqSlotManager\<close> of
  \<open>seq_slot_manager.py\<close>. Both managers are interpreted as owner pools.

  \<open>set.pop()\<close> removes an arbitrary element: the choice is the argument \<open>pick\<close> of the definitions that
  call it, and the theorems hold for every choice function. Tensors that are only written by index are
  lists; \<open>copy_block_offsets\<close> copies tensor slices and is not modelled. Every operation returns the state
  also when it raises.
\<close>

section \<open>SlotManager\<close>

definition CUDA_GRAPH_DUMMY_REQUEST_ID :: int where
  "CUDA_GRAPH_DUMMY_REQUEST_ID = 2 ^ 64 - 1"

record slot_manager =
  max_num_requests :: nat
  slot_mapping :: "(int, nat) dict"
  free_slots :: "nat set"

type_synonym pick_fn = "nat set \<Rightarrow> nat"

definition pick_ok :: "pick_fn \<Rightarrow> bool" where
  "pick_ok pick \<longleftrightarrow> (\<forall>S. finite S \<longrightarrow> S \<noteq> {} \<longrightarrow> pick S \<in> S)"

definition slot_manager_init :: "nat \<Rightarrow> slot_manager" where
  "slot_manager_init n = \<lparr>max_num_requests = n, slot_mapping = [], free_slots = {..<n}\<rparr>"

definition get_slot :: "slot_manager \<Rightarrow> int \<Rightarrow> nat option" where
  "get_slot sm rid = map_of (slot_mapping sm) rid"

definition add_slot :: "pick_fn \<Rightarrow> int \<Rightarrow> slot_manager \<Rightarrow> nat result \<times> slot_manager" where
  "add_slot pick rid sm =
     (case map_of (slot_mapping sm) rid of
        Some slot \<Rightarrow>
          if rid = CUDA_GRAPH_DUMMY_REQUEST_ID then (Inr slot, sm) else (Inl AssertionError, sm)
      | None \<Rightarrow>
          if free_slots sm = {} then (Inl ValueError, sm)
          else let slot = pick (free_slots sm) in
            (Inr slot, sm\<lparr>free_slots := free_slots sm - {slot},
                          slot_mapping := AList.update rid slot (slot_mapping sm)\<rparr>))"

definition remove_slot :: "int \<Rightarrow> slot_manager \<Rightarrow> slot_manager" where
  "remove_slot rid sm =
     (case map_of (slot_mapping sm) rid of
        None \<Rightarrow> sm
      | Some slot \<Rightarrow> sm\<lparr>slot_mapping := AList.delete rid (slot_mapping sm),
                       free_slots := insert slot (free_slots sm)\<rparr>)"

definition slot_shutdown :: "slot_manager \<Rightarrow> unit result \<times> slot_manager" where
  "slot_shutdown sm =
     (let sm' = fold remove_slot (keys_of (slot_mapping sm)) sm in
      (py_assert (slot_mapping sm' = [] \<and> card (free_slots sm') = max_num_requests sm'), sm'))"

fun fill_slot_id_tensor :: "slot_manager \<Rightarrow> nat \<Rightarrow> int list \<Rightarrow> nat list \<Rightarrow> unit result \<times> nat list" where
  \<comment> \<open>the loop over \<open>enumerate(requests)\<close> from position \<open>i\<close> on, over the request ids\<close>
  "fill_slot_id_tensor sm i [] t = (Inr (), t)"
| "fill_slot_id_tensor sm i (rid # rids) t =
     (case get_slot sm rid of
        None \<Rightarrow> (Inl ValueError, t)
      | Some slot \<Rightarrow>
          if i < length t then fill_slot_id_tensor sm (Suc i) rids (t[i := slot])
          else (Inl IndexError, t))"

section \<open>BlockManager\<close>

record block_manager =
  bk_num_blocks :: nat
  bk_tokens_per_block :: int
  block_ids :: "(int, nat list) dict"
  num_sequences :: "(int, int) dict"
  bk_free_blocks :: "nat list"

definition block_manager_init :: "nat \<Rightarrow> int \<Rightarrow> block_manager" where
  "block_manager_init n tpb = \<lparr>bk_num_blocks = n, bk_tokens_per_block = tpb, block_ids = [],
     num_sequences = [], bk_free_blocks = [0..<n]\<rparr>"

definition compute_block_count :: "int \<Rightarrow> int \<Rightarrow> int result" where
  "compute_block_count token_count tokens_per_page =
     py_div (token_count + tokens_per_page - 1) tokens_per_page"

definition allocate_blocks :: "int \<Rightarrow> block_manager \<Rightarrow> nat list result \<times> block_manager" where
  "allocate_blocks n bk =
     (if int (length (bk_free_blocks bk)) \<ge> n
      then (Inr (take (nat n) (bk_free_blocks bk)),
            bk\<lparr>bk_free_blocks := drop (nat n) (bk_free_blocks bk)\<rparr>)
      else (Inl AssertionError, bk))"

definition free_block_list :: "nat list \<Rightarrow> block_manager \<Rightarrow> block_manager" where
  "free_block_list bs bk = bk\<lparr>bk_free_blocks := bk_free_blocks bk @ bs\<rparr>"

text \<open>The token count of the request is recorded first; then blocks are added as far as needed.\<close>

definition record_tokens :: "int \<Rightarrow> int \<Rightarrow> block_manager \<Rightarrow> unit result \<times> block_manager" where
  "record_tokens rid n bk =
     (if map_of (block_ids bk) rid = None
      then (Inr (), bk\<lparr>block_ids := AList.update rid [] (block_ids bk),
                       num_sequences := AList.update rid n (num_sequences bk)\<rparr>)
      else (case dict_get (num_sequences bk) rid of
              Inl e \<Rightarrow> (Inl e, bk)
            | Inr k \<Rightarrow> (Inr (), bk\<lparr>num_sequences := AList.update rid (k + n) (num_sequences bk)\<rparr>)))"

definition extend_blocks :: "int \<Rightarrow> block_manager \<Rightarrow> unit result \<times> block_manager" where
  "extend_blocks rid bk =
     (case res_bind (dict_get (num_sequences bk) rid) (\<lambda>k.
           res_bind (compute_block_count k (bk_tokens_per_block bk)) (\<lambda>needed.
           res_bind (dict_get (block_ids bk) rid) (\<lambda>ids. Inr (ids, needed)))) of
        Inl e \<Rightarrow> (Inl e, bk)
      | Inr (ids, needed) \<Rightarrow>
          if int (length ids) < needed then
            (case allocate_blocks (needed - int (length ids)) bk of
               (Inl e, bk1) \<Rightarrow> (Inl e, bk1)
             | (Inr new, bk1) \<Rightarrow>
                 (Inr (), bk1\<lparr>block_ids := AList.update rid (ids @ new) (block_ids bk1)\<rparr>))
          else (Inr (), bk))"

definition add_tokens :: "int \<Rightarrow> int \<Rightarrow> block_manager \<Rightarrow> unit result \<times> block_manager" where
  "add_tokens rid n bk =
     (if n > 0 then
        (case record_tokens rid n bk of
           (Inl e, bk1) \<Rightarrow> (Inl e, bk1)
         | (Inr _, bk1) \<Rightarrow> extend_blocks rid bk1)
      else (Inr (), bk))"

definition bk_free_resources :: "int \<Rightarrow> block_manager \<Rightarrow> unit result \<times> block_manager" where
  "bk_free_resources rid bk =
     (case dict_get (block_ids bk) rid of
        Inl e \<Rightarrow> (Inl e, bk)
      | Inr ids \<Rightarrow>
          let bk1 = free_block_list ids bk;
              bk2 = bk1\<lparr>block_ids := AList.delete rid (block_ids bk1)\<rparr> in
          (case dict_get (num_sequences bk2) rid of
             Inl e \<Rightarrow> (Inl e, bk2)
           | Inr _ \<Rightarrow> (Inr (), bk2\<lparr>num_sequences := AList.delete rid (num_sequences bk2)\<rparr>)))"

definition rewind_cache :: "int \<Rightarrow> int \<Rightarrow> block_manager \<Rightarrow> unit result \<times> block_manager" where
  "rewind_cache rid rewind_len bk =
     (if rewind_len = 0 then (Inr (), bk)
      else (case dict_get (num_sequences bk) rid of
        Inl e \<Rightarrow> (Inl e, bk)
      | Inr k \<Rightarrow>
          let bk1 = bk\<lparr>num_sequences := AList.update rid (k - rewind_len) (num_sequences bk)\<rparr> in
          (case res_bind (compute_block_count (max (k - rewind_len) 0) (bk_tokens_per_block bk)) (\<lambda>needed.
                res_bind (dict_get (block_ids bk1) rid) (\<lambda>ids. Inr (ids, int (length ids) - needed))) of
             Inl e \<Rightarrow> (Inl e, bk1)
           | Inr (ids, n) \<Rightarrow>
               if n > 0 then
                 let keep = length ids - nat n;
                     bk2 = free_block_list (drop keep ids) bk1 in
                 (Inr (), bk2\<lparr>block_ids := AList.update rid (take keep ids) (block_ids bk2)\<rparr>)
               else (Inr (), bk1))))"

section \<open>Slots form an owner pool\<close>

definition slot_inv :: "slot_manager \<Rightarrow> bool" where
  "slot_inv sm \<longleftrightarrow> distinct (keys_of (slot_mapping sm)) \<and> distinct (map snd (slot_mapping sm)) \<and>
     free_slots sm \<inter> snd ` set (slot_mapping sm) = {} \<and>
     free_slots sm \<union> snd ` set (slot_mapping sm) = {..<max_num_requests sm}"

definition held_slots :: "slot_manager \<Rightarrow> int \<Rightarrow> nat set" where
  "held_slots sm rid = set_option (get_slot sm rid)"

lemma slot_inv_init: "slot_inv (slot_manager_init n)"
  by (simp add: slot_inv_def slot_manager_init_def)

lemma snd_values: "distinct (keys_of d) \<Longrightarrow> snd ` set d = (\<Union>k. set_option (map_of d k))"
  by (force simp: map_of_eq_Some_iff)

lemma distinct_values:
  "distinct (map snd d) \<Longrightarrow> map_of d j = Some v \<Longrightarrow> map_of d k = Some v \<Longrightarrow> j = k"
  by (induction d) (auto split: if_splits dest!: map_of_SomeD simp: image_iff)

lemma values_delete:
  assumes "distinct (keys_of d)" "distinct (map snd d)" "map_of d k = Some v"
  shows "snd ` set (AList.delete k d) = snd ` set d - {v}" "distinct (map snd (AList.delete k d))"
proof -
  have k: "(k, v) \<in> set d" using assms(3) by (rule map_of_SomeD)
  have inj: "inj_on snd (set d)" and key: "inj_on fst (set d)" using assms by (simp_all add: distinct_map)
  have "set (AList.delete k d) = set d - {(k, v)}" using k inj_onD[OF key] by (fastforce simp: AList.delete_eq)
  then show "snd ` set (AList.delete k d) = snd ` set d - {v}"
    using inj_on_image_set_diff[OF inj, of "set d" "{(k, v)}"] k by simp
  show "distinct (map snd (AList.delete k d))"
    using assms(2) by (simp add: AList.delete_eq distinct_map_filter)
qed

lemma pick_free:
  assumes "pick_ok pick" "slot_inv sm" "free_slots sm \<noteq> {}"
  shows "pick (free_slots sm) \<in> free_slots sm"
proof -
  have "free_slots sm \<subseteq> {..<max_num_requests sm}" using assms(2) by (auto simp: slot_inv_def)
  then have "finite (free_slots sm)" by (rule finite_subset) simp
  then show ?thesis using assms(1,3) by (simp add: pick_ok_def)
qed

lemma add_slot_cases:
  obtains (known) slot where "map_of (slot_mapping sm) rid = Some slot" "snd (add_slot pick rid sm) = sm"
  | (full) "map_of (slot_mapping sm) rid = None" "free_slots sm = {}" "add_slot pick rid sm = (Inl ValueError, sm)"
  | (new) "map_of (slot_mapping sm) rid = None" "free_slots sm \<noteq> {}"
      "add_slot pick rid sm = (Inr (pick (free_slots sm)),
         sm\<lparr>free_slots := free_slots sm - {pick (free_slots sm)},
            slot_mapping := slot_mapping sm @ [(rid, pick (free_slots sm))]\<rparr>)"
proof (cases "map_of (slot_mapping sm) rid")
  case (Some slot)
  then show ?thesis by (intro known) (auto simp: add_slot_def)
next
  case None
  then have u: "AList.update rid v (slot_mapping sm) = slot_mapping sm @ [(rid, v)]" for v
    by (simp add: update_new map_of_eq_None_iff)
  show ?thesis
  proof (cases "free_slots sm = {}")
    case True
    then show ?thesis using None by (intro full) (simp_all add: add_slot_def)
  next
    case False
    then show ?thesis using None u by (intro new) (simp_all add: add_slot_def Let_def)
  qed
qed

lemma add_slot_inv:
  assumes "pick_ok pick" "slot_inv sm"
  shows "slot_inv (snd (add_slot pick rid sm))"
proof (rule add_slot_cases[of sm rid pick])
  assume n: "map_of (slot_mapping sm) rid = None" "free_slots sm \<noteq> {}"
    "add_slot pick rid sm = (Inr (pick (free_slots sm)),
         sm\<lparr>free_slots := free_slots sm - {pick (free_slots sm)},
            slot_mapping := slot_mapping sm @ [(rid, pick (free_slots sm))]\<rparr>)"
  have "pick (free_slots sm) \<in> free_slots sm" by (rule pick_free[OF assms n(2)])
  then show ?thesis using n assms(2) by (auto simp: slot_inv_def map_of_eq_None_iff)
qed (use assms in simp_all)

lemma remove_slot_inv: "slot_inv sm \<Longrightarrow> slot_inv (remove_slot rid sm)"
proof (cases "map_of (slot_mapping sm) rid")
  case (Some v)
  assume inv: "slot_inv sm"
  have "v \<in> snd ` set (slot_mapping sm)" using map_of_SomeD[OF Some] by force
  then show ?thesis
    using inv values_delete[OF _ _ Some] Some by (auto simp: slot_inv_def remove_slot_def distinct_delete)
qed (simp add: remove_slot_def)

lemma get_slot_remove: "get_slot (remove_slot rid sm) t = (if t = rid then None else get_slot sm t)"
  by (auto simp: get_slot_def remove_slot_def split: option.split)

interpretation slot_pool: growing_pool
  slot_inv UNIV "\<lambda>sm. {..<max_num_requests sm}" free_slots held_slots remove_slot
  "\<lambda>pick. if pick_ok pick then add_slot pick else (\<lambda>rid sm. (Inl ValueError, sm))"
proof (unfold_locales, goal_cases)
  case (1 sm)
  then show ?case using snd_values[of "slot_mapping sm"] by (auto simp: slot_inv_def held_slots_def get_slot_def)
next
  case (2 sm rid)
  then show ?case by (force simp: slot_inv_def held_slots_def get_slot_def dest: map_of_SomeD)
next
  case (3 sm s t)
  then show ?case using distinct_values[of "slot_mapping sm" s _ t]
    by (auto simp: slot_inv_def held_slots_def get_slot_def)
next
  case (4 sm s)
  then show ?case by (simp add: remove_slot_inv)
next
  case (5 sm s)
  then show ?case by (simp add: remove_slot_def split: option.split)
next
  case (6 sm s t)
  then show ?case by (simp add: held_slots_def get_slot_remove)
next
  case (7 sm s pick r sm')
  then show ?case using add_slot_inv[of pick sm s] by (auto split: if_splits)
next
  case (8 sm s pick r sm')
  then show ?case by (auto simp: add_slot_def Let_def split: if_splits option.splits)
next
  case (9 sm s pick r sm' t)
  then show ?case by (auto simp: add_slot_def Let_def held_slots_def get_slot_def split: if_splits option.splits)
next
  case (10 sm s pick r sm')
  then show ?case by (auto simp: add_slot_def Let_def held_slots_def get_slot_def split: if_splits option.splits)
qed

lemma held_slots_conv: "held_slots sm t = {v} \<longleftrightarrow> get_slot sm t = Some v"
  by (cases "get_slot sm t") (auto simp: held_slots_def)

text \<open>
  \<open>add_slot\<close> gives a request that has no slot a slot that nobody else holds, in the range of the
  manager, without touching the slots of the others; it fails exactly when all slots are taken, and
  a request that has a slot already gets it again only when it is the CUDA graph dummy request.
\<close>

theorem add_slot_fresh:
  assumes "pick_ok pick" "slot_inv sm" "add_slot pick rid sm = (r, sm')"
  shows "slot_inv sm' \<and> (\<forall>t. t \<noteq> rid \<longrightarrow> get_slot sm' t = get_slot sm t) \<and>
     (case get_slot sm rid of
        None \<Rightarrow> (r = Inl ValueError \<longleftrightarrow> free_slots sm = {}) \<and>
          (\<forall>slot. r = Inr slot \<longrightarrow> get_slot sm' rid = Some slot \<and> slot < max_num_requests sm \<and>
             (\<forall>t. get_slot sm t \<noteq> Some slot)) \<and> (r = Inl ValueError \<or> (\<exists>slot. r = Inr slot))
      | Some slot \<Rightarrow> sm' = sm \<and>
          r = (if rid = CUDA_GRAPH_DUMMY_REQUEST_ID then Inr slot else Inl AssertionError))"
proof -
  have inv: "slot_inv sm'" using add_slot_inv[OF assms(1,2), of rid] assms(3) by simp
  have others: "get_slot sm' t = get_slot sm t" if "t \<noteq> rid" for t
    using that assms(3) by (auto simp: add_slot_def get_slot_def Let_def split: option.splits if_splits)
  have free: "slot < max_num_requests sm \<and> get_slot sm t \<noteq> Some slot" if "slot \<in> free_slots sm" for slot t
    using that slot_pool.avail_eq[OF assms(2)] by (auto simp: held_slots_def)
  show ?thesis
  proof (cases "get_slot sm rid")
    case None
    have "pick (free_slots sm) \<in> free_slots sm" if "free_slots sm \<noteq> {}"
      using pick_free[OF assms(1,2) that] .
    then show ?thesis
      using None inv others free assms(3) by (auto simp: add_slot_def get_slot_def Let_def split: if_splits)
  next
    case (Some slot)
    then show ?thesis using inv others assms(3) by (auto simp: add_slot_def get_slot_def split: if_splits)
  qed
qed

text \<open>
  \<open>shutdown\<close> of a consistent slot manager gives every slot back: the final assertion holds, no
  request is mapped and all slots are free.
\<close>

theorem slot_shutdown_returns_all:
  assumes "slot_inv sm"
  shows "slot_shutdown sm = (Inr (), \<lparr>max_num_requests = max_num_requests sm, slot_mapping = [],
     free_slots = {..<max_num_requests sm}\<rparr>)"
proof -
  let ?sm = "fold remove_slot (keys_of (slot_mapping sm)) sm"
  note r = slot_pool.release_list[OF assms, of "keys_of (slot_mapping sm)"]
  have dom: "t \<in> set (keys_of (slot_mapping sm))" if "held_slots sm t \<noteq> {}" for t
    using that by (force simp: held_slots_def get_slot_def dest: map_of_SomeD)
  have "held_slots ?sm t = {}" for t using r dom by auto
  then have "map_of (slot_mapping ?sm) t = None" for t
    by (cases "map_of (slot_mapping ?sm) t") (auto simp: held_slots_def get_slot_def)
  then have e: "slot_mapping ?sm = []" by (metis empty_eq_map_of_iff ext)
  have f: "free_slots ?sm = {..<max_num_requests sm}"
    using slot_pool.release_all[OF assms, of "keys_of (slot_mapping sm)"] dom by auto
  have m: "max_num_requests ?sm = max_num_requests sm" using r by auto
  show ?thesis by (simp add: slot_shutdown_def Let_def e f m py_assert_def)
qed

section \<open>Blocks form an owner pool\<close>

definition bk_inv :: "block_manager \<Rightarrow> bool" where
  "bk_inv bk \<longleftrightarrow> 0 < bk_tokens_per_block bk \<and> distinct (keys_of (block_ids bk)) \<and>
     set (keys_of (num_sequences bk)) = set (keys_of (block_ids bk)) \<and>
     mset (bk_free_blocks bk) + owned (block_ids bk) = mset [0..<bk_num_blocks bk]"

definition held_blocks :: "block_manager \<Rightarrow> int \<Rightarrow> nat set" where
  "held_blocks bk rid = (case map_of (block_ids bk) rid of None \<Rightarrow> {} | Some ids \<Rightarrow> set ids)"

lemma bk_inv_init: "0 < tpb \<Longrightarrow> bk_inv (block_manager_init n tpb)"
  by (simp add: bk_inv_def block_manager_init_def)

lemma bk_inv_keys: "bk_inv bk \<Longrightarrow> map_of (num_sequences bk) rid = None \<longleftrightarrow> map_of (block_ids bk) rid = None"
  by (simp add: bk_inv_def map_of_eq_None_iff)

lemma bk_distinct:
  assumes "bk_inv bk"
  shows "distinct (bk_free_blocks bk)" "set (bk_free_blocks bk) \<inter> set_mset (owned (block_ids bk)) = {}"
    "count (owned (block_ids bk)) b \<le> 1"
    "set (bk_free_blocks bk) \<union> set_mset (owned (block_ids bk)) = {..<bk_num_blocks bk}"
proof -
  let ?f = "mset (bk_free_blocks bk)" and ?o = "owned (block_ids bk)"
  have m: "?f + ?o = mset [0..<bk_num_blocks bk]" using assms by (simp add: bk_inv_def)
  have "count (?f + ?o) b \<le> 1" for b unfolding m by (cases "b \<in> {0..<bk_num_blocks bk}") simp_all
  then have c: "count ?f b + count ?o b \<le> 1" for b by simp
  show "distinct (bk_free_blocks bk)"
    unfolding distinct_count_atmost_1 using c by (metis add_leE count_greater_zero_iff set_mset_mset le_antisym less_eq_Suc_le One_nat_def count_eq_zero_iff)
  show "set (bk_free_blocks bk) \<inter> set_mset ?o = {}"
  proof (rule equals0I)
    fix b assume "b \<in> set (bk_free_blocks bk) \<inter> set_mset ?o"
    then have "0 < count ?f b" "0 < count ?o b" by auto
    then show False using c[of b] by linarith
  qed
  show "count ?o b \<le> 1" using c[of b] by simp
  show "set (bk_free_blocks bk) \<union> set_mset ?o = {..<bk_num_blocks bk}"
    using arg_cong[OF m, of set_mset] by (simp add: lessThan_atLeast0)
qed

lemma in_held_blocks: "b \<in> held_blocks bk rid \<longleftrightarrow> (\<exists>ids. map_of (block_ids bk) rid = Some ids \<and> b \<in> set ids)"
  by (auto simp: held_blocks_def split: option.splits)

lemma held_blocks_owned:
  assumes "distinct (keys_of (block_ids bk))"
  shows "(\<Union>rid. held_blocks bk rid) = set_mset (owned (block_ids bk))"
  by (simp add: set_eq_iff owned_in[OF assms] in_held_blocks)

lemma held_blocks_separate:
  assumes "bk_inv bk" "s \<noteq> t"
  shows "held_blocks bk s \<inter> held_blocks bk t = {}"
proof (rule equals0I)
  fix b assume "b \<in> held_blocks bk s \<inter> held_blocks bk t"
  then obtain v w where vw: "map_of (block_ids bk) s = Some v" "map_of (block_ids bk) t = Some w" "b \<in> set v" "b \<in> set w"
    by (auto simp: held_blocks_def split: option.splits)
  have "count (mset v + mset w) b \<le> count (owned (block_ids bk)) b"
    using owned_pair[OF _ vw(1,2) assms(2)] assms(1) by (intro mset_subset_eq_count) (simp add: bk_inv_def)
  moreover have "0 < count (mset v) b" "0 < count (mset w) b" using vw(3,4) by auto
  ultimately show False using bk_distinct(3)[OF assms(1), of b] by simp
qed

lemma record_tokens_inv:
  assumes "bk_inv bk"
  obtains k bk1 where "record_tokens rid n bk = (Inr (), bk1)" "bk_inv bk1"
    "map_of (num_sequences bk1) rid = Some (k + n)" "k = (case map_of (num_sequences bk) rid of None \<Rightarrow> 0 | Some k \<Rightarrow> k)"
    "map_of (block_ids bk1) rid = Some (case map_of (block_ids bk) rid of None \<Rightarrow> [] | Some ids \<Rightarrow> ids)"
    "\<And>t. t \<noteq> rid \<Longrightarrow> map_of (block_ids bk1) t = map_of (block_ids bk) t"
    "\<And>t. t \<noteq> rid \<Longrightarrow> map_of (num_sequences bk1) t = map_of (num_sequences bk) t"
    "bk_free_blocks bk1 = bk_free_blocks bk" "bk_num_blocks bk1 = bk_num_blocks bk"
    "bk_tokens_per_block bk1 = bk_tokens_per_block bk" "owned (block_ids bk1) = owned (block_ids bk)"
proof (cases "map_of (block_ids bk) rid")
  case None
  then have "map_of (num_sequences bk) rid = None" "rid \<notin> set (keys_of (block_ids bk))"
    using bk_inv_keys[OF assms, of rid] by (simp_all add: map_of_eq_None_iff)
  then show ?thesis
    using None assms owned_update_new[of rid "block_ids bk" "[]"]
    by (intro that[of "bk\<lparr>block_ids := AList.update rid [] (block_ids bk),
          num_sequences := AList.update rid n (num_sequences bk)\<rparr>" 0])
      (auto simp: record_tokens_def bk_inv_def distinct_update dom_update)
next
  case (Some ids)
  then obtain k where "map_of (num_sequences bk) rid = Some k" using bk_inv_keys[OF assms, of rid] by auto
  moreover from this have "rid \<in> set (keys_of (block_ids bk))"
    using assms by (force simp: bk_inv_def dest: map_of_SomeD)
  ultimately show ?thesis
    using Some assms
    by (intro that[of "bk\<lparr>num_sequences := AList.update rid (k + n) (num_sequences bk)\<rparr>" k])
      (auto simp: record_tokens_def bk_inv_def dom_update)
qed

text \<open>The number of blocks for \<open>k\<close> tokens; a rewind may have made the recorded count negative.\<close>

definition pages :: "block_manager \<Rightarrow> int \<Rightarrow> int" where
  "pages bk k = (max k 0 + bk_tokens_per_block bk - 1) div bk_tokens_per_block bk"

definition bk_exact :: "block_manager \<Rightarrow> int \<Rightarrow> bool" where
  "bk_exact bk rid \<longleftrightarrow> (\<forall>ids k. map_of (block_ids bk) rid = Some ids \<longrightarrow> map_of (num_sequences bk) rid = Some k \<longrightarrow>
     int (length ids) = pages bk k)"

lemma pages_nonneg: "0 < bk_tokens_per_block bk \<Longrightarrow> 0 \<le> pages bk k"
  by (simp add: pages_def pos_imp_zdiv_nonneg_iff)

lemma needed_pages:
  assumes "0 < bk_tokens_per_block bk" "0 \<le> n"
  shows "(k + bk_tokens_per_block bk - 1) div bk_tokens_per_block bk \<le> n \<longleftrightarrow> pages bk k \<le> n"
    and "0 < (k + bk_tokens_per_block bk - 1) div bk_tokens_per_block bk \<Longrightarrow>
      (k + bk_tokens_per_block bk - 1) div bk_tokens_per_block bk = pages bk k"
proof -
  let ?t = "bk_tokens_per_block bk"
  have neg: "(k + ?t - 1) div ?t \<le> 0" "pages bk k = 0" if "k \<le> 0"
    using that assms(1) int_div_less[OF assms(1), of "k + ?t - 1" 1]
    by (auto simp: pages_def max_def div_pos_pos_trivial)
  show "(k + ?t - 1) div ?t \<le> n \<longleftrightarrow> pages bk k \<le> n"
    using neg assms(2) by (cases "k \<le> 0") (auto simp: pages_def)
  show "0 < (k + ?t - 1) div ?t \<Longrightarrow> (k + ?t - 1) div ?t = pages bk k"
    using neg by (cases "k \<le> 0") (auto simp: pages_def)
qed

lemma extend_blocks_eq:
  assumes "bk_inv bk" "map_of (num_sequences bk) rid = Some k" "map_of (block_ids bk) rid = Some ids"
  shows "extend_blocks rid bk =
    (if pages bk k \<le> int (length ids) then (Inr (), bk)
     else let n = nat (pages bk k) - length ids in
       if n \<le> length (bk_free_blocks bk)
       then (Inr (), bk\<lparr>bk_free_blocks := drop n (bk_free_blocks bk),
              block_ids := AList.update rid (ids @ take n (bk_free_blocks bk)) (block_ids bk)\<rparr>)
       else (Inl AssertionError, bk))"
proof -
  let ?t = "bk_tokens_per_block bk" and ?q = "(k + bk_tokens_per_block bk - 1) div bk_tokens_per_block bk"
  have t: "0 < ?t" using assms(1) by (simp add: bk_inv_def)
  have le: "?q \<le> int (length ids) \<longleftrightarrow> pages bk k \<le> int (length ids)" by (rule needed_pages(1)[OF t]) simp
  have e: "extend_blocks rid bk = (if int (length ids) < ?q then
      (case allocate_blocks (?q - int (length ids)) bk of
         (Inl e, bk1) \<Rightarrow> (Inl e, bk1)
       | (Inr new, bk1) \<Rightarrow> (Inr (), bk1\<lparr>block_ids := AList.update rid (ids @ new) (block_ids bk1)\<rparr>))
      else (Inr (), bk))"
    using assms(2,3) t by (simp add: extend_blocks_def compute_block_count_def)
  show ?thesis
  proof (cases "?q \<le> int (length ids)")
    case True
    then show ?thesis using le by (simp add: e)
  next
    case False
    then have q: "?q = pages bk k" using needed_pages(2)[OF t, of 0 k] by simp
    have n: "nat (?q - int (length ids)) = nat (pages bk k) - length ids" unfolding q by (simp add: nat_diff_distrib')
    have "?q - int (length ids) \<le> int (length (bk_free_blocks bk)) \<longleftrightarrow>
        nat (pages bk k) - length ids \<le> length (bk_free_blocks bk)"
      unfolding q using False q by linarith
    then show ?thesis using False le n unfolding e by (simp add: allocate_blocks_def Let_def)
  qed
qed

lemma extend_blocks_inv:
  assumes "bk_inv bk" "map_of (num_sequences bk) rid = Some k" "map_of (block_ids bk) rid = Some ids"
    "extend_blocks rid bk = (r, bk')"
  shows "bk_inv bk' \<and> num_sequences bk' = num_sequences bk \<and> bk_num_blocks bk' = bk_num_blocks bk \<and>
    bk_tokens_per_block bk' = bk_tokens_per_block bk \<and>
    (\<forall>t. t \<noteq> rid \<longrightarrow> map_of (block_ids bk') t = map_of (block_ids bk) t) \<and>
    (\<exists>new. map_of (block_ids bk') rid = Some (ids @ new) \<and> int (length new) =
       (if r = Inr () then max 0 (pages bk k - int (length ids)) else 0))"
proof (cases "pages bk k \<le> int (length ids)")
  case True
  then show ?thesis using assms extend_blocks_eq[OF assms(1-3)] by auto
next
  case False
  let ?n = "nat (pages bk k) - length ids"
  show ?thesis
  proof (cases "?n \<le> length (bk_free_blocks bk)")
    case no: False
    then show ?thesis using assms False extend_blocks_eq[OF assms(1-3)] by (auto simp: Let_def)
  next
    case fits: True
    let ?f = "bk_free_blocks bk"
    let ?bk = "bk\<lparr>bk_free_blocks := drop ?n ?f, block_ids := AList.update rid (ids @ take ?n ?f) (block_ids bk)\<rparr>"
    have bk': "bk' = ?bk" "r = Inr ()"
      using assms(4) False fits extend_blocks_eq[OF assms(1-3)] by (auto simp: Let_def)
    have "mset ?f = mset (take ?n ?f) + mset (drop ?n ?f)" by (metis append_take_drop_id mset_append)
    moreover have "owned (AList.update rid (ids @ take ?n ?f) (block_ids bk)) = owned (block_ids bk) + mset (take ?n ?f)"
      using owned_update[OF assms(3), of "ids @ take ?n ?f"] by simp
    moreover have "rid \<in> fst ` set (block_ids bk)" using map_of_SomeD[OF assms(3)] by force
    ultimately have "bk_inv ?bk"
      using assms(1) by (simp add: bk_inv_def distinct_update dom_update insert_absorb ac_simps)
    then show ?thesis using bk' fits False by (simp add: min_def)
  qed
qed

definition tokens_of :: "block_manager \<Rightarrow> int \<Rightarrow> int" where
  "tokens_of bk rid = (case map_of (num_sequences bk) rid of None \<Rightarrow> 0 | Some k \<Rightarrow> k)"

definition ids_of :: "block_manager \<Rightarrow> int \<Rightarrow> nat list" where
  "ids_of bk rid = (case map_of (block_ids bk) rid of None \<Rightarrow> [] | Some ids \<Rightarrow> ids)"

lemma add_tokens_effect:
  assumes "bk_inv bk" "add_tokens rid n bk = (r, bk')"
  shows "bk_inv bk' \<and> bk_num_blocks bk' = bk_num_blocks bk \<and> bk_tokens_per_block bk' = bk_tokens_per_block bk \<and>
    (\<forall>t. t \<noteq> rid \<longrightarrow> map_of (block_ids bk') t = map_of (block_ids bk) t \<and>
       map_of (num_sequences bk') t = map_of (num_sequences bk) t) \<and>
    (\<exists>new. ids_of bk' rid = ids_of bk rid @ new \<and>
       (0 < n \<longrightarrow> int (length new) = (if r = Inr () then max 0 (pages bk (tokens_of bk rid + n) - int (length (ids_of bk rid))) else 0))) \<and>
    tokens_of bk' rid = tokens_of bk rid + max n 0 \<and>
    (0 < n \<longrightarrow> map_of (block_ids bk') rid = Some (ids_of bk' rid) \<and> map_of (num_sequences bk') rid = Some (tokens_of bk' rid)) \<and> (r = Inr () \<or> r = Inl AssertionError) \<and>
    (r = Inl AssertionError \<longleftrightarrow> 0 < n \<and>
       int (length (bk_free_blocks bk)) < pages bk (tokens_of bk rid + n) - int (length (ids_of bk rid)))"
proof (cases "0 < n")
  case False
  then show ?thesis using assms by (auto simp: add_tokens_def)
next
  case True
  obtain k bk1 where b: "record_tokens rid n bk = (Inr (), bk1)" "bk_inv bk1"
    "map_of (num_sequences bk1) rid = Some (k + n)" "k = (case map_of (num_sequences bk) rid of None \<Rightarrow> 0 | Some k \<Rightarrow> k)"
    "map_of (block_ids bk1) rid = Some (case map_of (block_ids bk) rid of None \<Rightarrow> [] | Some ids \<Rightarrow> ids)"
    "\<And>t. t \<noteq> rid \<Longrightarrow> map_of (block_ids bk1) t = map_of (block_ids bk) t"
    "\<And>t. t \<noteq> rid \<Longrightarrow> map_of (num_sequences bk1) t = map_of (num_sequences bk) t"
    "bk_free_blocks bk1 = bk_free_blocks bk" "bk_num_blocks bk1 = bk_num_blocks bk"
    "bk_tokens_per_block bk1 = bk_tokens_per_block bk"
    using record_tokens_inv[OF assms(1), of rid n] by metis
  have k: "k = tokens_of bk rid" using b(4) by (simp add: tokens_of_def)
  have ids: "map_of (block_ids bk1) rid = Some (ids_of bk rid)" using b(5) by (simp add: ids_of_def)
  have pg: "pages bk1 = pages bk" by (rule ext) (simp add: pages_def b(10))
  have e: "extend_blocks rid bk1 = (r, bk')" using assms(2) True b(1) by (simp add: add_tokens_def)
  note x = extend_blocks_inv[OF b(2,3) ids e]
  then obtain new where new: "map_of (block_ids bk') rid = Some (ids_of bk rid @ new)" "int (length new) =
       (if r = Inr () then max 0 (pages bk (tokens_of bk rid + n) - int (length (ids_of bk rid))) else 0)"
    unfolding pg k by auto
  have r: "(r = Inr () \<or> r = Inl AssertionError) \<and> (r = Inl AssertionError \<longleftrightarrow>
      int (length (bk_free_blocks bk)) < pages bk (tokens_of bk rid + n) - int (length (ids_of bk rid)))"
    using e unfolding extend_blocks_eq[OF b(2,3) ids] pg k b(8) by (auto simp: Let_def split: if_splits)
  have "ids_of bk' rid = ids_of bk rid @ new" "tokens_of bk' rid = tokens_of bk rid + n"
    "map_of (block_ids bk') rid = Some (ids_of bk' rid)" "map_of (num_sequences bk') rid = Some (tokens_of bk' rid)"
    using new(1) x b(3) k by (simp_all add: ids_of_def tokens_of_def)
  then show ?thesis using x b(6,7,9,10) new(2) r True by auto
qed

lemma free_resources_effect:
  assumes "bk_inv bk"
  shows "bk_inv (snd (bk_free_resources rid bk))"
    "block_ids (snd (bk_free_resources rid bk)) = AList.delete rid (block_ids bk)"
    "num_sequences (snd (bk_free_resources rid bk)) = AList.delete rid (num_sequences bk)"
    "bk_num_blocks (snd (bk_free_resources rid bk)) = bk_num_blocks bk"
    "bk_tokens_per_block (snd (bk_free_resources rid bk)) = bk_tokens_per_block bk"
    "fst (bk_free_resources rid bk) = (if map_of (block_ids bk) rid = None then Inl KeyError else Inr ())"
proof -
  note keys = bk_inv_keys[OF assms, of rid]
  have "bk_inv (snd (bk_free_resources rid bk)) \<and>
    block_ids (snd (bk_free_resources rid bk)) = AList.delete rid (block_ids bk) \<and>
    num_sequences (snd (bk_free_resources rid bk)) = AList.delete rid (num_sequences bk) \<and>
    bk_num_blocks (snd (bk_free_resources rid bk)) = bk_num_blocks bk \<and>
    bk_tokens_per_block (snd (bk_free_resources rid bk)) = bk_tokens_per_block bk \<and>
    fst (bk_free_resources rid bk) = (if map_of (block_ids bk) rid = None then Inl KeyError else Inr ())"
  proof (cases "map_of (block_ids bk) rid")
    case None
    then have "rid \<notin> fst ` set (block_ids bk)" "rid \<notin> fst ` set (num_sequences bk)"
      using keys by (simp_all add: map_of_eq_None_iff)
    then show ?thesis using None assms by (simp add: bk_free_resources_def delete_id)
  next
    case (Some ids)
    then obtain k where "map_of (num_sequences bk) rid = Some k" using keys by auto
    moreover have "owned (block_ids bk) = mset ids + owned (AList.delete rid (block_ids bk))"
      using assms owned_delete[OF _ Some] by (simp add: bk_inv_def ac_simps)
    ultimately show ?thesis
      using Some assms by (simp add: bk_free_resources_def free_block_list_def Let_def bk_inv_def distinct_delete keys_delete ac_simps)
  qed
  then show "bk_inv (snd (bk_free_resources rid bk))"
    "block_ids (snd (bk_free_resources rid bk)) = AList.delete rid (block_ids bk)"
    "num_sequences (snd (bk_free_resources rid bk)) = AList.delete rid (num_sequences bk)"
    "bk_num_blocks (snd (bk_free_resources rid bk)) = bk_num_blocks bk"
    "bk_tokens_per_block (snd (bk_free_resources rid bk)) = bk_tokens_per_block bk"
    "fst (bk_free_resources rid bk) = (if map_of (block_ids bk) rid = None then Inl KeyError else Inr ())"
    by blast+
qed

interpretation token_pool: growing_pool
  bk_inv UNIV "\<lambda>bk. {..<bk_num_blocks bk}" "\<lambda>bk. set (bk_free_blocks bk)" held_blocks
  "\<lambda>rid bk. snd (bk_free_resources rid bk)" "\<lambda>n rid. add_tokens rid n"
proof (unfold_locales, goal_cases)
  case (1 bk)
  then show ?case using held_blocks_owned[of bk] bk_distinct(4) by (simp add: bk_inv_def)
next
  case (2 bk s)
  then show ?case using held_blocks_owned[of bk] bk_distinct(2)[of bk] by (fastforce simp: bk_inv_def)
next
  case (3 bk s t)
  then show ?case by (simp add: held_blocks_separate)
next
  case (4 bk s)
  then show ?case by (simp add: free_resources_effect)
next
  case (5 bk s)
  then show ?case by (simp add: free_resources_effect)
next
  case (6 bk s t)
  then show ?case by (simp add: held_blocks_def free_resources_effect)
next
  case (7 bk s n r bk')
  then show ?case using add_tokens_effect[of bk s n r bk'] by simp
next
  case (8 bk s n r bk')
  then show ?case using add_tokens_effect[of bk s n r bk'] by simp
next
  case (9 bk s n r bk' t)
  then show ?case using add_tokens_effect[of bk s n r bk'] by (simp add: held_blocks_def)
next
  case (10 bk s n r bk')
  moreover have "held_blocks b s = set (ids_of b s)" for b by (simp add: held_blocks_def ids_of_def split: option.split)
  ultimately show ?case using add_tokens_effect[of bk s n r bk'] by auto
qed

lemma bk_exact_add:
  assumes "bk_inv bk" "bk_exact bk t" "add_tokens rid n bk = (Inr (), bk')"
  shows "bk_exact bk' t"
proof (cases "t = rid")
  case False
  then show ?thesis
    using add_tokens_effect[OF assms(1,3)] assms(2) by (simp add: bk_exact_def pages_def)
next
  case True
  note e = add_tokens_effect[OF assms(1,3)]
  show ?thesis
  proof (cases "0 < n")
    case False
    then show ?thesis using assms by (simp add: add_tokens_def)
  next
    case n: True
    let ?k = "tokens_of bk rid"
    have t0: "0 < bk_tokens_per_block bk" using assms(1) by (simp add: bk_inv_def)
    have ex: "int (length (ids_of bk rid)) = pages bk ?k"
      using assms(2) bk_inv_keys[OF assms(1), of rid] True t0
      by (auto simp: bk_exact_def ids_of_def tokens_of_def pages_def split: option.splits)
    have mono: "pages bk ?k \<le> pages bk (?k + n)"
      unfolding pages_def using n t0 by (intro zdiv_mono1) auto
    have "int (length (ids_of bk' rid)) = pages bk' (tokens_of bk' rid)"
      using e n ex mono by (auto simp: pages_def)
    then show ?thesis using True by (auto simp: bk_exact_def ids_of_def tokens_of_def)
  qed
qed

lemma rewind_eq:
  assumes "bk_inv bk" "map_of (num_sequences bk) rid = Some k" "map_of (block_ids bk) rid = Some ids" "rewind_len \<noteq> 0"
  shows "rewind_cache rid rewind_len bk =
    (let bk1 = bk\<lparr>num_sequences := AList.update rid (k - rewind_len) (num_sequences bk)\<rparr>;
         keep = nat (pages bk (k - rewind_len)) in
     (Inr (), if keep < length ids
        then bk1\<lparr>bk_free_blocks := bk_free_blocks bk @ drop keep ids, block_ids := AList.update rid (take keep ids) (block_ids bk)\<rparr>
        else bk1))"
proof -
  have t: "0 < bk_tokens_per_block bk" using assms(1) by (simp add: bk_inv_def)
  note p = pages_nonneg[OF t, of "k - rewind_len"]
  have "length ids - nat (int (length ids) - pages bk (k - rewind_len)) = nat (pages bk (k - rewind_len))"
    if "pages bk (k - rewind_len) < int (length ids)" using that p by linarith
  then show ?thesis
    using assms t p
    by (auto simp: rewind_cache_def compute_block_count_def Let_def pages_def[symmetric] free_block_list_def)
qed

lemma rewind_effect:
  assumes "bk_inv bk" "bk_exact bk rid" "map_of (num_sequences bk) rid = Some k" "map_of (block_ids bk) rid = Some ids"
    "0 < rewind_len" "rewind_cache rid rewind_len bk = (r, bk')"
  shows "r = Inr () \<and> bk_inv bk' \<and> bk_exact bk' rid \<and> tokens_of bk' rid = k - rewind_len \<and>
    ids_of bk' rid = take (nat (pages bk (k - rewind_len))) ids \<and>
    set (bk_free_blocks bk') = set (bk_free_blocks bk) \<union> set (drop (nat (pages bk (k - rewind_len))) ids) \<and>
    (\<forall>t. t \<noteq> rid \<longrightarrow> map_of (block_ids bk') t = map_of (block_ids bk) t \<and>
       map_of (num_sequences bk') t = map_of (num_sequences bk) t)"
proof -
  let ?keep = "nat (pages bk (k - rewind_len))"
  have t: "0 < bk_tokens_per_block bk" using assms(1) by (simp add: bk_inv_def)
  have in_keys: "rid \<in> fst ` set (block_ids bk)" using map_of_SomeD[OF assms(4)] by force
  have len: "int (length ids) = pages bk k" using assms(2-4) by (simp add: bk_exact_def)
  have mono: "pages bk (k - rewind_len) \<le> pages bk k"
    unfolding pages_def using assms(5) t by (intro zdiv_mono1) auto
  note e = rewind_eq[OF assms(1,3,4), of rewind_len]
  have own: "mset ids + owned (AList.update rid (take ?keep ids) (block_ids bk)) =
      owned (block_ids bk) + mset (take ?keep ids)"
    using owned_update[OF assms(4), of "take ?keep ids"] by (simp add: ac_simps)
  have own': "owned (block_ids bk) = mset (drop ?keep ids) + owned (AList.update rid (take ?keep ids) (block_ids bk))"
  proof -
    have "mset ids = mset (take ?keep ids) + mset (drop ?keep ids)" by (metis append_take_drop_id mset_append)
    with own have "mset (take ?keep ids) + (mset (drop ?keep ids) + owned (AList.update rid (take ?keep ids) (block_ids bk)))
        = mset (take ?keep ids) + owned (block_ids bk)" by (simp only: ac_simps)
    then show ?thesis by simp
  qed
  show ?thesis
  proof (cases "?keep < length ids")
    case True
    have bk': "r = Inr ()" "bk' = bk\<lparr>num_sequences := AList.update rid (k - rewind_len) (num_sequences bk),
        bk_free_blocks := bk_free_blocks bk @ drop ?keep ids, block_ids := AList.update rid (take ?keep ids) (block_ids bk)\<rparr>"
      using e assms(5,6) True by (simp_all add: Let_def)
    have "bk_inv bk'" using assms(1) own' in_keys
      by (simp add: bk' bk_inv_def distinct_update dom_update insert_absorb ac_simps)
    then show ?thesis
      using True pages_nonneg[OF t, of "k - rewind_len"]
      by (simp add: bk' bk_exact_def tokens_of_def ids_of_def pages_def[symmetric]) (simp add: pages_def)
  next
    case False
    have bk': "r = Inr ()" "bk' = bk\<lparr>num_sequences := AList.update rid (k - rewind_len) (num_sequences bk)\<rparr>"
      using e assms(5,6) False by (simp_all add: Let_def)
    have "pages bk (k - rewind_len) = int (length ids)"
      using False mono len pages_nonneg[OF t, of "k - rewind_len"] by linarith
    moreover have "bk_inv bk'" using assms(1) in_keys by (simp add: bk' bk_inv_def dom_update insert_absorb)
    ultimately show ?thesis using False assms(4) by (simp add: bk' bk_exact_def tokens_of_def ids_of_def) (simp add: pages_def)
  qed
qed

definition bk_ok :: "block_manager \<Rightarrow> bool" where
  "bk_ok bk \<longleftrightarrow> bk_inv bk \<and> (\<forall>rid. bk_exact bk rid)"

lemma bk_ok_init: "0 < tpb \<Longrightarrow> bk_ok (block_manager_init n tpb)"
proof -
  have "bk_exact (block_manager_init n tpb) rid" for rid by (simp add: bk_exact_def block_manager_init_def)
  then show "0 < tpb \<Longrightarrow> ?thesis" by (simp add: bk_ok_def bk_inv_init)
qed

text \<open>
  \<open>BlockManager.add_tokens\<close> keeps the number of blocks of every request equal to its token count
  divided by the block size, rounded up. It raises exactly when the free blocks do not suffice; after
  that the blocks are still accounted for, but the request is recorded with tokens it has no blocks
  for. Whatever happened, \<open>free_resources\<close> returns all blocks of the request.
\<close>

theorem add_tokens_exact:
  assumes "bk_ok bk" "0 < n" "add_tokens rid n bk = (r, bk')"
  shows "(r = Inr () \<longrightarrow> bk_ok bk' \<and> int (length (ids_of bk' rid)) = pages bk (tokens_of bk rid + n)) \<and>
     (r \<noteq> Inr () \<longleftrightarrow> r = Inl AssertionError) \<and>
     (r = Inl AssertionError \<longleftrightarrow>
        int (length (bk_free_blocks bk)) < pages bk (tokens_of bk rid + n) - int (length (ids_of bk rid))) \<and>
     (r = Inl AssertionError \<longrightarrow> bk_inv bk' \<and> \<not> bk_exact bk' rid) \<and>
     set (bk_free_blocks (snd (bk_free_resources rid bk'))) = set (bk_free_blocks bk) \<union> held_blocks bk rid"
proof -
  have inv: "bk_inv bk" and ex: "\<And>t. bk_exact bk t" using assms(1) by (auto simp: bk_ok_def)
  note e = add_tokens_effect[OF inv assms(3)]
  have keys: "map_of (block_ids bk') rid = Some (ids_of bk' rid) \<and> map_of (num_sequences bk') rid = Some (tokens_of bk' rid)"
    using e assms(2) by simp
  have ok: "bk_ok bk'" if "r = Inr ()" using bk_exact_add[OF inv ex] assms(3) that e by (auto simp: bk_ok_def)
  moreover have "int (length (ids_of bk' rid)) = pages bk (tokens_of bk rid + n)" if "r = Inr ()"
  proof -
    have "bk_exact bk' rid" using ok[OF that] by (simp add: bk_ok_def)
    then have "int (length (ids_of bk' rid)) = pages bk' (tokens_of bk' rid)" using keys by (simp add: bk_exact_def)
    moreover have "tokens_of bk' rid = tokens_of bk rid + n" "bk_tokens_per_block bk' = bk_tokens_per_block bk"
      using e assms(2) by simp_all
    ultimately show ?thesis by (simp add: pages_def)
  qed
  moreover have "\<not> bk_exact bk' rid" if r: "r = Inl AssertionError"
    using keys e assms(2) r by (auto simp: bk_exact_def pages_def)
  moreover have "set (bk_free_blocks (snd (bk_free_resources rid bk'))) = set (bk_free_blocks bk) \<union> held_blocks bk rid"
    using token_pool.acquire_release[OF inv _ assms(3)] by simp
  ultimately show ?thesis using e assms(2) by auto
qed

text \<open>
  \<open>rewind_cache\<close> gives back exactly the last blocks that the shorter sequence does not need and
  keeps the first ones in order; other requests are untouched and the bookkeeping stays exact.
\<close>

theorem rewind_returns_last_blocks:
  assumes "bk_ok bk" "map_of (block_ids bk) rid = Some ids" "0 < rewind_len"
    "rewind_cache rid rewind_len bk = (r, bk')"
  shows "r = Inr () \<and> bk_ok bk' \<and> tokens_of bk' rid = tokens_of bk rid - rewind_len \<and>
     ids_of bk' rid = take (nat (pages bk (tokens_of bk rid - rewind_len))) ids \<and>
     set (bk_free_blocks bk') =
       set (bk_free_blocks bk) \<union> set (drop (nat (pages bk (tokens_of bk rid - rewind_len))) ids)"
proof -
  have inv: "bk_inv bk" and ex: "\<And>t. bk_exact bk t" using assms(1) by (auto simp: bk_ok_def)
  obtain k where k: "map_of (num_sequences bk) rid = Some k"
    using bk_inv_keys[OF inv, of rid] assms(2) by auto
  note e = rewind_effect[OF inv ex k assms(2-4)]
  have "bk_tokens_per_block bk' = bk_tokens_per_block bk"
    using rewind_eq[OF inv k assms(2), of rewind_len] assms(3,4) by (auto simp: Let_def)
  then have "bk_exact bk' t" for t
    using e ex[of t] by (cases "t = rid") (auto simp: bk_exact_def pages_def)
  then show ?thesis using e k by (simp add: bk_ok_def tokens_of_def)
qed

section \<open>Concrete runs\<close>

lemma pick_ok_Min: "pick_ok Min"
  by (simp add: pick_ok_def)

definition example_slots :: slot_manager where
  "example_slots = snd (add_slot Min 7 (slot_manager_init 2))"

lemma example_slots_inv: "slot_inv example_slots"
  unfolding example_slots_def using add_slot_inv[OF pick_ok_Min slot_inv_init] .

theorem add_slot_fresh_witness:
  "fst (add_slot Min 9 example_slots) = Inr 1 \<and> slot_inv (snd (add_slot Min 9 example_slots)) \<and>
   get_slot (snd (add_slot Min 9 example_slots)) 7 = Some 0"
proof -
  have v: "fst (add_slot Min 9 example_slots) = Inr 1" "get_slot example_slots 7 = Some 0" by code_simp+
  have "add_slot Min 9 example_slots = (Inr 1, snd (add_slot Min 9 example_slots))" using v(1) by (metis prod.collapse)
  from add_slot_fresh[OF pick_ok_Min example_slots_inv this] v show ?thesis by simp
qed

theorem slot_shutdown_returns_all_witness:
  "fst (slot_shutdown example_slots) = Inr () \<and> free_slots (snd (slot_shutdown example_slots)) = {0, 1}"
proof -
  have "{..<max_num_requests example_slots} = {0, 1}" by code_simp
  then show ?thesis using slot_shutdown_returns_all[OF example_slots_inv] by simp
qed

definition example_tokens :: block_manager where
  "example_tokens = snd (add_tokens 3 10 (block_manager_init 4 4))"

lemma example_tokens_ok: "bk_ok example_tokens"
proof -
  have "add_tokens 3 10 (block_manager_init 4 4) = (Inr (), example_tokens)"
    unfolding example_tokens_def by (rule prod_eqI) (simp_all, code_simp)
  with bk_exact_add[of "block_manager_init 4 4"] add_tokens_effect[of "block_manager_init 4 4"] bk_ok_init[of 4 4]
  show ?thesis by (auto simp: bk_ok_def)
qed

theorem add_tokens_exact_witness:
  "bk_ok (snd (add_tokens 5 4 example_tokens)) \<and> length (ids_of (snd (add_tokens 5 4 example_tokens)) 5) = 1 \<and>
   fst (add_tokens 5 5 example_tokens) = Inl AssertionError"
proof -
  have v: "fst (add_tokens 5 4 example_tokens) = Inr ()" "pages example_tokens (tokens_of example_tokens 5 + 4) = 1"
    "pages example_tokens (tokens_of example_tokens 5 + 5) = 2" "length (ids_of example_tokens 5) = 0"
    "length (bk_free_blocks example_tokens) = 1" by code_simp+
  have a: "add_tokens 5 4 example_tokens = (Inr (), snd (add_tokens 5 4 example_tokens))"
    using v(1) by (metis prod.collapse)
  have b: "add_tokens 5 5 example_tokens = (fst (add_tokens 5 5 example_tokens), snd (add_tokens 5 5 example_tokens))" by simp
  show ?thesis
    using add_tokens_exact[OF example_tokens_ok _ a] add_tokens_exact[OF example_tokens_ok _ b] v by auto
qed

theorem rewind_returns_last_blocks_witness:
  "fst (rewind_cache 3 3 example_tokens) = Inr () \<and> ids_of (snd (rewind_cache 3 3 example_tokens)) 3 = [0, 1] \<and>
   set (bk_free_blocks (snd (rewind_cache 3 3 example_tokens))) = {2, 3}"
proof -
  have v: "map_of (block_ids example_tokens) 3 = Some [0, 1, 2]" "bk_free_blocks example_tokens = [3]"
    "pages example_tokens (tokens_of example_tokens 3 - 3) = 2" by code_simp+
  have "rewind_cache 3 3 example_tokens = (fst (rewind_cache 3 3 example_tokens), snd (rewind_cache 3 3 example_tokens))" by simp
  from rewind_returns_last_blocks[OF example_tokens_ok v(1) _ this] v show ?thesis by (auto simp: numeral_2_eq_2)
qed

end
