(* ===== verification/Llm_Request.thy ===== *)
theory Llm_Request
  imports Py_Prelude
begin

text \<open>
  The part of a request that the scheduling code reads and writes: \<open>LlmRequestState\<close> with the numeric
  values of \<open>cpp/include/tensorrt_llm/batch_manager/llmRequest.h\<close> and the attributes of \<open>LlmRequest\<close>
  (\<open>tensorrt_llm/_torch/pyexecutor/llm_request.py\<close>) used by the schedulers, the resource managers and
  the sampler. Requests are values here; where code shares and mutates a request object, the operation
  returns the updated request.
\<close>

datatype LlmRequestState =
    UNKNOWN
  | ENCODER_INIT
  | DISAGG_GENERATION_INIT
  | DISAGG_GENERATION_TRANS_IN_PROGRESS
  | CONTEXT_INIT
  | DISAGG_CONTEXT_INIT_AND_TRANS
  | DISAGG_GENERATION_TRANS_COMPLETE
  | GENERATION_IN_PROGRESS
  | GENERATION_TO_COMPLETE
  | GENERATION_COMPLETE
  | DISAGG_CONTEXT_TRANS_IN_PROGRESS
  | DISAGG_CONTEXT_COMPLETE
  | DISAGG_TRANS_ERROR

primrec state_value :: "LlmRequestState \<Rightarrow> int" where
  "state_value UNKNOWN = 0"
| "state_value ENCODER_INIT = 1"
| "state_value DISAGG_GENERATION_INIT = 8"
| "state_value DISAGG_GENERATION_TRANS_IN_PROGRESS = 9"
| "state_value CONTEXT_INIT = 10"
| "state_value DISAGG_CONTEXT_INIT_AND_TRANS = 11"
| "state_value DISAGG_GENERATION_TRANS_COMPLETE = 12"
| "state_value GENERATION_IN_PROGRESS = 13"
| "state_value GENERATION_TO_COMPLETE = 14"
| "state_value GENERATION_COMPLETE = 20"
| "state_value DISAGG_CONTEXT_TRANS_IN_PROGRESS = 21"
| "state_value DISAGG_CONTEXT_COMPLETE = 22"
| "state_value DISAGG_TRANS_ERROR = - 1"

lemma state_value_inject: "state_value s = state_value t \<Longrightarrow> s = t"
  by (cases s; cases t; simp)

text \<open>
  The states in the order of their values, which is the chronological order that the header file
  promises.
\<close>

instantiation LlmRequestState :: linorder
begin

definition less_eq_LlmRequestState :: "LlmRequestState \<Rightarrow> LlmRequestState \<Rightarrow> bool" where
  "s \<le> t \<longleftrightarrow> state_value s \<le> state_value t"

definition less_LlmRequestState :: "LlmRequestState \<Rightarrow> LlmRequestState \<Rightarrow> bool" where
  "(s::LlmRequestState) < t \<longleftrightarrow> state_value s < state_value t"

instance
  by standard (auto simp: less_eq_LlmRequestState_def less_LlmRequestState_def intro: state_value_inject)

end

record llm_request =
  request_id :: int
  state :: LlmRequestState
  seq_slot :: "nat option"
  py_seq_slot :: "nat option"
  return_perf_metrics :: bool
  first_scheduled :: bool
  orig_prompt_len :: int
  max_new_tokens :: int
  draft_tokens :: "int list"
  py_draft_tokens :: "int list option"
  is_attention_dp_dummy :: bool
  is_cuda_graph_dummy :: bool
  is_dummy_request :: bool
  cached_tokens_val :: int
  cached_tokens_set :: bool

definition is_disagg_generation_init_state :: "llm_request \<Rightarrow> bool" where
  "is_disagg_generation_init_state r \<longleftrightarrow> state r = DISAGG_GENERATION_INIT"

definition is_disagg_generation_transmission_complete :: "llm_request \<Rightarrow> bool" where
  "is_disagg_generation_transmission_complete r \<longleftrightarrow> state r = DISAGG_GENERATION_TRANS_COMPLETE"

definition is_dummy :: "llm_request \<Rightarrow> bool" where
  "is_dummy r \<longleftrightarrow> is_attention_dp_dummy r \<or> is_cuda_graph_dummy r \<or> is_dummy_request r"

definition set_cached_tokens :: "int \<Rightarrow> llm_request \<Rightarrow> llm_request" where
  \<comment> \<open>the setter of \<open>cached_tokens\<close>: only the first value counts\<close>
  "set_cached_tokens v r =
     (if \<not> cached_tokens_set r then r\<lparr>cached_tokens_val := v, cached_tokens_set := True\<rparr> else r)"

definition get_draft_token_length :: "'a llm_request_scheme \<Rightarrow> nat" where
  "get_draft_token_length r = (case py_draft_tokens r of Some ts \<Rightarrow> length ts | None \<Rightarrow> 0)"

text \<open>The request that the constructor builds when only the number and the lengths matter.\<close>

definition new_request :: "int \<Rightarrow> LlmRequestState \<Rightarrow> int \<Rightarrow> int \<Rightarrow> llm_request" where
  "new_request rid st prompt new_tokens =
     \<lparr>request_id = rid, state = st, seq_slot = None, py_seq_slot = None, return_perf_metrics = False,
      first_scheduled = False, orig_prompt_len = prompt, max_new_tokens = new_tokens, draft_tokens = [],
      py_draft_tokens = Some [], is_attention_dp_dummy = False, is_cuda_graph_dummy = False,
      is_dummy_request = False, cached_tokens_val = 0, cached_tokens_set = False\<rparr>"

lemma set_cached_tokens_idem: "set_cached_tokens v (set_cached_tokens w r) = set_cached_tokens w r"
  by (simp add: set_cached_tokens_def)

end
