(* ===== verification/Resource_Pipeline.thy ===== *)
theory Resource_Pipeline
  imports Resource_Slots Llm_Request
begin

text \<open>
  \<open>ResourceManager\<close> of \<open>_torch/pyexecutor/resource_manager.py\<close>, which runs the registered managers in
  order (and in reverse order to free), and \<open>SeqSlotManager\<close> of \<open>seq_slot_manager.py\<close>, which gives every
  scheduled request a sequence slot.

  A registered manager is a record of the operations it has; \<open>hasattr\<close> is the option. What an operation
  does to the rest of the system is a function on an abstract state \<open>'s\<close>.
\<close>

section \<open>The pipeline of resource managers\<close>

datatype ResourceManagerType =
    KV_CACHE_MANAGER
  | DRAFT_KV_CACHE_MANAGER
  | PEFT_CACHE_MANAGER
  | SEQ_SLOT_MANAGER
  | SPEC_RESOURCE_MANAGER

type_synonym 's action = "'s \<Rightarrow> unit result \<times> 's"

record 's resource_ops =
  op_prepare :: "'s action option"
  op_update :: "'s action option"
  op_free :: "'s action option"

type_synonym 's pipeline = "(ResourceManagerType, 's resource_ops) dict"

fun run_actions :: "'s action option list \<Rightarrow> 's action" where
  "run_actions [] s = (Inr (), s)"
| "run_actions (None # fs) s = run_actions fs s"
| "run_actions (Some f # fs) s =
     (case f s of (Inl e, s') \<Rightarrow> (Inl e, s') | (Inr _, s') \<Rightarrow> run_actions fs s')"

definition get_resource_manager :: "'s pipeline \<Rightarrow> ResourceManagerType \<Rightarrow> 's resource_ops option" where
  "get_resource_manager rm t = map_of rm t"

definition call_resource_manager :: "'s pipeline \<Rightarrow> ResourceManagerType \<Rightarrow> 's resource_ops result" where
  \<comment> \<open>\<open>__call__\<close>\<close>
  "call_resource_manager rm t = dict_get rm t"

definition register_resource_manager ::
    "ResourceManagerType \<Rightarrow> 's resource_ops \<Rightarrow> 's pipeline \<Rightarrow> 's pipeline" where
  "register_resource_manager t m rm = AList.update t m rm"

definition prepare_resources :: "'s pipeline \<Rightarrow> 's action" where
  "prepare_resources rm = run_actions (map (op_prepare \<circ> snd) rm)"

definition update_resources :: "'s pipeline \<Rightarrow> 's action" where
  "update_resources rm = run_actions (map (op_update \<circ> snd) rm)"

definition free_resources :: "'s pipeline \<Rightarrow> 's action" where
  "free_resources rm = run_actions (map (op_free \<circ> snd) (rev rm))"

definition move_to_end :: "ResourceManagerType \<Rightarrow> 's pipeline \<Rightarrow> 's pipeline" where
  "move_to_end t rm = (case map_of rm t of None \<Rightarrow> rm | Some m \<Rightarrow> AList.delete t rm @ [(t, m)])"

definition reorder_pipeline :: "ResourceManagerType list \<Rightarrow> 's pipeline \<Rightarrow> unit result \<times> 's pipeline" where
  "reorder_pipeline ts rm =
     (if set ts = set (keys_of rm) then (Inr (), fold move_to_end ts rm) else (Inl AssertionError, rm))"

section \<open>Sequence slots\<close>

definition seq_max_resource_count :: "slot_manager \<Rightarrow> nat" where
  "seq_max_resource_count sm = max_num_requests sm"

definition seq_needed_resource :: "llm_request \<Rightarrow> int" where
  "seq_needed_resource r = 1"

definition assign_slot :: "nat \<Rightarrow> llm_request \<Rightarrow> llm_request" where
  "assign_slot slot r =
     (let r1 = r\<lparr>seq_slot := Some slot, py_seq_slot := Some slot\<rparr> in
      if return_perf_metrics r1 then r1\<lparr>first_scheduled := True\<rparr> else r1)"

text \<open>
  The loop of \<open>prepare_resources\<close>. The branch for a request in state \<open>DISAGG_GENERATION_INIT\<close> calls
  \<open>logger.info\<close>, but \<open>seq_slot_manager.py\<close> does not import \<open>logger\<close>: the call raises \<open>NameError\<close>. The
  requests are returned as far as they were processed.
\<close>

fun seq_prepare :: "pick_fn \<Rightarrow> llm_request list \<Rightarrow> slot_manager
    \<Rightarrow> unit result \<times> llm_request list \<times> slot_manager" where
  "seq_prepare pick [] sm = (Inr (), [], sm)"
| "seq_prepare pick (r # rs) sm =
     (if is_disagg_generation_init_state r then (Inl NameError, r # rs, sm)
      else if seq_slot r = None \<or> is_disagg_generation_transmission_complete r then
        (case add_slot pick (request_id r) sm of
           (Inl e, sm1) \<Rightarrow> (Inl e, r # rs, sm1)
         | (Inr slot, sm1) \<Rightarrow>
             (case seq_prepare pick rs sm1 of
                (res, rs', sm2) \<Rightarrow> (res, assign_slot slot r # rs', sm2)))
      else
        (case seq_prepare pick rs sm of (res, rs', sm2) \<Rightarrow> (res, r # rs', sm2)))"

definition seq_free :: "llm_request \<Rightarrow> slot_manager \<Rightarrow> slot_manager" where
  "seq_free r sm = remove_slot (request_id r) sm"

section \<open>Order of the pipeline\<close>

lemma keys_move_to_end:
  "distinct (keys_of rm) \<Longrightarrow> t \<in> set (keys_of rm) \<Longrightarrow>
     keys_of (move_to_end t rm) = removeAll t (keys_of rm) @ [t]"
  by (auto simp: move_to_end_def delete_keys split: option.split dest: map_of_eq_None_iff[THEN iffD1])

lemma map_of_move_to_end: "map_of (move_to_end t rm) = map_of rm"
  by (auto simp: move_to_end_def map_add_def fun_eq_iff split: option.split)

lemma keys_reorder:
  assumes "distinct (keys_of rm)" "set ts \<subseteq> set (keys_of rm)" "distinct ts"
  shows "keys_of (fold move_to_end ts rm) = filter (\<lambda>k. k \<notin> set ts) (keys_of rm) @ ts"
  using assms
proof (induction ts arbitrary: rm)
  case (Cons t ts)
  let ?rm = "move_to_end t rm"
  have k: "keys_of ?rm = removeAll t (keys_of rm) @ [t]" using Cons.prems by (intro keys_move_to_end) auto
  then have "distinct (keys_of ?rm)" "set (keys_of ?rm) = set (keys_of rm)"
    using Cons.prems by (auto simp: distinct_removeAll)
  then have "keys_of (fold move_to_end ts ?rm) = filter (\<lambda>k. k \<notin> set ts) (keys_of ?rm) @ ts"
    using Cons.prems by (intro Cons.IH) auto
  moreover have "filter (\<lambda>k. k \<notin> set ts) (removeAll t (keys_of rm)) = filter (\<lambda>k. k \<notin> set (t # ts)) (keys_of rm)"
    by (simp add: removeAll_filter_not_eq conj_commute) (metis (mono_tags, lifting))
  ultimately show ?case using Cons.prems(3) by (simp add: k)
qed simp

lemma dict_eq_map: "distinct (keys_of d) \<Longrightarrow> d = map (\<lambda>k. (k, the (map_of d k))) (keys_of d)"
proof (rule nth_equalityI)
  fix i assume d: "distinct (keys_of d)" "i < length d"
  then have "map_of d (fst (d ! i)) = Some (snd (d ! i))" by (simp add: map_of_eq_Some_iff)
  then show "d ! i = map (\<lambda>k. (k, the (map_of d k))) (keys_of d) ! i" using d(2) by simp
qed simp

text \<open>
  \<open>reorder_pipeline\<close> with an order that lists every registered manager once puts the managers
  exactly into that order without changing any of them; afterwards resources are prepared in that
  order and freed in the reverse order.
\<close>

theorem reorder_pipeline_order:
  assumes "distinct (keys_of rm)" "distinct ts" "set ts = set (keys_of rm)"
  shows "\<exists>rm'. reorder_pipeline ts rm = (Inr (), rm') \<and> rm' = map (\<lambda>t. (t, the (map_of rm t))) ts \<and>
     prepare_resources rm' = run_actions (map (\<lambda>t. op_prepare (the (map_of rm t))) ts) \<and>
     free_resources rm' = run_actions (map (\<lambda>t. op_free (the (map_of rm t))) (rev ts))"
proof -
  let ?rm = "fold move_to_end ts rm"
  have k: "keys_of ?rm = ts" using keys_reorder[OF assms(1) _ assms(2)] assms(3) by (simp add: filter_empty_conv)
  have "map_of (fold move_to_end ts rm) = map_of rm" for ts
    by (induction ts arbitrary: rm) (simp_all add: map_of_move_to_end)
  then have "?rm = map (\<lambda>t. (t, the (map_of rm t))) ts" using dict_eq_map[of ?rm] k assms(2) by simp
  then show ?thesis
    using assms(3)
    by (auto simp: reorder_pipeline_def prepare_resources_def free_resources_def rev_map[symmetric] o_def)
qed

section \<open>Slots of a scheduled batch\<close>

definition needs_slot :: "llm_request \<Rightarrow> bool" where
  "needs_slot r \<longleftrightarrow> seq_slot r = None \<or> is_disagg_generation_transmission_complete r"

lemma add_slot_new:
  assumes "pick_ok pick" "slot_inv sm" "get_slot sm rid = None"
  shows "if free_slots sm = {} then add_slot pick rid sm = (Inl ValueError, sm)
    else \<exists>slot sm'. add_slot pick rid sm = (Inr slot, sm') \<and> slot_inv sm' \<and> slot \<in> free_slots sm \<and>
      free_slots sm' = free_slots sm - {slot} \<and> get_slot sm' = (get_slot sm)(rid := Some slot)"
proof -
  have n: "map_of (slot_mapping sm) rid = None" using assms(3) by (simp add: get_slot_def)
  show ?thesis
  proof (cases "free_slots sm = {}")
    case False
    let ?p = "pick (free_slots sm)"
    let ?sm = "sm\<lparr>free_slots := free_slots sm - {?p}, slot_mapping := AList.update rid ?p (slot_mapping sm)\<rparr>"
    have e: "add_slot pick rid sm = (Inr ?p, ?sm)" using n False by (simp add: add_slot_def Let_def)
    then have "slot_inv ?sm" using add_slot_inv[OF assms(1,2), of rid] by simp
    moreover have "get_slot ?sm = (get_slot sm)(rid := Some ?p)" by (simp add: get_slot_def fun_eq_iff)
    ultimately show ?thesis using False e pick_free[OF assms(1,2)] by auto
  qed (simp add: add_slot_def n)
qed

definition slot_given :: "slot_manager \<Rightarrow> llm_request \<Rightarrow> llm_request \<Rightarrow> bool" where
  "slot_given sm r r' \<longleftrightarrow>
     (if needs_slot r then \<exists>slot. r' = assign_slot slot r \<and> get_slot sm (request_id r) = Some slot else r' = r)"

lemma finite_free_slots: "slot_inv sm \<Longrightarrow> finite (free_slots sm)"
  by (rule finite_subset[of _ "{..<max_num_requests sm}"]) (auto simp: slot_inv_def)

lemma seq_prepare_effect:
  assumes "pick_ok pick" "slot_inv sm" "distinct (map request_id rs)"
    "\<forall>r \<in> set rs. \<not> is_disagg_generation_init_state r"
    "\<forall>r \<in> set rs. needs_slot r \<longrightarrow> get_slot sm (request_id r) = None"
    "seq_prepare pick rs sm = (res, rs', sm')"
  shows "slot_inv sm' \<and> (res = Inr () \<longleftrightarrow> length (filter needs_slot rs) \<le> card (free_slots sm)) \<and>
    (res = Inr () \<or> res = Inl ValueError) \<and>
    (\<forall>t. t \<notin> request_id ` set rs \<longrightarrow> get_slot sm' t = get_slot sm t) \<and>
    (\<forall>t slot. get_slot sm t = Some slot \<longrightarrow> get_slot sm' t = Some slot) \<and>
    (res = Inr () \<longrightarrow> list_all2 (slot_given sm') rs rs')"
  using assms
proof (induction rs arbitrary: sm rs' sm' res)
  case (Cons r rs)
  have hd: "\<not> is_disagg_generation_init_state r" and fresh: "request_id r \<notin> request_id ` set rs"
    using Cons.prems by auto
  have tl: "distinct (map request_id rs)" "\<forall>r \<in> set rs. \<not> is_disagg_generation_init_state r"
    using Cons.prems by auto
  show ?case
  proof (cases "needs_slot r")
    case False
    then obtain rs1 where e: "seq_prepare pick rs sm = (res, rs1, sm')" "rs' = r # rs1"
      using Cons.prems(6) hd by (auto simp: needs_slot_def split: prod.splits)
    have "\<forall>r \<in> set rs. needs_slot r \<longrightarrow> get_slot sm (request_id r) = None" using Cons.prems(5) by simp
    from Cons.IH[OF Cons.prems(1,2) tl this e(1)] False e(2) show ?thesis
      by (auto simp: slot_given_def)
  next
    case True
    note fin = finite_free_slots[OF Cons.prems(2)]
    have "get_slot sm (request_id r) = None" using Cons.prems(5) True by simp
    note a = add_slot_new[OF Cons.prems(1,2) this]
    show ?thesis
    proof (cases "free_slots sm = {}")
      case empty: True
      then show ?thesis using a Cons.prems(2,6) hd True by (auto simp: needs_slot_def)
    next
      case False
      then obtain slot sm1 where s: "add_slot pick (request_id r) sm = (Inr slot, sm1)" "slot_inv sm1"
        "slot \<in> free_slots sm" "free_slots sm1 = free_slots sm - {slot}"
        "get_slot sm1 = (get_slot sm)(request_id r := Some slot)" using a by auto
      obtain rs1 where e: "seq_prepare pick rs sm1 = (res, rs1, sm')" "rs' = assign_slot slot r # rs1"
        using Cons.prems(6) hd True s(1) by (auto simp: needs_slot_def split: prod.splits)
      have "\<forall>r \<in> set rs. needs_slot r \<longrightarrow> get_slot sm1 (request_id r) = None"
        using Cons.prems(5) s(5) fresh by (auto simp: image_iff)
      note ih = Cons.IH[OF Cons.prems(1) s(2) tl this e(1)]
      have keep: "get_slot sm' t = Some x" if "get_slot sm t = Some x" for t x
      proof -
        have "t \<noteq> request_id r" using that \<open>get_slot sm (request_id r) = None\<close> by auto
        then have "get_slot sm1 t = Some x" using that s(5) by simp
        then show ?thesis using ih by blast
      qed
      have "get_slot sm' (request_id r) = Some slot" using ih s(5) by simp
      then have "slot_given sm' r (assign_slot slot r)" using True by (auto simp: slot_given_def)
      moreover have "card (free_slots sm) = Suc (card (free_slots sm1))"
        using s(3,4) fin by (metis card.remove)
      ultimately show ?thesis
        using ih True e(2) s(5) keep by simp blast
    qed
  qed
qed simp

text \<open>
  \<open>SeqSlotManager.prepare_resources\<close>. For a batch of distinct requests of which none waits in
  \<open>DISAGG_GENERATION_INIT\<close>, it succeeds exactly when the requests without a slot are at most as many
  as the free slots. On success each of them carries the slot that the manager records for it, no two
  requests share a slot, and requests that had a slot keep it unchanged.
\<close>

theorem seq_prepare_assigns:
  assumes "pick_ok pick" "slot_inv sm" "distinct (map request_id rs)"
    "\<forall>r \<in> set rs. \<not> is_disagg_generation_init_state r"
    "\<forall>r \<in> set rs. needs_slot r \<longrightarrow> get_slot sm (request_id r) = None"
    "seq_prepare pick rs sm = (res, rs', sm')"
  shows "(res = Inr () \<longleftrightarrow> length (filter needs_slot rs) \<le> card (free_slots sm)) \<and>
    (res = Inr () \<longrightarrow> list_all2 (slot_given sm') rs rs') \<and>
    (\<forall>s t slot. get_slot sm' s = Some slot \<longrightarrow> get_slot sm' t = Some slot \<longrightarrow> s = t) \<and>
    (\<forall>t slot. get_slot sm t = Some slot \<longrightarrow> get_slot sm' t = Some slot)"
proof -
  note e = seq_prepare_effect[OF assms]
  have "s = t" if "get_slot sm' s = Some slot" "get_slot sm' t = Some slot" for s t slot
    using slot_pool.separate[of sm' s t] that e by (auto simp: held_slots_def)
  then show ?thesis using e by blast
qed

text \<open>
  A request in state \<open>DISAGG_GENERATION_INIT\<close> at the head of the batch makes
  \<open>prepare_resources\<close> raise \<open>NameError\<close> instead of being skipped: the branch logs through a name
  that the module does not import.
\<close>

theorem seq_prepare_init_raises:
  assumes "is_disagg_generation_init_state r"
  shows "fst (seq_prepare pick (r # rs) sm) = Inl NameError"
  using assms by simp

section \<open>Concrete batches\<close>

definition example_rm :: "nat pipeline" where
  "example_rm = [(KV_CACHE_MANAGER, \<lparr>op_prepare = None, op_update = None, op_free = None\<rparr>),
     (SEQ_SLOT_MANAGER, \<lparr>op_prepare = None, op_update = None, op_free = None\<rparr>)]"

theorem reorder_pipeline_order_witness:
  "\<exists>rm'. reorder_pipeline [SEQ_SLOT_MANAGER, KV_CACHE_MANAGER] example_rm = (Inr (), rm') \<and>
     keys_of rm' = [SEQ_SLOT_MANAGER, KV_CACHE_MANAGER]"
proof -
  have k: "keys_of example_rm = [KV_CACHE_MANAGER, SEQ_SLOT_MANAGER]" by (simp add: example_rm_def)
  obtain rm' where "reorder_pipeline [SEQ_SLOT_MANAGER, KV_CACHE_MANAGER] example_rm = (Inr (), rm')"
    "rm' = map (\<lambda>t. (t, the (map_of example_rm t))) [SEQ_SLOT_MANAGER, KV_CACHE_MANAGER]"
    using reorder_pipeline_order[of example_rm "[SEQ_SLOT_MANAGER, KV_CACHE_MANAGER]"] k by auto
  then show ?thesis by simp
qed

definition example_batch :: "llm_request list" where
  "example_batch = [new_request 4 CONTEXT_INIT 8 8, new_request 5 GENERATION_IN_PROGRESS 8 8]"

theorem seq_prepare_assigns_witness:
  "fst (seq_prepare Min example_batch (slot_manager_init 2)) = Inr () \<and>
   fst (seq_prepare Min example_batch (slot_manager_init 1)) \<noteq> Inr () \<and>
   list_all2 (slot_given (snd (snd (seq_prepare Min example_batch (slot_manager_init 2)))))
     example_batch (fst (snd (seq_prepare Min example_batch (slot_manager_init 2))))"
proof -
  have b: "distinct (map request_id example_batch)" "length (filter needs_slot example_batch) = 2"
    "\<forall>r \<in> set example_batch. \<not> is_disagg_generation_init_state r" by code_simp+
  have g: "\<forall>r \<in> set example_batch. needs_slot r \<longrightarrow> get_slot (slot_manager_init n) (request_id r) = None"
    "card (free_slots (slot_manager_init n)) = n" for n
    by (simp_all add: get_slot_def slot_manager_init_def)
  have p: "seq_prepare Min example_batch sm = (fst (seq_prepare Min example_batch sm),
      fst (snd (seq_prepare Min example_batch sm)), snd (snd (seq_prepare Min example_batch sm)))" for sm by simp
  show ?thesis
    using seq_prepare_assigns[OF pick_ok_Min slot_inv_init b(1,3) g(1) p, of 2]
      seq_prepare_assigns[OF pick_ok_Min slot_inv_init b(1,3) g(1) p, of 1] b(2) g(2)
    by (simp only: b(2) g(2)) simp
qed

theorem seq_prepare_init_raises_witness:
  "fst (seq_prepare Min [new_request 4 DISAGG_GENERATION_INIT 8 8] (slot_manager_init 2)) = Inl NameError"
  by (rule seq_prepare_init_raises) (simp add: is_disagg_generation_init_state_def new_request_def)

end
