(* ===== verification/Capacity_Scheduler.thy ===== *)
theory Capacity_Scheduler
  imports Resource_Pipeline
begin

text \<open>
  The Python schedulers of \<open>_torch/pyexecutor/scheduler.py\<close>: \<open>ScheduledRequests\<close>,
  \<open>SerializableSchedulerOutput\<close>, \<open>GuaranteedNoEvictScheduler\<close> and \<open>SimpleScheduler\<close>, with the block
  estimate \<open>KVCacheManager.get_needed_resource_to_completion\<close> of \<open>resource_manager.py\<close>.

  A capacity scheduler is a function from the active requests to the tuple of request lists that it
  returns; the C++ schedulers behind \<open>BindCapacityScheduler\<close> and \<open>BindMicroBatchScheduler\<close> are
  arguments. What a scheduler asks its cache manager is the locale \<open>capacity_provider\<close>.
\<close>

section \<open>Scheduled batches\<close>

record scheduled_requests =
  context_requests :: "llm_request list"
  generation_requests :: "llm_request list"
  paused_requests :: "llm_request list"

definition is_generation_only :: "scheduled_requests \<Rightarrow> bool" where
  "is_generation_only b \<longleftrightarrow> context_requests b = [] \<and>
     list_all (\<lambda>r. length (draft_tokens r) = 0) (generation_requests b)"

definition can_run_cuda_graph :: "scheduled_requests \<Rightarrow> bool" where
  "can_run_cuda_graph b \<longleftrightarrow> context_requests b = []"

definition batch_size :: "scheduled_requests \<Rightarrow> nat" where
  "batch_size b = length (context_requests b) + length (generation_requests b)"

definition all_requests :: "scheduled_requests \<Rightarrow> llm_request list" where
  "all_requests b = context_requests b @ generation_requests b"

record serializable_output =
  so_context :: "int list"
  so_generation :: "int list"
  so_paused :: "int list"
  so_fitting_disagg :: "int list"
  so_num_fitting :: int

definition from_scheduler_result ::
    "scheduled_requests \<Rightarrow> llm_request list \<Rightarrow> int \<Rightarrow> serializable_output" where
  "from_scheduler_result b fitting n =
     \<lparr>so_context = map request_id (context_requests b),
      so_generation = map request_id (generation_requests b),
      so_paused = map request_id (paused_requests b),
      so_fitting_disagg = map request_id fitting, so_num_fitting = n\<rparr>"

definition id_to_request :: "llm_request list \<Rightarrow> (int, llm_request) dict" where
  "id_to_request rs = fold (\<lambda>r d. AList.update (request_id r) r d) rs []"

definition to_scheduler_result :: "serializable_output \<Rightarrow> llm_request list
    \<Rightarrow> (scheduled_requests \<times> llm_request list \<times> int) result" where
  "to_scheduler_result so active =
     (let d = id_to_request active in
      res_bind (res_map (dict_get d) (so_context so)) (\<lambda>ctx.
      res_bind (res_map (dict_get d) (so_generation so)) (\<lambda>gen.
      res_bind (res_map (dict_get d) (so_paused so)) (\<lambda>paused.
      res_bind (res_map (dict_get d) (so_fitting_disagg so)) (\<lambda>fitting.
      Inr (\<lparr>context_requests = ctx, generation_requests = gen, paused_requests = paused\<rparr>,
           fitting, so_num_fitting so))))))"

section \<open>Block estimates\<close>

text \<open>
  \<open>math.ceil(a / b)\<close> is the exact quotient rounded up; the floating-point division agrees with it for
  the token counts that occur (below \<open>2 ^ 53\<close>).
\<close>

definition kv_needed :: "int \<Rightarrow> llm_request \<Rightarrow> int result" where
  "kv_needed tokens_per_block r =
     (let context_token_count = orig_prompt_len r in
      res_bind (py_div context_token_count tokens_per_block) (\<lambda>num_context_blocks.
      let remaining_tokens = context_token_count + max_new_tokens r - num_context_blocks * tokens_per_block in
      Inr (num_context_blocks + - ((- remaining_tokens) div tokens_per_block))))"

definition compute_page_count :: "int \<Rightarrow> int \<Rightarrow> int result" where
  "compute_page_count token_count tokens_per_page = py_div (token_count + tokens_per_page) tokens_per_page"

definition get_num_kv_blocks :: "int \<Rightarrow> int \<Rightarrow> int result" where
  "get_num_kv_blocks tokens_per_block num_tokens = py_div (num_tokens + tokens_per_block - 1) tokens_per_block"

section \<open>The scheduler without eviction\<close>

type_synonym needed_fn = "llm_request \<Rightarrow> int result"

definition schedulable :: "llm_request \<Rightarrow> bool" where
  "schedulable r \<longleftrightarrow>
     \<not> (state_value (state r) < state_value CONTEXT_INIT \<or> state_value (state r) \<ge> state_value GENERATION_COMPLETE)"

definition in_generation :: "llm_request \<Rightarrow> bool" where
  "in_generation r \<longleftrightarrow> state r = GENERATION_IN_PROGRESS \<or> state r = GENERATION_TO_COMPLETE"

fun reserve_loop :: "int \<Rightarrow> int \<Rightarrow> needed_fn \<Rightarrow> llm_request list
    \<Rightarrow> llm_request list \<times> llm_request list \<times> int \<Rightarrow> (llm_request list \<times> llm_request list \<times> int) result" where
  \<comment> \<open>the first loop, over the active requests, with \<open>(scheduled, pending, reserved_blocks)\<close>\<close>
  "reserve_loop max_num max_blocks needed [] (sched, pending, reserved) = Inr (sched, pending, reserved)"
| "reserve_loop max_num max_blocks needed (r # rs) (sched, pending, reserved) =
     (if \<not> schedulable r then reserve_loop max_num max_blocks needed rs (sched, pending, reserved)
      else if int (length sched) \<ge> max_num \<or> reserved \<ge> max_blocks then Inr (sched, pending, reserved)
      else if in_generation r then
        res_bind (needed r) (\<lambda>n.
        reserve_loop max_num max_blocks needed rs (sched @ [r], pending, reserved + n))
      else reserve_loop max_num max_blocks needed rs (sched, pending @ [r], reserved))"

fun admit_loop :: "int \<Rightarrow> needed_fn \<Rightarrow> llm_request list \<Rightarrow> llm_request list \<Rightarrow> int \<Rightarrow> llm_request list result" where
  \<comment> \<open>the second loop, over the pending requests, with the scheduled ones and \<open>avaiable_blocks\<close>\<close>
  "admit_loop max_num needed [] sched available = Inr sched"
| "admit_loop max_num needed (r # rs) sched available =
     (if int (length sched) \<ge> max_num then Inr sched
      else if state r = CONTEXT_INIT then
        res_bind (needed r) (\<lambda>n.
        if n \<le> available then admit_loop max_num needed rs (sched @ [r]) (available - n)
        else Inr sched)
      else admit_loop max_num needed rs sched available)"

definition guaranteed_no_evict :: "int \<Rightarrow> int \<Rightarrow> needed_fn \<Rightarrow> llm_request list \<Rightarrow> llm_request list list result" where
  "guaranteed_no_evict max_num max_blocks needed active =
     res_bind (reserve_loop max_num max_blocks needed active ([], [], 0)) (\<lambda>(sched, pending, reserved).
     res_bind (admit_loop max_num needed pending sched (max_blocks - reserved)) (\<lambda>sched'.
     if length sched' > 0 then Inr [sched', []] else Inl AssertionError))"

section \<open>The two-stage scheduler\<close>

type_synonym capacity_fn = "llm_request list \<Rightarrow> llm_request list list result"
type_synonym micro_fn = "llm_request list \<Rightarrow> int set \<Rightarrow> (llm_request list \<times> llm_request list) result"

record scheduler_output =
  out_context :: "llm_request list"
  out_generation :: "llm_request list"
  out_paused :: "llm_request list"
  out_fitting_disagg :: "llm_request list"
  out_num_fitting :: nat

definition unpack3 :: "'a list \<Rightarrow> ('a \<times> 'a \<times> 'a) result" where
  \<comment> \<open>\<open>a, b, c = t\<close>\<close>
  "unpack3 t = (case t of [a, b, c] \<Rightarrow> Inr (a, b, c) | _ \<Rightarrow> Inl ValueError)"

definition simple_schedule :: "capacity_fn \<Rightarrow> micro_fn \<Rightarrow> llm_request list \<Rightarrow> int set \<Rightarrow> scheduler_output result" where
  "simple_schedule cap micro active inflight =
     res_bind (res_bind (cap active) unpack3) (\<lambda>(fitting, fitting_disagg, paused).
     res_bind (micro fitting inflight) (\<lambda>(ctx, gen).
     Inr \<lparr>out_context = ctx, out_generation = gen, out_paused = paused,
          out_fitting_disagg = fitting_disagg, out_num_fitting = length fitting\<rparr>))"

definition can_schedule :: "capacity_fn \<Rightarrow> llm_request list \<Rightarrow> bool result" where
  "can_schedule cap requests =
     res_bind (res_bind (cap requests) unpack3) (\<lambda>(fitting, _, _).
     Inr (length fitting = length requests))"

section \<open>What the scheduler asks of a cache manager\<close>

definition cost :: "needed_fn \<Rightarrow> llm_request \<Rightarrow> int" where
  "cost needed r = (case needed r of Inr n \<Rightarrow> n | Inl _ \<Rightarrow> 0)"

definition total_cost :: "needed_fn \<Rightarrow> llm_request list \<Rightarrow> int" where
  "total_cost needed rs = sum_list (map (cost needed) rs)"

lemma total_cost_simps [simp]:
  "total_cost needed [] = 0" "total_cost needed (r # rs) = cost needed r + total_cost needed rs"
  "total_cost needed (rs @ ss) = total_cost needed rs + total_cost needed ss"
  by (simp_all add: total_cost_def)

abbreviation waiting :: "llm_request \<Rightarrow> bool" where
  "waiting r \<equiv> state r = CONTEXT_INIT"

lemma in_generation_schedulable: "in_generation r \<Longrightarrow> schedulable r"
  by (auto simp: in_generation_def schedulable_def)

locale capacity_provider =
  fixes needed :: needed_fn
    and valid :: "llm_request \<Rightarrow> bool"
  assumes needed_pos: "valid r \<Longrightarrow> \<exists>n > 0. needed r = Inr n"
begin

lemma needed_cost: "valid r \<Longrightarrow> needed r = Inr (cost needed r) \<and> 0 < cost needed r"
  using needed_pos[of r] by (auto simp: cost_def)

lemma total_cost_nonneg: "\<forall>r \<in> set rs. valid r \<Longrightarrow> 0 \<le> total_cost needed rs"
  using needed_cost by (induction rs) (auto intro: add_nonneg_nonneg less_imp_le)

text \<open>The first loop looks at a prefix of the schedulable requests and splits it.\<close>

lemma reserve_loop_split:
  assumes "\<forall>r \<in> set active. valid r"
  shows "\<exists>pre suf. filter schedulable active = pre @ suf \<and>
    reserve_loop max_num max_blocks needed active (sched, pending, c) =
      Inr (sched @ filter in_generation pre, pending @ filter (\<lambda>r. \<not> in_generation r) pre,
           c + total_cost needed (filter in_generation pre)) \<and>
    (suf = [] \<or> max_num \<le> int (length (sched @ filter in_generation pre)) \<or>
       max_blocks \<le> c + total_cost needed (filter in_generation pre)) \<and>
    (int (length sched) \<le> max_num \<longrightarrow> int (length (sched @ filter in_generation pre)) \<le> max_num)"
  using assms
proof (induction active arbitrary: sched pending c)
  case Nil
  show ?case by (intro exI[of _ "[]"]) simp
next
  case (Cons r rs)
  have n: "needed r = Inr (cost needed r)" using Cons.prems needed_cost by simp
  have tl: "\<forall>r \<in> set rs. valid r" using Cons.prems by simp
  consider (skip) "\<not> schedulable r" | (stop) "schedulable r" "int (length sched) \<ge> max_num \<or> c \<ge> max_blocks"
    | (gen) "schedulable r" "\<not> (int (length sched) \<ge> max_num \<or> c \<ge> max_blocks)" "in_generation r"
    | (pend) "schedulable r" "\<not> (int (length sched) \<ge> max_num \<or> c \<ge> max_blocks)" "\<not> in_generation r"
    by blast
  then show ?case
  proof cases
    case skip
    then show ?thesis using Cons.IH[of sched pending c] Cons.prems by auto
  next
    case stop
    then show ?thesis by (intro exI[of _ "[]"] exI[of _ "r # filter schedulable rs"]) auto
  next
    case gen
    obtain pre suf where ih: "filter schedulable rs = pre @ suf"
      "reserve_loop max_num max_blocks needed rs (sched @ [r], pending, c + cost needed r) =
        Inr ((sched @ [r]) @ filter in_generation pre, pending @ filter (\<lambda>r. \<not> in_generation r) pre,
           c + cost needed r + total_cost needed (filter in_generation pre))"
      "suf = [] \<or> max_num \<le> int (length ((sched @ [r]) @ filter in_generation pre)) \<or>
         max_blocks \<le> c + cost needed r + total_cost needed (filter in_generation pre)"
      "int (length (sched @ [r])) \<le> max_num \<longrightarrow> int (length ((sched @ [r]) @ filter in_generation pre)) \<le> max_num"
      using Cons.IH[OF tl, of "sched @ [r]" pending "c + cost needed r"] by blast
    then show ?thesis using gen n by (intro exI[of _ "r # pre"] exI[of _ suf]) auto
  next
    case pend
    obtain pre suf where ih: "filter schedulable rs = pre @ suf"
      "reserve_loop max_num max_blocks needed rs (sched, pending @ [r], c) =
        Inr (sched @ filter in_generation pre, (pending @ [r]) @ filter (\<lambda>r. \<not> in_generation r) pre,
           c + total_cost needed (filter in_generation pre))"
      "suf = [] \<or> max_num \<le> int (length (sched @ filter in_generation pre)) \<or>
         max_blocks \<le> c + total_cost needed (filter in_generation pre)"
      "int (length sched) \<le> max_num \<longrightarrow> int (length (sched @ filter in_generation pre)) \<le> max_num"
      using Cons.IH[OF tl, of sched "pending @ [r]" c] by blast
    then show ?thesis using pend by (intro exI[of _ "r # pre"] exI[of _ suf]) auto
  qed
qed

text \<open>The second loop admits a prefix of the waiting requests that fits.\<close>

lemma admit_loop_prefix:
  assumes "\<forall>r \<in> set pending. valid r"
  shows "\<exists>adm rest. filter waiting pending = adm @ rest \<and>
    admit_loop max_num needed pending sched available = Inr (sched @ adm) \<and>
    (adm \<noteq> [] \<longrightarrow> total_cost needed adm \<le> available) \<and>
    (int (length sched) \<le> max_num \<longrightarrow> int (length (sched @ adm)) \<le> max_num)"
  using assms
proof (induction pending arbitrary: sched available)
  case (Cons r rs)
  have n: "needed r = Inr (cost needed r)" "0 < cost needed r" using Cons.prems needed_cost by auto
  have tl: "\<forall>r \<in> set rs. valid r" using Cons.prems by simp
  consider (full) "int (length sched) \<ge> max_num" | (skip) "\<not> int (length sched) \<ge> max_num" "\<not> waiting r"
    | (adm) "\<not> int (length sched) \<ge> max_num" "waiting r" "cost needed r \<le> available"
    | (stop) "\<not> int (length sched) \<ge> max_num" "waiting r" "\<not> cost needed r \<le> available" by blast
  then show ?case
  proof cases
    case full
    then show ?thesis by (intro exI[of _ "[]"] exI[of _ "filter waiting (r # rs)"]) auto
  next
    case skip
    then show ?thesis using Cons.IH[of sched available] Cons.prems by auto
  next
    case stop
    then show ?thesis using n by (intro exI[of _ "[]"] exI[of _ "filter waiting (r # rs)"]) auto
  next
    case adm
    obtain a rest where ih: "filter waiting rs = a @ rest"
      "admit_loop max_num needed rs (sched @ [r]) (available - cost needed r) = Inr ((sched @ [r]) @ a)"
      "a \<noteq> [] \<longrightarrow> total_cost needed a \<le> available - cost needed r"
      "int (length (sched @ [r])) \<le> max_num \<longrightarrow> int (length ((sched @ [r]) @ a)) \<le> max_num"
      using Cons.IH[OF tl, of "sched @ [r]" "available - cost needed r"] by blast
    then show ?thesis using adm n by (intro exI[of _ "r # a"] exI[of _ rest]) (cases a; auto)
  qed
qed simp

lemma schedule_shape:
  assumes "\<forall>r \<in> set active. valid r" "0 \<le> max_num"
  obtains pre suf adm rest where "filter schedulable active = pre @ suf"
    "filter waiting (filter (\<lambda>r. \<not> in_generation r) pre) = adm @ rest"
    "guaranteed_no_evict max_num max_blocks needed active =
      (if filter in_generation pre @ adm = [] then Inl AssertionError else Inr [filter in_generation pre @ adm, []])"
    "adm \<noteq> [] \<Longrightarrow> total_cost needed (filter in_generation pre @ adm) \<le> max_blocks"
    "int (length (filter in_generation pre @ adm)) \<le> max_num"
    "suf = [] \<or> max_num \<le> int (length (filter in_generation pre)) \<or> max_blocks \<le> total_cost needed (filter in_generation pre)"
proof -
  obtain pre suf where p: "filter schedulable active = pre @ suf"
    "reserve_loop max_num max_blocks needed active ([], [], 0) =
      Inr (filter in_generation pre, filter (\<lambda>r. \<not> in_generation r) pre, total_cost needed (filter in_generation pre))"
    "suf = [] \<or> max_num \<le> int (length (filter in_generation pre)) \<or> max_blocks \<le> total_cost needed (filter in_generation pre)"
    "int (length (filter in_generation pre)) \<le> max_num"
    using reserve_loop_split[OF assms(1), of max_num max_blocks "[]" "[]" 0, simplified] assms(2) by blast
  have "set pre \<subseteq> set active" using p(1) by (metis filter_is_subset le_supE set_append)
  then have "\<forall>r \<in> set (filter (\<lambda>r. \<not> in_generation r) pre). valid r" using assms(1) by auto
  from admit_loop_prefix[OF this, of max_num "filter in_generation pre" "max_blocks - total_cost needed (filter in_generation pre)"]
  obtain adm rest where a: "filter waiting (filter (\<lambda>r. \<not> in_generation r) pre) = adm @ rest"
    "admit_loop max_num needed (filter (\<lambda>r. \<not> in_generation r) pre) (filter in_generation pre)
       (max_blocks - total_cost needed (filter in_generation pre)) = Inr (filter in_generation pre @ adm)"
    "adm \<noteq> [] \<longrightarrow> total_cost needed adm \<le> max_blocks - total_cost needed (filter in_generation pre)"
    "int (length (filter in_generation pre @ adm)) \<le> max_num"
    using p(4) by blast
  show ?thesis
  proof (rule that[OF p(1) a(1)])
    show "guaranteed_no_evict max_num max_blocks needed active =
      (if filter in_generation pre @ adm = [] then Inl AssertionError else Inr [filter in_generation pre @ adm, []])"
      by (simp only: guaranteed_no_evict_def p(2) a(2) res_bind_simps prod.case length_greater_0_conv if_not_P) simp
  qed (use a p in auto)
qed

lemma admitted_waiting:
  assumes "filter waiting (filter (\<lambda>r. \<not> in_generation r) pre) = adm @ rest"
  shows "\<forall>r \<in> set adm. r \<in> set pre \<and> waiting r \<and> \<not> in_generation r"
proof -
  have "set adm \<subseteq> set (filter waiting (filter (\<lambda>r. \<not> in_generation r) pre))" unfolding assms by simp
  then show ?thesis by auto
qed

lemma schedule_within_capacity:
  assumes "\<forall>r \<in> set active. valid r" "0 \<le> max_num"
    "guaranteed_no_evict max_num max_blocks needed active = Inr out"
  shows "\<exists>sched. out = [sched, []] \<and> sched \<noteq> [] \<and> int (length sched) \<le> max_num \<and>
    (\<forall>r \<in> set sched. r \<in> set active \<and> (in_generation r \<or> waiting r)) \<and>
    ((\<exists>r \<in> set sched. waiting r) \<longrightarrow> total_cost needed sched \<le> max_blocks)"
proof (rule schedule_shape[OF assms(1,2), of max_blocks])
  fix pre suf adm rest
  assume s: "filter schedulable active = pre @ suf"
    "filter waiting (filter (\<lambda>r. \<not> in_generation r) pre) = adm @ rest"
    "guaranteed_no_evict max_num max_blocks needed active =
      (if filter in_generation pre @ adm = [] then Inl AssertionError else Inr [filter in_generation pre @ adm, []])"
    "adm \<noteq> [] \<Longrightarrow> total_cost needed (filter in_generation pre @ adm) \<le> max_blocks"
    "int (length (filter in_generation pre @ adm)) \<le> max_num"
  have "set pre \<subseteq> set active" using s(1) by (metis filter_is_subset le_supE set_append)
  moreover have "\<not> waiting r" if "in_generation r" for r using that by (auto simp: in_generation_def)
  moreover have "\<forall>r \<in> set adm. total_cost needed (filter in_generation pre @ adm) \<le> max_blocks"
    using s(4) by (cases adm) auto
  ultimately show ?thesis
    using s(3,5) assms(3) admitted_waiting[OF s(2)]
    by (intro exI[of _ "filter in_generation pre @ adm"]) (auto split: if_splits)
qed

text \<open>As long as the running requests fit, all of them are scheduled, in order.\<close>

lemma running_requests_scheduled:
  assumes "\<forall>r \<in> set active. valid r" "int (length (filter in_generation active)) \<le> max_num"
    "total_cost needed (filter in_generation active) \<le> max_blocks" "filter in_generation active \<noteq> []"
  shows "\<exists>adm. guaranteed_no_evict max_num max_blocks needed active = Inr [filter in_generation active @ adm, []]
    \<and> total_cost needed (filter in_generation active @ adm) \<le> max_blocks \<and> int (length (filter in_generation active @ adm)) \<le> max_num"
proof (rule schedule_shape[OF assms(1), of max_num max_blocks])
  show "0 \<le> max_num" using assms(2) by linarith
  fix pre suf adm rest
  assume s: "filter schedulable active = pre @ suf"
    "guaranteed_no_evict max_num max_blocks needed active =
      (if filter in_generation pre @ adm = [] then Inl AssertionError else Inr [filter in_generation pre @ adm, []])"
    "adm \<noteq> [] \<Longrightarrow> total_cost needed (filter in_generation pre @ adm) \<le> max_blocks" "int (length (filter in_generation pre @ adm)) \<le> max_num"
    "suf = [] \<or> max_num \<le> int (length (filter in_generation pre)) \<or> max_blocks \<le> total_cost needed (filter in_generation pre)"
  have "filter in_generation active = filter in_generation (filter schedulable active)"
    by (auto simp: in_generation_schedulable intro: filter_cong)
  then have g: "filter in_generation active = filter in_generation pre @ filter in_generation suf"
    unfolding s(1) by simp
  have "set (filter in_generation suf) \<subseteq> set active" using g by (metis filter_is_subset le_supE set_append)
  then have v: "\<forall>r \<in> set (filter in_generation suf). valid r" using assms(1) by auto
  have "filter in_generation suf = []"
  proof (cases "filter in_generation suf")
    case (Cons r rs)
    have "0 < cost needed r" "0 \<le> total_cost needed rs"
      using v needed_cost[of r] total_cost_nonneg[of rs] unfolding Cons by auto
    then show ?thesis using assms(2,3) s(5) g Cons by auto
  qed
  then have g': "filter in_generation active = filter in_generation pre" using g by simp
  have "total_cost needed (filter in_generation pre @ adm) \<le> max_blocks" using s(3) assms(3) g' by (cases adm) auto
  then show ?thesis unfolding g' using s(2,4) assms(4) g' by auto
qed

end

text \<open>Both resource managers of the executor provide a capacity.\<close>

lemma kv_needed_eq: "0 < tpb \<Longrightarrow> kv_needed tpb r = Inr ((orig_prompt_len r + max_new_tokens r + tpb - 1) div tpb)"
proof -
  assume t: "0 < tpb"
  let ?c = "orig_prompt_len r" and ?n = "max_new_tokens r"
  have ceil: "- ((- x) div tpb) = (x + tpb - 1) div tpb" for x
  proof -
    have "0 < x mod tpb \<or> x mod tpb = 0" using pos_mod_sign[OF t, of x] by linarith
    then show ?thesis using int_ceil_div[OF t, of x] t zdiv_zminus1_eq_if[of tpb x] by auto
  qed
  have "?c div tpb + (?c + ?n - ?c div tpb * tpb + tpb - 1) div tpb = (?c + ?n + tpb - 1) div tpb"
    using div_mult_self1[of tpb "?c + ?n - ?c div tpb * tpb + tpb - 1" "?c div tpb"] t by (simp add: algebra_simps)
  then show ?thesis using t ceil by (simp add: kv_needed_def Let_def)
qed

interpretation kv_capacity: capacity_provider "kv_needed tpb"
  "\<lambda>r. 0 < tpb \<and> 0 < orig_prompt_len r + max_new_tokens r" for tpb
proof
  fix r :: llm_request assume v: "0 < tpb \<and> 0 < orig_prompt_len r + max_new_tokens r"
  then have "1 * tpb \<le> orig_prompt_len r + max_new_tokens r + tpb - 1" by simp
  then have "1 \<le> (orig_prompt_len r + max_new_tokens r + tpb - 1) div tpb"
    using v zdiv_mono1[of "1 * tpb" _ tpb] by (metis nonzero_mult_div_cancel_right less_irrefl)
  then show "\<exists>n > 0. kv_needed tpb r = Inr n" using v kv_needed_eq by auto
qed

interpretation slot_capacity: capacity_provider "\<lambda>r. Inr (seq_needed_resource r)" "\<lambda>_. True"
  by standard (simp add: seq_needed_resource_def)

section \<open>Properties of the schedulers\<close>

text \<open>
  The schedule fits. With the block estimate of the KV cache manager, a schedule of
  \<open>GuaranteedNoEvictScheduler\<close> is not empty, has at most \<open>max_num_requests\<close> requests, contains only
  active requests that are generating or waiting for their context phase, and whenever it admits a
  waiting request, the blocks needed to finish all of its requests fit into the cache.
\<close>

theorem no_evict_schedule_fits:
  assumes "0 < tpb" "\<forall>r \<in> set active. 0 < orig_prompt_len r + max_new_tokens r" "0 \<le> max_num"
    "guaranteed_no_evict max_num max_blocks (kv_needed tpb) active = Inr out"
  shows "\<exists>sched. out = [sched, []] \<and> sched \<noteq> [] \<and> int (length sched) \<le> max_num \<and>
     (\<forall>r \<in> set sched. r \<in> set active \<and> (in_generation r \<or> state r = CONTEXT_INIT)) \<and>
     ((\<exists>r \<in> set sched. state r = CONTEXT_INIT) \<longrightarrow> total_cost (kv_needed tpb) sched \<le> max_blocks)"
  using assms by (intro kv_capacity.schedule_within_capacity) auto

definition footprint :: "llm_request \<Rightarrow> int" where
  "footprint r = orig_prompt_len r + max_new_tokens r"

lemma total_cost_mono:
  assumes "0 < tpb" "\<forall>r \<in> set sched. 0 < footprint r" "mset (map footprint gs) \<subseteq># mset (map footprint sched)"
  shows "total_cost (kv_needed tpb) gs \<le> total_cost (kv_needed tpb) sched" "length gs \<le> length sched"
proof -
  define c where "c x = (x + tpb - 1) div tpb" for x
  have t: "total_cost (kv_needed tpb) rs = (\<Sum>x \<in># mset (map footprint rs). c x)" for rs
    using kv_needed_eq[OF assms(1)]
    by (induction rs) (auto simp: cost_def c_def footprint_def)
  obtain M where M: "mset (map footprint sched) = mset (map footprint gs) + M"
    using assms(3) by (auto simp: subset_mset.le_iff_add)
  have "\<forall>x \<in># M. 0 < x"
  proof
    fix x assume "x \<in># M"
    then have "x \<in># mset (map footprint sched)" unfolding M by simp
    then show "0 < x" using assms(2) by auto
  qed
  then have "0 \<le> (\<Sum>x \<in># M. c x)" 
    using assms(1) by (induction M) (auto simp: c_def pos_imp_zdiv_nonneg_iff intro!: add_nonneg_nonneg)
  then show "total_cost (kv_needed tpb) gs \<le> total_cost (kv_needed tpb) sched" unfolding t M by simp
  show "length gs \<le> length sched" using size_mset_mono[OF assms(3)] by simp
qed

definition continues :: "llm_request list \<Rightarrow> llm_request list \<Rightarrow> bool" where
  \<comment> \<open>the active requests after a schedule: whatever is generating was scheduled, and has kept its prompt length and token limit\<close>
  "continues sched active \<longleftrightarrow> distinct (map request_id active)
     \<and> (\<forall>r \<in> set active. 0 < footprint r \<and> (in_generation r \<longrightarrow> (\<exists>r0 \<in> set sched. request_id r0 = request_id r \<and> footprint r0 = footprint r)))"

inductive no_evict_run :: "int \<Rightarrow> int \<Rightarrow> int \<Rightarrow> llm_request list \<Rightarrow> bool" for tpb max_num max_blocks where
  \<comment> \<open>the last schedule of a run of the executor, which starts without any request\<close>
  start: "no_evict_run tpb max_num max_blocks []"
| round: "no_evict_run tpb max_num max_blocks sched \<Longrightarrow> continues sched active
     \<Longrightarrow> guaranteed_no_evict max_num max_blocks (kv_needed tpb) active = Inr [sched', []] \<Longrightarrow> no_evict_run tpb max_num max_blocks sched'"

lemma distinct_mset_subset:
  assumes "distinct xs" "set xs \<subseteq> set ys" shows "mset xs \<subseteq># mset ys"
proof (rule mset_subset_eqI)
  fix a
  have "count (mset xs) a = (if a \<in> set xs then 1 else 0)" using assms(1) by (simp add: distinct_count_atmost_1)
  moreover have "a \<in> set xs \<Longrightarrow> 0 < count (mset ys) a" using assms(2) by auto
  ultimately show "count (mset xs) a \<le> count (mset ys) a" by auto
qed

lemma continues_footprints:
  assumes "continues sched active"
  shows "mset (map footprint (filter in_generation active)) \<subseteq># mset (map footprint sched)"
proof -
  let ?k = "\<lambda>r. (request_id r, footprint r)" and ?g = "filter in_generation active"
  have "distinct (map request_id ?g)" using assms by (simp add: continues_def distinct_map_filter)
  then have "distinct (map ?k ?g)" by (auto simp: distinct_map inj_on_def)
  moreover have "set (map ?k ?g) \<subseteq> set (map ?k sched)" 
  proof
    fix x assume "x \<in> set (map ?k ?g)"
    then obtain r where r: "r \<in> set active" "in_generation r" "x = ?k r" by auto
    then obtain r0 where "r0 \<in> set sched" "?k r0 = x" using assms by (auto simp: continues_def)
    then show "x \<in> set (map ?k sched)" by force
  qed
  ultimately have "mset (map ?k ?g) \<subseteq># mset (map ?k sched)"
    by (rule distinct_mset_subset)
  then have "image_mset snd (mset (map ?k ?g)) \<subseteq># image_mset snd (mset (map ?k sched))" by (rule image_mset_subseteq_mono)
  then show ?thesis by (simp add: image_mset.compositionality comp_def)
qed

lemma run_fits:
  assumes "0 < tpb" "0 \<le> max_num" "0 \<le> max_blocks" "no_evict_run tpb max_num max_blocks sched"
  shows "total_cost (kv_needed tpb) sched \<le> max_blocks \<and> int (length sched) \<le> max_num \<and> (\<forall>r \<in> set sched. 0 < footprint r)"
  using assms(4)
proof induction
  case (round sched active sched')
  have v: "\<forall>r \<in> set active. 0 < tpb \<and> 0 < orig_prompt_len r + max_new_tokens r" using assms(1) round.hyps(2) by (simp add: continues_def footprint_def)
  note m = total_cost_mono[OF assms(1) _ continues_footprints[OF round.hyps(2)]]
  have s: "int (length sched') \<le> max_num" "\<forall>r \<in> set sched'. r \<in> set active \<and> (in_generation r \<or> waiting r)" "sched' \<noteq> []"
    "(\<exists>r \<in> set sched'. waiting r) \<longrightarrow> total_cost (kv_needed tpb) sched' \<le> max_blocks"
    using kv_capacity.schedule_within_capacity[OF v assms(2) round.hyps(3)] by auto
  have "total_cost (kv_needed tpb) sched' \<le> max_blocks"
  proof (cases "filter in_generation active = []")
    case True
    then have "\<forall>r \<in> set sched'. waiting r" using s(2) by (auto simp: filter_empty_conv)
    then show ?thesis using s(3,4) by (cases sched') auto
  next
    case False
    then show ?thesis
      using kv_capacity.running_requests_scheduled[OF v _ _ False, of max_num max_blocks] m round.IH round.hyps(3) by auto
  qed
  then show ?case using s(1,2) v by (auto simp: footprint_def)
qed (use assms in simp)

text \<open>
  C14: no eviction. In any run of the scheduler that starts without requests, where in each round whatever is generating was
  in the schedule before and has kept its prompt length and token limit (requests may finish, and new ones arrive, at
  will): in every round the generating requests are scheduled, all of them, ahead of anything else and in the order of the active list, and the blocks
  needed to finish all that is scheduled fit into the cache. So a request, once scheduled and generating, is scheduled in
  every round until it is finished.
\<close>

theorem admitted_requests_keep_running:
  assumes "0 < tpb" "0 \<le> max_num" "0 \<le> max_blocks" "no_evict_run tpb max_num max_blocks sched" "continues sched active" "filter in_generation active \<noteq> []"
  shows "\<exists>adm. guaranteed_no_evict max_num max_blocks (kv_needed tpb) active = Inr [filter in_generation active @ adm, []]
    \<and> total_cost (kv_needed tpb) (filter in_generation active @ adm) \<le> max_blocks
    \<and> no_evict_run tpb max_num max_blocks (filter in_generation active @ adm)"
proof -
  have v: "\<forall>r \<in> set active. 0 < tpb \<and> 0 < orig_prompt_len r + max_new_tokens r" using assms(1,5) by (simp add: continues_def footprint_def)
  note f = run_fits[OF assms(1-4)]
  note m = total_cost_mono[OF assms(1) _ continues_footprints[OF assms(5)]]
  obtain adm where "guaranteed_no_evict max_num max_blocks (kv_needed tpb) active = Inr [filter in_generation active @ adm, []]"
    "total_cost (kv_needed tpb) (filter in_generation active @ adm) \<le> max_blocks"
    using kv_capacity.running_requests_scheduled[OF v _ _ assms(6), of max_num max_blocks] m f by auto
  then show ?thesis using no_evict_run.round[OF assms(4,5)] by blast
qed

lemma id_to_request_lookup:
  assumes "distinct (map request_id rs)" "r \<in> set rs"
  shows "map_of (id_to_request rs) (request_id r) = Some r"
proof -
  have keep: "map_of (fold (\<lambda>r d. AList.update (request_id r) r d) rs d) k = map_of d k"
    if "k \<notin> request_id ` set rs" for rs d k
    using that by (induction rs arbitrary: d) auto
  have "map_of (fold (\<lambda>r d. AList.update (request_id r) r d) rs d) (request_id r) = Some r" for d
    using assms
  proof (induction rs arbitrary: d)
    case (Cons a rs)
    then show ?case using keep[of "request_id a" rs] by (cases "r \<in> set rs") auto
  qed simp
  then show ?thesis by (simp add: id_to_request_def)
qed

text \<open>
  Sending a schedule to another rank loses nothing. When the ranks have the same active requests
  with distinct ids and the schedule mentions only those, \<open>to_scheduler_result\<close> after
  \<open>from_scheduler_result\<close> gives back the very same requests in the same order.
\<close>

theorem scheduler_output_roundtrip:
  assumes "distinct (map request_id active)"
    "set (context_requests b) \<union> set (generation_requests b) \<union> set (paused_requests b) \<union> set fitting \<subseteq> set active"
  shows "to_scheduler_result (from_scheduler_result b fitting n) active = Inr (b, fitting, n)"
proof -
  have "res_map (dict_get (id_to_request active)) (map request_id rs) = Inr rs" if "set rs \<subseteq> set active" for rs
    using that id_to_request_lookup[OF assms(1)] by (induction rs) auto
  then show ?thesis using assms(2) by (simp add: to_scheduler_result_def from_scheduler_result_def)
qed

text \<open>
  \<open>SimpleScheduler\<close> cannot be used with \<open>GuaranteedNoEvictScheduler\<close>. The capacity scheduler
  returns a pair, but both methods of \<open>SimpleScheduler\<close> unpack three values, so every call raises: the
  error of the capacity scheduler if it has one, and \<open>ValueError\<close> otherwise.
\<close>

theorem simple_scheduler_rejects_no_evict:
  "(\<exists>e. simple_schedule (guaranteed_no_evict max_num max_blocks needed) micro active inflight = Inl e) \<and>
   (\<exists>e. can_schedule (guaranteed_no_evict max_num max_blocks needed) active = Inl e) \<and>
   (\<forall>out. guaranteed_no_evict max_num max_blocks needed active = Inr out \<longrightarrow>
      simple_schedule (guaranteed_no_evict max_num max_blocks needed) micro active inflight = Inl ValueError)"
proof -
  have u: "unpack3 out = Inl ValueError" if "guaranteed_no_evict max_num max_blocks needed active = Inr out" for out
    using that by (auto simp: guaranteed_no_evict_def unpack3_def split: if_splits prod.splits)
  show ?thesis
    by (cases "guaranteed_no_evict max_num max_blocks needed active")
      (auto simp: simple_schedule_def can_schedule_def u)
qed

section \<open>Concrete schedules\<close>

definition example_active :: "llm_request list" where
  "example_active = [new_request 1 GENERATION_IN_PROGRESS 8 8, new_request 2 CONTEXT_INIT 5 4,
     new_request 3 CONTEXT_INIT 40 40]"

lemma example_schedule:
  "guaranteed_no_evict 4 8 (kv_needed 4) example_active =
     Inr [[new_request 1 GENERATION_IN_PROGRESS 8 8, new_request 2 CONTEXT_INIT 5 4], []]"
  by code_simp

theorem no_evict_schedule_fits_witness:
  "\<exists>sched. [[new_request 1 GENERATION_IN_PROGRESS 8 8, new_request 2 CONTEXT_INIT 5 4], []] = [sched, []] \<and>
     total_cost (kv_needed 4) sched \<le> 8"
proof -
  have "\<forall>r \<in> set example_active. 0 < orig_prompt_len r + max_new_tokens r" by code_simp
  from no_evict_schedule_fits[OF _ this _ example_schedule] show ?thesis by (auto simp: new_request_def)
qed

theorem admitted_requests_keep_running_witness:
  "\<exists>adm. guaranteed_no_evict 4 8 (kv_needed 4)
       [new_request 9 CONTEXT_INIT 4 4, new_request 2 GENERATION_IN_PROGRESS 5 4] =
     Inr [[new_request 2 GENERATION_IN_PROGRESS 5 4] @ adm, []]"
proof -
  let ?a = "[new_request 9 CONTEXT_INIT 4 4, new_request 2 GENERATION_IN_PROGRESS 5 4]" and ?b = "[new_request 1 CONTEXT_INIT 3 4, new_request 2 CONTEXT_INIT 5 4]"
  have f: "filter in_generation ?a = [new_request 2 GENERATION_IN_PROGRESS 5 4]" by (simp add: in_generation_def new_request_def)
  have "continues [] ?b" by (simp add: continues_def footprint_def new_request_def in_generation_def)
  moreover have "guaranteed_no_evict 4 8 (kv_needed 4) ?b = Inr [?b, []]" by code_simp
  ultimately have r: "no_evict_run 4 4 8 ?b" using no_evict_run.round[OF no_evict_run.start, of ?b] by blast
  have c: "continues ?b ?a" by (simp add: continues_def footprint_def new_request_def in_generation_def)
  show ?thesis using admitted_requests_keep_running[OF _ _ _ r c] unfolding f by auto
qed

theorem scheduler_output_roundtrip_witness:
  "to_scheduler_result (from_scheduler_result
      \<lparr>context_requests = [example_active ! 1], generation_requests = [example_active ! 0], paused_requests = []\<rparr> [] 2)
      example_active =
   Inr (\<lparr>context_requests = [example_active ! 1], generation_requests = [example_active ! 0], paused_requests = []\<rparr>, [], 2)"
  by (rule scheduler_output_roundtrip) (simp_all add: example_active_def new_request_def)

theorem simple_scheduler_rejects_no_evict_witness:
  "simple_schedule (guaranteed_no_evict 4 8 (kv_needed 4)) (\<lambda>rs _. Inr (rs, [])) example_active {} = Inl ValueError"
  using simple_scheduler_rejects_no_evict[of 4 8 "kv_needed 4" "\<lambda>rs _. Inr (rs, [])" example_active "{}"] example_schedule
  by simp

end
