(* ===== verification/Py_Heap.thy ===== *)
theory Py_Heap
  imports Py_Prelude
begin

text \<open>
  The priority queues of Python's \<open>heapq\<close>. The request queue and the load-balancing router use a heap
  only through \<open>heapify\<close>, \<open>heappush\<close>, \<open>heappop\<close> and its length, and their entries are totally ordered, so
  what they observe is determined by the multiset of entries: \<open>heappop\<close> returns the least one. The locale
  states this contract; the model keeps the entries in a sorted list.
\<close>

locale min_heap =
  fixes inv :: "'h \<Rightarrow> bool"
    and entries :: "'h \<Rightarrow> ('a::linorder) multiset"
    and make :: "'a list \<Rightarrow> 'h"
    and push :: "'a \<Rightarrow> 'h \<Rightarrow> 'h"
    and pop :: "'h \<Rightarrow> ('a \<times> 'h) result"
  assumes make_ok: "inv (make xs)" "entries (make xs) = mset xs"
    and push_ok: "inv h \<Longrightarrow> inv (push x h)" "inv h \<Longrightarrow> entries (push x h) = add_mset x (entries h)"
    and pop_empty: "inv h \<Longrightarrow> entries h = {#} \<Longrightarrow> pop h = Inl IndexError"
    and pop_ok: "inv h \<Longrightarrow> entries h \<noteq> {#} \<Longrightarrow>
      \<exists>h'. pop h = Inr (Min_mset (entries h), h') \<and> inv h' \<and> entries h' = entries h - {#Min_mset (entries h)#}"
begin

lemma pop_cases:
  assumes "inv h"
  obtains (empty) "entries h = {#}" "pop h = Inl IndexError"
  | (least) x h' where "pop h = Inr (x, h')" "inv h'" "entries h = add_mset x (entries h')"
      "\<And>y. y \<in># entries h \<Longrightarrow> x \<le> y"
proof (cases "entries h = {#}")
  case True
  then show ?thesis using pop_empty[OF assms] empty by blast
next
  case False
  then have "Min_mset (entries h) \<in># entries h" by simp
  moreover from False obtain h' where h: "pop h = Inr (Min_mset (entries h), h')" "inv h'"
    "entries h' = entries h - {#Min_mset (entries h)#}" using pop_ok[OF assms] by blast
  ultimately show ?thesis using False by (intro least[OF h(1,2)]) auto
qed

text \<open>Popping what was pushed onto a heap whose entries are all at least as large.\<close>

lemma pop_push_least:
  assumes "inv h" "\<And>y. y \<in># entries h \<Longrightarrow> x \<le> y"
  shows "\<exists>h'. pop (push x h) = Inr (x, h') \<and> inv h' \<and> entries h' = entries h"
proof -
  have m: "Min_mset (entries (push x h)) = x"
    using assms push_ok(2) by (intro Min_eqI) auto
  then show ?thesis using pop_ok[OF push_ok(1)[OF assms(1)], of x] push_ok(2)[OF assms(1)] by auto
qed

end

definition heapify :: "('a::linorder) list \<Rightarrow> 'a list" where
  "heapify xs = sort xs"

definition heappush :: "('a::linorder) \<Rightarrow> 'a list \<Rightarrow> 'a list" where
  "heappush x h = insort x h"

definition heappop :: "('a::linorder) list \<Rightarrow> ('a \<times> 'a list) result" where
  "heappop h = (case h of [] \<Rightarrow> Inl IndexError | x # xs \<Rightarrow> Inr (x, xs))"

interpretation heapq: min_heap "sorted :: ('a::linorder) list \<Rightarrow> bool" mset heapify heappush heappop
proof
  fix h :: "'a list" assume h: "sorted h" "mset h \<noteq> {#}"
  then obtain x xs where xs: "h = x # xs" by (cases h) auto
  then have "Min_mset (mset h) = x" using h by (intro Min_eqI) auto
  then show "\<exists>h'. heappop h = Inr (Min_mset (mset h), h') \<and> sorted h' \<and> mset h' = mset h - {#Min_mset (mset h)#}"
    using xs h by (auto simp: heappop_def)
qed (auto simp: heapify_def heappush_def heappop_def sorted_insort)

end
