(* ===== verification/Request_Queue.thy ===== *)
theory Request_Queue
  imports Py_Heap "HOL-Library.Product_Lexorder" "HOL-Library.Sublist"
begin

unbundle bit_operations_syntax

text \<open>
  \<open>ExecutorRequestQueue\<close> of \<open>_torch/pyexecutor/executor_request_queue.py\<close>: request ids, the waiting
  queue, the special items (shutdown, cancel, control), the Python objects that travel beside the
  requests, and the distribution of requests over attention data-parallel ranks. The partition of a
  context over context-parallel ranks is in \<open>Context_Partition\<close>.

  The blocking read of the thread queue (\<open>_get_from_request_queue\<close>) depends on the clock and on the
  other threads; \<open>fetch_and_process\<close> takes the items it returned. The broadcast delivers the payload of
  rank 0, so it is the identity here (a rank above 0
  exists only when some parallel size is above 1). Of \<open>start_times\<close> only the keys are kept, and after
  an exception the keys that the failing call had already popped are not tracked.
\<close>

section \<open>Queue items\<close>

definition SHUTDOWN_REQUEST_ID :: int where "SHUTDOWN_REQUEST_ID = - 1"
definition CONTROL_REQUEST_ID :: int where "CONTROL_REQUEST_ID = - 2"

record sched_params =
  attention_dp_rank :: "int option"
  attention_dp_relax :: "bool option"

datatype 'o py_obj = SchedObj sched_params | OtherObj 'o

record 'o exec_request =
  input_token_ids :: "int list"
  ex_beam_width :: int
  num_return_sequences :: "int option"
  py_attrs :: "(string, 'o py_obj) dict"

record 'o queue_item =
  item_id :: int
  request :: "'o exec_request option"
  child_req_ids :: "int list option"
  is_canceled_request :: bool
  item_query :: "int list option"

definition is_shutdown_request :: "'o queue_item \<Rightarrow> bool" where
  "is_shutdown_request it \<longleftrightarrow> item_id it = SHUTDOWN_REQUEST_ID"

definition is_control_request :: "'o queue_item \<Rightarrow> bool" where
  "is_control_request it \<longleftrightarrow> item_id it = CONTROL_REQUEST_ID"

definition is_normal_request :: "'o queue_item \<Rightarrow> bool" where
  "is_normal_request it \<longleftrightarrow> \<not> (is_shutdown_request it \<or> is_canceled_request it \<or> is_control_request it)"

definition py_scheduling_params :: "'o queue_item \<Rightarrow> sched_params option" where
  \<comment> \<open>\<open>getattr(req_item.request, 'py_scheduling_params', None)\<close>\<close>
  "py_scheduling_params it =
     (case request it of
        None \<Rightarrow> None
      | Some r \<Rightarrow> (case map_of (py_attrs r) ''py_scheduling_params'' of Some (SchedObj p) \<Rightarrow> Some p | _ \<Rightarrow> None))"

record 'o req_queue =
  rq_rank :: int
  rq_tp_size :: int
  rq_max_num_active :: int
  rq_perf_stats :: bool
  rq_items :: "'o queue_item list"
  waiting_queue :: "'o queue_item list"
  canceled_req_ids :: "int list"
  control_requests :: "'o queue_item list"
  request_accumulated :: "'o queue_item list"
  next_request_id :: int
  start_times :: "int list"
  rq_active :: bool
  rq_shutdown :: bool
  exclude_last_logits :: bool
  expected_num_active_requests :: int
  num_fetch_requests :: int
  num_fetch_requests_cur_rank :: int

definition req_queue_init :: "int \<Rightarrow> int \<Rightarrow> int \<Rightarrow> int \<Rightarrow> bool \<Rightarrow> 'o req_queue" where
  "req_queue_init rk tp max_batch_size max_active perf =
     \<lparr>rq_rank = rk, rq_tp_size = tp, rq_max_num_active = max_active, rq_perf_stats = perf, rq_items = [],
      waiting_queue = [], canceled_req_ids = [], control_requests = [], request_accumulated = [],
      next_request_id = max_batch_size, start_times = [], rq_active = True, rq_shutdown = False,
      exclude_last_logits = False, expected_num_active_requests = 0, num_fetch_requests = 0,
      num_fetch_requests_cur_rank = 0\<rparr>"

section \<open>Enqueueing\<close>

definition get_num_child_requests :: "'o exec_request \<Rightarrow> int" where
  "get_num_child_requests r =
     (if ex_beam_width r > 1 then 0
      else (case num_return_sequences r of None \<Rightarrow> 1 | Some n \<Rightarrow> if n = 0 then 1 else n) - 1)"

definition get_request_id :: "'o req_queue \<Rightarrow> int \<times> 'o req_queue" where
  "get_request_id q =
     (next_request_id q, q\<lparr>next_request_id := (next_request_id q + 1) AND (push_bit 64 1 - 1)\<rparr>)"

definition note_start :: "int \<Rightarrow> 'o req_queue \<Rightarrow> 'o req_queue" where
  \<comment> \<open>\<open>if self.enable_iter_perf_stats: self.start_times[id] = \<dots>\<close>\<close>
  "note_start i q = (if rq_perf_stats q then q\<lparr>start_times := List.insert i (start_times q)\<rparr> else q)"

fun take_ids :: "nat \<Rightarrow> 'o req_queue \<Rightarrow> int list \<times> 'o req_queue" where
  "take_ids 0 q = ([], q)"
| "take_ids (Suc n) q =
     (case get_request_id q of (i, q1) \<Rightarrow>
      case take_ids n (note_start i q1) of (is, q2) \<Rightarrow> (i # is, q2))"

definition generate_child_request_ids :: "'o exec_request \<Rightarrow> 'o req_queue \<Rightarrow> int list option \<times> 'o req_queue" where
  "generate_child_request_ids r q =
     (if get_num_child_requests r > 0
      then (case take_ids (nat (get_num_child_requests r)) q of (is, q1) \<Rightarrow> (Some is, q1))
      else (None, q))"

fun enqueue_loop :: "('o exec_request \<times> int list option) list \<Rightarrow> 'o req_queue \<Rightarrow> int list \<times> 'o req_queue" where
  "enqueue_loop [] q = ([], q)"
| "enqueue_loop ((r, qry) # rest) q =
     (case get_request_id q of (i, q1) \<Rightarrow>
      case generate_child_request_ids r (note_start i q1) of (children, q2) \<Rightarrow>
      let it = \<lparr>item_id = i, request = Some r, child_req_ids = children, is_canceled_request = False,
                item_query = qry\<rparr> in
      case enqueue_loop rest (q2\<lparr>rq_items := rq_items q2 @ [it]\<rparr>) of (is, q3) \<Rightarrow> (i # is, q3))"

definition enqueue_impl :: "('o exec_request \<times> int list option) list \<Rightarrow> 'o req_queue
    \<Rightarrow> int list result \<times> 'o req_queue" where
  "enqueue_impl rs q =
     (if \<not> rq_active q then (Inl AssertionError, q)
      else (case enqueue_loop rs q of (is, q') \<Rightarrow> (Inr is, q')))"

definition enqueue_requests :: "'o exec_request list \<Rightarrow> 'o req_queue \<Rightarrow> int list result \<times> 'o req_queue" where
  "enqueue_requests rs q = enqueue_impl (map (\<lambda>r. (r, None)) rs) q"

definition enqueue_request :: "'o exec_request \<Rightarrow> int list option \<Rightarrow> 'o req_queue \<Rightarrow> int result \<times> 'o req_queue" where
  "enqueue_request r qry q =
     (case enqueue_impl [(r, qry)] q of (res, q') \<Rightarrow> (res_bind res (\<lambda>is. py_index is 0), q'))"

definition plain_item :: "int \<Rightarrow> bool \<Rightarrow> 'o queue_item" where
  "plain_item i canceled = \<lparr>item_id = i, request = None, child_req_ids = None,
     is_canceled_request = canceled, item_query = None\<rparr>"

definition enqueue_cancel_request :: "int \<Rightarrow> 'o req_queue \<Rightarrow> 'o req_queue" where
  "enqueue_cancel_request i q = q\<lparr>rq_items := rq_items q @ [plain_item i True]\<rparr>"

definition enqueue_control_request :: "'o req_queue \<Rightarrow> 'o req_queue" where
  "enqueue_control_request q = q\<lparr>rq_items := rq_items q @ [plain_item CONTROL_REQUEST_ID False]\<rparr>"

definition enqueue_shutdown_request :: "'o req_queue \<Rightarrow> 'o req_queue" where
  "enqueue_shutdown_request q =
     q\<lparr>rq_items := rq_items q @ [plain_item SHUTDOWN_REQUEST_ID False], rq_active := False\<rparr>"

definition can_enqueue_request :: "'o req_queue \<Rightarrow> bool" where
  "can_enqueue_request q \<longleftrightarrow> rq_active q \<and> rq_rank q = 0"

section \<open>The waiting queue\<close>

definition num_children :: "'o queue_item \<Rightarrow> int" where
  "num_children it = (case child_req_ids it of None \<Rightarrow> 0 | Some cs \<Rightarrow> int (length cs))"

definition can_process_attention_dp_request :: "int \<Rightarrow> 'o queue_item \<Rightarrow> int list \<Rightarrow> (bool \<times> int list) result" where
  "can_process_attention_dp_request max_active it counts =
     (case py_scheduling_params it of
        None \<Rightarrow> Inr (True, counts)
      | Some p \<Rightarrow>
          (case attention_dp_rank p of
             None \<Rightarrow> Inr (True, counts)
           | Some t \<Rightarrow>
               if attention_dp_relax p = Some True then Inr (True, counts)
               else res_bind (py_index counts t) (\<lambda>c.
                 if c < max_active then res_bind (py_set counts t (c + 1)) (\<lambda>counts'. Inr (True, counts'))
                 else Inr (False, counts))))"

fun waiting_loop :: "int \<Rightarrow> int \<Rightarrow> 'o queue_item list \<Rightarrow> int \<Rightarrow> int list option
    \<Rightarrow> ('o queue_item list \<times> 'o queue_item list \<times> 'o queue_item list) result" where
  \<comment> \<open>the while loop; the result is \<open>(items, pending_requests, rest of the queue)\<close>. \<open>None\<close> stands for a
      call without attention data parallelism.\<close>
  "waiting_loop max_active max_req [] cnt counts = Inr ([], [], [])"
| "waiting_loop max_active max_req (it # q) cnt counts =
     (if cnt < max_req then
        if cnt + 1 + num_children it > max_req then Inr ([], [], it # q)
        else res_bind (case counts of None \<Rightarrow> Inr (True, None)
                     | Some cs \<Rightarrow> res_bind (can_process_attention_dp_request max_active it cs)
                         (\<lambda>(ok, cs'). Inr (ok, Some cs'))) (\<lambda>(ok, counts').
          if ok then res_bind (waiting_loop max_active max_req q (cnt + 1 + num_children it) counts')
              (\<lambda>(items, pending, rest). Inr (it # items, pending, rest))
          else res_bind (waiting_loop max_active max_req q cnt counts')
              (\<lambda>(items, pending, rest). Inr (items, it # pending, rest)))
      else Inr ([], [], it # q))"

definition get_from_waiting_queue :: "int \<Rightarrow> 'o queue_item list \<Rightarrow> int \<Rightarrow> int list option
    \<Rightarrow> ('o queue_item list \<times> 'o queue_item list) result" where
  \<comment> \<open>the requests to process and the waiting queue afterwards\<close>
  "get_from_waiting_queue max_active q max_req counts =
     (if max_req \<le> 0 then Inr ([], q)
      else res_bind (waiting_loop max_active max_req q 0 counts) (\<lambda>(items, pending, rest).
        Inr (items, pending @ rest)))"

definition update_waiting_queue :: "'o req_queue \<Rightarrow> 'o req_queue" where
  "update_waiting_queue q =
     q\<lparr>waiting_queue := filter (\<lambda>it. item_id it \<notin> set (canceled_req_ids q)) (waiting_queue q)\<rparr>"

definition clear_canceled_req_ids :: "'o req_queue \<Rightarrow> 'o req_queue" where
  "clear_canceled_req_ids q = q\<lparr>canceled_req_ids := []\<rparr>"

definition set_exclude_last_generation_logits :: "bool \<Rightarrow> int \<Rightarrow> 'o req_queue \<Rightarrow> 'o req_queue" where
  "set_exclude_last_generation_logits disable_overlap pp q =
     q\<lparr>exclude_last_logits := (\<not> disable_overlap \<and> pp = 1)\<rparr>"

section \<open>Special items and the Python objects\<close>

fun handle_special_queue_items :: "'o queue_item list \<Rightarrow> 'o req_queue \<Rightarrow> 'o queue_item list \<times> 'o req_queue" where
  "handle_special_queue_items [] q = ([], q)"
| "handle_special_queue_items (it # rest) q =
     (if is_shutdown_request it then ([], q\<lparr>rq_shutdown := True\<rparr>)
      else if is_canceled_request it then
        handle_special_queue_items rest (q\<lparr>canceled_req_ids := canceled_req_ids q @ [item_id it]\<rparr>)
      else if is_control_request it then
        (let q1 = q\<lparr>control_requests := control_requests q @ [it]\<rparr> in
         ([], if rq_rank q1 = 0 then q1\<lparr>request_accumulated := request_accumulated q1 @ rest\<rparr> else q1))
      else (case handle_special_queue_items rest q of (acc, q') \<Rightarrow> (it # acc, q')))"

fun collect_dict :: "string \<Rightarrow> 'o queue_item list \<Rightarrow> (int, 'o py_obj) dict \<Rightarrow> (int, 'o py_obj) dict" where
  "collect_dict attr [] d = d"
| "collect_dict attr (it # its) d =
     collect_dict attr its
       (if \<not> is_normal_request it then d
        else (case request it of
                None \<Rightarrow> d
              | Some r \<Rightarrow> (case map_of (py_attrs r) attr of None \<Rightarrow> d | Some ob \<Rightarrow> AList.update (item_id it) ob d)))"

definition collect_py_objects :: "'o queue_item list \<Rightarrow> string \<Rightarrow> (string \<times> (int, 'o py_obj) dict) option" where
  "collect_py_objects its attr = (let d = collect_dict attr its [] in if d = [] then None else Some (attr, d))"

definition py_attr_names :: "string list" where
  "py_attr_names = [''py_logits_post_processors'', ''py_multimodal_data'', ''py_scheduling_params'', ''py_num_logprobs'']"

definition py_request_objects :: "'o queue_item list \<Rightarrow> (string \<times> (int, 'o py_obj) dict) list" where
  \<comment> \<open>\<open>tuple(filter(None, [\<dots>]))\<close> of \<open>_handle_request_broadcasting\<close>\<close>
  "py_request_objects its = List.map_filter (collect_py_objects its) py_attr_names"

definition attach_one :: "string \<Rightarrow> (int, 'o py_obj) dict \<Rightarrow> 'o queue_item \<Rightarrow> 'o queue_item" where
  "attach_one attr d it =
     (case request it of
        None \<Rightarrow> it
      | Some r \<Rightarrow>
          (case map_of d (item_id it) of
             None \<Rightarrow> it
           | Some ob \<Rightarrow> it\<lparr>request := Some (r\<lparr>py_attrs := AList.update attr ob (py_attrs r)\<rparr>)\<rparr>))"

definition attach_py_objects :: "'o queue_item list \<Rightarrow> (string \<times> (int, 'o py_obj) dict) list \<Rightarrow> 'o queue_item list" where
  "attach_py_objects its objs = fold (\<lambda>(attr, d). map (attach_one attr d)) objs its"

section \<open>Queue latency\<close>

fun pop_children :: "int list \<Rightarrow> int list \<Rightarrow> int list result" where
  "pop_children [] st = Inr st"
| "pop_children (c # cs) st = (if c \<in> set st then pop_children cs (remove1 c st) else Inl KeyError)"

fun update_queue_latency :: "'o queue_item list \<Rightarrow> int list \<Rightarrow> int list result" where
  "update_queue_latency [] st = Inr st"
| "update_queue_latency (it # its) st =
     res_bind (pop_children (case child_req_ids it of None \<Rightarrow> [] | Some cs \<Rightarrow> cs)
         (if item_id it \<in> set st then remove1 (item_id it) st else st))
       (update_queue_latency its)"

section \<open>Fetching\<close>

definition fetch_and_process :: "'o queue_item list \<Rightarrow> (string \<times> (int, 'o py_obj) dict) list \<Rightarrow> int \<Rightarrow> int \<Rightarrow> int list option \<Rightarrow> 'o req_queue
    \<Rightarrow> 'o queue_item list result \<times> 'o req_queue" where
  \<comment> \<open>\<open>fetched\<close>: what the thread queue returned on rank 0, or the broadcast payload on another rank,
      where \<open>objs\<close> are the Python objects of the payload\<close>
  "fetch_and_process fetched objs total_active total_max counts q =
     (if control_requests q \<noteq> [] then (Inr [], q)
      else
        let new = (if rq_rank q = 0 then request_accumulated q @ fetched else fetched);
            q1 = (if rq_rank q = 0 then q\<lparr>request_accumulated := []\<rparr> else q) in
        case handle_special_queue_items new q1 of (accepted, q2) \<Rightarrow>
        let q3 = q2\<lparr>waiting_queue := waiting_queue q2 @
                     (if rq_rank q2 > 0 then attach_py_objects accepted objs else accepted)\<rparr> in
        case get_from_waiting_queue (rq_max_num_active q3) (waiting_queue q3) (total_max - total_active) counts of
          Inl e \<Rightarrow> (Inl e, q3)
        | Inr (items, wq) \<Rightarrow>
            let q4 = q3\<lparr>waiting_queue := wq\<rparr> in
            if rq_perf_stats q4 \<and> rq_rank q4 = 0
            then (case update_queue_latency items (start_times q4) of
                    Inl e \<Rightarrow> (Inl e, q4)
                  | Inr st \<Rightarrow> (Inr items, q4\<lparr>start_times := st\<rparr>))
            else (Inr items, q4))"

section \<open>Attention data parallelism\<close>

definition get_relax_value :: "'o queue_item \<Rightarrow> bool option" where
  "get_relax_value it = (case py_scheduling_params it of None \<Rightarrow> Some True | Some p \<Rightarrow> attention_dp_relax p)"

definition sorted_desc :: "('a \<Rightarrow> 'k::linorder) \<Rightarrow> 'a list \<Rightarrow> 'a list" where
  \<comment> \<open>\<open>sorted(xs, key=key, reverse=True)\<close>: descending, and stable\<close>
  "sorted_desc key xs = rev (sort_key key (rev xs))"

definition sort_by_relax :: "'o queue_item list \<Rightarrow> 'o queue_item list result" where
  \<comment> \<open>the sort compares every key of two or more requests with another one, and a key that is not set cannot be compared\<close>
  "sort_by_relax new =
     (if length new \<ge> 2 \<and> list_ex (\<lambda>it. get_relax_value it = None) new then Inl TypeError
      else Inr (sorted_desc (\<lambda>it. get_relax_value it = Some True) new))"

type_synonym 'o assignment = "(int, 'o queue_item list) dict"

definition assign_to :: "int \<Rightarrow> 'o queue_item list \<Rightarrow> 'o assignment \<Rightarrow> 'o assignment result" where
  \<comment> \<open>\<open>all_ranks_new_requests[rank].extend(items)\<close>\<close>
  "assign_to r its a = res_bind (dict_get a r) (\<lambda>old. Inr (AList.update r (old @ its) a))"

fun place_targets :: "int \<Rightarrow> 'o queue_item list \<Rightarrow> int list \<Rightarrow> 'o assignment
    \<Rightarrow> ('o queue_item list \<times> int list \<times> 'o assignment) result" where
  \<comment> \<open>the first loop of \<open>_schedule_attention_dp_requests\<close>: \<open>(remaining_unscheduled, counts, assignment)\<close>\<close>
  "place_targets max_active [] counts a = Inr ([], counts, a)"
| "place_targets max_active (it # its) counts a =
     (case (case py_scheduling_params it of None \<Rightarrow> None | Some p \<Rightarrow> attention_dp_rank p) of
        None \<Rightarrow> res_bind (place_targets max_active its counts a) (\<lambda>(rem, cs, a'). Inr (it # rem, cs, a'))
      | Some t \<Rightarrow>
          res_bind (py_index counts t) (\<lambda>c.
          if c < max_active then
            res_bind (py_set counts t (c + 1)) (\<lambda>counts'.
            res_bind (assign_to t [it] a) (\<lambda>a1. place_targets max_active its counts' a1))
          else res_bind (place_targets max_active its counts a) (\<lambda>(rem, cs, a'). Inr (it # rem, cs, a'))))"

definition expected_num_active :: "int \<Rightarrow> nat \<Rightarrow> int list \<Rightarrow> int result" where
  "expected_num_active tp num_new counts =
     res_bind (py_div (sum_list counts + int num_new + tp - 1) tp) (\<lambda>avg.
     if counts = [] then Inl ValueError else Inr (max avg (Max (set counts))))"

type_synonym heap_val = "int \<times> int \<times> int"

definition token_count :: "'o queue_item \<Rightarrow> int" where
  "token_count it = (case request it of None \<Rightarrow> 0 | Some r \<Rightarrow> int (length (input_token_ids r)))"

fun balance_loop :: "int \<Rightarrow> 'o queue_item list \<Rightarrow> heap_val list \<Rightarrow> 'o assignment \<Rightarrow> 'o assignment result" where
  \<comment> \<open>the loop over the sorted requests; the dictionary holds the \<open>request_list\<close> of every heap entry\<close>
  "balance_loop expected [] h a = Inr a"
| "balance_loop expected (it # its) h a =
     res_bind (heappop h) (\<lambda>((tokens, n, r), h1).
     res_bind (assign_to r [it] a) (\<lambda>a1.
     balance_loop expected its
       (if n + 1 < expected then heappush (tokens + token_count it, n + 1, r) h1 else h1) a1))"

fun extend_all :: "'o assignment \<Rightarrow> 'o assignment \<Rightarrow> 'o assignment result" where
  "extend_all [] a = Inr a"
| "extend_all ((r, its) # rest) a = res_bind (assign_to r its a) (extend_all rest)"

definition balance_requests_across_ranks :: "int \<Rightarrow> 'o queue_item list \<Rightarrow> 'o assignment \<Rightarrow> int list \<Rightarrow> int list
    \<Rightarrow> 'o assignment result" where
  "balance_requests_across_ranks expected new a counts tokens =
     (if new = [] then Inr a
      else res_bind (res_map (\<lambda>r. res_bind (py_index tokens r) (\<lambda>t. Inr (t, counts ! nat r, r)))
                       (py_range 0 (int (length counts)))) (\<lambda>vals.
        let heap = filter (\<lambda>(t, n, r). n < expected) vals in
        res_bind (balance_loop expected (sorted_desc token_count new) (heapify heap)
                    (map (\<lambda>(t, n, r). (r, [])) heap)) (\<lambda>scheduled.
        extend_all scheduled a)))"

definition schedule_attention_dp_requests :: "int \<Rightarrow> int \<Rightarrow> 'o queue_item list \<Rightarrow> int list \<Rightarrow> int list
    \<Rightarrow> ('o assignment \<times> int) result" where
  "schedule_attention_dp_requests tp max_active new counts tokens =
     res_bind (sort_by_relax new) (\<lambda>new'.
     res_bind (place_targets max_active new' counts
                 (map (\<lambda>r. (r, [])) (py_range 0 tp))) (\<lambda>(remaining, counts', a).
     res_bind (expected_num_active tp (length remaining) counts') (\<lambda>expected.
     res_bind (balance_requests_across_ranks expected remaining a counts' tokens) (\<lambda>a'.
     Inr (a', expected)))))"

section \<open>Fetching for one iteration\<close>

text \<open>
  The two branches of \<open>fetch_new_requests\<close>, up to the list of requests that the rank merges.
  \<open>responses\<close> is the result of the all-gather of (active requests, active tokens) over the ranks.
\<close>

definition fetch_new_requests_attention_tp :: "'o queue_item list \<Rightarrow> (string \<times> (int, 'o py_obj) dict) list \<Rightarrow> int
    \<Rightarrow> 'o req_queue \<Rightarrow> 'o queue_item list result \<times> 'o req_queue" where
  "fetch_new_requests_attention_tp fetched objs num_active q =
     fetch_and_process fetched objs num_active (rq_max_num_active q) None q"

definition fetch_new_requests_attention_dp :: "'o queue_item list \<Rightarrow> (string \<times> (int, 'o py_obj) dict) list
    \<Rightarrow> (int \<times> int) list \<Rightarrow> int \<Rightarrow> 'o req_queue \<Rightarrow> 'o queue_item list result \<times> 'o req_queue" where
  "fetch_new_requests_attention_dp fetched objs responses my_rank q =
     (let counts = map fst responses; tokens = map snd responses in
      case fetch_and_process fetched objs (sum_list counts) (rq_tp_size q * rq_max_num_active q) (Some counts) q of
        (Inl e, q1) \<Rightarrow> (Inl e, q1)
      | (Inr new, q1) \<Rightarrow>
          (case schedule_attention_dp_requests (rq_tp_size q1) (rq_max_num_active q1) new counts tokens of
             Inl e \<Rightarrow> (Inl e, q1)
           | Inr (a, expected) \<Rightarrow>
               let q2 = q1\<lparr>expected_num_active_requests := expected\<rparr> in
               (case dict_get a my_rank of
                 Inl e \<Rightarrow> (Inl e, q2)
               | Inr cur \<Rightarrow>
                   (case (if rq_perf_stats q2 \<and> start_times q2 \<noteq> [] then update_queue_latency cur (start_times q2)
                          else Inr (start_times q2)) of
                      Inl e \<Rightarrow> (Inl e, q2)
                    | Inr st \<Rightarrow>
                        (Inr cur, q2\<lparr>start_times := st,
                           num_fetch_requests := num_fetch_requests q2 + int (length new),
                           num_fetch_requests_cur_rank := num_fetch_requests_cur_rank q2 + int (length cur)\<rparr>)))))"

section \<open>The waiting queue: what is taken and what stays\<close>

abbreviation batch_size :: "'o queue_item list \<Rightarrow> int" where
  "batch_size its \<equiv> (\<Sum>it\<leftarrow>its. 1 + num_children it)"

lemma num_children_nonneg: "0 \<le> num_children it"
  by (simp add: num_children_def split: option.splits)

lemma batch_size_nonneg: "0 \<le> batch_size its"
  by (intro sum_list_nonneg) (auto intro: add_nonneg_nonneg num_children_nonneg)

lemma waiting_loop_cases:
  assumes "waiting_loop ma mr (it # q) cnt counts = Inr (items, pending, rest)"
  obtains (stop) "items = []" "pending = []" "rest = it # q"
  | (take) counts' items' where "items = it # items'" "cnt + 1 + num_children it \<le> mr"
      "waiting_loop ma mr q (cnt + 1 + num_children it) counts' = Inr (items', pending, rest)"
  | (skip) counts' pending' where "pending = it # pending'" "waiting_loop ma mr q cnt counts' = Inr (items, pending', rest)"
proof (cases "cnt < mr \<and> cnt + 1 + num_children it \<le> mr")
  case False
  with assms show ?thesis by (intro stop) (auto split: if_splits)
next
  case True
  with assms obtain ok counts' where r: "(if ok then res_bind (waiting_loop ma mr q (cnt + 1 + num_children it) counts')
              (\<lambda>(items, pending, rest). Inr (it # items, pending, rest))
          else res_bind (waiting_loop ma mr q cnt counts')
              (\<lambda>(items, pending, rest). Inr (items, it # pending, rest))) = Inr (items, pending, rest)"
    by auto
  show ?thesis
  proof (cases ok)
    case True
    with r \<open>cnt < mr \<and> cnt + 1 + num_children it \<le> mr\<close> show ?thesis by (auto intro: take)
  next
    case False
    with r show ?thesis by (auto intro: skip)
  qed
qed

lemma waiting_loop_partition:
  assumes "waiting_loop ma mr q cnt counts = Inr (items, pending, rest)"
  shows "mset items + mset pending + mset rest = mset q \<and> subseq items q \<and> subseq (pending @ rest) q
    \<and> (cnt \<le> mr \<longrightarrow> cnt + batch_size items \<le> mr)"
  using assms
proof (induction q arbitrary: cnt counts items pending rest)
  case (Cons it q)
  from Cons.prems show ?case
  proof (cases rule: waiting_loop_cases)
    case (take counts' items')
    from Cons.IH[OF take(3)] take(1,2) show ?thesis by auto
  next
    case (skip counts' pending')
    from Cons.IH[OF skip(2)] skip(1) show ?thesis by auto
  qed simp
qed auto

text \<open>Without attention data parallelism the loop takes the longest prefix that fits.\<close>

lemma waiting_loop_prefix:
  "\<exists>items rest. waiting_loop ma mr q cnt None = Inr (items, [], rest) \<and> items @ rest = q
     \<and> (rest \<noteq> [] \<longrightarrow> mr < cnt + batch_size items + 1 + num_children (hd rest))"
proof (induction q arbitrary: cnt)
  case (Cons it q)
  show ?case
  proof (cases "cnt < mr \<and> cnt + 1 + num_children it \<le> mr")
    case True
    with Cons[of "cnt + 1 + num_children it"] show ?thesis by (fastforce simp: algebra_simps)
  next
    case False
    then show ?thesis using num_children_nonneg[of it] by (auto intro!: exI[of _ "[]"])
  qed
qed simp

definition strict_rank :: "'o queue_item \<Rightarrow> int option" where
  \<comment> \<open>the rank a request insists on\<close>
  "strict_rank it = (case py_scheduling_params it of
      None \<Rightarrow> None | Some p \<Rightarrow> if attention_dp_relax p = Some True then None else attention_dp_rank p)"

definition pinned_to :: "nat \<Rightarrow> nat \<Rightarrow> 'o queue_item \<Rightarrow> bool" where
  "pinned_to n r it \<longleftrightarrow> (case strict_rank it of None \<Rightarrow> False | Some t \<Rightarrow> py_pos n t = r)"

lemma pinned_to_simps [simp]:
  "strict_rank it = None \<Longrightarrow> \<not> pinned_to n r it"
  "strict_rank it = Some t \<Longrightarrow> pinned_to n r it \<longleftrightarrow> py_pos n t = r"
  by (simp_all add: pinned_to_def)

lemma can_process_cases:
  assumes "can_process_attention_dp_request ma it cs = Inr (ok, cs')"
  obtains (free) "strict_rank it = None" "ok" "cs' = cs"
  | (taken) t where "strict_rank it = Some t" "ok" "py_pos (length cs) t < length cs"
      "cs ! py_pos (length cs) t < ma" "cs' = cs[py_pos (length cs) t := cs ! py_pos (length cs) t + 1]"
  | (full) t where "strict_rank it = Some t" "\<not> ok" "cs' = cs" "py_pos (length cs) t < length cs"
      "ma \<le> cs ! py_pos (length cs) t"
proof (cases "strict_rank it")
  case None
  with assms show ?thesis
    by (intro free) (auto simp: can_process_attention_dp_request_def strict_rank_def split: option.splits if_splits)
next
  case (Some t)
  with assms obtain c where c: "py_index cs t = Inr c" and r: "(if c < ma then res_bind (py_set cs t (c + 1)) (\<lambda>counts'. Inr (True, counts'))
                 else Inr (False, cs)) = Inr (ok, cs')"
    by (auto simp: can_process_attention_dp_request_def strict_rank_def split: option.splits if_splits)
  show ?thesis
  proof (cases "c < ma")
    case True
    with r c py_index_pos[OF c] Some show ?thesis by (intro taken[of t]) (auto simp: py_set_def)
  next
    case False
    with r c py_index_pos[OF c] Some show ?thesis by (intro full[of t]) auto
  qed
qed

lemma waiting_loop_pinned:
  assumes "waiting_loop ma mr q cnt (Some cs) = Inr (items, pending, rest)" "r < length cs"
  shows "cs ! r + int (length (filter (pinned_to (length cs) r) items)) \<le> max ma (cs ! r)"
  using assms
proof (induction q arbitrary: cnt cs items pending rest)
  case (Cons it q)
  show ?case
  proof (cases "cnt < mr \<and> cnt + 1 + num_children it \<le> mr")
    case False
    with Cons.prems show ?thesis by (auto split: if_splits)
  next
    case True
    with Cons.prems obtain ok cs' where cp: "can_process_attention_dp_request ma it cs = Inr (ok, cs')"
      and ok: "ok \<Longrightarrow> \<exists>is. items = it # is \<and> waiting_loop ma mr q (cnt + 1 + num_children it) (Some cs') = Inr (is, pending, rest)"
      and no: "\<not> ok \<Longrightarrow> \<exists>p. waiting_loop ma mr q cnt (Some cs') = Inr (items, p, rest)"
      by (auto split: if_splits)
    from cp show ?thesis
    proof (cases rule: can_process_cases)
      case free
      then obtain "is" where i: "items = it # is"
        "waiting_loop ma mr q (cnt + 1 + num_children it) (Some cs) = Inr (is, pending, rest)" using ok by blast
      with Cons.IH[OF i(2) Cons.prems(2)] free show ?thesis by simp
    next
      case (taken t)
      then obtain "is" where i: "items = it # is"
        "waiting_loop ma mr q (cnt + 1 + num_children it) (Some cs') = Inr (is, pending, rest)" using ok by blast
      from Cons.IH[OF i(2)] Cons.prems(2) taken(5)
      have "cs' ! r + int (length (filter (pinned_to (length cs) r) is)) \<le> max ma (cs' ! r)" by simp
      with taken Cons.prems(2) i(1) show ?thesis by (cases "py_pos (length cs) t = r") auto
    next
      case (full t)
      with no Cons.IH Cons.prems(2) show ?thesis by fastforce
    qed
  qed
qed auto

section \<open>Request ids\<close>

definition child_ids :: "'o queue_item \<Rightarrow> int list" where
  "child_ids it = (case child_req_ids it of None \<Rightarrow> [] | Some cs \<Rightarrow> cs)"

abbreviation req_ids :: "'o queue_item \<Rightarrow> int list" where
  \<comment> \<open>the ids a queue item carries: its own, then those of its children\<close>
  "req_ids it \<equiv> item_id it # child_ids it"

definition id_range :: "int \<Rightarrow> nat \<Rightarrow> int list" where
  \<comment> \<open>\<open>n\<close> ids from \<open>start\<close>, in a 64-bit counter\<close>
  "id_range start n = map (\<lambda>k. (start + int k) mod 2 ^ 64) [0..<n]"

lemma length_id_range [simp]: "length (id_range s n) = n"
  by (simp add: id_range_def)

lemma id_range_Cons: "0 \<le> s \<Longrightarrow> s < 2 ^ 64 \<Longrightarrow> id_range s (Suc n) = s # id_range ((s + 1) mod 2 ^ 64) n"
  by (simp add: id_range_def upt_conv_Cons mod_simps algebra_simps del: upt_Suc flip: map_Suc_upt)

lemma id_range_append: "id_range s (m + n) = id_range s m @ id_range ((s + int m) mod 2 ^ 64) n"
  by (rule nth_equalityI) (auto simp: id_range_def nth_append mod_simps algebra_simps)

lemma distinct_id_range: "n \<le> 2 ^ 64 \<Longrightarrow> distinct (id_range s n)"
proof -
  assume n: "n \<le> 2 ^ 64"
  have "x = y" if "(s + int x) mod 2 ^ 64 = (s + int y) mod 2 ^ 64" "x < n" "y < n" for x y
  proof (rule ccontr)
    assume "x \<noteq> y"
    moreover have "2 ^ 64 dvd int x - int y" using that(1) by (simp add: mod_eq_dvd_iff)
    ultimately have "\<bar>2 ^ 64 :: int\<bar> \<le> \<bar>int x - int y\<bar>" by (intro dvd_imp_le_int) auto
    with that n show False by simp
  qed
  then show "distinct (id_range s n)" by (auto simp: id_range_def distinct_map inj_on_def)
qed

lemma next_id_mod: "(x + 1) AND (push_bit 64 1 - 1) = (x + 1) mod (2 ^ 64 :: int)"
proof -
  have "push_bit 64 1 - 1 = (mask 64 :: int)" by (simp add: mask_eq_exp_minus_1)
  then show ?thesis by (simp only: take_bit_eq_mask[symmetric] take_bit_eq_mod)
qed

definition id_ok :: "'o req_queue \<Rightarrow> bool" where
  "id_ok q \<longleftrightarrow> 0 \<le> next_request_id q \<and> next_request_id q < 2 ^ 64"

definition ids_taken :: "'o req_queue \<Rightarrow> nat \<Rightarrow> 'o req_queue" where
  \<comment> \<open>the queue after \<open>n\<close> ids were handed out\<close>
  "ids_taken q n = q\<lparr>next_request_id := (next_request_id q + int n) mod 2 ^ 64,
     start_times := (if rq_perf_stats q then fold List.insert (id_range (next_request_id q) n) (start_times q)
                     else start_times q)\<rparr>"

lemma ids_taken_simps [simp]:
  "next_request_id (ids_taken q n) = (next_request_id q + int n) mod 2 ^ 64"
  "rq_items (ids_taken q n) = rq_items q" "rq_perf_stats (ids_taken q n) = rq_perf_stats q"
  "id_ok (ids_taken q n)"
  by (simp_all add: ids_taken_def id_ok_def)

lemma ids_taken_0 [simp]: "id_ok q \<Longrightarrow> ids_taken q 0 = q"
  by (simp add: ids_taken_def id_ok_def id_range_def)

lemma ids_taken_items [simp]: "ids_taken (q\<lparr>rq_items := x\<rparr>) n = (ids_taken q n)\<lparr>rq_items := x\<rparr>"
  by (simp add: ids_taken_def)

lemma ids_taken_add: "ids_taken (ids_taken q m) n = ids_taken q (m + n)"
  by (simp add: ids_taken_def id_range_append mod_simps algebra_simps)

lemma get_request_id_step:
  assumes "id_ok q" "get_request_id q = (i, q1)"
  shows "i = next_request_id q" "note_start i q1 = ids_taken q 1"
proof -
  have "i = next_request_id q" "q1 = q\<lparr>next_request_id := (next_request_id q + 1) mod 2 ^ 64\<rparr>"
    using assms(2) unfolding get_request_id_def next_id_mod prod.inject by auto
  then show "i = next_request_id q" "note_start i q1 = ids_taken q 1"
    using assms(1) by (simp_all add: note_start_def ids_taken_def id_ok_def id_range_def)
qed

lemma take_ids_range:
  "id_ok q \<Longrightarrow> take_ids n q = (id_range (next_request_id q) n, ids_taken q n)"
proof (induction n arbitrary: q)
  case (Suc n)
  obtain i q1 where g: "get_request_id q = (i, q1)" by (cases "get_request_id q") auto
  note st = get_request_id_step[OF Suc.prems g]
  have "take_ids n (ids_taken q 1) = (id_range ((next_request_id q + 1) mod 2 ^ 64) n, ids_taken q (1 + n))"
    by (subst Suc.IH) (simp_all add: ids_taken_add)
  with g st Suc.prems show ?case by (simp add: id_range_Cons id_ok_def)
qed (simp add: id_range_def)

lemma generate_child_ids:
  assumes "id_ok q" "generate_child_request_ids r q = (cs, q')"
  defines "n \<equiv> nat (get_num_child_requests r)"
  shows "(case cs of None \<Rightarrow> [] | Some is \<Rightarrow> is) = id_range (next_request_id q) n" "q' = ids_taken q n"
  using assms by (auto simp: generate_child_request_ids_def take_ids_range id_range_def split: if_splits)

definition ids_needed :: "'o exec_request \<Rightarrow> nat" where
  "ids_needed r = 1 + nat (get_num_child_requests r)"

lemma enqueue_loop_effect:
  assumes "id_ok q" "enqueue_loop rs q = (is, q')"
  defines "n \<equiv> (\<Sum>(r, _)\<leftarrow>rs. ids_needed r)"
  shows "\<exists>its. q' = (ids_taken q n)\<lparr>rq_items := rq_items q @ its\<rparr> \<and> map item_id its = is
      \<and> map (\<lambda>it. (request it, item_query it)) its = map (\<lambda>(r, qry). (Some r, qry)) rs
      \<and> concat (map req_ids its) = id_range (next_request_id q) n"
  using assms(1,2) unfolding n_def
proof (induction rs arbitrary: q "is")
  case Nil
  then show ?case by (auto simp: id_range_def intro!: exI[of _ "[]"])
next
  case (Cons rq rs)
  obtain r qry where rq: "rq = (r, qry)" by (cases rq)
  obtain i q1 where g: "get_request_id q = (i, q1)" by (cases "get_request_id q") auto
  note st = get_request_id_step[OF Cons.prems(1) g]
  obtain cs q2 where ch: "generate_child_request_ids r (ids_taken q 1) = (cs, q2)"
    by (cases "generate_child_request_ids r (ids_taken q 1)") auto
  note c = generate_child_ids[OF _ ch, simplified]
  define it where "it = \<lparr>item_id = i, request = Some r, child_req_ids = cs, is_canceled_request = False, item_query = qry\<rparr>"
  define m where "m = ids_needed r"
  have it: "req_ids it = id_range (next_request_id q) m"
    using c(1) st(1) Cons.prems(1) by (simp add: it_def m_def child_ids_def ids_needed_def id_range_Cons id_ok_def)
  have q2: "q2 = ids_taken q m" using c(2) by (simp add: ids_taken_add m_def ids_needed_def)
  define q3 where "q3 = q2\<lparr>rq_items := rq_items q @ [it]\<rparr>"
  obtain js where loop: "enqueue_loop rs q3 = (js, q')" and js: "is = i # js"
    using Cons.prems(2) g st ch q2 by (auto simp: rq Let_def it_def q3_def split: prod.splits)
  have q3: "id_ok q3" "rq_items q3 = rq_items q @ [it]" "next_request_id q3 = (next_request_id q + int m) mod 2 ^ 64"
    by (simp_all add: q3_def q2 id_ok_def)
  from Cons.IH[OF q3(1) loop] obtain its where
    its: "q' = (ids_taken q3 (\<Sum>(r, _)\<leftarrow>rs. ids_needed r))\<lparr>rq_items := rq_items q3 @ its\<rparr>" "map item_id its = js"
      "map (\<lambda>it. (request it, item_query it)) its = map (\<lambda>(r, qry). (Some r, qry)) rs"
      "concat (map req_ids its) = id_range (next_request_id q3) (\<Sum>(r, _)\<leftarrow>rs. ids_needed r)" by blast
  have "q' = (ids_taken q (m + (\<Sum>(r, _)\<leftarrow>rs. ids_needed r)))\<lparr>rq_items := rq_items q @ it # its\<rparr>"
    using its(1) q3(2) by (simp add: q3_def q2 ids_taken_add)
  moreover have "concat (map req_ids (it # its)) = id_range (next_request_id q) (m + (\<Sum>(r, _)\<leftarrow>rs. ids_needed r))"
    unfolding id_range_append using it its(4) q3(3) by simp
  ultimately show ?case using its(2,3) js by (intro exI[of _ "it # its"]) (simp_all add: it_def rq m_def)
qed

section \<open>Special items\<close>

definition stops_queue :: "'o queue_item \<Rightarrow> bool" where
  \<comment> \<open>the loop over the new items breaks here\<close>
  "stops_queue it \<longleftrightarrow> is_shutdown_request it \<or> (\<not> is_canceled_request it \<and> is_control_request it)"

lemma special_items_effect:
  assumes "handle_special_queue_items its q = (acc, q')"
  defines "run \<equiv> takeWhile (\<lambda>it. \<not> stops_queue it) its" and "rest \<equiv> dropWhile (\<lambda>it. \<not> stops_queue it) its"
  shows "acc = filter is_normal_request run \<and>
    q' = (let q1 = q\<lparr>canceled_req_ids := canceled_req_ids q @ map item_id (filter is_canceled_request run)\<rparr> in
          case rest of
            [] \<Rightarrow> q1
          | it # later \<Rightarrow>
              if is_shutdown_request it then q1\<lparr>rq_shutdown := True\<rparr>
              else q1\<lparr>control_requests := control_requests q @ [it],
                     request_accumulated := request_accumulated q @ (if rq_rank q = 0 then later else [])\<rparr>)"
  using assms(1) unfolding run_def rest_def
proof (induction its arbitrary: q acc)
  case (Cons it its)
  show ?case
  proof (cases "stops_queue it")
    case True
    with Cons.prems show ?thesis by (auto simp: stops_queue_def Let_def split: if_splits)
  next
    case False
    show ?thesis
    proof (cases "is_canceled_request it")
      case True
      with False Cons.prems have "handle_special_queue_items its (q\<lparr>canceled_req_ids := canceled_req_ids q @ [item_id it]\<rparr>) = (acc, q')"
        by (simp add: stops_queue_def)
      note ih = Cons.IH[OF this]
      moreover have "\<not> is_normal_request it" using True by (simp add: is_normal_request_def)
      ultimately show ?thesis using True False
        by (cases "dropWhile (\<lambda>it. \<not> stops_queue it) its") (simp_all add: Let_def del: dropWhile_eq_Nil_conv)
    next
      case False
      with \<open>\<not> stops_queue it\<close> Cons.prems obtain acc' where "handle_special_queue_items its q = (acc', q')" "acc = it # acc'"
        by (simp add: stops_queue_def split: prod.splits)
      moreover have "is_normal_request it" using False \<open>\<not> stops_queue it\<close>
        by (simp add: is_normal_request_def stops_queue_def)
      ultimately show ?thesis using Cons.IH[of q acc'] False \<open>\<not> stops_queue it\<close> by simp
    qed
  qed
qed simp

section \<open>Python objects beside the broadcast\<close>

definition get_attr :: "string \<Rightarrow> 'o queue_item \<Rightarrow> 'o py_obj option" where
  "get_attr a it = (case request it of None \<Rightarrow> None | Some r \<Rightarrow> map_of (py_attrs r) a)"

definition strip_attrs :: "'o queue_item \<Rightarrow> 'o queue_item" where
  \<comment> \<open>a request as it arrives on another rank: the transport drops these Python attributes\<close>
  "strip_attrs it = it\<lparr>request := map_option (\<lambda>r. r\<lparr>py_attrs := filter (\<lambda>(a, _). a \<notin> set py_attr_names) (py_attrs r)\<rparr>) (request it)\<rparr>"

lemma attach_itemwise: "attach_py_objects its objs = map (fold (\<lambda>(attr, d). attach_one attr d) objs) its"
  by (induction objs arbitrary: its) (auto simp: attach_py_objects_def comp_def)

lemma map_of_filter_key: "map_of (filter (\<lambda>(k, _). P k) d) a = (if P a then map_of d a else None)"
  by (induction d) auto

lemma get_attr_strip: "get_attr a (strip_attrs it) = (if a \<in> set py_attr_names then None else get_attr a it)"
  by (auto simp: get_attr_def strip_attrs_def map_of_filter_key split: option.splits)

lemma attach_one_simps [simp]:
  "item_id (attach_one attr d it) = item_id it" "attach_one attr [] it = it"
  "request (attach_one attr d it) = None \<longleftrightarrow> request it = None"
  by (auto simp: attach_one_def split: option.splits)

lemma get_attr_attach_one: "request it \<noteq> None \<Longrightarrow> get_attr a (attach_one attr d it) =
    (case map_of d (item_id it) of Some ob \<Rightarrow> if a = attr then Some ob else get_attr a it | None \<Rightarrow> get_attr a it)"
  by (auto simp: attach_one_def get_attr_def split: option.splits)

lemma fold_attach:
  assumes "request it \<noteq> None"
  shows "get_attr a (fold (\<lambda>attr. attach_one attr (D attr)) names it) =
    (case map_of (D a) (item_id it) of Some ob \<Rightarrow> if a \<in> set names then Some ob else get_attr a it | None \<Rightarrow> get_attr a it)"
  using assms
proof (induction names arbitrary: it)
  case (Cons x names)
  then have "request (attach_one x (D x) it) \<noteq> None" by simp
  from Cons.IH[OF this] Cons.prems show ?case
    by (cases "map_of (D a) (item_id it)") (auto simp: get_attr_attach_one split: option.splits)
qed (simp split: option.splits)

lemma collect_dict_lookup:
  assumes "distinct (map item_id its)" "it \<in> set its" "is_normal_request it"
  shows "map_of (collect_dict attr its d) (item_id it) =
    (case get_attr attr it of None \<Rightarrow> map_of d (item_id it) | Some ob \<Rightarrow> Some ob)"
proof -
  have other: "map_of (collect_dict attr js d) i = map_of d i" if "i \<notin> item_id ` set js" for js d i
    using that by (induction js arbitrary: d) (auto split: option.splits)
  show ?thesis using assms
  proof (induction its arbitrary: d)
    case (Cons x its)
    show ?case
    proof (cases "it = x")
      case True
      with Cons.prems show ?thesis by (simp add: other get_attr_def split: option.splits)
    next
      case False
      with Cons.prems have "it \<in> set its" by simp
      moreover from this have "item_id it \<in> item_id ` set its" by simp
      ultimately have "item_id it \<noteq> item_id x" "it \<in> set its" using Cons.prems(1) by (metis distinct.simps(2) image_set list.simps(9), simp)
      with Cons.IH Cons.prems show ?thesis by (simp split: option.splits)
    qed
  qed simp
qed

lemma fold_py_request_objects:
  "fold (\<lambda>(attr, d). attach_one attr d) (List.map_filter (collect_py_objects its) names) it =
   fold (\<lambda>attr. attach_one attr (collect_dict attr its [])) names it"
  by (induction names arbitrary: it) (simp_all add: map_filter_simps collect_py_objects_def Let_def)

lemma attach_restores:
  assumes "distinct (map item_id its)" "it \<in> set its" "is_normal_request it" "request it \<noteq> None"
  shows "get_attr a (fold (\<lambda>(attr, d). attach_one attr d) (py_request_objects its) (strip_attrs it)) = get_attr a it"
proof -
  have r: "request (strip_attrs it) \<noteq> None" "item_id (strip_attrs it) = item_id it"
    using assms(4) by (auto simp: strip_attrs_def)
  show ?thesis unfolding py_request_objects_def fold_py_request_objects fold_attach[OF r(1)]
    using collect_dict_lookup[OF assms(1-3), of a "[]"] r(2) by (auto simp: get_attr_strip split: option.splits)
qed

section \<open>Distribution over attention data-parallel ranks\<close>

definition load_of :: "'o assignment \<Rightarrow> int \<Rightarrow> int" where
  "load_of a r = (case map_of a r of None \<Rightarrow> 0 | Some its \<Rightarrow> int (length its))"

definition assigned :: "'o assignment \<Rightarrow> 'o queue_item multiset" where
  "assigned a = mset (concat (map snd a))"

lemma load_of_absent: "r \<notin> set (keys_of a) \<Longrightarrow> load_of a r = 0"
  using map_of_eq_None_iff[of a r] by (simp add: load_of_def)

lemma size_assigned: "distinct (keys_of a) \<Longrightarrow> int (size (assigned a)) = (\<Sum>r\<leftarrow>keys_of a. load_of a r)"
proof (induction a)
  case (Cons e a)
  have "map (load_of (e # a)) (keys_of a) = map (load_of a) (keys_of a)"
  proof (rule map_cong[OF refl])
    fix r assume "r \<in> set (keys_of a)"
    then have "r \<noteq> fst e" using Cons.prems by (metis distinct.simps(2) list.simps(9))
    then show "load_of (e # a) r = load_of a r" by (simp add: load_of_def)
  qed
  moreover have "load_of (e # a) (fst e) = int (length (snd e))" by (simp add: load_of_def)
  ultimately have "(\<Sum>r\<leftarrow>keys_of (e # a). load_of (e # a) r) = int (length (snd e)) + (\<Sum>r\<leftarrow>keys_of a. load_of a r)"
    by (simp only: list.map sum_list.Cons)
  with Cons show ?case by (simp add: assigned_def)
qed (simp add: assigned_def)

lemma assigned_update:
  "distinct (keys_of a) \<Longrightarrow> map_of a r = Some old \<Longrightarrow>
   assigned (AList.update r (old @ its) a) = assigned a + mset its"
  by (induction a) (auto simp: assigned_def)

lemma assign_to_ok:
  assumes "distinct (keys_of a)" "r \<in> set (keys_of a)"
  obtains a' where "assign_to r its a = Inr a'" "keys_of a' = keys_of a" "assigned a' = assigned a + mset its"
    "\<And>k. load_of a' k = load_of a k + (if k = r then int (length its) else 0)"
proof -
  from assms(2) obtain old where old: "map_of a r = Some old"
    by (metis map_of_eq_None_iff not_None_eq set_map)
  show ?thesis
  proof (rule that[of "AList.update r (old @ its) a"])
    show "assign_to r its a = Inr (AList.update r (old @ its) a)" using old by (simp add: assign_to_def)
    show "keys_of (AList.update r (old @ its) a) = keys_of a"
      using assms(2) by (simp add: update_keys)
    show "assigned (AList.update r (old @ its) a) = assigned a + mset its"
      using assigned_update[OF assms(1) old] .
  qed (use old in \<open>auto simp: load_of_def\<close>)
qed

definition target_rank :: "'o queue_item \<Rightarrow> int option" where
  "target_rank it = (case py_scheduling_params it of None \<Rightarrow> None | Some p \<Rightarrow> attention_dp_rank p)"

definition targets_ok :: "int \<Rightarrow> 'o queue_item list \<Rightarrow> bool" where
  \<comment> \<open>every requested rank is a rank of the group\<close>
  "targets_ok tp its \<longleftrightarrow>
     list_all (\<lambda>it. case target_rank it of None \<Rightarrow> True | Some t \<Rightarrow> 0 \<le> t \<and> t < tp) its"

lemma place_targets_ok:
  assumes "targets_ok tp its" "length cs = nat tp" "distinct (keys_of a)" "set (keys_of a) = {0..<tp}"
  shows "\<exists>rem cs' a'. place_targets ma its cs a = Inr (rem, cs', a') \<and> length cs' = nat tp \<and> keys_of a' = keys_of a
    \<and> mset rem + assigned a' = mset its + assigned a
    \<and> (\<forall>r. 0 \<le> r \<and> r < tp \<longrightarrow> cs' ! nat r = cs ! nat r + load_of a' r - load_of a r
         \<and> cs' ! nat r \<le> max ma (cs ! nat r))"
  using assms
proof (induction its arbitrary: cs a)
  case (Cons it its)
  from Cons.prems(1) have its: "targets_ok tp its" by (simp add: targets_ok_def)
  show ?case
  proof (cases "target_rank it")
    case None
    with Cons.IH[OF its Cons.prems(2-4)] show ?thesis by (force simp: target_rank_def)
  next
    case (Some t)
    with Cons.prems(1) have t: "0 \<le> t" "t < tp" by (auto simp: targets_ok_def)
    then have ix: "py_index cs t = Inr (cs ! nat t)" using Cons.prems(2) by simp
    show ?thesis
    proof (cases "cs ! nat t < ma")
      case False
      with Cons.IH[OF its Cons.prems(2-4)] Some ix show ?thesis by (force simp: target_rank_def)
    next
      case True
      have st: "py_set cs t (cs ! nat t + 1) = Inr (cs[nat t := cs ! nat t + 1])"
        using ix t by (simp add: py_set_def py_pos_def)
      obtain a1 where a1: "assign_to t [it] a = Inr a1" "keys_of a1 = keys_of a" "assigned a1 = assigned a + mset [it]"
        "\<And>k. load_of a1 k = load_of a k + (if k = t then int (length [it]) else 0)"
        using assign_to_ok[OF Cons.prems(3), of t "[it]"] Cons.prems(4) t by auto
      have "length (cs[nat t := cs ! nat t + 1]) = nat tp" "distinct (keys_of a1)" "set (keys_of a1) = {0..<tp}"
        using Cons.prems(2-4) unfolding a1(2) by simp_all
      from Cons.IH[OF its this]
      obtain rem cs' a' where r: "place_targets ma its (cs[nat t := cs ! nat t + 1]) a1 = Inr (rem, cs', a')"
        "length cs' = nat tp" "keys_of a' = keys_of a1" "mset rem + assigned a' = mset its + assigned a1"
        and c: "\<forall>r. 0 \<le> r \<and> r < tp \<longrightarrow> cs' ! nat r = cs[nat t := cs ! nat t + 1] ! nat r + load_of a' r - load_of a1 r
          \<and> cs' ! nat r \<le> max ma (cs[nat t := cs ! nat t + 1] ! nat r)" by (elim exE conjE) (rule that)
      have "place_targets ma (it # its) cs a = Inr (rem, cs', a')"
        using Some True ix st a1(1) r(1) by (simp add: target_rank_def)
      moreover have "\<forall>r. 0 \<le> r \<and> r < tp \<longrightarrow> cs' ! nat r = cs ! nat r + load_of a' r - load_of a r \<and> cs' ! nat r \<le> max ma (cs ! nat r)"
      proof (intro allI impI)
        fix r assume "0 \<le> r \<and> r < tp"
        then show "cs' ! nat r = cs ! nat r + load_of a' r - load_of a r \<and> cs' ! nat r \<le> max ma (cs ! nat r)"
          using c[rule_format, of r] a1(4)[of r] t True Cons.prems(2) by (cases "r = t") (auto simp: nth_list_update eq_nat_nat_iff)
      qed
      moreover have "keys_of a' = keys_of a" "mset rem + assigned a' = mset (it # its) + assigned a"
        using r(3,4) a1(2,3) by simp_all
      ultimately show ?thesis using r(2) by blast
    qed
  qed
qed auto

lemma expected_covers:
  assumes "0 < tp" "length cs = nat tp"
  obtains e where "expected_num_active tp n cs = Inr e" "sum_list cs + int n \<le> tp * e" "\<And>r. r < nat tp \<Longrightarrow> cs ! r \<le> e"
    "\<And>m. sum_list cs + int n \<le> tp * m \<Longrightarrow> (\<And>r. r < nat tp \<Longrightarrow> cs ! r \<le> m) \<Longrightarrow> e \<le> m"
proof -
  define avg where "avg = (sum_list cs + int n + tp - 1) div tp"
  have ne: "cs \<noteq> []" using assms by auto
  have avg: "avg * tp \<le> sum_list cs + int n + tp - 1" "sum_list cs + int n + tp - 1 < (avg + 1) * tp"
    using int_div_eq_iff[OF assms(1), THEN iffD1, OF avg_def[symmetric]] by simp_all
  have le: "sum_list cs + int n \<le> tp * avg" using avg(2) by (simp add: algebra_simps)
  show ?thesis
  proof (rule that[of "max avg (Max (set cs))"])
    show "expected_num_active tp n cs = Inr (max avg (Max (set cs)))"
      using assms(1) ne by (simp add: expected_num_active_def avg_def)
    have "tp * avg \<le> tp * max avg (Max (set cs))" using assms(1) by (intro mult_left_mono) auto
    then show "sum_list cs + int n \<le> tp * max avg (Max (set cs))" using le by simp
    show "cs ! r \<le> max avg (Max (set cs))" if "r < nat tp" for r
      using that assms(2) by (simp add: le_max_iff_disj)
    show "max avg (Max (set cs)) \<le> m" if m: "sum_list cs + int n \<le> tp * m" "\<And>r. r < nat tp \<Longrightarrow> cs ! r \<le> m" for m
    proof -
      have "avg < m + 1" unfolding avg_def using m(1) assms(1)
        by (intro int_div_less) (simp_all add: algebra_simps)
      moreover have "Max (set cs) \<le> m" using m(2) assms(2) ne by (auto simp: in_set_conv_nth)
      ultimately show ?thesis by simp
    qed
  qed
qed

definition heap_ok :: "int \<Rightarrow> (int \<Rightarrow> int) \<Rightarrow> 'o assignment \<Rightarrow> heap_val list \<Rightarrow> bool" where
  \<comment> \<open>one entry per open rank, with the number of requests that the rank has so far\<close>
  "heap_ok expected base a h \<longleftrightarrow> distinct (map (snd \<circ> snd) h) \<and>
     (\<forall>(t, n, r) \<in> set h. r \<in> set (keys_of a) \<and> n < expected \<and> n = base r + load_of a r)"

abbreviation room :: "int \<Rightarrow> heap_val list \<Rightarrow> int" where
  "room expected h \<equiv> (\<Sum>(t, n, r)\<leftarrow>h. expected - n)"

lemma room_mset: "mset h = mset h' \<Longrightarrow> room e h = room e h'"
  by (simp flip: sum_mset_sum_list)

lemma heap_ok_mset: "mset h = mset h' \<Longrightarrow> heap_ok e base a h = heap_ok e base a h'"
proof -
  assume m: "mset h = mset h'"
  then have "mset (map (snd \<circ> snd) h) = mset (map (snd \<circ> snd) h')" by simp
  then have "distinct (map (snd \<circ> snd) h) = distinct (map (snd \<circ> snd) h')" by (rule mset_eq_imp_distinct_iff)
  then show ?thesis using mset_eq_setD[OF m] by (simp add: heap_ok_def)
qed

lemma balance_loop_ok:
  assumes "sorted h" "heap_ok e base a h" "distinct (keys_of a)" "int (length its) \<le> room e h"
    "\<And>r. r \<in> set (keys_of a) \<Longrightarrow> base r + load_of a r \<le> e"
  shows "\<exists>a'. balance_loop e its h a = Inr a' \<and> keys_of a' = keys_of a \<and> assigned a' = assigned a + mset its
    \<and> (\<forall>r \<in> set (keys_of a). base r + load_of a' r \<le> e)"
  using assms
proof (induction its arbitrary: h a)
  case (Cons it its)
  have "mset h \<noteq> {#}" using Cons.prems(4) by auto
  then obtain t n r h1 where pop: "heappop h = Inr ((t, n, r), h1)" "sorted h1" "mset h = mset ((t, n, r) # h1)"
    using heapq.pop_cases[OF Cons.prems(1)] by (metis mset.simps(2) prod_cases3)
  have ok: "heap_ok e base a ((t, n, r) # h1)" using Cons.prems(2) pop(3) heap_ok_mset by blast
  have rm: "room e h = e - n + room e h1" using room_mset[OF pop(3)] by simp
  from ok have r: "r \<in> set (keys_of a)" "n < e" "n = base r + load_of a r" "r \<notin> snd ` snd ` set h1"
    by (auto simp: heap_ok_def image_comp)
  obtain a1 where a1: "assign_to r [it] a = Inr a1" "keys_of a1 = keys_of a" "assigned a1 = assigned a + mset [it]"
    "\<And>k. load_of a1 k = load_of a k + (if k = r then int (length [it]) else 0)"
    using assign_to_ok[OF Cons.prems(3) r(1)] by blast
  define h2 where "h2 = (if n + 1 < e then heappush (t + token_count it, n + 1, r) h1 else h1)"
  have h1: "heap_ok e base a1 h1" using ok r(4) a1(2,4) by (force simp: heap_ok_def image_comp)
  have "heap_ok e base a1 ((t + token_count it, n + 1, r) # h1)" if "n + 1 < e"
    using that h1 r a1(2,4) by (simp add: heap_ok_def image_comp)
  then have ok2: "heap_ok e base a1 h2"
    using h1 heapq.push_ok(2)[OF pop(2)] heap_ok_mset[of "heappush (t + token_count it, n + 1, r) h1" "(t + token_count it, n + 1, r) # h1" e base a1]
    by (simp add: h2_def)
  have rm2: "room e h2 = e - (n + 1) + room e h1"
    using r(2) heapq.push_ok(2)[OF pop(2)] room_mset[of "heappush (t + token_count it, n + 1, r) h1" "(t + token_count it, n + 1, r) # h1" e]
    by (simp add: h2_def)
  have "\<exists>a'. balance_loop e its h2 a1 = Inr a' \<and> keys_of a' = keys_of a1 \<and> assigned a' = assigned a1 + mset its
    \<and> (\<forall>r \<in> set (keys_of a1). base r + load_of a' r \<le> e)"
  proof (rule Cons.IH[OF _ ok2])
    show "sorted h2" using pop(2) heapq.push_ok(1)[OF pop(2)] by (simp add: h2_def)
    show "int (length its) \<le> room e h2" using Cons.prems(4) rm rm2 by simp
    show "base k + load_of a1 k \<le> e" if "k \<in> set (keys_of a1)" for k
      using Cons.prems(5)[of k] that a1(2,4) r(2,3) by simp
  qed (use a1(2) Cons.prems(3) in simp)
  with pop(1) a1 show ?case by (force simp: h2_def)
qed auto

lemma extend_all_ok:
  assumes "distinct (keys_of s)" "set (keys_of s) \<subseteq> set (keys_of a)" "distinct (keys_of a)"
  shows "\<exists>a'. extend_all s a = Inr a' \<and> keys_of a' = keys_of a \<and> assigned a' = assigned a + assigned s
    \<and> (\<forall>r. load_of a' r = load_of a r + load_of s r)"
  using assms
proof (induction s arbitrary: a)
  case (Cons e s)
  obtain r its where e: "e = (r, its)" by (cases e)
  obtain a1 where a1: "assign_to r its a = Inr a1" "keys_of a1 = keys_of a" "assigned a1 = assigned a + mset its"
    "\<And>k. load_of a1 k = load_of a k + (if k = r then int (length its) else 0)"
    using assign_to_ok[OF Cons.prems(3), of r its] Cons.prems(2) e by auto
  from Cons.IH[of a1] Cons.prems a1(2) obtain a' where
    a': "extend_all s a1 = Inr a'" "keys_of a' = keys_of a" "assigned a' = assigned a1 + assigned s"
    "\<And>r. load_of a' r = load_of a1 r + load_of s r" by auto
  have "load_of s r = 0" using Cons.prems(1) e by (intro load_of_absent) simp
  then show ?case using a1 a' e by (auto simp: assigned_def load_of_def)
qed (auto simp: assigned_def load_of_def)

lemma room_all_ranks:
  assumes "\<And>r. r \<in> set rs \<Longrightarrow> n r \<le> e"
  shows "room e (filter (\<lambda>(t, n, r). n < e) (map (\<lambda>r. (t r, n r, r)) rs)) = int (length rs) * e - (\<Sum>r\<leftarrow>rs. n r)"
  using assms by (induction rs) (force simp: algebra_simps)+

lemma balance_ok:
  assumes new: "new \<noteq> []" and len: "length cs = nat tp" "length tokens = nat tp" "0 < tp"
    and fits: "sum_list cs + int (length new) \<le> tp * e" and le: "\<And>r. r < nat tp \<Longrightarrow> cs ! r \<le> e"
    and a: "distinct (keys_of a)" "set (keys_of a) = {0..<tp}"
  shows "\<exists>a'. balance_requests_across_ranks e new a cs tokens = Inr a' \<and> keys_of a' = keys_of a
    \<and> assigned a' = assigned a + mset new \<and> (\<forall>r. 0 \<le> r \<and> r < tp \<longrightarrow> cs ! nat r + load_of a' r - load_of a r \<le> e)"
proof -
  define vals where "vals = map (\<lambda>r. (tokens ! nat r, cs ! nat r, r)) (py_range 0 tp)"
  define heap where "heap = filter (\<lambda>(t, n, r). n < e) vals"
  define s0 :: "'a assignment" where "s0 = map (\<lambda>(t, n, r). (r, [])) heap"
  have vals: "res_map (\<lambda>r. res_bind (py_index tokens r) (\<lambda>t. Inr (t, cs ! nat r, r))) (py_range 0 (int (length cs))) = Inr vals"
    unfolding vals_def using len by (intro res_map_total[THEN trans]) auto
  have keys0: "keys_of s0 = map (snd \<circ> snd) heap" by (auto simp: s0_def)
  have sub: "set heap \<subseteq> set vals" by (simp add: heap_def)
  have d: "distinct (map (snd \<circ> snd) heap)" unfolding heap_def
    by (intro distinct_map_filter) (simp add: vals_def comp_def)
  have load0: "load_of s0 r = 0" for r
    by (auto simp: load_of_def s0_def split: option.splits dest!: map_of_SomeD)
  have sum: "(\<Sum>r\<leftarrow>py_range 0 tp. cs ! nat r) = sum_list cs"
    using len by (simp add: py_range_zero comp_def map_nth flip: len(1))
  have rm: "room e heap = tp * e - sum_list cs" unfolding heap_def vals_def
    by (subst room_all_ranks) (use len le sum in auto)
  have "\<exists>s. balance_loop e (sorted_desc token_count new) (heapify heap) s0 = Inr s \<and> keys_of s = keys_of s0
    \<and> assigned s = assigned s0 + mset (sorted_desc token_count new)
    \<and> (\<forall>r \<in> set (keys_of s0). cs ! nat r + load_of s r \<le> e)"
  proof (rule balance_loop_ok)
    show "sorted (heapify heap)" by (rule heapq.make_ok(1))
    have "heap_ok e (\<lambda>r. cs ! nat r) s0 heap" unfolding heap_ok_def keys0
      using d load0 by (force simp: heap_def vals_def)
    then show "heap_ok e (\<lambda>r. cs ! nat r) s0 (heapify heap)"
      using heap_ok_mset[OF heapq.make_ok(2)[of heap], of e "\<lambda>r. cs ! nat r" s0] by simp
    show "distinct (keys_of s0)" using d keys0 by simp
    show "int (length (sorted_desc token_count new)) \<le> room e (heapify heap)"
      using room_mset[OF heapq.make_ok(2)[of heap]] rm fits by (simp add: sorted_desc_def)
    show "cs ! nat r + load_of s0 r \<le> e" if "r \<in> set (keys_of s0)" for r
      using that load0 sub by (auto simp: keys0 vals_def heap_def)
  qed
  then obtain s where s: "balance_loop e (sorted_desc token_count new) (heapify heap) s0 = Inr s" "keys_of s = keys_of s0"
    "assigned s = assigned s0 + mset new" "\<And>r. r \<in> set (keys_of s0) \<Longrightarrow> cs ! nat r + load_of s r \<le> e"
    by (auto simp: sorted_desc_def)
  have "distinct (keys_of s)" "set (keys_of s) \<subseteq> set (keys_of a)"
    using s(2) d keys0 sub a(2) by (auto simp: vals_def)
  from extend_all_ok[OF this a(1)] obtain a' where a': "extend_all s a = Inr a'" "keys_of a' = keys_of a"
    "assigned a' = assigned a + assigned s" "\<And>r. load_of a' r = load_of a r + load_of s r" by blast
  have "cs ! nat r + load_of s r \<le> e" if r: "0 \<le> r" "r < tp" for r
  proof (cases "r \<in> set (keys_of s)")
    case True
    then show ?thesis using s(2,4) by simp
  next
    case False
    then have "load_of s r = 0" by (rule load_of_absent)
    then show ?thesis using le[of "nat r"] r by simp
  qed
  moreover have "assigned s0 = {#}" by (induction heap) (auto simp: assigned_def s0_def)
  ultimately show ?thesis using new vals s(1,3) a' by (auto simp: balance_requests_across_ranks_def heap_def s0_def)
qed

lemma placed_sum:
  assumes tp: "0 < tp" "length cs = nat tp" "length cs' = nat tp" and k: "keys_of a = py_range 0 tp"
    and c: "\<And>r. 0 \<le> r \<Longrightarrow> r < tp \<Longrightarrow> cs' ! nat r = cs ! nat r + load_of a r"
  shows "sum_list cs' = sum_list cs + int (size (assigned a))"
proof -
  have "cs' ! i = cs ! i + load_of a (int i)" if "i < nat tp" for i using c[of "int i"] that by simp
  then have "sum_list cs' = (\<Sum>r\<leftarrow>py_range 0 tp. cs ! nat r + load_of a r)"
    using tp(3) by (intro arg_cong[of _ _ sum_list] nth_equalityI) auto
  also have "\<dots> = (\<Sum>r\<leftarrow>py_range 0 tp. cs ! nat r) + int (size (assigned a))"
    using size_assigned[of a] k by (simp add: sum_list_addf)
  also have "(\<Sum>r\<leftarrow>py_range 0 tp. cs ! nat r) = sum_list cs"
    using tp by (simp add: py_range_zero comp_def map_nth flip: tp(2))
  finally show ?thesis .
qed

lemma get_relax_value_None: "get_relax_value it = None \<longleftrightarrow> (\<exists>p. py_scheduling_params it = Some p \<and> attention_dp_relax p = None)"
  by (simp add: get_relax_value_def split: option.splits)

lemma sort_by_relax_cases:
  "if length new \<ge> 2 \<and> (\<exists>it p. it \<in> set new \<and> py_scheduling_params it = Some p \<and> attention_dp_relax p = None)
   then sort_by_relax new = Inl TypeError else sort_by_relax new = Inr (sorted_desc (\<lambda>it. get_relax_value it = Some True) new)"
  unfolding sort_by_relax_def list_ex_iff Bex_def get_relax_value_None by auto

lemma schedule_ok:
  assumes tp: "0 < tp" "length cs = nat tp" "length tokens = nat tp" and t: "targets_ok tp new" and sr: "sort_by_relax new = Inr srt"
  obtains a e where "schedule_attention_dp_requests tp ma new cs tokens = Inr (a, e)" "keys_of a = py_range 0 tp"
    "assigned a = mset new" "\<And>r. 0 \<le> r \<Longrightarrow> r < tp \<Longrightarrow> cs ! nat r + load_of a r \<le> e"
    "(\<And>r. r < nat tp \<Longrightarrow> cs ! r \<le> ma) \<Longrightarrow> sum_list cs + int (length new) \<le> tp * ma \<Longrightarrow> e \<le> ma"
proof -
  define a0 :: "'a assignment" where "a0 = map (\<lambda>r. (r, [])) (py_range 0 tp)"
  have k0: "keys_of a0 = py_range 0 tp" by (simp add: a0_def comp_def)
  have load0: "load_of a0 r = 0" for r 
    by (auto simp: load_of_def a0_def split: option.splits dest!: map_of_SomeD)
  have as0: "assigned a0 = {#}" by (simp add: assigned_def a0_def comp_def)
  have srt: "mset srt = mset new" "targets_ok tp srt" using t sr by (auto simp: sort_by_relax_def sorted_desc_def targets_ok_def list_all_iff split: if_splits)
  from place_targets_ok[OF srt(2) tp(2), of a0 ma] k0 obtain rem cs' a1 where
    p: "place_targets ma srt cs a0 = Inr (rem, cs', a1)" "length cs' = nat tp" "keys_of a1 = py_range 0 tp"
      "mset rem + assigned a1 = mset srt + assigned a0"
    and c: "\<forall>r. 0 \<le> r \<and> r < tp \<longrightarrow> cs' ! nat r = cs ! nat r + load_of a1 r - load_of a0 r \<and> cs' ! nat r \<le> max ma (cs ! nat r)"
    by auto
  have c': "cs' ! nat r = cs ! nat r + load_of a1 r" if "0 \<le> r" "r < tp" for r using c that load0 by simp
  obtain e where e: "expected_num_active tp (length rem) cs' = Inr e" "sum_list cs' + int (length rem) \<le> tp * e"
    "\<And>r. r < nat tp \<Longrightarrow> cs' ! r \<le> e"
    "\<And>m. sum_list cs' + int (length rem) \<le> tp * m \<Longrightarrow> (\<And>r. r < nat tp \<Longrightarrow> cs' ! r \<le> m) \<Longrightarrow> e \<le> m"
    using expected_covers[OF tp(1) p(2)] by blast
  have "\<exists>a. balance_requests_across_ranks e rem a1 cs' tokens = Inr a \<and> keys_of a = keys_of a1
    \<and> assigned a = assigned a1 + mset rem \<and> (\<forall>r. 0 \<le> r \<and> r < tp \<longrightarrow> cs' ! nat r + load_of a r - load_of a1 r \<le> e)"
  proof (cases "rem = []")
    case True
    then show ?thesis using e(3) by (simp add: balance_requests_across_ranks_def)
  next
    case False
    then show ?thesis using balance_ok[OF False p(2) tp(3) tp(1) e(2,3), of a1] p(3) by simp
  qed
  then obtain a where a: "balance_requests_across_ranks e rem a1 cs' tokens = Inr a" "keys_of a = py_range 0 tp"
    "assigned a = assigned a1 + mset rem" and la: "\<And>r. 0 \<le> r \<Longrightarrow> r < tp \<Longrightarrow> cs' ! nat r + load_of a r - load_of a1 r \<le> e"
    using p(3) by auto
  show thesis
  proof (rule that[of a e])
    show "schedule_attention_dp_requests tp ma new cs tokens = Inr (a, e)"
      using p(1) e(1) a(1) by (simp add: schedule_attention_dp_requests_def sr a0_def)
    show "keys_of a = py_range 0 tp" by (rule a(2))
    show "assigned a = mset new" using a(3) p(4) srt(1) as0 by (simp add: add.commute)
    show "cs ! nat r + load_of a r \<le> e" if "0 \<le> r" "r < tp" for r using la[OF that] c'[OF that] by simp
    show "e \<le> ma" if m: "\<And>r. r < nat tp \<Longrightarrow> cs ! r \<le> ma" "sum_list cs + int (length new) \<le> tp * ma"
    proof (rule e(4))
      have "sum_list cs' + int (length rem) = sum_list cs + int (size (mset rem + assigned a1))"
        using placed_sum[OF tp(1,2) p(2,3) c'] by simp
      also have "\<dots> = sum_list cs + int (length new)" using p(4) srt(1) as0 by simp
      finally show "sum_list cs' + int (length rem) \<le> tp * ma" using m(2) by simp
      show "cs' ! r \<le> ma" if "r < nat tp" for r
      proof -
        have "int r < tp" using that by simp
        then have "cs' ! r \<le> max ma (cs ! r)" using conjunct2[OF c[THEN spec[of _ "int r"], THEN mp]] by simp
        then show ?thesis using m(1)[OF that] by simp
      qed
    qed
  qed
qed

section \<open>Queue latency\<close>

lemma pop_children_effect:
  assumes "distinct st" "pop_children cs st = Inr st'"
  shows "distinct st' \<and> set st' = set st - set cs"
  using assms
proof (induction cs arbitrary: st)
  case (Cons c cs)
  then show ?case using Cons.IH[of "remove1 c st"] by (auto split: if_splits)
qed simp

lemma pop_children_missing: "c \<in> set cs \<Longrightarrow> c \<notin> set st \<Longrightarrow> pop_children cs st = Inl KeyError"
  by (induction cs arbitrary: st) (auto dest: notin_set_remove1)

lemma update_queue_latency_effect:
  assumes "distinct st" "update_queue_latency its st = Inr st'"
  shows "distinct st' \<and> set st' = set st - (\<Union>it\<in>set its. set (req_ids it))"
  using assms
proof (induction its arbitrary: st)
  case (Cons it its)
  define st0 where "st0 = remove1 (item_id it) st"
  from Cons.prems(2) obtain st1 where s1: "pop_children (child_ids it) st0 = Inr st1" "update_queue_latency its st1 = Inr st'"
    by (auto simp: child_ids_def st0_def remove1_idem split: if_splits)
  have "distinct st0" "set st0 = set st - {item_id it}" using Cons.prems(1) by (simp_all add: st0_def)
  with pop_children_effect[OF _ s1(1)] Cons.IH[OF _ s1(2)] show ?case by auto
qed simp

lemma update_queue_latency_missing:
  "it \<in> set its \<Longrightarrow> c \<in> set (child_ids it) \<Longrightarrow> c \<notin> set st \<Longrightarrow> distinct st \<Longrightarrow> update_queue_latency its st = Inl KeyError"
proof (induction its arbitrary: st)
  case (Cons x its)
  define st0 where "st0 = remove1 (item_id x) st"
  have u: "update_queue_latency (x # its) st = res_bind (pop_children (child_ids x) st0) (update_queue_latency its)"
    by (simp add: child_ids_def st0_def remove1_idem)
  have st0: "c \<notin> set st0" "distinct st0" using Cons.prems by (auto simp: st0_def dest: notin_set_remove1)
  show ?case
  proof (cases "pop_children (child_ids x) st0")
    case (Inl e)
    have "pop_children cs st = Inl e \<Longrightarrow> e = KeyError" for cs and st :: "int list" by (induction cs arbitrary: st) (auto split: if_splits)
    with Inl u show ?thesis by auto
  next
    case (Inr st1)
    show ?thesis
    proof (cases "it = x")
      case True
      with Inr Cons.prems(2) st0 pop_children_missing show ?thesis by fastforce
    next
      case False
      with Cons.prems(1) have "it \<in> set its" by simp
      with Cons.IH[OF this Cons.prems(2)] pop_children_effect[OF st0(2) Inr] st0(1) Inr show ?thesis
        unfolding u by simp
    qed
  qed
qed simp

section \<open>Properties\<close>

lemma get_from_waiting_cases:
  assumes "get_from_waiting_queue ma q mr counts = Inr (items, wq)"
  obtains (none) "mr \<le> 0" "items = []" "wq = q"
  | (loop) pending rest where "mr > 0" "waiting_loop ma mr q 0 counts = Inr (items, pending, rest)" "wq = pending @ rest"
  using assms by (cases "mr \<le> 0") (auto simp: get_from_waiting_queue_def)

text \<open>
  C18: what a fetch takes from the waiting queue. The taken requests and the new waiting queue together
  are the old waiting queue, both in arrival order; counting children, no more than \<open>max_req_count\<close>
  requests are taken. Without attention data parallelism the requests are the longest prefix that fits.
  With it, the requests taken that insist on a rank do not push that rank over the limit of active
  requests.
\<close>

theorem waiting_queue_batch:
  assumes "get_from_waiting_queue ma q mr counts = Inr (items, wq)"
  shows "mset items + mset wq = mset q \<and> subseq items q \<and> subseq wq q \<and> batch_size items \<le> max 0 mr
    \<and> (counts = None \<longrightarrow> items @ wq = q \<and> (wq = [] \<or> mr < batch_size items + 1 + num_children (hd wq)))
    \<and> (\<forall>cs r. counts = Some cs \<and> r < length cs \<longrightarrow>
      cs ! r + int (length (filter (pinned_to (length cs) r) items)) \<le> max ma (cs ! r))"
  using assms
proof (cases rule: get_from_waiting_cases)
  case none
  then show ?thesis using num_children_nonneg[of "hd q"] by simp
next
  case (loop pending rest)
  have "mset items + mset wq = mset q" "subseq items q" "subseq wq q" "batch_size items \<le> max 0 mr"
    using waiting_loop_partition[OF loop(2)] loop(1,3) by (auto simp: add.assoc)
  moreover have "items @ wq = q \<and> (wq = [] \<or> mr < batch_size items + 1 + num_children (hd wq))" if "counts = None"
    using waiting_loop_prefix[of ma mr q 0] that loop by auto
  moreover have "cs ! r + int (length (filter (pinned_to (length cs) r) items)) \<le> max ma (cs ! r)"
    if "counts = Some cs" "r < length cs" for cs r
    using waiting_loop_pinned[of ma mr q 0 cs items pending rest r] loop(2) that by simp
  ultimately show ?thesis by blast
qed

text \<open>
  Enqueueing hands out consecutive 64-bit ids, one per request followed by one per child, and appends
  one item per request in order. The ids of one call are distinct as long as it needs no more than
  \<open>2 ^ 64\<close> of them; a queue that was shut down refuses.
\<close>

theorem enqueue_hands_out_ids:
  fixes rs :: "('o exec_request \<times> int list option) list"
  assumes "rq_active q" "id_ok q"
  defines "n \<equiv> (\<Sum>(r, _)\<leftarrow>rs. ids_needed r)"
  shows "\<exists>its q'. enqueue_impl rs q = (Inr (map item_id its), q') \<and> rq_items q' = rq_items q @ its
    \<and> map request its = map (\<lambda>(r, _). Some r) rs
    \<and> concat (map req_ids its) = id_range (next_request_id q) n
    \<and> (n \<le> 2 ^ 64 \<longrightarrow> distinct (concat (map req_ids its)))
    \<and> next_request_id q' = (next_request_id q + int n) mod 2 ^ 64 \<and> id_ok q'"
proof -
  obtain "is" q' where l: "enqueue_loop rs q = (is, q')" by (cases "enqueue_loop rs q")
  from enqueue_loop_effect[OF assms(2) l] obtain its where
    its: "q' = (ids_taken q n)\<lparr>rq_items := rq_items q @ its\<rparr>" "map item_id its = is"
      "map (\<lambda>it. (request it, item_query it)) its = map (\<lambda>(r, qry). (Some r, qry)) rs"
      "concat (map req_ids its) = id_range (next_request_id q) n" unfolding n_def by blast
  have "map fst (map (\<lambda>it. (request it, item_query it)) its) = map fst (map (\<lambda>(r, qry). (Some r, qry)) rs)"
    using its(3) by simp
  then have "map request its = map (\<lambda>(r, _). Some r) rs" by (simp add: comp_def case_prod_beta)
  moreover have "id_ok q'" "next_request_id q' = (next_request_id q + int n) mod 2 ^ 64"
    using its(1) by (simp_all add: id_ok_def)
  ultimately show ?thesis using l its assms(1) distinct_id_range
    by (intro exI[of _ its] exI[of _ q']) (auto simp: enqueue_impl_def)
qed

text \<open>
  The new items are read up to the first shutdown or control item. Before it, normal items are
  accepted in order and cancellations are recorded; on rank 0 the items behind a control item are kept
  for the next fetch, so nothing but the items behind a shutdown is lost.
\<close>

theorem special_items_split:
  assumes "handle_special_queue_items its q = (acc, q')" "rq_rank q = 0"
  shows "\<exists>run rest. its = run @ rest \<and> list_all (\<lambda>it. \<not> stops_queue it) run \<and> acc = filter is_normal_request run
    \<and> canceled_req_ids q' = canceled_req_ids q @ map item_id (filter is_canceled_request run)
    \<and> mset run = mset acc + mset (filter is_canceled_request run)
    \<and> waiting_queue q' = waiting_queue q
    \<and> (case rest of
         [] \<Rightarrow> rq_shutdown q' = rq_shutdown q \<and> control_requests q' = control_requests q
                \<and> request_accumulated q' = request_accumulated q
       | it # later \<Rightarrow>
           if is_shutdown_request it then rq_shutdown q'
           else is_control_request it \<and> control_requests q' = control_requests q @ [it]
             \<and> request_accumulated q' = request_accumulated q @ later)"
proof -
  define run where "run = takeWhile (\<lambda>it. \<not> stops_queue it) its"
  define rest where "rest = dropWhile (\<lambda>it. \<not> stops_queue it) its"
  note eff = special_items_effect[OF assms(1), folded run_def rest_def]
  have run: "list_all (\<lambda>it. \<not> stops_queue it) run" by (auto simp: run_def list_all_iff dest: set_takeWhileD)
  have nc: "is_normal_request it \<longleftrightarrow> \<not> is_canceled_request it" if "it \<in> set run" for it
    using run that by (auto simp: list_all_iff is_normal_request_def stops_queue_def)
  have "filter is_normal_request run = filter (\<lambda>it. \<not> is_canceled_request it) run"
    using nc by (rule filter_cong[OF refl])
  then have m: "mset run = mset (filter is_normal_request run) + mset (filter is_canceled_request run)"
    by (simp add: union_commute flip: multiset_partition)
  have hd: "stops_queue it" if "rest = it # later" for it later
    using that unfolding rest_def by (metis hd_dropWhile list.sel(1) list.distinct(1))
  show ?thesis
  proof (intro exI conjI)
    show "its = run @ rest" by (simp add: run_def rest_def)
    show "case rest of
         [] \<Rightarrow> rq_shutdown q' = rq_shutdown q \<and> control_requests q' = control_requests q
                \<and> request_accumulated q' = request_accumulated q
       | it # later \<Rightarrow>
           if is_shutdown_request it then rq_shutdown q'
           else is_control_request it \<and> control_requests q' = control_requests q @ [it]
             \<and> request_accumulated q' = request_accumulated q @ later"
      using eff assms(2) hd by (auto simp: stops_queue_def Let_def split: list.splits)
  qed (use run eff m in \<open>auto simp: Let_def split: list.splits\<close>)
qed

text \<open>
  The Python objects survive the broadcast. Rank 0 collects them from the items it sends; after
  attaching them to the stripped items, every request of every other rank has each attribute it had on
  rank 0, for normal items with distinct ids.
\<close>

theorem attached_objects_roundtrip:
  assumes "distinct (map item_id its)" "set acc \<subseteq> set its"
    and "list_all (\<lambda>it. is_normal_request it \<and> request it \<noteq> None) acc"
  shows "map (\<lambda>it. (item_id it, get_attr a it)) (attach_py_objects (map strip_attrs acc) (py_request_objects its)) =
    map (\<lambda>it. (item_id it, get_attr a it)) acc"
proof -
  have "item_id (fold (\<lambda>(attr, d). attach_one attr d) objs it) = item_id it" for objs and it :: "'a queue_item"
    by (induction objs arbitrary: it) auto
  then show ?thesis using assms attach_restores[OF assms(1)]
    by (auto simp: attach_itemwise list_all_iff strip_attrs_def[THEN arg_cong[of _ _ item_id]] subset_iff)
qed

text \<open>
  C19: scheduling over the attention data-parallel ranks, when every requested rank exists. With two or more new requests
  of which one has scheduling parameters that leave \<open>attention_dp_relax\<close> unset it raises \<open>TypeError\<close>. Otherwise it
  succeeds: each request is given to exactly one rank, no rank ends above \<open>expected_num_active_requests\<close>, and
  this expected number stays within \<open>max_num_active_requests\<close> when the ranks were within it and the new
  requests fit into the group as a whole.
\<close>

theorem attention_dp_schedule:
  assumes "0 < tp" "length counts = nat tp" "length tokens = nat tp" "targets_ok tp new"
  shows "if length new \<ge> 2 \<and> (\<exists>it p. it \<in> set new \<and> py_scheduling_params it = Some p \<and> attention_dp_relax p = None)
    then schedule_attention_dp_requests tp ma new counts tokens = Inl TypeError
    else \<exists>a e. schedule_attention_dp_requests tp ma new counts tokens = Inr (a, e) \<and> keys_of a = py_range 0 tp
    \<and> mset (concat (map snd a)) = mset new
    \<and> (\<forall>r. 0 \<le> r \<and> r < tp \<longrightarrow> counts ! nat r + load_of a r \<le> e)
    \<and> (list_all (\<lambda>c. c \<le> ma) counts \<and> sum_list counts + int (length new) \<le> tp * ma \<longrightarrow> e \<le> ma)"
proof (cases "length new \<ge> 2 \<and> (\<exists>it p. it \<in> set new \<and> py_scheduling_params it = Some p \<and> attention_dp_relax p = None)")
  case True
  note sr = sort_by_relax_cases[of new, unfolded if_P[OF True]]
  show ?thesis unfolding if_P[OF True] by (simp add: schedule_attention_dp_requests_def sr)
next
  case False
  note sr = sort_by_relax_cases[of new, unfolded if_not_P[OF False]]
  obtain a e where s: "schedule_attention_dp_requests tp ma new counts tokens = Inr (a, e)" "keys_of a = py_range 0 tp"
    "assigned a = mset new" "\<And>r. 0 \<le> r \<Longrightarrow> r < tp \<Longrightarrow> counts ! nat r + load_of a r \<le> e"
    "(\<And>r. r < nat tp \<Longrightarrow> counts ! r \<le> ma) \<Longrightarrow> sum_list counts + int (length new) \<le> tp * ma \<Longrightarrow> e \<le> ma"
    using schedule_ok[OF assms sr] by blast
  show ?thesis unfolding if_not_P[OF False]
  proof (intro exI conjI impI)
    show "mset (concat (map snd a)) = mset new" using s(3) by (simp add: assigned_def)
    show "e \<le> ma" if "list_all (\<lambda>c. c \<le> ma) counts \<and> sum_list counts + int (length new) \<le> tp * ma"
      using that assms(2) by (intro s(5)) (auto simp: list_all_length)
  qed (use s in auto)
qed

section \<open>Two consequences for attention data parallelism\<close>

text \<open>
  The queue latency of a request is taken off \<open>start_times\<close> once in \<open>_fetch_and_process_requests\<close>, and
  again in \<open>_fetch_new_requests_attention_dp\<close> for the requests of the rank itself. The pop of a child id
  is not guarded there: on rank 0 a fetched request with children raises \<open>KeyError\<close> whenever some other
  request is still waiting.
\<close>

lemma dp_latency_second_pop_raises:
  assumes "fetch_and_process fetched objs (sum_list (map fst responses)) (rq_tp_size q * rq_max_num_active q)
      (Some (map fst responses)) q = (Inr new, q1\<lparr>start_times := st\<rparr>)"
    and "update_queue_latency new st0 = Inr st" "distinct st0" "st \<noteq> []" "rq_perf_stats q1"
    and "schedule_attention_dp_requests (rq_tp_size q1) (rq_max_num_active q1) new (map fst responses) (map snd responses) = Inr (a, e)"
    and "map_of a my_rank = Some cur" "it \<in> set cur" "it \<in> set new" "child_ids it \<noteq> []"
  shows "fst (fetch_new_requests_attention_dp fetched objs responses my_rank q) = Inl KeyError"
proof -
  from assms(10) obtain c where c: "c \<in> set (child_ids it)" by (cases "child_ids it") auto
  have "distinct st \<and> set st = set st0 - (\<Union>it\<in>set new. set (req_ids it))"
    using update_queue_latency_effect[OF assms(3,2)] .
  then have "distinct st" "c \<notin> set st" using c assms(9) by auto
  then have "update_queue_latency cur st = Inl KeyError"
    using update_queue_latency_missing[OF assms(8) c] by blast
  then show ?thesis using assms(1,4-7) by (simp add: fetch_new_requests_attention_dp_def)
qed

definition example_request :: "sched_params option \<Rightarrow> int option \<Rightarrow> nat exec_request" where
  "example_request p n = \<lparr>input_token_ids = [7, 8, 9], ex_beam_width = 1, num_return_sequences = n,
     py_attrs = (case p of None \<Rightarrow> [] | Some s \<Rightarrow> [(''py_scheduling_params'', SchedObj s)]) @ [(''py_num_logprobs'', OtherObj 5)]\<rparr>"

definition example_item :: "int \<Rightarrow> sched_params option \<Rightarrow> nat queue_item" where
  "example_item i p = \<lparr>item_id = i, request = Some (example_request p None), child_req_ids = None,
     is_canceled_request = False, item_query = None\<rparr>"

definition wants_rank :: "int \<Rightarrow> bool \<Rightarrow> sched_params option" where
  "wants_rank r relax = Some \<lparr>attention_dp_rank = Some r, attention_dp_relax = Some relax\<rparr>"

text \<open>
  The comment above the sort says that requests not in relax mode are served first. The sort is descending
  in the relax flag, so the relaxed ones are: here a relaxed request takes the only place on rank 0 and the
  request that insists on rank 0 is given to rank 1.
\<close>

lemma relaxed_request_displaces_strict:
  "schedule_attention_dp_requests 2 1 [example_item 4 (wants_rank 0 False), example_item 5 (wants_rank 0 True)] [0, 0] [0, 0] =
   Inr ([(0, [example_item 5 (wants_rank 0 True)]), (1, [example_item 4 (wants_rank 0 False)])], 1)"
  by code_simp

section \<open>Witnesses\<close>

lemmas example_defs = example_item_def example_request_def wants_rank_def

lemma example_params [simp]: "py_scheduling_params (example_item i p) = p"
  by (simp add: example_item_def example_request_def py_scheduling_params_def split: option.splits)

text \<open>
  \<open>SchedulingParams\<close> leaves \<open>attention_dp_relax\<close> unset by default. Two requests that only name their rank cannot be scheduled.
\<close>

lemma default_relax_raises:
  "schedule_attention_dp_requests 2 8 [example_item 4 (Some \<lparr>attention_dp_rank = Some 0, attention_dp_relax = None\<rparr>),
     example_item 5 (Some \<lparr>attention_dp_rank = Some 1, attention_dp_relax = None\<rparr>)] [0, 0] [0, 0] = Inl TypeError"
  by code_simp

definition example_queue :: "nat req_queue" where
  "example_queue = req_queue_init 0 2 64 1 False"

theorem waiting_queue_batch_witness:
  "get_from_waiting_queue 1 [example_item 4 (wants_rank 0 False), example_item 5 (wants_rank 0 False), example_item 6 None] 2 (Some [0, 0])
     = Inr ([example_item 4 (wants_rank 0 False), example_item 6 None], [example_item 5 (wants_rank 0 False)]) \<and>
   batch_size [example_item 4 (wants_rank 0 False), example_item 6 None] \<le> max 0 2"
proof -
  have h: "get_from_waiting_queue 1 [example_item 4 (wants_rank 0 False), example_item 5 (wants_rank 0 False), example_item 6 None] 2 (Some [0, 0])
     = Inr ([example_item 4 (wants_rank 0 False), example_item 6 None], [example_item 5 (wants_rank 0 False)])"
    by code_simp
  show ?thesis using h waiting_queue_batch[OF h] by blast
qed

theorem enqueue_hands_out_ids_witness:
  "rq_active example_queue \<and> id_ok example_queue \<and>
   (\<exists>(its :: nat queue_item list) q'. enqueue_impl [(example_request None (Some 3), None)] example_queue = (Inr (map item_id its), q')
      \<and> concat (map req_ids its) = [64, 65, 66])"
proof -
  have h: "rq_active example_queue" "id_ok example_queue" by code_simp+
  have n: "(\<Sum>(r, _)\<leftarrow>[(example_request None (Some 3), None)]. ids_needed r) = 3" by code_simp
  have r: "id_range (next_request_id example_queue) 3 = [64, 65, 66]" by code_simp
  from enqueue_hands_out_ids[OF h, of "[(example_request None (Some 3), None)]", unfolded n r] obtain its :: "nat queue_item list" and q' where
    "enqueue_impl [(example_request None (Some 3), None)] example_queue = (Inr (map item_id its), q')"
    "concat (map req_ids its) = [64, 65, 66]" by (elim exE conjE) (rule that)
  then show ?thesis using h by (intro conjI exI)
qed

theorem special_items_split_witness:
  "rq_rank example_queue = 0 \<and>
   (\<exists>q'. handle_special_queue_items [example_item 4 None, plain_item CONTROL_REQUEST_ID False, example_item 5 None] example_queue
      = ([example_item 4 None], q') \<and> (\<exists>run. [example_item 4 None] = filter is_normal_request run \<and>
         canceled_req_ids q' = canceled_req_ids example_queue @ map item_id (filter is_canceled_request run)))"
proof -
  let ?its = "[example_item 4 None, plain_item CONTROL_REQUEST_ID False, example_item 5 None]"
  have "fst (handle_special_queue_items ?its example_queue) = [example_item 4 None]" by code_simp
  then obtain q' where q': "handle_special_queue_items ?its example_queue = ([example_item 4 None], q')"
    by (metis prod.collapse)
  have r: "rq_rank example_queue = 0" by code_simp
  show ?thesis using r q' special_items_split[OF q' r] by metis
qed

theorem attached_objects_roundtrip_witness:
  "map (\<lambda>it. (item_id it, get_attr ''py_num_logprobs'' it))
     (attach_py_objects (map strip_attrs [example_item 4 None]) (py_request_objects [example_item 4 None, example_item 5 None])) =
   [(4, Some (OtherObj 5))]"
proof -
  have "distinct (map item_id [example_item 4 None, example_item 5 None])" by code_simp
  moreover have "set [example_item 4 None] \<subseteq> set [example_item 4 None, example_item 5 None]" by simp
  moreover have "list_all (\<lambda>it. is_normal_request it \<and> request it \<noteq> None) [example_item 4 None]"
    by (simp add: example_item_def is_normal_request_def is_shutdown_request_def is_control_request_def
        SHUTDOWN_REQUEST_ID_def CONTROL_REQUEST_ID_def)
  ultimately show ?thesis
    using attached_objects_roundtrip[of "[example_item 4 None, example_item 5 None]" "[example_item 4 None]" "''py_num_logprobs''"]
    by (simp add: get_attr_def example_defs)
qed

theorem attention_dp_schedule_witness:
  "targets_ok 2 [example_item 4 (wants_rank 1 False), example_item 5 None] \<and>
   (\<exists>a e. schedule_attention_dp_requests 2 3 [example_item 4 (wants_rank 1 False), example_item 5 None] [0, 1] [0, 9] = Inr (a, e)
      \<and> mset (concat (map snd a)) = {#example_item 4 (wants_rank 1 False), example_item 5 None#})"
proof -
  let ?new = "[example_item 4 (wants_rank 1 False), example_item 5 None]"
  have t: "targets_ok 2 ?new" by code_simp
  have r: "\<not> (length ?new \<ge> 2 \<and> (\<exists>it p. it \<in> set ?new \<and> py_scheduling_params it = Some p \<and> attention_dp_relax p = None))"
    using example_params by (auto simp: wants_rank_def)
  show ?thesis using t attention_dp_schedule[of 2 "[0, 1]" "[0, 9]", OF _ _ _ t, of 3, unfolded if_not_P[OF r]] by fastforce
qed

end
