(* ===== verification/Context_Partition.thy ===== *)
theory Context_Partition
  imports Parallel_Mapping
begin

text \<open>
  How a prompt is cut over the context-parallel ranks in \<open>executor_request_queue.py\<close>: contiguous blocks for
  helix parallelism (\<open>_merge_helix_requests\<close>), and anchor, context and query blocks for star attention
  (\<open>_partition_context\<close>, \<open>_merge_star_attention_requests\<close>).

  \<open>split\<close> stands for \<open>Tensor.split\<close> with a block size (the blocks are then stacked) and \<open>tsplit\<close> for
  \<open>torch.tensor_split\<close> on the stacked blocks; \<open>chunk_spec\<close> and \<open>tensor_split_spec\<close> state their documented
  behaviour.
\<close>

section \<open>Helix\<close>

definition helix_partition :: "(int list \<Rightarrow> int \<Rightarrow> int list list) \<Rightarrow> int list tensor_split_fn
    \<Rightarrow> int \<Rightarrow> int \<Rightarrow> int \<Rightarrow> int list \<Rightarrow> (int list \<times> int list) result" where
  \<comment> \<open>\<open>(input_ids_this_rank, position_ids_this_rank)\<close>\<close>
  "helix_partition split tsplit tokens_per_block num_cp_ranks curr_cp_rank input_ids =
     (let input_len = int (length input_ids) in
      res_bind (py_div (input_len + tokens_per_block - 1) tokens_per_block) (\<lambda>num_total_blocks.
      if num_total_blocks < num_cp_ranks then Inl ValueError
      else
        let padding_len = (if input_len mod tokens_per_block \<noteq> 0
                           then tokens_per_block - input_len mod tokens_per_block else 0);
            all_input_ids = input_ids @ replicate (nat padding_len) 0;
            all_position_ids = py_range 0 (input_len + padding_len) in
        res_bind (py_index (tsplit (split all_input_ids tokens_per_block) num_cp_ranks) curr_cp_rank) (\<lambda>ib.
        res_bind (py_index (tsplit (split all_position_ids tokens_per_block) num_cp_ranks) curr_cp_rank) (\<lambda>pb.
        let ids = concat ib; pos = concat pb in
        if curr_cp_rank = num_cp_ranks - 1 \<and> padding_len > 0
        then Inr (take (length ids - nat padding_len) ids, take (length pos - nat padding_len) pos)
        else Inr (ids, pos)))))"

section \<open>Star attention\<close>

definition partition_context :: "(int list \<Rightarrow> int \<Rightarrow> int list list) \<Rightarrow> int list tensor_split_fn
    \<Rightarrow> int option \<Rightarrow> int option \<Rightarrow> int \<Rightarrow> int \<Rightarrow> int list \<Rightarrow> (int list list \<times> int list list \<times> int) result" where
  "partition_context split tsplit block_size_cfg anchor_cfg cp cp_rk ctx =
     (let ctx_len = int (length ctx) in
      res_bind (case block_size_cfg of None \<Rightarrow> py_div ctx_len cp | Some b \<Rightarrow> Inr b) (\<lambda>block_size.
      let anchor = (case anchor_cfg of None \<Rightarrow> block_size | Some a \<Rightarrow> a) in
      res_bind (py_assert (anchor \<le> block_size)) (\<lambda>_.
      res_bind (py_mod ctx_len block_size) (\<lambda>m.
      let padding = (if m \<noteq> 0 then block_size - m else 0) in
      res_bind (py_assert (padding \<le> ctx_len)) (\<lambda>_.
      let ids = ctx @ replicate (nat padding) 0;
          ids_blocks = tsplit (split ids block_size) cp;
          pos_blocks = tsplit (split (py_range 0 (int (length ids))) block_size) cp in
      res_bind (if cp_rk \<noteq> 0
                then res_bind (res_bind (py_index ids_blocks 0) (\<lambda>s. py_index s 0)) (\<lambda>ib.
                     res_bind (res_bind (py_index pos_blocks 0) (\<lambda>s. py_index s 0)) (\<lambda>pb.
                     Inr ([take (nat anchor) ib], [take (nat anchor) pb])))
                else Inr ([], [])) (\<lambda>(ctx_blocks, position_blocks).
      res_bind (py_index ids_blocks cp_rk) (\<lambda>own_ids.
      res_bind (py_index pos_blocks cp_rk) (\<lambda>own_pos.
      Inr (ctx_blocks @ own_ids, position_blocks @ own_pos, padding)))))))))"

definition trim_last :: "nat \<Rightarrow> 'a list list \<Rightarrow> 'a list list" where
  \<comment> \<open>\<open>blocks[-1] = blocks[-1][:-n]\<close> for a positive \<open>n\<close>\<close>
  "trim_last n bs = butlast bs @ [take (length (last bs) - n) (last bs)]"

definition insert_dummy :: "'a list list \<Rightarrow> 'a list list" where
  \<comment> \<open>\<open>blocks.insert(1, [])\<close>\<close>
  "insert_dummy bs = take 1 bs @ [] # drop 1 bs"

definition star_blocks :: "(int list \<Rightarrow> int \<Rightarrow> int list list) \<Rightarrow> int list tensor_split_fn
    \<Rightarrow> int option \<Rightarrow> int option \<Rightarrow> int \<Rightarrow> int \<Rightarrow> int list \<Rightarrow> int list option \<Rightarrow> (int list list \<times> int list list) result" where
  \<comment> \<open>\<open>(ctx_blocks, position_blocks)\<close> of one request\<close>
  "star_blocks split tsplit block_size_cfg anchor_cfg cp cp_rk ctx query =
     (let ctx_len0 = int (length ctx) in
      res_bind (partition_context split tsplit block_size_cfg anchor_cfg cp cp_rk ctx) (\<lambda>(cb0, pb0, padding).
      let (cb1, pb1) = (if cp_rk = cp - 1 \<and> padding > 0
                        then (trim_last (nat padding) cb0, trim_last (nat padding) pb0) else (cb0, pb0));
          (cb2, pb2) = (case query of
                          None \<Rightarrow> (cb1, pb1)
                        | Some qs \<Rightarrow> if qs = [] then (cb1, pb1)
                            else (cb1 @ [qs], pb1 @ [py_range ctx_len0 (ctx_len0 + int (length qs))])) in
      res_bind (case block_size_cfg of None \<Rightarrow> Inl TypeError | Some b \<Rightarrow> py_div (ctx_len0 + b - 1) b) (\<lambda>total_blocks.
      res_bind (py_div (total_blocks + cp - 1) cp) (\<lambda>per_rank.
      let num_blocks_per_rank = per_rank + 1 in
      if int (length cb2) = num_blocks_per_rank then Inr (insert_dummy cb2, insert_dummy pb2)
      else if int (length cb2) = num_blocks_per_rank + 1 then Inr (cb2, pb2)
      else Inl AssertionError))))"

section \<open>Sections of blocks\<close>

definition chunk_spec :: "(int list \<Rightarrow> int \<Rightarrow> int list list) \<Rightarrow> bool" where
  "chunk_spec f \<longleftrightarrow> (\<forall>xs b. 0 < b \<longrightarrow> concat (f xs b) = xs \<and>
     (xs \<noteq> [] \<and> int (length xs) mod b = 0 \<longrightarrow> list_all (\<lambda>c. int (length c) = b) (f xs b)))"

lemma length_concat_blocks: "list_all (\<lambda>c. int (length c) = b) bs \<Longrightarrow> int (length (concat bs)) = int (length bs) * b"
  by (induction bs) (auto simp: algebra_simps)

lemma concat_map_concat: "concat (map concat xss) = concat (concat xss)"
  by (induction xss) auto

text \<open>A padded sequence cut into blocks of \<open>b\<close>, and the blocks into \<open>n\<close> sections.\<close>

lemma sections_of_blocks:
  assumes spec: "chunk_spec split" "tensor_split_spec tsplit" and b: "0 < b" "0 < n"
    and xs: "xs \<noteq> []" "int (length xs) = k * b"
  defines "T \<equiv> tsplit (split xs b) n"
  shows "int (length T) = n" "concat (map concat T) = xs"
    "i < length T \<Longrightarrow> int (length (T ! i)) = k div n + (if int i < k mod n then 1 else 0)"
    "i < length T \<Longrightarrow> int (length (concat (T ! i))) = int (length (T ! i)) * b"
proof -
  have c: "concat (split xs b) = xs" "list_all (\<lambda>c. int (length c) = b) (split xs b)"
    using spec(1) b xs by (simp_all add: chunk_spec_def)
  have "int (length (split xs b)) * b = k * b" using length_concat_blocks[OF c(2)] c(1) xs(2) by metis
  then have k: "int (length (split xs b)) = k" using b(1) by simp
  have T: "concat T = split xs b" "int (length T) = n"
    "\<And>i. i < length T \<Longrightarrow> int (length (T ! i)) = k div n + (if int i < k mod n then 1 else 0)"
    using spec(2) b(2) k unfolding tensor_split_spec_def T_def by auto
  show "int (length T) = n" "i < length T \<Longrightarrow> int (length (T ! i)) = k div n + (if int i < k mod n then 1 else 0)"
    using T by auto
  show "concat (map concat T) = xs" using T(1) c(1) by (simp add: concat_map_concat)
  show "int (length (concat (T ! i))) = int (length (T ! i)) * b" if "i < length T"
  proof -
    have "set (T ! i) \<subseteq> set (concat T)" using nth_mem[OF that] by auto
    then show ?thesis using c(2) unfolding T(1) by (intro length_concat_blocks) (auto simp: list_all_iff)
  qed
qed

lemma concat_trim_last:
  assumes "bs \<noteq> []" "n \<le> length (last bs)"
  shows "concat (trim_last n bs) = take (length (concat bs) - n) (concat bs)"
proof -
  have "concat bs = concat (butlast bs) @ last bs" using assms(1) by (metis append_butlast_last_id concat_append concat.simps append_Nil2)
  then show ?thesis using assms(2) by (simp add: trim_last_def)
qed

lemma length_trim_last [simp]: "bs \<noteq> [] \<Longrightarrow> length (trim_last n bs) = length bs"
  by (simp add: trim_last_def)

lemma nth_trim_last: "i < length bs \<Longrightarrow>
    trim_last n bs ! i = (if i = length bs - 1 then take (length (bs ! i) - n) (bs ! i) else bs ! i)"
  by (cases "bs = []") (auto simp: trim_last_def nth_append nth_butlast last_conv_nth)

lemma py_range_append: "a \<le> b \<Longrightarrow> b \<le> c \<Longrightarrow> py_range a c = py_range a b @ py_range b c"
  by (rule nth_equalityI) (auto simp: nth_append nat_diff_split)

text \<open>The padding of a sequence of length \<open>l\<close> to whole blocks.\<close>

definition pad_of :: "int \<Rightarrow> int \<Rightarrow> int" where
  "pad_of l b = (if l mod b \<noteq> 0 then b - l mod b else 0)"

lemma pad_of_bounds: "0 < b \<Longrightarrow> 0 \<le> pad_of l b \<and> pad_of l b < b"
proof (cases "l mod b = 0")
  case False
  assume b: "0 < b"
  from False have "pad_of l b = b - l mod b" by (simp add: pad_of_def)
  then show ?thesis using False pos_mod_sign[OF b, of l] pos_mod_bound[OF b, of l] by linarith
qed (simp add: pad_of_def)

lemma pad_of_blocks:
  assumes "0 < b" shows "l + pad_of l b = (l + b - 1) div b * b"
proof -
  have "l = l div b * b + l mod b" by simp
  then show ?thesis unfolding int_ceil_div[OF assms] pad_of_def
    using assms pos_mod_sign[OF assms, of l] by (cases "l mod b = 0") (simp, simp add: algebra_simps less_le)
qed

section \<open>Properties\<close>

lemma rank_sections_trimmed:
  assumes spec: "chunk_spec split" "tensor_split_spec tsplit" and b: "0 < b" "0 < n"
    and xs: "xs \<noteq> []" "int (length xs) + p = k * b" and p: "0 \<le> p" "p < b" "n \<le> k" and pad: "length pad = nat p"
  defines "T \<equiv> tsplit (split (xs @ pad) b) n"
  shows "int (length T) = n" "concat (trim_last (nat p) (map concat T)) = xs"
    "i < length T \<Longrightarrow> 0 < length (trim_last (nat p) (map concat T) ! i)"
    "i < length T \<Longrightarrow> int (length (concat (T ! i))) = (k div n + (if int i < k mod n then 1 else 0)) * b"
proof -
  have len: "int (length (xs @ pad)) = k * b" using xs(2) pad p by simp
  note s = sections_of_blocks[OF spec b _ len, folded T_def]
  have ne: "xs @ pad \<noteq> []" using xs(1) by simp
  have k: "1 \<le> k div n" using zdiv_mono1[OF p(3) b(2)] b(2) by simp
  show T: "int (length T) = n" using s(1)[OF ne] .
  show l: "int (length (concat (T ! i))) = (k div n + (if int i < k mod n then 1 else 0)) * b" if "i < length T" for i
    using s(3,4)[OF ne that] by simp
  have big: "p < int (length (concat (T ! i)))" if "i < length T" for i
  proof -
    have "1 * b \<le> (k div n + (if int i < k mod n then 1 else 0)) * b" using k b(1) by (intro mult_right_mono) auto
    then show ?thesis using l[OF that] p(2) by simp
  qed
  have Tne: "T \<noteq> []" using T b(2) by auto
  then have "nat p \<le> length (last (map concat T))" using big[of "length T - 1"] by (simp add: last_conv_nth)
  then have "concat (trim_last (nat p) (map concat T)) = take (length (xs @ pad) - nat p) (xs @ pad)"
    using Tne s(2)[OF ne] by (subst concat_trim_last) simp_all
  then show "concat (trim_last (nat p) (map concat T)) = xs" using pad by simp
  show "0 < length (trim_last (nat p) (map concat T) ! i)" if "i < length T" for i
  proof -
    have "nat p < length (concat (T ! i))" using big[OF that] p(1) by linarith
    moreover have "length (concat (T ! i)) - nat p \<le> length (trim_last (nat p) (map concat T) ! i)"
      using that by (simp add: nth_trim_last del: length_concat)
    ultimately show ?thesis by linarith
  qed
qed

text \<open>
  C20: the helix partition loses nothing. When there is at least one block per rank, every rank gets a
  non-empty run of the prompt with as many positions as tokens, and putting the runs of the ranks
  together gives the prompt and the positions \<open>0, 1, \<dots>\<close> again, without the padding.
\<close>

theorem helix_partition_reassembles:
  assumes "chunk_spec split" "tensor_split_spec tsplit" "0 < b" "0 < n"
    and "n \<le> (int (length ids) + b - 1) div b"
  shows "\<exists>parts. int (length parts) = n
    \<and> (\<forall>r. 0 \<le> r \<and> r < n \<longrightarrow> helix_partition split tsplit b n r ids = Inr (parts ! nat r))
    \<and> concat (map fst parts) = ids \<and> concat (map snd parts) = py_range 0 (int (length ids))
    \<and> list_all (\<lambda>(toks, pos). toks \<noteq> [] \<and> length toks = length pos) parts"
proof -
  define p where "p = pad_of (int (length ids)) b"
  define k where "k = (int (length ids) + b - 1) div b"
  have p: "0 \<le> p" "p < b" using pad_of_bounds[OF assms(3)] by (simp_all add: p_def)
  have kb: "int (length ids) + p = k * b" using pad_of_blocks[OF assms(3)] by (simp add: p_def k_def)
  have nk: "n \<le> k" using assms(5) by (simp add: k_def)
  have ne: "ids \<noteq> []"
  proof
    assume "ids = []"
    then have "k = 0" unfolding k_def using assms(3) by simp
    with nk assms(4) show False by simp
  qed
  define pos where "pos = py_range 0 (int (length ids))"
  have "length pos = length ids" by (simp add: pos_def)
  then have pos: "pos \<noteq> []" "int (length pos) + p = k * b" using ne kb by auto
  define pp where "pp = py_range (int (length ids)) (int (length ids) + p)"
  have pp: "length pp = nat p" "py_range 0 (int (length ids) + p) = pos @ pp"
    using p(1) py_range_append[of 0 "int (length ids)" "int (length ids) + p"] by (simp_all add: pp_def pos_def)
  define I where "I = tsplit (split (ids @ replicate (nat p) 0) b) n"
  define P where "P = tsplit (split (pos @ pp) b) n"
  note I = rank_sections_trimmed[OF assms(1-4) ne kb p nk length_replicate[of "nat p" "0 :: int"], folded I_def]
  note P = rank_sections_trimmed[OF assms(1-4) pos p nk pp(1), folded P_def]
  let ?I = "trim_last (nat p) (map concat I)" and ?P = "trim_last (nat p) (map concat P)"
  have "I \<noteq> []" "P \<noteq> []" using I(1) P(1) assms(4) by auto
  then have len: "length ?I = nat n" "length ?P = nat n" "length I = nat n" "length P = nat n"
    using I(1) P(1) by simp_all
  have same: "length (?I ! i) = length (?P ! i)" if "i < nat n" for i
  proof -
    have "length (concat (I ! i)) = length (concat (P ! i))"
      using I(4)[of i] P(4)[of i] that len(3,4) by (metis of_nat_eq_iff)
    then show ?thesis using that len(3,4) by (auto simp: nth_trim_last simp del: length_concat)
  qed
  have run: "helix_partition split tsplit b n r ids = Inr (zip ?I ?P ! nat r)" if r: "0 \<le> r" "r < n" for r
  proof -
    have ri: "nat r < nat n" using r by simp
    have "helix_partition split tsplit b n r ids = (if r = n - 1 \<and> p > 0
        then Inr (take (length (concat (I ! nat r)) - nat p) (concat (I ! nat r)),
                  take (length (concat (P ! nat r)) - nat p) (concat (P ! nat r)))
        else Inr (concat (I ! nat r), concat (P ! nat r)))"
      unfolding helix_partition_def Let_def p_def[symmetric, unfolded pad_of_def]
      using assms(3) nk r pp(2) len I(1) P(1) by (simp add: k_def I_def P_def p_def pad_of_def)
    then show ?thesis using ri len p(1) r by (auto simp: nth_trim_last)
  qed
  have ne: "?I ! i \<noteq> []" if "i < nat n" for i using I(3)[of i] that len(3) by simp
  show ?thesis
  proof (intro exI[of _ "zip ?I ?P"] conjI allI impI)
    show "list_all (\<lambda>(toks, pos). toks \<noteq> [] \<and> length toks = length pos) (zip ?I ?P)"
      using same ne len by (auto simp: list_all_length)
  qed (use len run I(2) P(2) assms(4) in \<open>auto simp: pos_def\<close>)
qed

lemma partition_context_blocks:
  assumes spec: "chunk_spec split" "tensor_split_spec tsplit" and b: "0 < b" "0 < cp" and ctx: "ctx \<noteq> []"
    and cfg: "pad_of (int (length ctx)) b \<le> int (length ctx)" "anchor \<le> b" "0 \<le> r" "r < cp"
  defines "k \<equiv> (int (length ctx) + b - 1) div b"
  obtains cb pb where "partition_context split tsplit (Some b) (Some anchor) cp r ctx = Inr (cb, pb, pad_of (int (length ctx)) b)"
    "int (length cb) = (if r = 0 then 0 else 1) + k div cp + (if r < k mod cp then 1 else 0)"
    "length pb = length cb" "cb \<noteq> []"
proof -
  define p where "p = pad_of (int (length ctx)) b"
  have p: "0 \<le> p" "p < b" using pad_of_bounds[OF b(1)] by (simp_all add: p_def)
  define ids where "ids = ctx @ replicate (nat p) 0"
  define pos where "pos = py_range 0 (int (length ids))"
  have len: "int (length ids) = k * b" "int (length pos) = k * b" "ids \<noteq> []"
    using pad_of_blocks[OF b(1), of "int (length ctx)"] p(1) ctx by (simp_all add: ids_def pos_def p_def k_def)
  then have "pos \<noteq> []" by (metis of_nat_eq_iff length_0_conv)
  define I where "I = tsplit (split ids b) cp"
  define P where "P = tsplit (split pos b) cp"
  note I = sections_of_blocks(1,3)[OF spec b len(3,1), folded I_def]
  note P = sections_of_blocks(1,3)[OF spec b \<open>pos \<noteq> []\<close> len(2), folded P_def]
  have ixs: "py_index I r = Inr (I ! nat r)" "py_index P r = Inr (P ! nat r)" "py_index I 0 = Inr (I ! 0)" "py_index P 0 = Inr (P ! 0)"
    using I(1) P(1) cfg(3,4) b(2) by simp_all
  have k: "0 < k"
  proof (rule ccontr)
    assume "\<not> 0 < k"
    then have "k * b \<le> 0" using b(1) by (simp add: mult_nonpos_nonneg)
    then have "length ids = 0" using len(1) by linarith
    then show False using len(3) by simp
  qed
  have "0 < k div cp + (if 0 < k mod cp then 1 else 0)"
  proof (cases "0 < k mod cp")
    case True
    then show ?thesis using k b(2) by (simp add: pos_imp_zdiv_nonneg_iff add_nonneg_pos)
  next
    case False
    then have "k = k div cp * cp" using pos_mod_sign[OF b(2), of k] div_mult_mod_eq[of k cp] by linarith
    then show ?thesis using k False b(2) by (metis add.right_neutral zero_less_mult_iff order_less_imp_not_less)
  qed
  moreover have "0 < length I" "0 < length P" using I(1) P(1) b(2) by linarith+
  ultimately have first: "0 < length (I ! 0)" "0 < length (P ! 0)" using I(2)[of 0] P(2)[of 0] by auto
  have "nat r < length I" "nat r < length P" using I(1) P(1) cfg(3,4) by linarith+
  with I(2)[of "nat r"] P(2)[of "nat r"] cfg(3)
  have own: "int (length (I ! nat r)) = k div cp + (if r < k mod cp then 1 else 0)"
    and "int (length (P ! nat r)) = int (length (I ! nat r))" by simp_all
  from this(2) have same: "length (P ! nat r) = length (I ! nat r)" by (simp only: of_nat_eq_iff)
  define anc where "anc X = (if r \<noteq> 0 then [take (nat anchor) (X ! 0 ! 0)] else [])" for X :: "int list list list"
  have md: "py_mod (int (length ctx)) b = Inr (int (length ctx) mod b)" using b(1) by simp
  have pc: "partition_context split tsplit (Some b) (Some anchor) cp r ctx = Inr (anc I @ I ! nat r, anc P @ P ! nat r, p)"
    unfolding partition_context_def Let_def option.case res_bind_simps md p_def[unfolded pad_of_def, symmetric]
      ids_def[symmetric] pos_def[symmetric] I_def[symmetric] P_def[symmetric]
    using cfg(1,2) ixs first by (simp add: py_assert_def anc_def p_def)
  show thesis
  proof (rule that)
    show "anc I @ I ! nat r \<noteq> []" using first(1) by (auto simp: anc_def)
    show "length (anc P @ P ! nat r) = length (anc I @ I ! nat r)" using same by (simp add: anc_def)
  qed (use pc own in \<open>simp_all add: anc_def p_def\<close>)
qed



lemma star_blocks_count:
  fixes query :: "int list option"
  assumes "partition_context split tsplit (Some b) (Some anchor) cp r ctx = Inr (cb, pb, p)" "0 < b" "0 < cp"
    "cb \<noteq> []" "length pb = length cb"
  defines "c \<equiv> ((int (length ctx) + b - 1) div b + cp - 1) div cp"
    and "n \<equiv> int (length cb) + (case query of None \<Rightarrow> 0 | Some qs \<Rightarrow> if qs = [] then 0 else 1)"
  shows "if n = c + 1 \<or> n = c + 2
    then \<exists>cb' pb'. star_blocks split tsplit (Some b) (Some anchor) cp r ctx query = Inr (cb', pb')
      \<and> int (length cb') = c + 2 \<and> length pb' = length cb'
    else star_blocks split tsplit (Some b) (Some anchor) cp r ctx query = Inl AssertionError"
proof -
  define cb1 where "cb1 = (if r = cp - 1 \<and> p > 0 then trim_last (nat p) cb else cb)"
  define pb1 where "pb1 = (if r = cp - 1 \<and> p > 0 then trim_last (nat p) pb else pb)"
  define cb2 where "cb2 = cb1 @ (case query of None \<Rightarrow> [] | Some qs \<Rightarrow> if qs = [] then [] else [qs])"
  define pb2 where "pb2 = pb1 @ (case query of None \<Rightarrow> [] | Some qs \<Rightarrow> if qs = [] then []
     else [py_range (int (length ctx)) (int (length ctx) + int (length qs))])"
  have "pb \<noteq> []" using assms(4,5) by auto
  then have len: "int (length cb2) = n" "length pb2 = length cb2"
    using assms(4,5) by (auto simp: cb2_def pb2_def cb1_def pb1_def n_def split: option.splits)
  have s: "star_blocks split tsplit (Some b) (Some anchor) cp r ctx query =
    (if n = c + 1 then Inr (insert_dummy cb2, insert_dummy pb2)
     else if n = c + 1 + 1 then Inr (cb2, pb2) else Inl AssertionError)"
    unfolding len(1)[symmetric] using assms(1-3)
    by (simp add: star_blocks_def cb2_def pb2_def cb1_def pb1_def c_def Let_def split: option.splits)
  have "length (insert_dummy bs) = Suc (length bs)" for bs :: "int list list" by (simp add: insert_dummy_def)
  then show ?thesis unfolding s using len by auto
qed

lemma ceil_share: "0 < n \<Longrightarrow> (k + n - 1) div n = k div n + (if 0 < k mod n then 1 else (0::int))"
  by (simp add: int_ceil_div)

text \<open>
  C21: star attention aligns the ranks. With a query, every context-parallel rank ends with the same
  number of blocks (the anchor, its context blocks, the query, and an empty block where the rank has one
  context block less or no anchor). Without a query rank 0 always fails the assertion, so a request must
  carry one.
\<close>

theorem star_blocks_aligned:
  assumes "chunk_spec split" "tensor_split_spec tsplit" "0 < b" "0 < cp" "ctx \<noteq> []"
    and "pad_of (int (length ctx)) b \<le> int (length ctx)" "anchor \<le> b" "0 \<le> r" "r < cp" "query \<noteq> []"
  defines "k \<equiv> (int (length ctx) + b - 1) div b"
  shows "(\<exists>cb pb. star_blocks split tsplit (Some b) (Some anchor) cp r ctx (Some query) = Inr (cb, pb)
      \<and> int (length cb) = (k + cp - 1) div cp + 2 \<and> length pb = length cb)
    \<and> star_blocks split tsplit (Some b) (Some anchor) cp 0 ctx None = Inl AssertionError"
proof -
  obtain cb pb where r: "partition_context split tsplit (Some b) (Some anchor) cp r ctx = Inr (cb, pb, pad_of (int (length ctx)) b)"
    "int (length cb) = (if r = 0 then 0 else 1) + k div cp + (if r < k mod cp then 1 else 0)" "length pb = length cb" "cb \<noteq> []"
    using partition_context_blocks[OF assms(1-9)] unfolding k_def by blast
  obtain cb0 pb0 where z: "partition_context split tsplit (Some b) (Some anchor) cp 0 ctx = Inr (cb0, pb0, pad_of (int (length ctx)) b)"
    "int (length cb0) = k div cp + (if 0 < k mod cp then 1 else 0)" "length pb0 = length cb0" "cb0 \<noteq> []"
    using partition_context_blocks[OF assms(1-7), of 0] assms(4) unfolding k_def by auto
  have "int (length cb) = (k + cp - 1) div cp \<or> int (length cb) = (k + cp - 1) div cp + 1"
    using r(2) assms(8) unfolding ceil_share[OF assms(4)] by auto
  then show ?thesis
    using star_blocks_count[OF r(1) assms(3,4) r(4,3), where query = "Some query"] star_blocks_count[OF z(1) assms(3,4) z(4,3), where query = None]
      z(2) assms(10) ceil_share[OF assms(4), of k] by (auto simp: k_def)
qed

section \<open>Witnesses\<close>

definition split_blocks_ref :: "int list \<Rightarrow> int \<Rightarrow> int list list" where
  "split_blocks_ref xs b = pieces (replicate (nat (int (length xs) div b)) (nat b) @
     (if int (length xs) mod b = 0 then [] else [nat (int (length xs) mod b)])) xs"

lemma split_blocks_ref_spec: "chunk_spec split_blocks_ref"
  unfolding chunk_spec_def
proof (intro allI impI)
  fix xs :: "int list" and b :: int assume b: "0 < b"
  let ?ns = "replicate (nat (int (length xs) div b)) (nat b) @
     (if int (length xs) mod b = 0 then [] else [nat (int (length xs) mod b)])"
  have dm: "int (length xs) div b * b + int (length xs) mod b = int (length xs)" by simp
  have "int (sum_list ?ns) = int (length xs) div b * b + int (length xs) mod b"
  proof (cases "int (length xs) mod b = 0")
    case True
    then show ?thesis using b by (simp add: sum_list_replicate pos_imp_zdiv_nonneg_iff del: minus_mod_eq_div_mult)
  next
    case False
    then show ?thesis using b by (simp add: sum_list_replicate pos_imp_zdiv_nonneg_iff)
  qed
  then have sum: "sum_list ?ns = length xs" unfolding dm by (simp only: of_nat_eq_iff)
  have blocks: "list_all (\<lambda>c. int (length c) = b) (pieces ?ns xs)" if "int (length xs) mod b = 0"
  proof -
    have "list_all (\<lambda>l. int l = b) (map length (pieces ?ns xs))"
      unfolding map_length_pieces[OF sum] list_all_iff using that b by simp
    then show ?thesis unfolding list_all_iff set_map ball_simps .
  qed
  show "concat (split_blocks_ref xs b) = xs \<and>
      (xs \<noteq> [] \<and> int (length xs) mod b = 0 \<longrightarrow> list_all (\<lambda>c. int (length c) = b) (split_blocks_ref xs b))"
    unfolding split_blocks_ref_def using concat_pieces[OF sum] by (intro conjI impI blocks) simp_all
qed

theorem helix_partition_reassembles_witness:
  "chunk_spec split_blocks_ref \<and> tensor_split_spec (tensor_split_ref :: int list tensor_split_fn) \<and>
   helix_partition split_blocks_ref tensor_split_ref 2 2 1 [5, 6, 7] = Inr ([7], [2]) \<and>
   (\<exists>parts. int (length parts) = 2 \<and> concat (map fst parts) = [5, 6, 7 :: int] \<and> concat (map snd parts) = py_range 0 3)"
proof -
  have h: "helix_partition split_blocks_ref tensor_split_ref 2 2 1 [5, 6, 7] = Inr ([7], [2])" by code_simp
  have n: "(2::int) \<le> (int (length [5, 6, 7 :: int]) + 2 - 1) div 2" by simp
  show ?thesis
    using h split_blocks_ref_spec tensor_split_ref_spec
      helix_partition_reassembles[OF split_blocks_ref_spec tensor_split_ref_spec, of 2 2 "[5, 6, 7]"] n by auto
qed

theorem star_blocks_aligned_witness:
  "star_blocks split_blocks_ref tensor_split_ref (Some 2) (Some 2) 2 0 [5, 6, 7] None = Inl AssertionError \<and>
   (\<exists>cb pb. star_blocks split_blocks_ref tensor_split_ref (Some 2) (Some 2) 2 1 [5, 6, 7] (Some [9]) = Inr (cb, pb)
      \<and> int (length cb) = 3 \<and> length pb = length cb)"
proof -
  have p: "pad_of (int (length [5, 6, 7 :: int])) 2 \<le> int (length [5, 6, 7 :: int])" by code_simp
  show ?thesis
    using star_blocks_aligned[OF split_blocks_ref_spec tensor_split_ref_spec, of 2 2 "[5, 6, 7]" 2 1 "[9]"] p by simp
qed

end
