(* ===== verification/Serve_Router.thy ===== *)
theory Serve_Router
  imports Py_Heap "HOL-Library.Char_ord" "HOL-Library.List_Lexorder" "HOL-Library.Product_Lexorder"
begin

text \<open>
  The request routers of the disaggregated server, \<open>serve/router.py\<close>: the load bookkeeping of a server,
  the three routing policies (round robin, load balancing over a heap, KV-cache aware), the maintenance of
  the server list (\<open>add_server\<close>, \<open>remove_server\<close>, one round of \<open>_monitor_servers\<close>) and \<open>create_router\<close>.

  An operation is one function here: it runs under the router's lock, apart from \<open>kv_get_next_server\<close>, whose choice and update are two sections under the lock and which is modelled for a call that is not interrupted between them; an operation that may raise
  returns its result beside the state it leaves behind. Arguments stand for what is not in the repository
  or not deterministic: the answers of the health endpoint, the content of the metadata server, the
  tokenizers, the block hash of the C++ bindings, and floating-point division and subtraction. Strings are
  compared lexicographically, as Python does.
\<close>

section \<open>Requests\<close>

datatype oai_prompt =
    PStr string
  | PTokens "int list"
  | PStrs "string list"
  | PTokenLists "int list list"
  | PInt int                           \<comment> \<open>a bare token, which the disaggregated service may leave behind\<close>
  | PNone

record oai_request =
  obj_id :: int                        \<comment> \<open>\<open>id(request)\<close>\<close>
  is_chat :: bool                      \<comment> \<open>\<open>isinstance(request, ChatCompletionRequest)\<close>\<close>
  request_type :: "string option"      \<comment> \<open>of the disaggregated parameters, \<open>None\<close> without them\<close>
  req_model :: string
  prompt :: oai_prompt

definition prompt_lens :: "oai_prompt \<Rightarrow> int list result" where
  \<comment> \<open>the lengths of the elements of \<open>prompts\<close>; \<open>request.prompt[0]\<close> raises on an empty list\<close>
  "prompt_lens p = (case p of
      PStr s \<Rightarrow> Inr [int (length s)]
    | PTokens ts \<Rightarrow> if ts = [] then Inl IndexError else Inr [int (length ts)]
    | PStrs ss \<Rightarrow> if ss = [] then Inl IndexError else Inr (map (\<lambda>s. int (length s)) ss)
    | PTokenLists tss \<Rightarrow> if tss = [] then Inl IndexError else Inr (map (\<lambda>s. int (length s)) tss)
    | PInt _ \<Rightarrow> Inl TypeError
    | PNone \<Rightarrow> Inl TypeError)"

definition get_request_num_tokens :: "oai_request \<Rightarrow> int result" where
  "get_request_num_tokens r =
     (if request_type r = None \<or> request_type r = Some ''context_only'' then
        if is_chat r then Inl ValueError
        else res_bind (prompt_lens (prompt r)) (\<lambda>ls. Inr (sum_list ls))
      else Inl ValueError)"

section \<open>Server state\<close>

record server_state =
  ss_server :: string
  num_active_requests :: int
  num_active_tokens :: int
  ss_use_tokens :: bool

definition server_state_init :: "string \<Rightarrow> bool \<Rightarrow> server_state" where
  "server_state_init s use_tokens =
     \<lparr>ss_server = s, num_active_requests = 0, num_active_tokens = 0, ss_use_tokens = use_tokens\<rparr>"

definition load_tokens :: "('a server_state_scheme) \<Rightarrow> oai_request \<Rightarrow> int result" where
  \<comment> \<open>\<open>get_request_num_tokens(request) if self._use_tokens else 0\<close>\<close>
  "load_tokens st r = (if ss_use_tokens st then get_request_num_tokens r else Inr 0)"

definition increment_load :: "oai_request \<Rightarrow> 'a server_state_scheme \<Rightarrow> 'a server_state_scheme result" where
  "increment_load r st = res_bind (load_tokens st r) (\<lambda>n.
     Inr (st\<lparr>num_active_requests := num_active_requests st + 1, num_active_tokens := num_active_tokens st + n\<rparr>))"

definition decrement_load :: "oai_request \<Rightarrow> 'a server_state_scheme \<Rightarrow> 'a server_state_scheme result" where
  "decrement_load r st = res_bind (load_tokens st r) (\<lambda>n.
     Inr (st\<lparr>num_active_requests := num_active_requests st - 1, num_active_tokens := num_active_tokens st - n\<rparr>))"

record kv_server_state = server_state +
  kv_cache_block_table :: "int list"   \<comment> \<open>a set, kept as a list without duplicates\<close>
  ss_tokens_per_block :: int

definition kv_server_state_init :: "string \<Rightarrow> bool \<Rightarrow> int \<Rightarrow> kv_server_state" where
  "kv_server_state_init s use_tokens tpb =
     \<lparr>ss_server = s, num_active_requests = 0, num_active_tokens = 0, ss_use_tokens = use_tokens,
      kv_cache_block_table = [], ss_tokens_per_block = tpb\<rparr>"

definition add_blocks :: "int list \<Rightarrow> kv_server_state \<Rightarrow> kv_server_state" where
  "add_blocks hs st = st\<lparr>kv_cache_block_table := fold List.insert hs (kv_cache_block_table st)\<rparr>"

definition remove_blocks :: "int list \<Rightarrow> kv_server_state \<Rightarrow> kv_server_state" where
  "remove_blocks hs st = st\<lparr>kv_cache_block_table := fold removeAll hs (kv_cache_block_table st)\<rparr>"

datatype kv_event = Stored "int list" | Removed "int list" | OtherEvent

definition update_with_events :: "kv_event list \<Rightarrow> kv_server_state \<Rightarrow> kv_server_state" where
  "update_with_events evs st =
     fold (\<lambda>ev st. case ev of Stored hs \<Rightarrow> add_blocks hs st | Removed hs \<Rightarrow> remove_blocks hs st | OtherEvent \<Rightarrow> st) evs st"

fun match_list :: "int list \<Rightarrow> int \<Rightarrow> int list \<Rightarrow> int" where
  \<comment> \<open>the inner loop of \<open>matched_tokens\<close>\<close>
  "match_list table tpb [] = 0"
| "match_list table tpb (h # hs) = (if h \<in> set table then tpb + match_list table tpb hs else 0)"

definition matched_tokens :: "int list list \<Rightarrow> kv_server_state \<Rightarrow> int" where
  "matched_tokens block_hashes st =
     sum_list (map (match_list (kv_cache_block_table st) (ss_tokens_per_block st)) block_hashes)"

definition kv_decrement_load :: "oai_request \<Rightarrow> kv_event list option \<Rightarrow> kv_server_state \<Rightarrow> kv_server_state result" where
  \<comment> \<open>\<open>events\<close>: what \<open>poll_events\<close> returned, \<open>None\<close> without a session\<close>
  "kv_decrement_load r events st = res_bind (load_tokens st r) (\<lambda>n.
     let st' = st\<lparr>num_active_requests := num_active_requests st - 1, num_active_tokens := num_active_tokens st - n\<rparr> in
     Inr (case events of None \<Rightarrow> st' | Some evs \<Rightarrow> update_with_events evs st'))"

section \<open>Routers\<close>

datatype server_role = CONTEXT | GENERATION

record router =
  servers :: "string list"
  has_metadata :: bool
  role :: server_role
  health_timeout_set :: bool

definition added_servers :: "string \<Rightarrow> string list \<Rightarrow> string list option" where
  \<comment> \<open>the new server list of \<open>add_server\<close>, \<open>None\<close> when nothing changes\<close>
  "added_servers s old = (if s \<in> set old then None else Some (old @ [s]))"

definition removed_servers :: "string \<Rightarrow> string list \<Rightarrow> string list option" where
  "removed_servers s old = (if s \<notin> set old then None else Some (filter (\<lambda>o'. o' \<noteq> s) old))"

definition change_servers :: "(string list \<Rightarrow> string list \<Rightarrow> 'a router_scheme \<Rightarrow> 'a router_scheme)
    \<Rightarrow> string list option \<Rightarrow> 'a router_scheme \<Rightarrow> 'a router_scheme" where
  \<comment> \<open>\<open>self._servers = new; self._on_servers_updated(old, new)\<close>\<close>
  "change_servers on_updated new rt =
     (case new of None \<Rightarrow> rt | Some ns \<Rightarrow> on_updated (servers rt) ns (rt\<lparr>servers := ns\<rparr>))"

definition add_server :: "(string list \<Rightarrow> string list \<Rightarrow> 'a router_scheme \<Rightarrow> 'a router_scheme)
    \<Rightarrow> string \<Rightarrow> 'a router_scheme \<Rightarrow> 'a router_scheme" where
  "add_server on_updated s rt = change_servers on_updated (added_servers s (servers rt)) rt"

definition remove_server :: "(string list \<Rightarrow> string list \<Rightarrow> 'a router_scheme \<Rightarrow> 'a router_scheme)
    \<Rightarrow> string \<Rightarrow> 'a router_scheme \<Rightarrow> 'a router_scheme" where
  "remove_server on_updated s rt = change_servers on_updated (removed_servers s (servers rt)) rt"

section \<open>Server discovery\<close>

type_synonym metadata = "(string, (string, string) dict) dict"

definition str_or :: "string option \<Rightarrow> string \<Rightarrow> string" where
  \<comment> \<open>\<open>x or y\<close> for a missing or empty \<open>x\<close>\<close>
  "str_or x y = (case x of None \<Rightarrow> y | Some s \<Rightarrow> if s = '''' then y else s)"

definition get_server_type :: "(string, string) dict \<Rightarrow> string" where
  "get_server_type md = str_lower (str_or (map_of md ''server_type'') (str_or (map_of md ''server_role'') ''''))"

definition is_matching_role :: "server_role \<Rightarrow> string \<Rightarrow> bool" where
  "is_matching_role r t \<longleftrightarrow> r = CONTEXT \<and> t = ''context'' \<or> r = GENERATION \<and> t = ''generation''"

definition fetch_live_servers :: "metadata \<Rightarrow> 'a router_scheme \<Rightarrow> (string, string) dict result" where
  "fetch_live_servers md rt =
     (if \<not> has_metadata rt then Inl RuntimeError
      else let m = List.map_filter (\<lambda>(k, v). if take 7 k = ''trtllm/'' then map_option (\<lambda>u. (k, u)) (map_of v ''url'') else None) md in
        if m = [] then Inl ValueError else Inr m)"

definition server_alive :: "(string \<Rightarrow> bool) \<Rightarrow> (string \<Rightarrow> bool) \<Rightarrow> 'a router_scheme \<Rightarrow> string \<Rightarrow> bool" where
  \<comment> \<open>the two attempts; without a timeout the assertion of \<open>_check_server_health\<close> makes the server dead\<close>
  "server_alive first second rt url \<longleftrightarrow> health_timeout_set rt \<and> (first url \<or> second url)"

definition check_servers_health :: "(string \<Rightarrow> bool) \<Rightarrow> (string \<Rightarrow> bool) \<Rightarrow> (string, string) dict \<Rightarrow> metadata \<Rightarrow> 'a router_scheme
    \<Rightarrow> string list \<times> metadata" where
  \<comment> \<open>the live servers, and the metadata without the dead ones\<close>
  "check_servers_health first second key_map md rt =
     (map snd (filter (\<lambda>(k, u). server_alive first second rt u) key_map),
      fold (\<lambda>(k, u) md. if server_alive first second rt u then md else AList.delete k md) key_map md)"

definition filter_servers_by_role :: "string list \<Rightarrow> (string, string) dict \<Rightarrow> metadata \<Rightarrow> 'a router_scheme \<Rightarrow> string list result" where
  "filter_servers_by_role live key_map md rt =
     (if live = [] then Inl RuntimeError
      else let url_to_key = fold (\<lambda>(k, u) d. AList.update u k d) key_map [] in
        Inr (filter (\<lambda>u. case map_of url_to_key u of
                       None \<Rightarrow> False
                     | Some k \<Rightarrow> k \<noteq> '''' \<and> (case map_of md k of None \<Rightarrow> False
                         | Some v \<Rightarrow> v \<noteq> [] \<and> is_matching_role (role rt) (get_server_type v))) live))"

definition monitor_servers :: "(string list \<Rightarrow> string list \<Rightarrow> 'a router_scheme \<Rightarrow> 'a router_scheme)
    \<Rightarrow> (string \<Rightarrow> bool) \<Rightarrow> (string \<Rightarrow> bool) \<Rightarrow> metadata \<Rightarrow> 'a router_scheme \<Rightarrow> ('a router_scheme \<times> metadata) result" where
  \<comment> \<open>one round of the loop\<close>
  "monitor_servers on_updated first second md rt =
     res_bind (fetch_live_servers md rt) (\<lambda>key_map.
     case check_servers_health first second key_map md rt of (live, md') \<Rightarrow>
     res_bind (filter_servers_by_role live key_map md' rt) (\<lambda>final.
     res_bind (py_assert (final \<noteq> [])) (\<lambda>_.
     Inr (change_servers on_updated (if final \<noteq> servers rt then Some final else None) rt, md'))))"

section \<open>Round robin\<close>

record rr_router = router +
  server_idx :: int

definition rr_init :: "server_role \<Rightarrow> string list \<Rightarrow> bool \<Rightarrow> bool \<Rightarrow> rr_router" where
  "rr_init r ss md timeout = \<lparr>servers = ss, has_metadata = md, role = r, health_timeout_set = timeout, server_idx = 0\<rparr>"

definition rr_on_servers_updated :: "string list \<Rightarrow> string list \<Rightarrow> rr_router \<Rightarrow> rr_router" where
  "rr_on_servers_updated old new rt =
     (if length new < length old then rt\<lparr>server_idx := 0\<rparr>
      else if server_idx rt \<ge> int (length new) then rt\<lparr>server_idx := 0\<rparr> else rt)"

definition rr_get_next_server :: "rr_router \<Rightarrow> string result \<times> rr_router" where
  "rr_get_next_server rt =
     (if servers rt = [] then (Inl ValueError, rt)
      else let i = (if server_idx rt \<ge> int (length (servers rt)) then 0 else server_idx rt) in
        (py_index (servers rt) i, rt\<lparr>server_idx := (i + 1) mod int (length (servers rt))\<rparr>))"

section \<open>Load balancing\<close>

record lb_router = router +
  server_states :: "(string, server_state) dict"
  load_heap :: "(int \<times> string) list"
  routing_table :: "(int, string) dict"
  use_tokens :: bool

definition get_server_load :: "(string, server_state) dict \<Rightarrow> bool \<Rightarrow> string \<Rightarrow> int result" where
  "get_server_load sts tok s = res_bind (dict_get sts s) (\<lambda>st. Inr (if tok then num_active_tokens st else num_active_requests st))"

fun push_servers :: "string list \<Rightarrow> (string, server_state) dict \<Rightarrow> bool \<Rightarrow> (int \<times> string) list \<Rightarrow> (int \<times> string) list result" where
  "push_servers [] sts tok h = Inr h"
| "push_servers (s # ss) sts tok h = res_bind (get_server_load sts tok s) (\<lambda>l. push_servers ss sts tok (heappush (l, s) h))"

fun init_heap :: "string list \<Rightarrow> bool \<Rightarrow> (string, server_state) dict \<Rightarrow> (int \<times> string) list
    \<Rightarrow> ((string, server_state) dict \<times> (int \<times> string) list) result" where
  "init_heap [] tok sts h = Inr (sts, h)"
| "init_heap (s # ss) tok sts h =
     (let sts' = AList.update s (server_state_init s tok) sts in
      res_bind (get_server_load sts' tok s) (\<lambda>l. init_heap ss tok sts' (heappush (l, s) h)))"

definition lb_init :: "server_role \<Rightarrow> string list \<Rightarrow> bool \<Rightarrow> bool \<Rightarrow> bool \<Rightarrow> lb_router result" where
  "lb_init r ss md timeout tok = res_bind (init_heap ss tok [] []) (\<lambda>(sts, h).
     Inr \<lparr>servers = ss, has_metadata = md, role = r, health_timeout_set = timeout,
          server_states = sts, load_heap = h, routing_table = [], use_tokens = tok\<rparr>)"

definition keep_states :: "string list \<Rightarrow> bool \<Rightarrow> (string, server_state) dict \<Rightarrow> (string, server_state) dict" where
  \<comment> \<open>\<open>current_state\<close>\<close>
  "keep_states new tok sts =
     fold (\<lambda>s cur. AList.update s (case map_of sts s of Some st \<Rightarrow> st | None \<Rightarrow> server_state_init s tok) cur) new []"

definition lb_on_servers_updated :: "string list \<Rightarrow> string list \<Rightarrow> lb_router \<Rightarrow> lb_router" where
  "lb_on_servers_updated old new rt =
     (let sts = keep_states new (use_tokens rt) (server_states rt) in
      case push_servers new sts (use_tokens rt) [] of
        Inl e \<Rightarrow> rt\<lparr>server_states := sts, load_heap := []\<rparr>
      | Inr h \<Rightarrow> rt\<lparr>server_states := sts, load_heap := h\<rparr>)"

definition lb_get_next_server :: "oai_request \<Rightarrow> lb_router \<Rightarrow> string result \<times> lb_router" where
  "lb_get_next_server r rt =
     (if servers rt = [] then (Inl ValueError, rt)
      else case heappop (load_heap rt) of
        Inl e \<Rightarrow> (Inl e, rt)
      | Inr ((_, s), h) \<Rightarrow>
          let rt1 = rt\<lparr>load_heap := h\<rparr> in
          case res_bind (dict_get (server_states rt1) s) (increment_load r) of
            Inl e \<Rightarrow> (Inl e, rt1)
          | Inr st \<Rightarrow>
              let sts = AList.update s st (server_states rt1) in
              case get_server_load sts (use_tokens rt1) s of
                Inl e \<Rightarrow> (Inl e, rt1\<lparr>server_states := sts\<rparr>)
              | Inr l \<Rightarrow> (Inr s, rt1\<lparr>server_states := sts, load_heap := heappush (l, s) h,
                                   routing_table := AList.update (obj_id r) s (routing_table rt1)\<rparr>))"

definition lb_finish_request :: "oai_request \<Rightarrow> lb_router \<Rightarrow> unit result \<times> lb_router" where
  "lb_finish_request r rt =
     (case dict_get (routing_table rt) (obj_id r) of
        Inl e \<Rightarrow> (Inl e, rt)
      | Inr s \<Rightarrow>
          (case res_bind (dict_get (server_states rt) s) (decrement_load r) of
             Inl e \<Rightarrow> (Inl e, rt)
           | Inr st \<Rightarrow>
               let sts = AList.update s st (server_states rt) in
               case get_server_load sts (use_tokens rt) s of
                 Inl e \<Rightarrow> (Inl e, rt\<lparr>server_states := sts\<rparr>)
               | Inr l \<Rightarrow> (Inr (), rt\<lparr>server_states := sts, load_heap := heappush (l, s) (load_heap rt),
                                     routing_table := AList.delete (obj_id r) (routing_table rt)\<rparr>)))"

section \<open>KV-cache aware routing\<close>

record kv_router = router +
  kv_states :: "(string, kv_server_state) dict"
  kv_routing_table :: "(int, string) dict"
  kv_use_tokens :: bool
  kv_max_batch_size :: int
  kv_tokens_per_block :: int

definition default_tokens_per_block :: int where "default_tokens_per_block = 32"

definition kv_init :: "server_role \<Rightarrow> string list \<Rightarrow> bool \<Rightarrow> bool \<Rightarrow> bool \<Rightarrow> int \<Rightarrow> int \<Rightarrow> kv_router" where
  "kv_init r ss md timeout tok max_batch tpb =
     \<lparr>servers = ss, has_metadata = md, role = r, health_timeout_set = timeout,
      kv_states = fold (\<lambda>s. AList.update s (kv_server_state_init s tok default_tokens_per_block)) ss [],
      kv_routing_table = [], kv_use_tokens = tok, kv_max_batch_size = max_batch, kv_tokens_per_block = tpb\<rparr>"

definition tokenize :: "(string \<Rightarrow> string \<Rightarrow> int list) \<Rightarrow> oai_request \<Rightarrow> int list list result" where
  \<comment> \<open>\<open>tok model\<close> stands for the tokenizer of the model\<close>
  "tokenize tok r = (case prompt r of
      PTokenLists tss \<Rightarrow> if tss = [] then Inl IndexError else Inr tss
    | PTokens ts \<Rightarrow> if ts = [] then Inl IndexError else Inr [ts]
    | PStr s \<Rightarrow> Inr [tok (req_model r) s]
    | PStrs ss \<Rightarrow> if ss = [] then Inl IndexError else Inr (map (tok (req_model r)) ss)
    | PInt _ \<Rightarrow> Inl AssertionError
    | PNone \<Rightarrow> Inl AssertionError)"

fun hash_blocks :: "(int list \<Rightarrow> int \<Rightarrow> int) \<Rightarrow> int list \<Rightarrow> int list \<Rightarrow> int \<Rightarrow> int list \<Rightarrow> int list" where
  \<comment> \<open>the loop over \<open>t\<close>; \<open>hash\<close> is \<open>BlockKeyHasher.hash\<close>, with parent 0 for the first block\<close>
  "hash_blocks hash ts [] tpb acc = acc"
| "hash_blocks hash ts (t # rest) tpb acc =
     (let t_end = min (t + tpb) (int (length ts) - 1);
          blk = take (nat (t_end - t)) (drop (nat t) ts) in
      hash_blocks hash ts rest tpb (acc @ [hash blk (if t = 0 then 0 else last acc)]))"

definition block_hash_list :: "(int list \<Rightarrow> int \<Rightarrow> int) \<Rightarrow> int \<Rightarrow> int list \<Rightarrow> int list" where
  "block_hash_list hash tpb ts = hash_blocks hash ts (py_range_step 0 (int (length ts) - 1) tpb) tpb []"

fun best_index :: "('f::linorder) list \<Rightarrow> nat" where
  \<comment> \<open>\<open>scores.index(max(scores))\<close>\<close>
  "best_index [] = 0"
| "best_index [x] = 0"
| "best_index (x # xs) = (if \<forall>y \<in> set xs. y \<le> x then 0 else Suc (best_index xs))"

definition kv_scores :: "(int \<Rightarrow> int \<Rightarrow> 'f::linorder) \<Rightarrow> ('f \<Rightarrow> 'f \<Rightarrow> 'f) \<Rightarrow> int \<Rightarrow> int \<Rightarrow> int list list \<Rightarrow> kv_server_state list \<Rightarrow> 'f list" where
  "kv_scores fdiv fsub padded max_batch hashes sts =
     map (\<lambda>st. fsub (fdiv (matched_tokens hashes st) padded) (fdiv (num_active_requests st) max_batch)) sts"

definition kv_get_next_server :: "(int \<Rightarrow> int \<Rightarrow> 'f::linorder) \<Rightarrow> ('f \<Rightarrow> 'f \<Rightarrow> 'f) \<Rightarrow> (string \<Rightarrow> string \<Rightarrow> int list) \<Rightarrow> (int list \<Rightarrow> int \<Rightarrow> int)
    \<Rightarrow> oai_request \<Rightarrow> kv_router \<Rightarrow> (string \<times> int list list \<times> int list list \<times> int list) result \<times> kv_router" where
  \<comment> \<open>a call in which no other task runs between the choice of the server and the update, where the source does not hold the lock\<close>
  "kv_get_next_server fdiv fsub tok hash r rt =
     (case tokenize tok r of
        Inl e \<Rightarrow> (Inl e, rt)
      | Inr token_lists \<Rightarrow>
          if kv_tokens_per_block rt = 0 then (Inl ValueError, rt)
          else
            let hashes = map (block_hash_list hash (kv_tokens_per_block rt)) token_lists;
                padded = int (sum_list (map length hashes)) * kv_tokens_per_block rt;
                sts = map snd (kv_states rt);
                matches = map (matched_tokens hashes) sts in
            if sts = [] then (Inl ValueError, rt)
            else if padded = 0 \<or> kv_max_batch_size rt = 0 then (Inl ZeroDivisionError, rt)
            else
              let i = best_index (kv_scores fdiv fsub padded (kv_max_batch_size rt) hashes sts);
                  s = fst (kv_states rt ! i) in
              (case increment_load r (sts ! i) of
                 Inl e \<Rightarrow> (Inl e, rt)
               | Inr st \<Rightarrow> (Inr (s, hashes, token_lists, matches),
                   rt\<lparr>kv_states := AList.update s st (kv_states rt),
                      kv_routing_table := AList.update (obj_id r) s (kv_routing_table rt)\<rparr>)))"

definition kv_finish_request :: "oai_request \<Rightarrow> kv_event list option \<Rightarrow> kv_router \<Rightarrow> unit result \<times> kv_router" where
  "kv_finish_request r events rt =
     (case dict_get (kv_routing_table rt) (obj_id r) of
        Inl e \<Rightarrow> (Inl e, rt)
      | Inr s \<Rightarrow>
          let rt1 = rt\<lparr>kv_routing_table := AList.delete (obj_id r) (kv_routing_table rt)\<rparr> in
          (case map_of (kv_states rt1) s of
             None \<Rightarrow> (Inr (), rt1)
           | Some st \<Rightarrow>
               (case kv_decrement_load r events st of
                  Inl e \<Rightarrow> (Inl e, rt1)
                | Inr st' \<Rightarrow> (Inr (), rt1\<lparr>kv_states := AList.update s st' (kv_states rt1)\<rparr>))))"

definition kv_on_servers_updated :: "string list \<Rightarrow> string list \<Rightarrow> kv_router \<Rightarrow> kv_router" where
  "kv_on_servers_updated old new rt =
     rt\<lparr>kv_states := fold AList.delete old
          (fold (\<lambda>s. AList.update s (kv_server_state_init s (kv_use_tokens rt) default_tokens_per_block)) new (kv_states rt))\<rparr>"

section \<open>The factory\<close>

datatype router_class = RoundRobinRouter | LoadBalancingRouter | KvCacheAwareRouter

definition create_router :: "string option \<Rightarrow> router_class result" where
  \<comment> \<open>the class that \<open>create_router\<close> instantiates for the configured type, \<open>None\<close> without a configuration\<close>
  "create_router cfg =
     (let t = str_lower (case cfg of None \<Rightarrow> ''round_robin'' | Some s \<Rightarrow> s) in
      if t = ''round_robin'' then Inr RoundRobinRouter
      else if t = ''load_balancing'' then Inr LoadBalancingRouter
      else if t = ''kv_cache_aware'' then Inr KvCacheAwareRouter
      else Inl ValueError)"

section \<open>What every policy promises\<close>

text \<open>
  The server list is the interface between the disaggregated service and a policy: an answer is always one
  of the current servers, and a change of the list takes effect at once.
\<close>

datatype policy_cmd = Route oai_request | SetServers "string list"

fun policy_run :: "(oai_request \<Rightarrow> 'r \<Rightarrow> string result \<times> 'r) \<Rightarrow> (string list \<Rightarrow> 'r \<Rightarrow> 'r) \<Rightarrow> ('r \<Rightarrow> string list)
    \<Rightarrow> policy_cmd list \<Rightarrow> 'r \<Rightarrow> (string list \<times> string result) list \<times> 'r" where
  \<comment> \<open>the answers to a sequence of commands, each with the server list at that time\<close>
  "policy_run nxt upd srv [] rt = ([], rt)"
| "policy_run nxt upd srv (Route r # cs) rt =
     (case nxt r rt of (res, rt1) \<Rightarrow>
      case policy_run nxt upd srv cs rt1 of (out, rt2) \<Rightarrow> ((srv rt, res) # out, rt2))"
| "policy_run nxt upd srv (SetServers ss # cs) rt = policy_run nxt upd srv cs (upd ss rt)"

fun answer_ok :: "string list \<times> string result \<Rightarrow> bool" where
  "answer_ok (ss, res) \<longleftrightarrow> (if ss = [] then res = Inl ValueError else \<exists>s \<in> set ss. res = Inr s)"

locale routing_policy =
  fixes inv :: "'r \<Rightarrow> bool"
    and ok :: "'r \<Rightarrow> oai_request \<Rightarrow> bool"
    and srv :: "'r \<Rightarrow> string list"
    and nxt :: "oai_request \<Rightarrow> 'r \<Rightarrow> string result \<times> 'r"
    and upd :: "string list \<Rightarrow> 'r \<Rightarrow> 'r"
  assumes nxt_empty: "srv rt = [] \<Longrightarrow> nxt r rt = (Inl ValueError, rt)"
    and nxt_ok: "inv rt \<Longrightarrow> srv rt \<noteq> [] \<Longrightarrow> ok rt r \<Longrightarrow>
      \<exists>s rt'. nxt r rt = (Inr s, rt') \<and> s \<in> set (srv rt) \<and> srv rt' = srv rt \<and> inv rt' \<and> ok rt' = ok rt"
    and upd_ok: "inv rt \<Longrightarrow> distinct ss \<Longrightarrow> inv (upd ss rt) \<and> srv (upd ss rt) = ss \<and> ok (upd ss rt) = ok rt"
begin

text \<open>In a run over supported requests and distinct lists, no request fails while there are servers.\<close>

lemma run_answers:
  assumes "inv rt" "\<And>r. Route r \<in> set cs \<Longrightarrow> ok rt r" "\<And>ss. SetServers ss \<in> set cs \<Longrightarrow> distinct ss"
  shows "list_all answer_ok (fst (policy_run nxt upd srv cs rt)) \<and> inv (snd (policy_run nxt upd srv cs rt))"
  using assms
proof (induction cs arbitrary: rt)
  case (Cons c cs)
  show ?case
  proof (cases c)
    case (SetServers ss)
    with Cons.prems upd_ok[of rt ss] have "inv (upd ss rt)" "ok (upd ss rt) = ok rt" by auto
    with Cons.IH[of "upd ss rt"] Cons.prems SetServers show ?thesis by auto
  next
    case (Route r)
    show ?thesis
    proof (cases "srv rt = []")
      case True
      with nxt_empty[OF True, of r] Cons.IH[of rt] Cons.prems Route show ?thesis
        by (auto split: prod.splits)
    next
      case False
      from nxt_ok[OF Cons.prems(1) False, of r] Cons.prems(2) Route obtain s rt' where
        n: "nxt r rt = (Inr s, rt')" "s \<in> set (srv rt)" "inv rt'" "ok rt' = ok rt" by auto
      with Cons.IH[of rt'] Cons.prems False Route show ?thesis by (auto split: prod.splits)
    qed
  qed
qed simp

end

section \<open>Round robin\<close>

definition rr_inv :: "rr_router \<Rightarrow> bool" where
  "rr_inv rt \<longleftrightarrow> 0 \<le> server_idx rt"

abbreviation rr_next :: "oai_request \<Rightarrow> rr_router \<Rightarrow> string result \<times> rr_router" where
  "rr_next r \<equiv> rr_get_next_server"

abbreviation rr_set :: "string list \<Rightarrow> rr_router \<Rightarrow> rr_router" where
  "rr_set ss \<equiv> change_servers rr_on_servers_updated (Some ss)"

interpretation rr: routing_policy rr_inv "\<lambda>_ _. True" servers rr_next rr_set
proof
  fix rt :: rr_router and r :: oai_request
  assume inv: "rr_inv rt" and ne: "servers rt \<noteq> []"
  let ?i = "if server_idx rt \<ge> int (length (servers rt)) then 0 else server_idx rt"
  have i: "0 \<le> ?i" "?i < int (length (servers rt))" using inv ne by (auto simp: rr_inv_def)
  then have "py_index (servers rt) ?i = Inr (servers rt ! nat ?i)" "nat ?i < length (servers rt)" by (auto simp del: if_split)
  then show "\<exists>s rt'. rr_next r rt = (Inr s, rt') \<and> s \<in> set (servers rt) \<and> servers rt' = servers rt \<and> rr_inv rt' \<and> (\<lambda>_. True) = (\<lambda>_. True)"
    using ne by (auto simp: rr_get_next_server_def rr_inv_def Let_def split del: if_split)
qed (auto simp: rr_get_next_server_def change_servers_def rr_on_servers_updated_def rr_inv_def)

text \<open>Fairness: the next \<open>k\<close> answers walk the list from the current index.\<close>

fun rr_take :: "nat \<Rightarrow> rr_router \<Rightarrow> string result list" where
  "rr_take 0 rt = []"
| "rr_take (Suc k) rt = (case rr_get_next_server rt of (res, rt') \<Rightarrow> res # rr_take k rt')"

lemma rr_take_walk:
  assumes "servers rt \<noteq> []" "0 \<le> server_idx rt" "server_idx rt < int (length (servers rt))"
  shows "rr_take k rt = map (\<lambda>j. Inr (servers rt ! nat ((server_idx rt + int j) mod int (length (servers rt))))) [0..<k]"
  using assms
proof (induction k arbitrary: rt)
  case (Suc k)
  let ?n = "int (length (servers rt))" and ?i = "server_idx rt"
  let ?rt = "rt\<lparr>server_idx := (?i + 1) mod ?n\<rparr>"
  have n: "rr_get_next_server rt = (Inr (servers rt ! nat ?i), ?rt)"
    using Suc.prems by (simp add: rr_get_next_server_def Let_def)
  have "rr_take k ?rt = map (\<lambda>j. Inr (servers rt ! nat ((?i + 1 + int j) mod ?n))) [0..<k]"
    using Suc.IH[of ?rt] Suc.prems by (simp add: mod_simps)
  then show ?case using n Suc.prems
    by (simp add: upt_conv_Cons algebra_simps del: upt_Suc flip: map_Suc_upt)
qed simp

section \<open>Load balancing\<close>

definition lb_load :: "lb_router \<Rightarrow> string \<Rightarrow> int" where
  "lb_load rt s = (case map_of (server_states rt) s of
      None \<Rightarrow> 0 | Some st \<Rightarrow> if use_tokens rt then num_active_tokens st else num_active_requests st)"

definition lb_inv :: "lb_router \<Rightarrow> bool" where
  \<comment> \<open>every server has a state and a heap entry with its current load, and the heap names no other server\<close>
  "lb_inv rt \<longleftrightarrow> sorted (load_heap rt) \<and> distinct (servers rt)
     \<and> distinct (keys_of (server_states rt)) \<and> set (keys_of (server_states rt)) = set (servers rt)
     \<and> (\<forall>(s, st) \<in> set (server_states rt). ss_use_tokens st = use_tokens rt)
     \<and> (\<forall>(l, s) \<in> set (load_heap rt). s \<in> set (servers rt))
     \<and> (\<forall>s \<in> set (servers rt). (lb_load rt s, s) \<in> set (load_heap rt))"

definition lb_supported :: "lb_router \<Rightarrow> oai_request \<Rightarrow> bool" where
  \<comment> \<open>the number of tokens is defined when the router counts tokens\<close>
  "lb_supported rt r \<longleftrightarrow> \<not> use_tokens rt \<or> (\<exists>n. get_request_num_tokens r = Inr n)"

definition req_weight :: "lb_router \<Rightarrow> oai_request \<Rightarrow> int" where
  "req_weight rt r = (if use_tokens rt then projr (get_request_num_tokens r) else 1)"

lemma set_heappush [simp]: "set (heappush x h) = insert x (set h)"
  by (simp add: heappush_def set_insort_key)

lemma length_heappush [simp]: "length (heappush x h) = Suc (length h)"
  by (simp add: heappush_def)

lemma lb_inv_lookup:
  assumes "lb_inv rt" "s \<in> set (servers rt)"
  obtains st where "map_of (server_states rt) s = Some st" "ss_use_tokens st = use_tokens rt"
proof -
  from assms have "s \<in> set (keys_of (server_states rt))" by (simp add: lb_inv_def)
  then obtain st where st: "map_of (server_states rt) s = Some st" by (metis map_of_eq_None_iff not_None_eq set_map)
  moreover have "ss_use_tokens st = use_tokens rt" using assms(1) map_of_SomeD[OF st] by (auto simp: lb_inv_def)
  ultimately show ?thesis using that by blast
qed

text \<open>The common part of the two operations: a new state for one server and a fresh heap entry.\<close>

definition lb_touch :: "string \<Rightarrow> server_state \<Rightarrow> (int \<times> string) list \<Rightarrow> (int, string) dict \<Rightarrow> lb_router \<Rightarrow> lb_router" where
  "lb_touch s st h tbl rt =
     (let rt' = rt\<lparr>server_states := AList.update s st (server_states rt)\<rparr> in
      rt'\<lparr>load_heap := heappush (lb_load rt' s, s) h, routing_table := tbl\<rparr>)"

lemma lb_touch_fields [simp]:
  "servers (lb_touch s st h tbl rt) = servers rt" "use_tokens (lb_touch s st h tbl rt) = use_tokens rt"
  "routing_table (lb_touch s st h tbl rt) = tbl" "length (load_heap (lb_touch s st h tbl rt)) = Suc (length h)"
  "server_states (lb_touch s st h tbl rt) = AList.update s st (server_states rt)"
  by (simp_all add: lb_touch_def Let_def)

lemma lb_load_touch [simp]:
  "lb_load (lb_touch s st h tbl rt) k = (if k = s then (if use_tokens rt then num_active_tokens st else num_active_requests st) else lb_load rt k)"
  by (simp add: lb_load_def split: option.splits)

lemma lb_touch_heap: "load_heap (lb_touch s st h tbl rt) = heappush (lb_load (lb_touch s st h tbl rt) s, s) h"
  by (simp add: lb_touch_def Let_def lb_load_def)

lemma lb_touch_inv:
  assumes inv: "lb_inv rt" and s: "s \<in> set (servers rt)" and st: "ss_use_tokens st = use_tokens rt"
    and h: "sorted h" "set h \<subseteq> set (load_heap rt)" "\<And>l k. (l, k) \<in> set (load_heap rt) \<Longrightarrow> k \<noteq> s \<Longrightarrow> (l, k) \<in> set h"
  shows "lb_inv (lb_touch s st h tbl rt)"
proof -
  have keys: "keys_of (AList.update s st (server_states rt)) = keys_of (server_states rt)"
    using inv s by (simp add: lb_inv_def update_keys)
  have vals: "\<forall>(k, v) \<in> set (AList.update s st (server_states rt)). ss_use_tokens v = use_tokens rt"
    using inv st by (auto simp: lb_inv_def dest!: subsetD[OF set_update_subset])
  have "sorted (load_heap (lb_touch s st h tbl rt))" unfolding lb_touch_heap using heapq.push_ok(1)[OF h(1)] .
  moreover have "\<forall>(l, k) \<in> set (load_heap (lb_touch s st h tbl rt)). k \<in> set (servers rt)"
    unfolding lb_touch_heap using inv s h(2) by (auto simp: lb_inv_def)
  moreover have "\<forall>k \<in> set (servers rt). (lb_load (lb_touch s st h tbl rt) k, k) \<in> set (load_heap (lb_touch s st h tbl rt))"
    unfolding lb_touch_heap using inv h(3) by (auto simp: lb_inv_def)
  ultimately show ?thesis using inv keys vals unfolding lb_inv_def lb_touch_fields by simp
qed

lemma increment_load_ok:
  assumes "ss_use_tokens st = use_tokens rt" "lb_supported rt r"
  obtains st' where "increment_load r st = Inr st'" "ss_use_tokens st' = use_tokens rt"
    "(if use_tokens rt then num_active_tokens st' else num_active_requests st') =
     (if use_tokens rt then num_active_tokens st else num_active_requests st) + req_weight rt r"
    "num_active_requests st' = num_active_requests st + 1"
  using assms by (auto simp: increment_load_def load_tokens_def lb_supported_def req_weight_def split: if_splits)

lemma lb_get_next_step:
  assumes inv: "lb_inv rt" and ne: "servers rt \<noteq> []" and ok: "lb_supported rt r"
  obtains l s h st where "heappop (load_heap rt) = Inr ((l, s), h)" "s \<in> set (servers rt)"
    "lb_get_next_server r rt = (Inr s, lb_touch s st h (AList.update (obj_id r) s (routing_table rt)) rt)"
    "lb_load (lb_touch s st h (AList.update (obj_id r) s (routing_table rt)) rt) s = lb_load rt s + req_weight rt r"
    "lb_inv (lb_touch s st h (AList.update (obj_id r) s (routing_table rt)) rt)"
    "\<And>k. k \<in> set (servers rt) \<Longrightarrow> l \<le> lb_load rt k" "length (load_heap rt) = Suc (length h)"
    "\<exists>st0. map_of (server_states rt) s = Some st0 \<and> num_active_requests st = num_active_requests st0 + 1"
proof -
  have srt: "sorted (load_heap rt)" using inv by (simp add: lb_inv_def)
  have fresh: "k \<in> set (servers rt) \<Longrightarrow> (lb_load rt k, k) \<in># mset (load_heap rt)" for k
    using inv by (simp add: lb_inv_def)
  show ?thesis
  proof (cases rule: heapq.pop_cases[OF srt])
    case 1
    then show ?thesis using ne fresh by (cases "servers rt") auto
  next
    case (2 x h)
    obtain l s where x: "x = (l, s)" by (cases x)
    have s: "s \<in> set (servers rt)"
    proof -
      have "(l, s) \<in># mset (load_heap rt)" using 2(3) x by simp
      then show ?thesis using inv by (auto simp: lb_inv_def)
    qed
    obtain st0 where st0: "map_of (server_states rt) s = Some st0" "ss_use_tokens st0 = use_tokens rt"
      using lb_inv_lookup[OF inv s] .
    obtain st where st: "increment_load r st0 = Inr st" "ss_use_tokens st = use_tokens rt"
      "(if use_tokens rt then num_active_tokens st else num_active_requests st) =
       (if use_tokens rt then num_active_tokens st0 else num_active_requests st0) + req_weight rt r"
      "num_active_requests st = num_active_requests st0 + 1"
      using increment_load_ok[OF st0(2) ok] .
    have setH: "set (load_heap rt) = insert (l, s) (set h)" using 2(3) x by (metis mset_eq_setD mset.simps(2) list.simps(15))
    show ?thesis
    proof (rule that[of l s h st])
      show "lb_get_next_server r rt = (Inr s, lb_touch s st h (AList.update (obj_id r) s (routing_table rt)) rt)"
        using ne 2(1) x st0 st(1) by (simp add: lb_get_next_server_def Let_def get_server_load_def lb_touch_def lb_load_def)
      show "lb_inv (lb_touch s st h (AList.update (obj_id r) s (routing_table rt)) rt)"
        using setH by (intro lb_touch_inv[OF inv s st(2) 2(2)]) auto
      show "l \<le> lb_load rt k" if "k \<in> set (servers rt)" for k
        using 2(4)[OF fresh[OF that]] x by (auto simp: less_eq_prod_def)
      show "length (load_heap rt) = Suc (length h)" using 2(3) by (metis size_mset size_add_mset)
    qed (use 2(1) x s st st0 in \<open>auto simp: lb_load_def\<close>)
  qed
qed

lemma lb_finish_step:
  assumes inv: "lb_inv rt" and fin: "lb_finish_request r rt = (Inr (), rt')"
  obtains s st st0 where "map_of (routing_table rt) (obj_id r) = Some s" "s \<in> set (servers rt)"
    "map_of (server_states rt) s = Some st0" "num_active_requests st = num_active_requests st0 - 1"
    "rt' = lb_touch s st (load_heap rt) (AList.delete (obj_id r) (routing_table rt)) rt" "lb_inv rt'"
proof -
  from fin obtain s where s: "map_of (routing_table rt) (obj_id r) = Some s"
    by (auto simp: lb_finish_request_def split: sum.splits)
  with fin obtain st0 st where st0: "map_of (server_states rt) s = Some st0" and st: "decrement_load r st0 = Inr st"
    by (cases "map_of (server_states rt) s") (auto simp: lb_finish_request_def split: sum.splits)
  have mem: "s \<in> set (servers rt)" using inv map_of_SomeD[OF st0] by (force simp: lb_inv_def)
  have tok: "ss_use_tokens st0 = use_tokens rt" using inv map_of_SomeD[OF st0] by (auto simp: lb_inv_def)
  have st': "ss_use_tokens st = use_tokens rt" "num_active_requests st = num_active_requests st0 - 1"
    using st tok by (auto simp: decrement_load_def)
  have rt': "rt' = lb_touch s st (load_heap rt) (AList.delete (obj_id r) (routing_table rt)) rt"
    using fin s st0 st by (simp add: lb_finish_request_def Let_def get_server_load_def lb_touch_def lb_load_def)
  have "lb_inv rt'" unfolding rt' using inv by (intro lb_touch_inv[OF inv mem st'(1)]) (auto simp: lb_inv_def)
  with s mem st0 st'(2) rt' show ?thesis using that by blast
qed

text \<open>A change of the server list rebuilds the heap.\<close>

lemma fold_update_graph:
  "distinct xs \<Longrightarrow> set xs \<inter> fst ` set d = {} \<Longrightarrow> fold (\<lambda>s. AList.update s (f s)) xs d = d @ map (\<lambda>s. (s, f s)) xs"
  by (induction xs arbitrary: d) (auto simp: update_new)

lemma map_of_graph [simp]: "map_of (map (\<lambda>s. (s, f s)) xs) s = (if s \<in> set xs then Some (f s) else None)"
  by (induction xs) auto

lemma keys_graph [simp]: "keys_of (map (\<lambda>s. (s, f s)) xs) = xs"
  by (simp add: comp_def)

lemma keep_states_graph:
  "distinct new \<Longrightarrow> keep_states new tok sts =
     map (\<lambda>s. (s, case map_of sts s of Some st \<Rightarrow> st | None \<Rightarrow> server_state_init s tok)) new"
  by (simp add: keep_states_def fold_update_graph)

lemma push_servers_heap:
  assumes "sorted h" "\<And>s. s \<in> set ss \<Longrightarrow> \<exists>st. map_of sts s = Some st"
  shows "\<exists>h'. push_servers ss sts tok h = Inr h' \<and> sorted h' \<and> length h' = length h + length ss
    \<and> set h' = set h \<union> (\<lambda>s. (case map_of sts s of None \<Rightarrow> 0 | Some st \<Rightarrow> if tok then num_active_tokens st else num_active_requests st, s)) ` set ss"
  using assms
proof (induction ss arbitrary: h)
  case (Cons s ss)
  from Cons.prems(2)[of s] obtain st where st: "map_of sts s = Some st" by auto
  let ?l = "if tok then num_active_tokens st else num_active_requests st"
  from Cons.IH[of "heappush (?l, s) h"] Cons.prems heapq.push_ok(1)[OF Cons.prems(1)] st
  show ?case by (fastforce simp: get_server_load_def)
qed simp

lemma lb_update_inv:
  fixes old :: "string list"
  assumes inv: "\<forall>(s, st) \<in> set (server_states rt). ss_use_tokens st = use_tokens rt" and new: "distinct new"
  defines "rt' \<equiv> lb_on_servers_updated old new (rt\<lparr>servers := new\<rparr>)"
  shows "lb_inv rt'" "servers rt' = new" "use_tokens rt' = use_tokens rt" "length (load_heap rt') = length new"
    "routing_table rt' = routing_table rt"
proof -
  let ?sts = "keep_states new (use_tokens rt) (server_states rt)"
  note ks = keep_states_graph[OF new, of "use_tokens rt" "server_states rt"]
  from push_servers_heap[of "[]" new ?sts "use_tokens rt"] ks obtain h where
    h: "push_servers new ?sts (use_tokens rt) [] = Inr h" "sorted h" "length h = length new"
    "set h = (\<lambda>s. (case map_of ?sts s of None \<Rightarrow> 0 | Some st \<Rightarrow> if use_tokens rt then num_active_tokens st else num_active_requests st, s)) ` set new"
    by auto
  have rt': "rt' = rt\<lparr>servers := new, server_states := ?sts, load_heap := h\<rparr>"
    using h(1) by (simp add: rt'_def lb_on_servers_updated_def Let_def)
  have vals: "\<forall>(s, st) \<in> set ?sts. ss_use_tokens st = use_tokens rt"
    using inv by (auto simp: ks server_state_init_def split: option.splits dest: map_of_SomeD)
  show "lb_inv rt'" using h ks vals new by (auto simp: rt' lb_inv_def lb_load_def comp_def)
  show "servers rt' = new" "use_tokens rt' = use_tokens rt" "length (load_heap rt') = length new"
    "routing_table rt' = routing_table rt" using h(3) by (simp_all add: rt')
qed

lemma init_heap_ok:
  assumes "distinct ss" "set ss \<inter> fst ` set sts = {}" "sorted h"
  shows "\<exists>h'. init_heap ss tok sts h = Inr (sts @ map (\<lambda>s. (s, server_state_init s tok)) ss, h')
    \<and> sorted h' \<and> length h' = length h + length ss \<and> set h' = set h \<union> (\<lambda>s. (0, s)) ` set ss"
  using assms
proof (induction ss arbitrary: sts h)
  case (Cons s ss)
  then have upd: "AList.update s (server_state_init s tok) sts = sts @ [(s, server_state_init s tok)]"
    by (intro update_new) auto
  have "map_of (sts @ [(s, server_state_init s tok)]) s = Some (server_state_init s tok)"
    using Cons.prems(2) map_of_eq_None_iff[of sts s] by (simp add: map_of_append map_add_def)
  then have l: "get_server_load (sts @ [(s, server_state_init s tok)]) tok s = Inr 0"
    by (simp add: get_server_load_def server_state_init_def)
  have "\<exists>h'. init_heap ss tok (sts @ [(s, server_state_init s tok)]) (heappush (0, s) h) =
      Inr ((sts @ [(s, server_state_init s tok)]) @ map (\<lambda>s. (s, server_state_init s tok)) ss, h')
    \<and> sorted h' \<and> length h' = length (heappush (0, s) h) + length ss \<and> set h' = set (heappush (0, s) h) \<union> (\<lambda>s. (0, s)) ` set ss"
    using Cons.prems heapq.push_ok(1)[OF Cons.prems(3)] by (intro Cons.IH) auto
  then show ?case using l upd by (auto simp: Let_def)
qed simp

lemma lb_init_inv:
  assumes "distinct ss" "lb_init r ss md timeout tok = Inr rt"
  shows "lb_inv rt" "servers rt = ss" "length (load_heap rt) = length ss" "routing_table rt = []"
    "\<And>s st. map_of (server_states rt) s = Some st \<Longrightarrow> num_active_requests st = 0"
proof -
  from init_heap_ok[OF assms(1), of "[]" "[]" tok] assms(2) obtain h where
    h: "sorted h" "length h = length ss" "set h = (\<lambda>s. (0, s)) ` set ss" and
    rt: "rt = \<lparr>servers = ss, has_metadata = md, role = r, health_timeout_set = timeout,
       server_states = map (\<lambda>s. (s, server_state_init s tok)) ss, load_heap = h, routing_table = [], use_tokens = tok\<rparr>"
    by (auto simp: lb_init_def)
  show "lb_inv rt" using h assms(1) by (auto simp: rt lb_inv_def lb_load_def server_state_init_def comp_def)
  show "servers rt = ss" "length (load_heap rt) = length ss" "routing_table rt = []" using h(2) by (simp_all add: rt)
  show "num_active_requests st = 0" if "map_of (server_states rt) s = Some st" for s st
    using that by (auto simp: rt server_state_init_def split: if_splits)
qed


text \<open>
  The states of a router between the requests it serves. A request is supported when the router does not count tokens or
  the request has a token count; what raises is part of a run too. The first index records whether the server list
  has changed, the second counts the finished requests since the heap was last built.
\<close>

inductive lb_run :: "bool \<Rightarrow> nat \<Rightarrow> lb_router \<Rightarrow> bool" where
  start: "distinct ss \<Longrightarrow> lb_init r ss md timeout tok = Inr rt \<Longrightarrow> lb_run False 0 rt"
| route: "lb_run c n rt \<Longrightarrow> lb_supported rt q \<Longrightarrow> map_of (routing_table rt) (obj_id q) = None \<Longrightarrow>
    lb_get_next_server q rt = (Inr s, rt') \<Longrightarrow> lb_run c n rt'"
| route_raises: "lb_run c n rt \<Longrightarrow> lb_supported rt q \<Longrightarrow> lb_get_next_server q rt = (Inl e, rt') \<Longrightarrow> lb_run c n rt'"
| finish_raises: "lb_run c n rt \<Longrightarrow> lb_finish_request q rt = (Inl e, rt') \<Longrightarrow> lb_run c n rt'"
| finish: "lb_run c n rt \<Longrightarrow> lb_finish_request q rt = (Inr (), rt') \<Longrightarrow> lb_run c (Suc n) rt'"
| change: "lb_run c n rt \<Longrightarrow> distinct ss \<Longrightarrow> lb_run True 0 (change_servers lb_on_servers_updated (Some ss) rt)"

inductive_cases lb_run_unchanged: "lb_run False n rt"

lemma lb_route_inv:
  assumes "lb_inv rt" "lb_supported rt q" "lb_get_next_server q rt = (Inr s, rt')"
  obtains st h st0 where "rt' = lb_touch s st h (AList.update (obj_id q) s (routing_table rt)) rt" "lb_inv rt'"
    "length (load_heap rt') = length (load_heap rt)" "s \<in> set (servers rt)"
    "map_of (server_states rt) s = Some st0" "num_active_requests st = num_active_requests st0 + 1"
proof -
  have "servers rt \<noteq> []" using assms(3) by (auto simp: lb_get_next_server_def)
  from lb_get_next_step[OF assms(1) this assms(2)] assms(3) that show ?thesis
    by (metis Pair_inject sum.inject(2) lb_touch_fields(4))
qed

lemma lb_route_raises:
  assumes "lb_inv rt" "lb_supported rt q" "lb_get_next_server q rt = (Inl e, rt')"
  shows "rt' = rt"
proof (cases "servers rt = []")
  case True
  then show ?thesis using assms(3) by (simp add: lb_get_next_server_def)
next
  case False
  then show ?thesis using lb_get_next_step[OF assms(1) False assms(2)] assms(3) by (metis Pair_inject sum.distinct(1))
qed

lemma lb_finish_raises: "lb_finish_request q rt = (Inl e, rt') \<Longrightarrow> rt' = rt"
  by (auto simp: lb_finish_request_def Let_def get_server_load_def dict_get_def update_Some_unfold split: sum.splits option.splits if_splits)

lemma lb_run_inv: "lb_run c n rt \<Longrightarrow> lb_inv rt \<and> length (load_heap rt) = length (servers rt) + n"
proof (induction rule: lb_run.induct)
  case (start ss r md timeout tok rt)
  then show ?case using lb_init_inv[of ss r md timeout tok rt] by simp
next
  case (route c n rt q s rt')
  then have "lb_inv rt" by blast
  from lb_route_inv[OF this route.hyps(2,4)] route.IH show ?case by (metis lb_touch_fields(1))
next
  case (finish c n rt q rt')
  then have "lb_inv rt" by blast
  from lb_finish_step[OF this finish.hyps(2)] finish.IH show ?case by (metis add_Suc_right lb_touch_fields(1,4))
next
  case (route_raises c n rt q e rt')
  then show ?case using lb_route_raises by blast
next
  case (finish_raises c n rt q e rt')
  then show ?case using lb_finish_raises by blast
next
  case (change c n rt ss)
  then have "\<forall>(s, st) \<in> set (server_states rt). ss_use_tokens st = use_tokens rt" by (auto simp: lb_inv_def)
  from lb_update_inv[OF this change.hyps(2)] show ?case by (simp add: change_servers_def)
qed

interpretation lb: routing_policy lb_inv lb_supported servers lb_get_next_server "\<lambda>ss. change_servers lb_on_servers_updated (Some ss)"
proof
  fix rt :: lb_router and r :: oai_request
  show "lb_get_next_server r rt = (Inl ValueError, rt)" if "servers rt = []"
    using that by (simp add: lb_get_next_server_def)
  show "\<exists>s rt'. lb_get_next_server r rt = (Inr s, rt') \<and> s \<in> set (servers rt) \<and> servers rt' = servers rt \<and> lb_inv rt'
      \<and> lb_supported rt' = lb_supported rt" if h: "lb_inv rt" "servers rt \<noteq> []" "lb_supported rt r"
  proof -
    obtain s st hp where "s \<in> set (servers rt)"
      "lb_get_next_server r rt = (Inr s, lb_touch s st hp (AList.update (obj_id r) s (routing_table rt)) rt)"
      "lb_inv (lb_touch s st hp (AList.update (obj_id r) s (routing_table rt)) rt)"
      using lb_get_next_step[OF h] by metis
    then show ?thesis by (auto simp: lb_supported_def)
  qed
  show "lb_inv (change_servers lb_on_servers_updated (Some ss) rt)
      \<and> servers (change_servers lb_on_servers_updated (Some ss) rt) = ss
      \<and> lb_supported (change_servers lb_on_servers_updated (Some ss) rt) = lb_supported rt" if "lb_inv rt" "distinct ss" for ss
  proof -
    have "\<forall>(s, st) \<in> set (server_states rt). ss_use_tokens st = use_tokens rt" using that(1) by (auto simp: lb_inv_def)
    from lb_update_inv[OF this that(2), of "servers rt"] show ?thesis
      by (auto simp: change_servers_def lb_supported_def)
  qed
qed

text \<open>Before any request has finished, the heap holds exactly the current loads.\<close>

lemma lb_heap_exact:
  assumes "lb_inv rt" "length (load_heap rt) = length (servers rt)"
  shows "set (load_heap rt) = (\<lambda>s. (lb_load rt s, s)) ` set (servers rt)"
proof -
  let ?F = "(\<lambda>s. (lb_load rt s, s)) ` set (servers rt)"
  have "?F \<subseteq> set (load_heap rt)" using assms(1) by (auto simp: lb_inv_def)
  moreover have "card ?F = length (servers rt)"
    using assms(1) by (subst card_image) (auto simp: inj_on_def lb_inv_def distinct_card)
  then have "card (set (load_heap rt)) \<le> card ?F" using card_length[of "load_heap rt"] assms(2) by simp
  ultimately show ?thesis using card_seteq[of "set (load_heap rt)" ?F] by simp
qed

lemma lb_least_loaded:
  assumes "lb_inv rt" "length (load_heap rt) = length (servers rt)" "servers rt \<noteq> []" "lb_supported rt q"
  shows "\<exists>s rt'. lb_get_next_server q rt = (Inr s, rt') \<and> s \<in> set (servers rt)
    \<and> (\<forall>k \<in> set (servers rt). lb_load rt s \<le> lb_load rt k) \<and> lb_load rt' s = lb_load rt s + req_weight rt q"
proof -
  obtain l s h st where st: "heappop (load_heap rt) = Inr ((l, s), h)" "s \<in> set (servers rt)"
    "lb_get_next_server q rt = (Inr s, lb_touch s st h (AList.update (obj_id q) s (routing_table rt)) rt)"
    "lb_load (lb_touch s st h (AList.update (obj_id q) s (routing_table rt)) rt) s = lb_load rt s + req_weight rt q"
    "\<And>k. k \<in> set (servers rt) \<Longrightarrow> l \<le> lb_load rt k"
    using lb_get_next_step[OF assms(1,3,4)] by metis
  have "(l, s) \<in> set (load_heap rt)" using st(1) by (auto simp: heappop_def split: list.splits)
  then have "l = lb_load rt s" using lb_heap_exact[OF assms(1,2)] by auto
  with st show ?thesis by (intro exI conjI) auto
qed

definition routed :: "lb_router \<Rightarrow> string \<Rightarrow> int" where
  \<comment> \<open>the abstract load: the requests of the routing table that went to the server\<close>
  "routed rt s = int (length (filter (\<lambda>(_, k). k = s) (routing_table rt)))"

definition lb_accounts :: "lb_router \<Rightarrow> bool" where
  "lb_accounts rt \<longleftrightarrow> distinct (keys_of (routing_table rt)) \<and>
     (\<forall>s st. map_of (server_states rt) s = Some st \<longrightarrow> num_active_requests st = routed rt s)"

lemma length_filter_update_new:
  "map_of d k = None \<Longrightarrow> length (filter P (AList.update k v d)) = length (filter P d) + (if P (k, v) then 1 else 0)"
  by (simp add: update_new map_of_eq_None_iff)

lemma length_filter_delete:
  "distinct (keys_of d) \<Longrightarrow> map_of d k = Some v \<Longrightarrow>
     length (filter P d) = length (filter P (AList.delete k d)) + (if P (k, v) then 1 else 0)"
proof (induction d)
  case (Cons e d)
  show ?case
  proof (cases "fst e = k")
    case True
    with Cons.prems have "AList.delete k d = d" by (simp add: delete_idem)
    with True Cons.prems show ?thesis by (cases e) (auto simp: AList.delete_eq)
  next
    case False
    with Cons show ?thesis by (cases e) (auto simp: AList.delete_eq)
  qed
qed simp

lemma lb_run_accounts: "lb_run c n rt \<Longrightarrow> \<not> c \<Longrightarrow> lb_accounts rt"
proof (induction rule: lb_run.induct)
  case (start ss r md timeout tok rt)
  then show ?case using lb_init_inv(4,5)[of ss r md timeout tok rt] by (auto simp: lb_accounts_def routed_def)
next
  case (route c n rt q s rt')
  have inv: "lb_inv rt" using lb_run_inv[OF route.hyps(1)] by blast
  obtain st h st0 where r: "rt' = lb_touch s st h (AList.update (obj_id q) s (routing_table rt)) rt"
    "map_of (server_states rt) s = Some st0" "num_active_requests st = num_active_requests st0 + 1"
    using lb_route_inv[OF inv route.hyps(2,4)] by metis
  have "routed rt' k = routed rt k + (if k = s then 1 else 0)" for k
    using route.hyps(3) by (auto simp: routed_def r(1) length_filter_update_new)
  then show ?case using route.IH route.prems r by (auto simp: lb_accounts_def distinct_update)
next
  case (finish c n rt q rt')
  have inv: "lb_inv rt" using lb_run_inv[OF finish.hyps(1)] by blast
  obtain s st st0 where r: "map_of (routing_table rt) (obj_id q) = Some s" "map_of (server_states rt) s = Some st0"
    "num_active_requests st = num_active_requests st0 - 1"
    "rt' = lb_touch s st (load_heap rt) (AList.delete (obj_id q) (routing_table rt)) rt"
    using lb_finish_step[OF inv finish.hyps(2)] by metis
  have d: "distinct (keys_of (routing_table rt))" using finish by (simp add: lb_accounts_def)
  have "routed rt' k = routed rt k - (if k = s then 1 else 0)" for k
    using length_filter_delete[OF d r(1), of "\<lambda>(_, j). j = k"] by (auto simp: routed_def r(4))
  then show ?case using finish.IH finish.prems r by (auto simp: lb_accounts_def distinct_delete)
next
  case (route_raises c n rt q e rt')
  then show ?case using lb_route_raises lb_run_inv by blast
next
  case (finish_raises c n rt q e rt')
  then show ?case using lb_finish_raises by blast
qed simp

text \<open>
  A finished request leaves its server's old heap entries in place. Here the router has sent four requests,
  one of which has finished: server \<open>a\<close> has two active requests and \<open>b\<close> has one, and the next request still
  goes to \<open>a\<close>.
\<close>

definition example_req :: "int \<Rightarrow> oai_request" where
  "example_req i = \<lparr>obj_id = i, is_chat = False, request_type = None, req_model = ''m'', prompt = PTokens [1, 2]\<rparr>"

definition example_lb :: lb_router where
  "example_lb = projr (lb_init CONTEXT [''a'', ''b''] False False False)"

definition example_stale :: lb_router where
  "example_stale = (let
     rt1 = snd (lb_get_next_server (example_req 1) example_lb);
     rt2 = snd (lb_get_next_server (example_req 2) rt1);
     rt3 = snd (lb_finish_request (example_req 1) rt2);
     rt4 = snd (lb_get_next_server (example_req 3) rt3)
   in snd (lb_get_next_server (example_req 4) rt4))"

lemma lb_stale_entry_chosen:
  "lb_load example_stale ''a'' = 2" "lb_load example_stale ''b'' = 1"
  "fst (lb_get_next_server (example_req 5) example_stale) = Inr ''a''"
  by code_simp+

text \<open>
  When the router counts tokens, a request without a token count (a chat request) raises after the heap
  entry was popped: the server loses its entry, and with its only server the router runs dry.
\<close>

lemma lb_unsupported_request_loses_server:
  "let rt = projr (lb_init CONTEXT [''a''] False False True);
       (res, rt1) = lb_get_next_server ((example_req 1)\<lparr>is_chat := True\<rparr>) rt in
   res = Inl ValueError \<and> fst (lb_get_next_server (example_req 2) rt1) = Inl IndexError"
  by code_simp

section \<open>KV-cache aware routing\<close>

text \<open>The reference: the prompt without its last token in blocks, each hashed with its parent.\<close>

fun chunks :: "nat \<Rightarrow> 'a list \<Rightarrow> 'a list list" where
  "chunks n xs = (if n = 0 \<or> xs = [] then [] else take n xs # chunks n (drop n xs))"

declare chunks.simps [simp del]

fun hash_chain :: "(int list \<Rightarrow> int \<Rightarrow> int) \<Rightarrow> int \<Rightarrow> int list list \<Rightarrow> int list" where
  "hash_chain hash parent [] = []"
| "hash_chain hash parent (b # bs) = hash b parent # hash_chain hash (hash b parent) bs"

lemma concat_chunks: "0 < n \<Longrightarrow> concat (chunks n xs) = xs"
proof (induction n xs rule: chunks.induct)
  case (1 n xs)
  then show ?case by (subst chunks.simps) auto
qed

lemma length_hash_chain [simp]: "length (hash_chain hash p bs) = length bs"
  by (induction bs arbitrary: p) auto

lemma take_hash_chain: "take k (hash_chain hash p bs) = hash_chain hash p (take k bs)"
  by (induction bs arbitrary: k p) (auto simp: take_Cons')

lemma block_starts:
  assumes "0 < tpb"
  shows "i < nat ((int (length ts) - 1 + tpb - 1) div tpb) \<longleftrightarrow> i * nat tpb < length ts - 1"
proof -
  let ?X = "int (length ts) - 1 + tpb - 1"
  have "i < nat (?X div tpb) \<longleftrightarrow> int i + 1 \<le> ?X div tpb" by linarith
  also have "\<dots> \<longleftrightarrow> (int i + 1) * tpb \<le> ?X"
    using int_div_less[OF assms, of ?X "int i + 1"] zdiv_mono1[of "(int i + 1) * tpb" ?X tpb] assms by fastforce
  also have "\<dots> \<longleftrightarrow> int i * tpb < int (length ts) - 1" unfolding distrib_right by linarith
  also have "int i * tpb = int (i * nat tpb)" using assms by simp
  finally show ?thesis by linarith
qed

lemma block_slice:
  assumes "0 < tpb" "i * nat tpb < length ts - 1"
  shows "take (nat (min (int i * tpb + tpb) (int (length ts) - 1) - int i * tpb)) (drop (nat (int i * tpb)) ts) =
    take (nat tpb) (drop (i * nat tpb) (butlast ts))"
proof -
  have e: "int i * tpb = int (i * nat tpb)" using assms(1) by simp
  have "nat (min (int i * tpb + tpb) (int (length ts) - 1) - int i * tpb) = min (nat tpb) (length ts - 1 - i * nat tpb)"
    unfolding e using assms by linarith
  moreover have "nat (int i * tpb) = i * nat tpb" using assms(1) by (simp add: nat_mult_distrib)
  ultimately show ?thesis by (simp only: butlast_conv_take drop_take take_take min.commute)
qed

lemma hash_blocks_chain:
  assumes tpb: "0 < tpb" and "i = 0 \<longleftrightarrow> acc = []" "i \<le> m" "m = nat ((int (length ts) - 1 + tpb - 1) div tpb)"
  shows "hash_blocks hash ts (map (\<lambda>k. int k * tpb) [i..<m]) tpb acc =
    acc @ hash_chain hash (if i = 0 then 0 else last acc) (chunks (nat tpb) (drop (i * nat tpb) (butlast ts)))"
  using assms(2,3)
proof (induction "m - i" arbitrary: i acc)
  case 0
  then have "\<not> i < m" by simp
  then have "length ts - 1 \<le> i * nat tpb" using block_starts[OF tpb, of i ts] assms(4) by simp
  then show ?case using 0 by (simp add: chunks.simps)
next
  case (Suc d)
  then have im: "i < m" "d = m - Suc i" "Suc i \<le> m" by simp_all
  then have lt: "i * nat tpb < length ts - 1" using block_starts[OF tpb, of i ts] assms(4) by simp
  let ?rest = "drop (i * nat tpb) (butlast ts)" and ?p = "if i = 0 then 0 else last acc"
  let ?h = "hash (take (nat tpb) ?rest) ?p"
  have z: "(int i * tpb = 0) = (i = 0)" using tpb by simp
  have ch: "chunks (nat tpb) ?rest = take (nat tpb) ?rest # chunks (nat tpb) (drop (Suc i * nat tpb) (butlast ts))"
    using lt tpb by (subst chunks.simps) (simp add: add.commute)
  have "hash_blocks hash ts (map (\<lambda>k. int k * tpb) [i..<m]) tpb acc =
      hash_blocks hash ts (map (\<lambda>k. int k * tpb) [Suc i..<m]) tpb (acc @ [?h])"
    using im(1) by (simp only: upt_conv_Cons list.map hash_blocks.simps Let_def block_slice[OF tpb lt] z)
  also have "\<dots> = (acc @ [?h]) @ hash_chain hash ?h (chunks (nat tpb) (drop (Suc i * nat tpb) (butlast ts)))"
    using Suc.hyps(1)[OF im(2), of "acc @ [?h]"] im(3) by simp
  finally show ?case unfolding ch by simp
qed

lemma block_hash_list_chain:
  "0 < tpb \<Longrightarrow> block_hash_list hash tpb ts = hash_chain hash 0 (chunks (nat tpb) (butlast ts))"
  using hash_blocks_chain[of tpb 0 "[]" _ ts hash] by (simp add: block_hash_list_def py_range_step_def)

lemma match_list_bounds: "0 \<le> tpb \<Longrightarrow> 0 \<le> match_list table tpb hs \<and> match_list table tpb hs \<le> int (length hs) * tpb"
  by (induction hs) (auto simp: algebra_simps)

lemma best_index_max:
  "xs \<noteq> [] \<Longrightarrow> best_index xs < length xs \<and> (\<forall>y \<in> set xs. y \<le> xs ! best_index xs) \<and> (\<forall>j < best_index xs. xs ! j < xs ! best_index xs)"
proof (induction xs rule: best_index.induct)
  case (3 x y zs)
  show ?case
  proof (cases "\<forall>z \<in> set (y # zs). z \<le> x")
    case False
    note ih = 3(1)[OF False list.distinct(2)]
    obtain z where "z \<in> set (y # zs)" "x < z" using False by (auto simp: not_le)
    with ih have "x < (y # zs) ! best_index (y # zs)" by (meson order_less_le_trans)
    moreover have "best_index (x # y # zs) = Suc (best_index (y # zs))" using False by simp
    ultimately show ?thesis using ih by (auto simp: less_Suc_eq_0_disj)
  qed auto
qed auto

lemma keys_fold_delete: "fst ` set (fold AList.delete ks d) = fst ` set d - set ks"
  by (induction ks arbitrary: d) (auto simp: keys_delete)

lemma keys_fold_update: "fst ` set (fold (\<lambda>s. AList.update s (f s)) ks d) = fst ` set d \<union> set ks"
  by (induction ks arbitrary: d) (auto simp: dom_update)

lemma kv_update_keys:
  "fst ` set (kv_states (kv_on_servers_updated old new rt)) = (fst ` set (kv_states rt) \<union> set new) - set old"
  by (simp add: kv_on_servers_updated_def keys_fold_delete keys_fold_update)

section \<open>Server discovery\<close>

definition offers :: "(string \<Rightarrow> bool) \<Rightarrow> (string \<Rightarrow> bool) \<Rightarrow> 'a router_scheme \<Rightarrow> string \<Rightarrow> (string, string) dict \<Rightarrow> string \<Rightarrow> bool" where
  \<comment> \<open>the metadata entry describes a live server of the router's role at this address\<close>
  "offers first second rt k v u \<longleftrightarrow> take 7 k = ''trtllm/'' \<and> map_of v ''url'' = Some u \<and>
     server_alive first second rt u \<and> is_matching_role (role rt) (get_server_type v)"

abbreviation listed :: "metadata \<Rightarrow> (string, string) dict" where
  "listed md \<equiv> List.map_filter (\<lambda>(k, v). if take 7 k = ''trtllm/'' then map_option (\<lambda>u. (k, u)) (map_of v ''url'') else None) md"

lemma set_listed: "(k, u) \<in> set (listed md) \<longleftrightarrow> (\<exists>v. (k, v) \<in> set md \<and> take 7 k = ''trtllm/'' \<and> map_of v ''url'' = Some u)"
  by (induction md) (auto simp: map_filter_simps split: option.splits if_splits)

lemma distinct_listed: "distinct (keys_of md) \<Longrightarrow> distinct (keys_of (listed md))"
proof (induction md)
  case (Cons e md)
  obtain k v where e: "e = (k, v)" by (cases e)
  have "k \<notin> set (keys_of (listed md))" using Cons.prems set_listed[of k _ md] by (force simp: e)
  with Cons e show ?case by (auto simp: map_filter_simps split: option.splits)
qed (simp add: map_filter_simps)

lemma map_of_fold_delete_dead:
  "distinct (keys_of m) \<Longrightarrow> map_of (fold (\<lambda>(k, u) md. if alive u then md else AList.delete k md) m md) k =
    (case map_of m k of Some u \<Rightarrow> if alive u then map_of md k else None | None \<Rightarrow> map_of md k)"
proof (induction m arbitrary: md)
  case (Cons e m)
  obtain k' u where e: "e = (k', u)" by (cases e)
  have "map_of m k' = None" using Cons.prems by (simp add: e map_of_eq_None_iff)
  with Cons e show ?case by (auto split: option.splits)
qed simp

lemma url_to_key_lookup:
  fixes m :: "(string, string) dict"
  assumes "distinct (map snd m)" "(k, u) \<in> set m"
  shows "map_of (fold (\<lambda>(k, u) d. AList.update u k d) m d) u = Some k"
proof -
  have other: "u \<notin> snd ` set m \<Longrightarrow> map_of (fold (\<lambda>(k, u) d. AList.update u k d) m d) u = map_of d u" for m :: "(string, string) dict" and d u
    by (induction m arbitrary: d) auto
  show ?thesis using assms
  proof (induction m arbitrary: d)
    case (Cons e m)
    show ?case
    proof (cases "e = (k, u)")
      case True
      with Cons.prems other[of u m "AList.update u k d"] show ?thesis by auto
    next
      case False
      with Cons show ?thesis by (auto split: prod.splits)
    qed
  qed simp
qed

lemma monitor_final_servers:
  assumes md: "distinct (keys_of md)" "distinct (map snd (listed md))"
    and m: "check_servers_health first second (listed md) md rt = (live, md')"
    and f: "filter_servers_by_role live (listed md) md' rt = Inr final"
  shows "u \<in> set final \<longleftrightarrow> (\<exists>k v. map_of md k = Some v \<and> offers first second rt k v u)"
proof -
  let ?m = "listed md"
  have live: "live = map snd (filter (\<lambda>(k, u). server_alive first second rt u) ?m)"
    and md': "md' = fold (\<lambda>(k, u) md. if server_alive first second rt u then md else AList.delete k md) ?m md"
    using m by (simp_all add: check_servers_health_def)
  have look: "map_of (fold (\<lambda>(k, u) d. AList.update u k d) ?m []) u = Some k \<and> map_of md' k = map_of md k \<and> k \<noteq> ''''"
    if "(k, u) \<in> set ?m" "server_alive first second rt u" for k u
  proof -
    have "map_of ?m k = Some u" using that(1) distinct_listed[OF md(1)] by simp
    moreover have "k \<noteq> ''''" using that(1) unfolding set_listed by auto
    ultimately show ?thesis using url_to_key_lookup[OF md(2) that(1), of "[]"] that(2)
      by (simp add: md' map_of_fold_delete_dead[OF distinct_listed[OF md(1)]])
  qed
  have fin: "final = filter (\<lambda>u. case map_of (fold (\<lambda>(k, u) d. AList.update u k d) ?m []) u of
                       None \<Rightarrow> False
                     | Some k \<Rightarrow> k \<noteq> '''' \<and> (case map_of md' k of None \<Rightarrow> False
                         | Some v \<Rightarrow> v \<noteq> [] \<and> is_matching_role (role rt) (get_server_type v))) live"
    using f by (simp add: filter_servers_by_role_def Let_def split: if_splits)
  show ?thesis
  proof
    assume "u \<in> set final"
    then have u: "u \<in> set live" unfolding fin by simp
    then obtain k where k: "(k, u) \<in> set ?m" "server_alive first second rt u" by (auto simp: live)
    then obtain v where v: "(k, v) \<in> set md" "take 7 k = ''trtllm/''" "map_of v ''url'' = Some u" unfolding set_listed by blast
    then have "map_of md k = Some v" using md(1) by simp
    with \<open>u \<in> set final\<close> look[OF k] v k(2) show "\<exists>k v. map_of md k = Some v \<and> offers first second rt k v u"
      unfolding fin offers_def by auto
  next
    assume "\<exists>k v. map_of md k = Some v \<and> offers first second rt k v u"
    then obtain k v where v: "map_of md k = Some v" "offers first second rt k v u" by blast
    then have k: "(k, u) \<in> set ?m" "server_alive first second rt u"
      unfolding set_listed by (auto simp: offers_def dest: map_of_SomeD)
    moreover have "u \<in> set live" using k by (force simp: live)
    moreover have "v \<noteq> []" using v(2) by (auto simp: offers_def)
    ultimately show "u \<in> set final" using look[OF k] v by (simp add: fin offers_def)
  qed
qed

section \<open>Properties\<close>

text \<open>
  Whatever requests arrive and however the server list changes, the round-robin router and the
  load-balancing router answer each supported request with a server of the list at that time, and fail
  only while the list is empty.
\<close>

theorem routed_to_current_server:
  assumes "0 \<le> server_idx rr" "lb_inv lb"
    and "list_all (\<lambda>c. case c of Route r \<Rightarrow> lb_supported lb r | SetServers ss \<Rightarrow> distinct ss) cs"
  shows "list_all answer_ok (fst (policy_run (\<lambda>r. rr_get_next_server) (\<lambda>ss. change_servers rr_on_servers_updated (Some ss)) servers cs rr))
    \<and> list_all answer_ok (fst (policy_run lb_get_next_server (\<lambda>ss. change_servers lb_on_servers_updated (Some ss)) servers cs lb))"
  using assms rr.run_answers[of rr cs] lb.run_answers[of lb cs]
  by (fastforce simp: list_all_iff rr_inv_def)

text \<open>
  Round robin is fair. While the list does not change, as many consecutive requests as there are
  servers reach every position of the list exactly once.
\<close>

theorem rr_round_is_fair:
  assumes "servers rt \<noteq> []" "0 \<le> server_idx rt" "server_idx rt < int (length (servers rt))"
  shows "mset (rr_take (length (servers rt)) rt) = mset (map Inr (servers rt))"
proof -
  let ?n = "length (servers rt)" and ?i = "nat (server_idx rt)"
  have i: "?i < ?n" "server_idx rt = int ?i" using assms by auto
  have idx: "nat ((server_idx rt + int j) mod int ?n) = (?i + j) mod ?n" for j
    by (subst i(2)) (simp only: of_nat_add[symmetric] zmod_int[symmetric] nat_int)
  have "rr_take ?n rt = map (\<lambda>j. Inr (servers rt ! ((?i + j) mod ?n))) [0..<?n]"
    using idx by (simp add: rr_take_walk[OF assms])
  also have "\<dots> = map Inr (rotate ?i (servers rt))"
    using i(1) by (intro nth_equalityI) (simp_all add: nth_rotate)
  finally have "mset (rr_take ?n rt) = image_mset Inr (mset (rotate ?i (servers rt)))" by simp
  moreover have "mset (rotate ?i (servers rt)) = mset (servers rt)"
    by (metis rotate_drop_take append_take_drop_id mset_append union_commute)
  ultimately show ?thesis by simp
qed

text \<open>
  C24: the heap of the load-balancing router. In every state that a router reaches by routing requests (with a token
  count when the router counts tokens, so no chat requests then), by finishing requests and by changing the list of
  distinct servers, whether or not these calls raise: each server has an entry
  with its current load and the heap names no other server; the heap has one entry more for every request
  that finished since the server list last changed. Before the first such request the router sends a
  request to a server of least load.
\<close>

theorem lb_heap_invariant:
  assumes "lb_run c n rt"
  shows "lb_inv rt \<and> length (load_heap rt) = length (servers rt) + n
    \<and> (n = 0 \<and> servers rt \<noteq> [] \<and> lb_supported rt q \<longrightarrow>
        (\<exists>s rt'. lb_get_next_server q rt = (Inr s, rt') \<and> s \<in> set (servers rt)
          \<and> (\<forall>k \<in> set (servers rt). lb_load rt s \<le> lb_load rt k) \<and> lb_load rt' s = lb_load rt s + req_weight rt q))"
  using lb_run_inv[OF assms] lb_least_loaded[of rt q] by auto

text \<open>
  C25: the load counters implement the routing table. As long as the server list does not change, the
  number of active requests of every server is the number of requests of the routing table that it was
  given.
\<close>

theorem lb_counts_refine_routing:
  assumes "lb_run False n rt" "map_of (server_states rt) s = Some st"
  shows "num_active_requests st = routed rt s \<and> s \<in> set (servers rt) \<and> distinct (keys_of (routing_table rt))"
proof -
  have "lb_accounts rt" "lb_inv rt" using lb_run_accounts[OF assms(1)] lb_run_inv[OF assms(1)] by auto
  moreover have "s \<in> set (keys_of (server_states rt))" using map_of_SomeD[OF assms(2)] by force
  ultimately show ?thesis using assms(2) by (auto simp: lb_accounts_def lb_inv_def)
qed

text \<open>
  C26: the KV-cache aware router hashes each prompt as a chain over its blocks without the last token,
  counts no more matched tokens for a server than the prompt has in whole blocks of that server's size, and
  picks the first server of highest score, whose counter and routing entry it updates.
\<close>

theorem kv_routing_choice:
  assumes "kv_get_next_server fdiv fsub tok hash r rt = (Inr (s, hashes, token_lists, matches), rt')" "0 < kv_tokens_per_block rt"
  defines "sts \<equiv> map snd (kv_states rt)"
  defines "scores \<equiv> kv_scores fdiv fsub (int (sum_list (map length hashes)) * kv_tokens_per_block rt) (kv_max_batch_size rt) hashes sts"
  shows "hashes = map (\<lambda>ts. hash_chain hash 0 (chunks (nat (kv_tokens_per_block rt)) (butlast ts))) token_lists
    \<and> list_all2 (\<lambda>st m. 0 \<le> ss_tokens_per_block st \<longrightarrow> 0 \<le> m \<and> m \<le> int (sum_list (map length hashes)) * ss_tokens_per_block st) sts matches
    \<and> (\<exists>i < length sts. s = fst (kv_states rt ! i) \<and> (\<forall>y \<in> set scores. y \<le> scores ! i) \<and> (\<forall>j < i. scores ! j < scores ! i)
         \<and> increment_load r (sts ! i) = Inr (the (map_of (kv_states rt') s)))
    \<and> map_of (kv_routing_table rt') (obj_id r) = Some s"
proof -
  define i where "i = best_index scores"
  from assms(1,2) obtain st where st: "increment_load r (sts ! i) = Inr st"
    and h: "hashes = map (block_hash_list hash (kv_tokens_per_block rt)) token_lists"
    and m: "matches = map (matched_tokens hashes) sts" and ne: "sts \<noteq> []" and s: "s = fst (kv_states rt ! i)"
    and rt': "rt' = rt\<lparr>kv_states := AList.update s st (kv_states rt), kv_routing_table := AList.update (obj_id r) s (kv_routing_table rt)\<rparr>"
    by (auto simp: kv_get_next_server_def Let_def i_def scores_def sts_def split: sum.splits if_splits)
  have len: "length scores = length sts" by (simp add: scores_def kv_scores_def)
  have "i < length sts" "\<forall>y \<in> set scores. y \<le> scores ! i" "\<forall>j < i. scores ! j < scores ! i"
    using best_index_max[of scores] ne len unfolding i_def by fastforce+
  moreover have "0 \<le> matched_tokens hashes st \<and> matched_tokens hashes st \<le> int (sum_list (map length hashes)) * ss_tokens_per_block st"
    if "0 \<le> ss_tokens_per_block st" for st
    using match_list_bounds[OF that] unfolding matched_tokens_def
    by (induction hashes) (auto simp: algebra_simps intro: add_mono)
  moreover have "hashes = map (\<lambda>ts. hash_chain hash 0 (chunks (nat (kv_tokens_per_block rt)) (butlast ts))) token_lists"
    using h block_hash_list_chain[OF assms(2)] by simp
  ultimately show ?thesis using st s m by (auto simp: rt' list_all2_conv_all_nth)
qed

text \<open>
  A change of the server list breaks the KV-cache aware router. Afterwards it only knows servers that
  were not in the old list: adding a server drops all the others, and removing one drops all of them, so
  that every later request fails.
\<close>

theorem kv_update_drops_servers:
  assumes "fst ` set (kv_states rt) = set (servers rt)"
  shows "(s \<notin> set (servers rt) \<longrightarrow> fst ` set (kv_states (add_server kv_on_servers_updated s rt)) = {s})
    \<and> (s \<in> set (servers rt) \<longrightarrow> kv_states (remove_server kv_on_servers_updated s rt) = []
        \<and> (kv_tokens_per_block rt \<noteq> 0 \<and> tokenize tok r = Inr ts \<longrightarrow>
             fst (kv_get_next_server fdiv fsub tok hash r (remove_server kv_on_servers_updated s rt)) = Inl ValueError))"
proof (intro conjI impI)
  show "fst ` set (kv_states (add_server kv_on_servers_updated s rt)) = {s}" if "s \<notin> set (servers rt)"
    using that assms by (auto simp: add_server_def added_servers_def change_servers_def kv_update_keys)
next
  assume s: "s \<in> set (servers rt)"
  then have "fst ` set (kv_states (remove_server kv_on_servers_updated s rt)) = {}"
    using assms by (auto simp: remove_server_def removed_servers_def change_servers_def kv_update_keys)
  then show e: "kv_states (remove_server kv_on_servers_updated s rt) = []" by simp
  have "kv_tokens_per_block (remove_server kv_on_servers_updated s rt) = kv_tokens_per_block rt"
    using s by (simp add: remove_server_def removed_servers_def change_servers_def kv_on_servers_updated_def)
  then show "fst (kv_get_next_server fdiv fsub tok hash r (remove_server kv_on_servers_updated s rt)) = Inl ValueError"
    if "kv_tokens_per_block rt \<noteq> 0 \<and> tokenize tok r = Inr ts"
    using that e by (simp add: kv_get_next_server_def Let_def)
qed

text \<open>
  One round of server monitoring. When it succeeds, the new server list is exactly the set of addresses
  of the metadata entries of the router's role whose health check answered, provided that keys and
  addresses are unique; the list is never empty.
\<close>

theorem monitor_finds_live_servers:
  assumes "monitor_servers on_updated first second md rt = Inr (rt', md')"
    and "distinct (keys_of md)" "distinct (map snd (listed md))"
    and "\<And>old new rt. servers (on_updated old new rt) = servers rt"
  shows "servers rt' \<noteq> [] \<and> (u \<in> set (servers rt') \<longleftrightarrow> (\<exists>k v. map_of md k = Some v \<and> offers first second rt k v u))"
proof -
  from assms(1) have m: "fetch_live_servers md rt = Inr (listed md)"
    by (auto simp: monitor_servers_def fetch_live_servers_def Let_def split: if_splits)
  obtain live md2 where c2: "check_servers_health first second (listed md) md rt = (live, md2)"
    by (cases "check_servers_health first second (listed md) md rt")
  from assms(1) m c2 obtain final where c: "check_servers_health first second (listed md) md rt = (live, md')"
    and f: "filter_servers_by_role live (listed md) md' rt = Inr final" and ne: "final \<noteq> []"
    and rt': "rt' = change_servers on_updated (if final \<noteq> servers rt then Some final else None) rt"
    by (auto simp: monitor_servers_def)
  have "servers rt' = final" using assms(4) by (simp add: rt' change_servers_def)
  then show ?thesis using monitor_final_servers[OF assms(2,3) c f] ne by simp
qed

section \<open>Witnesses\<close>

definition example_rr :: rr_router where
  "example_rr = (rr_init CONTEXT [''a'', ''b'', ''c''] False False)\<lparr>server_idx := 2\<rparr>"

lemma example_lb_init: "lb_init CONTEXT [''a'', ''b''] False False False = Inr example_lb"
  by code_simp

lemma example_lb_run: "lb_run False 0 example_lb"
  by (rule lb_run.start[OF _ example_lb_init]) simp

theorem routed_to_current_server_witness:
  "list_all answer_ok (fst (policy_run lb_get_next_server (\<lambda>ss. change_servers lb_on_servers_updated (Some ss)) servers
     [Route (example_req 1), SetServers [''b'', ''c''], Route (example_req 2)] example_lb))"
proof -
  have "lb_inv example_lb" using lb_run_inv[OF example_lb_run] by blast
  moreover have "0 \<le> server_idx example_rr" by code_simp
  moreover have tok: "\<not> use_tokens example_lb" by code_simp
  moreover have "list_all (\<lambda>c. case c of Route r \<Rightarrow> lb_supported example_lb r | SetServers ss \<Rightarrow> distinct ss)
      [Route (example_req 1), SetServers [''b'', ''c''], Route (example_req 2)]"
    using tok by (simp add: lb_supported_def)
  ultimately show ?thesis using routed_to_current_server by blast
qed

theorem rr_round_is_fair_witness:
  "mset (rr_take 3 example_rr) = {#Inr ''a'', Inr ''b'', Inr ''c''#}"
proof -
  have "servers example_rr \<noteq> []" "0 \<le> server_idx example_rr" "server_idx example_rr < int (length (servers example_rr))"
    by code_simp+
  note fair = rr_round_is_fair[OF this]
  have l: "length (servers example_rr) = 3" and s: "servers example_rr = [''a'', ''b'', ''c'']" by code_simp+
  show ?thesis using fair[unfolded l] unfolding s by (simp only: list.map mset.simps)
qed

definition example_lb_used :: lb_router where
  \<comment> \<open>two requests have been routed and one of them has finished\<close>
  "example_lb_used = snd (lb_finish_request (example_req 1) (snd (lb_get_next_server (example_req 2) (snd (lb_get_next_server (example_req 1) example_lb)))))"

lemma example_lb_used_run: "lb_run False 1 example_lb_used"
proof -
  let ?r1 = "snd (lb_get_next_server (example_req 1) example_lb)"
  let ?r2 = "snd (lb_get_next_server (example_req 2) ?r1)"
  have u: "\<not> use_tokens example_lb" "\<not> use_tokens ?r1" by code_simp+
  have "fst (lb_get_next_server (example_req 1) example_lb) = Inr ''a''" by code_simp
  then have r1: "lb_get_next_server (example_req 1) example_lb = (Inr ''a'', ?r1)" by (metis prod.collapse)
  have "fst (lb_get_next_server (example_req 2) ?r1) = Inr ''b''" by code_simp
  then have r2: "lb_get_next_server (example_req 2) ?r1 = (Inr ''b'', ?r2)" by (metis prod.collapse)
  have "fst (lb_finish_request (example_req 1) ?r2) = Inr ()" by code_simp
  then have f: "lb_finish_request (example_req 1) ?r2 = (Inr (), example_lb_used)" by (simp add: example_lb_used_def prod_eq_iff)
  have n: "map_of (routing_table example_lb) (obj_id (example_req 1)) = None" "map_of (routing_table ?r1) (obj_id (example_req 2)) = None" by code_simp+
  have "lb_run False 0 ?r1" by (rule lb_run.route[OF example_lb_run _ n(1) r1]) (simp add: lb_supported_def u)
  then have "lb_run False 0 ?r2" by (rule lb_run.route[OF _ _ n(2) r2]) (simp add: lb_supported_def u)
  then show ?thesis using lb_run.finish[OF _ f] by simp
qed

theorem lb_heap_invariant_witness:
  "lb_inv example_lb_used \<and> length (load_heap example_lb_used) = 3 \<and> lb_run False 1 example_lb_used"
proof -
  have s: "length (servers example_lb_used) = 2" by code_simp
  show ?thesis using lb_heap_invariant[OF example_lb_used_run] example_lb_used_run unfolding s by simp
qed

theorem lb_counts_refine_routing_witness:
  "\<exists>st. map_of (server_states example_lb_used) ''b'' = Some st \<and> num_active_requests st = 1 \<and> routed example_lb_used ''b'' = 1"
proof -
  have "map_option num_active_requests (map_of (server_states example_lb_used) ''b'') = Some 1" by code_simp
  then obtain st where st: "map_of (server_states example_lb_used) ''b'' = Some st" "num_active_requests st = 1" by auto
  then show ?thesis using lb_counts_refine_routing[OF example_lb_used_run st(1)] by simp
qed

definition example_kv :: kv_router where
  "example_kv = kv_init CONTEXT [''a'', ''b''] False False False 64 2"

definition example_hash :: "int list \<Rightarrow> int \<Rightarrow> int" where
  "example_hash ts p = 31 * p + sum_list ts"

theorem kv_routing_choice_witness:
  "\<exists>rt'. kv_get_next_server (\<lambda>a b. a div b) (-) (\<lambda>m s. []) example_hash ((example_req 7)\<lparr>prompt := PTokens [1, 2, 3, 4]\<rparr>) example_kv =
      (Inr (''a'', [[3, 96]], [[1, 2, 3, 4]], [0, 0]), rt') \<and> map_of (kv_routing_table rt') 7 = Some ''a''"
proof -
  let ?r = "(example_req 7)\<lparr>prompt := PTokens [1, 2, 3, 4]\<rparr>"
  have "fst (kv_get_next_server (\<lambda>a b. a div b) (-) (\<lambda>m s. []) example_hash ?r example_kv) =
      Inr (''a'', [[3, 96]], [[1, 2, 3, 4]], [0, 0])" by code_simp
  then obtain rt' where rt': "kv_get_next_server (\<lambda>a b. a div b) (-) (\<lambda>m s. []) example_hash ?r example_kv =
      (Inr (''a'', [[3, 96]], [[1, 2, 3, 4]], [0, 0]), rt')" by (metis prod.collapse)
  have "0 < kv_tokens_per_block example_kv" by code_simp
  from kv_routing_choice[OF rt' this] show ?thesis using rt' by (auto simp: example_req_def)
qed

theorem kv_update_drops_servers_witness:
  "fst ` set (kv_states (add_server kv_on_servers_updated ''c'' example_kv)) = {''c''}"
proof -
  have h: "fst ` set (kv_states example_kv) = set (servers example_kv)" "''c'' \<notin> set (servers example_kv)"
    by (simp_all add: example_kv_def kv_init_def)
  show ?thesis by (rule mp[OF conjunct1[OF kv_update_drops_servers[OF h(1)]] h(2)])
qed

definition example_metadata :: metadata where
  "example_metadata = [(''trtllm/1'', [(''url'', ''u1''), (''server_type'', ''Context'')]),
     (''trtllm/2'', [(''url'', ''u2''), (''server_type'', ''generation'')]),
     (''trtllm/3'', [(''url'', ''u3''), (''server_role'', ''context'')])]"

definition example_monitored :: rr_router where
  "example_monitored = rr_init CONTEXT [] True True"

theorem monitor_finds_live_servers_witness:
  "\<exists>rt' md'. monitor_servers rr_on_servers_updated (\<lambda>u. u \<noteq> ''u3'') (\<lambda>_. False) example_metadata example_monitored = Inr (rt', md')
     \<and> servers rt' \<noteq> []"
proof -
  let ?mon = "monitor_servers rr_on_servers_updated (\<lambda>u. u \<noteq> ''u3'') (\<lambda>_. False) example_metadata example_monitored"
  have "\<not> isl ?mon" by code_simp
  then obtain rt' md' where m: "?mon = Inr (rt', md')"
    by (metis sum.collapse(2) prod.collapse)
  have "distinct (keys_of example_metadata)" "distinct (map snd (listed example_metadata))" by code_simp+
  moreover have "servers (rr_on_servers_updated old new rt) = servers rt" for old new rt
    by (simp add: rr_on_servers_updated_def)
  ultimately show ?thesis using m monitor_finds_live_servers[OF m] by blast
qed

end
