(* ===== verification/Attention_Windows.thy ===== *)
theory Attention_Windows
  imports Parallel_Mapping
begin

text \<open>
  How the KV cache manager of the PyTorch executor sizes its pools, \<open>_torch/pyexecutor/resource_manager.py\<close>:
  the layers of a pipeline rank, bytes per token, the grouping of layers by attention window, the fit of
  variable sliding windows into the memory of the pool, and the check of the windows against the number of
  blocks.

  \<open>math.floor(a / b)\<close> is integer division here; the two agree while the quotient is below \<open>2 ^ 52\<close>. The sets of
  layers are lists without duplicates. Logging is left out.
\<close>

section \<open>Layers of a rank\<close>

record spec_config =
  is_mtp_one_model :: bool
  is_eagle3_one_model :: bool
  num_nextn_predict_layers :: int
  num_eagle_layers :: "int option"

definition get_num_spec_layers :: "spec_config \<Rightarrow> int" where
  "get_num_spec_layers c =
     (if is_mtp_one_model c then num_nextn_predict_layers c
      else if is_eagle3_one_model c then (case num_eagle_layers c of None \<Rightarrow> 1 | Some n \<Rightarrow> n)
      else 0)"

definition get_pp_layers :: "int tensor_split_fn \<Rightarrow> split_fn \<Rightarrow> int \<Rightarrow> pmapping \<Rightarrow> spec_config option \<Rightarrow> bool list option
    \<Rightarrow> (int list \<times> int) result" where
  "get_pp_layers tensor_split split num_layers m spec layer_mask =
     res_bind (case layer_mask of
                 None \<Rightarrow> Inr num_layers
               | Some msk \<Rightarrow> res_bind (py_assert (int (length (filter id msk)) = num_layers)) (\<lambda>_. Inr (int (length msk)))) (\<lambda>total.
     res_bind (pp_layers tensor_split split m total) (\<lambda>ls0.
     res_bind (case layer_mask of
                 None \<Rightarrow> Inr ls0
               | Some msk \<Rightarrow> res_bind (res_map (py_index msk) ls0) (\<lambda>bs. Inr (map fst (filter snd (zip ls0 bs))))) (\<lambda>ls1.
     let n = (case spec of None \<Rightarrow> 0 | Some c \<Rightarrow> get_num_spec_layers c);
         total' = total + n;
         ls2 = (if spec \<noteq> None \<and> is_last_pp_rank m then ls1 @ py_range (total' - n) total' else ls1) in
     Inr (if ls2 = [] then [0] else ls2, total'))))"

section \<open>Bytes per token\<close>

datatype data_type = INT64 | FLOAT | INT32 | BF16 | HALF | BOOL | FP8 | INT8 | UINT8 | NVFP4

definition binding_dtype_bits :: "data_type \<Rightarrow> int" where
  "binding_dtype_bits d = (case d of INT64 \<Rightarrow> 64 | FLOAT \<Rightarrow> 32 | INT32 \<Rightarrow> 32 | BF16 \<Rightarrow> 16 | HALF \<Rightarrow> 16
     | BOOL \<Rightarrow> 8 | FP8 \<Rightarrow> 8 | INT8 \<Rightarrow> 8 | UINT8 \<Rightarrow> 8 | NVFP4 \<Rightarrow> 4)"

definition get_size_in_bytes :: "int \<Rightarrow> data_type \<Rightarrow> int result" where
  "get_size_in_bytes n d =
     (let bits = binding_dtype_bits d * n in
      res_bind (py_assert (bits mod 8 = 0)) (\<lambda>_. Inr (bits div 8)))"

definition calculate_scaling_factor_size_bytes :: "int \<Rightarrow> int \<Rightarrow> data_type \<Rightarrow> int result" where
  "calculate_scaling_factor_size_bytes cache_size quant_vector_size d =
     res_bind (py_mod cache_size quant_vector_size) (\<lambda>m.
     res_bind (py_assert (m = 0)) (\<lambda>_. get_size_in_bytes (cache_size div quant_vector_size) d))"

definition cache_bytes :: "int \<Rightarrow> data_type \<Rightarrow> int result" where
  \<comment> \<open>\<open>get_size_in_bytes\<close> and, for NVFP4, the scaling factors\<close>
  "cache_bytes cache_size d =
     res_bind (get_size_in_bytes cache_size d) (\<lambda>b.
     if d = NVFP4 then res_bind (calculate_scaling_factor_size_bytes cache_size 16 FP8) (\<lambda>s. Inr (b + s)) else Inr b)"

definition get_cache_bytes_per_token :: "int \<Rightarrow> int list \<Rightarrow> int \<Rightarrow> data_type \<Rightarrow> int result" where
  "get_cache_bytes_per_token kv_factor num_kv_heads_per_layer head_dim d =
     (let size = kv_factor * sum_list num_kv_heads_per_layer * head_dim in
      if d \<notin> {FP8, HALF, BF16, FLOAT, NVFP4} then Inl ValueError else cache_bytes size d)"

section \<open>Windows and layers\<close>

type_synonym window_map = "(int, int list) dict"

definition append_layer :: "int \<Rightarrow> int list \<Rightarrow> window_map \<Rightarrow> window_map" where
  \<comment> \<open>\<open>d[w].extend(layers)\<close>, creating the entry when it is missing\<close>
  "append_layer w ls d = AList.update w ((case map_of d w of None \<Rightarrow> [] | Some old \<Rightarrow> old) @ ls) d"

definition get_window_size_to_layers :: "int list \<Rightarrow> int \<Rightarrow> window_map result" where
  "get_window_size_to_layers vec num_local_layers =
     (if vec = [] then (if num_local_layers > 0 then Inl Exception else Inr [])
      else if length vec = 1 then Inr [(hd vec, py_range 0 num_local_layers)]
      else Inr (fold (\<lambda>l. append_layer (vec ! nat (l mod int (length vec))) [l]) (py_range 0 num_local_layers) []))"

section \<open>Fitting variable windows into the pool\<close>

definition layer_bytes :: "int list \<Rightarrow> int \<Rightarrow> int \<Rightarrow> data_type \<Rightarrow> int list \<Rightarrow> int result" where
  \<comment> \<open>\<open>calculate_cache_size_per_token\<close>, in bytes\<close>
  "layer_bytes heads kv_factor head_size d ls =
     res_bind (res_map (py_index heads) ls) (\<lambda>hs. cache_bytes (sum_list hs * kv_factor * head_size) d)"

record vswa_state =
  v_mem :: int
  v_layers :: "int list"
  v_accum :: int
  v_prev :: int
  v_map :: window_map
  v_adj :: "(int, int) dict"
  v_vec :: "int list"

definition get_or :: "(int, int) dict \<Rightarrow> int \<Rightarrow> int" where
  \<comment> \<open>\<open>d.get(v, v)\<close>\<close>
  "get_or d v = (case map_of d v of None \<Rightarrow> v | Some a \<Rightarrow> a)"

definition vswa_fill :: "(int list \<Rightarrow> int result) \<Rightarrow> int option \<Rightarrow> int \<Rightarrow> vswa_state \<Rightarrow> (int \<times> int) result" where
  \<comment> \<open>the new \<open>(accum_max_tokens, remaining_mem_bytes)\<close>\<close>
  "vswa_fill bytes max_tokens window st =
     (if v_mem st > 0 \<and> v_layers st \<noteq> [] then
        res_bind (bytes (v_layers st)) (\<lambda>b.
        res_bind (py_div (v_mem st) b) (\<lambda>fit.
        let n = min fit (window - v_prev st);
            acc = v_accum st + n;
            mem = (if acc < window then 0 else v_mem st - n * b) in
        case max_tokens of
          None \<Rightarrow> Inr (acc, mem)
        | Some cfg \<Rightarrow> let acc' = min cfg acc in Inr (acc', if acc' = cfg then 0 else mem)))
      else Inr (v_accum st, v_mem st))"

definition vswa_step :: "(int list \<Rightarrow> int result) \<Rightarrow> int option \<Rightarrow> int \<times> int list \<Rightarrow> vswa_state \<Rightarrow> vswa_state result" where
  "vswa_step bytes max_tokens wl st =
     (case wl of (window, layers) \<Rightarrow>
      res_bind (vswa_fill bytes max_tokens window st) (\<lambda>(acc, mem).
      let adj = AList.update window acc (v_adj st) in
      Inr \<lparr>v_mem = mem, v_layers = filter (\<lambda>l. l \<notin> set layers) (v_layers st), v_accum = acc, v_prev = window,
           v_map = append_layer acc layers (v_map st), v_adj = adj, v_vec = map (get_or adj) (v_vec st)\<rparr>))"

fun vswa_loop :: "(int list \<Rightarrow> int result) \<Rightarrow> int option \<Rightarrow> (int \<times> int list) list \<Rightarrow> vswa_state \<Rightarrow> vswa_state result" where
  "vswa_loop bytes max_tokens [] st = Inr st"
| "vswa_loop bytes max_tokens (wl # wls) st =
     res_bind (vswa_step bytes max_tokens wl st) (vswa_loop bytes max_tokens wls)"

definition sorted_items :: "window_map \<Rightarrow> (int \<times> int list) list" where
  \<comment> \<open>the items in the order of \<open>sorted(window_size_to_layers)\<close>\<close>
  "sorted_items d = sort_key fst d"

definition adjust_window_sizes_for_vswa :: "int list \<Rightarrow> int \<Rightarrow> int \<Rightarrow> data_type \<Rightarrow> int option \<Rightarrow> bool
    \<Rightarrow> window_map \<Rightarrow> int list \<Rightarrow> int \<Rightarrow> (window_map \<times> int list) result" where
  "adjust_window_sizes_for_vswa heads kv_factor head_size d max_tokens is_cross windows vec pool =
     (let bytes = layer_bytes heads kv_factor head_size d in
      res_bind (py_assert (\<not> is_cross)) (\<lambda>_.
      res_bind (res_map (\<lambda>(w, ls). res_bind (bytes ls) (\<lambda>b. Inr (w * b))) (sorted_items windows)) (\<lambda>req.
      if sum_list req < pool then Inr (windows, vec)
      else
        res_bind (vswa_loop bytes max_tokens (sorted_items windows)
          \<lparr>v_mem = pool, v_layers = remdups (concat (map snd windows)), v_accum = 0, v_prev = 0, v_map = [], v_adj = [],
           v_vec = vec\<rparr>) (\<lambda>st. Inr (v_map st, v_vec st)))))"

section \<open>Windows against blocks\<close>

definition get_max_atten_window_upper_bound :: "int \<Rightarrow> int \<Rightarrow> int \<Rightarrow> int \<Rightarrow> int option \<Rightarrow> int result" where
  "get_max_atten_window_upper_bound blocks tpb beam sink_len max_seq_len =
     res_bind (py_div (blocks * tpb) (beam * tpb)) (\<lambda>max_blocks_per_seq.
     res_bind (py_assert (max_blocks_per_seq > 0)) (\<lambda>_.
     res_bind (py_mod sink_len tpb) (\<lambda>sink_tokens_in_last_block.
     let sink_bubble = (if sink_tokens_in_last_block = 0 then 0 else tpb - sink_tokens_in_last_block);
         bound = max_blocks_per_seq * tpb - sink_bubble;
         bound' = (case max_seq_len of None \<Rightarrow> bound | Some m \<Rightarrow> if m > bound \<and> beam > 1 then bound - tpb else bound) in
     res_bind (py_assert (bound' > 0)) (\<lambda>_. Inr bound'))))"

type_synonym blocks_per_window = "(int, int \<times> int) dict"

fun window_adjustments :: "int \<Rightarrow> int \<Rightarrow> int \<Rightarrow> int \<Rightarrow> blocks_per_window \<Rightarrow> (int, int) dict \<Rightarrow> (int, int) dict result" where
  "window_adjustments tpb beam sink_len max_seq_len [] adj = Inr adj"
| "window_adjustments tpb beam sink_len max_seq_len ((w, (blocks, _)) # rest) adj =
     res_bind (get_max_atten_window_upper_bound blocks tpb beam sink_len (Some max_seq_len)) (\<lambda>ub.
     window_adjustments tpb beam sink_len max_seq_len rest (if w > ub then AList.update w ub adj else adj))"

definition validate_and_adjust_attention_windows :: "int list \<Rightarrow> blocks_per_window \<Rightarrow> int \<Rightarrow> int \<Rightarrow> int \<Rightarrow> int
    \<Rightarrow> (blocks_per_window \<times> int \<times> int list) result" where
  "validate_and_adjust_attention_windows vec blocks tpb sink_len max_seq_len beam =
     res_bind (window_adjustments tpb beam sink_len max_seq_len blocks []) (\<lambda>adj.
     if adj \<noteq> [] then
       let vec' = map (get_or adj) vec;
           blocks' = fold (\<lambda>(w, pools). AList.update (get_or adj w) pools) blocks [] in
       if vec' = [] then Inl ValueError else Inr (blocks', Max (set vec'), vec')
     else Inr (blocks, max_seq_len, vec))"

section \<open>The memory budget\<close>

definition map_cost :: "(int \<Rightarrow> int) \<Rightarrow> window_map \<Rightarrow> int" where
  \<comment> \<open>the bytes of one sequence that fills every window; \<open>c\<close> gives the bytes per token of a layer\<close>
  "map_cost c d = (\<Sum>(w, ls)\<leftarrow>d. w * (\<Sum>l\<leftarrow>ls. c l))"

lemma append_layer_cost:
  "distinct (keys_of d) \<Longrightarrow> map_cost c (append_layer w ls d) = map_cost c d + w * (\<Sum>l\<leftarrow>ls. c l)"
proof (induction d)
  case (Cons e d)
  obtain k v where e: "e = (k, v)" by (cases e)
  show ?case
  proof (cases "k = w")
    case False
    then have "append_layer w ls (e # d) = e # append_layer w ls d" by (simp add: append_layer_def e)
    with Cons show ?thesis by (simp add: map_cost_def)
  qed (simp add: append_layer_def map_cost_def e algebra_simps)
qed (simp add: append_layer_def map_cost_def)

lemma append_layer_keys [simp]:
  "distinct (keys_of d) \<Longrightarrow> distinct (keys_of (append_layer w ls d))"
  "set (keys_of (append_layer w ls d)) = insert w (set (keys_of d))"
  by (auto simp: append_layer_def distinct_update update_keys)

definition adj_ok :: "int \<Rightarrow> int \<Rightarrow> (int, int) dict \<Rightarrow> bool" where
  \<comment> \<open>a window shrinks only when the memory is used up, and then all later ones get the same size\<close>
  "adj_ok accum mem adj \<longleftrightarrow> (\<forall>(w, a) \<in> set adj. 0 \<le> a \<and> a \<le> w \<and> a \<le> accum \<and> (a < w \<longrightarrow> mem = 0 \<and> a = accum))"

definition vswa_inv :: "(int \<Rightarrow> int) \<Rightarrow> int \<Rightarrow> int option \<Rightarrow> int list \<Rightarrow> (int \<times> int list) list \<Rightarrow> vswa_state \<Rightarrow> bool" where
  "vswa_inv c pool cfg vec0 todo st \<longleftrightarrow>
     0 \<le> v_mem st \<and> distinct (v_layers st) \<and> set (v_layers st) = set (concat (map snd todo))
     \<and> 0 \<le> v_accum st \<and> v_accum st \<le> v_prev st \<and> (\<forall>m. cfg = Some m \<longrightarrow> v_accum st \<le> m)
     \<and> (\<forall>w \<in> set (keys_of (v_adj st)). w \<le> v_prev st) \<and> distinct (keys_of (v_adj st))
     \<and> adj_ok (v_accum st) (v_mem st) (v_adj st) \<and> v_vec st = map (get_or (v_adj st)) vec0
     \<and> distinct (keys_of (v_map st)) \<and> set (keys_of (v_map st)) = snd ` set (v_adj st)
     \<and> map_cost c (v_map st) + v_accum st * (\<Sum>l\<leftarrow>v_layers st. c l) + v_mem st \<le> pool"

lemma get_or_chain:
  assumes adj: "adj_ok accum mem adj" "distinct (keys_of adj)" and w: "\<And>v. v \<in> set (keys_of adj) \<Longrightarrow> v < w"
  shows "get_or (AList.update w acc adj) (get_or adj v) = get_or (AList.update w acc adj) v"
proof (cases "map_of adj v")
  case (Some a)
  note ok = adj(1)[unfolded adj_ok_def]
  have va: "(v, a) \<in> set adj" using map_of_SomeD[OF Some] .
  then have a: "a \<le> v" "a \<le> accum" "v < w" using ok w[of v] by force+
  have "get_or (AList.update w acc adj) a = a"
  proof (cases "map_of adj a")
    case None
    with a show ?thesis by (simp add: get_or_def)
  next
    case (Some b)
    then have "(a, b) \<in> set adj" by (rule map_of_SomeD)
    then have "b \<le> a \<and> (b < a \<longrightarrow> b = accum)" using ok by force
    with a Some show ?thesis by (auto simp: get_or_def)
  qed
  with Some a show ?thesis by (simp add: get_or_def)
qed (simp add: get_or_def)

lemma vswa_fill_ok:
  assumes inv: "vswa_inv c pool cfg vec0 ((w, ls) # todo) st" and bytes: "bytes (v_layers st) = Inr (\<Sum>l\<leftarrow>v_layers st. c l)"
    and pos: "\<And>l. l \<in> set (v_layers st) \<Longrightarrow> 0 < c l" and ls: "ls \<noteq> []" and w: "v_prev st \<le> w"
  obtains acc mem where "vswa_fill bytes cfg w st = Inr (acc, mem)" "0 \<le> mem" "v_accum st \<le> acc" "acc \<le> w"
    "\<And>m. cfg = Some m \<Longrightarrow> acc \<le> m" "acc < w \<Longrightarrow> mem = 0" "v_mem st = 0 \<Longrightarrow> acc = v_accum st \<and> mem = 0"
    "acc * (\<Sum>l\<leftarrow>v_layers st. c l) + mem \<le> v_accum st * (\<Sum>l\<leftarrow>v_layers st. c l) + v_mem st"
proof (cases "v_mem st > 0")
  case False
  then have "v_mem st = 0" using inv by (simp add: vswa_inv_def)
  then show ?thesis using that[of "v_accum st" 0] inv w by (auto simp: vswa_inv_def vswa_fill_def)
next
  case True
  let ?b = "\<Sum>l\<leftarrow>v_layers st. c l"
  have ne: "v_layers st \<noteq> []" using inv ls by (auto simp: vswa_inv_def)
  then obtain l0 ls0 where l0: "v_layers st = l0 # ls0" by (cases "v_layers st") auto
  have "0 \<le> (\<Sum>l\<leftarrow>ls0. c l)" using pos l0 by (intro sum_list_nonneg) (auto intro: less_imp_le)
  then have b: "0 < ?b" using pos[of l0] l0 by simp
  define n where "n = min (v_mem st div ?b) (w - v_prev st)"
  have "0 \<le> v_mem st div ?b" using True b by (simp add: pos_imp_zdiv_nonneg_iff)
  then have n0: "0 \<le> n" using w by (simp add: n_def)
  have nb: "n * ?b \<le> v_mem st"
  proof -
    have "n * ?b \<le> v_mem st div ?b * ?b" using b by (intro mult_right_mono) (simp_all add: n_def)
    also have "\<dots> \<le> v_mem st" using b div_mult_mod_eq[of "v_mem st" ?b] pos_mod_sign[OF b, of "v_mem st"] by linarith
    finally show ?thesis .
  qed
  define acc where "acc = v_accum st + n"
  define mem where "mem = (if acc < w then 0 else v_mem st - n * ?b)"
  have "v_accum st \<le> v_prev st" "n \<le> w - v_prev st" using inv by (simp_all add: vswa_inv_def n_def)
  then have acc: "v_accum st \<le> acc" "acc \<le> w" using n0 unfolding acc_def by linarith+
  have cost: "acc * ?b + mem \<le> v_accum st * ?b + v_mem st" "0 \<le> mem" using nb by (simp_all add: mem_def acc_def algebra_simps)
  show ?thesis
  proof (cases cfg)
    case None
    then show ?thesis
      using that[of acc mem] True ne b acc cost bytes
      by (simp add: vswa_fill_def acc_def mem_def n_def Let_def)
  next
    case (Some m)
    have m: "v_accum st \<le> min m acc" using inv acc Some by (simp add: vswa_inv_def)
    have "min m acc * ?b \<le> acc * ?b" using b by (intro mult_right_mono) auto
    moreover have "(if min m acc = m then 0 else mem) \<le> mem" using cost(2) by simp
    ultimately have "min m acc * ?b + (if min m acc = m then 0 else mem) \<le> v_accum st * ?b + v_mem st" using cost(1) by linarith
    moreover have "vswa_fill bytes cfg w st = Inr (min m acc, if min m acc = m then 0 else mem)"
      using True ne b bytes Some by (simp add: vswa_fill_def acc_def mem_def n_def Let_def)
    ultimately show ?thesis using that[of "min m acc" "if min m acc = m then 0 else mem"] m acc cost(2) Some True
      by (auto simp: mem_def min_def split: if_splits)
  qed
qed

lemma sum_filter_split:
  fixes c :: "int \<Rightarrow> int"
  assumes "distinct xs" "distinct ls" "set ls \<subseteq> set xs"
  shows "(\<Sum>l\<leftarrow>xs. c l) = (\<Sum>l\<leftarrow>ls. c l) + (\<Sum>l\<leftarrow>filter (\<lambda>l. l \<notin> set ls) xs. c l)"
proof -
  have "(\<Sum>l\<in>set xs. c l) = (\<Sum>l\<in>set ls. c l) + (\<Sum>l\<in>set xs - set ls. c l)"
    using assms(3) by (subst sum.subset_diff[of "set ls"]) (auto simp: add.commute)
  moreover have "set xs - set ls = set (filter (\<lambda>l. l \<notin> set ls) xs)" by auto
  ultimately show ?thesis using assms(1,2) by (simp only: sum_list_distinct_conv_sum_set distinct_filter)
qed

lemma vswa_step_inv:
  assumes inv: "vswa_inv c pool cfg vec0 ((w, ls) # todo) st" and bytes: "bytes (v_layers st) = Inr (\<Sum>l\<leftarrow>v_layers st. c l)"
    and pos: "\<And>l. l \<in> set (v_layers st) \<Longrightarrow> 0 < c l" and ls: "ls \<noteq> []" "distinct ls" "set ls \<inter> set (concat (map snd todo)) = {}"
    and w: "v_prev st \<le> w" "w \<notin> set (keys_of (v_adj st))"
  obtains st' where "vswa_step bytes cfg (w, ls) st = Inr st'" "vswa_inv c pool cfg vec0 todo st'" "v_prev st' = w"
    "keys_of (v_adj st') = keys_of (v_adj st) @ [w]"
proof -
  obtain acc mem where f: "vswa_fill bytes cfg w st = Inr (acc, mem)" "0 \<le> mem" "v_accum st \<le> acc" "acc \<le> w"
    "\<And>m. cfg = Some m \<Longrightarrow> acc \<le> m" "acc < w \<Longrightarrow> mem = 0" "v_mem st = 0 \<Longrightarrow> acc = v_accum st \<and> mem = 0"
    "acc * (\<Sum>l\<leftarrow>v_layers st. c l) + mem \<le> v_accum st * (\<Sum>l\<leftarrow>v_layers st. c l) + v_mem st"
    using vswa_fill_ok[where c = c and bytes = bytes, OF inv bytes pos ls(1) w(1)] by blast
  note I = inv[unfolded vswa_inv_def]
  define adj where "adj = AList.update w acc (v_adj st)"
  define st' where "st' = \<lparr>v_mem = mem, v_layers = filter (\<lambda>l. l \<notin> set ls) (v_layers st), v_accum = acc, v_prev = w,
     v_map = append_layer acc ls (v_map st), v_adj = adj, v_vec = map (get_or adj) (v_vec st)\<rparr>"
  have adj: "adj = v_adj st @ [(w, acc)]" unfolding adj_def using w(2) by (intro update_new) simp
  have ok: "adj_ok acc mem adj" unfolding adj adj_ok_def
  proof (clarsimp, intro conjI impI allI)
    show "0 \<le> acc" "acc \<le> w" "acc < w \<Longrightarrow> mem = 0" using f I by auto
  next
    show "\<forall>x \<in> set (v_adj st). case x of (w, a) \<Rightarrow> 0 \<le> a \<and> a \<le> w \<and> a \<le> acc \<and> (a < w \<longrightarrow> mem = 0 \<and> a = acc)"
      using I f(3,7) unfolding adj_ok_def by fastforce
  qed
  have lt: "v < w" if "v \<in> set (keys_of (v_adj st))" for v
    using that I w by (metis order.order_iff_strict order_trans)
  have vec: "v_vec st' = map (get_or adj) vec0"
    using I get_or_chain[of "v_accum st" "v_mem st" "v_adj st" w acc] lt by (simp add: st'_def adj_def)
  have sub: "set ls \<subseteq> set (v_layers st)" using I by auto
  have "map_cost c (v_map st') + acc * (\<Sum>l\<leftarrow>v_layers st'. c l) + mem =
      map_cost c (v_map st) + acc * (\<Sum>l\<leftarrow>v_layers st. c l) + mem"
    using sum_filter_split[of "v_layers st" ls c] sub I ls(2) append_layer_cost[of "v_map st" c acc ls]
    by (simp add: st'_def algebra_simps)
  also have "\<dots> \<le> pool" using f(8) I by linarith
  finally have cost: "map_cost c (v_map st') + acc * (\<Sum>l\<leftarrow>v_layers st'. c l) + mem \<le> pool" .
  have "vswa_inv c pool cfg vec0 todo st'"
    unfolding vswa_inv_def
  proof (intro conjI)
    show "set (v_layers st') = set (concat (map snd todo))" using I ls(3) by (auto simp: st'_def)
    show "v_vec st' = map (get_or (v_adj st')) vec0" using vec by (simp add: st'_def)
    show "map_cost c (v_map st') + v_accum st' * (\<Sum>l\<leftarrow>v_layers st'. c l) + v_mem st' \<le> pool" using cost by (simp add: st'_def)
    show "\<forall>v \<in> set (keys_of (v_adj st')). v \<le> v_prev st'" using lt by (fastforce simp: st'_def adj)
    show "distinct (keys_of (v_adj st'))" using I w(2) by (simp add: st'_def adj)
    show "set (keys_of (v_map st')) = snd ` set (v_adj st')" using I by (auto simp: st'_def adj simp del: set_map)
    show "\<forall>m. cfg = Some m \<longrightarrow> v_accum st' \<le> m" using f(5) by (simp add: st'_def)
    show "adj_ok (v_accum st') (v_mem st') (v_adj st')" using ok by (simp add: st'_def)
  qed (use I f in \<open>simp_all add: st'_def\<close>)
  moreover have "vswa_step bytes cfg (w, ls) st = Inr st'" using f(1) by (simp add: vswa_step_def st'_def adj_def Let_def)
  ultimately show ?thesis using that[of st'] by (simp add: st'_def adj)
qed

lemma vswa_loop_inv:
  assumes "vswa_inv c pool cfg vec0 todo st" "distinct (concat (map snd todo))" "list_all (\<lambda>(w, ls). ls \<noteq> []) todo"
    and "sorted (keys_of todo)" "distinct (keys_of todo)" "set (keys_of todo) \<inter> set (keys_of (v_adj st)) = {}"
    and "list_all (\<lambda>w. v_prev st \<le> w) (keys_of todo)"
    and "\<And>ls. set ls \<subseteq> set (v_layers st) \<Longrightarrow> bytes ls = Inr (\<Sum>l\<leftarrow>ls. c l)" "\<And>l. l \<in> set (v_layers st) \<Longrightarrow> 0 < c l"
  shows "\<exists>st'. vswa_loop bytes cfg todo st = Inr st' \<and> vswa_inv c pool cfg vec0 [] st'
    \<and> keys_of (v_adj st') = keys_of (v_adj st) @ keys_of todo"
  using assms
proof (induction todo arbitrary: st)
  case (Cons wl todo)
  obtain w ls where wl: "wl = (w, ls)" by (cases wl)
  have dj: "ls \<noteq> []" "distinct ls" "set ls \<inter> set (concat (map snd todo)) = {}" using Cons.prems(2,3) by (auto simp: wl)
  have wp: "v_prev st \<le> w" "w \<notin> set (keys_of (v_adj st))" using Cons.prems(6,7) by (auto simp: wl)
  obtain st' where st': "vswa_step bytes cfg (w, ls) st = Inr st'" "vswa_inv c pool cfg vec0 todo st'" "v_prev st' = w"
    "keys_of (v_adj st') = keys_of (v_adj st) @ [w]"
    using vswa_step_inv[where c = c and bytes = bytes, OF Cons.prems(1)[unfolded wl] Cons.prems(8)[OF subset_refl] Cons.prems(9) dj wp] by blast
  have sub: "set (v_layers st') \<subseteq> set (v_layers st)" using st'(2) Cons.prems(1) by (auto simp: vswa_inv_def)
  have "\<exists>st''. vswa_loop bytes cfg todo st' = Inr st'' \<and> vswa_inv c pool cfg vec0 [] st''
    \<and> keys_of (v_adj st'') = keys_of (v_adj st') @ keys_of todo"
  proof (rule Cons.IH[OF st'(2)])
    show "set (keys_of todo) \<inter> set (keys_of (v_adj st')) = {}" using Cons.prems(5,6) unfolding st'(4) by (auto simp: wl)
    show "list_all (\<lambda>v. v_prev st' \<le> v) (keys_of todo)" using Cons.prems(4) by (auto simp: st'(3) wl list_all_iff)
  qed (use Cons.prems sub in \<open>auto simp: wl\<close>)
  then show ?case using st' by (auto simp: wl)
qed simp

section \<open>The windows of the local layers\<close>

definition windows_ok :: "window_map \<Rightarrow> bool" where
  "windows_ok d \<longleftrightarrow> distinct (keys_of d) \<and> distinct (concat (map snd d)) \<and> list_all (\<lambda>(w, ls). ls \<noteq> []) d"

lemma append_layer_layers: "mset (concat (map snd (append_layer w ls d))) = mset (concat (map snd d)) + mset ls"
proof (induction d)
  case (Cons e d)
  obtain k v where e: "e = (k, v)" by (cases e)
  show ?case
  proof (cases "k = w")
    case False
    then have "append_layer w ls (e # d) = e # append_layer w ls d" by (simp add: append_layer_def e)
    with Cons show ?thesis by simp
  qed (simp add: append_layer_def e)
qed (simp add: append_layer_def)

lemma append_layer_nonempty:
  "list_all (\<lambda>(w, ls). ls \<noteq> []) d \<Longrightarrow> ls \<noteq> [] \<Longrightarrow> list_all (\<lambda>(w, ls). ls \<noteq> []) (append_layer w ls d)"
  by (auto simp: append_layer_def list_all_iff dest!: subsetD[OF set_update_subset])

lemma fold_append_layers:
  assumes "distinct (keys_of d)" "list_all (\<lambda>(w, ls). ls \<noteq> []) d"
  shows "distinct (keys_of (fold (\<lambda>l. append_layer (f l) [l]) xs d)) \<and> list_all (\<lambda>(w, ls). ls \<noteq> []) (fold (\<lambda>l. append_layer (f l) [l]) xs d)
    \<and> mset (concat (map snd (fold (\<lambda>l. append_layer (f l) [l]) xs d))) = mset (concat (map snd d)) + mset xs
    \<and> set (keys_of (fold (\<lambda>l. append_layer (f l) [l]) xs d)) = set (keys_of d) \<union> f ` set xs"
  using assms
proof (induction xs arbitrary: d)
  case (Cons x xs)
  have "list_all (\<lambda>(w, ls). ls \<noteq> []) (append_layer (f x) [x] d)" using Cons.prems(2) by (rule append_layer_nonempty) simp
  from Cons.IH[OF append_layer_keys(1)[OF Cons.prems(1)] this] show ?case
    by (auto simp: append_layer_layers simp del: set_map)
qed simp

lemma window_layers_ok:
  assumes "get_window_size_to_layers vec n = Inr d" "0 < n"
  shows "windows_ok d" "set (concat (map snd d)) = {0..<n}" "set (keys_of d) \<subseteq> set vec"
proof -
  let ?f = "\<lambda>l. vec ! nat (l mod int (length vec))"
  have f: "?f l \<in> set vec" if "vec \<noteq> []" for l
    using that by (intro nth_mem) (simp add: nat_less_iff)
  consider (one) "length vec = 1" "d = [(hd vec, py_range 0 n)]"
    | (many) "vec \<noteq> []" "d = fold (\<lambda>l. append_layer (?f l) [l]) (py_range 0 n) []"
    using assms by (auto simp: get_window_size_to_layers_def split: if_splits)
  then have "windows_ok d \<and> set (concat (map snd d)) = {0..<n} \<and> set (keys_of d) \<subseteq> set vec"
  proof cases
    case one
    then show ?thesis using assms(2) by (cases vec) (auto simp: windows_ok_def simp flip: set_empty)
  next
    case many
    note fl = fold_append_layers[of "[]" ?f "py_range 0 n", folded many(2)]
    have m: "mset (concat (map snd d)) = mset (py_range 0 n)" using fl by simp
    have "distinct (concat (map snd d))" using mset_eq_imp_distinct_iff[OF m] by simp
    moreover have "set (concat (map snd d)) = {0..<n}" using mset_eq_setD[OF m] by simp
    ultimately show ?thesis using fl f[OF many(1)] by (auto simp: windows_ok_def simp del: set_map)
  qed
  then show "windows_ok d" "set (concat (map snd d)) = {0..<n}" "set (keys_of d) \<subseteq> set vec" by auto
qed

lemma layer_bytes_linear:
  assumes "d \<noteq> NVFP4" "\<And>l. l \<in> set ls \<Longrightarrow> 0 \<le> l \<and> l < int (length heads)"
  shows "layer_bytes heads kv_factor head_size d ls =
    Inr (\<Sum>l\<leftarrow>ls. heads ! nat l * (kv_factor * head_size * (binding_dtype_bits d div 8)))"
proof -
  have "res_map (py_index heads) ls = Inr (map (\<lambda>l. heads ! nat l) ls)"
    using assms(2) by (intro res_map_total) simp
  moreover have "binding_dtype_bits d = 8 * (binding_dtype_bits d div 8)"
    using assms(1) by (cases d) (simp_all add: binding_dtype_bits_def)
  then obtain k where k: "binding_dtype_bits d = 8 * k" by blast
  have "(\<Sum>l\<leftarrow>ls. heads ! nat l) * kv_factor * head_size * k = (\<Sum>l\<leftarrow>ls. heads ! nat l * (kv_factor * head_size * k))"
    by (induction ls) (simp_all add: algebra_simps)
  ultimately show ?thesis using assms(1)
    by (simp add: layer_bytes_def cache_bytes_def get_size_in_bytes_def py_assert_def k Let_def ac_simps)
qed

lemma sorted_items_perm:
  "mset (sorted_items d) = mset d" "sorted (keys_of (sorted_items d))"
  "distinct (keys_of d) \<Longrightarrow> distinct (keys_of (sorted_items d))"
  by (simp_all add: sorted_items_def) (metis mset_eq_imp_distinct_iff mset_map mset_sort)

lemma mset_concat_map: "mset (concat (map f xs)) = sum_mset (image_mset (\<lambda>x. mset (f x)) (mset xs))"
  by (induction xs) auto

lemma sum_list_map_mset: "sum_list (map f xs) = sum_mset (image_mset f (mset xs))"
  by (induction xs) auto

lemma get_or_image: "distinct (keys_of d) \<Longrightarrow> snd ` set d = get_or d ` set (keys_of d)"
proof -
  assume d: "distinct (keys_of d)"
  have "get_or d (fst e) = snd e" if "e \<in> set d" for e
    using d that by (cases e) (simp add: get_or_def)
  then show ?thesis by (simp add: image_image)
qed

lemma vswa_start_inv:
  assumes "windows_ok d" "0 \<le> pool" "\<And>m. cfg = Some m \<Longrightarrow> 0 \<le> m"
  shows "vswa_inv c pool cfg vec (sorted_items d) \<lparr>v_mem = pool, v_layers = remdups (concat (map snd d)), v_accum = 0,
     v_prev = 0, v_map = [], v_adj = [], v_vec = vec\<rparr>"
proof -
  have "set (concat (map snd (sorted_items d))) = set (concat (map snd d))"
    using mset_eq_setD[OF sorted_items_perm(1)[of d]] by simp
  then show ?thesis using assms by (auto simp: vswa_inv_def adj_ok_def map_cost_def get_or_def map_idI)
qed

lemma vswa_run:
  assumes ok: "windows_ok d" and nonneg: "\<And>w. w \<in> set (keys_of d) \<Longrightarrow> 0 \<le> w" "0 \<le> pool" "\<And>m. cfg = Some m \<Longrightarrow> 0 \<le> m"
    and bytes: "\<And>ls. set ls \<subseteq> set (concat (map snd d)) \<Longrightarrow> bytes ls = Inr (\<Sum>l\<leftarrow>ls. c l)"
    and pos: "\<And>l. l \<in> set (concat (map snd d)) \<Longrightarrow> 0 < c l"
  obtains st where "vswa_loop bytes cfg (sorted_items d) \<lparr>v_mem = pool, v_layers = remdups (concat (map snd d)), v_accum = 0,
      v_prev = 0, v_map = [], v_adj = [], v_vec = vec\<rparr> = Inr st"
    "vswa_inv c pool cfg vec [] st" "keys_of (v_adj st) = keys_of (sorted_items d)"
proof -
  let ?st = "\<lparr>v_mem = pool, v_layers = remdups (concat (map snd d)), v_accum = 0, v_prev = 0, v_map = [], v_adj = [], v_vec = vec\<rparr>"
  have m: "mset (concat (map snd (sorted_items d))) = mset (concat (map snd d))"
    using sorted_items_perm(1)[of d] by (simp only: mset_concat_map)
  have k: "set (keys_of (sorted_items d)) = set (keys_of d)" using sorted_items_perm(1)[of d] by (metis mset_eq_setD mset_map)
  have "\<exists>st. vswa_loop bytes cfg (sorted_items d) ?st = Inr st \<and> vswa_inv c pool cfg vec [] st
      \<and> keys_of (v_adj st) = keys_of (v_adj ?st) @ keys_of (sorted_items d)"
  proof (rule vswa_loop_inv[OF vswa_start_inv[OF ok nonneg(2,3)]])
    show "distinct (concat (map snd (sorted_items d)))" using ok mset_eq_imp_distinct_iff[OF m] by (simp add: windows_ok_def)
    show "list_all (\<lambda>(w, ls). ls \<noteq> []) (sorted_items d)"
      using ok mset_eq_setD[OF sorted_items_perm(1)[of d]] by (simp add: windows_ok_def list_all_iff)
    show "distinct (keys_of (sorted_items d))" using ok sorted_items_perm(3) by (simp add: windows_ok_def)
    show "list_all (\<lambda>w. v_prev ?st \<le> w) (keys_of (sorted_items d))" using nonneg(1) k by (auto simp: list_all_iff simp del: set_map)
  qed (use sorted_items_perm(2) bytes pos in auto)
  then show ?thesis using that by auto
qed

text \<open>The costs of the windows as they are, in sorted order.\<close>

lemma window_costs:
  assumes "\<And>ls. set ls \<subseteq> set (concat (map snd d)) \<Longrightarrow> bytes ls = Inr (\<Sum>l\<leftarrow>ls. c l)"
  shows "\<exists>req. res_map (\<lambda>(w, ls). res_bind (bytes ls) (\<lambda>b. Inr (w * b))) (sorted_items d) = Inr req \<and> sum_list req = map_cost c d"
proof -
  let ?g = "\<lambda>(w, ls). w * (\<Sum>l\<leftarrow>ls. c l)"
  have "res_map (\<lambda>(w, ls). res_bind (bytes ls) (\<lambda>b. Inr (w * b))) (sorted_items d) = Inr (map ?g (sorted_items d))"
  proof (rule res_map_total)
    fix x assume "x \<in> set (sorted_items d)"
    then have "x \<in> set d" using mset_eq_setD[OF sorted_items_perm(1)[of d]] by simp
    then have "set (snd x) \<subseteq> set (concat (map snd d))" by auto
    then show "(case x of (w, ls) \<Rightarrow> res_bind (bytes ls) (\<lambda>b. Inr (w * b))) = Inr (?g x)"
      using assms by (cases x) simp
  qed
  moreover have "sum_list (map ?g (sorted_items d)) = map_cost c d"
    unfolding map_cost_def sum_list_map_mset sorted_items_perm(1) ..
  ultimately show ?thesis by blast
qed

section \<open>Properties\<close>

text \<open>
  C39: variable sliding windows fit into the pool. For the windows of the local layers and a cache type of
  whole bytes, the adjustment always succeeds; afterwards one sequence that fills all windows needs no more
  than the memory of the pool, every window has shrunk or stayed (consistently in the map and in the window
  vector, although the vector is rewritten once per window).
\<close>

theorem vswa_windows_fit_pool:
  fixes heads :: "int list" and kv_factor head_size :: int
  assumes "get_window_size_to_layers vec (int (length heads)) = Inr windows" "heads \<noteq> []"
    and "d \<noteq> NVFP4" "list_all (\<lambda>h. 0 < h) heads" "0 < kv_factor" "0 < head_size"
    and "list_all (\<lambda>w. 0 \<le> w) vec" "0 \<le> pool" "max_tokens = None \<or> (\<exists>m \<ge> 0. max_tokens = Some m)"
  defines "c \<equiv> \<lambda>l. heads ! nat l * (kv_factor * head_size * (binding_dtype_bits d div 8))"
  shows "\<exists>windows' f. adjust_window_sizes_for_vswa heads kv_factor head_size d max_tokens False windows vec pool = Inr (windows', map f vec)
    \<and> map_cost c windows' \<le> pool \<and> set (keys_of windows') = f ` set (keys_of windows)
    \<and> (\<forall>w \<in> set vec. 0 \<le> f w \<and> f w \<le> w)"
proof -
  let ?bytes = "layer_bytes heads kv_factor head_size d"
  have n: "0 < int (length heads)" using assms(2) by simp
  note W = window_layers_ok[OF assms(1) n]
  have bytes: "?bytes ls = Inr (\<Sum>l\<leftarrow>ls. c l)" if "set ls \<subseteq> set (concat (map snd windows))" for ls
    using layer_bytes_linear[OF assms(3), of ls heads kv_factor head_size] that unfolding W(2) c_def by fastforce
  have "0 < binding_dtype_bits d div 8" by (cases d) (use assms(3) in \<open>simp_all add: binding_dtype_bits_def\<close>)
  then have pos: "0 < c l" if "l \<in> set (concat (map snd windows))" for l
    using that assms(4-6) unfolding W(2) c_def by (intro mult_pos_pos) (auto simp: list_all_iff)
  have keys0: "\<And>w. w \<in> set (keys_of windows) \<Longrightarrow> 0 \<le> w" using W(3) assms(7) by (auto simp: list_all_iff)
  obtain req where req: "res_map (\<lambda>(w, ls). res_bind (?bytes ls) (\<lambda>b. Inr (w * b))) (sorted_items windows) = Inr req"
    "sum_list req = map_cost c windows" using window_costs[OF bytes] by blast
  show ?thesis
  proof (cases "sum_list req < pool")
    case True
    then show ?thesis using req assms(7)
      by (intro exI[of _ windows] exI[of _ "\<lambda>w. w"]) (auto simp: adjust_window_sizes_for_vswa_def py_assert_def list_all_iff)
  next
    case False
    obtain st where st: "vswa_loop ?bytes max_tokens (sorted_items windows) \<lparr>v_mem = pool, v_layers = remdups (concat (map snd windows)),
        v_accum = 0, v_prev = 0, v_map = [], v_adj = [], v_vec = vec\<rparr> = Inr st"
      and inv: "vswa_inv c pool max_tokens vec [] st" and ks: "keys_of (v_adj st) = keys_of (sorted_items windows)"
      by (rule vswa_run[where cfg = max_tokens and c = c and bytes = ?bytes and vec = vec, OF W(1) keys0 assms(8) _ bytes pos])
        (use assms(9) in auto)
    note I = inv[unfolded vswa_inv_def]
    have "adjust_window_sizes_for_vswa heads kv_factor head_size d max_tokens False windows vec pool = Inr (v_map st, map (get_or (v_adj st)) vec)"
      using st req False I by (simp add: adjust_window_sizes_for_vswa_def py_assert_def)
    moreover have vl: "v_layers st = []" using I by simp
    have "map_cost c (v_map st) \<le> pool" using I unfolding vl by simp
    moreover have "set (keys_of (v_map st)) = get_or (v_adj st) ` set (keys_of windows)"
    proof -
      have "snd ` set (v_adj st) = get_or (v_adj st) ` set (keys_of (v_adj st))"
        using I by (intro get_or_image) simp
      also have "set (keys_of (v_adj st)) = set (keys_of windows)"
        unfolding ks using sorted_items_perm(1)[of windows] by (metis mset_eq_setD mset_map)
      finally show ?thesis using I by simp
    qed
    moreover have "0 \<le> get_or (v_adj st) w \<and> get_or (v_adj st) w \<le> w" if "w \<in> set vec" for w
    proof (cases "map_of (v_adj st) w")
      case None
      then show ?thesis using that assms(7) by (simp add: get_or_def list_all_iff)
    next
      case (Some a)
      then have "(w, a) \<in> set (v_adj st)" by (rule map_of_SomeD)
      then show ?thesis using I Some by (force simp: adj_ok_def get_or_def)
    qed
    ultimately show ?thesis by blast
  qed
qed

section \<open>Witnesses\<close>

theorem vswa_windows_fit_pool_witness:
  "\<exists>windows' f. adjust_window_sizes_for_vswa [1, 1, 1] 2 4 HALF None False [(4, [0, 2]), (8, [1])] [4, 8] 200 = Inr (windows', map f [4, 8 :: int])
    \<and> map_cost (\<lambda>l. [1, 1, 1] ! nat l * (2 * 4 * (binding_dtype_bits HALF div 8))) windows' \<le> 200"
proof -
  have "get_window_size_to_layers [4, 8] (int (length [1, 1, 1 :: int])) = Inr [(4, [0, 2]), (8, [1])]" by code_simp
  from vswa_windows_fit_pool[OF this, of HALF 2 4 200 None] show ?thesis
    by (auto simp del: list.map)
qed

end
