(* ===== verification/Request_Results.thy ===== *)
theory Request_Results
  imports Py_Prelude
begin

text \<open>
  What a request accumulates while it runs, \<open>_torch/pyexecutor/llm_request.py\<close>: the storage of context and
  generation logits (\<open>LogitsStorage\<close>, direct and chunked), the log probabilities (\<open>LogProbStorage\<close>), the result
  object that holds them (\<open>PyResult\<close>) and the word-list format of stop and bad words (\<open>convert_wordlist\<close>).

  A logits tensor is the list of its rows along the first axis, with its number of dimensions and its beam
  width; \<open>torch.empty\<close> gives rows that hold no value yet. \<open>copy\<close> stands for \<open>Tensor.copy_\<close> on a slice of the
  storage: rows of the same number are copied (\<open>copy_spec\<close>). The sum of log probabilities is an argument,
  since it is floating-point. Memory placement is not modelled.
\<close>

section \<open>Logits storage\<close>

record 'r logits =
  lt_ndim :: nat
  lt_beam :: int
  lt_rows :: "'r list"

record 'r logits_storage =
  seq_length :: int
  use_chunked :: bool
  chunk_size :: int
  logits_indices :: "(int \<times> int) list"
  storage :: "'r option list option"
  ls_beam_width :: int
  device_fragments :: "'r logits list"
  current_position :: int

type_synonym 'r copy_fn = "'r option list \<Rightarrow> 'r list \<Rightarrow> 'r option list result"

definition logits_storage_init :: "int \<Rightarrow> bool \<Rightarrow> bool \<Rightarrow> int \<Rightarrow> 'r logits_storage" where
  "logits_storage_init seq_len extra chunked chunk =
     \<lparr>seq_length = (if extra then seq_len + 1 else seq_len), use_chunked = chunked, chunk_size = chunk,
      logits_indices = [], storage = None, ls_beam_width = - 1, device_fragments = [], current_position = 0\<rparr>"

definition ls_init :: "'r logits \<Rightarrow> 'r logits_storage \<Rightarrow> 'r logits_storage" where
  \<comment> \<open>\<open>_init\<close> and \<open>_init_chunked_storage\<close>\<close>
  "ls_init l st = st\<lparr>ls_beam_width := lt_beam l, storage := Some (replicate (nat (seq_length st)) None)\<rparr>"

definition store_slice :: "'r copy_fn \<Rightarrow> int \<Rightarrow> int \<Rightarrow> 'r list \<Rightarrow> 'r option list \<Rightarrow> 'r option list result" where
  \<comment> \<open>\<open>storage[a:b].copy_(rows)\<close>\<close>
  "store_slice copy a b rows s =
     res_bind (copy (take (nat (b - a)) (drop (nat a) s)) rows) (\<lambda>new. Inr (take (nat a) s @ new @ drop (nat b) s))"

definition transfer_chunk_to_host :: "'r copy_fn \<Rightarrow> 'r logits_storage \<Rightarrow> unit result \<times> 'r logits_storage" where
  "transfer_chunk_to_host copy st =
     (if device_fragments st = [] then (Inr (), st)
      else case storage st of
        None \<Rightarrow> (Inl AssertionError, st)
      | Some s \<Rightarrow>
          let end_pos = current_position st + int (length (device_fragments st)) in
          (case store_slice copy (current_position st) end_pos (concat (map lt_rows (device_fragments st))) s of
             Inl e \<Rightarrow> (Inl e, st)
           | Inr s' \<Rightarrow> (Inr (), st\<lparr>storage := Some s', logits_indices := logits_indices st @ [(current_position st, end_pos)],
                              current_position := end_pos, device_fragments := []\<rparr>)))"

definition add_fragment :: "'r copy_fn \<Rightarrow> 'r logits \<Rightarrow> 'r logits_storage \<Rightarrow> unit result \<times> 'r logits_storage" where
  "add_fragment copy l st =
     (let st1 = st\<lparr>device_fragments := device_fragments st @ [l]\<rparr> in
      if int (length (device_fragments st1)) = chunk_size st1 then transfer_chunk_to_host copy st1 else (Inr (), st1))"

definition logits_append :: "'r copy_fn \<Rightarrow> 'r logits \<Rightarrow> 'r logits_storage \<Rightarrow> unit result \<times> 'r logits_storage" where
  "logits_append copy l0 st =
     (let l = (if lt_ndim l0 = 2 then l0\<lparr>lt_ndim := 3, lt_beam := 1\<rparr> else l0);
          st1 = (if ls_beam_width st = - 1 then ls_init l st else st) in
      if lt_ndim l \<noteq> 3 then (Inl AssertionError, st)
      else if use_chunked st then add_fragment copy l st1
      else if lt_beam l \<noteq> ls_beam_width st1 then (Inl AssertionError, st1)
      else
        let position = (if logits_indices st1 = [] then 0 else snd (last (logits_indices st1)));
            new_position = int (length (lt_rows l)) + position in
        if new_position > seq_length st1 then (Inl ValueError, st1)
        else case storage st1 of
          None \<Rightarrow> (Inl TypeError, st1)
        | Some s \<Rightarrow>
            (case store_slice copy position new_position (lt_rows l) s of
               Inl e \<Rightarrow> (Inl e, st1)
             | Inr s' \<Rightarrow> (Inr (), st1\<lparr>storage := Some s', logits_indices := logits_indices st1 @ [(position, new_position)]\<rparr>)))"

definition logits_get :: "bool \<Rightarrow> bool \<Rightarrow> 'r logits_storage \<Rightarrow> 'r option list option" where
  "logits_get all_logits exclude_last st =
     (case storage st of
        None \<Rightarrow> None
      | Some s \<Rightarrow>
          (case py_index (logits_indices st) (if exclude_last then - 2 else - 1) of
             Inl e \<Rightarrow> None
           | Inr (a, b) \<Rightarrow> let start = (if all_logits then 0 else a) in Some (take (nat (b - start)) (drop (nat start) s))))"

definition finalize_chunked_transfer :: "'r copy_fn \<Rightarrow> 'r logits_storage \<Rightarrow> unit result \<times> 'r logits_storage" where
  "finalize_chunked_transfer copy st =
     (if use_chunked st \<and> device_fragments st \<noteq> [] then transfer_chunk_to_host copy st else (Inr (), st))"

section \<open>Log probabilities\<close>

record ('p, 'f) log_prob_storage =
  lp_beam_width :: int
  log_probs :: "'p list list"
  cum_log_probs :: "'f list"

definition log_prob_storage_new :: "('p, 'f) log_prob_storage" where
  "log_prob_storage_new = \<lparr>lp_beam_width = - 1, log_probs = [], cum_log_probs = []\<rparr>"

definition log_prob_init :: "'f \<Rightarrow> 'p list list \<Rightarrow> ('p, 'f) log_prob_storage" where
  "log_prob_init zero first =
     \<lparr>lp_beam_width = int (length first), log_probs = map (\<lambda>_. []) first, cum_log_probs = map (\<lambda>_. zero) first\<rparr>"

definition log_prob_append :: "'f \<Rightarrow> ('f \<Rightarrow> 'p list \<Rightarrow> 'f) \<Rightarrow> 'p list list \<Rightarrow> 'f list option \<Rightarrow> ('p, 'f) log_prob_storage
    \<Rightarrow> ('p, 'f) log_prob_storage result" where
  \<comment> \<open>\<open>add c probs\<close> is \<open>c + sum(\<dots>)\<close>; a missing entry of \<open>cum_log_probs\<close> raises\<close>
  "log_prob_append zero add new cum st0 =
     (let st = (if lp_beam_width st0 = - 1 then log_prob_init zero new else st0) in
      res_bind (py_assert (int (length new) = lp_beam_width st)) (\<lambda>_.
      res_bind (case cum of
                  Some cs \<Rightarrow> res_map (py_index cs) (py_range 0 (int (length new)))
                | None \<Rightarrow> Inr (map2 add (cum_log_probs st) new)) (\<lambda>cum'.
      Inr (st\<lparr>log_probs := map2 (@) (log_probs st) new, cum_log_probs := cum'\<rparr>))))"

definition set_log_probs :: "'f \<Rightarrow> ('f \<Rightarrow> 'p list \<Rightarrow> 'f) \<Rightarrow> 'p list list \<Rightarrow> 'f list \<Rightarrow> ('p, 'f) log_prob_storage
    \<Rightarrow> ('p, 'f) log_prob_storage result" where
  "set_log_probs zero add new cum st = log_prob_append zero add new (Some cum) (log_prob_init zero new)"

section \<open>The result of a request\<close>

record ('r, 'p, 'f) py_result =
  streaming :: bool
  exclude_last_generation_logits :: bool
  context_storage :: "'r logits_storage option"
  generation_storage :: "'r logits_storage option"
  log_prob_store :: "('p, 'f) log_prob_storage option"

definition py_result_init :: "int \<Rightarrow> int \<Rightarrow> bool \<Rightarrow> bool \<Rightarrow> bool \<Rightarrow> bool \<Rightarrow> bool \<Rightarrow> bool \<Rightarrow> int \<Rightarrow> ('r, 'p, 'f) py_result result" where
  "py_result_init prompt_len max_new strm ret_lp ret_ctx ret_gen exclude chunked chunk =
     res_bind (py_assert (\<not> (strm \<and> chunked) \<or> chunk = 1)) (\<lambda>_.
     Inr \<lparr>streaming = strm, exclude_last_generation_logits = exclude,
          context_storage = (if ret_ctx then Some (logits_storage_init prompt_len False False 8) else None),
          generation_storage = (if ret_gen then Some (logits_storage_init max_new exclude chunked chunk) else None),
          log_prob_store = (if ret_lp then Some log_prob_storage_new else None)\<rparr>)"

definition append_context_logits :: "'r copy_fn \<Rightarrow> 'r logits \<Rightarrow> ('r, 'p, 'f) py_result \<Rightarrow> unit result \<times> ('r, 'p, 'f) py_result" where
  "append_context_logits copy l r = (case context_storage r of
      None \<Rightarrow> (Inr (), r)
    | Some st \<Rightarrow> (case logits_append copy l st of (res, st') \<Rightarrow> (res, r\<lparr>context_storage := Some st'\<rparr>)))"

definition append_generation_logits :: "'r copy_fn \<Rightarrow> 'r logits \<Rightarrow> ('r, 'p, 'f) py_result \<Rightarrow> unit result \<times> ('r, 'p, 'f) py_result" where
  "append_generation_logits copy l r = (case generation_storage r of
      None \<Rightarrow> (Inr (), r)
    | Some st \<Rightarrow> (case logits_append copy l st of (res, st') \<Rightarrow> (res, r\<lparr>generation_storage := Some st'\<rparr>)))"

definition transfer_remaining_device_logits :: "'r copy_fn \<Rightarrow> ('r, 'p, 'f) py_result \<Rightarrow> unit result \<times> ('r, 'p, 'f) py_result" where
  "transfer_remaining_device_logits copy r = (case generation_storage r of
      None \<Rightarrow> (Inr (), r)
    | Some st \<Rightarrow> (case finalize_chunked_transfer copy st of (res, st') \<Rightarrow> (res, r\<lparr>generation_storage := Some st'\<rparr>)))"

definition result_set_exclude_last :: "bool \<Rightarrow> ('r, 'p, 'f) py_result \<Rightarrow> ('r, 'p, 'f) py_result" where
  "result_set_exclude_last b r = r\<lparr>exclude_last_generation_logits := b\<rparr>"

definition append_log_probs :: "'f \<Rightarrow> ('f \<Rightarrow> 'p list \<Rightarrow> 'f) \<Rightarrow> 'p list list \<Rightarrow> 'f list option \<Rightarrow> ('r, 'p, 'f) py_result
    \<Rightarrow> ('r, 'p, 'f) py_result result" where
  "append_log_probs zero add new cum r = (case log_prob_store r of
      None \<Rightarrow> Inr r
    | Some st \<Rightarrow> res_bind (log_prob_append zero add new cum st) (\<lambda>st'. Inr (r\<lparr>log_prob_store := Some st'\<rparr>)))"

definition result_set_log_probs :: "'f \<Rightarrow> ('f \<Rightarrow> 'p list \<Rightarrow> 'f) \<Rightarrow> 'p list list \<Rightarrow> 'f list \<Rightarrow> ('r, 'p, 'f) py_result
    \<Rightarrow> ('r, 'p, 'f) py_result result" where
  "result_set_log_probs zero add new cum r = (case log_prob_store r of
      None \<Rightarrow> Inr r
    | Some st \<Rightarrow> res_bind (set_log_probs zero add new cum st) (\<lambda>st'. Inr (r\<lparr>log_prob_store := Some st'\<rparr>)))"

definition context_logits :: "('r, 'p, 'f) py_result \<Rightarrow> 'r option list option" where
  \<comment> \<open>before the beam axis is dropped\<close>
  "context_logits r = (case context_storage r of None \<Rightarrow> None | Some st \<Rightarrow> logits_get True False st)"

definition generation_logits :: "('r, 'p, 'f) py_result \<Rightarrow> 'r option list option" where
  \<comment> \<open>before the two leading axes are swapped\<close>
  "generation_logits r = (case generation_storage r of
      None \<Rightarrow> None | Some st \<Rightarrow> logits_get (\<not> streaming r) (exclude_last_generation_logits r) st)"

section \<open>Word lists\<close>

fun wordlist_loop :: "int list list \<Rightarrow> int list \<Rightarrow> int list \<Rightarrow> int \<Rightarrow> int list \<times> int list" where
  "wordlist_loop [] tokens offsets cur = (tokens, offsets)"
| "wordlist_loop (w # ws) tokens offsets cur =
     wordlist_loop ws (tokens @ w) (offsets @ [cur + int (length w)]) (cur + int (length w))"

definition convert_wordlist :: "int list list \<Rightarrow> int list list" where
  "convert_wordlist ws =
     (if ws = [] then []
      else case wordlist_loop ws [] [] 0 of (tokens, offsets) \<Rightarrow>
        [tokens, if length tokens > length offsets then offsets @ replicate (length tokens - length offsets) (- 1) else offsets])"

section \<open>What the storage holds\<close>

definition copy_spec :: "'r copy_fn \<Rightarrow> bool" where
  "copy_spec copy \<longleftrightarrow> (\<forall>dst src. length dst = length src \<longrightarrow> copy dst src = Inr (map Some src))"

definition copy_ref :: "'r copy_fn" where
  "copy_ref dst src = (if length dst = length src then Inr (map Some src) else Inl RuntimeError)"

lemma copy_ref_spec: "copy_spec copy_ref"
  by (simp add: copy_spec_def copy_ref_def)

lemma py_index_negative [simp]:
  "py_index (xs @ [y]) (- 1) = Inr y" "py_index (xs @ [x, y]) (- 2) = Inr x"
  "py_index [] (- 1) = Inl IndexError" "length xs < 2 \<Longrightarrow> py_index xs (- 2) = Inl IndexError"
  by (auto simp: py_index_def nth_append)

fun ranges :: "int \<Rightarrow> 'r list list \<Rightarrow> (int \<times> int) list" where
  \<comment> \<open>the consecutive ranges that chunks take from a position\<close>
  "ranges p [] = []"
| "ranges p (c # cs) = (p, p + int (length c)) # ranges (p + int (length c)) cs"

lemma ranges_snoc: "ranges p (cs @ [c]) =
    ranges p cs @ [(p + int (length (concat cs)), p + int (length (concat cs)) + int (length c))]"
  by (induction cs arbitrary: p) (auto simp: algebra_simps)

lemma length_ranges [simp]: "length (ranges p cs) = length cs"
  by (induction cs arbitrary: p) auto

text \<open>\<open>s\<close> holds the chunks from its beginning, and \<open>idx\<close> their ranges.\<close>

definition holds :: "'r option list \<Rightarrow> (int \<times> int) list \<Rightarrow> 'r list list \<Rightarrow> bool" where
  "holds s idx cs \<longleftrightarrow> idx = ranges 0 cs \<and> length (concat cs) \<le> length s \<and> take (length (concat cs)) s = map Some (concat cs)"

lemma holds_end: "holds s idx cs \<Longrightarrow> (if idx = [] then 0 else snd (last idx)) = int (length (concat cs))"
  by (cases cs rule: rev_cases) (auto simp: holds_def ranges_snoc)

lemma store_slice_holds:
  assumes "copy_spec copy" "holds s idx cs" "length (concat cs) + length c \<le> length s"
  defines "p \<equiv> int (length (concat cs))"
  obtains s' where "store_slice copy p (p + int (length c)) c s = Inr s'" "length s' = length s"
    "holds s' (idx @ [(p, p + int (length c))]) (cs @ [c])"
proof -
  let ?n = "length (concat cs)"
  have np: "nat p = ?n" "nat (p + int (length c)) = ?n + length c" "nat (p + int (length c) - p) = length c"
    by (simp_all add: p_def nat_add_distrib)
  have "copy (take (length c) (drop ?n s)) c = Inr (map Some c)" using assms(1,3) by (simp add: copy_spec_def)
  then have st: "store_slice copy p (p + int (length c)) c s = Inr (take ?n s @ map Some c @ drop (?n + length c) s)"
    unfolding store_slice_def np by simp
  have "take ?n s = map Some (concat cs)" "idx = ranges 0 cs" using assms(2) by (simp_all add: holds_def)
  then have "holds (take ?n s @ map Some c @ drop (?n + length c) s) (idx @ [(p, p + int (length c))]) (cs @ [c])"
    using assms(3) by (simp add: holds_def ranges_snoc p_def)
  then show ?thesis using that[OF st] assms(3) by simp
qed

lemma take_drop_last_chunk:
  "take (length (concat (cs @ [c]))) s = map Some (concat (cs @ [c])) \<Longrightarrow>
   take (length c) (drop (length (concat cs)) s) = map Some c"
proof -
  assume "take (length (concat (cs @ [c]))) s = map Some (concat (cs @ [c]))"
  then have "drop (length (concat cs)) (take (length (concat cs) + length c) s) = map Some c" by simp
  then show ?thesis by (simp add: drop_take)
qed

lemma take_all_but_last_chunk:
  "take (length (concat (cs @ [c]))) s = map Some (concat (cs @ [c])) \<Longrightarrow>
   take (length (concat cs)) s = map Some (concat cs)"
proof -
  assume a: "take (length (concat (cs @ [c]))) s = map Some (concat (cs @ [c]))"
  then have "take (length (concat cs)) (take (length (concat (cs @ [c]))) s) = map Some (concat cs)" by simp
  then show ?thesis by (simp add: min_def)
qed

lemma logits_get_holds:
  assumes "storage st = Some s" "holds s (logits_indices st) cs"
  shows "cs \<noteq> [] \<Longrightarrow> logits_get True False st = Some (map Some (concat cs))"
    and "cs \<noteq> [] \<Longrightarrow> logits_get False False st = Some (map Some (last cs))"
    and "logits_get True True st = (if 2 \<le> length cs then Some (map Some (concat (butlast cs))) else None)"
proof -
  have t: "take (length (concat cs)) s = map Some (concat cs)" and i: "logits_indices st = ranges 0 cs"
    using assms(2) by (simp_all add: holds_def)
  show "logits_get True False st = Some (map Some (concat cs))" if "cs \<noteq> []"
  proof -
    from that obtain ds c where cs: "cs = ds @ [c]" by (metis rev_exhaust)
    have "nat (int (length (concat ds)) + int (length c)) = length (concat cs)" by (simp add: cs nat_add_distrib)
    then show ?thesis using assms(1) t by (simp add: logits_get_def i cs ranges_snoc)
  qed
  show "logits_get False False st = Some (map Some (last cs))" if "cs \<noteq> []"
  proof -
    from that obtain ds c where cs: "cs = ds @ [c]" by (metis rev_exhaust)
    show ?thesis using assms(1) take_drop_last_chunk[OF t[unfolded cs]] by (simp add: logits_get_def i cs ranges_snoc)
  qed
  show "logits_get True True st = (if 2 \<le> length cs then Some (map Some (concat (butlast cs))) else None)"
  proof (cases "2 \<le> length cs")
    case True
    then obtain ds c where ds: "cs = ds @ [c]" by (cases cs rule: rev_cases) auto
    with True have "ds \<noteq> []" by auto
    then obtain es d where "ds = es @ [d]" by (metis rev_exhaust)
    with ds have cs: "cs = es @ [d, c]" by simp
    have "ranges 0 cs = ranges 0 es @ [(int (length (concat es)), int (length (concat es)) + int (length d)),
        (int (length (concat (es @ [d]))), int (length (concat (es @ [d]))) + int (length c))]"
      using ranges_snoc[of 0 "es @ [d]" c] ranges_snoc[of 0 es d] by (simp add: cs)
    moreover have "nat (int (length (concat es)) + int (length d)) = length (concat (es @ [d]))" by (simp add: nat_add_distrib)
    moreover have "take (length (concat (es @ [d]))) s = map Some (concat (es @ [d]))"
      using take_all_but_last_chunk[of "es @ [d]" c s] t by (simp add: cs)
    ultimately show ?thesis using assms(1) by (simp add: logits_get_def i cs butlast_append)
  next
    case False
    then show ?thesis using assms(1) by (simp add: logits_get_def i)
  qed
qed

fun push_all :: "('t \<Rightarrow> 's \<Rightarrow> unit result \<times> 's) \<Rightarrow> 't list \<Rightarrow> 's \<Rightarrow> unit result \<times> 's" where
  "push_all push [] st = (Inr (), st)"
| "push_all push (t # ts) st = (case push t st of (Inl e, st') \<Rightarrow> (Inl e, st') | (Inr _, st') \<Rightarrow> push_all push ts st')"

abbreviation append_all :: "'r copy_fn \<Rightarrow> 'r logits list \<Rightarrow> 'r logits_storage \<Rightarrow> unit result \<times> 'r logits_storage" where
  "append_all copy \<equiv> push_all (logits_append copy)"

text \<open>
  The contract that the ways of storing logits share: a state of bounded capacity that represents a value, and a
  \<open>push\<close> that extends the value by an accepted element while there is room.
\<close>

locale bounded_log =
  fixes represents :: "'s \<Rightarrow> 'c \<Rightarrow> bool" and push :: "'t \<Rightarrow> 's \<Rightarrow> unit result \<times> 's"
    and extend :: "'t \<Rightarrow> 'c \<Rightarrow> 'c" and used :: "'c \<Rightarrow> int" and accepts :: "'t \<Rightarrow> bool" and capacity :: "'s \<Rightarrow> int"
  assumes push_extends: "represents st c \<Longrightarrow> accepts t \<Longrightarrow> used (extend t c) \<le> capacity st \<Longrightarrow>
      \<exists>st'. push t st = (Inr (), st') \<and> represents st' (extend t c) \<and> capacity st' = capacity st"
    and used_grows: "used c \<le> used (extend t c)"
begin

lemma used_fold: "used c \<le> used (fold extend ts c)"
  using used_grows by (induction ts arbitrary: c) (auto intro: order_trans)

lemma push_all_extends:
  assumes "represents st c" "list_all accepts ts" "used (fold extend ts c) \<le> capacity st"
  shows "\<exists>st'. push_all push ts st = (Inr (), st') \<and> represents st' (fold extend ts c) \<and> capacity st' = capacity st"
  using assms
proof (induction ts arbitrary: st c)
  case (Cons t ts)
  have "used (extend t c) \<le> capacity st" using Cons.prems(3) used_fold[of "extend t c" ts] by simp
  with push_extends[of st c t] Cons.prems obtain st' where
    "push t st = (Inr (), st')" "represents st' (extend t c)" "capacity st' = capacity st" by auto
  with Cons.IH[of st' "extend t c"] Cons.prems show ?case by simp
qed simp

end

definition direct_ok :: "int \<Rightarrow> 'r logits_storage \<Rightarrow> 'r list list \<Rightarrow> bool" where
  \<comment> \<open>a storage without chunks of transfer, at beam width \<open>b\<close>, that holds the chunks \<open>cs\<close>\<close>
  "direct_ok b st cs \<longleftrightarrow> \<not> use_chunked st \<and> ls_beam_width st = b \<and>
     (\<exists>s. storage st = Some s \<and> length s = nat (seq_length st) \<and> holds s (logits_indices st) cs)"

lemma direct_append:
  assumes copy: "copy_spec copy" and st: "direct_ok b st cs" and l: "lt_ndim l = 3" "lt_beam l = b" "b \<noteq> - 1"
  shows "if int (length (concat cs)) + int (length (lt_rows l)) \<le> seq_length st
    then \<exists>st'. logits_append copy l st = (Inr (), st') \<and> direct_ok b st' (cs @ [lt_rows l]) \<and> seq_length st' = seq_length st
    else logits_append copy l st = (Inl ValueError, st)"
proof -
  from st obtain s where s: "storage st = Some s" "length s = nat (seq_length st)" "holds s (logits_indices st) cs"
    and b: "ls_beam_width st = b" "\<not> use_chunked st" by (auto simp: direct_ok_def)
  let ?p = "int (length (concat cs))" and ?n = "int (length (lt_rows l))"
  have pos: "(if logits_indices st = [] then 0 else snd (last (logits_indices st))) = ?p" using holds_end[OF s(3)] .
  show ?thesis
  proof (cases "?p + ?n \<le> seq_length st")
    case True
    then have "length (concat cs) + length (lt_rows l) \<le> length s" using s(2) by linarith
    from store_slice_holds[OF copy s(3) this] obtain s' where
      s': "store_slice copy ?p (?p + ?n) (lt_rows l) s = Inr s'" "length s' = length s"
      "holds s' (logits_indices st @ [(?p, ?p + ?n)]) (cs @ [lt_rows l])" by blast
    then have "logits_append copy l st = (Inr (), st\<lparr>storage := Some s', logits_indices := logits_indices st @ [(?p, ?p + ?n)]\<rparr>)"
      using True s(1) b l pos by (simp add: logits_append_def Let_def add.commute split del: if_split)
    then show ?thesis using True s' s(2) b by (simp add: direct_ok_def)
  next
    case False
    then have "logits_append copy l st = (Inl ValueError, st)"
      using s(1) b l pos by (simp add: logits_append_def Let_def add.commute split del: if_split)
    then show ?thesis using False by simp
  qed
qed

lemma fold_extend_rows: "fold (\<lambda>l cs. cs @ [lt_rows l]) ls cs = cs @ map lt_rows ls"
  by (induction ls arbitrary: cs) auto

interpretation direct_log: bounded_log "\<lambda>st cs. copy_spec copy \<and> direct_ok b st cs" "logits_append copy"
  "\<lambda>(l :: 'r logits) cs. cs @ [lt_rows l]" "\<lambda>cs. int (length (concat cs))" "\<lambda>l :: 'r logits. lt_ndim l = 3 \<and> lt_beam l = b \<and> b \<noteq> - 1" seq_length
  for copy :: "'r copy_fn" and b :: int
proof
  fix st :: "'r logits_storage" and cs and l :: "'r logits"
  assume "copy_spec copy \<and> direct_ok b st cs" "lt_ndim l = 3 \<and> lt_beam l = b \<and> b \<noteq> - 1"
    "int (length (concat (cs @ [lt_rows l]))) \<le> seq_length st"
  with direct_append[of copy b st cs l]
  show "\<exists>st'. logits_append copy l st = (Inr (), st') \<and> (copy_spec copy \<and> direct_ok b st' (cs @ [lt_rows l])) \<and> seq_length st' = seq_length st"
    by auto
qed simp

text \<open>The first tensor allocates the storage; from then on it behaves as an empty one that is allocated.\<close>

lemma first_append:
  fixes seq_len k :: int and extra :: bool
  assumes "lt_ndim l = 3" "lt_beam l \<noteq> - 1"
  defines "st0 \<equiv> logits_storage_init seq_len extra False k"
  shows "logits_append copy l st0 = logits_append copy l (ls_init l st0)" "direct_ok (lt_beam l) (ls_init l st0) []"
  using assms by (simp_all add: logits_append_def ls_init_def logits_storage_init_def direct_ok_def holds_def Let_def)

section \<open>Chunked transfer\<close>

text \<open>
  In chunked mode the rows wait in \<open>device_fragments\<close> until \<open>chunk_size\<close> of them are there. For tensors of one row,
  as generation produces them, the state after any number of them holds groups of \<open>chunk_size\<close> rows.
\<close>

fun groups :: "nat \<Rightarrow> 'r list \<Rightarrow> 'r list list" where
  "groups n xs = (if n = 0 \<or> length xs < n then [] else take n xs # groups n (drop n xs))"

declare groups.simps [simp del]

definition full_rows :: "nat \<Rightarrow> 'r list \<Rightarrow> nat" where
  \<comment> \<open>the rows of the full groups\<close>
  "full_rows n xs = length xs div n * n"

lemma groups_snoc:
  assumes "0 < n"
  shows "groups n (xs @ [x]) = (if Suc (length xs) mod n = 0 then groups n xs @ [drop (full_rows n xs) (xs @ [x])] else groups n xs)"
  using assms
proof (induction n xs rule: groups.induct)
  case (1 n xs)
  show ?case
  proof (cases "length xs < n")
    case True
    show ?thesis
    proof (cases "Suc (length xs) = n")
      case True
      then show ?thesis using \<open>length xs < n\<close> by (simp add: groups.simps full_rows_def)
    next
      case False
      then have "Suc (length xs) < n" using True by simp
      then show ?thesis by (simp add: groups.simps)
    qed
  next
    case False
    then have len: "length (drop n xs) = length xs - n" "n \<le> length xs" by simp_all
    have m: "Suc (length xs - n) mod n = Suc (length xs) mod n"
      using len(2) by (metis Suc_diff_le mod_add_self2 le_add_diff_inverse2 le_SucI)
    have "full_rows n (drop n xs) + n = full_rows n xs"
      using len(2) 1(2) by (simp add: full_rows_def le_div_geq)
    then have d: "drop (full_rows n (drop n xs)) (drop n xs @ [x]) = drop (full_rows n xs) (xs @ [x])"
      using len(2) by (metis (no_types, lifting) drop_append drop_drop diff_is_0_eq drop_0)
    have "groups n (xs @ [x]) = take n xs # groups n (drop n xs @ [x])"
      using False 1(2) by (subst groups.simps) simp
    moreover have "groups n xs = take n xs # groups n (drop n xs)" using False 1(2) by (subst groups.simps) simp
    ultimately show ?thesis using 1(1)[of] 1(2) False m d by simp
  qed
qed

lemma concat_groups: "0 < n \<Longrightarrow> concat (groups n xs) = take (full_rows n xs) xs"
proof (induction n xs rule: groups.induct)
  case (1 n xs)
  show ?case
  proof (cases "length xs < n")
    case True
    then show ?thesis by (simp add: groups.simps full_rows_def)
  next
    case False
    then have "full_rows n xs = n + full_rows n (drop n xs)" using 1(2) by (simp add: full_rows_def le_div_geq)
    moreover have "groups n xs = take n xs # groups n (drop n xs)" using False 1(2) by (subst groups.simps) simp
    ultimately show ?thesis using 1(1) 1(2) False by (simp add: take_add)
  qed
qed

definition chunked_ok :: "'r logits_storage \<Rightarrow> 'r list \<Rightarrow> bool" where
  "chunked_ok st rows \<longleftrightarrow> use_chunked st \<and> 0 < chunk_size st \<and> ls_beam_width st \<noteq> - 1 \<and>
     (let n = nat (chunk_size st) in
      current_position st = int (full_rows n rows)
      \<and> concat (map lt_rows (device_fragments st)) = drop (full_rows n rows) rows
      \<and> list_all (\<lambda>l. length (lt_rows l) = 1) (device_fragments st)
      \<and> (\<exists>s. storage st = Some s \<and> length s = nat (seq_length st) \<and> holds s (logits_indices st) (groups n rows)))"

lemma length_concat_ones: "list_all (\<lambda>l. length (lt_rows l) = 1) ls \<Longrightarrow> length (concat (map lt_rows ls)) = length ls"
  by (induction ls) auto

lemma full_rows_le: "full_rows n xs \<le> length xs"
  by (simp add: full_rows_def)


lemma transfer_holds:
  assumes copy: "copy_spec copy" and s: "storage st = Some s" "holds s (logits_indices st) gs"
    and pos: "current_position st = int (length (concat gs))" and ne: "device_fragments st \<noteq> []"
    and one: "list_all (\<lambda>l. length (lt_rows l) = 1) (device_fragments st)"
    and room: "length (concat gs) + length (device_fragments st) \<le> length s"
  obtains s' where "transfer_chunk_to_host copy st = (Inr (), st\<lparr>storage := Some s',
      logits_indices := logits_indices st @ [(current_position st, current_position st + int (length (device_fragments st)))],
      current_position := current_position st + int (length (device_fragments st)), device_fragments := []\<rparr>)"
    "length s' = length s"
    "holds s' (logits_indices st @ [(current_position st, current_position st + int (length (device_fragments st)))])
       (gs @ [concat (map lt_rows (device_fragments st))])"
proof -
  let ?c = "concat (map lt_rows (device_fragments st))"
  have len: "length ?c = length (device_fragments st)" using length_concat_ones[OF one] .
  obtain s' where "store_slice copy (int (length (concat gs))) (int (length (concat gs)) + int (length ?c)) ?c s = Inr s'"
    "length s' = length s" "holds s' (logits_indices st @ [(int (length (concat gs)), int (length (concat gs)) + int (length ?c))]) (gs @ [?c])"
    using store_slice_holds[OF copy s(2), of ?c] room unfolding len by blast
  then show ?thesis using that[of s'] s(1) ne unfolding len pos transfer_chunk_to_host_def by (simp add: Let_def pos)
qed

lemma length_groups_concat: "0 < n \<Longrightarrow> length (concat (groups n xs)) = full_rows n xs"
  using full_rows_le[of n xs] by (simp add: concat_groups)

lemma chunked_append:
  assumes copy: "copy_spec copy" and st: "chunked_ok st rows" and l: "lt_ndim l = 3" "lt_rows l = [r]"
    and room: "int (length rows) + 1 \<le> seq_length st"
  shows "\<exists>st'. logits_append copy l st = (Inr (), st') \<and> chunked_ok st' (rows @ [r])
    \<and> seq_length st' = seq_length st \<and> chunk_size st' = chunk_size st"
proof -
  let ?n = "nat (chunk_size st)" and ?f = "device_fragments st"
  from st obtain s where C: "use_chunked st" "0 < chunk_size st" "ls_beam_width st \<noteq> - 1"
    "current_position st = int (full_rows ?n rows)" "concat (map lt_rows ?f) = drop (full_rows ?n rows) rows"
    "list_all (\<lambda>l. length (lt_rows l) = 1) ?f" "storage st = Some s" "length s = nat (seq_length st)"
    "holds s (logits_indices st) (groups ?n rows)" by (auto simp: chunked_ok_def Let_def)
  have n: "0 < ?n" using C(2) by simp
  have lf: "length ?f = length rows mod ?n"
    using length_concat_ones[OF C(6)] C(5) by (simp add: full_rows_def minus_div_mult_eq_mod)
  define st1 where "st1 = st\<lparr>device_fragments := ?f @ [l]\<rparr>"
  have ap: "logits_append copy l st = (if int (length (device_fragments st1)) = chunk_size st1
      then transfer_chunk_to_host copy st1 else (Inr (), st1))"
    using C(1,3) l(1) by (simp add: logits_append_def add_fragment_def st1_def Let_def)
  have full: "int (length (device_fragments st1)) = chunk_size st1 \<longleftrightarrow> Suc (length rows) mod ?n = 0"
    using n lf mod_Suc[of "length rows" ?n] by (auto simp: st1_def)
  have rest: "concat (map lt_rows (device_fragments st1)) = drop (full_rows ?n rows) (rows @ [r])"
    using C(5) l(2) full_rows_le[of ?n rows] by (simp add: st1_def)
  have one: "list_all (\<lambda>l. length (lt_rows l) = 1) (device_fragments st1)" using C(6) l(2) by (simp add: st1_def)
  show ?thesis
  proof (cases "Suc (length rows) mod ?n = 0")
    case False
    then have "full_rows ?n (rows @ [r]) = full_rows ?n rows" by (simp add: full_rows_def div_Suc)
    then have "chunked_ok st1 (rows @ [r])"
      using C(1-4,7-9) rest one False groups_snoc[OF n, of rows r] by (simp add: chunked_ok_def Let_def st1_def)
    then show ?thesis using ap full False by (auto simp: st1_def)
  next
    case True
    have sz: "length (device_fragments st1) = ?n" using full True C(2) by (simp add: st1_def)
    have fr: "full_rows ?n (rows @ [r]) = full_rows ?n rows + ?n" using True by (simp add: full_rows_def div_Suc)
    have "Suc (length rows) \<le> length s" using room C(8) by linarith
    then have "length (concat (groups ?n rows)) + length (device_fragments st1) \<le> length s"
      using length_groups_concat[OF n, of rows] sz fr full_rows_le[of ?n "rows @ [r]"] by simp
    moreover have "storage st1 = Some s" "holds s (logits_indices st1) (groups ?n rows)"
      "current_position st1 = int (length (concat (groups ?n rows)))" "device_fragments st1 \<noteq> []"
      using C(4,7,9) length_groups_concat[OF n, of rows] by (simp_all add: st1_def)
    ultimately obtain s' where t: "transfer_chunk_to_host copy st1 = (Inr (), st1\<lparr>storage := Some s',
        logits_indices := logits_indices st1 @ [(current_position st1, current_position st1 + int (length (device_fragments st1)))],
        current_position := current_position st1 + int (length (device_fragments st1)), device_fragments := []\<rparr>)"
      "length s' = length s" "holds s' (logits_indices st1 @ [(current_position st1, current_position st1 + int (length (device_fragments st1)))])
         (groups ?n rows @ [drop (full_rows ?n rows) (rows @ [r])])"
      using transfer_holds[OF copy _ _ _ _ one, of s "groups ?n rows"] rest by metis
    have "full_rows ?n (rows @ [r]) = length (rows @ [r])" using True by (auto simp: full_rows_def)
    then have "drop (full_rows ?n (rows @ [r])) (rows @ [r]) = []" by simp
    then have "chunked_ok (snd (transfer_chunk_to_host copy st1)) (rows @ [r])"
      using C(1-4,8) t fr sz True groups_snoc[OF n, of rows r] by (simp add: chunked_ok_def Let_def st1_def)
    then show ?thesis using ap full True t(1) by (auto simp: st1_def)
  qed
qed

definition final_chunks :: "nat \<Rightarrow> 'r list \<Rightarrow> 'r list list" where
  \<comment> \<open>the groups of rows after the last transfer\<close>
  "final_chunks n rows = groups n rows @ (if length rows mod n = 0 then [] else [drop (full_rows n rows) rows])"

lemma length_in_groups: "0 < n \<Longrightarrow> g \<in> set (groups n xs) \<Longrightarrow> length g = n"
proof (induction n xs rule: groups.induct)
  case (1 n xs)
  show ?case
  proof (cases "length xs < n")
    case True
    with 1(3) show ?thesis by (simp add: groups.simps)
  next
    case False
    with 1(2) have "groups n xs = take n xs # groups n (drop n xs)" by (subst groups.simps) simp
    with 1 False show ?thesis by auto
  qed
qed

lemma concat_final_chunks:
  assumes "0 < n" shows "concat (final_chunks n rows) = rows"
proof (cases "length rows mod n = 0")
  case True
  then have "full_rows n rows = length rows" by (auto simp: full_rows_def)
  with True assms show ?thesis by (simp add: final_chunks_def concat_groups)
qed (simp add: final_chunks_def concat_groups[OF assms])

lemma final_chunks_butlast:
  assumes n: "0 < n" and ne: "rows \<noteq> []"
  shows "concat (butlast (final_chunks n rows)) = take ((length rows - 1) div n * n) rows"
    and "2 \<le> length (final_chunks n rows) \<longleftrightarrow> n < length rows"
proof -
  let ?cs = "final_chunks n rows"
  have cne: "?cs \<noteq> []" using concat_final_chunks[OF n, of rows] ne by auto
  have last: "length rows - length (last ?cs) = (length rows - 1) div n * n \<and> length (last ?cs) \<le> n \<and> 0 < length (last ?cs)"
  proof (cases "length rows mod n = 0")
    case True
    then have "?cs = groups n rows" by (simp add: final_chunks_def)
    then have "length (last ?cs) = n" using length_in_groups[OF n, of "last ?cs" rows] cne by simp
    moreover obtain k where k: "length rows = Suc k * n" using True ne by (metis length_0_conv mod_0_imp_dvd dvdE mult.commute mult_0 not0_implies_Suc)
    have "(Suc k * n - 1) div n = k" using n by (intro div_nat_eqI) (simp_all add: mult.commute)
    ultimately show ?thesis using n k by simp
  next
    case False
    then have "last ?cs = drop (full_rows n rows) rows" by (simp add: final_chunks_def)
    then have "length (last ?cs) = length rows mod n" by (simp add: full_rows_def minus_div_mult_eq_mod)
    moreover have "(length rows - 1) div n = length rows div n"
      using False ne by (cases "length rows") (auto simp: div_Suc split: if_splits)
    ultimately show ?thesis using False n by (simp add: minus_mod_eq_div_mult less_imp_le)
  qed
  have split: "rows = concat (butlast ?cs) @ last ?cs"
    using concat_final_chunks[OF n, of rows] cne by (metis append_butlast_last_id concat_append concat.simps append_Nil2)
  then have "concat (butlast ?cs) = take (length rows - length (last ?cs)) rows"
    by (metis append_eq_conv_conj length_append add_diff_cancel_right')
  then show "concat (butlast ?cs) = take ((length rows - 1) div n * n) rows" using last by simp
  have "2 \<le> length ?cs \<longleftrightarrow> butlast ?cs \<noteq> []" using cne by (cases ?cs rule: rev_cases) (auto simp: Suc_le_eq)
  also have "\<dots> \<longleftrightarrow> concat (butlast ?cs) \<noteq> []"
  proof -
    have "g \<noteq> []" if "g \<in> set (butlast ?cs)" for g
    proof -
      have "g \<in> set (groups n rows)" using that by (auto simp: final_chunks_def butlast_append dest: in_set_butlastD split: if_splits)
      then show ?thesis using length_in_groups[OF n] n by fastforce
    qed
    then show ?thesis by (cases "butlast ?cs") auto
  qed
  also have "\<dots> \<longleftrightarrow> length (last ?cs) < length rows" using arg_cong[OF split, of length] by auto
  also have "\<dots> \<longleftrightarrow> n < length rows"
  proof
    assume "length (last ?cs) < length rows"
    then have "0 < (length rows - 1) div n * n" using last by linarith
    then have "n \<le> length rows - 1" by (metis div_less less_irrefl_nat linorder_not_less mult_0)
    then show "n < length rows" using ne by (cases rows) auto
  qed (use last in linarith)
  finally show "2 \<le> length ?cs \<longleftrightarrow> n < length rows" .
qed

lemma finalize_holds:
  assumes copy: "copy_spec copy" and st: "chunked_ok st rows" and room: "int (length rows) \<le> seq_length st"
  shows "\<exists>st' s. finalize_chunked_transfer copy st = (Inr (), st') \<and> storage st' = Some s
    \<and> holds s (logits_indices st') (final_chunks (nat (chunk_size st)) rows)"
proof -
  let ?n = "nat (chunk_size st)" and ?f = "device_fragments st"
  from st obtain s where C: "use_chunked st" "0 < chunk_size st"
    "current_position st = int (full_rows ?n rows)" "concat (map lt_rows ?f) = drop (full_rows ?n rows) rows"
    "list_all (\<lambda>l. length (lt_rows l) = 1) ?f" "storage st = Some s" "length s = nat (seq_length st)"
    "holds s (logits_indices st) (groups ?n rows)" by (auto simp: chunked_ok_def Let_def)
  have n: "0 < ?n" using C(2) by simp
  have lf: "length ?f = length rows mod ?n"
    using length_concat_ones[OF C(5)] C(4) by (simp add: full_rows_def minus_div_mult_eq_mod)
  show ?thesis
  proof (cases "length rows mod ?n = 0")
    case True
    then show ?thesis using lf C by (simp add: finalize_chunked_transfer_def final_chunks_def)
  next
    case False
    then have ne: "?f \<noteq> []" using lf by auto
    have "length rows \<le> length s" using room C(7) by linarith
    moreover have "full_rows ?n rows + length rows mod ?n = length rows" by (simp add: full_rows_def)
    ultimately have "length (concat (groups ?n rows)) + length ?f \<le> length s"
      using length_groups_concat[OF n, of rows] lf by simp
    moreover have "current_position st = int (length (concat (groups ?n rows)))"
      using C(3) length_groups_concat[OF n, of rows] by simp
    ultimately obtain s' where t: "transfer_chunk_to_host copy st = (Inr (), st\<lparr>storage := Some s',
        logits_indices := logits_indices st @ [(current_position st, current_position st + int (length ?f))],
        current_position := current_position st + int (length ?f), device_fragments := []\<rparr>)"
      "holds s' (logits_indices st @ [(current_position st, current_position st + int (length ?f))])
         (groups ?n rows @ [drop (full_rows ?n rows) rows])"
      using transfer_holds[OF copy C(6,8) _ ne C(5)] C(4) by metis
    then show ?thesis using C(1) ne False by (simp add: finalize_chunked_transfer_def final_chunks_def)
  qed
qed

lemma fold_extend_concat: "fold (\<lambda>l rows. rows @ lt_rows l) ls rows = rows @ concat (map lt_rows ls)"
  by (induction ls arbitrary: rows) auto

interpretation chunked_log: bounded_log "\<lambda>st rows. copy_spec copy \<and> chunked_ok st rows \<and> chunk_size st = k" "logits_append copy"
  "\<lambda>(l :: 'r logits) rows. rows @ lt_rows l" "\<lambda>rows. int (length rows)" "\<lambda>l :: 'r logits. lt_ndim l = 3 \<and> length (lt_rows l) = 1" seq_length
  for copy :: "'r copy_fn" and k :: int
proof
  fix st :: "'r logits_storage" and rows and l :: "'r logits"
  assume a: "copy_spec copy \<and> chunked_ok st rows \<and> chunk_size st = k" "lt_ndim l = 3 \<and> length (lt_rows l) = 1"
    "int (length (rows @ lt_rows l)) \<le> seq_length st"
  then obtain r where "lt_rows l = [r]" by (auto simp: length_Suc_conv)
  with a chunked_append[of copy st rows l r]
  show "\<exists>st'. logits_append copy l st = (Inr (), st') \<and> (copy_spec copy \<and> chunked_ok st' (rows @ lt_rows l) \<and> chunk_size st' = k)
      \<and> seq_length st' = seq_length st" by auto
qed simp

text \<open>In chunked mode too the first tensor allocates the storage.\<close>

lemma first_chunked_append:
  fixes seq_len k :: int and extra :: bool
  assumes "lt_ndim l = 3" "lt_beam l \<noteq> - 1" "0 < k"
  defines "st0 \<equiv> logits_storage_init seq_len extra True k"
  shows "logits_append copy l st0 = logits_append copy l (ls_init l st0)" "chunked_ok (ls_init l st0) []"
    "chunk_size (ls_init l st0) = k" "seq_length (ls_init l st0) = (if extra then seq_len + 1 else seq_len)"
  using assms by (simp_all add: logits_append_def ls_init_def logits_storage_init_def chunked_ok_def holds_def Let_def
      full_rows_def groups.simps)

lemma chunked_from_init:
  assumes copy: "copy_spec copy" and ls: "ls \<noteq> []" "list_all (\<lambda>l. lt_ndim l = 3 \<and> lt_beam l = b \<and> length (lt_rows l) = 1) ls"
    and b: "b \<noteq> - 1" and k: "0 < k" and room: "int (length ls) \<le> (if extra then seq_len + 1 else seq_len)"
  shows "\<exists>st. append_all copy ls (logits_storage_init seq_len extra True k) = (Inr (), st)
    \<and> chunked_ok st (concat (map lt_rows ls)) \<and> seq_length st = (if extra then seq_len + 1 else seq_len) \<and> chunk_size st = k"
proof -
  let ?st0 = "logits_storage_init seq_len extra True k"
  obtain l ls' where l: "ls = l # ls'" using ls(1) by (cases ls) auto
  then have "lt_ndim l = 3" "lt_beam l \<noteq> - 1" using ls(2) b by auto
  note f = first_chunked_append[OF this k, where seq_len = seq_len and extra = extra]
  have "append_all copy ls ?st0 = append_all copy ls (ls_init l ?st0)" by (simp add: l f(1))
  moreover have ok: "list_all (\<lambda>l. lt_ndim l = 3 \<and> length (lt_rows l) = 1) ls" "length (concat (map lt_rows ls)) = length ls"
    using ls(2) length_concat_ones[of ls] by (simp_all add: list_all_iff)
  have "\<exists>st'. append_all copy ls (ls_init l ?st0) = (Inr (), st')
      \<and> (copy_spec copy \<and> chunked_ok st' (fold (\<lambda>l rows. rows @ lt_rows l) ls []) \<and> chunk_size st' = k)
      \<and> seq_length st' = seq_length (ls_init l ?st0)"
    by (rule chunked_log.push_all_extends) (use copy f ok room in \<open>simp_all add: fold_extend_concat\<close>)
  ultimately show ?thesis unfolding f(4) fold_extend_concat append_Nil by metis
qed

lemma direct_from_init:
  assumes copy: "copy_spec copy" and ls: "ls \<noteq> []" "list_all (\<lambda>l. lt_ndim l = 3 \<and> lt_beam l = b) ls"
    and b: "b \<noteq> - 1" and room: "int (length (concat (map lt_rows ls))) \<le> (if extra then seq_len + 1 else seq_len)"
  shows "\<exists>st. append_all copy ls (logits_storage_init seq_len extra False k) = (Inr (), st)
    \<and> direct_ok b st (map lt_rows ls) \<and> seq_length st = (if extra then seq_len + 1 else seq_len)"
proof -
  let ?st0 = "logits_storage_init seq_len extra False k"
  obtain l ls' where l: "ls = l # ls'" using ls(1) by (cases ls) auto
  then have lb: "lt_ndim l = 3" "lt_beam l \<noteq> - 1" "lt_beam l = b" using ls(2) b by auto
  note f = first_append[OF lb(1,2), where seq_len = seq_len and extra = extra and k = k]
  have "append_all copy ls ?st0 = append_all copy ls (ls_init l ?st0)" by (simp add: l f(1))
  moreover have "seq_length (ls_init l ?st0) = (if extra then seq_len + 1 else seq_len)"
    by (simp add: ls_init_def logits_storage_init_def)
  moreover have "\<exists>st'. append_all copy ls (ls_init l ?st0) = (Inr (), st')
      \<and> (copy_spec copy \<and> direct_ok b st' (fold (\<lambda>l cs. cs @ [lt_rows l]) ls [])) \<and> seq_length st' = seq_length (ls_init l ?st0)"
    by (rule direct_log.push_all_extends)
      (use copy f(2)[unfolded lb(3)] ls(2) b room in \<open>simp_all add: fold_extend_rows list_all_iff ls_init_def logits_storage_init_def\<close>)
  ultimately show ?thesis unfolding fold_extend_rows append_Nil by metis
qed

lemma fold_append_generation:
  "generation_storage r = Some st \<Longrightarrow> append_all copy ls st = (Inr (), st') \<Longrightarrow>
   fold (\<lambda>l r. snd (append_generation_logits copy l r)) ls r = r\<lparr>generation_storage := Some st'\<rparr>"
proof (induction ls arbitrary: r st)
  case (Cons l ls)
  then obtain st1 where st1: "logits_append copy l st = (Inr (), st1)" "append_all copy ls st1 = (Inr (), st')"
    by (auto split: prod.splits sum.splits)
  then show ?case using Cons.IH[of "r\<lparr>generation_storage := Some st1\<rparr>" st1] Cons.prems(1)
    by (simp add: append_generation_logits_def)
qed simp

section \<open>Properties\<close>

text \<open>
  A direct logits storage. Tensors of one beam width whose rows fit are all stored; then \<open>get\<close> returns every
  row in order, or the rows of the last tensor, or, with \<open>exclude_last\<close>, every row but those of the last tensor
  (nothing when there is only one). A further tensor that does not fit raises and changes nothing.
\<close>

theorem logits_storage_contents:
  fixes ls :: "'r logits list" and k :: int
  assumes "copy_spec copy" "ls \<noteq> []" "list_all (\<lambda>l. lt_ndim l = 3 \<and> lt_beam l = b) ls" "b \<noteq> - 1"
    and "int (length (concat (map lt_rows ls))) \<le> (if extra then seq_len + 1 else seq_len)"
    and "lt_ndim m = 3" "lt_beam m = b"
    and "(if extra then seq_len + 1 else seq_len) < int (length (concat (map lt_rows ls))) + int (length (lt_rows m))"
  defines "st \<equiv> snd (append_all copy ls (logits_storage_init seq_len extra False k))"
  shows "fst (append_all copy ls (logits_storage_init seq_len extra False k)) = Inr ()
    \<and> logits_get True False st = Some (map Some (concat (map lt_rows ls)))
    \<and> logits_get False False st = Some (map Some (lt_rows (last ls)))
    \<and> logits_get True True st = (if 2 \<le> length ls then Some (map Some (concat (map lt_rows (butlast ls)))) else None)
    \<and> logits_append copy m st = (Inl ValueError, st)"
proof -
  from direct_from_init[OF assms(1-5), of k] obtain st' where
    r: "append_all copy ls (logits_storage_init seq_len extra False k) = (Inr (), st')"
    and ok: "direct_ok b st' (map lt_rows ls)" and sl: "seq_length st' = (if extra then seq_len + 1 else seq_len)" by blast
  have st: "st = st'" by (simp add: st_def r)
  from ok obtain s where s: "storage st = Some s" "holds s (logits_indices st) (map lt_rows ls)" by (auto simp: direct_ok_def st)
  note g = logits_get_holds[OF s]
  have "logits_append copy m st = (Inl ValueError, st)"
    using direct_append[OF assms(1) ok assms(6,7,4)] assms(8) sl st by (auto split: if_splits)
  then show ?thesis using g assms(2) r by (simp add: last_map map_butlast)
qed

definition lt :: "nat list \<Rightarrow> nat logits" where
  "lt rows = \<lparr>lt_ndim = 3, lt_beam = 1, lt_rows = rows\<rparr>"

lemma logits_storage_contents_witness:
  "logits_get True True (snd (append_all copy_ref [lt [1, 2], lt [3]] (logits_storage_init 3 False False 8)))
     = Some [Some 1, Some 2]"
  using logits_storage_contents[OF copy_ref_spec, of "[lt [1, 2], lt [3]]" 1 False 3 "lt [4]" 8]
  by (simp add: lt_def)

text \<open>
  The generation logits of a request that does not stream and transfers in chunks. After one row per step and the
  final transfer, the result returns every row; when the last row is to be left out it leaves out the
  whole last chunk: of \<open>n\<close> rows only the first \<open>((n - 1) div k) * k\<close> are returned, and nothing unless
  there are more than \<open>k\<close> of them.
\<close>

theorem chunked_generation_logits:
  fixes ls :: "'r logits list" and r0 :: "('r, 'p, 'f) py_result"
  assumes "copy_spec copy" "ls \<noteq> []" "list_all (\<lambda>l. lt_ndim l = 3 \<and> lt_beam l = b \<and> length (lt_rows l) = 1) ls" "b \<noteq> - 1"
    and "0 < k" "int (length ls) \<le> (if exclude then max_new + 1 else max_new)"
    and "py_result_init prompt_len max_new False lp ctx True exclude True k = Inr r0"
  defines "rows \<equiv> concat (map lt_rows ls)"
  defines "r1 \<equiv> fold (\<lambda>l r. snd (append_generation_logits copy l r)) ls r0"
  shows "fst (transfer_remaining_device_logits copy r1) = Inr ()
    \<and> generation_logits (snd (transfer_remaining_device_logits copy r1)) =
       (if \<not> exclude then Some (map Some rows)
        else if int (length ls) > k then Some (map Some (take ((length ls - 1) div nat k * nat k) rows)) else None)"
proof -
  let ?st0 = "logits_storage_init max_new exclude True k"
  from chunked_from_init[OF assms(1-6)] obtain st where st: "append_all copy ls ?st0 = (Inr (), st)"
    "chunked_ok st rows" "seq_length st = (if exclude then max_new + 1 else max_new)" "chunk_size st = k"
    unfolding rows_def by blast
  have r0: "generation_storage r0 = Some ?st0" "streaming r0 = False" "exclude_last_generation_logits r0 = exclude"
    using assms(7) by (auto simp: py_result_init_def py_assert_def)
  have r1: "r1 = r0\<lparr>generation_storage := Some st\<rparr>" unfolding r1_def by (rule fold_append_generation[OF r0(1) st(1)])
  have len: "length rows = length ls"
    unfolding rows_def by (rule length_concat_ones) (use assms(3) in \<open>simp add: list_all_iff\<close>)
  then have ne: "rows \<noteq> []" using assms(2) by auto
  from finalize_holds[OF assms(1) st(2)] st(3,4) assms(6) len obtain st' s where
    t: "finalize_chunked_transfer copy st = (Inr (), st')" "storage st' = Some s"
      "holds s (logits_indices st') (final_chunks (nat k) rows)" by auto
  have n: "0 < nat k" using assms(5) by simp
  note g = logits_get_holds[OF t(2,3)]
  have "final_chunks (nat k) rows \<noteq> []" using concat_final_chunks[OF n, of rows] ne by auto
  then have "logits_get True False st' = Some (map Some rows)" using g(1) concat_final_chunks[OF n] by simp
  moreover have "logits_get True True st' = (if int (length ls) > k then Some (map Some (take ((length ls - 1) div nat k * nat k) rows)) else None)"
  proof -
    have "nat k < length ls \<longleftrightarrow> k < int (length ls)" using assms(5) by linarith
    then show ?thesis using g(3) final_chunks_butlast[OF n ne] len by simp
  qed
  ultimately show ?thesis
    using t(1) r0(2,3) by (simp add: r1 transfer_remaining_device_logits_def generation_logits_def)
qed

lemma chunked_generation_logits_witness:
  "\<exists>r0. py_result_init 5 4 False False False True True True 2 = Inr r0
    \<and> generation_logits (snd (transfer_remaining_device_logits copy_ref
         (fold (\<lambda>l r. snd (append_generation_logits copy_ref l r)) [lt [1], lt [2], lt [3], lt [4]]
            (r0 :: (nat, nat, nat) py_result)))) = Some [Some 1, Some 2]"
proof -
  obtain r0 :: "(nat, nat, nat) py_result" where r0: "py_result_init 5 4 False False False True True True 2 = Inr r0"
    by (simp add: py_result_init_def py_assert_def)
  show ?thesis
    using chunked_generation_logits[OF copy_ref_spec _ _ _ _ _ r0, of "[lt [1], lt [2], lt [3], lt [4]]" 1] r0
    by (simp add: lt_def)
qed

fun cut_words :: "int \<Rightarrow> int list \<Rightarrow> int list \<Rightarrow> int list list" where
  "cut_words p tokens [] = []"
| "cut_words p tokens (o1 # os) = take (nat (o1 - p)) tokens # cut_words o1 (drop (nat (o1 - p)) tokens) os"

fun end_offsets :: "int \<Rightarrow> int list list \<Rightarrow> int list" where
  "end_offsets p [] = []"
| "end_offsets p (w # ws) = (p + int (length w)) # end_offsets (p + int (length w)) ws"

lemma wordlist_loop_eq: "wordlist_loop ws ts os p = (ts @ concat ws, os @ end_offsets p ws)"
  by (induction ws arbitrary: ts os p) auto

lemma end_offsets_ge: "x \<in> set (end_offsets p ws) \<Longrightarrow> p \<le> x"
  by (induction ws arbitrary: p) (auto, fastforce)

lemma length_end_offsets [simp]: "length (end_offsets p ws) = length ws"
  by (induction ws arbitrary: p) auto

lemma cut_end_offsets: "cut_words p (concat ws) (end_offsets p ws) = ws"
  by (induction ws arbitrary: p) auto

lemma length_le_concat: "list_all (\<lambda>w. w \<noteq> []) ws \<Longrightarrow> length ws \<le> length (concat ws)"
  by (induction ws) (auto simp: Suc_le_eq neq_Nil_conv)

text \<open>
  The word list format keeps the words. Cutting the token row at the offsets, up to the first -1, gives the word
  list back, and when no word is empty the two rows have the same length.
\<close>

theorem convert_wordlist_roundtrip:
  assumes "ws \<noteq> []"
  shows "\<exists>tokens offsets. convert_wordlist ws = [tokens, offsets]
    \<and> cut_words 0 tokens (takeWhile (\<lambda>x. x \<noteq> - 1) offsets) = ws
    \<and> (list_all (\<lambda>w. w \<noteq> []) ws \<longrightarrow> length offsets = length tokens)"
proof -
  let ?pad = "replicate (length (concat ws) - length ws) (- 1 :: int)"
  have c: "convert_wordlist ws = [concat ws, end_offsets 0 ws @ ?pad]"
    using assms by (simp add: convert_wordlist_def wordlist_loop_eq)
  have "x \<noteq> - 1" if "x \<in> set (end_offsets 0 ws)" for x using end_offsets_ge[OF that] by simp
  then have "takeWhile (\<lambda>x. x \<noteq> - 1) (end_offsets 0 ws @ ?pad) = end_offsets 0 ws @ takeWhile (\<lambda>x. x \<noteq> - 1) ?pad"
    by (intro takeWhile_append2) auto
  moreover have "takeWhile (\<lambda>x. x \<noteq> - 1) ?pad = []" by (cases "length (concat ws) - length ws") auto
  ultimately show ?thesis using c cut_end_offsets[of 0 ws] length_le_concat[of ws] by (auto simp del: replicate_eq_replicate)
qed

lemma convert_wordlist_roundtrip_witness:
  "\<exists>tokens offsets. convert_wordlist [[5, 7, 3], [9, 2], [6, 2, 4, 1]] = [tokens, offsets]
    \<and> tokens = [5, 7, 3, 9, 2, 6, 2, 4, 1] \<and> offsets = [3, 5, 9, - 1, - 1, - 1, - 1, - 1, - 1]
    \<and> cut_words 0 tokens (takeWhile (\<lambda>x. x \<noteq> - 1) offsets) = [[5, 7, 3], [9, 2], [6, 2, 4, 1]]"
  using convert_wordlist_roundtrip[of "[[5, 7, 3], [9, 2], [6, 2, 4, 1]]"]
  by (simp add: convert_wordlist_def)

end
