(* ===== verification/Handle_Logits.thy ===== *)
theory Handle_Logits
  imports Request_Results Llm_Request
begin

text \<open>
  \<open>HandleLogits.__call__\<close> (\<open>_torch/pyexecutor/handle_logits.py\<close>): the rows of one forward pass are cut up and
  appended to the results of the batch's requests, then the remaining device fragments are transferred.

  The tensor of a generation model is the list of its rows; that of an encoder model is one tensor per
  request. \<open>reshape\<close> stands for \<open>reshape(1, beam_width, -1)\<close> on a slice: with \<open>beam_width\<close> rows it gives one entry
  made of these rows (\<open>reshape_spec\<close>). A raise ends the call; what it had stored before is then not read.
\<close>

record ('v, 'p, 'f) logit_request =
  lr_state :: LlmRequestState
  py_return_context_logits :: bool
  py_return_generation_logits :: bool
  is_last_context_chunk :: bool
  py_use_chunked_generation_logits :: bool
  lr_result :: "('v list, 'p, 'f) py_result"

datatype 'v encoder_tensor = Dim1 'v | Dim2 "'v list"

datatype 'v model_logits = GenerationLogits "'v list" | EncoderLogits "'v encoder_tensor list"

type_synonym 'v reshape_fn = "int \<Rightarrow> 'v list \<Rightarrow> 'v list result"

definition store :: "(('v list, 'p, 'f) py_result \<Rightarrow> unit result \<times> ('v list, 'p, 'f) py_result) \<Rightarrow> ('v, 'p, 'f) logit_request
    \<Rightarrow> ('v, 'p, 'f) logit_request result" where
  \<comment> \<open>call a method of the request's \<open>py_result\<close>\<close>
  "store f r = (case f (lr_result r) of (Inl e, _) \<Rightarrow> Inl e | (Inr _, p) \<Rightarrow> Inr (r\<lparr>lr_result := p\<rparr>))"

fun encoder_rows :: "'v encoder_tensor \<Rightarrow> 'v list" where
  "encoder_rows (Dim1 v) = [v]"
| "encoder_rows (Dim2 vs) = vs"

definition context_view :: "'v list \<Rightarrow> 'v list logits" where
  "context_view vs = \<lparr>lt_ndim = 2, lt_beam = 1, lt_rows = map (\<lambda>v. [v]) vs\<rparr>"

definition beam_view :: "int \<Rightarrow> 'v list \<Rightarrow> 'v list logits" where
  \<comment> \<open>\<open>torch.tile(view, (1, beam_width, 1))\<close>, or \<open>view.unsqueeze(1)\<close> for one beam\<close>
  "beam_view beam vs =
     (if beam > 1 then \<lparr>lt_ndim = 3, lt_beam = int (length vs) * beam, lt_rows = [concat (replicate (nat beam) vs)]\<rparr>
      else \<lparr>lt_ndim = 3, lt_beam = 1, lt_rows = map (\<lambda>v. [v]) vs\<rparr>)"

fun encoder_loop :: "'v list copy_fn \<Rightarrow> ('v, 'p, 'f) logit_request list \<Rightarrow> 'v encoder_tensor list
    \<Rightarrow> ('v, 'p, 'f) logit_request list result" where
  "encoder_loop copy (r # rs) (t # ts) =
     res_bind (store (append_context_logits copy (context_view (encoder_rows t))) r) (\<lambda>r'.
     res_bind (encoder_loop copy rs ts) (\<lambda>rs'. Inr (r' # rs')))"
| "encoder_loop copy rs ts = Inr rs"

definition context_step :: "'v list copy_fn \<Rightarrow> 'v list \<Rightarrow> int \<Rightarrow> int list \<Rightarrow> nat \<Rightarrow> ('v, 'p, 'f) logit_request
    \<Rightarrow> ('v, 'p, 'f) logit_request result" where
  "context_step copy logits beam sums i r =
     res_bind (py_index sums (int i)) (\<lambda>logits_begin.
     res_bind (py_index sums (int i + 1)) (\<lambda>logits_end.
     res_bind (if py_return_context_logits r
               then store (append_context_logits copy (context_view (py_slice logits logits_begin logits_end))) r
               else Inr r) (\<lambda>r1.
     if py_return_generation_logits r1 \<and> is_last_context_chunk r1
     then store (append_generation_logits copy (beam_view beam (py_slice logits (logits_end - 1) logits_end))) r1
     else Inr r1)))"

fun context_loop :: "'v list copy_fn \<Rightarrow> 'v list \<Rightarrow> int \<Rightarrow> int list \<Rightarrow> nat \<Rightarrow> ('v, 'p, 'f) logit_request list
    \<Rightarrow> ('v, 'p, 'f) logit_request list result" where
  "context_loop copy logits beam sums i [] = Inr []"
| "context_loop copy logits beam sums i (r # rs) =
     res_bind (context_step copy logits beam sums i r) (\<lambda>r'.
     res_bind (context_loop copy logits beam sums (Suc i) rs) (\<lambda>rs'. Inr (r' # rs')))"

definition generation_step :: "'v list copy_fn \<Rightarrow> 'v reshape_fn \<Rightarrow> 'v list \<Rightarrow> int \<Rightarrow> int \<Rightarrow> nat \<Rightarrow> ('v, 'p, 'f) logit_request
    \<Rightarrow> ('v, 'p, 'f) logit_request result" where
  "generation_step copy reshape logits beam total_context_logits i r =
     (if lr_state r = GENERATION_COMPLETE then Inr r
      else
        let logits_begin = total_context_logits + int i * beam; logits_end = logits_begin + beam in
        if py_return_generation_logits r
        then res_bind (reshape beam (py_slice logits logits_begin logits_end)) (\<lambda>row.
          store (append_generation_logits copy \<lparr>lt_ndim = 3, lt_beam = beam, lt_rows = [row]\<rparr>) r)
        else Inr r)"

fun generation_loop :: "'v list copy_fn \<Rightarrow> 'v reshape_fn \<Rightarrow> 'v list \<Rightarrow> int \<Rightarrow> int \<Rightarrow> nat \<Rightarrow> ('v, 'p, 'f) logit_request list
    \<Rightarrow> ('v, 'p, 'f) logit_request list result" where
  "generation_loop copy reshape logits beam total_context_logits i [] = Inr []"
| "generation_loop copy reshape logits beam total_context_logits i (r # rs) =
     res_bind (generation_step copy reshape logits beam total_context_logits i r) (\<lambda>r'.
     res_bind (generation_loop copy reshape logits beam total_context_logits (Suc i) rs) (\<lambda>rs'. Inr (r' # rs')))"

definition transfer_step :: "'v list copy_fn \<Rightarrow> ('v, 'p, 'f) logit_request \<Rightarrow> ('v, 'p, 'f) logit_request result" where
  "transfer_step copy r =
     (if py_use_chunked_generation_logits r \<and> py_return_generation_logits r
      then store (transfer_remaining_device_logits copy) r else Inr r)"

definition handle_logits :: "'v list copy_fn \<Rightarrow> 'v reshape_fn \<Rightarrow> ('v, 'p, 'f) logit_request list \<Rightarrow> ('v, 'p, 'f) logit_request list
    \<Rightarrow> 'v model_logits \<Rightarrow> int \<Rightarrow> int list \<Rightarrow> (('v, 'p, 'f) logit_request list \<times> ('v, 'p, 'f) logit_request list) result" where
  "handle_logits copy reshape ctxs gens logits beam sums =
     (if \<not> list_ex (\<lambda>r. py_return_context_logits r \<or> py_return_generation_logits r) (ctxs @ gens) then Inr (ctxs, gens)
      else case logits of
        EncoderLogits ts \<Rightarrow> res_bind (encoder_loop copy ctxs ts) (\<lambda>ctxs'. Inr (ctxs', gens))
      | GenerationLogits rows \<Rightarrow>
          res_bind (context_loop copy rows beam sums 0 ctxs) (\<lambda>ctxs1.
          res_bind (py_index sums (- 1)) (\<lambda>total_context_logits.
          res_bind (generation_loop copy reshape rows beam total_context_logits 0 gens) (\<lambda>gens1.
          res_bind (res_map (transfer_step copy) ctxs1) (\<lambda>ctxs2.
          res_bind (res_map (transfer_step copy) gens1) (\<lambda>gens2. Inr (ctxs2, gens2)))))))"

section \<open>What one call stores\<close>

definition reshape_spec :: "'v reshape_fn \<Rightarrow> bool" where
  "reshape_spec reshape \<longleftrightarrow> (\<forall>n vs. int (length vs) = n \<longrightarrow> reshape n vs = Inr vs)"

definition reshape_ref :: "'v reshape_fn" where
  "reshape_ref n vs = (if int (length vs) = n then Inr vs else Inl RuntimeError)"

lemma reshape_ref_spec: "reshape_spec reshape_ref"
  by (simp add: reshape_spec_def reshape_ref_def)

text \<open>A chunked storage with nothing left on the device, which holds the chunks \<open>cs\<close>.\<close>

definition settled :: "int \<Rightarrow> 'r logits_storage \<Rightarrow> 'r list list \<Rightarrow> bool" where
  "settled b st cs \<longleftrightarrow> use_chunked st \<and> 0 < chunk_size st \<and> ls_beam_width st = b \<and> b \<noteq> - 1 \<and> device_fragments st = []
     \<and> current_position st = int (length (concat cs))
     \<and> (\<exists>s. storage st = Some s \<and> length s = nat (seq_length st) \<and> holds s (logits_indices st) cs)"

lemma settled_step:
  assumes copy: "copy_spec copy" and st: "settled b st cs" and room: "int (length (concat cs)) + 1 \<le> seq_length st"
    and l: "lt_ndim l = 3" "lt_rows l = [r]"
  obtains st1 st2 where "logits_append copy l st = (Inr (), st1)" "finalize_chunked_transfer copy st1 = (Inr (), st2)"
    "settled b st2 (cs @ [[r]])" "seq_length st2 = seq_length st" "chunk_size st2 = chunk_size st"
proof -
  from st obtain s where S: "use_chunked st" "0 < chunk_size st" "ls_beam_width st = b" "b \<noteq> - 1" "device_fragments st = []"
    "current_position st = int (length (concat cs))" "storage st = Some s" "length s = nat (seq_length st)"
    "holds s (logits_indices st) cs" by (auto simp: settled_def)
  define st0 where "st0 = st\<lparr>device_fragments := [l]\<rparr>"
  have "length (concat cs) + length (device_fragments st0) \<le> length s" using room S(8) by (simp add: st0_def)
  moreover have "storage st0 = Some s" "holds s (logits_indices st0) cs" "current_position st0 = int (length (concat cs))"
    "device_fragments st0 \<noteq> []" "list_all (\<lambda>l. length (lt_rows l) = 1) (device_fragments st0)"
    using S l by (simp_all add: st0_def)
  ultimately obtain s' where t: "transfer_chunk_to_host copy st0 = (Inr (), st0\<lparr>storage := Some s',
      logits_indices := logits_indices st0 @ [(current_position st0, current_position st0 + int (length (device_fragments st0)))],
      current_position := current_position st0 + int (length (device_fragments st0)), device_fragments := []\<rparr>)"
    "length s' = length s"
    "holds s' (logits_indices st0 @ [(current_position st0, current_position st0 + int (length (device_fragments st0)))])
       (cs @ [concat (map lt_rows (device_fragments st0))])"
    using transfer_holds[OF copy] by metis
  define st2 where "st2 = snd (transfer_chunk_to_host copy st0)"
  have 2: "settled b st2 (cs @ [[r]])" "seq_length st2 = seq_length st" "chunk_size st2 = chunk_size st"
    using t S l by (simp_all add: st2_def st0_def settled_def)
  have ap: "logits_append copy l st = (if chunk_size st = 1 then transfer_chunk_to_host copy st0 else (Inr (), st0))"
    using S l by (simp add: logits_append_def add_fragment_def st0_def Let_def)
  show ?thesis
  proof (cases "chunk_size st = 1")
    case True
    have "finalize_chunked_transfer copy st2 = (Inr (), st2)"
      using 2(1) by (simp add: finalize_chunked_transfer_def settled_def)
    moreover have "logits_append copy l st = (Inr (), st2)" using ap True t(1) by (simp add: st2_def)
    ultimately show ?thesis using that 2 by blast
  next
    case False
    have "finalize_chunked_transfer copy st0 = (Inr (), st2)"
      using S(1) t(1) by (simp add: finalize_chunked_transfer_def st2_def) (simp add: st0_def)
    then show ?thesis using that 2 ap False by auto
  qed
qed

text \<open>Before its first row, a storage is as good as a settled one that holds nothing.\<close>

definition fresh_storage :: "'r logits_storage \<Rightarrow> bool" where
  "fresh_storage st \<longleftrightarrow> use_chunked st \<and> 0 < chunk_size st \<and> ls_beam_width st = - 1 \<and> logits_indices st = []
     \<and> device_fragments st = [] \<and> current_position st = 0"

lemma fresh_init: "0 < k \<Longrightarrow> fresh_storage (logits_storage_init n extra True k)"
  by (simp add: fresh_storage_def logits_storage_init_def)

lemma first_settled:
  assumes "fresh_storage st" "lt_ndim l = 3" "lt_beam l \<noteq> - 1"
  shows "settled (lt_beam l) (ls_init l st) []" "logits_append copy l (ls_init l st) = logits_append copy l st"
    "seq_length (ls_init l st) = seq_length st"
  using assms by (simp_all add: fresh_storage_def logits_append_def ls_init_def settled_def holds_def Let_def)

definition filled :: "int \<Rightarrow> 'r logits_storage \<Rightarrow> 'r list list \<Rightarrow> bool" where
  "filled b st cs \<longleftrightarrow> settled b st cs \<or> (cs = [] \<and> fresh_storage st)"

lemma filled_step:
  assumes copy: "copy_spec copy" and st: "filled (lt_beam l) st cs" and room: "int (length (concat cs)) + 1 \<le> seq_length st"
    and l: "lt_ndim l = 3" "lt_rows l = [r]" "lt_beam l \<noteq> - 1"
  obtains st1 st2 where "logits_append copy l st = (Inr (), st1)" "finalize_chunked_transfer copy st1 = (Inr (), st2)"
    "settled (lt_beam l) st2 (cs @ [[r]])" "seq_length st2 = seq_length st"
proof (cases "settled (lt_beam l) st cs")
  case True
  from settled_step[OF copy True room l(1,2)] show ?thesis using that by metis
next
  case False
  then have cs: "cs = []" and f: "fresh_storage st" using st by (auto simp: filled_def)
  note i = first_settled[OF f l(1,3)]
  from settled_step[OF copy i(1) _ l(1,2)] room cs i(2,3) show ?thesis using that by (metis append_Nil concat.simps(1))
qed

definition iteration :: "'r copy_fn \<Rightarrow> 'r logits \<Rightarrow> 'r logits_storage \<Rightarrow> unit result \<times> 'r logits_storage" where
  \<comment> \<open>what one iteration does to the storage of a generation request\<close>
  "iteration copy l st = (case logits_append copy l st of (Inl e, st1) \<Rightarrow> (Inl e, st1) | (Inr _, st1) \<Rightarrow> finalize_chunked_transfer copy st1)"

interpretation iteration_log: bounded_log "\<lambda>st cs. copy_spec copy \<and> filled b st cs" "iteration copy"
  "\<lambda>(l :: 'r logits) cs. cs @ [lt_rows l]" "\<lambda>cs. int (length (concat cs))"
  "\<lambda>l :: 'r logits. lt_ndim l = 3 \<and> lt_beam l = b \<and> b \<noteq> - 1 \<and> length (lt_rows l) = 1" seq_length
  for copy :: "'r copy_fn" and b :: int
proof
  fix st :: "'r logits_storage" and cs and l :: "'r logits"
  assume a: "copy_spec copy \<and> filled b st cs" "lt_ndim l = 3 \<and> lt_beam l = b \<and> b \<noteq> - 1 \<and> length (lt_rows l) = 1"
    "int (length (concat (cs @ [lt_rows l]))) \<le> seq_length st"
  then obtain r where r: "lt_rows l = [r]" by (auto simp: length_Suc_conv)
  with a filled_step[of copy l st cs r] obtain st1 st2 where "logits_append copy l st = (Inr (), st1)"
    "finalize_chunked_transfer copy st1 = (Inr (), st2)" "settled b st2 (cs @ [[r]])" "seq_length st2 = seq_length st" by auto
  then show "\<exists>st'. iteration copy l st = (Inr (), st') \<and> (copy_spec copy \<and> filled b st' (cs @ [lt_rows l])) \<and> seq_length st' = seq_length st"
    using a r by (simp add: iteration_def filled_def)
qed simp

text \<open>After any number of iterations that fit, a new storage holds one entry per iteration.\<close>

lemma iterations_hold_all:
  fixes ls :: "'r logits list"
  assumes "copy_spec copy" "0 < k" "b \<noteq> - 1" "list_all (\<lambda>l. lt_ndim l = 3 \<and> lt_beam l = b \<and> length (lt_rows l) = 1) ls"
    and "int (length (concat (map lt_rows ls))) \<le> (if extra then n + 1 else n)"
  shows "\<exists>st. push_all (iteration copy) ls (logits_storage_init n extra True k) = (Inr (), st) \<and> filled b st (map lt_rows ls)"
proof -
  let ?st0 = "logits_storage_init n extra True k :: 'r logits_storage"
  have "\<exists>st'. push_all (iteration copy) ls ?st0 = (Inr (), st')
      \<and> (copy_spec copy \<and> filled b st' (fold (\<lambda>l cs. cs @ [lt_rows l]) ls [])) \<and> seq_length st' = seq_length ?st0"
  proof (rule iteration_log.push_all_extends)
    show "copy_spec copy \<and> filled b ?st0 []" by (simp add: assms(1) filled_def fresh_init[OF assms(2)])
    show "int (length (concat (fold (\<lambda>l cs. cs @ [lt_rows l]) ls []))) \<le> seq_length ?st0"
      using assms(5) by (simp add: fold_extend_rows logits_storage_init_def)
  qed (use assms(3,4) in \<open>simp add: list_all_iff\<close>)
  then show ?thesis unfolding fold_extend_rows append_Nil by blast
qed

text \<open>What the request's getter returns for a settled storage.\<close>

lemma generation_logits_settled:
  assumes "generation_storage p = Some st" "settled b st (cs @ [[r]])"
  shows "generation_logits p =
    (if streaming p then (if exclude_last_generation_logits p then (if cs = [] then None else Some (map Some (last cs))) else Some [Some r])
     else if exclude_last_generation_logits p then (if cs = [] then None else Some (map Some (concat cs)))
     else Some (map Some (concat cs @ [r])))"
proof -
  from assms(2) obtain s where s: "storage st = Some s" "holds s (logits_indices st) (cs @ [[r]])" by (auto simp: settled_def)
  note g = logits_get_holds[OF s]
  have l: "logits_get False True st = (if cs = [] then None else Some (map Some (last cs)))"
  proof (cases cs rule: rev_cases)
    case Nil
    then show ?thesis using s by (simp add: logits_get_def holds_def)
  next
    case (snoc ds d)
    have t: "take (length (concat (ds @ [d]))) s = map Some (concat (ds @ [d]))"
      using s(2) take_all_but_last_chunk[of "ds @ [d]" "[r]" s] by (simp add: holds_def snoc)
    have "ranges 0 (ds @ [d, [r]]) = ranges 0 ds @ [(int (length (concat ds)), int (length (concat ds)) + int (length d)),
        (int (length (concat (ds @ [d]))), int (length (concat (ds @ [d]))) + 1)]"
      using ranges_snoc[of 0 "ds @ [d]" "[r]"] ranges_snoc[of 0 ds d] by simp
    then show ?thesis using s take_drop_last_chunk[OF t] by (simp add: logits_get_def holds_def snoc)
  qed
  have "2 \<le> length (cs @ [[r]]) \<longleftrightarrow> cs \<noteq> []" by (cases cs) auto
  then show ?thesis using assms(1) g l by (simp add: generation_logits_def)
qed

section \<open>A batch\<close>

text \<open>A running generation request that keeps its logits, whose storage holds \<open>cs\<close> and has room for one more row.\<close>

definition generating :: "int \<Rightarrow> ('v, 'p, 'f) logit_request \<Rightarrow> 'v list list list \<Rightarrow> bool" where
  "generating beam r cs \<longleftrightarrow> lr_state r \<noteq> GENERATION_COMPLETE \<and> py_return_generation_logits r \<and> py_use_chunked_generation_logits r
     \<and> (\<exists>st. generation_storage (lr_result r) = Some st \<and> filled beam st cs \<and> int (length (concat cs)) + 1 \<le> seq_length st)"

definition no_logits :: "('v, 'p, 'f) logit_request \<Rightarrow> bool" where
  "no_logits r \<longleftrightarrow> \<not> py_return_context_logits r \<and> \<not> py_return_generation_logits r"

definition beam_rows :: "'v list \<Rightarrow> nat \<Rightarrow> nat \<Rightarrow> nat \<Rightarrow> 'v list" where
  \<comment> \<open>the rows of the \<open>i\<close>-th generation request\<close>
  "beam_rows rows first beam i = take beam (drop (first + i * beam) rows)"

lemma generation_step_stores:
  assumes copy: "copy_spec copy" and re: "reshape_spec reshape" and beam: "0 < beam" and r: "generating (int beam) r cs"
    and len: "first + Suc i * beam \<le> length rows"
  defines "row \<equiv> beam_rows rows first beam i"
  shows "\<exists>r1 r2. generation_step copy reshape rows (int beam) (int first) i r = Inr r1 \<and> transfer_step copy r1 = Inr r2
    \<and> (\<exists>st. generation_storage (lr_result r2) = Some st \<and> settled (int beam) st (cs @ [[row]]))
    \<and> streaming (lr_result r2) = streaming (lr_result r)
    \<and> exclude_last_generation_logits (lr_result r2) = exclude_last_generation_logits (lr_result r)"
proof -
  let ?l = "\<lparr>lt_ndim = 3, lt_beam = int beam, lt_rows = [row]\<rparr>"
  from r obtain st where st: "generation_storage (lr_result r) = Some st" "filled (int beam) st cs"
    "int (length (concat cs)) + 1 \<le> seq_length st" and f: "lr_state r \<noteq> GENERATION_COMPLETE"
    "py_return_generation_logits r" "py_use_chunked_generation_logits r" by (auto simp: generating_def)
  have sl: "py_slice rows (int first + int i * int beam) (int first + int i * int beam + int beam) = row"
    using py_slice_nonneg[of rows "first + i * beam" beam] by (simp add: row_def beam_rows_def)
  have "length row = beam" using len by (simp add: row_def beam_rows_def)
  then have re': "reshape (int beam) row = Inr row" using re unfolding reshape_spec_def by blast
  from filled_step[OF copy, of ?l st cs row] st(2,3) beam obtain st1 st2 where
    s: "logits_append copy ?l st = (Inr (), st1)" "finalize_chunked_transfer copy st1 = (Inr (), st2)"
    "settled (int beam) st2 (cs @ [[row]])" by simp blast
  then show ?thesis
    using f st(1) sl re' by (simp add: generation_step_def transfer_step_def store_def append_generation_logits_def
        transfer_remaining_device_logits_def Let_def)
qed

lemma context_loop_no_logits:
  "list_all no_logits rs \<Longrightarrow> length sums = Suc (k + length rs) \<Longrightarrow> context_loop copy rows beam sums k rs = Inr rs"
  by (induction rs arbitrary: k) (simp_all add: context_step_def no_logits_def)

lemma transfer_no_logits: "list_all no_logits rs \<Longrightarrow> res_map (transfer_step copy) rs = Inr rs"
  by (induction rs) (simp_all add: transfer_step_def no_logits_def)

lemma generation_batch:
  assumes copy: "copy_spec copy" and re: "reshape_spec reshape" and beam: "0 < beam"
    and "list_all2 (generating (int beam)) rs css" "first + (k + length rs) * beam \<le> length rows"
  shows "\<exists>rs1 rs2. generation_loop copy reshape rows (int beam) (int first) k rs = Inr rs1 \<and> res_map (transfer_step copy) rs1 = Inr rs2
    \<and> length rs2 = length rs
    \<and> (\<forall>i < length rs.
         (\<exists>st. generation_storage (lr_result (rs2 ! i)) = Some st
            \<and> settled (int beam) st (css ! i @ [[beam_rows rows first beam (k + i)]]))
         \<and> streaming (lr_result (rs2 ! i)) = streaming (lr_result (rs ! i))
         \<and> exclude_last_generation_logits (lr_result (rs2 ! i)) = exclude_last_generation_logits (lr_result (rs ! i)))"
  using assms(4,5)
proof (induction rs arbitrary: css k)
  case (Cons r rs)
  then obtain cs css' where css: "css = cs # css'" "generating (int beam) r cs" "list_all2 (generating (int beam)) rs css'"
    by (auto simp: list_all2_Cons1)
  have "first + Suc k * beam \<le> length rows" using Cons.prems(2) by (simp add: algebra_simps)
  from generation_step_stores[OF copy re beam css(2) this] obtain r1 r2 where
    h: "generation_step copy reshape rows (int beam) (int first) k r = Inr r1" "transfer_step copy r1 = Inr r2"
    "\<exists>st. generation_storage (lr_result r2) = Some st \<and> settled (int beam) st (cs @ [[beam_rows rows first beam k]])"
    "streaming (lr_result r2) = streaming (lr_result r)"
    "exclude_last_generation_logits (lr_result r2) = exclude_last_generation_logits (lr_result r)" by blast
  from Cons.IH[OF css(3), of "Suc k"] Cons.prems(2) obtain rs1 rs2 where
    t: "generation_loop copy reshape rows (int beam) (int first) (Suc k) rs = Inr rs1" "res_map (transfer_step copy) rs1 = Inr rs2"
    "length rs2 = length rs" "\<forall>i < length rs.
         (\<exists>st. generation_storage (lr_result (rs2 ! i)) = Some st
            \<and> settled (int beam) st (css' ! i @ [[beam_rows rows first beam (Suc k + i)]]))
         \<and> streaming (lr_result (rs2 ! i)) = streaming (lr_result (rs ! i))
         \<and> exclude_last_generation_logits (lr_result (rs2 ! i)) = exclude_last_generation_logits (lr_result (rs ! i))"
    by (auto simp: add.commute)
  show ?case
    by (intro exI[of _ "r1 # rs1"] exI[of _ "r2 # rs2"])
      (use h t css(1) in \<open>auto simp: nth_Cons less_Suc_eq_0_disj split: nat.splits\<close>)
qed simp

text \<open>
  C23: one iteration of a batch whose generation requests keep their logits. Each of them receives exactly its own
  \<open>beam_width\<close> rows of the tensor, as one entry behind what it held, and nothing is left on the device, whatever
  the chunk size. A request that does not stream then returns everything stored so far, or, with
  the last entry excluded, exactly what it held before the iteration; a streaming one the newest entry, or the one before.
\<close>

theorem handle_logits_step:
  fixes rows :: "'v list" and gens :: "('v, 'p, 'f) logit_request list"
  assumes "copy_spec copy" "reshape_spec reshape" "0 < beam" "list_all no_logits ctxs"
    and "list_all2 (generating (int beam)) gens css" "length sums = Suc (length ctxs)" "last sums = int first"
    and "first + length gens * beam \<le> length rows"
  shows "\<exists>gens'. handle_logits copy reshape ctxs gens (GenerationLogits rows) (int beam) sums = Inr (ctxs, gens')
    \<and> length gens' = length gens
    \<and> (\<forall>i < length gens.
        let p = lr_result (gens' ! i); old = css ! i; row = beam_rows rows first beam i in
        (\<exists>st. generation_storage p = Some st \<and> settled (int beam) st (old @ [[row]]))
        \<and> generation_logits p =
           (if streaming (lr_result (gens ! i))
            then (if exclude_last_generation_logits (lr_result (gens ! i))
                  then (if old = [] then None else Some (map Some (last old))) else Some [Some row])
            else if exclude_last_generation_logits (lr_result (gens ! i))
            then (if old = [] then None else Some (map Some (concat old)))
            else Some (map Some (concat old @ [row]))))"
proof -
  from generation_batch[OF assms(1-3,5), of first 0 rows] assms(8) obtain gs1 gs2 where
    g: "generation_loop copy reshape rows (int beam) (int first) 0 gens = Inr gs1" "res_map (transfer_step copy) gs1 = Inr gs2"
    "length gs2 = length gens" "\<forall>i < length gens.
         (\<exists>st. generation_storage (lr_result (gs2 ! i)) = Some st \<and> settled (int beam) st (css ! i @ [[beam_rows rows first beam i]]))
         \<and> streaming (lr_result (gs2 ! i)) = streaming (lr_result (gens ! i))
         \<and> exclude_last_generation_logits (lr_result (gs2 ! i)) = exclude_last_generation_logits (lr_result (gens ! i))" by auto
  have sums: "py_index sums (- 1) = Inr (int first)" using assms(6,7) by (cases sums rule: rev_cases) auto
  have h: "handle_logits copy reshape ctxs gens (GenerationLogits rows) (int beam) sums = Inr (ctxs, gs2)"
  proof (cases "list_ex (\<lambda>r. py_return_context_logits r \<or> py_return_generation_logits r) (ctxs @ gens)")
    case True
    then show ?thesis using context_loop_no_logits[of ctxs sums 0] transfer_no_logits[of ctxs] assms(4,6) sums g
      by (simp add: handle_logits_def)
  next
    case False
    then have "gens = []" using assms(5) by (cases gens) (auto simp: list_all2_Cons1 generating_def)
    then show ?thesis using False g by (simp add: handle_logits_def)
  qed
  show ?thesis unfolding Let_def
  proof (intro exI[of _ gs2] conjI allI impI h g(3))
    fix i assume "i < length gens"
    then obtain st where st: "generation_storage (lr_result (gs2 ! i)) = Some st"
      "settled (int beam) st (css ! i @ [[beam_rows rows first beam i]])"
      and eq: "streaming (lr_result (gs2 ! i)) = streaming (lr_result (gens ! i))"
      "exclude_last_generation_logits (lr_result (gs2 ! i)) = exclude_last_generation_logits (lr_result (gens ! i))"
      using g(4) by blast
    show "\<exists>st. generation_storage (lr_result (gs2 ! i)) = Some st \<and> settled (int beam) st (css ! i @ [[beam_rows rows first beam i]])"
      using st by blast
    show "generation_logits (lr_result (gs2 ! i)) =
       (if streaming (lr_result (gens ! i))
        then (if exclude_last_generation_logits (lr_result (gens ! i))
              then (if css ! i = [] then None else Some (map Some (last (css ! i)))) else Some [Some (beam_rows rows first beam i)])
        else if exclude_last_generation_logits (lr_result (gens ! i))
        then (if css ! i = [] then None else Some (map Some (concat (css ! i))))
        else Some (map Some (concat (css ! i) @ [beam_rows rows first beam i])))"
      using generation_logits_settled[OF st] unfolding eq .
  qed
qed

definition sample_request :: "(nat, nat, nat) logit_request" where
  "sample_request = \<lparr>lr_state = GENERATION_IN_PROGRESS, py_return_context_logits = False, py_return_generation_logits = True,
     is_last_context_chunk = False, py_use_chunked_generation_logits = True,
     lr_result = \<lparr>streaming = False, exclude_last_generation_logits = False, context_storage = None,
       generation_storage = Some (logits_storage_init 4 False True 8), log_prob_store = None\<rparr>\<rparr>"

lemma sample_generating: "generating 1 sample_request []"
  by (simp add: generating_def sample_request_def filled_def fresh_init) (simp add: logits_storage_init_def)

lemma handle_logits_step_witness:
  "\<exists>g h. handle_logits copy_ref reshape_ref [] [sample_request, sample_request] (GenerationLogits [7, 8]) 1 [0] = Inr ([], [g, h])
    \<and> generation_logits (lr_result g) = Some [Some [7]] \<and> generation_logits (lr_result h) = Some [Some [8]]"
proof -
  have "list_all2 (generating (int 1)) [sample_request, sample_request] [[], []]" using sample_generating by simp
  from handle_logits_step[OF copy_ref_spec reshape_ref_spec _ _ this, of "[]" "[0]" 0 "[7, 8]"]
  show ?thesis by (auto simp: length_Suc_conv sample_request_def beam_rows_def less_Suc_eq numeral_2_eq_2 Let_def)
qed

end
