(* ===== verification/Speculative_Drafting.thy ===== *)
theory Speculative_Drafting
  imports Py_Prelude "HOL-Library.Product_Lexorder"
begin

text \<open>
  Drafting without a draft model: the n-gram pool (\<open>_torch/speculative/ngram.py\<close>), the base class \<open>Drafter\<close>
  (\<open>drafter.py\<close>: draft length per batch size, when to speculate, padding) and the gate that switches speculation off
  for good (\<open>speculation_gate.py\<close>).

  An \<open>OrderedSet\<close> of the pool is the list of its elements in order; removing elements from it while iterating over
  it is the argument \<open>drop_shorter\<close>, of which the code needs that it does not raise and that nothing is invented (\<open>drop_spec\<close>). The pool is one
  dictionary in the code, from patterns when it is public and from request ids to such dictionaries when it is
  private; here these are two fields. The floating-point operations of the gate are a record of functions.
\<close>

section \<open>The n-gram pool\<close>

type_synonym matches = "int list list"
type_synonym ngram_pool = "(int list, matches) dict"
type_synonym drop_fn = "matches \<Rightarrow> int list \<Rightarrow> matches result"

record ngram_pool_manager =
  max_total_draft_tokens :: int
  max_matching_ngram_size :: int
  is_keep_all :: bool
  is_use_oldest :: bool
  is_public_pool :: bool
  max_num_requests :: int
  public_pool :: ngram_pool
  private_pools :: "(int, ngram_pool) dict"
  start_index :: "(int, int) dict"

definition ngram_init :: "int \<Rightarrow> int \<Rightarrow> bool \<Rightarrow> bool \<Rightarrow> bool \<Rightarrow> int \<Rightarrow> ngram_pool_manager" where
  "ngram_init draft ngram keep oldest public max_req =
     \<lparr>max_total_draft_tokens = draft, max_matching_ngram_size = ngram, is_keep_all = keep, is_use_oldest = oldest,
      is_public_pool = public, max_num_requests = max_req, public_pool = [], private_pools = [], start_index = []\<rparr>"

definition ngram_release :: "int \<Rightarrow> ngram_pool_manager \<Rightarrow> ngram_pool_manager result" where
  \<comment> \<open>\<open>update_resources\<close> for a completed request\<close>
  "ngram_release rid m =
     (if rid \<in> set (keys_of (private_pools m))
      then res_bind (dict_get (start_index m) rid) (\<lambda>_.
        Inr (m\<lparr>private_pools := AList.delete rid (private_pools m), start_index := AList.delete rid (start_index m)\<rparr>))
      else Inr m)"

definition ngram_update_resources :: "(int \<times> bool) list \<Rightarrow> ngram_pool_manager \<Rightarrow> ngram_pool_manager result" where
  \<comment> \<open>the batch as request ids, with whether each one is complete\<close>
  "ngram_update_resources batch m =
     (if is_public_pool m then Inr m
      else res_fold (\<lambda>(rid, complete) m. if complete then ngram_release rid m else Inr m) batch m)"

definition add_match :: "drop_fn \<Rightarrow> bool \<Rightarrow> int list \<Rightarrow> int list \<Rightarrow> ngram_pool \<Rightarrow> ngram_pool result" where
  "add_match drop_shorter keep_all pattern new_match pool =
     (case map_of pool pattern of
        None \<Rightarrow> Inr (AList.update pattern [new_match] pool)
      | Some ms \<Rightarrow>
          res_bind (if keep_all then Inr False else res_bind (py_index ms 0) (\<lambda>m. Inr (length new_match > length m))) (\<lambda>replace.
          if replace then Inr (AList.update pattern [new_match] pool)
          else if new_match \<notin> set ms then res_bind (drop_shorter ms new_match) (\<lambda>kept. Inr (AList.update pattern (kept @ [new_match]) pool))
          else Inr pool))"

definition sizes :: "int \<Rightarrow> int \<Rightarrow> int list" where
  \<comment> \<open>\<open>range(min(max_matching_ngram_size, prefix_len - 1), 0, -1)\<close>\<close>
  "sizes max_size prefix_len = rev (py_range 1 (min max_size (prefix_len - 1) + 1))"

definition update_size :: "drop_fn \<Rightarrow> bool \<Rightarrow> int \<Rightarrow> int list \<Rightarrow> int \<Rightarrow> ngram_pool \<Rightarrow> ngram_pool result" where
  "update_size drop_shorter keep_all draft sequence ngram =
     res_fold (\<lambda>l. let r = min (l + ngram + draft) (int (length sequence)) in
       add_match drop_shorter keep_all (py_slice sequence l (l + ngram)) (py_slice sequence (l + ngram) r))
       (py_range 0 (int (length sequence) - ngram))"

definition update_pool :: "drop_fn \<Rightarrow> ngram_pool_manager \<Rightarrow> int \<Rightarrow> int list \<Rightarrow> ngram_pool \<Rightarrow> ngram_pool result" where
  "update_pool drop_shorter m prefix_len sequence =
     res_fold (update_size drop_shorter (is_keep_all m) (max_total_draft_tokens m) sequence)
       (sizes (max_matching_ngram_size m) prefix_len)"

fun find_draft :: "bool \<Rightarrow> int list \<Rightarrow> int \<Rightarrow> ngram_pool \<Rightarrow> int list \<Rightarrow> int list result" where
  "find_draft oldest prefix max_len pool [] = Inr []"
| "find_draft oldest prefix max_len pool (ngram # ss) =
     (case map_of pool (drop (length prefix - nat ngram) prefix) of
        None \<Rightarrow> find_draft oldest prefix max_len pool ss
      | Some ms \<Rightarrow> res_bind (py_index ms (if oldest then 0 else - 1)) (\<lambda>d. Inr (take (nat max_len) d)))"

definition get_draft_tokens :: "drop_fn \<Rightarrow> int list \<Rightarrow> int \<Rightarrow> int \<Rightarrow> ngram_pool_manager \<Rightarrow> (int list \<times> ngram_pool_manager) result" where
  "get_draft_tokens drop_shorter prefix rid max_sequence_length m0 =
     (let prefix_len = int (length prefix); max_len = max_sequence_length - 1 - prefix_len in
      if max_len \<le> 0 then Inr ([], m0)
      else
        let m = (if rid \<in> set (keys_of (start_index m0)) then m0
                 else m0\<lparr>start_index := AList.update rid 0 (start_index m0),
                         private_pools := if is_public_pool m0 then private_pools m0 else AList.update rid [] (private_pools m0)\<rparr>) in
        res_bind (if is_public_pool m then Inr (public_pool m) else dict_get (private_pools m) rid) (\<lambda>pool.
        res_bind (dict_get (start_index m) rid) (\<lambda>start.
        res_bind (update_pool drop_shorter m prefix_len (drop (nat start) prefix) pool) (\<lambda>pool'.
        let m' = (if is_public_pool m then m\<lparr>public_pool := pool'\<rparr> else m\<lparr>private_pools := AList.update rid pool' (private_pools m)\<rparr>) in
        res_bind (find_draft (is_use_oldest m) prefix max_len pool' (sizes (max_matching_ngram_size m) prefix_len)) (\<lambda>draft.
        Inr (draft, m'\<lparr>start_index := AList.update rid
                 (max 0 (prefix_len - (max_total_draft_tokens m + max_matching_ngram_size m - 1))) (start_index m')\<rparr>))))))"

section \<open>The drafter\<close>

record draft_request =
  dr_request_id :: int
  py_batch_idx :: "int option"
  dr_tokens :: "int list"
  py_orig_prompt_len :: int
  py_max_new_tokens :: int
  dr_draft_tokens :: "int list"

definition batch_key :: "draft_request \<Rightarrow> bool \<times> int" where
  \<comment> \<open>\<open>(r.py_batch_idx is None, r.py_batch_idx or r.request_id)\<close>; a batch index 0 counts as false\<close>
  "batch_key r = (py_batch_idx r = None,
     case py_batch_idx r of Some i \<Rightarrow> (if i \<noteq> 0 then i else dr_request_id r) | None \<Rightarrow> dr_request_id r)"

fun draft_requests :: "drop_fn \<Rightarrow> draft_request list \<Rightarrow> ngram_pool_manager \<Rightarrow> (draft_request list \<times> ngram_pool_manager) result" where
  "draft_requests drop_shorter [] m = Inr ([], m)"
| "draft_requests drop_shorter (r # rs) m =
     res_bind (get_draft_tokens drop_shorter (dr_tokens r) (dr_request_id r) (py_orig_prompt_len r + py_max_new_tokens r) m) (\<lambda>(d, m1).
     res_bind (draft_requests drop_shorter rs m1) (\<lambda>(rs', m2). Inr (r\<lparr>dr_draft_tokens := d\<rparr> # rs', m2)))"

definition prepare_draft_tokens :: "drop_fn \<Rightarrow> draft_request list \<Rightarrow> ngram_pool_manager \<Rightarrow> (draft_request list \<times> ngram_pool_manager) result" where
  \<comment> \<open>the generation requests, in the order in which they are drafted\<close>
  "prepare_draft_tokens drop_shorter gens m = draft_requests drop_shorter (sort_key batch_key gens) m"

record drafter =
  max_draft_len :: int
  drafter_max_total :: int
  static_max_total :: int
  max_concurrency :: "int option"
  draft_len_schedule :: "(int, int) dict option"

definition drafter_init :: "int \<Rightarrow> int \<Rightarrow> int option \<Rightarrow> (int, int) dict option \<Rightarrow> drafter" where
  "drafter_init len total_tokens conc schedule =
     \<lparr>max_draft_len = len, drafter_max_total = total_tokens, static_max_total = total_tokens, max_concurrency = conc,
      draft_len_schedule = schedule\<rparr>"

definition ngram_drafter_init :: "int \<Rightarrow> int \<Rightarrow> int option \<Rightarrow> (int, int) dict option \<Rightarrow> bool \<Rightarrow> drafter result" where
  "ngram_drafter_init len total_tokens conc schedule has_manager =
     res_bind (py_assert has_manager) (\<lambda>_.
     res_bind (py_assert (len = total_tokens)) (\<lambda>_. Inr (drafter_init len total_tokens conc schedule)))"

definition should_use_spec_decode :: "drafter \<Rightarrow> int \<Rightarrow> int \<Rightarrow> int \<Rightarrow> int \<Rightarrow> bool result" where
  "should_use_spec_decode d num_requests max_batch_size max_num_tokens max_draft =
     (case max_concurrency d of
        None \<Rightarrow> Inr True
      | Some conc \<Rightarrow>
          if num_requests = 0 \<or> max_batch_size \<le> 0 \<or> max_num_tokens \<le> 0 then Inr False
          else res_bind (py_div max_num_tokens (1 + max_draft)) (\<lambda>token_cap.
            if token_cap \<le> 0 then Inr False
            else Inr (min num_requests (min max_batch_size token_cap) \<le> conc)))"

definition pad_draft_tokens_for_cuda_graph :: "drafter \<Rightarrow> draft_request list \<Rightarrow> draft_request list" where
  "pad_draft_tokens_for_cuda_graph d rs =
     map (\<lambda>r. r\<lparr>dr_draft_tokens := dr_draft_tokens r @ replicate (nat (static_max_total d - int (length (dr_draft_tokens r)))) 0\<rparr>) rs"

function bisect_loop :: "int list \<Rightarrow> int \<Rightarrow> nat \<Rightarrow> nat \<Rightarrow> nat" where
  \<comment> \<open>\<open>bisect.bisect_right\<close>\<close>
  "bisect_loop a x lo hi =
     (if lo < hi then
        let mid = (lo + hi) div 2 in
        if x < a ! mid then bisect_loop a x lo mid else bisect_loop a x (mid + 1) hi
      else lo)"
  by pat_completeness auto

termination
  by (relation "measure (\<lambda>(a, x, lo, hi). hi - lo)") auto

declare bisect_loop.simps [simp del]

definition bisect_right :: "int list \<Rightarrow> int \<Rightarrow> nat" where
  "bisect_right a x = bisect_loop a x 0 (length a)"

definition get_draft_len_for_batch_size :: "drafter \<Rightarrow> int \<Rightarrow> int result" where
  "get_draft_len_for_batch_size d batch_size =
     (case draft_len_schedule d of
        None \<Rightarrow> Inl AttributeError
      | Some schedule \<Rightarrow>
          let thresholds = keys_of schedule; idx = bisect_right thresholds batch_size in
          if idx = 0 then Inr 0
          else res_bind (py_index thresholds (int idx - 1)) (dict_get schedule))"

definition update_max_total_draft_tokens :: "int \<Rightarrow> drafter \<times> ngram_pool_manager \<Rightarrow> drafter \<times> ngram_pool_manager" where
  \<comment> \<open>\<open>NGramDrafter.update_max_total_draft_tokens\<close> with the call to its base class\<close>
  "update_max_total_draft_tokens n = (\<lambda>(d, m).
     (d\<lparr>drafter_max_total := n, max_draft_len := n\<rparr>, m\<lparr>Speculative_Drafting.ngram_pool_manager.max_total_draft_tokens := n\<rparr>))"

section \<open>The speculation gate\<close>

record 'f float_ops =
  f_zero :: 'f
  f_accepted :: "'f \<Rightarrow> 'f" \<comment> \<open>\<open>max(0.0, x - 1.0)\<close>\<close>
  f_add :: "'f \<Rightarrow> 'f \<Rightarrow> 'f"
  f_sub :: "'f \<Rightarrow> 'f \<Rightarrow> 'f"
  f_div :: "'f \<Rightarrow> nat \<Rightarrow> 'f"
  f_less :: "'f \<Rightarrow> 'f \<Rightarrow> bool"

record 'f speculation_gate =
  window :: "int option"
  threshold :: "'f option"
  acceptance_history :: "'f list"
  acceptance_sum :: 'f
  num_completed_for_acceptance :: int
  disabled :: bool

definition gate_init :: "'f float_ops \<Rightarrow> int option \<Rightarrow> 'f option \<Rightarrow> 'f speculation_gate" where
  "gate_init ops w t =
     \<lparr>window = w, threshold = t, acceptance_history = [], acceptance_sum = f_zero ops, num_completed_for_acceptance = 0, disabled = False\<rparr>"

definition gate_reset :: "'f float_ops \<Rightarrow> 'f speculation_gate \<Rightarrow> 'f speculation_gate" where
  "gate_reset ops g = g\<lparr>acceptance_history := [], acceptance_sum := f_zero ops, num_completed_for_acceptance := 0, disabled := False\<rparr>"

definition roll :: "'f float_ops \<Rightarrow> int \<Rightarrow> 'f \<Rightarrow> 'f speculation_gate \<Rightarrow> 'f speculation_gate" where
  "roll ops w accepted_len g =
     (let history = acceptance_history g @ [accepted_len]; s = f_add ops (acceptance_sum g) accepted_len in
      if int (length history) > w
      then g\<lparr>acceptance_history := tl history, acceptance_sum := f_sub ops s (hd history)\<rparr>
      else g\<lparr>acceptance_history := history, acceptance_sum := s\<rparr>)"

definition record_avg_decoded :: "'f float_ops \<Rightarrow> 'f option \<Rightarrow> 'f speculation_gate \<Rightarrow> (bool \<times> 'f option) \<times> 'f speculation_gate" where
  "record_avg_decoded ops avg g =
     (case (disabled g, window g, threshold g, avg) of
        (False, Some w, Some t, Some x) \<Rightarrow>
          if w \<le> 0 then ((False, None), g)
          else
            let g1 = roll ops w (f_accepted ops x) g;
                g2 = g1\<lparr>num_completed_for_acceptance := num_completed_for_acceptance g1 + 1\<rparr> in
            if num_completed_for_acceptance g2 \<ge> w then
              let avg_accept = f_div ops (acceptance_sum g2) (length (acceptance_history g2)) in
              if f_less ops avg_accept t then ((True, Some avg_accept), g2\<lparr>disabled := True\<rparr>)
              else ((False, Some avg_accept), g2)
            else ((False, None), g2)
      | _ \<Rightarrow> ((False, None), g))"

section \<open>Draft length per batch size\<close>

lemma bisect_loop_spec:
  assumes "sorted a" "hi \<le> length a" "lo \<le> hi" "\<And>i. i < lo \<Longrightarrow> a ! i \<le> x" "\<And>i. hi \<le> i \<Longrightarrow> i < length a \<Longrightarrow> x < a ! i"
  shows "bisect_loop a x lo hi \<le> length a \<and> (\<forall>i < bisect_loop a x lo hi. a ! i \<le> x)
    \<and> (\<forall>i < length a. bisect_loop a x lo hi \<le> i \<longrightarrow> x < a ! i)"
  using assms
proof (induction a x lo hi rule: bisect_loop.induct)
  case (1 a x lo hi)
  show ?case
  proof (cases "lo < hi")
    case False
    then have "bisect_loop a x lo hi = lo" by (simp add: bisect_loop.simps)
    then show ?thesis using 1(3-7) False by auto
  next
    case True
    define mid where "mid = (lo + hi) div 2"
    have mid: "lo \<le> mid" "mid < hi" using True by (simp_all add: mid_def)
    show ?thesis
    proof (cases "x < a ! mid")
      case less: True
      have "x < a ! i" if "mid \<le> i" "i < length a" for i
        using less sorted_nth_mono[OF 1(3) that] by simp
      moreover have "bisect_loop a x lo hi = bisect_loop a x lo mid"
        using True less by (subst bisect_loop.simps) (simp add: Let_def mid_def)
      ultimately show ?thesis using 1(1)[OF True mid_def less 1(3) _ mid(1) 1(6)] 1(4) mid(2) by simp
    next
      case ge: False
      have "a ! i \<le> x" if "i < mid + 1" for i
        using ge sorted_nth_mono[OF 1(3), of i mid] that mid 1(4) by simp
      moreover have "bisect_loop a x lo hi = bisect_loop a x (mid + 1) hi"
        using True ge by (subst bisect_loop.simps) (simp add: Let_def mid_def)
      ultimately show ?thesis using 1(2)[OF True mid_def ge 1(3,4) _ _ 1(7)] mid(2) by simp
    qed
  qed
qed

lemma bisect_right_spec:
  assumes "sorted a"
  shows "takeWhile (\<lambda>t. t \<le> x) a = take (bisect_right a x) a" "bisect_right a x \<le> length a"
proof -
  note B = bisect_loop_spec[OF assms, of "length a" 0 x, folded bisect_right_def, simplified]
  show "bisect_right a x \<le> length a" using B by simp
  show "takeWhile (\<lambda>t. t \<le> x) a = take (bisect_right a x) a"
  proof (cases "bisect_right a x = length a")
    case True
    then have "\<forall>t \<in> set a. t \<le> x" using B by (auto simp: in_set_conv_nth)
    then show ?thesis using True by (simp add: takeWhile_eq_all_conv)
  next
    case False
    then have "bisect_right a x < length a" using B by simp
    moreover have "\<not> a ! bisect_right a x \<le> x" using B calculation by auto
    ultimately show ?thesis using B by (intro takeWhile_eq_take_P_nth) auto
  qed
qed

definition draft_len_ref :: "(int, int) dict \<Rightarrow> int \<Rightarrow> int" where
  \<comment> \<open>the entry of the last threshold that the batch size reaches\<close>
  "draft_len_ref schedule b = (let reached = takeWhile (\<lambda>(t, _). t \<le> b) schedule in if reached = [] then 0 else snd (last reached))"

text \<open>
  C35: the binary search finds the right draft length. For a schedule sorted by threshold, the draft length of a batch is
  the entry of the largest threshold not above the batch size, and 0 below the first one.
\<close>

theorem draft_len_is_last_reached:
  assumes "draft_len_schedule d = Some schedule" "sorted (keys_of schedule)" "distinct (keys_of schedule)"
  shows "get_draft_len_for_batch_size d b = Inr (draft_len_ref schedule b)"
proof -
  let ?ts = "keys_of schedule" and ?k = "bisect_right (keys_of schedule) b"
  have k: "?k \<le> length schedule" using bisect_right_spec(2)[OF assms(2), of b] by simp
  have "takeWhile (\<lambda>t. t \<le> b) ?ts = take ?k ?ts" by (rule bisect_right_spec(1)[OF assms(2)])
  then have "map fst (takeWhile (\<lambda>(t, _). t \<le> b) schedule) = map fst (take ?k schedule)"
    by (simp add: takeWhile_map take_map comp_def split_def)
  then have len: "length (takeWhile (\<lambda>(t, _). t \<le> b) schedule) = ?k" using k
    by (metis length_map length_take min.absorb2)
  then have tw: "takeWhile (\<lambda>(t, _). t \<le> b) schedule = take ?k schedule"
    by (metis takeWhile_eq_take)
  show ?thesis
  proof (cases ?k)
    case 0
    then show ?thesis using assms(1) tw by (simp add: get_draft_len_for_batch_size_def draft_len_ref_def)
  next
    case (Suc j)
    then have j: "j < length schedule" using k by simp
    then have "schedule ! j \<in> set schedule" by simp
    then have "map_of schedule (fst (schedule ! j)) = Some (snd (schedule ! j))" using assms(3) by simp
    moreover have "take ?k schedule \<noteq> []" "last (take ?k schedule) = schedule ! j" using Suc j by (auto simp: take_Suc_conv_app_nth)
    ultimately show ?thesis using assms(1) Suc j tw
      by (simp add: get_draft_len_for_batch_size_def draft_len_ref_def Let_def)
  qed
qed

lemma draft_len_is_last_reached_witness:
  "get_draft_len_for_batch_size (drafter_init 4 4 None (Some [(1, 4), (8, 2), (32, 0)])) 20 = Inr 2"
  using draft_len_is_last_reached[of "drafter_init 4 4 None (Some [(1, 4), (8, 2), (32, 0)])" "[(1, 4), (8, 2), (32, 0)]" 20]
  by (simp add: drafter_init_def draft_len_ref_def)

section \<open>What the pool holds\<close>

definition drop_spec :: "drop_fn \<Rightarrow> bool" where
  "drop_spec drop_shorter \<longleftrightarrow> (\<forall>ms m. \<exists>kept. drop_shorter ms m = Inr kept \<and> set kept \<subseteq> set ms)"

fun remove_iterating :: "int list \<Rightarrow> matches \<Rightarrow> matches" where
  \<comment> \<open>removing from a list while iterating over it: the element behind a removed one is not looked at\<close>
  "remove_iterating m [] = []"
| "remove_iterating m [x] = (if length x < length m then [] else [x])"
| "remove_iterating m (x # y # xs) = (if length x < length m then y # remove_iterating m xs else x # remove_iterating m (y # xs))"

definition drop_ref :: drop_fn where
  \<comment> \<open>an \<open>OrderedSet\<close> that keeps its elements in a list\<close>
  "drop_ref ms m = Inr (remove_iterating m ms)"

lemma remove_iterating_subset: "set (remove_iterating m ms) \<subseteq> set ms"
  by (induction m ms rule: remove_iterating.induct) auto

lemma drop_ref_spec: "drop_spec drop_ref"
  using remove_iterating_subset by (simp add: drop_spec_def drop_ref_def)

definition occurs :: "'a list \<Rightarrow> 'a list \<Rightarrow> bool" where
  "occurs xs h \<longleftrightarrow> (\<exists>a b. h = a @ xs @ b)"

lemma occurs_take: "occurs (p @ m) h \<Longrightarrow> occurs (p @ take n m) h"
proof -
  assume "occurs (p @ m) h"
  then obtain a b where "h = a @ (p @ m) @ b" by (auto simp: occurs_def)
  then have "h = a @ (p @ take n m) @ (drop n m @ b)" by simp
  then show ?thesis unfolding occurs_def by blast
qed

lemma occurs_drop: "occurs xs (drop n h) \<Longrightarrow> occurs xs h"
  unfolding occurs_def by (metis append_assoc append_take_drop_id)

lemma occurs_slice: "occurs (take n (drop l xs)) xs"
  unfolding occurs_def by (metis append_take_drop_id)

text \<open>\<open>H\<close> is the set of token sequences that were looked at: every stored match followed its pattern in one of them.\<close>

definition match_ok :: "int \<Rightarrow> int \<Rightarrow> int list set \<Rightarrow> int list \<Rightarrow> int list \<Rightarrow> bool" where
  "match_ok d n H pattern m \<longleftrightarrow> int (length m) \<le> d \<and> pattern \<noteq> [] \<and> int (length pattern) \<le> n \<and> (\<exists>h \<in> H. occurs (pattern @ m) h)"

definition pool_ok :: "int \<Rightarrow> int \<Rightarrow> int list set \<Rightarrow> ngram_pool \<Rightarrow> bool" where
  "pool_ok d n H pool \<longleftrightarrow> (\<forall>p ms. map_of pool p = Some ms \<longrightarrow> ms \<noteq> [] \<and> (\<forall>m \<in> set ms. match_ok d n H p m))"

lemma pool_ok_empty: "pool_ok d n H []"
  by (simp add: pool_ok_def)

lemma pool_ok_mono: "pool_ok d n H pool \<Longrightarrow> H \<subseteq> H' \<Longrightarrow> pool_ok d n H' pool"
  unfolding pool_ok_def match_ok_def by blast

lemma add_match_ok:
  assumes "drop_spec drop_shorter" "pool_ok d n H pool" "match_ok d n H p m"
  shows "\<exists>pool'. add_match drop_shorter keep p m pool = Inr pool' \<and> pool_ok d n H pool'"
proof (cases "map_of pool p")
  case None
  then show ?thesis using assms by (auto simp: add_match_def pool_ok_def)
next
  case (Some ms)
  then have ms: "ms \<noteq> []" "\<forall>x \<in> set ms. match_ok d n H p x" using assms(2) by (auto simp: pool_ok_def)
  obtain kept where kept: "drop_shorter ms m = Inr kept" "set kept \<subseteq> set ms" using assms(1) unfolding drop_spec_def by blast
  then have "\<forall>x \<in> set (kept @ [m]). match_ok d n H p x" using ms(2) assms(3) by auto
  then have upd: "pool_ok d n H (AList.update p (kept @ [m]) pool)" "pool_ok d n H (AList.update p [m] pool)"
    using assms(2,3) by (auto simp: pool_ok_def)
  obtain b where "(if keep then Inr False else res_bind (py_index ms 0) (\<lambda>x. Inr (length x < length m))) = Inr b"
    using ms(1) by (cases keep) auto
  then show ?thesis using upd assms(2) Some kept(1) by (simp add: add_match_def)
qed

lemma sizes_range: "s \<in> set (sizes n k) \<longleftrightarrow> 1 \<le> s \<and> s \<le> n \<and> s \<le> k - 1"
  by (auto simp: sizes_def)

lemma update_size_ok:
  assumes drop: "drop_spec drop_shorter" and pool: "pool_ok d n H pool" and d: "0 \<le> d" and s: "1 \<le> s" "s \<le> n"
    and H: "h \<in> H"
  shows "\<exists>pool'. update_size drop_shorter keep d (drop k h) s pool = Inr pool' \<and> pool_ok d n H pool'"
  unfolding update_size_def
proof (rule res_fold_invariant[of "pool_ok d n H", OF pool])
  fix l pool assume l: "l \<in> set (py_range 0 (int (length (drop k h)) - s))" and pool: "pool_ok d n H pool"
  let ?q = "drop k h"
  obtain a b where ab: "l = int a" "s = int b" using l s by (auto intro: that[of "nat l" "nat s"])
  have lt: "a + b < length ?q" using l ab by simp
  define e where "e = min (a + b + nat d) (length ?q)"
  have e: "min (l + s + d) (int (length ?q)) = int e" using d by (simp add: e_def ab)
  have p: "py_slice ?q l (l + s) = take b (drop a ?q)" using py_slice_nonneg[of ?q a b] by (simp add: ab)
  have m: "py_slice ?q (l + s) (int e) = take (e - (a + b)) (drop (a + b) ?q)"
    using py_slice_from_to[of ?q "a + b" e] by (simp add: ab)
  have "take b (drop a ?q) @ take (e - (a + b)) (drop (a + b) ?q) = take (b + (e - (a + b))) (drop a ?q)"
    by (simp add: take_add ac_simps)
  then have "occurs (take b (drop a ?q) @ take (e - (a + b)) (drop (a + b) ?q)) h"
    using occurs_slice occurs_drop by metis
  moreover have "int (length (take (e - (a + b)) (drop (a + b) ?q))) \<le> d" using d by (auto simp: e_def min_def)
  moreover have "take b (drop a ?q) \<noteq> []" "int (length (take b (drop a ?q))) \<le> n" using lt s ab by auto
  ultimately have "match_ok d n H (take b (drop a ?q)) (take (e - (a + b)) (drop (a + b) ?q))"
    using H unfolding match_ok_def by blast
  from add_match_ok[OF drop pool this]
  show "\<exists>s'. (let r = min (l + s + d) (int (length ?q)) in add_match drop_shorter keep (py_slice ?q l (l + s)) (py_slice ?q (l + s) r)) pool
      = Inr s' \<and> pool_ok d n H s'" unfolding e Let_def p m by blast
qed

lemma update_pool_ok:
  assumes "drop_spec drop_shorter" "pool_ok (max_total_draft_tokens m) (max_matching_ngram_size m) H pool"
    "0 \<le> max_total_draft_tokens m" "h \<in> H"
  shows "\<exists>pool'. update_pool drop_shorter m len (drop k h) pool = Inr pool'
    \<and> pool_ok (max_total_draft_tokens m) (max_matching_ngram_size m) H pool'"
  unfolding update_pool_def
  by (rule res_fold_invariant[of "pool_ok (max_total_draft_tokens m) (max_matching_ngram_size m) H", OF assms(2)])
    (use update_size_ok[OF assms(1) _ assms(3) _ _ assms(4)] in \<open>auto simp: sizes_range\<close>)

text \<open>The draft continues a suffix of the sequence the way some sequence of \<open>H\<close> did.\<close>

definition continues :: "int \<Rightarrow> int list set \<Rightarrow> int list \<Rightarrow> int list \<Rightarrow> bool" where
  "continues n H xs d \<longleftrightarrow> (\<exists>k h. 0 < k \<and> k < length xs \<and> int k \<le> n \<and> h \<in> H \<and> occurs (drop (length xs - k) xs @ d) h)"

lemma find_draft_ok:
  assumes pool: "pool_ok d n H pool" and ss: "\<And>s. s \<in> set ss \<Longrightarrow> 1 \<le> s \<and> s \<le> n \<and> s \<le> int (length xs) - 1"
  shows "\<exists>ds. find_draft oldest xs max_len pool ss = Inr ds
    \<and> (ds = [] \<or> int (length ds) \<le> d \<and> length ds \<le> nat max_len \<and> continues n H xs ds)"
  using ss
proof (induction ss)
  case (Cons s ss)
  show ?case
  proof (cases "map_of pool (drop (length xs - nat s) xs)")
    case None
    then show ?thesis using Cons by simp
  next
    case (Some ms)
    then have ms: "ms \<noteq> []" "\<forall>m \<in> set ms. match_ok d n H (drop (length xs - nat s) xs) m" using pool by (auto simp: pool_ok_def)
    then obtain m where m: "py_index ms (if oldest then 0 else - 1) = Inr m"
      by (cases oldest) (auto simp: py_index_def Suc_le_eq)
    then have ok: "match_ok d n H (drop (length xs - nat s) xs) m" using ms(2) py_index_Inr_mem by metis
    then obtain h where h: "h \<in> H" "occurs (drop (length xs - nat s) xs @ m) h" by (auto simp: match_ok_def)
    have s: "0 < nat s" "nat s < length xs" "int (nat s) \<le> n" using Cons.prems[of s] by auto
    have "continues n H xs (take (nat max_len) m)"
      unfolding continues_def using s h(1) occurs_take[OF h(2), of "nat max_len"] by blast
    moreover have "int (length (take (nat max_len) m)) \<le> d"
      using ok length_take[of "nat max_len" m] by (auto simp: match_ok_def)
    ultimately show ?thesis using Some m by simp
  qed
qed simp

text \<open>
  The manager after any history \<open>H\<close> of calls, a set of request ids with the sequence looked at: a private
  pool knows the sequences of its own request, the public pool those of all.
\<close>

definition looked_at :: "ngram_pool_manager \<Rightarrow> int \<Rightarrow> (int \<times> int list) set \<Rightarrow> int list set" where
  "looked_at m rid H = {h. \<exists>r. (r, h) \<in> H \<and> (is_public_pool m \<or> r = rid)}"

definition manager_ok :: "(int \<times> int list) set \<Rightarrow> ngram_pool_manager \<Rightarrow> bool" where
  "manager_ok H m \<longleftrightarrow>
     (if is_public_pool m
      then pool_ok (max_total_draft_tokens m) (max_matching_ngram_size m) (snd ` H) (public_pool m)
      else dom (map_of (private_pools m)) = dom (map_of (start_index m))
        \<and> (\<forall>rid pool. map_of (private_pools m) rid = Some pool \<longrightarrow>
             pool_ok (max_total_draft_tokens m) (max_matching_ngram_size m) (looked_at m rid H) pool))"

lemma looked_at_public: "is_public_pool m \<Longrightarrow> looked_at m rid H = snd ` H"
  by (force simp: looked_at_def)

lemma manager_ok_pool:
  assumes "manager_ok H m" "rid \<in> set (keys_of (start_index m))"
  obtains pool where "(if is_public_pool m then Inr (public_pool m) else dict_get (private_pools m) rid) = Inr pool"
    "pool_ok (max_total_draft_tokens m) (max_matching_ngram_size m) (looked_at m rid H) pool"
proof (cases "is_public_pool m")
  case True
  then show ?thesis using assms(1) that looked_at_public[of m rid H] by (simp add: manager_ok_def)
next
  case False
  have "rid \<in> dom (map_of (start_index m))" using assms(2) by (simp add: dom_map_of_conv_image_fst)
  moreover have "dom (map_of (private_pools m)) = dom (map_of (start_index m))" using assms(1) False by (simp add: manager_ok_def)
  ultimately have "rid \<in> dom (map_of (private_pools m))" by simp
  then obtain pool where "map_of (private_pools m) rid = Some pool" by blast
  then show ?thesis using assms(1) False that by (simp add: manager_ok_def)
qed

definition enter :: "int \<Rightarrow> ngram_pool_manager \<Rightarrow> ngram_pool_manager" where
  \<comment> \<open>the manager once the request is known\<close>
  "enter rid m = (if rid \<in> set (keys_of (start_index m)) then m
     else m\<lparr>start_index := AList.update rid 0 (start_index m),
            private_pools := if is_public_pool m then private_pools m else AList.update rid [] (private_pools m)\<rparr>)"

definition leave :: "int \<Rightarrow> int list \<Rightarrow> ngram_pool \<Rightarrow> ngram_pool_manager \<Rightarrow> ngram_pool_manager" where
  \<comment> \<open>the manager with the new pool and the new start index\<close>
  "leave rid xs pool m =
     (if is_public_pool m then m\<lparr>public_pool := pool\<rparr> else m\<lparr>private_pools := AList.update rid pool (private_pools m)\<rparr>)
       \<lparr>start_index := AList.update rid
         (max 0 (int (length xs) - (max_total_draft_tokens m + max_matching_ngram_size m - 1))) (start_index m)\<rparr>"

lemma looked_at_settings [simp]: "looked_at (enter r m) = looked_at m"
  "max_total_draft_tokens (enter r m) = max_total_draft_tokens m" "max_matching_ngram_size (enter r m) = max_matching_ngram_size m"
  "is_public_pool (enter r m) = is_public_pool m"
  "looked_at (leave r xs pool m) = looked_at m"
  "max_total_draft_tokens (leave r xs pool m) = max_total_draft_tokens m"
  "max_matching_ngram_size (leave r xs pool m) = max_matching_ngram_size m" "is_public_pool (leave r xs pool m) = is_public_pool m"
  by (auto simp: enter_def leave_def looked_at_def fun_eq_iff)

lemma manager_ok_enter: "manager_ok H m \<Longrightarrow> manager_ok H (enter rid m)" "rid \<in> set (keys_of (start_index (enter rid m)))"
proof -
  show "rid \<in> set (keys_of (start_index (enter rid m)))" by (auto simp: enter_def dom_update)
  assume ok: "manager_ok H m"
  then show "manager_ok H (enter rid m)"
  proof (cases "rid \<in> set (keys_of (start_index m)) \<or> is_public_pool m")
    case True
    then show ?thesis using ok by (auto simp: enter_def manager_ok_def looked_at_def)
  next
    case False
    then show ?thesis using ok by (auto simp: enter_def manager_ok_def looked_at_def pool_ok_empty)
  qed
qed

lemma looked_at_mono: "looked_at m rid H \<subseteq> looked_at m rid (insert x H)"
  by (auto simp: looked_at_def)

lemma manager_ok_leave:
  assumes "manager_ok H m" "rid \<in> set (keys_of (start_index m))"
    and "pool_ok (max_total_draft_tokens m) (max_matching_ngram_size m) (looked_at m rid (insert (rid, xs) H)) pool"
  shows "manager_ok (insert (rid, xs) H) (leave rid xs pool m)"
proof (cases "is_public_pool m")
  case True
  then show ?thesis using assms(3) looked_at_public[of m rid "insert (rid, xs) H"] by (simp add: manager_ok_def leave_def)
next
  case False
  have "pool_ok (max_total_draft_tokens m) (max_matching_ngram_size m) (looked_at m r (insert (rid, xs) H)) p"
    if "map_of (private_pools m) r = Some p" for r p
    using assms(1) False that pool_ok_mono[OF _ looked_at_mono] by (simp add: manager_ok_def)
  moreover have "dom (map_of (private_pools m)) = dom (map_of (start_index m))" using assms(1) False by (simp add: manager_ok_def)
  moreover have "private_pools (leave rid xs pool m) = AList.update rid pool (private_pools m)"
    "dom (map_of (start_index (leave rid xs pool m))) = insert rid (dom (map_of (start_index m)))"
    using False by (simp_all add: leave_def)
  ultimately show ?thesis using False assms(3) by (auto simp: manager_ok_def split: if_splits)
qed

lemma manager_ok_mono: "manager_ok H m \<Longrightarrow> manager_ok (insert x H) m"
  using pool_ok_mono[OF _ looked_at_mono] pool_ok_mono[OF _ image_mono[OF subset_insertI], of _ _ snd H "public_pool m" x]
  by (simp add: manager_ok_def)

lemma get_draft_tokens_ok:
  assumes drop: "drop_spec drop_shorter" and ok: "manager_ok H m" and d: "0 \<le> max_total_draft_tokens m"
  shows "\<exists>ds m'. get_draft_tokens drop_shorter xs rid max_len m = Inr (ds, m') \<and> manager_ok (insert (rid, xs) H) m'
    \<and> max_total_draft_tokens m' = max_total_draft_tokens m \<and> max_matching_ngram_size m' = max_matching_ngram_size m
    \<and> (ds = [] \<or> int (length ds) \<le> max_total_draft_tokens m \<and> int (length xs) + int (length ds) \<le> max_len - 1
        \<and> continues (max_matching_ngram_size m) (looked_at m rid (insert (rid, xs) H)) xs ds)"
proof (cases "max_len - 1 - int (length xs) \<le> 0")
  case True
  then show ?thesis using manager_ok_mono[OF ok] by (simp add: get_draft_tokens_def Let_def)
next
  case False
  let ?m = "enter rid m" and ?H = "looked_at m rid (insert (rid, xs) H)"
  let ?d = "max_total_draft_tokens m" and ?n = "max_matching_ngram_size m"
  note E = manager_ok_enter(1)[OF ok, of rid] manager_ok_enter(2)[of rid m]
  from manager_ok_pool[OF E] obtain pool where pool:
    "(if is_public_pool ?m then Inr (public_pool ?m) else dict_get (private_pools ?m) rid) = Inr pool"
    "pool_ok ?d ?n (looked_at m rid H) pool" by auto
  obtain start where start: "dict_get (start_index ?m) rid = Inr start"
    using E(2) by (cases "map_of (start_index ?m) rid") (auto simp: map_of_eq_None_iff)
  have "xs \<in> ?H" by (auto simp: looked_at_def)
  with update_pool_ok[OF drop, of ?m ?H pool xs "int (length xs)" "nat start"] pool_ok_mono[OF pool(2) looked_at_mono] d
  obtain pool' where pool': "update_pool drop_shorter ?m (int (length xs)) (drop (nat start) xs) pool = Inr pool'"
    "pool_ok ?d ?n ?H pool'" by auto
  from find_draft_ok[OF pool'(2), of "sizes ?n (int (length xs))" xs "is_use_oldest ?m" "max_len - 1 - int (length xs)"]
  obtain ds where ds: "find_draft (is_use_oldest ?m) xs (max_len - 1 - int (length xs)) pool' (sizes ?n (int (length xs))) = Inr ds"
    "ds = [] \<or> int (length ds) \<le> ?d \<and> length ds \<le> nat (max_len - 1 - int (length xs)) \<and> continues ?n ?H xs ds"
    by (auto simp: sizes_range)
  have call: "get_draft_tokens drop_shorter xs rid max_len m = Inr (ds, leave rid xs pool' ?m)"
    using False pool(1) start pool'(1) ds(1)
    unfolding get_draft_tokens_def Let_def enter_def[symmetric] leave_def by (cases "is_public_pool m") simp_all
  have "manager_ok (insert (rid, xs) H) (leave rid xs pool' ?m)"
    using manager_ok_leave[OF E, of xs pool'] pool'(2) by simp
  then show ?thesis using call ds(2) False by auto
qed

text \<open>Everything that can happen to the pool while its settings stay the same.\<close>

inductive ngram_run :: "drop_fn \<Rightarrow> (int \<times> int list) set \<Rightarrow> ngram_pool_manager \<Rightarrow> bool" for drop_shorter where
  start: "ngram_run drop_shorter {} (ngram_init d n keep oldest public max_req)"
| draft: "ngram_run drop_shorter H m \<Longrightarrow> get_draft_tokens drop_shorter xs rid max_len m = Inr (ds, m')
    \<Longrightarrow> ngram_run drop_shorter (insert (rid, xs) H) m'"
| release: "ngram_run drop_shorter H m \<Longrightarrow> ngram_update_resources batch m = Inr m' \<Longrightarrow> ngram_run drop_shorter H m'"

lemma ngram_release_ok:
  assumes "manager_ok H m" "\<not> is_public_pool m"
  shows "\<exists>m'. ngram_release rid m = Inr m' \<and> manager_ok H m' \<and> \<not> is_public_pool m'
    \<and> max_total_draft_tokens m' = max_total_draft_tokens m"
proof (cases "rid \<in> set (keys_of (private_pools m))")
  case True
  let ?m = "m\<lparr>private_pools := AList.delete rid (private_pools m), start_index := AList.delete rid (start_index m)\<rparr>"
  have D: "dom (map_of (private_pools m)) = dom (map_of (start_index m))" using assms by (simp add: manager_ok_def)
  have "rid \<in> dom (map_of (private_pools m))" using True by (simp add: dom_map_of_conv_image_fst)
  then obtain i where "map_of (start_index m) rid = Some i" using D by blast
  then have r: "ngram_release rid m = Inr ?m" using True by (simp add: ngram_release_def)
  have "looked_at ?m = looked_at m" by (simp add: looked_at_def fun_eq_iff)
  then have "manager_ok H ?m" using assms D by (auto simp: manager_ok_def split: if_splits)
  then show ?thesis using r assms(2) by simp
qed (use assms in \<open>simp add: ngram_release_def\<close>)

lemma ngram_update_ok:
  assumes "manager_ok H m"
  shows "\<exists>m'. ngram_update_resources batch m = Inr m' \<and> manager_ok H m' \<and> max_total_draft_tokens m' = max_total_draft_tokens m"
proof (cases "is_public_pool m")
  case False
  let ?I = "\<lambda>m'. manager_ok H m' \<and> \<not> is_public_pool m' \<and> max_total_draft_tokens m' = max_total_draft_tokens m"
  have "\<exists>m'. res_fold (\<lambda>(rid, complete) m. if complete then ngram_release rid m else Inr m) batch m = Inr m' \<and> ?I m'"
  proof (rule res_fold_invariant[of ?I])
    fix x s assume "?I s"
    then show "\<exists>s'. (\<lambda>(rid, complete) m. if complete then ngram_release rid m else Inr m) x s = Inr s' \<and> ?I s'"
      using ngram_release_ok[of H s "fst x"] by (cases x) auto
  qed (use assms False in simp)
  then show ?thesis using False by (auto simp: ngram_update_resources_def)
qed (use assms in \<open>simp add: ngram_update_resources_def\<close>)

lemma ngram_run_ok:
  assumes "drop_spec drop_shorter" "ngram_run drop_shorter H m" "0 \<le> max_total_draft_tokens m"
  shows "manager_ok H m"
  using assms(2,3)
proof induction
  case (start d n keep oldest public max_req)
  then show ?case by (simp add: manager_ok_def ngram_init_def pool_ok_empty)
next
  case (draft H m xs rid max_len ds m')
  have "max_total_draft_tokens m' = max_total_draft_tokens m"
    using draft.hyps(2) by (auto simp: get_draft_tokens_def Let_def split: if_splits)
  with draft.prems draft.IH have "manager_ok H m" "0 \<le> max_total_draft_tokens m" by simp_all
  with get_draft_tokens_ok[OF assms(1) this, of xs rid max_len] draft.hyps(2) show ?case by auto
next
  case (release H m batch m')
  have step: "max_total_draft_tokens m2 = max_total_draft_tokens m1" if "ngram_release rid m1 = Inr m2" for rid m1 m2
    using that by (auto simp: ngram_release_def split: if_splits)
  have "max_total_draft_tokens m2 = max_total_draft_tokens m1"
    if "res_fold (\<lambda>(rid, complete) m. if complete then ngram_release rid m else Inr m) b m1 = Inr m2" for b m1 m2
    using that step by (induction b arbitrary: m1) (auto split: if_splits prod.splits)
  then have "max_total_draft_tokens m' = max_total_draft_tokens m"
    using release.hyps(2) by (auto simp: ngram_update_resources_def split: if_splits)
  with release.prems release.IH have "manager_ok H m" by simp
  with ngram_update_ok[of H m batch] release.hyps(2) show ?case by auto
qed

text \<open>
  C34: n-gram drafts are continuations that really occurred. Whatever requests were drafted for and released before,
  a call never raises, nor does the release of finished requests; a draft it returns continues a suffix of the
  sequence, of at most \<open>max_matching_ngram_size\<close> tokens, exactly as a sequence seen before did (of the same request
  when pools are private), has at most \<open>max_total_draft_tokens\<close> tokens and leaves room in the maximal sequence. The set
  of the package is assumed to allow removals while it is iterated over (\<open>drop_spec\<close>).
\<close>

theorem ngram_drafts_occurred:
  assumes "drop_spec drop_shorter" "ngram_run drop_shorter H m" "0 \<le> max_total_draft_tokens m"
  shows "(\<exists>ds m'. get_draft_tokens drop_shorter xs rid max_len m = Inr (ds, m')
      \<and> (ds = [] \<or> (\<exists>k r h. 0 < k \<and> k < length xs \<and> int k \<le> max_matching_ngram_size m
            \<and> (r, h) \<in> insert (rid, xs) H \<and> (is_public_pool m \<or> r = rid)
            \<and> occurs (drop (length xs - k) xs @ ds) h)
          \<and> int (length ds) \<le> max_total_draft_tokens m \<and> int (length xs) + int (length ds) \<le> max_len - 1))
    \<and> (\<exists>m'. ngram_update_resources batch m = Inr m')"
proof -
  note ok = ngram_run_ok[OF assms]
  from get_draft_tokens_ok[OF assms(1) ok assms(3), of xs rid max_len] obtain ds m' where
    d: "get_draft_tokens drop_shorter xs rid max_len m = Inr (ds, m')"
    "ds = [] \<or> int (length ds) \<le> max_total_draft_tokens m \<and> int (length xs) + int (length ds) \<le> max_len - 1
        \<and> continues (max_matching_ngram_size m) (looked_at m rid (insert (rid, xs) H)) xs ds" by blast
  have "\<exists>k r h. 0 < k \<and> k < length xs \<and> int k \<le> max_matching_ngram_size m
            \<and> (r, h) \<in> insert (rid, xs) H \<and> (is_public_pool m \<or> r = rid) \<and> occurs (drop (length xs - k) xs @ ds) h"
    if "ds \<noteq> []" using d(2) that unfolding continues_def looked_at_def by blast
  with d ngram_update_ok[OF ok, of batch] show ?thesis by blast
qed

lemma ngram_drafts_occurred_witness:
  "\<exists>m'. get_draft_tokens drop_ref [1, 2, 3, 9, 1, 2] 7 12 (ngram_init 2 2 True True False 4) = Inr ([3, 9], m')
    \<and> occurs ([1, 2] @ [3, 9]) [1, 2, 3, 9, 1, 2 :: int]"
proof -
  have "\<exists>m'. get_draft_tokens drop_ref [1, 2, 3, 9, 1, 2] 7 12 (ngram_init 2 2 True True False 4) = Inr ([3, 9], m')"
  proof -
    have "(case get_draft_tokens drop_ref [1, 2, 3, 9, 1, 2] 7 12 (ngram_init 2 2 True True False 4) of
        Inl _ \<Rightarrow> False | Inr (d, _) \<Rightarrow> d = [3, 9])" by code_simp
    then show ?thesis by (auto split: sum.splits)
  qed
  then show ?thesis
    using ngram_drafts_occurred[OF drop_ref_spec ngram_run.start[of drop_ref 2 2 True True False 4], of "[1, 2, 3, 9, 1, 2]" 7 12 "[]"]
    by (auto simp: ngram_init_def occurs_def intro: exI[of _ "[]"])
qed

text \<open>
  When the draft length shrinks while requests run, as a draft length schedule makes it do, the pool still holds longer
  matches and hands them out: \<open>get_draft_tokens\<close> cuts a match at the end of the sequence only.
\<close>

lemma shrunk_draft_length_exceeded:
  "case get_draft_tokens drop_ref [1, 2, 3, 9, 1] 7 12 (ngram_init 3 2 True True False 4) of
     Inl _ \<Rightarrow> False
   | Inr (_, m) \<Rightarrow>
       (case get_draft_tokens drop_ref [1, 2, 3, 9, 1, 5, 1] 7 14
               (snd (update_max_total_draft_tokens 1 (drafter_init 3 3 None (Some [(1, 3), (2, 1)]), m))) of
          Inl _ \<Rightarrow> False
        | Inr (d, m') \<Rightarrow> max_total_draft_tokens m' = 1 \<and> d = [2, 3, 9])"
  by code_simp

text \<open>A request of batch index 0 is not drafted first: its request id takes the place of the index.\<close>

lemma batch_index_zero_sorts_by_id:
  "map dr_request_id (sort_key batch_key
     [\<lparr>dr_request_id = 20, py_batch_idx = Some 0, dr_tokens = [], py_orig_prompt_len = 0, py_max_new_tokens = 0, dr_draft_tokens = []\<rparr>,
      \<lparr>dr_request_id = 21, py_batch_idx = Some 1, dr_tokens = [], py_orig_prompt_len = 0, py_max_new_tokens = 0, dr_draft_tokens = []\<rparr>])
   = [21, 20]"
  by code_simp

text \<open>
  Every generation request of a batch gets its drafts, in the order of the sort key, and padding for CUDA graphs brings
  all of them to the static draft length.
\<close>

lemma draft_requests_ok:
  assumes "drop_spec drop_shorter" "ngram_run drop_shorter H m" "0 \<le> max_total_draft_tokens m"
  shows "\<exists>rs' m'. draft_requests drop_shorter rs m = Inr (rs', m') \<and> map dr_request_id rs' = map dr_request_id rs
    \<and> list_all (\<lambda>r. int (length (dr_draft_tokens r)) \<le> max_total_draft_tokens m) rs'"
  using assms(2,3)
proof (induction rs arbitrary: H m)
  case (Cons r rs)
  let ?len = "py_orig_prompt_len r + py_max_new_tokens r"
  from get_draft_tokens_ok[OF assms(1) ngram_run_ok[OF assms(1) Cons.prems] Cons.prems(2), of "dr_tokens r" "dr_request_id r" ?len]
  obtain ds m1 where d: "get_draft_tokens drop_shorter (dr_tokens r) (dr_request_id r) ?len m = Inr (ds, m1)"
    "max_total_draft_tokens m1 = max_total_draft_tokens m" "int (length ds) \<le> max_total_draft_tokens m"
    using Cons.prems(2) by fastforce
  from Cons.IH[OF ngram_run.draft[OF Cons.prems(1) d(1)]] Cons.prems(2) d(2) obtain rs' m' where
    "draft_requests drop_shorter rs m1 = Inr (rs', m')" "map dr_request_id rs' = map dr_request_id rs"
    "list_all (\<lambda>r. int (length (dr_draft_tokens r)) \<le> max_total_draft_tokens m) rs'" by auto
  then show ?case using d by simp
qed simp

lemma padded_to_static_length:
  assumes "list_all (\<lambda>r. int (length (dr_draft_tokens r)) \<le> static_max_total d) rs"
  shows "list_all (\<lambda>r. int (length (dr_draft_tokens r)) = static_max_total d) (pad_draft_tokens_for_cuda_graph d rs)"
  using assms by (auto simp: pad_draft_tokens_for_cuda_graph_def list_all_iff)

section \<open>The gate\<close>

fun gate_run :: "'f float_ops \<Rightarrow> 'f list \<Rightarrow> 'f speculation_gate \<Rightarrow> bool list \<times> 'f speculation_gate" where
  \<comment> \<open>completed requests one after the other, with what each call says of being disabled\<close>
  "gate_run ops [] g = ([], g)"
| "gate_run ops (x # xs) g = (case record_avg_decoded ops (Some x) g of ((b, _), g1) \<Rightarrow>
     (case gate_run ops xs g1 of (bs, g2) \<Rightarrow> (b # bs, g2)))"

definition last_n :: "nat \<Rightarrow> 'a list \<Rightarrow> 'a list" where
  "last_n n xs = drop (length xs - n) xs"

definition gate_ok :: "'f float_ops \<Rightarrow> nat \<Rightarrow> 'f \<Rightarrow> 'f list \<Rightarrow> 'f speculation_gate \<Rightarrow> bool" where
  \<comment> \<open>an enabled gate that has recorded the requests \<open>xs\<close>\<close>
  "gate_ok ops w t xs g \<longleftrightarrow> window g = Some (int w) \<and> threshold g = Some t \<and> \<not> disabled g
     \<and> acceptance_history g = last_n w (map (f_accepted ops) xs) \<and> num_completed_for_acceptance g = int (length xs)"

lemma last_n_snoc: "0 < n \<Longrightarrow> last_n n (xs @ [x]) = (if length (last_n n xs) < n then last_n n xs @ [x] else tl (last_n n xs) @ [x])"
proof (cases "length xs < n")
  case False
  assume "0 < n"
  then have "drop (Suc (length xs) - n) (xs @ [x]) = tl (drop (length xs - n) xs) @ [x]"
    using False by (simp add: Suc_diff_le drop_Suc tl_drop)
  then show ?thesis using False by (simp add: last_n_def)
qed (simp add: last_n_def)

lemma record_step:
  assumes g: "gate_ok ops w t xs g" and w: "0 < w"
  shows "\<exists>b a g'. record_avg_decoded ops (Some x) g = ((b, a), g') \<and> (b \<longleftrightarrow> disabled g')
    \<and> (b \<longrightarrow> w \<le> Suc (length xs) \<and> acceptance_history g' = last_n w (map (f_accepted ops) (xs @ [x])))
    \<and> (b \<longrightarrow> num_completed_for_acceptance g' = int (length xs) + 1)
    \<and> (\<not> b \<longrightarrow> gate_ok ops w t (xs @ [x]) g')"
proof -
  let ?h = "last_n w (map (f_accepted ops) xs)" and ?a = "f_accepted ops x"
  have H: "acceptance_history (roll ops (int w) ?a g) = last_n w (map (f_accepted ops) (xs @ [x]))"
    using g w last_n_snoc[OF w, of "map (f_accepted ops) xs" ?a]
    by (cases "acceptance_history g") (auto simp: roll_def gate_ok_def Let_def last_n_def)
  have R: "window (roll ops (int w) ?a g) = window g" "threshold (roll ops (int w) ?a g) = threshold g"
    "disabled (roll ops (int w) ?a g) = disabled g" "num_completed_for_acceptance (roll ops (int w) ?a g) = num_completed_for_acceptance g"
    by (simp_all add: roll_def Let_def)
  show ?thesis using g w H R by (auto simp: record_avg_decoded_def gate_ok_def Let_def)
qed

lemma disabled_is_final: "disabled g \<Longrightarrow> gate_run ops xs g = (replicate (length xs) False, g)"
  by (induction xs) (simp_all add: record_avg_decoded_def)

lemma gate_run_spec:
  assumes w: "0 < w" and "gate_ok ops w t ys g0"
  shows "\<exists>n \<le> length xs. let (bs, g) = gate_run ops xs g0 in
      acceptance_history g = last_n w (map (f_accepted ops) (ys @ take n xs)) \<and> num_completed_for_acceptance g = int (length ys + n)
      \<and> (if disabled g then 0 < n \<and> w \<le> length ys + n \<and> bs = (replicate (length xs) False)[n - 1 := True]
         else n = length xs \<and> bs = replicate (length xs) False)"
  using assms(2)
proof (induction xs arbitrary: ys g0)
  case Nil
  then show ?case by (simp add: gate_ok_def)
next
  case (Cons x xs)
  from record_step[OF Cons.prems w, of x] obtain b a g1 where
    r: "record_avg_decoded ops (Some x) g0 = ((b, a), g1)" "b \<longleftrightarrow> disabled g1"
    "b \<longrightarrow> w \<le> Suc (length ys) \<and> acceptance_history g1 = last_n w (map (f_accepted ops) (ys @ [x]))"
    "b \<longrightarrow> num_completed_for_acceptance g1 = int (length ys) + 1"
    "\<not> b \<longrightarrow> gate_ok ops w t (ys @ [x]) g1" by blast
  show ?case
  proof (cases b)
    case True
    then show ?thesis using r disabled_is_final[of g1 ops xs] by (intro exI[of _ 1]) simp
  next
    case False
    from Cons.IH[of "ys @ [x]" g1] r(5) False obtain n where
      n: "n \<le> length xs" "let (bs, g) = gate_run ops xs g1 in
        acceptance_history g = last_n w (map (f_accepted ops) ((ys @ [x]) @ take n xs))
        \<and> num_completed_for_acceptance g = int (length (ys @ [x]) + n)
        \<and> (if disabled g then 0 < n \<and> w \<le> length (ys @ [x]) + n \<and> bs = (replicate (length xs) False)[n - 1 := True]
           else n = length xs \<and> bs = replicate (length xs) False)" by blast
    obtain bs2 g2 where rest: "gate_run ops xs g1 = (bs2, g2)" by (cases "gate_run ops xs g1") auto
    show ?thesis using n r(1) rest False by (intro exI[of _ "Suc n"]) (auto split: if_splits nat.splits simp: list_update_def gr0_conv_Suc)
  qed
qed

text \<open>
  The speculation gate. After any number of completed requests the gate is either still enabled, has said so every
  time and holds the accepted lengths of the last \<open>window\<close> of them; or it was disabled by one
  request, after at least \<open>window\<close> completions, said so at that request only, and everything after it
  changes nothing: the history it keeps is that of the \<open>window\<close> requests up to the disabling one.
\<close>

theorem speculation_gate_permanent:
  fixes xs :: "'f list" and ops :: "'f float_ops" and t :: 'f
  assumes "0 < w"
  defines "bs \<equiv> fst (gate_run ops xs (gate_init ops (Some (int w)) (Some t)))"
  defines "g \<equiv> snd (gate_run ops xs (gate_init ops (Some (int w)) (Some t)))"
  shows "\<exists>n \<le> length xs.
    acceptance_history g = last_n w (map (f_accepted ops) (take n xs)) \<and> num_completed_for_acceptance g = int n
    \<and> (if disabled g then w \<le> n \<and> bs = (replicate (length xs) False)[n - 1 := True]
       else n = length xs \<and> bs = replicate (length xs) False)"
proof -
  have "gate_ok ops w t [] (gate_init ops (Some (int w)) (Some t))" by (simp add: gate_ok_def gate_init_def last_n_def)
  note R = gate_run_spec[OF assms(1) this, of xs]
  have eq: "gate_run ops xs (gate_init ops (Some (int w)) (Some t)) = (bs, g)" by (simp add: bs_def g_def)
  show ?thesis
    using R[unfolded eq Let_def prod.case append_Nil list.size(3) add_0] by (cases "disabled g") (simp_all, blast)
qed

definition nat_ops :: "nat float_ops" where
  "nat_ops = \<lparr>f_zero = 0, f_accepted = (\<lambda>x. x - 1), f_add = (+), f_sub = (-), f_div = (div), f_less = (<)\<rparr>"

lemma speculation_gate_permanent_witness:
  "fst (gate_run nat_ops [5, 1, 1, 5] (gate_init nat_ops (Some (int 2)) (Some 1))) = [False, False, True, False]
    \<and> (\<exists>n \<le> length [5, 1, 1, 5 :: nat]. acceptance_history (snd (gate_run nat_ops [5, 1, 1, 5] (gate_init nat_ops (Some (int 2)) (Some 1))))
         = last_n 2 (map (f_accepted nat_ops) (take n [5, 1, 1, 5])))"
proof -
  have "fst (gate_run nat_ops [5, 1, 1, 5] (gate_init nat_ops (Some (int 2)) (Some 1))) = [False, False, True, False]" by code_simp
  then show ?thesis using speculation_gate_permanent[where w = 2 and ops = nat_ops and xs = "[5, 1, 1, 5]" and t = 1] by auto
qed

end
