(* ===== verification/Openai_Client.thy ===== *)
theory Openai_Client
  imports Serve_Router
begin

text \<open>
  The client of the disaggregated server, \<open>serve/openai_client.py\<close>: choosing a server with the router, posting with retries, and
  telling the router that a request has finished; and the requests of \<open>serve/openai_protocol.py\<close> as far as they are read.

  The network is an argument: \<open>net url request attempt\<close> is what the HTTP library delivers for an attempt. \<open>consume\<close> stands for the
  construction of the response object and the hooks, which may raise. \<open>nxt\<close> and \<open>fin\<close> are the router's \<open>get_next_server\<close> and
  \<open>finish_request\<close>. A streamed response is a generator: the model runs it to its end, which is where its
  effects on the router and the metrics happen. Latencies are not modelled.
\<close>

section \<open>Requests\<close>

record disagg_params =
  dp_request_type :: string
  first_gen_tokens :: "int list option"
  ctx_request_id :: "int option"
  encoded_opaque_state :: "string option"
  draft_tokens :: "int list option"

record api_request =
  api_id :: int                             \<comment> \<open>\<open>id(request)\<close>\<close>
  api_chat :: bool                          \<comment> \<open>\<open>isinstance(request, ChatCompletionRequest)\<close>\<close>
  api_model :: string
  api_prompt :: oai_prompt
  api_prompt_token_ids :: oai_prompt        \<comment> \<open>\<open>PNone\<close> when it is not set\<close>
  api_stream :: bool
  api_stream_options :: "string option"
  api_ignore_eos :: bool
  api_params :: "disagg_params option"

definition router_view :: "api_request \<Rightarrow> oai_request" where
  \<comment> \<open>what the routers read of a request\<close>
  "router_view r = \<lparr>obj_id = api_id r, is_chat = api_chat r, request_type = map_option dp_request_type (api_params r),
     req_model = api_model r, prompt = api_prompt r\<rparr>"

section \<open>The network\<close>

datatype net_error =
    Client_Error                            \<comment> \<open>\<open>aiohttp.ClientError\<close> or \<open>OSError\<close>\<close>
  | Failure py_error

datatype 'd http_outcome =
    No_Response net_error
  | Response bool "net_error + 'd" "string list" "net_error option"
      \<comment> \<open>whether the content type is an event stream; status and JSON body; the pieces of the stream and how it ends\<close>

section \<open>The client\<close>

record 'r client =
  c_router :: 'r
  max_retries :: int
  total_requests :: int
  error_requests :: int
  retry_requests :: int
  completed_requests :: int

definition client_init :: "'r \<Rightarrow> int \<Rightarrow> 'r client" where
  "client_init rt retries = \<lparr>c_router = rt, max_retries = retries, total_requests = 0, error_requests = 0, retry_requests = 0,
     completed_requests = 0\<rparr>"

definition count_error :: "'r client \<Rightarrow> 'r client" where
  "count_error c = c\<lparr>error_requests := error_requests c + 1\<rparr>"

definition count_retry :: "'r client \<Rightarrow> 'r client" where
  "count_retry c = c\<lparr>retry_requests := retry_requests c + 1\<rparr>"

definition finish_request :: "(api_request \<Rightarrow> 'r \<Rightarrow> unit result \<times> 'r) \<Rightarrow> api_request \<Rightarrow> 'r client \<Rightarrow> unit result \<times> 'r client" where
  "finish_request fin r c =
     (case fin r (c_router c) of (res, rt) \<Rightarrow> (res, c\<lparr>completed_requests := completed_requests c + 1, c_router := rt\<rparr>))"

definition raise_after :: "net_error \<Rightarrow> unit result \<times> 'r client \<Rightarrow> net_error \<times> 'r client" where
  \<comment> \<open>\<open>finish_request(); raise\<close>: an exception of the first replaces the other\<close>
  "raise_after e fc = (case fc of (Inl e', c) \<Rightarrow> (Failure e', c) | (Inr _, c) \<Rightarrow> (e, c))"

definition json_body :: "'d http_outcome \<Rightarrow> net_error + 'd" where
  \<comment> \<open>an attempt without streaming, up to the decoded body\<close>
  "json_body out = (case out of
      No_Response e \<Rightarrow> Inl e
    | Response event_stream body _ _ \<Rightarrow> if event_stream then Inl (Failure ValueError) else body)"

fun post_json :: "(api_request \<Rightarrow> 'r \<Rightarrow> unit result \<times> 'r) \<Rightarrow> (int \<Rightarrow> 'd http_outcome) \<Rightarrow> ('d \<Rightarrow> 'v result) \<Rightarrow> api_request \<Rightarrow> int list
    \<Rightarrow> 'r client \<Rightarrow> (net_error + 'v option) \<times> 'r client" where
  \<comment> \<open>\<open>_post_with_retry\<close> without streaming, together with the loop of \<open>_send_request\<close> that consumes it\<close>
  "post_json fin net consume r [] c = (Inr None, c)"
| "post_json fin net consume r (a # as) c =
     (case json_body (net a) of
        Inl Client_Error \<Rightarrow>
          if a = max_retries c then (Inl Client_Error, c) else post_json fin net consume r as (count_retry c)
      | Inl (Failure e) \<Rightarrow> (Inl (Failure e), c)
      | Inr d \<Rightarrow>
          (case consume d of
             Inl e \<Rightarrow> (Inl (Failure e), c)
           | Inr v \<Rightarrow>
               (case finish_request fin r c of
                  (Inl e, c1) \<Rightarrow> (Inl (Failure e), c1)
                | (Inr _, c1) \<Rightarrow> (Inr (Some v), c1))))"

definition stream_attempt :: "(api_request \<Rightarrow> 'r \<Rightarrow> unit result \<times> 'r) \<Rightarrow> api_request \<Rightarrow> 'd http_outcome \<Rightarrow> 'r client
    \<Rightarrow> string list \<times> net_error option \<times> 'r client" where
  \<comment> \<open>\<open>_response_generator\<close> of one attempt: the lines it yields, the exception that leaves it\<close>
  "stream_attempt fin r out c = (case out of
      No_Response e \<Rightarrow> ([], Some e, c)
    | Response event_stream _ pieces end_error \<Rightarrow>
        if \<not> event_stream then ([], Some (Failure AssertionError), c)
        else
          let ls = filter (\<lambda>l. l \<noteq> []) pieces in
          (case end_error of
             None \<Rightarrow> (case finish_request fin r c of (Inl e, c1) \<Rightarrow> (ls, Some (Failure e), c1) | (Inr _, c1) \<Rightarrow> (ls, None, c1))
           | Some e \<Rightarrow> (case raise_after e (finish_request fin r (count_error c)) of (e', c1) \<Rightarrow> (ls, Some e', c1))))"

fun post_stream :: "(api_request \<Rightarrow> 'r \<Rightarrow> unit result \<times> 'r) \<Rightarrow> (int \<Rightarrow> 'd http_outcome) \<Rightarrow> api_request \<Rightarrow> int list
    \<Rightarrow> 'r client \<Rightarrow> string list \<times> net_error option \<times> 'r client" where
  \<comment> \<open>\<open>_post_with_retry\<close> with streaming\<close>
  "post_stream fin net r [] c = ([], None, c)"
| "post_stream fin net r (a # as) c =
     (case stream_attempt fin r (net a) c of
        (ls, None, c1) \<Rightarrow> (ls, None, c1)
      | (ls, Some (Failure e), c1) \<Rightarrow> (ls, Some (Failure e), c1)
      | (ls, Some Client_Error, c1) \<Rightarrow>
          if ls \<noteq> [] \<or> a = max_retries c1 then (ls, Some Client_Error, c1) else post_stream fin net r as (count_retry c1))"

datatype 'v answer = Answer "'v option" | Stream_Lines "string list" "net_error option"

definition attempts :: "'r client \<Rightarrow> int list" where
  "attempts c = py_range 0 (max_retries c + 1)"

definition url_to :: "string \<Rightarrow> api_request \<Rightarrow> string" where
  \<comment> \<open>the endpoint that \<open>send_request\<close> chooses, at a server\<close>
  "url_to server r = ''http://'' @ server @ ''/'' @ (if api_chat r then ''v1/chat/completions'' else ''v1/completions'')"

definition send_to :: "(api_request \<Rightarrow> 'r \<Rightarrow> unit result \<times> 'r) \<Rightarrow> (string \<Rightarrow> api_request \<Rightarrow> int \<Rightarrow> 'd http_outcome)
    \<Rightarrow> (string \<Rightarrow> api_request \<Rightarrow> 'd \<Rightarrow> 'v result) \<Rightarrow> api_request \<Rightarrow> string \<Rightarrow> 'r client \<Rightarrow> (net_error + 'v answer) \<times> 'r client" where
  \<comment> \<open>\<open>_send_request\<close> once the server is known; the debug message reads \<open>request.disaggregated_params.ctx_request_id\<close>\<close>
  "send_to fin net consume r server c =
     (if api_params r = None then (Inl (Failure AttributeError), c)
      else
        let c0 = c\<lparr>total_requests := total_requests c + 1\<rparr> in
        if api_stream r then
          (case post_stream fin (net (url_to server r) r) r (attempts c0) c0 of (ls, e, c1) \<Rightarrow> (Inr (Stream_Lines ls e), c1))
        else
          (case post_json fin (net (url_to server r) r) (consume server r) r (attempts c0) c0 of
             (Inl e, c1) \<Rightarrow> (case raise_after e (finish_request fin r (count_error c1)) of (e', c2) \<Rightarrow> (Inl e', c2))
           | (Inr v, c1) \<Rightarrow> (Inr (Answer v), c1)))"

definition send_request :: "(api_request \<Rightarrow> 'r \<Rightarrow> string result \<times> 'r) \<Rightarrow> (api_request \<Rightarrow> 'r \<Rightarrow> unit result \<times> 'r)
    \<Rightarrow> (string \<Rightarrow> api_request \<Rightarrow> int \<Rightarrow> 'd http_outcome) \<Rightarrow> (string \<Rightarrow> api_request \<Rightarrow> 'd \<Rightarrow> 'v result) \<Rightarrow> api_request \<Rightarrow> string option
    \<Rightarrow> 'r client \<Rightarrow> (net_error + 'v answer) \<times> 'r client" where
  "send_request nxt fin net consume r server c =
     (case server of
        Some s \<Rightarrow> send_to fin net consume r s c
      | None \<Rightarrow>
          (case nxt r (c_router c) of
             (Inl e, rt) \<Rightarrow> (Inl (Failure e), c\<lparr>c_router := rt\<rparr>)
           | (Inr s, rt) \<Rightarrow> send_to fin net consume r s (c\<lparr>c_router := rt\<rparr>)))"

definition check_ready :: "(string \<Rightarrow> bool) \<Rightarrow> string list \<Rightarrow> string list \<times> string list" where
  \<comment> \<open>\<open>healthy url\<close> is whether the health endpoint answers 200\<close>
  "check_ready healthy ss =
     (let rs = map (\<lambda>s. healthy (if starts_with ''http://'' s then s @ ''/health'' else ''http://'' @ s @ ''/health'')) ss in
      (map fst (filter snd (zip ss rs)), map fst (filter (\<lambda>(_, ready). \<not> ready) (zip ss rs))))"

section \<open>Requests without streaming\<close>

definition no_contact :: "(int \<Rightarrow> 'd http_outcome) \<Rightarrow> int \<Rightarrow> bool" where
  "no_contact net a \<longleftrightarrow> json_body (net a) = Inl Client_Error"

definition verdict :: "(int \<Rightarrow> 'd http_outcome) \<Rightarrow> ('d \<Rightarrow> 'v result) \<Rightarrow> int list \<Rightarrow> net_error + 'v option" where
  \<comment> \<open>the specification: the first attempt that makes contact decides\<close>
  "verdict net consume as = (case find (\<lambda>a. \<not> no_contact net a) as of
      None \<Rightarrow> Inl Client_Error
    | Some a \<Rightarrow>
        (case json_body (net a) of
           Inl e \<Rightarrow> Inl e
         | Inr d \<Rightarrow> (case consume d of Inl e \<Rightarrow> Inl (Failure e) | Inr v \<Rightarrow> Inr (Some v))))"

definition retries :: "(int \<Rightarrow> 'd http_outcome) \<Rightarrow> 'r client \<Rightarrow> int" where
  "retries net c = min (max_retries c) (int (length (takeWhile (no_contact net) (attempts c))))"

lemma post_json_verdict:
  assumes "fin r (c_router c) = (Inr (), rt)" "a \<le> max_retries c"
  shows "post_json fin net consume r (py_range a (max_retries c + 1)) c =
    (let v = verdict net consume (py_range a (max_retries c + 1));
         c1 = c\<lparr>retry_requests := retry_requests c
                + min (max_retries c - a) (int (length (takeWhile (no_contact net) (py_range a (max_retries c + 1)))))\<rparr> in
     (v, if isl v then c1 else c1\<lparr>completed_requests := completed_requests c + 1, c_router := rt\<rparr>))"
  using assms
proof (induction "nat (max_retries c - a)" arbitrary: a c)
  case 0
  then have a: "a = max_retries c" by simp
  then have "py_range a (max_retries c + 1) = [a]" by (simp add: py_range_def)
  then show ?case using 0(2) a
    by (auto simp: verdict_def no_contact_def finish_request_def Let_def split: sum.splits net_error.splits)
next
  case (Suc n)
  then have lt: "a < max_retries c" by simp
  then have rng: "py_range a (max_retries c + 1) = a # py_range (a + 1) (max_retries c + 1)" by (simp add: py_range_rec)
  show ?case
  proof (cases "no_contact net a")
    case True
    then have "post_json fin net consume r (py_range a (max_retries c + 1)) c =
      post_json fin net consume r (py_range (a + 1) (max_retries (count_retry c) + 1)) (count_retry c)"
      using lt by (simp add: rng no_contact_def count_retry_def)
    moreover have "verdict net consume (py_range a (max_retries c + 1)) = verdict net consume (py_range (a + 1) (max_retries c + 1))"
      using True by (simp add: rng verdict_def)
    moreover have "retry_requests c + 1 + min (max_retries c - (a + 1)) n = retry_requests c + min (max_retries c - a) (1 + n)" for n
      by linarith
    ultimately show ?thesis using Suc.hyps(1)[of "count_retry c" "a + 1"] Suc.hyps(2) Suc.prems True lt
      by (simp add: rng count_retry_def Let_def)
  next
    case False
    then show ?thesis using Suc.prems lt
      by (auto simp: rng verdict_def no_contact_def finish_request_def Let_def split: sum.splits net_error.splits)
  qed
qed

lemma send_json_exact:
  assumes "\<not> api_stream r" "api_params r \<noteq> None" "0 \<le> max_retries c" "fin r (c_router c) = (Inr (), rt)"
  shows "send_to fin net consume r s c =
    (let v = verdict (net (url_to s r) r) (consume s r) (attempts c) in
     (map_sum id Answer v,
      c\<lparr>c_router := rt, total_requests := total_requests c + 1, completed_requests := completed_requests c + 1,
        error_requests := error_requests c + (if isl v then 1 else 0), retry_requests := retry_requests c + retries (net (url_to s r) r) c\<rparr>))"
proof -
  let ?c = "c\<lparr>total_requests := total_requests c + 1\<rparr>"
  note p = post_json_verdict[of fin r ?c rt 0 "net (url_to s r) r" "consume s r"]
  show ?thesis using p assms
    by (auto simp: send_to_def Let_def attempts_def retries_def raise_after_def finish_request_def count_error_def isl_def
        split: sum.splits)
qed

lemma verdict_answers: "verdict net consume as = Inr v \<Longrightarrow> v \<noteq> None"
  by (auto simp: verdict_def split: option.splits sum.splits)

section \<open>What the client needs from a router\<close>

text \<open>
  A router that can be released: when it has routed a request, finishing the request succeeds and brings back everything
  observable.
\<close>

locale releasing_router =
  fixes ready :: "api_request \<Rightarrow> 'r \<Rightarrow> bool"
    and observe :: "'r \<Rightarrow> 'o"
    and nxt :: "api_request \<Rightarrow> 'r \<Rightarrow> string result \<times> 'r"
    and fin :: "api_request \<Rightarrow> 'r \<Rightarrow> unit result \<times> 'r"
  assumes route_release: "ready r rt \<Longrightarrow> \<exists>s rt1 rt2. nxt r rt = (Inr s, rt1) \<and> fin r rt1 = (Inr (), rt2) \<and> observe rt2 = observe rt
      \<and> (\<forall>q. ready q rt2 = ready q rt)"
begin

lemma send_releases:
  assumes "ready r (c_router c)" "\<not> api_stream r" "api_params r \<noteq> None" "0 \<le> max_retries c"
  obtains s c1 v where "send_request nxt fin net consume r None c = (map_sum id Answer v, c1)"
    "v = verdict (net (url_to s r) r) (consume s r) (attempts c)"
    "observe (c_router c1) = observe (c_router c)" "\<And>q. ready q (c_router c1) = ready q (c_router c)"
    "completed_requests c1 = completed_requests c + 1" "max_retries c1 = max_retries c"
proof -
  from route_release[OF assms(1)] obtain s rt1 rt2 where rt: "nxt r (c_router c) = (Inr s, rt1)" "fin r rt1 = (Inr (), rt2)"
    "observe rt2 = observe (c_router c)" "\<And>q. ready q rt2 = ready q (c_router c)" by auto
  have "attempts (c\<lparr>c_router := rt1\<rparr>) = attempts c" by (simp add: attempts_def)
  then have "send_request nxt fin net consume r None c =
     (let v = verdict (net (url_to s r) r) (consume s r) (attempts c) in
      (map_sum id Answer v, c\<lparr>c_router := rt2, total_requests := total_requests c + 1, completed_requests := completed_requests c + 1,
         error_requests := error_requests c + (if isl v then 1 else 0),
         retry_requests := retry_requests c + retries (net (url_to s r) r) (c\<lparr>c_router := rt1\<rparr>)\<rparr>))"
    using send_json_exact[of r "c\<lparr>c_router := rt1\<rparr>" fin rt2 net consume s] assms(2-4) rt(1,2)
    by (simp add: send_request_def Let_def split del: if_split)
  then show ?thesis unfolding Let_def by (rule that) (simp_all add: rt(3,4))
qed

end

section \<open>The routers\<close>

abbreviation lb_nxt :: "api_request \<Rightarrow> lb_router \<Rightarrow> string result \<times> lb_router" where
  "lb_nxt r \<equiv> lb_get_next_server (router_view r)"

abbreviation lb_fin :: "api_request \<Rightarrow> lb_router \<Rightarrow> unit result \<times> lb_router" where
  "lb_fin r \<equiv> lb_finish_request (router_view r)"

definition lb_ready :: "api_request \<Rightarrow> lb_router \<Rightarrow> bool" where
  \<comment> \<open>there are servers, the request is supported and not yet routed\<close>
  "lb_ready r rt \<longleftrightarrow> lb_inv rt \<and> servers rt \<noteq> [] \<and> lb_supported rt (router_view r) \<and> map_of (routing_table rt) (api_id r) = None"

definition lb_observe :: "lb_router \<Rightarrow> string list \<times> (string \<Rightarrow> int) \<times> (int, string) dict \<times> bool" where
  "lb_observe rt = (servers rt, lb_load rt, routing_table rt, use_tokens rt)"

lemma delete_update_fresh: "map_of d k = None \<Longrightarrow> AList.delete k (AList.update k v d) = d"
  by (auto simp: update_new map_of_eq_None_iff AList.delete_eq filter_id_conv image_iff)

lemma lb_route_release:
  assumes "lb_ready r rt"
  shows "\<exists>s rt1 rt2. lb_nxt r rt = (Inr s, rt1) \<and> lb_fin r rt1 = (Inr (), rt2) \<and> lb_observe rt2 = lb_observe rt
    \<and> (\<forall>q. lb_ready q rt2 = lb_ready q rt)"
proof -
  let ?q = "router_view r"
  have id: "obj_id ?q = api_id r" by (simp add: router_view_def)
  from assms have inv: "lb_inv rt" "servers rt \<noteq> []" "lb_supported rt ?q" and fresh: "map_of (routing_table rt) (api_id r) = None"
    by (simp_all add: lb_ready_def)
  obtain s st h where 1: "s \<in> set (servers rt)"
    "lb_nxt r rt = (Inr s, lb_touch s st h (AList.update (api_id r) s (routing_table rt)) rt)"
    "lb_load (lb_touch s st h (AList.update (api_id r) s (routing_table rt)) rt) s = lb_load rt s + req_weight rt ?q"
    "lb_inv (lb_touch s st h (AList.update (api_id r) s (routing_table rt)) rt)"
    using lb_get_next_step[OF inv] unfolding id by metis
  let ?rt1 = "lb_touch s st h (AList.update (api_id r) s (routing_table rt)) rt"
  have tok: "ss_use_tokens st = use_tokens rt" using 1(1,4) lb_inv_lookup[OF 1(4), of s] by auto
  then obtain st2 where st2: "decrement_load ?q st = Inr st2" "ss_use_tokens st2 = use_tokens rt"
    "(if use_tokens rt then num_active_tokens st2 else num_active_requests st2) = lb_load ?rt1 s - req_weight rt ?q"
    using inv(3) by (auto simp: decrement_load_def load_tokens_def lb_supported_def req_weight_def split: if_splits)
  define rt2 where "rt2 = lb_touch s st2 (load_heap ?rt1) (routing_table rt) ?rt1"
  have f: "lb_fin r ?rt1 = (Inr (), rt2)"
    using st2 fresh by (simp add: lb_finish_request_def id rt2_def Let_def get_server_load_def lb_touch_def lb_load_def delete_update_fresh)
  have l: "lb_load rt2 k = lb_load rt k" for k using st2(3) 1(3) by (simp add: rt2_def)
  have "sorted (load_heap ?rt1)" using 1(4) by (simp add: lb_inv_def)
  then have "lb_inv rt2" unfolding rt2_def using 1(1) st2(2) by (intro lb_touch_inv[OF 1(4)]) simp_all
  then have "lb_observe rt2 = lb_observe rt" "\<And>q. lb_ready q rt2 = lb_ready q rt"
    using l inv(1) by (auto simp: lb_observe_def rt2_def fun_eq_iff lb_ready_def lb_supported_def)
  then show ?thesis using 1(2) f by blast
qed

interpretation lb_client: releasing_router lb_ready lb_observe lb_nxt lb_fin
  by unfold_locales (rule lb_route_release)

abbreviation rr_fin :: "api_request \<Rightarrow> rr_router \<Rightarrow> unit result \<times> rr_router" where
  "rr_fin r rt \<equiv> (Inr (), rt)"

interpretation rr_client: releasing_router "\<lambda>r rt. rr_inv rt \<and> servers rt \<noteq> []" servers "\<lambda>r. rr_next (router_view r)" rr_fin
proof
  fix r :: api_request and rt :: rr_router
  assume "rr_inv rt \<and> servers rt \<noteq> []"
  with rr.nxt_ok[of rt] show "\<exists>s rt1 rt2. rr_next (router_view r) rt = (Inr s, rt1) \<and> rr_fin r rt1 = (Inr (), rt2)
      \<and> servers rt2 = servers rt \<and> (\<forall>q. (rr_inv rt2 \<and> servers rt2 \<noteq> []) = (rr_inv rt \<and> servers rt \<noteq> []))" by auto
qed

section \<open>Streamed requests\<close>

text \<open>
  A streamed request is finished inside the response generator, so once for every attempt that reaches an event stream. With a
  router that has routed the request once, exactly one such attempt is right; a server that cannot be reached has
  none, and a stream that breaks before its first piece and is retried has two.
\<close>

lemma post_stream_one:
  assumes "net a = Response True body pieces None" "fin r (c_router c) = (Inr (), rt)"
  shows "post_stream fin net r (a # as) c =
    (filter (\<lambda>l. l \<noteq> []) pieces, None, c\<lparr>completed_requests := completed_requests c + 1, c_router := rt\<rparr>)"
  using assms by (simp add: stream_attempt_def finish_request_def Let_def)

lemma post_stream_unreachable:
  assumes "\<And>a. a \<in> set as \<Longrightarrow> net a = No_Response Client_Error" "as \<noteq> []" "last as = max_retries c" "max_retries c \<notin> set (butlast as)"
  shows "post_stream fin net r as c = ([], Some Client_Error, c\<lparr>retry_requests := retry_requests c + int (length as) - 1\<rparr>)"
  using assms
proof (induction as arbitrary: c)
  case (Cons a as)
  show ?case
  proof (cases "as = []")
    case True
    then show ?thesis using Cons.prems by (simp add: stream_attempt_def)
  next
    case False
    then have "a \<noteq> max_retries c" using Cons.prems(4) by auto
    then have "post_stream fin net r (a # as) c = post_stream fin net r as (count_retry c)"
      using Cons.prems(1) by (simp add: stream_attempt_def)
    also have "\<dots> = ([], Some Client_Error, (count_retry c)\<lparr>retry_requests := retry_requests (count_retry c) + int (length as) - 1\<rparr>)"
      using Cons.prems False by (intro Cons.IH) (auto simp: count_retry_def)
    finally show ?thesis by (simp add: count_retry_def)
  qed
qed simp

lemma attempts_last:
  assumes "0 \<le> max_retries c"
  shows "attempts c \<noteq> []" "last (attempts c) = max_retries c" "max_retries c \<notin> set (butlast (attempts c))"
proof -
  have "attempts c = py_range 0 (max_retries c) @ [max_retries c]"
    using assms by (simp add: attempts_def py_range_def nat_add_distrib)
  then show "attempts c \<noteq> []" "last (attempts c) = max_retries c" "max_retries c \<notin> set (butlast (attempts c))" by simp_all
qed

text \<open>
  A request that cannot be delivered. When no attempt gets a response, a request without streaming raises
  after \<open>max_retries\<close> retries and is finished once in the router; the same request with streaming ends with the same error and
  the router is never told: it keeps counting the request as active.
\<close>

theorem undelivered_requests:
  assumes "0 \<le> max_retries c" "api_params r \<noteq> None" "\<And>a. net (url_to s r) r a = No_Response Client_Error"
    and "fin r (c_router c) = (Inr (), rt)"
  defines "c' \<equiv> c\<lparr>total_requests := total_requests c + 1, retry_requests := retry_requests c + max_retries c\<rparr>"
  shows "send_to fin net consume r s c =
      (if api_stream r then (Inr (Stream_Lines [] (Some Client_Error)), c')
       else (Inl Client_Error, c'\<lparr>c_router := rt, completed_requests := completed_requests c + 1, error_requests := error_requests c + 1\<rparr>))"
proof (cases "api_stream r")
  case False
  have nc: "no_contact (net (url_to s r) r) a" for a by (simp add: no_contact_def assms(3) json_body_def)
  have f: "find (\<lambda>a. \<not> no_contact (net (url_to s r) r) a) as = None" for as using nc by (simp add: find_None_iff)
  have v: "verdict (net (url_to s r) r) (consume s r) (attempts c) = Inl Client_Error" by (simp add: verdict_def f)
  have tw: "takeWhile (no_contact (net (url_to s r) r)) (attempts c) = attempts c" using nc by simp
  have "retries (net (url_to s r) r) c = max_retries c" unfolding retries_def tw using assms(1) by (simp add: attempts_def)
  then show ?thesis
    using send_json_exact[of r c fin rt net consume s] assms(1,2,4) v False by (simp add: c'_def)
next
  case True
  let ?c = "c\<lparr>total_requests := total_requests c + 1\<rparr>"
  have "post_stream fin (net (url_to s r) r) r (attempts ?c) ?c =
      ([], Some Client_Error, ?c\<lparr>retry_requests := retry_requests ?c + int (length (attempts ?c)) - 1\<rparr>)"
    using attempts_last[of ?c] assms(1,3) by (intro post_stream_unreachable) auto
  then show ?thesis using assms(1,2) True by (simp add: send_to_def c'_def attempts_def)
qed

section \<open>Examples\<close>

definition example_api :: "bool \<Rightarrow> api_request" where
  "example_api stream = \<lparr>api_id = 7, api_chat = False, api_model = ''m'', api_prompt = PStr ''hi'', api_prompt_token_ids = PNone,
     api_stream = stream, api_stream_options = None, api_ignore_eos = False,
     api_params = Some \<lparr>dp_request_type = ''context_only'', first_gen_tokens = None, ctx_request_id = None,
       encoded_opaque_state = None, draft_tokens = None\<rparr>\<rparr>"

definition example_client :: "lb_router client" where
  \<comment> \<open>the request has been routed\<close>
  "example_client = client_init (snd (lb_nxt (example_api True) example_lb)) 1"

lemma undelivered_requests_witness:
  "fst (send_to lb_fin (\<lambda>_ _ _. No_Response Client_Error) (\<lambda>_ _ (d :: unit). Inr d) (example_api False) ''a'' example_client) = Inl Client_Error
   \<and> fst (send_to lb_fin (\<lambda>_ _ _. No_Response Client_Error) (\<lambda>_ _ (d :: unit). Inr d) (example_api True) ''a'' example_client)
     = Inr (Stream_Lines [] (Some Client_Error))"
proof -
  have m: "0 \<le> max_retries example_client" by (simp add: example_client_def client_init_def)
  have p: "api_params (example_api b) \<noteq> None" for b by (simp add: example_api_def)
  have "fst (lb_fin (example_api True) (c_router example_client)) = Inr ()" "fst (lb_fin (example_api False) (c_router example_client)) = Inr ()"
    by code_simp+
  then have f: "\<exists>rt. lb_fin (example_api b) (c_router example_client) = (Inr (), rt)" for b
    by (cases b) (metis prod.collapse)+
  obtain rt1 where 1: "lb_fin (example_api False) (c_router example_client) = (Inr (), rt1)" using f by blast
  obtain rt2 where 2: "lb_fin (example_api True) (c_router example_client) = (Inr (), rt2)" using f by blast
  show ?thesis
    using undelivered_requests[where c = example_client and r = "example_api False" and fin = lb_fin and rt = rt1
        and net = "\<lambda>_ _ _. No_Response Client_Error" and s = "''a''" and consume = "\<lambda>_ _ (d :: unit). Inr d"]
      undelivered_requests[where c = example_client and r = "example_api True" and fin = lb_fin and rt = rt2
        and net = "\<lambda>_ _ _. No_Response Client_Error" and s = "''a''" and consume = "\<lambda>_ _ (d :: unit). Inr d"] m p 1 2
    by (simp add: example_api_def)
qed

text \<open>
  A stream that breaks before its first piece finishes the request; the retry succeeds and finishes it again, which the
  load-balancing router answers with a \<open>KeyError\<close> behind the complete response.
\<close>

lemma retried_stream_raises:
  "fst (send_to lb_fin
      (\<lambda>_ _ a. if a = 0 then Response True (Inl Client_Error :: net_error + unit) [] (Some Client_Error) else Response True (Inl Client_Error) [''data''] None)
      (\<lambda>_ _ d. Inr d) (example_api True) ''a'' example_client)
   = Inr (Stream_Lines [''data''] (Some (Failure KeyError)))"
  by code_simp

text \<open>An error answered in JSON to a streamed request is an assertion failure, and the request is not finished either.\<close>

lemma stream_answered_in_json:
  "(let (res, c) = send_to lb_fin (\<lambda>_ _ a. Response False (Inl Client_Error :: net_error + unit) [] None) (\<lambda>_ _ d. Inr d)
      (example_api True) ''a'' example_client in
    res = Inr (Stream_Lines [] (Some (Failure AssertionError))) \<and> completed_requests c = 0)"
  by code_simp

end
