(* ===== verification/Cluster_Storage.thy ===== *)
theory Cluster_Storage
  imports Py_Prelude
begin

text \<open>
  The key-value store of a disaggregated cluster, \<open>HttpClusterStorageServer\<close> of \<open>serve/cluster_storage.py\<close>: values with
  an optional time to live, and watchers that receive an event for every change below a key prefix.

  The server runs on one \<open>asyncio\<close> event loop. Nothing that its methods await suspends: the queues of events are unbounded and filled
  with \<open>put_nowait\<close>, and a lock that is never held across a suspension is never contended. So a method runs without
  interruption and is a function of the whole state, also \<open>_check_expired\<close>, which notifies after it has released the lock. The
  argument \<open>now\<close> is \<open>key_time()\<close>, in the unit of the time to live (the rounding of floating-point seconds is not
  modelled). An \<open>asyncio\<close> queue is the list of its pending events. The routes, the HTTP client and the etcd
  client are not modelled.
\<close>

section \<open>State\<close>

record storage_item =
  item_key :: string
  item_value :: string
  expire_time :: int
  ttl :: int
  overwrite_if_exists :: bool

datatype watch_event_type = SET | DELETE

record watch_event =
  event_item :: storage_item
  event_type :: watch_event_type

record storage_server =
  stored :: "(string, storage_item) dict"
  watch_handles :: "(string, watch_event list) dict"

definition storage_init :: storage_server where
  "storage_init = \<lparr>stored = [], watch_handles = []\<rparr>"

section \<open>Operations\<close>

definition notify_watch_event :: "string \<Rightarrow> storage_item \<Rightarrow> watch_event_type \<Rightarrow> storage_server \<Rightarrow> storage_server" where
  "notify_watch_event key it ty s =
     s\<lparr>watch_handles := map (\<lambda>(p, q). (p, if starts_with p key then q @ [\<lparr>event_item = it, event_type = ty\<rparr>] else q)) (watch_handles s)\<rparr>"

definition set_item :: "int \<Rightarrow> storage_item \<Rightarrow> storage_server \<Rightarrow> bool \<times> storage_server" where
  "set_item now it s =
     (if item_key it \<in> set (keys_of (stored s)) \<and> \<not> overwrite_if_exists it then (False, s)
      else
        let it' = (if expire_time it < 0 \<and> ttl it \<noteq> 0 \<and> ttl it > 0 then it\<lparr>expire_time := now + ttl it\<rparr> else it);
            s1 = s\<lparr>stored := AList.update (item_key it') it' (stored s)\<rparr> in
        (True, notify_watch_event (item_key it') it' SET s1))"

definition storage_set :: "int \<Rightarrow> string \<Rightarrow> string \<Rightarrow> bool \<Rightarrow> int \<Rightarrow> storage_server \<Rightarrow> bool \<times> storage_server" where
  "storage_set now key val overwrite t =
     set_item now \<lparr>item_key = key, item_value = val, expire_time = - 1, ttl = t, overwrite_if_exists = overwrite\<rparr>"

definition remove_key :: "string \<Rightarrow> storage_item \<Rightarrow> storage_server \<Rightarrow> storage_server" where
  "remove_key key it s =
     (let s1 = notify_watch_event key it DELETE s in s1\<lparr>stored := AList.delete key (stored s1)\<rparr>)"

definition storage_get :: "int \<Rightarrow> string \<Rightarrow> storage_server \<Rightarrow> string option \<times> storage_server" where
  "storage_get now key s =
     (case map_of (stored s) key of
        None \<Rightarrow> (None, s)
      | Some it \<Rightarrow>
          if expire_time it < 0 \<or> expire_time it > now then (Some (item_value it), s) else (None, remove_key key it s))"

definition storage_expire :: "int \<Rightarrow> string \<Rightarrow> int \<Rightarrow> storage_server \<Rightarrow> bool \<times> storage_server" where
  "storage_expire now key t s =
     (case map_of (stored s) key of
        None \<Rightarrow> (False, s)
      | Some it \<Rightarrow> (True, s\<lparr>stored := AList.update key (it\<lparr>expire_time := now + t\<rparr>) (stored s)\<rparr>))"

definition storage_delete :: "string \<Rightarrow> storage_server \<Rightarrow> bool \<times> storage_server" where
  "storage_delete key s =
     (case map_of (stored s) key of None \<Rightarrow> (False, s) | Some it \<Rightarrow> (True, remove_key key it s))"

definition get_prefix :: "string \<Rightarrow> bool \<Rightarrow> storage_server \<Rightarrow> (string, string) dict" where
  "get_prefix p keys_only s =
     map (\<lambda>(k, it). (k, if keys_only then [] else item_value it)) (filter (\<lambda>(k, it). starts_with p k) (stored s))"

definition storage_watch :: "string \<Rightarrow> storage_server \<Rightarrow> storage_server" where
  "storage_watch p s =
     (if p \<in> set (keys_of (watch_handles s)) then s else s\<lparr>watch_handles := AList.update p [] (watch_handles s)\<rparr>)"

definition storage_unwatch :: "string \<Rightarrow> storage_server \<Rightarrow> storage_server result" where
  "storage_unwatch p s =
     (if p \<in> set (keys_of (watch_handles s)) then Inr (s\<lparr>watch_handles := AList.delete p (watch_handles s)\<rparr>) else Inl KeyError)"

definition check_expired :: "int \<Rightarrow> storage_server \<Rightarrow> storage_server" where
  \<comment> \<open>one round of \<open>_check_expired\<close>\<close>
  "check_expired now s =
     (let doomed = filter (\<lambda>(k, it). expire_time it > 0 \<and> expire_time it < now) (stored s);
          s1 = s\<lparr>stored := fold (\<lambda>(k, _). AList.delete k) doomed (stored s)\<rparr> in
      fold (\<lambda>(k, it). notify_watch_event k it DELETE) doomed s1)"

definition drain_events :: "string \<Rightarrow> storage_server \<Rightarrow> (watch_event list \<times> storage_server) option" where
  \<comment> \<open>\<open>WatchEventQueue.drain\<close> of a watched prefix; \<open>None\<close> while it waits for an event\<close>
  "drain_events p s =
     (case map_of (watch_handles s) p of
        Some (e # q) \<Rightarrow> Some (e # q, s\<lparr>watch_handles := AList.update p [] (watch_handles s)\<rparr>)
      | _ \<Rightarrow> None)"

definition add_events :: "string \<Rightarrow> watch_event list \<Rightarrow> storage_server \<Rightarrow> storage_server" where
  "add_events p evs s =
     (case map_of (watch_handles s) p of
        None \<Rightarrow> s
      | Some q \<Rightarrow> s\<lparr>watch_handles := AList.update p (q @ evs) (watch_handles s)\<rparr>)"

section \<open>Watching\<close>

text \<open>
  What a client relies on: replaying the pending events of its prefix over what it last knew gives what is stored now, and
  an event that removes a key comes only when the key is known. \<open>V\<close> says which values may be stored.
\<close>

definition replay1 :: "watch_event \<Rightarrow> (string \<rightharpoonup> string) \<Rightarrow> (string \<rightharpoonup> string)" where
  "replay1 e f = f(item_key (event_item e) := (case event_type e of SET \<Rightarrow> Some (item_value (event_item e)) | DELETE \<Rightarrow> None))"

definition event_ok :: "(string \<Rightarrow> string \<Rightarrow> bool) \<Rightarrow> watch_event \<Rightarrow> (string \<rightharpoonup> string) \<Rightarrow> bool" where
  "event_ok V e f \<longleftrightarrow> (case event_type e of SET \<Rightarrow> V (item_key (event_item e)) (item_value (event_item e)) | DELETE \<Rightarrow> f (item_key (event_item e)) \<noteq> None)"

fun events_ok :: "(string \<Rightarrow> string \<Rightarrow> bool) \<Rightarrow> watch_event list \<Rightarrow> (string \<rightharpoonup> string) \<Rightarrow> bool" where
  "events_ok V [] f \<longleftrightarrow> True"
| "events_ok V (e # es) f \<longleftrightarrow> event_ok V e f \<and> events_ok V es (replay1 e f)"

lemma events_ok_append: "events_ok V (es @ es') f \<longleftrightarrow> events_ok V es f \<and> events_ok V es' (fold replay1 es f)"
  by (induction es arbitrary: f) auto

locale watched_store =
  fixes store_ok :: "'s \<Rightarrow> bool" and content :: "'s \<Rightarrow> string \<Rightarrow> string option" and pending :: "'s \<Rightarrow> watch_event list"
    and step :: "'op \<Rightarrow> 's \<Rightarrow> 's" and allowed :: "'op \<Rightarrow> bool" and V :: "string \<Rightarrow> string \<Rightarrow> bool"
  assumes step_ok: "store_ok s \<Longrightarrow> allowed op \<Longrightarrow> store_ok (step op s)"
    and step_events: "store_ok s \<Longrightarrow> allowed op \<Longrightarrow> \<exists>es. pending (step op s) = pending s @ es
      \<and> fold replay1 es (content s) = content (step op s) \<and> events_ok V es (content s)"
begin

lemma steps_tracked:
  assumes "store_ok s" "list_all allowed ops" "fold replay1 (pending s) f = content s" "events_ok V (pending s) f"
  shows "store_ok (fold step ops s) \<and> fold replay1 (pending (fold step ops s)) f = content (fold step ops s)
    \<and> events_ok V (pending (fold step ops s)) f"
  using assms
proof (induction ops arbitrary: s)
  case (Cons op ops)
  then obtain es where "pending (step op s) = pending s @ es" "fold replay1 es (content s) = content (step op s)"
    "events_ok V es (content s)" using step_events[of s op] by auto
  then show ?case using Cons.prems Cons.IH[of "step op s"] step_ok[of s op] by (simp add: events_ok_append)
qed simp

end

subsection \<open>The server as such a store\<close>

datatype storage_op =
    OSet int string string bool int
  | OGet int string
  | OExpire int string int
  | ODelete string
  | OCheckExpired int
  | OWatch string
  | OUnwatch string

fun storage_step :: "storage_op \<Rightarrow> storage_server \<Rightarrow> storage_server" where
  "storage_step (OSet now k v ow t) s = snd (storage_set now k v ow t s)"
| "storage_step (OGet now k) s = snd (storage_get now k s)"
| "storage_step (OExpire now k t) s = snd (storage_expire now k t s)"
| "storage_step (ODelete k) s = snd (storage_delete k s)"
| "storage_step (OCheckExpired now) s = check_expired now s"
| "storage_step (OWatch q) s = storage_watch q s"
| "storage_step (OUnwatch q) s = (case storage_unwatch q s of Inl _ \<Rightarrow> s | Inr s' \<Rightarrow> s')"

fun op_allowed :: "(string \<Rightarrow> string \<Rightarrow> bool) \<Rightarrow> string \<Rightarrow> storage_op \<Rightarrow> bool" where
  \<comment> \<open>values below the prefix are of the right kind, and the watcher of the prefix stays\<close>
  "op_allowed V p (OSet now k v ow t) \<longleftrightarrow> (starts_with p k \<longrightarrow> V k v)"
| "op_allowed V p (OUnwatch q) \<longleftrightarrow> q \<noteq> p"
| "op_allowed V p _ \<longleftrightarrow> True"

definition server_ok :: "storage_server \<Rightarrow> bool" where
  "server_ok s \<longleftrightarrow> distinct (keys_of (stored s)) \<and> (\<forall>k it. map_of (stored s) k = Some it \<longrightarrow> item_key it = k)"

definition content_of :: "string \<Rightarrow> storage_server \<Rightarrow> string \<Rightarrow> string option" where
  "content_of p s k = (if starts_with p k then map_option item_value (map_of (stored s) k) else None)"

definition watched :: "string \<Rightarrow> storage_server \<Rightarrow> bool" where
  "watched p s \<longleftrightarrow> map_of (watch_handles s) p \<noteq> None"

definition pending_of :: "string \<Rightarrow> storage_server \<Rightarrow> watch_event list" where
  "pending_of p s = (case map_of (watch_handles s) p of None \<Rightarrow> [] | Some q \<Rightarrow> q)"

lemma map_of_map_values: "map_of (map (\<lambda>(k, v). (k, g k v)) al) x = map_option (g x) (map_of al x)"
  by (induction al) auto

lemma notify_simps [simp]:
  "stored (notify_watch_event k it ty s) = stored s"
  "watched p (notify_watch_event k it ty s) = watched p s"
  "watched p s \<Longrightarrow> pending_of p (notify_watch_event k it ty s) =
     pending_of p s @ (if starts_with p k then [\<lparr>event_item = it, event_type = ty\<rparr>] else [])"
  by (auto simp: notify_watch_event_def watched_def pending_of_def map_of_map_values split: option.splits)

text \<open>Every operation is a change of the stored items with the events that tell it.\<close>

definition told :: "(string \<Rightarrow> string \<Rightarrow> bool) \<Rightarrow> string \<Rightarrow> storage_server \<Rightarrow> storage_server \<Rightarrow> bool" where
  "told V p s s' \<longleftrightarrow> server_ok s' \<and> watched p s' \<and> (\<exists>es. pending_of p s' = pending_of p s @ es
      \<and> fold replay1 es (content_of p s) = content_of p s' \<and> events_ok V es (content_of p s))"

lemma told_same:
  "server_ok s' \<Longrightarrow> watched p s' \<Longrightarrow> pending_of p s' = pending_of p s \<Longrightarrow> content_of p s' = content_of p s \<Longrightarrow> told V p s s'"
  by (auto simp: told_def intro: exI[of _ "[]"])

lemma told_trans: "told V p s1 s2 \<Longrightarrow> told V p s2 s3 \<Longrightarrow> told V p s1 s3"
proof -
  assume a: "told V p s1 s2" and b: "told V p s2 s3"
  from a obtain es where es: "pending_of p s2 = pending_of p s1 @ es" "fold replay1 es (content_of p s1) = content_of p s2"
    "events_ok V es (content_of p s1)" by (auto simp: told_def)
  from b obtain fs where fs: "pending_of p s3 = pending_of p s2 @ fs" "fold replay1 fs (content_of p s2) = content_of p s3"
    "events_ok V fs (content_of p s2)" "server_ok s3" "watched p s3" by (auto simp: told_def)
  show ?thesis unfolding told_def using es fs by (intro conjI exI[of _ "es @ fs"]) (simp_all add: events_ok_append)
qed

lemma told_one_event:
  assumes "server_ok s'" "watched p s" "watched p s'"
    and "pending_of p s' = pending_of p s @ (if starts_with p k then [\<lparr>event_item = it, event_type = ty\<rparr>] else [])"
    and "content_of p s' = (if starts_with p k then replay1 \<lparr>event_item = it, event_type = ty\<rparr> (content_of p s) else content_of p s)"
    and "starts_with p k \<Longrightarrow> event_ok V \<lparr>event_item = it, event_type = ty\<rparr> (content_of p s)"
  shows "told V p s s'"
proof (cases "starts_with p k")
  case True
  then show ?thesis using assms unfolding told_def by (intro conjI exI[of _ "[\<lparr>event_item = it, event_type = ty\<rparr>]"]) simp_all
next
  case False
  then show ?thesis using assms by (intro told_same) simp_all
qed

lemma remove_told:
  assumes "server_ok s" "watched p s" "map_of (stored s) k = Some it"
  shows "told V p s (remove_key k it s)"
proof (rule told_one_event[where k = k and it = it and ty = DELETE])
  have it: "item_key it = k" using assms by (simp add: server_ok_def)
  show "server_ok (remove_key k it s)" using assms(1) by (auto simp: server_ok_def remove_key_def Let_def distinct_delete split: if_splits)
  show "watched p (remove_key k it s)" using assms(2) by (simp add: remove_key_def Let_def watched_def notify_watch_event_def map_of_map_values)
  show "pending_of p (remove_key k it s) = pending_of p s @ (if starts_with p k then [\<lparr>event_item = it, event_type = DELETE\<rparr>] else [])"
    using notify_simps(3)[OF assms(2), of k it DELETE] by (simp add: remove_key_def Let_def pending_of_def)
  show "content_of p (remove_key k it s) =
      (if starts_with p k then replay1 \<lparr>event_item = it, event_type = DELETE\<rparr> (content_of p s) else content_of p s)"
    using it by (auto simp: content_of_def fun_eq_iff replay1_def remove_key_def Let_def)
  show "starts_with p k \<Longrightarrow> event_ok V \<lparr>event_item = it, event_type = DELETE\<rparr> (content_of p s)"
    using assms(3) it by (simp add: event_ok_def content_of_def)
qed (use assms in simp)

lemma set_told:
  assumes "server_ok s" "watched p s" "starts_with p k \<longrightarrow> V k v"
  shows "told V p s (snd (storage_set now k v ow t s))"
proof (cases "k \<in> set (keys_of (stored s)) \<and> \<not> ow")
  case True
  then show ?thesis using assms(1,2) by (auto simp: storage_set_def set_item_def intro: told_same)
next
  case False
  define it where "it = \<lparr>item_key = k, item_value = v, expire_time = (if t > 0 then now + t else - 1), ttl = t, overwrite_if_exists = ow\<rparr>"
  have it: "item_key it = k" "item_value it = v"
    "snd (storage_set now k v ow t s) = notify_watch_event k it SET (s\<lparr>stored := AList.update k it (stored s)\<rparr>)"
    using False by (auto simp: storage_set_def set_item_def it_def Let_def)
  let ?s1 = "s\<lparr>stored := AList.update k it (stored s)\<rparr>"
  have w: "watched p ?s1" using assms(2) by (simp add: watched_def)
  show ?thesis unfolding it(3)
  proof (rule told_one_event[where k = k and it = it and ty = SET])
    show "server_ok (notify_watch_event k it SET ?s1)" using assms(1) it(1) by (auto simp: server_ok_def distinct_update split: if_splits)
    show "pending_of p (notify_watch_event k it SET ?s1) = pending_of p s @ (if starts_with p k then [\<lparr>event_item = it, event_type = SET\<rparr>] else [])"
      using notify_simps(3)[OF w, of k it SET] by (simp add: pending_of_def)
    show "content_of p (notify_watch_event k it SET ?s1) =
        (if starts_with p k then replay1 \<lparr>event_item = it, event_type = SET\<rparr> (content_of p s) else content_of p s)"
      using it by (auto simp: content_of_def fun_eq_iff replay1_def)
    show "starts_with p k \<Longrightarrow> event_ok V \<lparr>event_item = it, event_type = SET\<rparr> (content_of p s)"
      using assms(3) it by (simp add: event_ok_def)
  qed (use assms(2) w in simp_all)
qed

lemma expire_told:
  assumes "server_ok s" "watched p s" shows "told V p s (snd (storage_expire now k t s))"
proof (cases "map_of (stored s) k")
  case (Some it)
  show ?thesis
  proof (rule told_same)
    show "server_ok (snd (storage_expire now k t s))"
      using assms(1) Some by (auto simp: storage_expire_def server_ok_def distinct_update split: if_splits)
    show "content_of p (snd (storage_expire now k t s)) = content_of p s"
      using Some by (auto simp: content_of_def fun_eq_iff storage_expire_def)
  qed (use assms(2) Some in \<open>simp_all add: storage_expire_def watched_def pending_of_def\<close>)
qed (use assms in \<open>auto simp: storage_expire_def intro: told_same\<close>)

lemma notify_stored: "notify_watch_event k it ty (s\<lparr>stored := X\<rparr>) = (notify_watch_event k it ty s)\<lparr>stored := X\<rparr>"
  by (simp add: notify_watch_event_def)

lemma fold_notify_stored:
  "fold (\<lambda>(k, it). notify_watch_event k it DELETE) ds (s\<lparr>stored := X\<rparr>) = (fold (\<lambda>(k, it). notify_watch_event k it DELETE) ds s)\<lparr>stored := X\<rparr>"
  by (induction ds arbitrary: s) (auto simp: notify_stored)

lemma fold_remove:
  "fold (\<lambda>(k, it). remove_key k it) ds s =
   (fold (\<lambda>(k, it). notify_watch_event k it DELETE) ds s)\<lparr>stored := fold (\<lambda>(k, _). AList.delete k) ds (stored s)\<rparr>"
proof (induction ds arbitrary: s)
  case (Cons d ds)
  obtain k it where d: "d = (k, it)" by (cases d)
  have "remove_key k it s = (notify_watch_event k it DELETE s)\<lparr>stored := AList.delete k (stored s)\<rparr>"
    by (simp add: remove_key_def Let_def)
  then show ?case by (simp add: d Cons.IH fold_notify_stored)
qed simp

lemma check_expired_alt:
  "check_expired now s = fold (\<lambda>(k, it). remove_key k it) (filter (\<lambda>(k, it). expire_time it > 0 \<and> expire_time it < now) (stored s)) s"
  by (simp add: check_expired_def Let_def fold_remove fold_notify_stored)

lemma remove_all_told:
  assumes "server_ok s" "watched p s" "distinct (map fst ds)" "\<And>k it. (k, it) \<in> set ds \<Longrightarrow> map_of (stored s) k = Some it"
  shows "told V p s (fold (\<lambda>(k, it). remove_key k it) ds s)"
  using assms
proof (induction ds arbitrary: s)
  case Nil
  then show ?case by (auto intro: told_same)
next
  case (Cons d ds)
  obtain k it where d: "d = (k, it)" by (cases d)
  have r: "told V p s (remove_key k it s)" using Cons.prems(1,2) Cons.prems(4)[of k it] d by (intro remove_told) auto
  then have "server_ok (remove_key k it s)" "watched p (remove_key k it s)" by (simp_all add: told_def)
  moreover have "map_of (stored (remove_key k it s)) k' = Some it'" if "(k', it') \<in> set ds" for k' it'
    using that Cons.prems(3) Cons.prems(4)[of k' it'] d by (force simp: remove_key_def Let_def)
  ultimately have "told V p (remove_key k it s) (fold (\<lambda>(k, it). remove_key k it) ds (remove_key k it s))"
    using Cons.prems(3) by (intro Cons.IH) auto
  then show ?case using told_trans[OF r] by (simp add: d)
qed

lemma check_expired_told:
  assumes "server_ok s" "watched p s" shows "told V p s (check_expired now s)"
  unfolding check_expired_alt
proof (rule remove_all_told[OF assms])
  show "distinct (map fst (filter (\<lambda>(k, it). expire_time it > 0 \<and> expire_time it < now) (stored s)))"
    using assms(1) by (simp add: server_ok_def distinct_map_filter)
qed (use assms(1) in \<open>auto simp: server_ok_def\<close>)

lemma storage_step_told:
  assumes s: "server_ok s" "watched p s" and op: "op_allowed V p op"
  shows "told V p s (storage_step op s)"
proof (cases op)
  case (OGet now k)
  then show ?thesis using s by (auto simp: storage_get_def intro: told_same remove_told split: option.splits)
next
  case (ODelete k)
  then show ?thesis using s by (auto simp: storage_delete_def intro: told_same remove_told split: option.splits)
next
  case (OWatch q)
  show ?thesis
  proof (cases "q \<in> set (keys_of (watch_handles s))")
    case True
    then show ?thesis using OWatch s by (auto simp: storage_watch_def intro: told_same)
  next
    case False
    then have "q \<noteq> p" using s(2) by (auto simp: watched_def map_of_eq_None_iff[symmetric])
    then show ?thesis using OWatch s False
      by (intro told_same) (simp_all add: storage_watch_def server_ok_def watched_def pending_of_def content_of_def fun_eq_iff)
  qed
next
  case (OUnwatch q)
  then show ?thesis using s op
    by (auto simp: storage_unwatch_def server_ok_def watched_def pending_of_def content_of_def fun_eq_iff intro!: told_same)
qed (use s op in \<open>auto intro: set_told expire_told check_expired_told\<close>)

interpretation http_store: watched_store "\<lambda>s. server_ok s \<and> watched p s" "content_of p" "pending_of p" storage_step "op_allowed V p" V
  for p V
  using storage_step_told by unfold_locales (auto simp: told_def)

lemma map_of_filter_keys: "map_of (filter (\<lambda>(k, v). P k) al) x = (if P x then map_of al x else None)"
  by (induction al) auto

lemma map_of_get_prefix: "map_of (get_prefix p False s) = content_of p s"
proof
  fix k
  have "map_of (get_prefix p False s) k = map_option item_value (map_of (filter (\<lambda>(k, it). starts_with p k) (stored s)) k)"
    unfolding get_prefix_def if_False by (rule map_of_map_values)
  then show "map_of (get_prefix p False s) k = content_of p s k" by (simp add: content_of_def map_of_filter_keys)
qed

text \<open>
  C10: watching tells every change. After any operations on the server, by any clients, replaying the events that a
  watcher of a prefix has pending over what was stored below the prefix when it began gives exactly what is
  stored there now, and no event removes a key that the watcher does not know.
\<close>

theorem watcher_sees_every_change:
  assumes "server_ok s" "\<not> watched p s" "list_all (op_allowed V p) ops"
  defines "s' \<equiv> fold storage_step ops (storage_watch p s)"
  shows "fold replay1 (pending_of p s') (content_of p s) = content_of p s' \<and> events_ok V (pending_of p s') (content_of p s)
    \<and> map_of (get_prefix p False s') = content_of p s'"
proof -
  let ?s0 = "storage_watch p s"
  have s0: "server_ok ?s0" "watched p ?s0" "pending_of p ?s0 = []" "content_of p ?s0 = content_of p s"
    using assms(1,2) by (auto simp: storage_watch_def server_ok_def watched_def pending_of_def content_of_def fun_eq_iff
        map_of_eq_None_iff)
  have "server_ok s'" "fold replay1 (pending_of p s') (content_of p s) = content_of p s'" "events_ok V (pending_of p s') (content_of p s)"
    using http_store.steps_tracked[of ?s0 p V ops "content_of p s"] s0 assms(3) by (simp_all add: s'_def)
  then show ?thesis by (simp add: map_of_get_prefix)
qed

lemma watcher_sees_every_change_witness:
  "let s' = fold storage_step [OSet 0 ''/w/1'' ''a'' False 5, OSet 1 ''/w/2'' ''b'' False (- 1), OCheckExpired 7] (storage_watch ''/w'' storage_init) in
   fold replay1 (pending_of ''/w'' s') (content_of ''/w'' storage_init) = content_of ''/w'' s' \<and> map_of (get_prefix ''/w'' False s') = content_of ''/w'' s'
   \<and> get_prefix ''/w'' False s' = [(''/w/2'', ''b'')] \<and> length (pending_of ''/w'' s') = 3"
proof -
  let ?ops = "[OSet 0 ''/w/1'' ''a'' False 5, OSet 1 ''/w/2'' ''b'' False (- 1), OCheckExpired 7]"
  have "get_prefix ''/w'' False (fold storage_step ?ops (storage_watch ''/w'' storage_init)) = [(''/w/2'', ''b'')]
    \<and> length (pending_of ''/w'' (fold storage_step ?ops (storage_watch ''/w'' storage_init))) = 3" by code_simp
  then show ?thesis using watcher_sees_every_change[of storage_init "''/w''" "\<lambda>_ _. True" ?ops]
    by (simp add: server_ok_def watched_def storage_init_def Let_def)
qed

section \<open>Time to live\<close>

text \<open>The specification: a map of the values that are alive at a time.\<close>

definition alive :: "int \<Rightarrow> storage_item \<Rightarrow> bool" where
  "alive now it \<longleftrightarrow> expire_time it < 0 \<or> expire_time it > now"

definition live :: "int \<Rightarrow> storage_server \<Rightarrow> string \<Rightarrow> string option" where
  "live now s k = (case map_of (stored s) k of Some it \<Rightarrow> if alive now it then Some (item_value it) else None | None \<Rightarrow> None)"

lemma stored_remove [simp]: "map_of (stored (remove_key k it s)) = (map_of (stored s))(k := None)"
  by (simp add: remove_key_def Let_def)

lemma stored_remove_all:
  "map_of (stored (fold (\<lambda>(k, it). remove_key k it) ds s)) x = (if x \<in> fst ` set ds then None else map_of (stored s) x)"
  by (induction ds arbitrary: s) auto

lemma check_expired_stored:
  assumes "server_ok s"
  shows "map_of (stored (check_expired now s)) k =
    (case map_of (stored s) k of Some it \<Rightarrow> if expire_time it > 0 \<and> expire_time it < now then None else Some it | None \<Rightarrow> None)"
proof -
  let ?ds = "filter (\<lambda>(k, it). expire_time it > 0 \<and> expire_time it < now) (stored s)"
  have "k \<in> fst ` set ?ds \<longleftrightarrow> (\<exists>it. map_of (stored s) k = Some it \<and> expire_time it > 0 \<and> expire_time it < now)"
    using assms by (force simp: server_ok_def)
  then show ?thesis unfolding check_expired_alt stored_remove_all by (auto split: option.splits)
qed

text \<open>
  The server implements a map whose entries die. \<open>get\<close> answers with the value that is alive; \<open>set\<close> on a key that
  is not stored, or with overwriting, makes the value alive for its time to live (for ever without one); \<open>expire\<close>
  gives a stored key a new life; \<open>delete\<close> ends it; and neither the lazy removal of \<open>get\<close> nor a round of the
  expiry task changes what is alive at that time or later.
\<close>

theorem storage_refines_live_map:
  assumes "server_ok s" "0 \<le> now" "now \<le> later"
  shows "fst (storage_get now k s) = live now s k
    \<and> live later (snd (storage_get now k s)) = live later s
    \<and> live later (check_expired now s) = live later s
    \<and> live later (snd (storage_delete k s)) = (live later s)(k := None)
    \<and> live later (snd (storage_expire now k t s)) =
        (live later s)(k := (case map_of (stored s) k of
            None \<Rightarrow> None | Some it \<Rightarrow> if now + t < 0 \<or> now + t > later then Some (item_value it) else None))
    \<and> (if k \<in> set (keys_of (stored s)) \<and> \<not> ow then storage_set now k v ow tl1 s = (False, s)
       else fst (storage_set now k v ow tl1 s)
         \<and> live later (snd (storage_set now k v ow tl1 s)) = (live later s)(k := (if tl1 > 0 \<and> now + tl1 \<le> later then None else Some v)))"
proof (intro conjI)
  show "fst (storage_get now k s) = live now s k"
    by (auto simp: storage_get_def live_def alive_def split: option.splits)
  show "live later (snd (storage_get now k s)) = live later s"
    using assms(3) by (auto simp: storage_get_def live_def alive_def fun_eq_iff split: option.splits)
  show "live later (check_expired now s) = live later s"
    using assms by (auto simp: live_def alive_def check_expired_stored fun_eq_iff split: option.splits)
  show "live later (snd (storage_delete k s)) = (live later s)(k := None)"
    by (auto simp: storage_delete_def live_def fun_eq_iff split: option.splits)
  show "live later (snd (storage_expire now k t s)) = (live later s)(k := (case map_of (stored s) k of
            None \<Rightarrow> None | Some it \<Rightarrow> if now + t < 0 \<or> now + t > later then Some (item_value it) else None))"
    by (auto simp: storage_expire_def live_def alive_def fun_eq_iff split: option.splits)
  show "if k \<in> set (keys_of (stored s)) \<and> \<not> ow then storage_set now k v ow tl1 s = (False, s)
       else fst (storage_set now k v ow tl1 s)
         \<and> live later (snd (storage_set now k v ow tl1 s)) = (live later s)(k := (if tl1 > 0 \<and> now + tl1 \<le> later then None else Some v))"
    using assms(2) by (auto simp: storage_set_def set_item_def live_def alive_def Let_def fun_eq_iff)
qed

lemma storage_refines_live_map_witness:
  "let s = snd (storage_set 0 ''k'' ''v'' False 5 storage_init) in
   fst (storage_get 4 ''k'' s) = Some ''v'' \<and> fst (storage_get 5 ''k'' s) = None \<and> live 4 (check_expired 3 s) = live 4 s"
proof -
  let ?s = "snd (storage_set 0 ''k'' ''v'' False 5 storage_init)"
  have ok: "server_ok ?s" by (simp add: storage_set_def set_item_def storage_init_def server_ok_def Let_def)
  have "live 4 ?s ''k'' = Some ''v''" "live 5 ?s ''k'' = None"
    by (simp_all add: storage_set_def set_item_def storage_init_def live_def alive_def Let_def)
  then show ?thesis
    using storage_refines_live_map[OF ok, of 4 4 "''k''"] storage_refines_live_map[OF ok, of 5 5 "''k''"]
      storage_refines_live_map[OF ok, of 3 4 "''k''"] by (simp add: Let_def)
qed

end
