(* ===== verification/Cluster_Manager.thy ===== *)
theory Cluster_Manager
  imports Cluster_Storage
begin

text \<open>
  The workers of a disaggregated cluster, \<open>serve/disagg_auto_scaling.py\<close>: \<open>DisaggClusterManager\<close> keeps the registered
  workers by watching the cluster storage, and \<open>DisaggClusterWorker\<close> registers itself and renews its registration.

  \<open>load\<close> stands for \<open>WorkerInfo(**json.loads(value))\<close> with the conversion of the role, \<open>None\<close> when it raises, and \<open>dump\<close>
  for \<open>json.dumps(asdict(info))\<close>. The storage is the HTTP server of \<open>Cluster_Storage\<close>. Sleeping is not modelled: the
  body of a loop is one step, and a retry is the next step. Logging and the \<open>on_event\<close> callback are left out;
  what the callback receives is returned.
\<close>

datatype server_role = CONTEXT | GENERATION | MM_ENCODER

record worker_info =
  worker_id :: string
  host :: string
  port :: int
  role :: server_role

type_synonym load_fn = "string \<Rightarrow> worker_info option"

definition get_worker_key_prefix :: "string \<Rightarrow> string" where
  "get_worker_key_prefix cluster_name = ''/trtllm-disagg/'' @ cluster_name @ ''/workers''"

definition get_worker_key :: "string \<Rightarrow> server_role \<Rightarrow> string \<Rightarrow> string" where
  "get_worker_key name r wid = get_worker_key_prefix name @ ''/'' @ wid"

section \<open>The manager\<close>

record cluster_manager =
  cluster_name :: string
  minimal_ctx_worker_num :: int
  minimal_gen_worker_num :: int
  current_ctx_workers :: "(string, worker_info) dict"
  current_gen_workers :: "(string, worker_info) dict"
  watch_handle :: bool

definition manager_init :: "string \<Rightarrow> int \<Rightarrow> int \<Rightarrow> cluster_manager" where
  "manager_init name ctx gen =
     \<lparr>cluster_name = name, minimal_ctx_worker_num = ctx, minimal_gen_worker_num = gen,
      current_ctx_workers = [], current_gen_workers = [], watch_handle = False\<rparr>"

abbreviation worker_key_prefix :: "cluster_manager \<Rightarrow> string" where
  "worker_key_prefix m \<equiv> get_worker_key_prefix (cluster_name m)"

definition dummy_worker :: "string \<Rightarrow> worker_info" where
  "dummy_worker key = \<lparr>worker_id = key, host = [], port = 0, role = CONTEXT\<rparr>"

definition pop_worker :: "string \<Rightarrow> cluster_manager \<Rightarrow> (worker_info \<times> cluster_manager) result" where
  \<comment> \<open>\<open>_get_workers_by_id(key).pop(key)\<close>\<close>
  "pop_worker key m =
     (case map_of (current_ctx_workers m) key of
        Some w \<Rightarrow> Inr (w, m\<lparr>current_ctx_workers := AList.delete key (current_ctx_workers m)\<rparr>)
      | None \<Rightarrow>
          (case map_of (current_gen_workers m) key of
             Some w \<Rightarrow> Inr (w, m\<lparr>current_gen_workers := AList.delete key (current_gen_workers m)\<rparr>)
           | None \<Rightarrow> Inl ValueError))"

definition put_worker :: "string \<Rightarrow> worker_info \<Rightarrow> cluster_manager \<Rightarrow> cluster_manager option" where
  \<comment> \<open>\<open>_get_workers(role)[key] = worker_info\<close>\<close>
  "put_worker key w m =
     (case role w of
        CONTEXT \<Rightarrow> Some (m\<lparr>current_ctx_workers := AList.update key w (current_ctx_workers m)\<rparr>)
      | GENERATION \<Rightarrow> Some (m\<lparr>current_gen_workers := AList.update key w (current_gen_workers m)\<rparr>)
      | MM_ENCODER \<Rightarrow> None)"

definition parse_worker_info :: "load_fn \<Rightarrow> watch_event \<Rightarrow> cluster_manager \<Rightarrow> (worker_info \<times> cluster_manager) result" where
  "parse_worker_info load ev m =
     (let key = item_key (event_item ev) in
      case event_type ev of
        DELETE \<Rightarrow> pop_worker key m
      | SET \<Rightarrow>
          (case load (item_value (event_item ev)) of
             None \<Rightarrow> Inr (dummy_worker key, m)
           | Some w \<Rightarrow> (case put_worker key w m of None \<Rightarrow> Inr (dummy_worker key, m) | Some m' \<Rightarrow> Inr (w, m'))))"

fun parse_existing :: "load_fn \<Rightarrow> (string, string) dict \<Rightarrow> cluster_manager
    \<Rightarrow> (worker_info list \<times> watch_event list \<times> cluster_manager) result" where
  "parse_existing load [] m = Inr ([], [], m)"
| "parse_existing load ((key, data) # rest) m =
     (let ev = \<lparr>event_item = \<lparr>item_key = key, item_value = data, expire_time = - 1, ttl = - 1, overwrite_if_exists = False\<rparr>, event_type = SET\<rparr> in
      res_bind (parse_worker_info load ev m) (\<lambda>(w, m1).
      res_bind (parse_existing load rest m1) (\<lambda>(ws, evs, m2). Inr (w # ws, ev # evs, m2))))"

definition watch_workers :: "load_fn \<Rightarrow> bool \<Rightarrow> storage_server \<Rightarrow> cluster_manager
    \<Rightarrow> (worker_info list \<times> storage_server \<times> cluster_manager) result" where
  \<comment> \<open>one step: with the storage server in the same event loop none of the calls that are awaited suspends, and the gap between
      watching and reading that a comment in the source speaks of can only come up with a storage client\<close>
  "watch_workers load get_existing_first s m =
     (if watch_handle m then Inr ([], s, m)
      else
        let p = worker_key_prefix m; s1 = storage_watch p s; m1 = m\<lparr>watch_handle := True\<rparr> in
        if get_existing_first then
          res_bind (parse_existing load (get_prefix p False s1) m1) (\<lambda>(ws, evs, m2).
          Inr (ws, storage_watch p (add_events p evs s1), m2))
        else Inr ([], storage_watch p s1, m1))"

definition unwatch_workers :: "storage_server \<Rightarrow> cluster_manager \<Rightarrow> (storage_server \<times> cluster_manager) result" where
  "unwatch_workers s m =
     (if watch_handle m then res_bind (storage_unwatch (worker_key_prefix m) s) (\<lambda>s'. Inr (s', m\<lparr>watch_handle := False\<rparr>))
      else Inr (s, m))"

fun collect_events :: "load_fn \<Rightarrow> watch_event list \<Rightarrow> cluster_manager \<Rightarrow> (worker_info \<times> watch_event_type) list \<times> cluster_manager" where
  "collect_events load [] m = ([], m)"
| "collect_events load (ev # evs) m =
     (case parse_worker_info load ev m of
        Inl _ \<Rightarrow> collect_events load evs m
      | Inr (w, m1) \<Rightarrow> (case collect_events load evs m1 of (ws, m2) \<Rightarrow> ((w, event_type ev) # ws, m2)))"

definition get_worker_events :: "load_fn \<Rightarrow> storage_server \<Rightarrow> cluster_manager
    \<Rightarrow> ((worker_info \<times> watch_event_type) list \<times> storage_server \<times> cluster_manager) option result" where
  \<comment> \<open>\<open>None\<close> while there is no event\<close>
  "get_worker_events load s m =
     (if \<not> watch_handle m then Inl ValueError
      else case drain_events (worker_key_prefix m) s of
        None \<Rightarrow> Inr None
      | Some (evs, s') \<Rightarrow> (case collect_events load evs m of (ws, m') \<Rightarrow> Inr (Some (ws, s', m'))))"

fun event_loop_batch :: "load_fn \<Rightarrow> watch_event list \<Rightarrow> cluster_manager \<Rightarrow> (worker_info \<times> watch_event_type) list \<times> cluster_manager" where
  \<comment> \<open>one round of \<open>worker_event_loop\<close>: an exception ends the round\<close>
  "event_loop_batch load [] m = ([], m)"
| "event_loop_batch load (ev # evs) m =
     (case parse_worker_info load ev m of
        Inl _ \<Rightarrow> ([], m)
      | Inr (w, m1) \<Rightarrow> (case event_loop_batch load evs m1 of (ws, m2) \<Rightarrow> ((w, event_type ev) # ws, m2)))"

definition is_ready :: "cluster_manager \<Rightarrow> bool" where
  "is_ready m \<longleftrightarrow> int (length (current_ctx_workers m)) \<ge> minimal_ctx_worker_num m
     \<and> int (length (current_gen_workers m)) \<ge> minimal_gen_worker_num m"

definition is_ready_with_router :: "int \<Rightarrow> int \<Rightarrow> cluster_manager \<Rightarrow> bool" where
  "is_ready_with_router ctx gen m \<longleftrightarrow> ctx \<ge> minimal_ctx_worker_num m \<and> gen \<ge> minimal_gen_worker_num m"

section \<open>The worker\<close>

record cluster_worker =
  w_info :: worker_info
  w_cluster_name :: string
  heartbeat_interval_sec :: int
  inactive_timeout_sec :: int
  stopped :: bool
  heartbeat_task :: bool
  last_heartbeat :: int

abbreviation worker_key :: "cluster_worker \<Rightarrow> string" where
  "worker_key w \<equiv> get_worker_key (w_cluster_name w) (role (w_info w)) (worker_id (w_info w))"

definition register_worker :: "(worker_info \<Rightarrow> string) \<Rightarrow> int \<Rightarrow> bool \<Rightarrow> int \<Rightarrow> storage_server \<Rightarrow> cluster_worker
    \<Rightarrow> bool option \<times> storage_server \<times> cluster_worker" where
  \<comment> \<open>one attempt; \<open>None\<close> when the worker sleeps before the next one. \<open>valid\<close> is the answer of the validator, if there is one\<close>
  "register_worker dump now valid retry_interval s w =
     (let w0 = w\<lparr>stopped := False\<rparr> in
      if \<not> valid then (Some False, s, w0)
      else case storage_set now (worker_key w0) (dump (w_info w0)) False (inactive_timeout_sec w0) s of (success, s') \<Rightarrow>
        if \<not> success \<and> retry_interval > 0 then (None, s', w0)
        else
          let w1 = w0\<lparr>last_heartbeat := now\<rparr> in
          (Some True, s',
           if heartbeat_interval_sec w1 > 0 \<and> heartbeat_interval_sec w1 < inactive_timeout_sec w1 then w1\<lparr>heartbeat_task := True\<rparr> else w1))"

definition deregister_worker :: "storage_server \<Rightarrow> cluster_worker \<Rightarrow> bool \<times> storage_server \<times> cluster_worker" where
  "deregister_worker s w =
     (case storage_delete (worker_key w) s of (success, s') \<Rightarrow> (success, s', w\<lparr>stopped := True, heartbeat_task := False\<rparr>))"

definition heartbeat :: "(worker_info \<Rightarrow> string) \<Rightarrow> int \<Rightarrow> bool \<Rightarrow> storage_server \<Rightarrow> cluster_worker \<Rightarrow> storage_server \<times> cluster_worker" where
  \<comment> \<open>one round of \<open>_heartbeat\<close>, after the sleep\<close>
  "heartbeat dump now valid s w =
     (if stopped w then (s, w)
      else
        let w1 = w\<lparr>last_heartbeat := now\<rparr> in
        if \<not> valid then (s, w1)
        else case storage_expire now (worker_key w1) (inactive_timeout_sec w1) s of (res, s') \<Rightarrow>
          if res then (s', w1)
          else (case register_worker dump now valid 5 s' w1 of (_, s2, w2) \<Rightarrow> (s2, w2)))"

section \<open>The manager follows the storage\<close>

text \<open>
  \<open>role_of\<close> gives every key the role of its worker (a worker writes its role into its id and never changes it). The
  values that may be stored load as a worker of that role.
\<close>

definition worker_value :: "load_fn \<Rightarrow> (string \<Rightarrow> server_role) \<Rightarrow> string \<Rightarrow> string \<Rightarrow> bool" where
  "worker_value load role_of k v \<longleftrightarrow> role_of k \<noteq> MM_ENCODER \<and> (\<exists>w. load v = Some w \<and> role w = role_of k)"

definition workers_of :: "load_fn \<Rightarrow> (string \<Rightarrow> server_role) \<Rightarrow> server_role \<Rightarrow> (string \<rightharpoonup> string) \<Rightarrow> string \<Rightarrow> worker_info option" where
  \<comment> \<open>the workers of a role among stored values\<close>
  "workers_of load role_of r f k = (if role_of k = r then Option.bind (f k) load else None)"

definition follows :: "load_fn \<Rightarrow> (string \<Rightarrow> server_role) \<Rightarrow> (string \<rightharpoonup> string) \<Rightarrow> cluster_manager \<Rightarrow> bool" where
  "follows load role_of f m \<longleftrightarrow>
     (\<forall>k v. f k = Some v \<longrightarrow> worker_value load role_of k v)
     \<and> map_of (current_ctx_workers m) = workers_of load role_of CONTEXT f \<and> distinct (keys_of (current_ctx_workers m))
     \<and> map_of (current_gen_workers m) = workers_of load role_of GENERATION f \<and> distinct (keys_of (current_gen_workers m))"

lemma follows_put:
  assumes "follows load role_of f m" "load v = Some w" "role w = role_of k" "role_of k \<noteq> MM_ENCODER"
  shows "\<exists>m'. put_worker k w m = Some m' \<and> follows load role_of (f(k \<mapsto> v)) m' \<and> cluster_name m' = cluster_name m
    \<and> watch_handle m' = watch_handle m"
proof (cases "role_of k")
  case CONTEXT
  have "map_of (AList.update k w (current_ctx_workers m)) = workers_of load role_of CONTEXT (f(k \<mapsto> v))"
    "map_of (current_gen_workers m) = workers_of load role_of GENERATION (f(k \<mapsto> v))"
    using assms CONTEXT by (auto simp: follows_def workers_of_def fun_eq_iff)
  then show ?thesis using assms CONTEXT by (auto simp: put_worker_def follows_def distinct_update worker_value_def)
next
  case GENERATION
  have "map_of (AList.update k w (current_gen_workers m)) = workers_of load role_of GENERATION (f(k \<mapsto> v))"
    "map_of (current_ctx_workers m) = workers_of load role_of CONTEXT (f(k \<mapsto> v))"
    using assms GENERATION by (auto simp: follows_def workers_of_def fun_eq_iff)
  then show ?thesis using assms GENERATION by (auto simp: put_worker_def follows_def distinct_update worker_value_def)
qed (use assms(4) in simp)

lemma follows_pop:
  assumes "follows load role_of f m" "f k \<noteq> None"
  shows "\<exists>w m'. pop_worker k m = Inr (w, m') \<and> follows load role_of (f(k := None)) m' \<and> cluster_name m' = cluster_name m
    \<and> watch_handle m' = watch_handle m"
proof -
  obtain v w where v: "f k = Some v" "load v = Some w" "role w = role_of k" "role_of k \<noteq> MM_ENCODER"
    using assms by (fastforce simp: follows_def worker_value_def)
  have F: "\<And>k' v'. (f(k := None)) k' = Some v' \<Longrightarrow> worker_value load role_of k' v'"
    using assms(1) by (auto simp: follows_def split: if_splits)
  show ?thesis
  proof (cases "role_of k")
    case CONTEXT
    have "map_of (AList.delete k (current_ctx_workers m)) = workers_of load role_of CONTEXT (f(k := None))"
      "map_of (current_gen_workers m) = workers_of load role_of GENERATION (f(k := None))"
      "map_of (current_ctx_workers m) k = Some w"
      using assms CONTEXT v by (auto simp: follows_def workers_of_def fun_eq_iff)
    then show ?thesis using assms(1) F by (auto simp: pop_worker_def follows_def distinct_delete)
  next
    case GENERATION
    have "map_of (AList.delete k (current_gen_workers m)) = workers_of load role_of GENERATION (f(k := None))"
      "map_of (current_ctx_workers m) = workers_of load role_of CONTEXT (f(k := None))"
      "map_of (current_ctx_workers m) k = None" "map_of (current_gen_workers m) k = Some w"
      using assms GENERATION v by (auto simp: follows_def workers_of_def fun_eq_iff)
    then show ?thesis using assms(1) F by (auto simp: pop_worker_def follows_def distinct_delete)
  qed (use v in simp)
qed

lemma follows_parse:
  assumes "follows load role_of f m" "event_ok (worker_value load role_of) ev f"
  shows "\<exists>w m'. parse_worker_info load ev m = Inr (w, m') \<and> follows load role_of (replay1 ev f) m' \<and> cluster_name m' = cluster_name m
    \<and> watch_handle m' = watch_handle m"
proof (cases "event_type ev")
  case SET
  then obtain w where "load (item_value (event_item ev)) = Some w" "role w = role_of (item_key (event_item ev))"
    "role_of (item_key (event_item ev)) \<noteq> MM_ENCODER" using assms(2) by (auto simp: event_ok_def worker_value_def)
  with follows_put[OF assms(1) this] SET show ?thesis by (auto simp: parse_worker_info_def Let_def replay1_def)
next
  case DELETE
  with follows_pop[OF assms(1), of "item_key (event_item ev)"] assms(2) show ?thesis
    by (auto simp: parse_worker_info_def Let_def replay1_def event_ok_def)
qed

lemma follows_collect:
  assumes "follows load role_of f m" "events_ok (worker_value load role_of) evs f"
  shows "\<exists>ws m'. collect_events load evs m = (ws, m') \<and> event_loop_batch load evs m = (ws, m') \<and> map snd ws = map event_type evs
    \<and> follows load role_of (fold replay1 evs f) m' \<and> cluster_name m' = cluster_name m \<and> watch_handle m' = watch_handle m"
  using assms
proof (induction evs arbitrary: f m)
  case (Cons ev evs)
  then obtain w m1 where m1: "parse_worker_info load ev m = Inr (w, m1)" "follows load role_of (replay1 ev f) m1"
    "cluster_name m1 = cluster_name m" "watch_handle m1 = watch_handle m" using follows_parse[of load role_of f m ev] by auto
  from Cons.IH[OF m1(2)] Cons.prems(2) obtain ws m' where "collect_events load evs m1 = (ws, m')"
    "event_loop_batch load evs m1 = (ws, m')" "map snd ws = map event_type evs" "follows load role_of (fold replay1 evs (replay1 ev f)) m'"
    "cluster_name m' = cluster_name m1" "watch_handle m' = watch_handle m1" by auto
  then show ?case using m1 by simp
qed simp

text \<open>Reading the existing workers and queueing their events once more changes nothing that a replay sees.\<close>

lemma parse_existing_follows:
  assumes "follows load role_of f m" "list_all (\<lambda>(k, v). worker_value load role_of k v) kvs"
  shows "\<exists>ws evs m'. parse_existing load kvs m = Inr (ws, evs, m') \<and> follows load role_of (f ++ map_of (rev kvs)) m'
    \<and> map (\<lambda>e. (item_key (event_item e), item_value (event_item e))) evs = kvs \<and> list_all (\<lambda>e. event_type e = SET) evs
    \<and> cluster_name m' = cluster_name m \<and> watch_handle m' = watch_handle m"
  using assms
proof (induction kvs arbitrary: f m)
  case (Cons kv kvs)
  obtain k v where kv: "kv = (k, v)" by (cases kv)
  let ?ev = "\<lparr>event_item = \<lparr>item_key = k, item_value = v, expire_time = - 1, ttl = - 1, overwrite_if_exists = False\<rparr>, event_type = SET\<rparr>"
  from follows_parse[OF Cons.prems(1), of ?ev] Cons.prems(2) obtain w m1 where
    m1: "parse_worker_info load ?ev m = Inr (w, m1)" "follows load role_of (f(k \<mapsto> v)) m1" "cluster_name m1 = cluster_name m"
    "watch_handle m1 = watch_handle m" by (auto simp: kv event_ok_def replay1_def)
  have "list_all (\<lambda>(k, v). worker_value load role_of k v) kvs" using Cons.prems(2) by simp
  from Cons.IH[OF m1(2) this] obtain ws evs m' where IH:
    "parse_existing load kvs m1 = Inr (ws, evs, m')" "follows load role_of (f(k \<mapsto> v) ++ map_of (rev kvs)) m'"
    "map (\<lambda>e. (item_key (event_item e), item_value (event_item e))) evs = kvs" "list_all (\<lambda>e. event_type e = SET) evs"
    "cluster_name m' = cluster_name m1" "watch_handle m' = watch_handle m1" by (elim exE conjE)
  show ?case using m1 IH by (simp add: kv)
qed simp

lemma replay_known:
  assumes "list_all (\<lambda>e. event_type e = SET \<and> f (item_key (event_item e)) = Some (item_value (event_item e))) evs"
  shows "fold replay1 evs f = f"
  using assms
proof (induction evs)
  case (Cons e evs)
  then have "replay1 e f = f" by (auto simp: replay1_def)
  then show ?case using Cons by simp
qed simp

text \<open>\<open>V\<close> may be stronger than \<open>worker_value\<close>.\<close>

definition synced :: "(string \<Rightarrow> string \<Rightarrow> bool) \<Rightarrow> load_fn \<Rightarrow> (string \<Rightarrow> server_role) \<Rightarrow> storage_server \<times> cluster_manager \<Rightarrow> bool" where
  "synced V load role_of = (\<lambda>(s, m). let p = worker_key_prefix m in
     server_ok s \<and> watched p s \<and> watch_handle m
     \<and> (\<exists>f. follows load role_of f m \<and> fold replay1 (pending_of p s) f = content_of p s
          \<and> events_ok V (pending_of p s) f))"

lemma events_ok_mono:
  assumes "\<And>k v. V k v \<Longrightarrow> W k v" "events_ok V evs f" shows "events_ok W evs f"
  using assms(2) by (induction evs arbitrary: f) (auto simp: event_ok_def assms(1) split: watch_event_type.splits)

fun watch_rounds :: "load_fn \<Rightarrow> storage_op list list \<Rightarrow> storage_server \<times> cluster_manager \<Rightarrow> storage_server \<times> cluster_manager" where
  \<comment> \<open>rounds in which clients use the storage and the manager then takes its events\<close>
  "watch_rounds load [] sm = sm"
| "watch_rounds load (ops # rounds) (s, m) =
     (let s' = fold storage_step ops s in
      watch_rounds load rounds
        (case get_worker_events load s' m of Inr (Some (_, s'', m')) \<Rightarrow> (s'', m') | _ \<Rightarrow> (s', m)))"

lemma drain_simps:
  assumes "watched p s" "pending_of p s \<noteq> []"
  obtains s' where "drain_events p s = Some (pending_of p s, s')" "server_ok s' = server_ok s" "watched p s'" "pending_of p s' = []"
    "content_of p s' = content_of p s"
proof -
  obtain e q where q: "map_of (watch_handles s) p = Some (e # q)" "pending_of p s = e # q"
    using assms by (cases "pending_of p s") (auto simp: watched_def pending_of_def)
  show ?thesis
    by (rule that[of "s\<lparr>watch_handles := AList.update p [] (watch_handles s)\<rparr>"])
      (simp_all add: drain_events_def q server_ok_def watched_def pending_of_def content_of_def fun_eq_iff)
qed

lemma round_synced:
  assumes sub: "\<And>k v. V k v \<Longrightarrow> worker_value load role_of k v"
    and sm: "synced V load role_of (s, m)" and ops: "list_all (op_allowed V (worker_key_prefix m)) ops"
  obtains s' m' where "watch_rounds load [ops] (s, m) = (s', m')" "synced V load role_of (s', m')" "cluster_name m' = cluster_name m"
    "follows load role_of (content_of (worker_key_prefix m') s') m'" "pending_of (worker_key_prefix m') s' = []"
proof -
  let ?p = "worker_key_prefix m" and ?s = "fold storage_step ops s"
  from sm obtain f where f: "server_ok s" "watched ?p s" "watch_handle m" "follows load role_of f m"
    "fold replay1 (pending_of ?p s) f = content_of ?p s" "events_ok V (pending_of ?p s) f" by (auto simp: synced_def Let_def)
  have s: "server_ok ?s" "watched ?p ?s" "fold replay1 (pending_of ?p ?s) f = content_of ?p ?s" "events_ok V (pending_of ?p ?s) f"
    using http_store.steps_tracked[of s ?p V ops f] f ops by simp_all
  show ?thesis
  proof (cases "pending_of ?p ?s = []")
    case True
    then have "drain_events ?p ?s = None" using s(2) by (auto simp: drain_events_def pending_of_def split: option.splits)
    then have "watch_rounds load [ops] (s, m) = (?s, m)" using f(3) by (simp add: get_worker_events_def Let_def)
    moreover have "f = content_of ?p ?s" using s(3) True by simp
    moreover have "synced V load role_of (?s, m)" using s f(3,4) by (auto simp: synced_def Let_def)
    ultimately show ?thesis using that[of ?s m] f(4) True by simp
  next
    case False
    from drain_simps[OF s(2) False] obtain s' where s': "drain_events ?p ?s = Some (pending_of ?p ?s, s')" "server_ok s'"
      "watched ?p s'" "pending_of ?p s' = []" "content_of ?p s' = content_of ?p ?s" using s(1) by metis
    from follows_collect[OF f(4) events_ok_mono[OF sub s(4)]] s(3) s'(5) obtain ws m' where m': "collect_events load (pending_of ?p ?s) m = (ws, m')"
      "follows load role_of (content_of ?p s') m'" "cluster_name m' = cluster_name m" "watch_handle m' = watch_handle m" by auto
    have "watch_rounds load [ops] (s, m) = (s', m')" using f(3) s'(1) m'(1) by (simp add: get_worker_events_def Let_def)
    moreover have "synced V load role_of (s', m')" using s' m' f(3) by (auto simp: synced_def Let_def)
    ultimately show ?thesis using that[of s' m'] m' s'(4) by simp
  qed
qed

lemma watch_start_synced:
  assumes sub: "\<And>k v. V k v \<Longrightarrow> worker_value load role_of k v" and s: "server_ok s" "\<not> watched (get_worker_key_prefix name) s"
    and vals: "\<And>k v. content_of (get_worker_key_prefix name) s k = Some v \<Longrightarrow> V k v"
  obtains ws s1 m1 where "watch_workers load True s (manager_init name a b) = Inr (ws, s1, m1)" "synced V load role_of (s1, m1)"
    "cluster_name m1 = name"
proof -
  let ?p = "get_worker_key_prefix name" and ?m = "(manager_init name a b)\<lparr>watch_handle := True\<rparr>"
  let ?s0 = "storage_watch ?p s" and ?kvs = "get_prefix ?p False s"
  have nw: "?p \<notin> set (keys_of (watch_handles s))" using s(2) by (auto simp: watched_def map_of_eq_None_iff)
  then have s0: "?s0 = s\<lparr>watch_handles := AList.update ?p [] (watch_handles s)\<rparr>" by (simp add: storage_watch_def)
  then have kvs: "get_prefix ?p False ?s0 = ?kvs" by (simp add: get_prefix_def)
  have d: "distinct (map fst ?kvs)"
    using s(1) by (simp add: get_prefix_def server_ok_def comp_def split_def distinct_map_filter)
  have c: "map_of ?kvs = content_of ?p s" by (rule map_of_get_prefix)
  have "list_all (\<lambda>(k, v). worker_value load role_of k v) ?kvs"
    unfolding list_all_iff using vals sub c d by (auto simp: map_of_eq_Some_iff[OF d, symmetric])
  moreover have "follows load role_of Map.empty ?m" by (auto simp: follows_def manager_init_def workers_of_def)
  ultimately obtain ws evs m1 where m1: "parse_existing load ?kvs ?m = Inr (ws, evs, m1)"
    "follows load role_of (Map.empty ++ map_of (rev ?kvs)) m1"
    "map (\<lambda>e. (item_key (event_item e), item_value (event_item e))) evs = ?kvs" "list_all (\<lambda>e. event_type e = SET) evs"
    "cluster_name m1 = name" "watch_handle m1"
    using parse_existing_follows[of load role_of Map.empty ?m ?kvs] by (auto simp: manager_init_def)
  have "map_of (rev ?kvs) = map_of ?kvs" using d by (subst map_of_inject_set) (simp_all add: rev_map[symmetric])
  then have fol: "follows load role_of (content_of ?p s) m1" using m1(2) c by simp
  let ?s1 = "add_events ?p evs ?s0"
  have w: "watched ?p ?s1" "pending_of ?p ?s1 = evs" "content_of ?p ?s1 = content_of ?p s" "server_ok ?s1"
    using s(1) by (simp_all add: s0 add_events_def watched_def pending_of_def content_of_def fun_eq_iff server_ok_def)
  then have s2: "storage_watch ?p ?s1 = ?s1" by (auto simp: storage_watch_def watched_def map_of_eq_None_iff)
  have known: "event_type e = SET \<and> content_of ?p s (item_key (event_item e)) = Some (item_value (event_item e))" if "e \<in> set evs" for e
  proof -
    have "(item_key (event_item e), item_value (event_item e)) \<in> set ?kvs" unfolding m1(3)[symmetric] using that by simp
    then show ?thesis using that m1(4) map_of_is_SomeI[OF d] unfolding c[symmetric] by (auto simp: list_all_iff)
  qed
  have r: "fold replay1 evs (content_of ?p s) = content_of ?p s" by (rule replay_known) (use known in \<open>simp add: list_all_iff\<close>)
  have e: "events_ok V evs (content_of ?p s)"
    using known
  proof (induction evs)
    case (Cons e evs)
    then have "replay1 e (content_of ?p s) = content_of ?p s" by (auto simp: replay1_def)
    then show ?case using Cons vals by (auto simp: event_ok_def)
  qed simp
  have "watch_workers load True s (manager_init name a b) = Inr (ws, ?s1, m1)"
    using m1(1) by (simp add: watch_workers_def manager_init_def Let_def kvs s2)
  moreover have "synced V load role_of (?s1, m1)" using fol w r e m1(5,6) by (auto simp: synced_def Let_def)
  ultimately show ?thesis using that m1(5) by blast
qed

lemma rounds_synced:
  assumes sub: "\<And>k v. V k v \<Longrightarrow> worker_value load role_of k v" and "synced V load role_of (s, m)" "rounds \<noteq> []"
    and "list_all (list_all (op_allowed V (worker_key_prefix m))) rounds"
  shows "\<exists>s' m'. watch_rounds load rounds (s, m) = (s', m') \<and> cluster_name m' = cluster_name m
    \<and> follows load role_of (content_of (worker_key_prefix m) s') m' \<and> pending_of (worker_key_prefix m) s' = []"
  using assms(2-)
proof (induction rounds arbitrary: s m)
  case (Cons ops rounds)
  from round_synced[OF sub Cons.prems(1), of ops] Cons.prems(3) obtain s1 m1 where
    1: "watch_rounds load [ops] (s, m) = (s1, m1)" "synced V load role_of (s1, m1)" "cluster_name m1 = cluster_name m"
    "follows load role_of (content_of (worker_key_prefix m1) s1) m1" "pending_of (worker_key_prefix m1) s1 = []" by auto
  have step: "watch_rounds load (ops # rounds) (s, m) = watch_rounds load rounds (s1, m1)" using 1(1) by (simp add: Let_def)
  show ?case
  proof (cases "rounds = []")
    case True
    then show ?thesis using step 1 by simp
  next
    case False
    from Cons.IH[OF 1(2) False] Cons.prems(3) 1(3) step show ?thesis by simp
  qed
qed simp

lemma card_workers:
  assumes "map_of ws = workers_of load role_of r f" "distinct (keys_of ws)"
    and "\<And>k v. f k = Some v \<Longrightarrow> worker_value load role_of k v"
  shows "length ws = card {k. role_of k = r \<and> f k \<noteq> None}"
proof -
  have "dom (map_of ws) = {k. role_of k = r \<and> f k \<noteq> None}"
    using assms(3) by (fastforce simp: assms(1) workers_of_def worker_value_def dom_def bind_eq_Some_conv split: if_splits)
  then show ?thesis using assms(2) by (metis dom_map_of_conv_image_fst distinct_card length_map set_map)
qed

text \<open>
  C8: the manager knows the registered workers. It starts watching a storage server of its own event loop that may already hold workers and
  has no watcher yet; then, in any number of rounds, clients register, renew, remove and expire entries and the manager takes its events. All
  values under the cluster's prefix are worker infos that can be parsed, with the role of a context or generation worker, the
  same one for every value of a key (without this the claim fails, as \<open>changed_role_leaves_ghost\<close> shows). Then after each
  round its two dictionaries hold exactly the workers stored under the cluster's prefix, each under its role, and
  the numbers that \<open>is_ready\<close> compares with the minimal ones are the numbers of stored workers of each role.
\<close>

theorem manager_tracks_workers:
  assumes "server_ok s" "\<not> watched (get_worker_key_prefix name) s"
    and "\<And>k v. content_of (get_worker_key_prefix name) s k = Some v \<Longrightarrow> worker_value load role_of k v"
    and "rounds \<noteq> []" "list_all (list_all (op_allowed (worker_value load role_of) (get_worker_key_prefix name))) rounds"
  shows "\<exists>ws s1 m1 s2 m2. watch_workers load True s (manager_init name a b) = Inr (ws, s1, m1)
    \<and> watch_rounds load rounds (s1, m1) = (s2, m2)
    \<and> map_of (current_ctx_workers m2) = workers_of load role_of CONTEXT (content_of (get_worker_key_prefix name) s2)
    \<and> map_of (current_gen_workers m2) = workers_of load role_of GENERATION (content_of (get_worker_key_prefix name) s2)
    \<and> int (length (current_ctx_workers m2)) = int (card {k. role_of k = CONTEXT \<and> content_of (get_worker_key_prefix name) s2 k \<noteq> None})
    \<and> int (length (current_gen_workers m2)) = int (card {k. role_of k = GENERATION \<and> content_of (get_worker_key_prefix name) s2 k \<noteq> None})"
proof -
  from watch_start_synced[of "worker_value load role_of" load role_of s name a b] assms(1-3)
  obtain ws s1 m1 where 1: "watch_workers load True s (manager_init name a b) = Inr (ws, s1, m1)" "synced (worker_value load role_of) load role_of (s1, m1)"
    "cluster_name m1 = name" by metis
  from rounds_synced[OF _ 1(2) assms(4)] assms(5) 1(3) obtain s2 m2 where
    2: "watch_rounds load rounds (s1, m1) = (s2, m2)" "follows load role_of (content_of (get_worker_key_prefix name) s2) m2" by auto
  then have F: "map_of (current_ctx_workers m2) = workers_of load role_of CONTEXT (content_of (get_worker_key_prefix name) s2)"
    "map_of (current_gen_workers m2) = workers_of load role_of GENERATION (content_of (get_worker_key_prefix name) s2)"
    "distinct (keys_of (current_ctx_workers m2))" "distinct (keys_of (current_gen_workers m2))"
    "\<And>k v. content_of (get_worker_key_prefix name) s2 k = Some v \<Longrightarrow> worker_value load role_of k v"
    by (simp_all add: follows_def)
  show ?thesis using 1(1) 2(1) F(1,2) card_workers[OF F(1,3,5)] card_workers[OF F(2,4,5)] by auto
qed

definition sample_load :: load_fn where
  "sample_load v = (if v = ''c'' then Some \<lparr>worker_id = ''1'', host = ''h'', port = 1, role = CONTEXT\<rparr>
     else if v = ''g'' then Some \<lparr>worker_id = ''2'', host = ''h'', port = 2, role = GENERATION\<rparr> else None)"

lemma manager_tracks_workers_witness:
  "\<exists>ws s1 m1 s2 m2. watch_workers sample_load True storage_init (manager_init ''x'' 1 1) = Inr (ws, s1, m1)
    \<and> watch_rounds sample_load [[OSet 0 ''/trtllm-disagg/x/workers/1'' ''c'' False 5, OSet 0 ''/trtllm-disagg/x/workers/2'' ''g'' False 5], [OCheckExpired 9]]
        (s1, m1) = (s2, m2)
    \<and> map_of (current_ctx_workers m2) = workers_of sample_load (\<lambda>k. if k = ''/trtllm-disagg/x/workers/1'' then CONTEXT else GENERATION) CONTEXT
        (content_of (get_worker_key_prefix ''x'') s2)"
proof -
  let ?r = "\<lambda>k. if k = ''/trtllm-disagg/x/workers/1'' then CONTEXT else GENERATION"
  let ?rounds = "[[OSet 0 ''/trtllm-disagg/x/workers/1'' ''c'' False 5, OSet 0 ''/trtllm-disagg/x/workers/2'' ''g'' False 5], [OCheckExpired 9]]"
  have "list_all (list_all (op_allowed (worker_value sample_load ?r) (get_worker_key_prefix ''x''))) ?rounds"
    by (simp add: worker_value_def sample_load_def)
  moreover have "server_ok storage_init" "\<not> watched (get_worker_key_prefix ''x'') storage_init"
    "\<And>k v. content_of (get_worker_key_prefix ''x'') storage_init k = Some v \<Longrightarrow> worker_value sample_load ?r k v"
    by (simp_all add: server_ok_def watched_def storage_init_def content_of_def split: if_splits)
  ultimately show ?thesis
    using manager_tracks_workers[where s = storage_init and name = "''x''" and load = sample_load and role_of = ?r and a = 1 and b = 1
        and rounds = ?rounds] by blast
qed

text \<open>
  What is not guaranteed. A worker that registers again under its key with another role stays in the dictionary of its old
  role, and when it goes away it is removed from one of them only.
\<close>

definition set_event :: "string \<Rightarrow> string \<Rightarrow> watch_event" where
  "set_event k v = \<lparr>event_item = \<lparr>item_key = k, item_value = v, expire_time = - 1, ttl = - 1, overwrite_if_exists = True\<rparr>, event_type = SET\<rparr>"

definition delete_event :: "string \<Rightarrow> watch_event" where
  "delete_event k = (set_event k [])\<lparr>event_type := DELETE\<rparr>"

lemma changed_role_leaves_ghost:
  "keys_of (current_gen_workers (snd (collect_events sample_load [set_event ''k'' ''c'', set_event ''k'' ''g'', delete_event ''k''] (manager_init ''x'' 1 1)))) = [''k'']"
  by code_simp

text \<open>
  The removal of a worker whose entry could not be read raises, and the event loop then drops the rest of the batch it has
  already taken from the queue: here the registration of a good worker is lost. \<open>get_worker_events\<close> skips the one
  event only.
\<close>

lemma event_loop_loses_batch:
  "let evs = [set_event ''bad'' ''?'', delete_event ''bad'', set_event ''k'' ''c''] in
   current_ctx_workers (snd (event_loop_batch sample_load evs (manager_init ''x'' 1 1))) = []
   \<and> keys_of (current_ctx_workers (snd (collect_events sample_load evs (manager_init ''x'' 1 1)))) = [''k'']"
  by code_simp

section \<open>Registration lasts while the heart beats\<close>

datatype cluster_event = Beat int | Client storage_op

fun harmless :: "string \<Rightarrow> int \<Rightarrow> storage_op \<Rightarrow> bool" where
  \<comment> \<open>an operation of others that does not aim at the key, with the clock before \<open>deadline\<close>\<close>
  "harmless key deadline (OSet now k v ow t) \<longleftrightarrow> k \<noteq> key \<or> \<not> ow"
| "harmless key deadline (OGet now k) \<longleftrightarrow> k \<noteq> key \<or> now < deadline"
| "harmless key deadline (OExpire now k t) \<longleftrightarrow> k \<noteq> key"
| "harmless key deadline (ODelete k) \<longleftrightarrow> k \<noteq> key"
| "harmless key deadline (OCheckExpired now) \<longleftrightarrow> now \<le> deadline"
| "harmless key deadline _ \<longleftrightarrow> True"

fun timely :: "string \<Rightarrow> int \<Rightarrow> int \<Rightarrow> cluster_event list \<Rightarrow> bool" where
  \<comment> \<open>the expiry task always runs within the timeout after the last heartbeat\<close>
  "timely key timeout beat [] \<longleftrightarrow> True"
| "timely key timeout beat (Beat now # es) \<longleftrightarrow> 0 \<le> now \<and> timely key timeout now es"
| "timely key timeout beat (Client op # es) \<longleftrightarrow> harmless key (beat + timeout) op \<and> timely key timeout beat es"

fun cluster_run :: "(worker_info \<Rightarrow> string) \<Rightarrow> cluster_event list \<Rightarrow> storage_server \<times> cluster_worker \<Rightarrow> storage_server \<times> cluster_worker" where
  "cluster_run dump [] sw = sw"
| "cluster_run dump (Beat now # es) (s, w) = cluster_run dump es (heartbeat dump now True s w)"
| "cluster_run dump (Client op # es) (s, w) = cluster_run dump es (storage_step op s, w)"

definition registered :: "string \<Rightarrow> string \<Rightarrow> int \<Rightarrow> storage_server \<Rightarrow> bool" where
  "registered key v deadline s \<longleftrightarrow> (\<exists>it. map_of (stored s) key = Some it \<and> item_value it = v \<and> expire_time it = deadline)"

lemma harmless_registered:
  assumes "server_ok s" "registered key v d s" "harmless key d op" "0 < d"
  shows "registered key v d (storage_step op s)"
proof (cases op)
  case (OSet now k v ow t)
  show ?thesis
  proof (cases "k = key")
    case True
    then have "k \<in> set (keys_of (stored s))" using assms(2) by (force simp: registered_def dest: map_of_SomeD)
    then show ?thesis using assms OSet True by (simp add: storage_set_def set_item_def)
  next
    case False
    then show ?thesis using assms(2) OSet by (auto simp: storage_set_def set_item_def Let_def registered_def)
  qed
next
  case (OGet now k)
  then show ?thesis using assms by (auto simp: storage_get_def registered_def split: option.splits)
next
  case (OExpire now k t)
  then show ?thesis using assms by (auto simp: storage_expire_def registered_def split: option.splits)
next
  case (ODelete k)
  then show ?thesis using assms by (auto simp: storage_delete_def registered_def split: option.splits)
next
  case (OCheckExpired now)
  then show ?thesis using assms by (auto simp: check_expired_stored registered_def)
next
  case (OWatch q)
  then show ?thesis using assms by (simp add: storage_watch_def registered_def)
next
  case (OUnwatch q)
  then show ?thesis using assms by (simp add: storage_unwatch_def registered_def)
qed

lemma server_ok_remove: "server_ok s \<Longrightarrow> server_ok (remove_key k it s)"
  by (auto simp: server_ok_def remove_key_def Let_def distinct_delete split: if_splits)

lemma server_ok_update:
  assumes "server_ok s" "item_key it = k" shows "server_ok (s\<lparr>stored := AList.update k it (stored s)\<rparr>)"
proof -
  have "distinct (keys_of (AList.update k it (stored s)))" using assms(1) by (simp add: server_ok_def distinct_update)
  moreover have "item_key it' = k'" if "map_of (AList.update k it (stored s)) k' = Some it'" for k' it'
    using that assms unfolding update_conv' server_ok_def by (auto simp: fun_upd_def split: if_splits)
  ultimately show ?thesis by (simp add: server_ok_def del: map_of_eq_Some_iff)
qed

lemma server_ok_notify: "server_ok (notify_watch_event k it ty s) = server_ok s"
  by (simp add: server_ok_def)

lemma server_ok_remove_all: "server_ok s \<Longrightarrow> server_ok (fold (\<lambda>(k, it). remove_key k it) ds s)"
  by (induction ds arbitrary: s) (auto intro: server_ok_remove)

lemma step_server_ok: "server_ok s \<Longrightarrow> server_ok (storage_step op s)"
proof (cases op)
  case (OSet now k v ow t)
  assume "server_ok s"
  then show ?thesis using OSet by (auto simp: storage_set_def set_item_def Let_def server_ok_notify server_ok_update)
next
  case (OExpire now k t)
  assume s: "server_ok s"
  then have "item_key it = k" if "map_of (stored s) k = Some it" for it using that unfolding server_ok_def by blast
  then show ?thesis using OExpire s by (auto simp: storage_expire_def intro: server_ok_update split: option.splits)
next
  case (OCheckExpired now)
  assume "server_ok s"
  then show ?thesis using OCheckExpired by (simp add: check_expired_alt server_ok_remove_all)
qed (auto simp: storage_get_def storage_delete_def storage_watch_def storage_unwatch_def server_ok_remove split: option.splits,
    auto simp: server_ok_def)

lemma heartbeat_registered:
  assumes "registered (worker_key w) v d s" "\<not> stopped w"
  shows "registered (worker_key w) v (now + inactive_timeout_sec w) (fst (heartbeat dump now True s w))"
    and "snd (heartbeat dump now True s w) = w\<lparr>last_heartbeat := now\<rparr>"
  using assms by (auto simp: heartbeat_def storage_expire_def registered_def Let_def)

lemma heartbeat_server_ok:
  assumes "server_ok s" "registered (worker_key w) v d s" "\<not> stopped w"
  shows "server_ok (fst (heartbeat dump now True s w))"
proof -
  have "fst (heartbeat dump now True s w) = storage_step (OExpire now (worker_key w) (inactive_timeout_sec w)) s"
    using assms(2,3) by (auto simp: heartbeat_def storage_expire_def registered_def Let_def)
  then show ?thesis using step_server_ok[OF assms(1)] by metis
qed

lemma run_keeps_registration:
  assumes "server_ok s" "registered (worker_key w) v (beat + inactive_timeout_sec w) s" "\<not> stopped w"
    and "0 \<le> beat" "0 < inactive_timeout_sec w" "timely (worker_key w) (inactive_timeout_sec w) beat es"
  shows "\<exists>s' w' d. cluster_run dump es (s, w) = (s', w') \<and> registered (worker_key w) v d s' \<and> \<not> stopped w'"
  using assms
proof (induction es arbitrary: s w beat)
  case (Cons e es)
  show ?case
  proof (cases e)
    case (Beat now)
    let ?w = "w\<lparr>last_heartbeat := now\<rparr>"
    note H = heartbeat_registered[OF Cons.prems(2,3), where now = now and dump = dump]
    have "\<exists>s' w' d. cluster_run dump es (fst (heartbeat dump now True s w), ?w) = (s', w') \<and> registered (worker_key ?w) v d s' \<and> \<not> stopped w'"
      using Cons.prems H(1) heartbeat_server_ok[OF Cons.prems(1-3)] Beat by (intro Cons.IH[where beat = now]) simp_all
    moreover have "heartbeat dump now True s w = (fst (heartbeat dump now True s w), ?w)" using H(2) by (simp add: prod_eq_iff)
    moreover have "worker_key ?w = worker_key w" by simp
    ultimately show ?thesis using Beat by (metis cluster_run.simps(2))
  next
    case (Client op)
    have "registered (worker_key w) v (beat + inactive_timeout_sec w) (storage_step op s)"
      using Cons.prems Client by (intro harmless_registered) simp_all
    then show ?thesis using Cons.prems Client step_server_ok[OF Cons.prems(1), of op] Cons.IH[of "storage_step op s" w beat] by simp
  qed
qed auto

text \<open>
  C9: a worker stays registered while its heart beats. A worker registers under a free key; as long as the expiry task and
  lazy reads run no later than the inactivity timeout after the last heartbeat and nobody else deletes, overwrites or
  shortens its entry, the entry is there with the worker's value after any sequence of heartbeats and operations of
  other clients.
\<close>

theorem heartbeat_keeps_registration:
  assumes "server_ok s" "map_of (stored s) (worker_key w) = None" "0 \<le> now" "0 < inactive_timeout_sec w"
    and "timely (worker_key w) (inactive_timeout_sec w) now es"
  shows "\<exists>s1 w1 s2 w2. register_worker dump now True retry s w = (Some True, s1, w1) \<and> cluster_run dump es (s1, w1) = (s2, w2)
    \<and> map_option item_value (map_of (stored s2) (worker_key w)) = Some (dump (w_info w)) \<and> \<not> stopped w2"
proof -
  let ?T = "inactive_timeout_sec w"
  have free: "worker_key w \<notin> set (keys_of (stored s))" using assms(2) by (simp add: map_of_eq_None_iff)
  obtain s1 w1 where 1: "register_worker dump now True retry s w = (Some True, s1, w1)" "s1 = snd (storage_set now (worker_key w) (dump (w_info w)) False ?T s)"
    "w_info w1 = w_info w" "w_cluster_name w1 = w_cluster_name w" "inactive_timeout_sec w1 = ?T" "\<not> stopped w1"
    using free by (simp add: register_worker_def storage_set_def set_item_def Let_def)
  have "registered (worker_key w) (dump (w_info w)) (now + ?T) s1"
    using free assms(4) by (simp add: 1(2) registered_def storage_set_def set_item_def Let_def)
  moreover have "server_ok s1" using step_server_ok[OF assms(1), of "OSet now (worker_key w) (dump (w_info w)) False ?T"] 1(2) by simp
  ultimately show ?thesis using run_keeps_registration[of s1 w1 "dump (w_info w)" now es dump] assms(3-5) 1
    by (fastforce simp: registered_def)
qed

definition sample_worker :: cluster_worker where
  "sample_worker = \<lparr>w_info = \<lparr>worker_id = ''1'', host = ''h'', port = 1, role = CONTEXT\<rparr>, w_cluster_name = ''x'', heartbeat_interval_sec = 5,
     inactive_timeout_sec = 10, stopped = False, heartbeat_task = False, last_heartbeat = 0\<rparr>"

lemma heartbeat_keeps_registration_witness:
  "\<exists>s1 w1 s2 w2. register_worker (\<lambda>_. ''c'') 0 True 5 storage_init sample_worker = (Some True, s1, w1)
    \<and> cluster_run (\<lambda>_. ''c'') [Beat 5, Client (OCheckExpired 11), Beat 12, Client (OCheckExpired 20)] (s1, w1) = (s2, w2)
    \<and> map_option item_value (map_of (stored s2) (worker_key sample_worker)) = Some ''c''"
  using heartbeat_keeps_registration[of storage_init sample_worker 0 "[Beat 5, Client (OCheckExpired 11), Beat 12, Client (OCheckExpired 20)]" "\<lambda>_. ''c''" 5]
  by (simp add: server_ok_def storage_init_def sample_worker_def del: cluster_run.simps) blast

end
