(* ===== verification/Disagg_Service.thy ===== *)
theory Disagg_Service
  imports Openai_Client Cluster_Manager
begin

text \<open>
  The disaggregated request service, \<open>serve/openai_disagg_service.py\<close>: a request goes to a context server, and with the
  answer of that server to a generation server, which may have been reserved before. Worker events of the cluster manager change
  the server lists of the two routers.

  What the service calls is collected in a record \<open>service_env\<close>: the operations of the two routers, the network and the
  construction of responses (see \<open>Openai_Client\<close>). \<open>gen_info\<close> is the routing operation of a KV-cache aware generation router, which
  also returns the token lists and the matches, and \<open>None\<close> for another router. Waiting for servers sleeps between checks: one
  check is modelled.
\<close>

section \<open>Responses\<close>

record choice =
  finish_reason :: "string option"
  choice_params :: "disagg_params option"   \<comment> \<open>\<open>None\<close> also after \<open>del\<close>\<close>

record completion =
  choices :: "choice list"
  resp_prompt_token_ids :: oai_prompt       \<comment> \<open>token lists, or \<open>PNone\<close>\<close>

section \<open>The service\<close>

record ('c, 'g, 'd) service_env =
  ctx_next :: "api_request \<Rightarrow> 'c \<Rightarrow> string result \<times> 'c"
  ctx_finish :: "api_request \<Rightarrow> 'c \<Rightarrow> unit result \<times> 'c"
  gen_next :: "api_request \<Rightarrow> 'g \<Rightarrow> string result \<times> 'g"
  gen_finish :: "api_request \<Rightarrow> 'g \<Rightarrow> unit result \<times> 'g"
  gen_info :: "(api_request \<Rightarrow> 'g \<Rightarrow> (string \<times> int list list \<times> int list) result \<times> 'g) option"
  network :: "string \<Rightarrow> api_request \<Rightarrow> int \<Rightarrow> 'd http_outcome"
  build_response :: "string \<Rightarrow> api_request \<Rightarrow> 'd \<Rightarrow> completion result"

record ('c, 'g) service =
  ctx_client :: "'c client"
  gen_client :: "'g client"
  max_local_prefill_length :: "int option"  \<comment> \<open>of \<open>conditional_disagg_config\<close>, if there is one\<close>
  gen_only_env :: bool                      \<comment> \<open>\<open>TRTLLM_DISAGG_BENCHMARK_GEN_ONLY\<close> is 1\<close>
  cluster :: "cluster_manager option"

type_synonym service_result = "net_error + completion answer"

definition service_ready :: "('c, 'g) service \<Rightarrow> bool" where
  "service_ready sv = (case cluster sv of None \<Rightarrow> True | Some m \<Rightarrow> is_ready m)"

definition check_conditional_disagg :: "('c, 'g, 'd) service_env \<Rightarrow> api_request \<Rightarrow> ('c, 'g) service
    \<Rightarrow> (string option \<times> bool) result \<times> ('c, 'g) service" where
  \<comment> \<open>the reserved generation server and whether a context server is needed\<close>
  "check_conditional_disagg env r sv =
     (case max_local_prefill_length sv of
        None \<Rightarrow> (Inr (None, True), sv)
      | Some max_len \<Rightarrow>
          (case gen_info env of
             None \<Rightarrow> (Inl AssertionError, sv)
           | Some info \<Rightarrow>
               (case info r (c_router (gen_client sv)) of
                  (res, rt) \<Rightarrow>
                    let sv1 = sv\<lparr>gen_client := (gen_client sv)\<lparr>c_router := rt\<rparr>\<rparr> in
                    (case res of
                       Inl e \<Rightarrow> (Inl e, sv1)
                     | Inr (server, token_lists, matches) \<Rightarrow>
                         let match_length = sum_list matches;
                             total_length = int (sum_list (map length token_lists)) in
                         (Inr (Some server, match_length = 0 \<or> total_length - match_length > max_len), sv1)))))"

definition gen_only_request :: "api_request \<Rightarrow> api_request" where
  "gen_only_request r = r\<lparr>api_params := Some \<lparr>dp_request_type = ''generation_only'', first_gen_tokens = Some [7], ctx_request_id = Some 1,
     encoded_opaque_state = None, draft_tokens = None\<rparr>, api_ignore_eos := True\<rparr>"

definition get_ctx_request :: "int \<Rightarrow> api_request \<Rightarrow> api_request" where
  \<comment> \<open>\<open>new_id\<close> is the identity of the deep copy\<close>
  "get_ctx_request new_id r = r\<lparr>api_id := new_id,
     api_params := Some \<lparr>dp_request_type = ''context_only'', first_gen_tokens = None, ctx_request_id = None, encoded_opaque_state = None, draft_tokens = None\<rparr>,
     api_stream := False, api_stream_options := None\<rparr>"

definition verify_ctx_response :: "completion option \<Rightarrow> unit result" where
  "verify_ctx_response resp = (case resp of
      None \<Rightarrow> Inr ()
    | Some c \<Rightarrow>
        (case choices c of
           [ch] \<Rightarrow>
             (case choice_params ch of
                None \<Rightarrow> Inl ValueError
              | Some p \<Rightarrow> if ctx_request_id p = None then Inl ValueError else Inr ())
         | _ \<Rightarrow> Inl ValueError))"

definition first_choice :: "completion option \<Rightarrow> choice result" where
  \<comment> \<open>\<open>response.choices[0]\<close>\<close>
  "first_choice resp = (case resp of
      None \<Rightarrow> Inl AttributeError
    | Some c \<Rightarrow> (case choices c of [] \<Rightarrow> Inl IndexError | ch # _ \<Rightarrow> Inr ch))"

definition get_gen_request :: "api_request \<Rightarrow> completion option \<Rightarrow> api_request result" where
  "get_gen_request r resp =
     res_bind (first_choice resp) (\<lambda>ch.
       case (choice_params ch, resp) of
         (Some p, Some c) \<Rightarrow>
           let r1 = r\<lparr>api_params := Some (p\<lparr>dp_request_type := ''generation_only''\<rparr>)\<rparr> in
           Inr (if api_chat r1 then r1\<lparr>api_prompt_token_ids := resp_prompt_token_ids c\<rparr> else r1\<lparr>api_prompt := resp_prompt_token_ids c\<rparr>)
       | _ \<Rightarrow> Inl AttributeError)"

definition need_gen :: "completion option \<Rightarrow> bool result \<times> completion option" where
  \<comment> \<open>with the response it leaves behind\<close>
  "need_gen resp = (case resp of
      None \<Rightarrow> (Inr True, None)
    | Some c \<Rightarrow>
        (case choices c of
           [] \<Rightarrow> (Inl IndexError, resp)
         | ch # chs \<Rightarrow>
             if finish_reason ch \<in> {Some ''length'', Some ''not_finished''} then (Inr True, resp)
             else (Inr False, Some (c\<lparr>choices := ch\<lparr>choice_params := None\<rparr> # chs\<rparr>))))"

definition send_generation :: "('c, 'g, 'd) service_env \<Rightarrow> api_request \<Rightarrow> string option \<Rightarrow> ('c, 'g) service
    \<Rightarrow> service_result \<times> ('c, 'g) service" where
  "send_generation env r reserved sv =
     (case send_request (gen_next env) (gen_finish env) (network env) (build_response env) r reserved (gen_client sv) of
        (res, c) \<Rightarrow> (res, sv\<lparr>gen_client := c\<rparr>))"

definition done_line :: string where "done_line = ''data: [DONE]'' @ [CHR 0x0A, CHR 0x0A]"

definition after_context :: "('c, 'g, 'd) service_env \<Rightarrow> api_request \<Rightarrow> string option \<Rightarrow> completion option \<Rightarrow> ('c, 'g) service
    \<Rightarrow> service_result \<times> ('c, 'g) service" where
  \<comment> \<open>what follows the answer of the context server\<close>
  "after_context env r reserved resp sv =
     (case res_bind (verify_ctx_response resp) (\<lambda>_. get_gen_request r resp) of
        Inl e \<Rightarrow> (Inl (Failure e), sv)
      | Inr gen_req \<Rightarrow>
          (case need_gen resp of
             (Inl e, _) \<Rightarrow> (Inl (Failure e), sv)
           | (Inr True, _) \<Rightarrow> send_generation env gen_req reserved sv
           | (Inr False, resp') \<Rightarrow> (Inr (if api_stream r then Stream_Lines [done_line] None else Answer resp'), sv)))"

definition send_disagg_request :: "('c, 'g, 'd) service_env \<Rightarrow> int \<Rightarrow> api_request \<Rightarrow> ('c, 'g) service
    \<Rightarrow> service_result \<times> ('c, 'g) service" where
  "send_disagg_request env new_id r sv =
     (case check_conditional_disagg env r sv of
        (Inl e, sv1) \<Rightarrow> (Inl (Failure e), sv1)
      | (Inr (reserved, need_ctx), sv1) \<Rightarrow>
          if need_ctx \<and> \<not> gen_only_env sv1 then
            (case send_request (ctx_next env) (ctx_finish env) (network env) (build_response env) (get_ctx_request new_id r) None (ctx_client sv1) of
               (Inl e, c) \<Rightarrow> (Inl e, sv1\<lparr>ctx_client := c\<rparr>)
             | (Inr (Stream_Lines _ _), c) \<Rightarrow> (Inl (Failure AttributeError), sv1\<lparr>ctx_client := c\<rparr>)
             | (Inr (Answer resp), c) \<Rightarrow> after_context env r reserved resp (sv1\<lparr>ctx_client := c\<rparr>))
          else send_generation env (if need_ctx then gen_only_request r else r) reserved sv1)"

definition check_prompt :: "oai_prompt \<Rightarrow> oai_prompt result" where
  \<comment> \<open>the prompt check of \<open>openai_completion\<close>: a list of one element is replaced by the element\<close>
  "check_prompt p = (case p of
      PStr s \<Rightarrow> Inr p
    | PTokens ts \<Rightarrow> (case ts of [t] \<Rightarrow> Inr (PInt t) | _ \<Rightarrow> Inr p)
    | PStrs ss \<Rightarrow> (case ss of [] \<Rightarrow> Inr p | [s] \<Rightarrow> Inr (PStr s) | _ \<Rightarrow> Inl ValueError)
    | PTokenLists tss \<Rightarrow> (case tss of [] \<Rightarrow> Inr p | [ts] \<Rightarrow> Inr (PTokens ts) | _ \<Rightarrow> Inl ValueError)
    | PInt _ \<Rightarrow> Inl ValueError
    | PNone \<Rightarrow> Inl ValueError)"

definition openai_completion :: "('c, 'g, 'd) service_env \<Rightarrow> int \<Rightarrow> api_request \<Rightarrow> ('c, 'g) service
    \<Rightarrow> service_result \<times> ('c, 'g) service" where
  "openai_completion env new_id r sv =
     (if \<not> service_ready sv then (Inl (Failure RuntimeError), sv)
      else case check_prompt (api_prompt r) of
        Inl e \<Rightarrow> (Inl (Failure e), sv)
      | Inr p \<Rightarrow> send_disagg_request env new_id (r\<lparr>api_prompt := p\<rparr>) sv)"

definition openai_chat_completion :: "('c, 'g, 'd) service_env \<Rightarrow> int \<Rightarrow> api_request \<Rightarrow> ('c, 'g) service
    \<Rightarrow> service_result \<times> ('c, 'g) service" where
  "openai_chat_completion env new_id r sv =
     (if \<not> service_ready sv then (Inl (Failure RuntimeError), sv) else send_disagg_request env new_id r sv)"

definition all_servers_ready :: "(string \<Rightarrow> bool) \<Rightarrow> bool \<Rightarrow> string list \<Rightarrow> string list \<Rightarrow> bool" where
  \<comment> \<open>one check of \<open>_wait_for_all_servers_ready\<close>\<close>
  "all_servers_ready healthy gen_only ctx_servers gen_servers \<longleftrightarrow>
     (gen_only \<or> snd (check_ready healthy ctx_servers) = []) \<and> snd (check_ready healthy gen_servers) = []"

section \<open>Worker events\<close>

fun dec_digits :: "nat \<Rightarrow> string" where
  "dec_digits n = (if n < 10 then [char_of (48 + n)] else dec_digits (n div 10) @ [char_of (48 + n mod 10)])"

declare dec_digits.simps [simp del]

definition worker_addr :: "worker_info \<Rightarrow> string" where
  "worker_addr w = host w @ '':'' @ (if port w < 0 then ''-'' else '''') @ dec_digits (nat \<bar>port w\<bar>)"

type_synonym ('a, 'b) routers = "'a router_scheme \<times> 'b router_scheme"

definition apply_event :: "(string list \<Rightarrow> string list \<Rightarrow> 'a router_scheme \<Rightarrow> 'a router_scheme) \<Rightarrow> string \<Rightarrow> watch_event_type
    \<Rightarrow> 'a router_scheme \<Rightarrow> 'a router_scheme" where
  "apply_event on_updated addr ty rt = (case ty of SET \<Rightarrow> add_server on_updated addr rt | DELETE \<Rightarrow> remove_server on_updated addr rt)"

definition on_worker_event :: "(string list \<Rightarrow> string list \<Rightarrow> 'a router_scheme \<Rightarrow> 'a router_scheme)
    \<Rightarrow> (string list \<Rightarrow> string list \<Rightarrow> 'b router_scheme \<Rightarrow> 'b router_scheme) \<Rightarrow> worker_info \<times> watch_event_type \<Rightarrow> ('a, 'b) routers \<Rightarrow> ('a, 'b) routers" where
  \<comment> \<open>an unknown role is logged\<close>
  "on_worker_event uc ug = (\<lambda>(w, ty) (ctx, gen). case Cluster_Manager.role w of
      Cluster_Manager.CONTEXT \<Rightarrow> (apply_event uc (worker_addr w) ty ctx, gen)
    | Cluster_Manager.GENERATION \<Rightarrow> (ctx, apply_event ug (worker_addr w) ty gen)
    | MM_ENCODER \<Rightarrow> (ctx, gen))"

section \<open>A request through both phases\<close>

lemma get_ctx_request_fields [simp]:
  "api_stream (get_ctx_request i r) = False" "api_params (get_ctx_request i r) \<noteq> None" "api_id (get_ctx_request i r) = i"
  by (simp_all add: get_ctx_request_def)

lemma gen_request_fields:
  assumes "res_bind (verify_ctx_response resp) (\<lambda>_. get_gen_request r resp) = Inr q"
  shows "api_id q = api_id r" "api_stream q = api_stream r" "api_params q \<noteq> None"
  using assms by (auto simp: get_gen_request_def first_choice_def Let_def split: option.splits list.splits if_splits)

lemma gen_only_request_fields [simp]:
  "api_id (gen_only_request r) = api_id r" "api_stream (gen_only_request r) = api_stream r" "api_params (gen_only_request r) \<noteq> None"
  by (simp_all add: gen_only_request_def)

lemma need_gen_checked: "verify_ctx_response resp = Inr () \<Longrightarrow> \<exists>b resp'. need_gen resp = (Inr b, resp')"
  by (auto simp: verify_ctx_response_def need_gen_def split: option.splits list.splits)

text \<open>
  Two routers that can be released. The context request is a copy with its own identity; the generation request is the request
  itself, with new parameters.
\<close>

locale two_routers =
  ctx: releasing_router c_ready c_observe c_nxt c_fin + gen: releasing_router g_ready g_observe g_nxt g_fin
  for c_ready :: "api_request \<Rightarrow> 'c \<Rightarrow> bool" and c_observe :: "'c \<Rightarrow> 'o" and c_nxt c_fin
    and g_ready :: "api_request \<Rightarrow> 'g \<Rightarrow> bool" and g_observe :: "'g \<Rightarrow> 'p" and g_nxt g_fin
begin

definition uses :: "('c, 'g, 'd) service_env \<Rightarrow> bool" where
  "uses env \<longleftrightarrow> ctx_next env = c_nxt \<and> ctx_finish env = c_fin \<and> gen_next env = g_nxt \<and> gen_finish env = g_fin"

definition idle_for :: "int \<Rightarrow> api_request \<Rightarrow> ('c, 'g) service \<Rightarrow> bool" where
  \<comment> \<open>both routers can take the request, whatever its prompt and parameters become\<close>
  "idle_for new_id r sv \<longleftrightarrow> 0 \<le> max_retries (ctx_client sv) \<and> 0 \<le> max_retries (gen_client sv)
     \<and> c_ready (get_ctx_request new_id r) (c_router (ctx_client sv))
     \<and> (\<forall>q. api_id q = api_id r \<longrightarrow> g_ready q (c_router (gen_client sv)))"

definition unchanged :: "('c, 'g) service \<Rightarrow> ('c, 'g) service \<Rightarrow> bool" where
  "unchanged sv sv' \<longleftrightarrow> c_observe (c_router (ctx_client sv')) = c_observe (c_router (ctx_client sv))
     \<and> g_observe (c_router (gen_client sv')) = g_observe (c_router (gen_client sv))"

lemma generation_releases:
  assumes "uses env" "idle_for i r sv" "api_id q = api_id r" "\<not> api_stream q" "api_params q \<noteq> None"
  obtains s sv' where "send_generation env q None sv =
      (map_sum id Answer (verdict (network env (url_to s q) q) (build_response env s q) (attempts (gen_client sv))), sv')"
    "unchanged sv sv'" "ctx_client sv' = ctx_client sv"
proof -
  have "g_ready q (c_router (gen_client sv))" "0 \<le> max_retries (gen_client sv)" using assms(2,3) by (auto simp: idle_for_def)
  from gen.send_releases[OF this(1) assms(4,5) this(2), of "network env" "build_response env"] obtain s c1 where
    "send_request g_nxt g_fin (network env) (build_response env) q None (gen_client sv) =
      (map_sum id Answer (verdict (network env (url_to s q) q) (build_response env s q) (attempts (gen_client sv))), c1)"
    "g_observe (c_router c1) = g_observe (c_router (gen_client sv))" by metis
  then show ?thesis using assms(1)
    by (intro that[of s "sv\<lparr>gen_client := c1\<rparr>"]) (simp_all add: send_generation_def uses_def unchanged_def)
qed

lemma after_context_releases:
  assumes "uses env" "idle_for i r sv" "\<not> api_stream r"
  shows "unchanged sv (snd (after_context env r None resp sv))"
proof (cases "res_bind (verify_ctx_response resp) (\<lambda>_. get_gen_request r resp)")
  case (Inl e)
  then show ?thesis by (simp add: after_context_def unchanged_def)
next
  case (Inr q)
  then obtain b resp' where ng: "need_gen resp = (Inr b, resp')" using need_gen_checked[of resp] by auto
  note q = gen_request_fields[OF Inr]
  obtain s sv' where "send_generation env q None sv =
      (map_sum id Answer (verdict (network env (url_to s q) q) (build_response env s q) (attempts (gen_client sv))), sv')" "unchanged sv sv'"
    using generation_releases[OF assms(1,2) q(1) _ q(3)] assms(3) q(2) by metis
  then show ?thesis by (cases b) (simp_all add: after_context_def Inr ng unchanged_def)
qed

lemma idle_for_ctx:
  assumes "idle_for i r sv" "\<And>q. c_ready q (c_router c1) = c_ready q (c_router (ctx_client sv))" "max_retries c1 = max_retries (ctx_client sv)"
  shows "idle_for i r (sv\<lparr>ctx_client := c1\<rparr>)"
  using assms by (simp add: idle_for_def)

text \<open>Without conditional disaggregation, a request that is not streamed leaves both routers as they were, whatever happens.\<close>

lemma request_releases:
  assumes "uses env" "idle_for i r sv" "\<not> api_stream r" "max_local_prefill_length sv = None"
  shows "unchanged sv (snd (send_disagg_request env i r sv))"
proof (cases "gen_only_env sv")
  case True
  obtain s sv' where "send_generation env (gen_only_request r) None sv = (map_sum id Answer (verdict (network env (url_to s (gen_only_request r)) (gen_only_request r))
      (build_response env s (gen_only_request r)) (attempts (gen_client sv))), sv')" "unchanged sv sv'"
    using generation_releases[OF assms(1,2), of "gen_only_request r"] assms(3) by (metis gen_only_request_fields)
  then show ?thesis using True assms(4) by (simp add: send_disagg_request_def check_conditional_disagg_def)
next
  case False
  let ?q = "get_ctx_request i r"
  have "c_ready ?q (c_router (ctx_client sv))" "0 \<le> max_retries (ctx_client sv)" using assms(2) by (auto simp: idle_for_def)
  from ctx.send_releases[OF this(1) _ _ this(2), of "network env" "build_response env"] obtain s c1 where
    c1: "send_request c_nxt c_fin (network env) (build_response env) ?q None (ctx_client sv) =
      (map_sum id Answer (verdict (network env (url_to s ?q) ?q) (build_response env s ?q) (attempts (ctx_client sv))), c1)"
    "c_observe (c_router c1) = c_observe (c_router (ctx_client sv))" "\<And>p. c_ready p (c_router c1) = c_ready p (c_router (ctx_client sv))"
    "max_retries c1 = max_retries (ctx_client sv)" using get_ctx_request_fields(1,2) by metis
  have "unchanged (sv\<lparr>ctx_client := c1\<rparr>) (snd (after_context env r None resp (sv\<lparr>ctx_client := c1\<rparr>)))" for resp
    using after_context_releases[OF assms(1) idle_for_ctx[OF assms(2) c1(3,4)] assms(3)] .
  then have "unchanged sv (snd (after_context env r None resp (sv\<lparr>ctx_client := c1\<rparr>)))" for resp
    using c1(2) by (simp add: unchanged_def)
  moreover have "unchanged sv (sv\<lparr>ctx_client := c1\<rparr>)" using c1(2) by (simp add: unchanged_def)
  ultimately show ?thesis using False assms(1,4) c1(1)
    by (simp add: send_disagg_request_def check_conditional_disagg_def uses_def map_sum_def split: sum.splits)
qed

end

interpretation lb_service: two_routers lb_ready lb_observe lb_nxt lb_fin lb_ready lb_observe lb_nxt lb_fin
  by unfold_locales

definition lb_env :: "(string \<Rightarrow> api_request \<Rightarrow> int \<Rightarrow> 'd http_outcome) \<Rightarrow> (string \<Rightarrow> api_request \<Rightarrow> 'd \<Rightarrow> completion result)
    \<Rightarrow> (lb_router, lb_router, 'd) service_env" where
  \<comment> \<open>a service whose two routers balance the load\<close>
  "lb_env net build = \<lparr>ctx_next = lb_nxt, ctx_finish = lb_fin, gen_next = lb_nxt, gen_finish = lb_fin, gen_info = None, network = net, build_response = build\<rparr>"

lemma lb_env_uses: "lb_service.uses (lb_env net build)"
  by (simp add: lb_service.uses_def lb_env_def)

definition can_take :: "int \<Rightarrow> lb_router client \<Rightarrow> bool" where
  \<comment> \<open>a client whose router counts requests, has servers and does not know the request\<close>
  "can_take i c \<longleftrightarrow> 0 \<le> max_retries c \<and> lb_inv (c_router c) \<and> servers (c_router c) \<noteq> [] \<and> \<not> use_tokens (c_router c)
     \<and> map_of (routing_table (c_router c)) i = None"

lemma can_take_idle:
  assumes "can_take i (ctx_client sv)" "can_take (api_id r) (gen_client sv)"
  shows "lb_service.idle_for i r sv"
  using assms by (simp add: lb_service.idle_for_def can_take_def lb_ready_def lb_supported_def)

text \<open>
  C31: a request gives back what it takes. Two load-balancing routers count requests; a completion request without streaming and
  without conditional disaggregation passes through the service. Whatever the network answers in whatever attempt,
  whether the responses can be built or are accepted, at the end every server of both routers has the load it had
  before, and neither routing table knows the request.
\<close>

theorem request_gives_back_servers:
  assumes "can_take i (ctx_client sv)" "can_take (api_id r) (gen_client sv)" "\<not> api_stream r" "max_local_prefill_length sv = None"
    and "openai_completion (lb_env net build) i r sv = (res, sv')"
  shows "lb_load (c_router (ctx_client sv')) = lb_load (c_router (ctx_client sv))
    \<and> lb_load (c_router (gen_client sv')) = lb_load (c_router (gen_client sv))
    \<and> routing_table (c_router (ctx_client sv')) = routing_table (c_router (ctx_client sv))
    \<and> routing_table (c_router (gen_client sv')) = routing_table (c_router (gen_client sv))"
proof -
  have "lb_service.unchanged sv (snd (send_disagg_request (lb_env net build) i (r\<lparr>api_prompt := p\<rparr>) sv))" for p
    using assms(1-4) by (intro lb_service.request_releases lb_env_uses can_take_idle) simp_all
  moreover have "lb_service.unchanged sv sv" by (simp add: lb_service.unchanged_def)
  ultimately have "lb_service.unchanged sv sv'"
    using arg_cong[OF assms(5), of snd] by (auto simp: openai_completion_def split: if_splits sum.splits)
  then show ?thesis by (simp add: lb_service.unchanged_def lb_observe_def)
qed

text \<open>
  C33: the generation server receives what the context server computed, for completions and chats, streamed or not. The service has two
  load-balancing routers that count requests, no conditional disaggregation and is not in generation-only mode; every context server answers with one choice that
  carries a context request id. If that choice ended for its length or is not finished, what the service does is to send to a
  generation server a request with exactly those parameters, marked as generation only, and with the token ids of the response as prompt; without streaming the answer is what the first
  attempt that makes contact gives. Otherwise no generation server is asked: the choice is the answer, without the parameters, or for a streamed request only the final line.
\<close>

theorem generation_follows_context:
  fixes r :: api_request and sv :: "(lb_router, lb_router) service"
  assumes "can_take i (ctx_client sv)" "can_take (api_id r) (gen_client sv)"
    and "max_local_prefill_length sv = None" "\<not> gen_only_env sv"
    and ctx: "\<And>s. verdict (net (url_to s (get_ctx_request i r)) (get_ctx_request i r)) (build s (get_ctx_request i r)) (attempts (ctx_client sv)) = Inr (Some c)"
    and c: "choices c = [ch]" "choice_params ch = Some p" "ctx_request_id p \<noteq> None"
  defines "q \<equiv> (let r1 = r\<lparr>api_params := Some (p\<lparr>dp_request_type := ''generation_only''\<rparr>)\<rparr> in
     if api_chat r then r1\<lparr>api_prompt_token_ids := resp_prompt_token_ids c\<rparr> else r1\<lparr>api_prompt := resp_prompt_token_ids c\<rparr>)"
  shows "if finish_reason ch \<in> {Some ''length'', Some ''not_finished''}
    then (fst (send_disagg_request (lb_env net build) i r sv), gen_client (snd (send_disagg_request (lb_env net build) i r sv)))
          = send_request lb_nxt lb_fin net build q None (gen_client sv)
      \<and> (\<not> api_stream r \<longrightarrow> (\<exists>s. fst (send_disagg_request (lb_env net build) i r sv) = map_sum id Answer (verdict (net (url_to s q) q) (build s q) (attempts (gen_client sv)))))
    else fst (send_disagg_request (lb_env net build) i r sv)
          = Inr (if api_stream r then Stream_Lines [done_line] None else Answer (Some (c\<lparr>choices := [ch\<lparr>choice_params := None\<rparr>]\<rparr>)))
      \<and> gen_client (snd (send_disagg_request (lb_env net build) i r sv)) = gen_client sv"
proof -
  let ?env = "lb_env net build" and ?q = "get_ctx_request i r"
  have idle: "lb_service.idle_for i r sv" using assms(1,2) by (rule can_take_idle)
  then have rdy: "lb_ready ?q (c_router (ctx_client sv))" "0 \<le> max_retries (ctx_client sv)" by (auto simp: lb_service.idle_for_def)
  obtain s0 c1 v where c0: "send_request lb_nxt lb_fin net build ?q None (ctx_client sv) = (map_sum id Answer v, c1)"
    "v = verdict (net (url_to s0 ?q) ?q) (build s0 ?q) (attempts (ctx_client sv))"
    "\<And>p. lb_ready p (c_router c1) = lb_ready p (c_router (ctx_client sv))" "max_retries c1 = max_retries (ctx_client sv)"
    by (rule lb_client.send_releases[OF rdy(1) _ _ rdy(2), of net build]) (simp_all only: get_ctx_request_fields not_False_eq_True)
  then have c1: "send_request lb_nxt lb_fin net build ?q None (ctx_client sv) = (Inr (Answer (Some c)), c1)"
    unfolding c0(2) ctx by simp
  let ?sv = "sv\<lparr>ctx_client := c1\<rparr>"
  have send: "send_disagg_request ?env i r sv = after_context ?env r None (Some c) ?sv"
    using c1 assms(3,4) by (simp add: send_disagg_request_def check_conditional_disagg_def lb_env_def)
  have g: "res_bind (verify_ctx_response (Some c)) (\<lambda>_. get_gen_request r (Some c)) = Inr q"
    using c by (simp add: verify_ctx_response_def get_gen_request_def first_choice_def q_def Let_def)
  have idle1: "lb_service.idle_for i r ?sv" using lb_service.idle_for_ctx[OF idle c0(3,4)] .
  note q = gen_request_fields[OF g]
  have gen: "\<exists>s. fst (send_generation ?env q None ?sv) = map_sum id Answer (verdict (net (url_to s q) q) (build s q) (attempts (gen_client sv)))" if "\<not> api_stream r"
    by (rule lb_service.generation_releases[OF lb_env_uses[of net build] idle1 q(1) _ q(3)]) (use that q(2) in \<open>auto simp: lb_env_def\<close>)
  have e: "(fst (send_generation ?env q None ?sv), gen_client (snd (send_generation ?env q None ?sv))) = send_request lb_nxt lb_fin net build q None (gen_client sv)"
    by (simp add: send_generation_def lb_env_def split_beta)
  show ?thesis
  proof (cases "finish_reason ch \<in> {Some ''length'', Some ''not_finished''}")
    case True
    then have "need_gen (Some c) = (Inr True, Some c)" using c(1) by (simp add: need_gen_def)
    then show ?thesis using True e gen by (simp only: if_P send after_context_def g need_gen_def sum.case prod.case bool.case) simp
  next
    case False
    then have "need_gen (Some c) = (Inr False, Some (c\<lparr>choices := [ch\<lparr>choice_params := None\<rparr>]\<rparr>))" using c(1) by (simp add: need_gen_def)
    then show ?thesis unfolding if_not_P[OF False] by (simp add: send after_context_def g)
  qed
qed

section \<open>The routers follow the cluster\<close>

fun service_rounds :: "load_fn \<Rightarrow> (string list \<Rightarrow> string list \<Rightarrow> 'a router_scheme \<Rightarrow> 'a router_scheme)
    \<Rightarrow> (string list \<Rightarrow> string list \<Rightarrow> 'b router_scheme \<Rightarrow> 'b router_scheme) \<Rightarrow> storage_op list list
    \<Rightarrow> storage_server \<times> cluster_manager \<times> ('a, 'b) routers \<Rightarrow> storage_server \<times> cluster_manager \<times> ('a, 'b) routers" where
  \<comment> \<open>rounds in which clients use the storage and the event loop then takes its events\<close>
  "service_rounds load uc ug [] x = x"
| "service_rounds load uc ug (ops # rounds) (s, m, rts) =
     (let s' = fold storage_step ops s in
      service_rounds load uc ug rounds
        (case drain_events (worker_key_prefix m) s' of
           None \<Rightarrow> (s', m, rts)
         | Some (evs, s'') \<Rightarrow>
             (case event_loop_batch load evs m of (ws, m') \<Rightarrow> (s'', m', fold (on_worker_event uc ug) ws rts))))"

definition known_worker :: "string set \<Rightarrow> load_fn \<Rightarrow> (string \<Rightarrow> server_role) \<Rightarrow> (string \<Rightarrow> worker_info) \<Rightarrow> string \<Rightarrow> string \<Rightarrow> bool" where
  \<comment> \<open>the workers of the keys \<open>K\<close> keep their role and address\<close>
  "known_worker K load role_of info k v \<longleftrightarrow> k \<in> K \<and> worker_value load role_of k v \<and> load v = Some (info k)"

definition distinct_addresses :: "string set \<Rightarrow> (string \<Rightarrow> server_role) \<Rightarrow> (string \<Rightarrow> worker_info) \<Rightarrow> bool" where
  "distinct_addresses K role_of info \<longleftrightarrow>
     (\<forall>k \<in> K. \<forall>k' \<in> K. role_of k = role_of k' \<and> worker_addr (info k) = worker_addr (info k') \<longrightarrow> k = k')"

text \<open>What a router promises: a change of the server list changes the list and nothing else that the service reads.\<close>

locale server_list =
  fixes on_updated :: "string list \<Rightarrow> string list \<Rightarrow> 'a router_scheme \<Rightarrow> 'a router_scheme"
  assumes keeps_list: "servers (on_updated old new rt) = servers rt"
begin

definition lists :: "(string, worker_info) dict \<Rightarrow> 'a router_scheme \<Rightarrow> bool" where
  "lists ws rt \<longleftrightarrow> distinct (servers rt) \<and> set (servers rt) = worker_addr ` ran (map_of ws)"

lemma lists_set:
  assumes "lists ws rt" "map_of ws k = None \<or> map_of ws k = Some w"
  shows "lists (AList.update k w ws) (apply_event on_updated (worker_addr w) SET rt)"
proof -
  have "ran (map_of (AList.update k w ws)) = insert w (ran (map_of ws))"
    using assms(2)
  proof
    assume "map_of ws k = Some w"
    then show ?thesis by (simp add: update_conv' map_upd_triv insert_absorb ranI)
  qed (simp add: update_conv')
  then show ?thesis using assms(1)
    by (auto simp: lists_def apply_event_def add_server_def added_servers_def change_servers_def keeps_list)
qed

lemma lists_delete:
  assumes "lists ws rt" "map_of ws k = Some w" "\<And>k' w'. map_of ws k' = Some w' \<Longrightarrow> worker_addr w' = worker_addr w \<Longrightarrow> k' = k"
  shows "lists (AList.delete k ws) (apply_event on_updated (worker_addr w) DELETE rt)"
proof -
  have "ran (map_of (AList.delete k ws)) = {x. \<exists>j. j \<noteq> k \<and> map_of ws j = Some x}" by (auto simp: ran_def delete_conv')
  also have "\<dots> = {x \<in> ran (map_of ws). worker_addr x \<noteq> worker_addr w}"
  proof (intro set_eqI iffI; elim CollectE exE conjE)
    fix x j assume "j \<noteq> k" "map_of ws j = Some x"
    then show "x \<in> {x \<in> ran (map_of ws). worker_addr x \<noteq> worker_addr w}" using assms(3)[of j x] ranI[of "map_of ws"] by auto
  next
    fix x assume "x \<in> ran (map_of ws)" "worker_addr x \<noteq> worker_addr w"
    then obtain j where "map_of ws j = Some x" "j \<noteq> k" using assms(2) by (force simp: ran_def)
    then show "x \<in> {x. \<exists>j. j \<noteq> k \<and> map_of ws j = Some x}" by auto
  qed
  finally have "worker_addr ` ran (map_of (AList.delete k ws)) = worker_addr ` ran (map_of ws) - {worker_addr w}" by auto
  with assms(1) show ?thesis
    by (auto simp: lists_def apply_event_def remove_server_def removed_servers_def change_servers_def keeps_list)
qed

lemma lists_length: "lists ws rt \<Longrightarrow> distinct (keys_of ws) \<Longrightarrow> (\<And>k w k' w'. map_of ws k = Some w \<Longrightarrow> map_of ws k' = Some w' \<Longrightarrow>
    worker_addr w = worker_addr w' \<Longrightarrow> k = k') \<Longrightarrow> length (servers rt) = length ws"
proof -
  assume l: "lists ws rt" "distinct (keys_of ws)" and inj: "\<And>k w k' w'. map_of ws k = Some w \<Longrightarrow> map_of ws k' = Some w' \<Longrightarrow>
    worker_addr w = worker_addr w' \<Longrightarrow> k = k'"
  have "ran (map_of ws) = snd ` set ws" using ran_distinct[OF l(2)] .
  then have "length (servers rt) = card (worker_addr ` snd ` set ws)" using l(1) by (auto simp: lists_def distinct_card[symmetric])
  also have "inj_on (worker_addr \<circ> snd) (set ws)"
  proof (rule inj_onI, clarsimp)
    fix k w k' w' assume kw: "(k, w) \<in> set ws" "(k', w') \<in> set ws" "worker_addr w = worker_addr w'"
    then have m: "map_of ws k = Some w" "map_of ws k' = Some w'" using map_of_is_SomeI[OF l(2)] by auto
    then show "k = k' \<and> w = w'" using inj[OF m kw(3)] by simp
  qed
  then have "card (worker_addr ` snd ` set ws) = card (set ws)" unfolding image_comp by (rule card_image)
  also have "\<dots> = length ws" using l(2) by (simp add: distinct_card distinct_map)
  finally show ?thesis .
qed

end

interpretation rr_list: server_list rr_on_servers_updated
  by unfold_locales (simp add: rr_on_servers_updated_def)

interpretation lb_list: server_list lb_on_servers_updated
  by unfold_locales (simp add: lb_on_servers_updated_def Let_def split: sum.split)

interpretation kv_list: server_list kv_on_servers_updated
  by unfold_locales (simp add: kv_on_servers_updated_def)

locale cluster_routers = ctx: server_list uc + gen: server_list ug for uc ug
begin

definition agree :: "string set \<Rightarrow> (string \<Rightarrow> server_role) \<Rightarrow> (string \<Rightarrow> worker_info) \<Rightarrow> cluster_manager \<Rightarrow> ('a, 'b) routers \<Rightarrow> bool" where
  "agree K role_of info m = (\<lambda>(c, g). ctx.lists (current_ctx_workers m) c \<and> gen.lists (current_gen_workers m) g
     \<and> (\<forall>k w. map_of (current_ctx_workers m) k = Some w \<longrightarrow> k \<in> K \<and> w = info k \<and> role_of k = CONTEXT \<and> role w = CONTEXT)
     \<and> (\<forall>k w. map_of (current_gen_workers m) k = Some w \<longrightarrow> k \<in> K \<and> w = info k \<and> role_of k = GENERATION \<and> role w = GENERATION))"

lemma agree_put:
  assumes ag: "agree K role_of info m (c, g)" and kn: "known_worker K load role_of info k v" and put: "put_worker k (info k) m = Some m'"
  shows "agree K role_of info m' (on_worker_event uc ug (info k, SET) (c, g))"
proof -
  have r: "role (info k) = role_of k" "k \<in> K" using kn by (auto simp: known_worker_def worker_value_def)
  show ?thesis
  proof (cases "role_of k")
    case CONTEXT
    have "ctx.lists (AList.update k (info k) (current_ctx_workers m)) (apply_event uc (worker_addr (info k)) SET c)"
      using ag by (intro ctx.lists_set; cases "map_of (current_ctx_workers m) k") (auto simp: agree_def)
    then show ?thesis using ag put r CONTEXT by (auto simp: agree_def put_worker_def on_worker_event_def update_conv' split: if_splits)
  next
    case GENERATION
    have "gen.lists (AList.update k (info k) (current_gen_workers m)) (apply_event ug (worker_addr (info k)) SET g)"
      using ag by (intro gen.lists_set; cases "map_of (current_gen_workers m) k") (auto simp: agree_def)
    then show ?thesis using ag put r GENERATION by (auto simp: agree_def put_worker_def on_worker_event_def update_conv' split: if_splits)
  next
    case MM_ENCODER
    then show ?thesis using put r by (simp add: put_worker_def)
  qed
qed

lemma agree_pop:
  assumes d: "distinct_addresses K role_of info" and ag: "agree K role_of info m (c, g)" and pop: "pop_worker k m = Inr (w, m')"
  shows "agree K role_of info m' (on_worker_event uc ug (w, DELETE) (c, g))"
proof (cases "map_of (current_ctx_workers m) k")
  case (Some w')
  then have w: "w' = w" "m' = m\<lparr>current_ctx_workers := AList.delete k (current_ctx_workers m)\<rparr>" using pop by (auto simp: pop_worker_def)
  have "ctx.lists (AList.delete k (current_ctx_workers m)) (apply_event uc (worker_addr w) DELETE c)"
  proof (rule ctx.lists_delete)
    fix k' x assume "map_of (current_ctx_workers m) k' = Some x" "worker_addr x = worker_addr w"
    then have "k' \<in> K \<and> x = info k' \<and> role_of k' = CONTEXT" "k \<in> K \<and> w = info k \<and> role_of k = CONTEXT" using ag Some w(1) by (auto simp: agree_def)
    then show "k' = k" using d \<open>worker_addr x = worker_addr w\<close> by (auto simp: distinct_addresses_def)
  qed (use ag Some w(1) in \<open>auto simp: agree_def\<close>)
  then show ?thesis using ag Some w by (auto simp: agree_def on_worker_event_def delete_conv' split: if_splits)
next
  case None
  then have w: "map_of (current_gen_workers m) k = Some w" "m' = m\<lparr>current_gen_workers := AList.delete k (current_gen_workers m)\<rparr>"
    using pop by (auto simp: pop_worker_def split: option.splits)
  have "gen.lists (AList.delete k (current_gen_workers m)) (apply_event ug (worker_addr w) DELETE g)"
  proof (rule gen.lists_delete)
    fix k' x assume "map_of (current_gen_workers m) k' = Some x" "worker_addr x = worker_addr w"
    then have "k' \<in> K \<and> x = info k' \<and> role_of k' = GENERATION" "k \<in> K \<and> w = info k \<and> role_of k = GENERATION" using ag w(1) by (auto simp: agree_def)
    then show "k' = k" using d \<open>worker_addr x = worker_addr w\<close> by (auto simp: distinct_addresses_def)
  qed (use ag w(1) in \<open>auto simp: agree_def\<close>)
  then show ?thesis using ag w by (auto simp: agree_def on_worker_event_def delete_conv' split: if_splits)
qed

lemma agree_parse:
  assumes d: "distinct_addresses K role_of info" and ag: "agree K role_of info m rts" and p: "parse_worker_info load ev m = Inr (w, m')"
    and kn: "event_type ev = SET \<Longrightarrow> known_worker K load role_of info (item_key (event_item ev)) (item_value (event_item ev))"
  shows "agree K role_of info m' (on_worker_event uc ug (w, event_type ev) rts)"
proof (cases "event_type ev")
  case SET
  note k = kn[OF SET]
  then have "put_worker (item_key (event_item ev)) (info (item_key (event_item ev))) m \<noteq> None"
    by (cases "role_of (item_key (event_item ev))") (auto simp: known_worker_def worker_value_def put_worker_def)
  then obtain m1 where m1: "put_worker (item_key (event_item ev)) (info (item_key (event_item ev))) m = Some m1" by blast
  then have "w = info (item_key (event_item ev)) \<and> m' = m1"
    using p k SET by (auto simp: parse_worker_info_def known_worker_def Let_def)
  then show ?thesis using agree_put[OF _ k m1] ag SET by (cases rts) auto
next
  case DELETE
  then have "pop_worker (item_key (event_item ev)) m = Inr (w, m')" using p by (simp add: parse_worker_info_def Let_def)
  then show ?thesis using agree_pop[OF d] ag DELETE by (cases rts) auto
qed

lemma agree_existing:
  assumes d: "distinct_addresses K role_of info"
  shows "agree K role_of info m rts \<Longrightarrow> parse_existing load kvs m = Inr (ws, evs, m') \<Longrightarrow> list_all (\<lambda>(k, v). known_worker K load role_of info k v) kvs
    \<Longrightarrow> agree K role_of info m' (fold (on_worker_event uc ug) (map (\<lambda>w. (w, SET)) ws) rts)"
proof (induction kvs arbitrary: m rts ws evs)
  case (Cons kv kvs)
  obtain k v where kv: "kv = (k, v)" by (cases kv)
  let ?ev = "\<lparr>event_item = \<lparr>item_key = k, item_value = v, expire_time = - 1, ttl = - 1, overwrite_if_exists = False\<rparr>, event_type = SET\<rparr>"
  from Cons.prems(2) obtain w m1 ws1 evs1 where 1: "parse_worker_info load ?ev m = Inr (w, m1)" "parse_existing load kvs m1 = Inr (ws1, evs1, m')"
    "ws = w # ws1" by (auto simp: kv Let_def)
  have "agree K role_of info m1 (on_worker_event uc ug (w, SET) rts)"
    using agree_parse[OF d Cons.prems(1) 1(1)] Cons.prems(3) by (simp add: kv)
  from Cons.IH[OF this 1(2)] Cons.prems(3) 1(3) show ?case by simp
qed simp

lemma agree_batch:
  assumes d: "distinct_addresses K role_of info"
  shows "agree K role_of info m rts \<Longrightarrow> event_loop_batch load evs m = (ws, m') \<Longrightarrow> events_ok (known_worker K load role_of info) evs f
    \<Longrightarrow> agree K role_of info m' (fold (on_worker_event uc ug) ws rts)"
proof (induction evs arbitrary: m rts ws f)
  case (Cons ev evs)
  show ?case
  proof (cases "parse_worker_info load ev m")
    case (Inl e)
    then show ?thesis using Cons.prems by simp
  next
    case (Inr wm)
    obtain w m1 where wm: "wm = (w, m1)" by (cases wm)
    obtain ws1 where 1: "event_loop_batch load evs m1 = (ws1, m')" "ws = (w, event_type ev) # ws1"
      using Cons.prems(2) Inr wm by (auto split: prod.splits)
    have "agree K role_of info m1 (on_worker_event uc ug (w, event_type ev) rts)"
    proof (rule agree_parse[OF d Cons.prems(1)])
      show "parse_worker_info load ev m = Inr (w, m1)" using Inr wm by simp
      show "known_worker K load role_of info (item_key (event_item ev)) (item_value (event_item ev))" if "event_type ev = SET"
        using Cons.prems(3) that by (simp add: event_ok_def)
    qed
    from Cons.IH[OF this 1(1), of "replay1 ev f"] Cons.prems(3) 1(2) show ?thesis by simp
  qed
qed simp

lemma agree_round:
  assumes d: "distinct_addresses K role_of info" and sm: "synced (known_worker K load role_of info) load role_of (s, m)"
    and ag: "agree K role_of info m rts" and ops: "list_all (op_allowed (known_worker K load role_of info) (worker_key_prefix m)) ops"
  obtains s' m' rts' where "service_rounds load uc ug [ops] (s, m, rts) = (s', m', rts')" "watch_rounds load [ops] (s, m) = (s', m')"
    "agree K role_of info m' rts'" "synced (known_worker K load role_of info) load role_of (s', m')" "cluster_name m' = cluster_name m"
proof -
  let ?V = "known_worker K load role_of info" and ?p = "worker_key_prefix m" and ?s = "fold storage_step ops s"
  have sub: "\<And>k v. ?V k v \<Longrightarrow> worker_value load role_of k v" by (simp add: known_worker_def)
  obtain s' m' where w: "watch_rounds load [ops] (s, m) = (s', m')" "synced ?V load role_of (s', m')" "cluster_name m' = cluster_name m"
    using round_synced[OF sub sm ops] by metis
  from sm obtain f where f: "server_ok s" "watched ?p s" "watch_handle m" "follows load role_of f m"
    "fold replay1 (pending_of ?p s) f = content_of ?p s" "events_ok ?V (pending_of ?p s) f" by (auto simp: synced_def Let_def)
  have ok: "events_ok ?V (pending_of ?p ?s) f" using http_store.steps_tracked[of s ?p ?V ops f] f ops by simp
  show ?thesis
  proof (cases "drain_events ?p ?s")
    case None
    then have "service_rounds load uc ug [ops] (s, m, rts) = (?s, m, rts)" "watch_rounds load [ops] (s, m) = (?s, m)"
      using f(3) by (simp_all add: get_worker_events_def Let_def)
    then show ?thesis using that[of ?s m rts] w ag by simp
  next
    case (Some es)
    then obtain s2 where s2: "drain_events ?p ?s = Some (pending_of ?p ?s, s2)"
      by (cases es) (auto simp: drain_events_def pending_of_def split: option.splits list.splits)
    obtain ws m2 where m2: "collect_events load (pending_of ?p ?s) m = (ws, m2)" "event_loop_batch load (pending_of ?p ?s) m = (ws, m2)"
      using follows_collect[OF f(4) events_ok_mono[OF sub ok]] by blast
    have "watch_rounds load [ops] (s, m) = (s2, m2)" using s2 m2(1) f(3) by (simp add: get_worker_events_def Let_def)
    moreover have "service_rounds load uc ug [ops] (s, m, rts) = (s2, m2, fold (on_worker_event uc ug) ws rts)"
      using s2 m2(2) by (simp add: Let_def)
    moreover have "agree K role_of info m2 (fold (on_worker_event uc ug) ws rts)" by (rule agree_batch[OF d ag m2(2) ok])
    ultimately show ?thesis using that w by simp
  qed
qed

lemma agree_rounds:
  assumes d: "distinct_addresses K role_of info"
  shows "synced (known_worker K load role_of info) load role_of (s, m) \<Longrightarrow> agree K role_of info m rts
    \<Longrightarrow> list_all (list_all (op_allowed (known_worker K load role_of info) (worker_key_prefix m))) rounds
    \<Longrightarrow> \<exists>s' m' rts'. service_rounds load uc ug rounds (s, m, rts) = (s', m', rts') \<and> watch_rounds load rounds (s, m) = (s', m') \<and> agree K role_of info m' rts'"
proof (induction rounds arbitrary: s m rts)
  case (Cons ops rounds)
  have "list_all (op_allowed (known_worker K load role_of info) (worker_key_prefix m)) ops" using Cons.prems(3) by simp
  then obtain s1 m1 rts1 where
    1: "service_rounds load uc ug [ops] (s, m, rts) = (s1, m1, rts1)" "watch_rounds load [ops] (s, m) = (s1, m1)"
    "agree K role_of info m1 rts1" "synced (known_worker K load role_of info) load role_of (s1, m1)" "cluster_name m1 = cluster_name m" by (rule agree_round[OF d Cons.prems(1,2)])
  have "service_rounds load uc ug (ops # rounds) (s, m, rts) = service_rounds load uc ug rounds (s1, m1, rts1)"
    "watch_rounds load (ops # rounds) (s, m) = watch_rounds load rounds (s1, m1)" using 1(1,2) by (simp_all add: Let_def)
  then show ?case using Cons.IH[OF 1(4,3)] Cons.prems(3) 1(5) by simp
qed simp

lemma agree_start:
  assumes d: "distinct_addresses K role_of info" and w: "watch_workers load True s (manager_init name a b) = Inr (ws, s1, m1)"
    and s: "server_ok s" "\<not> watched (get_worker_key_prefix name) s"
    and vals: "\<And>k v. content_of (get_worker_key_prefix name) s k = Some v \<Longrightarrow> known_worker K load role_of info k v"
    and e: "servers c = []" "servers g = []"
  shows "agree K role_of info m1 (fold (on_worker_event uc ug) (map (\<lambda>w. (w, SET)) ws) (c, g))"
proof -
  let ?p = "get_worker_key_prefix name" and ?kvs = "get_prefix (get_worker_key_prefix name) False s"
  have "?p \<notin> set (keys_of (watch_handles s))" using s(2) by (auto simp: watched_def map_of_eq_None_iff)
  then have "get_prefix ?p False (storage_watch ?p s) = ?kvs" by (simp add: storage_watch_def get_prefix_def)
  then obtain evs where "parse_existing load ?kvs ((manager_init name a b)\<lparr>watch_handle := True\<rparr>) = Inr (ws, evs, m1)"
    using w by (auto simp: watch_workers_def manager_init_def Let_def)
  moreover have "agree K role_of info ((manager_init name a b)\<lparr>watch_handle := True\<rparr>) (c, g)"
    using e by (simp add: agree_def manager_init_def ctx.lists_def gen.lists_def)
  moreover have "list_all (\<lambda>(k, v). known_worker K load role_of info k v) ?kvs"
  proof -
    have "distinct (map fst ?kvs)" using s(1) by (simp add: get_prefix_def server_ok_def comp_def split_def distinct_map_filter)
    then show ?thesis using vals map_of_is_SomeI[of ?kvs] unfolding map_of_get_prefix[symmetric] by (auto simp: list_all_iff)
  qed
  ultimately show ?thesis using agree_existing[OF d] by blast
qed

end

interpretation lb_cluster: cluster_routers lb_on_servers_updated lb_on_servers_updated
  by unfold_locales

text \<open>
  C32: the routers' server lists are the registered workers. The service starts on a storage that may already hold workers: the
  manager watches it and the routers receive the existing workers; then clients register, renew, remove and expire entries, and
  after each round the event loop passes the events on. If workers keep their role and address and no two keys of a role share
  an address, then after every round the server list of each router consists of the addresses of the workers of its role in
  the manager's dictionary, without repetition, and the service is ready exactly if the two routers have the
  minimal numbers of servers.
\<close>

theorem servers_follow_cluster:
  fixes c g :: lb_router
  assumes "distinct_addresses K role_of info" "server_ok s" "\<not> watched (get_worker_key_prefix name) s"
    and "\<And>k v. content_of (get_worker_key_prefix name) s k = Some v \<Longrightarrow> known_worker K load role_of info k v"
    and "list_all (list_all (op_allowed (known_worker K load role_of info) (get_worker_key_prefix name))) rounds" "rounds \<noteq> []"
    and "servers c = []" "servers g = []"
  shows "\<exists>ws s1 m1 s2 m2 c2 g2. watch_workers load True s (manager_init name a b) = Inr (ws, s1, m1)
    \<and> service_rounds load lb_on_servers_updated lb_on_servers_updated rounds
        (s1, m1, fold (on_worker_event lb_on_servers_updated lb_on_servers_updated) (map (\<lambda>w. (w, SET)) ws) (c, g)) = (s2, m2, c2, g2)
    \<and> distinct (servers c2) \<and> set (servers c2) = worker_addr ` ran (workers_of load role_of CONTEXT (content_of (get_worker_key_prefix name) s2))
    \<and> distinct (servers g2) \<and> set (servers g2) = worker_addr ` ran (workers_of load role_of GENERATION (content_of (get_worker_key_prefix name) s2))
    \<and> is_ready m2 = is_ready_with_router (int (length (servers c2))) (int (length (servers g2))) m2"
proof -
  let ?V = "known_worker K load role_of info" and ?p = "get_worker_key_prefix name" and ?u = "lb_on_servers_updated"
  have sub: "\<And>k v. ?V k v \<Longrightarrow> worker_value load role_of k v" by (simp add: known_worker_def)
  obtain ws s1 m1 where 1: "watch_workers load True s (manager_init name a b) = Inr (ws, s1, m1)" "synced ?V load role_of (s1, m1)"
    "cluster_name m1 = name" by (rule watch_start_synced[OF sub assms(2-4)])
  have "lb_cluster.agree K role_of info m1 (fold (on_worker_event ?u ?u) (map (\<lambda>w. (w, SET)) ws) (c, g))"
    by (rule lb_cluster.agree_start[OF assms(1) 1(1) assms(2-4,7,8)])
  from lb_cluster.agree_rounds[OF assms(1) 1(2) this, of rounds] assms(5) 1(3) obtain s2 m2 c2 g2 where
    2: "service_rounds load ?u ?u rounds (s1, m1, fold (on_worker_event ?u ?u) (map (\<lambda>w. (w, SET)) ws) (c, g)) = (s2, m2, c2, g2)"
    "watch_rounds load rounds (s1, m1) = (s2, m2)" "lb_cluster.agree K role_of info m2 (c2, g2)" by auto
  from rounds_synced[OF sub 1(2) assms(6)] assms(5) 1(3) 2(2) have fol: "follows load role_of (content_of ?p s2) m2" by auto
  note L = 2(3)[unfolded lb_cluster.agree_def prod.case]
  have inj: "k = k'" if "map_of (current_ctx_workers m2) k = Some w \<and> map_of (current_ctx_workers m2) k' = Some w'
      \<or> map_of (current_gen_workers m2) k = Some w \<and> map_of (current_gen_workers m2) k' = Some w'" "worker_addr w = worker_addr w'" for k k' w w'
  proof -
    have "k \<in> K \<and> k' \<in> K \<and> w = info k \<and> w' = info k' \<and> role_of k = role_of k'" using L that(1) by auto
    then show ?thesis using assms(1) that(2) by (auto simp: distinct_addresses_def)
  qed
  have "length (servers c2) = length (current_ctx_workers m2)" "length (servers g2) = length (current_gen_workers m2)"
    using L fol inj by (intro lb_list.lists_length; auto simp: follows_def)+
  then have "is_ready m2 = is_ready_with_router (int (length (servers c2))) (int (length (servers g2))) m2"
    by (simp add: is_ready_def is_ready_with_router_def)
  then show ?thesis using 1(1) 2(1) L fol by (auto simp: lb_list.lists_def follows_def)
qed

section \<open>Examples\<close>

definition idle_client :: "lb_router client" where
  "idle_client = client_init example_lb 1"

lemma idle_client_can_take: "can_take i idle_client"
proof -
  have "lb_inv example_lb" "servers example_lb = [''a'', ''b'']" "routing_table example_lb = []" by code_simp+
  moreover have "\<not> use_tokens example_lb" by code_simp
  ultimately show ?thesis by (simp add: can_take_def idle_client_def client_init_def)
qed

definition sample_service :: "(lb_router, lb_router) service" where
  "sample_service = \<lparr>ctx_client = idle_client, gen_client = idle_client, max_local_prefill_length = None, gen_only_env = False, cluster = None\<rparr>"

definition sample_request :: api_request where
  "sample_request = (example_api False)\<lparr>api_params := None\<rparr>"

definition sample_ctx_answer :: "string \<Rightarrow> completion" where
  "sample_ctx_answer reason = \<lparr>choices = [\<lparr>finish_reason = Some reason, choice_params = Some \<lparr>dp_request_type = ''context_only'', first_gen_tokens = Some [3],
     ctx_request_id = Some 9, encoded_opaque_state = None, draft_tokens = None\<rparr>\<rparr>], resp_prompt_token_ids = PTokens [1, 2]\<rparr>"

definition sample_net :: "string \<Rightarrow> string \<Rightarrow> api_request \<Rightarrow> int \<Rightarrow> completion http_outcome" where
  \<comment> \<open>the first attempt fails; then a context request is answered, a generation request refused\<close>
  "sample_net reason url r a =
     (if a = 0 then No_Response Client_Error
      else if map_option dp_request_type (api_params r) = Some ''context_only'' then Response False (Inr (sample_ctx_answer reason)) [] None
      else Response False (Inl Client_Error) [] None)"

lemma request_gives_back_servers_witness:
  "(case openai_completion (lb_env (sample_net ''length'') (\<lambda>_ _. Inr)) 8 sample_request sample_service of (res, sv) \<Rightarrow>
      res = Inl Client_Error \<and> lb_load (c_router (ctx_client sv)) = lb_load example_lb \<and> lb_load (c_router (gen_client sv)) = lb_load example_lb)"
proof -
  let ?x = "openai_completion (lb_env (sample_net ''length'') (\<lambda>_ _. Inr)) 8 sample_request sample_service"
  have c: "can_take 8 (ctx_client sample_service)" "can_take (api_id sample_request) (gen_client sample_service)"
    "max_local_prefill_length sample_service = None" using idle_client_can_take by (simp_all add: sample_service_def)
  have s: "\<not> api_stream sample_request" by code_simp
  have "fst ?x = Inl Client_Error" by code_simp
  moreover have "c_router (ctx_client sample_service) = example_lb" "c_router (gen_client sample_service) = example_lb"
    by (simp_all add: sample_service_def idle_client_def client_init_def)
  ultimately show ?thesis
    using request_gives_back_servers[OF c(1,2) s c(3) prod.collapse[symmetric], of "sample_net ''length''" "\<lambda>_ _. Inr"]
    by (simp add: split_beta)
qed

lemma generation_follows_context_witness:
  "fst (send_disagg_request (lb_env (sample_net ''stop'') (\<lambda>_ _. Inr)) 8 sample_request sample_service)
     = Inr (Answer (Some ((sample_ctx_answer ''stop'')\<lparr>choices := [\<lparr>finish_reason = Some ''stop'', choice_params = None\<rparr>]\<rparr>)))"
proof -
  have c: "can_take 8 (ctx_client sample_service)" "can_take (api_id sample_request) (gen_client sample_service)"
    using idle_client_can_take by (simp_all add: sample_service_def)
  have s: "max_local_prefill_length sample_service = None" "\<not> gen_only_env sample_service" and st: "\<not> api_stream sample_request"
    by code_simp+
  have at: "attempts (ctx_client sample_service) = [0, 1]" by code_simp
  have t: "map_option dp_request_type (api_params (get_ctx_request 8 sample_request)) = Some ''context_only''" by code_simp
  have v: "verdict (sample_net ''stop'' (url_to s (get_ctx_request 8 sample_request)) (get_ctx_request 8 sample_request)) Inr (attempts (ctx_client sample_service))
      = Inr (Some (sample_ctx_answer ''stop''))" for s
    by (simp add: at verdict_def no_contact_def sample_net_def json_body_def t)
  let ?p = "\<lparr>dp_request_type = ''context_only'', first_gen_tokens = Some [3], ctx_request_id = Some 9, encoded_opaque_state = None, draft_tokens = None\<rparr>"
  show ?thesis
    using generation_follows_context[of 8 sample_service sample_request "sample_net ''stop''" "\<lambda>_ _. Inr" "sample_ctx_answer ''stop''"
        "\<lparr>finish_reason = Some ''stop'', choice_params = Some ?p\<rparr>" ?p, OF c s v]
    by (simp add: sample_ctx_answer_def st)
qed

definition sample_role :: "string \<Rightarrow> server_role" where
  "sample_role k = (if k = ''/trtllm-disagg/x/workers/1'' then CONTEXT else GENERATION)"

definition sample_info :: "string \<Rightarrow> worker_info" where
  "sample_info k = (if k = ''/trtllm-disagg/x/workers/1'' then the (sample_load ''c'') else the (sample_load ''g''))"

definition no_servers :: lb_router where
  "no_servers = projr (lb_init Serve_Router.CONTEXT [] False False False)"

lemma servers_follow_cluster_witness:
  "\<exists>ws s1 m1 s2 m2 c2 g2. watch_workers sample_load True storage_init (manager_init ''x'' 1 1) = Inr (ws, s1, m1)
    \<and> service_rounds sample_load lb_on_servers_updated lb_on_servers_updated [[OSet 0 ''/trtllm-disagg/x/workers/1'' ''c'' False 5]]
        (s1, m1, fold (on_worker_event lb_on_servers_updated lb_on_servers_updated) (map (\<lambda>w. (w, SET)) ws) (no_servers, no_servers)) = (s2, m2, c2, g2)
    \<and> set (servers c2) = worker_addr ` ran (workers_of sample_load sample_role CONTEXT (content_of (get_worker_key_prefix ''x'') s2))
    \<and> is_ready m2 = is_ready_with_router (int (length (servers c2))) (int (length (servers g2))) m2"
proof -
  let ?K = "{''/trtllm-disagg/x/workers/1'', ''/trtllm-disagg/x/workers/2''}"
  let ?rounds = "[[OSet 0 ''/trtllm-disagg/x/workers/1'' ''c'' False 5]]"
  have 1: "distinct_addresses ?K sample_role sample_info" by (simp add: distinct_addresses_def sample_role_def)
  have 2: "list_all (list_all (op_allowed (known_worker ?K sample_load sample_role sample_info) (get_worker_key_prefix ''x''))) ?rounds"
    by (simp add: known_worker_def worker_value_def sample_load_def sample_role_def sample_info_def)
  have 3: "server_ok storage_init" "\<not> watched (get_worker_key_prefix ''x'') storage_init"
    "\<And>k v. content_of (get_worker_key_prefix ''x'') storage_init k = Some v \<Longrightarrow> known_worker ?K sample_load sample_role sample_info k v"
    by (simp_all add: server_ok_def watched_def storage_init_def content_of_def split: if_splits)
  have 4: "servers no_servers = []" by code_simp
  show ?thesis using servers_follow_cluster[OF 1 3 2 _ 4 4, of 1 1] by (simp del: service_rounds.simps) (elim exE conjE, intro exI conjI, assumption+)
qed

text \<open>
  Addresses have to be distinct. A worker that restarts on its host and port registers under a new key; when the old entry
  expires, the router drops the address, although the manager still counts the new worker.
\<close>

lemma restarted_worker_loses_server:
  "(case event_loop_batch sample_load [set_event ''old'' ''c'', set_event ''new'' ''c'', delete_event ''old''] (manager_init ''x'' 1 0) of (ws, m) \<Rightarrow>
     is_ready m \<and> servers (fst (fold (on_worker_event lb_on_servers_updated lb_on_servers_updated) ws (no_servers, no_servers))) = [])"
  by code_simp

text \<open>An entry that cannot be parsed is announced with an empty host and port 0 and becomes a context server.\<close>

lemma unparsable_worker_becomes_server:
  "servers (fst (fold (on_worker_event lb_on_servers_updated lb_on_servers_updated)
     (fst (event_loop_batch sample_load [set_event ''k'' ''garbage''] (manager_init ''x'' 1 1))) (no_servers, no_servers))) = ['':0'']"
  by code_simp

text \<open>A prompt that is a list with one token becomes a bare number.\<close>

lemma single_token_prompt: "check_prompt (PTokens [5]) = Inr (PInt 5)"
  by code_simp

section \<open>Conditional disaggregation\<close>

text \<open>
  A request that may be prefilled on the reserved generation server is sent there without a context phase. Its parameters are
  unset, and the debug message of the client reads them: the request always fails, and the reservation is never released.
\<close>

lemma local_prefill_fails:
  assumes "max_local_prefill_length sv = Some n" "gen_info env = Some info" "api_params r = None"
    and "info r (c_router (gen_client sv)) = (Inr (s, token_lists, matches), rt)"
    and "sum_list matches \<noteq> 0" "int (sum_list (map length token_lists)) - sum_list matches \<le> n"
  shows "send_disagg_request env i r sv = (Inl (Failure AttributeError), sv\<lparr>gen_client := (gen_client sv)\<lparr>c_router := rt\<rparr>\<rparr>)"
  using assms by (simp add: send_disagg_request_def check_conditional_disagg_def Let_def send_generation_def send_request_def send_to_def)

text \<open>
  The matches are one number per server, and the decision adds them up: two servers that each know half of the prompt
  count like one that knows all of it.
\<close>

lemma matches_of_all_servers_added:
  "fst (check_conditional_disagg ((lb_env (sample_net ''length'') (\<lambda>_ _. Inr))\<lparr>gen_info := Some (\<lambda>r rt. (Inr (''a'', [replicate 64 1], [32, 32]), rt))\<rparr>)
     sample_request (sample_service\<lparr>max_local_prefill_length := Some 10\<rparr>)) = Inr (Some ''a'', False)"
  by code_simp

end
