(* ===== verification/Disagg_Config.thy ===== *)
theory Disagg_Config
  imports Py_Prelude
begin

text \<open>
  The configuration of a disaggregated deployment, \<open>llmapi/disagg_utils.py\<close>: the sections of context and generation
  servers with what they inherit from the top level, the router settings, the list of server instances, and the splitting of
  the MPI world into one communicator per instance.

  A value of the YAML file is a scalar, a list or a reference to a dictionary object: dictionaries that are inherited are
  shared, so they live in a heap. \<open>py_int\<close> stands for \<open>int(s)\<close>, and \<open>comm_split\<close> for \<open>COMM_WORLD.Split\<close> followed by \<open>Get_rank\<close>:
  from the color and key of every rank it gives the caller's rank in its new communicator (\<open>split_spec_mpi\<close>).
  Reading the file is not modelled.
\<close>

section \<open>Values\<close>

datatype yaml = YStr string | YInt int | YNone | YBool bool | YFloat string | YList "yaml list"

datatype cfg_value = Plain yaml | Obj nat

type_synonym cfg_section = "(string, cfg_value) dict"
type_synonym cfg_heap = "nat \<Rightarrow> (string, yaml) dict"

definition dict_eq :: "('v \<Rightarrow> 'v \<Rightarrow> bool) \<Rightarrow> (string, 'v) dict \<Rightarrow> (string, 'v) dict \<Rightarrow> bool" where
  \<comment> \<open>equality of dictionaries does not depend on the order\<close>
  "dict_eq eq a b \<longleftrightarrow> set (keys_of a) = set (keys_of b)
     \<and> list_all (\<lambda>k. case (map_of a k, map_of b k) of (Some v, Some w) \<Rightarrow> eq v w | _ \<Rightarrow> False) (keys_of a)"

fun value_eq :: "cfg_heap \<Rightarrow> cfg_value \<Rightarrow> cfg_value \<Rightarrow> bool" where
  "value_eq h (Plain v) (Plain w) \<longleftrightarrow> v = w"
| "value_eq h (Obj a) (Obj b) \<longleftrightarrow> dict_eq (=) (h a) (h b)"
| "value_eq h _ _ \<longleftrightarrow> False"

section \<open>Sections\<close>

definition inherit_one :: "cfg_heap \<Rightarrow> string \<Rightarrow> cfg_value \<Rightarrow> cfg_section \<Rightarrow> cfg_section result" where
  "inherit_one h key val servers =
     (case map_of servers key of
        Some v \<Rightarrow> if \<not> value_eq h v val then Inl ValueError else Inr servers
      | None \<Rightarrow> Inr (AList.update key val servers))"

fun inherit :: "cfg_heap \<Rightarrow> cfg_section \<Rightarrow> cfg_section \<times> cfg_section \<Rightarrow> (cfg_section \<times> cfg_section) result" where
  "inherit h [] (context_servers, generation_servers) = Inr (context_servers, generation_servers)"
| "inherit h ((key, val) # kwargs) (context_servers, generation_servers) =
     res_bind (inherit_one h key val context_servers) (\<lambda>c.
     res_bind (inherit_one h key val generation_servers) (\<lambda>g. inherit h kwargs (c, g)))"

record router_config =
  rc_type :: yaml
  rc_args :: nat

definition extract_router_config :: "nat \<Rightarrow> cfg_section \<Rightarrow> cfg_heap \<Rightarrow> (router_config \<times> cfg_section \<times> cfg_heap) result" where
  \<comment> \<open>\<open>fresh\<close> is the address of the dictionary made when there is no router entry. The two limits of a server are numbers, not
      dictionaries.\<close>
  "extract_router_config fresh server_cfg h =
     (let server_cfg' = AList.delete ''router'' server_cfg;
          h0 = (if ''router'' \<in> set (keys_of server_cfg) then h else h(fresh := [])) in
      res_bind (case map_of server_cfg ''router'' of
                  None \<Rightarrow> Inr fresh | Some (Obj a) \<Rightarrow> Inr a | Some (Plain _) \<Rightarrow> Inl AttributeError) (\<lambda>a.
      let router_type = (case map_of (h0 a) ''type'' of Some t \<Rightarrow> t | None \<Rightarrow> YStr ''round_robin'');
          args = fold (\<lambda>key args. case map_of server_cfg' key of Some (Plain v) \<Rightarrow> AList.update key v args | _ \<Rightarrow> args)
                   [''max_batch_size'', ''max_num_tokens''] (AList.delete ''type'' (h0 a)) in
      Inr (\<lparr>rc_type = router_type, rc_args = a\<rparr>, server_cfg', h0(a := args))))"

section \<open>Instances\<close>

datatype server_type = ctx | gen

record server_config =
  sc_type :: server_type
  hostname :: "string option"
  sc_port :: "int option"
  instance_num_ranks :: int
  other_args :: cfg_section

fun split_on :: "char \<Rightarrow> string \<Rightarrow> string list" where
  \<comment> \<open>\<open>s.split(c)\<close>\<close>
  "split_on c [] = [[]]"
| "split_on c (x # xs) = (if x = c then [] # split_on c xs else (case split_on c xs of w # ws \<Rightarrow> (x # w) # ws | [] \<Rightarrow> [[x]]))"

definition parse_url :: "(string \<Rightarrow> int result) \<Rightarrow> string \<Rightarrow> (string \<times> int) result" where
  "parse_url py_int url = (case split_on CHR '':'' url of
      [h, p] \<Rightarrow> res_bind (py_int p) (\<lambda>n. Inr (h, n))
    | _ \<Rightarrow> Inl ValueError)"

definition int_arg :: "cfg_section \<Rightarrow> string \<Rightarrow> int result" where
  \<comment> \<open>\<open>kwargs.get(key, 1)\<close> as a number\<close>
  "int_arg kwargs key = (case map_of kwargs key of None \<Rightarrow> Inr 1 | Some (Plain (YInt n)) \<Rightarrow> Inr n | Some _ \<Rightarrow> Inl TypeError)"

definition extract_ctx_gen_cfgs :: "(string \<Rightarrow> int result) \<Rightarrow> server_type \<Rightarrow> int \<Rightarrow> string list option \<Rightarrow> cfg_section
    \<Rightarrow> server_config list result" where
  "extract_ctx_gen_cfgs py_int ty num_instances urls kwargs =
     res_bind (case urls of
         Some (u # us) \<Rightarrow>
           res_bind (res_map (parse_url py_int) (u # us)) (\<lambda>hps.
           if int (length hps) \<noteq> num_instances then Inl ValueError
           else Inr (map (\<lambda>(h, p). (Some h, Some p)) hps))
       | _ \<Rightarrow> Inr (replicate (nat num_instances) (None, None))) (\<lambda>addrs.
     res_bind (int_arg kwargs ''tensor_parallel_size'') (\<lambda>tp.
     res_bind (int_arg kwargs ''pipeline_parallel_size'') (\<lambda>pp.
     res_bind (int_arg kwargs ''context_parallel_size'') (\<lambda>cp.
     Inr (map (\<lambda>(h, p). \<lparr>sc_type = ty, hostname = h, sc_port = p, instance_num_ranks = tp * pp * cp, other_args = kwargs\<rparr>) addrs)))))"

definition get_ctx_gen_server_addrs :: "(server_config \<Rightarrow> string) \<Rightarrow> server_config list \<Rightarrow> string list \<times> string list" where
  \<comment> \<open>\<open>addr\<close> formats \<open>hostname:port\<close>\<close>
  "get_ctx_gen_server_addrs addr cfgs =
     (map addr (filter (\<lambda>c. sc_type c = ctx) cfgs), map addr (filter (\<lambda>c. sc_type c \<noteq> ctx) cfgs))"

type_synonym server_url = "string option \<times> int option"

definition url_of :: "server_config \<Rightarrow> server_url" where
  "url_of c = (hostname c, sc_port c)"

fun collect_servers :: "cfg_heap \<Rightarrow> server_config list \<Rightarrow> int \<times> (server_url, server_config) dict
    \<Rightarrow> (int \<times> (server_url, server_config) dict) result" where
  "collect_servers h [] (num_workers, server_dict) = Inr (num_workers, server_dict)"
| "collect_servers h (cfg # cfgs) (num_workers, server_dict) =
     (case map_of server_dict (url_of cfg) of
        Some cfg_prev \<Rightarrow>
          if sc_type cfg_prev = sc_type cfg then Inl ValueError
          else if \<not> dict_eq (value_eq h) (other_args cfg_prev) (other_args cfg) then Inl ValueError
          else collect_servers h cfgs (num_workers, server_dict)
      | None \<Rightarrow> collect_servers h cfgs (num_workers + instance_num_ranks cfg, AList.update (url_of cfg) cfg server_dict))"

definition get_server_configs_dict :: "cfg_heap \<Rightarrow> server_config list \<Rightarrow> (int \<times> (server_url, server_config) dict) result" where
  "get_server_configs_dict h cfgs = collect_servers h cfgs (0, [])"

section \<open>The whole file\<close>

definition url_list :: "cfg_section \<Rightarrow> string list option result" where
  "url_list servers = (case map_of servers ''urls'' of
      None \<Rightarrow> Inr None
    | Some (Plain YNone) \<Rightarrow> Inr None
    | Some (Plain (YList ys)) \<Rightarrow> res_bind (res_map (\<lambda>y. case y of YStr u \<Rightarrow> Inr u | _ \<Rightarrow> Inl AttributeError) ys) (\<lambda>us. Inr (Some us))
    | Some (Plain (YStr u)) \<Rightarrow> Inr (Some (map (\<lambda>c. [c]) u))
    | Some _ \<Rightarrow> Inl TypeError)"

definition section_cfgs :: "(string \<Rightarrow> int result) \<Rightarrow> server_type \<Rightarrow> cfg_section \<Rightarrow> server_config list result" where
  \<comment> \<open>\<open>extract_ctx_gen_cfgs(type=..., **servers)\<close>\<close>
  "section_cfgs py_int ty servers =
     (if ''type'' \<in> set (keys_of servers) then Inl TypeError
      else res_bind (int_arg servers ''num_instances'') (\<lambda>n.
        res_bind (url_list servers) (\<lambda>urls.
        extract_ctx_gen_cfgs py_int ty n urls (AList.delete ''urls'' (AList.delete ''num_instances'' servers)))))"

record disagg_server_config =
  server_configs :: "server_config list"
  ctx_router_config :: router_config
  gen_router_config :: router_config

definition extract_disagg_cfg :: "(string \<Rightarrow> int result) \<Rightarrow> nat \<Rightarrow> nat \<Rightarrow> cfg_section option \<Rightarrow> cfg_section option \<Rightarrow> bool \<Rightarrow> cfg_section \<Rightarrow> cfg_heap
    \<Rightarrow> (disagg_server_config \<times> cfg_heap) result" where
  \<comment> \<open>\<open>disagg_cluster\<close>: whether a cluster section is given, which takes the place of the list of instances. The scalar settings that are
      passed through unchanged are left out.\<close>
  "extract_disagg_cfg py_int fresh1 fresh2 context_servers generation_servers disagg_cluster kwargs h =
     (let c0 = (case context_servers of None \<Rightarrow> [] | Some c \<Rightarrow> c);
          g0 = (case generation_servers of None \<Rightarrow> [] | Some g \<Rightarrow> g) in
      res_bind (inherit h kwargs (c0, g0)) (\<lambda>(c, g).
      res_bind (extract_router_config fresh1 c h) (\<lambda>(ctx_router, c', h1).
      res_bind (extract_router_config fresh2 g h1) (\<lambda>(gen_router, g', h2).
      res_bind (if disagg_cluster then Inr []
                else res_bind (section_cfgs py_int ctx c') (\<lambda>cs. res_bind (section_cfgs py_int gen g') (\<lambda>gs. Inr (cs @ gs)))) (\<lambda>cfgs.
      Inr (\<lparr>server_configs = cfgs, ctx_router_config = ctx_router, gen_router_config = gen_router\<rparr>, h2))))))"

section \<open>Splitting the world\<close>

record placement =
  is_leader :: bool
  instance_idx :: nat
  instance_sub_rank :: int

fun place_rank :: "int \<Rightarrow> server_config list \<Rightarrow> nat \<Rightarrow> (server_url, server_config) dict \<Rightarrow> int \<Rightarrow> placement \<Rightarrow> placement" where
  \<comment> \<open>the loop of \<open>split_world_comm\<close> for one rank\<close>
  "place_rank global_rank [] idx server_dict offset pl = pl"
| "place_rank global_rank (cfg # cfgs) idx server_dict offset pl =
     (if url_of cfg \<notin> set (keys_of server_dict) then place_rank global_rank cfgs (Suc idx) server_dict offset pl
      else
        let pl' = (if global_rank \<ge> offset \<and> global_rank < offset + instance_num_ranks cfg
                   then \<lparr>is_leader = (if global_rank = offset then True else is_leader pl), instance_idx = idx,
                         instance_sub_rank = global_rank - offset\<rparr>
                   else pl) in
        place_rank global_rank cfgs (Suc idx) (AList.delete (url_of cfg) server_dict) (offset + instance_num_ranks cfg) pl')"

type_synonym comm_split_fn = "(int \<Rightarrow> nat \<times> int) \<Rightarrow> int \<Rightarrow> int \<Rightarrow> int"

definition place_of :: "server_config list \<Rightarrow> (server_url, server_config) dict \<Rightarrow> int \<Rightarrow> placement" where
  "place_of cfgs server_dict r = place_rank r cfgs 0 server_dict 0 \<lparr>is_leader = False, instance_idx = 0, instance_sub_rank = 0\<rparr>"

definition split_world_comm :: "comm_split_fn \<Rightarrow> cfg_heap \<Rightarrow> int \<Rightarrow> int \<Rightarrow> server_config list \<Rightarrow> (bool \<times> nat \<times> int) result" where
  \<comment> \<open>every rank computes its placement in the same way; the result ends with the rank in the new communicator\<close>
  "split_world_comm comm_split h global_size global_rank cfgs =
     res_bind (get_server_configs_dict h cfgs) (\<lambda>(num_workers, server_dict).
     res_bind (py_assert (global_size = num_workers)) (\<lambda>_.
     let pl = place_of cfgs server_dict global_rank;
         sub_rank = comm_split (\<lambda>r. let q = place_of cfgs server_dict r in (instance_idx q, instance_sub_rank q)) global_size global_rank in
     if sub_rank \<noteq> instance_sub_rank pl then Inl RuntimeError
     else Inr (is_leader pl, instance_idx pl, sub_rank)))"

section \<open>Every rank has its place\<close>

fun instances :: "server_url set \<Rightarrow> nat \<Rightarrow> int \<Rightarrow> server_config list \<Rightarrow> (nat \<times> int \<times> int) list" where
  \<comment> \<open>index, first rank and number of ranks of every server, a mixed server only once\<close>
  "instances seen i off [] = []"
| "instances seen i off (c # cs) =
     (if url_of c \<in> seen then instances seen (Suc i) off cs
      else (i, off, instance_num_ranks c) # instances (insert (url_of c) seen) (Suc i) (off + instance_num_ranks c) cs)"

definition total_ranks :: "(nat \<times> int \<times> int) list \<Rightarrow> int" where
  "total_ranks is = (\<Sum>(i, off, n) \<leftarrow> is. n)"

definition place_in :: "int \<Rightarrow> nat \<times> int \<times> int \<Rightarrow> placement \<Rightarrow> placement" where
  "place_in r = (\<lambda>(i, off, n) pl. if r \<ge> off \<and> r < off + n
     then \<lparr>is_leader = (if r = off then True else is_leader pl), instance_idx = i, instance_sub_rank = r - off\<rparr> else pl)"

lemma place_rank_instances:
  assumes "\<And>c. c \<in> set cs \<Longrightarrow> url_of c \<in> set (keys_of d) \<longleftrightarrow> url_of c \<notin> seen"
  shows "place_rank r cs i d off pl = fold (place_in r) (instances seen i off cs) pl"
  using assms
proof (induction cs arbitrary: i d off pl seen)
  case (Cons c cs)
  show ?case
  proof (cases "url_of c \<in> seen")
    case True
    then show ?thesis using Cons.IH[of d seen] Cons.prems by simp
  next
    case False
    have "url_of c' \<in> set (keys_of (AList.delete (url_of c) d)) \<longleftrightarrow> url_of c' \<notin> insert (url_of c) seen" if "c' \<in> set cs" for c'
      using Cons.prems[of c'] that keys_delete[of "url_of c" d] by auto
    from Cons.IH[OF this] False Cons.prems[of c] show ?thesis by (simp add: place_in_def Let_def)
  qed
qed simp

lemma collect_servers_total:
  assumes "collect_servers h cs (n, d) = Inr (N, d')"
  shows "N = n + total_ranks (instances (set (keys_of d)) i off cs) \<and> set (keys_of d') = set (keys_of d) \<union> url_of ` set cs"
  using assms
proof (induction cs arbitrary: n d i off)
  case (Cons c cs)
  show ?case
  proof (cases "map_of d (url_of c)")
    case None
    then have new: "url_of c \<notin> set (keys_of d)" by (simp add: map_of_eq_None_iff)
    have "collect_servers h cs (n + instance_num_ranks c, AList.update (url_of c) c d) = Inr (N, d')" using Cons.prems None by simp
    from Cons.IH[OF this, of "Suc i" "off + instance_num_ranks c"] new show ?thesis by (auto simp: dom_update total_ranks_def)
  next
    case (Some p)
    then have "url_of c \<in> set (keys_of d)" by (force dest: map_of_SomeD)
    moreover have "collect_servers h cs (n, d) = Inr (N, d')" using Cons.prems Some by (simp split: if_splits)
    ultimately show ?thesis using Cons.IH[of n d "Suc i" off] by (auto simp del: set_map)
  qed
qed (simp add: total_ranks_def)

lemma total_ranks_nonneg: "list_all (\<lambda>c. 0 < instance_num_ranks c) cs \<Longrightarrow> 0 \<le> total_ranks (instances seen k off cs)"
  by (induction cs arbitrary: seen k off) (auto simp: total_ranks_def)

lemma instances_range:
  assumes "list_all (\<lambda>c. 0 < instance_num_ranks c) cs" "(i, o1, n) \<in> set (instances seen k off cs)"
  shows "off \<le> o1 \<and> 0 < n \<and> o1 + n \<le> off + total_ranks (instances seen k off cs) \<and> k \<le> i \<and> i < k + length cs
    \<and> n = instance_num_ranks (cs ! (i - k))"
  using assms
proof (induction cs arbitrary: seen k off)
  case (Cons c cs)
  show ?case
  proof (cases "url_of c \<in> seen \<or> (i, o1, n) \<noteq> (k, off, instance_num_ranks c)")
    case True
    from True Cons.prems Cons.IH[of seen "Suc k" off] Cons.IH[of "insert (url_of c) seen" "Suc k" "off + instance_num_ranks c"]
    show ?thesis by (auto simp: total_ranks_def Suc_le_eq nth_Cons' split: if_splits)
  next
    case False
    then show ?thesis using Cons.prems(1) total_ranks_nonneg[of cs "insert (url_of c) seen" "Suc k" "off + instance_num_ranks c"]
      by (simp add: total_ranks_def)
  qed
qed simp

lemma instances_cover:
  assumes "off \<le> r" "r < off + total_ranks (instances seen k off cs)"
  shows "\<exists>(i, o1, n) \<in> set (instances seen k off cs). o1 \<le> r \<and> r < o1 + n"
  using assms
proof (induction cs arbitrary: seen k off)
  case (Cons c cs)
  show ?case
  proof (cases "url_of c \<in> seen")
    case True
    then show ?thesis using Cons by simp
  next
    case False
    then show ?thesis using Cons.prems Cons.IH[of "off + instance_num_ranks c" "insert (url_of c) seen" "Suc k"]
      by (cases "r < off + instance_num_ranks c") (auto simp: total_ranks_def)
  qed
qed (simp add: total_ranks_def)

lemma place_outside:
  assumes "list_all (\<lambda>c. 0 < instance_num_ranks c) cs" "r < off"
  shows "fold (place_in r) (instances seen k off cs) pl = pl"
  using assms
proof (induction cs arbitrary: seen k off pl)
  case (Cons c cs)
  then show ?case by (auto simp: place_in_def)
qed simp

lemma place_found:
  assumes "list_all (\<lambda>c. 0 < instance_num_ranks c) cs" "(i, o1, n) \<in> set (instances seen k off cs)" "o1 \<le> r" "r < o1 + n"
  shows "fold (place_in r) (instances seen k off cs) pl = \<lparr>is_leader = (r = o1 \<or> is_leader pl), instance_idx = i, instance_sub_rank = r - o1\<rparr>"
  using assms
proof (induction cs arbitrary: seen k off pl)
  case (Cons c cs)
  let ?n = "instance_num_ranks c"
  show ?case
  proof (cases "url_of c \<in> seen")
    case True
    then show ?thesis using Cons by simp
  next
    case new: False
    show ?thesis
    proof (cases "(i, o1, n) = (k, off, ?n)")
      case True
      have "fold (place_in r) (instances (insert (url_of c) seen) (Suc k) (off + ?n) cs) pl' = pl'" for pl'
        using Cons.prems True by (intro place_outside) auto
      then show ?thesis using new True Cons.prems(3,4) by (simp add: place_in_def)
    next
      case False
      then have in_rest: "(i, o1, n) \<in> set (instances (insert (url_of c) seen) (Suc k) (off + ?n) cs)" using Cons.prems(2) new by auto
      have "off + ?n \<le> o1" using instances_range[OF _ in_rest] Cons.prems(1) by simp
      then have "place_in r (k, off, ?n) pl = pl" using Cons.prems(3) by (simp add: place_in_def)
      then show ?thesis using Cons.IH[OF _ in_rest Cons.prems(3,4)] Cons.prems(1) new by simp
    qed
  qed
qed simp

definition split_spec_mpi :: "comm_split_fn \<Rightarrow> bool" where
  \<comment> \<open>\<open>MPI_Comm_split\<close> orders the ranks of a color by key, ties by their old rank\<close>
  "split_spec_mpi comm_split \<longleftrightarrow> (\<forall>a world r. 0 \<le> r \<and> r < world \<longrightarrow>
     comm_split a world r = int (card {q \<in> {0..<world}. fst (a q) = fst (a r) \<and> (snd (a q) < snd (a r) \<or> snd (a q) = snd (a r) \<and> q < r)}))"

definition comm_split_ref :: comm_split_fn where
  "comm_split_ref a world r =
     int (length (filter (\<lambda>q. fst (a q) = fst (a r) \<and> (snd (a q) < snd (a r) \<or> snd (a q) = snd (a r) \<and> q < r)) (py_range 0 world)))"

lemma comm_split_ref_spec: "split_spec_mpi comm_split_ref"
proof -
  have "length (filter P (py_range 0 n)) = card {q \<in> {0..<n}. P q}" for P n
    by (metis distinct_py_range distinct_filter distinct_card set_filter set_py_range)
  then show ?thesis by (simp add: split_spec_mpi_def comm_split_ref_def)
qed

lemma place_of_eq:
  assumes "get_server_configs_dict h cfgs = Inr (N, d)" "list_all (\<lambda>c. 0 < instance_num_ranks c) cfgs"
    and "(i, o1, n) \<in> set (instances {} 0 0 cfgs)" "o1 \<le> r" "r < o1 + n"
  shows "place_of cfgs d r = \<lparr>is_leader = (r = o1), instance_idx = i, instance_sub_rank = r - o1\<rparr>"
proof -
  have "set (keys_of d) = url_of ` set cfgs"
    using collect_servers_total[OF assms(1)[unfolded get_server_configs_dict_def], of 0 0] by simp
  then have "place_of cfgs d r = fold (place_in r) (instances {} 0 0 cfgs) \<lparr>is_leader = False, instance_idx = 0, instance_sub_rank = 0\<rparr>"
    unfolding place_of_def by (intro place_rank_instances) auto
  then show ?thesis using place_found[OF assms(2-5)] by simp
qed

lemma instance_unique:
  assumes "list_all (\<lambda>c. 0 < instance_num_ranks c) cs" "(i, o1, n) \<in> set (instances seen k off cs)" "(i, o2, m) \<in> set (instances seen k off cs)"
  shows "o1 = o2 \<and> n = m"
  using assms
proof (induction cs arbitrary: seen k off)
  case (Cons c cs)
  have later: "j \<noteq> k" if "(j, o3, l) \<in> set (instances s (Suc k) off' cs)" for j o3 l s off'
    using instances_range[OF _ that] Cons.prems(1) by simp
  show ?case using Cons.prems Cons.IH[of seen "Suc k" off] Cons.IH[of "insert (url_of c) seen" "Suc k" "off + instance_num_ranks c"]
    by (auto split: if_splits dest: later)
qed simp

text \<open>
  C11: the world is split without gaps or overlaps. When the configuration is accepted for a world of its size, the servers take
  consecutive ranges of ranks, a server that does both roles only once; every rank finds exactly the server whose
  range it lies in, its rank in the new communicator is its distance from the start of the range (so the check of the
  sub rank never fails), and it is the leader exactly when it is the first of the range.
\<close>

theorem split_world_covers_ranks:
  assumes "split_spec_mpi comm_split" "get_server_configs_dict h cfgs = Inr (N, d)" "list_all (\<lambda>c. 0 < instance_num_ranks c) cfgs"
    and "0 \<le> r" "r < N"
  shows "\<exists>i first n. (i, first, n) \<in> set (instances {} 0 0 cfgs) \<and> first \<le> r \<and> r < first + n
    \<and> i < length cfgs \<and> n = instance_num_ranks (cfgs ! i) \<and> 0 \<le> first \<and> first + n \<le> N
    \<and> split_world_comm comm_split h N r cfgs = Inr (r = first, i, r - first)"
proof -
  have N: "N = total_ranks (instances {} 0 0 cfgs)"
    using collect_servers_total[OF assms(2)[unfolded get_server_configs_dict_def], of 0 0] by simp
  then obtain i o1 n where I: "(i, o1, n) \<in> set (instances {} 0 0 cfgs)" "o1 \<le> r" "r < o1 + n"
    using instances_cover[of 0 r "{}" 0 cfgs] assms(4,5) by auto
  note R = instances_range[OF assms(3) I(1)]
  note P = place_of_eq[OF assms(2,3)]
  let ?a = "\<lambda>r. let q = place_of cfgs d r in (instance_idx q, instance_sub_rank q)"
  have "{q \<in> {0..<N}. fst (?a q) = fst (?a r) \<and> (snd (?a q) < snd (?a r) \<or> snd (?a q) = snd (?a r) \<and> q < r)} = {o1..<r}"
  proof (intro set_eqI iffI)
    fix q assume q: "q \<in> {q \<in> {0..<N}. fst (?a q) = fst (?a r) \<and> (snd (?a q) < snd (?a r) \<or> snd (?a q) = snd (?a r) \<and> q < r)}"
    then obtain j o2 m where J: "(j, o2, m) \<in> set (instances {} 0 0 cfgs)" "o2 \<le> q" "q < o2 + m"
      using instances_cover[of 0 q "{}" 0 cfgs] N by auto
    have "j = i" using q P[OF J] P[OF I] by (simp add: Let_def)
    then have "o2 = o1" using instance_unique[OF assms(3), of i o2 m "{}" 0 0 o1 n] J(1) I(1) by simp
    then show "q \<in> {o1..<r}" using q J P[OF J] P[OF I] by (auto simp: Let_def)
  next
    fix q assume q: "q \<in> {o1..<r}"
    then have "place_of cfgs d q = \<lparr>is_leader = (q = o1), instance_idx = i, instance_sub_rank = q - o1\<rparr>" using P[OF I(1)] I(3) by simp
    then show "q \<in> {q \<in> {0..<N}. fst (?a q) = fst (?a r) \<and> (snd (?a q) < snd (?a r) \<or> snd (?a q) = snd (?a r) \<and> q < r)}"
      using q P[OF I] R assms(5) by (simp add: Let_def)
  qed
  then have "comm_split ?a N r = r - o1" using assms(1,4,5) I(2) by (simp add: split_spec_mpi_def)
  then have "split_world_comm comm_split h N r cfgs = Inr (r = o1, i, r - o1)"
    using assms(2) P[OF I] by (simp add: split_world_comm_def py_assert_def Let_def)
  then show ?thesis using I R N by auto
qed

definition sample_cfg :: "server_type \<Rightarrow> int \<Rightarrow> int \<Rightarrow> server_config" where
  "sample_cfg ty p n = \<lparr>sc_type = ty, hostname = Some ''h'', sc_port = Some p, instance_num_ranks = n, other_args = []\<rparr>"

lemma split_world_covers_ranks_witness:
  "\<exists>i first n. (i, first, n) \<in> set (instances {} 0 0 [sample_cfg ctx 1 2, sample_cfg gen 1 2, sample_cfg gen 2 3])
    \<and> split_world_comm comm_split_ref (\<lambda>_. []) 5 3 [sample_cfg ctx 1 2, sample_cfg gen 1 2, sample_cfg gen 2 3] = Inr (3 = first, i, 3 - first)"
proof -
  have "\<exists>d. get_server_configs_dict (\<lambda>_. []) [sample_cfg ctx 1 2, sample_cfg gen 1 2, sample_cfg gen 2 3] = Inr (5, d)"
    by (simp add: get_server_configs_dict_def sample_cfg_def url_of_def dict_eq_def)
  then show ?thesis
    using split_world_covers_ranks[OF comm_split_ref_spec, of "\<lambda>_. []" "[sample_cfg ctx 1 2, sample_cfg gen 1 2, sample_cfg gen 2 3]" 5 _ 3]
    by (fastforce simp: sample_cfg_def)
qed

section \<open>Inheritance\<close>

text \<open>A section keeps its own values and inherits what it does not have.\<close>

lemma inherit_keeps_section:
  assumes "inherit h kwargs (c, g) = Inr (c', g')" "distinct (keys_of kwargs)"
  shows "map_of c' = map_of kwargs ++ map_of c \<and> map_of g' = map_of kwargs ++ map_of g"
  using assms
proof (induction kwargs arbitrary: c g)
  case (Cons kv kwargs)
  obtain k v where kv: "kv = (k, v)" by (cases kv)
  have one: "map_of s' = (map_of s)(k := (case map_of s k of Some w \<Rightarrow> Some w | None \<Rightarrow> Some v))" if "inherit_one h k v s = Inr s'" for s s'
    using that by (auto simp: inherit_one_def split: option.splits if_splits)
  from Cons.prems obtain c1 g1 where i: "inherit_one h k v c = Inr c1" "inherit_one h k v g = Inr g1" "inherit h kwargs (c1, g1) = Inr (c', g')"
    by (auto simp: kv)
  have nk: "map_of kwargs k = None" using Cons.prems(2) by (auto simp: kv map_of_eq_None_iff)
  show ?case using Cons.IH[OF i(3)] Cons.prems(2) one[OF i(1)] one[OF i(2)] nk
    by (auto simp: kv map_add_def fun_eq_iff split: option.splits)
qed simp

text \<open>
  A router setting at the top level is one dictionary that both sections inherit. Extracting it for the context servers pops
  its type, so the generation servers fall back to round robin.
\<close>

lemma shared_router_loses_type:
  fixes a :: nat
  assumes "fresh1 \<noteq> a" "fresh2 \<noteq> a" "map_of (h a) ''type'' = Some t"
  shows "\<exists>cfg h'. extract_disagg_cfg py_int fresh1 fresh2 None None True [(''router'', Obj a)] h = Inr (cfg, h')
    \<and> rc_type (ctx_router_config cfg) = t \<and> rc_type (gen_router_config cfg) = YStr ''round_robin''
    \<and> rc_args (ctx_router_config cfg) = rc_args (gen_router_config cfg)"
  using assms by (simp add: extract_disagg_cfg_def inherit_one_def extract_router_config_def Let_def)

end
