(* ===== verification/Reasoning_Parser.thy ===== *)
theory Reasoning_Parser
  imports Py_Prelude
begin

text \<open>
  The parser that separates the reasoning of a model from its answer, \<open>llmapi/reasoning_parser.py\<close>: \<open>DeepSeekR1Parser\<close> on a
  whole text (\<open>parse\<close>) and on a stream of pieces (\<open>parse_delta\<close>), and the factory.
\<close>

section \<open>Searching\<close>

fun str_find :: "string \<Rightarrow> string \<Rightarrow> nat option" where
  \<comment> \<open>\<open>xs.find(pat)\<close>; \<open>None\<close> is -1\<close>
  "str_find pat [] = (if pat = [] then Some 0 else None)"
| "str_find pat (x # xs) = (if starts_with pat (x # xs) then Some 0 else map_option Suc (str_find pat xs))"

fun rfind_char :: "char \<Rightarrow> string \<Rightarrow> nat option" where
  \<comment> \<open>\<open>xs.rfind(c)\<close>\<close>
  "rfind_char c [] = None"
| "rfind_char c (x # xs) = (case rfind_char c xs of Some i \<Rightarrow> Some (Suc i) | None \<Rightarrow> if x = c then Some 0 else None)"

section \<open>The parser\<close>

definition reasoning_start :: string where "reasoning_start = ''<think>''"
definition reasoning_end :: string where "reasoning_end = ''</think>''"

record parser_result =
  content :: string
  reasoning_content :: string

record r1_parser =
  reasoning_at_start :: bool
  in_reasoning :: bool
  buffer :: string

definition r1_init :: "bool \<Rightarrow> r1_parser" where
  "r1_init at_start = \<lparr>reasoning_at_start = at_start, in_reasoning = at_start, buffer = []\<rparr>"

definition create_reasoning_end_result :: "string \<Rightarrow> string \<Rightarrow> parser_result" where
  "create_reasoning_end_result c r =
     (if c = [] then \<lparr>content = [], reasoning_content = r\<rparr>
      else if r = [] then \<lparr>content = c, reasoning_content = []\<rparr>
      else \<lparr>content = c, reasoning_content = r\<rparr>)"

definition split_end :: "string \<Rightarrow> parser_result" where
  \<comment> \<open>the second half of \<open>parse\<close>\<close>
  "split_end text = (case str_find reasoning_end text of
      None \<Rightarrow> \<lparr>content = [], reasoning_content = text\<rparr>
    | Some i \<Rightarrow> \<lparr>content = drop (i + length reasoning_end) text, reasoning_content = take i text\<rparr>)"

definition parse :: "bool \<Rightarrow> string \<Rightarrow> parser_result" where
  "parse at_start text =
     (if \<not> at_start then
        (case str_find reasoning_start text of
           None \<Rightarrow> \<lparr>content = text, reasoning_content = []\<rparr>
         | Some i \<Rightarrow> split_end (drop (i + length reasoning_start) text))
      else split_end text)"

definition parse_reasoning :: "string \<Rightarrow> r1_parser \<Rightarrow> parser_result \<times> r1_parser" where
  \<comment> \<open>the block for \<open>in_reasoning\<close>\<close>
  "parse_reasoning text st =
     (case str_find reasoning_end text of
        None \<Rightarrow>
          (case rfind_char CHR ''<'' text of
             Some i \<Rightarrow>
               if starts_with (drop i text) reasoning_end
               then (\<lparr>content = [], reasoning_content = take i text\<rparr>, st\<lparr>buffer := drop i text\<rparr>)
               else (\<lparr>content = [], reasoning_content = text\<rparr>, st\<lparr>buffer := []\<rparr>)
           | None \<Rightarrow> (\<lparr>content = [], reasoning_content = text\<rparr>, st\<lparr>buffer := []\<rparr>))
      | Some i \<Rightarrow>
          (\<lparr>content = drop (i + length reasoning_end) text, reasoning_content = take i text\<rparr>, st\<lparr>in_reasoning := False, buffer := []\<rparr>))"

definition parse_delta :: "string \<Rightarrow> r1_parser \<Rightarrow> parser_result \<times> r1_parser" where
  "parse_delta delta st =
     (let text = buffer st @ delta in
      if starts_with text reasoning_start \<or> starts_with text reasoning_end
      then (\<lparr>content = [], reasoning_content = []\<rparr>, st\<lparr>buffer := text\<rparr>)
      else if \<not> in_reasoning st then
        (case str_find reasoning_start text of
           None \<Rightarrow> (\<lparr>content = text, reasoning_content = []\<rparr>, st\<lparr>buffer := []\<rparr>)
         | Some i \<Rightarrow> parse_reasoning (drop (i + length reasoning_start) text) (st\<lparr>in_reasoning := True, buffer := text\<rparr>))
      else parse_reasoning text (st\<lparr>buffer := text\<rparr>))"

definition create_reasoning_parser :: "string \<Rightarrow> bool option \<Rightarrow> r1_parser result" where
  \<comment> \<open>\<open>thinking\<close> is \<open>enable_thinking\<close> of the chat template arguments, if given\<close>
  "create_reasoning_parser name thinking =
     (if str_lower name \<notin> {''deepseek-r1'', ''qwen3'', ''nano-v3''} then Inl ValueError
      else if name = ''deepseek-r1'' then Inr (r1_init True)
      else if name = ''nano-v3'' then Inr (r1_init (case thinking of Some b \<Rightarrow> b | None \<Rightarrow> True))
      else Inr (r1_init False))"

section \<open>Facts about searching\<close>

definition occurs_at :: "string \<Rightarrow> string \<Rightarrow> nat \<Rightarrow> bool" where
  "occurs_at pat xs i \<longleftrightarrow> i \<le> length xs \<and> starts_with pat (drop i xs)"

lemma str_find_None_iff: "str_find pat xs = None \<longleftrightarrow> (\<forall>i. \<not> occurs_at pat xs i)"
proof (induction xs)
  case Nil
  then show ?case by (auto simp: occurs_at_def starts_with_def)
next
  case (Cons x xs)
  have "(\<forall>i. \<not> occurs_at pat (x # xs) i) \<longleftrightarrow> \<not> starts_with pat (x # xs) \<and> (\<forall>i. \<not> occurs_at pat xs i)"
    unfolding occurs_at_def by (metis Suc_le_mono drop0 drop_Suc_Cons le0 length_Cons not0_implies_Suc)
  then show ?case using Cons by simp
qed

lemma str_find_SomeD: "str_find pat xs = Some i \<Longrightarrow> occurs_at pat xs i \<and> (\<forall>j < i. \<not> occurs_at pat xs j)"
proof (induction xs arbitrary: i)
  case Nil
  then show ?case by (auto simp: occurs_at_def starts_with_def split: if_splits)
next
  case (Cons x xs)
  show ?case
  proof (cases "starts_with pat (x # xs)")
    case True
    then show ?thesis using Cons.prems by (auto simp: occurs_at_def)
  next
    case False
    then obtain k where k: "str_find pat xs = Some k" "i = Suc k" using Cons.prems by auto
    have "\<not> occurs_at pat (x # xs) j" if "j < Suc k" for j
      using that False Cons.IH[OF k(1)] by (cases j) (auto simp: occurs_at_def)
    then show ?thesis using k Cons.IH[OF k(1)] by (auto simp: occurs_at_def)
  qed
qed

lemma str_find_eqI: "occurs_at pat xs i \<Longrightarrow> (\<And>j. j < i \<Longrightarrow> \<not> occurs_at pat xs j) \<Longrightarrow> str_find pat xs = Some i"
proof -
  assume a: "occurs_at pat xs i" and b: "\<And>j. j < i \<Longrightarrow> \<not> occurs_at pat xs j"
  then obtain k where k: "str_find pat xs = Some k" using str_find_None_iff[of pat xs] by (cases "str_find pat xs") auto
  have "k = i" using str_find_SomeD[OF k] a b by (meson nat_neq_iff)
  then show ?thesis using k by simp
qed

lemma starts_with_append: "starts_with pat xs \<Longrightarrow> starts_with pat (xs @ zs)"
  unfolding starts_with_def by (metis append_take_drop_id length_take min.cobounded1 take_append take_all_iff le_add_diff_inverse append.assoc append_eq_conv_conj)

lemma occurs_at_append: "occurs_at pat xs i \<Longrightarrow> occurs_at pat (xs @ zs) i"
  by (auto simp: occurs_at_def intro: starts_with_append)

lemma occurs_at_shift: "occurs_at pat xs i \<longleftrightarrow> occurs_at pat (ys @ xs) (length ys + i)"
  by (auto simp: occurs_at_def)

lemma occurs_at_prefix: "occurs_at pat (xs @ zs) i \<Longrightarrow> i + length pat \<le> length xs \<Longrightarrow> occurs_at pat xs i"
  by (simp add: occurs_at_def starts_with_def)

lemma occurs_at_unshift: "occurs_at pat (ys @ xs) i \<Longrightarrow> length ys \<le> i \<Longrightarrow> occurs_at pat xs (i - length ys)"
  by (auto simp: occurs_at_def)

lemma str_find_append: "str_find pat xs = Some i \<Longrightarrow> str_find pat (xs @ zs) = Some i"
proof (rule str_find_eqI)
  assume f: "str_find pat xs = Some i"
  then show "occurs_at pat (xs @ zs) i" using str_find_SomeD occurs_at_append by blast
  fix j assume j: "j < i"
  have "i + length pat \<le> length xs"
    using str_find_SomeD[OF f] by (auto simp: occurs_at_def starts_with_def dest!: arg_cong[of _ _ length])
  then show "\<not> occurs_at pat (xs @ zs) j" using occurs_at_prefix[of pat xs zs j] str_find_SomeD[OF f] j by auto
qed

lemma str_find_skip:
  assumes "\<And>j. j < length xs \<Longrightarrow> \<not> occurs_at pat (xs @ ys) j"
  shows "str_find pat (xs @ ys) = map_option ((+) (length xs)) (str_find pat ys)"
proof (cases "str_find pat ys")
  case None
  then have "\<not> occurs_at pat (xs @ ys) j" for j
    using assms occurs_at_unshift[of pat xs ys j] by (auto simp: str_find_None_iff not_less[symmetric])
  then have "str_find pat (xs @ ys) = None" by (simp add: str_find_None_iff)
  then show ?thesis using None by simp
next
  case (Some i)
  note S = str_find_SomeD[OF Some]
  have "str_find pat (xs @ ys) = Some (length xs + i)"
  proof (rule str_find_eqI)
    show "occurs_at pat (xs @ ys) (length xs + i)" using S occurs_at_shift by blast
    show "\<not> occurs_at pat (xs @ ys) j" if "j < length xs + i" for j
      using assms[of j] S that occurs_at_unshift[of pat xs ys j] by (cases "j < length xs") auto
  qed
  then show ?thesis using Some by simp
qed

lemma str_find_substring: "str_find pat (xs @ ys @ zs) = None \<Longrightarrow> str_find pat ys = None"
  using occurs_at_append[of pat ys _ zs] occurs_at_shift[of pat "ys @ zs" _ xs] by (auto simp: str_find_None_iff)

lemma rfind_char_spec:
  "rfind_char c xs = None \<longleftrightarrow> c \<notin> set xs"
  "rfind_char c xs = Some i \<Longrightarrow> i < length xs \<and> xs ! i = c \<and> c \<notin> set (drop (Suc i) xs)"
proof -
  show n: "rfind_char c xs = None \<longleftrightarrow> c \<notin> set xs" for xs by (induction xs) (auto split: option.splits)
  show "rfind_char c xs = Some i \<Longrightarrow> i < length xs \<and> xs ! i = c \<and> c \<notin> set (drop (Suc i) xs)"
    using n by (induction xs arbitrary: i) (auto split: option.splits if_splits)
qed

section \<open>Streaming\<close>

text \<open>The end tag has its only \<open><\<close> in front, so it cannot begin inside text that has been passed on.\<close>

lemma end_tag: "length reasoning_end = 8" "reasoning_end ! 0 = CHR ''<''" "i < 8 \<Longrightarrow> reasoning_end ! i = CHR ''<'' \<Longrightarrow> i = 0"
proof -
  show "length reasoning_end = 8" "reasoning_end ! 0 = CHR ''<''" by (simp_all add: reasoning_end_def)
  assume "i < 8" "reasoning_end ! i = CHR ''<''"
  then show "i = 0" by (auto simp: reasoning_end_def less_Suc_eq numeral_eq_Suc)
qed

lemma occurs_end_nth:
  assumes "occurs_at reasoning_end xs j" "k < 8" shows "j + k < length xs \<and> xs ! (j + k) = reasoning_end ! k"
proof -
  have t: "take 8 (drop j xs) = reasoning_end" using assms(1) by (simp add: occurs_at_def starts_with_def end_tag(1))
  then have "8 \<le> length (drop j xs)" by (metis end_tag(1) length_take min.cobounded1)
  then show ?thesis using assms(2) t by (auto simp: t[symmetric])
qed

lemma held_back:
  assumes none: "str_find reasoning_end text = None" and lt: "rfind_char CHR ''<'' text = Some i"
    and pre: "starts_with (drop i text) reasoning_end" and j: "j < i"
  shows "\<not> occurs_at reasoning_end (text @ z) j"
proof
  assume oc: "occurs_at reasoning_end (text @ z) j"
  note I = rfind_char_spec(2)[OF lt]
  have "\<not> j + 8 \<le> length text" using occurs_at_prefix[OF oc] none by (auto simp: str_find_None_iff end_tag(1))
  then have k: "i - j < 8" using I by linarith
  then have "reasoning_end ! (i - j) = CHR ''<''" using occurs_end_nth[OF oc k] I j by (simp add: nth_append)
  then show False using end_tag(3)[OF k] j by simp
qed

lemma passed_on:
  assumes none: "str_find reasoning_end text = None"
    and lt: "\<And>i. rfind_char CHR ''<'' text = Some i \<Longrightarrow> \<not> starts_with (drop i text) reasoning_end" and j: "j < length text"
  shows "\<not> occurs_at reasoning_end (text @ z) j"
proof
  assume oc: "occurs_at reasoning_end (text @ z) j"
  have short: "\<not> j + 8 \<le> length text" using occurs_at_prefix[OF oc] none by (auto simp: str_find_None_iff end_tag(1))
  have "text ! j = CHR ''<''" using occurs_end_nth[OF oc, of 0] j by (simp add: end_tag(2) nth_append)
  then have "CHR ''<'' \<in> set text" using j by (metis nth_mem)
  then have "rfind_char CHR ''<'' text \<noteq> None" by (simp add: rfind_char_spec(1))
  then obtain i where i: "rfind_char CHR ''<'' text = Some i" by blast
  note I = rfind_char_spec(2)[OF i]
  have "j \<le> i"
  proof (rule ccontr)
    assume "\<not> j \<le> i"
    then have "text ! j \<in> set (drop (Suc i) text)" using j by (auto simp: in_set_conv_nth intro!: exI[of _ "j - Suc i"])
    then show False using I \<open>text ! j = CHR ''<''\<close> by simp
  qed
  then have k: "i - j < 8" using short I by linarith
  then have "reasoning_end ! (i - j) = CHR ''<''" using occurs_end_nth[OF oc k] I \<open>j \<le> i\<close> by (simp add: nth_append)
  then have "j = i" using end_tag(3)[OF k] \<open>j \<le> i\<close> by simp
  moreover have "take (length (drop j text)) reasoning_end = drop j text"
  proof -
    have "take 8 (drop j text @ z) = reasoning_end" using oc j by (simp add: occurs_at_def starts_with_def end_tag(1))
    moreover have "length (drop j text) \<le> 8" using short by simp
    ultimately show ?thesis by (metis append_eq_conv_conj append_take_drop_id min.absorb1 take_take)
  qed
  ultimately show False using lt[OF i] by (simp add: starts_with_def)
qed

definition flush :: "r1_parser \<Rightarrow> parser_result" where
  \<comment> \<open>what the buffer stands for when the stream ends\<close>
  "flush st = (if in_reasoning st then split_end (buffer st) else \<lparr>content = buffer st, reasoning_content = []\<rparr>)"

fun stream :: "string list \<Rightarrow> r1_parser \<Rightarrow> string \<times> string \<times> r1_parser" where
  \<comment> \<open>all content and all reasoning content of a stream\<close>
  "stream [] st = ([], [], st)"
| "stream (d # ds) st = (case parse_delta d st of (r, st1) \<Rightarrow>
     (case stream ds st1 of (c, rc, st2) \<Rightarrow> (content r @ c, reasoning_content r @ rc, st2)))"

text \<open>After the text \<open>t\<close>, with content \<open>C\<close> and reasoning \<open>R\<close> passed on.\<close>

definition stream_inv :: "string \<Rightarrow> string \<Rightarrow> string \<Rightarrow> r1_parser \<Rightarrow> bool" where
  "stream_inv t C R st \<longleftrightarrow>
     (if in_reasoning st
      then C = [] \<and> t = R @ buffer st \<and> (\<forall>z j. j < length R \<longrightarrow> \<not> occurs_at reasoning_end (R @ buffer st @ z) j)
      else parse True t = \<lparr>content = C @ buffer st, reasoning_content = R\<rparr> \<and> str_find reasoning_end t \<noteq> None)
     \<and> (starts_with (buffer st) reasoning_start \<or> starts_with (buffer st) reasoning_end)"

lemma stream_inv_flush: "stream_inv t C R st \<Longrightarrow> parse True t = \<lparr>content = C @ content (flush st), reasoning_content = R @ reasoning_content (flush st)\<rparr>"
proof (cases "in_reasoning st")
  case True
  assume i: "stream_inv t C R st"
  then have "str_find reasoning_end (R @ buffer st) = map_option ((+) (length R)) (str_find reasoning_end (buffer st))"
    using True by (intro str_find_skip) (auto simp: stream_inv_def dest: spec[of _ "[]"])
  then show ?thesis using i True by (auto simp: stream_inv_def parse_def flush_def split_end_def add.assoc split: option.splits)
next
  case False
  assume "stream_inv t C R st"
  then show ?thesis using False by (simp add: stream_inv_def flush_def)
qed

lemma parse_reasoning_inv:
  assumes st: "in_reasoning st" and R: "\<And>z j. j < length R \<Longrightarrow> \<not> occurs_at reasoning_end (R @ text @ z) j"
    and p: "parse_reasoning text st = (r, st')"
  shows "stream_inv (R @ text) (content r) (R @ reasoning_content r) st'"
proof (cases "str_find reasoning_end text")
  case (Some i)
  have "str_find reasoning_end (R @ text) = Some (length R + i)"
    using str_find_skip[of R reasoning_end "text"] R[of _ "[]"] Some by simp
  then show ?thesis using p Some by (auto simp: parse_reasoning_def stream_inv_def parse_def split_end_def starts_with_def)
next
  case None
  show ?thesis
  proof (cases "\<exists>i. rfind_char CHR ''<'' text = Some i \<and> starts_with (drop i text) reasoning_end")
    case True
    then obtain i where i: "rfind_char CHR ''<'' text = Some i" "starts_with (drop i text) reasoning_end" by blast
    have r: "r = \<lparr>content = [], reasoning_content = take i text\<rparr>" "st' = st\<lparr>buffer := drop i text\<rparr>"
      using p None i by (auto simp: parse_reasoning_def)
    have il: "i < length text" using rfind_char_spec(2)[OF i(1)] by simp
    have whole: "(R @ take i text) @ drop i text @ z = R @ text @ z" for z by (metis append_assoc append_take_drop_id)
    have "\<not> occurs_at reasoning_end ((R @ take i text) @ drop i text @ z) j" if "j < length (R @ take i text)" for z j
    proof (cases "j < length R")
      case True
      then show ?thesis unfolding whole by (rule R)
    next
      case False
      then have "j - length R < i" using that il by simp
      then have "\<not> occurs_at reasoning_end (text @ z) (j - length R)" by (rule held_back[OF None i])
      then show ?thesis unfolding whole using False occurs_at_unshift[of reasoning_end R "text @ z" j] by auto
    qed
    then show ?thesis using st r i(2) by (simp add: stream_inv_def)
  next
    case False
    have r: "r = \<lparr>content = [], reasoning_content = text\<rparr>" "st' = st\<lparr>buffer := []\<rparr>"
      using p None False by (auto simp: parse_reasoning_def split: option.splits if_splits)
    have "\<not> occurs_at reasoning_end ((R @ text) @ z) j" if "j < length (R @ text)" for z j
    proof (cases "j < length R")
      case True
      then show ?thesis using R[of j z] by simp
    next
      case c: False
      then have "\<not> occurs_at reasoning_end (text @ z) (j - length R)" using that False by (intro passed_on[OF None]) auto
      then show ?thesis using c occurs_at_unshift[of reasoning_end R "text @ z" j] by auto
    qed
    then show ?thesis using st r by (simp add: stream_inv_def starts_with_def)
  qed
qed

definition no_restart :: "string \<Rightarrow> bool" where
  \<comment> \<open>the answer does not contain the start tag\<close>
  "no_restart t \<longleftrightarrow> str_find reasoning_start (content (parse True t)) = None"

lemma parse_append:
  assumes "str_find reasoning_end t \<noteq> None" "parse True t = \<lparr>content = c, reasoning_content = r\<rparr>"
  shows "parse True (t @ z) = \<lparr>content = c @ z, reasoning_content = r\<rparr>"
proof -
  obtain i where i: "str_find reasoning_end t = Some i" using assms(1) by blast
  then have "i + length reasoning_end \<le> length t" using str_find_SomeD[OF i]
    by (auto simp: occurs_at_def starts_with_def dest!: arg_cong[of _ _ length])
  then show ?thesis using assms(2) i str_find_append[OF i, of z] by (auto simp: parse_def split_end_def)
qed

lemma no_restart_prefix: "no_restart (t @ z) \<Longrightarrow> no_restart t"
proof (cases "str_find reasoning_end t")
  case None
  then show ?thesis by (simp add: no_restart_def parse_def split_end_def reasoning_start_def)
next
  case (Some i)
  assume n: "no_restart (t @ z)"
  have "parse True (t @ z) = \<lparr>content = content (parse True t) @ z, reasoning_content = reasoning_content (parse True t)\<rparr>"
    using Some by (intro parse_append) simp_all
  then show ?thesis using n str_find_substring[of reasoning_start "[]" "content (parse True t)" z] by (simp add: no_restart_def)
qed

lemma parse_delta_inv:
  assumes inv: "stream_inv t C R st" and p: "parse_delta d st = (r, st')" and ok: "no_restart (t @ d)"
  shows "stream_inv (t @ d) (C @ content r) (R @ reasoning_content r) st'"
proof -
  let ?b = "buffer st @ d"
  have app: "parse True (t @ d) = \<lparr>content = C @ ?b, reasoning_content = R\<rparr> \<and> str_find reasoning_end (t @ d) \<noteq> None" if "\<not> in_reasoning st"
    using inv that parse_append[of t "C @ buffer st" R d] str_find_append[of reasoning_end t _ d] by (auto simp: stream_inv_def)
  show ?thesis
  proof (cases "starts_with ?b reasoning_start \<or> starts_with ?b reasoning_end")
    case True
    then have "r = \<lparr>content = [], reasoning_content = []\<rparr>" "st' = st\<lparr>buffer := ?b\<rparr>" using p by (auto simp: parse_delta_def)
    then show ?thesis using True inv app by (auto simp: stream_inv_def)
  next
    case False
    show ?thesis
    proof (cases "in_reasoning st")
      case True
      then have pr: "parse_reasoning ?b (st\<lparr>buffer := ?b\<rparr>) = (r, st')" using p False by (simp add: parse_delta_def Let_def)
      have "stream_inv (R @ ?b) (content r) (R @ reasoning_content r) st'"
        by (rule parse_reasoning_inv[OF _ _ pr]) (use inv True in \<open>auto simp: stream_inv_def\<close>)
      moreover have "t @ d = R @ ?b" "C = []" using inv True by (simp_all add: stream_inv_def)
      ultimately show ?thesis by simp
    next
      case nr: False
      then have "str_find reasoning_start (C @ ?b @ []) = None" using app ok by (simp add: no_restart_def)
      then have "str_find reasoning_start ?b = None" by (rule str_find_substring)
      then have "r = \<lparr>content = ?b, reasoning_content = []\<rparr>" "st' = st\<lparr>buffer := []\<rparr>" using p False nr by (auto simp: parse_delta_def)
      then show ?thesis using app nr by (simp add: stream_inv_def starts_with_def)
    qed
  qed
qed

lemma stream_inv_stream:
  assumes "stream_inv t C R st" "stream ds st = (c, rc, st')" "no_restart (t @ concat ds)"
  shows "stream_inv (t @ concat ds) (C @ c) (R @ rc) st'"
  using assms
proof (induction ds arbitrary: t C R st c rc)
  case (Cons d ds)
  obtain r st1 where r: "parse_delta d st = (r, st1)" by (cases "parse_delta d st")
  obtain c1 rc1 where s: "stream ds st1 = (c1, rc1, st')" "c = content r @ c1" "rc = reasoning_content r @ rc1"
    using Cons.prems(2) r by (auto split: prod.splits)
  have "no_restart (t @ d)" using Cons.prems(3) no_restart_prefix[of "t @ d" "concat ds"] by simp
  from Cons.IH[OF parse_delta_inv[OF Cons.prems(1) r this] s(1)] Cons.prems(3) show ?case by (simp add: s)
qed simp

text \<open>
  C22: streaming agrees with parsing the whole text. For a parser that begins in the reasoning, and an answer that does not
  contain the start tag again, however the text is cut into pieces: the content and the reasoning passed on so
  far, completed by what the buffer holds, are exactly what \<open>parse\<close> returns for the text received so far, and the buffer never
  holds more than a beginning of one of the two tags.
\<close>

theorem streaming_agrees_with_parse:
  assumes "no_restart (concat ds)"
  shows "let (c, rc, st) = stream ds (r1_init True) in
    parse True (concat ds) = \<lparr>content = c @ content (flush st), reasoning_content = rc @ reasoning_content (flush st)\<rparr>
    \<and> (starts_with (buffer st) reasoning_start \<or> starts_with (buffer st) reasoning_end)"
proof -
  obtain c rc st where s: "stream ds (r1_init True) = (c, rc, st)" by (cases "stream ds (r1_init True)")
  have "stream_inv [] [] [] (r1_init True)" by (simp add: stream_inv_def r1_init_def starts_with_def)
  from stream_inv_stream[OF this s] assms have "stream_inv (concat ds) c rc st" by simp
  then show ?thesis using stream_inv_flush[of "concat ds" c rc st] by (simp add: s) (simp add: stream_inv_def)
qed

lemma streaming_agrees_with_parse_witness:
  "parse True ''a<b</think>ok'' = \<lparr>content = ''ok'', reasoning_content = ''a<b''\<rparr>
   \<and> stream [''a<'', ''b</th'', ''ink>o'', ''k''] (r1_init True) = (''ok'', ''a<b'', (r1_init True)\<lparr>in_reasoning := False\<rparr>)"
proof -
  let ?ds = "[''a<'', ''b</th'', ''ink>o'', ''k'']"
  have s: "stream ?ds (r1_init True) = (''ok'', ''a<b'', (r1_init True)\<lparr>in_reasoning := False\<rparr>)" by code_simp
  have "no_restart (concat ?ds)" by code_simp
  from streaming_agrees_with_parse[OF this] s show ?thesis by (simp add: flush_def r1_init_def)
qed

section \<open>Where streaming and parsing differ\<close>

text \<open>
  A parser that waits for the start tag misses it when it arrives in two pieces behind other text, and passes on the text
  in front of the tag that \<open>parse\<close> drops.
\<close>

lemma split_start_tag_missed:
  "parse False ''a<think>b</think>c'' = \<lparr>content = ''c'', reasoning_content = ''b''\<rparr>
   \<and> fst (stream [''a<thi'', ''nk>b</think>c''] (r1_init False)) = ''a<think>b</think>c''"
  by code_simp

lemma text_before_start_tag_streamed:
  "content (parse False ''a<think>b'') = [] \<and> fst (stream [''a'', ''<think>b''] (r1_init False)) = ''a''"
  by code_simp

text \<open>Names are looked up in lower case but compared as written: the parser then does not begin in the reasoning.\<close>

lemma mixed_case_name_changes_mode:
  "create_reasoning_parser ''DeepSeek-R1'' None = Inr (r1_init False)" "create_reasoning_parser ''deepseek-r1'' None = Inr (r1_init True)"
  by code_simp+

lemma create_reasoning_parser_accepts:
  "(\<exists>e. create_reasoning_parser name thinking = Inl e) \<longleftrightarrow> str_lower name \<notin> {''deepseek-r1'', ''qwen3'', ''nano-v3''}"
  by (simp add: create_reasoning_parser_def)

text \<open>The two empty cases of \<open>_create_reasoning_end_result\<close> are the general one.\<close>

lemma create_reasoning_end_result_eq: "create_reasoning_end_result c r = \<lparr>content = c, reasoning_content = r\<rparr>"
  by (simp add: create_reasoning_end_result_def)

end
