(* ===== verification/Kv_Connector.thy ===== *)
theory Kv_Connector
  imports Llm_Request
begin

text \<open>
  The connector of the KV cache to an external store, \<open>_torch/pyexecutor/kv_cache_connector.py\<close>: the requests that are saved or
  loaded in the background, on every rank of the world, and the description of the scheduled requests that the
  connector's scheduler receives.

  Requests are objects shared between dictionaries; every rank has its own heap of them, and dictionaries hold references. The
  connector's scheduler runs on the leader, and its answers are broadcast: an answer is an argument, the same on every rank.
  The connector's worker is code of the user: its answer to \<open>get_finished\<close> is an argument. Python does not specify the order of a
  set; the model takes the order of the dictionary it came from. Moving tensors is not modelled.
\<close>

section \<open>Requests in the background\<close>

record conn_request = llm_request +
  cr_tokens :: "int list"
  context_current_position :: int
  context_remaining_length :: int
  context_chunk_size :: int
  generation_only :: bool

record async_requests =
  saving :: "(int, nat) dict"
  loading :: "(int, nat) dict"

definition no_async :: async_requests where
  "no_async = \<lparr>saving = [], loading = []\<rparr>"

definition dict_update :: "('k, 'v) dict \<Rightarrow> ('k, 'v) dict \<Rightarrow> ('k, 'v) dict" where
  \<comment> \<open>\<open>d.update(other)\<close>\<close>
  "dict_update d other = fold (\<lambda>(k, v). AList.update k v) other d"

definition add_from :: "async_requests \<Rightarrow> async_requests \<Rightarrow> async_requests \<times> async_requests" where
  \<comment> \<open>with the other object, which is emptied\<close>
  "add_from a other = (\<lparr>saving = dict_update (saving a) (saving other), loading = dict_update (loading a) (loading other)\<rparr>, no_async)"

fun extract_ids :: "int list \<Rightarrow> (int, nat) dict \<Rightarrow> (int, nat) dict \<Rightarrow> unit result \<times> (int, nat) dict \<times> (int, nat) dict" where
  "extract_ids [] new old = (Inr (), new, old)"
| "extract_ids (i # is) new old =
     (case map_of old i of
        None \<Rightarrow> (Inl KeyError, new, old)
      | Some r \<Rightarrow> extract_ids is (AList.update i r new) (AList.delete i old))"

definition extract_by_id :: "int list \<Rightarrow> int list \<Rightarrow> async_requests \<Rightarrow> async_requests result \<times> async_requests" where
  "extract_by_id saving_ids loading_ids a =
     (case extract_ids saving_ids [] (saving a) of
        (Inl e, _, s) \<Rightarrow> (Inl e, a\<lparr>saving := s\<rparr>)
      | (Inr _, ns, s) \<Rightarrow>
          (case extract_ids loading_ids [] (loading a) of
             (Inl e, _, l) \<Rightarrow> (Inl e, \<lparr>saving = s, loading = l\<rparr>)
           | (Inr _, nl, l) \<Rightarrow> (Inr \<lparr>saving = ns, loading = nl\<rparr>, \<lparr>saving = s, loading = l\<rparr>)))"

section \<open>Scheduler output\<close>

record request_data =
  rd_id :: int
  new_tokens :: "int list"
  new_block_ids :: "int list"
  computed_position :: int
  num_scheduled_tokens :: int

record connector_output =
  new_requests :: "request_data list"
  cached_requests :: "request_data list"

record output_request =
  sent_block_ids :: "int list"
  sent_tokens :: "int list"

definition output_request_init :: output_request where
  "output_request_init = \<lparr>sent_block_ids = [], sent_tokens = []\<rparr>"

definition update_and_build_data :: "(conn_request \<Rightarrow> int list) \<Rightarrow> conn_request \<Rightarrow> output_request \<Rightarrow> request_data \<times> output_request" where
  \<comment> \<open>\<open>cache_indices\<close> is \<open>kv_cache_manager.get_cache_indices\<close>\<close>
  "update_and_build_data cache_indices r o1 =
     (let block_ids = cache_indices r;
          nb = drop (length (sent_block_ids o1)) block_ids;
          nt = drop (length (sent_tokens o1)) (cr_tokens r);
          in_context = state r \<in> {CONTEXT_INIT, DISAGG_GENERATION_TRANS_IN_PROGRESS} in
      (\<lparr>rd_id = request_id r, new_tokens = nt, new_block_ids = nb,
        computed_position = (if in_context then context_current_position r else int (length (cr_tokens r)) - 1),
        num_scheduled_tokens = (if in_context then min (context_remaining_length r) (context_chunk_size r) else 1)\<rparr>,
       \<lparr>sent_block_ids = sent_block_ids o1 @ nb, sent_tokens = sent_tokens o1 @ nt\<rparr>))"

record output_manager =
  out_requests :: "(int, output_request) dict"
  external_loads :: "(int, int) dict"

definition output_of :: "int \<Rightarrow> output_manager \<Rightarrow> output_request" where
  \<comment> \<open>\<open>self.requests[i]\<close> of a \<open>defaultdict\<close>\<close>
  "output_of i om = (case map_of (out_requests om) i of None \<Rightarrow> output_request_init | Some x \<Rightarrow> x)"

definition build_one :: "(conn_request \<Rightarrow> int list) \<Rightarrow> conn_request \<Rightarrow> output_manager \<Rightarrow> request_data \<times> output_manager" where
  "build_one cache_indices r om =
     (case update_and_build_data cache_indices r (output_of (request_id r) om) of
        (d, x) \<Rightarrow> (d, om\<lparr>out_requests := AList.update (request_id r) x (out_requests om)\<rparr>))"

definition context_output :: "(conn_request \<Rightarrow> int list) \<Rightarrow> int set \<Rightarrow> conn_request \<Rightarrow> connector_output \<times> output_manager \<Rightarrow> connector_output \<times> output_manager" where
  \<comment> \<open>one round of the loop over context requests\<close>
  "context_output cache_indices loading_ids r = (\<lambda>(out, om).
     if request_id r \<in> loading_ids then (out, om)
     else case build_one cache_indices r om of (d, om1) \<Rightarrow>
       let d1 = (case map_of (external_loads om1) (request_id r) of None \<Rightarrow> d | Some n \<Rightarrow> d\<lparr>computed_position := computed_position d - n\<rparr>) in
       (if request_id r \<notin> set (keys_of (out_requests om)) then out\<lparr>new_requests := new_requests out @ [d1]\<rparr>
        else out\<lparr>cached_requests := cached_requests out @ [d1]\<rparr>, om1))"

definition generation_output :: "(conn_request \<Rightarrow> int list) \<Rightarrow> conn_request \<Rightarrow> connector_output \<times> output_manager \<Rightarrow> connector_output \<times> output_manager" where
  "generation_output cache_indices r = (\<lambda>(out, om).
     case build_one cache_indices r om of (d, om1) \<Rightarrow> (out\<lparr>cached_requests := cached_requests out @ [d]\<rparr>, om1))"

definition build_scheduler_output :: "(conn_request \<Rightarrow> int list) \<Rightarrow> int set \<Rightarrow> conn_request list \<Rightarrow> conn_request list \<Rightarrow> output_manager
    \<Rightarrow> connector_output \<times> output_manager" where
  "build_scheduler_output cache_indices loading_ids ctx gen om =
     (case fold (generation_output cache_indices) gen (fold (context_output cache_indices loading_ids) ctx (\<lparr>new_requests = [], cached_requests = []\<rparr>, om)) of
        (out, om1) \<Rightarrow> (out, om1\<lparr>external_loads := []\<rparr>))"

definition record_new_matched_tokens :: "int \<Rightarrow> int \<Rightarrow> output_manager \<Rightarrow> output_manager" where
  "record_new_matched_tokens i n om = om\<lparr>external_loads := AList.update i n (external_loads om)\<rparr>"

section \<open>The connector manager of a rank\<close>

record connector =
  heap :: "nat \<Rightarrow> conn_request"
  new_async :: async_requests
  pending_async :: async_requests
  local_finished :: async_requests
  finished_loading :: "(int, nat) dict"
  sched_output :: "connector_output option"
  out_manager :: output_manager

definition connector_init :: "(nat \<Rightarrow> conn_request) \<Rightarrow> connector" where
  "connector_init h = \<lparr>heap = h, new_async = no_async, pending_async = no_async, local_finished = no_async, finished_loading = [],
     sched_output = None, out_manager = \<lparr>out_requests = [], external_loads = []\<rparr>\<rparr>"

definition set_state :: "nat \<Rightarrow> LlmRequestState \<Rightarrow> connector \<Rightarrow> connector" where
  "set_state p s c = c\<lparr>heap := (heap c)(p := (heap c p)\<lparr>state := s\<rparr>)\<rparr>"

definition get_num_new_matched_tokens :: "int \<times> bool \<Rightarrow> nat \<Rightarrow> connector \<Rightarrow> int result \<times> connector" where
  \<comment> \<open>the first argument is the broadcast answer of the connector's scheduler\<close>
  "get_num_new_matched_tokens ans p c =
     (let (num_tokens, load_kv_async) = ans; r = heap c p in
      if generation_only r then (Inl RuntimeError, c)
      else if num_tokens = 0 \<and> load_kv_async then (Inl RuntimeError, c)
      else
        let c1 = (if load_kv_async then c\<lparr>new_async := (new_async c)\<lparr>loading := AList.update (request_id r) p (loading (new_async c))\<rparr>\<rparr> else c) in
        (Inr num_tokens, c1\<lparr>out_manager := record_new_matched_tokens (request_id r) num_tokens (out_manager c1)\<rparr>))"

definition should_add_sequence :: "nat \<Rightarrow> connector \<Rightarrow> bool" where
  "should_add_sequence p c \<longleftrightarrow> request_id (heap c p) \<notin> set (keys_of (finished_loading c))"

definition conn_build_output :: "(conn_request \<Rightarrow> int list) \<Rightarrow> nat list \<Rightarrow> nat list \<Rightarrow> connector \<Rightarrow> connector" where
  "conn_build_output cache_indices ctx gen c =
     (case build_scheduler_output cache_indices (set (keys_of (loading (new_async c)))) (map (heap c) ctx) (map (heap c) gen) (out_manager c) of
        (out, om) \<Rightarrow> c\<lparr>sched_output := Some out, out_manager := om\<rparr>)"

fun take_pending :: "nat list \<Rightarrow> connector \<Rightarrow> nat list \<times> connector" where
  "take_pending [] c = ([], c)"
| "take_pending (p # ps) c =
     (if request_id (heap c p) \<in> set (keys_of (loading (new_async c))) then
        take_pending ps ((set_state p DISAGG_GENERATION_TRANS_IN_PROGRESS c)\<lparr>new_async :=
          (new_async c)\<lparr>loading := AList.update (request_id (heap c p)) p (loading (new_async c))\<rparr>\<rparr>)
      else (case take_pending ps c of (qs, c1) \<Rightarrow> (p # qs, c1)))"

definition handle_metadata :: "connector \<Rightarrow> connector_output option \<times> connector" where
  \<comment> \<open>what the connector's scheduler receives\<close>
  "handle_metadata c = (sched_output c, c\<lparr>sched_output := None\<rparr>)"

definition conn_request_finished :: "bool \<Rightarrow> nat \<Rightarrow> connector \<Rightarrow> bool \<times> connector" where
  "conn_request_finished saving_async p c =
     (let i = request_id (heap c p); c1 = c\<lparr>finished_loading := AList.delete i (finished_loading c)\<rparr> in
      (saving_async,
       if saving_async
       then set_state p DISAGG_CONTEXT_TRANS_IN_PROGRESS (c1\<lparr>new_async := (new_async c1)\<lparr>saving := AList.update i p (saving (new_async c1))\<rparr>\<rparr>)
       else c1))"

section \<open>Finished requests\<close>

type_synonym id_lists = "int list \<times> int list"

definition get_finished_local :: "(int list \<Rightarrow> int list \<Rightarrow> id_lists) \<Rightarrow> connector \<Rightarrow> id_lists result \<times> connector" where
  \<comment> \<open>up to the exchange: the lists that this rank contributes\<close>
  "get_finished_local worker c =
     (let started_loading = keys_of (loading (new_async c)); finished_gen = keys_of (saving (new_async c));
          (pend, new) = add_from (pending_async c) (new_async c);
          (fin_saving, fin_loading) = worker finished_gen started_loading in
      case extract_by_id fin_saving fin_loading pend of
        (Inl e, pend1) \<Rightarrow> (Inl e, c\<lparr>new_async := new, pending_async := pend1\<rparr>)
      | (Inr x, pend1) \<Rightarrow>
          let loc = fst (add_from (local_finished c) x) in
          (Inr (keys_of (saving loc), keys_of (loading loc)), c\<lparr>new_async := new, pending_async := pend1, local_finished := loc\<rparr>))"

definition intersect :: "int list list \<Rightarrow> int list" where
  \<comment> \<open>\<open>set.intersection\<close> of the ranks' lists\<close>
  "intersect ls = filter (\<lambda>i. list_all (\<lambda>l. i \<in> set l) ls) (remdups (concat ls))"

definition move_loaded :: "(int, nat) dict \<Rightarrow> connector \<Rightarrow> connector" where
  "move_loaded d c = fold (\<lambda>(i, p) c. (set_state p CONTEXT_INIT c)\<lparr>finished_loading := AList.update i p (finished_loading c)\<rparr>) d c"

definition get_finished_global :: "id_lists list \<Rightarrow> connector \<Rightarrow> nat list result \<times> connector" where
  \<comment> \<open>after the exchange\<close>
  "get_finished_global all_results c =
     (case extract_by_id (intersect (map fst all_results)) (intersect (map snd all_results)) (local_finished c) of
        (Inl e, loc) \<Rightarrow> (Inl e, c\<lparr>local_finished := loc\<rparr>)
      | (Inr fin, loc) \<Rightarrow> (Inr (map snd (saving fin)), move_loaded (loading fin) (c\<lparr>local_finished := loc\<rparr>)))"

definition all_get_finished :: "(int list \<Rightarrow> int list \<Rightarrow> id_lists) list \<Rightarrow> connector list \<Rightarrow> (nat list result \<times> connector) list option" where
  \<comment> \<open>\<open>get_finished\<close> on every rank; \<open>None\<close> when a rank raises before the exchange and the others wait\<close>
  "all_get_finished workers cs =
     (let ls = map2 get_finished_local workers cs in
      if list_all (\<lambda>(res, _). \<not> isl res) ls
      then Some (map (\<lambda>(_, c). get_finished_global (map (projr \<circ> fst) ls) c) ls)
      else None)"

section \<open>Dictionaries\<close>

abbreviation ids :: "(int, nat) dict \<Rightarrow> int set" where
  "ids d \<equiv> set (keys_of d)"

lemma ids_dom: "ids d = dom (map_of d)"
  by (simp add: dom_map_of_conv_image_fst)

lemma dict_update_spec:
  assumes "distinct (keys_of other)"
  shows "map_of (dict_update d other) = map_of d ++ map_of other" "distinct (keys_of d) \<Longrightarrow> distinct (keys_of (dict_update d other))"
proof -
  show "map_of (dict_update d other) = map_of d ++ map_of other"
    using assms unfolding dict_update_def
  proof (induction other arbitrary: d)
    case (Cons kv other)
    obtain k v where kv: "kv = (k, v)" by (cases kv)
    have "map_of (fold (\<lambda>(k, v). AList.update k v) (kv # other) d) = (map_of d)(k \<mapsto> v) ++ map_of other"
      using Cons.IH[of "AList.update k v d"] Cons.prems by (simp add: kv update_conv' fun_upd_def)
    also have "\<dots> = map_of d ++ map_of (kv # other)"
    proof -
      have "map_of other k = None" using Cons.prems by (simp add: kv map_of_eq_None_iff)
      then show ?thesis by (auto simp: kv map_add_def fun_eq_iff split: option.splits)
    qed
    finally show ?case .
  qed simp
  show "distinct (keys_of d) \<Longrightarrow> distinct (keys_of (dict_update d other))"
    unfolding dict_update_def by (induction other arbitrary: d) (auto simp: distinct_update)
qed

lemma extract_ids_spec:
  assumes "distinct js" "set js \<subseteq> ids old" "distinct (keys_of old)"
  obtains new' old' where "extract_ids js new old = (Inr (), new', old')" "map_of old' = map_of old |` (- set js)"
    "map_of new' = map_of new ++ map_of old |` set js" "distinct (keys_of old')" "distinct (keys_of new) \<Longrightarrow> distinct (keys_of new')"
proof -
  have "\<exists>new' old'. extract_ids js new old = (Inr (), new', old') \<and> map_of old' = map_of old |` (- set js)
    \<and> map_of new' = map_of new ++ map_of old |` set js \<and> distinct (keys_of old') \<and> (distinct (keys_of new) \<longrightarrow> distinct (keys_of new'))"
    using assms
  proof (induction "js" arbitrary: new old)
    case (Cons i js)
    then obtain r where r: "map_of old i = Some r" by (auto simp: ids_dom)
    have "ids (AList.delete i old) = ids old - {i}" unfolding ids_dom delete_conv' by auto
    then have sub: "set js \<subseteq> ids (AList.delete i old)" using Cons.prems(1,2) by auto
    have pr: "distinct js" "distinct (keys_of (AList.delete i old))" using Cons.prems by (simp_all add: distinct_delete)
    obtain new' old' where
      IH: "extract_ids js (AList.update i r new) (AList.delete i old) = (Inr (), new', old')"
      "map_of old' = map_of (AList.delete i old) |` (- set js)" "map_of new' = map_of (AList.update i r new) ++ map_of (AList.delete i old) |` set js"
      "distinct (keys_of old')" "distinct (keys_of (AList.update i r new)) \<longrightarrow> distinct (keys_of new')" using Cons.IH[OF pr(1) sub pr(2), of "AList.update i r new"] by blast
    have "map_of old' = map_of old |` (- set (i # js))" "map_of new' = map_of new ++ map_of old |` set (i # js)"
      unfolding IH(2,3) using r Cons.prems(1)
      by (auto simp: fun_eq_iff restrict_map_def delete_conv' update_conv' map_add_def split: option.splits)
    then show ?case using IH r by (auto simp: distinct_update)
  qed (simp add: restrict_map_def)
  then show ?thesis using that by blast
qed

lemma set_intersect: "ls \<noteq> [] \<Longrightarrow> set (intersect ls) = {i. \<forall>l \<in> set ls. i \<in> set l}"
  by (auto simp: intersect_def list_all_iff) (metis list.set_sel(1))

lemma distinct_intersect: "distinct (intersect ls)"
  by (simp add: intersect_def)

section \<open>Runs of all ranks\<close>

text \<open>
  A run is described with its history, per kind of transfer: the requests that were started, what the worker of each rank has
  reported, and what was returned.
\<close>

record history =
  started :: "int set"
  reported :: "nat \<Rightarrow> int set"
  returned :: "int set"

definition no_history :: history where
  "no_history = \<lparr>started = {}, reported = (\<lambda>_. {}), returned = {}\<rparr>"

definition advance :: "nat \<Rightarrow> (nat \<Rightarrow> int set) \<Rightarrow> history \<Rightarrow> history" where
  "advance n rep h = (let rp = (\<lambda>k. reported h k \<union> rep k) in h\<lparr>reported := rp, returned := {i. \<forall>k < n. i \<in> rp k}\<rparr>)"

definition named :: "connector \<Rightarrow> (int, nat) dict \<Rightarrow> bool" where
  \<comment> \<open>a dictionary without repetition whose keys are the ids of the requests\<close>
  "named c d \<longleftrightarrow> distinct (keys_of d) \<and> (\<forall>i p. map_of d i = Some p \<longrightarrow> request_id (heap c p) = i)"

definition tracks :: "(async_requests \<Rightarrow> (int, nat) dict) \<Rightarrow> history \<Rightarrow> nat \<Rightarrow> connector \<Rightarrow> bool" where
  "tracks sel h k c \<longleftrightarrow> named c (sel (new_async c)) \<and> named c (sel (pending_async c)) \<and> named c (sel (local_finished c))
     \<and> ids (sel (new_async c)) \<union> ids (sel (pending_async c)) = started h - reported h k
     \<and> ids (sel (new_async c)) \<inter> ids (sel (pending_async c)) = {}
     \<and> ids (sel (local_finished c)) = reported h k - returned h \<and> reported h k \<subseteq> started h \<and> returned h \<subseteq> reported h k"

definition answers_ok :: "history \<Rightarrow> nat \<Rightarrow> int list \<Rightarrow> bool" where
  \<comment> \<open>the contract of \<open>KvCacheConnectorWorker.get_finished\<close>: it returns ids that it was given, each once\<close>
  "answers_ok h k fs \<longleftrightarrow> distinct fs \<and> set fs \<subseteq> started h - reported h k"

text \<open>One kind of one rank, up to the exchange.\<close>

lemma named_update:
  assumes "named c d" "named c other"
  shows "named c (dict_update d other)" "ids (dict_update d other) = ids d \<union> ids other"
proof -
  have d: "distinct (keys_of other)" "distinct (keys_of d)" using assms by (simp_all add: named_def)
  show "named c (dict_update d other)" using assms dict_update_spec[OF d(1), of d] by (auto simp: named_def map_add_def split: option.splits)
  show "ids (dict_update d other) = ids d \<union> ids other" unfolding ids_dom dict_update_spec(1)[OF d(1)] by auto
qed

lemma named_extract:
  assumes "named c d" "distinct js" "set js \<subseteq> ids d"
  obtains new' old' where "extract_ids js [] d = (Inr (), new', old')" "named c new'" "named c old'" "ids new' = set js" "ids old' = ids d - set js"
proof -
  from assms(1) have "distinct (keys_of d)" by (simp add: named_def)
  then obtain new' old' where e: "extract_ids js [] d = (Inr (), new', old')" "map_of old' = map_of d |` (- set js)"
    "map_of new' = Map.empty ++ map_of d |` set js" "distinct (keys_of old')" "distinct (keys_of new')"
    using extract_ids_spec[OF assms(2,3), of "[]"] by auto
  have m: "map_of new' = map_of d |` set js" using e(3) by simp
  have n: "named c new'" "named c old'" using assms(1) e(2,4,5) m by (auto simp: named_def restrict_map_def split: if_splits)
  have i: "ids new' = set js" "ids old' = ids d - set js" using assms(3) unfolding ids_dom m e(2) by auto
  show ?thesis using that[OF e(1) n i] .
qed

lemma named_heap: "(\<And>p. request_id (heap c' p) = request_id (heap c p)) \<Longrightarrow> named c' d = named c d"
  by (simp add: named_def)

text \<open>Both kinds of one rank, up to the exchange and after it.\<close>

definition exchanged :: "history \<Rightarrow> history \<Rightarrow> nat \<Rightarrow> id_lists \<Rightarrow> connector \<Rightarrow> id_lists \<Rightarrow> connector \<Rightarrow> bool" where
  \<comment> \<open>the connector of rank \<open>k\<close> at the exchange, when its worker has reported \<open>rep\<close> and it contributes \<open>res\<close>\<close>
  "exchanged hs hl k rep c res c' \<longleftrightarrow> heap c' = heap c
     \<and> set (fst res) = (reported hs k - returned hs) \<union> set (fst rep) \<and> set (snd res) = (reported hl k - returned hl) \<union> set (snd rep)
     \<and> (\<forall>sel \<in> {saving, loading}. named c' (sel (new_async c')) \<and> named c' (sel (pending_async c')) \<and> named c' (sel (local_finished c')) \<and> ids (sel (new_async c')) = {})
     \<and> ids (saving (pending_async c')) = started hs - (reported hs k \<union> set (fst rep))
     \<and> ids (loading (pending_async c')) = started hl - (reported hl k \<union> set (snd rep))
     \<and> ids (saving (local_finished c')) = set (fst res) \<and> ids (loading (local_finished c')) = set (snd res)"

lemma local_step:
  assumes t: "tracks saving hs k c" "tracks loading hl k c"
    and w: "worker (keys_of (saving (new_async c))) (keys_of (loading (new_async c))) = (fs, fl)" "answers_ok hs k fs" "answers_ok hl k fl"
  shows "\<exists>res c'. get_finished_local worker c = (Inr res, c') \<and> exchanged hs hl k (fs, fl) c res c'"
proof -
  let ?ps = "dict_update (saving (pending_async c)) (saving (new_async c))" and ?pl = "dict_update (loading (pending_async c)) (loading (new_async c))"
  have ns: "named c (saving (new_async c))" "named c (saving (pending_async c))" "named c (saving (local_finished c))"
    and nl: "named c (loading (new_async c))" "named c (loading (pending_async c))" "named c (loading (local_finished c))"
    using t by (simp_all add: tracks_def)
  have ie: "ids ?ps = started hs - reported hs k" "ids ?pl = started hl - reported hl k"
    using t named_update(2)[OF ns(2,1)] named_update(2)[OF nl(2,1)] by (auto simp: tracks_def)
  obtain xs qs where s: "extract_ids fs [] ?ps = (Inr (), xs, qs)" "named c xs" "named c qs" "ids xs = set fs" "ids qs = ids ?ps - set fs"
    using named_extract[OF named_update(1)[OF ns(2,1)], of fs] w(2) ie(1) by (auto simp: answers_ok_def)
  obtain xl ql where l: "extract_ids fl [] ?pl = (Inr (), xl, ql)" "named c xl" "named c ql" "ids xl = set fl" "ids ql = ids ?pl - set fl"
    using named_extract[OF named_update(1)[OF nl(2,1)], of fl] w(3) ie(2) by (auto simp: answers_ok_def)
  let ?ls = "dict_update (saving (local_finished c)) xs" and ?ll = "dict_update (loading (local_finished c)) xl"
  let ?c = "c\<lparr>new_async := no_async, pending_async := \<lparr>saving = qs, loading = ql\<rparr>, local_finished := \<lparr>saving = ?ls, loading = ?ll\<rparr>\<rparr>"
  have g: "get_finished_local worker c = (Inr (keys_of ?ls, keys_of ?ll), ?c)"
    using s(1) l(1) w(1) by (simp add: get_finished_local_def add_from_def extract_by_id_def Let_def)
  have h: "named ?c d = named c d" for d by (rule named_heap) simp
  have nn: "named ?c (sel (new_async ?c)) \<and> named ?c (sel (pending_async ?c)) \<and> named ?c (sel (local_finished ?c)) \<and> ids (sel (new_async ?c)) = {}"
    if "sel \<in> {saving, loading}" for sel
    using that s(2,3) l(2,3) named_update(1)[OF ns(3) s(2)] named_update(1)[OF nl(3) l(2)] unfolding h by (auto simp: no_async_def named_def)
  have loc: "ids ?ls = (reported hs k - returned hs) \<union> set fs" "ids ?ll = (reported hl k - returned hl) \<union> set fl"
    using t named_update(2)[OF ns(3) s(2)] named_update(2)[OF nl(3) l(2)] s(4) l(4) by (auto simp: tracks_def)
  have "exchanged hs hl k (fs, fl) c (keys_of ?ls, keys_of ?ll) ?c"
    unfolding exchanged_def using nn loc s(5) l(5) ie by (intro conjI) auto
  then show ?thesis using g by blast
qed

lemma heap_move_loaded: "request_id (heap (move_loaded d c) p) = request_id (heap c p)"
  unfolding move_loaded_def by (induction d arbitrary: c) (auto simp: set_state_def)

lemma async_move_loaded [simp]:
  "new_async (move_loaded d c) = new_async c" "pending_async (move_loaded d c) = pending_async c" "local_finished (move_loaded d c) = local_finished c"
  unfolding move_loaded_def by (induction d arbitrary: c) (auto simp: set_state_def)

lemma global_step:
  assumes n: "named c (saving (local_finished c))" "named c (loading (local_finished c))"
    and sub: "set (intersect (map fst rs)) \<subseteq> ids (saving (local_finished c))" "set (intersect (map snd rs)) \<subseteq> ids (loading (local_finished c))"
  obtains ps c' where "get_finished_global rs c = (Inr ps, c')" "(\<lambda>p. request_id (heap c p)) ` set ps = set (intersect (map fst rs))"
    "distinct (map (\<lambda>p. request_id (heap c p)) ps)" "\<And>p. request_id (heap c' p) = request_id (heap c p)"
    "new_async c' = new_async c" "pending_async c' = pending_async c"
    "named c' (saving (local_finished c'))" "named c' (loading (local_finished c'))"
    "ids (saving (local_finished c')) = ids (saving (local_finished c)) - set (intersect (map fst rs))"
    "ids (loading (local_finished c')) = ids (loading (local_finished c)) - set (intersect (map snd rs))"
proof -
  obtain xs qs where s: "extract_ids (intersect (map fst rs)) [] (saving (local_finished c)) = (Inr (), xs, qs)" "named c xs" "named c qs"
    "ids xs = set (intersect (map fst rs))" "ids qs = ids (saving (local_finished c)) - set (intersect (map fst rs))"
    by (rule named_extract[OF n(1) distinct_intersect sub(1)])
  obtain xl ql where l: "extract_ids (intersect (map snd rs)) [] (loading (local_finished c)) = (Inr (), xl, ql)" "named c ql"
    "ids ql = ids (loading (local_finished c)) - set (intersect (map snd rs))"
    by (rule named_extract[OF n(2) distinct_intersect sub(2)])
  let ?c = "move_loaded xl (c\<lparr>local_finished := \<lparr>saving = qs, loading = ql\<rparr>\<rparr>)"
  have g: "get_finished_global rs c = (Inr (map snd xs), ?c)" using s(1) l(1) by (simp add: get_finished_global_def extract_by_id_def)
  have d: "distinct (keys_of xs)" using s(2) by (simp add: named_def)
  have "request_id (heap c (snd x)) = fst x" if "x \<in> set xs" for x
    using s(2) map_of_is_SomeI[OF d, of "fst x" "snd x"] that by (simp add: named_def)
  then have m: "map (\<lambda>p. request_id (heap c p)) (map snd xs) = keys_of xs" by simp
  have h: "request_id (heap ?c p) = request_id (heap c p)" for p by (simp add: heap_move_loaded)
  have nh: "named ?c d = named c d" for d by (rule named_heap[OF h])
  show ?thesis
  proof (rule that[OF g _ _ h])
    show "(\<lambda>p. request_id (heap c p)) ` set (map snd xs) = set (intersect (map fst rs))" using arg_cong[OF m, of set] s(4) by (simp add: image_image)
    show "distinct (map (\<lambda>p. request_id (heap c p)) (map snd xs))" unfolding m by (rule d)
  qed (use s(3,5) l(2,3) nh in simp_all)
qed

text \<open>All ranks. \<open>answers ! k\<close> is what the worker of rank \<open>k\<close> reports.\<close>

definition world_ok :: "nat \<Rightarrow> connector list \<Rightarrow> history \<Rightarrow> history \<Rightarrow> bool" where
  "world_ok n cs hs hl \<longleftrightarrow> length cs = n \<and> (\<forall>k < n. tracks saving hs k (cs ! k) \<and> tracks loading hl k (cs ! k))"

definition answers_of :: "(int list \<Rightarrow> int list \<Rightarrow> id_lists) list \<Rightarrow> connector list \<Rightarrow> id_lists list" where
  "answers_of workers cs = map2 (\<lambda>w c. w (keys_of (saving (new_async c))) (keys_of (loading (new_async c)))) workers cs"

definition contract :: "nat \<Rightarrow> (int list \<Rightarrow> int list \<Rightarrow> id_lists) list \<Rightarrow> connector list \<Rightarrow> history \<Rightarrow> history \<Rightarrow> bool" where
  "contract n workers cs hs hl \<longleftrightarrow> length workers = n
     \<and> (\<forall>k < n. answers_ok hs k (fst (answers_of workers cs ! k)) \<and> answers_ok hl k (snd (answers_of workers cs ! k)))"

definition reports :: "(id_lists \<Rightarrow> int list) \<Rightarrow> (int list \<Rightarrow> int list \<Rightarrow> id_lists) list \<Rightarrow> connector list \<Rightarrow> nat \<Rightarrow> int set" where
  "reports sel workers cs k = set (sel (answers_of workers cs ! k))"

lemma global_tracks:
  assumes ex: "exchanged hs hl k rep c res c1" and k: "k < n"
    and s: "set (intersect (map fst rs)) = returned (advance n rps hs) - returned hs" "rps k = set (fst rep)"
    and l: "set (intersect (map snd rs)) = returned (advance n rpl hl) - returned hl" "rpl k = set (snd rep)"
    and t: "tracks saving hs k c" "tracks loading hl k c" "answers_ok hs k (fst rep)" "answers_ok hl k (snd rep)"
    and mono: "returned hs \<subseteq> returned (advance n rps hs)" "returned hl \<subseteq> returned (advance n rpl hl)"
  shows "\<exists>ps c'. get_finished_global rs c1 = (Inr ps, c') \<and> distinct (map (\<lambda>p. request_id (heap c p)) ps)
    \<and> (\<lambda>p. request_id (heap c p)) ` set ps = returned (advance n rps hs) - returned hs
    \<and> tracks saving (advance n rps hs) k c' \<and> tracks loading (advance n rpl hl) k c'"
proof -
  let ?hs = "advance n rps hs" and ?hl = "advance n rpl hl"
  have rep: "reported ?hs k = reported hs k \<union> set (fst rep)" "reported ?hl k = reported hl k \<union> set (snd rep)"
    "started ?hs = started hs" "started ?hl = started hl" using s(2) l(2) by (simp_all add: advance_def Let_def)
  have ret: "returned ?hs \<subseteq> reported ?hs k" "returned ?hl \<subseteq> reported ?hl k" using k by (auto simp: advance_def Let_def)
  have nm: "named c1 (sel (new_async c1)) \<and> named c1 (sel (pending_async c1)) \<and> named c1 (sel (local_finished c1)) \<and> ids (sel (new_async c1)) = {}"
    if "sel = saving \<or> sel = loading" for sel using ex that by (auto simp: exchanged_def)
  have loc: "ids (saving (local_finished c1)) = (reported hs k - returned hs) \<union> set (fst rep)"
    "ids (loading (local_finished c1)) = (reported hl k - returned hl) \<union> set (snd rep)"
    "ids (saving (pending_async c1)) = started hs - reported ?hs k" "ids (loading (pending_async c1)) = started hl - reported ?hl k" "heap c1 = heap c"
    using ex rep by (simp_all add: exchanged_def)
  have sub: "set (intersect (map fst rs)) \<subseteq> ids (saving (local_finished c1))" "set (intersect (map snd rs)) \<subseteq> ids (loading (local_finished c1))"
    unfolding s(1) l(1) loc(1,2) using ret rep by auto
  have new: "set (fst rep) \<inter> returned hs = {}" "set (snd rep) \<inter> returned hl = {}" "reported hs k \<subseteq> started hs" "reported hl k \<subseteq> started hl"
    "set (fst rep) \<subseteq> started hs" "set (snd rep) \<subseteq> started hl" using t by (auto simp: tracks_def answers_ok_def)
  obtain ps c' where g: "get_finished_global rs c1 = (Inr ps, c')" "(\<lambda>p. request_id (heap c1 p)) ` set ps = set (intersect (map fst rs))"
    "distinct (map (\<lambda>p. request_id (heap c1 p)) ps)" "\<And>p. request_id (heap c' p) = request_id (heap c1 p)"
    "new_async c' = new_async c1" "pending_async c' = pending_async c1" "named c' (saving (local_finished c'))" "named c' (loading (local_finished c'))"
    "ids (saving (local_finished c')) = ids (saving (local_finished c1)) - set (intersect (map fst rs))"
    "ids (loading (local_finished c')) = ids (loading (local_finished c1)) - set (intersect (map snd rs))"
    by (rule global_step[OF _ _ sub]) (use nm in auto)
  have nh: "named c' d = named c1 d" for d by (rule named_heap[OF g(4)])
  have "tracks saving ?hs k c'" unfolding tracks_def g(5,6,9) loc(1,3) s(1) nh
    using nm[of saving] g(7) nh new(1,3,5) rep ret mono(1) by (auto simp: rep)
  moreover have "tracks loading ?hl k c'" unfolding tracks_def g(5,6,10) loc(2,4) l(1) nh
    using nm[of loading] g(8) nh new(2,4,6) rep ret mono(2) by (auto simp: rep)
  ultimately show ?thesis using g(1-3) s(1) loc(5) by auto
qed

lemma returned_now:
  assumes "0 < n" "\<And>k. k < n \<Longrightarrow> returned h \<subseteq> reported h k" "\<And>k. k < n \<Longrightarrow> rep k \<inter> reported h k = {}"
  shows "{i. \<forall>k < n. i \<in> (reported h k - returned h) \<union> rep k} = returned (advance n rep h) - returned h" "returned h \<subseteq> returned (advance n rep h)"
  using assms by (fastforce simp: advance_def Let_def)+

lemma round_ok:
  assumes ok: "world_ok n cs hs hl" and n: "0 < n" and w: "contract n workers cs hs hl"
  defines "hs' \<equiv> advance n (reports fst workers cs) hs" and "hl' \<equiv> advance n (reports snd workers cs) hl"
  shows "\<exists>rs. all_get_finished workers cs = Some rs \<and> world_ok n (map snd rs) hs' hl'
    \<and> (\<forall>k < n. \<exists>ps. fst (rs ! k) = Inr ps \<and> distinct (map (\<lambda>p. request_id (heap (cs ! k) p)) ps)
        \<and> (\<lambda>p. request_id (heap (cs ! k) p)) ` set ps = returned hs' - returned hs)"
proof -
  let ?L = "\<lambda>k. get_finished_local (workers ! k) (cs ! k)" and ?rs = "map2 get_finished_local workers cs"
  let ?ans = "\<lambda>k. answers_of workers cs ! k"
  have len: "length cs = n" "length workers = n" using ok w by (simp_all add: world_ok_def contract_def)
  have t: "tracks saving hs k (cs ! k)" "tracks loading hl k (cs ! k)" if "k < n" for k using ok that by (simp_all add: world_ok_def)
  have ans: "?ans k = (workers ! k) (keys_of (saving (new_async (cs ! k)))) (keys_of (loading (new_async (cs ! k))))" if "k < n" for k
    using that len by (simp add: answers_of_def)
  have a: "answers_ok hs k (fst (?ans k))" "answers_ok hl k (snd (?ans k))" if "k < n" for k using w that by (simp_all add: contract_def)
  have "\<exists>l c'. ?L k = (Inr l, c') \<and> exchanged hs hl k (?ans k) (cs ! k) l c'" if "k < n" for k
    using local_step[OF t[OF that] _ a[OF that]] ans[OF that] by simp
  then obtain l c1 where x: "\<And>k. k < n \<Longrightarrow> ?L k = (Inr (l k), c1 k)" "\<And>k. k < n \<Longrightarrow> exchanged hs hl k (?ans k) (cs ! k) (l k) (c1 k)" by metis
  let ?all = "map l [0..<n]"
  have rs: "?rs = map (\<lambda>k. (Inr (l k), c1 k)) [0..<n]" using x(1) len by (intro nth_equalityI) auto
  have set_rep: "set (intersect (map sel ?all)) = {i. \<forall>k < n. i \<in> set (sel (l k))}" for sel :: "id_lists \<Rightarrow> int list"
    using n by (subst set_intersect) auto
  have lk: "set (fst (l k)) = (reported hs k - returned hs) \<union> reports fst workers cs k" "set (snd (l k)) = (reported hl k - returned hl) \<union> reports snd workers cs k"
    if "k < n" for k using x(2)[OF that] by (simp_all add: exchanged_def reports_def)
  have inv: "returned hs \<subseteq> reported hs k" "returned hl \<subseteq> reported hl k" "reports fst workers cs k \<inter> reported hs k = {}" "reports snd workers cs k \<inter> reported hl k = {}"
    if "k < n" for k using t[OF that] a[OF that] by (auto simp: tracks_def answers_ok_def reports_def)
  have now: "set (intersect (map fst ?all)) = returned hs' - returned hs" "returned hs \<subseteq> returned hs'"
    "set (intersect (map snd ?all)) = returned hl' - returned hl" "returned hl \<subseteq> returned hl'"
  proof -
    have "set (intersect (map fst ?all)) = {i. \<forall>k < n. i \<in> (reported hs k - returned hs) \<union> reports fst workers cs k}" unfolding set_rep using lk(1) by auto
    also have "\<dots> = returned hs' - returned hs" unfolding hs'_def using n inv by (intro returned_now(1)) auto
    finally show "set (intersect (map fst ?all)) = returned hs' - returned hs" .
    have "set (intersect (map snd ?all)) = {i. \<forall>k < n. i \<in> (reported hl k - returned hl) \<union> reports snd workers cs k}" unfolding set_rep using lk(2) by auto
    also have "\<dots> = returned hl' - returned hl" unfolding hl'_def using n inv by (intro returned_now(1)) auto
    finally show "set (intersect (map snd ?all)) = returned hl' - returned hl" .
    show "returned hs \<subseteq> returned hs'" "returned hl \<subseteq> returned hl'" unfolding hs'_def hl'_def using n inv by (intro returned_now(2); auto)+
  qed
  have "\<exists>ps c'. get_finished_global ?all (c1 k) = (Inr ps, c') \<and> distinct (map (\<lambda>p. request_id (heap (cs ! k) p)) ps)
      \<and> (\<lambda>p. request_id (heap (cs ! k) p)) ` set ps = returned hs' - returned hs \<and> tracks saving hs' k c' \<and> tracks loading hl' k c'" if "k < n" for k
    using now unfolding hs'_def hl'_def by (intro global_tracks[OF x(2)[OF that] that _ _ _ _ t[OF that] a[OF that]]) (simp_all add: reports_def)
  then obtain ps c2 where f: "\<And>k. k < n \<Longrightarrow> get_finished_global ?all (c1 k) = (Inr (ps k), c2 k) \<and> distinct (map (\<lambda>p. request_id (heap (cs ! k) p)) (ps k))
      \<and> (\<lambda>p. request_id (heap (cs ! k) p)) ` set (ps k) = returned hs' - returned hs \<and> tracks saving hs' k (c2 k) \<and> tracks loading hl' k (c2 k)" by metis
  have "all_get_finished workers cs = Some (map (\<lambda>k. get_finished_global ?all (c1 k)) [0..<n])"
    unfolding all_get_finished_def Let_def rs by (simp add: list_all_iff comp_def)
  also have "\<dots> = Some (map (\<lambda>k. (Inr (ps k), c2 k)) [0..<n])" using f by simp
  finally show ?thesis using f by (auto simp: world_ok_def)
qed

text \<open>
  The steps of a world: a request finishes and is saved in the background, or a request is to be loaded in the background, by the same
  decision on every rank; a rank takes the requests that wait for a load out of its batch; all ranks collect finished
  requests.
\<close>

inductive world_run :: "nat \<Rightarrow> connector list \<Rightarrow> history \<Rightarrow> history \<Rightarrow> bool" for n where
  start: "length heaps = n \<Longrightarrow> world_run n (map connector_init heaps) no_history no_history"
| save: "world_run n cs hs hl \<Longrightarrow> length ps = n \<Longrightarrow> \<forall>k < n. request_id (heap (cs ! k) (ps ! k)) = i \<Longrightarrow> i \<notin> started hs \<Longrightarrow>
    world_run n (map2 (\<lambda>p c. snd (conn_request_finished True p c)) ps cs) (hs\<lparr>started := insert i (started hs)\<rparr>) hl"
| keep: "world_run n cs hs hl \<Longrightarrow> length ps = n \<Longrightarrow> world_run n (map2 (\<lambda>p c. snd (conn_request_finished False p c)) ps cs) hs hl"
| load: "world_run n cs hs hl \<Longrightarrow> length ps = n \<Longrightarrow> \<forall>k < n. request_id (heap (cs ! k) (ps ! k)) = i \<and> \<not> generation_only (heap (cs ! k) (ps ! k)) \<Longrightarrow>
    i \<notin> started hl \<Longrightarrow> num \<noteq> 0 \<Longrightarrow>
    world_run n (map2 (\<lambda>p c. snd (get_num_new_matched_tokens (num, True) p c)) ps cs) hs (hl\<lparr>started := insert i (started hl)\<rparr>)"
| take: "world_run n cs hs hl \<Longrightarrow> k < n \<Longrightarrow> world_run n (cs[k := snd (take_pending ps (cs ! k))]) hs hl"
| finished: "world_run n cs hs hl \<Longrightarrow> contract n workers cs hs hl \<Longrightarrow> all_get_finished workers cs = Some rs \<Longrightarrow>
    world_run n (map snd rs) (advance n (reports fst workers cs) hs) (advance n (reports snd workers cs) hl)"

lemma tracks_cong:
  assumes "\<And>p. request_id (heap c' p) = request_id (heap c p)" "sel (new_async c') = sel (new_async c)"
    "sel (pending_async c') = sel (pending_async c)" "sel (local_finished c') = sel (local_finished c)"
  shows "tracks sel h k c' = tracks sel h k c"
  unfolding tracks_def assms(2-4) named_heap[OF assms(1)] ..

lemma tracks_add:
  assumes "tracks sel h k c" "i \<notin> started h" "request_id (heap c p) = i" "\<And>q. request_id (heap c' q) = request_id (heap c q)"
    "sel (new_async c') = AList.update i p (sel (new_async c))"
    "sel (pending_async c') = sel (pending_async c)" "sel (local_finished c') = sel (local_finished c)"
  shows "tracks sel (h\<lparr>started := insert i (started h)\<rparr>) k c'"
proof -
  have nh: "named c' d = named c d" for d by (rule named_heap[OF assms(4)])
  have "named c (AList.update i p (sel (new_async c)))"
    using assms(1,3) by (auto simp: tracks_def named_def distinct_update update_conv' split: if_splits)
  moreover have "ids (AList.update i p (sel (new_async c))) = insert i (ids (sel (new_async c)))" unfolding ids_dom update_conv' by auto
  ultimately show ?thesis unfolding tracks_def assms(5-7) nh using assms(1,2) by (auto simp: tracks_def)
qed

lemma take_pending_tracks:
  "tracks saving hs k c \<Longrightarrow> tracks loading hl k c \<Longrightarrow> tracks saving hs k (snd (take_pending ps c)) \<and> tracks loading hl k (snd (take_pending ps c))"
proof (induction ps arbitrary: c)
  case (Cons p ps)
  let ?i = "request_id (heap c p)" and ?d = "loading (new_async c)"
  let ?c = "(set_state p DISAGG_GENERATION_TRANS_IN_PROGRESS c)\<lparr>new_async := (new_async c)\<lparr>loading := AList.update ?i p ?d\<rparr>\<rparr>"
  show ?case
  proof (cases "?i \<in> ids ?d")
    case True
    have h: "request_id (heap ?c q) = request_id (heap c q)" for q by (simp add: set_state_def)
    have "tracks saving hs k ?c" using Cons.prems(1) tracks_cong[of ?c c saving] h by (simp add: set_state_def)
    moreover have "tracks loading hl k ?c"
    proof -
      have "named c (AList.update ?i p ?d)" using Cons.prems(2) by (auto simp: tracks_def named_def distinct_update update_conv' split: if_splits)
      moreover have "ids (AList.update ?i p ?d) = ids ?d" using True unfolding ids_dom update_conv' by auto
      ultimately show ?thesis using Cons.prems(2) unfolding tracks_def named_heap[OF h] by (simp add: set_state_def)
    qed
    ultimately show ?thesis using Cons.IH[of ?c] True by simp
  next
    case False
    then show ?thesis using Cons.IH[of c] Cons.prems by (simp add: split_beta)
  qed
qed simp

lemma world_run_ok: "world_run n cs hs hl \<Longrightarrow> 0 < n \<Longrightarrow> world_ok n cs hs hl"
proof (induction rule: world_run.induct)
  case (start heaps)
  then show ?case by (auto simp: world_ok_def tracks_def connector_init_def no_async_def named_def no_history_def)
next
  case (save cs hs hl ps i)
  have "tracks saving (hs\<lparr>started := insert i (started hs)\<rparr>) k (snd (conn_request_finished True (ps ! k) (cs ! k)))
      \<and> tracks loading hl k (snd (conn_request_finished True (ps ! k) (cs ! k)))" (is "tracks _ _ _ ?c \<and> _") if "k < n" for k
  proof -
    have t: "tracks saving hs k (cs ! k)" "tracks loading hl k (cs ! k)" "request_id (heap (cs ! k) (ps ! k)) = i"
      using save that by (simp_all add: world_ok_def)
    have c: "\<And>q. request_id (heap ?c q) = request_id (heap (cs ! k) q)" "saving (new_async ?c) = AList.update i (ps ! k) (saving (new_async (cs ! k)))"
      "loading (new_async ?c) = loading (new_async (cs ! k))" "pending_async ?c = pending_async (cs ! k)" "local_finished ?c = local_finished (cs ! k)"
      using t(3) by (simp_all add: conn_request_finished_def set_state_def Let_def)
    show ?thesis using tracks_add[OF t(1) save.hyps(4) t(3) c(1,2)] tracks_cong[of ?c "cs ! k" loading hl k] t(2) c by simp
  qed
  then show ?case using save by (simp add: world_ok_def)
next
  case (keep cs hs hl ps)
  have "tracks sel h k (snd (conn_request_finished False (ps ! k) (cs ! k))) = tracks sel h k (cs ! k)" for sel h k
    by (rule tracks_cong) (simp_all add: conn_request_finished_def Let_def)
  then show ?case using keep by (simp add: world_ok_def)
next
  case (load cs hs hl ps i num)
  have "tracks saving hs k (snd (get_num_new_matched_tokens (num, True) (ps ! k) (cs ! k)))
      \<and> tracks loading (hl\<lparr>started := insert i (started hl)\<rparr>) k (snd (get_num_new_matched_tokens (num, True) (ps ! k) (cs ! k)))" (is "tracks _ _ _ ?c \<and> _") if "k < n" for k
  proof -
    have t: "tracks saving hs k (cs ! k)" "tracks loading hl k (cs ! k)" "request_id (heap (cs ! k) (ps ! k)) = i" "\<not> generation_only (heap (cs ! k) (ps ! k))"
      using load that by (simp_all add: world_ok_def)
    have c: "\<And>q. request_id (heap ?c q) = request_id (heap (cs ! k) q)" "loading (new_async ?c) = AList.update i (ps ! k) (loading (new_async (cs ! k)))"
      "saving (new_async ?c) = saving (new_async (cs ! k))" "pending_async ?c = pending_async (cs ! k)" "local_finished ?c = local_finished (cs ! k)"
      using t(3,4) load.hyps(5) by (simp_all add: get_num_new_matched_tokens_def Let_def)
    show ?thesis using tracks_add[OF t(2) load.hyps(4) t(3) c(1,2)] tracks_cong[of ?c "cs ! k" saving hs k] t(1) c by simp
  qed
  then show ?case using load by (simp add: world_ok_def)
next
  case (take cs hs hl k ps)
  then show ?case using take_pending_tracks by (auto simp: world_ok_def nth_list_update)
next
  case (finished cs hs hl workers rs)
  then show ?case using round_ok[of n cs hs hl workers] by auto
qed

text \<open>
  C12: a background transfer ends when it has ended everywhere. In every state that the ranks can reach, whatever the order of
  the steps, and for workers that report only what they were given and nothing twice: \<open>get_finished\<close> raises on no
  rank, and every rank returns the same requests, each once: exactly those whose saving the workers of all ranks have reported by now and
  that were not returned before.
\<close>

theorem finished_when_all_ranks_finished:
  assumes "world_run n cs hs hl" "0 < n" "contract n workers cs hs hl"
  shows "\<exists>rs. all_get_finished workers cs = Some rs \<and> length rs = n
    \<and> (\<forall>k < n. \<exists>ps. fst (rs ! k) = Inr ps \<and> distinct (map (\<lambda>p. request_id (heap (cs ! k) p)) ps)
        \<and> (\<lambda>p. request_id (heap (cs ! k) p)) ` set ps = {i. \<forall>j < n. i \<in> reported hs j \<union> reports fst workers cs j} - returned hs)"
proof -
  have ok: "world_ok n cs hs hl" using world_run_ok[OF assms(1,2)] .
  have r: "returned (advance n (reports fst workers cs) hs) = {i. \<forall>j < n. i \<in> reported hs j \<union> reports fst workers cs j}"
    by (simp add: advance_def Let_def)
  show ?thesis using round_ok[OF ok assms(2,3)] unfolding r by (auto simp: world_ok_def)
qed

section \<open>What the connector's scheduler learns\<close>

definition data_of :: "int \<Rightarrow> connector_output \<Rightarrow> request_data list" where
  "data_of i out = filter (\<lambda>d. rd_id d = i) (new_requests out @ cached_requests out)"

definition known :: "connector_output \<times> output_manager \<Rightarrow> bool" where
  "known = (\<lambda>(out, om). \<forall>i. data_of i out \<noteq> [] \<longrightarrow> i \<in> set (keys_of (out_requests om)))"

definition told :: "int \<Rightarrow> connector_output \<times> output_manager \<Rightarrow> request_data list \<times> output_request" where
  \<comment> \<open>what a batch says of a request so far, and what the manager remembers of it\<close>
  "told i = (\<lambda>(out, om). (data_of i out, output_of i om))"

definition one_datum :: "(conn_request \<Rightarrow> int list) \<Rightarrow> conn_request \<Rightarrow> request_data list \<times> output_request \<Rightarrow> request_data list \<times> output_request \<Rightarrow> bool" where
  \<comment> \<open>one more datum, with what the request has beyond what was sent\<close>
  "one_datum ci r = (\<lambda>(ds, x) (ds', x'). \<exists>d. ds' = ds @ [d]
     \<and> new_block_ids d = drop (length (sent_block_ids x)) (ci r) \<and> new_tokens d = drop (length (sent_tokens x)) (cr_tokens r)
     \<and> x' = \<lparr>sent_block_ids = sent_block_ids x @ new_block_ids d, sent_tokens = sent_tokens x @ new_tokens d\<rparr>)"

definition reports_one :: "(conn_request \<Rightarrow> int list) \<Rightarrow> conn_request \<Rightarrow> connector_output \<times> output_manager \<Rightarrow> connector_output \<times> output_manager \<Rightarrow> bool" where
  \<comment> \<open>a step adds one datum for the request and leaves the other requests alone\<close>
  "reports_one ci r s s' \<longleftrightarrow> (\<forall>j. j \<noteq> request_id r \<longrightarrow> told j s' = told j s) \<and> one_datum ci r (told (request_id r) s) (told (request_id r) s')"

lemma set_keys_update: "set (keys_of (AList.update k v d)) = insert k (set (keys_of d))"
  by (induction d) auto

lemma build_one_effect:
  assumes "build_one ci r om = (d, om')"
  shows "rd_id d = request_id r" "new_block_ids d = drop (length (sent_block_ids (output_of (request_id r) om))) (ci r)"
    "new_tokens d = drop (length (sent_tokens (output_of (request_id r) om))) (cr_tokens r)"
    "output_of (request_id r) om' = \<lparr>sent_block_ids = sent_block_ids (output_of (request_id r) om) @ new_block_ids d,
       sent_tokens = sent_tokens (output_of (request_id r) om) @ new_tokens d\<rparr>"
    "i \<noteq> request_id r \<Longrightarrow> output_of i om' = output_of i om"
    "set (keys_of (out_requests om')) = insert (request_id r) (set (keys_of (out_requests om)))"
proof -
  obtain x where x: "update_and_build_data ci r (output_of (request_id r) om) = (d, x)" "om' = om\<lparr>out_requests := AList.update (request_id r) x (out_requests om)\<rparr>"
    using assms by (auto simp: build_one_def split: prod.splits)
  show "rd_id d = request_id r" "new_block_ids d = drop (length (sent_block_ids (output_of (request_id r) om))) (ci r)"
    "new_tokens d = drop (length (sent_tokens (output_of (request_id r) om))) (cr_tokens r)"
    using x(1) by (auto simp: update_and_build_data_def Let_def)
  show "output_of (request_id r) om' = \<lparr>sent_block_ids = sent_block_ids (output_of (request_id r) om) @ new_block_ids d,
       sent_tokens = sent_tokens (output_of (request_id r) om) @ new_tokens d\<rparr>"
    using x(1) unfolding x(2) output_of_def by (auto simp: update_and_build_data_def Let_def)
  show "i \<noteq> request_id r \<Longrightarrow> output_of i om' = output_of i om" by (simp add: x(2) output_of_def)
  show "set (keys_of (out_requests om')) = insert (request_id r) (set (keys_of (out_requests om)))" by (simp add: x(2) set_keys_update del: set_map)
qed

lemma generation_reports:
  assumes "known s"
  shows "known (generation_output ci r s)" "reports_one ci r s (generation_output ci r s)"
proof -
  obtain out om where s: "s = (out, om)" by (cases s)
  obtain d om' where b: "build_one ci r om = (d, om')" by (cases "build_one ci r om")
  note e = build_one_effect[OF b]
  show "known (generation_output ci r s)" using assms e(1,6) by (auto simp: s generation_output_def b known_def data_of_def simp del: set_map)
  show "reports_one ci r s (generation_output ci r s)" using e(1-5) by (simp add: s generation_output_def b reports_one_def told_def one_datum_def data_of_def)
qed

lemma context_reports:
  assumes "known s" "request_id r \<notin> L"
  shows "known (context_output ci L r s)" "reports_one ci r s (context_output ci L r s)"
proof -
  obtain out om where s: "s = (out, om)" by (cases s)
  obtain d om' where b: "build_one ci r om = (d, om')" by (cases "build_one ci r om")
  note e = build_one_effect[OF b]
  define d1 where "d1 = (case map_of (external_loads om') (request_id r) of None \<Rightarrow> d | Some n \<Rightarrow> d\<lparr>computed_position := computed_position d - n\<rparr>)"
  have d1: "rd_id d1 = request_id r" "new_block_ids d1 = new_block_ids d" "new_tokens d1 = new_tokens d"
    using e(1) by (simp_all add: d1_def split: option.split)
  have st: "context_output ci L r s = (if request_id r \<notin> set (keys_of (out_requests om)) then out\<lparr>new_requests := new_requests out @ [d1]\<rparr>
      else out\<lparr>cached_requests := cached_requests out @ [d1]\<rparr>, om')"
    using assms(2) by (simp add: s context_output_def b d1_def Let_def del: set_map)
  show "known (context_output ci L r s)" using assms(1) d1(1) e(6) unfolding st by (auto simp: s known_def data_of_def simp del: set_map)
  have none: "data_of (request_id r) out = []" if "request_id r \<notin> set (keys_of (out_requests om))" using assms(1) that by (auto simp: s known_def simp del: set_map)
  show "reports_one ci r s (context_output ci L r s)"
    using none d1 e(2-5) unfolding st reports_one_def by (auto simp: s told_def one_datum_def data_of_def simp del: set_map)
qed

text \<open>A whole batch, for requests with different ids.\<close>

lemma fold_reports:
  assumes "\<And>r s. r \<in> set rs \<Longrightarrow> known s \<Longrightarrow> known (F r s) \<and> reports_one ci r s (F r s)" "distinct (map request_id rs)" "known s"
  shows "known (fold F rs s) \<and> (\<forall>j. j \<notin> request_id ` set rs \<longrightarrow> told j (fold F rs s) = told j s)
    \<and> (\<forall>r \<in> set rs. one_datum ci r (told (request_id r) s) (told (request_id r) (fold F rs s)))"
  using assms
proof (induction rs arbitrary: s)
  case (Cons r rs)
  have f: "known (F r s)" "reports_one ci r s (F r s)" using Cons.prems by auto
  have IH: "known (fold F rs (F r s))" "\<And>j. j \<notin> request_id ` set rs \<Longrightarrow> told j (fold F rs (F r s)) = told j (F r s)"
    "\<And>q. q \<in> set rs \<Longrightarrow> one_datum ci q (told (request_id q) (F r s)) (told (request_id q) (fold F rs (F r s)))"
    using Cons.IH[of "F r s"] Cons.prems f(1) by auto
  have o1: "told j (F r s) = told j s" if "j \<noteq> request_id r" for j using f(2) that by (simp add: reports_one_def)
  have "one_datum ci q (told (request_id q) s) (told (request_id q) (fold F rs (F r s)))" if "q \<in> set (r # rs)" for q
  proof (cases "q = r")
    case True
    have "request_id r \<notin> request_id ` set rs" using Cons.prems(2) by simp
    then show ?thesis using f(2) IH(2) by (simp add: True reports_one_def)
  next
    case False
    then have "request_id q \<in> request_id ` set rs" using that by simp
    then have "request_id q \<noteq> request_id r" using Cons.prems(2) by auto
    then show ?thesis using IH(3)[of q] o1 that False by simp
  qed
  then show ?case using IH(1,2) o1 by auto
qed simp

lemma fold_context_skips: "fold (context_output ci L) ctx s = fold (context_output ci L) (filter (\<lambda>r. request_id r \<notin> L) ctx) s"
  by (induction ctx arbitrary: s) (auto simp: context_output_def)

record batch =
  b_indices :: "conn_request \<Rightarrow> int list"
  b_loading :: "int set"
  b_context :: "conn_request list"
  b_generation :: "conn_request list"

definition reported_requests :: "batch \<Rightarrow> conn_request list" where
  \<comment> \<open>the scheduled requests, without those that wait for a load\<close>
  "reported_requests b = filter (\<lambda>r. request_id r \<notin> b_loading b) (b_context b) @ b_generation b"

definition batch_ok :: "batch \<Rightarrow> bool" where
  "batch_ok b \<longleftrightarrow> distinct (map request_id (reported_requests b))"

lemma batch_reports:
  assumes "batch_ok b" "build_scheduler_output (b_indices b) (b_loading b) (b_context b) (b_generation b) om = (out, om')"
  shows "r \<in> set (reported_requests b) \<Longrightarrow> one_datum (b_indices b) r ([], output_of (request_id r) om) (data_of (request_id r) out, output_of (request_id r) om')"
    and "j \<notin> request_id ` set (reported_requests b) \<Longrightarrow> data_of j out = [] \<and> output_of j om' = output_of j om"
proof -
  let ?ci = "b_indices b" and ?L = "b_loading b" and ?s0 = "(\<lparr>new_requests = [], cached_requests = []\<rparr>, om)"
  let ?c = "filter (\<lambda>r. request_id r \<notin> ?L) (b_context b)" and ?g = "b_generation b"
  let ?s1 = "fold (context_output ?ci ?L) ?c ?s0" and ?s2 = "fold (generation_output ?ci) ?g (fold (context_output ?ci ?L) ?c ?s0)"
  have d: "distinct (map request_id ?c)" "distinct (map request_id ?g)" "request_id ` set ?c \<inter> request_id ` set ?g = {}"
    using assms(1) by (auto simp: batch_ok_def reported_requests_def)
  have k0: "known ?s0" by (simp add: known_def data_of_def)
  have C: "known ?s1 \<and> (\<forall>j. j \<notin> request_id ` set ?c \<longrightarrow> told j ?s1 = told j ?s0) \<and> (\<forall>r \<in> set ?c. one_datum ?ci r (told (request_id r) ?s0) (told (request_id r) ?s1))"
    by (rule fold_reports[OF _ d(1) k0]) (use context_reports in auto)
  have G: "known ?s2 \<and> (\<forall>j. j \<notin> request_id ` set ?g \<longrightarrow> told j ?s2 = told j ?s1) \<and> (\<forall>r \<in> set ?g. one_datum ?ci r (told (request_id r) ?s1) (told (request_id r) ?s2))"
    by (rule fold_reports[OF _ d(2)]) (use generation_reports C in auto)
  have e: "told j ?s2 = (data_of j out, output_of j om')" "told j ?s0 = ([], output_of j om)" for j
    using assms(2) by (auto simp: build_scheduler_output_def fold_context_skips[of ?ci ?L "b_context b"] told_def output_of_def data_of_def split: prod.splits)
  show "one_datum ?ci r ([], output_of (request_id r) om) (data_of (request_id r) out, output_of (request_id r) om')" if "r \<in> set (reported_requests b)"
  proof (cases "r \<in> set ?c")
    case True
    then have "request_id r \<notin> request_id ` set ?g" using d(3) by blast
    then show ?thesis using C G True e by metis
  next
    case False
    then have g: "r \<in> set ?g" using that by (auto simp: reported_requests_def)
    then have "request_id r \<notin> request_id ` set ?c" using d(3) by blast
    then show ?thesis using C G g e by metis
  qed
  show "data_of j out = [] \<and> output_of j om' = output_of j om" if "j \<notin> request_id ` set (reported_requests b)"
  proof -
    have "j \<notin> request_id ` set ?c" "j \<notin> request_id ` set ?g" using that by (auto simp: reported_requests_def)
    then have "told j ?s2 = told j ?s0" using C G by metis
    then show ?thesis by (simp add: e)
  qed
qed

text \<open>
  The connector of a rank over time, with the outputs that its scheduler has received. Between two batches the executor
  changes the requests at will, and every other operation may happen.
\<close>

definition batch_of :: "(conn_request \<Rightarrow> int list) \<Rightarrow> nat list \<Rightarrow> nat list \<Rightarrow> connector \<Rightarrow> batch" where
  "batch_of ci ctx gen c = \<lparr>b_indices = ci, b_loading = ids (loading (new_async c)), b_context = map (heap c) ctx, b_generation = map (heap c) gen\<rparr>"

inductive rank_run :: "connector \<Rightarrow> connector_output list \<Rightarrow> bool" where
  init: "rank_run (connector_init h) []"
| runtime: "rank_run c outs \<Longrightarrow> rank_run (c\<lparr>heap := h\<rparr>) outs"
| matched: "rank_run c outs \<Longrightarrow> rank_run (snd (get_num_new_matched_tokens ans p c)) outs"
| pending: "rank_run c outs \<Longrightarrow> rank_run (snd (take_pending ps c)) outs"
| finish: "rank_run c outs \<Longrightarrow> rank_run (snd (conn_request_finished asyn p c)) outs"
| collect: "rank_run c outs \<Longrightarrow> rank_run (snd (get_finished_local worker c)) outs"
| gathered: "rank_run c outs \<Longrightarrow> rank_run (snd (get_finished_global rs c)) outs"
| metadata: "rank_run c outs \<Longrightarrow> batch_ok (batch_of ci ctx gen c) \<Longrightarrow> handle_metadata (conn_build_output ci ctx gen c) = (Some out, c') \<Longrightarrow> rank_run c' (outs @ [out])"

definition delivered :: "int \<Rightarrow> connector_output list \<Rightarrow> int list \<times> int list" where
  \<comment> \<open>the blocks and the tokens of a request, put together from the outputs\<close>
  "delivered i outs = (let ds = concat (map (data_of i) outs) in (concat (map new_block_ids ds), concat (map new_tokens ds)))"

definition remembered :: "int \<Rightarrow> connector \<Rightarrow> int list \<times> int list" where
  "remembered i c = (let x = output_of i (out_manager c) in (sent_block_ids x, sent_tokens x))"

lemma remembered_cong: "out_requests (out_manager c') = out_requests (out_manager c) \<Longrightarrow> remembered i c' = remembered i c"
  by (simp add: remembered_def output_of_def)

lemma out_requests_kept:
  "out_requests (out_manager (snd (get_num_new_matched_tokens ans p c))) = out_requests (out_manager c)"
  "out_requests (out_manager (snd (take_pending ps c))) = out_requests (out_manager c)"
  "out_requests (out_manager (snd (conn_request_finished asyn p c))) = out_requests (out_manager c)"
  "out_requests (out_manager (snd (get_finished_local worker c))) = out_requests (out_manager c)"
  "out_requests (out_manager (snd (get_finished_global rs c))) = out_requests (out_manager c)"
proof -
  show "out_requests (out_manager (snd (get_num_new_matched_tokens ans p c))) = out_requests (out_manager c)"
    by (simp add: get_num_new_matched_tokens_def record_new_matched_tokens_def Let_def split: prod.split)
  show "out_requests (out_manager (snd (take_pending ps c))) = out_requests (out_manager c)"
    by (induction ps c rule: take_pending.induct) (simp_all add: set_state_def split_beta del: set_map)
  show "out_requests (out_manager (snd (conn_request_finished asyn p c))) = out_requests (out_manager c)"
    by (simp add: conn_request_finished_def set_state_def Let_def)
  show "out_requests (out_manager (snd (get_finished_local worker c))) = out_requests (out_manager c)"
    by (simp add: get_finished_local_def Let_def split: prod.split sum.split)
  have "out_manager (move_loaded d b) = out_manager b" for d b
    unfolding move_loaded_def by (induction d arbitrary: b) (auto simp: set_state_def)
  then show "out_requests (out_manager (snd (get_finished_global rs c))) = out_requests (out_manager c)"
    by (simp add: get_finished_global_def split: prod.split sum.split)
qed

lemma delivered_snoc:
  "delivered i (outs @ [out]) = (fst (delivered i outs) @ concat (map new_block_ids (data_of i out)), snd (delivered i outs) @ concat (map new_tokens (data_of i out)))"
  by (simp add: delivered_def Let_def)

lemma metadata_reports:
  assumes "batch_ok (batch_of ci ctx gen c)" "handle_metadata (conn_build_output ci ctx gen c) = (Some out, c')" "remembered i c = delivered i outs"
  shows "remembered i c' = delivered i (outs @ [out])"
    and "r \<in> set (reported_requests (batch_of ci ctx gen c)) \<Longrightarrow> request_id r = i \<Longrightarrow> delivered i (outs @ [out]) =
      (fst (delivered i outs) @ drop (length (fst (delivered i outs))) (ci r), snd (delivered i outs) @ drop (length (snd (delivered i outs))) (cr_tokens r))"
proof -
  let ?b = "batch_of ci ctx gen c"
  obtain om' where b: "build_scheduler_output (b_indices ?b) (b_loading ?b) (b_context ?b) (b_generation ?b) (out_manager c) = (out, om')" "out_manager c' = om'"
    using assms(2) by (auto simp: handle_metadata_def conn_build_output_def batch_of_def split: prod.splits)
  note R = batch_reports[OF assms(1) b(1)]
  have one: "remembered i c' = delivered i (outs @ [out]) \<and> delivered i (outs @ [out]) =
      (fst (delivered i outs) @ drop (length (fst (delivered i outs))) (ci q), snd (delivered i outs) @ drop (length (snd (delivered i outs))) (cr_tokens q))"
    if q: "q \<in> set (reported_requests ?b)" "request_id q = i" for q
  proof -
    have "one_datum ci q ([], output_of i (out_manager c)) (data_of i out, output_of i om')" using R(1)[OF q(1)] q(2) by (simp add: batch_of_def)
    then show ?thesis using assms(3) b(2) unfolding delivered_snoc by (auto simp: one_datum_def remembered_def prod_eq_iff Let_def)
  qed
  show "r \<in> set (reported_requests ?b) \<Longrightarrow> request_id r = i \<Longrightarrow> delivered i (outs @ [out]) =
      (fst (delivered i outs) @ drop (length (fst (delivered i outs))) (ci r), snd (delivered i outs) @ drop (length (snd (delivered i outs))) (cr_tokens r))"
    using one by blast
  show "remembered i c' = delivered i (outs @ [out])"
  proof (cases "i \<in> request_id ` set (reported_requests ?b)")
    case True
    then show ?thesis using one by auto
  next
    case False
    then show ?thesis using R(2)[OF False] assms(3) b(2) unfolding delivered_snoc by (simp add: remembered_def Let_def)
  qed
qed

lemma rank_run_remembers: "rank_run c outs \<Longrightarrow> remembered i c = delivered i outs"
proof (induction rule: rank_run.induct)
  case (init h)
  then show ?case by (simp add: remembered_def delivered_def connector_init_def output_of_def output_request_init_def)
next
  case (runtime c outs h)
  then show ?case by (simp add: remembered_def)
next
  case (metadata c outs ci ctx gen out c')
  then show ?case by (intro metadata_reports(1)) auto
qed (simp_all add: remembered_cong[OF out_requests_kept(1)] remembered_cong[OF out_requests_kept(2)] remembered_cong[OF out_requests_kept(3)]
    remembered_cong[OF out_requests_kept(4)] remembered_cong[OF out_requests_kept(5)])

text \<open>
  C13: the increments that the connector's scheduler receives put each request together. After any run of the connector, when a
  batch with different request ids is described, and the blocks and tokens sent earlier for a scheduled request, over all outputs,
  are still the beginning of its lists, then all outputs with the new one give exactly its present blocks and tokens: nothing
  is lost when a request pauses or waits for a load, and nothing is sent twice.
\<close>

theorem connector_deltas_reassemble:
  assumes "rank_run c outs" "batch_ok (batch_of ci ctx gen c)" "r \<in> set (reported_requests (batch_of ci ctx gen c))"
    and "take (length (fst (delivered (request_id r) outs))) (ci r) = fst (delivered (request_id r) outs)"
    and "take (length (snd (delivered (request_id r) outs))) (cr_tokens r) = snd (delivered (request_id r) outs)"
  shows "\<exists>out c'. handle_metadata (conn_build_output ci ctx gen c) = (Some out, c') \<and> delivered (request_id r) (outs @ [out]) = (ci r, cr_tokens r)"
proof -
  obtain out c' where m: "handle_metadata (conn_build_output ci ctx gen c) = (Some out, c')"
    by (cases "build_scheduler_output ci (ids (loading (new_async c))) (map (heap c) ctx) (map (heap c) gen) (out_manager c)")
      (simp add: handle_metadata_def conn_build_output_def)
  let ?D = "delivered (request_id r) outs"
  have "delivered (request_id r) (outs @ [out]) = (fst ?D @ drop (length (fst ?D)) (ci r), snd ?D @ drop (length (snd ?D)) (cr_tokens r))"
    using metadata_reports(2)[OF assms(2) m rank_run_remembers[OF assms(1)] assms(3)] by blast
  also have "\<dots> = (ci r, cr_tokens r)" using assms(4,5) by (metis append_take_drop_id)
  finally show ?thesis using m by blast
qed


section \<open>Examples\<close>

definition example_request :: "int \<Rightarrow> int list \<Rightarrow> conn_request" where
  "example_request i toks = llm_request.extend (new_request i CONTEXT_INIT 2 4)
     (conn_request.fields toks 0 2 2 False)"

definition example_heap :: "nat \<Rightarrow> conn_request" where
  "example_heap p = example_request (int p) [5, 6]"

definition example_saved :: "connector list" where
  \<comment> \<open>two ranks, where request 7 is saved in the background\<close>
  "example_saved = map2 (\<lambda>p c. snd (conn_request_finished True p c)) [7, 7] (map connector_init [example_heap, example_heap])"

definition example_saved_history :: history where
  "example_saved_history = no_history\<lparr>started := insert 7 (started no_history)\<rparr>"

definition slow_worker :: "int list \<Rightarrow> int list \<Rightarrow> id_lists" where
  "slow_worker gen loads = ([], [])"

definition fast_worker :: "int list \<Rightarrow> int list \<Rightarrow> id_lists" where
  "fast_worker gen loads = (gen, loads)"

lemma example_world: "world_run 2 example_saved example_saved_history no_history"
  unfolding example_saved_def example_saved_history_def
  by (rule world_run.save[OF world_run.start])
    (auto simp: less_2_cases_iff connector_init_def example_heap_def example_request_def conn_request.defs llm_request.defs new_request_def no_history_def)

theorem finished_when_all_ranks_finished_witness:
  "\<exists>rs. all_get_finished [fast_worker, slow_worker] example_saved = Some rs \<and> length rs = 2
    \<and> (\<forall>k < 2. \<exists>ps. fst (rs ! k) = Inr ps \<and> distinct (map (\<lambda>p. request_id (heap (example_saved ! k) p)) ps)
        \<and> (\<lambda>p. request_id (heap (example_saved ! k) p)) ` set ps
            = {i. \<forall>j < 2. i \<in> reported example_saved_history j \<union> reports fst [fast_worker, slow_worker] example_saved j} - returned example_saved_history)"
proof (rule finished_when_all_ranks_finished[OF example_world])
  show "contract 2 [fast_worker, slow_worker] example_saved example_saved_history no_history"
    by (auto simp: contract_def less_2_cases_iff answers_ok_def answers_of_def example_saved_def fast_worker_def slow_worker_def
        example_saved_history_def no_history_def conn_request_finished_def set_state_def Let_def no_async_def
        connector_init_def example_heap_def example_request_def conn_request.defs llm_request.defs new_request_def)
qed simp

definition example_grown :: connector where
  \<comment> \<open>the first batch has been described; the request has a token and a block more\<close>
  "example_grown = (snd (handle_metadata (conn_build_output (\<lambda>r. [40]) [7] [] (connector_init example_heap))))\<lparr>heap := (\<lambda>p. example_request (int p) [5, 6, 9])\<rparr>"

definition example_first :: connector_output where
  "example_first = \<lparr>new_requests = [\<lparr>rd_id = 7, new_tokens = [5, 6], new_block_ids = [40], computed_position = 0, num_scheduled_tokens = 2\<rparr>], cached_requests = []\<rparr>"

lemmas example_simps = handle_metadata_def conn_build_output_def build_scheduler_output_def context_output_def build_one_def update_and_build_data_def
  connector_init_def no_async_def output_of_def output_request_init_def Let_def example_heap_def example_request_def conn_request.defs llm_request.defs new_request_def

lemma example_run: "rank_run example_grown [example_first]"
proof -
  have m: "handle_metadata (conn_build_output (\<lambda>r. [40]) [7] [] (connector_init example_heap))
      = (Some example_first, snd (handle_metadata (conn_build_output (\<lambda>r. [40]) [7] [] (connector_init example_heap))))"
    by (simp add: example_simps example_first_def)
  have "batch_ok (batch_of (\<lambda>r. [40]) [7] [] (connector_init example_heap))" by (simp add: batch_ok_def reported_requests_def batch_of_def)
  then have "rank_run (snd (handle_metadata (conn_build_output (\<lambda>r. [40]) [7] [] (connector_init example_heap)))) ([] @ [example_first])"
    by (rule rank_run.metadata[OF rank_run.init _ m])
  then show ?thesis using rank_run.runtime by (simp add: example_grown_def)
qed

theorem connector_deltas_reassemble_witness:
  "\<exists>out c'. handle_metadata (conn_build_output (\<lambda>r. [40, 41]) [7] [] example_grown) = (Some out, c')
    \<and> delivered (request_id (example_request 7 [5, 6, 9])) ([example_first] @ [out]) = ((\<lambda>r. [40, 41]) (example_request 7 [5, 6, 9]), cr_tokens (example_request 7 [5, 6, 9]))"
proof (rule connector_deltas_reassemble[OF example_run])
  have d: "delivered (request_id (example_request 7 [5, 6, 9])) [example_first] = ([40], [5, 6])"
    by (simp add: delivered_def data_of_def example_first_def example_simps)
  have n: "loading (new_async example_grown) = []" by (simp add: example_grown_def example_simps)
  show "batch_ok (batch_of (\<lambda>r. [40, 41]) [7] [] example_grown)" by (simp add: batch_ok_def reported_requests_def batch_of_def)
  show "example_request 7 [5, 6, 9] \<in> set (reported_requests (batch_of (\<lambda>r. [40, 41]) [7] [] example_grown))"
    by (simp add: reported_requests_def batch_of_def n) (simp add: example_grown_def)
  show "take (length (fst (delivered (request_id (example_request 7 [5, 6, 9])) [example_first]))) [40, 41] = fst (delivered (request_id (example_request 7 [5, 6, 9])) [example_first])"
    by (simp add: d)
  show "take (length (snd (delivered (request_id (example_request 7 [5, 6, 9])) [example_first]))) (cr_tokens (example_request 7 [5, 6, 9]))
      = snd (delivered (request_id (example_request 7 [5, 6, 9])) [example_first])"
    by (simp add: d) (simp add: example_simps)
qed

text \<open>
  A generation request that was never described before is listed among the requests that ``have already shown up in
  \<open>new_requests\<close>'', with all its tokens.
\<close>

lemma unseen_generation_request_cached:
  "sched_output (conn_build_output (\<lambda>r. [40]) [] [7] (connector_init example_heap)) = Some \<lparr>new_requests = [],
     cached_requests = [\<lparr>rd_id = 7, new_tokens = [5, 6], new_block_ids = [40], computed_position = 0, num_scheduled_tokens = 2\<rparr>]\<rparr>"
  by (simp add: example_simps generation_output_def)

text \<open>
  A rank on which a worker reports an id it was not given raises before the exchange, and the
  other ranks wait for it.
\<close>

lemma unknown_id_stops_the_exchange:
  "all_get_finished [fast_worker, \<lambda>_ _. ([8], [])] example_saved = None"
  by (simp add: all_get_finished_def get_finished_local_def example_saved_def fast_worker_def conn_request_finished_def set_state_def add_from_def
      dict_update_def extract_by_id_def example_simps)

end
