(* ===== verification/Finish_Reasons.thy ===== *)
theory Finish_Reasons
  imports Llm_Request Request_Results "HOL-Library.Sublist"
begin

text \<open>
  When a request stops, \<open>_torch/pyexecutor/sampler.py\<close>. The sampler decides it in two ways. \<open>_handle_stop_criteria\<close> looks at one
  request after each token; \<open>_write_finish_reasons\<close> computes on the device, for all requests of a batch, all beams and all draft
  positions at once, the reason for which each new token would end its request. The theory shows that both
  agree.

  A tensor of three dimensions is a list of lists of lists, in the order of its shape. A request holds
  the tokens of every beam. Sequence slots are smaller than the batch dimension of the tensors, and the offsets of a stop word list
  ascend, as \<open>convert_wordlist\<close> produces them. Placement on the device and pinning of memory are not modelled.
\<close>

section \<open>Requests of the sampler\<close>

datatype FinishReason = NOT_FINISHED | END_ID | STOP_WORDS | LENGTH | TIMED_OUT | CANCELLED

record sampled_request = llm_request +
  beam_tokens :: "int list list"
  beam_width :: nat
  py_end_id :: "int option"
  py_stop_words_list :: "(int list \<times> int list) option"
  beam_reasons :: "(nat, FinishReason) dict"

definition stop_words_list :: "int list list \<Rightarrow> (int list \<times> int list) option" where
  \<comment> \<open>\<open>convert_wordlist(stop_words) if stop_words else None\<close>\<close>
  "stop_words_list ws = (if ws = [] then None else Some (convert_wordlist ws ! 0, convert_wordlist ws ! 1))"

definition get_tokens :: "sampled_request \<Rightarrow> nat \<Rightarrow> int list result" where
  "get_tokens r b = py_index (beam_tokens r) (int b)"

definition finish_by :: "FinishReason \<Rightarrow> nat \<Rightarrow> sampled_request \<Rightarrow> sampled_request" where
  "finish_by reason b r = r\<lparr>state := GENERATION_COMPLETE, beam_reasons := AList.update b reason (beam_reasons r)\<rparr>"

section \<open>Stop criteria after a token\<close>

definition diffs :: "int list \<Rightarrow> int list" where
  \<comment> \<open>\<open>np.diff(xs, prepend=0)\<close>\<close>
  "diffs xs = map2 (-) xs (0 # xs)"

definition max_stop_word_length :: "int list \<Rightarrow> int" where
  "max_stop_word_length prefix_sum = (case diffs prefix_sum of [] \<Rightarrow> 0 | d # ds \<Rightarrow> fold (\<lambda>l m. max m l) ds d)"

definition py_tail :: "nat \<Rightarrow> 'a list \<Rightarrow> 'a list" where
  \<comment> \<open>\<open>xs[-n:]\<close>\<close>
  "py_tail n xs = (if n = 0 then xs else drop (length xs - n) xs)"

fun stop_word_loop :: "int list \<Rightarrow> int list \<Rightarrow> int \<Rightarrow> int list \<Rightarrow> bool" where
  "stop_word_loop swl tokens offset [] = False"
| "stop_word_loop swl tokens offset (e # es) =
     (let stop_word = py_slice swl offset e in
      if length stop_word > length tokens then stop_word_loop swl tokens e es
      else if py_tail (length stop_word) tokens = stop_word then True
      else stop_word_loop swl tokens e es)"

definition meet_stop_token_criteria :: "sampled_request \<Rightarrow> int \<Rightarrow> nat \<Rightarrow> bool result" where
  "meet_stop_token_criteria r new_token b =
     (case py_stop_words_list r of
        None \<Rightarrow> Inr False
      | Some (swl, prefix_sum) \<Rightarrow>
          if max_stop_word_length prefix_sum = 1 then Inr (new_token \<in> set swl)
          else res_bind (get_tokens r b) (\<lambda>tokens. Inr (stop_word_loop swl tokens 0 prefix_sum)))"

definition meet_max_token_stop_criteria :: "sampled_request \<Rightarrow> int \<Rightarrow> nat \<Rightarrow> bool result" where
  "meet_max_token_stop_criteria r max_seq_len b =
     res_bind (get_tokens r b) (\<lambda>tokens. let num_tokens = int (length tokens) in
       Inr (num_tokens - orig_prompt_len r \<ge> max_new_tokens r \<or> num_tokens \<ge> max_seq_len))"

definition handle_stop_criteria :: "int \<Rightarrow> int \<Rightarrow> nat \<Rightarrow> sampled_request \<Rightarrow> (bool \<times> sampled_request) result" where
  "handle_stop_criteria max_seq_len new_token b r =
     (if Some new_token = py_end_id r then Inr (True, finish_by END_ID b r)
      else res_bind (meet_max_token_stop_criteria r max_seq_len b) (\<lambda>m.
        if m then Inr (True, finish_by LENGTH b r)
        else res_bind (meet_stop_token_criteria r new_token b) (\<lambda>s.
          Inr (if s then (True, finish_by STOP_WORDS b r) else (False, r)))))"

section \<open>Reasons of a whole batch\<close>

type_synonym 'a tensor3 = "'a list list list"

definition tensor3 :: "nat \<Rightarrow> nat \<Rightarrow> nat \<Rightarrow> (nat \<Rightarrow> nat \<Rightarrow> nat \<Rightarrow> 'a) \<Rightarrow> 'a tensor3" where
  "tensor3 n m k f = map (\<lambda>s. map (\<lambda>i. map (f s i) [0..<k]) [0..<m]) [0..<n]"

abbreviation at3 :: "'a tensor3 \<Rightarrow> nat \<Rightarrow> nat \<Rightarrow> nat \<Rightarrow> 'a" where
  "at3 t s i b \<equiv> t ! s ! i ! b"

record sampler =
  max_tokens :: nat
  max_beam_width :: nat
  max_seq_len :: int

definition strip_pad :: "int list \<Rightarrow> int list" where
  \<comment> \<open>up to the first -1\<close>
  "strip_pad ends = takeWhile (\<lambda>e. e \<noteq> - 1) ends"

definition stop_ends :: "sampled_request \<Rightarrow> int list" where
  "stop_ends r = (case py_stop_words_list r of None \<Rightarrow> [] | Some (_, cumsum) \<Rightarrow> strip_pad cumsum)"

definition longest_stop_word_len :: "sampled_request list \<Rightarrow> int" where
  "longest_stop_word_len rs = fold (\<lambda>r m. max m (fold max (diffs (stop_ends r)) 0)) rs 0"

definition has_stop_words :: "sampled_request \<Rightarrow> bool" where
  "has_stop_words r \<longleftrightarrow> (case py_stop_words_list r of None \<Rightarrow> False | Some (swl, _) \<Rightarrow> swl \<noteq> [])"

definition requests_with_stop_words :: "sampled_request list \<Rightarrow> sampled_request list" where
  "requests_with_stop_words rs = filter has_stop_words rs"

definition request_indices_with_stop_words :: "sampled_request list \<Rightarrow> nat list" where
  "request_indices_with_stop_words rs = filter (\<lambda>i. has_stop_words (rs ! i)) [0..<length rs]"

definition are_end_id :: "sampler \<Rightarrow> sampled_request list \<Rightarrow> int tensor3 \<Rightarrow> bool tensor3" where
  "are_end_id S rs tokens = tensor3 (max_tokens S) (length rs) (max_beam_width S)
     (\<lambda>s i b. at3 tokens s i b = (case py_end_id (rs ! i) of None \<Rightarrow> - 1 | Some e \<Rightarrow> e))"

definition are_max_length :: "sampler \<Rightarrow> sampled_request list \<Rightarrow> bool tensor3 result" where
  "are_max_length S rs =
     res_bind (res_map (\<lambda>r. res_map (get_tokens r) [0..<max_beam_width S]) rs) (\<lambda>toks.
       Inr (tensor3 (max_tokens S) (length rs) (max_beam_width S)
         (\<lambda>s i b. int (length (toks ! i ! b)) + (int s + 1) \<ge> min (max_new_tokens (rs ! i) + orig_prompt_len (rs ! i)) (max_seq_len S))))"

definition old_tokens :: "nat \<Rightarrow> nat \<Rightarrow> nat list option \<Rightarrow> sampled_request \<Rightarrow> int list list result" where
  \<comment> \<open>the last tokens of every beam, padded; \<open>preds\<close> are the predecessor beams of the request\<close>
  "old_tokens lookback beams preds r =
     res_bind (res_map (\<lambda>b. if lookback > 0 then res_bind (get_tokens r (min b (beam_width r - 1))) (\<lambda>ts. Inr (py_tail lookback ts)) else Inr []) [0..<beams]) (\<lambda>old.
       res_map (\<lambda>b. res_bind (case preds of None \<Rightarrow> Inr b | Some ps \<Rightarrow> py_index ps (int b)) (\<lambda>p.
         res_bind (py_index old (int p)) (\<lambda>ts. Inr (replicate (lookback - length ts) (- 1) @ ts)))) [0..<beams])"

definition padded_old_tokens :: "sampler \<Rightarrow> sampled_request list \<Rightarrow> int tensor3 \<Rightarrow> nat list list option \<Rightarrow> int tensor3 result" where
  \<comment> \<open>per request and beam: the old tokens and the new ones\<close>
  "padded_old_tokens S rs new_toks preds =
     (let longest = longest_stop_word_len rs in
      res_bind (py_assert (longest > 0)) (\<lambda>_.
      res_bind (res_map (\<lambda>i. old_tokens (nat (longest - 1)) (max_beam_width S) (map_option (\<lambda>ps. ps ! i) preds) (rs ! i)) [0..<length rs]) (\<lambda>old.
        Inr (map (\<lambda>i. map (\<lambda>b. old ! i ! b @ map (\<lambda>s. at3 new_toks s i b) [0..<max_tokens S]) [0..<max_beam_width S]) [0..<length rs]))))"

definition fit_word :: "nat \<Rightarrow> int list \<Rightarrow> int list result" where
  \<comment> \<open>assignment of a row to a slice of \<open>n\<close> elements: a single element is repeated\<close>
  "fit_word n w = (if length w = n then Inr w else if length w = 1 then Inr (replicate n (hd w)) else Inl RuntimeError)"

definition stop_words :: "sampled_request \<Rightarrow> int list list result" where
  \<comment> \<open>the words of a request, from the two rows of its list\<close>
  "stop_words r = (case py_stop_words_list r of
      None \<Rightarrow> Inl TypeError
    | Some (swl, _) \<Rightarrow>
        let ends = stop_ends r in
        if ends = [] then Inl ValueError
        else res_map (\<lambda>(start, len). fit_word (nat len) (py_slice swl start (start + len))) (zip (0 # ends) (diffs ends)))"

definition word_matches :: "sampler \<Rightarrow> int list \<Rightarrow> nat \<Rightarrow> int list \<Rightarrow> bool" where
  \<comment> \<open>does the word end at this step?\<close>
  "word_matches S toks step w =
     (let size_per_step = int (length toks) - (int (max_tokens S) - 1) + int step in
      py_slice toks (size_per_step - int (length w)) size_per_step = w)"

definition are_stop_words :: "sampler \<Rightarrow> sampled_request list \<Rightarrow> int tensor3 \<Rightarrow> nat list list option \<Rightarrow> bool tensor3 result" where
  "are_stop_words S rs tokens preds =
     res_bind (padded_old_tokens S rs tokens preds) (\<lambda>padded.
     res_bind (res_map (\<lambda>r. res_bind (stop_words r) (\<lambda>ws.
       if get_draft_token_length r < max_tokens S \<or> max_beam_width S = 0 then Inr ws else Inl IndexError)) rs) (\<lambda>words.
       Inr (tensor3 (max_tokens S) (length rs) (max_beam_width S)
         (\<lambda>s i b. s \<le> get_draft_token_length (rs ! i) \<and> list_ex (word_matches S (padded ! i ! b) s) (words ! i)))))"

definition where3 :: "bool tensor3 \<Rightarrow> 'a \<Rightarrow> 'a tensor3 \<Rightarrow> 'a tensor3" where
  \<comment> \<open>\<open>torch.where\<close> with one value\<close>
  "where3 c v t = map2 (map2 (map2 (\<lambda>x y. if x then v else y))) c t"

definition gather :: "nat list \<Rightarrow> 'a tensor3 \<Rightarrow> 'a tensor3" where
  \<comment> \<open>\<open>t[:, slots]\<close>\<close>
  "gather slots t = map (\<lambda>row. map ((!) row) slots) t"

definition scatter_row :: "nat list \<Rightarrow> 'a list \<Rightarrow> 'a list \<Rightarrow> 'a list" where
  "scatter_row slots vals row = fold (\<lambda>(i, v) row. row[i := v]) (zip slots vals) row"

definition scatter :: "nat list \<Rightarrow> 'a tensor3 \<Rightarrow> 'a tensor3 \<Rightarrow> 'a tensor3" where
  \<comment> \<open>\<open>t[:, slots] = vals\<close>\<close>
  "scatter slots vals t = map2 (scatter_row slots) vals t"

definition seq_slot_of :: "sampled_request \<Rightarrow> nat result" where
  "seq_slot_of r = (case py_seq_slot r of None \<Rightarrow> Inl TypeError | Some s \<Rightarrow> Inr s)"

definition mark_stop_words :: "sampler \<Rightarrow> sampled_request list \<Rightarrow> int tensor3 \<Rightarrow> nat list list option \<Rightarrow> FinishReason tensor3 \<Rightarrow> FinishReason tensor3 result" where
  "mark_stop_words S rs new_toks preds batched =
     (let with = requests_with_stop_words rs; idx = request_indices_with_stop_words rs in
      if with = [] then Inr batched
      else res_bind (res_map seq_slot_of with) (\<lambda>stop_slots.
        res_bind (are_stop_words S with (gather stop_slots new_toks) (map_option (\<lambda>ps. map ((!) ps) stop_slots) preds)) (\<lambda>stops.
          Inr (scatter idx (where3 stops STOP_WORDS (gather idx batched)) batched))))"

definition first_reasons :: "sampler \<Rightarrow> nat list \<Rightarrow> FinishReason tensor3 \<Rightarrow> FinishReason list list \<Rightarrow> FinishReason list list result" where
  \<comment> \<open>the reasons of several steps do not fit into the rows of the slots\<close>
  "first_reasons S slots batched first =
     (if max_tokens S \<noteq> 1 then Inl RuntimeError
      else Inr (scatter_row slots (map2 (map2 (\<lambda>f x. if f = NOT_FINISHED then x else f)) (map ((!) first) slots) (batched ! 0)) first))"

definition write_finish_reasons :: "sampler \<Rightarrow> sampled_request list \<Rightarrow> nat list \<Rightarrow> int tensor3 \<Rightarrow> FinishReason list list option \<Rightarrow> nat list list option
    \<Rightarrow> FinishReason tensor3 \<Rightarrow> (FinishReason tensor3 \<times> FinishReason list list option) result" where
  \<comment> \<open>the written tensor of reasons, and that of first reasons\<close>
  "write_finish_reasons S rs slots new_toks first preds fin =
     (let tokens = gather slots new_toks;
          fin1 = map (scatter_row slots (replicate (length slots) (replicate (max_beam_width S) NOT_FINISHED))) fin in
      res_bind (mark_stop_words S rs new_toks preds (gather slots fin1)) (\<lambda>b1.
      res_bind (are_max_length S rs) (\<lambda>long.
        let b2 = where3 (are_end_id S rs tokens) END_ID (where3 long LENGTH b1); fin2 = scatter slots b2 fin1 in
        case first of
          None \<Rightarrow> Inr (fin2, None)
        | Some f \<Rightarrow> res_bind (first_reasons S slots b2 f) (\<lambda>f1. Inr (fin2, Some f1)))))"

section \<open>What both ways compute\<close>

definition words_ok :: "int list list \<Rightarrow> bool" where
  "words_ok ws \<longleftrightarrow> list_all (\<lambda>w. w \<noteq> [] \<and> list_all (\<lambda>t. 0 \<le> t) w) ws"

definition stop_reason :: "int \<Rightarrow> int list list \<Rightarrow> sampled_request \<Rightarrow> int list \<Rightarrow> FinishReason" where
  \<comment> \<open>why a request with these tokens stops\<close>
  "stop_reason msl ws r ts =
     (if Some (last ts) = py_end_id r then END_ID
      else if int (length ts) \<ge> min (max_new_tokens r + orig_prompt_len r) msl then LENGTH
      else if list_ex (\<lambda>w. suffix w ts) ws then STOP_WORDS
      else NOT_FINISHED)"

lemma suffix_conv_drop: "suffix w ts \<longleftrightarrow> length w \<le> length ts \<and> drop (length ts - length w) ts = w"
proof
  assume "suffix w ts"
  then show "length w \<le> length ts \<and> drop (length ts - length w) ts = w" by (auto elim: suffixE)
next
  assume "length w \<le> length ts \<and> drop (length ts - length w) ts = w"
  then show "suffix w ts" by (metis suffix_drop)
qed

lemma stop_words_list_eq:
  assumes "ws \<noteq> []"
  shows "stop_words_list ws = Some (concat ws, end_offsets 0 ws @ replicate (length (concat ws) - length ws) (- 1))"
  using assms by (simp add: stop_words_list_def convert_wordlist_def wordlist_loop_eq)

lemma strip_pad_ends: "strip_pad (end_offsets 0 ws @ replicate k (- 1)) = end_offsets 0 ws"
proof -
  have "x \<noteq> - 1" if "x \<in> set (end_offsets 0 ws)" for x using end_offsets_ge[OF that] by simp
  then have "strip_pad (end_offsets 0 ws @ replicate k (- 1)) = end_offsets 0 ws @ takeWhile (\<lambda>x. x \<noteq> - 1) (replicate k (- 1))"
    unfolding strip_pad_def by (intro takeWhile_append2) auto
  then show ?thesis by (cases k) auto
qed

lemma stop_ends_eq: "py_stop_words_list r = stop_words_list ws \<Longrightarrow> stop_ends r = end_offsets 0 ws"
  by (cases "ws = []") (auto simp: stop_ends_def stop_words_list_eq strip_pad_ends, simp add: stop_words_list_def)

text \<open>Word lengths.\<close>

definition diffs_from :: "int \<Rightarrow> int list \<Rightarrow> int list" where
  "diffs_from p xs = map2 (-) xs (p # xs)"

lemma diffs_from_simps [simp]: "diffs_from p [] = []" "diffs_from p (x # xs) = (x - p) # diffs_from x xs"
  by (simp_all add: diffs_from_def)

lemma diffs_conv: "diffs xs = diffs_from 0 xs"
  by (simp add: diffs_def diffs_from_def)

lemma diffs_end_offsets: "diffs_from p (end_offsets p ws @ ys) = map (\<lambda>w. int (length w)) ws @ diffs_from (p + int (length (concat ws))) ys"
  by (induction ws arbitrary: p) (auto simp: add.assoc)

lemma diffs_pad: "p \<ge> - 1 \<Longrightarrow> d \<in> set (diffs_from p (replicate k (- 1))) \<Longrightarrow> d \<le> 0"
  by (induction k arbitrary: p) auto

lemma max_stop_word_length_one:
  assumes "words_ok ws" "ws \<noteq> []"
  shows "max_stop_word_length (end_offsets 0 ws @ replicate k (- 1)) = 1 \<longleftrightarrow> list_all (\<lambda>w. length w = 1) ws"
proof -
  let ?xs = "map (\<lambda>w. int (length w)) ws @ diffs_from (int (length (concat ws))) (replicate k (- 1))"
  obtain w ws' where ws: "ws = w # ws'" using assms(2) by (cases ws) auto
  have "(\<lambda>(l::int) m. max m l) = max" by (intro ext) (simp add: max.commute)
  then have "max_stop_word_length (end_offsets 0 ws @ replicate k (- 1)) = fold max (tl ?xs) (hd ?xs)"
    unfolding max_stop_word_length_def diffs_conv diffs_end_offsets by (simp add: ws)
  also have "\<dots> = Max (set ?xs)" using Max.set_eq_fold[of "hd ?xs" "tl ?xs"] by (simp add: ws)
  finally have m: "max_stop_word_length (end_offsets 0 ws @ replicate k (- 1)) = Max (set ?xs)" .
  have pad: "d \<le> 0" if "d \<in> set (diffs_from (int (length (concat ws))) (replicate k (- 1)))" for d using diffs_pad[OF _ that] by simp
  have pos: "1 \<le> length v" if "v \<in> set ws" for v using assms(1) that by (auto simp: words_ok_def list_all_iff Suc_le_eq)
  have ne: "set ?xs \<noteq> {}" "finite (set ?xs)" by (simp_all add: ws)
  show ?thesis
  proof
    assume "max_stop_word_length (end_offsets 0 ws @ replicate k (- 1)) = 1"
    then have le: "d \<le> 1" if "d \<in> set ?xs" for d using Max_ge[OF ne(2) that] m by simp
    show "list_all (\<lambda>w. length w = 1) ws" unfolding list_all_iff
    proof
      fix v assume "v \<in> set ws"
      then show "length v = 1" using le[of "int (length v)"] pos[of v] by force
    qed
  next
    assume all: "list_all (\<lambda>w. length w = 1) ws"
    have "d \<le> 1" if "d \<in> set ?xs" for d using that pad[of d] all by (auto simp: list_all_iff)
    moreover have "1 \<in> set ?xs" using all by (simp add: ws)
    ultimately show "max_stop_word_length (end_offsets 0 ws @ replicate k (- 1)) = 1" unfolding m using ne by (intro Max_eqI) auto
  qed
qed

text \<open>The loop over the words.\<close>

lemma stop_word_loop_pad:
  assumes "ts \<noteq> []" "offset = int (length swl) \<or> offset = - 1"
  shows "\<not> stop_word_loop swl ts offset (replicate k (- 1))"
  using assms(2)
proof (induction k arbitrary: offset)
  case (Suc k)
  have "py_slice swl offset (- 1) = []" using Suc.prems by (auto simp: py_slice_def slice_bound_def)
  then show ?case using Suc.IH[of "- 1"] assms(1) by (simp add: py_tail_def)
qed simp

lemma stop_word_loop_words:
  assumes "list_all (\<lambda>w. w \<noteq> []) ws" "ts \<noteq> []" "offset = int (length pre)"
  shows "stop_word_loop (pre @ concat ws) ts offset (end_offsets offset ws @ replicate k (- 1)) \<longleftrightarrow> list_ex (\<lambda>w. suffix w ts) ws"
  using assms(1,3)
proof (induction ws arbitrary: pre offset)
  case Nil
  then show ?case using stop_word_loop_pad[OF assms(2), of offset pre k] by simp
next
  case (Cons w ws)
  have sl: "py_slice (pre @ concat (w # ws)) offset (offset + int (length w)) = w" unfolding Cons.prems(2) py_slice_nonneg by simp
  have IH: "stop_word_loop (pre @ concat (w # ws)) ts (offset + int (length w)) (end_offsets (offset + int (length w)) ws @ replicate k (- 1)) \<longleftrightarrow> list_ex (\<lambda>w. suffix w ts) ws"
    using Cons.IH[of "offset + int (length w)" "pre @ w"] Cons.prems by simp
  have "py_tail (length w) ts = drop (length ts - length w) ts" using Cons.prems(1) by (simp add: py_tail_def)
  then show ?case using IH sl by (auto simp: Let_def suffix_conv_drop)
qed

lemma meet_stop_token_criteria_words:
  assumes "py_stop_words_list r = stop_words_list ws" "words_ok ws" "b < length (beam_tokens r)" "beam_tokens r ! b \<noteq> []" "last (beam_tokens r ! b) = t"
  shows "meet_stop_token_criteria r t b = Inr (list_ex (\<lambda>w. suffix w (beam_tokens r ! b)) ws)"
proof (cases "ws = []")
  case True
  then show ?thesis using assms(1) by (simp add: meet_stop_token_criteria_def stop_words_list_def)
next
  case False
  let ?ts = "beam_tokens r ! b" and ?ps = "end_offsets 0 ws @ replicate (length (concat ws) - length ws) (- 1)"
  have l: "py_stop_words_list r = Some (concat ws, ?ps)" using assms(1) stop_words_list_eq[OF False] by simp
  have ne: "list_all (\<lambda>w. w \<noteq> []) ws" using assms(2) by (auto simp: words_ok_def list_all_iff)
  show ?thesis
  proof (cases "max_stop_word_length ?ps = 1")
    case True
    then have one: "list_all (\<lambda>w. length w = 1) ws" using max_stop_word_length_one[OF assms(2) False] by simp
    have "suffix w ?ts \<longleftrightarrow> t \<in> set w" if "w \<in> set ws" for w
    proof -
      have "length w = 1" using one that by (simp add: list_all_iff)
      then obtain x where w: "w = [x]" by (auto simp: length_Suc_conv)
      obtain us where "?ts = us @ [t]" using assms(4,5) by (metis append_butlast_last_id)
      then show ?thesis by (auto simp: w suffix_def)
    qed
    then have "(t \<in> set (concat ws)) = list_ex (\<lambda>w. suffix w ?ts) ws" by (auto simp: list_ex_iff)
    then show ?thesis using l True by (simp add: meet_stop_token_criteria_def)
  next
    case False
    have "stop_word_loop (concat ws) ?ts 0 ?ps = list_ex (\<lambda>w. suffix w ?ts) ws"
      using stop_word_loop_words[OF ne assms(4), of 0 "[]"] by simp
    then show ?thesis using l False assms(3) by (simp add: meet_stop_token_criteria_def get_tokens_def)
  qed
qed

lemma handle_stop_criteria_reason:
  assumes "py_stop_words_list r = stop_words_list ws" "words_ok ws" "b < length (beam_tokens r)" "beam_tokens r ! b \<noteq> []" "last (beam_tokens r ! b) = t"
    and reason: "reason = stop_reason msl ws r (beam_tokens r ! b)"
  shows "handle_stop_criteria msl t b r = Inr (if reason = NOT_FINISHED then (False, r) else (True, finish_by reason b r))"
proof -
  have "meet_max_token_stop_criteria r msl b = Inr (int (length (beam_tokens r ! b)) \<ge> min (max_new_tokens r + orig_prompt_len r) msl)"
    using assms(3) by (auto simp: meet_max_token_stop_criteria_def get_tokens_def Let_def min_def)
  then show ?thesis using meet_stop_token_criteria_words[OF assms(1-5)] assms(5)
    by (auto simp: handle_stop_criteria_def reason stop_reason_def)
qed

section \<open>The tensors\<close>

definition shaped :: "nat \<Rightarrow> nat \<Rightarrow> nat \<Rightarrow> 'a tensor3 \<Rightarrow> bool" where
  "shaped n m k t \<longleftrightarrow> length t = n \<and> (\<forall>s < n. length (t ! s) = m \<and> (\<forall>i < m. length (t ! s ! i) = k))"

lemma shaped_tensor3: "shaped n m k (tensor3 n m k f)"
  by (simp add: shaped_def tensor3_def)

lemma at_tensor3 [simp]: "s < n \<Longrightarrow> i < m \<Longrightarrow> b < k \<Longrightarrow> at3 (tensor3 n m k f) s i b = f s i b"
  by (simp add: tensor3_def)

lemma where3_shaped: "shaped n m k c \<Longrightarrow> shaped n m k t \<Longrightarrow> shaped n m k (where3 c v t)"
  by (simp add: shaped_def where3_def)

lemma at_where3:
  "shaped n m k c \<Longrightarrow> shaped n m k t \<Longrightarrow> s < n \<Longrightarrow> i < m \<Longrightarrow> b < k \<Longrightarrow> at3 (where3 c v t) s i b = (if at3 c s i b then v else at3 t s i b)"
  by (simp add: shaped_def where3_def)

lemma gather_shaped: "shaped n m k t \<Longrightarrow> list_all (\<lambda>x. x < m) slots \<Longrightarrow> shaped n (length slots) k (gather slots t)"
  by (auto simp: shaped_def gather_def list_all_length)

lemma at_gather: "shaped n m k t \<Longrightarrow> s < n \<Longrightarrow> i < length slots \<Longrightarrow> at3 (gather slots t) s i b = at3 t s (slots ! i) b"
  by (simp add: shaped_def gather_def)

lemma scatter_row_spec:
  assumes "distinct slots" "length vals = length slots" "list_all (\<lambda>x. x < length row) slots"
  shows "length (scatter_row slots vals row) = length row" "i < length slots \<Longrightarrow> scatter_row slots vals row ! (slots ! i) = vals ! i"
    "j \<notin> set slots \<Longrightarrow> scatter_row slots vals row ! j = row ! j"
proof -
  have "length (scatter_row slots vals row) = length row \<and> (\<forall>i < length slots. scatter_row slots vals row ! (slots ! i) = vals ! i)
    \<and> (\<forall>j. j \<notin> set slots \<longrightarrow> scatter_row slots vals row ! j = row ! j)"
    using assms unfolding scatter_row_def
  proof (induction slots arbitrary: vals row)
    case (Cons x slots)
    obtain v vs where v: "vals = v # vs" using Cons.prems(2) by (cases vals) auto
    have IH: "length (fold (\<lambda>(i, v) row. row[i := v]) (zip slots vs) (row[x := v])) = length row"
      "\<forall>i < length slots. fold (\<lambda>(i, v) row. row[i := v]) (zip slots vs) (row[x := v]) ! (slots ! i) = vs ! i"
      "\<forall>j. j \<notin> set slots \<longrightarrow> fold (\<lambda>(i, v) row. row[i := v]) (zip slots vs) (row[x := v]) ! j = row[x := v] ! j"
      using Cons.IH[of vs "row[x := v]"] Cons.prems v by auto
    have "fold (\<lambda>(i, v) row. row[i := v]) (zip (x # slots) vals) row ! ((x # slots) ! i) = vals ! i" if "i < length (x # slots)" for i
      using IH(2,3) Cons.prems that v by (cases i) auto
    then show ?case using IH v by (auto simp: nth_list_update)
  qed simp
  then show "length (scatter_row slots vals row) = length row" "i < length slots \<Longrightarrow> scatter_row slots vals row ! (slots ! i) = vals ! i"
    "j \<notin> set slots \<Longrightarrow> scatter_row slots vals row ! j = row ! j" by auto
qed

lemma scatter_spec:
  assumes "distinct slots" "shaped n (length slots) k vals" "shaped n m k t" "list_all (\<lambda>x. x < m) slots" "s < n"
  shows "i < length slots \<Longrightarrow> scatter slots vals t ! s ! (slots ! i) = vals ! s ! i" "j \<notin> set slots \<Longrightarrow> scatter slots vals t ! s ! j = t ! s ! j"
  using scatter_row_spec(2,3)[of slots "vals ! s" "t ! s"] assms by (auto simp: shaped_def scatter_def)

lemma scatter_shaped:
  assumes "distinct slots" "shaped n (length slots) k vals" "shaped n m k t" "list_all (\<lambda>x. x < m) slots"
  shows "shaped n m k (scatter slots vals t)"
proof -
  have "length (scatter slots vals t ! s ! j) = k" if s: "s < n" and j: "j < m" for s j
  proof (cases "j \<in> set slots")
    case True
    then obtain i where "i < length slots" "j = slots ! i" by (auto simp: in_set_conv_nth)
    then show ?thesis using scatter_spec(1)[OF assms s] assms(2) s by (simp add: shaped_def)
  next
    case False
    then show ?thesis using scatter_spec(2)[OF assms s] assms(3) s j by (simp add: shaped_def)
  qed
  moreover have "length (scatter slots vals t ! s) = m" if "s < n" for s
    using assms that scatter_row_spec(1)[of slots "vals ! s" "t ! s"] by (simp add: shaped_def scatter_def)
  ultimately show ?thesis using assms(2,3) by (simp add: shaped_def scatter_def)
qed

section \<open>The stop words of a batch\<close>

lemma slices_words:
  "p = int (length pre) \<Longrightarrow> res_map (\<lambda>(start, len). fit_word (nat len) (py_slice (pre @ concat ws) start (start + len)))
     (zip (p # end_offsets p ws) (map (\<lambda>w. int (length w)) ws)) = Inr ws"
proof (induction ws arbitrary: p pre)
  case (Cons w ws)
  have "py_slice (pre @ concat (w # ws)) p (p + int (length w)) = w" unfolding Cons.prems py_slice_nonneg by simp
  then show ?case using Cons.IH[of "p + int (length w)" "pre @ w"] Cons.prems by (simp add: fit_word_def)
qed simp

lemma stop_words_words:
  assumes "py_stop_words_list r = stop_words_list ws" "ws \<noteq> []"
  shows "stop_words r = Inr ws"
proof -
  have e: "stop_ends r = end_offsets 0 ws" using stop_ends_eq[OF assms(1)] .
  have "diffs (end_offsets 0 ws) = map (\<lambda>w. int (length w)) ws" using diffs_end_offsets[of 0 ws "[]"] by (simp add: diffs_conv)
  moreover have "end_offsets 0 ws \<noteq> []" using assms(2) by (cases ws) auto
  ultimately show ?thesis using slices_words[of 0 "[]" ws] assms e by (simp add: stop_words_def stop_words_list_eq Let_def)
qed

lemma has_stop_words_iff: "py_stop_words_list r = stop_words_list ws \<Longrightarrow> words_ok ws \<Longrightarrow> has_stop_words r \<longleftrightarrow> ws \<noteq> []"
  by (cases ws) (auto simp: has_stop_words_def stop_words_list_eq words_ok_def, simp add: stop_words_list_def)

lemma fold_max_ge: "(m::int) \<le> fold (\<lambda>x a. max a (f x)) xs m" "x \<in> set xs \<Longrightarrow> f x \<le> fold (\<lambda>x a. max a (f x)) xs m"
proof -
  have mono: "m \<le> fold (\<lambda>x a. max a (f x)) xs m" for m :: int and xs
  proof (induction xs arbitrary: m)
    case (Cons x xs)
    show ?case using Cons[of "max m (f x)"] by simp
  qed simp
  show "m \<le> fold (\<lambda>x a. max a (f x)) xs m" by (rule mono)
  show "x \<in> set xs \<Longrightarrow> f x \<le> fold (\<lambda>x a. max a (f x)) xs m"
  proof (induction xs arbitrary: m)
    case (Cons y xs)
    then show ?case using mono[of "max m (f y)" xs] by auto
  qed simp
qed

lemma longest_covers:
  assumes "r \<in> set rs" "py_stop_words_list r = stop_words_list ws" "w \<in> set ws"
  shows "int (length w) \<le> longest_stop_word_len rs"
proof -
  have "(\<lambda>(l::int) m. max m l) = max" by (intro ext) (simp add: max.commute)
  then have "int (length w) \<le> fold max (map (\<lambda>w. int (length w)) ws) 0"
    using fold_max_ge(2)[of "int (length w)" "map (\<lambda>w. int (length w)) ws" "\<lambda>x. x" 0] assms(3) by simp
  also have "\<dots> = fold max (diffs (stop_ends r)) 0" using diffs_end_offsets[of 0 ws "[]"] by (simp add: diffs_conv stop_ends_eq[OF assms(2)])
  also have "\<dots> \<le> longest_stop_word_len rs" unfolding longest_stop_word_len_def by (rule fold_max_ge(2)[OF assms(1)])
  finally show ?thesis .
qed

definition padded :: "nat \<Rightarrow> int list \<Rightarrow> int list" where
  "padded n ts = replicate (n - length ts) (- 1) @ drop (length ts - n) ts"

lemma length_padded [simp]: "length (padded n ts) = n"
  by (simp add: padded_def)

definition parent :: "nat list option \<Rightarrow> nat \<Rightarrow> nat" where
  \<comment> \<open>the beam whose tokens a beam continues\<close>
  "parent ps b = (case ps of None \<Rightarrow> b | Some p \<Rightarrow> p ! b)"

definition parents_ok :: "nat \<Rightarrow> nat list option \<Rightarrow> bool" where
  "parents_ok beams ps \<longleftrightarrow> (case ps of None \<Rightarrow> True | Some p \<Rightarrow> length p = beams \<and> list_all (\<lambda>b. b < beams) p)"

lemma parent_less: "parents_ok beams ps \<Longrightarrow> b < beams \<Longrightarrow> parent ps b < beams"
  by (auto simp: parents_ok_def parent_def list_all_length split: option.splits)

lemma old_tokens_eq:
  assumes "length (beam_tokens r) = beams" "beam_width r = beams" "parents_ok beams ps"
  shows "old_tokens n beams ps r = Inr (map (\<lambda>b. padded n (beam_tokens r ! parent ps b)) [0..<beams])"
proof -
  let ?o = "\<lambda>b. drop (length (beam_tokens r ! b) - n) (beam_tokens r ! b)"
  have old: "res_map (\<lambda>b. if n > 0 then res_bind (get_tokens r (min b (beam_width r - 1))) (\<lambda>ts. Inr (py_tail n ts)) else Inr []) [0..<beams]
      = Inr (map ?o [0..<beams])"
    using assms by (intro res_map_total) (auto simp: get_tokens_def py_tail_def min_def)
  have "replicate (n - length (?o b)) (- 1) @ ?o b = padded n (beam_tokens r ! b)" for b by (simp add: padded_def)
  then have "res_map (\<lambda>b. res_bind (case ps of None \<Rightarrow> Inr b | Some p \<Rightarrow> py_index p (int b)) (\<lambda>p. res_bind (py_index (map ?o [0..<beams]) (int p)) (\<lambda>ts. Inr (replicate (n - length ts) (- 1) @ ts)))) [0..<beams]
      = Inr (map (\<lambda>b. padded n (beam_tokens r ! parent ps b)) [0..<beams])"
    using assms(3) by (intro res_map_total) (auto simp: parents_ok_def parent_def list_all_length split: option.splits)
  then show ?thesis unfolding old_tokens_def old by simp
qed

lemma suffix_longer: "length w \<le> length x \<Longrightarrow> suffix w (y @ x) \<longleftrightarrow> suffix w x"
  unfolding suffix_conv_drop by auto

lemma suffix_over_padding:
  assumes "list_all (\<lambda>t. (0::int) \<le> t) w"
  shows "suffix w (replicate k (- 1) @ x) \<longleftrightarrow> suffix w x"
proof (cases "length w \<le> length x")
  case True
  then show ?thesis by (rule suffix_longer)
next
  case False
  have "\<not> suffix w (replicate k (- 1) @ x)"
  proof
    assume "suffix w (replicate k (- 1) @ x)"
    then obtain us where us: "us @ w = replicate k (- 1) @ x" by (auto simp: suffix_def)
    define d where "d = length w - length x"
    have "length us + length w = k + length x" using arg_cong[OF us, of length] by simp
    then have d: "0 < d" "length us < k" using False by (auto simp: d_def)
    have "w ! 0 = (us @ w) ! length us" using d(1) False by (simp add: nth_append)
    also have "\<dots> = - 1" unfolding us using d(2) by (simp add: nth_append)
    finally have "w ! 0 = - 1" .
    moreover have "w ! 0 \<in> set w" using False by (intro nth_mem) auto
    ultimately show False using assms by (force simp: list_all_iff)
  qed
  moreover have "\<not> suffix w x" using False suffix_length_le by blast
  ultimately show ?thesis by simp
qed

lemma word_matches_suffix:
  assumes "length new = max_tokens S" "s < max_tokens S" "list_all (\<lambda>t. 0 \<le> t) w" "w \<noteq> []" "length w \<le> n + 1"
  shows "word_matches S (padded n ts @ new) s w \<longleftrightarrow> suffix w (ts @ take (Suc s) new)"
proof -
  let ?x = "take (Suc s) new"
  have lx: "length ?x = Suc s" using assms(1,2) by simp
  have sz: "int (length (padded n ts @ new)) - (int (max_tokens S) - 1) + int s = int (n + Suc s)" using assms(1) by simp
  have st: "int (n + Suc s) - int (length w) = int (n + Suc s - length w)" using assms(5) by simp
  have "word_matches S (padded n ts @ new) s w \<longleftrightarrow> take (length w) (drop (n + Suc s - length w) (padded n ts @ new)) = w"
    unfolding word_matches_def Let_def sz st py_slice_from_to using assms(5) by (simp add: Suc_diff_le)
  also have "take (length w) (drop (n + Suc s - length w) (padded n ts @ new)) = drop (length (padded n ts @ ?x) - length w) (padded n ts @ ?x)"
  proof -
    have "padded n ts @ ?x = take (n + Suc s) (padded n ts @ new)" by simp
    then show ?thesis using lx assms(5) by (simp add: drop_take del: take_append)
  qed
  also have "\<dots> = w \<longleftrightarrow> suffix w (padded n ts @ ?x)" unfolding suffix_conv_drop using lx assms(5) by simp
  also have "\<dots> \<longleftrightarrow> suffix w (drop (length ts - n) ts @ ?x)" unfolding padded_def append_assoc by (rule suffix_over_padding[OF assms(3)])
  also have "\<dots> \<longleftrightarrow> suffix w (ts @ ?x)"
  proof (cases "length ts \<le> n")
    case False
    then have "suffix w (take (length ts - n) ts @ drop (length ts - n) ts @ ?x) \<longleftrightarrow> suffix w (drop (length ts - n) ts @ ?x)"
      using lx assms(5) by (intro suffix_longer) auto
    then show ?thesis by (simp flip: append_assoc)
  qed simp
  finally show ?thesis .
qed

text \<open>A batch as the executor builds it: every request has its own slot, its words and all its beams.\<close>

definition batch_ok :: "sampler \<Rightarrow> (nat \<Rightarrow> int list list) \<Rightarrow> sampled_request list \<Rightarrow> bool" where
  "batch_ok S words rs \<longleftrightarrow> (\<forall>i < length rs. py_stop_words_list (rs ! i) = stop_words_list (words i) \<and> words_ok (words i)
     \<and> length (beam_tokens (rs ! i)) = max_beam_width S \<and> beam_width (rs ! i) = max_beam_width S
     \<and> get_draft_token_length (rs ! i) < max_tokens S)"

abbreviation row_of :: "nat list list option \<Rightarrow> nat \<Rightarrow> nat list option" where
  "row_of preds i \<equiv> map_option (\<lambda>ps. ps ! i) preds"

lemma padded_old_tokens_eq:
  assumes "batch_ok S words rs" "longest_stop_word_len rs > 0" "\<forall>i < length rs. parents_ok (max_beam_width S) (row_of preds i)"
  shows "padded_old_tokens S rs toks preds = Inr (map (\<lambda>i. map (\<lambda>b. padded (nat (longest_stop_word_len rs - 1)) (beam_tokens (rs ! i) ! parent (row_of preds i) b)
    @ map (\<lambda>s. at3 toks s i b) [0..<max_tokens S]) [0..<max_beam_width S]) [0..<length rs])"
proof -
  let ?n = "nat (longest_stop_word_len rs - 1)"
  have "res_map (\<lambda>i. old_tokens ?n (max_beam_width S) (row_of preds i) (rs ! i)) [0..<length rs]
      = Inr (map (\<lambda>i. map (\<lambda>b. padded ?n (beam_tokens (rs ! i) ! parent (row_of preds i) b)) [0..<max_beam_width S]) [0..<length rs])"
    using assms(1,3) by (intro res_map_total old_tokens_eq) (auto simp: batch_ok_def)
  then show ?thesis using assms(2) by (simp add: padded_old_tokens_def py_assert_def)
qed

lemma are_stop_words_eq:
  assumes ok: "batch_ok S words rs" and ne: "rs \<noteq> []" "\<forall>i < length rs. words i \<noteq> []" and beams: "0 < max_beam_width S"
    and pok: "\<forall>i < length rs. parents_ok (max_beam_width S) (row_of preds i)"
  obtains t where "are_stop_words S rs toks preds = Inr t" "shaped (max_tokens S) (length rs) (max_beam_width S) t"
    "\<And>s i b. i < length rs \<Longrightarrow> b < max_beam_width S \<Longrightarrow> s \<le> get_draft_token_length (rs ! i) \<Longrightarrow>
      at3 t s i b = list_ex (\<lambda>w. suffix w (beam_tokens (rs ! i) ! parent (row_of preds i) b @ map (\<lambda>s. at3 toks s i b) [0..<Suc s])) (words i)"
proof -
  let ?L = "longest_stop_word_len rs"
  have w: "py_stop_words_list (rs ! i) = stop_words_list (words i)" "words_ok (words i)" if "i < length rs" for i using ok that by (simp_all add: batch_ok_def)
  have cover: "int (length v) \<le> ?L" if "i < length rs" "v \<in> set (words i)" for i v
    by (rule longest_covers[OF nth_mem[OF that(1)] w(1)[OF that(1)] that(2)])
  have good: "v \<noteq> [] \<and> list_all (\<lambda>t. 0 \<le> t) v" if "i < length rs" "v \<in> set (words i)" for i v using w(2)[OF that(1)] that(2) by (simp add: words_ok_def list_all_iff)
  obtain v where v: "v \<in> set (words 0)" using ne by (cases "words 0") auto
  have pos: "?L > 0" using cover[OF _ v] good[OF _ v] ne(1) by (cases v) auto
  let ?p = "map (\<lambda>i. map (\<lambda>b. padded (nat (?L - 1)) (beam_tokens (rs ! i) ! parent (row_of preds i) b) @ map (\<lambda>s. at3 toks s i b) [0..<max_tokens S]) [0..<max_beam_width S]) [0..<length rs]"
  let ?t = "tensor3 (max_tokens S) (length rs) (max_beam_width S)
    (\<lambda>s i b. s \<le> get_draft_token_length (rs ! i) \<and> list_ex (word_matches S (?p ! i ! b) s) (map words [0..<length rs] ! i))"
  have ws: "res_map (\<lambda>r. res_bind (stop_words r) (\<lambda>ws. if get_draft_token_length r < max_tokens S \<or> max_beam_width S = 0 then Inr ws else Inl IndexError)) rs
      = Inr (map words [0..<length rs])"
    unfolding res_map_Inr_iff list_all2_conv_all_nth
    using stop_words_words[OF w(1)] ne(2) ok by (auto simp: batch_ok_def)
  have a: "are_stop_words S rs toks preds = Inr ?t" unfolding are_stop_words_def padded_old_tokens_eq[OF ok pos pok] by (simp add: ws)
  have "at3 ?t s i b = list_ex (\<lambda>w. suffix w (beam_tokens (rs ! i) ! parent (row_of preds i) b @ map (\<lambda>s. at3 toks s i b) [0..<Suc s])) (words i)"
    if i: "i < length rs" and b: "b < max_beam_width S" and s: "s \<le> get_draft_token_length (rs ! i)" for s i b
  proof -
    have sm: "s < max_tokens S" using ok i s by (fastforce simp: batch_ok_def)
    let ?new = "map (\<lambda>s. at3 toks s i b) [0..<max_tokens S]"
    have tk: "take (Suc s) ?new = map (\<lambda>s. at3 toks s i b) [0..<Suc s]" using sm by (simp add: take_map del: upt_Suc)
    have "word_matches S (?p ! i ! b) s v \<longleftrightarrow> suffix v (beam_tokens (rs ! i) ! parent (row_of preds i) b @ map (\<lambda>s. at3 toks s i b) [0..<Suc s])" if v: "v \<in> set (words i)" for v
    proof -
      have "length v \<le> nat (?L - 1) + 1" using cover[OF i v] pos by linarith
      then show ?thesis unfolding tk[symmetric] using word_matches_suffix[of ?new S s v "nat (?L - 1)" "beam_tokens (rs ! i) ! parent (row_of preds i) b"] sm good[OF i v] i b by simp
    qed
    then show ?thesis using i b s sm by (simp add: list_ex_iff del: upt_Suc)
  qed
  then show ?thesis using that[OF a shaped_tensor3] by blast
qed

section \<open>Both ways agree\<close>

definition placed :: "nat \<Rightarrow> sampled_request list \<Rightarrow> nat list \<Rightarrow> bool" where
  \<comment> \<open>the slots of the requests\<close>
  "placed m rs slots \<longleftrightarrow> length slots = length rs \<and> distinct slots \<and> (\<forall>i < length rs. py_seq_slot (rs ! i) = Some (slots ! i) \<and> slots ! i < m)"

definition new_tokens_upto :: "int tensor3 \<Rightarrow> nat \<Rightarrow> nat \<Rightarrow> nat \<Rightarrow> int list" where
  "new_tokens_upto toks slot b s = map (\<lambda>s. at3 toks s slot b) [0..<Suc s]"

lemma filter_nth_upt: "filter P xs = map ((!) xs) (filter (\<lambda>i. P (xs ! i)) [0..<length xs])"
proof -
  have "filter P xs = filter P (map ((!) xs) [0..<length xs])" by (simp add: map_nth)
  then show ?thesis by (simp only: filter_map comp_def)
qed

lemma mark_stop_words_eq:
  assumes ok: "batch_ok S words rs" and pl: "placed m rs slots" and sh: "shaped (max_tokens S) m (max_beam_width S) toks"
    and bt: "shaped (max_tokens S) (length rs) (max_beam_width S) batched" and beams: "0 < max_beam_width S"
    and pok: "\<forall>i < length rs. parents_ok (max_beam_width S) (row_of preds (slots ! i))"
  obtains t where "mark_stop_words S rs toks preds batched = Inr t" "shaped (max_tokens S) (length rs) (max_beam_width S) t"
    "\<And>s i b. i < length rs \<Longrightarrow> b < max_beam_width S \<Longrightarrow> s \<le> get_draft_token_length (rs ! i) \<Longrightarrow>
      at3 t s i b = (if list_ex (\<lambda>w. suffix w (beam_tokens (rs ! i) ! parent (row_of preds (slots ! i)) b @ new_tokens_upto toks (slots ! i) b s)) (words i) then STOP_WORDS else at3 batched s i b)"
proof -
  define idx where "idx = request_indices_with_stop_words rs"
  have w: "py_stop_words_list (rs ! i) = stop_words_list (words i)" "words_ok (words i)" "get_draft_token_length (rs ! i) < max_tokens S" if "i < length rs" for i
    using ok that by (simp_all add: batch_ok_def)
  have idx: "set idx = {i. i < length rs \<and> words i \<noteq> []}" "distinct idx"
    using has_stop_words_iff[OF w(1,2)] by (auto simp: idx_def request_indices_with_stop_words_def)
  have rsx: "requests_with_stop_words rs = map ((!) rs) idx" unfolding requests_with_stop_words_def idx_def request_indices_with_stop_words_def by (rule filter_nth_upt)
  have idxk: "idx ! k < length rs" "words (idx ! k) \<noteq> []" if "k < length idx" for k using nth_mem[OF that] idx(1) by auto
  show ?thesis
  proof (cases "idx = []")
    case True
    then have "words i = []" if "i < length rs" for i using idx(1) that by auto
    then show ?thesis using that[of batched] True bt rsx by (auto simp: mark_stop_words_def)
  next
    case False
    let ?with = "map ((!) rs) idx" and ?stop = "map ((!) slots) idx"
    let ?preds = "map_option (\<lambda>ps. map ((!) ps) ?stop) preds"
    have row: "row_of ?preds k = row_of preds (slots ! (idx ! k))" if "k < length idx" for k using that by (cases preds) auto
    have pokx: "\<forall>k < length ?with. parents_ok (max_beam_width S) (row_of ?preds k)" using pok idxk row by simp
    have okx: "batch_ok S (\<lambda>k. words (idx ! k)) ?with" using ok idxk by (simp add: batch_ok_def)
    have sl: "res_map seq_slot_of ?with = Inr ?stop" unfolding res_map_Inr_iff list_all2_conv_all_nth using pl idxk by (auto simp: placed_def seq_slot_of_def)
    have slm: "list_all (\<lambda>x. x < m) ?stop" using pl idxk by (auto simp: list_all_length placed_def)
    obtain t where t: "are_stop_words S ?with (gather ?stop toks) ?preds = Inr t" "shaped (max_tokens S) (length ?with) (max_beam_width S) t"
      "\<And>s k b. k < length ?with \<Longrightarrow> b < max_beam_width S \<Longrightarrow> s \<le> get_draft_token_length (?with ! k) \<Longrightarrow>
        at3 t s k b = list_ex (\<lambda>w. suffix w (beam_tokens (?with ! k) ! parent (row_of ?preds k) b @ map (\<lambda>s. at3 (gather ?stop toks) s k b) [0..<Suc s])) (words (idx ! k))"
      by (rule are_stop_words_eq[OF okx, of ?preds "gather ?stop toks"]) (use False idxk beams pokx in auto)
    have im: "list_all (\<lambda>x. x < length rs) idx" using idx(1) by (auto simp: list_all_iff)
    have g: "shaped (max_tokens S) (length idx) (max_beam_width S) (gather idx batched)" by (rule gather_shaped[OF bt im])
    let ?v = "where3 t STOP_WORDS (gather idx batched)"
    have v: "shaped (max_tokens S) (length idx) (max_beam_width S) ?v" by (rule where3_shaped[OF _ g]) (use t(2) in simp)
    have res: "mark_stop_words S rs toks preds batched = Inr (scatter idx ?v batched)"
      unfolding mark_stop_words_def rsx Let_def using False sl t(1) by (simp flip: idx_def)
    show ?thesis
    proof (rule that[OF res scatter_shaped[OF idx(2) v bt im]])
      fix s i b assume i: "i < length rs" and b: "b < max_beam_width S" and s: "s \<le> get_draft_token_length (rs ! i)"
      have sm: "s < max_tokens S" using w(3)[OF i] s by simp
      let ?stops = "list_ex (\<lambda>w. suffix w (beam_tokens (rs ! i) ! parent (row_of preds (slots ! i)) b @ new_tokens_upto toks (slots ! i) b s)) (words i)"
      show "at3 (scatter idx ?v batched) s i b = (if ?stops then STOP_WORDS else at3 batched s i b)"
      proof (cases "i \<in> set idx")
        case True
        then obtain k where k: "k < length idx" "i = idx ! k" by (auto simp: in_set_conv_nth)
        have nt: "map (\<lambda>s. at3 (gather ?stop toks) s k b) [0..<Suc s] = new_tokens_upto toks (slots ! i) b s"
          unfolding new_tokens_upto_def using k sm at_gather[OF sh, of _ k ?stop b] by (intro map_cong) auto
        have "at3 t s k b = ?stops" using t(3)[of k b s] k b s nt row[OF k(1)] by (simp del: upt_Suc)
        then have "at3 ?v s k b = (if ?stops then STOP_WORDS else at3 (gather idx batched) s k b)"
          using at_where3[OF _ g sm k(1) b, of t] t(2) by simp
        then show ?thesis using scatter_spec(1)[OF idx(2) v bt im sm k(1)] at_gather[OF bt sm k(1)] k(2) by simp
      next
        case False
        then have "words i = []" using idx(1) i by auto
        then show ?thesis using scatter_spec(2)[OF idx(2) v bt im sm False] by simp
      qed
    qed
  qed
qed

lemma are_max_length_eq:
  assumes "batch_ok S words rs"
  shows "are_max_length S rs = Inr (tensor3 (max_tokens S) (length rs) (max_beam_width S)
    (\<lambda>s i b. int (length (map (\<lambda>r. map ((!) (beam_tokens r)) [0..<max_beam_width S]) rs ! i ! b)) + (int s + 1)
      \<ge> min (max_new_tokens (rs ! i) + orig_prompt_len (rs ! i)) (max_seq_len S)))"
proof -
  have "res_map (get_tokens r) [0..<max_beam_width S] = Inr (map ((!) (beam_tokens r)) [0..<max_beam_width S])" if "r \<in> set rs" for r
  proof (rule res_map_total)
    fix b assume "b \<in> set [0..<max_beam_width S]"
    moreover have "length (beam_tokens r) = max_beam_width S" using assms that by (auto simp: batch_ok_def in_set_conv_nth)
    ultimately show "get_tokens r b = Inr (beam_tokens r ! b)" by (simp add: get_tokens_def)
  qed
  then have "res_map (\<lambda>r. res_map (get_tokens r) [0..<max_beam_width S]) rs = Inr (map (\<lambda>r. map ((!) (beam_tokens r)) [0..<max_beam_width S]) rs)"
    by (rule res_map_total) simp
  then show ?thesis by (simp add: are_max_length_def)
qed

definition beam_tensors_ok :: "sampler \<Rightarrow> nat \<Rightarrow> sampled_request list \<Rightarrow> FinishReason list list option \<Rightarrow> nat list list option \<Rightarrow> bool" where
  \<comment> \<open>the tensors of first reasons and of predecessor beams, which a sampler with several beams has; the beams of a request are then of the same length,
      and there is one new token in a step\<close>
  "beam_tensors_ok S m rs first preds \<longleftrightarrow>
     (case first of None \<Rightarrow> True | Some f \<Rightarrow> max_tokens S = 1 \<and> length f = m \<and> list_all (\<lambda>row. length row = max_beam_width S) f)
     \<and> (case preds of None \<Rightarrow> True | Some ps \<Rightarrow> length ps = m \<and> list_all (\<lambda>p. parents_ok (max_beam_width S) (Some p)) ps
          \<and> list_all (\<lambda>r. \<forall>a < max_beam_width S. \<forall>b < max_beam_width S. length (beam_tokens r ! a) = length (beam_tokens r ! b)) rs)"

lemma beam_tensors_parents:
  assumes "beam_tensors_ok S m rs first preds" "placed m rs slots" "i < length rs"
  shows "parents_ok (max_beam_width S) (row_of preds (slots ! i))"
    "b < max_beam_width S \<Longrightarrow> length (beam_tokens (rs ! i) ! parent (row_of preds (slots ! i)) b) = length (beam_tokens (rs ! i) ! b)"
proof -
  show p: "parents_ok (max_beam_width S) (row_of preds (slots ! i))"
    using assms by (cases preds) (auto simp: beam_tensors_ok_def placed_def list_all_length parents_ok_def)
  show "length (beam_tokens (rs ! i) ! parent (row_of preds (slots ! i)) b) = length (beam_tokens (rs ! i) ! b)" if b: "b < max_beam_width S"
  proof (cases preds)
    case (Some ps)
    have "\<forall>r \<in> set rs. \<forall>a < max_beam_width S. \<forall>b < max_beam_width S. length (beam_tokens r ! a) = length (beam_tokens r ! b)"
      using assms(1) unfolding beam_tensors_ok_def Some option.case list_all_iff by blast
    then show ?thesis using parent_less[OF p b] b nth_mem[OF assms(3)] by blast
  qed (simp add: parent_def)
qed

lemma first_reasons_eq:
  assumes "beam_tensors_ok S m rs (Some f) preds" "placed m rs slots" "shaped (max_tokens S) (length slots) (max_beam_width S) batched"
  obtains f' where "first_reasons S slots batched f = Inr f'"
    "\<And>i b. i < length slots \<Longrightarrow> b < max_beam_width S \<Longrightarrow> f' ! (slots ! i) ! b = (if f ! (slots ! i) ! b = NOT_FINISHED then at3 batched 0 i b else f ! (slots ! i) ! b)"
    "\<And>j. j \<notin> set slots \<Longrightarrow> f' ! j = f ! j"
proof -
  have f: "max_tokens S = 1" "length f = m" "\<And>j. j < m \<Longrightarrow> length (f ! j) = max_beam_width S" using assms(1) by (auto simp: beam_tensors_ok_def list_all_length)
  have sl: "distinct slots" "list_all (\<lambda>x. x < m) slots" using assms(2) by (auto simp: placed_def list_all_length)
  let ?v = "map2 (map2 (\<lambda>f x. if f = NOT_FINISHED then x else f)) (map ((!) f) slots) (batched ! 0)"
  have b0: "length (batched ! 0) = length slots" "\<And>i. i < length slots \<Longrightarrow> length (batched ! 0 ! i) = max_beam_width S" using assms(3) f(1) by (auto simp: shaped_def)
  have sp: "length ?v = length slots" "list_all (\<lambda>x. x < length f) slots" using b0(1) sl(2) f(2) by simp_all
  show ?thesis
  proof (rule that[of "scatter_row slots ?v f"])
    show "first_reasons S slots batched f = Inr (scatter_row slots ?v f)" using f(1) by (simp add: first_reasons_def)
    show "scatter_row slots ?v f ! j = f ! j" if "j \<notin> set slots" for j using scatter_row_spec(3)[OF sl(1) sp] that by blast
    show "scatter_row slots ?v f ! (slots ! i) ! b = (if f ! (slots ! i) ! b = NOT_FINISHED then at3 batched 0 i b else f ! (slots ! i) ! b)"
      if i: "i < length slots" and b: "b < max_beam_width S" for i b
    proof -
      have "slots ! i < m" using sl(2) i by (simp add: list_all_length)
      then show ?thesis using scatter_row_spec(2)[OF sl(1) sp i] i b b0 f(3) by simp
    qed
  qed
qed

lemma write_finish_reasons_gen:
  assumes ok: "batch_ok S words rs" and pl: "placed m rs slots" and sh: "shaped (max_tokens S) m (max_beam_width S) toks"
    and fin: "shaped (max_tokens S) m (max_beam_width S) fin" and beams: "0 < max_beam_width S"
    and nonneg: "\<forall>s < max_tokens S. \<forall>i < m. \<forall>b < max_beam_width S. 0 \<le> at3 toks s i b"
    and bto: "beam_tensors_ok S m rs first preds"
  obtains fin' first' where "write_finish_reasons S rs slots toks first preds fin = Inr (fin', first')" "shaped (max_tokens S) m (max_beam_width S) fin'"
    "\<And>s i b. i < length rs \<Longrightarrow> b < max_beam_width S \<Longrightarrow> s \<le> get_draft_token_length (rs ! i) \<Longrightarrow>
      at3 fin' s (slots ! i) b = stop_reason (max_seq_len S) (words i) (rs ! i) (beam_tokens (rs ! i) ! parent (row_of preds (slots ! i)) b @ new_tokens_upto toks (slots ! i) b s)"
    "\<And>s j. s < max_tokens S \<Longrightarrow> j \<notin> set slots \<Longrightarrow> fin' ! s ! j = fin ! s ! j"
    "first = None \<Longrightarrow> first' = None"
    "\<And>f. first = Some f \<Longrightarrow> \<exists>f'. first' = Some f' \<and> (\<forall>i < length rs. \<forall>b < max_beam_width S. f' ! (slots ! i) ! b = (if f ! (slots ! i) ! b = NOT_FINISHED then at3 fin' 0 (slots ! i) b else f ! (slots ! i) ! b))
      \<and> (\<forall>j. j \<notin> set slots \<longrightarrow> f' ! j = f ! j)"
proof -
  let ?T = "max_tokens S" and ?k = "max_beam_width S" and ?n = "length rs"
  have sl: "length slots = ?n" "distinct slots" "list_all (\<lambda>x. x < m) slots" using pl by (auto simp: placed_def list_all_length)
  define none where "none = replicate ?T (replicate ?n (replicate ?k NOT_FINISHED))"
  have none: "shaped ?T (length slots) ?k none" by (simp add: none_def shaped_def sl(1))
  have "length fin = ?T" using fin by (simp add: shaped_def)
  then have f1: "map (scatter_row slots (replicate (length slots) (replicate ?k NOT_FINISHED))) fin = scatter slots none fin"
    unfolding scatter_def none_def sl(1) by (intro nth_equalityI) auto
  have s1: "shaped ?T m ?k (scatter slots none fin)" by (rule scatter_shaped[OF sl(2) none fin sl(3)])
  have g1: "shaped ?T ?n ?k (gather slots (scatter slots none fin))" using gather_shaped[OF s1 sl(3)] sl(1) by simp
  obtain b1 where b1: "mark_stop_words S rs toks preds (gather slots (scatter slots none fin)) = Inr b1" "shaped ?T ?n ?k b1"
    "\<And>s i b. i < ?n \<Longrightarrow> b < ?k \<Longrightarrow> s \<le> get_draft_token_length (rs ! i) \<Longrightarrow>
      at3 b1 s i b = (if list_ex (\<lambda>w. suffix w (beam_tokens (rs ! i) ! parent (row_of preds (slots ! i)) b @ new_tokens_upto toks (slots ! i) b s)) (words i) then STOP_WORDS
        else at3 (gather slots (scatter slots none fin)) s i b)"
    by (rule mark_stop_words_eq[OF ok pl sh g1 beams, of preds]) (use beam_tensors_parents(1)[OF bto pl] in blast)+
  define long where "long = tensor3 ?T ?n ?k (\<lambda>s i b. int (length (map (\<lambda>r. map ((!) (beam_tokens r)) [0..<?k]) rs ! i ! b)) + (int s + 1)
      \<ge> min (max_new_tokens (rs ! i) + orig_prompt_len (rs ! i)) (max_seq_len S))"
  define b2 where "b2 = where3 (are_end_id S rs (gather slots toks)) END_ID (where3 long LENGTH b1)"
  have sh2: "shaped ?T ?n ?k long" "shaped ?T ?n ?k (are_end_id S rs (gather slots toks))" by (simp_all add: long_def are_end_id_def shaped_tensor3)
  have shw: "shaped ?T ?n ?k (where3 long LENGTH b1)" by (rule where3_shaped[OF sh2(1) b1(2)])
  have shb: "shaped ?T (length slots) ?k b2" unfolding b2_def sl(1) by (rule where3_shaped[OF sh2(2) shw])
  let ?fin = "scatter slots b2 (scatter slots none fin)"
  have at: "at3 ?fin s (slots ! i) b = at3 b2 s i b" if "s < ?T" "i < ?n" for s i b using scatter_spec(1)[OF sl(2) shb s1 sl(3)] that sl(1) by simp
  have wr: "write_finish_reasons S rs slots toks first preds fin = (case first of None \<Rightarrow> Inr (?fin, None) | Some f \<Rightarrow> res_bind (first_reasons S slots b2 f) (\<lambda>f1. Inr (?fin, Some f1)))"
    using b1(1) are_max_length_eq[OF ok, folded long_def] by (cases first) (simp_all add: write_finish_reasons_def f1 Let_def b2_def)
  have "\<exists>first'. write_finish_reasons S rs slots toks first preds fin = Inr (?fin, first') \<and> (first = None \<longrightarrow> first' = None)
    \<and> (\<forall>f. first = Some f \<longrightarrow> (\<exists>f'. first' = Some f' \<and> (\<forall>i < ?n. \<forall>b < ?k. f' ! (slots ! i) ! b = (if f ! (slots ! i) ! b = NOT_FINISHED then at3 ?fin 0 (slots ! i) b else f ! (slots ! i) ! b))
      \<and> (\<forall>j. j \<notin> set slots \<longrightarrow> f' ! j = f ! j)))"
  proof (cases first)
    case (Some f)
    have T: "0 < ?T" using bto by (simp add: beam_tensors_ok_def Some)
    obtain f' where f': "first_reasons S slots b2 f = Inr f'"
      "\<And>i b. i < length slots \<Longrightarrow> b < ?k \<Longrightarrow> f' ! (slots ! i) ! b = (if f ! (slots ! i) ! b = NOT_FINISHED then at3 b2 0 i b else f ! (slots ! i) ! b)"
      "\<And>j. j \<notin> set slots \<Longrightarrow> f' ! j = f ! j" by (rule first_reasons_eq[OF bto[unfolded Some] pl shb]) blast
    show ?thesis unfolding wr using f' at[OF T] sl(1) by (intro exI[of _ "Some f'"]) (simp add: Some)
  qed (use wr in simp)
  then obtain first' where ex: "write_finish_reasons S rs slots toks first preds fin = Inr (?fin, first') \<and> (first = None \<longrightarrow> first' = None)
    \<and> (\<forall>f. first = Some f \<longrightarrow> (\<exists>f'. first' = Some f' \<and> (\<forall>i < ?n. \<forall>b < ?k. f' ! (slots ! i) ! b = (if f ! (slots ! i) ! b = NOT_FINISHED then at3 ?fin 0 (slots ! i) b else f ! (slots ! i) ! b))
      \<and> (\<forall>j. j \<notin> set slots \<longrightarrow> f' ! j = f ! j)))" by (elim exE)
  note res = ex[THEN conjunct1] and fst' = mp[OF ex[THEN conjunct2, THEN conjunct1]] mp[OF spec[OF ex[THEN conjunct2, THEN conjunct2]]]
  show ?thesis
  proof (rule that[OF res scatter_shaped[OF sl(2) shb s1 sl(3)] _ _ fst'])
    fix s i b assume i: "i < ?n" and b: "b < ?k" and s: "s \<le> get_draft_token_length (rs ! i)"
    have sm: "s < ?T" using ok i s by (fastforce simp: batch_ok_def)
    have is': "i < length slots" using i sl(1) by simp
    let ?new = "new_tokens_upto toks (slots ! i) b s" and ?tok = "at3 toks s (slots ! i) b"
    have last: "last (beam_tokens (rs ! i) ! parent (row_of preds (slots ! i)) b @ ?new) = ?tok" by (simp add: new_tokens_upto_def)
    have "0 \<le> ?tok" using nonneg pl i b sm by (simp add: placed_def)
    then have e: "at3 (are_end_id S rs (gather slots toks)) s i b \<longleftrightarrow> Some ?tok = py_end_id (rs ! i)"
      using at_gather[OF sh sm is', of b] i b sm by (auto simp: are_end_id_def split: option.splits)
    have l: "at3 long s i b \<longleftrightarrow> int (length (beam_tokens (rs ! i) ! parent (row_of preds (slots ! i)) b @ ?new)) \<ge> min (max_new_tokens (rs ! i) + orig_prompt_len (rs ! i)) (max_seq_len S)"
      using i b sm beam_tensors_parents(2)[OF bto pl i b] by (simp add: long_def new_tokens_upto_def add.assoc add.commute[of 1])
    have nf: "at3 (gather slots (scatter slots none fin)) s i b = NOT_FINISHED"
      using at_gather[OF s1 sm is', of b] scatter_spec(1)[OF sl(2) none fin sl(3) sm is'] i b sm by (simp add: none_def)
    have "at3 (scatter slots b2 (scatter slots none fin)) s (slots ! i) b = at3 b2 s i b"
      using scatter_spec(1)[OF sl(2) shb s1 sl(3) sm is'] by simp
    also have "\<dots> = stop_reason (max_seq_len S) (words i) (rs ! i) (beam_tokens (rs ! i) ! parent (row_of preds (slots ! i)) b @ ?new)"
      unfolding b2_def at_where3[OF sh2(2) shw sm i b] at_where3[OF sh2(1) b1(2) sm i b] b1(3)[OF i b s] nf e l stop_reason_def last ..
    finally show "at3 (scatter slots b2 (scatter slots none fin)) s (slots ! i) b = stop_reason (max_seq_len S) (words i) (rs ! i) (beam_tokens (rs ! i) ! parent (row_of preds (slots ! i)) b @ ?new)" .
  next
    fix s j assume "s < ?T" "j \<notin> set slots"
    then show "scatter slots b2 (scatter slots none fin) ! s ! j = fin ! s ! j"
      using scatter_spec(2)[OF sl(2) shb s1 sl(3)] scatter_spec(2)[OF sl(2) none fin sl(3)] by simp
  qed
qed

lemma write_finish_reasons_eq:
  assumes ok: "batch_ok S words rs" and pl: "placed m rs slots" and sh: "shaped (max_tokens S) m (max_beam_width S) toks"
    and fin: "shaped (max_tokens S) m (max_beam_width S) fin" and beams: "0 < max_beam_width S"
    and nonneg: "\<forall>s < max_tokens S. \<forall>i < m. \<forall>b < max_beam_width S. 0 \<le> at3 toks s i b"
  obtains fin' where "write_finish_reasons S rs slots toks None None fin = Inr (fin', None)" "shaped (max_tokens S) m (max_beam_width S) fin'"
    "\<And>s i b. i < length rs \<Longrightarrow> b < max_beam_width S \<Longrightarrow> s \<le> get_draft_token_length (rs ! i) \<Longrightarrow>
      at3 fin' s (slots ! i) b = stop_reason (max_seq_len S) (words i) (rs ! i) (beam_tokens (rs ! i) ! b @ new_tokens_upto toks (slots ! i) b s)"
    "\<And>s j. s < max_tokens S \<Longrightarrow> j \<notin> set slots \<Longrightarrow> fin' ! s ! j = fin ! s ! j"
proof -
  have "beam_tensors_ok S m rs None None" by (simp add: beam_tensors_ok_def)
  then show ?thesis
  proof (rule write_finish_reasons_gen[OF assms])
    fix fin' first'
    assume "write_finish_reasons S rs slots toks None None fin = Inr (fin', first')" "shaped (max_tokens S) m (max_beam_width S) fin'"
      "\<And>s i b. i < length rs \<Longrightarrow> b < max_beam_width S \<Longrightarrow> s \<le> get_draft_token_length (rs ! i) \<Longrightarrow>
        at3 fin' s (slots ! i) b = stop_reason (max_seq_len S) (words i) (rs ! i) (beam_tokens (rs ! i) ! parent (row_of None (slots ! i)) b @ new_tokens_upto toks (slots ! i) b s)"
      "\<And>s j. s < max_tokens S \<Longrightarrow> j \<notin> set slots \<Longrightarrow> fin' ! s ! j = fin ! s ! j" "None = None \<Longrightarrow> first' = None"
    then show ?thesis by (intro that[of fin']) (simp_all add: parent_def)
  qed
qed

definition extend_beam :: "nat \<Rightarrow> int list \<Rightarrow> sampled_request \<Rightarrow> sampled_request" where
  "extend_beam b ts r = r\<lparr>beam_tokens := (beam_tokens r)[b := beam_tokens r ! b @ ts]\<rparr>"

lemma stop_reason_extend [simp]: "stop_reason msl ws (extend_beam b ts r) = stop_reason msl ws r"
  by (simp add: stop_reason_def extend_beam_def fun_eq_iff)

definition continue_beam :: "nat \<Rightarrow> nat \<Rightarrow> int list \<Rightarrow> sampled_request \<Rightarrow> sampled_request" where
  \<comment> \<open>beam \<open>b\<close> goes on from beam \<open>p\<close> with new tokens\<close>
  "continue_beam p b ts r = r\<lparr>beam_tokens := (beam_tokens r)[b := beam_tokens r ! p @ ts]\<rparr>"

lemma stop_reason_continue [simp]: "stop_reason msl ws (continue_beam p b ts r) = stop_reason msl ws r"
  by (simp add: stop_reason_def continue_beam_def fun_eq_iff)

text \<open>
  C29: the reasons computed for a whole batch are those that the token by token criteria give. The requests are in different
  slots, have the beam width of the sampler and stop words that are not empty and without negative tokens (an empty stop word makes the two differ, as
  \<open>empty_stop_word_ends_request\<close> shows). With several beams there may be tensors of predecessor beams and of first reasons; the beams of a request are then of the same
  length, and with first reasons there is one new token in a step. For every request, beam and draft position: if the
  tokens up to the position are appended to the tokens of the predecessor of the beam, \<open>_handle_stop_criteria\<close> ends the request exactly if the computed reason is not
  \<open>NOT_FINISHED\<close>, and with that reason; and the first reason of the beam is kept, or set to the computed one when there was none.
\<close>

theorem batched_reasons_agree_with_sequential:
  assumes "batch_ok S words rs" "placed m rs slots" "shaped (max_tokens S) m (max_beam_width S) toks" "shaped (max_tokens S) m (max_beam_width S) fin"
    and "\<forall>s < max_tokens S. \<forall>i < m. \<forall>b < max_beam_width S. 0 \<le> at3 toks s i b" "beam_tensors_ok S m rs first preds"
    and "i < length rs" "b < max_beam_width S" "s \<le> get_draft_token_length (rs ! i)"
  shows "\<exists>fin' first'. write_finish_reasons S rs slots toks first preds fin = Inr (fin', first')
    \<and> (let r = continue_beam (parent (row_of preds (slots ! i)) b) b (new_tokens_upto toks (slots ! i) b s) (rs ! i); reason = at3 fin' s (slots ! i) b in
       handle_stop_criteria (max_seq_len S) (at3 toks s (slots ! i) b) b r
         = Inr (if reason = NOT_FINISHED then (False, r) else (True, finish_by reason b r)))
    \<and> (case first of None \<Rightarrow> first' = None
       | Some f \<Rightarrow> \<exists>f'. first' = Some f' \<and> f' ! (slots ! i) ! b = (if f ! (slots ! i) ! b = NOT_FINISHED then at3 fin' 0 (slots ! i) b else f ! (slots ! i) ! b))"
proof -
  have k: "0 < max_beam_width S" using assms(8) by simp
  let ?p = "parent (row_of preds (slots ! i)) b"
  show ?thesis
  proof (rule write_finish_reasons_gen[OF assms(1-4) k assms(5,6)])
  fix fin' first'
  assume g: "write_finish_reasons S rs slots toks first preds fin = Inr (fin', first')"
    "\<And>s i b. i < length rs \<Longrightarrow> b < max_beam_width S \<Longrightarrow> s \<le> get_draft_token_length (rs ! i) \<Longrightarrow>
      at3 fin' s (slots ! i) b = stop_reason (max_seq_len S) (words i) (rs ! i) (beam_tokens (rs ! i) ! parent (row_of preds (slots ! i)) b @ new_tokens_upto toks (slots ! i) b s)"
    "first = None \<Longrightarrow> first' = None"
    "\<And>f. first = Some f \<Longrightarrow> \<exists>f'. first' = Some f' \<and> (\<forall>i < length rs. \<forall>b < max_beam_width S. f' ! (slots ! i) ! b = (if f ! (slots ! i) ! b = NOT_FINISHED then at3 fin' 0 (slots ! i) b else f ! (slots ! i) ! b))
      \<and> (\<forall>j. j \<notin> set slots \<longrightarrow> f' ! j = f ! j)"
  note f = g(1) g(2)[OF assms(7-9)] g(3,4)
  let ?r = "continue_beam ?p b (new_tokens_upto toks (slots ! i) b s) (rs ! i)"
  have r: "beam_tokens ?r ! b = beam_tokens (rs ! i) ! ?p @ new_tokens_upto toks (slots ! i) b s" "b < length (beam_tokens ?r)"
    "py_stop_words_list ?r = stop_words_list (words i)" "words_ok (words i)"
    using assms(1,7,8) by (simp_all add: continue_beam_def batch_ok_def)
  have "last (beam_tokens ?r ! b) = at3 toks s (slots ! i) b" "beam_tokens ?r ! b \<noteq> []" unfolding r(1) by (simp_all add: new_tokens_upto_def)
  then have "handle_stop_criteria (max_seq_len S) (at3 toks s (slots ! i) b) b ?r
      = Inr (if at3 fin' s (slots ! i) b = NOT_FINISHED then (False, ?r) else (True, finish_by (at3 fin' s (slots ! i) b) b ?r))"
    by (intro handle_stop_criteria_reason[OF r(3,4,2)]) (simp_all add: f(2) r(1))
  moreover have "case first of None \<Rightarrow> first' = None
       | Some f \<Rightarrow> \<exists>f'. first' = Some f' \<and> f' ! (slots ! i) ! b = (if f ! (slots ! i) ! b = NOT_FINISHED then at3 fin' 0 (slots ! i) b else f ! (slots ! i) ! b)"
  proof (cases first)
    case (Some g)
    then show ?thesis using f(4)[OF Some] assms(7,8) by auto
  qed (use f(3) in simp)
  ultimately show ?thesis unfolding Let_def using f(1) by blast
  qed
qed

section \<open>Examples\<close>

definition example_sampled :: "int \<Rightarrow> nat \<Rightarrow> int list list \<Rightarrow> int list \<Rightarrow> int list \<Rightarrow> sampled_request" where
  \<comment> \<open>a request with 4 prompt tokens that may have 6 new ones and ends with token 2\<close>
  "example_sampled rid slot ws drafts ts = llm_request.extend ((new_request rid GENERATION_IN_PROGRESS 4 6)\<lparr>py_seq_slot := Some slot, py_draft_tokens := Some drafts\<rparr>)
     (sampled_request.fields [ts] 1 (Some 2) (stop_words_list ws) [])"

definition example_sampler :: sampler where
  "example_sampler = \<lparr>max_tokens = 3, max_beam_width = 1, max_seq_len = 100\<rparr>"

definition example_batch :: "sampled_request list" where
  "example_batch = [example_sampled 1 2 [[7, 8], [9]] [7, 8] [10, 11, 12, 13], example_sampled 2 0 [] [] [10, 11, 12, 13, 14, 15, 16, 17, 18]]"

definition example_words :: "nat \<Rightarrow> int list list" where
  "example_words i = (if i = 0 then [[7, 8], [9]] else [])"

definition example_new_tokens :: "int tensor3" where
  \<comment> \<open>per step the tokens of the slots 0, 1 and 2\<close>
  "example_new_tokens = [[[5], [0], [7]], [[0], [0], [8]], [[0], [0], [2]]]"

definition example_fin :: "FinishReason tensor3" where
  "example_fin = replicate 3 (replicate 3 [NOT_FINISHED])"

lemmas example_sampled_simps = example_sampled_def llm_request.defs sampled_request.defs new_request_def

lemma example_batch_facts:
  "batch_ok example_sampler example_words example_batch" "placed 3 example_batch [2, 0]"
  "shaped (max_tokens example_sampler) 3 (max_beam_width example_sampler) example_new_tokens"
  "shaped (max_tokens example_sampler) 3 (max_beam_width example_sampler) example_fin"
  "\<forall>s < max_tokens example_sampler. \<forall>i < 3. \<forall>b < max_beam_width example_sampler. 0 \<le> at3 example_new_tokens s i b"
proof -
  show "batch_ok example_sampler example_words example_batch"
    by (auto simp: batch_ok_def example_sampler_def example_batch_def example_words_def example_sampled_simps words_ok_def get_draft_token_length_def less_Suc_eq)
  show "placed 3 example_batch [2, 0]" by (auto simp: placed_def example_batch_def example_sampled_simps less_Suc_eq)
  have three: "s < 3 \<longleftrightarrow> s = 0 \<or> s = 1 \<or> s = 2" for s :: nat by auto
  show "shaped (max_tokens example_sampler) 3 (max_beam_width example_sampler) example_new_tokens"
    by (auto simp: shaped_def example_sampler_def example_new_tokens_def three)
  show "shaped (max_tokens example_sampler) 3 (max_beam_width example_sampler) example_fin" by (simp add: shaped_def example_sampler_def example_fin_def)
  show "\<forall>s < max_tokens example_sampler. \<forall>i < 3. \<forall>b < max_beam_width example_sampler. 0 \<le> at3 example_new_tokens s i b"
    by (auto simp: example_sampler_def example_new_tokens_def three)
qed

definition beam_sampler :: sampler where
  "beam_sampler = \<lparr>max_tokens = 1, max_beam_width = 2, max_seq_len = 100\<rparr>"

definition beam_request :: sampled_request where
  \<comment> \<open>two beams, of which the first ends with the beginning of a stop word\<close>
  "beam_request = llm_request.extend ((new_request 1 GENERATION_IN_PROGRESS 4 6)\<lparr>py_seq_slot := Some 0, py_draft_tokens := Some []\<rparr>)
     (sampled_request.fields [[10, 11, 12, 7], [10, 11, 12, 13]] 2 (Some 2) (stop_words_list [[7, 8]]) [])"

text \<open>Both beams continue the first one; the second completes the stop word.\<close>

theorem batched_reasons_agree_with_sequential_witness:
  "\<exists>fin' first'. write_finish_reasons beam_sampler [beam_request] [0] [[[5, 8]]] (Some [[NOT_FINISHED, LENGTH]]) (Some [[0, 0]]) [[[NOT_FINISHED, NOT_FINISHED]]] = Inr (fin', first')
    \<and> (let r = continue_beam 0 1 [8] beam_request; reason = at3 fin' 0 0 1 in
       handle_stop_criteria 100 8 1 r = Inr (if reason = NOT_FINISHED then (False, r) else (True, finish_by reason 1 r)))
    \<and> (\<exists>f'. first' = Some f' \<and> f' ! 0 ! 1 = LENGTH)"
proof -
  have two: "b < 2 \<longleftrightarrow> b = 0 \<or> b = 1" for b :: nat by auto
  have ok: "batch_ok beam_sampler (\<lambda>_. [[7, 8]]) [beam_request]" "placed 1 [beam_request] [0]"
    by (simp_all add: batch_ok_def placed_def beam_sampler_def beam_request_def example_sampled_simps words_ok_def get_draft_token_length_def)
  have sh: "shaped (max_tokens beam_sampler) 1 (max_beam_width beam_sampler) [[[5, 8 :: int]]]" "shaped (max_tokens beam_sampler) 1 (max_beam_width beam_sampler) [[[NOT_FINISHED, NOT_FINISHED]]]"
    "\<forall>s < max_tokens beam_sampler. \<forall>i < 1. \<forall>b < max_beam_width beam_sampler. 0 \<le> at3 [[[5, 8 :: int]]] s i b"
    by (auto simp: shaped_def beam_sampler_def two)
  have bt: "beam_tensors_ok beam_sampler 1 [beam_request] (Some [[NOT_FINISHED, LENGTH]]) (Some [[0, 0]])"
    by (auto simp: beam_tensors_ok_def beam_sampler_def parents_ok_def beam_request_def example_sampled_simps two)
  have n: "new_tokens_upto [[[5, 8]]] 0 (Suc 0) 0 = [8]" by (simp add: new_tokens_upto_def)
  show ?thesis
    using batched_reasons_agree_with_sequential[OF ok sh bt, of 0 1 0] by (simp add: beam_sampler_def parent_def n Let_def split del: if_split)
qed

text \<open>The second draft token completes a stop word.\<close>

lemma example_reasons:
  "case write_finish_reasons example_sampler example_batch [2, 0] example_new_tokens None None example_fin of Inl e \<Rightarrow> False
    | Inr (fin', _) \<Rightarrow> map (\<lambda>s. at3 fin' s 2 0) [0..<3] = [NOT_FINISHED, STOP_WORDS, END_ID] \<and> at3 fin' 0 0 0 = LENGTH"
  by code_simp

text \<open>
  An empty stop word, which the encoding of an empty stop string gives, ends a request at its next token when the reasons are
  computed for the batch, and never when the tokens are looked at one by one.
\<close>

lemma empty_stop_word_ends_request:
  "case write_finish_reasons example_sampler [example_sampled 1 2 [[7, 8], []] [] [10, 11, 12, 13]] [2] example_new_tokens None None example_fin of Inl e \<Rightarrow> False
     | Inr (fin', _) \<Rightarrow> at3 fin' 0 2 0 = STOP_WORDS"
  "handle_stop_criteria 100 7 0 (extend_beam 0 [7] (example_sampled 1 2 [[7, 8], []] [] [10, 11, 12, 13]))
     = Inr (False, extend_beam 0 [7] (example_sampled 1 2 [[7, 8], []] [] [10, 11, 12, 13]))"
  by code_simp+

end
