(* ===== verification/Draft_Verification.thy ===== *)
theory Draft_Verification
  imports Finish_Reasons
begin

text \<open>
  Verification of draft tokens, \<open>_process_draft_tokens_greedy\<close> of \<open>_torch/pyexecutor/sampler.py\<close>. A drafter has proposed the next tokens of a
  request; the target model has run over all of them at once and has given the token that it would generate after each; the
  sampler keeps the proposals that agree. The theory shows that a request goes through exactly the states that it goes
  through when the target model generates its tokens one by one.

  The target model is a function from the tokens so far to the next token. Draft tokens are verified for the first beam.
\<close>

section \<open>Adding tokens\<close>

definition add_token :: "int tensor3 \<Rightarrow> nat \<Rightarrow> int \<Rightarrow> sampled_request \<Rightarrow> (int \<times> sampled_request) result" where
  "add_token new_tokens b step r =
     (case py_seq_slot r of
        None \<Rightarrow> Inl AssertionError
      | Some slot \<Rightarrow>
          res_bind (py_index new_tokens step) (\<lambda>row. res_bind (py_index row (int slot)) (\<lambda>beams. res_bind (py_index beams (int b)) (\<lambda>t.
            if b < length (beam_tokens r) then Inr (t, extend_beam b [t] r) else Inl IndexError))))"

definition finish_reasons_list :: "FinishReason tensor3 \<Rightarrow> FinishReason tensor3" where
  \<comment> \<open>\<open>permute(1, 0, 2)\<close>: slot, step, beam\<close>
  "finish_reasons_list t = (case t of [] \<Rightarrow> [] | row # _ \<Rightarrow> map (\<lambda>i. map (\<lambda>r. r ! i) t) [0..<length row])"

definition finish_if_reason :: "FinishReason tensor3 \<Rightarrow> int \<Rightarrow> nat \<Rightarrow> sampled_request \<Rightarrow> (bool \<times> sampled_request) result" where
  "finish_if_reason reasons step b r =
     (case py_seq_slot r of
        None \<Rightarrow> Inl TypeError
      | Some slot \<Rightarrow>
          res_bind (py_index reasons (int slot)) (\<lambda>steps. res_bind (py_index steps step) (\<lambda>beams. res_bind (py_index beams (int b)) (\<lambda>reason.
            Inr (if reason \<in> {END_ID, LENGTH, STOP_WORDS} then (True, finish_by reason b r) else (False, r))))))"

section \<open>Greedy verification\<close>

fun forced_loop :: "int tensor3 \<Rightarrow> FinishReason tensor3 \<Rightarrow> nat \<Rightarrow> nat \<Rightarrow> sampled_request \<Rightarrow> (nat \<times> sampled_request) result" where
  \<comment> \<open>so many draft tokens are left to accept\<close>
  "forced_loop new_tokens reasons 0 num_accepted r = Inr (num_accepted, r)"
| "forced_loop new_tokens reasons (Suc k) num_accepted r =
     res_bind (add_token new_tokens 0 (int num_accepted + 1) r) (\<lambda>(t, r1).
     res_bind (finish_if_reason reasons (int num_accepted + 1) 0 r1) (\<lambda>(stop, r2).
       if stop then Inr (num_accepted + 1, r2) else forced_loop new_tokens reasons k (num_accepted + 1) r2))"

fun accept_loop :: "int tensor3 \<Rightarrow> FinishReason tensor3 \<Rightarrow> int list \<Rightarrow> int \<Rightarrow> nat \<Rightarrow> sampled_request \<Rightarrow> (nat \<times> sampled_request) result" where
  "accept_loop new_tokens reasons [] new_token num_accepted r = Inr (num_accepted, r)"
| "accept_loop new_tokens reasons (d # ds) new_token num_accepted r =
     (if d \<noteq> new_token then Inr (num_accepted, r)
      else res_bind (add_token new_tokens 0 (int num_accepted + 1) r) (\<lambda>(t, r1).
        res_bind (finish_if_reason reasons (int num_accepted + 1) 0 r1) (\<lambda>(stop, r2).
          if stop then Inr (num_accepted + 1, r2) else accept_loop new_tokens reasons ds t (num_accepted + 1) r2)))"

definition process_draft_tokens_greedy :: "int \<Rightarrow> int tensor3 \<Rightarrow> FinishReason tensor3 \<Rightarrow> sampled_request \<Rightarrow> (nat \<times> sampled_request) result" where
  \<comment> \<open>the first argument is \<open>_force_num_accepted_tokens\<close>\<close>
  "process_draft_tokens_greedy force new_tokens reasons r =
     res_bind (add_token new_tokens 0 0 r) (\<lambda>(new_token, r1).
     res_bind (finish_if_reason reasons 0 0 r1) (\<lambda>(stop, r2).
       let drafts = (case py_draft_tokens r2 of None \<Rightarrow> [] | Some ds \<Rightarrow> ds) in
       if stop \<or> get_draft_token_length r2 = 0 then Inr (0, r2)
       else if force \<noteq> 0 then forced_loop new_tokens reasons (length (py_slice drafts 0 (min force (int (length drafts))))) 0 r2
       else accept_loop new_tokens reasons drafts new_token 0 r2))"

section \<open>Decoding token by token\<close>

fun decode_steps :: "(int list \<Rightarrow> int) \<Rightarrow> int \<Rightarrow> nat \<Rightarrow> sampled_request \<Rightarrow> sampled_request result" where
  \<comment> \<open>at most so many steps of the target model, until the request stops\<close>
  "decode_steps model msl 0 r = Inr r"
| "decode_steps model msl (Suc n) r =
     (let t = model (beam_tokens r ! 0) in
      res_bind (handle_stop_criteria msl t 0 (extend_beam 0 [t] r)) (\<lambda>(stop, r1).
        if stop then Inr r1 else decode_steps model msl n r1))"

definition targets :: "(int list \<Rightarrow> int) \<Rightarrow> int list \<Rightarrow> int list \<Rightarrow> int tensor3 \<Rightarrow> nat \<Rightarrow> bool" where
  \<comment> \<open>the model's token after each draft position, in the row of the slot\<close>
  "targets model ts drafts new_tokens slot \<longleftrightarrow> (\<forall>s \<le> length drafts. at3 new_tokens s slot 0 = model (ts @ take s drafts))"

section \<open>Verification is decoding\<close>

definition reasons_ok :: "int \<Rightarrow> int list list \<Rightarrow> sampled_request \<Rightarrow> int tensor3 \<Rightarrow> nat \<Rightarrow> FinishReason tensor3 \<Rightarrow> bool" where
  "reasons_ok msl ws r toks slot fin \<longleftrightarrow> (\<forall>s \<le> get_draft_token_length r.
     at3 fin s slot 0 = stop_reason msl ws r (beam_tokens r ! 0 @ new_tokens_upto toks slot 0 s))"

lemma extend_beam_fields [simp]:
  "py_seq_slot (extend_beam b ts r) = py_seq_slot r" "py_draft_tokens (extend_beam b ts r) = py_draft_tokens r"
  "py_stop_words_list (extend_beam b ts r) = py_stop_words_list r" "length (beam_tokens (extend_beam b ts r)) = length (beam_tokens r)"
  "get_draft_token_length (extend_beam b ts r) = get_draft_token_length r"
  by (simp_all add: extend_beam_def get_draft_token_length_def)

lemma beam_tokens_extend [simp]: "b < length (beam_tokens r) \<Longrightarrow> beam_tokens (extend_beam b ts r) ! b = beam_tokens r ! b @ ts"
  by (simp add: extend_beam_def)

lemma extend_beam_twice: "b < length (beam_tokens r) \<Longrightarrow> extend_beam b us (extend_beam b ts r) = extend_beam b (ts @ us) r"
  by (simp add: extend_beam_def)

lemma new_tokens_upto_simps: "new_tokens_upto toks slot b 0 = [at3 toks 0 slot b]"
  "new_tokens_upto toks slot b (Suc s) = new_tokens_upto toks slot b s @ [at3 toks (Suc s) slot b]"
  by (simp_all add: new_tokens_upto_def)

lemma add_token_eq:
  assumes "shaped n m k toks" "s < n" "slot < m" "b < k" "py_seq_slot r = Some slot" "b < length (beam_tokens r)"
  shows "add_token toks b (int s) r = Inr (at3 toks s slot b, extend_beam b [at3 toks s slot b] r)"
  using assms by (simp add: add_token_def shaped_def)

lemma nth_finish_reasons_list:
  assumes "shaped n m k fin" "0 < n"
  shows "length (finish_reasons_list fin) = m" "i < m \<Longrightarrow> finish_reasons_list fin ! i = map (\<lambda>r. r ! i) fin"
  using assms by (cases fin; auto simp: finish_reasons_list_def shaped_def)+

lemma finish_if_reason_handles:
  assumes sh: "shaped n m k fin" "s < n" "slot < m" "0 < k"
    and r: "py_seq_slot r = Some slot" "py_stop_words_list r = stop_words_list ws" "words_ok ws" "0 < length (beam_tokens r)"
    and ok: "reasons_ok msl ws r toks slot fin" "s \<le> get_draft_token_length r"
  defines "r1 \<equiv> extend_beam 0 (new_tokens_upto toks slot 0 s) r"
  shows "finish_if_reason (finish_reasons_list fin) (int s) 0 r1 = handle_stop_criteria msl (at3 toks s slot 0) 0 r1"
proof -
  let ?ts = "beam_tokens r ! 0 @ new_tokens_upto toks slot 0 s" and ?reason = "at3 fin s slot 0"
  have "?reason = stop_reason msl ws r ?ts" using ok by (simp add: reasons_ok_def)
  moreover have "stop_reason msl ws r ?ts \<in> {END_ID, LENGTH, STOP_WORDS, NOT_FINISHED}" by (simp add: stop_reason_def)
  ultimately have rs: "?reason = stop_reason msl ws r ?ts" "?reason \<in> {END_ID, LENGTH, STOP_WORDS} \<longleftrightarrow> ?reason \<noteq> NOT_FINISHED" by auto
  have ts: "beam_tokens r1 ! 0 = ?ts" "last ?ts = at3 toks s slot 0" "?ts \<noteq> []" using r(4) by (simp_all add: r1_def new_tokens_upto_def)
  have "finish_if_reason (finish_reasons_list fin) (int s) 0 r1 = Inr (if ?reason = NOT_FINISHED then (False, r1) else (True, finish_by ?reason 0 r1))"
    using sh r(1) nth_finish_reasons_list[OF sh(1)] rs(2) by (auto simp: finish_if_reason_def r1_def shaped_def)
  also have "\<dots> = handle_stop_criteria msl (at3 toks s slot 0) 0 r1"
    using r ts rs(1) by (intro handle_stop_criteria_reason[where ws = ws, symmetric]) (simp_all add: r1_def)
  finally show ?thesis .
qed

lemma handle_stop_criteria_shape:
  "(\<exists>e. handle_stop_criteria msl t b r = Inl e) \<or> handle_stop_criteria msl t b r = Inr (False, r) \<or> (\<exists>reason. handle_stop_criteria msl t b r = Inr (True, finish_by reason b r))"
  unfolding handle_stop_criteria_def
  by (cases "meet_max_token_stop_criteria r msl b"; cases "meet_stop_token_criteria r t b") auto

lemma handle_stop_criteria_cases:
  assumes "handle_stop_criteria msl t b r = Inr (stop, r1)"
  shows "beam_tokens r1 = beam_tokens r" "stop \<Longrightarrow> state r1 = GENERATION_COMPLETE" "\<not> stop \<Longrightarrow> r1 = r"
proof -
  have c: "(\<not> stop \<and> r1 = r) \<or> (stop \<and> (\<exists>reason. r1 = finish_by reason b r))"
    using handle_stop_criteria_shape[of msl t b r] unfolding assms by simp
  show "beam_tokens r1 = beam_tokens r" using c by (elim disjE conjE exE) (simp_all add: finish_by_def)
  show "state r1 = GENERATION_COMPLETE" if "stop" using c that by (elim disjE conjE exE) (simp_all add: finish_by_def)
  show "r1 = r" if "\<not> stop" using c that by simp
qed

lemma handle_stop_criteria_total:
  assumes "b < length (beam_tokens r)"
  shows "\<exists>stop r1. handle_stop_criteria msl t b r = Inr (stop, r1)"
proof -
  obtain m where "meet_max_token_stop_criteria r msl b = Inr m" using assms by (simp add: meet_max_token_stop_criteria_def get_tokens_def Let_def)
  moreover have "\<exists>x. meet_stop_token_criteria r t b = Inr x"
    using assms by (auto simp: meet_stop_token_criteria_def get_tokens_def split: option.split)
  then obtain x where "meet_stop_token_criteria r t b = Inr x" ..
  ultimately show ?thesis by (auto simp: handle_stop_criteria_def)
qed

text \<open>One verified token is one step of decoding.\<close>

lemma verified_step:
  assumes "shaped n m k toks" "shaped n m k fin" "slot < m" "0 < k" "get_draft_token_length r < n"
    and "py_seq_slot r = Some slot" "py_stop_words_list r = stop_words_list ws" "words_ok ws" "0 < length (beam_tokens r)"
    and "reasons_ok msl ws r toks slot fin" "Suc s \<le> get_draft_token_length r"
    and "at3 toks (Suc s) slot 0 = model (beam_tokens r ! 0 @ new_tokens_upto toks slot 0 s)"
  defines "R \<equiv> \<lambda>s. extend_beam 0 (new_tokens_upto toks slot 0 s) r"
  obtains stop r1 where "add_token toks 0 (int (Suc s)) (R s) = Inr (at3 toks (Suc s) slot 0, R (Suc s))"
    "finish_if_reason (finish_reasons_list fin) (int (Suc s)) 0 (R (Suc s)) = Inr (stop, r1)"
    "\<And>j. decode_steps model msl (Suc j) (R s) = (if stop then Inr r1 else decode_steps model msl j r1)"
    "beam_tokens r1 = beam_tokens (R (Suc s))" "stop \<Longrightarrow> state r1 = GENERATION_COMPLETE" "\<not> stop \<Longrightarrow> r1 = R (Suc s)"
proof -
  let ?t = "at3 toks (Suc s) slot 0"
  have n: "Suc s < n" using assms(5,11) by simp
  have e: "extend_beam 0 [?t] (R s) = R (Suc s)" using assms(9) by (simp add: R_def extend_beam_twice new_tokens_upto_simps(2))
  have a: "add_token toks 0 (int (Suc s)) (R s) = Inr (?t, R (Suc s))"
    using add_token_eq[OF assms(1) n assms(3,4), of "R s"] assms(6,9) e by (simp add: R_def)
  obtain stop r1 where h: "handle_stop_criteria msl ?t 0 (R (Suc s)) = Inr (stop, r1)"
    using handle_stop_criteria_total[of 0 "R (Suc s)" msl ?t] assms(9) by (auto simp: R_def)
  have f: "finish_if_reason (finish_reasons_list fin) (int (Suc s)) 0 (R (Suc s)) = Inr (stop, r1)"
    using finish_if_reason_handles[OF assms(2) n assms(3,4,6-10,11)] h by (simp add: R_def)
  have "model (beam_tokens (R s) ! 0) = ?t" using assms(9,12) by (simp add: R_def)
  then have d: "decode_steps model msl (Suc j) (R s) = (if stop then Inr r1 else decode_steps model msl j r1)" for j
    using e h by (simp add: Let_def)
  show ?thesis by (rule that[OF a f d handle_stop_criteria_cases[OF h]])
qed

lemma accept_loop_decodes:
  assumes sh: "shaped n m k toks" "shaped n m k fin" "slot < m" "0 < k" "get_draft_token_length r < n"
    and r: "py_seq_slot r = Some slot" "py_stop_words_list r = stop_words_list ws" "words_ok ws" "0 < length (beam_tokens r)"
    and ok: "reasons_ok msl ws r toks slot fin" "py_draft_tokens r = Some ds" "targets model (beam_tokens r ! 0) ds toks slot"
    and pre: "\<forall>j < c. ds ! j = at3 toks j slot 0" "c \<le> length ds"
  defines "R \<equiv> \<lambda>s. extend_beam 0 (new_tokens_upto toks slot 0 s) r"
  shows "\<exists>j r'. accept_loop toks (finish_reasons_list fin) (drop c ds) (at3 toks c slot 0) c (R c) = Inr (c + j, r') \<and> c + j \<le> length ds
    \<and> decode_steps model msl j (R c) = Inr r' \<and> length (beam_tokens r' ! 0) = length (beam_tokens r ! 0) + c + j + 1
    \<and> (state r' = GENERATION_COMPLETE \<or> c + j = length ds \<or> ds ! (c + j) \<noteq> last (beam_tokens r' ! 0))"
  using pre
proof (induction "length ds - c" arbitrary: c)
  case 0
  then have c: "c = length ds" by simp
  have "length (beam_tokens (R c) ! 0) = length (beam_tokens r ! 0) + c + 1" using r(4) by (simp add: R_def new_tokens_upto_def)
  then show ?case using c by (intro exI[of _ 0]) simp
next
  case (Suc x)
  then have c: "c < length ds" by simp
  then have dr: "drop c ds = ds ! c # drop (Suc c) ds" by (simp add: Cons_nth_drop_Suc)
  have bt: "beam_tokens (R s) ! 0 = beam_tokens r ! 0 @ new_tokens_upto toks slot 0 s" for s using r(4) by (simp add: R_def)
  show ?case
  proof (cases "ds ! c = at3 toks c slot 0")
    case False
    have "last (beam_tokens (R c) ! 0) = at3 toks c slot 0" unfolding bt by (simp add: new_tokens_upto_def)
    then show ?thesis using False c bt[of c] unfolding dr by (intro exI[of _ 0]) (simp add: new_tokens_upto_def)
  next
    case True
    have len: "Suc c \<le> get_draft_token_length r" using c ok(2) by (simp add: get_draft_token_length_def)
    have pre': "\<forall>j < Suc c. ds ! j = at3 toks j slot 0" using Suc.prems(1) True less_Suc_eq by auto
    have "new_tokens_upto toks slot 0 c = take (Suc c) ds"
      unfolding new_tokens_upto_def using pre' c by (intro nth_equalityI) (auto simp del: upt_Suc)
    then have t: "at3 toks (Suc c) slot 0 = model (beam_tokens r ! 0 @ new_tokens_upto toks slot 0 c)" using ok(3) c by (simp add: targets_def)
    obtain stop r1 where v: "add_token toks 0 (int (Suc c)) (R c) = Inr (at3 toks (Suc c) slot 0, R (Suc c))"
      "finish_if_reason (finish_reasons_list fin) (int (Suc c)) 0 (R (Suc c)) = Inr (stop, r1)"
      "\<And>j. decode_steps model msl (Suc j) (R c) = (if stop then Inr r1 else decode_steps model msl j r1)"
      "beam_tokens r1 = beam_tokens (R (Suc c))" "stop \<Longrightarrow> state r1 = GENERATION_COMPLETE" "\<not> stop \<Longrightarrow> r1 = R (Suc c)"
      unfolding R_def by (rule verified_step[where model = model, OF sh r ok(1) len t]) blast
    have al: "accept_loop toks (finish_reasons_list fin) (drop c ds) (at3 toks c slot 0) c (R c) =
        (if stop then Inr (Suc c, r1) else accept_loop toks (finish_reasons_list fin) (drop (Suc c) ds) (at3 toks (Suc c) slot 0) (Suc c) r1)"
    proof -
      have i: "int c + 1 = int (Suc c)" "c + 1 = Suc c" by simp_all
      show ?thesis unfolding dr accept_loop.simps i v(1) res_bind_simps prod.case v(2) using True by simp
    qed
    show ?thesis
    proof (cases stop)
      case stop: True
      have "length (beam_tokens r1 ! 0) = length (beam_tokens r ! 0) + c + 1 + 1" unfolding v(4) bt by (simp add: new_tokens_upto_def)
      then show ?thesis unfolding al using stop v(5) v(3)[of 0] c by (intro exI[of _ 1] exI[of _ r1]) (simp del: decode_steps.simps)
    next
      case False
      have IH: "\<exists>j r'. accept_loop toks (finish_reasons_list fin) (drop (Suc c) ds) (at3 toks (Suc c) slot 0) (Suc c) (R (Suc c)) = Inr (Suc c + j, r') \<and> Suc c + j \<le> length ds
        \<and> decode_steps model msl j (R (Suc c)) = Inr r' \<and> length (beam_tokens r' ! 0) = length (beam_tokens r ! 0) + Suc c + j + 1
        \<and> (state r' = GENERATION_COMPLETE \<or> Suc c + j = length ds \<or> ds ! (Suc c + j) \<noteq> last (beam_tokens r' ! 0))"
        using Suc.hyps(1)[of "Suc c"] Suc.hyps(2) pre' c by auto
      then obtain j r' where j: "accept_loop toks (finish_reasons_list fin) (drop (Suc c) ds) (at3 toks (Suc c) slot 0) (Suc c) (R (Suc c)) = Inr (Suc c + j, r')"
        "Suc c + j \<le> length ds" "decode_steps model msl j (R (Suc c)) = Inr r'" "length (beam_tokens r' ! 0) = length (beam_tokens r ! 0) + Suc c + j + 1"
        "state r' = GENERATION_COMPLETE \<or> Suc c + j = length ds \<or> ds ! (Suc c + j) \<noteq> last (beam_tokens r' ! 0)" by blast
      then show ?thesis unfolding al using False v(6) v(3)[of j] by (intro exI[of _ "Suc j"] exI[of _ r']) (simp del: decode_steps.simps)
    qed
  qed
qed

lemma greedy_decodes:
  assumes sh: "shaped n m k toks" "shaped n m k fin" "slot < m" "0 < k" "get_draft_token_length r < n"
    and r: "py_seq_slot r = Some slot" "py_stop_words_list r = stop_words_list ws" "words_ok ws" "0 < length (beam_tokens r)"
    and ok: "reasons_ok msl ws r toks slot fin" "py_draft_tokens r = Some ds" "targets model (beam_tokens r ! 0) ds toks slot"
  shows "\<exists>j r'. process_draft_tokens_greedy 0 toks (finish_reasons_list fin) r = Inr (j, r') \<and> j \<le> length ds
    \<and> decode_steps model msl (Suc j) r = Inr r' \<and> length (beam_tokens r' ! 0) = length (beam_tokens r ! 0) + j + 1
    \<and> (state r' = GENERATION_COMPLETE \<or> j = length ds \<or> ds ! j \<noteq> last (beam_tokens r' ! 0))"
proof -
  let ?R = "extend_beam 0 (new_tokens_upto toks slot 0 0) r" and ?t = "at3 toks 0 slot 0"
  have n: "0 < n" using sh(5) by simp
  have e: "extend_beam 0 [?t] r = ?R" by (simp add: new_tokens_upto_simps)
  have a: "add_token toks 0 0 r = Inr (?t, ?R)" using add_token_eq[OF sh(1) n sh(3,4) r(1,4)] by (simp add: new_tokens_upto_simps)
  obtain stop r1 where h: "handle_stop_criteria msl ?t 0 ?R = Inr (stop, r1)" using handle_stop_criteria_total[of 0 ?R msl ?t] r(4) by auto
  have f: "finish_if_reason (finish_reasons_list fin) 0 0 ?R = Inr (stop, r1)"
    using finish_if_reason_handles[OF sh(2) n sh(3,4) r ok(1)] h by simp
  note c = handle_stop_criteria_cases[OF h]
  have "model (beam_tokens r ! 0) = ?t" using ok(3) by (simp add: targets_def)
  then have d: "decode_steps model msl (Suc j) r = (if stop then Inr r1 else decode_steps model msl j r1)" for j using h e by (simp add: Let_def)
  have len: "length (beam_tokens ?R ! 0) = length (beam_tokens r ! 0) + 1" using r(4) by (simp add: new_tokens_upto_simps)
  have g: "process_draft_tokens_greedy 0 toks (finish_reasons_list fin) r =
      (if stop \<or> get_draft_token_length r1 = 0 then Inr (0, r1)
       else accept_loop toks (finish_reasons_list fin) (case py_draft_tokens r1 of None \<Rightarrow> [] | Some ds \<Rightarrow> ds) ?t 0 r1)"
    unfolding process_draft_tokens_greedy_def a res_bind_simps prod.case f by (simp add: Let_def)
  show ?thesis
  proof (cases stop)
    case True
    then show ?thesis using g d[of 0] c(1,2) len by (intro exI[of _ 0] exI[of _ r1]) (simp del: decode_steps.simps)
  next
    case False
    then have r1: "r1 = ?R" using c(3) by simp
    show ?thesis
    proof (cases "ds = []")
      case True
      then show ?thesis using g d[of 0] False ok(2) len by (intro exI[of _ 0] exI[of _ r1]) (simp add: r1 get_draft_token_length_def)
    next
      case ne: False
      have "process_draft_tokens_greedy 0 toks (finish_reasons_list fin) r = accept_loop toks (finish_reasons_list fin) (drop 0 ds) ?t 0 ?R"
        using g False ne ok(2) by (simp add: r1 get_draft_token_length_def)
      then show ?thesis using accept_loop_decodes[OF sh r ok, of 0] d False by (auto simp add: r1 simp del: decode_steps.simps)
    qed
  qed
qed

text \<open>
  C27: verification of draft tokens does not change what is generated. The finish reasons of a batch are computed
  from the target model's tokens; then each request of one beam is processed with its drafts. When the target model's token at every
  draft position is the one it generates after the tokens so far and the drafts before the position, the sampler ends with
  exactly the request that the target model gives when it generates one token at a time and the stop criteria are tested after
  each: with the same tokens, state and finish reason. It takes as many steps as there are accepted drafts and one more, and it accepts
  as many as it can: it ends when the request stops, no draft is left, or the next draft is not the generated token.
\<close>

theorem verification_is_decoding:
  assumes "batch_ok S words rs" "placed m rs slots" "shaped (max_tokens S) m (max_beam_width S) toks" "shaped (max_tokens S) m (max_beam_width S) fin"
    and "\<forall>s < max_tokens S. \<forall>i < m. \<forall>b < max_beam_width S. 0 \<le> at3 toks s i b" "max_beam_width S = 1"
    and "i < length rs" "py_draft_tokens (rs ! i) = Some ds" "targets model (beam_tokens (rs ! i) ! 0) ds toks (slots ! i)"
  shows "\<exists>fin' j r'. write_finish_reasons S rs slots toks None None fin = Inr (fin', None)
    \<and> process_draft_tokens_greedy 0 toks (finish_reasons_list fin') (rs ! i) = Inr (j, r')
    \<and> decode_steps model (max_seq_len S) (j + 1) (rs ! i) = Inr r' \<and> length (beam_tokens r' ! 0) = length (beam_tokens (rs ! i) ! 0) + j + 1
    \<and> (state r' = GENERATION_COMPLETE \<or> j = length ds \<or> ds ! j \<noteq> last (beam_tokens r' ! 0))"
proof -
  have k: "0 < max_beam_width S" using assms(6) by simp
  obtain fin' where f: "write_finish_reasons S rs slots toks None None fin = Inr (fin', None)" "shaped (max_tokens S) m (max_beam_width S) fin'"
    "\<And>s i b. i < length rs \<Longrightarrow> b < max_beam_width S \<Longrightarrow> s \<le> get_draft_token_length (rs ! i) \<Longrightarrow>
      at3 fin' s (slots ! i) b = stop_reason (max_seq_len S) (words i) (rs ! i) (beam_tokens (rs ! i) ! b @ new_tokens_upto toks (slots ! i) b s)"
    by (rule write_finish_reasons_eq[OF assms(1-4) k assms(5)]) blast
  have r: "slots ! i < m" "get_draft_token_length (rs ! i) < max_tokens S" "py_seq_slot (rs ! i) = Some (slots ! i)"
    "py_stop_words_list (rs ! i) = stop_words_list (words i)" "words_ok (words i)" "0 < length (beam_tokens (rs ! i))"
    using assms(1,2,6,7) by (simp_all add: batch_ok_def placed_def)
  have "reasons_ok (max_seq_len S) (words i) (rs ! i) toks (slots ! i) fin'" using f(3)[OF assms(7) k] by (simp add: reasons_ok_def)
  from greedy_decodes[OF assms(3) f(2) r(1) k r(2-6) this assms(8,9)] show ?thesis using f(1) by auto
qed

definition example_model :: "int list \<Rightarrow> int" where
  \<comment> \<open>generates 7, 8, 2 after the prompt\<close>
  "example_model ts = (if length ts = 4 then 7 else if length ts = 5 then 8 else 2)"

theorem verification_is_decoding_witness:
  "\<exists>fin' j r'. write_finish_reasons example_sampler example_batch [2, 0] example_new_tokens None None example_fin = Inr (fin', None)
    \<and> process_draft_tokens_greedy 0 example_new_tokens (finish_reasons_list fin') (example_batch ! 0) = Inr (j, r')
    \<and> decode_steps example_model (max_seq_len example_sampler) (j + 1) (example_batch ! 0) = Inr r'
    \<and> length (beam_tokens r' ! 0) = length (beam_tokens (example_batch ! 0) ! 0) + j + 1
    \<and> (state r' = GENERATION_COMPLETE \<or> j = length [7, 8 :: int] \<or> [7, 8] ! j \<noteq> last (beam_tokens r' ! 0))"
proof (rule verification_is_decoding[OF example_batch_facts])
  have three: "s \<le> 2 \<longleftrightarrow> s = 0 \<or> s = 1 \<or> s = 2" for s :: nat by auto
  show "targets example_model (beam_tokens (example_batch ! 0) ! 0) [7, 8] example_new_tokens ([2, 0] ! 0)"
    by (auto simp: targets_def example_model_def example_new_tokens_def example_batch_def example_sampled_simps three)
qed (simp_all add: example_sampler_def example_batch_def example_sampled_simps)

end
