(* ===== verification/Draft_Tree.thy ===== *)
theory Draft_Tree
  imports Draft_Verification "HOL-Library.Word" "HOL-Library.Product_Lexorder" "HOL-Library.List_Lexorder"
begin

text \<open>
  Trees of draft tokens: the choices of a configuration (\<open>check_eagle_choices\<close> of \<open>llmapi/llm_args.py\<close>), the static tree with its attention
  masks (\<open>_torch/speculative/spec_tree_manager.py\<close>) and the verification of a tree (\<open>_process_draft_tokens_tree\<close> of
  \<open>_torch/pyexecutor/sampler.py\<close>).

  A choice is the list of child positions from the root to a node. Node 0 is the root, node \<open>i + 1\<close> belongs to choice \<open>i\<close>. A choice is
  looked up by its printed form; the model takes the list, printing being injective. Masks are packed into 32-bit
  words. A tensor with the leading dimension of one tree is modelled without it; dynamic trees are not modelled.
\<close>

section \<open>Choices\<close>

definition check_eagle_choices :: "int list list \<Rightarrow> (int list list \<times> nat) result" where
  \<comment> \<open>the choices it leaves in the configuration, and the number of layers\<close>
  "check_eagle_choices choices =
     (let cs = sort_key (\<lambda>c. (length c, c)) (remdups choices) in
      res_bind (py_assert (list_all (\<lambda>c. length c > 1 \<longrightarrow> butlast c \<in> set cs) cs)) (\<lambda>_.
        if cs = [] then Inl ValueError else Inr (cs, fold max (map length cs) 0)))"

section \<open>The static tree\<close>

record spec_tree =
  index_mapping_set :: "(int list, nat) dict"
  nodes_list_per_layer :: "nat list list"
  eagle_paths :: "int list list"
  top_k_list :: "nat list list"
  spec_dec_mask_matrix :: "int list list"
  spec_dec_packed_mask :: "32 word list list"
  spec_dec_position_offsets :: "nat list"
  max_top_k :: int
  tokens_gather_idx :: "nat list list"
  draft_tokens_indices_cumsum :: "nat list"
  drafter_packed_mask :: "32 word list list"
  hidden_read_offsets :: "nat list"

definition index_mapping :: "int list list \<Rightarrow> (int list, nat) dict" where
  "index_mapping choices = fold (\<lambda>(i, c). AList.update c (i + 1)) (enumerate 0 choices) []"

fun write_path :: "nat \<Rightarrow> (int list, nat) dict \<Rightarrow> int list \<Rightarrow> nat list \<Rightarrow> int list \<Rightarrow> int list result" where
  "write_path layers idx c [] row = Inr row"
| "write_path layers idx c (j # js) row =
     res_bind (dict_get idx (take (j + 1) c)) (\<lambda>k.
       if j + 1 \<le> layers then write_path layers idx c js (row[j + 1 := int k]) else Inl IndexError)"

definition build_paths :: "nat \<Rightarrow> nat \<Rightarrow> (int list, nat) dict \<Rightarrow> int list list \<Rightarrow> int list list result" where
  "build_paths nodes layers idx choices =
     res_fold (\<lambda>(i, c) paths.
         if i + 1 \<le> nodes then res_bind (write_path layers idx c [0..<length c] ((paths ! (i + 1))[0 := 0])) (\<lambda>row. Inr (paths[i + 1 := row]))
         else Inl IndexError)
       (enumerate 0 choices) ((replicate (nodes + 1) (replicate (layers + 1) (- 1)))[0 := (replicate (layers + 1) (- 1))[0 := 0]])"

definition build_layers :: "nat \<Rightarrow> (int list, nat) dict \<Rightarrow> int list list \<Rightarrow> nat list list result" where
  "build_layers layers idx choices =
     res_fold (\<lambda>c ls. if length c \<le> layers then res_bind (dict_get idx c) (\<lambda>k. Inr (ls[length c := ls ! length c @ [k]])) else Inl IndexError)
       choices ((replicate (layers + 1) [])[0 := [0]])"

definition parent_node :: "(int list, nat) dict \<Rightarrow> int list \<Rightarrow> nat result" where
  "parent_node idx c = (if length c = 1 then Inr 0 else dict_get idx (butlast c))"

definition build_children :: "nat \<Rightarrow> (int list, nat) dict \<Rightarrow> int list list \<Rightarrow> nat list list result" where
  "build_children nodes idx choices =
     res_fold (\<lambda>c ch. res_bind (parent_node idx c) (\<lambda>p. res_bind (dict_get idx c) (\<lambda>k. Inr (ch[p := ch ! p @ [k]])))) choices (replicate (nodes + 1) [])"

definition layer_top_k :: "nat list list \<Rightarrow> nat list list \<Rightarrow> nat \<Rightarrow> nat list result" where
  "layer_top_k layers children i =
     (let ks = map length (filter (\<lambda>ch. ch \<noteq> []) (map ((!) children) (layers ! i))) in
      res_bind (py_assert (sum_list ks = length (layers ! (i + 1)))) (\<lambda>_. Inr ks))"

definition mask_row :: "nat \<Rightarrow> nat \<Rightarrow> int list \<Rightarrow> int list" where
  "mask_row nodes i path = fold (\<lambda>p row. row[nat p := 1]) (filter (\<lambda>p. p > - 1) path) ((replicate (nodes + 1) 0)[i := 1])"

definition block_value :: "int list \<Rightarrow> 32 word" where
  \<comment> \<open>weights and products are 32-bit, the sum is stored in 32 bits\<close>
  "block_value bits = word_of_int (sum_list (map2 (\<lambda>b j. sint (word_of_int b * 2 ^ j :: 32 word)) bits [0..<length bits]))"

definition compute_packed_mask :: "nat \<Rightarrow> int list list \<Rightarrow> 32 word list list" where
  "compute_packed_mask nodes matrix = map (\<lambda>row. map (\<lambda>k. block_value (take 32 (drop (32 * k) row))) [0..<(nodes + 1 + 31) div 32]) matrix"

definition position_offsets :: "nat \<Rightarrow> nat list list \<Rightarrow> nat list" where
  "position_offsets nodes layers =
     snd (fold (\<lambda>(i, l) (start, offs). (start + length l, map (\<lambda>k. if start \<le> k \<and> k < start + length l then i else offs ! k) [0..<length offs]))
       (enumerate 0 layers) (0, replicate (nodes + 1) 0))"

definition max_of_top_k :: "nat list list \<Rightarrow> int result" where
  \<comment> \<open>the maximum of an empty tensor raises\<close>
  "max_of_top_k ks = res_fold (\<lambda>k m. if k = [] then Inl RuntimeError else Inr (max m (int (fold max k 0)))) ks (- 1)"

definition gather_idx :: "nat list list \<Rightarrow> nat list list \<Rightarrow> nat list list" where
  "gather_idx layers children = [0] # map (\<lambda>l. map (\<lambda>k. k - 1) (filter (\<lambda>k. children ! k \<noteq> []) l)) (tl layers)"

fun accumulate :: "nat \<Rightarrow> nat list \<Rightarrow> nat list" where
  "accumulate a [] = []"
| "accumulate a (x # xs) = (a + x) # accumulate (a + x) xs"

definition drafter_matrix :: "nat \<Rightarrow> int list list \<Rightarrow> int list list" where
  "drafter_matrix nodes m = map (\<lambda>i. map (\<lambda>j. if i < nodes \<and> j < nodes then m ! (i + 1) ! (j + 1) else 0) [0..<nodes + 1]) [0..<nodes + 1]"

definition read_offsets :: "nat \<Rightarrow> nat list \<Rightarrow> nat list result" where
  \<comment> \<open>assignment to a slice: a single element is repeated\<close>
  "read_offsets nodes parents =
     (if length parents = nodes then Inr (parents @ [0])
      else if length parents = 1 then Inr (replicate nodes (hd parents) @ [0])
      else Inl RuntimeError)"

definition init_static_tree :: "nat \<Rightarrow> nat \<Rightarrow> int list list \<Rightarrow> spec_tree result" where
  \<comment> \<open>\<open>max_total_draft_tokens\<close>, \<open>max_draft_len\<close> and the choices\<close>
  "init_static_tree nodes layers choices =
     (let idx = index_mapping choices in
      res_bind (build_paths nodes layers idx choices) (\<lambda>paths.
      res_bind (build_layers layers idx choices) (\<lambda>ls.
      res_bind (build_children nodes idx choices) (\<lambda>ch.
      res_bind (res_map (layer_top_k ls ch) [0..<layers]) (\<lambda>ks.
      let matrix = map (\<lambda>(i, p). mask_row nodes i p) (enumerate 0 paths) in
      res_bind (max_of_top_k ks) (\<lambda>mk.
      res_bind (res_map (parent_node idx) choices) (\<lambda>parents.
      res_bind (read_offsets nodes parents) (\<lambda>offs.
        Inr \<lparr>index_mapping_set = idx, nodes_list_per_layer = ls, eagle_paths = paths, top_k_list = ks, spec_dec_mask_matrix = matrix,
             spec_dec_packed_mask = compute_packed_mask nodes matrix, spec_dec_position_offsets = position_offsets nodes ls, max_top_k = mk,
             tokens_gather_idx = gather_idx ls ch, draft_tokens_indices_cumsum = accumulate 0 (0 # map length (tl ls)),
             drafter_packed_mask = compute_packed_mask nodes (drafter_matrix nodes matrix), hidden_read_offsets = offs\<rparr>))))))))"

section \<open>Verification of a tree\<close>

definition take_indices :: "'a list \<Rightarrow> int list \<Rightarrow> 'a list result" where
  \<comment> \<open>a tensor indexed by a tensor\<close>
  "take_indices xs is = res_map (py_index xs) is"

definition accepted_len :: "int list \<Rightarrow> int list \<Rightarrow> int list \<Rightarrow> nat result" where
  \<comment> \<open>of one path: the leading agreements, and one token of the target model\<close>
  "accepted_len drafts targs path =
     (let draft_indices = filter (\<lambda>p. p \<ge> 0) (map (\<lambda>p. p - 1) (tl path)); target_indices = filter (\<lambda>p. p \<ge> 0) path in
      res_bind (py_assert (int (length draft_indices) = int (length target_indices) - 1)) (\<lambda>_.
      res_bind (take_indices drafts draft_indices) (\<lambda>ds.
      res_bind (take_indices targs target_indices) (\<lambda>ts.
        Inr (length (takeWhile (\<lambda>(d, t). d = t) (zip ds (butlast ts))) + 1)))))"

fun longest_path :: "int list \<Rightarrow> int list \<Rightarrow> (nat \<times> int list) list \<Rightarrow> nat \<Rightarrow> int \<Rightarrow> (nat \<times> int) result" where
  "longest_path drafts targs [] len best = Inr (len, best)"
| "longest_path drafts targs ((i, p) # ps) len best =
     res_bind (accepted_len drafts targs p) (\<lambda>l. if l > len then longest_path drafts targs ps l (int i) else longest_path drafts targs ps len best)"

fun add_path :: "int tensor3 \<Rightarrow> FinishReason tensor3 \<Rightarrow> int list \<Rightarrow> nat \<Rightarrow> sampled_request \<Rightarrow> (nat \<times> sampled_request) result" where
  "add_path toks reasons [] num r = Inr (num, r)"
| "add_path toks reasons (step # steps) num r =
     res_bind (add_token toks 0 step r) (\<lambda>(_, r1).
     res_bind (finish_if_reason reasons step 0 r1) (\<lambda>(stop, r2).
       if stop then Inr (num + 1, r2) else add_path toks reasons steps (num + 1) r2))"

definition process_draft_tokens_tree :: "nat \<Rightarrow> int list list \<Rightarrow> int tensor3 \<Rightarrow> FinishReason tensor3 \<Rightarrow> sampled_request
    \<Rightarrow> (int \<times> int list \<times> sampled_request) result" where
  \<comment> \<open>for requests of one beam: the number of accepted drafts, their nodes, and the request\<close>
  "process_draft_tokens_tree nodes paths toks reasons r =
     (case py_seq_slot r of
        None \<Rightarrow> Inl AssertionError
      | Some slot \<Rightarrow>
          res_bind (case py_draft_tokens r of None \<Rightarrow> Inl RuntimeError | Some ds \<Rightarrow> Inr ds) (\<lambda>drafts.
          let targs = map (\<lambda>row. row ! slot ! 0) toks in
          res_bind (py_assert (length targs = nodes + 1)) (\<lambda>_.
          res_bind (longest_path drafts targs (enumerate 0 paths) 0 (- 1)) (\<lambda>(len, best).
          res_bind (py_assert (len \<ge> 1 \<and> (len = 1 \<longrightarrow> best = 0))) (\<lambda>_.
          res_bind (py_index paths best) (\<lambda>path.
          res_bind (add_path toks reasons (take len path) 0 r) (\<lambda>(num, r1).
          res_bind (py_assert (num \<le> len)) (\<lambda>_.
            Inr (int num - 1, map (\<lambda>p. p - 1) (drop 1 (take num path)), r1)))))))))"

section \<open>Nodes and choices\<close>

definition choice_of :: "int list list \<Rightarrow> nat \<Rightarrow> int list" where
  "choice_of cs i = (if i = 0 then [] else cs ! (i - 1))"

definition node_of :: "int list list \<Rightarrow> int list \<Rightarrow> nat" where
  "node_of cs c = (if c = [] then 0 else the (map_of (index_mapping cs) c))"

definition tree_choices :: "nat \<Rightarrow> int list list \<Rightarrow> bool" where
  "tree_choices layers cs \<longleftrightarrow> distinct cs \<and> [] \<notin> set cs \<and> cs \<noteq> [] \<and> (\<forall>c \<in> set cs. length c > 1 \<longrightarrow> butlast c \<in> set cs)
     \<and> sorted (map length cs) \<and> layers = Max (set (map length cs))"

lemma index_mapping_snoc: "index_mapping (cs @ [c]) = AList.update c (length cs + 1) (index_mapping cs)"
  by (simp add: index_mapping_def enumerate_append_eq)

lemma index_mapping_None: "c \<notin> set cs \<Longrightarrow> map_of (index_mapping cs) c = None"
proof (induction cs rule: rev_induct)
  case (snoc x cs)
  then show ?case by (simp add: index_mapping_snoc)
qed (simp add: index_mapping_def)

lemma index_mapping_nth: "distinct cs \<Longrightarrow> i < length cs \<Longrightarrow> map_of (index_mapping cs) (cs ! i) = Some (i + 1)"
proof (induction cs rule: rev_induct)
  case (snoc c cs)
  show ?case
  proof (cases "i = length cs")
    case True
    then show ?thesis by (simp add: index_mapping_snoc)
  next
    case False
    then have i: "i < length cs" using snoc.prems(2) by simp
    have "cs ! i \<noteq> c" using snoc.prems(1) nth_mem[OF i] by auto
    then show ?thesis using snoc.IH snoc.prems(1) i by (simp add: index_mapping_snoc nth_append)
  qed
qed simp

lemma node_of_nth:
  assumes "distinct cs" "[] \<notin> set cs" "i < length cs"
  shows "node_of cs (cs ! i) = i + 1"
proof -
  have "cs ! i \<noteq> []" using nth_mem[OF assms(3)] assms(2) by metis
  then show ?thesis using index_mapping_nth[OF assms(1,3)] by (simp add: node_of_def)
qed

lemma tree_facts:
  assumes "tree_choices layers cs"
  shows "distinct cs" "[] \<notin> set cs" "cs \<noteq> []" "sorted (map length cs)" "c \<in> set cs \<Longrightarrow> length c > 1 \<Longrightarrow> butlast c \<in> set cs"
    "c \<in> set cs \<Longrightarrow> length c \<le> layers" "c \<in> set cs \<Longrightarrow> c \<noteq> []"
  using assms by (auto simp: tree_choices_def)

lemma take_in_tree:
  assumes "tree_choices layers cs" "c \<in> set cs" "0 < k"
  shows "take k c \<in> set cs"
  using assms(3)
proof (induction "length c - k" arbitrary: k)
  case 0
  then show ?case using assms(2) by simp
next
  case (Suc d)
  then have k: "k < length c" by simp
  have "take (Suc k) c \<in> set cs" using Suc.hyps(1)[of "Suc k"] Suc.hyps(2) by simp
  moreover have "length (take (Suc k) c) > 1" "butlast (take (Suc k) c) = take k c" using k Suc.prems by (simp_all add: butlast_take)
  ultimately show ?case using tree_facts(5)[OF assms(1)] by metis
qed

definition in_tree :: "int list list \<Rightarrow> int list \<Rightarrow> bool" where
  "in_tree cs c \<longleftrightarrow> c = [] \<or> c \<in> set cs"

lemma in_tree_take: "tree_choices layers cs \<Longrightarrow> in_tree cs c \<Longrightarrow> in_tree cs (take k c)"
  using take_in_tree by (cases "k = 0") (auto simp: in_tree_def)

lemma choice_of_in_tree: "i \<le> length cs \<Longrightarrow> in_tree cs (choice_of cs i)"
  by (auto simp: in_tree_def choice_of_def)

lemma node_choice: "tree_choices layers cs \<Longrightarrow> i \<le> length cs \<Longrightarrow> node_of cs (choice_of cs i) = i"
  using node_of_nth[of cs "i - 1"] tree_facts(1,2) by (cases i) (auto simp: choice_of_def node_of_def)

lemma choice_node:
  assumes "tree_choices layers cs" "in_tree cs c"
  shows "choice_of cs (node_of cs c) = c" "node_of cs c \<le> length cs"
proof -
  have "choice_of cs (node_of cs c) = c \<and> node_of cs c \<le> length cs"
  proof (cases "c = []")
    case False
    then obtain i where "i < length cs" "c = cs ! i" using assms(2) by (auto simp: in_tree_def in_set_conv_nth)
    then show ?thesis using node_of_nth[OF tree_facts(1,2)[OF assms(1)]] by (simp add: choice_of_def)
  qed (simp add: choice_of_def node_of_def)
  then show "choice_of cs (node_of cs c) = c" "node_of cs c \<le> length cs" by simp_all
qed

lemma dict_get_node: "tree_choices layers cs \<Longrightarrow> c \<in> set cs \<Longrightarrow> dict_get (index_mapping cs) c = Inr (node_of cs c)"
  using index_mapping_nth[OF tree_facts(1)] node_of_nth[OF tree_facts(1,2)] by (force simp: in_set_conv_nth)

lemma check_eagle_choices_tree:
  assumes "check_eagle_choices choices = Inr (cs, layers)" "[] \<notin> set choices"
  shows "tree_choices layers cs"
proof -
  have cs: "cs = sort_key (\<lambda>c. (length c, c)) (remdups choices)" and a: "\<forall>c \<in> set cs. length c > 1 \<longrightarrow> butlast c \<in> set cs"
    and ne: "cs \<noteq> []" and l: "layers = fold max (map length cs) 0"
    using assms(1) by (auto simp: check_eagle_choices_def Let_def list_all_iff split: if_splits)
  have "sorted_wrt (\<lambda>c d. (length c, c) \<le> (length d, d)) cs" using sorted_sort_key[of "\<lambda>c. (length c, c)" "remdups choices"] unfolding cs sorted_map .
  then have "sorted (map length cs)" unfolding sorted_map by (rule sorted_wrt_mono_rel[rotated]) (auto simp: less_eq_prod_def)
  moreover have "layers = Max (set (map length cs))"
  proof -
    have "layers = Max (set (0 # map length cs))" using l Max.set_eq_fold[of 0 "map length cs"] by simp
    also have "\<dots> = max 0 (Max (set (map length cs)))" using ne by (simp add: Max_insert)
    finally show ?thesis by simp
  qed
  ultimately show ?thesis using a ne assms(2) by (auto simp: tree_choices_def cs comp_def)
qed

section \<open>Paths\<close>

definition path_nodes :: "int list list \<Rightarrow> int list \<Rightarrow> nat list" where
  "path_nodes cs c = map (\<lambda>j. node_of cs (take j c)) [0..<Suc (length c)]"

definition path_row :: "nat \<Rightarrow> int list list \<Rightarrow> int list \<Rightarrow> int list" where
  "path_row layers cs c = map int (path_nodes cs c) @ replicate (layers - length c) (- 1)"

lemma write_path_eq:
  assumes "tree_choices layers cs" "c \<in> set cs" "length row = layers + 1" "a \<le> length c"
  shows "write_path layers (index_mapping cs) c [a..<length c] row
    = Inr (take (a + 1) row @ map (\<lambda>j. int (node_of cs (take (j + 1) c))) [a..<length c] @ drop (length c + 1) row)"
  using assms(3,4)
proof (induction "length c - a" arbitrary: a row)
  case 0
  then show ?case by simp
next
  case (Suc d)
  then have a: "a < length c" by simp
  have l: "a + 1 \<le> layers" using tree_facts(6)[OF assms(1,2)] a by simp
  let ?v = "int (node_of cs (take (a + 1) c))"
  have g: "dict_get (index_mapping cs) (take (a + 1) c) = Inr (node_of cs (take (a + 1) c))"
    by (rule dict_get_node[OF assms(1) take_in_tree[OF assms(1,2)]]) simp
  have IH: "write_path layers (index_mapping cs) c [Suc a..<length c] (row[a + 1 := ?v])
      = Inr (take (Suc a + 1) (row[a + 1 := ?v]) @ map (\<lambda>j. int (node_of cs (take (j + 1) c))) [Suc a..<length c] @ drop (length c + 1) (row[a + 1 := ?v]))"
    using Suc.hyps(1)[of "Suc a" "row[a + 1 := ?v]"] Suc.hyps(2) Suc.prems a by simp
  have t: "take (Suc a + 1) (row[a + 1 := ?v]) = take (a + 1) row @ [?v]" using Suc.prems(1) l by (simp add: take_Suc_conv_app_nth)
  have u: "[a..<length c] = a # [Suc a..<length c]" using a by (rule upt_conv_Cons)
  show ?case unfolding u using g l IH t a by simp
qed

lemma row_of_choice:
  assumes "tree_choices layers cs" "c \<in> set cs"
  shows "write_path layers (index_mapping cs) c [0..<length c] ((replicate (layers + 1) (- 1))[0 := 0]) = Inr (path_row layers cs c)"
proof -
  let ?row = "(replicate (layers + 1) (- 1 :: int))[0 := 0]"
  have r: "?row = 0 # replicate layers (- 1)" by simp
  have "path_nodes cs c = 0 # map (\<lambda>j. node_of cs (take (j + 1) c)) [0..<length c]"
    unfolding path_nodes_def by (subst upt_conv_Cons) (simp_all add: node_of_def map_Suc_upt[symmetric] comp_def del: upt_Suc)
  then have "take 1 ?row @ map (\<lambda>j. int (node_of cs (take (j + 1) c))) [0..<length c] @ drop (length c + 1) ?row = path_row layers cs c"
    unfolding r path_row_def by simp
  then show ?thesis using write_path_eq[OF assms, of ?row 0] by simp
qed

lemma build_paths_loop:
  assumes "tree_choices layers cs" "set xs \<subseteq> set cs" "length paths = nodes + 1" "k + length xs \<le> nodes"
    and "\<forall>i. k < i \<and> i \<le> nodes \<longrightarrow> paths ! i = replicate (layers + 1) (- 1)"
  shows "res_fold (\<lambda>(i, c) paths.
         if i + 1 \<le> nodes then res_bind (write_path layers (index_mapping cs) c [0..<length c] ((paths ! (i + 1))[0 := 0])) (\<lambda>row. Inr (paths[i + 1 := row]))
         else Inl IndexError) (enumerate k xs) paths
    = Inr (take (k + 1) paths @ map (path_row layers cs) xs @ drop (k + 1 + length xs) paths)"
  using assms(2-5)
proof (induction xs arbitrary: k paths)
  case (Cons c xs)
  have k: "k + 1 \<le> nodes" using Cons.prems(3) by simp
  have c: "c \<in> set cs" using Cons.prems(1) by simp
  let ?p = "paths[k + 1 := path_row layers cs c]"
  have w: "write_path layers (index_mapping cs) c [0..<length c] ((paths ! (k + 1))[0 := 0]) = Inr (path_row layers cs c)"
    using row_of_choice[OF assms(1) c] Cons.prems(4) k by simp
  have t: "take (Suc k + 1) ?p = take (k + 1) paths @ [path_row layers cs c]" using Cons.prems(2) k by (simp add: take_Suc_conv_app_nth)
  show ?case using Cons.IH[of ?p "Suc k"] Cons.prems w k t by simp
qed simp

lemma build_paths_eq:
  assumes "tree_choices layers cs"
  shows "build_paths (length cs) layers (index_mapping cs) cs = Inr (map (\<lambda>i. path_row layers cs (choice_of cs i)) [0..<Suc (length cs)])"
proof -
  let ?paths = "(replicate (length cs + 1) (replicate (layers + 1) (- 1 :: int)))[0 := (replicate (layers + 1) (- 1))[0 := 0]]"
  have init: "\<forall>i. 0 < i \<and> i \<le> length cs \<longrightarrow> ?paths ! i = replicate (layers + 1) (- 1)" by auto
  have "build_paths (length cs) layers (index_mapping cs) cs = Inr (take (0 + 1) ?paths @ map (path_row layers cs) cs @ drop (0 + 1 + length cs) ?paths)"
    unfolding build_paths_def by (rule build_paths_loop[OF assms subset_refl _ _ init]) simp_all
  also have "take (0 + 1) ?paths = [path_row layers cs []]" by (simp add: path_row_def path_nodes_def node_of_def)
  also have "drop (0 + 1 + length cs) ?paths = []" by simp
  also have "[path_row layers cs []] @ map (path_row layers cs) cs @ [] = map (\<lambda>i. path_row layers cs (choice_of cs i)) [0..<Suc (length cs)]"
    by (rule nth_equalityI) (auto simp: choice_of_def nth_Cons' simp del: upt_Suc)
  finally show ?thesis .
qed

section \<open>Masks\<close>

lemma set_path_nodes: "set (path_nodes cs c) = node_of cs ` {p. prefix p c}"
proof -
  have "p \<in> (\<lambda>j. take j c) ` {0..<Suc (length c)}" if "prefix p c" for p
  proof (rule image_eqI)
    show "p = take (length p) c" using that by (auto simp: prefix_def)
    show "length p \<in> {0..<Suc (length c)}" using prefix_length_le[OF that] by simp
  qed
  then have "{p. prefix p c} = (\<lambda>j. take j c) ` {0..<Suc (length c)}" by (auto simp: take_is_prefix)
  then show ?thesis by (auto simp: path_nodes_def simp del: upt_Suc)
qed

lemma fold_set_ones: "length (fold (\<lambda>p row. row[nat p := 1]) ps row) = length row"
  "j < length row \<Longrightarrow> fold (\<lambda>p row. row[nat p := 1]) ps row ! j = (if j \<in> nat ` set ps then 1 else row ! j)"
proof -
  show len: "length (fold (\<lambda>p row. row[nat p := 1]) ps row) = length row" for row by (induction ps arbitrary: row) auto
  show "j < length row \<Longrightarrow> fold (\<lambda>p row. row[nat p := 1]) ps row ! j = (if j \<in> nat ` set ps then 1 else row ! j)"
    by (induction ps arbitrary: row) (auto simp: nth_list_update)
qed

lemma mask_row_nth:
  assumes "tree_choices layers cs" "i \<le> length cs" "j \<le> length cs"
  shows "length (mask_row (length cs) i (path_row layers cs (choice_of cs i))) = length cs + 1"
    "mask_row (length cs) i (path_row layers cs (choice_of cs i)) ! j = of_bool (prefix (choice_of cs j) (choice_of cs i))"
proof -
  let ?c = "choice_of cs i"
  have f: "filter (\<lambda>p. p > - 1) (path_row layers cs ?c) = map int (path_nodes cs ?c)" by (simp add: path_row_def filter_map comp_def)
  show "length (mask_row (length cs) i (path_row layers cs ?c)) = length cs + 1" 
    unfolding mask_row_def fold_set_ones(1) length_list_update length_replicate ..
  have "j \<in> nat ` set (map int (path_nodes cs ?c)) \<longleftrightarrow> j \<in> set (path_nodes cs ?c)" by (auto simp: image_iff)
  also have "\<dots> \<longleftrightarrow> prefix (choice_of cs j) ?c"
  proof
    assume "j \<in> set (path_nodes cs ?c)"
    then obtain p where p: "prefix p ?c" "j = node_of cs p" by (auto simp: set_path_nodes)
    have "p = take (length p) ?c" using p(1) by (auto simp: prefix_def)
    then have "in_tree cs p" using in_tree_take[OF assms(1) choice_of_in_tree[OF assms(2)]] by metis
    then show "prefix (choice_of cs j) ?c" using choice_node(1)[OF assms(1)] p by simp
  next
    assume "prefix (choice_of cs j) ?c"
    moreover have "j = node_of cs (choice_of cs j)" using node_choice[OF assms(1,3)] by simp
    ultimately show "j \<in> set (path_nodes cs ?c)" by (auto simp: set_path_nodes)
  qed
  finally show "mask_row (length cs) i (path_row layers cs ?c) ! j = of_bool (prefix (choice_of cs j) ?c)"
    unfolding mask_row_def f using assms(2,3) by (subst fold_set_ones(2)) (auto simp: nth_list_update simp del: replicate.simps)
qed

lemma block_value_horner:
  assumes "length bs \<le> 32"
  shows "block_value (map of_bool bs) = horner_sum of_bool 2 bs"
proof -
  have s: "sum_list (map2 (\<lambda>b j. sint (word_of_int b * 2 ^ j :: 32 word)) (map of_bool bs) [0..<length bs])
      = (\<Sum>j = 0..<length bs. sint (word_of_int (of_bool (bs ! j)) * 2 ^ j :: 32 word))"
    by (simp add: sum_list_sum_nth)
  show ?thesis unfolding block_value_def length_map s of_int_sum horner_sum_eq_sum by (auto intro!: sum.cong)
qed

lemma bit_block_value: "length bs \<le> 32 \<Longrightarrow> bit (block_value (map of_bool bs)) n \<longleftrightarrow> n < length bs \<and> bs ! n"
  by (auto simp: block_value_horner bit_horner_sum_bit_iff)

text \<open>A bit of the packed mask is an entry of the matrix.\<close>

lemma packed_mask_bit:
  assumes "i < length matrix" "matrix ! i = map of_bool bs" "length bs = nodes + 1" "j \<le> nodes"
  shows "bit (compute_packed_mask nodes matrix ! i ! (j div 32)) (j mod 32) \<longleftrightarrow> bs ! j"
proof -
  let ?k = "j div 32"
  have k: "?k < (nodes + 1 + 31) div 32" using assms(4) by (simp add: less_Suc_eq_le div_le_mono flip: Suc_eq_plus1)
  have b: "take 32 (drop (32 * ?k) (matrix ! i)) = map of_bool (take 32 (drop (32 * ?k) bs))" using assms(2) by (simp add: take_map drop_map)
  have m: "32 * ?k + j mod 32 = j" by simp
  have "bit (compute_packed_mask nodes matrix ! i ! ?k) (j mod 32) \<longleftrightarrow> j mod 32 < length (take 32 (drop (32 * ?k) bs)) \<and> take 32 (drop (32 * ?k) bs) ! (j mod 32)"
    using assms(1) k by (simp add: compute_packed_mask_def b bit_block_value del: upt_Suc)
  also have "\<dots> \<longleftrightarrow> bs ! j"
  proof -
    have "j mod 32 < length (drop (32 * ?k) bs)" using assms(3,4) m by (simp only: length_drop)
    then show ?thesis using assms(3,4) m by simp
  qed
  finally show ?thesis .
qed

section \<open>Layers and children\<close>

definition layer_nodes :: "int list list \<Rightarrow> nat \<Rightarrow> nat list" where
  "layer_nodes cs l = (if l = 0 then [0] else []) @ map (node_of cs) (filter (\<lambda>c. length c = l) cs)"

definition child_nodes :: "int list list \<Rightarrow> nat \<Rightarrow> nat list" where
  "child_nodes cs p = map (node_of cs) (filter (\<lambda>c. node_of cs (butlast c) = p) cs)"

lemma build_layers_eq:
  assumes "tree_choices layers cs"
  shows "build_layers layers (index_mapping cs) cs = Inr (map (layer_nodes cs) [0..<layers + 1])"
proof -
  let ?F = "\<lambda>c ls. if length c \<le> layers then res_bind (dict_get (index_mapping cs) c) (\<lambda>k. Inr (ls[length c := ls ! length c @ [k]])) else Inl IndexError"
  have "set xs \<subseteq> set cs \<Longrightarrow> length ls = layers + 1 \<Longrightarrow>
      res_fold ?F xs ls = Inr (map (\<lambda>l. ls ! l @ map (node_of cs) (filter (\<lambda>c. length c = l) xs)) [0..<layers + 1])" for xs ls
  proof (induction xs arbitrary: ls)
    case Nil
    then show ?case using map_nth[of ls] by (simp del: upt_Suc)
  next
    case (Cons c xs)
    have l: "length c \<le> layers" and g: "dict_get (index_mapping cs) c = Inr (node_of cs c)"
      using tree_facts(6)[OF assms] dict_get_node[OF assms] Cons.prems(1) by auto
    let ?ls = "ls[length c := ls ! length c @ [node_of cs c]]"
    have "res_fold ?F (c # xs) ls = res_fold ?F xs ?ls" using l g by simp
    also have "\<dots> = Inr (map (\<lambda>l. ?ls ! l @ map (node_of cs) (filter (\<lambda>c. length c = l) xs)) [0..<layers + 1])" using Cons by simp
    also have "\<dots> = Inr (map (\<lambda>l. ls ! l @ map (node_of cs) (filter (\<lambda>c. length c = l) (c # xs))) [0..<layers + 1])"
      using Cons.prems(2) l by (auto simp: nth_list_update simp del: upt_Suc)
    finally show ?case .
  qed
  from this[of cs "(replicate (layers + 1) [])[0 := [0]]"] show ?thesis
    unfolding build_layers_def layer_nodes_def by (auto simp: nth_Cons' simp del: upt_Suc)
qed

lemma parent_node_eq: "tree_choices layers cs \<Longrightarrow> c \<in> set cs \<Longrightarrow> parent_node (index_mapping cs) c = Inr (node_of cs (butlast c))"
proof (cases "length c = 1")
  case True
  then have "butlast c = []" by (metis length_0_conv length_butlast cancel_comm_monoid_add_class.diff_cancel)
  then show ?thesis using True by (simp add: parent_node_def node_of_def)
next
  case False
  assume t: "tree_choices layers cs" "c \<in> set cs"
  have "length c > 1" using tree_facts(7)[OF t] False by (cases c) auto
  then show ?thesis using dict_get_node[OF t(1) tree_facts(5)[OF t]] False by (simp add: parent_node_def)
qed

lemma in_tree_butlast: "tree_choices layers cs \<Longrightarrow> c \<in> set cs \<Longrightarrow> in_tree cs (butlast c)"
  using in_tree_take[of layers cs c "length c - 1"] by (simp add: in_tree_def butlast_conv_take)

lemma build_children_eq:
  assumes "tree_choices layers cs"
  shows "build_children (length cs) (index_mapping cs) cs = Inr (map (child_nodes cs) [0..<length cs + 1])"
proof -
  let ?F = "\<lambda>c ch. res_bind (parent_node (index_mapping cs) c) (\<lambda>p. res_bind (dict_get (index_mapping cs) c) (\<lambda>k. Inr (ch[p := ch ! p @ [k]])))"
  have "set xs \<subseteq> set cs \<Longrightarrow> length ch = length cs + 1 \<Longrightarrow>
      res_fold ?F xs ch = Inr (map (\<lambda>p. ch ! p @ map (node_of cs) (filter (\<lambda>c. node_of cs (butlast c) = p) xs)) [0..<length cs + 1])" for xs ch
  proof (induction xs arbitrary: ch)
    case Nil
    then show ?case using map_nth[of ch] by (simp del: upt_Suc)
  next
    case (Cons c xs)
    have c: "c \<in> set cs" using Cons.prems(1) by simp
    let ?p = "node_of cs (butlast c)"
    have p: "?p \<le> length cs" by (rule choice_node(2)[OF assms in_tree_butlast[OF assms c]])
    let ?ch = "ch[?p := ch ! ?p @ [node_of cs c]]"
    have "res_fold ?F (c # xs) ch = res_fold ?F xs ?ch" using parent_node_eq[OF assms c] dict_get_node[OF assms c] by simp
    also have "\<dots> = Inr (map (\<lambda>p. ?ch ! p @ map (node_of cs) (filter (\<lambda>c. node_of cs (butlast c) = p) xs)) [0..<length cs + 1])" using Cons by simp
    also have "\<dots> = Inr (map (\<lambda>p. ch ! p @ map (node_of cs) (filter (\<lambda>c. node_of cs (butlast c) = p) (c # xs))) [0..<length cs + 1])"
      using Cons.prems(2) p by (auto simp: nth_list_update simp del: upt_Suc)
    finally show ?case .
  qed
  from this[of cs "replicate (length cs + 1) []"] show ?thesis
    unfolding build_children_def child_nodes_def by (auto simp: nth_Cons' simp del: upt_Suc)
qed

lemma sum_lengths_filter: "sum_list (map length (filter (\<lambda>ch. ch \<noteq> []) xs)) = length (concat xs)"
  by (induction xs) auto

lemma length_filter_partition:
  "distinct ks \<Longrightarrow> sum_list (map (\<lambda>k. length (filter (\<lambda>x. f x = k) xs)) ks) = length (filter (\<lambda>x. f x \<in> set ks) xs)"
proof (induction ks)
  case (Cons k ks)
  have "length (filter (\<lambda>x. f x \<in> set (k # ks)) xs) = length (filter (\<lambda>x. f x = k) xs) + length (filter (\<lambda>x. f x \<in> set ks) xs)"
    using Cons.prems by (induction xs) auto
  then show ?case using Cons by simp
qed simp

lemma set_layer_nodes: "tree_choices layers cs \<Longrightarrow> set (layer_nodes cs l) = node_of cs ` {c. in_tree cs c \<and> length c = l}"
  by (auto simp: layer_nodes_def in_tree_def node_of_def)

lemma node_inj: "tree_choices layers cs \<Longrightarrow> inj_on (node_of cs) {c. in_tree cs c}"
  by (rule inj_on_inverseI[where g = "choice_of cs"]) (simp add: choice_node(1))

lemma distinct_layer_nodes:
  assumes "tree_choices layers cs"
  shows "distinct (layer_nodes cs l)"
proof (cases "l = 0")
  case True
  then have "filter (\<lambda>c. length c = l) cs = []" using tree_facts(7)[OF assms] by (auto simp: filter_empty_conv)
  then show ?thesis using True by (simp add: layer_nodes_def)
next
  case False
  have "inj_on (node_of cs) (set (filter (\<lambda>c. length c = l) cs))" by (rule inj_on_subset[OF node_inj[OF assms]]) (auto simp: in_tree_def)
  then show ?thesis using False tree_facts(1)[OF assms] by (simp add: layer_nodes_def distinct_map)
qed

lemma layer_top_k_eq:
  assumes "tree_choices layers cs" "i < layers"
  shows "\<exists>ks. layer_top_k (map (layer_nodes cs) [0..<layers + 1]) (map (child_nodes cs) [0..<length cs + 1]) i = Inr ks \<and> ks \<noteq> []"
proof -
  let ?ks = "map length (filter (\<lambda>ch. ch \<noteq> []) (map ((!) (map (child_nodes cs) [0..<length cs + 1])) (layer_nodes cs i)))"
  have le: "k \<le> length cs" if "k \<in> set (layer_nodes cs i)" for k using that choice_node(2)[OF assms(1)] by (auto simp: set_layer_nodes[OF assms(1)])
  have m: "map ((!) (map (child_nodes cs) [0..<length cs + 1])) (layer_nodes cs i) = map (child_nodes cs) (layer_nodes cs i)"
    using le by (auto simp: less_Suc_eq_le simp del: upt_Suc)
  have par: "node_of cs (butlast c) \<in> set (layer_nodes cs i) \<longleftrightarrow> length c = i + 1" if c: "c \<in> set cs" for c
  proof -
    have b: "in_tree cs (butlast c)" by (rule in_tree_butlast[OF assms(1) c])
    have "node_of cs (butlast c) \<in> set (layer_nodes cs i) \<longleftrightarrow> butlast c \<in> {c. in_tree cs c \<and> length c = i}"
      unfolding set_layer_nodes[OF assms(1)] by (rule inj_on_image_mem_iff[OF node_inj[OF assms(1)]]) (use b in auto)
    then show ?thesis using b tree_facts(7)[OF assms(1) c] by (cases c) auto
  qed
  have "sum_list ?ks = sum_list (map (\<lambda>k. length (filter (\<lambda>c. node_of cs (butlast c) = k) cs)) (layer_nodes cs i))"
    unfolding m sum_lengths_filter by (simp add: length_concat comp_def child_nodes_def)
  also have "\<dots> = length (filter (\<lambda>c. node_of cs (butlast c) \<in> set (layer_nodes cs i)) cs)" by (rule length_filter_partition[OF distinct_layer_nodes[OF assms(1)]])
  also have "\<dots> = length (layer_nodes cs (i + 1))" using par by (simp add: layer_nodes_def cong: filter_cong)
  finally have s: "sum_list ?ks = length (layer_nodes cs (i + 1))" .
  have "layers \<in> length ` set cs" using assms(1) Max_in[of "set (map length cs)"] by (auto simp: tree_choices_def)
  then obtain c where c: "c \<in> set cs" "length c = layers" by auto
  have "take (i + 1) c \<in> set cs" by (rule take_in_tree[OF assms(1) c(1)]) simp
  moreover have "length (take (i + 1) c) = i + 1" using c(2) assms(2) by simp
  ultimately have "\<exists>x \<in> set cs. length x = i + 1" by blast
  then have "layer_nodes cs (i + 1) \<noteq> []" by (auto simp: layer_nodes_def filter_empty_conv)
  then have "?ks \<noteq> []" using s by (metis length_0_conv sum_list.Nil)
  then show ?thesis using s assms(2) by (auto simp: layer_top_k_def Let_def py_assert_def simp del: upt_Suc)
qed

section \<open>Position offsets\<close>

lemma offsets_fold:
  fixes offs :: "nat list"
  defines "F \<equiv> \<lambda>(i::nat, l::nat list) (start::nat, offs). (start + length l, map (\<lambda>k. if start \<le> k \<and> k < start + length l then i else offs ! k) [0..<length offs])"
  shows "length (snd (fold F (enumerate a ls) (start, offs))) = length offs"
    "k < start \<Longrightarrow> k < length offs \<Longrightarrow> snd (fold F (enumerate a ls) (start, offs)) ! k = offs ! k"
    "i < length ls \<Longrightarrow> start + sum_list (map length (take i ls)) \<le> k \<Longrightarrow> k < start + sum_list (map length (take (Suc i) ls)) \<Longrightarrow> k < length offs
       \<Longrightarrow> snd (fold F (enumerate a ls) (start, offs)) ! k = a + i"
proof -
  have step: "fold F (enumerate a (l # ls)) (start, offs) = fold F (enumerate (Suc a) ls)
      (start + length l, map (\<lambda>k. if start \<le> k \<and> k < start + length l then a else offs ! k) [0..<length offs])" for a l ls start and offs :: "nat list"
    by (simp add: F_def)
  show "length (snd (fold F (enumerate a ls) (start, offs))) = length offs"
    by (induction ls arbitrary: a start offs) (simp_all add: step del: fold_simps enumerate_simps(2))
  have keep: "k < start \<Longrightarrow> k < length offs \<Longrightarrow> snd (fold F (enumerate a ls) (start, offs)) ! k = offs ! k" for a ls start offs
    by (induction ls arbitrary: a start offs) (simp_all add: step del: fold_simps(2) enumerate_simps(2))
  show "k < start \<Longrightarrow> k < length offs \<Longrightarrow> snd (fold F (enumerate a ls) (start, offs)) ! k = offs ! k" by (rule keep)
  show "i < length ls \<Longrightarrow> start + sum_list (map length (take i ls)) \<le> k \<Longrightarrow> k < start + sum_list (map length (take (Suc i) ls)) \<Longrightarrow> k < length offs
       \<Longrightarrow> snd (fold F (enumerate a ls) (start, offs)) ! k = a + i"
  proof (induction ls arbitrary: i a start offs)
    case (Cons l ls)
    let ?offs = "map (\<lambda>k. if start \<le> k \<and> k < start + length l then a else offs ! k) [0..<length offs]"
    show ?case
    proof (cases i)
      case 0
      then have k: "start \<le> k" "k < start + length l" using Cons.prems by simp_all
      then show ?thesis unfolding step using keep[of "start + length l" ?offs "Suc a" ls] Cons.prems(4) 0 by simp
    next
      case (Suc i')
      then show ?thesis unfolding step using Cons.IH[of i' "start + length l" ?offs "Suc a"] Cons.prems by (simp add: add.assoc)
    qed
  qed simp
qed

lemma layer_starts:
  assumes "tree_choices layers cs"
  shows "i \<le> layers + 1 \<Longrightarrow> sum_list (map length (take i (map (layer_nodes cs) [0..<layers + 1]))) = (if i = 0 then 0 else 1 + length (filter (\<lambda>c. length c < i) cs))"
proof (induction i)
  case (Suc i)
  have t: "take (Suc i) (map (layer_nodes cs) [0..<layers + 1]) = take i (map (layer_nodes cs) [0..<layers + 1]) @ [layer_nodes cs i]"
    using Suc.prems by (simp add: take_Suc_conv_app_nth del: upt_Suc)
  have f: "length (filter (\<lambda>c. length c < Suc i) xs) = length (filter (\<lambda>c. length c < i) xs) + length (filter (\<lambda>c. length c = i) xs)" for xs :: "int list list"
    by (induction xs) auto
  have z: "filter (\<lambda>c. length c < 0) cs = []" by simp
  have li: "length (layer_nodes cs i) = (if i = 0 then 1 else 0) + length (filter (\<lambda>c. length c = i) cs)" by (simp add: layer_nodes_def)
  show ?case using Suc f[of cs] z li unfolding t by (simp del: upt_Suc)
qed simp

lemma position_offset_depth:
  assumes "tree_choices layers cs" "k \<le> length cs"
  shows "position_offsets (length cs) (map (layer_nodes cs) [0..<layers + 1]) ! k = length (choice_of cs k)"
proof -
  let ?ls = "map (layer_nodes cs) [0..<layers + 1]" and ?d = "length (choice_of cs k)"
  have d: "?d \<le> layers" using tree_facts(6)[OF assms(1)] assms(2) by (cases k) (auto simp: choice_of_def)
  have lo: "sum_list (map length (take ?d ?ls)) \<le> k" and hi: "k < sum_list (map length (take (Suc ?d) ?ls))"
  proof -
    show "sum_list (map length (take ?d ?ls)) \<le> k"
    proof (cases k)
      case 0
      then show ?thesis by (simp add: choice_of_def)
    next
      case (Suc i)
      have "length (filter (\<lambda>c. length c < ?d) cs) = length (filter (\<lambda>c. length c < ?d) (take i cs)) + length (filter (\<lambda>c. length c < ?d) (drop i cs))"
        unfolding length_append[symmetric] filter_append[symmetric] by simp
      also have "filter (\<lambda>c. length c < ?d) (drop i cs) = []"
      proof -
        have "?d \<le> length c" if cd: "c \<in> set (drop i cs)" for c
        proof -
          obtain j where "j < length (drop i cs)" "c = drop i cs ! j" using cd unfolding in_set_conv_nth by blast
          then show ?thesis using sorted_nth_mono[OF tree_facts(4)[OF assms(1)], of i "i + j"] Suc by (simp add: choice_of_def)
        qed
        then show ?thesis by (auto simp: filter_empty_conv not_less)
      qed
      finally have "length (filter (\<lambda>c. length c < ?d) cs) \<le> i" using length_filter_le[of "\<lambda>c. length c < ?d" "take i cs"] by simp
      then show ?thesis using layer_starts[OF assms(1), of ?d] d Suc by simp
    qed
    show "k < sum_list (map length (take (Suc ?d) ?ls))"
    proof (cases k)
      case 0
      then show ?thesis using layer_starts[OF assms(1), of "Suc ?d"] d by simp
    next
      case (Suc i)
      have "length c < Suc ?d" if cd: "c \<in> set (take k cs)" for c
      proof -
        obtain j where "j < length (take k cs)" "c = take k cs ! j" using cd unfolding in_set_conv_nth by blast
        then show ?thesis using sorted_nth_mono[OF tree_facts(4)[OF assms(1)], of j i] Suc assms(2) by (simp add: choice_of_def)
      qed
      then have "filter (\<lambda>c. length c < Suc ?d) (take k cs) = take k cs" by (simp add: filter_id_conv)
      then have "k \<le> length (filter (\<lambda>c. length c < Suc ?d) (take k cs))" using assms(2) by simp
      also have "\<dots> \<le> length (filter (\<lambda>c. length c < Suc ?d) cs)"
        using length_append[of "filter (\<lambda>c. length c < Suc ?d) (take k cs)" "filter (\<lambda>c. length c < Suc ?d) (drop k cs)"]
        unfolding filter_append[symmetric] append_take_drop_id by simp
      finally show ?thesis using layer_starts[OF assms(1), of "Suc ?d"] d by simp
    qed
  qed
  have dl: "?d < length ?ls" using d by simp
  show ?thesis unfolding position_offsets_def
    using offsets_fold(3)[OF dl, of 0 k "replicate (length cs + 1) 0" 0] lo hi assms(2) by (simp del: upt_Suc replicate.simps)
qed

section \<open>The tree is built\<close>

lemma max_of_top_k_total:
  assumes "\<And>k. k \<in> set ks \<Longrightarrow> k \<noteq> []"
  shows "\<exists>m. max_of_top_k ks = Inr m"
  unfolding max_of_top_k_def using res_fold_invariant[of "\<lambda>_. True" "- 1" ks "\<lambda>k m. if k = [] then Inl RuntimeError else Inr (max m (int (fold max k 0)))"] assms by simp

lemma static_tree_built:
  assumes "tree_choices layers cs"
  obtains t where "init_static_tree (length cs) layers cs = Inr t" "eagle_paths t = map (\<lambda>i. path_row layers cs (choice_of cs i)) [0..<Suc (length cs)]"
    "spec_dec_position_offsets t = position_offsets (length cs) (map (layer_nodes cs) [0..<layers + 1])"
    "spec_dec_packed_mask t = compute_packed_mask (length cs) (map (\<lambda>i. mask_row (length cs) i (path_row layers cs (choice_of cs i))) [0..<Suc (length cs)])"
    "hidden_read_offsets t = map (\<lambda>c. node_of cs (butlast c)) cs @ [0]"
proof -
  let ?ls = "map (layer_nodes cs) [0..<layers + 1]" and ?ch = "map (child_nodes cs) [0..<length cs + 1]"
  let ?paths = "map (\<lambda>i. path_row layers cs (choice_of cs i)) [0..<Suc (length cs)]"
  have "\<exists>ks. res_map (layer_top_k ?ls ?ch) xs = Inr ks \<and> (\<forall>k \<in> set ks. k \<noteq> [])" if "set xs \<subseteq> {..<layers}" for xs
    using that
  proof (induction xs)
    case (Cons i xs)
    then show ?case using layer_top_k_eq[OF assms, of i] by (auto simp del: upt_Suc)
  qed simp
  moreover have "set [0..<layers] \<subseteq> {..<layers}" by auto
  ultimately obtain ks where ks: "res_map (layer_top_k ?ls ?ch) [0..<layers] = Inr ks" "\<forall>k \<in> set ks. k \<noteq> []" by blast
  obtain m where m: "max_of_top_k ks = Inr m" using max_of_top_k_total ks(2) by blast
  have p: "res_map (parent_node (index_mapping cs)) cs = Inr (map (\<lambda>c. node_of cs (butlast c)) cs)"
    by (rule res_map_total) (rule parent_node_eq[OF assms])
  have r: "read_offsets (length cs) (map (\<lambda>c. node_of cs (butlast c)) cs) = Inr (map (\<lambda>c. node_of cs (butlast c)) cs @ [0])" by (simp add: read_offsets_def)
  have mx: "map (\<lambda>(i, p). mask_row (length cs) i p) (enumerate 0 ?paths) = map (\<lambda>i. mask_row (length cs) i (path_row layers cs (choice_of cs i))) [0..<Suc (length cs)]"
    by (rule nth_equalityI) (simp_all add: nth_enumerate_eq del: upt_Suc)
  note eqs = build_paths_eq[OF assms] build_layers_eq[OF assms] build_children_eq[OF assms] ks(1) m p r mx res_bind_simps Let_def
  show ?thesis
    by (rule that, unfold init_static_tree_def eqs, rule refl) (simp_all only: spec_tree.select_convs)
qed

text \<open>
  C30: the masks of a static tree of draft tokens are its ancestor relation. For every list of choices without an empty choice that the
  configuration accepts, the tree is built, and its packed mask lets node \<open>i\<close> attend to node \<open>j\<close> (bit \<open>j mod 32\<close> of word \<open>j div 32\<close> in row \<open>i\<close>)
  exactly if \<open>j\<close> is \<open>i\<close> or an ancestor of it; the position offset of a node is its depth.
\<close>

theorem tree_mask_is_ancestry:
  assumes "check_eagle_choices choices = Inr (cs, layers)" "[] \<notin> set choices"
  shows "\<exists>t. init_static_tree (length cs) layers cs = Inr t
    \<and> (\<forall>i \<le> length cs. spec_dec_position_offsets t ! i = length (choice_of cs i)
        \<and> (\<forall>j \<le> length cs. bit (spec_dec_packed_mask t ! i ! (j div 32)) (j mod 32) \<longleftrightarrow> prefix (choice_of cs j) (choice_of cs i)))"
proof -
  have tr: "tree_choices layers cs" by (rule check_eagle_choices_tree[OF assms])
  let ?M = "map (\<lambda>i. mask_row (length cs) i (path_row layers cs (choice_of cs i))) [0..<Suc (length cs)]"
  obtain t where t: "init_static_tree (length cs) layers cs = Inr t" "spec_dec_position_offsets t = position_offsets (length cs) (map (layer_nodes cs) [0..<layers + 1])"
    "spec_dec_packed_mask t = compute_packed_mask (length cs) ?M"
    by (rule static_tree_built[OF tr]) blast
  have "bit (compute_packed_mask (length cs) ?M ! i ! (j div 32)) (j mod 32) \<longleftrightarrow> prefix (choice_of cs j) (choice_of cs i)" if i: "i \<le> length cs" and j: "j \<le> length cs" for i j
  proof -
    let ?bs = "map (\<lambda>j. prefix (choice_of cs j) (choice_of cs i)) [0..<Suc (length cs)]"
    have "?M ! i = map of_bool ?bs"
      using i mask_row_nth[OF tr i] by (intro nth_equalityI) (auto simp: less_Suc_eq_le simp del: upt_Suc)
    then have "bit (compute_packed_mask (length cs) ?M ! i ! (j div 32)) (j mod 32) \<longleftrightarrow> ?bs ! j"
      using i j by (intro packed_mask_bit) (simp_all del: upt_Suc)
    then show ?thesis using j by (simp del: upt_Suc)
  qed
  then show ?thesis using t position_offset_depth[OF tr] by auto
qed

theorem tree_mask_is_ancestry_witness:
  "\<exists>t. init_static_tree 5 2 [[0], [1], [2], [0, 0], [1, 0]] = Inr t
    \<and> (\<forall>i \<le> 5. spec_dec_position_offsets t ! i = length (choice_of [[0], [1], [2], [0, 0], [1, 0]] i)
        \<and> (\<forall>j \<le> 5. bit (spec_dec_packed_mask t ! i ! (j div 32)) (j mod 32)
              \<longleftrightarrow> prefix (choice_of [[0], [1], [2], [0, 0], [1, 0]] j) (choice_of [[0], [1], [2], [0, 0], [1, 0]] i)))"
proof -
  have c: "check_eagle_choices [[1, 0], [0], [2], [0, 0], [1], [0]] = Inr ([[0], [1], [2], [0, 0], [1, 0]], 2)" by code_simp
  have n: "[] \<notin> set [[1, 0], [0], [2], [0, 0], [1], [0 :: int]]" "length [[0], [1], [2], [0, 0], [1, 0 :: int]] = 5" by simp_all
  show ?thesis using tree_mask_is_ancestry[OF c n(1)] unfolding n(2) .
qed

section \<open>Verification of the tree\<close>

fun generate :: "(int list \<Rightarrow> int) \<Rightarrow> int list \<Rightarrow> nat \<Rightarrow> int list" where
  \<comment> \<open>the next tokens of the target model\<close>
  "generate model ts 0 = []"
| "generate model ts (Suc k) = (let t = model ts in t # generate model (ts @ [t]) k)"

lemma length_generate [simp]: "length (generate model ts k) = k"
  by (induction k arbitrary: ts) (simp_all add: Let_def)

lemma generate_snoc: "generate model ts (Suc k) = generate model ts k @ [model (ts @ generate model ts k)]"
proof (induction k arbitrary: ts)
  case (Suc k)
  have "generate model ts (Suc (Suc k)) = model ts # generate model (ts @ [model ts]) (Suc k)" by (simp add: Let_def)
  also have "\<dots> = model ts # generate model (ts @ [model ts]) k @ [model ((ts @ [model ts]) @ generate model (ts @ [model ts]) k)]" unfolding Suc.IH ..
  also have "\<dots> = generate model ts (Suc k) @ [model (ts @ generate model ts (Suc k))]" by (simp add: Let_def)
  finally show ?case .
qed simp

lemma take_generate: "j \<le> k \<Longrightarrow> take j (generate model ts k) = generate model ts j"
proof (induction k)
  case (Suc k)
  then show ?case by (cases "j = Suc k") (simp_all add: generate_snoc del: generate.simps)
qed simp

lemma nth_generate: "j < k \<Longrightarrow> generate model ts k ! j = model (ts @ generate model ts j)"
  using take_generate[of "Suc j" k model ts] generate_snoc[of model ts j] nth_take[of j "Suc j" "generate model ts k"] by (simp add: nth_append del: generate.simps)

definition path_tokens :: "int list list \<Rightarrow> int list \<Rightarrow> int list \<Rightarrow> int list" where
  \<comment> \<open>the draft tokens from the root to a node\<close>
  "path_tokens cs drafts c = map (\<lambda>j. drafts ! (node_of cs (take (Suc j) c) - 1)) [0..<length c]"

definition tree_targets :: "(int list \<Rightarrow> int) \<Rightarrow> int list \<Rightarrow> int list list \<Rightarrow> int list \<Rightarrow> int tensor3 \<Rightarrow> nat \<Rightarrow> bool" where
  \<comment> \<open>the model's token after each node\<close>
  "tree_targets model ts cs drafts toks slot \<longleftrightarrow> (\<forall>i \<le> length cs. at3 toks i slot 0 = model (ts @ path_tokens cs drafts (choice_of cs i)))"

definition predicted :: "(int list \<Rightarrow> int) \<Rightarrow> int list \<Rightarrow> int list list \<Rightarrow> int list \<Rightarrow> int list \<Rightarrow> bool" where
  \<comment> \<open>a node whose path the model generates\<close>
  "predicted model ts cs drafts c \<longleftrightarrow> in_tree cs c \<and> path_tokens cs drafts c = generate model ts (length c)"

definition agreement :: "(int list \<Rightarrow> int) \<Rightarrow> int list \<Rightarrow> int list \<Rightarrow> nat" where
  "agreement model ts pt = length (takeWhile (\<lambda>(d, t). d = t) (zip pt (map (\<lambda>j. model (ts @ take j pt)) [0..<length pt])))"

lemma agreement_spec:
  shows "agreement model ts pt \<le> length pt" "take (agreement model ts pt) pt = generate model ts (agreement model ts pt)"
    "pt = generate model ts (length pt) \<Longrightarrow> agreement model ts pt = length pt"
proof -
  let ?z = "zip pt (map (\<lambda>j. model (ts @ take j pt)) [0..<length pt])" and ?a = "agreement model ts pt"
  show le: "?a \<le> length pt" unfolding agreement_def using length_takeWhile_le[of _ ?z] by simp
  have eq: "pt ! j = model (ts @ take j pt)" if "j < ?a" for j
    using nth_mem[of j "takeWhile (\<lambda>(d, t). d = t) ?z"] set_takeWhileD[of "?z ! j" "\<lambda>(d, t). d = t" ?z] that le
    by (simp add: agreement_def takeWhile_nth)
  have "j \<le> ?a \<Longrightarrow> take j pt = generate model ts j" for j
  proof (induction j)
    case (Suc j)
    then show ?case using eq[of j] le by (simp add: generate_snoc take_Suc_conv_app_nth del: generate.simps)
  qed simp
  then show "take ?a pt = generate model ts ?a" by simp
  show "?a = length pt" if g: "pt = generate model ts (length pt)"
  proof -
    have "pt ! j = model (ts @ take j pt)" if j: "j < length pt" for j
    proof -
      have "pt ! j = generate model ts (length pt) ! j" using g by metis
      also have "\<dots> = model (ts @ generate model ts j)" by (rule nth_generate[OF j])
      also have "generate model ts j = take j pt" using take_generate[of j "length pt" model ts] j g by (metis less_imp_le)
      finally show ?thesis .
    qed
    then have z: "takeWhile (\<lambda>(d, t). d = t) ?z = ?z" by (intro takeWhile_eq_all_conv[THEN iffD2]) (auto simp: set_zip)
    show ?thesis unfolding agreement_def z by simp
  qed
qed

lemma path_tokens_take: "path_tokens cs drafts (take j c) = take j (path_tokens cs drafts c)"
  by (rule nth_equalityI) (auto simp: path_tokens_def min.absorb1 Suc_le_eq)

lemma length_path_tokens [simp]: "length (path_tokens cs drafts c) = length c"
  by (simp add: path_tokens_def)

lemma node_pos: "tree_choices layers cs \<Longrightarrow> in_tree cs c \<Longrightarrow> c \<noteq> [] \<Longrightarrow> 0 < node_of cs c"
  using choice_node(1)[of layers cs c] by (cases "node_of cs c") (auto simp: choice_of_def)

lemma accepted_len_eq:
  assumes t: "tree_choices layers cs" and c: "in_tree cs c" and d: "length drafts = length cs" and n: "length targs = length cs + 1"
    and m: "\<forall>i \<le> length cs. targs ! i = model (ts @ path_tokens cs drafts (choice_of cs i))"
  shows "accepted_len drafts targs (path_row layers cs c) = Inr (agreement model ts (path_tokens cs drafts c) + 1)"
proof -
  let ?pt = "path_tokens cs drafts c"
  have pn: "path_nodes cs c = 0 # map (\<lambda>j. node_of cs (take (Suc j) c)) [0..<length c]"
    unfolding path_nodes_def by (subst upt_conv_Cons) (simp_all add: node_of_def map_Suc_upt[symmetric] comp_def del: upt_Suc)
  have pos: "0 < node_of cs (take (Suc j) c)" "node_of cs (take (Suc j) c) \<le> length cs" if "j < length c" for j
    using node_pos[OF t in_tree_take[OF t c], of "Suc j"] choice_node(2)[OF t in_tree_take[OF t c], of "Suc j"] that by (cases "c = []"; simp)+
  have di: "filter (\<lambda>p. p \<ge> 0) (map (\<lambda>p. p - 1) (tl (path_row layers cs c))) = map (\<lambda>j. int (node_of cs (take (Suc j) c) - 1)) [0..<length c]"
  proof -
    have "filter (\<lambda>p. p \<ge> 0) (map (\<lambda>p. p - 1) (tl (path_row layers cs c))) = filter (\<lambda>p. p \<ge> 0) (map (\<lambda>j. int (node_of cs (take (Suc j) c)) - 1) [0..<length c])"
      unfolding path_row_def pn by (simp add: comp_def)
    also have "map (\<lambda>j. int (node_of cs (take (Suc j) c)) - 1) [0..<length c] = map (\<lambda>j. int (node_of cs (take (Suc j) c) - 1)) [0..<length c]"
      using pos(1) by (auto simp: of_nat_diff Suc_le_eq)
    finally show ?thesis by (simp add: filter_map comp_def)
  qed
  have ti: "filter (\<lambda>p. p \<ge> 0) (path_row layers cs c) = map int (path_nodes cs c)" by (simp add: path_row_def filter_map comp_def)
  have ds: "take_indices drafts (map (\<lambda>j. int (node_of cs (take (Suc j) c) - 1)) [0..<length c]) = Inr ?pt"
  proof -
    have "node_of cs (take (Suc j) c) - 1 < length drafts" if "j < length c" for j using pos[OF that] d by linarith
    then show ?thesis unfolding take_indices_def res_map_Inr_iff list_all2_conv_all_nth by (simp add: path_tokens_def)
  qed
  have tt: "take_indices targs (map int (path_nodes cs c)) = Inr (map (\<lambda>j. model (ts @ take j ?pt)) [0..<Suc (length c)])"
  proof -
    have "py_index targs (int (node_of cs (take j c))) = Inr (model (ts @ take j ?pt))" for j
    proof -
      have "node_of cs (take j c) < length targs" using choice_node(2)[OF t in_tree_take[OF t c], of j] n by simp
      then show ?thesis using m choice_node[OF t in_tree_take[OF t c], of j] by (simp add: path_tokens_take)
    qed
    then show ?thesis unfolding take_indices_def res_map_Inr_iff list_all2_conv_all_nth by (simp add: path_nodes_def del: upt_Suc)
  qed
  have "butlast (map (\<lambda>j. model (ts @ take j ?pt)) [0..<Suc (length c)]) = map (\<lambda>j. model (ts @ take j ?pt)) [0..<length ?pt]" by simp
  then show ?thesis unfolding accepted_len_def di ti Let_def ds tt res_bind_simps agreement_def by (simp add: path_nodes_def py_assert_def del: upt_Suc)
qed

lemma longest_path_spec:
  assumes "\<And>p. p \<in> set ps \<Longrightarrow> accepted_len drafts targs p = Inr (f p)"
  obtains len best where "longest_path drafts targs (enumerate k ps) l0 b0 = Inr (len, best)" "l0 \<le> len" "\<And>p. p \<in> set ps \<Longrightarrow> f p \<le> len"
    "len = l0 \<and> best = b0 \<or> (\<exists>b < length ps. best = int (k + b) \<and> f (ps ! b) = len \<and> l0 < len \<and> (\<forall>j < b. f (ps ! j) < len))"
proof -
  have "\<exists>len best. longest_path drafts targs (enumerate k ps) l0 b0 = Inr (len, best) \<and> l0 \<le> len \<and> (\<forall>p \<in> set ps. f p \<le> len)
    \<and> (len = l0 \<and> best = b0 \<or> (\<exists>b < length ps. best = int (k + b) \<and> f (ps ! b) = len \<and> l0 < len \<and> (\<forall>j < b. f (ps ! j) < len)))"
    using assms
  proof (induction ps arbitrary: k l0 b0)
    case (Cons p ps)
    let ?l = "if f p > l0 then f p else l0" and ?b = "if f p > l0 then int k else b0"
    obtain len best where IH: "longest_path drafts targs (enumerate (Suc k) ps) ?l ?b = Inr (len, best)" "?l \<le> len" "\<forall>p \<in> set ps. f p \<le> len"
      "len = ?l \<and> best = ?b \<or> (\<exists>b < length ps. best = int (Suc k + b) \<and> f (ps ! b) = len \<and> ?l < len \<and> (\<forall>j < b. f (ps ! j) < len))"
      using Cons.IH[of "Suc k" ?l ?b] Cons.prems by auto
    have e: "longest_path drafts targs (enumerate k (p # ps)) l0 b0 = Inr (len, best)" by (cases "l0 < f p") (use IH(1) Cons.prems in simp_all)
    have "len = l0 \<and> best = b0 \<or> (\<exists>b < length (p # ps). best = int (k + b) \<and> f ((p # ps) ! b) = len \<and> l0 < len \<and> (\<forall>j < b. f ((p # ps) ! j) < len))"
      using IH(4)
    proof
      assume "len = ?l \<and> best = ?b"
      then show ?thesis by (cases "f p > l0") (auto intro!: exI[of _ 0])
    next
      assume "\<exists>b < length ps. best = int (Suc k + b) \<and> f (ps ! b) = len \<and> ?l < len \<and> (\<forall>j < b. f (ps ! j) < len)"
      then obtain b where b: "b < length ps" "best = int (Suc k + b)" "f (ps ! b) = len" "?l < len" "\<forall>j < b. f (ps ! j) < len" by blast
      have "f p < len" "l0 < len" using b(4) by (auto split: if_splits)
      then show ?thesis using b by (intro disjI2 exI[of _ "Suc b"]) (auto simp: nth_Cons split: nat.split)
    qed
    then show ?case using e IH(2,3) by (intro exI[of _ len] exI[of _ best]) (auto split: if_splits)
  qed simp
  then show ?thesis using that by blast
qed

lemma finish_if_reason_cases:
  assumes "shaped n m k fin" "s < n" "slot < m" "0 < k" "py_seq_slot r = Some slot"
  obtains stop r1 where "finish_if_reason (finish_reasons_list fin) (int s) 0 r = Inr (stop, r1)" "beam_tokens r1 = beam_tokens r" "py_seq_slot r1 = py_seq_slot r"
    "stop \<Longrightarrow> state r1 = GENERATION_COMPLETE" "\<not> stop \<Longrightarrow> r1 = r"
proof -
  have n: "0 < n" using assms(2) by simp
  let ?x = "at3 fin s slot 0"
  have f: "finish_if_reason (finish_reasons_list fin) (int s) 0 r = Inr (if ?x \<in> {END_ID, FinishReason.LENGTH, STOP_WORDS} then (True, finish_by ?x 0 r) else (False, r))"
    using assms nth_finish_reasons_list[OF assms(1) n] by (simp add: finish_if_reason_def shaped_def)
  show ?thesis
  proof (cases "?x \<in> {END_ID, FinishReason.LENGTH, STOP_WORDS}")
    case True
    then show ?thesis using that[of True "finish_by ?x 0 r"] f by (simp add: finish_by_def)
  next
    case False
    then show ?thesis using that[of False r] f by simp
  qed
qed

lemma add_path_spec:
  assumes sh: "shaped n m k toks" "shaped n m k fin" "slot < m" "0 < k" and st: "\<forall>s \<in> set steps. s < n"
    and r: "py_seq_slot r = Some slot" "0 < length (beam_tokens r)"
  obtains j r' where "add_path toks (finish_reasons_list fin) (map int steps) c r = Inr (c + j, r')" "j \<le> length steps"
    "beam_tokens r' ! 0 = beam_tokens r ! 0 @ map (\<lambda>s. at3 toks s slot 0) (take j steps)" "j = length steps \<or> state r' = GENERATION_COMPLETE"
    "steps \<noteq> [] \<Longrightarrow> 0 < j"
proof -
  have "\<exists>j r'. add_path toks (finish_reasons_list fin) (map int steps) c r = Inr (c + j, r') \<and> j \<le> length steps
    \<and> beam_tokens r' ! 0 = beam_tokens r ! 0 @ map (\<lambda>s. at3 toks s slot 0) (take j steps) \<and> (j = length steps \<or> state r' = GENERATION_COMPLETE) \<and> (steps \<noteq> [] \<longrightarrow> 0 < j)"
    using st r
  proof (induction steps arbitrary: c r)
    case (Cons s steps)
    have s: "s < n" using Cons.prems(1) by simp
    let ?r = "extend_beam 0 [at3 toks s slot 0] r"
    have a: "add_token toks 0 (int s) r = Inr (at3 toks s slot 0, ?r)" by (rule add_token_eq[OF sh(1) s sh(3,4) Cons.prems(2,3)])
    have sl: "py_seq_slot ?r = Some slot" using Cons.prems(2) by simp
    obtain stop r1 where f: "finish_if_reason (finish_reasons_list fin) (int s) 0 ?r = Inr (stop, r1)" "beam_tokens r1 = beam_tokens ?r" "py_seq_slot r1 = py_seq_slot ?r"
      "stop \<Longrightarrow> state r1 = GENERATION_COMPLETE" "\<not> stop \<Longrightarrow> r1 = ?r"
      by (rule finish_if_reason_cases[OF sh(2) s sh(3,4) sl]) blast
    have e: "add_path toks (finish_reasons_list fin) (map int (s # steps)) c r
        = (if stop then Inr (c + 1, r1) else add_path toks (finish_reasons_list fin) (map int steps) (c + 1) r1)"
      using a f(1) by simp
    have bt: "beam_tokens r1 ! 0 = beam_tokens r ! 0 @ [at3 toks s slot 0]" using f(2) Cons.prems(3) by simp
    show ?case
    proof (cases stop)
      case True
      then show ?thesis using e f(4) bt by (intro exI[of _ 1] exI[of _ r1]) simp
    next
      case False
      have "0 < length (beam_tokens r1)" "py_seq_slot r1 = Some slot" using f(2,3) Cons.prems(2,3) by simp_all
      then obtain j r' where "add_path toks (finish_reasons_list fin) (map int steps) (c + 1) r1 = Inr (c + 1 + j, r')" "j \<le> length steps"
        "beam_tokens r' ! 0 = beam_tokens r1 ! 0 @ map (\<lambda>s. at3 toks s slot 0) (take j steps)" "j = length steps \<or> state r' = GENERATION_COMPLETE"
        using Cons.IH[of r1 "c + 1"] Cons.prems(1) by auto
      then show ?thesis using e False bt by (intro exI[of _ "Suc j"] exI[of _ r']) auto
    qed
  qed simp
  then show ?thesis using that by blast
qed

lemma take_path_row:
  assumes "k \<le> length c + 1"
  shows "take k (path_row layers cs c) = map int (take k (path_nodes cs c))" "take k (path_nodes cs c) = map (\<lambda>j. node_of cs (take j c)) [0..<k]"
  using assms by (simp_all add: path_row_def path_nodes_def take_map del: upt_Suc)

lemma tree_longest:
  assumes tr: "tree_choices layers cs" and d: "length drafts = length cs" and n: "length targs = length cs + 1"
    and m: "\<forall>i \<le> length cs. targs ! i = model (ts @ path_tokens cs drafts (choice_of cs i))"
  obtains len b where "longest_path drafts targs (enumerate 0 (map (\<lambda>i. path_row layers cs (choice_of cs i)) [0..<Suc (length cs)])) 0 (- 1) = Inr (len, int b)"
    "b \<le> length cs" "len = agreement model ts (path_tokens cs drafts (choice_of cs b)) + 1" "len = 1 \<longrightarrow> b = 0"
    "\<And>c. predicted model ts cs drafts c \<Longrightarrow> length c < len"
proof -
  let ?n = "length cs" and ?paths = "map (\<lambda>i. path_row layers cs (choice_of cs i)) [0..<Suc (length cs)]"
  let ?a = "\<lambda>c. agreement model ts (path_tokens cs drafts c)"
  define f where "f = (\<lambda>p. projr (accepted_len drafts targs p))"
  have acc: "accepted_len drafts targs (path_row layers cs c) = Inr (?a c + 1)" if "in_tree cs c" for c
    by (rule accepted_len_eq[OF tr that d n m])
  have f: "f (path_row layers cs c) = ?a c + 1" if "in_tree cs c" for c using acc[OF that] by (simp add: f_def)
  have facc: "accepted_len drafts targs p = Inr (f p)" if "p \<in> set ?paths" for p
    using that acc[OF choice_of_in_tree] by (auto simp: f_def less_Suc_eq_le simp del: upt_Suc)
  obtain len best where L: "longest_path drafts targs (enumerate 0 ?paths) 0 (- 1) = Inr (len, best)" "\<And>p. p \<in> set ?paths \<Longrightarrow> f p \<le> len"
    "len = 0 \<and> best = - 1 \<or> (\<exists>b < length ?paths. best = int (0 + b) \<and> f (?paths ! b) = len \<and> 0 < len \<and> (\<forall>j < b. f (?paths ! j) < len))"
    by (rule longest_path_spec[where f = f, OF facc]) blast+
  have all: "f (path_row layers cs c) \<le> len" if "in_tree cs c" for c
  proof (rule L(2))
    have "?paths ! node_of cs c = path_row layers cs c" "node_of cs c < length ?paths" using choice_node[OF tr that] by (simp_all del: upt_Suc)
    then show "path_row layers cs c \<in> set ?paths" using nth_mem by metis
  qed
  have root: "?paths ! 0 = path_row layers cs []" "f (path_row layers cs []) = 1"
    using f[of "[]"] by (simp_all add: choice_of_def in_tree_def agreement_def path_tokens_def del: upt_Suc)
  have "1 \<le> len" using all[of "[]"] root(2) by (simp add: in_tree_def)
  then obtain b where b: "b \<le> ?n" "best = int b" "f (?paths ! b) = len" "\<forall>j < b. f (?paths ! j) < len"
    using L(3) by (auto simp: less_Suc_eq_le simp del: upt_Suc)
  have "len = ?a (choice_of cs b) + 1" using b(1,3) f[OF choice_of_in_tree[OF b(1)]] by (simp del: upt_Suc)
  moreover have "len = 1 \<longrightarrow> b = 0" using b(4) root by (cases b) auto
  moreover have "length c < len" if "predicted model ts cs drafts c" for c
    using all[of c] f[of c] agreement_spec(3)[of "path_tokens cs drafts c" model ts] that by (simp add: predicted_def)
  ultimately show ?thesis using that L(1) b(1,2) by blast
qed

lemma accepted_prefix:
  assumes "k \<le> agreement model ts (path_tokens cs drafts c)"
  shows "path_tokens cs drafts (take k c) = generate model ts k" "k \<le> length c"
proof -
  let ?pt = "path_tokens cs drafts c"
  have "take k ?pt = take k (take (agreement model ts ?pt) ?pt)" using assms by simp
  then show "path_tokens cs drafts (take k c) = generate model ts k" unfolding path_tokens_take agreement_spec(2) using take_generate[OF assms] by simp
  show "k \<le> length c" using assms agreement_spec(1)[of model ts ?pt] by simp
qed

lemma reported_nodes:
  assumes "0 < j" "j \<le> agreement model ts (path_tokens cs drafts c) + 1"
  shows "map (\<lambda>p. drafts ! nat p) (map (\<lambda>p. p - 1) (drop 1 (take j (path_row layers cs c)))) = generate model ts (j - 1)"
proof -
  have k: "j - 1 \<le> agreement model ts (path_tokens cs drafts c)" using assms by simp
  have jl: "j \<le> length c + 1" using accepted_prefix(2)[OF k] by simp
  have "drop 1 (take j (path_row layers cs c)) = map (\<lambda>k. int (node_of cs (take (Suc k) c))) [0..<j - 1]"
    unfolding take_path_row[OF jl] using assms(1) by (intro nth_equalityI) auto
  then have "map (\<lambda>p. drafts ! nat p) (map (\<lambda>p. p - 1) (drop 1 (take j (path_row layers cs c)))) = map (\<lambda>k. drafts ! (node_of cs (take (Suc k) c) - 1)) [0..<j - 1]"
    by (simp add: nat_diff_distrib')
  also have "\<dots> = path_tokens cs drafts (take (j - 1) c)" unfolding path_tokens_take unfolding path_tokens_def take_map using jl by (simp add: min_def)
  finally show ?thesis using accepted_prefix(1)[OF k] by simp
qed

lemma accepted_targets:
  assumes "tree_choices layers cs" "in_tree cs c" "tree_targets model ts cs drafts toks slot" "j \<le> agreement model ts (path_tokens cs drafts c) + 1"
  shows "map (\<lambda>s. at3 toks s slot 0) (map (\<lambda>k. node_of cs (take k c)) [0..<j]) = generate model ts j"
proof (rule nth_equalityI)
  fix k assume "k < length (map (\<lambda>s. at3 toks s slot 0) (map (\<lambda>k. node_of cs (take k c)) [0..<j]))"
  then have k: "k < j" by simp
  have "at3 toks (node_of cs (take k c)) slot 0 = model (ts @ path_tokens cs drafts (take k c))"
    using assms(3) choice_node[OF assms(1) in_tree_take[OF assms(1,2)], of k] by (simp add: tree_targets_def)
  also have "path_tokens cs drafts (take k c) = generate model ts k" by (rule accepted_prefix) (use assms(4) k in simp)
  finally show "map (\<lambda>s. at3 toks s slot 0) (map (\<lambda>k. node_of cs (take k c)) [0..<j]) ! k = generate model ts j ! k" using k by (simp add: nth_generate)
qed simp

text \<open>
  C28: verification of a tree of drafts. The tree is built from choices that the configuration accepts; the target
  model's token at every node is the one it generates after the request's tokens and the drafts on the path to the
  node. Then, whatever the finish reasons are, the sampler appends to a request of one beam exactly the next tokens that the
  target model generates, one more than the number of drafts it reports, and the nodes it reports carry those tokens. Unless a
  reason ends the request, it goes as deep as possible: a node of that depth has a path that the model generates, and no deeper node has.
\<close>

theorem tree_verification_is_decoding:
  assumes ch: "check_eagle_choices choices = Inr (cs, layers)" "[] \<notin> set choices" "init_static_tree (length cs) layers cs = Inr t"
    and sh: "shaped (length cs + 1) m 1 toks" "shaped (length cs + 1) m 1 fin" "slot < m"
    and r: "py_seq_slot r = Some slot" "0 < length (beam_tokens r)" "py_draft_tokens r = Some drafts" "length drafts = length cs"
    and tg: "tree_targets model (beam_tokens r ! 0) cs drafts toks slot"
  shows "\<exists>d nodes r'. process_draft_tokens_tree (length cs) (eagle_paths t) toks (finish_reasons_list fin) r = Inr (int d, nodes, r')
    \<and> beam_tokens r' ! 0 = beam_tokens r ! 0 @ generate model (beam_tokens r ! 0) (d + 1)
    \<and> map (\<lambda>p. drafts ! nat p) nodes = generate model (beam_tokens r ! 0) d
    \<and> (state r' = GENERATION_COMPLETE \<or> (\<exists>c. predicted model (beam_tokens r ! 0) cs drafts c \<and> length c = d) \<and> (\<forall>c. predicted model (beam_tokens r ! 0) cs drafts c \<longrightarrow> length c \<le> d))"
proof -
  let ?ts = "beam_tokens r ! 0" and ?n = "length cs" and ?targs = "map (\<lambda>row. row ! slot ! 0) toks"
  let ?paths = "map (\<lambda>i. path_row layers cs (choice_of cs i)) [0..<Suc (length cs)]"
  have tr: "tree_choices layers cs" by (rule check_eagle_choices_tree[OF ch(1,2)])
  obtain t' where "init_static_tree ?n layers cs = Inr t'" "eagle_paths t' = ?paths" by (rule static_tree_built[OF tr]) blast
  then have paths: "eagle_paths t = ?paths" using ch(3) by simp
  have targs: "length ?targs = ?n + 1" "\<forall>i \<le> ?n. ?targs ! i = model (?ts @ path_tokens cs drafts (choice_of cs i))"
    using sh(1) tg by (simp_all add: shaped_def tree_targets_def)
  obtain len b where L: "longest_path drafts ?targs (enumerate 0 ?paths) 0 (- 1) = Inr (len, int b)" "b \<le> ?n"
    "len = agreement model ?ts (path_tokens cs drafts (choice_of cs b)) + 1" "len = 1 \<longrightarrow> b = 0" "\<And>c. predicted model ?ts cs drafts c \<Longrightarrow> length c < len"
    by (rule tree_longest[OF tr r(4) targs]) blast
  let ?c = "choice_of cs b" and ?steps = "map (\<lambda>k. node_of cs (take k (choice_of cs b))) [0..<len]"
  have c: "in_tree cs ?c" by (rule choice_of_in_tree[OF L(2)])
  have ln: "len \<le> length ?c + 1" using accepted_prefix(2)[of "len - 1" model ?ts cs drafts ?c] L(3) by simp
  have st: "\<forall>s \<in> set ?steps. s < ?n + 1" using choice_node(2)[OF tr in_tree_take[OF tr c]] by (auto simp: less_Suc_eq_le)
  obtain j r' where A: "add_path toks (finish_reasons_list fin) (map int ?steps) 0 r = Inr (0 + j, r')" "j \<le> length ?steps"
    "beam_tokens r' ! 0 = ?ts @ map (\<lambda>s. at3 toks s slot 0) (take j ?steps)" "j = length ?steps \<or> state r' = GENERATION_COMPLETE" "?steps \<noteq> [] \<Longrightarrow> 0 < j"
    by (rule add_path_spec[OF sh _ st r(1,2)]) (simp, blast)
  have j: "0 < j" "j \<le> len" using A(2,5) L(3) by auto
  have "take j ?steps = map (\<lambda>k. node_of cs (take k ?c)) [0..<j]" using j(2) by (simp add: take_map)
  then have toks: "map (\<lambda>s. at3 toks s slot 0) (take j ?steps) = generate model ?ts j" using accepted_targets[OF tr c tg, of j] j(2) L(3) by simp
  have path: "process_draft_tokens_tree ?n ?paths toks (finish_reasons_list fin) r = Inr (int j - 1, map (\<lambda>p. p - 1) (drop 1 (take j (path_row layers cs ?c))), r')"
  proof -
    have ix: "py_index ?paths (int b) = Inr (path_row layers cs ?c)" using L(2) by (simp del: upt_Suc)
    have tk: "take len (path_row layers cs ?c) = map int ?steps" using take_path_row[OF ln] by simp
    show ?thesis unfolding process_draft_tokens_tree_def r(1,3) option.case res_bind_simps Let_def L(1) prod.case ix tk A(1)
      using targs(1) L(3,4) j(2) by (simp add: py_assert_def)
  qed
  have deep: "(\<exists>c. predicted model ?ts cs drafts c \<and> length c = j - 1) \<and> (\<forall>c. predicted model ?ts cs drafts c \<longrightarrow> length c \<le> j - 1)" if "j = len"
  proof -
    have l: "length (take (j - 1) ?c) = j - 1" using that ln by simp
    moreover have "predicted model ?ts cs drafts (take (j - 1) ?c)" unfolding predicted_def l using in_tree_take[OF tr c] accepted_prefix(1) that L(3) by simp
    ultimately show ?thesis using L(5) that by fastforce
  qed
  let ?nodes = "map (\<lambda>p. p - 1) (drop 1 (take j (path_row layers cs ?c)))"
  have e: "int j - 1 = int (j - 1)" "j - 1 + 1 = j" using j(1) by simp_all
  have "map (\<lambda>p. drafts ! nat p) ?nodes = generate model ?ts (j - 1)" using reported_nodes[OF j(1)] j(2) L(3) by simp
  moreover have "beam_tokens r' ! 0 = ?ts @ generate model ?ts (j - 1 + 1)" using A(3) unfolding toks e(2) .
  moreover have "state r' = GENERATION_COMPLETE \<or> (\<exists>c. predicted model ?ts cs drafts c \<and> length c = j - 1) \<and> (\<forall>c. predicted model ?ts cs drafts c \<longrightarrow> length c \<le> j - 1)"
    using A(4) deep by (cases "j = len") auto
  ultimately show ?thesis using path unfolding paths e(1) by blast
qed

definition example_choices :: "int list list" where
  "example_choices = [[0], [1], [0, 0], [1, 0]]"

definition tree_model :: "int list \<Rightarrow> int" where
  \<comment> \<open>generates 7, 8, 9 after the prompt\<close>
  "tree_model ts = int (length ts) + 3"

definition example_tree_tokens :: "int tensor3" where
  "example_tree_tokens = [[[7]], [[8]], [[8]], [[9]], [[9]]]"

theorem tree_verification_is_decoding_witness:
  "\<exists>t. init_static_tree 4 2 example_choices = Inr t
    \<and> (\<exists>d nodes r'. process_draft_tokens_tree 4 (eagle_paths t) example_tree_tokens (finish_reasons_list (replicate 5 [[NOT_FINISHED]])) (example_sampled 1 0 [] [5, 7, 6, 8] [1, 2, 3, 4])
          = Inr (int d, nodes, r')
        \<and> beam_tokens r' ! 0 = [1, 2, 3, 4] @ generate tree_model [1, 2, 3, 4] (d + 1)
        \<and> map (\<lambda>p. [5, 7, 6, 8] ! nat p) nodes = generate tree_model [1, 2, 3, 4] d
        \<and> (state r' = GENERATION_COMPLETE \<or> (\<exists>c. predicted tree_model [1, 2, 3, 4] example_choices [5, 7, 6, 8] c \<and> length c = d)
            \<and> (\<forall>c. predicted tree_model [1, 2, 3, 4] example_choices [5, 7, 6, 8] c \<longrightarrow> length c \<le> d)))"
proof -
  let ?r = "example_sampled 1 0 [] [5, 7, 6, 8] [1, 2, 3, 4]"
  have c: "check_eagle_choices [[1], [0, 0], [0], [1, 0]] = Inr (example_choices, 2)" by code_simp
  have n: "[] \<notin> set [[1], [0, 0], [0], [1, 0 :: int]]" by simp
  obtain t where t: "init_static_tree (length example_choices) 2 example_choices = Inr t" by (rule static_tree_built[OF check_eagle_choices_tree[OF c n]])
  have l: "length example_choices = 4" "length example_choices + 1 = 5" by (simp_all add: example_choices_def)
  have five: "i < 5 \<longleftrightarrow> i = 0 \<or> i = 1 \<or> i = 2 \<or> i = 3 \<or> i = 4" for i :: nat by auto
  have sh: "shaped (length example_choices + 1) 1 1 example_tree_tokens" "shaped (length example_choices + 1) 1 1 (replicate 5 [[NOT_FINISHED]])"
    unfolding l(2) by (auto simp: shaped_def example_tree_tokens_def five)
  have r: "py_seq_slot ?r = Some 0" "0 < length (beam_tokens ?r)" "py_draft_tokens ?r = Some [5, 7, 6, 8]" "length [5, 7, 6, 8 :: int] = length example_choices" "beam_tokens ?r ! 0 = [1, 2, 3, 4]"
    by (simp_all add: example_sampled_simps example_choices_def)
  have all: "\<forall>i \<in> {0, 1, 2, 3, 4}. at3 example_tree_tokens i 0 0 = tree_model ([1, 2, 3, 4] @ path_tokens example_choices [5, 7, 6, 8] (choice_of example_choices i))" by code_simp
  have tg: "tree_targets tree_model (beam_tokens ?r ! 0) example_choices [5, 7, 6, 8] example_tree_tokens 0"
  proof -
    have "i \<in> {0, 1, 2, 3, 4}" if "i \<le> length example_choices" for i using that unfolding l(1) by auto
    then show ?thesis unfolding tree_targets_def r(5) using all by blast
  qed
  show ?thesis using tree_verification_is_decoding[OF c n t sh _ r(1-4) tg] t unfolding l(1) r(5) by auto
qed

text \<open>
  The finish reasons of a batch number the positions of the drafts one after the other, the verification of a tree reads them by
  node. A request with room for three more tokens is therefore ended for its length after two, when the accepted
  path uses a later sibling.
\<close>

definition example_tree_request :: sampled_request where
  "example_tree_request = example_sampled 1 0 [] [5, 10, 6, 11] [1, 2, 3, 4, 5, 6, 7]"

definition example_sibling_tokens :: "int tensor3" where
  "example_sibling_tokens = [[[10]], [[11]], [[11]], [[12]], [[12]]]"

lemma tree_request_ends_early:
  "case init_static_tree 4 2 example_choices of Inl e \<Rightarrow> False | Inr t \<Rightarrow>
     case write_finish_reasons \<lparr>max_tokens = 5, max_beam_width = 1, max_seq_len = 100\<rparr> [example_tree_request] [0] example_sibling_tokens None None
         (replicate 5 [[NOT_FINISHED]]) of Inl e \<Rightarrow> False | Inr (fin, _) \<Rightarrow>
       case process_draft_tokens_tree 4 (eagle_paths t) example_sibling_tokens (finish_reasons_list fin) example_tree_request of Inl e \<Rightarrow> False | Inr (d, nodes, r) \<Rightarrow>
         d = 1 \<and> beam_tokens r ! 0 = [1, 2, 3, 4, 5, 6, 7, 10, 11] \<and> map_of (beam_reasons r) 0 = Some FinishReason.LENGTH"
  "case decode_steps tree_model 100 2 example_tree_request of Inl e \<Rightarrow> False | Inr r \<Rightarrow>
     beam_tokens r ! 0 = [1, 2, 3, 4, 5, 6, 7, 10, 11] \<and> beam_reasons r = []"
  by code_simp+

text \<open>An empty choice is accepted by the configuration and stops the construction of the tree.\<close>

lemma empty_choice_accepted:
  "check_eagle_choices [[0], []] = Inr ([[], [0]], 1)" "init_static_tree 2 1 [[], [0]] = Inl AssertionError"
  by code_simp+

end
