(* ===== verification/Guided_Decoding.thy ===== *)
theory Guided_Decoding
  imports Py_Prelude
begin

text \<open>
  Guided decoding: \<open>_torch/pyexecutor/guided_decoder.py\<close> with the matchers of \<open>grammar_matcher.py\<close>. The output of a request is kept inside a
  grammar: a matcher per sequence slot follows the tokens and gives the row of tokens allowed next, also after each draft token;
  what is rejected is taken back.

  The grammar libraries are third-party code: their compilers and matchers are arguments. \<open>LLGuidanceMatcher\<close> is modelled on the operations of
  the library's matcher. A matcher is referenced only from its slot, so the slot holds its value. A bitmask row is an element of an
  arbitrary type; the host buffers are lists of rows. Copying to the device, applying the mask to the logits, streams and events are not
  modelled; the host functions of \<open>CapturableGuidedDecoder\<close> run in the order in which they are put on its stream.
\<close>

section \<open>Matchers and their factories\<close>

record ('m, 'b, 'p) matcher_api =
  create :: "'p \<Rightarrow> 'm result"
  accept_token :: "int \<Rightarrow> 'm \<Rightarrow> bool result \<times> 'm"
  rollback :: "nat \<Rightarrow> 'm \<Rightarrow> unit result \<times> 'm"
  fill_next_token_bitmask :: "'m \<Rightarrow> 'b result"
  is_terminated :: "'m \<Rightarrow> bool"

datatype guide_type = JSON | JSON_SCHEMA | REGEX | EBNF_GRAMMAR | STRUCTURAL_TAG

record guided_params =
  guide_type :: guide_type
  guide :: string

record 'c xgrammar_compiler =
  compile_builtin_json_grammar :: "'c result"
  compile_json_schema :: "string \<Rightarrow> 'c result"
  compile_regex :: "string \<Rightarrow> 'c result"
  compile_grammar :: "string \<Rightarrow> 'c result"
  compile_structural_tag :: "string \<Rightarrow> 'c result"

definition xgrammar_compile :: "'c xgrammar_compiler \<Rightarrow> guided_params \<Rightarrow> 'c result" where
  "xgrammar_compile C p =
     (case guide_type p of
        JSON \<Rightarrow> compile_builtin_json_grammar C
      | JSON_SCHEMA \<Rightarrow> compile_json_schema C (guide p)
      | REGEX \<Rightarrow> compile_regex C (guide p)
      | EBNF_GRAMMAR \<Rightarrow> compile_grammar C (guide p)
      | STRUCTURAL_TAG \<Rightarrow> compile_structural_tag C (guide p))"

definition xgrammar_create :: "'c xgrammar_compiler \<Rightarrow> ('c \<Rightarrow> nat \<Rightarrow> 'x result) \<Rightarrow> nat \<Rightarrow> guided_params \<Rightarrow> 'x result" where
  \<comment> \<open>with the constructor of the library's matcher, which gets the number of tokens it must be able to take back\<close>
  "xgrammar_create C new_matcher max_drafts p = res_bind (xgrammar_compile C p) (\<lambda>c. new_matcher c max_drafts)"

record ('u, 'b) llmatcher_api =
  is_stopped :: "'u \<Rightarrow> bool"
  try_consume :: "int \<Rightarrow> 'u \<Rightarrow> nat \<times> 'u"
  ll_rollback :: "nat \<Rightarrow> 'u \<Rightarrow> 'u"
  is_error :: "'u \<Rightarrow> bool"
  ll_bitmask :: "'u \<Rightarrow> 'b"

record ('g, 'u) ll_compiler =
  grammar_from_json_schema :: "string \<Rightarrow> 'g result"
  grammar_from_regex :: "string \<Rightarrow> 'g result"
  grammar_from_lark :: "string \<Rightarrow> 'g result"
  new_llmatcher :: "'g \<Rightarrow> 'u"

record 'u ll_matcher =
  inner :: 'u
  eos_token :: int
  ll_terminated :: bool

definition ll_check_err :: "('u, 'b) llmatcher_api \<Rightarrow> 'u \<Rightarrow> 'x \<Rightarrow> 'x result" where
  "ll_check_err U u x = (if is_error U u then Inl ValueError else Inr x)"

definition ll_accept_token :: "('u, 'b) llmatcher_api \<Rightarrow> int \<Rightarrow> 'u ll_matcher \<Rightarrow> bool result \<times> 'u ll_matcher" where
  "ll_accept_token U t m =
     (if is_stopped U (inner m) then (if t = eos_token m then (Inr True, m\<lparr>ll_terminated := True\<rparr>) else (Inr False, m))
      else case try_consume U t (inner m) of (n, u) \<Rightarrow> (ll_check_err U u (n > 0), m\<lparr>inner := u\<rparr>))"

definition ll_rollback_tokens :: "('u, 'b) llmatcher_api \<Rightarrow> nat \<Rightarrow> 'u ll_matcher \<Rightarrow> unit result \<times> 'u ll_matcher" where
  "ll_rollback_tokens U n m =
     (if n = 0 then (Inr (), m)
      else let (n1, m1) = (if ll_terminated m then (n - 1, m\<lparr>ll_terminated := False\<rparr>) else (n, m)); u = ll_rollback U n1 (inner m1) in
        (ll_check_err U u (), m1\<lparr>inner := u\<rparr>))"

definition ll_fill :: "('u, 'b) llmatcher_api \<Rightarrow> 'u ll_matcher \<Rightarrow> 'b result" where
  "ll_fill U m = ll_check_err U (inner m) (ll_bitmask U (inner m))"

definition ll_factory_init :: "string option \<Rightarrow> int list option \<Rightarrow> (string \<times> int option) result" where
  \<comment> \<open>the arguments of the tokenizer\<close>
  "ll_factory_init tokenizer_str stop_token_ids =
     (case tokenizer_str of
        None \<Rightarrow> Inl ValueError
      | Some tok \<Rightarrow>
          (case stop_token_ids of
             None \<Rightarrow> Inr (tok, None)
           | Some ids \<Rightarrow> if length ids \<noteq> 1 then Inl ValueError else Inr (tok, Some (ids ! 0))))"

definition ll_compile :: "('g, 'u) ll_compiler \<Rightarrow> guided_params \<Rightarrow> 'g result" where
  "ll_compile C p =
     (case guide_type p of
        JSON \<Rightarrow> grammar_from_json_schema C ''{\"type\": \"object\"}''
      | JSON_SCHEMA \<Rightarrow> grammar_from_json_schema C (guide p)
      | REGEX \<Rightarrow> grammar_from_regex C (guide p)
      | EBNF_GRAMMAR \<Rightarrow> grammar_from_lark C (guide p)
      | STRUCTURAL_TAG \<Rightarrow> Inl ValueError)"

definition ll_create :: "('u, 'b) llmatcher_api \<Rightarrow> ('g, 'u) ll_compiler \<Rightarrow> int \<Rightarrow> guided_params \<Rightarrow> 'u ll_matcher result" where
  "ll_create U C eos p = res_bind (ll_compile C p) (\<lambda>g.
     ll_check_err U (new_llmatcher C g) \<lparr>inner = new_llmatcher C g, eos_token = eos, ll_terminated = False\<rparr>)"

definition ll_api :: "('u, 'b) llmatcher_api \<Rightarrow> ('g, 'u) ll_compiler \<Rightarrow> int \<Rightarrow> ('u ll_matcher, 'b, guided_params) matcher_api" where
  \<comment> \<open>the class \<open>LLGuidanceMatcher\<close> as a matcher\<close>
  "ll_api U C eos =
     \<lparr>create = ll_create U C eos, accept_token = ll_accept_token U, rollback = ll_rollback_tokens U, fill_next_token_bitmask = ll_fill U,
      is_terminated = ll_terminated\<rparr>"

section \<open>Requests\<close>

record 'p guided_request =
  guided_decoding_params :: "'p option"
  gr_id :: int
  gr_slot :: "nat option"
  prev_seq_slot :: "nat option"
  is_context_init_state :: bool
  is_last_context_chunk :: bool
  is_generation_in_progress_state :: bool
  is_generation_only_first_iteration :: bool
  new_token :: int
  is_draft :: bool
  gr_draft_tokens :: "int list option"
  num_accepted_draft_tokens :: int

record 'p guided_source =
  \<comment> \<open>the attributes of an \<open>LlmRequest\<close> that the snapshot is taken from\<close>
  gs_params :: "'p option"
  gs_id :: int
  gs_seq_slot :: "nat option"
  gs_target_seq_slot :: "nat option"
  gs_batch_idx :: "nat option"
  gs_context_init :: bool
  gs_last_context_chunk :: bool
  gs_generation_in_progress :: bool
  gs_generation_only :: bool
  gs_decoding_iter :: int
  gs_last_token :: int
  gs_is_draft :: bool
  gs_draft_tokens :: "int list option"
  gs_num_accepted :: int

definition require_matcher_init :: "'p guided_request \<Rightarrow> bool" where
  "require_matcher_init r \<longleftrightarrow> guided_decoding_params r \<noteq> None \<and> \<not> is_draft r \<and> is_context_init_state r \<and> is_last_context_chunk r"

definition require_matcher_advance :: "'p guided_request \<Rightarrow> bool" where
  "require_matcher_advance r \<longleftrightarrow> guided_decoding_params r \<noteq> None
     \<and> (if is_draft r then (is_context_init_state r \<and> is_last_context_chunk r) \<or> is_generation_in_progress_state r else is_generation_in_progress_state r)"

definition from_llm_request :: "'p guided_source \<Rightarrow> 'p guided_request" where
  "from_llm_request q =
     \<lparr>guided_decoding_params = gs_params q, gr_id = gs_id q, gr_slot = (if gs_is_draft q then gs_target_seq_slot q else gs_seq_slot q),
      prev_seq_slot = gs_batch_idx q, is_context_init_state = gs_context_init q, is_last_context_chunk = (gs_context_init q \<and> gs_last_context_chunk q),
      is_generation_in_progress_state = gs_generation_in_progress q,
      is_generation_only_first_iteration = (gs_generation_only q \<and> gs_decoding_iter q = 1 \<and> gs_batch_idx q = None),
      new_token = gs_last_token q, is_draft = gs_is_draft q, gr_draft_tokens = gs_draft_tokens q, num_accepted_draft_tokens = gs_num_accepted q\<rparr>"

definition cast_to_draft :: "'p guided_request \<Rightarrow> 'p guided_request" where
  "cast_to_draft r = r\<lparr>is_draft := True, gr_draft_tokens := Some []\<rparr>"

record 'p guided_requests =
  requests :: "'p guided_request list"
  num_contexts :: nat
  num_generations :: nat
  draft_limit :: nat

definition from_scheduled_requests :: "'p guided_source list \<Rightarrow> 'p guided_source list \<Rightarrow> nat \<Rightarrow> 'p guided_requests" where
  \<comment> \<open>of the context and the generation requests of the batch\<close>
  "from_scheduled_requests contexts generations max_drafts =
     \<lparr>requests = map from_llm_request (contexts @ generations), num_contexts = length contexts, num_generations = length generations, draft_limit = max_drafts\<rparr>"

definition valid_request :: "'p guided_request \<Rightarrow> bool" where
  "valid_request r \<longleftrightarrow> guided_decoding_params r \<noteq> None \<and> gr_slot r \<noteq> None"

definition valid_requests :: "'p guided_requests \<Rightarrow> 'p guided_request list" where
  "valid_requests g = filter valid_request (requests g)"

fun with_offsets :: "nat \<Rightarrow> nat \<Rightarrow> 'p guided_request list \<Rightarrow> ('p guided_request \<times> nat) list" where
  "with_offsets max_drafts offset [] = []"
| "with_offsets max_drafts offset (r # rs) =
     (if valid_request r then [(r, offset)] else [])
     @ with_offsets max_drafts (offset + 1 + (if \<not> is_draft r \<and> is_generation_in_progress_state r then max_drafts else 0)) rs"

definition valid_requests_with_offsets :: "'p guided_requests \<Rightarrow> ('p guided_request \<times> nat) list" where
  "valid_requests_with_offsets g = with_offsets (draft_limit g) 0 (requests g)"

definition num_bitmask_tokens :: "'p guided_requests \<Rightarrow> nat result" where
  "num_bitmask_tokens g =
     (case requests g of
        [] \<Rightarrow> Inl IndexError
      | r # _ \<Rightarrow> Inr (if is_draft r then length (requests g) else num_contexts g + num_generations g * (draft_limit g + 1)))"

section \<open>The decoder\<close>

record ('m, 'b) decoder =
  grammar_matchers :: "'m option list"
  bitmask_host :: "'b option list"
  token_mask_host :: "bool list"
  num_advanced_tokens :: "nat list"
  num_guided_tokens :: "nat list"
  num_advanced_draft_tokens :: "nat list"
  is_draft_terminated :: "bool list"
  max_num_draft_tokens :: nat

definition decoder_init :: "nat \<Rightarrow> nat \<Rightarrow> 'b option list \<Rightarrow> bool list \<Rightarrow> ('m, 'b) decoder" where
  \<comment> \<open>the buffers, of \<open>max_num_sequences * (max_num_draft_tokens + 1)\<close> rows, have arbitrary contents\<close>
  "decoder_init max_num_sequences max_drafts bits marks =
     \<lparr>grammar_matchers = replicate max_num_sequences None, bitmask_host = bits, token_mask_host = marks, num_advanced_tokens = replicate max_num_sequences 0,
      num_guided_tokens = replicate max_num_sequences 0, num_advanced_draft_tokens = replicate max_num_sequences 0,
      is_draft_terminated = replicate max_num_sequences False, max_num_draft_tokens = max_drafts\<rparr>"

definition set_matcher :: "nat \<Rightarrow> 'm \<Rightarrow> ('m, 'b) decoder \<Rightarrow> ('m, 'b) decoder" where
  "set_matcher slot m d = d\<lparr>grammar_matchers := (grammar_matchers d)[slot := Some m]\<rparr>"

definition count_advanced :: "nat \<Rightarrow> ('m, 'b) decoder \<Rightarrow> ('m, 'b) decoder" where
  "count_advanced slot d = d\<lparr>num_advanced_tokens := (num_advanced_tokens d)[slot := num_advanced_tokens d ! slot + 1]\<rparr>"

definition fill_row :: "('m, 'b, 'p) matcher_api \<Rightarrow> nat \<Rightarrow> nat \<Rightarrow> 'm \<Rightarrow> ('m, 'b) decoder \<Rightarrow> unit result \<times> ('m, 'b) decoder" where
  "fill_row A slot k m d =
     (case fill_next_token_bitmask A m of
        Inl e \<Rightarrow> (Inl e, d)
      | Inr b \<Rightarrow>
          if k \<ge> length (bitmask_host d) then (Inl IndexError, d)
          else (Inr (), d\<lparr>bitmask_host := (bitmask_host d)[k := Some b], token_mask_host := (token_mask_host d)[k := True],
                             num_guided_tokens := (num_guided_tokens d)[slot := num_guided_tokens d ! slot + 1]\<rparr>))"

fun guide_drafts :: "('m, 'b, 'p) matcher_api \<Rightarrow> nat \<Rightarrow> nat \<Rightarrow> int list \<Rightarrow> 'm \<Rightarrow> ('m, 'b) decoder \<Rightarrow> unit result \<times> ('m, 'b) decoder" where
  \<comment> \<open>\<open>k\<close> is the row of the next draft token, \<open>m\<close> the matcher of the slot\<close>
  "guide_drafts A slot k [] m d = (Inr (), d)"
| "guide_drafts A slot k (t # ts) m d =
     (case accept_token A t m of
        (Inl e, m1) \<Rightarrow> (Inl e, set_matcher slot m1 d)
      | (Inr False, m1) \<Rightarrow> (Inr (), set_matcher slot m1 d)
      | (Inr True, m1) \<Rightarrow>
          let d1 = count_advanced slot (set_matcher slot m1 d) in
          if is_terminated A m1 then (Inr (), d1)
          else (case fill_row A slot k m1 d1 of
                  (Inl e, d2) \<Rightarrow> (Inl e, d2)
                | (Inr _, d2) \<Rightarrow> guide_drafts A slot (k + 1) ts m1 d2))"

definition init_matcher :: "('m, 'b, 'p) matcher_api \<Rightarrow> 'p guided_request \<Rightarrow> nat \<Rightarrow> ('m, 'b) decoder \<Rightarrow> unit result \<times> ('m, 'b) decoder" where
  "init_matcher A r slot d =
     (if require_matcher_init r then
        (case guided_decoding_params r of
           None \<Rightarrow> (Inr (), d)
         | Some p \<Rightarrow> (case create A p of Inl e \<Rightarrow> (Inl e, d) | Inr m \<Rightarrow> (Inr (), set_matcher slot m d)))
      else (Inr (), d))"

definition advance_matcher :: "('m, 'b, 'p) matcher_api \<Rightarrow> 'p guided_request \<Rightarrow> nat \<Rightarrow> ('m, 'b) decoder \<Rightarrow> bool result \<times> ('m, 'b) decoder" where
  \<comment> \<open>is the request to be guided further?\<close>
  "advance_matcher A r slot d =
     (if \<not> require_matcher_advance r then (Inr True, d)
      else case grammar_matchers d ! slot of
        None \<Rightarrow> (Inr False, d)
      | Some m \<Rightarrow>
          if is_terminated A m \<or> is_draft_terminated d ! slot then (Inr False, d)
          else (case accept_token A (new_token r) m of
                  (Inl e, m1) \<Rightarrow> (Inl e, set_matcher slot m1 d)
                | (Inr True, m1) \<Rightarrow> (Inr True, set_matcher slot m1 d)
                | (Inr False, m1) \<Rightarrow>
                    if is_draft r then (Inr False, (set_matcher slot m1 d)\<lparr>is_draft_terminated := (is_draft_terminated d)[slot := True]\<rparr>)
                    else (Inl ValueError, set_matcher slot m1 d)))"

definition guide_rows :: "('m, 'b, 'p) matcher_api \<Rightarrow> 'p guided_request \<Rightarrow> nat \<Rightarrow> nat \<Rightarrow> 'm \<Rightarrow> ('m, 'b) decoder \<Rightarrow> unit result \<times> ('m, 'b) decoder" where
  "guide_rows A r slot offset m d =
     (if is_terminated A m then (Inr (), d)
      else case fill_row A slot offset m d of
        (Inl e, d1) \<Rightarrow> (Inl e, d1)
      | (Inr _, d1) \<Rightarrow>
          (case gr_draft_tokens r of
             None \<Rightarrow> (Inl TypeError, d1)
           | Some ts \<Rightarrow> guide_drafts A slot (offset + 1) ts m d1))"

definition count_drafted :: "'p guided_request \<Rightarrow> nat \<Rightarrow> ('m, 'b) decoder \<Rightarrow> unit result \<times> ('m, 'b) decoder" where
  "count_drafted r slot d =
     (if is_draft r then
        (case gr_draft_tokens r of
           None \<Rightarrow> (Inl TypeError, d)
         | Some ts \<Rightarrow>
             if ts \<noteq> [] then (Inl AssertionError, d)
             else (Inr (), d\<lparr>num_advanced_draft_tokens :=
               (num_advanced_draft_tokens d)[slot := num_advanced_draft_tokens d ! slot + num_advanced_tokens d ! slot]\<rparr>))
      else (Inr (), d))"

definition guide_request :: "('m, 'b, 'p) matcher_api \<Rightarrow> 'p guided_request \<Rightarrow> nat \<Rightarrow> nat \<Rightarrow> ('m, 'b) decoder \<Rightarrow> unit result \<times> ('m, 'b) decoder" where
  \<comment> \<open>the matcher of the slot is there: it was just created or advanced\<close>
  "guide_request A r slot offset d =
     (case grammar_matchers d ! slot of
        None \<Rightarrow> (Inl AttributeError, d)
      | Some m \<Rightarrow>
          (case guide_rows A r slot offset m (count_advanced slot d) of
             (Inl e, d1) \<Rightarrow> (Inl e, d1)
           | (Inr _, d1) \<Rightarrow> count_drafted r slot d1))"

definition guide_one :: "('m, 'b, 'p) matcher_api \<Rightarrow> 'p guided_request \<Rightarrow> nat \<Rightarrow> ('m, 'b) decoder \<Rightarrow> unit result \<times> ('m, 'b) decoder" where
  \<comment> \<open>the body of the \<open>try\<close> statement\<close>
  "guide_one A r offset d =
     (case gr_slot r of
        None \<Rightarrow> (Inr (), d)
      | Some slot \<Rightarrow>
          if slot \<ge> length (grammar_matchers d) then (Inl IndexError, d)
          else
            let d0 = d\<lparr>num_advanced_tokens := (num_advanced_tokens d)[slot := 0], num_guided_tokens := (num_guided_tokens d)[slot := 0]\<rparr> in
            if \<not> (require_matcher_init r \<or> require_matcher_advance r) then (Inr (), d0)
            else (case init_matcher A r slot d0 of
                    (Inl e, d1) \<Rightarrow> (Inl e, d1)
                  | (Inr _, d1) \<Rightarrow>
                      (case advance_matcher A r slot d1 of
                         (Inl e, d2) \<Rightarrow> (Inl e, d2)
                       | (Inr False, d2) \<Rightarrow> (Inr (), d2)
                       | (Inr True, d2) \<Rightarrow> guide_request A r slot offset d2)))"

fun build_loop :: "('m, 'b, 'p) matcher_api \<Rightarrow> ('p guided_request \<times> nat) list \<Rightarrow> int list \<Rightarrow> ('m, 'b) decoder \<Rightarrow> int list \<times> ('m, 'b) decoder" where
  "build_loop A [] failed d = (failed, d)"
| "build_loop A ((r, offset) # rs) failed d =
     (case guide_one A r offset d of
        (Inl e, d1) \<Rightarrow> build_loop A rs (failed @ [gr_id r]) d1
      | (Inr _, d1) \<Rightarrow> build_loop A rs failed d1)"

definition build :: "('m, 'b, 'p) matcher_api \<Rightarrow> 'p guided_requests \<Rightarrow> ('m, 'b) decoder \<Rightarrow> int list result \<times> ('m, 'b) decoder" where
  \<comment> \<open>the ids of the failed requests\<close>
  "build A g d =
     (case num_bitmask_tokens g of
        Inl e \<Rightarrow> (Inl e, d)
      | Inr n \<Rightarrow>
          (case build_loop A (valid_requests_with_offsets g) []
                  (d\<lparr>token_mask_host := replicate (min n (length (token_mask_host d))) False @ drop n (token_mask_host d)\<rparr>) of
             (failed, d1) \<Rightarrow> (Inr failed, d1)))"

definition rollback_slot :: "('m, 'b, 'p) matcher_api \<Rightarrow> nat \<Rightarrow> nat \<Rightarrow> ('m, 'b) decoder \<Rightarrow> unit result \<times> ('m, 'b) decoder" where
  "rollback_slot A slot n d =
     (case grammar_matchers d ! slot of
        None \<Rightarrow> (Inl AttributeError, d)
      | Some m \<Rightarrow> (case rollback A n m of (res, m1) \<Rightarrow> (res, set_matcher slot m1 d)))"

definition rollback_rejected_one :: "('m, 'b, 'p) matcher_api \<Rightarrow> 'p guided_request \<Rightarrow> ('m, 'b) decoder \<Rightarrow> unit result \<times> ('m, 'b) decoder" where
  "rollback_rejected_one A r d =
     (case gr_slot r of
        None \<Rightarrow> (Inr (), d)
      | Some slot \<Rightarrow>
          if slot \<ge> length (grammar_matchers d) then (Inl IndexError, d)
          else if num_advanced_tokens d ! slot \<le> 0 then (Inr (), d)
          else let num_rollback_tokens = int (num_advanced_tokens d ! slot) - (1 + num_accepted_draft_tokens r) in
            if num_rollback_tokens < 0 then (Inl ValueError, d) else rollback_slot A slot (nat num_rollback_tokens) d)"

definition rollback_draft_one :: "('m, 'b, 'p) matcher_api \<Rightarrow> 'p guided_request \<Rightarrow> ('m, 'b) decoder \<Rightarrow> unit result \<times> ('m, 'b) decoder" where
  "rollback_draft_one A r d =
     (case gr_slot r of
        None \<Rightarrow> (Inr (), d)
      | Some slot \<Rightarrow>
          if slot \<ge> length (grammar_matchers d) then (Inl IndexError, d)
          else (case (if num_advanced_draft_tokens d ! slot > 0 then rollback_slot A slot (num_advanced_draft_tokens d ! slot) d else (Inr (), d)) of
             (Inl e, d1) \<Rightarrow> (Inl e, d1)
           | (Inr _, d1) \<Rightarrow> (Inr (), d1\<lparr>num_advanced_draft_tokens := (num_advanced_draft_tokens d1)[slot := 0],
               is_draft_terminated := (is_draft_terminated d1)[slot := False]\<rparr>)))"

definition init_disagg_one :: "('m, 'b, 'p) matcher_api \<Rightarrow> 'p guided_request \<Rightarrow> ('m, 'b) decoder \<Rightarrow> unit result \<times> ('m, 'b) decoder" where
  "init_disagg_one A r d =
     (case (gr_slot r, guided_decoding_params r) of
        (Some slot, Some p) \<Rightarrow>
          if is_generation_only_first_iteration r then
            (case create A p of
               Inl e \<Rightarrow> (Inl e, d)
             | Inr m \<Rightarrow> if slot \<ge> length (grammar_matchers d) then (Inl IndexError, d) else (Inr (), set_matcher slot m d))
          else (Inr (), d)
      | _ \<Rightarrow> (Inr (), d))"

fun for_requests :: "('p guided_request \<Rightarrow> 'd \<Rightarrow> unit result \<times> 'd) \<Rightarrow> 'p guided_request list \<Rightarrow> 'd \<Rightarrow> unit result \<times> 'd" where
  \<comment> \<open>a loop over requests, left by the first exception\<close>
  "for_requests f [] d = (Inr (), d)"
| "for_requests f (r # rs) d = (case f r d of (Inl e, d1) \<Rightarrow> (Inl e, d1) | (Inr _, d1) \<Rightarrow> for_requests f rs d1)"

definition rollback_rejected_tokens :: "('m, 'b, 'p) matcher_api \<Rightarrow> 'p guided_requests \<Rightarrow> ('m, 'b) decoder \<Rightarrow> unit result \<times> ('m, 'b) decoder" where
  "rollback_rejected_tokens A g d = (if max_num_draft_tokens d \<le> 0 then (Inr (), d) else for_requests (rollback_rejected_one A) (valid_requests g) d)"

definition rollback_draft_tokens :: "('m, 'b, 'p) matcher_api \<Rightarrow> 'p guided_requests \<Rightarrow> ('m, 'b) decoder \<Rightarrow> unit result \<times> ('m, 'b) decoder" where
  "rollback_draft_tokens A g d = (if max_num_draft_tokens d \<le> 0 then (Inr (), d) else for_requests (rollback_draft_one A) (valid_requests g) d)"

definition init_disagg_gen_requests :: "('m, 'b, 'p) matcher_api \<Rightarrow> 'p guided_requests \<Rightarrow> ('m, 'b) decoder \<Rightarrow> unit result \<times> ('m, 'b) decoder" where
  "init_disagg_gen_requests A g d = for_requests (init_disagg_one A) (valid_requests g) d"

section \<open>The decoder that runs in host functions\<close>

record ('m, 'b, 'p) capturable =
  base :: "('m, 'b) decoder"
  host_batch_size :: nat
  requests_hostfunc :: "'p guided_requests"
  batch_queue :: "('p guided_requests \<times> bool) list"
  new_tokens :: "int list list"
  num_accepted_tokens :: "int list"

definition add_batch :: "'p guided_source list \<Rightarrow> 'p guided_source list \<Rightarrow> int list list option \<Rightarrow> ('m, 'b, 'p) capturable \<Rightarrow> ('m, 'b, 'p) capturable" where
  "add_batch contexts generations toks c =
     (let g = from_scheduled_requests contexts generations (max_num_draft_tokens (base c)) in
      c\<lparr>host_batch_size := length (requests g), new_tokens := (case toks of Some ts \<Rightarrow> ts | None \<Rightarrow> new_tokens c),
         batch_queue := batch_queue c @ [(g, toks \<noteq> None)]\<rparr>)"

definition fetch_one :: "int list list \<Rightarrow> 'p guided_request \<Rightarrow> 'p guided_request result" where
  \<comment> \<open>the column of the slot: the new token, then the draft tokens\<close>
  "fetch_one toks r =
     (if \<not> valid_request r \<or> prev_seq_slot r = None then Inr r
      else case gr_slot r of
        None \<Rightarrow> Inr r
      | Some slot \<Rightarrow>
          res_bind (res_map (\<lambda>row. py_index row (int slot)) toks) (\<lambda>col.
            case col of [] \<Rightarrow> Inl ValueError | t # ds \<Rightarrow> Inr (r\<lparr>new_token := t, gr_draft_tokens := Some ds\<rparr>)))"

definition fetch_batch :: "('m, 'b, 'p) capturable \<Rightarrow> ('m, 'b, 'p) capturable result" where
  "fetch_batch c =
     (case batch_queue c of
        [] \<Rightarrow> Inr c
      | (g, has_new_tokens) # rest \<Rightarrow>
          if \<not> has_new_tokens then Inr (c\<lparr>requests_hostfunc := g, batch_queue := rest\<rparr>)
          else res_bind (res_map (fetch_one (new_tokens c)) (requests g)) (\<lambda>rs.
            Inr (c\<lparr>requests_hostfunc := g\<lparr>requests := rs\<rparr>, batch_queue := rest\<rparr>)))"

definition on_base :: "(('m, 'b) decoder \<Rightarrow> 'x result \<times> ('m, 'b) decoder) \<Rightarrow> ('m, 'b, 'p) capturable \<Rightarrow> ('x \<times> ('m, 'b, 'p) capturable) result" where
  \<comment> \<open>a host function on the common part\<close>
  "on_base f c = (case f (base c) of (Inl e, d) \<Rightarrow> Inl e | (Inr x, d) \<Rightarrow> Inr (x, c\<lparr>base := d\<rparr>))"

definition execute :: "('m, 'b, 'p) matcher_api \<Rightarrow> ('m, 'b, 'p) capturable \<Rightarrow> (int list \<times> ('m, 'b, 'p) capturable) result" where
  "execute A c =
     res_bind (fetch_batch c) (\<lambda>c1.
     res_bind (on_base (init_disagg_gen_requests A (requests_hostfunc c1)) c1) (\<lambda>(_, c2).
       on_base (build A (requests_hostfunc c2)) c2))"

definition add_draft_batch :: "int list \<Rightarrow> int list \<Rightarrow> nat \<Rightarrow> ('m, 'b, 'p) capturable \<Rightarrow> ('m, 'b, 'p) capturable result" where
  "add_draft_batch toks accs draft_step c =
     (if length toks \<noteq> host_batch_size c then Inl AssertionError
      else
        let c1 = c\<lparr>new_tokens := (new_tokens c)[0 := toks @ drop (length toks) (new_tokens c ! 0)]\<rparr> in
        if draft_step = 0 then
          (if length accs \<noteq> host_batch_size c then Inl AssertionError
           else Inr (c1\<lparr>num_accepted_tokens := accs @ drop (length accs) (num_accepted_tokens c)\<rparr>))
        else Inr c1)"

definition fetch_draft_one :: "nat \<Rightarrow> int list \<Rightarrow> int list \<Rightarrow> nat list \<Rightarrow> nat \<Rightarrow> 'p guided_request \<Rightarrow> 'p guided_request result" where
  \<comment> \<open>with the lists of tokens and of accepted tokens, the counters of the slots and the position in the batch\<close>
  "fetch_draft_one draft_step toks accs advanced i r =
     (if \<not> valid_request r then Inr r
      else case gr_slot r of
        None \<Rightarrow> Inr r
      | Some slot \<Rightarrow>
          res_bind (py_index toks (int i)) (\<lambda>t.
            let r1 = r\<lparr>new_token := t\<rparr> in
            if draft_step = 0 then
              res_bind (py_index accs (int i)) (\<lambda>acc.
              res_bind (py_index advanced (int slot)) (\<lambda>adv.
                if is_draft r then Inl AssertionError
                else Inr (cast_to_draft (r1\<lparr>num_accepted_draft_tokens := min acc (int adv) - 1\<rparr>))))
            else if is_draft r then Inr r1 else Inl AssertionError))"

fun fetch_draft_loop :: "nat \<Rightarrow> int list \<Rightarrow> int list \<Rightarrow> nat list \<Rightarrow> nat \<Rightarrow> 'p guided_request list \<Rightarrow> 'p guided_request list result" where
  "fetch_draft_loop draft_step toks accs advanced i [] = Inr []"
| "fetch_draft_loop draft_step toks accs advanced i (r # rs) =
     res_bind (fetch_draft_one draft_step toks accs advanced i r) (\<lambda>r1.
     res_bind (fetch_draft_loop draft_step toks accs advanced (i + 1) rs) (\<lambda>rs1. Inr (r1 # rs1)))"

definition fetch_draft_batch :: "nat \<Rightarrow> ('m, 'b, 'p) capturable \<Rightarrow> ('m, 'b, 'p) capturable result" where
  "fetch_draft_batch draft_step c =
     (let n = length (requests (requests_hostfunc c)) in
      res_bind (fetch_draft_loop draft_step (take n (new_tokens c ! 0)) (take n (num_accepted_tokens c)) (num_advanced_tokens (base c)) 0
                  (requests (requests_hostfunc c))) (\<lambda>rs.
        Inr (c\<lparr>requests_hostfunc := (requests_hostfunc c)\<lparr>requests := rs\<rparr>\<rparr>)))"

definition execute_draft_batch :: "('m, 'b, 'p) matcher_api \<Rightarrow> nat \<Rightarrow> ('m, 'b, 'p) capturable \<Rightarrow> (int list \<times> ('m, 'b, 'p) capturable) result" where
  "execute_draft_batch A draft_step c =
     res_bind (fetch_draft_batch draft_step c) (\<lambda>c1.
     res_bind (if draft_step = 0 then on_base (rollback_rejected_tokens A (requests_hostfunc c1)) c1 else Inr ((), c1)) (\<lambda>(_, c2).
     res_bind (on_base (build A (requests_hostfunc c2)) c2) (\<lambda>(failed, c3).
     res_bind (if int draft_step = int (max_num_draft_tokens (base c3)) - 1 then on_base (rollback_draft_tokens A (requests_hostfunc c3)) c3 else Inr ((), c3)) (\<lambda>(_, c4).
       Inr (failed, c4)))))"

fun draft_loop :: "('m, 'b, 'p) matcher_api \<Rightarrow> nat \<Rightarrow> (int list \<times> int list) list \<Rightarrow> ('m, 'b, 'p) capturable \<Rightarrow> ('m, 'b, 'p) capturable result" where
  \<comment> \<open>the calls of the loop over the draft layers; what the layers sample and how many tokens were accepted are arguments\<close>
  "draft_loop A draft_step [] c = Inr c"
| "draft_loop A draft_step ((toks, accs) # xs) c =
     res_bind (add_draft_batch toks accs draft_step c) (\<lambda>c1.
     res_bind (execute_draft_batch A draft_step c1) (\<lambda>(_, c2). draft_loop A (draft_step + 1) xs c2))"

section \<open>What a step may touch\<close>

text \<open>The state of a slot, the rows of a request, and that a step changes nothing else.\<close>

definition slot_view :: "('m, 'b) decoder \<Rightarrow> nat \<Rightarrow> 'm option \<times> nat \<times> nat \<times> nat \<times> bool" where
  "slot_view d s = (grammar_matchers d ! s, num_advanced_tokens d ! s, num_guided_tokens d ! s, num_advanced_draft_tokens d ! s, is_draft_terminated d ! s)"

definition buffer_rows :: "nat \<Rightarrow> nat \<Rightarrow> ('m, 'b) decoder \<Rightarrow> ('b option \<times> bool) list" where
  "buffer_rows k n d = map (\<lambda>i. (bitmask_host d ! (k + i), token_mask_host d ! (k + i))) [0..<n]"

definition sized :: "nat \<Rightarrow> nat \<Rightarrow> nat \<Rightarrow> ('m, 'b) decoder \<Rightarrow> bool" where
  "sized S R K d \<longleftrightarrow> length (grammar_matchers d) = S \<and> length (num_advanced_tokens d) = S \<and> length (num_guided_tokens d) = S
     \<and> length (num_advanced_draft_tokens d) = S \<and> length (is_draft_terminated d) = S
     \<and> length (bitmask_host d) = R \<and> length (token_mask_host d) = R \<and> max_num_draft_tokens d = K"

definition frame :: "nat \<Rightarrow> nat \<Rightarrow> nat \<Rightarrow> ('m, 'b) decoder \<Rightarrow> ('m, 'b) decoder \<Rightarrow> bool" where
  "frame slot k n d d' \<longleftrightarrow> (\<forall>S R K. sized S R K d \<longrightarrow> sized S R K d') \<and> (\<forall>s. s \<noteq> slot \<longrightarrow> slot_view d' s = slot_view d s)
     \<and> (\<forall>j. j < k \<or> k + n \<le> j \<longrightarrow> bitmask_host d' ! j = bitmask_host d ! j \<and> token_mask_host d' ! j = token_mask_host d ! j)"

lemma frame_refl [simp, intro]: "frame slot k n d d"
  by (simp add: frame_def)

lemma frame_trans [trans]: "frame slot k n d d1 \<Longrightarrow> frame slot k n d1 d2 \<Longrightarrow> frame slot k n d d2"
  by (simp add: frame_def)

lemma frame_sized: "frame slot k n d d' \<Longrightarrow> sized S R K d \<Longrightarrow> sized S R K d'"
  by (simp add: frame_def)

lemma frame_view: "frame slot k n d d' \<Longrightarrow> s \<noteq> slot \<Longrightarrow> slot_view d' s = slot_view d s"
  by (simp add: frame_def)

lemma frame_rows: "frame slot k n d d' \<Longrightarrow> j + l \<le> k \<or> k + n \<le> j \<Longrightarrow> buffer_rows j l d' = buffer_rows j l d"
  by (auto simp: frame_def buffer_rows_def)

lemma buffer_rows_length [simp]: "length (buffer_rows k n d) = n"
  by (simp add: buffer_rows_def)

lemma buffer_rows_nth [simp]: "i < n \<Longrightarrow> buffer_rows k n d ! i = (bitmask_host d ! (k + i), token_mask_host d ! (k + i))"
  by (simp add: buffer_rows_def)

text \<open>Writing consecutive rows.\<close>

fun put :: "nat \<Rightarrow> 'a list \<Rightarrow> 'a list \<Rightarrow> 'a list" where
  "put k [] xs = xs"
| "put k (b # bs) xs = put (k + 1) bs (xs[k := b])"

lemma length_put [simp]: "length (put k bs xs) = length xs"
  by (induction k bs xs rule: put.induct) auto

lemma nth_put: "k + length bs \<le> length xs \<Longrightarrow> put k bs xs ! j = (if k \<le> j \<and> j < k + length bs then bs ! (j - k) else xs ! j)"
proof (induction k bs xs rule: put.induct)
  case (2 k b bs xs)
  then show ?case by (cases "j = k") (auto simp: nth_Cons' nth_list_update)
qed auto

section \<open>The loops over the requests of a batch\<close>

text \<open>
  A loop over requests with distinct slots and separate rows: what the body establishes for one request from the state of its slot and of
  its rows holds for all of them at the end.
\<close>

definition slot_of :: "'p guided_request \<Rightarrow> nat" where
  "slot_of r = (case gr_slot r of Some s \<Rightarrow> s | None \<Rightarrow> 0)"

lemma slot_of_Some [simp]: "gr_slot r = Some s \<Longrightarrow> slot_of r = s"
  by (simp add: slot_of_def)

fun spaced :: "('p guided_request \<Rightarrow> nat) \<Rightarrow> ('p guided_request \<times> nat) list \<Rightarrow> bool" where
  "spaced span [] \<longleftrightarrow> True"
| "spaced span ((r, k) # xs) \<longleftrightarrow> (\<forall>(r', k') \<in> set xs. k + span r \<le> k') \<and> spaced span xs"

lemma build_loop_all:
  assumes step: "\<And>r k d. (r, k) \<in> set xs \<Longrightarrow> sized S R K d \<Longrightarrow> Pre r k (slot_view d (slot_of r)) (buffer_rows k (span r) d)
      \<Longrightarrow> \<exists>res d'. guide_one A r k d = (res, d') \<and> (isl res \<longleftrightarrow> Bad r (slot_view d (slot_of r))) \<and> frame (slot_of r) k (span r) d d'
            \<and> Post r k (slot_view d (slot_of r)) (slot_view d' (slot_of r)) (buffer_rows k (span r) d')"
    and "distinct (map (slot_of \<circ> fst) xs)" "spaced span xs" "sized S R K d"
    and "\<And>r k. (r, k) \<in> set xs \<Longrightarrow> Pre r k (slot_view d (slot_of r)) (buffer_rows k (span r) d)"
  shows "\<exists>d'. build_loop A xs failed d = (failed @ map (gr_id \<circ> fst) (filter (\<lambda>(r, k). Bad r (slot_view d (slot_of r))) xs), d') \<and> sized S R K d' \<and> (\<forall>s. s \<notin> (slot_of \<circ> fst) ` set xs \<longrightarrow> slot_view d' s = slot_view d s)
     \<and> (\<forall>j. (\<forall>(r, k) \<in> set xs. j < k) \<longrightarrow> bitmask_host d' ! j = bitmask_host d ! j \<and> token_mask_host d' ! j = token_mask_host d ! j)
     \<and> (\<forall>(r, k) \<in> set xs. Post r k (slot_view d (slot_of r)) (slot_view d' (slot_of r)) (buffer_rows k (span r) d'))"
  using assms
proof (induction xs arbitrary: d failed)
  case (Cons x xs)
  obtain r k where x: "x = (r, k)" by (cases x)
  obtain res d1 where d1: "guide_one A r k d = (res, d1)" and bad: "isl res \<longleftrightarrow> Bad r (slot_view d (slot_of r))" and fr: "frame (slot_of r) k (span r) d d1"
    and post: "Post r k (slot_view d (slot_of r)) (slot_view d1 (slot_of r)) (buffer_rows k (span r) d1)"
    using Cons.prems(1)[of r k d] Cons.prems(4) Cons.prems(5)[of r k] unfolding x by auto
  have other: "slot_view d1 (slot_of r') = slot_view d (slot_of r')" "buffer_rows k' (span r') d1 = buffer_rows k' (span r') d"
    if "(r', k') \<in> set xs" for r' k'
  proof -
    have "slot_of r' \<noteq> slot_of r" using Cons.prems(2) that unfolding x by (force simp: image_iff)
    then show "slot_view d1 (slot_of r') = slot_view d (slot_of r')" by (rule frame_view[OF fr])
    show "buffer_rows k' (span r') d1 = buffer_rows k' (span r') d"
      using Cons.prems(3) that unfolding x by (intro frame_rows[OF fr]) auto
  qed
  have s1: "sized S R K d1" by (rule frame_sized[OF fr Cons.prems(4)])
  have IHstep: "\<exists>res d'. guide_one A r k d = (res, d') \<and> (isl res \<longleftrightarrow> Bad r (slot_view d (slot_of r))) \<and> frame (slot_of r) k (span r) d d'
      \<and> Post r k (slot_view d (slot_of r)) (slot_view d' (slot_of r)) (buffer_rows k (span r) d')"
    if "(r, k) \<in> set xs" "sized S R K d" "Pre r k (slot_view d (slot_of r)) (buffer_rows k (span r) d)" for r k d
    using Cons.prems(1)[of r k d] that by simp
  have dist: "distinct (map (slot_of \<circ> fst) xs)" and sp: "spaced span xs" using Cons.prems(2,3) by (simp_all add: x comp_def)
  have pre: "Pre r' k' (slot_view d1 (slot_of r')) (buffer_rows k' (span r') d1)" if m: "(r', k') \<in> set xs" for r' k'
    using Cons.prems(5)[of r' k'] m by (simp add: other[OF m])
  have filt: "filter (\<lambda>(r, k). Bad r (slot_view d1 (slot_of r))) xs = filter (\<lambda>(r, k). Bad r (slot_view d (slot_of r))) xs"
    by (rule filter_cong[OF refl]) (use other(1) in auto)
  let ?f = "failed @ (if isl res then [gr_id r] else [])"
  obtain d' where d': "build_loop A xs ?f d1 = (?f @ map (gr_id \<circ> fst) (filter (\<lambda>(r, k). Bad r (slot_view d (slot_of r))) xs), d')" and s': "sized S R K d'"
    and keep: "\<forall>s. s \<notin> (slot_of \<circ> fst) ` set xs \<longrightarrow> slot_view d' s = slot_view d1 s"
    and low: "\<forall>j. (\<forall>(r, k) \<in> set xs. j < k) \<longrightarrow> bitmask_host d' ! j = bitmask_host d1 ! j \<and> token_mask_host d' ! j = token_mask_host d1 ! j"
    and all: "\<forall>(r, k) \<in> set xs. Post r k (slot_view d1 (slot_of r)) (slot_view d' (slot_of r)) (buffer_rows k (span r) d')"
    using Cons.IH[OF IHstep dist sp s1 pre, of ?f] unfolding filt by blast
  have view: "slot_view d' (slot_of r) = slot_view d1 (slot_of r)"
    using keep Cons.prems(2) unfolding x by (simp add: image_iff)
  have rows: "buffer_rows k (span r) d' = buffer_rows k (span r) d1"
  proof -
    have "bitmask_host d' ! (k + i) = bitmask_host d1 ! (k + i) \<and> token_mask_host d' ! (k + i) = token_mask_host d1 ! (k + i)" if "i < span r" for i
    proof -
      have "\<forall>(r', k') \<in> set xs. k + i < k'" using Cons.prems(3) that unfolding x by fastforce
      then show ?thesis using low by blast
    qed
    then show ?thesis by (simp add: buffer_rows_def)
  qed
  have "slot_view d' s = slot_view d s" if "s \<notin> (slot_of \<circ> fst) ` set (x # xs)" for s
    using keep frame_view[OF fr, of s] that unfolding x by auto
  moreover have "bitmask_host d' ! j = bitmask_host d ! j \<and> token_mask_host d' ! j = token_mask_host d ! j" if "\<forall>(r, k) \<in> set (x # xs). j < k" for j
    using low fr that unfolding x frame_def by auto
  moreover have "\<forall>(r, k) \<in> set (x # xs). Post r k (slot_view d (slot_of r)) (slot_view d' (slot_of r)) (buffer_rows k (span r) d')"
    using all other(1) post view rows unfolding x by auto
  moreover have "build_loop A (x # xs) failed d = (failed @ map (gr_id \<circ> fst) (filter (\<lambda>(r, k). Bad r (slot_view d (slot_of r))) (x # xs)), d')"
    using d1 d' bad by (cases res) (auto simp: x)
  ultimately show ?case using s' by blast
qed simp

lemma for_requests_all:
  assumes step: "\<And>r d. r \<in> set rs \<Longrightarrow> sized S R K d \<Longrightarrow> Pre r (slot_view d (slot_of r))
      \<Longrightarrow> \<exists>d'. f r d = (Inr (), d') \<and> frame (slot_of r) 0 0 d d' \<and> Post r (slot_view d (slot_of r)) (slot_view d' (slot_of r))"
    and "distinct (map slot_of rs)" "sized S R K d" "\<And>r. r \<in> set rs \<Longrightarrow> Pre r (slot_view d (slot_of r))"
  shows "\<exists>d'. for_requests f rs d = (Inr (), d') \<and> sized S R K d' \<and> (\<forall>s. s \<notin> slot_of ` set rs \<longrightarrow> slot_view d' s = slot_view d s)
     \<and> (\<forall>r \<in> set rs. Post r (slot_view d (slot_of r)) (slot_view d' (slot_of r)))"
  using assms
proof (induction rs arbitrary: d)
  case (Cons r rs)
  obtain d1 where d1: "f r d = (Inr (), d1)" and fr: "frame (slot_of r) 0 0 d d1"
    and post: "Post r (slot_view d (slot_of r)) (slot_view d1 (slot_of r))"
    using Cons.prems(1)[of r d] Cons.prems(3) Cons.prems(4)[of r] by auto
  have other: "slot_view d1 (slot_of r') = slot_view d (slot_of r')" if "r' \<in> set rs" for r'
    using Cons.prems(2) that by (intro frame_view[OF fr]) (force simp: image_iff)
  have IHstep: "\<exists>d'. f r d = (Inr (), d') \<and> frame (slot_of r) 0 0 d d' \<and> Post r (slot_view d (slot_of r)) (slot_view d' (slot_of r))"
    if "r \<in> set rs" "sized S R K d" "Pre r (slot_view d (slot_of r))" for r d
    using Cons.prems(1)[of r d] that by simp
  have dist: "distinct (map slot_of rs)" using Cons.prems(2) by simp
  have pre: "Pre r' (slot_view d1 (slot_of r'))" if m: "r' \<in> set rs" for r'
    using Cons.prems(4)[of r'] m by (simp add: other[OF m])
  obtain d' where d': "for_requests f rs d1 = (Inr (), d')" and s': "sized S R K d'"
    and keep: "\<forall>s. s \<notin> slot_of ` set rs \<longrightarrow> slot_view d' s = slot_view d1 s"
    and all: "\<forall>r \<in> set rs. Post r (slot_view d1 (slot_of r)) (slot_view d' (slot_of r))"
    using Cons.IH[OF IHstep dist frame_sized[OF fr Cons.prems(3)] pre] by blast
  have view: "slot_view d' (slot_of r) = slot_view d1 (slot_of r)" using keep Cons.prems(2) by (simp add: image_iff)
  have "slot_view d' s = slot_view d s" if "s \<notin> slot_of ` set (r # rs)" for s
    using keep frame_view[OF fr, of s] that by auto
  moreover have "\<forall>r \<in> set (r # rs). Post r (slot_view d (slot_of r)) (slot_view d' (slot_of r))"
    using all other post view by auto
  moreover have "for_requests f (r # rs) d = (Inr (), d')" using d1 d' by simp
  ultimately show ?case using s' by blast
qed simp

section \<open>Grammars\<close>

text \<open>The number of tokens that may follow a text and the rows on the way.\<close>

fun followed :: "(int list \<Rightarrow> bool) \<Rightarrow> (int list \<Rightarrow> bool) \<Rightarrow> int list \<Rightarrow> int list \<Rightarrow> nat" where
  "followed viable final h [] = 0"
| "followed viable final h (t # ts) =
     (if viable (h @ [t]) then if final (h @ [t]) then 1 else Suc (followed viable final (h @ [t]) ts) else 0)"

fun draft_rows :: "(int list \<Rightarrow> bool) \<Rightarrow> (int list \<Rightarrow> bool) \<Rightarrow> (int list \<Rightarrow> 'b) \<Rightarrow> int list \<Rightarrow> int list \<Rightarrow> 'b list" where
  "draft_rows viable final row h [] = []"
| "draft_rows viable final row h (t # ts) =
     (if viable (h @ [t]) \<and> \<not> final (h @ [t]) then row (h @ [t]) # draft_rows viable final row (h @ [t]) ts else [])"

lemma followed_le: "followed viable final h ts \<le> length ts"
  by (induction ts arbitrary: h) auto

lemma draft_rows_length:
  "i < length (draft_rows viable final row h ts) \<longleftrightarrow> i < followed viable final h ts \<and> \<not> final (h @ take (Suc i) ts)"
proof (induction ts arbitrary: h i)
  case (Cons t ts)
  show ?case
  proof (cases i)
    case (Suc j)
    show ?thesis using Cons[of j "h @ [t]"] Suc by simp
  qed simp
qed simp

lemma draft_rows_le: "length (draft_rows viable final row h ts) \<le> length ts"
  by (induction ts arbitrary: h) auto

lemma draft_rows_nth: "i < length (draft_rows viable final row h ts) \<Longrightarrow> draft_rows viable final row h ts ! i = row (h @ take (Suc i) ts)"
proof (induction ts arbitrary: h i)
  case (Cons t ts)
  then show ?case by (cases i) (auto split: if_splits)
qed simp

lemma followed_iff:
  "i \<le> followed viable final h ts \<longleftrightarrow> i \<le> length ts \<and> (\<forall>j<i. viable (h @ take (Suc j) ts) \<and> (Suc j < i \<longrightarrow> \<not> final (h @ take (Suc j) ts)))"
proof (induction ts arbitrary: h i)
  case (Cons t ts)
  show ?case
  proof (cases i)
    case (Suc l)
    have all: "(\<forall>j<Suc l. P j) \<longleftrightarrow> P 0 \<and> (\<forall>j<l. P (Suc j))" for P by (metis less_Suc_eq_0_disj zero_less_Suc Suc_less_eq)
    show ?thesis unfolding Suc all using Cons[of l "h @ [t]"] by (cases l) auto
  qed simp
qed auto

text \<open>
  What a grammar library promises of its matchers, and what \<open>LLGuidanceMatcher\<close> is shown to keep: a matcher stands for a grammar and the
  tokens accepted so far; a token is accepted when the grammar can go on after it, at most \<open>limit\<close> tokens can be taken back at once.
\<close>

locale grammar_matcher =
  fixes A :: "('m, 'b, 'p) matcher_api"
    and ok :: "'m \<Rightarrow> bool" and gram :: "'m \<Rightarrow> 'g" and hist :: "'m \<Rightarrow> int list"
    and grammar_of :: "'p \<Rightarrow> 'g" and viable :: "'g \<Rightarrow> int list \<Rightarrow> bool" and final :: "'g \<Rightarrow> int list \<Rightarrow> bool" and row :: "'g \<Rightarrow> int list \<Rightarrow> 'b"
    and limit :: nat
  assumes create_new: "create A p = Inr m \<Longrightarrow> ok m \<and> gram m = grammar_of p \<and> hist m = []"
    and accept_follows: "ok m \<Longrightarrow> \<not> is_terminated A m \<Longrightarrow> \<exists>m1. accept_token A t m = (Inr (viable (gram m) (hist m @ [t])), m1) \<and> ok m1
          \<and> gram m1 = gram m \<and> hist m1 = hist m @ (if viable (gram m) (hist m @ [t]) then [t] else [])"
    and rollback_forgets: "ok m \<Longrightarrow> n \<le> limit \<Longrightarrow> n \<le> length (hist m) \<Longrightarrow> \<exists>m1. rollback A n m = (Inr (), m1) \<and> ok m1
          \<and> gram m1 = gram m \<and> hist m1 = take (length (hist m) - n) (hist m)"
    and fill_row_of: "ok m \<Longrightarrow> \<not> is_terminated A m \<Longrightarrow> fill_next_token_bitmask A m = Inr (row (gram m) (hist m))"
    and terminated_final: "ok m \<Longrightarrow> is_terminated A m \<longleftrightarrow> final (gram m) (hist m)"
begin

lemma fill_row_ok:
  assumes "ok m" "\<not> is_terminated A m" "k < length (bitmask_host d)"
  shows "fill_row A slot k m d = (Inr (), d\<lparr>bitmask_host := (bitmask_host d)[k := Some (row (gram m) (hist m))],
     token_mask_host := (token_mask_host d)[k := True], num_guided_tokens := (num_guided_tokens d)[slot := num_guided_tokens d ! slot + 1]\<rparr>)"
  using assms by (simp add: fill_row_def fill_row_of)

lemma guide_drafts_ok:
  assumes "sized S R K d" "slot < S" "k + length ts \<le> R" "ok m" "\<not> is_terminated A m" "grammar_matchers d ! slot = Some m"
  shows "\<exists>m'. ok m' \<and> gram m' = gram m \<and> hist m' = hist m @ take (followed (viable (gram m)) (final (gram m)) (hist m) ts) ts
     \<and> guide_drafts A slot k ts m d = (Inr (), d
         \<lparr>grammar_matchers := (grammar_matchers d)[slot := Some m'],
          bitmask_host := put k (map Some (draft_rows (viable (gram m)) (final (gram m)) (row (gram m)) (hist m) ts)) (bitmask_host d),
          token_mask_host := put k (map (\<lambda>_. True) (draft_rows (viable (gram m)) (final (gram m)) (row (gram m)) (hist m) ts)) (token_mask_host d),
          num_advanced_tokens := (num_advanced_tokens d)[slot := num_advanced_tokens d ! slot + followed (viable (gram m)) (final (gram m)) (hist m) ts],
          num_guided_tokens := (num_guided_tokens d)[slot := num_guided_tokens d ! slot + length (draft_rows (viable (gram m)) (final (gram m)) (row (gram m)) (hist m) ts)]\<rparr>)"
  using assms
proof (induction ts arbitrary: k m d)
  case Nil
  have "(grammar_matchers d)[slot := Some m] = grammar_matchers d" using Nil(6) list_update_id by metis
  then show ?case using Nil by (intro exI[of _ m]) simp
next
  case (Cons t ts)
  let ?v = "viable (gram m) (hist m @ [t])"
  obtain m1 where acc: "accept_token A t m = (Inr ?v, m1)" and m1: "ok m1" "gram m1 = gram m" "hist m1 = hist m @ (if ?v then [t] else [])"
    using accept_follows[OF Cons.prems(4,5), of t] by blast
  show ?case
  proof (cases ?v)
    case False
    then show ?thesis using acc m1 Cons.prems by (intro exI[of _ m1]) (simp add: set_matcher_def sized_def)
  next
    case True
    let ?d1 = "count_advanced slot (set_matcher slot m1 d)"
    show ?thesis
    proof (cases "is_terminated A m1")
      case True
      then show ?thesis using acc m1 Cons.prems \<open>?v\<close> terminated_final[OF m1(1)]
        by (intro exI[of _ m1]) (simp add: set_matcher_def count_advanced_def sized_def)
    next
      case False
      let ?d2 = "?d1\<lparr>bitmask_host := (bitmask_host d)[k := Some (row (gram m) (hist m @ [t]))],
        token_mask_host := (token_mask_host d)[k := True], num_guided_tokens := (num_guided_tokens d)[slot := num_guided_tokens d ! slot + 1]\<rparr>"
      have fill: "fill_row A slot k m1 ?d1 = (Inr (), ?d2)"
        using fill_row_ok[OF m1(1) False, of k ?d1 slot] Cons.prems(1,3) m1 \<open>?v\<close> by (simp add: count_advanced_def set_matcher_def sized_def)
      have "sized S R K ?d2" "grammar_matchers ?d2 ! slot = Some m1"
        using Cons.prems(1,2) by (simp_all add: sized_def count_advanced_def set_matcher_def)
      then obtain m' where m': "ok m'" "gram m' = gram m" "hist m' = hist m1 @ take (followed (viable (gram m)) (final (gram m)) (hist m1) ts) ts"
        and run: "guide_drafts A slot (k + 1) ts m1 ?d2 = (Inr (), ?d2
         \<lparr>grammar_matchers := (grammar_matchers ?d2)[slot := Some m'],
          bitmask_host := put (k + 1) (map Some (draft_rows (viable (gram m)) (final (gram m)) (row (gram m)) (hist m1) ts)) (bitmask_host ?d2),
          token_mask_host := put (k + 1) (map (\<lambda>_. True) (draft_rows (viable (gram m)) (final (gram m)) (row (gram m)) (hist m1) ts)) (token_mask_host ?d2),
          num_advanced_tokens := (num_advanced_tokens ?d2)[slot := num_advanced_tokens ?d2 ! slot + followed (viable (gram m)) (final (gram m)) (hist m1) ts],
          num_guided_tokens := (num_guided_tokens ?d2)[slot := num_guided_tokens ?d2 ! slot + length (draft_rows (viable (gram m)) (final (gram m)) (row (gram m)) (hist m1) ts)]\<rparr>)"
        using Cons.IH[of ?d2 "k + 1" m1] Cons.prems(2,3) m1(1,2) False by auto
      have nf: "\<not> final (gram m) (hist m @ [t])" using terminated_final[OF m1(1)] False m1 \<open>?v\<close> by simp
      show ?thesis
        using acc m' run fill nf m1 False \<open>?v\<close> Cons.prems(1,2)
        by (intro exI[of _ m']) (simp add: Let_def count_advanced_def set_matcher_def sized_def)
    qed
  qed
qed

end

section \<open>A step of the target model\<close>

definition goes_on :: "('g \<Rightarrow> int list \<Rightarrow> bool) \<Rightarrow> ('g \<Rightarrow> int list \<Rightarrow> bool) \<Rightarrow> 'g \<Rightarrow> int list \<Rightarrow> int list \<Rightarrow> nat" where
  \<comment> \<open>how many of the draft tokens can follow the text\<close>
  "goes_on viable final g h ts = (if final g h then 0 else followed (viable g) (final g) h ts)"

definition rows_right :: "('g \<Rightarrow> int list \<Rightarrow> bool) \<Rightarrow> ('g \<Rightarrow> int list \<Rightarrow> bool) \<Rightarrow> ('g \<Rightarrow> int list \<Rightarrow> 'b) \<Rightarrow> 'g \<Rightarrow> int list \<Rightarrow> int list \<Rightarrow> ('b option \<times> bool) list \<Rightarrow> bool" where
  \<comment> \<open>the row after each draft token that can follow is marked and holds the tokens allowed there; no other row is marked\<close>
  "rows_right viable final row g h ts rows \<longleftrightarrow>
     (\<forall>i \<le> length ts. if i \<le> goes_on viable final g h ts \<and> \<not> final g (h @ take i ts) then rows ! i = (Some (row g (h @ take i ts)), True) else \<not> snd (rows ! i))"

lemma goes_on_le: "goes_on viable final g h ts \<le> length ts"
  by (simp add: goes_on_def followed_le)

lemma rows_right_put:
  assumes "\<not> final g h" "k + Suc (length ts) \<le> length xs" "length ys = length xs" "\<And>i. i \<le> length ts \<Longrightarrow> \<not> ys ! (k + i)"
  shows "rows_right viable final row g h ts
     (map (\<lambda>i. (put (Suc k) (map Some (draft_rows (viable g) (final g) (row g) h ts)) (xs[k := Some (row g h)]) ! (k + i),
                put (Suc k) (map (\<lambda>_. True) (draft_rows (viable g) (final g) (row g) h ts)) (ys[k := True]) ! (k + i))) [0..<Suc (length ts)])"
proof -
  let ?D = "draft_rows (viable g) (final g) (row g) h ts"
  have le: "length ?D \<le> length ts" by (rule draft_rows_le)
  have nth: "put (Suc k) (map f ?D) (zs[k := z]) ! (k + i) = (if i = 0 then z else if i \<le> length ?D then f (?D ! (i - 1)) else zs ! (k + i))"
    if "i \<le> length ts" "length zs = length xs" for i f z and zs :: "'z list"
    using that le assms(2) by (subst nth_put) (auto simp: nth_list_update)
  have main: "if i \<le> followed (viable g) (final g) h ts \<and> \<not> final g (h @ take i ts) then
      (put (Suc k) (map Some ?D) (xs[k := Some (row g h)]) ! (k + i), put (Suc k) (map (\<lambda>_. True) ?D) (ys[k := True]) ! (k + i)) = (Some (row g (h @ take i ts)), True)
     else \<not> put (Suc k) (map (\<lambda>_. True) ?D) (ys[k := True]) ! (k + i)" if i: "i \<le> length ts" for i
  proof (cases i)
    case 0
    then show ?thesis using assms(1) nth[of 0 xs] nth[of 0 ys] assms(3) by simp
  next
    case (Suc j)
    have "j < length ?D \<longleftrightarrow> i \<le> followed (viable g) (final g) h ts \<and> \<not> final g (h @ take i ts)"
      by (simp add: draft_rows_length Suc Suc_le_eq)
    then show ?thesis using nth[OF i, of xs] nth[OF i, of ys] assms(3) assms(4)[OF i] draft_rows_nth[of j "viable g" "final g" "row g" h ts] by (auto simp: Suc)
  qed
  show ?thesis unfolding rows_right_def goes_on_def using main assms(1) by (auto simp del: upt_Suc)
qed

context grammar_matcher
begin

lemma guide_rows_ok:
  assumes sz: "sized S R K d" and sl: "slot < S" and ks: "k + Suc (length ts) \<le> R" and m: "ok m" "grammar_matchers d ! slot = Some m"
    and ts: "gr_draft_tokens r = Some ts" and marks: "\<And>i. i \<le> length ts \<Longrightarrow> \<not> token_mask_host d ! (k + i)"
  shows "\<exists>d' m' gd. guide_rows A r slot k m d = (Inr (), d') \<and> frame slot k (Suc (length ts)) d d'
     \<and> slot_view d' slot = (Some m', num_advanced_tokens d ! slot + goes_on viable final (gram m) (hist m) ts, gd, num_advanced_draft_tokens d ! slot, is_draft_terminated d ! slot)
     \<and> ok m' \<and> gram m' = gram m \<and> hist m' = hist m @ take (goes_on viable final (gram m) (hist m) ts) ts
     \<and> rows_right viable final row (gram m) (hist m) ts (buffer_rows k (Suc (length ts)) d')"
proof (cases "is_terminated A m")
  case True
  then have "final (gram m) (hist m)" using terminated_final[OF m(1)] by simp
  then have "rows_right viable final row (gram m) (hist m) ts (buffer_rows k (Suc (length ts)) d)"
    using marks by (simp add: rows_right_def goes_on_def)
  then show ?thesis using True \<open>final (gram m) (hist m)\<close> m
    by (intro exI[of _ d] exI[of _ m]) (simp add: guide_rows_def goes_on_def slot_view_def)
next
  case False
  then have nf: "\<not> final (gram m) (hist m)" using terminated_final[OF m(1)] by simp
  let ?n = "followed (viable (gram m)) (final (gram m)) (hist m) ts" and ?D = "draft_rows (viable (gram m)) (final (gram m)) (row (gram m)) (hist m) ts"
  let ?d1 = "d\<lparr>bitmask_host := (bitmask_host d)[k := Some (row (gram m) (hist m))],
     token_mask_host := (token_mask_host d)[k := True], num_guided_tokens := (num_guided_tokens d)[slot := num_guided_tokens d ! slot + 1]\<rparr>"
  have fill: "fill_row A slot k m d = (Inr (), ?d1)" using fill_row_ok[OF m(1) False, of k d slot] sz ks by (simp add: sized_def)
  have s1: "sized S R K ?d1" using sz by (simp add: sized_def)
  have g1: "grammar_matchers ?d1 ! slot = Some m" using m(2) by simp
  obtain m' where m': "ok m'" "gram m' = gram m" "hist m' = hist m @ take ?n ts"
    and run: "guide_drafts A slot (k + 1) ts m ?d1 = (Inr (), ?d1
         \<lparr>grammar_matchers := (grammar_matchers ?d1)[slot := Some m'], bitmask_host := put (k + 1) (map Some ?D) (bitmask_host ?d1),
          token_mask_host := put (k + 1) (map (\<lambda>_. True) ?D) (token_mask_host ?d1),
          num_advanced_tokens := (num_advanced_tokens ?d1)[slot := num_advanced_tokens ?d1 ! slot + ?n],
          num_guided_tokens := (num_guided_tokens ?d1)[slot := num_guided_tokens ?d1 ! slot + length ?D]\<rparr>)" (is "_ = (Inr (), ?d')")
    using guide_drafts_ok[OF s1 sl _ m(1) False g1, of "k + 1" ts] ks by auto
  have le: "length ?D \<le> length ts" by (rule draft_rows_le)
  have "frame slot k (Suc (length ts)) d ?d'"
    using le ks sz unfolding frame_def sized_def by (auto simp: slot_view_def nth_put nth_list_update)
  moreover have "rows_right viable final row (gram m) (hist m) ts (buffer_rows k (Suc (length ts)) ?d')"
    unfolding buffer_rows_def using rows_right_put[of final "gram m" "hist m" k ts "bitmask_host d" "token_mask_host d" viable row] nf ks sz marks by (simp add: sized_def del: upt_Suc)
  moreover have "guide_rows A r slot k m d = (Inr (), ?d')" using False fill run ts by (simp add: guide_rows_def)
  ultimately show ?thesis using m' nf sl sz
    by (intro exI[of _ ?d'] exI[of _ m']) (simp add: slot_view_def goes_on_def sized_def)
qed

end

text \<open>
  A request that can be guided: its slot exists, its rows lie in the buffer, its matcher can be created or holds a text after which the
  new token is possible.
\<close>

definition guided_text :: "('m \<Rightarrow> 'g) \<Rightarrow> ('m \<Rightarrow> int list) \<Rightarrow> ('p \<Rightarrow> 'g) \<Rightarrow> 'p guided_request \<Rightarrow> 'm option \<Rightarrow> ('g \<times> int list) option" where
  \<comment> \<open>the grammar and the text at the first row of the request, from the matcher found in its slot\<close>
  "guided_text gram hist grammar_of r mo =
     (if require_matcher_init r then map_option (\<lambda>p. (grammar_of p, [])) (guided_decoding_params r)
      else map_option (\<lambda>m. (gram m, hist m @ [new_token r])) mo)"

definition drafts_of :: "'p guided_request \<Rightarrow> int list" where
  "drafts_of r = (case gr_draft_tokens r of Some ts \<Rightarrow> ts | None \<Rightarrow> [])"

definition target_request :: "nat \<Rightarrow> nat \<Rightarrow> 'p guided_request \<Rightarrow> bool" where
  \<comment> \<open>a guided request of the target model with a slot and not too many draft tokens\<close>
  "target_request S K r \<longleftrightarrow> valid_request r \<and> slot_of r < S \<and> \<not> is_draft r \<and> gr_draft_tokens r \<noteq> None \<and> \<not> (require_matcher_init r \<and> require_matcher_advance r)
     \<and> length (drafts_of r) \<le> (if is_generation_in_progress_state r then K else 0)"

definition guides :: "('m, 'b, 'p) matcher_api \<Rightarrow> ('m \<Rightarrow> 'g) \<Rightarrow> ('m \<Rightarrow> int list) \<Rightarrow> ('g \<Rightarrow> int list \<Rightarrow> bool) \<Rightarrow> ('g \<Rightarrow> int list \<Rightarrow> bool) \<Rightarrow> 'p guided_request \<Rightarrow> 'm option \<Rightarrow> bool \<Rightarrow> bool" where
  \<comment> \<open>the step gives rows to the request: its matcher is created, or the matcher of its slot follows the new token\<close>
  "guides A gram hist viable final r mo stopped \<longleftrightarrow>
     (if require_matcher_init r then (case guided_decoding_params r of Some p \<Rightarrow> \<not> isl (create A p) | None \<Rightarrow> False)
      else require_matcher_advance r \<and> (case mo of Some m \<Rightarrow> \<not> final (gram m) (hist m) \<and> \<not> stopped \<and> viable (gram m) (hist m @ [new_token r]) | None \<Rightarrow> False))"

definition refuses :: "('m, 'b, 'p) matcher_api \<Rightarrow> ('m \<Rightarrow> 'g) \<Rightarrow> ('m \<Rightarrow> int list) \<Rightarrow> ('g \<Rightarrow> int list \<Rightarrow> bool) \<Rightarrow> ('g \<Rightarrow> int list \<Rightarrow> bool) \<Rightarrow> 'p guided_request \<Rightarrow> 'm option \<Rightarrow> bool \<Rightarrow> bool" where
  \<comment> \<open>the step fails: the grammar cannot be compiled, or the new token is not possible\<close>
  "refuses A gram hist viable final r mo stopped \<longleftrightarrow>
     (if require_matcher_init r then (case guided_decoding_params r of Some p \<Rightarrow> isl (create A p) | None \<Rightarrow> False)
      else require_matcher_advance r \<and> (case mo of Some m \<Rightarrow> \<not> final (gram m) (hist m) \<and> \<not> stopped \<and> \<not> viable (gram m) (hist m @ [new_token r]) | None \<Rightarrow> False))"

context grammar_matcher
begin

abbreviation can_guide :: "'p guided_request \<Rightarrow> 'm option \<Rightarrow> bool \<Rightarrow> bool" where
  "can_guide \<equiv> guides A gram hist viable final"

abbreviation must_refuse :: "'p guided_request \<Rightarrow> 'm option \<Rightarrow> bool \<Rightarrow> bool" where
  "must_refuse \<equiv> refuses A gram hist viable final"

lemma guided_matcher:
  assumes tr: "target_request S K r" and cg: "can_guide r (grammar_matchers d ! slot_of r) (is_draft_terminated d ! slot_of r)" and sz: "sized S R K d"
    and oks: "\<And>m. grammar_matchers d ! slot_of r = Some m \<Longrightarrow> ok m"
  shows "\<exists>m. ok m \<and> guided_text gram hist grammar_of r (grammar_matchers d ! slot_of r) = Some (gram m, hist m)
     \<and> guide_one A r k d = guide_request A r (slot_of r) k (set_matcher (slot_of r) m
          (d\<lparr>num_advanced_tokens := (num_advanced_tokens d)[slot_of r := 0], num_guided_tokens := (num_guided_tokens d)[slot_of r := 0]\<rparr>))"
proof -
  obtain slot where slot: "gr_slot r = Some slot" "slot < S" using tr by (auto simp: target_request_def valid_request_def)
  let ?d0 = "d\<lparr>num_advanced_tokens := (num_advanced_tokens d)[slot := 0], num_guided_tokens := (num_guided_tokens d)[slot := 0]\<rparr>"
  show ?thesis
  proof (cases "require_matcher_init r")
    case True
    then have na: "\<not> require_matcher_advance r" using tr by (simp add: target_request_def)
    obtain p m where p: "guided_decoding_params r = Some p" "create A p = Inr m" using cg True by (auto simp: guides_def isl_def split: option.splits sum.splits) (metis sum.exhaust_sel)
    show ?thesis
      using create_new[OF p(2)] p True na slot sz
      by (intro exI[of _ m]) (simp add: guide_one_def Let_def init_matcher_def advance_matcher_def guided_text_def sized_def)
  next
    case False
    then have adv: "require_matcher_advance r" using cg by (simp add: guides_def)
    obtain m where m: "grammar_matchers d ! slot = Some m" "ok m" "\<not> final (gram m) (hist m)" "\<not> is_draft_terminated d ! slot" "viable (gram m) (hist m @ [new_token r])"
      using cg False slot oks by (auto simp: guides_def split: option.splits)
    have nt: "\<not> is_terminated A m" using terminated_final[OF m(2)] m(3) by simp
    obtain m1 where m1: "accept_token A (new_token r) m = (Inr True, m1)" "ok m1" "gram m1 = gram m" "hist m1 = hist m @ [new_token r]"
      using accept_follows[OF m(2) nt, of "new_token r"] m(5) by auto
    show ?thesis
      using m m1 nt False adv slot sz
      by (intro exI[of _ m1]) (simp add: guide_one_def Let_def init_matcher_def advance_matcher_def guided_text_def sized_def)
  qed
qed

definition target_post :: "'p guided_request \<Rightarrow> 'm option \<times> nat \<times> nat \<times> nat \<times> bool \<Rightarrow> 'm option \<times> nat \<times> nat \<times> nat \<times> bool \<Rightarrow> ('b option \<times> bool) list \<Rightarrow> bool" where
  "target_post r v v' rows \<longleftrightarrow> (case (v, v') of ((mo, _, _, nd, dt), (mo', adv', _, nd', dt')) \<Rightarrow>
     nd' = nd \<and> dt' = dt \<and> (\<exists>g h m'. guided_text gram hist grammar_of r mo = Some (g, h) \<and> mo' = Some m' \<and> ok m'
       \<and> gram m' = g \<and> hist m' = h @ take (goes_on viable final g h (drafts_of r)) (drafts_of r) \<and> adv' = Suc (goes_on viable final g h (drafts_of r))
       \<and> rows_right viable final row g h (drafts_of r) rows))"

lemma guide_one_target:
  assumes tr: "target_request S K r" and sz: "sized S R K d" and ks: "k + Suc (length (drafts_of r)) \<le> R"
    and cg: "can_guide r (grammar_matchers d ! slot_of r) (is_draft_terminated d ! slot_of r)" and oks: "\<And>m. grammar_matchers d ! slot_of r = Some m \<Longrightarrow> ok m"
    and marks: "\<And>i. i \<le> length (drafts_of r) \<Longrightarrow> \<not> token_mask_host d ! (k + i)"
  shows "\<exists>d'. guide_one A r k d = (Inr (), d') \<and> frame (slot_of r) k (Suc (length (drafts_of r))) d d'
     \<and> target_post r (slot_view d (slot_of r)) (slot_view d' (slot_of r)) (buffer_rows k (Suc (length (drafts_of r))) d')"
proof -
  let ?s = "slot_of r"
  obtain m where m: "ok m" "guided_text gram hist grammar_of r (grammar_matchers d ! ?s) = Some (gram m, hist m)"
    and bo: "guide_one A r k d = guide_request A r ?s k (set_matcher ?s m
          (d\<lparr>num_advanced_tokens := (num_advanced_tokens d)[?s := 0], num_guided_tokens := (num_guided_tokens d)[?s := 0]\<rparr>))" (is "_ = guide_request A r ?s k ?d0")
    using guided_matcher[OF tr cg sz oks] by blast
  have s: "?s < S" and dr: "\<not> is_draft r" and ts: "gr_draft_tokens r = Some (drafts_of r)" using tr by (auto simp: target_request_def drafts_of_def)
  let ?d1 = "count_advanced ?s ?d0"
  have s1: "sized S R K ?d1" using sz by (simp add: sized_def count_advanced_def set_matcher_def)
  have g1: "grammar_matchers ?d1 ! ?s = Some m" using s sz by (simp add: sized_def count_advanced_def set_matcher_def)
  have marks1: "\<not> token_mask_host ?d1 ! (k + i)" if "i \<le> length (drafts_of r)" for i
    using marks[OF that] by (simp add: count_advanced_def set_matcher_def)
  obtain d' m' gd where run: "guide_rows A r ?s k m ?d1 = (Inr (), d')" and fr: "frame ?s k (Suc (length (drafts_of r))) ?d1 d'"
    and sv: "slot_view d' ?s = (Some m', num_advanced_tokens ?d1 ! ?s + goes_on viable final (gram m) (hist m) (drafts_of r), gd, num_advanced_draft_tokens ?d1 ! ?s, is_draft_terminated ?d1 ! ?s)"
    and m': "ok m'" "gram m' = gram m" "hist m' = hist m @ take (goes_on viable final (gram m) (hist m) (drafts_of r)) (drafts_of r)"
    and rr: "rows_right viable final row (gram m) (hist m) (drafts_of r) (buffer_rows k (Suc (length (drafts_of r))) d')"
    using guide_rows_ok[OF s1 s ks m(1) g1 ts marks1] by blast
  have "frame ?s k (Suc (length (drafts_of r))) d ?d1"
    by (auto simp: frame_def sized_def slot_view_def count_advanced_def set_matcher_def)
  then have fr': "frame ?s k (Suc (length (drafts_of r))) d d'" using fr by (rule frame_trans)
  have "guide_request A r ?s k ?d0 = (Inr (), d')"
    using g1 run dr by (simp add: guide_request_def count_drafted_def count_advanced_def)
  moreover have "num_advanced_tokens ?d1 ! ?s = 1" using s sz by (simp add: sized_def count_advanced_def set_matcher_def)
  moreover have "num_advanced_draft_tokens ?d1 = num_advanced_draft_tokens d" "is_draft_terminated ?d1 = is_draft_terminated d"
    by (simp_all add: count_advanced_def set_matcher_def)
  ultimately show ?thesis using bo fr' sv m' rr m(2) by (intro exI[of _ d']) (simp add: target_post_def slot_view_def)
qed

lemma guide_one_left:
  assumes tr: "target_request S K r" and sz: "sized S R K d" and oks: "\<And>m. grammar_matchers d ! slot_of r = Some m \<Longrightarrow> ok m"
    and ng: "\<not> can_guide r (grammar_matchers d ! slot_of r) (is_draft_terminated d ! slot_of r)"
  shows "\<exists>res d' mo gd. guide_one A r k d = (res, d') \<and> (isl res \<longleftrightarrow> must_refuse r (grammar_matchers d ! slot_of r) (is_draft_terminated d ! slot_of r))
     \<and> frame (slot_of r) k 0 d d' \<and> slot_view d' (slot_of r) = (mo, 0, gd, num_advanced_draft_tokens d ! slot_of r, is_draft_terminated d ! slot_of r)
     \<and> (\<forall>m. mo = Some m \<longrightarrow> ok m) \<and> map_option (\<lambda>m. (gram m, hist m)) mo = map_option (\<lambda>m. (gram m, hist m)) (grammar_matchers d ! slot_of r)"
proof -
  obtain slot where slot: "gr_slot r = Some slot" "slot < S" using tr by (auto simp: target_request_def valid_request_def)
  have s [simp]: "slot_of r = slot" using slot by simp
  have dr: "\<not> is_draft r" using tr by (simp add: target_request_def)
  let ?d0 = "d\<lparr>num_advanced_tokens := (num_advanced_tokens d)[slot := 0], num_guided_tokens := (num_guided_tokens d)[slot := 0]\<rparr>"
  have keep: ?thesis if "guide_one A r k d = (res, ?d0)" "isl res \<longleftrightarrow> must_refuse r (grammar_matchers d ! slot) (is_draft_terminated d ! slot)" for res
    using that oks slot sz
    by (intro exI[of _ res] exI[of _ ?d0] exI[of _ "grammar_matchers d ! slot"]) (auto simp: frame_def sized_def slot_view_def)
  show ?thesis
  proof (cases "require_matcher_init r")
    case True
    obtain p where p: "guided_decoding_params r = Some p" using True by (auto simp: require_matcher_init_def)
    obtain e where e: "create A p = Inl e" using ng True p by (auto simp: guides_def isl_def)
    show ?thesis by (rule keep[of "Inl e"]) (use True p e slot sz in \<open>simp_all add: guide_one_def Let_def init_matcher_def refuses_def sized_def\<close>)
  next
    case False
    show ?thesis
    proof (cases "\<exists>m. require_matcher_advance r \<and> grammar_matchers d ! slot = Some m \<and> \<not> final (gram m) (hist m) \<and> \<not> is_draft_terminated d ! slot")
      case idle: False
      show ?thesis
      proof (rule keep[of "Inr ()"])
        show "guide_one A r k d = (Inr (), ?d0)"
        proof (cases "grammar_matchers d ! slot")
          case None
          then show ?thesis using False slot sz by (simp add: guide_one_def Let_def init_matcher_def advance_matcher_def sized_def)
        next
          case (Some m)
          have "ok m" using oks Some by simp
          then have "\<not> require_matcher_advance r \<or> is_terminated A m \<or> is_draft_terminated d ! slot"
            using idle Some terminated_final[of m] by blast
          then show ?thesis using Some False slot sz by (auto simp: guide_one_def Let_def init_matcher_def advance_matcher_def sized_def)
        qed
        show "isl (Inr () :: unit result) \<longleftrightarrow> must_refuse r (grammar_matchers d ! slot) (is_draft_terminated d ! slot)"
          using idle False by (auto simp: refuses_def split: option.splits)
      qed
    next
      case True
      then obtain m where m: "grammar_matchers d ! slot = Some m" "ok m" "\<not> final (gram m) (hist m)" "\<not> is_draft_terminated d ! slot" and adv: "require_matcher_advance r"
        using oks by auto
      have nv: "\<not> viable (gram m) (hist m @ [new_token r])" using ng False adv m by (simp add: guides_def)
      have nt: "\<not> is_terminated A m" using terminated_final[OF m(2)] m(3) by simp
      obtain m1 where m1: "accept_token A (new_token r) m = (Inr False, m1)" "ok m1" "gram m1 = gram m" "hist m1 = hist m"
        using accept_follows[OF m(2) nt, of "new_token r"] nv by auto
      have "guide_one A r k d = (Inl ValueError, set_matcher slot m1 ?d0)"
        using m m1 nt False adv slot sz dr by (simp add: guide_one_def Let_def init_matcher_def advance_matcher_def sized_def)
      moreover have "must_refuse r (grammar_matchers d ! slot) (is_draft_terminated d ! slot)" using m nv False adv by (simp add: refuses_def)
      moreover have "frame slot k 0 d (set_matcher slot m1 ?d0)" by (auto simp: frame_def sized_def slot_view_def set_matcher_def)
      ultimately show ?thesis using m m1 slot sz
        by (intro exI[of _ "Inl ValueError"] exI[of _ "set_matcher slot m1 ?d0"] exI[of _ "Some m1"]) (simp add: slot_view_def set_matcher_def sized_def)
    qed
  qed
qed

end

text \<open>The offsets of the requests separate their rows.\<close>

definition row_span :: "nat \<Rightarrow> 'p guided_request \<Rightarrow> nat" where
  "row_span K r = Suc (if \<not> is_draft r \<and> is_generation_in_progress_state r then K else 0)"

definition total_rows :: "nat \<Rightarrow> 'p guided_request list \<Rightarrow> nat" where
  "total_rows K rs = sum_list (map (row_span K) rs)"

lemma with_offsets_bounds:
  "(r, k) \<in> set (with_offsets K off rs) \<Longrightarrow> off \<le> k \<and> k + row_span K r \<le> off + total_rows K rs \<and> r \<in> set rs \<and> valid_request r"
  by (induction K off rs rule: with_offsets.induct) (fastforce simp: total_rows_def row_span_def split: if_splits)+

lemma with_offsets_fst: "map fst (with_offsets K off rs) = filter valid_request rs"
  by (induction K off rs rule: with_offsets.induct) auto

lemma with_offsets_spaced:
  "(\<And>r. r \<in> set rs \<Longrightarrow> valid_request r \<Longrightarrow> span r \<le> row_span K r) \<Longrightarrow> spaced span (with_offsets K off rs)"
proof (induction K off rs rule: with_offsets.induct)
  case (2 K off r rs)
  have "off + span r \<le> k" if "(r', k) \<in> set (with_offsets K (off + row_span K r) rs)" "valid_request r" for r' k
    using with_offsets_bounds[OF that(1)] 2(2)[of r] that(2) by simp
  then show ?case using 2 by (fastforce simp: row_span_def)
qed simp

lemma target_span: "target_request S K r \<Longrightarrow> Suc (length (drafts_of r)) \<le> row_span K r"
  by (simp add: target_request_def row_span_def)

lemma scheduled_rows:
  assumes "\<forall>q \<in> set cs. \<not> gs_is_draft q \<and> \<not> gs_generation_in_progress q" "\<forall>q \<in> set gs. \<not> gs_is_draft q \<and> gs_generation_in_progress q" "cs @ gs \<noteq> []"
  shows "num_bitmask_tokens (from_scheduled_requests cs gs K) = Inr (total_rows K (requests (from_scheduled_requests cs gs K)))"
    and "length (cs @ gs) \<le> S \<Longrightarrow> total_rows K (requests (from_scheduled_requests cs gs K)) \<le> S * (K + 1)"
proof -
  have c: "sum_list (map (row_span K \<circ> from_llm_request) cs) = length cs" using assms(1)
    by (induction cs) (auto simp: row_span_def from_llm_request_def)
  have g: "sum_list (map (row_span K \<circ> from_llm_request) gs) = length gs * (K + 1)" using assms(2)
    by (induction gs) (auto simp: row_span_def from_llm_request_def)
  have total: "total_rows K (requests (from_scheduled_requests cs gs K)) = length cs + length gs * (K + 1)"
    using c g by (simp add: total_rows_def from_scheduled_requests_def)
  have "length cs + length gs * (K + 1) \<le> length (cs @ gs) * (K + 1)" by (simp add: add_mult_distrib)
  then show "total_rows K (requests (from_scheduled_requests cs gs K)) \<le> S * (K + 1)" if "length (cs @ gs) \<le> S"
    unfolding total using mult_le_mono1[OF that, of "K + 1"] by (rule le_trans)
  obtain q qs where q: "cs @ gs = q # qs" using assms(3) by (cases "cs @ gs") auto
  then have "\<not> gs_is_draft q" using assms(1,2) by (cases cs) auto
  then show "num_bitmask_tokens (from_scheduled_requests cs gs K) = Inr (total_rows K (requests (from_scheduled_requests cs gs K)))"
    unfolding total by (simp add: num_bitmask_tokens_def from_scheduled_requests_def q from_llm_request_def flip: map_append)
qed

context grammar_matcher
begin

definition left_alone :: "'m option \<times> nat \<times> nat \<times> nat \<times> bool \<Rightarrow> 'm option \<times> nat \<times> nat \<times> nat \<times> bool \<Rightarrow> ('b option \<times> bool) list \<Rightarrow> bool" where
  "left_alone v v' rows \<longleftrightarrow> (case (v, v') of ((mo, _, _, nd, dt), (mo', adv', _, nd', dt')) \<Rightarrow>
     map_option (\<lambda>m. (gram m, hist m)) mo' = map_option (\<lambda>m. (gram m, hist m)) mo \<and> adv' = 0 \<and> nd' = nd \<and> dt' = dt \<and> (\<forall>i < length rows. \<not> snd (rows ! i)))"

definition slot_ok :: "'m option \<times> nat \<times> nat \<times> nat \<times> bool \<Rightarrow> bool" where
  "slot_ok v \<longleftrightarrow> (\<forall>m. fst v = Some m \<longrightarrow> ok m)"

definition bad_slot :: "'p guided_request \<Rightarrow> 'm option \<times> nat \<times> nat \<times> nat \<times> bool \<Rightarrow> bool" where
  "bad_slot r v \<longleftrightarrow> must_refuse r (fst v) (snd (snd (snd (snd v))))"

definition after_target :: "'p guided_request \<Rightarrow> 'm option \<times> nat \<times> nat \<times> nat \<times> bool \<Rightarrow> 'm option \<times> nat \<times> nat \<times> nat \<times> bool \<Rightarrow> ('b option \<times> bool) list \<Rightarrow> bool" where
  "after_target r v v' rows \<longleftrightarrow> slot_ok v' \<and> (if can_guide r (fst v) (snd (snd (snd (snd v)))) then target_post r v v' rows else left_alone v v' rows)"

lemma guides_not_refuses: "can_guide r mo st \<Longrightarrow> \<not> must_refuse r mo st"
  by (auto simp: guides_def refuses_def split: option.splits if_splits)

lemma guide_one_any:
  assumes tr: "target_request S K r" and sz: "sized S R K d" and ks: "k + Suc (length (drafts_of r)) \<le> R" and ok: "slot_ok (slot_view d (slot_of r))"
    and marks: "\<forall>i < Suc (length (drafts_of r)). \<not> snd (buffer_rows k (Suc (length (drafts_of r))) d ! i)"
  shows "\<exists>res d'. guide_one A r k d = (res, d') \<and> (isl res \<longleftrightarrow> bad_slot r (slot_view d (slot_of r))) \<and> frame (slot_of r) k (Suc (length (drafts_of r))) d d'
     \<and> after_target r (slot_view d (slot_of r)) (slot_view d' (slot_of r)) (buffer_rows k (Suc (length (drafts_of r))) d')"
proof -
  let ?n = "Suc (length (drafts_of r))"
  have oks: "\<And>m. grammar_matchers d ! slot_of r = Some m \<Longrightarrow> ok m" using ok by (simp add: slot_ok_def slot_view_def)
  have mk: "\<not> token_mask_host d ! (k + i)" if "i \<le> length (drafts_of r)" for i using marks that by (auto simp: less_Suc_eq_le)
  show ?thesis
  proof (cases "can_guide r (grammar_matchers d ! slot_of r) (is_draft_terminated d ! slot_of r)")
    case True
    obtain d' where d': "guide_one A r k d = (Inr (), d')" "frame (slot_of r) k ?n d d'"
      "target_post r (slot_view d (slot_of r)) (slot_view d' (slot_of r)) (buffer_rows k ?n d')"
      using guide_one_target[OF tr sz ks True oks mk] by blast
    have "slot_ok (slot_view d' (slot_of r))" using d'(3) by (auto simp: target_post_def slot_ok_def split: prod.splits)
    then show ?thesis using d' True guides_not_refuses[OF True]
      by (intro exI[of _ "Inr ()"] exI[of _ d']) (simp add: bad_slot_def after_target_def slot_view_def)
  next
    case False
    obtain res d' mo gd where d': "guide_one A r k d = (res, d')"
      "isl res \<longleftrightarrow> must_refuse r (grammar_matchers d ! slot_of r) (is_draft_terminated d ! slot_of r)" "frame (slot_of r) k 0 d d'"
      "slot_view d' (slot_of r) = (mo, 0, gd, num_advanced_draft_tokens d ! slot_of r, is_draft_terminated d ! slot_of r)"
      "\<forall>m. mo = Some m \<longrightarrow> ok m" "map_option (\<lambda>m. (gram m, hist m)) mo = map_option (\<lambda>m. (gram m, hist m)) (grammar_matchers d ! slot_of r)"
      using guide_one_left[OF tr sz oks False, of k] by blast
    have "buffer_rows k ?n d' = buffer_rows k ?n d" by (rule frame_rows[OF d'(3)]) simp
    then have "left_alone (slot_view d (slot_of r)) (slot_view d' (slot_of r)) (buffer_rows k ?n d')"
      unfolding d'(4) using d'(6) marks by (auto simp: left_alone_def slot_view_def simp del: buffer_rows_nth)
    moreover have "frame (slot_of r) k ?n d d'" using d'(3) by (auto simp: frame_def)
    moreover have "slot_ok (slot_view d' (slot_of r))" unfolding d'(4) using d'(5) by (simp add: slot_ok_def)
    ultimately show ?thesis using d'(1,2) False by (intro exI[of _ res] exI[of _ d']) (simp add: bad_slot_def after_target_def slot_view_def)
  qed
qed

lemma build_target:
  assumes sz: "sized S R K d" and rows: "num_bitmask_tokens g = Inr (total_rows K (requests g))" "total_rows K (requests g) \<le> R" "draft_limit g = K"
    and tr: "\<forall>r \<in> set (valid_requests g). target_request S K r" and dist: "distinct (map slot_of (valid_requests g))"
    and oks: "\<forall>s < S. slot_ok (slot_view d s)"
  shows "\<exists>d'. build A g d = (Inr (map gr_id (filter (\<lambda>r. bad_slot r (slot_view d (slot_of r))) (valid_requests g))), d') \<and> sized S R K d'
     \<and> (\<forall>s. s \<notin> slot_of ` set (valid_requests g) \<longrightarrow> slot_view d' s = slot_view d s)
     \<and> (\<forall>(r, k) \<in> set (valid_requests_with_offsets g). after_target r (slot_view d (slot_of r)) (slot_view d' (slot_of r)) (buffer_rows k (Suc (length (drafts_of r))) d'))"
proof -
  let ?n = "total_rows K (requests g)" and ?xs = "valid_requests_with_offsets g" and ?span = "\<lambda>r. Suc (length (drafts_of r))"
  let ?d0 = "d\<lparr>token_mask_host := replicate (min ?n (length (token_mask_host d))) False @ drop ?n (token_mask_host d)\<rparr>"
  have fst: "map fst ?xs = valid_requests g" by (simp add: valid_requests_with_offsets_def with_offsets_fst valid_requests_def)
  have mem: "r \<in> set (valid_requests g)" if "(r, k) \<in> set ?xs" for r k using that fst by (metis fst_conv in_set_zip list.set_map rev_image_eqI)
  have view: "slot_view ?d0 s = slot_view d s" for s by (simp add: slot_view_def)
  have s0: "sized S R K ?d0" using sz rows(2) by (simp add: sized_def)
  have bound: "k + ?span r \<le> ?n" if "(r, k) \<in> set ?xs" for r k
    using with_offsets_bounds[of r k K 0 "requests g"] that target_span[of S K r] tr mem[OF that] rows(3) by (fastforce simp: valid_requests_with_offsets_def)
  have sp: "spaced ?span ?xs"
    unfolding valid_requests_with_offsets_def rows(3) by (rule with_offsets_spaced) (use tr target_span in \<open>auto simp: valid_requests_def\<close>)
  have dist': "distinct (map (slot_of \<circ> fst) ?xs)" using dist unfolding fst[symmetric] by (simp add: comp_def)
  let ?Pre = "\<lambda>r k v rs. target_request S K r \<and> k + ?span r \<le> R \<and> slot_ok v \<and> (\<forall>i < ?span r. \<not> snd (rs ! i))"
  have step: "\<exists>res d'. guide_one A r k d = (res, d') \<and> (isl res \<longleftrightarrow> bad_slot r (slot_view d (slot_of r))) \<and> frame (slot_of r) k (?span r) d d'
     \<and> after_target r (slot_view d (slot_of r)) (slot_view d' (slot_of r)) (buffer_rows k (?span r) d')"
    if "sized S R K d" "?Pre r k (slot_view d (slot_of r)) (buffer_rows k (?span r) d)" for r k d
    using guide_one_any[OF _ that(1)] that(2) by blast
  have pre: "?Pre r k (slot_view ?d0 (slot_of r)) (buffer_rows k (?span r) ?d0)" if m: "(r, k) \<in> set ?xs" for r k
  proof -
    have "target_request S K r" using tr mem[OF m] by blast
    moreover have "slot_ok (slot_view ?d0 (slot_of r))" using oks \<open>target_request S K r\<close> by (simp add: view target_request_def)
    moreover have "token_mask_host ?d0 ! (k + i) = False" if "i < ?span r" for i
      using bound[OF m] that rows(2) sz by (simp add: nth_append sized_def)
    ultimately show ?thesis using bound[OF m] rows(2) by simp
  qed
  obtain d' where d': "build_loop A ?xs [] ?d0 = ([] @ map (gr_id \<circ> fst) (filter (\<lambda>(r, k). bad_slot r (slot_view ?d0 (slot_of r))) ?xs), d')" "sized S R K d'"
    "\<forall>s. s \<notin> (slot_of \<circ> fst) ` set ?xs \<longrightarrow> slot_view d' s = slot_view ?d0 s"
    "\<forall>(r, k) \<in> set ?xs. after_target r (slot_view ?d0 (slot_of r)) (slot_view d' (slot_of r)) (buffer_rows k (?span r) d')"
    using build_loop_all[where A = A and xs = ?xs and S = S and R = R and K = K and Pre = ?Pre and span = ?span and Bad = bad_slot
        and Post = "\<lambda>r k v v' rs. after_target r v v' rs" and d = ?d0 and failed = "[]", OF step dist' sp s0 pre] by blast
  have ids: "map (gr_id \<circ> fst) (filter (\<lambda>(r, k). bad_slot r (slot_view ?d0 (slot_of r))) ?xs) = map gr_id (filter (\<lambda>r. bad_slot r (slot_view d (slot_of r))) (valid_requests g))"
    unfolding fst[symmetric] filter_map view by (simp add: comp_def case_prod_beta split_beta')
  have img: "(slot_of \<circ> fst) ` set ?xs = slot_of ` set (valid_requests g)" unfolding fst[symmetric] by (simp add: image_image)
  have "build A g d = (Inr (map gr_id (filter (\<lambda>r. bad_slot r (slot_view d (slot_of r))) (valid_requests g))), d')"
    using d'(1) rows(1) ids by (simp add: build_def)
  then show ?thesis using d'(2-4) img by (auto simp: view)
qed

end

section \<open>Taking tokens back\<close>

definition rolled_back :: "('m \<Rightarrow> 'g) \<Rightarrow> ('m \<Rightarrow> int list) \<Rightarrow> nat \<Rightarrow> 'm option \<Rightarrow> 'm option \<Rightarrow> bool" where
  \<comment> \<open>the last \<open>n\<close> tokens are gone\<close>
  "rolled_back gram hist n mo mo' \<longleftrightarrow> map_option (\<lambda>m. (gram m, hist m)) mo' = map_option (\<lambda>m. (gram m, take (length (hist m) - n) (hist m))) mo"

context grammar_matcher
begin

lemma rollback_slot_ok:
  assumes "sized S R K d" "slot < S" "grammar_matchers d ! slot = Some m" "ok m" "n \<le> limit" "n \<le> length (hist m)"
  shows "\<exists>d' m'. rollback_slot A slot n d = (Inr (), d') \<and> frame slot 0 0 d d'
     \<and> slot_view d' slot = (Some m', snd (slot_view d slot)) \<and> ok m' \<and> rolled_back gram hist n (Some m) (Some m')"
proof -
  obtain m1 where m1: "rollback A n m = (Inr (), m1)" "ok m1" "gram m1 = gram m" "hist m1 = take (length (hist m) - n) (hist m)"
    using rollback_forgets[OF assms(4-6)] by blast
  have "frame slot 0 0 d (set_matcher slot m1 d)" by (auto simp: frame_def sized_def slot_view_def set_matcher_def)
  then show ?thesis using m1 assms
    by (intro exI[of _ "set_matcher slot m1 d"] exI[of _ m1]) (simp add: rollback_slot_def slot_view_def set_matcher_def sized_def rolled_back_def)
qed

definition can_reject :: "'p guided_request \<Rightarrow> 'm option \<times> nat \<times> nat \<times> nat \<times> bool \<Rightarrow> bool" where
  "can_reject r v \<longleftrightarrow> (case v of (mo, adv, _) \<Rightarrow> 0 < adv \<longrightarrow>
     (\<exists>m. mo = Some m \<and> 0 \<le> num_accepted_draft_tokens r \<and> num_accepted_draft_tokens r < int adv
       \<and> adv - Suc (nat (num_accepted_draft_tokens r)) \<le> min limit (length (hist m))))"

lemma rollback_rejected_one_ok:
  assumes sz: "sized S R K d" and vr: "gr_slot r = Some slot" "slot < S" and pre: "can_reject r (slot_view d slot)" "slot_ok (slot_view d slot)"
  shows "\<exists>d'. rollback_rejected_one A r d = (Inr (), d') \<and> frame slot 0 0 d d'
     \<and> snd (slot_view d' slot) = snd (slot_view d slot) \<and> slot_ok (slot_view d' slot)
     \<and> rolled_back gram hist (num_advanced_tokens d ! slot - Suc (nat (num_accepted_draft_tokens r))) (fst (slot_view d slot)) (fst (slot_view d' slot))"
proof (cases "num_advanced_tokens d ! slot = 0")
  case True
  then show ?thesis using vr sz pre(2) by (intro exI[of _ d]) (simp add: rollback_rejected_one_def sized_def rolled_back_def)
next
  case False
  let ?a = "nat (num_accepted_draft_tokens r)" and ?adv = "num_advanced_tokens d ! slot"
  obtain m where m: "grammar_matchers d ! slot = Some m" "ok m" "0 \<le> num_accepted_draft_tokens r" "num_accepted_draft_tokens r < int ?adv"
    "?adv - Suc ?a \<le> limit" "?adv - Suc ?a \<le> length (hist m)"
    using pre False by (auto simp: can_reject_def slot_ok_def slot_view_def)
  have n: "nat (int ?adv - (1 + num_accepted_draft_tokens r)) = ?adv - Suc ?a" "\<not> int ?adv - (1 + num_accepted_draft_tokens r) < 0" using m(3,4) by auto
  obtain d' m' where d': "rollback_slot A slot (?adv - Suc ?a) d = (Inr (), d')" "frame slot 0 0 d d'"
     "slot_view d' slot = (Some m', snd (slot_view d slot))" "ok m'" "rolled_back gram hist (?adv - Suc ?a) (Some m) (Some m')"
    using rollback_slot_ok[OF sz vr(2) m(1,2,5,6)] by blast
  have "rollback_rejected_one A r d = (Inr (), d')" using False vr sz n d'(1) by (simp add: rollback_rejected_one_def sized_def Let_def)
  moreover have "fst (slot_view d slot) = Some m" using m(1) by (simp add: slot_view_def)
  ultimately show ?thesis using d' by (intro exI[of _ d']) (simp add: slot_ok_def)
qed

lemma rollback_rejected_ok:
  assumes sz: "sized S R K d" and vr: "\<forall>r \<in> set (valid_requests g). slot_of r < S" and dist: "distinct (map slot_of (valid_requests g))"
    and pre: "\<forall>r \<in> set (valid_requests g). can_reject r (slot_view d (slot_of r))" and oks: "\<forall>s < S. slot_ok (slot_view d s)" and K: "0 < K"
  shows "\<exists>d'. rollback_rejected_tokens A g d = (Inr (), d') \<and> sized S R K d' \<and> (\<forall>s. s \<notin> slot_of ` set (valid_requests g) \<longrightarrow> slot_view d' s = slot_view d s)
     \<and> (\<forall>r \<in> set (valid_requests g). snd (slot_view d' (slot_of r)) = snd (slot_view d (slot_of r)) \<and> slot_ok (slot_view d' (slot_of r))
         \<and> rolled_back gram hist (num_advanced_tokens d ! slot_of r - Suc (nat (num_accepted_draft_tokens r))) (fst (slot_view d (slot_of r))) (fst (slot_view d' (slot_of r))))"
proof -
  let ?Post = "\<lambda>r v v'. snd v' = snd v \<and> slot_ok v' \<and> rolled_back gram hist (fst (snd v) - Suc (nat (num_accepted_draft_tokens r))) (fst v) (fst v')"
  have slot: "gr_slot r = Some (slot_of r)" if "r \<in> set (valid_requests g)" for r using that by (auto simp: valid_requests_def valid_request_def)
  have step: "\<exists>d'. rollback_rejected_one A r d = (Inr (), d') \<and> frame (slot_of r) 0 0 d d' \<and> ?Post r (slot_view d (slot_of r)) (slot_view d' (slot_of r))"
    if "r \<in> set (valid_requests g)" "sized S R K d" "can_reject r (slot_view d (slot_of r)) \<and> slot_ok (slot_view d (slot_of r))" for r d
    using rollback_rejected_one_ok[OF that(2) slot[OF that(1)]] vr that(1,3) by (fastforce simp: slot_view_def)
  have "max_num_draft_tokens d = K" using sz by (simp add: sized_def)
  then show ?thesis
    using for_requests_all[where f = "rollback_rejected_one A" and rs = "valid_requests g" and S = S and R = R and K = K and d = d and Post = ?Post
        and Pre = "\<lambda>r v. can_reject r v \<and> slot_ok v", OF step dist sz] pre oks vr K
    by (simp add: rollback_rejected_tokens_def) (auto simp: slot_view_def)
qed

end

section \<open>The LLGuidance matcher\<close>

text \<open>
  What is relied on of the library's matcher: as long as it reports no error it stands for its grammar and the consumed tokens, consumes a token
  when the grammar can go on after it, takes tokens back, and is stopped when the grammar can only end.
\<close>

definition llmatcher_laws :: "('u, 'b) llmatcher_api \<Rightarrow> ('g, 'u) ll_compiler \<Rightarrow> ('u \<Rightarrow> 'g) \<Rightarrow> ('u \<Rightarrow> int list) \<Rightarrow> ('g \<Rightarrow> int list \<Rightarrow> bool) \<Rightarrow> ('g \<Rightarrow> int list \<Rightarrow> bool) \<Rightarrow> ('g \<Rightarrow> int list \<Rightarrow> 'b) \<Rightarrow> bool" where
  "llmatcher_laws U C lgram lhist lviable stopped lrow \<longleftrightarrow>
     (\<forall>g. \<not> is_error U (new_llmatcher C g) \<longrightarrow> lgram (new_llmatcher C g) = g \<and> lhist (new_llmatcher C g) = [])
   \<and> (\<forall>u. \<not> is_error U u \<longrightarrow> is_stopped U u = stopped (lgram u) (lhist u) \<and> ll_bitmask U u = lrow (lgram u) (lhist u))
   \<and> (\<forall>u t. \<not> is_error U u \<and> \<not> is_stopped U u \<longrightarrow> (case try_consume U t u of (n, u') \<Rightarrow> \<not> is_error U u' \<and> lgram u' = lgram u
        \<and> (n > 0 \<longleftrightarrow> lviable (lgram u) (lhist u @ [t])) \<and> lhist u' = lhist u @ (if n > 0 then [t] else [])))
   \<and> (\<forall>u n. \<not> is_error U u \<and> n \<le> length (lhist u) \<longrightarrow> \<not> is_error U (ll_rollback U n u) \<and> lgram (ll_rollback U n u) = lgram u
        \<and> lhist (ll_rollback U n u) = take (length (lhist u) - n) (lhist u))"

definition ll_ok :: "('u, 'b) llmatcher_api \<Rightarrow> ('u \<Rightarrow> 'g) \<Rightarrow> ('u \<Rightarrow> int list) \<Rightarrow> ('g \<Rightarrow> int list \<Rightarrow> bool) \<Rightarrow> int \<Rightarrow> 'u ll_matcher \<Rightarrow> bool" where
  "ll_ok U lgram lhist stopped eos m \<longleftrightarrow> \<not> is_error U (inner m) \<and> eos_token m = eos \<and> (ll_terminated m \<longrightarrow> stopped (lgram (inner m)) (lhist (inner m)))
     \<and> (\<forall>k \<in> set [0..<length (lhist (inner m))]. \<not> stopped (lgram (inner m)) (take k (lhist (inner m))))"

definition ll_gram :: "('u \<Rightarrow> 'g) \<Rightarrow> 'u ll_matcher \<Rightarrow> 'g result" where
  "ll_gram lgram m = Inr (lgram (inner m))"

definition ll_hist :: "('u \<Rightarrow> int list) \<Rightarrow> 'u ll_matcher \<Rightarrow> int list" where
  \<comment> \<open>the end token that the class accepts itself counts as a token\<close>
  "ll_hist lhist m = lhist (inner m) @ (if ll_terminated m then [eos_token m] else [])"

definition ll_final :: "('g \<Rightarrow> int list \<Rightarrow> bool) \<Rightarrow> int \<Rightarrow> 'g result \<Rightarrow> int list \<Rightarrow> bool" where
  "ll_final stopped eos gr h = (case gr of Inl _ \<Rightarrow> False | Inr g \<Rightarrow> h \<noteq> [] \<and> last h = eos \<and> stopped g (butlast h))"

definition ll_viable :: "('g \<Rightarrow> int list \<Rightarrow> bool) \<Rightarrow> ('g \<Rightarrow> int list \<Rightarrow> bool) \<Rightarrow> int \<Rightarrow> 'g result \<Rightarrow> int list \<Rightarrow> bool" where
  "ll_viable lviable stopped eos gr h = (case gr of Inl _ \<Rightarrow> False | Inr g \<Rightarrow> if stopped g (butlast h) then last h = eos else lviable g h)"

definition ll_row :: "('g \<Rightarrow> int list \<Rightarrow> 'b) \<Rightarrow> 'b \<Rightarrow> 'g result \<Rightarrow> int list \<Rightarrow> 'b" where
  "ll_row lrow none gr h = (case gr of Inl _ \<Rightarrow> none | Inr g \<Rightarrow> lrow g h)"

lemma llmatcher_lawsD:
  assumes "llmatcher_laws U C lgram lhist lviable stopped lrow" "\<not> is_error U u"
  shows "is_stopped U u = stopped (lgram u) (lhist u)" "ll_bitmask U u = lrow (lgram u) (lhist u)"
    and "\<not> is_stopped U u \<Longrightarrow> try_consume U t u = (n, u') \<Longrightarrow> \<not> is_error U u' \<and> lgram u' = lgram u
        \<and> (n > 0 \<longleftrightarrow> lviable (lgram u) (lhist u @ [t])) \<and> lhist u' = lhist u @ (if n > 0 then [t] else [])"
    and "k \<le> length (lhist u) \<Longrightarrow> \<not> is_error U (ll_rollback U k u) \<and> lgram (ll_rollback U k u) = lgram u
        \<and> lhist (ll_rollback U k u) = take (length (lhist u) - k) (lhist u)"
proof -
  note laws = assms(1)[unfolded llmatcher_laws_def]
  show "is_stopped U u = stopped (lgram u) (lhist u)" "ll_bitmask U u = lrow (lgram u) (lhist u)"
    using conjunct1[OF conjunct2[OF laws]] assms(2) by simp_all
  show "\<not> is_error U u' \<and> lgram u' = lgram u
        \<and> (n > 0 \<longleftrightarrow> lviable (lgram u) (lhist u @ [t])) \<and> lhist u' = lhist u @ (if n > 0 then [t] else [])" if "\<not> is_stopped U u" "try_consume U t u = (n, u')"
    using spec[OF spec[OF conjunct1[OF conjunct2[OF conjunct2[OF laws]]], of u], of t] assms(2) that by simp
  show "\<not> is_error U (ll_rollback U k u) \<and> lgram (ll_rollback U k u) = lgram u
        \<and> lhist (ll_rollback U k u) = take (length (lhist u) - k) (lhist u)" if "k \<le> length (lhist u)"
    using spec[OF spec[OF conjunct2[OF conjunct2[OF conjunct2[OF laws]]], of u], of k] assms(2) that by simp
qed

lemma ll_accept_follows:
  assumes laws: "llmatcher_laws U C lgram lhist lviable stopped lrow" and m: "ll_ok U lgram lhist stopped eos m" "\<not> ll_terminated m"
  shows "\<exists>m1. ll_accept_token U t m = (Inr (ll_viable lviable stopped eos (ll_gram lgram m) (ll_hist lhist m @ [t])), m1) \<and> ll_ok U lgram lhist stopped eos m1
     \<and> ll_gram lgram m1 = ll_gram lgram m \<and> ll_hist lhist m1 = ll_hist lhist m @ (if ll_viable lviable stopped eos (ll_gram lgram m) (ll_hist lhist m @ [t]) then [t] else [])"
proof (cases "is_stopped U (inner m)")
  case True
  have ne: "\<not> is_error U (inner m)" using m(1) by (simp add: ll_ok_def)
  have st: "stopped (lgram (inner m)) (lhist (inner m))" using llmatcher_lawsD(1)[OF laws ne] True by simp
  show ?thesis
  proof (cases "t = eos")
    case t: True
    then show ?thesis using True st m
      by (intro exI[of _ "m\<lparr>ll_terminated := True\<rparr>"]) (simp add: ll_accept_token_def ll_viable_def ll_gram_def ll_hist_def ll_ok_def)
  next
    case t: False
    then show ?thesis using True st m by (intro exI[of _ m]) (simp add: ll_accept_token_def ll_viable_def ll_gram_def ll_hist_def ll_ok_def)
  qed
next
  case False
  have ne: "\<not> is_error U (inner m)" using m(1) by (simp add: ll_ok_def)
  have ns: "\<not> stopped (lgram (inner m)) (lhist (inner m))" using llmatcher_lawsD(1)[OF laws ne] False by simp
  obtain n u where u: "try_consume U t (inner m) = (n, u)" by (cases "try_consume U t (inner m)")
  have c: "\<not> is_error U u" "lgram u = lgram (inner m)" "n > 0 \<longleftrightarrow> lviable (lgram (inner m)) (lhist (inner m) @ [t])"
    "lhist u = lhist (inner m) @ (if n > 0 then [t] else [])"
    using llmatcher_lawsD(3)[OF laws ne False u] by simp_all
  have "ll_ok U lgram lhist stopped eos (m\<lparr>inner := u\<rparr>)"
    using m c ns by (auto simp: ll_ok_def less_Suc_eq split: if_splits)
  then show ?thesis using False u c m ns
    by (intro exI[of _ "m\<lparr>inner := u\<rparr>"]) (simp add: ll_accept_token_def ll_check_err_def ll_viable_def ll_gram_def ll_hist_def)
qed

lemma ll_rollback_forgets:
  assumes laws: "llmatcher_laws U C lgram lhist lviable stopped lrow" and m: "ll_ok U lgram lhist stopped eos m" and n: "n \<le> length (ll_hist lhist m)"
  shows "\<exists>m1. ll_rollback_tokens U n m = (Inr (), m1) \<and> ll_ok U lgram lhist stopped eos m1
     \<and> ll_gram lgram m1 = ll_gram lgram m \<and> ll_hist lhist m1 = take (length (ll_hist lhist m) - n) (ll_hist lhist m)"
proof (cases "n = 0")
  case True
  then show ?thesis using m by (intro exI[of _ m]) (simp add: ll_rollback_tokens_def)
next
  case False
  let ?n = "if ll_terminated m then n - 1 else n"
  let ?u = "ll_rollback U ?n (inner m)" and ?m = "m\<lparr>ll_terminated := False, inner := ll_rollback U ?n (inner m)\<rparr>"
  have "?n \<le> length (lhist (inner m))" using n False by (auto simp: ll_hist_def)
  then have u: "\<not> is_error U ?u" "lgram ?u = lgram (inner m)" "lhist ?u = take (length (lhist (inner m)) - ?n) (lhist (inner m))"
    using llmatcher_lawsD(4)[OF laws, of "inner m" ?n] m by (simp_all add: ll_ok_def)
  have m1: "ll_rollback_tokens U n m = (Inr (), ?m)"
    using False u(1) by (cases "ll_terminated m") (simp_all add: ll_rollback_tokens_def Let_def ll_check_err_def)
  have "ll_ok U lgram lhist stopped eos ?m" using m u by (simp add: ll_ok_def)
  moreover have "ll_gram lgram ?m = ll_gram lgram m" using u(2) by (simp add: ll_gram_def)
  moreover have "ll_hist lhist ?m = take (length (ll_hist lhist m) - n) (ll_hist lhist m)"
  proof (cases "ll_terminated m")
    case True
    obtain j where "n = Suc j" using False by (cases n) auto
    then show ?thesis using True u(3) by (simp add: ll_hist_def)
  qed (use u in \<open>simp add: ll_hist_def\<close>)
  ultimately show ?thesis using m1 by blast
qed

lemma ll_terminated_final:
  "ll_ok U lgram lhist stopped eos m \<Longrightarrow> ll_terminated m \<longleftrightarrow> ll_final stopped eos (ll_gram lgram m) (ll_hist lhist m)"
proof (cases "ll_terminated m")
  case False
  assume ok: "ll_ok U lgram lhist stopped eos m"
  let ?h = "lhist (inner m)"
  have "?h = [] \<or> \<not> stopped (lgram (inner m)) (butlast ?h)"
    using ok unfolding ll_ok_def butlast_conv_take by (cases ?h) auto
  then show ?thesis using False by (simp add: ll_final_def ll_gram_def ll_hist_def)
qed (simp add: ll_ok_def ll_final_def ll_gram_def ll_hist_def)

lemma llguidance_is_matcher:
  assumes laws: "llmatcher_laws U C lgram lhist lviable stopped lrow"
  shows "grammar_matcher (ll_api U C eos) (ll_ok U lgram lhist stopped eos) (ll_gram lgram) (ll_hist lhist) (ll_compile C)
     (ll_viable lviable stopped eos) (ll_final stopped eos) (ll_row lrow none) limit"
proof
  fix p m assume "create (ll_api U C eos) p = Inr m"
  then obtain g where g: "ll_compile C p = Inr g" "\<not> is_error U (new_llmatcher C g)" "m = \<lparr>inner = new_llmatcher C g, eos_token = eos, ll_terminated = False\<rparr>"
    by (auto simp: ll_api_def ll_create_def ll_check_err_def split: if_splits)
  then show "ll_ok U lgram lhist stopped eos m \<and> ll_gram lgram m = ll_compile C p \<and> ll_hist lhist m = []"
    using conjunct1[OF laws[unfolded llmatcher_laws_def]] by (simp add: ll_ok_def ll_gram_def ll_hist_def)
next
  fix m assume ok: "ll_ok U lgram lhist stopped eos m"
  show "is_terminated (ll_api U C eos) m \<longleftrightarrow> ll_final stopped eos (ll_gram lgram m) (ll_hist lhist m)"
    using ll_terminated_final[OF ok] by (simp add: ll_api_def)
  assume nt: "\<not> is_terminated (ll_api U C eos) m"
  then show "\<exists>m1. accept_token (ll_api U C eos) t m = (Inr (ll_viable lviable stopped eos (ll_gram lgram m) (ll_hist lhist m @ [t])), m1) \<and> ll_ok U lgram lhist stopped eos m1
     \<and> ll_gram lgram m1 = ll_gram lgram m \<and> ll_hist lhist m1 = ll_hist lhist m @ (if ll_viable lviable stopped eos (ll_gram lgram m) (ll_hist lhist m @ [t]) then [t] else [])" for t
    using ll_accept_follows[OF laws ok] by (simp add: ll_api_def)
  show "fill_next_token_bitmask (ll_api U C eos) m = Inr (ll_row lrow none (ll_gram lgram m) (ll_hist lhist m))"
    using llmatcher_lawsD(2)[OF laws, of "inner m"] ok nt by (simp add: ll_api_def ll_fill_def ll_check_err_def ll_ok_def ll_row_def ll_gram_def ll_hist_def)
next
  fix m and n :: nat
  assume "ll_ok U lgram lhist stopped eos m" "n \<le> limit" "n \<le> length (ll_hist lhist m)"
  then show "\<exists>m1. rollback (ll_api U C eos) n m = (Inr (), m1) \<and> ll_ok U lgram lhist stopped eos m1
     \<and> ll_gram lgram m1 = ll_gram lgram m \<and> ll_hist lhist m1 = take (length (ll_hist lhist m) - n) (ll_hist lhist m)"
    using ll_rollback_forgets[OF laws] by (simp add: ll_api_def)
qed

section \<open>The text of a slot after a step\<close>

definition slot_text :: "('m \<Rightarrow> 'g) \<Rightarrow> ('m \<Rightarrow> int list) \<Rightarrow> ('m, 'b) decoder \<Rightarrow> nat \<Rightarrow> ('g \<times> int list) option" where
  \<comment> \<open>the grammar and the accepted tokens of a slot\<close>
  "slot_text gram hist d s = map_option (\<lambda>m. (gram m, hist m)) (grammar_matchers d ! s)"

context grammar_matcher
begin

lemma pred_slot_ok:
  assumes "\<forall>mo \<in> set (grammar_matchers d). (case mo of None \<Rightarrow> True | Some m \<Rightarrow> ok m)" "sized S R K d"
  shows "\<forall>s < S. slot_ok (slot_view d s)"
proof (intro allI impI)
  fix s assume "s < S"
  then have "grammar_matchers d ! s \<in> set (grammar_matchers d)" using assms(2) by (simp add: sized_def)
  then have "case grammar_matchers d ! s of None \<Rightarrow> True | Some m \<Rightarrow> ok m" using assms(1) by blast
  then show "slot_ok (slot_view d s)" by (auto simp: slot_ok_def slot_view_def)
qed

lemma after_target_text:
  assumes "after_target r (slot_view d s) (slot_view d' s) (buffer_rows k (Suc (length (drafts_of r))) d')"
  shows "if can_guide r (grammar_matchers d ! s) (is_draft_terminated d ! s)
     then \<exists>x h. guided_text gram hist grammar_of r (grammar_matchers d ! s) = Some (x, h)
        \<and> slot_text gram hist d' s = Some (x, h @ take (goes_on viable final x h (drafts_of r)) (drafts_of r))
        \<and> num_advanced_tokens d' ! s = Suc (goes_on viable final x h (drafts_of r))
        \<and> rows_right viable final row x h (drafts_of r) (buffer_rows k (Suc (length (drafts_of r))) d')
     else slot_text gram hist d' s = slot_text gram hist d s \<and> num_advanced_tokens d' ! s = 0
        \<and> (\<forall>i \<le> length (drafts_of r). \<not> token_mask_host d' ! (k + i))"
    and "snd (snd (snd (slot_view d' s))) = snd (snd (snd (slot_view d s)))" "slot_ok (slot_view d' s)"
  using assms by (auto simp: after_target_def slot_view_def target_post_def left_alone_def slot_text_def less_Suc_eq_le split: if_splits)

lemma build_text:
  assumes sz: "sized S (S * (K + 1)) K d" and oks: "\<forall>mo \<in> set (grammar_matchers d). (case mo of None \<Rightarrow> True | Some m \<Rightarrow> ok m)"
    and sched: "\<forall>q \<in> set cs. \<not> gs_is_draft q \<and> \<not> gs_generation_in_progress q" "\<forall>q \<in> set gs. \<not> gs_is_draft q \<and> gs_generation_in_progress q"
    and len: "cs @ gs \<noteq> []" "length (cs @ gs) \<le> S" and g: "g = from_scheduled_requests cs gs K"
    and tr: "\<forall>r \<in> set (valid_requests g). target_request S K r" and dist: "distinct (map slot_of (valid_requests g))"
  shows "\<exists>d'. build A g d = (Inr (map gr_id (filter (\<lambda>r. must_refuse r (grammar_matchers d ! slot_of r) (is_draft_terminated d ! slot_of r)) (valid_requests g))), d')
     \<and> sized S (S * (K + 1)) K d' \<and> (\<forall>s. s \<notin> slot_of ` set (valid_requests g) \<longrightarrow> slot_view d' s = slot_view d s)
     \<and> (\<forall>(r, k) \<in> set (valid_requests_with_offsets g). after_target r (slot_view d (slot_of r)) (slot_view d' (slot_of r)) (buffer_rows k (Suc (length (drafts_of r))) d'))"
proof -
  have rows: "num_bitmask_tokens g = Inr (total_rows K (requests g))" "total_rows K (requests g) \<le> S * (K + 1)" "draft_limit g = K"
    using scheduled_rows[OF sched len(1)] len(2) by (simp_all add: g from_scheduled_requests_def)
  show ?thesis using build_target[OF sz rows tr dist pred_slot_ok[OF oks sz]] by (simp add: bad_slot_def slot_view_def)
qed

end

section \<open>A library of literal texts\<close>

text \<open>A matcher of the library for the grammar of one literal text, on which the laws hold.\<close>

definition literal_library :: "(int list \<times> int list, int list) llmatcher_api" where
  "literal_library =
     \<lparr>is_stopped = (\<lambda>(w, h). h = w),
      try_consume = (\<lambda>t (w, h). if take (length h + 1) w = h @ [t] then (1, (w, h @ [t])) else (0, (w, h))),
      ll_rollback = (\<lambda>n (w, h). (w, take (length h - n) h)), is_error = (\<lambda>_. False), ll_bitmask = (\<lambda>(w, h). take 1 (drop (length h) w))\<rparr>"

definition literal_compiler :: "(int list, int list \<times> int list) ll_compiler" where
  "literal_compiler =
     \<lparr>grammar_from_json_schema = (\<lambda>s. Inr (map of_char s)), grammar_from_regex = (\<lambda>s. if s = '''' then Inl ValueError else Inr (map of_char s)),
      grammar_from_lark = (\<lambda>s. Inr (map of_char s)), new_llmatcher = (\<lambda>w. (w, []))\<rparr>"

definition literal_viable :: "int list \<Rightarrow> int list \<Rightarrow> bool" where
  "literal_viable w h \<longleftrightarrow> take (length h) w = h"

definition literal_row :: "int list \<Rightarrow> int list \<Rightarrow> int list" where
  "literal_row w h = take 1 (drop (length h) w)"

definition literal_stopped :: "int list \<Rightarrow> int list \<Rightarrow> bool" where
  "literal_stopped w h \<longleftrightarrow> h = w"

lemmas literal_defs = literal_library_def literal_compiler_def literal_viable_def literal_row_def literal_stopped_def

lemma literal_laws: "llmatcher_laws literal_library literal_compiler fst snd literal_viable literal_stopped literal_row"
  by (auto simp: llmatcher_laws_def literal_defs split: prod.splits)

definition literal_api :: "((int list \<times> int list) ll_matcher, int list, guided_params) matcher_api" where
  "literal_api = ll_api literal_library literal_compiler 0"

definition literal_ok :: "(int list \<times> int list) ll_matcher \<Rightarrow> bool" where
  "literal_ok = ll_ok literal_library fst snd literal_stopped 0"

definition literal_follows :: "int list result \<Rightarrow> int list \<Rightarrow> bool" where
  "literal_follows = ll_viable literal_viable literal_stopped 0"

definition literal_ends :: "int list result \<Rightarrow> int list \<Rightarrow> bool" where
  "literal_ends = ll_final literal_stopped 0"

interpretation literal: grammar_matcher literal_api literal_ok "ll_gram fst" "ll_hist snd" "ll_compile literal_compiler" literal_follows literal_ends
    "ll_row literal_row []" limit for limit
  unfolding literal_api_def literal_ok_def literal_follows_def literal_ends_def by (rule llguidance_is_matcher[OF literal_laws])

section \<open>Properties\<close>

text \<open>C16: a build step on the scheduled batch of the target model, for any matchers that keep the laws: the failed requests are exactly those
  whose grammar does not compile or whose new token is not possible after the text of their slot. A request that is guided has its matcher advanced
  by the new token and by the longest sequence of draft tokens that can follow; each of its rows up to there is marked and holds what may follow the
  text at that row, and its other rows are not marked. The matcher of a request that is not guided keeps its text and none of its rows is marked.\<close>

theorem guided_rows_follow_grammar:
  assumes "grammar_matcher A ok gram hist grammar_of viable final row limit"
    and "sized S (S * (K + 1)) K d" "\<forall>mo \<in> set (grammar_matchers d). (case mo of None \<Rightarrow> True | Some m \<Rightarrow> ok m)"
    and "\<forall>q \<in> set cs. \<not> gs_is_draft q \<and> \<not> gs_generation_in_progress q" "\<forall>q \<in> set gs. \<not> gs_is_draft q \<and> gs_generation_in_progress q"
    and "cs @ gs \<noteq> []" "length (cs @ gs) \<le> S" "g = from_scheduled_requests cs gs K"
    and "\<forall>r \<in> set (valid_requests g). target_request S K r" "distinct (map slot_of (valid_requests g))"
  shows "\<exists>d'. build A g d = (Inr (map gr_id (filter (\<lambda>r. refuses A gram hist viable final r (grammar_matchers d ! slot_of r) (is_draft_terminated d ! slot_of r)) (valid_requests g))), d')
     \<and> (\<forall>(r, k) \<in> set (valid_requests_with_offsets g).
          if guides A gram hist viable final r (grammar_matchers d ! slot_of r) (is_draft_terminated d ! slot_of r)
          then \<exists>x h. guided_text gram hist grammar_of r (grammar_matchers d ! slot_of r) = Some (x, h)
             \<and> slot_text gram hist d' (slot_of r) = Some (x, h @ take (goes_on viable final x h (drafts_of r)) (drafts_of r))
             \<and> num_advanced_tokens d' ! slot_of r = Suc (goes_on viable final x h (drafts_of r))
             \<and> rows_right viable final row x h (drafts_of r) (buffer_rows k (Suc (length (drafts_of r))) d')
          else slot_text gram hist d' (slot_of r) = slot_text gram hist d (slot_of r) \<and> num_advanced_tokens d' ! slot_of r = 0
             \<and> (\<forall>i \<le> length (drafts_of r). \<not> token_mask_host d' ! (k + i)))"
proof -
  obtain d' where d': "build A g d = (Inr (map gr_id (filter (\<lambda>r. refuses A gram hist viable final r (grammar_matchers d ! slot_of r) (is_draft_terminated d ! slot_of r)) (valid_requests g))), d')"
    and after: "\<forall>(r, k) \<in> set (valid_requests_with_offsets g).
      grammar_matcher.after_target A ok gram hist grammar_of viable final row r (slot_view d (slot_of r)) (slot_view d' (slot_of r)) (buffer_rows k (Suc (length (drafts_of r))) d')"
    using grammar_matcher.build_text[OF assms] by blast
  note txts = grammar_matcher.after_target_text(1)[OF assms(1)]
  show ?thesis by (rule exI[of _ d'], rule conjI[OF d']) (use after txts in \<open>fast dest!: bspec\<close>)
qed

text \<open>An instance: a context request for the text \<open>xy\<close> and a generation request in the text \<open>abcd\<close> after \<open>a\<close>, with the drafts \<open>c\<close> and \<open>x\<close> after its new token \<open>b\<close>.\<close>

definition sample_source :: "int \<Rightarrow> string \<Rightarrow> nat \<Rightarrow> bool \<Rightarrow> int \<Rightarrow> int list \<Rightarrow> guided_params guided_source" where
  "sample_source rid regex slot generating t drafts =
     \<lparr>gs_params = Some \<lparr>guide_type = REGEX, guide = regex\<rparr>, gs_id = rid, gs_seq_slot = Some slot, gs_target_seq_slot = None, gs_batch_idx = Some slot,
      gs_context_init = (\<not> generating), gs_last_context_chunk = True, gs_generation_in_progress = generating, gs_generation_only = False, gs_decoding_iter = 2,
      gs_last_token = t, gs_is_draft = False, gs_draft_tokens = Some drafts, gs_num_accepted = 0\<rparr>"

definition sample_batch :: "guided_params guided_requests" where
  "sample_batch = from_scheduled_requests [sample_source 4 ''xy'' 0 False 0 []] [sample_source 7 ''abcd'' 2 True 98 [99, 120]] 2"

definition sample_decoder :: "((int list \<times> int list) ll_matcher, int list) decoder" where
  "sample_decoder = set_matcher 2 \<lparr>inner = ([97, 98, 99, 100], [97]), eos_token = 0, ll_terminated = False\<rparr> (decoder_init 3 2 (replicate 9 None) (replicate 9 True))"

theorem guided_rows_follow_grammar_witness:
  "\<exists>d'. build literal_api sample_batch sample_decoder = (Inr [], d')
     \<and> slot_text (ll_gram fst) (ll_hist snd) d' 0 = Some (Inr [120, 121], []) \<and> slot_text (ll_gram fst) (ll_hist snd) d' 2 = Some (Inr [97, 98, 99, 100], [97, 98, 99])
     \<and> num_advanced_tokens d' ! 2 = 2"
proof -
  let ?r0 = "from_llm_request (sample_source 4 ''xy'' 0 False 0 [])" and ?r1 = "from_llm_request (sample_source 7 ''abcd'' 2 True 98 [99, 120])"
  let ?guides = "\<lambda>r. guides literal_api (ll_gram fst) (ll_hist snd) literal_follows literal_ends r (grammar_matchers sample_decoder ! slot_of r) (is_draft_terminated sample_decoder ! slot_of r)"
  let ?start = "\<lambda>r. guided_text (ll_gram fst) (ll_hist snd) (ll_compile literal_compiler) r (grammar_matchers sample_decoder ! slot_of r)"
  have h: "sized 3 (3 * (2 + 1)) 2 sample_decoder" "\<forall>mo \<in> set (grammar_matchers sample_decoder). case mo of None \<Rightarrow> True | Some m \<Rightarrow> literal_ok m"
    "\<forall>q \<in> set [sample_source 4 ''xy'' 0 False 0 []]. \<not> gs_is_draft q \<and> \<not> gs_generation_in_progress q"
    "\<forall>q \<in> set [sample_source 7 ''abcd'' 2 True 98 [99, 120]]. \<not> gs_is_draft q \<and> gs_generation_in_progress q"
    "[sample_source 4 ''xy'' 0 False 0 []] @ [sample_source 7 ''abcd'' 2 True 98 [99, 120]] \<noteq> []"
    "length ([sample_source 4 ''xy'' 0 False 0 []] @ [sample_source 7 ''abcd'' 2 True 98 [99, 120]]) \<le> 3"
    "\<forall>r \<in> set (valid_requests sample_batch). target_request 3 2 r" "distinct (map slot_of (valid_requests sample_batch))"
    by code_simp+
  have ev: "valid_requests_with_offsets sample_batch = [(?r0, 0), (?r1, 1)]" "?guides ?r0 = True" "?guides ?r1 = True" "?start ?r0 = Some (Inr [120, 121], [])" "?start ?r1 = Some (Inr [97, 98, 99, 100], [97, 98])"
    "slot_of ?r0 = 0" "slot_of ?r1 = 2" "drafts_of ?r0 = []" "drafts_of ?r1 = [99, 120]"
    "goes_on literal_follows literal_ends (Inr [120, 121]) [] [] = 0" "goes_on literal_follows literal_ends (Inr [97, 98, 99, 100]) [97, 98] [99, 120] = 1"
    "filter (\<lambda>r. refuses literal_api (ll_gram fst) (ll_hist snd) literal_follows literal_ends r (grammar_matchers sample_decoder ! slot_of r) (is_draft_terminated sample_decoder ! slot_of r)) (valid_requests sample_batch) = []"
    by code_simp+
  show ?thesis
    using guided_rows_follow_grammar[OF literal.grammar_matcher_axioms h(1-6) sample_batch_def h(7,8)] unfolding ev(1,12) list.set Set.ball_simps(7) prod.case ev(2,3) if_True ev(4,5)
    by (auto simp: ev)
qed

text \<open>
  When the grammar of a request does not compile, its slot keeps the matcher of the request that had the slot before, although the code's comment
  says that the matcher is then missing: here the slot of the failed request 4 still stands in the text of request 7.
\<close>

lemma failed_compile_keeps_matcher:
  "(case build literal_api (from_scheduled_requests [sample_source 4 '''' 2 False 0 []] [] 2) sample_decoder of
      (res, d) \<Rightarrow> res = Inr [4] \<and> grammar_matchers d ! 2 = grammar_matchers sample_decoder ! 2 \<and> grammar_matchers d ! 2 \<noteq> None)"
  by code_simp

end
