(* ===== verification/Guided_Drafting.thy ===== *)
theory Guided_Drafting
  imports Guided_Decoding
begin

text \<open>
  Guided decoding with drafts: what the drafting loop of \<open>CapturableGuidedDecoder\<close> leaves in the matchers. The operations are those of
  \<open>Guided_Decoding\<close>; here are the laws of taking tokens back, the invariant of the loop and the theorem about a whole iteration.
\<close>

section \<open>Drafting\<close>

definition draft_request :: "nat \<Rightarrow> 'p guided_request \<Rightarrow> bool" where
  "draft_request S r \<longleftrightarrow> valid_request r \<and> slot_of r < S \<and> is_draft r \<and> gr_draft_tokens r = Some []"

context grammar_matcher
begin

text \<open>During drafting a slot holds the text it had, extended by the counted tokens.\<close>

definition drafted :: "('g \<times> int list) option \<Rightarrow> nat \<Rightarrow> 'm option \<times> nat \<times> nat \<times> nat \<times> bool \<Rightarrow> bool" where
  "drafted txt i v \<longleftrightarrow> (case v of (mo, _, _, nd, _) \<Rightarrow> nd \<le> i \<and>
     (case txt of None \<Rightarrow> mo = None \<and> nd = 0
      | Some (g, h) \<Rightarrow> \<exists>m e. mo = Some m \<and> ok m \<and> gram m = g \<and> hist m = h @ e \<and> length e = nd))"

lemma drafted_mono: "drafted txt i v \<Longrightarrow> i \<le> j \<Longrightarrow> drafted txt j v"
  by (auto simp: drafted_def split: prod.splits)

lemma drafted_start: "slot_ok (slot_view d s) \<Longrightarrow> num_advanced_draft_tokens d ! s = 0 \<Longrightarrow> drafted (slot_text gram hist d s) i (slot_view d s)"
  by (cases "grammar_matchers d ! s") (simp_all add: drafted_def slot_text_def slot_view_def slot_ok_def)

lemma guide_request_draft:
  assumes "sized S R K d" "slot < S" "k < R" "ok m" "grammar_matchers d ! slot = Some m" "is_draft r" "gr_draft_tokens r = Some []" "num_advanced_tokens d ! slot = 0"
  shows "\<exists>d' gd. guide_request A r slot k d = (Inr (), d') \<and> frame slot k 1 d d'
     \<and> slot_view d' slot = (Some m, 1, gd, Suc (num_advanced_draft_tokens d ! slot), is_draft_terminated d ! slot)"
proof (cases "is_terminated A m")
  case True
  let ?d = "(count_advanced slot d)\<lparr>num_advanced_draft_tokens := (num_advanced_draft_tokens d)[slot := Suc (num_advanced_draft_tokens d ! slot)]\<rparr>"
  have "frame slot k 1 d ?d" by (auto simp: frame_def sized_def slot_view_def count_advanced_def)
  then show ?thesis using True assms
    by (intro exI[of _ ?d] exI[of _ "num_guided_tokens d ! slot"]) (simp add: guide_request_def guide_rows_def count_drafted_def count_advanced_def slot_view_def sized_def)
next
  case False
  let ?d1 = "(count_advanced slot d)\<lparr>bitmask_host := (bitmask_host d)[k := Some (row (gram m) (hist m))],
     token_mask_host := (token_mask_host d)[k := True], num_guided_tokens := (num_guided_tokens d)[slot := num_guided_tokens d ! slot + 1]\<rparr>"
  let ?d = "?d1\<lparr>num_advanced_draft_tokens := (num_advanced_draft_tokens d)[slot := Suc (num_advanced_draft_tokens d ! slot)]\<rparr>"
  have "fill_row A slot k m (count_advanced slot d) = (Inr (), ?d1)"
    using fill_row_ok[OF assms(4) False, of k "count_advanced slot d" slot] assms(1,3) by (simp add: sized_def count_advanced_def)
  moreover have "frame slot k 1 d ?d" by (auto simp: frame_def sized_def slot_view_def count_advanced_def nth_list_update)
  ultimately show ?thesis using False assms
    by (intro exI[of _ ?d] exI[of _ "num_guided_tokens d ! slot + 1"]) (simp add: guide_request_def guide_rows_def count_drafted_def count_advanced_def slot_view_def sized_def)
qed

lemma guide_one_draft:
  assumes dr: "draft_request S r" and sz: "sized S R K d" and k: "k < R" and pre: "drafted txt i (slot_view d (slot_of r))"
  shows "\<exists>d'. guide_one A r k d = (Inr (), d') \<and> frame (slot_of r) k 1 d d' \<and> drafted txt (Suc i) (slot_view d' (slot_of r))"
proof -
  obtain slot where slot: "gr_slot r = Some slot" "slot < S" using dr by (auto simp: draft_request_def valid_request_def)
  have ni: "\<not> require_matcher_init r" and d: "is_draft r" "gr_draft_tokens r = Some []" using dr by (auto simp: draft_request_def require_matcher_init_def)
  let ?d0 = "d\<lparr>num_advanced_tokens := (num_advanced_tokens d)[slot := 0], num_guided_tokens := (num_guided_tokens d)[slot := 0]\<rparr>"
  have skip: ?thesis if "guide_one A r k d = (Inr (), d')" "frame slot k 1 d d'" "drafted txt i (slot_view d' slot)" for d'
    using that drafted_mono[OF that(3), of "Suc i"] slot by (intro exI[of _ d']) simp
  have f0: "frame slot k 1 d ?d0" by (auto simp: frame_def sized_def slot_view_def)
  have p0: "drafted txt i (slot_view ?d0 slot)" using pre slot by (auto simp: drafted_def slot_view_def)
  show ?thesis
  proof (cases "\<exists>m. require_matcher_advance r \<and> grammar_matchers d ! slot = Some m \<and> \<not> is_terminated A m \<and> \<not> is_draft_terminated d ! slot")
    case False
    have "guide_one A r k d = (Inr (), ?d0)"
      using False ni slot sz by (cases "grammar_matchers d ! slot") (auto simp: guide_one_def Let_def init_matcher_def advance_matcher_def sized_def)
    then show ?thesis using f0 p0 by (rule skip)
  next
    case True
    then obtain m where adv: "require_matcher_advance r" and m: "grammar_matchers d ! slot = Some m" "\<not> is_terminated A m" "\<not> is_draft_terminated d ! slot" by blast
    obtain g h e where tx: "txt = Some (g, h)" "ok m" "gram m = g" "hist m = h @ e" "length e = num_advanced_draft_tokens d ! slot"
      "num_advanced_draft_tokens d ! slot \<le> i"
      using pre m(1) slot by (auto simp: drafted_def slot_view_def split: option.splits)
    let ?v = "viable (gram m) (hist m @ [new_token r])"
    obtain m1 where m1: "accept_token A (new_token r) m = (Inr ?v, m1)" "ok m1" "gram m1 = gram m" "hist m1 = hist m @ (if ?v then [new_token r] else [])"
      using accept_follows[OF tx(2) m(2), of "new_token r"] by blast
    let ?d1 = "set_matcher slot m1 ?d0"
    have s1: "sized S R K ?d1" "grammar_matchers ?d1 ! slot = Some m1" "num_advanced_tokens ?d1 ! slot = 0"
      using sz slot by (simp_all add: sized_def set_matcher_def)
    show ?thesis
    proof (cases ?v)
      case True
      obtain d' gd where d': "guide_request A r slot k ?d1 = (Inr (), d')" "frame slot k 1 ?d1 d'"
        "slot_view d' slot = (Some m1, 1, gd, Suc (num_advanced_draft_tokens ?d1 ! slot), is_draft_terminated ?d1 ! slot)"
        using guide_request_draft[OF s1(1) slot(2) k m1(2) s1(2) d s1(3)] by blast
      have "guide_one A r k d = (Inr (), d')"
        using m m1(1) d'(1) True adv ni slot sz by (simp add: guide_one_def Let_def init_matcher_def advance_matcher_def sized_def)
      moreover have "frame slot k 1 d ?d1" by (auto simp: frame_def sized_def slot_view_def set_matcher_def)
      then have "frame slot k 1 d d'" using d'(2) by (rule frame_trans)
      moreover have "drafted txt (Suc i) (slot_view d' slot)"
        unfolding d'(3) using tx m1 True by (auto simp: drafted_def set_matcher_def)
      ultimately show ?thesis using slot by (intro exI[of _ d']) simp
    next
      case False
      let ?d2 = "?d1\<lparr>is_draft_terminated := (is_draft_terminated d)[slot := True]\<rparr>"
      have "guide_one A r k d = (Inr (), ?d2)"
        using m m1(1) False adv ni slot sz d by (simp add: guide_one_def Let_def init_matcher_def advance_matcher_def sized_def)
      moreover have "frame slot k 1 d ?d2" by (auto simp: frame_def sized_def slot_view_def set_matcher_def)
      moreover have "drafted txt i (slot_view ?d2 slot)" using tx m1 False slot sz by (auto simp: drafted_def slot_view_def set_matcher_def sized_def)
      ultimately show ?thesis by (rule skip)
    qed
  qed
qed

lemma build_draft:
  assumes sz: "sized S R K d" and rows: "requests g \<noteq> []" "total_rows K (requests g) \<le> R" "draft_limit g = K"
    and dr: "\<forall>r \<in> set (valid_requests g). draft_request S r" and dist: "distinct (map slot_of (valid_requests g))"
    and pre: "\<forall>r \<in> set (valid_requests g). drafted (T (slot_of r)) i (slot_view d (slot_of r))"
  shows "\<exists>d'. build A g d = (Inr [], d') \<and> sized S R K d' \<and> (\<forall>r \<in> set (valid_requests g). drafted (T (slot_of r)) (Suc i) (slot_view d' (slot_of r)))
     \<and> (\<forall>s. s \<notin> slot_of ` set (valid_requests g) \<longrightarrow> slot_view d' s = slot_view d s)"
proof -
  let ?xs = "valid_requests_with_offsets g"
  obtain n where n: "num_bitmask_tokens g = Inr n" using rows(1) by (cases "requests g") (simp_all add: num_bitmask_tokens_def)
  let ?d0 = "d\<lparr>token_mask_host := replicate (min n (length (token_mask_host d))) False @ drop n (token_mask_host d)\<rparr>"
  have fst: "map fst ?xs = valid_requests g" by (simp add: valid_requests_with_offsets_def with_offsets_fst valid_requests_def)
  have mem: "r \<in> set (valid_requests g)" if "(r, k) \<in> set ?xs" for r k using that fst by (metis fst_conv list.set_map rev_image_eqI)
  have view: "slot_view ?d0 s = slot_view d s" for s by (simp add: slot_view_def)
  have s0: "sized S R K ?d0" using sz by (simp add: sized_def)
  have sp: "spaced (\<lambda>_. 1) ?xs" unfolding valid_requests_with_offsets_def by (rule with_offsets_spaced) (simp add: row_span_def)
  have dist': "distinct (map (slot_of \<circ> fst) ?xs)" using dist unfolding fst[symmetric] by (simp add: comp_def)
  let ?Pre = "\<lambda>r (k :: nat) v (_ :: ('b option \<times> bool) list). drafted (T (slot_of r)) i v"
  have step: "\<exists>res d'. guide_one A r k d = (res, d') \<and> (isl res \<longleftrightarrow> False) \<and> frame (slot_of r) k 1 d d' \<and> drafted (T (slot_of r)) (Suc i) (slot_view d' (slot_of r))"
    if "(r, k) \<in> set ?xs" "sized S R K d" "?Pre r k (slot_view d (slot_of r)) (buffer_rows k 1 d)" for r k d
  proof -
    have "k < R" using with_offsets_bounds[of r k K 0 "requests g"] that(1) rows(2,3) by (auto simp: valid_requests_with_offsets_def row_span_def)
    then show ?thesis using guide_one_draft[OF _ that(2) _ that(3), of k] dr mem[OF that(1)] by fastforce
  qed
  have pre0: "?Pre r k (slot_view ?d0 (slot_of r)) (buffer_rows k 1 ?d0)" if "(r, k) \<in> set ?xs" for r k using pre mem[OF that] by (simp add: view)
  have noBad: "filter (\<lambda>(r, k). False) ?xs = []" by (induction ?xs) auto
  obtain d' where d': "build_loop A ?xs [] ?d0 = ([] @ map (gr_id \<circ> fst) (filter (\<lambda>(r, k). False) ?xs), d')" "sized S R K d'"
    "\<forall>s. s \<notin> (slot_of \<circ> fst) ` set ?xs \<longrightarrow> slot_view d' s = slot_view ?d0 s"
    "\<forall>(r, k) \<in> set ?xs. drafted (T (slot_of r)) (Suc i) (slot_view d' (slot_of r))"
  proof -
    note all = build_loop_all[where A = A and xs = ?xs and S = S and R = R and K = K and Pre = ?Pre and span = "\<lambda>_. 1" and Bad = "\<lambda>_ _. False"
        and Post = "\<lambda>r k v v' rs. drafted (T (slot_of r)) (Suc i) v'" and d = ?d0 and failed = "[]"]
    have "\<exists>d'. build_loop A ?xs [] ?d0 = ([] @ map (gr_id \<circ> fst) (filter (\<lambda>(r, k). False) ?xs), d') \<and> sized S R K d'
      \<and> (\<forall>s. s \<notin> (slot_of \<circ> fst) ` set ?xs \<longrightarrow> slot_view d' s = slot_view ?d0 s)
      \<and> (\<forall>j. (\<forall>(r, k) \<in> set ?xs. j < k) \<longrightarrow> bitmask_host d' ! j = bitmask_host ?d0 ! j \<and> token_mask_host d' ! j = token_mask_host ?d0 ! j)
      \<and> (\<forall>(r, k) \<in> set ?xs. drafted (T (slot_of r)) (Suc i) (slot_view d' (slot_of r)))"
      by (rule all[OF step dist' sp s0 pre0])
    then show thesis using that by (elim exE conjE)
  qed
  have img: "(slot_of \<circ> fst) ` set ?xs = slot_of ` set (valid_requests g)" unfolding fst[symmetric] by (simp add: image_image)
  have "build A g d = (Inr [], d')" using d'(1) n noBad by (simp add: build_def)
  moreover have "drafted (T (slot_of r)) (Suc i) (slot_view d' (slot_of r))" if "r \<in> set (valid_requests g)" for r
    using d'(4) that unfolding fst[symmetric] by auto
  ultimately show ?thesis using d'(2,3) img by (auto simp: view)
qed

end

context grammar_matcher
begin

lemma rollback_draft_one_ok:
  assumes sz: "sized S R K d" and vr: "gr_slot r = Some slot" "slot < S" and pre: "drafted txt i (slot_view d slot)" and lim: "i \<le> limit"
  shows "\<exists>d'. rollback_draft_one A r d = (Inr (), d') \<and> frame slot 0 0 d d' \<and> slot_ok (slot_view d' slot)
     \<and> map_option (\<lambda>m. (gram m, hist m)) (fst (slot_view d' slot)) = txt \<and> snd (snd (snd (slot_view d' slot))) = (0, False)"
proof -
  let ?reset = "\<lambda>d1. d1\<lparr>num_advanced_draft_tokens := (num_advanced_draft_tokens d1)[slot := 0], is_draft_terminated := (is_draft_terminated d1)[slot := False]\<rparr>"
  have fr: "frame slot 0 0 d1 (?reset d1)" for d1 :: "('m, 'b) decoder" by (auto simp: frame_def sized_def slot_view_def)
  have view: "slot_view (?reset d1) slot = (grammar_matchers d1 ! slot, num_advanced_tokens d1 ! slot, num_guided_tokens d1 ! slot, 0, False)"
    if "sized S R K d1" for d1 :: "('m, 'b) decoder" using that vr(2) by (simp add: slot_view_def sized_def)
  show ?thesis
  proof (cases "num_advanced_draft_tokens d ! slot = 0")
    case True
    have "rollback_draft_one A r d = (Inr (), ?reset d)" using True vr sz by (simp add: rollback_draft_one_def sized_def)
    moreover have "slot_ok (slot_view (?reset d) slot)" "map_option (\<lambda>m. (gram m, hist m)) (fst (slot_view (?reset d) slot)) = txt"
      unfolding view[OF sz] using pre True by (auto simp: slot_ok_def drafted_def slot_view_def split: option.splits)
    ultimately show ?thesis using fr[of d] view[OF sz] by (intro exI[of _ "?reset d"]) simp
  next
    case False
    then obtain m g h e where m: "grammar_matchers d ! slot = Some m" "ok m" "txt = Some (g, h)" "gram m = g" "hist m = h @ e" "length e = num_advanced_draft_tokens d ! slot"
      "num_advanced_draft_tokens d ! slot \<le> i"
      using pre by (auto simp: drafted_def slot_view_def split: option.splits)
    obtain d1 m1 where d1: "rollback_slot A slot (num_advanced_draft_tokens d ! slot) d = (Inr (), d1)" "frame slot 0 0 d d1"
      "slot_view d1 slot = (Some m1, snd (slot_view d slot))" "ok m1" "rolled_back gram hist (num_advanced_draft_tokens d ! slot) (Some m) (Some m1)"
      using rollback_slot_ok[OF sz vr(2) m(1,2), of "num_advanced_draft_tokens d ! slot"] m lim by auto
    have s1: "sized S R K d1" by (rule frame_sized[OF d1(2) sz])
    have m1: "grammar_matchers d1 ! slot = Some m1" using d1(3) by (simp add: slot_view_def)
    have "rollback_draft_one A r d = (Inr (), ?reset d1)" using False vr sz d1(1) by (simp add: rollback_draft_one_def sized_def)
    moreover have "frame slot 0 0 d (?reset d1)" by (rule frame_trans[OF d1(2) fr])
    moreover have "slot_ok (slot_view (?reset d1) slot)" "map_option (\<lambda>m. (gram m, hist m)) (fst (slot_view (?reset d1) slot)) = txt"
      unfolding view[OF s1] m1 using d1(4,5) m by (simp_all add: slot_ok_def rolled_back_def)
    ultimately show ?thesis using view[OF s1] by (intro exI[of _ "?reset d1"]) simp
  qed
qed

definition restored :: "('g \<times> int list) option \<Rightarrow> 'm option \<times> nat \<times> nat \<times> nat \<times> bool \<Rightarrow> bool" where
  "restored txt v \<longleftrightarrow> slot_ok v \<and> map_option (\<lambda>m. (gram m, hist m)) (fst v) = txt \<and> snd (snd (snd v)) = (0, False)"

lemma rollback_draft_ok:
  assumes sz: "sized S R K d" and vr: "\<forall>r \<in> set (valid_requests g). slot_of r < S" and dist: "distinct (map slot_of (valid_requests g))"
    and pre: "\<forall>r \<in> set (valid_requests g). drafted (T (slot_of r)) i (slot_view d (slot_of r))" and lim: "i \<le> limit" and K: "0 < K"
  shows "\<exists>d'. rollback_draft_tokens A g d = (Inr (), d') \<and> sized S R K d' \<and> (\<forall>s. s \<notin> slot_of ` set (valid_requests g) \<longrightarrow> slot_view d' s = slot_view d s)
     \<and> (\<forall>r \<in> set (valid_requests g). restored (T (slot_of r)) (slot_view d' (slot_of r)))"
proof -
  have slot: "gr_slot r = Some (slot_of r)" if "r \<in> set (valid_requests g)" for r using that by (auto simp: valid_requests_def valid_request_def)
  have step: "\<exists>d'. rollback_draft_one A r d = (Inr (), d') \<and> frame (slot_of r) 0 0 d d' \<and> restored (T (slot_of r)) (slot_view d' (slot_of r))"
    if "r \<in> set (valid_requests g)" "sized S R K d" "drafted (T (slot_of r)) i (slot_view d (slot_of r))" for r d
    using rollback_draft_one_ok[OF that(2) slot[OF that(1)] _ that(3) lim] vr that(1) unfolding restored_def by blast
  have "max_num_draft_tokens d = K" using sz by (simp add: sized_def)
  then show ?thesis
    using for_requests_all[where f = "rollback_draft_one A" and rs = "valid_requests g" and S = S and R = R and K = K and d = d
        and Post = "\<lambda>r v v'. restored (T (slot_of r)) v'" and Pre = "\<lambda>r v. drafted (T (slot_of r)) i v", OF step dist sz] pre K
    by (simp add: rollback_draft_tokens_def)
qed

end

text \<open>Fetching the tokens of a drafting step makes every guided request a draft request and leaves the others.\<close>

definition fetched :: "nat \<Rightarrow> int list \<Rightarrow> nat list \<Rightarrow> nat \<Rightarrow> 'p guided_request \<Rightarrow> 'p guided_request \<Rightarrow> bool" where
  "fetched draft_step accs advanced i r r' \<longleftrightarrow>
     (if valid_request r then valid_request r' \<and> gr_slot r' = gr_slot r \<and> is_draft r'
        \<and> (if draft_step = 0 then gr_draft_tokens r' = Some [] \<and> num_accepted_draft_tokens r' = min (accs ! i) (int (advanced ! slot_of r)) - 1
           else gr_draft_tokens r' = gr_draft_tokens r)
      else r' = r)"

lemma fetch_draft_loop_ok:
  assumes "i + length rs \<le> length toks" "draft_step = 0 \<longrightarrow> i + length rs \<le> length accs"
    and "\<forall>r \<in> set rs. valid_request r \<longrightarrow> slot_of r < length advanced \<and> (is_draft r \<longleftrightarrow> draft_step \<noteq> 0)"
  shows "\<exists>rs'. fetch_draft_loop draft_step toks accs advanced i rs = Inr rs' \<and> length rs' = length rs \<and> (\<forall>j < length rs. fetched draft_step accs advanced (i + j) (rs ! j) (rs' ! j))"
  using assms
proof (induction rs arbitrary: i)
  case (Cons r rs)
  obtain r' where r': "fetch_draft_one draft_step toks accs advanced i r = Inr r'" "fetched draft_step accs advanced i r r'"
  proof (cases "valid_request r")
    case True
    then obtain slot where s: "gr_slot r = Some slot" by (auto simp: valid_request_def)
    show thesis
    proof (cases "draft_step = 0")
      case 0: True
      show thesis by (rule that, use True s 0 Cons.prems in \<open>simp add: fetch_draft_one_def Let_def\<close>)
        (use True s 0 in \<open>simp add: fetched_def cast_to_draft_def valid_request_def\<close>)
    next
      case False
      show thesis by (rule that, use True s False Cons.prems in \<open>simp add: fetch_draft_one_def Let_def\<close>)
        (use True s False Cons.prems in \<open>simp add: fetched_def valid_request_def\<close>)
    qed
  qed (use that in \<open>simp add: fetch_draft_one_def fetched_def\<close>)
  obtain rs' where rs': "fetch_draft_loop draft_step toks accs advanced (i + 1) rs = Inr rs'" "length rs' = length rs"
    "\<forall>j < length rs. fetched draft_step accs advanced (i + 1 + j) (rs ! j) (rs' ! j)"
    using Cons.IH[of "i + 1"] Cons.prems by auto
  have "\<forall>j < length (r # rs). fetched draft_step accs advanced (i + j) ((r # rs) ! j) ((r' # rs') ! j)"
    using r'(2) rs'(3) by (auto simp: nth_Cons less_Suc_eq_0_disj)
  then show ?case using r'(1) rs'(1,2) by (intro exI[of _ "r' # rs'"]) simp
qed simp

definition draft_batch :: "nat \<Rightarrow> nat \<Rightarrow> 'p guided_requests \<Rightarrow> bool" where
  "draft_batch S K g \<longleftrightarrow> requests g \<noteq> [] \<and> length (requests g) \<le> S \<and> draft_limit g = K \<and> (\<forall>r \<in> set (valid_requests g). draft_request S r)
     \<and> distinct (map slot_of (valid_requests g))"

lemma total_rows_le: "length rs \<le> S \<Longrightarrow> total_rows K rs \<le> S * (K + 1)"
proof -
  assume "length rs \<le> S"
  have "total_rows K rs \<le> length rs * (K + 1)" by (induction rs) (auto simp: total_rows_def row_span_def)
  also have "\<dots> \<le> S * (K + 1)" using \<open>length rs \<le> S\<close> by (rule mult_le_mono1)
  finally show ?thesis .
qed

lemma fetched_valid:
  assumes "length rs' = length rs" "\<forall>j < length rs. fetched draft_step accs advanced (i + j) (rs ! j) (rs' ! j)"
  shows "map slot_of (filter valid_request rs') = map slot_of (filter valid_request rs)"
    and "\<And>r'. r' \<in> set (filter valid_request rs') \<Longrightarrow> \<exists>j < length rs. valid_request (rs ! j) \<and> slot_of r' = slot_of (rs ! j) \<and> fetched draft_step accs advanced (i + j) (rs ! j) r'"
proof -
  have "list_all2 (\<lambda>r r'. valid_request r' = valid_request r \<and> (valid_request r \<longrightarrow> slot_of r' = slot_of r)) rs rs'"
    using assms by (auto simp: list_all2_conv_all_nth fetched_def slot_of_def split: if_splits)
  then show "map slot_of (filter valid_request rs') = map slot_of (filter valid_request rs)"
    by (induction rule: list_all2_induct) auto
next
  fix r' assume "r' \<in> set (filter valid_request rs')"
  then obtain j where j: "j < length rs" "r' = rs' ! j" "valid_request r'" using assms(1) by (auto simp: in_set_conv_nth)
  then have f: "fetched draft_step accs advanced (i + j) (rs ! j) r'" using assms(2) by blast
  then have "valid_request (rs ! j)" using j(3) by (auto simp: fetched_def split: if_splits)
  then show "\<exists>j < length rs. valid_request (rs ! j) \<and> slot_of r' = slot_of (rs ! j) \<and> fetched draft_step accs advanced (i + j) (rs ! j) r'"
    using j(1) f by (intro exI[of _ j]) (auto simp: fetched_def slot_of_def)
qed

context grammar_matcher
begin

definition drafting :: "(nat \<Rightarrow> ('g \<times> int list) option) \<Rightarrow> nat \<Rightarrow> nat \<Rightarrow> nat \<Rightarrow> 'm option \<times> nat \<times> nat \<times> nat \<times> bool \<Rightarrow> bool" where
  "drafting T K i s v \<longleftrightarrow> (if i = K then restored (T s) v else drafted (T s) i v)"

lemma draft_tail:
  assumes g: "draft_batch S K (requests_hostfunc c)" and sz: "sized S (S * (K + 1)) K (base c)" and i: "i < K" "K \<le> limit"
    and pre: "\<forall>s \<in> slot_of ` set (valid_requests (requests_hostfunc c)). drafted (T s) i (slot_view (base c) s)"
  shows "\<exists>d'. res_bind (on_base (build A (requests_hostfunc c)) c) (\<lambda>(failed, c3).
        res_bind (if int i = int (max_num_draft_tokens (base c3)) - 1 then on_base (rollback_draft_tokens A (requests_hostfunc c3)) c3 else Inr ((), c3))
          (\<lambda>(_, c4). Inr (failed, c4))) = Inr ([], c\<lparr>base := d'\<rparr>)
     \<and> sized S (S * (K + 1)) K d' \<and> (\<forall>s \<in> slot_of ` set (valid_requests (requests_hostfunc c)). drafting T K (Suc i) s (slot_view d' s))
     \<and> (\<forall>s. s \<notin> slot_of ` set (valid_requests (requests_hostfunc c)) \<longrightarrow> slot_view d' s = slot_view (base c) s)"
proof -
  let ?g = "requests_hostfunc c"
  have gg: "requests ?g \<noteq> []" "total_rows K (requests ?g) \<le> S * (K + 1)" "draft_limit ?g = K" "\<forall>r \<in> set (valid_requests ?g). draft_request S r" "distinct (map slot_of (valid_requests ?g))"
    using g total_rows_le[of "requests ?g" S K] by (auto simp: draft_batch_def)
  obtain d1 where d1: "build A ?g (base c) = (Inr [], d1)" "sized S (S * (K + 1)) K d1" "\<forall>r \<in> set (valid_requests ?g). drafted (T (slot_of r)) (Suc i) (slot_view d1 (slot_of r))"
    "\<forall>s. s \<notin> slot_of ` set (valid_requests ?g) \<longrightarrow> slot_view d1 s = slot_view (base c) s"
    using build_draft[OF sz gg, of T i] pre by auto
  have mx: "max_num_draft_tokens d1 = K" using d1(2) by (simp add: sized_def)
  show ?thesis
  proof (cases "Suc i = K")
    case True
    have slots: "\<forall>r \<in> set (valid_requests ?g). slot_of r < S" using gg(4) by (simp add: draft_request_def)
    have lim: "Suc i \<le> limit" and K: "0 < K" using i by simp_all
    obtain d2 where d2: "rollback_draft_tokens A ?g d1 = (Inr (), d2)" "sized S (S * (K + 1)) K d2" "\<forall>r \<in> set (valid_requests ?g). restored (T (slot_of r)) (slot_view d2 (slot_of r))"
      "\<forall>s. s \<notin> slot_of ` set (valid_requests ?g) \<longrightarrow> slot_view d2 s = slot_view d1 s"
      using rollback_draft_ok[OF d1(2) slots gg(5) d1(3) lim K] by blast
    have "int i = int K - 1" using True by simp
    then show ?thesis using d1(1,4) d2 mx True by (intro exI[of _ d2]) (auto simp: on_base_def drafting_def)
  next
    case False
    then have "int i \<noteq> int K - 1" using i by simp
    then show ?thesis using d1 mx False by (intro exI[of _ d1]) (auto simp: on_base_def drafting_def)
  qed
qed

definition loop_inv :: "nat \<Rightarrow> nat \<Rightarrow> nat list \<Rightarrow> nat \<Rightarrow> (nat \<Rightarrow> ('g \<times> int list) option) \<Rightarrow> nat \<Rightarrow> ('m, 'b, 'p) capturable \<Rightarrow> bool" where
  "loop_inv S K slots n T i c \<longleftrightarrow> draft_batch S K (requests_hostfunc c) \<and> sized S (S * (K + 1)) K (base c) \<and> new_tokens c \<noteq> []
     \<and> host_batch_size c = n \<and> length (requests (requests_hostfunc c)) = n
     \<and> map slot_of (valid_requests (requests_hostfunc c)) = slots \<and> (\<forall>s \<in> set slots. drafting T K i s (slot_view (base c) s))"

lemma later_step:
  assumes inv: "loop_inv S K slots n T i c" and i: "0 < i" "i < K" "K \<le> limit" and toks: "length toks = n"
  shows "\<exists>c1 c'. add_draft_batch toks accs i c = Inr c1 \<and> execute_draft_batch A i c1 = Inr ([], c') \<and> loop_inv S K slots n T (Suc i) c'
     \<and> (\<forall>s. s \<notin> set slots \<longrightarrow> slot_view (base c') s = slot_view (base c) s)"
proof -
  let ?c1 = "c\<lparr>new_tokens := (new_tokens c)[0 := toks @ drop (length toks) (new_tokens c ! 0)]\<rparr>" and ?rs = "requests (requests_hostfunc c)"
  have add: "add_draft_batch toks accs i c = Inr ?c1" using inv i toks by (simp add: add_draft_batch_def loop_inv_def Let_def)
  have g: "draft_batch S K (requests_hostfunc c)" and sz: "sized S (S * (K + 1)) K (base c)" and nt: "new_tokens c \<noteq> []"
    and len: "length ?rs = n" and slots: "map slot_of (valid_requests (requests_hostfunc c)) = slots" using inv by (simp_all add: loop_inv_def)
  have dr: "draft_request S r" if "r \<in> set ?rs" "valid_request r" for r using g that by (auto simp: draft_batch_def valid_requests_def)
  have "\<forall>r \<in> set ?rs. valid_request r \<longrightarrow> slot_of r < length (num_advanced_tokens (base c)) \<and> (is_draft r \<longleftrightarrow> i \<noteq> 0)"
    using dr i(1) sz by (auto simp: draft_request_def sized_def)
  then obtain rs' where rs': "fetch_draft_loop i toks (take n (num_accepted_tokens c)) (num_advanced_tokens (base c)) 0 ?rs = Inr rs'" "length rs' = length ?rs"
    "\<forall>j < length ?rs. fetched i (take n (num_accepted_tokens c)) (num_advanced_tokens (base c)) (0 + j) (?rs ! j) (rs' ! j)"
    using fetch_draft_loop_ok[of 0 ?rs toks i "take n (num_accepted_tokens c)" "num_advanced_tokens (base c)"] toks len i(1) by auto
  let ?c2 = "?c1\<lparr>requests_hostfunc := (requests_hostfunc c)\<lparr>requests := rs'\<rparr>\<rparr>"
  have fetch: "fetch_draft_batch i ?c1 = Inr ?c2" using rs'(1) nt toks len by (simp add: fetch_draft_batch_def Let_def)
  have sl: "map slot_of (filter valid_request rs') = slots" using fetched_valid(1)[OF rs'(2,3)] slots by (simp add: valid_requests_def)
  have "draft_request S r'" if r': "r' \<in> set (filter valid_request rs')" for r'
  proof -
    obtain j where j: "j < length ?rs" "valid_request (?rs ! j)" "slot_of r' = slot_of (?rs ! j)"
      "fetched i (take n (num_accepted_tokens c)) (num_advanced_tokens (base c)) (0 + j) (?rs ! j) r'"
      using fetched_valid(2)[OF rs'(2,3) r'] by blast
    have "draft_request S (?rs ! j)" using dr[OF nth_mem[OF j(1)] j(2)] .
    then show ?thesis using j i(1) r' by (simp add: draft_request_def fetched_def)
  qed
  then have g2: "draft_batch S K (requests_hostfunc ?c2)" using g sl slots rs'(2) by (auto simp: draft_batch_def valid_requests_def)
  have v2: "slot_of ` set (valid_requests (requests_hostfunc ?c2)) = set slots" unfolding sl[symmetric] by (simp add: valid_requests_def)
  have "\<forall>s \<in> slot_of ` set (valid_requests (requests_hostfunc ?c2)). drafted (T s) i (slot_view (base ?c2) s)"
    unfolding v2 using inv i(2) by (simp add: loop_inv_def drafting_def)
  then obtain d' where d': "res_bind (on_base (build A (requests_hostfunc ?c2)) ?c2) (\<lambda>(failed, c3).
        res_bind (if int i = int (max_num_draft_tokens (base c3)) - 1 then on_base (rollback_draft_tokens A (requests_hostfunc c3)) c3 else Inr ((), c3))
          (\<lambda>(_, c4). Inr (failed, c4))) = Inr ([], ?c2\<lparr>base := d'\<rparr>)" "sized S (S * (K + 1)) K d'" "\<forall>s \<in> set slots. drafting T K (Suc i) s (slot_view d' s)"
     "\<forall>s. s \<notin> set slots \<longrightarrow> slot_view d' s = slot_view (base ?c2) s"
    using draft_tail[OF g2 _ i(2,3), of T] sz unfolding v2 by auto
  have "execute_draft_batch A i ?c1 = Inr ([], ?c2\<lparr>base := d'\<rparr>)" using fetch d'(1) i(1) by (simp add: execute_draft_batch_def)
  moreover have "loop_inv S K slots n T (Suc i) (?c2\<lparr>base := d'\<rparr>)"
    using g2 d'(2,3) nt sl rs'(2) len inv by (simp add: loop_inv_def valid_requests_def)
  ultimately show ?thesis using add d'(4) by (intro exI[of _ ?c1] exI[of _ "?c2\<lparr>base := d'\<rparr>"]) simp
qed

lemma later_steps:
  assumes "loop_inv S K slots n T i c" "0 < i" "i + length xs = K" "K \<le> limit" "\<forall>(toks, accs) \<in> set xs. length toks = n"
  shows "\<exists>c'. draft_loop A i xs c = Inr c' \<and> loop_inv S K slots n T K c' \<and> (\<forall>s. s \<notin> set slots \<longrightarrow> slot_view (base c') s = slot_view (base c) s)"
  using assms
proof (induction xs arbitrary: i c)
  case (Cons x xs)
  obtain toks accs where x: "x = (toks, accs)" by (cases x)
  have ik: "i < K" and len: "length toks = n" using Cons.prems(3,5) by (auto simp: x)
  obtain c1 c2 where c: "add_draft_batch toks accs i c = Inr c1" "execute_draft_batch A i c1 = Inr ([], c2)" "loop_inv S K slots n T (Suc i) c2"
    "\<forall>s. s \<notin> set slots \<longrightarrow> slot_view (base c2) s = slot_view (base c) s"
    using later_step[OF Cons.prems(1,2) ik Cons.prems(4) len, of accs] by blast
  obtain c' where c': "draft_loop A (Suc i) xs c2 = Inr c'" "loop_inv S K slots n T K c'" "\<forall>s. s \<notin> set slots \<longrightarrow> slot_view (base c') s = slot_view (base c2) s"
    using Cons.IH[OF c(3)] Cons.prems by auto
  then show ?case using c by (intro exI[of _ c']) (simp add: x)
qed auto

end

definition verified_text :: "('g \<times> int list) option \<Rightarrow> nat \<Rightarrow> int \<Rightarrow> ('g \<times> int list) option" where
  \<comment> \<open>of the tokens that the build step counted, those that the verification accepted remain\<close>
  "verified_text txt advanced accepted = map_option (\<lambda>(g, h). (g, take (length h - (advanced - nat (min accepted (int advanced)))) h)) txt"

definition target_batch :: "nat \<Rightarrow> nat \<Rightarrow> ('m, 'b, 'p) capturable \<Rightarrow> bool" where
  \<comment> \<open>the state in which drafting begins: the requests of the target model, their slots free of draft tokens\<close>
  "target_batch S K c \<longleftrightarrow> (let rs = requests (requests_hostfunc c); d = base c in
     rs \<noteq> [] \<and> length rs \<le> S \<and> host_batch_size c = length rs \<and> draft_limit (requests_hostfunc c) = K \<and> new_tokens c \<noteq> [] \<and> sized S (S * (K + 1)) K d
     \<and> distinct (map slot_of (valid_requests (requests_hostfunc c)))
     \<and> (\<forall>r \<in> set (valid_requests (requests_hostfunc c)). \<not> is_draft r \<and> slot_of r < S \<and> num_advanced_draft_tokens d ! slot_of r = 0 \<and> \<not> is_draft_terminated d ! slot_of r))"

context grammar_matcher
begin

lemma first_step:
  assumes tb: "target_batch S K c" and K: "0 < K" "K \<le> limit" and oks: "\<forall>s < S. slot_ok (slot_view (base c) s)"
    and rs: "rs = requests (requests_hostfunc c)" and toks: "length toks = length rs" and accs: "length accs = length rs" "\<forall>a \<in> set accs. 1 \<le> a"
    and adv: "\<forall>r \<in> set (valid_requests (requests_hostfunc c)). 0 < num_advanced_tokens (base c) ! slot_of r \<longrightarrow>
      (\<exists>m. grammar_matchers (base c) ! slot_of r = Some m \<and> num_advanced_tokens (base c) ! slot_of r \<le> Suc (min limit (length (hist m))))"
  shows "\<exists>T c1 c'. add_draft_batch toks accs 0 c = Inr c1 \<and> execute_draft_batch A 0 c1 = Inr ([], c')
     \<and> loop_inv S K (map slot_of (valid_requests (requests_hostfunc c))) (length rs) T 1 c'
     \<and> (\<forall>s. s \<notin> slot_of ` set (valid_requests (requests_hostfunc c)) \<longrightarrow> slot_view (base c') s = slot_view (base c) s)
     \<and> (\<forall>j < length rs. valid_request (rs ! j) \<longrightarrow>
         T (slot_of (rs ! j)) = verified_text (slot_text gram hist (base c) (slot_of (rs ! j))) (num_advanced_tokens (base c) ! slot_of (rs ! j)) (accs ! j))"
proof -
  let ?d = "base c" and ?g = "requests_hostfunc c" and ?n = "length rs"
  let ?c1 = "c\<lparr>new_tokens := (new_tokens c)[0 := toks @ drop (length toks) (new_tokens c ! 0)], num_accepted_tokens := accs @ drop (length accs) (num_accepted_tokens c)\<rparr>"
  have hb: "host_batch_size c = ?n" and nt: "new_tokens c \<noteq> []" and sz: "sized S (S * (K + 1)) K ?d" and ne: "rs \<noteq> []" "length rs \<le> S" "draft_limit ?g = K"
    and dist: "distinct (map slot_of (valid_requests ?g))"
    and val: "\<forall>r \<in> set (valid_requests ?g). \<not> is_draft r \<and> slot_of r < S \<and> num_advanced_draft_tokens ?d ! slot_of r = 0 \<and> \<not> is_draft_terminated ?d ! slot_of r"
    using tb by (simp_all add: target_batch_def Let_def rs)
  have add: "add_draft_batch toks accs 0 c = Inr ?c1" using hb toks accs(1) by (simp add: add_draft_batch_def Let_def)
  have mem: "r \<in> set (valid_requests ?g)" if "r \<in> set rs" "valid_request r" for r using that by (simp add: rs valid_requests_def)
  have "\<forall>r \<in> set rs. valid_request r \<longrightarrow> slot_of r < length (num_advanced_tokens ?d) \<and> (is_draft r \<longleftrightarrow> (0::nat) \<noteq> 0)"
    using val mem sz by (auto simp: sized_def)
  then obtain rs' where rs': "fetch_draft_loop 0 toks accs (num_advanced_tokens ?d) 0 rs = Inr rs'" "length rs' = length rs"
    "\<forall>j < length rs. fetched 0 accs (num_advanced_tokens ?d) (0 + j) (rs ! j) (rs' ! j)"
    using fetch_draft_loop_ok[of 0 rs toks 0 accs "num_advanced_tokens ?d"] toks accs(1) by auto
  let ?g2 = "?g\<lparr>requests := rs'\<rparr>"
  let ?c2 = "?c1\<lparr>requests_hostfunc := ?g2\<rparr>"
  have fetch: "fetch_draft_batch 0 ?c1 = Inr ?c2" using rs'(1) nt toks accs(1) by (simp add: fetch_draft_batch_def Let_def rs)
  have sl: "map slot_of (valid_requests ?g2) = map slot_of (valid_requests ?g)" using fetched_valid(1)[OF rs'(2,3)] by (simp add: valid_requests_def rs)
  have img: "slot_of ` set (valid_requests ?g2) = slot_of ` set (valid_requests ?g)" using arg_cong[OF sl, of set] by simp
  have each: "\<exists>j < length rs. valid_request (rs ! j) \<and> slot_of r' = slot_of (rs ! j) \<and> fetched 0 accs (num_advanced_tokens ?d) j (rs ! j) r'"
    if "r' \<in> set (valid_requests ?g2)" for r'
    using fetched_valid(2)[OF rs'(2,3), of r'] that by (simp add: valid_requests_def)
  have dr: "draft_request S r'" if "r' \<in> set (valid_requests ?g2)" for r'
    using each[OF that] val mem that by (fastforce simp: draft_request_def fetched_def valid_requests_def)
  have g2: "draft_batch S K ?g2" unfolding draft_batch_def sl using ne dist dr rs'(2) by auto
  have rej: "can_reject r' (slot_view ?d (slot_of r'))" if r': "r' \<in> set (valid_requests ?g2)" for r'
  proof -
    obtain j where j: "j < length rs" "valid_request (rs ! j)" "slot_of r' = slot_of (rs ! j)" "fetched 0 accs (num_advanced_tokens ?d) j (rs ! j) r'"
      using each[OF r'] by blast
    have "1 \<le> accs ! j" using accs j(1) by simp
    then show ?thesis using adv mem[OF nth_mem[OF j(1)] j(2)] j(2-4)
      by (fastforce simp: can_reject_def slot_view_def fetched_def min_def)
  qed
  obtain d1 where d1: "rollback_rejected_tokens A ?g2 ?d = (Inr (), d1)" "sized S (S * (K + 1)) K d1" "\<forall>s. s \<notin> slot_of ` set (valid_requests ?g2) \<longrightarrow> slot_view d1 s = slot_view ?d s"
    and d1r: "\<forall>r \<in> set (valid_requests ?g2). snd (slot_view d1 (slot_of r)) = snd (slot_view ?d (slot_of r)) \<and> slot_ok (slot_view d1 (slot_of r))
         \<and> rolled_back gram hist (num_advanced_tokens ?d ! slot_of r - Suc (nat (num_accepted_draft_tokens r))) (fst (slot_view ?d (slot_of r))) (fst (slot_view d1 (slot_of r)))"
    using rollback_rejected_ok[OF sz _ _ _ oks K(1), of ?g2] rej dr sl dist by (auto simp: draft_request_def)
  let ?T = "slot_text gram hist d1"
  have "drafted (?T s) 0 (slot_view d1 s)" if ss: "s \<in> slot_of ` set (valid_requests ?g2)" for s
  proof -
    obtain r where r: "r \<in> set (valid_requests ?g2)" "s = slot_of r" using ss by blast
    obtain r0 where "r0 \<in> set (valid_requests ?g)" "slot_of r0 = s" using ss unfolding img by auto
    then have "num_advanced_draft_tokens ?d ! s = 0" using val by auto
    then show ?thesis using d1r r by (intro drafted_start) (auto simp: slot_view_def)
  qed
  then obtain d' where d': "res_bind (on_base (build A ?g2) (?c2\<lparr>base := d1\<rparr>)) (\<lambda>(failed, c3).
        res_bind (if int 0 = int (max_num_draft_tokens (base c3)) - 1 then on_base (rollback_draft_tokens A (requests_hostfunc c3)) c3 else Inr ((), c3))
          (\<lambda>(_, c4). Inr (failed, c4))) = Inr ([], ?c2\<lparr>base := d'\<rparr>)" "sized S (S * (K + 1)) K d'"
     "\<forall>s \<in> slot_of ` set (valid_requests ?g2). drafting ?T K (Suc 0) s (slot_view d' s)" "\<forall>s. s \<notin> slot_of ` set (valid_requests ?g2) \<longrightarrow> slot_view d' s = slot_view d1 s"
    using draft_tail[of S K "?c2\<lparr>base := d1\<rparr>" 0 ?T] g2 d1(2) K by auto
  have run: "execute_draft_batch A 0 ?c1 = Inr ([], ?c2\<lparr>base := d'\<rparr>)" using fetch d1(1) d'(1) by (simp add: execute_draft_batch_def on_base_def)
  have inv: "loop_inv S K (map slot_of (valid_requests ?g)) ?n ?T 1 (?c2\<lparr>base := d'\<rparr>)"
    unfolding loop_inv_def sl[symmetric] using g2 d'(2,3) nt hb rs'(2) by simp
  have text1: "?T (slot_of (rs ! j)) = verified_text (slot_text gram hist ?d (slot_of (rs ! j))) (num_advanced_tokens ?d ! slot_of (rs ! j)) (accs ! j)"
    if j: "j < length rs" "valid_request (rs ! j)" for j
  proof -
    have f: "fetched 0 accs (num_advanced_tokens ?d) j (rs ! j) (rs' ! j)" using rs'(3) j(1) by simp
    then have m: "rs' ! j \<in> set (valid_requests ?g2)" using j rs'(2) by (simp add: valid_requests_def fetched_def)
    have s: "slot_of (rs' ! j) = slot_of (rs ! j)" using f j(2) by (simp add: fetched_def slot_of_def)
    have a: "1 \<le> accs ! j" using accs j(1) by simp
    have "num_advanced_tokens ?d ! slot_of (rs ! j) - Suc (nat (num_accepted_draft_tokens (rs' ! j)))
      = num_advanced_tokens ?d ! slot_of (rs ! j) - nat (min (accs ! j) (int (num_advanced_tokens ?d ! slot_of (rs ! j))))"
      using f j(2) a by (simp add: fetched_def min_def) linarith
    then show ?thesis using d1r m s
      by (auto simp: slot_text_def verified_text_def rolled_back_def slot_view_def option.map_comp comp_def)
  qed
  show ?thesis
    by (rule exI[of _ ?T], rule exI[of _ ?c1], rule exI[of _ "?c2\<lparr>base := d'\<rparr>"]) (use add run inv text1 d'(4) d1(3) img in simp)
qed

lemma drafting_restores:
  assumes tb: "target_batch S K c" and K: "0 < K" "K \<le> limit" and oks: "\<forall>s < S. slot_ok (slot_view (base c) s)"
    and rs: "rs = requests (requests_hostfunc c)" and steps: "length steps = K" "\<forall>(toks, accs) \<in> set steps. length toks = length rs"
    and accs: "length (snd (hd steps)) = length rs" "\<forall>a \<in> set (snd (hd steps)). 1 \<le> a"
    and adv: "\<forall>r \<in> set (valid_requests (requests_hostfunc c)). 0 < num_advanced_tokens (base c) ! slot_of r \<longrightarrow>
      (\<exists>m. grammar_matchers (base c) ! slot_of r = Some m \<and> num_advanced_tokens (base c) ! slot_of r \<le> Suc (min limit (length (hist m))))"
  shows "\<exists>c'. draft_loop A 0 steps c = Inr c' \<and> sized S (S * (K + 1)) K (base c')
     \<and> (\<forall>s. s \<notin> slot_of ` set (valid_requests (requests_hostfunc c)) \<longrightarrow> slot_view (base c') s = slot_view (base c) s)
     \<and> (\<forall>j < length rs. valid_request (rs ! j) \<longrightarrow> restored (verified_text (slot_text gram hist (base c) (slot_of (rs ! j)))
           (num_advanced_tokens (base c) ! slot_of (rs ! j)) (snd (hd steps) ! j)) (slot_view (base c') (slot_of (rs ! j))))"
proof -
  obtain toks accs0 xs where st: "steps = (toks, accs0) # xs" using steps(1) K(1) by (cases steps) auto
  let ?sl = "map slot_of (valid_requests (requests_hostfunc c))"
  have t: "length toks = length rs" "length accs0 = length rs" "\<forall>a \<in> set accs0. 1 \<le> a" and xs: "1 + length xs = K" "\<forall>(toks, accs) \<in> set xs. length toks = length rs"
    using steps accs by (auto simp: st)
  obtain T c1 c2 where c: "add_draft_batch toks accs0 0 c = Inr c1" "execute_draft_batch A 0 c1 = Inr ([], c2)" "loop_inv S K ?sl (length rs) T 1 c2"
    "\<forall>s. s \<notin> slot_of ` set (valid_requests (requests_hostfunc c)) \<longrightarrow> slot_view (base c2) s = slot_view (base c) s"
    "\<forall>j < length rs. valid_request (rs ! j) \<longrightarrow>
         T (slot_of (rs ! j)) = verified_text (slot_text gram hist (base c) (slot_of (rs ! j))) (num_advanced_tokens (base c) ! slot_of (rs ! j)) (accs0 ! j)"
    using first_step[OF tb K oks rs t adv] by blast
  obtain c' where c': "draft_loop A 1 xs c2 = Inr c'" "loop_inv S K ?sl (length rs) T K c'" "\<forall>s. s \<notin> set ?sl \<longrightarrow> slot_view (base c') s = slot_view (base c2) s"
    using later_steps[OF c(3) zero_less_one xs(1) K(2) xs(2)] by blast
  have "restored (T (slot_of (rs ! j))) (slot_view (base c') (slot_of (rs ! j)))" if "j < length rs" "valid_request (rs ! j)" for j
    using c'(2) that by (auto simp: loop_inv_def drafting_def valid_requests_def rs)
  then show ?thesis using c c' by (intro exI[of _ c']) (auto simp: st loop_inv_def)
qed

end

section \<open>A whole iteration\<close>

context grammar_matcher
begin

lemma verified_after_target:
  assumes "n \<le> length ds" "1 \<le> a"
  shows "verified_text (Some (x, h @ take n ds)) (Suc n) a = Some (x, h @ take (nat (min a (int n + 1)) - 1) ds)"
proof -
  define b where "b = nat (min a (int n + 1))"
  have "1 \<le> b" "b \<le> Suc n" using assms(2) by (auto simp: b_def)
  then have "take (length (h @ take n ds) - (Suc n - b)) (h @ take n ds) = h @ take (b - 1) ds"
    using assms(1) by (cases b) auto
  moreover have "int (Suc n) = int n + 1" by simp
  ultimately show ?thesis by (simp only: verified_text_def option.map split_conv b_def)
qed

lemma iteration:
  assumes tb: "target_batch S K c" and K: "0 < K" "K \<le> limit" and oks: "\<forall>mo \<in> set (grammar_matchers (base c)). (case mo of None \<Rightarrow> True | Some m \<Rightarrow> ok m)"
    and sched: "\<forall>q \<in> set cs. \<not> gs_is_draft q \<and> \<not> gs_generation_in_progress q" "\<forall>q \<in> set gs. \<not> gs_is_draft q \<and> gs_generation_in_progress q"
    and g: "requests_hostfunc c = from_scheduled_requests cs gs K" and tr: "\<forall>r \<in> set (valid_requests (requests_hostfunc c)). target_request S K r"
    and rs: "rs = requests (requests_hostfunc c)" and steps: "length steps = K" "\<forall>(toks, accs) \<in> set steps. length toks = length rs"
    and accs: "length (snd (hd steps)) = length rs" "\<forall>a \<in> set (snd (hd steps)). 1 \<le> a"
  shows "\<exists>failed c1 c'. on_base (build A (requests_hostfunc c)) c = Inr (failed, c1) \<and> draft_loop A 0 steps c1 = Inr c'
     \<and> (\<forall>j < length rs. valid_request (rs ! j) \<longrightarrow>
          num_advanced_draft_tokens (base c') ! slot_of (rs ! j) = 0 \<and> \<not> is_draft_terminated (base c') ! slot_of (rs ! j)
        \<and> (if can_guide (rs ! j) (grammar_matchers (base c) ! slot_of (rs ! j)) False
           then \<exists>x h. guided_text gram hist grammar_of (rs ! j) (grammar_matchers (base c) ! slot_of (rs ! j)) = Some (x, h)
             \<and> slot_text gram hist (base c') (slot_of (rs ! j))
               = Some (x, h @ take (nat (min (snd (hd steps) ! j) (int (goes_on viable final x h (drafts_of (rs ! j))) + 1)) - 1) (drafts_of (rs ! j)))
           else slot_text gram hist (base c') (slot_of (rs ! j)) = slot_text gram hist (base c) (slot_of (rs ! j))))"
proof -
  let ?g = "requests_hostfunc c" and ?d = "base c" and ?accs = "snd (hd steps)"
  have b: "cs @ gs \<noteq> []" "length (cs @ gs) \<le> S" "sized S (S * (K + 1)) K ?d" "distinct (map slot_of (valid_requests ?g))" "host_batch_size c = length rs" "new_tokens c \<noteq> []"
    and val: "\<forall>r \<in> set (valid_requests ?g). \<not> is_draft r \<and> slot_of r < S \<and> num_advanced_draft_tokens ?d ! slot_of r = 0 \<and> \<not> is_draft_terminated ?d ! slot_of r"
    using tb g rs by (auto simp: target_batch_def Let_def from_scheduled_requests_def)
  obtain failed d1 where d1: "build A ?g ?d = (Inr failed, d1)" "sized S (S * (K + 1)) K d1" "\<forall>s. s \<notin> slot_of ` set (valid_requests ?g) \<longrightarrow> slot_view d1 s = slot_view ?d s"
    and after: "\<forall>(r, k) \<in> set (valid_requests_with_offsets ?g). after_target r (slot_view ?d (slot_of r)) (slot_view d1 (slot_of r)) (buffer_rows k (Suc (length (drafts_of r))) d1)"
    using build_text[OF b(3) oks sched b(1,2) g tr b(4)] by blast
  let ?c1 = "c\<lparr>base := d1\<rparr>"
  have fst: "map fst (valid_requests_with_offsets ?g) = valid_requests ?g" by (simp add: valid_requests_with_offsets_def with_offsets_fst valid_requests_def)
  have each: "\<exists>k. after_target r (slot_view ?d (slot_of r)) (slot_view d1 (slot_of r)) (buffer_rows k (Suc (length (drafts_of r))) d1)" if "r \<in> set (valid_requests ?g)" for r
    using after that unfolding fst[symmetric] by (auto dest!: bspec)
  have flags: "num_advanced_draft_tokens d1 ! slot_of r = 0 \<and> \<not> is_draft_terminated d1 ! slot_of r" if "r \<in> set (valid_requests ?g)" for r
    using each[OF that] after_target_text(2)[of r ?d "slot_of r" d1] val that by (auto simp: slot_view_def)
  have oks1: "slot_ok (slot_view d1 s)" if "s < S" for s
  proof (cases "s \<in> slot_of ` set (valid_requests ?g)")
    case True
    then show ?thesis using each after_target_text(3) by blast
  qed (use pred_slot_ok[OF oks b(3)] d1(3) that in simp)
  have tb1: "target_batch S K ?c1" unfolding target_batch_def Let_def using tb d1(2) flags val by (auto simp: target_batch_def Let_def)
  have text1: "if can_guide r (grammar_matchers ?d ! slot_of r) False
     then \<exists>x h. guided_text gram hist grammar_of r (grammar_matchers ?d ! slot_of r) = Some (x, h)
        \<and> slot_text gram hist d1 (slot_of r) = Some (x, h @ take (goes_on viable final x h (drafts_of r)) (drafts_of r))
        \<and> num_advanced_tokens d1 ! slot_of r = Suc (goes_on viable final x h (drafts_of r))
     else slot_text gram hist d1 (slot_of r) = slot_text gram hist ?d (slot_of r) \<and> num_advanced_tokens d1 ! slot_of r = 0" if r: "r \<in> set (valid_requests ?g)" for r
  proof -
    obtain k where k: "after_target r (slot_view ?d (slot_of r)) (slot_view d1 (slot_of r)) (buffer_rows k (Suc (length (drafts_of r))) d1)" using each[OF r] by blast
    have f: "is_draft_terminated ?d ! slot_of r = False" using val r by simp
    show ?thesis using after_target_text(1)[OF k, unfolded f] by (simp split: if_splits) blast
  qed
  have adv: "\<forall>r \<in> set (valid_requests (requests_hostfunc ?c1)). 0 < num_advanced_tokens (base ?c1) ! slot_of r \<longrightarrow>
      (\<exists>m. grammar_matchers (base ?c1) ! slot_of r = Some m \<and> num_advanced_tokens (base ?c1) ! slot_of r \<le> Suc (min limit (length (hist m))))"
  proof (intro ballI impI)
    fix r assume "r \<in> set (valid_requests (requests_hostfunc ?c1))" and pos: "0 < num_advanced_tokens (base ?c1) ! slot_of r"
    then have r: "r \<in> set (valid_requests ?g)" by simp
    have "can_guide r (grammar_matchers ?d ! slot_of r) False" using text1[OF r] pos by (auto split: if_splits)
    then obtain x h m where m: "grammar_matchers d1 ! slot_of r = Some m" "hist m = h @ take (goes_on viable final x h (drafts_of r)) (drafts_of r)"
      "num_advanced_tokens d1 ! slot_of r = Suc (goes_on viable final x h (drafts_of r))"
      using text1[OF r] by (auto simp: slot_text_def)
    have "goes_on viable final x h (drafts_of r) \<le> length (drafts_of r)" by (rule goes_on_le)
    moreover have "length (drafts_of r) \<le> K" using tr r by (auto simp: target_request_def split: if_splits)
    ultimately show "\<exists>m. grammar_matchers (base ?c1) ! slot_of r = Some m \<and> num_advanced_tokens (base ?c1) ! slot_of r \<le> Suc (min limit (length (hist m)))"
      using m K(2) by auto
  qed
  have oks2: "\<forall>s < S. slot_ok (slot_view (base ?c1) s)" using oks1 by simp
  have rs1: "rs = requests (requests_hostfunc ?c1)" by (simp add: rs)
  obtain c' where c': "draft_loop A 0 steps ?c1 = Inr c'" and res: "\<forall>j < length rs. valid_request (rs ! j) \<longrightarrow> restored (verified_text (slot_text gram hist (base ?c1) (slot_of (rs ! j)))
           (num_advanced_tokens (base ?c1) ! slot_of (rs ! j)) (?accs ! j)) (slot_view (base c') (slot_of (rs ! j)))"
    using drafting_restores[OF tb1 K oks2 rs1 steps accs adv] by blast
  have "num_advanced_draft_tokens (base c') ! slot_of (rs ! j) = 0 \<and> \<not> is_draft_terminated (base c') ! slot_of (rs ! j)
        \<and> (if can_guide (rs ! j) (grammar_matchers ?d ! slot_of (rs ! j)) False
           then \<exists>x h. guided_text gram hist grammar_of (rs ! j) (grammar_matchers ?d ! slot_of (rs ! j)) = Some (x, h)
             \<and> slot_text gram hist (base c') (slot_of (rs ! j)) = Some (x, h @ take (nat (min (?accs ! j) (int (goes_on viable final x h (drafts_of (rs ! j))) + 1)) - 1) (drafts_of (rs ! j)))
           else slot_text gram hist (base c') (slot_of (rs ! j)) = slot_text gram hist ?d (slot_of (rs ! j)))"
    if j: "j < length rs" "valid_request (rs ! j)" for j
  proof -
    have mem: "rs ! j \<in> set (valid_requests ?g)" using j by (simp add: valid_requests_def rs)
    have a: "1 \<le> ?accs ! j" using accs j(1) by simp
    have rest: "slot_text gram hist (base c') (slot_of (rs ! j)) = verified_text (slot_text gram hist d1 (slot_of (rs ! j))) (num_advanced_tokens d1 ! slot_of (rs ! j)) (?accs ! j)"
      "num_advanced_draft_tokens (base c') ! slot_of (rs ! j) = 0" "\<not> is_draft_terminated (base c') ! slot_of (rs ! j)"
      using res j by (auto simp: restored_def slot_text_def slot_view_def)
    show ?thesis
    proof (cases "can_guide (rs ! j) (grammar_matchers ?d ! slot_of (rs ! j)) False")
      case True
      then obtain x h where xh: "guided_text gram hist grammar_of (rs ! j) (grammar_matchers ?d ! slot_of (rs ! j)) = Some (x, h)"
        "slot_text gram hist d1 (slot_of (rs ! j)) = Some (x, h @ take (goes_on viable final x h (drafts_of (rs ! j))) (drafts_of (rs ! j)))"
        "num_advanced_tokens d1 ! slot_of (rs ! j) = Suc (goes_on viable final x h (drafts_of (rs ! j)))"
        using text1[OF mem] by auto
      then show ?thesis using True rest verified_after_target[OF goes_on_le a] by simp
    next
      case False
      then show ?thesis using text1[OF mem] rest by (cases "slot_text gram hist ?d (slot_of (rs ! j))") (simp_all add: verified_text_def split_beta)
    qed
  qed
  moreover have "on_base (build A ?g) c = Inr (failed, ?c1)" using d1(1) by (simp add: on_base_def)
  ultimately show ?thesis using c' by blast
qed

end

section \<open>Properties\<close>

text \<open>C17: a whole iteration of guided speculative decoding, for any matchers that keep the laws and can take back as many tokens as are drafted: after
  the build step of the target model and the drafting loop, whatever the draft model sampled, nothing is raised and the matcher of every guided
  request holds the old text, the new token and the accepted draft tokens, cut at the first draft token that the grammar does not allow. The matchers
  of the other requests of the batch are as before, and every slot of a request of the batch is ready for the next iteration.\<close>

theorem guided_iteration_keeps_accepted:
  assumes "grammar_matcher A ok gram hist grammar_of viable final row limit"
    and "target_batch S K c" "0 < K" "K \<le> limit" "\<forall>mo \<in> set (grammar_matchers (base c)). (case mo of None \<Rightarrow> True | Some m \<Rightarrow> ok m)"
    and "\<forall>q \<in> set cs. \<not> gs_is_draft q \<and> \<not> gs_generation_in_progress q" "\<forall>q \<in> set gs. \<not> gs_is_draft q \<and> gs_generation_in_progress q"
    and "requests_hostfunc c = from_scheduled_requests cs gs K" "\<forall>r \<in> set (valid_requests (requests_hostfunc c)). target_request S K r"
    and "rs = requests (requests_hostfunc c)" "length steps = K" "\<forall>(toks, accs) \<in> set steps. length toks = length rs"
    and "length (snd (hd steps)) = length rs" "\<forall>a \<in> set (snd (hd steps)). 1 \<le> a"
  shows "\<exists>failed c1 c'. on_base (build A (requests_hostfunc c)) c = Inr (failed, c1) \<and> draft_loop A 0 steps c1 = Inr c'
     \<and> (\<forall>j < length rs. valid_request (rs ! j) \<longrightarrow>
          num_advanced_draft_tokens (base c') ! slot_of (rs ! j) = 0 \<and> \<not> is_draft_terminated (base c') ! slot_of (rs ! j)
        \<and> (if guides A gram hist viable final (rs ! j) (grammar_matchers (base c) ! slot_of (rs ! j)) False
           then \<exists>x h. guided_text gram hist grammar_of (rs ! j) (grammar_matchers (base c) ! slot_of (rs ! j)) = Some (x, h)
             \<and> slot_text gram hist (base c') (slot_of (rs ! j))
               = Some (x, h @ take (nat (min (snd (hd steps) ! j) (int (goes_on viable final x h (drafts_of (rs ! j))) + 1)) - 1) (drafts_of (rs ! j)))
           else slot_text gram hist (base c') (slot_of (rs ! j)) = slot_text gram hist (base c) (slot_of (rs ! j))))"
  by (rule grammar_matcher.iteration[OF assms])

definition sample_state :: "((int list \<times> int list) ll_matcher, int list, guided_params) capturable" where
  "sample_state = \<lparr>base = decoder_init 3 2 (replicate 9 None) (replicate 9 True)\<lparr>grammar_matchers := grammar_matchers sample_decoder\<rparr>, host_batch_size = 2,
     requests_hostfunc = sample_batch, batch_queue = [], new_tokens = replicate 3 (replicate 3 0), num_accepted_tokens = replicate 3 0\<rparr>"

definition sample_steps :: "(int list \<times> int list) list" where
  \<comment> \<open>what the draft model samples in two steps, and the numbers of accepted tokens\<close>
  "sample_steps = [([120, 100], [1, 3]), ([121, 55], [])]"

theorem guided_iteration_keeps_accepted_witness:
  "\<exists>failed c1 c'. on_base (build literal_api sample_batch) sample_state = Inr (failed, c1) \<and> draft_loop literal_api 0 sample_steps c1 = Inr c'
     \<and> slot_text (ll_gram fst) (ll_hist snd) (base c') 2 = Some (Inr [97, 98, 99, 100], [97, 98, 99])"
proof -
  let ?rs = "requests sample_batch"
  have rf: "requests_hostfunc sample_state = sample_batch" by (simp add: sample_state_def)
  have h: "target_batch 3 2 sample_state" "\<forall>mo \<in> set (grammar_matchers (base sample_state)). case mo of None \<Rightarrow> True | Some m \<Rightarrow> literal_ok m"
    "\<forall>q \<in> set [sample_source 4 ''xy'' 0 False 0 []]. \<not> gs_is_draft q \<and> \<not> gs_generation_in_progress q"
    "\<forall>q \<in> set [sample_source 7 ''abcd'' 2 True 98 [99, 120]]. \<not> gs_is_draft q \<and> gs_generation_in_progress q"
    "\<forall>r \<in> set (valid_requests (requests_hostfunc sample_state)). target_request 3 2 r" "length sample_steps = 2"
    "\<forall>(toks, accs) \<in> set sample_steps. length toks = length ?rs" "length (snd (hd sample_steps)) = length ?rs" "\<forall>a \<in> set (snd (hd sample_steps)). 1 \<le> a"
    by code_simp+
  have rs: "?rs = requests (requests_hostfunc sample_state)" by (simp add: rf)
  have g: "requests_hostfunc sample_state = from_scheduled_requests [sample_source 4 ''xy'' 0 False 0 []] [sample_source 7 ''abcd'' 2 True 98 [99, 120]] 2"
    by (simp add: rf sample_batch_def)
  have ev: "1 < length ?rs" "valid_request (?rs ! 1)" "slot_of (?rs ! 1) = 2"
    "guides literal_api (ll_gram fst) (ll_hist snd) literal_follows literal_ends (?rs ! 1) (grammar_matchers (base sample_state) ! slot_of (?rs ! 1)) False = True"
    "guided_text (ll_gram fst) (ll_hist snd) (ll_compile literal_compiler) (?rs ! 1) (grammar_matchers (base sample_state) ! slot_of (?rs ! 1)) = Some (Inr [97, 98, 99, 100], [97, 98])"
    "take (nat (min (snd (hd sample_steps) ! 1) (int (goes_on literal_follows literal_ends (Inr [97, 98, 99, 100]) [97, 98] (drafts_of (?rs ! 1))) + 1)) - 1) (drafts_of (?rs ! 1)) = [99]"
    by code_simp+
  obtain failed c1 c' where run: "on_base (build literal_api sample_batch) sample_state = Inr (failed, c1)" "draft_loop literal_api 0 sample_steps c1 = Inr c'"
    and all: "\<forall>j < length ?rs. valid_request (?rs ! j) \<longrightarrow>
          num_advanced_draft_tokens (base c') ! slot_of (?rs ! j) = 0 \<and> \<not> is_draft_terminated (base c') ! slot_of (?rs ! j)
        \<and> (if guides literal_api (ll_gram fst) (ll_hist snd) literal_follows literal_ends (?rs ! j) (grammar_matchers (base sample_state) ! slot_of (?rs ! j)) False
           then \<exists>x h. guided_text (ll_gram fst) (ll_hist snd) (ll_compile literal_compiler) (?rs ! j) (grammar_matchers (base sample_state) ! slot_of (?rs ! j)) = Some (x, h)
             \<and> slot_text (ll_gram fst) (ll_hist snd) (base c') (slot_of (?rs ! j))
               = Some (x, h @ take (nat (min (snd (hd sample_steps) ! j) (int (goes_on literal_follows literal_ends x h (drafts_of (?rs ! j))) + 1)) - 1) (drafts_of (?rs ! j)))
           else slot_text (ll_gram fst) (ll_hist snd) (base c') (slot_of (?rs ! j)) = slot_text (ll_gram fst) (ll_hist snd) (base sample_state) (slot_of (?rs ! j)))"
    using guided_iteration_keeps_accepted[OF literal.grammar_matcher_axioms h(1) zero_less_numeral order_refl h(2-4) g h(5) rs h(6-9)] unfolding rf by blast
  have "slot_text (ll_gram fst) (ll_hist snd) (base c') 2 = Some (Inr [97, 98, 99, 100], [97, 98, 99])"
    using mp[OF mp[OF spec[OF all, of 1] ev(1)] ev(2)] unfolding ev(4,5) if_True by (auto simp: ev simp del: One_nat_def)
  then show ?thesis using run by blast
qed

text \<open>
  In a batch where a request without a grammar comes first, the drafting steps misplace the rows: only the guided requests are cast to draft requests, so
  the offset still counts the draft rows of the other one, while the draft model has one row for each request. Below, the row of the guided
  request, the second of two, is written to row 3; the two rows that are copied to the device are both unmarked, so its drafts are not guided. When all requests are guided, as in the sample, the row of
  the second request is row 1.
\<close>

definition mixed_state :: "((int list \<times> int list) ll_matcher, int list, guided_params) capturable" where
  "mixed_state = sample_state\<lparr>requests_hostfunc :=
     from_scheduled_requests [] [(sample_source 4 '''' 0 True 5 [])\<lparr>gs_params := None\<rparr>, sample_source 7 ''abcd'' 2 True 98 [99, 120]] 2\<rparr>"

definition draft_rows_of :: "((int list \<times> int list) ll_matcher, int list, guided_params) capturable \<Rightarrow> bool list result" where
  \<comment> \<open>the marks of the buffer after the target step and the first drafting step\<close>
  "draft_rows_of c =
     res_bind (on_base (build literal_api (requests_hostfunc c)) c) (\<lambda>(_, c1).
     res_bind (add_draft_batch [1, 100] [1, 2] 0 c1) (\<lambda>c2.
     res_bind (execute_draft_batch literal_api 0 c2) (\<lambda>(_, c3). Inr (token_mask_host (base c3)))))"

lemma mixed_batch_rows_misplaced:
  "draft_rows_of mixed_state = Inr [False, False, False, True, False, False, True, True, True]"
  "draft_rows_of sample_state = Inr [False, True, True, False, True, True, True, True, True]"
  by code_simp+

end
