(* ===== verification/Tool_Parser.thy ===== *)
theory Tool_Parser
  imports Reasoning_Parser "HOL-Library.Sublist"
begin

text \<open>
  The parsers that find tool calls in the output of a model, \<open>serve/tool_parser\<close>: the base class \<open>BaseToolParser\<close> with its helpers
  (\<open>utils.py\<close>, \<open>core_types.py\<close>), \<open>Qwen3ToolParser\<close> and the factory, on a whole text and on a stream of pieces, and how
  the chat server calls them (\<open>serve/postprocess_handlers.py\<close>).

  The reading of incomplete JSON is a third-party library and the conversion of JSON values, with its floating-point numbers, is left
  to an argument as well: \<open>json_library\<close> has the operations, on values whose numbers have an arbitrary type. An exception that the code
  catches together with all others is \<open>None\<close>. Logging is left out.
\<close>

section \<open>JSON values and texts\<close>

datatype 'n jvalue = JNull | JBool bool | JNum 'n | JStr string | JList "'n jvalue list" | JObj "(string \<times> 'n jvalue) list"

datatype 'n partial_json =
    Parsed "'n jvalue"
  | Extra_Data \<comment> \<open>the value is complete and text follows\<close>
  | Malformed

record 'n json_library =
  loads :: "string \<Rightarrow> 'n jvalue option"
  raw_decode :: "string \<Rightarrow> nat \<Rightarrow> ('n jvalue \<times> nat) option"
  loads_partial :: "bool \<Rightarrow> string \<Rightarrow> 'n partial_json" \<comment> \<open>are incomplete strings allowed?\<close>
  dumps :: "'n jvalue \<Rightarrow> string"
  dumps_unicode :: "'n jvalue \<Rightarrow> string" \<comment> \<open>with \<open>ensure_ascii=False\<close>\<close>
  is_zero :: "'n \<Rightarrow> bool"

definition truthy :: "'n json_library \<Rightarrow> 'n jvalue \<Rightarrow> bool" where
  "truthy L v = (case v of JNull \<Rightarrow> False | JBool b \<Rightarrow> b | JNum n \<Rightarrow> \<not> is_zero L n | JStr s \<Rightarrow> s \<noteq> [] | JList vs \<Rightarrow> vs \<noteq> [] | JObj o1 \<Rightarrow> o1 \<noteq> [])"

fun find_common_prefix :: "string \<Rightarrow> string \<Rightarrow> string" where
  "find_common_prefix (x # xs) (y # ys) = (if x = y then x # find_common_prefix xs ys else [])"
| "find_common_prefix _ _ = []"

definition json_space :: "char \<Rightarrow> bool" where
  "json_space c \<longleftrightarrow> c \<in> set [CHR '' '', CHR 0x09, CHR 0x0A, CHR 0x0D]"

definition partial_json_loads :: "'n json_library \<Rightarrow> bool \<Rightarrow> string \<Rightarrow> ('n jvalue \<times> nat) option" where
  "partial_json_loads L flags s =
     (case loads_partial L flags s of
        Parsed v \<Rightarrow> Some (v, length s)
      | Extra_Data \<Rightarrow> raw_decode L s (length (takeWhile json_space s))
      | Malformed \<Rightarrow> None)"

definition is_complete_json :: "'n json_library \<Rightarrow> string \<Rightarrow> bool" where
  "is_complete_json L s \<longleftrightarrow> loads L s \<noteq> None"

definition contains :: "string \<Rightarrow> string \<Rightarrow> bool" where
  \<comment> \<open>\<open>pat in xs\<close>\<close>
  "contains pat xs \<longleftrightarrow> str_find pat xs \<noteq> None"

function remove_all :: "string \<Rightarrow> string \<Rightarrow> string" where
  \<comment> \<open>\<open>xs.replace(pat, "")\<close>\<close>
  "remove_all pat xs =
     (if pat = [] then xs
      else case str_find pat xs of None \<Rightarrow> xs | Some i \<Rightarrow> take i xs @ remove_all pat (drop (i + length pat) xs))"
  by auto
termination
proof (relation "measure (\<lambda>(pat, xs). length xs)")
  fix pat xs :: string and i assume "pat \<noteq> []" "str_find pat xs = Some i"
  then have "occurs_at pat xs i" using str_find_SomeD by blast
  then have "xs \<noteq> []" using \<open>pat \<noteq> []\<close> by (auto simp: occurs_at_def starts_with_def)
  then show "((pat, drop (i + length pat) xs), (pat, xs)) \<in> measure (\<lambda>(pat, xs). length xs)" using \<open>pat \<noteq> []\<close> by simp
qed simp

definition py_space :: "char \<Rightarrow> bool" where
  \<comment> \<open>the ASCII characters that \<open>strip\<close> removes\<close>
  "py_space c \<longleftrightarrow> c \<in> set [CHR '' '', CHR 0x09, CHR 0x0A, CHR 0x0B, CHR 0x0C, CHR 0x0D, CHR 0x1C, CHR 0x1D, CHR 0x1E, CHR 0x1F]"

definition strip :: "string \<Rightarrow> string" where
  "strip s = rev (dropWhile py_space (rev (dropWhile py_space s)))"

section \<open>Results\<close>

record tool_call_item =
  tool_index :: int
  item_name :: "string option"
  parameters :: string

record parse_result =
  normal_text :: string
  calls :: "tool_call_item list"

definition no_result :: parse_result where
  "no_result = \<lparr>normal_text = [], calls = []\<rparr>"

section \<open>The base class\<close>

record tool_tokens =
  bot_token :: string
  eot_token :: string
  tool_call_separator :: string

record 'n tool_parser =
  tp_buffer :: string
  prev_tool_call_arr :: "(string \<times> 'n jvalue) list list"
  current_tool_id :: int
  current_tool_name_sent :: bool
  streamed_args_for_tool :: "string list"
  tool_indices :: "string list option" \<comment> \<open>the names; only membership is used\<close>

definition tool_parser_init :: "'n tool_parser" where
  "tool_parser_init = \<lparr>tp_buffer = [], prev_tool_call_arr = [], current_tool_id = - 1, current_tool_name_sent = False, streamed_args_for_tool = [], tool_indices = None\<rparr>"

definition get_tool_indices :: "string list \<Rightarrow> string list" where
  "get_tool_indices tools = filter (\<lambda>n. n \<noteq> []) tools"

definition parse_base_action :: "'n json_library \<Rightarrow> string list \<Rightarrow> 'n jvalue \<Rightarrow> tool_call_item list result" where
  \<comment> \<open>one element of the list of actions\<close>
  "parse_base_action L indices act =
     (case act of
        JObj o1 \<Rightarrow>
          (case map_of o1 ''name'' of
             Some (JStr n) \<Rightarrow>
               if n \<noteq> [] \<and> n \<in> set indices then
                 Inr [\<lparr>tool_index = - 1, item_name = Some n, parameters = dumps_unicode L
                   (case map_of o1 ''parameters'' of
                      Some p \<Rightarrow> if truthy L p then p else (case map_of o1 ''arguments'' of Some a \<Rightarrow> a | None \<Rightarrow> JObj [])
                    | None \<Rightarrow> (case map_of o1 ''arguments'' of Some a \<Rightarrow> a | None \<Rightarrow> JObj []))\<rparr>]
               else Inr []
           | Some v \<Rightarrow> (case v of
               JList xs \<Rightarrow> if xs \<noteq> [] then Inl TypeError else Inr []
             | JObj xs \<Rightarrow> if xs \<noteq> [] then Inl TypeError else Inr []
             | _ \<Rightarrow> Inr [])
           | None \<Rightarrow> Inr [])
      | _ \<Rightarrow> Inl AttributeError)"

definition parse_base_json :: "'n json_library \<Rightarrow> string list \<Rightarrow> 'n jvalue \<Rightarrow> tool_call_item list result" where
  "parse_base_json L tools action =
     (let acts = (case action of JList xs \<Rightarrow> xs | _ \<Rightarrow> [action]) in
      res_bind (res_map (parse_base_action L (get_tool_indices tools)) acts) (\<lambda>rs. Inr (concat rs)))"

definition ends_with_partial_token :: "string \<Rightarrow> string \<Rightarrow> nat" where
  "ends_with_partial_token buf tok =
     (case find (\<lambda>i. starts_with (drop (length buf - i) buf) tok) [1..<min (length buf + 1) (length tok)] of Some i \<Rightarrow> i | None \<Rightarrow> 0)"

definition pad :: "nat \<Rightarrow> 'a \<Rightarrow> 'a list \<Rightarrow> 'a list" where
  \<comment> \<open>\<open>while len(xs) <= n: xs.append(x)\<close>\<close>
  "pad n x xs = xs @ replicate (Suc n - length xs) x"

definition reset_parser :: "'n tool_parser \<Rightarrow> 'n tool_parser" where
  \<comment> \<open>after a tool name that is not known\<close>
  "reset_parser st = st\<lparr>tp_buffer := [], current_tool_id := - 1, current_tool_name_sent := False, streamed_args_for_tool := butlast (streamed_args_for_tool st)\<rparr>"

definition update_prev :: "(string \<times> 'n jvalue) list \<Rightarrow> 'n tool_parser \<Rightarrow> 'n tool_parser" where
  "update_prev o1 st =
     (if current_tool_id st \<ge> 0 then st\<lparr>prev_tool_call_arr := (pad (nat (current_tool_id st)) [] (prev_tool_call_arr st))[nat (current_tool_id st) := o1]\<rparr> else st)"

definition send_name :: "string list \<Rightarrow> (string \<times> 'n jvalue) list \<Rightarrow> 'n tool_parser \<Rightarrow> parse_result \<times> 'n tool_parser" where
  "send_name indices o1 st =
     (case map_of o1 ''name'' of
        Some (JStr n) \<Rightarrow>
          if n \<noteq> [] \<and> n \<in> set indices then
            let st1 = (if current_tool_id st = - 1 then st\<lparr>current_tool_id := 0, streamed_args_for_tool := streamed_args_for_tool st @ [[]]\<rparr>
                       else st\<lparr>streamed_args_for_tool := pad (nat (current_tool_id st)) [] (streamed_args_for_tool st)\<rparr>) in
            (\<lparr>normal_text = [], calls = [\<lparr>tool_index = current_tool_id st1, item_name = Some n, parameters = []\<rparr>]\<rparr>, st1\<lparr>current_tool_name_sent := True\<rparr>)
          else (no_result, st)
      | _ \<Rightarrow> (no_result, st))"

definition argument_item :: "int \<Rightarrow> string \<Rightarrow> parse_result" where
  "argument_item i s = \<lparr>normal_text = [], calls = [\<lparr>tool_index = i, item_name = None, parameters = s\<rparr>]\<rparr>"

definition send_arguments :: "'n json_library \<Rightarrow> bool \<Rightarrow> string \<Rightarrow> (string \<times> 'n jvalue) list \<Rightarrow> 'n tool_parser \<Rightarrow> (parse_result \<times> 'n tool_parser) option" where
  \<comment> \<open>with whether the call is complete and the text behind it; \<open>None\<close> is an \<open>IndexError\<close>, and once a name was sent the index is not negative\<close>
  "send_arguments L complete rest o1 st =
     (case map_of o1 ''arguments'' of
        None \<Rightarrow> Some (no_result, st)
      | Some cur \<Rightarrow>
          if \<not> truthy L cur then Some (no_result, st)
          else if current_tool_id st < 0 \<or> nat (current_tool_id st) \<ge> length (streamed_args_for_tool st) then None
          else
            let i = nat (current_tool_id st); sent = length (streamed_args_for_tool st ! i); cur_args_json = dumps L cur;
                prev_arguments = (if i < length (prev_tool_call_arr st) then map_of (prev_tool_call_arr st ! i) ''arguments'' else None) in
            if complete then
              Some (argument_item (int i) (drop sent cur_args_json),
                st\<lparr>tp_buffer := rest, prev_tool_call_arr := (prev_tool_call_arr st)[i := []], current_tool_name_sent := False,
                   streamed_args_for_tool := (streamed_args_for_tool st)[i := []], current_tool_id := current_tool_id st + 1\<rparr>)
            else (case prev_arguments of
                None \<Rightarrow> Some (no_result, st)
              | Some prev \<Rightarrow>
                  if truthy L prev \<and> cur_args_json \<noteq> dumps L prev then
                    let diff = drop sent (find_common_prefix (dumps L prev) cur_args_json) in
                    Some (argument_item (int i) diff, st\<lparr>streamed_args_for_tool := (streamed_args_for_tool st)[i := streamed_args_for_tool st ! i @ diff]\<rparr>)
                  else Some (no_result, st)))"

definition handle_object :: "'n json_library \<Rightarrow> string list \<Rightarrow> bool \<Rightarrow> string \<Rightarrow> (string \<times> 'n jvalue) list \<Rightarrow> 'n tool_parser \<Rightarrow> parse_result \<times> 'n tool_parser" where
  \<comment> \<open>a dictionary was read\<close>
  "handle_object L indices complete rest obj st =
     (case map_of obj ''name'' of
        Some (JList _) \<Rightarrow> (no_result, st)
      | Some (JObj _) \<Rightarrow> (no_result, st)
      | name \<Rightarrow>
          if (case name of None \<Rightarrow> False | Some (JStr n) \<Rightarrow> n \<notin> set indices | Some _ \<Rightarrow> True) then (no_result, reset_parser st)
          else if map_of obj ''parameters'' \<noteq> None \<and> map_of obj ''arguments'' \<noteq> None then (no_result, st)
          else
            let o1 = (case map_of obj ''parameters'' of Some p \<Rightarrow> obj @ [(''arguments'', p)] | None \<Rightarrow> obj) in
            if o1 = [] then (no_result, st)
            else if \<not> current_tool_name_sent st then (case send_name indices o1 st of (res, st1) \<Rightarrow> (res, update_prev o1 st1))
            else (case send_arguments L complete rest o1 st of
                None \<Rightarrow> (no_result, st)
              | Some (res, st1) \<Rightarrow> (res, update_prev o1 st1)))"

definition start_idx :: "tool_tokens \<Rightarrow> 'n tool_parser \<Rightarrow> string \<Rightarrow> nat" where
  "start_idx T st xs =
     (case str_find (bot_token T) xs of
        Some p \<Rightarrow> p + length (bot_token T)
      | None \<Rightarrow> if current_tool_id st > 0 \<and> starts_with (tool_call_separator T) xs then length (tool_call_separator T) else 0)"

definition parse_streaming_increment :: "'n json_library \<Rightarrow> tool_tokens \<Rightarrow> string list \<Rightarrow> string \<Rightarrow> 'n tool_parser \<Rightarrow> parse_result \<times> 'n tool_parser" where
  "parse_streaming_increment L T tools new_text st0 =
     (let st = st0\<lparr>tp_buffer := tp_buffer st0 @ new_text\<rparr>; current_text = tp_buffer st in
      if \<not> (contains (bot_token T) current_text \<or> (current_tool_id st > 0 \<and> starts_with (tool_call_separator T) current_text)) then
        if ends_with_partial_token current_text (bot_token T) = 0 then
          (\<lparr>normal_text = (if contains (eot_token T) current_text then remove_all (eot_token T) current_text else current_text), calls = []\<rparr>, st\<lparr>tp_buffer := []\<rparr>)
        else (no_result, st)
      else
        let indices = (case tool_indices st of Some ns \<Rightarrow> ns | None \<Rightarrow> get_tool_indices tools);
            st1 = st\<lparr>tool_indices := Some indices\<rparr>; start = start_idx T st current_text in
        if start \<ge> length current_text then (no_result, st1)
        else
          (case partial_json_loads L (current_tool_name_sent st1) (drop start current_text) of
             Some (JObj obj, e) \<Rightarrow>
               handle_object L indices (is_complete_json L (take e (drop start current_text))) (drop (start + e) current_text) obj st1
           | _ \<Rightarrow> (no_result, st1)))"

section \<open>The parser of Qwen 3\<close>

definition qwen3_tokens :: tool_tokens where
  "qwen3_tokens = \<lparr>bot_token = ''<tool_call>'' @ [CHR 0x0A], eot_token = [CHR 0x0A] @ ''</tool_call>'', tool_call_separator = [CHR 0x0A]\<rparr>"

record 'n qwen3_parser =
  qwen_base :: "'n tool_parser"
  normal_text_buffer :: string

definition qwen3_init :: "'n qwen3_parser" where
  "qwen3_init = \<lparr>qwen_base = tool_parser_init, normal_text_buffer = []\<rparr>"

function find_blocks :: "string \<Rightarrow> string list" where
  \<comment> \<open>\<open>re.findall\<close> of the shortest texts between the tokens\<close>
  "find_blocks xs =
     (case str_find (bot_token qwen3_tokens) xs of
        None \<Rightarrow> []
      | Some i \<Rightarrow>
          (case str_find (eot_token qwen3_tokens) (drop (i + length (bot_token qwen3_tokens)) xs) of
             None \<Rightarrow> []
           | Some j \<Rightarrow> take j (drop (i + length (bot_token qwen3_tokens)) xs)
               # find_blocks (drop (i + length (bot_token qwen3_tokens) + j + length (eot_token qwen3_tokens)) xs)))"
  by auto
termination
proof (relation "measure length")
  fix xs i j assume "str_find (bot_token qwen3_tokens) xs = Some i"
  then have "occurs_at (bot_token qwen3_tokens) xs i" using str_find_SomeD by blast
  then have "xs \<noteq> []" by (auto simp: occurs_at_def starts_with_def qwen3_tokens_def)
  then show "(drop (i + length (bot_token qwen3_tokens) + j + length (eot_token qwen3_tokens)) xs, xs) \<in> measure length" by (simp add: qwen3_tokens_def)
qed simp

fun parse_blocks :: "'n json_library \<Rightarrow> string list \<Rightarrow> string list \<Rightarrow> tool_call_item list result" where
  "parse_blocks L tools [] = Inr []"
| "parse_blocks L tools (b # bs) =
     (case loads L (strip b) of
        None \<Rightarrow> parse_blocks L tools bs
      | Some v \<Rightarrow> res_bind (parse_base_json L tools v) (\<lambda>cs. res_bind (parse_blocks L tools bs) (\<lambda>rest. Inr (cs @ rest))))"

definition detect_and_parse :: "'n json_library \<Rightarrow> string list \<Rightarrow> string \<Rightarrow> parse_result result" where
  "detect_and_parse L tools xs =
     (case str_find (bot_token qwen3_tokens) xs of
        None \<Rightarrow> Inr \<lparr>normal_text = xs, calls = []\<rparr>
      | Some i \<Rightarrow>
          res_bind (parse_blocks L tools (find_blocks xs)) (\<lambda>cs.
            Inr \<lparr>normal_text = strip (take i xs), calls = cs\<rparr>))"

definition hold_end_token :: "string \<Rightarrow> string \<times> string" where
  \<comment> \<open>the buffered text: what is passed on and what stays in the buffer\<close>
  "hold_end_token buf =
     (let end_token = drop 1 (eot_token qwen3_tokens) in
      if contains end_token buf then (remove_all end_token buf, [])
      else case ends_with_partial_token buf end_token of
        0 \<Rightarrow> (buf, [])
      | Suc k \<Rightarrow> (take (length buf - Suc k) buf, drop (length buf - Suc k) buf))"

definition qwen3_increment :: "'n json_library \<Rightarrow> string list \<Rightarrow> string \<Rightarrow> 'n qwen3_parser \<Rightarrow> parse_result \<times> 'n qwen3_parser" where
  "qwen3_increment L tools new_text q =
     (case parse_streaming_increment L qwen3_tokens tools new_text (qwen_base q) of
        (res, st) \<Rightarrow>
          if normal_text res = [] then (res, q\<lparr>qwen_base := st\<rparr>)
          else case hold_end_token (normal_text_buffer q @ normal_text res) of
            (out, keep) \<Rightarrow> (res\<lparr>normal_text := out\<rparr>, q\<lparr>qwen_base := st, normal_text_buffer := keep\<rparr>))"

definition structure_info :: "string \<Rightarrow> string \<times> string \<times> string" where
  \<comment> \<open>begin, end and trigger\<close>
  "structure_info name = (''<tool_call>'' @ [CHR 0x0A] @ ''{\"name\":\"'' @ name @ ''\", \"arguments\":'', ''}'' @ [CHR 0x0A] @ ''</tool_call>'', ''<tool_call>'')"

datatype parser_class = Qwen3 | Qwen3_Coder | Kimi_K2 | DeepSeek_V3 | DeepSeek_V31 | DeepSeek_V32

definition create_tool_parser :: "string \<Rightarrow> parser_class result" where
  "create_tool_parser name =
     (case map_of [(''qwen3'', Qwen3), (''qwen3_coder'', Qwen3_Coder), (''kimi_k2'', Kimi_K2), (''deepseek_v3'', DeepSeek_V3),
        (''deepseek_v31'', DeepSeek_V31), (''deepseek_v32'', DeepSeek_V32)] (str_lower name) of
        Some c \<Rightarrow> Inr c
      | None \<Rightarrow> Inl ValueError)"

section \<open>The stream of a chat\<close>

fun stream_increments :: "'n json_library \<Rightarrow> string list \<Rightarrow> string list \<Rightarrow> 'n qwen3_parser \<Rightarrow> parse_result list \<times> 'n qwen3_parser" where
  \<comment> \<open>the calls of \<open>apply_tool_parser\<close> for the pieces of one output\<close>
  "stream_increments L tools [] q = ([], q)"
| "stream_increments L tools (p # ps) q =
     (case qwen3_increment L tools p q of (res, q1) \<Rightarrow> case stream_increments L tools ps q1 of (rs, q2) \<Rightarrow> (res # rs, q2))"

declare remove_all.simps [simp del] find_blocks.simps [simp del]

section \<open>Tokens at the end of a text\<close>


lemma starts_with_prefix: "starts_with p xs \<longleftrightarrow> prefix p xs"
  by (auto simp: starts_with_def prefix_def) (metis append_take_drop_id)

lemma containsI: "prefix pat ys \<Longrightarrow> contains pat (xs @ ys)"
proof -
  assume "prefix pat ys"
  then have "occurs_at pat (xs @ ys) (length xs)" by (simp add: occurs_at_def starts_with_prefix)
  then show ?thesis unfolding contains_def using str_find_None_iff by blast
qed


lemma contains_substring: "contains pat ys \<Longrightarrow> contains pat (xs @ ys @ zs)"
  unfolding contains_def by (metis str_find_substring)

lemma str_find_at_start: "str_find pat (pat @ ys) = Some 0"
  by (rule str_find_eqI) (auto simp: occurs_at_def starts_with_prefix)


lemma ends_with_partial_spec:
  "ends_with_partial_token buf tok = Suc k \<Longrightarrow> Suc k \<le> length buf \<and> strict_prefix (drop (length buf - Suc k) buf) tok"
proof -
  assume "ends_with_partial_token buf tok = Suc k"
  then have f: "find (\<lambda>i. starts_with (drop (length buf - i) buf) tok) [1..<min (length buf + 1) (length tok)] = Some (Suc k)"
    by (simp add: ends_with_partial_token_def split: option.splits)
  then have "Suc k \<in> set [1..<min (length buf + 1) (length tok)]" "starts_with (drop (length buf - Suc k) buf) tok"
    by (metis find_Some_iff nth_mem) (use f in \<open>auto simp: find_Some_iff\<close>)
  then show ?thesis by (auto simp: starts_with_prefix strict_prefix_def)
qed

section \<open>Reading one call\<close>







section \<open>Streaming one call\<close>













section \<open>Streams\<close>




definition streamed :: "parse_result list \<Rightarrow> tool_call_item list \<Rightarrow> bool" where
  \<comment> \<open>the results pass on these items and no text\<close>
  "streamed rs items \<longleftrightarrow> concat (map normal_text rs) = [] \<and> concat (map calls rs) = items"

lemma streamed_Cons: "streamed (res # rs) items \<longleftrightarrow> normal_text res = [] \<and> (\<exists>rest. items = calls res @ rest \<and> streamed rs rest)"
  by (auto simp: streamed_def)



section \<open>A library for JSON objects\<close>

text \<open>
  The part of JSON that has objects and strings without escapes, read completely and incompletely: an incomplete object has the members that were read, an
  incomplete string is the text so far when it is allowed, and an incomplete value is left out otherwise. The laws hold for the calls of this notation.
\<close>

datatype string_reading = Str_Done string string | Str_Part string | Str_Bad

fun read_chars :: "string \<Rightarrow> string \<Rightarrow> string_reading" where
  "read_chars acc [] = Str_Part (rev acc)"
| "read_chars acc (c # cs) = (if c = CHR 0x22 then Str_Done (rev acc) cs else if c = CHR 0x5C then Str_Bad else read_chars (c # acc) cs)"

datatype reading = Complete "unit jvalue" string | Incomplete "unit jvalue" | Nothing | Bad

fun skip_space :: "string \<Rightarrow> string" where
  "skip_space [] = []"
| "skip_space (c # cs) = (if json_space c then skip_space cs else c # cs)"

fun read_value :: "string \<Rightarrow> bool \<Rightarrow> string \<Rightarrow> reading" and read_members :: "string \<Rightarrow> bool \<Rightarrow> (string \<times> unit jvalue) list \<Rightarrow> string \<Rightarrow> reading" where
  \<comment> \<open>the first argument bounds the recursion; the text itself is long enough\<close>
  "read_value [] part s = Bad"
| "read_value (_ # k) part s =
     (case skip_space s of
        [] \<Rightarrow> Nothing
      | c # cs \<Rightarrow>
          if c = CHR ''{'' then read_members k part [] cs
          else if c = CHR 0x22 then (case read_chars [] cs of Str_Done t rest \<Rightarrow> Complete (JStr t) rest | Str_Part t \<Rightarrow> if part then Incomplete (JStr t) else Nothing | Str_Bad \<Rightarrow> Bad)
          else Bad)"
| "read_members [] part acc s = Bad"
| "read_members (_ # k) part acc s =
     (case skip_space s of
        [] \<Rightarrow> Incomplete (JObj acc)
      | c # cs \<Rightarrow>
          if c = CHR ''}'' \<and> acc = [] then Complete (JObj []) cs
          else if c \<noteq> CHR 0x22 then Bad
          else (case read_chars [] cs of
              Str_Bad \<Rightarrow> Bad
            | Str_Part _ \<Rightarrow> Incomplete (JObj acc)
            | Str_Done key rest \<Rightarrow>
                (case skip_space rest of
                   [] \<Rightarrow> Incomplete (JObj acc)
                 | d # ds \<Rightarrow>
                     if d \<noteq> CHR '':'' then Bad
                     else (case read_value k part ds of
                         Bad \<Rightarrow> Bad
                       | Nothing \<Rightarrow> Incomplete (JObj acc)
                       | Incomplete v \<Rightarrow> Incomplete (JObj (acc @ [(key, v)]))
                       | Complete v rest2 \<Rightarrow>
                           (case skip_space rest2 of
                              [] \<Rightarrow> Incomplete (JObj (acc @ [(key, v)]))
                            | x # xs \<Rightarrow> if x = CHR ''}'' then Complete (JObj (acc @ [(key, v)])) xs
                                else if x = CHR '','' then read_members k part (acc @ [(key, v)]) xs else Bad)))))"

fun dump_value :: "unit jvalue \<Rightarrow> string" and dump_members :: "(string \<times> unit jvalue) list \<Rightarrow> string" where
  "dump_value (JStr t) = CHR 0x22 # t @ [CHR 0x22]"
| "dump_value (JObj ms) = CHR ''{'' # dump_members ms @ ''}''"
| "dump_value _ = ''null''"
| "dump_members [] = []"
| "dump_members ((key, v) # ms) = CHR 0x22 # key @ [CHR 0x22] @ '': '' @ dump_value v @ (if ms = [] then [] else '', '' @ dump_members ms)"

definition small_json :: "unit json_library" where
  "small_json =
     \<lparr>loads = (\<lambda>s. case read_value s False s of Complete v rest \<Rightarrow> if skip_space rest = [] then Some v else None | _ \<Rightarrow> None),
      raw_decode = (\<lambda>s k. case read_value s False (drop k s) of Complete v rest \<Rightarrow> Some (v, length s - length rest) | _ \<Rightarrow> None),
      loads_partial = (\<lambda>part s. case read_value s part s of Complete v rest \<Rightarrow> if skip_space rest = [] then Parsed v else Extra_Data | Incomplete v \<Rightarrow> Parsed v | _ \<Rightarrow> Malformed),
      dumps = dump_value, dumps_unicode = dump_value, is_zero = (\<lambda>_. True)\<rparr>"

text \<open>An incomplete string is read as documented, and the name is not there before it is complete.\<close>

lemma small_json_partial:
  "partial_json_loads small_json True ''{\"name\": \"ge'' = Some (JObj [(''name'', JStr ''ge'')], 12)"
  "partial_json_loads small_json False ''{\"name\": \"ge'' = Some (JObj [], 12)"
  "partial_json_loads small_json False ''{\"name\": \"ge\", \"arg'' = Some (JObj [(''name'', JStr ''ge'')], 19)"
  by code_simp+













section \<open>Properties\<close>




text \<open>Text without tags is passed on, but for the beginning of a tag that is held back.\<close>

definition end_tag :: string where
  "end_tag = ''</tool_call>''"

definition plain_state :: "string \<Rightarrow> string \<Rightarrow> 'n qwen3_parser \<Rightarrow> bool" where
  \<comment> \<open>after the text \<open>t\<close>, of which \<open>out\<close> was passed on\<close>
  "plain_state t out q \<longleftrightarrow> out @ normal_text_buffer q @ tp_buffer (qwen_base q) = t \<and> current_tool_id (qwen_base q) = - 1
     \<and> strict_prefix (normal_text_buffer q) end_tag \<and> (tp_buffer (qwen_base q) = [] \<or> ends_with_partial_token (tp_buffer (qwen_base q)) (bot_token qwen3_tokens) \<noteq> 0)"

lemma hold_end_token_plain:
  assumes "\<not> contains end_tag buf"
  shows "\<exists>out keep. hold_end_token buf = (out, keep) \<and> out @ keep = buf \<and> strict_prefix keep end_tag"
proof -
  have et: "drop (Suc 0) (eot_token qwen3_tokens) = end_tag" by (simp add: qwen3_tokens_def end_tag_def)
  have e: "strict_prefix [] end_tag" by (simp add: end_tag_def)
  show ?thesis
  proof (cases "ends_with_partial_token buf end_tag")
    case 0
    then show ?thesis using assms e by (simp add: hold_end_token_def Let_def et)
  next
    case (Suc k)
    then show ?thesis using assms ends_with_partial_spec[OF Suc] by (simp add: hold_end_token_def Let_def et)
  qed
qed

lemma eot_has_end_tag: "contains (eot_token qwen3_tokens) xs \<Longrightarrow> contains end_tag xs"
proof -
  assume "contains (eot_token qwen3_tokens) xs"
  then obtain i where "str_find (eot_token qwen3_tokens) xs = Some i" by (auto simp: contains_def)
  then have "prefix (eot_token qwen3_tokens) (drop i xs)" using str_find_SomeD by (auto simp: occurs_at_def starts_with_prefix)
  then obtain ys where "drop i xs = [CHR 0x0A] @ end_tag @ ys" by (auto simp: prefix_def qwen3_tokens_def end_tag_def)
  then have "xs = (take i xs @ [CHR 0x0A]) @ (end_tag @ ys)" by (metis append.assoc append_take_drop_id)
  then show ?thesis using containsI[of end_tag "end_tag @ ys" "take i xs @ [CHR 0x0A]"] by simp
qed

lemma plain_step:
  assumes st: "plain_state t out q" and nb: "\<not> contains (bot_token qwen3_tokens) (t @ p)" and ne: "\<not> contains end_tag (t @ p)"
  shows "\<exists>res q'. qwen3_increment L tools p q = (res, q') \<and> calls res = [] \<and> plain_state (t @ p) (out @ normal_text res) q'"
proof -
  let ?st = "qwen_base q" and ?u = "tp_buffer (qwen_base q) @ p"
  have t: "out @ normal_text_buffer q @ tp_buffer ?st = t" and id: "current_tool_id ?st = - 1" using st by (simp_all add: plain_state_def)
  have tu: "t @ p = (out @ normal_text_buffer q) @ ?u @ []" using t by auto
  have nb1: "\<not> contains (bot_token qwen3_tokens) ?u" using nb contains_substring[of _ ?u "out @ normal_text_buffer q" "[]"] unfolding tu by blast
  have ne1: "\<not> contains end_tag ?u" using ne contains_substring[of _ ?u "out @ normal_text_buffer q" "[]"] unfolding tu by blast
  have ne2: "\<not> contains end_tag (normal_text_buffer q @ ?u)"
    using ne contains_substring[of end_tag "normal_text_buffer q @ ?u" out "[]"] t by auto
  have nt: "\<not> contains (eot_token qwen3_tokens) ?u" using ne1 eot_has_end_tag by blast
  show ?thesis
  proof (cases "ends_with_partial_token ?u (bot_token qwen3_tokens) = 0")
    case False
    have "parse_streaming_increment L qwen3_tokens tools p ?st = (no_result, ?st\<lparr>tp_buffer := ?u\<rparr>)"
      using nb1 id False by (simp add: parse_streaming_increment_def Let_def)
    then have "qwen3_increment L tools p q = (no_result, q\<lparr>qwen_base := ?st\<lparr>tp_buffer := ?u\<rparr>\<rparr>)" by (simp add: qwen3_increment_def no_result_def)
    then show ?thesis using st t False by (auto simp: plain_state_def no_result_def)
  next
    case True
    have inc: "parse_streaming_increment L qwen3_tokens tools p ?st = (\<lparr>normal_text = ?u, calls = []\<rparr>, ?st\<lparr>tp_buffer := []\<rparr>)"
      using nb1 nt id True by (simp add: parse_streaming_increment_def Let_def)
    show ?thesis
    proof (cases "?u = []")
      case e: True
      then have "qwen3_increment L tools p q = (\<lparr>normal_text = [], calls = []\<rparr>, q\<lparr>qwen_base := ?st\<lparr>tp_buffer := []\<rparr>\<rparr>)" using inc by (simp add: qwen3_increment_def)
      then show ?thesis using st e by (auto simp: plain_state_def)
    next
      case False
      obtain o1 keep where h: "hold_end_token (normal_text_buffer q @ ?u) = (o1, keep)" "o1 @ keep = normal_text_buffer q @ ?u" "strict_prefix keep end_tag"
        using hold_end_token_plain[OF ne2] by blast
      have "qwen3_increment L tools p q = (\<lparr>normal_text = o1, calls = []\<rparr>, q\<lparr>qwen_base := ?st\<lparr>tp_buffer := []\<rparr>, normal_text_buffer := keep\<rparr>)"
        unfolding qwen3_increment_def inc using h(1) False by (simp del: append_is_Nil_conv)
      moreover have "plain_state (t @ p) (out @ o1) (q\<lparr>qwen_base := ?st\<lparr>tp_buffer := []\<rparr>, normal_text_buffer := keep\<rparr>)"
        using h(2,3) id t by (simp add: plain_state_def)
      ultimately show ?thesis by auto
    qed
  qed
qed

lemma plain_run:
  assumes "plain_state t out q" "\<not> contains (bot_token qwen3_tokens) (t @ concat ps)" "\<not> contains end_tag (t @ concat ps)"
  shows "\<exists>rs q'. stream_increments L tools ps q = (rs, q') \<and> concat (map calls rs) = [] \<and> plain_state (t @ concat ps) (out @ concat (map normal_text rs)) q'"
  using assms
proof (induction ps arbitrary: t out q)
  case (Cons p ps)
  have nb: "\<not> contains (bot_token qwen3_tokens) (t @ p)" and ne: "\<not> contains end_tag (t @ p)"
    using Cons.prems(2,3) contains_substring[of _ "t @ p" "[]" "concat ps"] by auto
  obtain res q1 where s: "qwen3_increment L tools p q = (res, q1)" "calls res = []" "plain_state (t @ p) (out @ normal_text res) q1"
    using plain_step[OF Cons.prems(1) nb ne] by blast
  obtain rs q' where r: "stream_increments L tools ps q1 = (rs, q')" "concat (map calls rs) = []"
    "plain_state ((t @ p) @ concat ps) ((out @ normal_text res) @ concat (map normal_text rs)) q'"
    using Cons.IH[OF s(3)] Cons.prems(2,3) by auto
  then show ?case using s by auto
qed simp

text \<open>A text without a tag that is streamed to the Qwen 3 parser in any pieces is passed on unchanged and in order: what was passed on, followed by the two buffers, is
  the text, and the buffers hold only the beginning of an end tag and a text that ends with the beginning of a start tag. No call is made.\<close>

theorem plain_text_is_passed_on:
  assumes "\<not> contains (bot_token qwen3_tokens) (concat ps)" "\<not> contains end_tag (concat ps)"
  shows "case stream_increments L tools ps qwen3_init of (rs, q) \<Rightarrow>
     concat (map calls rs) = [] \<and> concat (map normal_text rs) @ normal_text_buffer q @ tp_buffer (qwen_base q) = concat ps
     \<and> strict_prefix (normal_text_buffer q) end_tag
     \<and> (tp_buffer (qwen_base q) = [] \<or> ends_with_partial_token (tp_buffer (qwen_base q)) (bot_token qwen3_tokens) \<noteq> 0)"
proof -
  have "plain_state [] [] qwen3_init" by (simp add: plain_state_def qwen3_init_def tool_parser_init_def end_tag_def)
  from plain_run[OF this, of ps L tools] assms show ?thesis by (auto simp: plain_state_def)
qed

theorem plain_text_is_passed_on_witness:
  "case stream_increments small_json [''f''] [''a <b'', ''> c</too'', ''ls> d <tool''] qwen3_init of (rs, q) \<Rightarrow>
     concat (map normal_text rs) @ normal_text_buffer q @ tp_buffer (qwen_base q) = ''a <b> c</tools> d <tool''"
proof -
  have "\<not> contains (bot_token qwen3_tokens) (concat [''a <b'', ''> c</too'', ''ls> d <tool''])" "\<not> contains end_tag (concat [''a <b'', ''> c</too'', ''ls> d <tool''])"
    by code_simp+
  from plain_text_is_passed_on[OF this, of small_json "[''f'']"] show ?thesis
    by (cases "stream_increments small_json [''f''] [''a <b'', ''> c</too'', ''ls> d <tool''] qwen3_init") (simp del: stream_increments.simps)
qed

section \<open>Departures\<close>

definition br :: "string \<Rightarrow> string" where
  "br s = s @ [CHR 0x0A]"

definition stream_of :: "string list \<Rightarrow> string list \<Rightarrow> string \<times> (int \<times> string option \<times> string) list" where
  \<comment> \<open>the text and the items that a stream gives\<close>
  "stream_of tools ps = (case stream_increments small_json tools ps qwen3_init of
     (rs, q) \<Rightarrow> (concat (map normal_text rs), map (\<lambda>c. (tool_index c, item_name c, parameters c)) (concat (map calls rs))))"

definition call_of :: "string \<Rightarrow> string \<Rightarrow> string" where
  "call_of f args = ''{\"name\": \"'' @ f @ ''\", \"arguments\": '' @ args @ ''}''"

text \<open>A call that comes in with the last piece is announced, but its arguments are never sent.\<close>

lemma arguments_of_last_piece_lost: "stream_of [''f''] [br ''<tool_call>'', call_of ''f'' ''{\"a\": \"b\"}'' @ br [] @ ''</tool_call>''] = ([], [(0, Some ''f'', [])])"
  by code_simp

text \<open>After a call without arguments no other call is found.\<close>

lemma call_without_arguments_blocks:
  "stream_of [''f'', ''g''] [br ''<tool_call>'', call_of ''f'' ''{}'', br [], br ''</tool_call>'', br ''<tool_call>'', call_of ''g'' ''{\"a\": \"b\"}'', br [], ''</tool_call>'']
     = ([], [(0, Some ''f'', [])])"
  by code_simp

text \<open>A call of an unknown tool resets the numbering: the call after it has the index of the first call again.\<close>

lemma unknown_tool_restarts_indices:
  "stream_of [''f'', ''g''] [br ''<tool_call>'', call_of ''f'' ''{\"a\": \"b\"}'', br [], br ''</tool_call>'', br ''<tool_call>'', call_of ''h'' ''{\"a\": \"b\"}'', br [], br ''</tool_call>'',
     br ''<tool_call>'', call_of ''g'' ''{\"a\": \"c\"}'', br [], ''</tool_call>'']
   = (br (br (br [])), [(0, Some ''f'', []), (0, None, ''{\"a\": \"b\"}''), (0, Some ''g'', []), (0, None, ''{\"a\": \"c\"}'')])"
  by code_simp

text \<open>Text in the same piece before a tag, and all text after a call, is lost.\<close>

lemma text_around_calls_lost:
  "stream_of [''f''] [br ''Hi <tool_call>'', ''{\"name\": \"f\", \"arguments\": {\"a\": \"b'', ''\"}}'', br [] @ br ''</tool_call>'', ''Done''] = ([], [(0, Some ''f'', []), (0, None, ''{\"a\": \"b\"}'')])"
  by code_simp

text \<open>A block that is not an object raises in the parsing of the whole text.\<close>

lemma block_not_object_raises:
  "loads L (strip b) = Some (JStr s) \<Longrightarrow> parse_blocks L tools (b # bs) = Inl AttributeError"
  by (simp add: parse_base_json_def parse_base_action_def)

section \<open>A whole text\<close>

lemma str_find_front_unique:
  \<comment> \<open>a token whose first character occurs only once in it cannot begin inside of text that does not contain it\<close>
  assumes "pat = c # cs" "c \<notin> set cs" "\<not> contains pat xs"
  shows "str_find pat (xs @ pat @ ys) = Some (length xs)"
proof -
  have "\<not> occurs_at pat (xs @ pat @ ys) j" if j: "j < length xs" for j
  proof
    assume o: "occurs_at pat (xs @ pat @ ys) j"
    have "\<not> j + length pat \<le> length xs" using o occurs_at_prefix[of pat xs "pat @ ys" j] assms(3) by (auto simp: contains_def str_find_None_iff)
    then have k: "length xs - j < length pat" using j by linarith
    have "take (length pat) (drop j (xs @ pat @ ys)) = pat" using o by (auto simp: occurs_at_def starts_with_def)
    then have "pat ! (length xs - j) = take (length pat) (drop j (xs @ pat @ ys)) ! (length xs - j)" by simp
    also have "\<dots> = (xs @ pat @ ys) ! length xs" using k j by (simp only: nth_take nth_drop length_append le_add_diff_inverse less_imp_le trans_le_add1)
    finally have "pat ! (length xs - j) = (xs @ pat @ ys) ! length xs" .
    then have "cs ! (length xs - j - 1) = c" using assms(1) j by (simp add: nth_append nth_Cons')
    moreover have "length xs - j - 1 < length cs" using k assms(1) j by auto
    ultimately show False using assms(2) nth_mem by blast
  qed
  then have "str_find pat (xs @ pat @ ys) = map_option ((+) (length xs)) (str_find pat (pat @ ys))" by (rule str_find_skip)
  then show ?thesis by (simp add: str_find_at_start)
qed

lemma find_bot: "\<not> contains (bot_token qwen3_tokens) xs \<Longrightarrow> str_find (bot_token qwen3_tokens) (xs @ bot_token qwen3_tokens @ ys) = Some (length xs)"
  by (rule str_find_front_unique[of _ "CHR ''<''" "''tool_call>'' @ [CHR 0x0A]"]) (simp_all add: qwen3_tokens_def)

lemma find_eot: "\<not> contains (eot_token qwen3_tokens) xs \<Longrightarrow> str_find (eot_token qwen3_tokens) (xs @ eot_token qwen3_tokens @ ys) = Some (length xs)"
  by (rule str_find_front_unique[of _ "CHR 0x0A" "''</tool_call>''"]) (simp_all add: qwen3_tokens_def)

definition block_text :: "string \<times> string \<Rightarrow> string" where
  \<comment> \<open>a text and the block after it\<close>
  "block_text p = fst p @ bot_token qwen3_tokens @ snd p @ eot_token qwen3_tokens"

lemma find_blocks_of_text:
  assumes "list_all (\<lambda>(t, b). \<not> contains (bot_token qwen3_tokens) t \<and> \<not> contains (eot_token qwen3_tokens) b) items" "\<not> contains (bot_token qwen3_tokens) rest"
  shows "find_blocks (concat (map block_text items) @ rest) = map snd items"
  using assms(1)
proof (induction items)
  case Nil
  then show ?case using assms(2) by (subst find_blocks.simps) (simp add: contains_def)
next
  case (Cons p items)
  obtain t b where p: "p = (t, b)" by (cases p)
  let ?B = "bot_token qwen3_tokens" and ?E = "eot_token qwen3_tokens" and ?r = "concat (map block_text items) @ rest"
  have n: "\<not> contains ?B t" "\<not> contains ?E b" using Cons.prems p by simp_all
  have x: "concat (map block_text (p # items)) @ rest = t @ ?B @ b @ ?E @ ?r" by (simp add: p block_text_def)
  have 1: "str_find ?B (t @ ?B @ b @ ?E @ ?r) = Some (length t)" by (rule find_bot[OF n(1)])
  have 2: "drop (length t + length ?B) (t @ ?B @ b @ ?E @ ?r) = b @ ?E @ ?r" by simp
  have 3: "str_find ?E (b @ ?E @ ?r) = Some (length b)" by (rule find_eot[OF n(2)])
  have 4: "drop (length t + length ?B + length b + length ?E) (t @ ?B @ b @ ?E @ ?r) = ?r" by simp
  have "find_blocks (t @ ?B @ b @ ?E @ ?r) = take (length b) (b @ ?E @ ?r) # find_blocks ?r"
    by (subst find_blocks.simps) (simp only: 1 2 3 4 option.case)
  also have "\<dots> = map snd (p # items)" using Cons by (simp add: p)
  finally show ?case by (simp only: x)
qed

definition call_found :: "'n json_library \<Rightarrow> string list \<Rightarrow> string \<Rightarrow> tool_call_item list" where
  \<comment> \<open>what a block contributes: a call when it is the JSON text of one call of a known tool, otherwise nothing\<close>
  "call_found L tools b =
     (case loads L (strip b) of
        Some (JObj o1) \<Rightarrow> (case map_of o1 ''name'' of
           Some (JStr n) \<Rightarrow> if n \<noteq> [] \<and> n \<in> set tools
             then [\<lparr>tool_index = - 1, item_name = Some n, parameters = dumps_unicode L (case map_of o1 ''arguments'' of Some a \<Rightarrow> a | None \<Rightarrow> JObj [])\<rparr>] else []
         | _ \<Rightarrow> [])
      | _ \<Rightarrow> [])"

definition call_block :: "'n json_library \<Rightarrow> string \<Rightarrow> bool" where
  \<comment> \<open>not JSON, or an object with at most a string as the name and no \<open>parameters\<close>\<close>
  "call_block L b \<longleftrightarrow>
     (case loads L (strip b) of
        None \<Rightarrow> True
      | Some (JObj o1) \<Rightarrow> map_of o1 ''parameters'' = None \<and> (case map_of o1 ''name'' of None \<Rightarrow> True | Some (JStr n) \<Rightarrow> True | _ \<Rightarrow> False)
      | _ \<Rightarrow> False)"

lemma parse_base_json_call:
  assumes "call_block L b" "loads L (strip b) = Some v"
  shows "parse_base_json L tools v = Inr (call_found L tools b)"
proof -
  obtain o1 where v: "v = JObj o1" and p: "map_of o1 ''parameters'' = None" and n: "case map_of o1 ''name'' of None \<Rightarrow> True | Some (JStr n) \<Rightarrow> True | _ \<Rightarrow> False"
    using assms by (auto simp: call_block_def split: jvalue.splits)
  consider "map_of o1 ''name'' = None" | n where "map_of o1 ''name'' = Some (JStr n)" using n by (auto split: option.splits jvalue.splits)
  then show ?thesis by cases (auto simp: parse_base_json_def parse_base_action_def get_tool_indices_def call_found_def assms(2) v p)
qed

lemma parse_blocks_calls: "list_all (call_block L) bs \<Longrightarrow> parse_blocks L tools bs = Inr (concat (map (call_found L tools) bs))"
proof (induction bs)
  case (Cons b bs)
  then show ?case using parse_base_json_call[of L b _ tools] by (cases "loads L (strip b)") (simp_all add: call_found_def)
qed simp

lemma parse_blocks_each:
  "parse_blocks L tools bs = res_bind (res_map (\<lambda>b. case loads L (strip b) of None \<Rightarrow> Inr [] | Some v \<Rightarrow> parse_base_json L tools v) bs) (\<lambda>cs. Inr (concat cs))"
proof (induction bs)
  case (Cons b bs)
  show ?case unfolding parse_blocks.simps res_map.simps Cons.IH by (cases "loads L (strip b)") (auto simp: res_bind_def split: sum.splits)
qed simp

text \<open>C37: parsing a whole output with the Qwen 3 parser: any texts with a closed block between tags after each, where no text (nor the one behind the last block) contains the start tag and
  no block the end tag. The normal text is the text before the first block, stripped, and the calls are, in order, what \<open>parse_base_json\<close> makes of the blocks that are JSON; blocks that are not JSON are
  left out, and the first block that raises (such as one that is not an object or a list of objects) makes the whole parse raise. When all blocks are either not JSON or objects without \<open>parameters\<close> whose name, if
  there is one, is a string, nothing is raised and the calls are those of the blocks that name a known tool, with their arguments.\<close>

theorem whole_text_gives_calls:
  assumes "list_all (\<lambda>(t, b). \<not> contains (bot_token qwen3_tokens) t \<and> \<not> contains (eot_token qwen3_tokens) b) ((t0, b0) # items)"
    and "\<not> contains (bot_token qwen3_tokens) rest"
  defines "xs \<equiv> concat (map block_text ((t0, b0) # items)) @ rest" and "blocks \<equiv> b0 # map snd items"
  shows "detect_and_parse L tools xs
       = res_bind (res_map (\<lambda>b. case loads L (strip b) of None \<Rightarrow> Inr [] | Some v \<Rightarrow> parse_base_json L tools v) blocks) (\<lambda>cs. Inr \<lparr>normal_text = strip t0, calls = concat cs\<rparr>)
     \<and> (list_all (call_block L) blocks \<longrightarrow> detect_and_parse L tools xs = Inr \<lparr>normal_text = strip t0, calls = concat (map (call_found L tools) blocks)\<rparr>)"
proof -
  have f: "find_blocks xs = blocks" unfolding xs_def blocks_def using find_blocks_of_text[OF assms(1,2)] by simp
  have "xs = t0 @ bot_token qwen3_tokens @ (b0 @ eot_token qwen3_tokens @ concat (map block_text items) @ rest)" by (simp add: xs_def block_text_def)
  then have "str_find (bot_token qwen3_tokens) xs = Some (length t0)" "take (length t0) xs = t0" using find_bot[of t0] assms(1) by simp_all
  then have d: "detect_and_parse L tools xs = res_bind (parse_blocks L tools blocks) (\<lambda>cs. Inr \<lparr>normal_text = strip t0, calls = cs\<rparr>)"
    by (simp only: detect_and_parse_def f option.case)
  show ?thesis
  proof (intro conjI impI)
    show "detect_and_parse L tools xs
       = res_bind (res_map (\<lambda>b. case loads L (strip b) of None \<Rightarrow> Inr [] | Some v \<Rightarrow> parse_base_json L tools v) blocks) (\<lambda>cs. Inr \<lparr>normal_text = strip t0, calls = concat cs\<rparr>)"
      unfolding d parse_blocks_each by (auto simp: res_bind_def split: sum.splits)
    show "detect_and_parse L tools xs = Inr \<lparr>normal_text = strip t0, calls = concat (map (call_found L tools) blocks)\<rparr>" if "list_all (call_block L) blocks"
      unfolding d parse_blocks_calls[OF that] by simp
  qed
qed

theorem whole_text_gives_calls_witness:
  "detect_and_parse small_json [''f'', ''g''] (concat (map block_text [('' Hi '', call_of ''f'' ''{\"a\": \"b\"}''), ('' and '', ''x''), (''.'', call_of ''h'' ''{}''), ([], br (call_of ''g'' ''{}''))]) @ ''end'')
     = Inr \<lparr>normal_text = ''Hi'', calls = [\<lparr>tool_index = - 1, item_name = Some ''f'', parameters = ''{\"a\": \"b\"}''\<rparr>, \<lparr>tool_index = - 1, item_name = Some ''g'', parameters = ''{}''\<rparr>]\<rparr>"
proof -
  let ?items = "[('' and '', ''x''), (''.'', call_of ''h'' ''{}''), ([], br (call_of ''g'' ''{}''))]"
  let ?blocks = "call_of ''f'' ''{\"a\": \"b\"}'' # map snd ?items"
  have 1: "list_all (\<lambda>(t, b). \<not> contains (bot_token qwen3_tokens) t \<and> \<not> contains (eot_token qwen3_tokens) b) (('' Hi '', call_of ''f'' ''{\"a\": \"b\"}'') # ?items)" by code_simp
  have 2: "\<not> contains (bot_token qwen3_tokens) ''end''" "list_all (call_block small_json) ?blocks" by code_simp+
  have 3: "strip '' Hi '' = ''Hi''" by code_simp
  have 4: "concat (map (call_found small_json [''f'', ''g'']) ?blocks)
     = [\<lparr>tool_index = - 1, item_name = Some ''f'', parameters = ''{\"a\": \"b\"}''\<rparr>, \<lparr>tool_index = - 1, item_name = Some ''g'', parameters = ''{}''\<rparr>]" by code_simp
  show ?thesis using mp[OF conjunct2[OF whole_text_gives_calls[OF 1 2(1), of small_json "[''f'', ''g'']"]] 2(2)] by (simp only: 3 4)
qed

text \<open>The text that constrained generation makes for a call is such a block.\<close>

lemma structure_info_block:
  "structure_info f = (b, e, trigger) \<Longrightarrow> b @ args @ e = block_text ([], ''{\"name\":\"'' @ f @ ''\", \"arguments\":'' @ args @ ''}'')"
  by (auto simp: structure_info_def block_text_def qwen3_tokens_def)

end
