(* ===== verification/Deepseek_Parser.thy ===== *)
theory Deepseek_Parser
  imports Tool_Parser
begin

text \<open>
  The tool parser of DeepSeek V3.2, \<open>serve/tool_parser/deepseekv32_parser.py\<close>, on a whole text and on a stream of pieces.

  The tags of this format contain the character U+FF5C. The code only compares characters, so one value of \<open>char\<close>, \<open>bar\<close>, stands for it;
  the texts are those over ASCII and this character. A regular expression is a function that matches it at the beginning of
  a text and returns its groups and the text behind the match. None of the expressions needs to go back: what follows a repetition cannot continue it.
\<close>

section \<open>Regular expressions\<close>

fun re_search :: "(string \<Rightarrow> 'a option) \<Rightarrow> string \<Rightarrow> 'a option" where
  \<comment> \<open>\<open>re.search\<close>: the match that begins first\<close>
  "re_search m [] = m []"
| "re_search m (x # xs) = (case m (x # xs) of Some a \<Rightarrow> Some a | None \<Rightarrow> re_search m xs)"

function re_findall :: "(string \<Rightarrow> ('a \<times> string) option) \<Rightarrow> string \<Rightarrow> 'a list" where
  \<comment> \<open>\<open>re.findall\<close> of an expression that does not match the empty text\<close>
  "re_findall m xs =
     (case re_search m xs of
        Some (a, rest) \<Rightarrow> if length rest < length xs then a # re_findall m rest else [a]
      | None \<Rightarrow> [])"
  by auto
termination
  by (relation "measure (\<lambda>(m, xs). length xs)") auto

declare re_findall.simps [simp del]

definition match_attribute :: "string \<Rightarrow> string \<Rightarrow> (string \<times> string) option" where
  \<comment> \<open>\<open>\s+key="([^"]+)"\<close>\<close>
  "match_attribute key xs =
     (let ys = dropWhile py_space xs; zs = drop (length key + 2) ys in
      if ys = xs \<or> \<not> starts_with (key @ ''=\"'') ys \<or> takeWhile (\<lambda>c. c \<noteq> CHR 0x22) zs = [] \<or> dropWhile (\<lambda>c. c \<noteq> CHR 0x22) zs = [] then None
      else Some (takeWhile (\<lambda>c. c \<noteq> CHR 0x22) zs, tl (dropWhile (\<lambda>c. c \<noteq> CHR 0x22) zs)))"

definition match_close :: "string \<Rightarrow> string option" where
  \<comment> \<open>\<open>\s*>\<close>\<close>
  "match_close xs = (if starts_with ''>'' (dropWhile py_space xs) then Some (drop 1 (dropWhile py_space xs)) else None)"

section \<open>The parser\<close>

definition bar :: char where "bar = CHR 0xFC"

definition dsml :: "string \<Rightarrow> string" where "dsml s = [bar] @ ''DSML'' @ [bar] @ s"

definition v32_bot :: string where "v32_bot = ''<'' @ dsml ''function_calls>''"
definition v32_eot :: string where "v32_eot = ''</'' @ dsml ''function_calls>''"
definition invoke_begin :: string where "invoke_begin = ''<'' @ dsml ''invoke''"
definition invoke_end :: string where "invoke_end = ''</'' @ dsml ''invoke>''"
definition parameter_begin :: string where "parameter_begin = ''<'' @ dsml ''parameter''"
definition parameter_end :: string where "parameter_end = ''</'' @ dsml ''parameter>''"

record 'n deepseek_parser =
  ds_base :: "'n tool_parser"
  last_arguments :: string

definition deepseek_init :: "'n deepseek_parser" where
  "deepseek_init = \<lparr>ds_base = tool_parser_init, last_arguments = []\<rparr>"

definition match_parameter :: "string \<Rightarrow> ((string \<times> string \<times> string) \<times> string) option" where
  \<comment> \<open>\<open>parameter_regex\<close>: the name, the type and the value\<close>
  "match_parameter xs =
     (if \<not> starts_with parameter_begin xs then None
      else case match_attribute ''name'' (drop (length parameter_begin) xs) of None \<Rightarrow> None | Some (name, r1) \<Rightarrow>
        (case match_attribute ''string'' r1 of None \<Rightarrow> None | Some (ty, r2) \<Rightarrow>
        (case match_close r2 of None \<Rightarrow> None | Some r3 \<Rightarrow>
        (case str_find parameter_end r3 of None \<Rightarrow> None | Some j \<Rightarrow> Some ((name, ty, take j r3), drop (j + length parameter_end) r3)))))"

definition xml_value :: "'n json_library \<Rightarrow> string \<Rightarrow> string \<Rightarrow> 'n jvalue" where
  "xml_value L ty v =
     (if ty = ''true'' then JStr (strip v)
      else case loads L (strip v) of Some j \<Rightarrow> j | None \<Rightarrow> JStr (strip v))"

definition parse_parameters_from_xml :: "'n json_library \<Rightarrow> string \<Rightarrow> (string \<times> 'n jvalue) list" where
  "parse_parameters_from_xml L xs =
     (let s = strip xs in
      case (if starts_with ''{'' s \<and> last s = CHR ''}'' then loads L s else None) of
        Some (JObj o1) \<Rightarrow> o1
      | _ \<Rightarrow> fold (\<lambda>(name, ty, v). AList.update name (xml_value L ty v)) (re_findall match_parameter xs) [])"

definition match_invoke_head :: "string \<Rightarrow> (string \<times> string) option" where
  \<comment> \<open>\<open>invoke_begin_regex\<close>\<close>
  "match_invoke_head xs =
     (if \<not> starts_with invoke_begin xs then None
      else case match_attribute ''name'' (drop (length invoke_begin) xs) of None \<Rightarrow> None | Some (name, r1) \<Rightarrow>
        (case match_close r1 of None \<Rightarrow> None | Some r2 \<Rightarrow> Some (name, r2)))"

definition match_invoke :: "string \<Rightarrow> ((string \<times> string) \<times> string) option" where
  \<comment> \<open>\<open>invoke_pattern\<close>: the name and the content\<close>
  "match_invoke xs =
     (case match_invoke_head xs of None \<Rightarrow> None | Some (name, r) \<Rightarrow>
        (case str_find invoke_end r of None \<Rightarrow> None | Some j \<Rightarrow> Some ((name, take j r), drop (j + length invoke_end) r)))"

definition function_calls_content :: "string \<Rightarrow> string option" where
  \<comment> \<open>what is between the tags of the first section\<close>
  "function_calls_content xs =
     (case str_find v32_bot xs of None \<Rightarrow> None | Some i \<Rightarrow>
        let r = drop (i + length v32_bot) xs in map_option (\<lambda>j. take j r) (str_find v32_eot r))"

fun v32_calls :: "'n json_library \<Rightarrow> string list \<Rightarrow> (string \<times> string) list \<Rightarrow> tool_call_item list result" where
  "v32_calls L tools [] = Inr []"
| "v32_calls L tools ((f, c) # ms) =
     res_bind (parse_base_json L tools (JObj [(''name'', JStr f), (''parameters'', JObj (parse_parameters_from_xml L c))]))
       (\<lambda>cs. res_bind (v32_calls L tools ms) (\<lambda>rest. Inr (cs @ rest)))"

definition v32_detect_and_parse :: "'n json_library \<Rightarrow> string list \<Rightarrow> string \<Rightarrow> parse_result" where
  "v32_detect_and_parse L tools xs =
     (case str_find v32_bot xs of
        None \<Rightarrow> \<lparr>normal_text = xs, calls = []\<rparr>
      | Some i \<Rightarrow>
          (case function_calls_content xs of
             None \<Rightarrow> \<lparr>normal_text = strip (take i xs), calls = []\<rparr>
           | Some body \<Rightarrow>
               (case v32_calls L tools (re_findall match_invoke body) of
                  Inr cs \<Rightarrow> \<lparr>normal_text = strip (take i xs), calls = cs\<rparr>
                | Inl _ \<Rightarrow> \<lparr>normal_text = xs, calls = []\<rparr>)))"

section \<open>Streaming\<close>

definition ends_with :: "string \<Rightarrow> string \<Rightarrow> bool" where
  "ends_with suf xs \<longleftrightarrow> starts_with (rev suf) (rev xs)"

definition rstrip :: "string \<Rightarrow> string" where
  "rstrip s = rev (dropWhile py_space (rev s))"

definition v32_no_dsml :: "string \<Rightarrow> bool" where
  \<comment> \<open>the buffer is passed on\<close>
  "v32_no_dsml xs \<longleftrightarrow>
     \<not> (contains v32_bot xs \<or> contains invoke_begin xs)
     \<and> \<not> list_ex (\<lambda>m. contains m xs) [dsml [], ''<'' @ [bar], ''</'' @ [bar]]
     \<and> \<not> list_ex (\<lambda>p. ends_with p (rstrip xs)) [''<'', ''<'' @ [bar], ''</'', ''</'' @ [bar]]"

definition first_call :: "'n tool_parser \<Rightarrow> 'n tool_parser" where
  "first_call st = (if current_tool_id st = - 1 then st\<lparr>current_tool_id := 0, prev_tool_call_arr := [], streamed_args_for_tool := [[]]\<rparr> else st)"

definition v32_complete :: "'n json_library \<Rightarrow> string \<Rightarrow> string \<Rightarrow> string \<Rightarrow> 'n deepseek_parser \<Rightarrow> tool_call_item list \<times> 'n deepseek_parser" where
  \<comment> \<open>the call \<open>f\<close> with the content \<open>c\<close> is complete, \<open>rest\<close> is behind it\<close>
  "v32_complete L f c rest q =
     (let st = ds_base q; params = parse_parameters_from_xml L c; args = dumps_unicode L (JObj params); i = nat (current_tool_id st) in
      ([\<lparr>tool_index = current_tool_id st, item_name = Some f, parameters = []\<rparr>, \<lparr>tool_index = current_tool_id st, item_name = None, parameters = args\<rparr>],
       q\<lparr>ds_base := st\<lparr>tp_buffer := rest,
            prev_tool_call_arr := (pad i [] (prev_tool_call_arr st))[i := [(''name'', JStr f), (''arguments'', JObj params)]],
            streamed_args_for_tool := (pad i [] (streamed_args_for_tool st))[i := args],
            current_tool_id := current_tool_id st + 1, current_tool_name_sent := False\<rparr>,
         last_arguments := []\<rparr>))"

lemma re_search_suffix: "re_search m xs = Some a \<Longrightarrow> \<exists>ys zs. xs = ys @ zs \<and> m zs = Some a \<and> (\<forall>i < length ys. m (drop i xs) = None)"
proof (induction xs)
  case (Cons x xs)
  show ?case
  proof (cases "m (x # xs)")
    case None
    then obtain ys zs where h: "xs = ys @ zs" "m zs = Some a" "\<forall>i < length ys. m (drop i xs) = None" using Cons by auto
    have "\<forall>i < length (x # ys). m (drop i (x # xs)) = None" using None h(3) by (auto simp: drop_Cons split: nat.splits)
    then show ?thesis using h by (intro exI[of _ "x # ys"] exI[of _ zs]) simp
  next
    case (Some b)
    then show ?thesis using Cons.prems by (intro exI[of _ "[]"] exI[of _ "x # xs"]) simp
  qed
qed auto

lemma match_attribute_iff:
  assumes "\<not> py_space (hd (key @ ''=''))"
  shows "match_attribute key xs = Some (v, r) \<longleftrightarrow>
    (\<exists>ws. xs = ws @ key @ ''=\"'' @ v @ CHR 0x22 # r \<and> ws \<noteq> [] \<and> list_all py_space ws \<and> v \<noteq> [] \<and> CHR 0x22 \<notin> set v)" (is "?L \<longleftrightarrow> ?R")
proof
  let ?q = "\<lambda>c. c \<noteq> CHR 0x22" and ?ys = "dropWhile py_space xs"
  let ?zs = "drop (length key + 2) ?ys"
  assume ?L
  then have h: "?ys \<noteq> xs" "starts_with (key @ ''=\"'') ?ys" "v = takeWhile ?q ?zs" "v \<noteq> []" "dropWhile ?q ?zs \<noteq> []" "r = tl (dropWhile ?q ?zs)"
    by (auto simp: match_attribute_def Let_def simp del: dropWhile_eq_Nil_conv split: if_splits)
  have "take (length key + 2) ?ys = key @ ''=\"''" using h(2) by (simp add: starts_with_def)
  then have y: "?ys = key @ ''=\"'' @ ?zs" by (metis append_take_drop_id append.assoc)
  have "hd (dropWhile ?q ?zs) = CHR 0x22" using hd_dropWhile[OF h(5)] by simp
  then have "?zs = v @ CHR 0x22 # r" using h(3,5,6) by (metis list.collapse takeWhile_dropWhile_id)
  then have "xs = takeWhile py_space xs @ key @ ''=\"'' @ v @ CHR 0x22 # r" using y by (metis takeWhile_dropWhile_id)
  moreover have "takeWhile py_space xs \<noteq> []" using h(1) by (metis append_Nil takeWhile_dropWhile_id)
  moreover have "list_all py_space (takeWhile py_space xs)" by (auto simp: list_all_iff dest: set_takeWhileD)
  moreover have "CHR 0x22 \<notin> set v" using h(3) by (auto dest: set_takeWhileD)
  ultimately show ?R using h(4) by blast
next
  assume ?R
  then obtain ws where w: "xs = ws @ key @ ''=\"'' @ v @ CHR 0x22 # r" "ws \<noteq> []" "list_all py_space ws" "v \<noteq> []" "CHR 0x22 \<notin> set v" by blast
  have y: "dropWhile py_space xs = key @ ''=\"'' @ v @ CHR 0x22 # r"
  proof (cases key)
    case Nil
    then show ?thesis using w(1,3) assms by (simp add: dropWhile_append list_all_iff)
  next
    case (Cons k ks)
    then show ?thesis using w(1,3) assms by (simp add: dropWhile_append list_all_iff)
  qed
  have "takeWhile (\<lambda>c. c \<noteq> CHR 0x22) (v @ CHR 0x22 # r) = v" "dropWhile (\<lambda>c. c \<noteq> CHR 0x22) (v @ CHR 0x22 # r) = CHR 0x22 # r"
    using w(5) by (auto simp: takeWhile_append dropWhile_append)
  then show ?L using w(1,2,4) unfolding match_attribute_def y Let_def by (simp add: starts_with_def)
qed

lemma match_close_iff: "match_close xs = Some r \<longleftrightarrow> (\<exists>ws. xs = ws @ CHR ''>'' # r \<and> list_all py_space ws)"
proof
  assume "match_close xs = Some r"
  then have "dropWhile py_space xs = CHR ''>'' # r" by (cases "dropWhile py_space xs") (auto simp: match_close_def starts_with_def split: if_splits)
  then show "\<exists>ws. xs = ws @ CHR ''>'' # r \<and> list_all py_space ws"
    by (intro exI[of _ "takeWhile py_space xs"]) (metis list_all_iff set_takeWhileD takeWhile_dropWhile_id)
next
  assume "\<exists>ws. xs = ws @ CHR ''>'' # r \<and> list_all py_space ws"
  then obtain ws where "xs = ws @ CHR ''>'' # r" "list_all py_space ws" by blast
  then have "dropWhile py_space xs = CHR ''>'' # r" by (simp add: dropWhile_append list_all_iff) (simp add: py_space_def)
  then show "match_close xs = Some r" by (simp add: match_close_def starts_with_def)
qed

lemma match_invoke_head_iff:
  "match_invoke_head xs = Some (f, r) \<longleftrightarrow>
    (\<exists>ws ws'. xs = invoke_begin @ ws @ ''name=\"'' @ f @ CHR 0x22 # ws' @ CHR ''>'' # r \<and> ws \<noteq> [] \<and> list_all py_space ws
       \<and> f \<noteq> [] \<and> CHR 0x22 \<notin> set f \<and> list_all py_space ws')"
proof -
  have n: "\<not> py_space (hd (''name'' @ ''=''))" by (simp add: py_space_def)
  have "match_invoke_head xs = Some (f, r) \<longleftrightarrow>
    (\<exists>ys r1. xs = invoke_begin @ ys \<and> match_attribute ''name'' ys = Some (f, r1) \<and> match_close r1 = Some r)"
    unfolding match_invoke_head_def starts_with_prefix by (auto simp: prefix_def split: option.splits)
  then show ?thesis unfolding match_attribute_iff[OF n] match_close_iff by auto
qed

lemma match_invoke_head_shorter: "match_invoke_head xs = Some (f, r) \<Longrightarrow> length r < length xs"
  by (auto simp: match_invoke_head_iff)

lemma re_search_invoke_shorter: "re_search match_invoke_head xs = Some (f, r) \<Longrightarrow> length r < length xs"
  by (drule re_search_suffix) (auto dest: match_invoke_head_shorter)

function v32_loop :: "'n json_library \<Rightarrow> string \<Rightarrow> 'n deepseek_parser \<Rightarrow> tool_call_item list \<times> 'n deepseek_parser" where
  \<comment> \<open>the loop on \<open>current_text\<close>\<close>
  "v32_loop L xs q =
     (case re_search match_invoke_head xs of
        None \<Rightarrow> ([], q)
      | Some (name, r) \<Rightarrow>
          let q1 = q\<lparr>ds_base := first_call (ds_base q)\<rparr> in
          (case str_find invoke_end r of
             None \<Rightarrow> ([], q1)
           | Some j \<Rightarrow>
               (case v32_complete L (strip name) (take j r) (drop (j + length invoke_end) r) q1 of (cs, q2) \<Rightarrow>
                (case v32_loop L (drop (j + length invoke_end) r) q2 of (cs', q3) \<Rightarrow> (cs @ cs', q3)))))"
  by pat_completeness auto
termination
  by (relation "measure (\<lambda>(L, xs, q). length xs)") (auto dest!: re_search_invoke_shorter)

definition v32_increment :: "'n json_library \<Rightarrow> string list \<Rightarrow> string \<Rightarrow> 'n deepseek_parser \<Rightarrow> parse_result \<times> 'n deepseek_parser" where
  "v32_increment L tools new_text q0 =
     (let st = (ds_base q0)\<lparr>tp_buffer := tp_buffer (ds_base q0) @ new_text\<rparr> in
      if v32_no_dsml (tp_buffer st) then
        (\<lparr>normal_text = remove_all invoke_end (remove_all v32_eot new_text), calls = []\<rparr>, q0\<lparr>ds_base := st\<lparr>tp_buffer := []\<rparr>\<rparr>)
      else
        let indices = (case tool_indices st of Some ns \<Rightarrow> ns | None \<Rightarrow> get_tool_indices tools) in
        (case v32_loop L (tp_buffer st) (q0\<lparr>ds_base := st\<lparr>tool_indices := Some indices\<rparr>\<rparr>) of
           (cs, q) \<Rightarrow> (\<lparr>normal_text = [], calls = cs\<rparr>, q)))"

fun v32_stream :: "'n json_library \<Rightarrow> string list \<Rightarrow> string list \<Rightarrow> 'n deepseek_parser \<Rightarrow> parse_result list \<times> 'n deepseek_parser" where
  "v32_stream L tools [] q = ([], q)"
| "v32_stream L tools (p # ps) q =
     (case v32_increment L tools p q of (res, q1) \<Rightarrow> case v32_stream L tools ps q1 of (rs, q2) \<Rightarrow> (res # rs, q2))"

definition v32_structure_info :: "string \<Rightarrow> string \<times> string \<times> string" where
  "v32_structure_info name = (''<'' @ dsml ''invoke name=\"'' @ name @ ''\">'', invoke_end, ''<'' @ dsml ''invoke name=\"'' @ name @ ''\">'')"

section \<open>Searching for calls\<close>

lemma re_search_eqI: "m zs = Some a \<Longrightarrow> (\<And>i. i < length ys \<Longrightarrow> m (drop i (ys @ zs)) = None) \<Longrightarrow> re_search m (ys @ zs) = Some a"
proof (induction ys)
  case Nil
  then show ?case by (cases zs) simp_all
next
  case (Cons y ys)
  have "m (drop i (ys @ zs)) = None" if "i < length ys" for i using Cons.prems(2)[of "Suc i"] that by simp
  then show ?case using Cons.IH Cons.prems(1) Cons.prems(2)[of 0] by simp
qed

lemma re_search_skip: "(\<And>i. i < length ys \<Longrightarrow> m (drop i (ys @ zs)) = None) \<Longrightarrow> re_search m (ys @ zs) = re_search m zs"
proof (induction ys)
  case (Cons y ys)
  have "m (drop i (ys @ zs)) = None" if "i < length ys" for i using Cons.prems[of "Suc i"] that by simp
  then show ?case using Cons.IH Cons.prems[of 0] by simp
qed simp

lemma re_search_None: "re_search m xs = None \<longleftrightarrow> (\<forall>i. m (drop i xs) = None)"
proof (induction xs)
  case (Cons x xs)
  have "(\<forall>i. m (drop i (x # xs)) = None) \<longleftrightarrow> m (x # xs) = None \<and> (\<forall>i. m (drop i xs) = None)"
    by (metis drop0 drop_Suc_Cons not0_implies_Suc)
  then show ?case using Cons by (cases "m (x # xs)") simp_all
qed simp

lemma match_invoke_head_append: "match_invoke_head xs = Some (f, r) \<Longrightarrow> match_invoke_head (xs @ zs) = Some (f, r @ zs)"
proof -
  assume "match_invoke_head xs = Some (f, r)"
  then obtain ws ws' where h: "xs = invoke_begin @ ws @ ''name=\"'' @ f @ CHR 0x22 # ws' @ CHR ''>'' # r" "ws \<noteq> []" "list_all py_space ws" "f \<noteq> []" "CHR 0x22 \<notin> set f" "list_all py_space ws'"
    unfolding match_invoke_head_iff by blast
  have "xs @ zs = invoke_begin @ ws @ ''name=\"'' @ f @ CHR 0x22 # ws' @ CHR ''>'' # (r @ zs)" by (simp add: h(1))
  then show ?thesis unfolding match_invoke_head_iff using h(2-6) by blast
qed

text \<open>What is behind the second quotation mark decides whether the beginning of a call that is not complete can become one.\<close>

definition after_quote :: "string \<Rightarrow> string" where
  "after_quote xs = tl (dropWhile (\<lambda>c. c \<noteq> CHR 0x22) xs)"

lemma after_quote_append: "CHR 0x22 \<notin> set xs \<Longrightarrow> after_quote (xs @ CHR 0x22 # ys) = ys"
  by (simp add: after_quote_def dropWhile_append)

lemma after_quote_none: "CHR 0x22 \<notin> set xs \<Longrightarrow> after_quote xs = []"
  by (induction xs) (auto simp: after_quote_def)

lemma after_quote_suffix: "suffix (after_quote xs) xs"
  unfolding after_quote_def by (metis suffix_def suffix_dropWhile suffix_order.trans suffix_tl)

lemma after_quote_mono: "suffix xs ys \<Longrightarrow> suffix (after_quote xs) (after_quote ys)"
proof -
  assume "suffix xs ys"
  then obtain zs where z: "ys = zs @ xs" by (auto simp: suffix_def)
  show ?thesis
  proof (cases "CHR 0x22 \<in> set zs")
    case True
    then obtain as bs where "zs = as @ CHR 0x22 # bs" "CHR 0x22 \<notin> set as" by (meson split_list_first)
    then have "after_quote ys = bs @ xs" using z after_quote_append[of as "bs @ xs"] by simp
    then show ?thesis using suffix_order.trans[OF after_quote_suffix] by (auto simp: suffix_def)
  next
    case False
    then have "after_quote ys = after_quote xs" unfolding z after_quote_def by (subst dropWhile_append2) auto
    then show ?thesis by simp
  qed
qed

definition second_tail :: "string \<Rightarrow> string" where
  "second_tail xs = after_quote (after_quote xs)"

lemma second_tail_mono: "suffix xs ys \<Longrightarrow> suffix (second_tail xs) (second_tail ys)"
  by (simp add: second_tail_def after_quote_mono)

definition head_text :: "string \<Rightarrow> string" where
  \<comment> \<open>up to the name, with the white space \<open>ws\<close>\<close>
  "head_text ws = invoke_begin @ ws @ ''name=''"

lemma not_space: "\<not> py_space (CHR 0x22)" "\<not> py_space (CHR ''>'')" "\<not> py_space (CHR ''<'')"
  by (simp_all add: py_space_def)

lemma head_text_no_quote: "list_all py_space ws \<Longrightarrow> CHR 0x22 \<notin> set (head_text ws)"
proof -
  assume "list_all py_space ws"
  then have "CHR 0x22 \<notin> set ws" using not_space(1) unfolding list_all_iff by blast
  then show ?thesis by (simp add: head_text_def invoke_begin_def dsml_def bar_def)
qed

lemma match_invoke_headE:
  assumes "match_invoke_head xs = Some (f, r)"
  obtains ws ws' where "xs = head_text ws @ CHR 0x22 # f @ CHR 0x22 # ws' @ CHR ''>'' # r" "list_all py_space ws" "ws \<noteq> []" "f \<noteq> []" "CHR 0x22 \<notin> set f" "list_all py_space ws'"
  using assms by (auto simp: match_invoke_head_iff head_text_def)

lemma second_tail_head:
  assumes "match_invoke_head xs = Some (f, r)"
  shows "\<exists>ws. second_tail xs = ws @ CHR ''>'' # r \<and> list_all py_space ws"
proof -
  obtain ws ws' where h: "xs = head_text ws @ CHR 0x22 # f @ CHR 0x22 # ws' @ CHR ''>'' # r" "list_all py_space ws" "CHR 0x22 \<notin> set f" "list_all py_space ws'"
    using match_invoke_headE[OF assms] by metis
  then have "second_tail xs = ws' @ CHR ''>'' # r" by (simp add: second_tail_def after_quote_append head_text_no_quote)
  then show ?thesis using h(4) by blast
qed

lemma incomplete_head:
  assumes "match_invoke_head ys = None" "match_invoke_head (ys @ zs) = Some (f, r)"
  shows "list_all py_space (second_tail ys)"
proof -
  obtain ws ws' where h: "ys @ zs = head_text ws @ CHR 0x22 # f @ CHR 0x22 # ws' @ CHR ''>'' # r" "list_all py_space ws" "ws \<noteq> []" "f \<noteq> []" "CHR 0x22 \<notin> set f" "list_all py_space ws'"
    using match_invoke_headE[OF assms(2)] by metis
  note nq = head_text_no_quote[OF h(2)]
  have "prefix ys (head_text ws @ CHR 0x22 # f @ CHR 0x22 # ws' @ CHR ''>'' # r)" using h(1) by (metis prefixI)
  then consider "prefix ys (head_text ws)" | f1 where "ys = head_text ws @ CHR 0x22 # f1" "prefix f1 f"
    | w where "ys = head_text ws @ CHR 0x22 # f @ CHR 0x22 # w" "prefix w ws'"
    | r1 where "ys = head_text ws @ CHR 0x22 # f @ CHR 0x22 # ws' @ CHR ''>'' # r1"
    by (auto simp: prefix_append prefix_Cons)
  then show ?thesis
  proof cases
    case 1
    then have "CHR 0x22 \<notin> set ys" using nq set_mono_prefix by blast
    then show ?thesis by (simp add: second_tail_def after_quote_none)
  next
    case 2
    then have "CHR 0x22 \<notin> set f1" using h(5) set_mono_prefix by blast
    then show ?thesis using 2(1) nq by (simp add: second_tail_def after_quote_none after_quote_append)
  next
    case 3
    then have "second_tail ys = w" using nq h(5) by (simp add: second_tail_def after_quote_append)
    then show ?thesis using h(6) set_mono_prefix[OF 3(2)] by (auto simp: list_all_iff)
  next
    case 4
    then have "match_invoke_head ys = Some (f, r1)" using h(2-6) by (auto simp: match_invoke_head_iff head_text_def)
    then show ?thesis using assms(1) by simp
  qed
qed

lemma first_head_stays:
  assumes "re_search match_invoke_head xs = Some (f, r)"
  shows "re_search match_invoke_head (xs @ zs) = Some (f, r @ zs)"
proof -
  obtain ys ws where x: "xs = ys @ ws" "match_invoke_head ws = Some (f, r)" "\<forall>i < length ys. match_invoke_head (drop i xs) = None"
    using re_search_suffix[OF assms] by blast
  have "match_invoke_head (drop i (ys @ ws @ zs)) = None" if i: "i < length ys" for i
  proof (rule ccontr)
    assume "match_invoke_head (drop i (ys @ ws @ zs)) \<noteq> None"
    moreover have "drop i (ys @ ws @ zs) = drop i xs @ zs" using x(1) i by simp
    ultimately obtain f' r' where "match_invoke_head (drop i xs @ zs) = Some (f', r')" by auto
    then have sp: "list_all py_space (second_tail (drop i xs))" using incomplete_head x(3) i by blast
    obtain ws' where "second_tail ws = ws' @ CHR ''>'' # r" using second_tail_head[OF x(2)] by blast
    moreover have "suffix ws (drop i xs)" using x(1) i by (simp add: suffix_def)
    ultimately have "CHR ''>'' \<in> set (second_tail (drop i xs))" using set_mono_suffix[OF second_tail_mono, of ws "drop i xs"] by auto
    then show False using sp not_space(2) unfolding list_all_iff by blast
  qed
  then show ?thesis using re_search_eqI[of match_invoke_head "ws @ zs" "(f, r @ zs)" ys] match_invoke_head_append[OF x(2)] x(1) by simp
qed

definition invokes :: "string \<Rightarrow> (string \<times> string) list" where
  \<comment> \<open>the names and contents of the complete calls of a text\<close>
  "invokes xs = re_findall match_invoke xs"

text \<open>When the first head has no end behind it, no later one has.\<close>

lemma later_head_text:
  assumes "match_invoke_head ys = Some (f, r)" "suffix zs ys" "match_invoke_head zs = Some (f', r')"
  shows "suffix r' r"
proof -
  obtain w where w: "second_tail ys = w @ CHR ''>'' # r" "list_all py_space w" using second_tail_head[OF assms(1)] by blast
  obtain w' where w': "second_tail zs = w' @ CHR ''>'' # r'" "list_all py_space w'" using second_tail_head[OF assms(3)] by blast
  obtain a where a: "w @ CHR ''>'' # r = a @ w' @ CHR ''>'' # r'" using second_tail_mono[OF assms(2)] unfolding w(1) w'(1) suffix_def by blast
  have "CHR ''>'' \<notin> set w" using w(2) not_space(2) unfolding list_all_iff by blast
  moreover have "w @ CHR ''>'' # r = (a @ w') @ CHR ''>'' # r'" using a by simp
  ultimately have "suffix (CHR ''>'' # r') (CHR ''>'' # r)" unfolding append_eq_append_conv2 by (auto simp: suffix_def append_eq_Cons_conv)
  then show ?thesis by (auto simp: suffix_Cons dest: suffix_ConsD)
qed

lemma contains_suffix: "suffix xs ys \<Longrightarrow> contains pat xs \<Longrightarrow> contains pat ys"
  using contains_substring[of pat xs _ "[]"] by (auto simp: suffix_def)

lemma match_invoke_None: "match_invoke_head xs = None \<Longrightarrow> match_invoke xs = None"
  by (simp add: match_invoke_def)

lemma search_invoke:
  "re_search match_invoke xs =
     (case re_search match_invoke_head xs of None \<Rightarrow> None | Some (f, r) \<Rightarrow>
        (case str_find invoke_end r of None \<Rightarrow> None | Some j \<Rightarrow> Some ((f, take j r), drop (j + length invoke_end) r)))"
proof (cases "re_search match_invoke_head xs")
  case None
  then have "re_search match_invoke xs = None" by (simp add: re_search_None match_invoke_None)
  then show ?thesis using None by simp
next
  case (Some a)
  obtain f r where a: "a = (f, r)" by (cases a)
  obtain ys zs where x: "xs = ys @ zs" "match_invoke_head zs = Some (f, r)" "\<forall>i < length ys. match_invoke_head (drop i xs) = None"
    using re_search_suffix[OF Some[unfolded a]] by blast
  have skip: "re_search match_invoke xs = re_search match_invoke zs" unfolding x(1)
    by (rule re_search_skip) (use x in \<open>simp add: match_invoke_None\<close>)
  show ?thesis
  proof (cases "str_find invoke_end r")
    case None
    have "match_invoke (drop i zs) = None" for i
    proof (cases "match_invoke_head (drop i zs)")
      case (Some b)
      obtain f' r' where b: "b = (f', r')" by (cases b)
      have "suffix r' r" using later_head_text[OF x(2) suffix_drop Some[unfolded b]] .
      then have "str_find invoke_end r' = None" using contains_suffix[of r' r invoke_end] None by (cases "str_find invoke_end r'") (simp_all add: contains_def)
      then show ?thesis using Some b by (simp add: match_invoke_def)
    qed (rule match_invoke_None)
    then have "re_search match_invoke zs = None" unfolding re_search_None by blast
    then show ?thesis using Some a None skip by simp
  next
    case (Some j)
    have "match_invoke zs = Some ((f, take j r), drop (j + length invoke_end) r)" using x(2) Some by (simp add: match_invoke_def)
    then have "re_search match_invoke zs = Some ((f, take j r), drop (j + length invoke_end) r)" by (cases zs) simp_all
    then show ?thesis using Some \<open>re_search match_invoke_head xs = Some a\<close> a skip by simp
  qed
qed

lemma invokes_unfold:
  "invokes xs =
     (case re_search match_invoke_head xs of None \<Rightarrow> [] | Some (f, r) \<Rightarrow>
        (case str_find invoke_end r of None \<Rightarrow> [] | Some j \<Rightarrow> (f, take j r) # invokes (drop (j + length invoke_end) r)))"
proof -
  have l: "length (drop (j + length invoke_end) r) < length xs" if "re_search match_invoke_head xs = Some (f, r)" for f r j
    using re_search_invoke_shorter[OF that] by simp
  show ?thesis unfolding invokes_def by (subst re_findall.simps) (auto simp: search_invoke dest: l split: option.splits)
qed

lemma invokes_found:
  assumes "re_search match_invoke_head xs = Some (f, r)" "str_find invoke_end r = Some j"
  shows "invokes (xs @ zs) = (f, take j r) # invokes (drop (j + length invoke_end) r @ zs)"
proof -
  have "j + length invoke_end \<le> length r" using str_find_SomeD[OF assms(2)]
    by (auto simp: occurs_at_def starts_with_def dest!: arg_cong[of _ _ length])
  then show ?thesis using first_head_stays[OF assms(1), of zs] str_find_append[OF assms(2), of zs] by (subst invokes_unfold) simp
qed

lemma invokes_open:
  "re_search match_invoke_head xs = None \<Longrightarrow> invokes xs = []"
  "re_search match_invoke_head xs = Some (f, r) \<Longrightarrow> str_find invoke_end r = None \<Longrightarrow> invokes xs = []"
  by (subst invokes_unfold, simp)+

text \<open>Text that is passed on has no part of a call.\<close>

lemma no_dsml_skip:
  assumes "v32_no_dsml xs"
  shows "invokes (xs @ zs) = invokes zs"
proof -
  have "match_invoke_head (drop i (xs @ zs)) = None" if i: "i < length xs" for i
  proof (rule ccontr)
    assume "match_invoke_head (drop i (xs @ zs)) \<noteq> None"
    then have "prefix invoke_begin (drop i xs @ zs)" using i by (auto simp: match_invoke_head_def starts_with_prefix split: if_splits)
    then obtain us where u: "drop i xs @ zs = CHR ''<'' # bar # us" by (auto simp: prefix_def invoke_begin_def dsml_def)
    have x: "xs = take i xs @ drop i xs" by simp
    obtain y ys where y: "drop i xs = y # ys" using i by (cases "drop i xs") auto
    show False
    proof (cases ys)
      case Nil
      then have "xs = take i xs @ ''<''" using u y x by simp
      then have "rev xs = CHR ''<'' # rev (take i xs)" using rev_append[of "take i xs" "''<''"] by simp
      then have "ends_with ''<'' (rstrip xs)" unfolding ends_with_def rstrip_def rev_rev_ident by (simp only: dropWhile.simps not_space starts_with_def) simp
      then show False using assms by (simp add: v32_no_dsml_def)
    next
      case (Cons y2 ys2)
      then have "xs = take i xs @ CHR ''<'' # bar # ys2" using u y x by simp
      then have "contains (''<'' @ [bar]) xs" using containsI[of "''<'' @ [bar]" "CHR ''<'' # bar # ys2" "take i xs"] by simp
      then show False using assms by (simp add: v32_no_dsml_def)
    qed
  qed
  then have "re_search match_invoke_head (xs @ zs) = re_search match_invoke_head zs" by (rule re_search_skip)
  then show ?thesis using invokes_unfold[of "xs @ zs"] invokes_unfold[of zs] by simp
qed

section \<open>The stream of calls\<close>

fun v32_items :: "'n json_library \<Rightarrow> int \<Rightarrow> (string \<times> string) list \<Rightarrow> tool_call_item list" where
  \<comment> \<open>the name and the arguments of each call, numbered from \<open>i\<close>\<close>
  "v32_items L i [] = []"
| "v32_items L i ((f, c) # ms) =
     [\<lparr>tool_index = i, item_name = Some (strip f), parameters = []\<rparr>,
      \<lparr>tool_index = i, item_name = None, parameters = dumps_unicode L (JObj (parse_parameters_from_xml L c))\<rparr>] @ v32_items L (i + 1) ms"

definition next_id :: "'n deepseek_parser \<Rightarrow> int" where
  "next_id q = max 0 (current_tool_id (ds_base q))"

lemma first_call_id: "- 1 \<le> current_tool_id st \<Longrightarrow> current_tool_id (first_call st) = max 0 (current_tool_id st)" "tp_buffer (first_call st) = tp_buffer st"
  by (auto simp: first_call_def)

lemma v32_loop_spec:
  assumes "v32_loop L xs q = (cs, q')" "tp_buffer (ds_base q) = xs" "- 1 \<le> current_tool_id (ds_base q)"
  shows "cs = v32_items L (next_id q) (invokes xs) \<and> next_id q' = next_id q + int (length (invokes xs)) \<and> - 1 \<le> current_tool_id (ds_base q')
     \<and> invokes (tp_buffer (ds_base q')) = [] \<and> (\<forall>zs. invokes (xs @ zs) = invokes xs @ invokes (tp_buffer (ds_base q') @ zs))"
  using assms
proof (induction L xs q arbitrary: cs q' rule: v32_loop.induct)
  case (1 L xs q)
  let ?q1 = "q\<lparr>ds_base := first_call (ds_base q)\<rparr>"
  have id: "current_tool_id (ds_base ?q1) = next_id q" "0 \<le> next_id q" using first_call_id(1)[OF "1.prems"(3)] by (simp_all add: next_id_def)
  show ?case
  proof (cases "re_search match_invoke_head xs")
    case None
    then have "cs = []" "q' = q" using "1.prems"(1) by simp_all
    then show ?thesis using invokes_open(1)[OF None] "1.prems"(2,3) by simp
  next
    case (Some a)
    obtain f r where a: "a = (f, r)" by (cases a)
    note h = Some[unfolded a]
    show ?thesis
    proof (cases "str_find invoke_end r")
      case None
      then have "cs = []" "q' = ?q1" using "1.prems"(1) h by (simp_all add: Let_def)
      then show ?thesis using invokes_open(2)[OF h None] "1.prems"(2,3) id by (simp add: first_call_id(2) next_id_def)
    next
      case (Some j)
      let ?rest = "drop (j + length invoke_end) r"
      obtain cs1 q2 where c: "v32_complete L (strip f) (take j r) ?rest ?q1 = (cs1, q2)" by (metis surj_pair)
      obtain cs2 where l: "v32_loop L ?rest q2 = (cs2, q')" and cs: "cs = cs1 @ cs2"
        using "1.prems"(1) h Some c by (auto simp: Let_def split: prod.splits)
      have q2: "tp_buffer (ds_base q2) = ?rest" "current_tool_id (ds_base q2) = next_id q + 1" and cs1: "cs1 = v32_items L (next_id q) [(f, take j r)]"
        using c id(1) by (auto simp: v32_complete_def Let_def)
      have n: "next_id q2 = next_id q + 1" using q2(2) id(2) by (simp add: next_id_def)
      have IH: "cs2 = v32_items L (next_id q2) (invokes ?rest)" "next_id q' = next_id q2 + int (length (invokes ?rest))" "- 1 \<le> current_tool_id (ds_base q')"
        "invokes (tp_buffer (ds_base q')) = []" "\<forall>zs. invokes (?rest @ zs) = invokes ?rest @ invokes (tp_buffer (ds_base q') @ zs)"
        using "1.IH"[OF h refl refl Some c[symmetric] l q2(1)] q2(2) id(2) by auto
      note f = invokes_found[OF h Some]
      have "invokes xs = (f, take j r) # invokes ?rest" using f[of "[]"] by simp
      then show ?thesis using IH cs cs1 n f by simp
    qed
  qed
qed

lemma v32_increment_spec:
  assumes "v32_increment L tools p q = (res, q')" "- 1 \<le> current_tool_id (ds_base q)" "invokes (tp_buffer (ds_base q)) = []"
  shows "\<exists>ms. calls res = v32_items L (next_id q) ms \<and> next_id q' = next_id q + int (length ms) \<and> - 1 \<le> current_tool_id (ds_base q')
     \<and> invokes (tp_buffer (ds_base q')) = [] \<and> (\<forall>zs. invokes (tp_buffer (ds_base q) @ p @ zs) = ms @ invokes (tp_buffer (ds_base q') @ zs))"
proof (cases "v32_no_dsml (tp_buffer (ds_base q) @ p)")
  case True
  have e: "invokes [] = []" by (simp add: invokes_open match_invoke_head_def invoke_begin_def starts_with_def)
  have "calls res = []" "tp_buffer (ds_base q') = []" "current_tool_id (ds_base q') = current_tool_id (ds_base q)"
    using assms(1) True by (auto simp: v32_increment_def Let_def)
  then show ?thesis using no_dsml_skip[OF True] assms(2) e by (intro exI[of _ "[]"]) (simp add: next_id_def)
next
  case False
  define q1 where "q1 = q\<lparr>ds_base := (ds_base q)\<lparr>tp_buffer := tp_buffer (ds_base q) @ p,
    tool_indices := Some (case tool_indices (ds_base q) of Some ns \<Rightarrow> ns | None \<Rightarrow> get_tool_indices tools)\<rparr>\<rparr>"
  have "v32_loop L (tp_buffer (ds_base q) @ p) q1 = (calls res, q')"
    using assms(1) False by (auto simp: v32_increment_def Let_def q1_def split: prod.splits)
  moreover have "tp_buffer (ds_base q1) = tp_buffer (ds_base q) @ p" "current_tool_id (ds_base q1) = current_tool_id (ds_base q)" by (simp_all add: q1_def)
  moreover have "next_id q1 = next_id q" by (simp add: q1_def next_id_def)
  ultimately show ?thesis using v32_loop_spec[of L "tp_buffer (ds_base q) @ p" q1 "calls res" q'] assms(2)
    by (intro exI[of _ "invokes (tp_buffer (ds_base q) @ p)"]) simp
qed

lemma v32_items_append: "v32_items L i (xs @ ys) = v32_items L i xs @ v32_items L (i + int (length xs)) ys"
proof (induction xs arbitrary: i)
  case (Cons x xs)
  then show ?case by (cases x) (simp add: algebra_simps)
qed simp

lemma v32_stream_spec:
  assumes "- 1 \<le> current_tool_id (ds_base q)" "invokes (tp_buffer (ds_base q)) = []" "v32_stream L tools ps q = (rs, q')"
  shows "concat (map calls rs) = v32_items L (next_id q) (invokes (tp_buffer (ds_base q) @ concat ps))"
  using assms
proof (induction ps arbitrary: q rs)
  case (Cons p ps)
  obtain res q1 where i: "v32_increment L tools p q = (res, q1)" by (metis surj_pair)
  obtain rs1 where r: "v32_stream L tools ps q1 = (rs1, q')" "rs = res # rs1" using Cons.prems(3) i by (auto split: prod.splits)
  obtain ms where m: "calls res = v32_items L (next_id q) ms" "next_id q1 = next_id q + int (length ms)" "- 1 \<le> current_tool_id (ds_base q1)"
    "invokes (tp_buffer (ds_base q1)) = []" "\<forall>zs. invokes (tp_buffer (ds_base q) @ p @ zs) = ms @ invokes (tp_buffer (ds_base q1) @ zs)"
    using v32_increment_spec[OF i Cons.prems(1,2)] by blast
  show ?case using Cons.IH[OF m(3,4) r(1)] m(1,2,5) r(2) by (simp add: v32_items_append)
qed simp

lemma v32_calls_known:
  "list_all (\<lambda>(f, c). f \<in> set (get_tool_indices tools)) ms \<Longrightarrow> v32_calls L tools ms
     = Inr (map (\<lambda>(f, c). \<lparr>tool_index = - 1, item_name = Some f, parameters = dumps_unicode L (JObj (parse_parameters_from_xml L c))\<rparr>) ms)"
proof (induction ms)
  case (Cons m ms)
  obtain f c where m: "m = (f, c)" by (cases m)
  have "f \<noteq> []" "f \<in> set tools" using Cons.prems m by (auto simp: get_tool_indices_def)
  then have "parse_base_json L tools (JObj [(''name'', JStr f), (''parameters'', JObj (parse_parameters_from_xml L c))])
     = Inr [\<lparr>tool_index = - 1, item_name = Some f, parameters = dumps_unicode L (JObj (parse_parameters_from_xml L c))\<rparr>]"
    by (simp add: parse_base_json_def parse_base_action_def get_tool_indices_def truthy_def)
  then show ?case using Cons m by simp
qed simp

fun merge_items :: "tool_call_item list \<Rightarrow> (string option \<times> string) list" where
  \<comment> \<open>the calls that a receiver puts together from names and arguments\<close>
  "merge_items (x # y # items) = (item_name x, parameters y) # merge_items items"
| "merge_items _ = []"

lemma merge_v32_items: "merge_items (v32_items L i ms) = map (\<lambda>(f, c). (Some (strip f), dumps_unicode L (JObj (parse_parameters_from_xml L c)))) ms"
  by (induction L i ms rule: v32_items.induct) simp_all

section \<open>Properties\<close>

text \<open>C38: streaming with the DeepSeek V3.2 parser: however any text is cut into pieces, the items sent are the name and the arguments of exactly the complete
  calls of the whole text, in order and numbered from 0. When the calls of the text are those of its first section and name known tools without white space around the names, they put together to
  the same names and arguments that parsing the whole text gives.\<close>

theorem v32_streaming_agrees:
  assumes "v32_stream L tools ps deepseek_init = (rs, q)"
  shows "concat (map calls rs) = v32_items L 0 (re_findall match_invoke (concat ps))
    \<and> (function_calls_content (concat ps) = Some body \<and> re_findall match_invoke (concat ps) = re_findall match_invoke body
       \<and> list_all (\<lambda>(f, c). strip f = f \<and> f \<in> set (get_tool_indices tools)) (re_findall match_invoke body)
       \<longrightarrow> merge_items (concat (map calls rs)) = map (\<lambda>c. (item_name c, parameters c)) (calls (v32_detect_and_parse L tools (concat ps))))"
proof -
  have e: "invokes [] = []" by (simp add: invokes_open match_invoke_head_def invoke_begin_def starts_with_def)
  have i: "concat (map calls rs) = v32_items L 0 (re_findall match_invoke (concat ps))"
    using v32_stream_spec[of deepseek_init L tools ps rs q] assms e by (simp add: deepseek_init_def tool_parser_init_def next_id_def invokes_def)
  moreover have "merge_items (concat (map calls rs)) = map (\<lambda>c. (item_name c, parameters c)) (calls (v32_detect_and_parse L tools (concat ps)))"
    if b: "function_calls_content (concat ps) = Some body" and m: "re_findall match_invoke (concat ps) = re_findall match_invoke body"
      and k: "list_all (\<lambda>(f, c). strip f = f \<and> f \<in> set (get_tool_indices tools)) (re_findall match_invoke body)"
  proof -
    have "v32_calls L tools (re_findall match_invoke body) = Inr (map (\<lambda>(f, c). \<lparr>tool_index = - 1, item_name = Some f, parameters = dumps_unicode L (JObj (parse_parameters_from_xml L c))\<rparr>) (re_findall match_invoke body))"
      by (rule v32_calls_known) (use k in \<open>auto simp: list_all_iff\<close>)
    moreover obtain j where "str_find v32_bot (concat ps) = Some j" using b by (auto simp: function_calls_content_def split: option.splits)
    ultimately have "calls (v32_detect_and_parse L tools (concat ps)) = map (\<lambda>(f, c). \<lparr>tool_index = - 1, item_name = Some f, parameters = dumps_unicode L (JObj (parse_parameters_from_xml L c))\<rparr>) (re_findall match_invoke body)"
      using b by (simp add: v32_detect_and_parse_def)
    then show ?thesis unfolding i m merge_v32_items using k by (auto simp: list_all_iff)
  qed
  ultimately show ?thesis by blast
qed

definition key_value_json :: "unit json_library" where
  \<comment> \<open>writes an object of strings as \<open>k=v;\<close>\<close>
  "key_value_json = small_json\<lparr>dumps_unicode := (\<lambda>v. case v of JObj o1 \<Rightarrow> concat (map (\<lambda>(k, v). k @ ''='' @ (case v of JStr s \<Rightarrow> s | _ \<Rightarrow> []) @ '';'') o1) | _ \<Rightarrow> [])\<rparr>"

definition v32_sample :: "string list" where
  "v32_sample = [''Hi '' @ ''<'', dsml ''function_calls>'' @ ''<'' @ dsml ''invoke na'', ''me=\"f\">'' @ ''<'' @ dsml ''parameter name=\"a\" string=\"true\"> x '',
     ''</'' @ dsml ''parameter>'' @ ''</'' @ dsml ''in'', ''voke>'' @ ''<'' @ dsml ''invoke name=\"g\">'' @ invoke_end @ ''</'', dsml ''function_calls>'']"

theorem v32_streaming_agrees_witness:
  "case v32_stream key_value_json [''f'', ''g''] v32_sample deepseek_init of (rs, q) \<Rightarrow>
     concat (map calls rs) = [\<lparr>tool_index = 0, item_name = Some ''f'', parameters = []\<rparr>, \<lparr>tool_index = 0, item_name = None, parameters = ''a=x;''\<rparr>,
       \<lparr>tool_index = 1, item_name = Some ''g'', parameters = []\<rparr>, \<lparr>tool_index = 1, item_name = None, parameters = []\<rparr>]
     \<and> map (\<lambda>c. (item_name c, parameters c)) (calls (v32_detect_and_parse key_value_json [''f'', ''g''] (concat v32_sample))) = [(Some ''f'', ''a=x;''), (Some ''g'', [])]"
proof -
  obtain rs q where s: "v32_stream key_value_json [''f'', ''g''] v32_sample deepseek_init = (rs, q)" by (metis surj_pair)
  obtain body where b: "function_calls_content (concat v32_sample) = Some body" and e: "re_findall match_invoke (concat v32_sample) = re_findall match_invoke body"
    and k: "list_all (\<lambda>(f, c). strip f = f \<and> f \<in> set (get_tool_indices [''f'', ''g''])) (re_findall match_invoke body)"
  proof -
    have "case function_calls_content (concat v32_sample) of None \<Rightarrow> False | Some body \<Rightarrow> re_findall match_invoke (concat v32_sample) = re_findall match_invoke body
       \<and> list_all (\<lambda>(f, c). strip f = f \<and> f \<in> set (get_tool_indices [''f'', ''g''])) (re_findall match_invoke body)" by code_simp
    then show thesis using that by (cases "function_calls_content (concat v32_sample)") auto
  qed
  have v: "v32_items key_value_json 0 (re_findall match_invoke (concat v32_sample)) = [\<lparr>tool_index = 0, item_name = Some ''f'', parameters = []\<rparr>, \<lparr>tool_index = 0, item_name = None, parameters = ''a=x;''\<rparr>,
       \<lparr>tool_index = 1, item_name = Some ''g'', parameters = []\<rparr>, \<lparr>tool_index = 1, item_name = None, parameters = []\<rparr>]" by code_simp
  have "concat (map calls rs) = v32_items key_value_json 0 (re_findall match_invoke (concat v32_sample))"
    "merge_items (concat (map calls rs)) = map (\<lambda>c. (item_name c, parameters c)) (calls (v32_detect_and_parse key_value_json [''f'', ''g''] (concat v32_sample)))"
    using v32_streaming_agrees[OF s, of body] b e k by blast+
  then show ?thesis unfolding s prod.case v by simp
qed

section \<open>Departures\<close>

definition v32_sent :: "string list \<Rightarrow> string list \<Rightarrow> string \<times> (int \<times> string option) list" where
  "v32_sent tools ps = (case v32_stream key_value_json tools ps deepseek_init of
     (rs, q) \<Rightarrow> (concat (map normal_text rs), map (\<lambda>c. (tool_index c, item_name c)) (concat (map calls rs))))"

text \<open>Text that was held back because it could begin a tag is not passed on when it turns out not to: only the new piece is.\<close>

lemma held_text_lost: "v32_sent [''f''] [''if a <'', '' b then''] = ('' b then'', [])"
  by code_simp

text \<open>All text from the end of a section on is lost.\<close>

lemma text_after_section_lost: "v32_sent [''f''] [v32_bot, ''<'' @ dsml ''invoke name=\"f\">'', invoke_end, v32_eot, ''Done''] = ([], [(0, Some ''f''), (0, None)])"
  by code_simp

text \<open>A call of an unknown tool is sent when it is streamed, and left out when the whole text is parsed.\<close>

lemma unknown_tool_is_sent:
  "v32_sent [''f''] [v32_bot, ''<'' @ dsml ''invoke name=\"h\">'', invoke_end, v32_eot] = ([], [(0, Some ''h''), (0, None)])"
  "calls (v32_detect_and_parse key_value_json [''f''] (v32_bot @ ''<'' @ dsml ''invoke name=\"h\">'' @ invoke_end @ v32_eot)) = []"
  by code_simp+

end
