(* ===== verification/Detokenizer.thy ===== *)
theory Detokenizer
  imports Deepseek_Parser
begin

text \<open>
  Incremental detokenization, the wrapper \<open>TransformersTokenizer\<close> of \<open>tokenizer/tokenizer.py\<close>: the conversion of tokens with added
  vocabulary, \<open>decode_incrementally\<close> and its two backends. The tokenizer of the Transformers library and the decoding stream of the
  tokenizers library are an argument, the record \<open>hf_tokenizer\<close>. The character \<open>replacement\<close> stands for U+FFFD.

  The tokens that a piece of text is decoded with are only the last ones and the new ones; the locale \<open>local_conversion\<close> states what this relies on: behind
  a text that does not end within a character, the conversion of further tokens depends only on the tokens directly before them.
\<close>

section \<open>Conversion of tokens\<close>

definition replacement :: char where "replacement = CHR 0xFD"

record 'd hf_tokenizer =
  ids_to_tokens :: "bool \<Rightarrow> int list \<Rightarrow> string option list" \<comment> \<open>are special tokens skipped?\<close>
  raw_tokens_to_string :: "string list \<Rightarrow> string"
  is_fast :: bool
  added_vocab :: "string list"
  all_special_tokens :: "string list"
  clean_up_spaces :: bool
  clean_up :: "string \<Rightarrow> string"
  has_backend :: bool \<comment> \<open>is there an attribute \<open>_tokenizer\<close>?\<close>
  new_stream :: "bool \<Rightarrow> 'd"
  stream_step :: "'d \<Rightarrow> int \<Rightarrow> string option \<times> 'd"
  hf_decode :: "bool \<Rightarrow> bool \<Rightarrow> int list \<Rightarrow> string"

definition flush_sub_text :: "'d hf_tokenizer \<Rightarrow> string list \<times> string list \<Rightarrow> string list" where
  \<comment> \<open>the texts collected so far and the tokens of the current one\<close>
  "flush_sub_text T p = (if snd p \<noteq> [] then fst p @ [raw_tokens_to_string T (snd p)] else fst p)"

fun sub_texts_loop :: "'d hf_tokenizer \<Rightarrow> bool \<Rightarrow> string list \<Rightarrow> string list \<times> string list \<Rightarrow> string list" where
  "sub_texts_loop T skip [] p = flush_sub_text T p"
| "sub_texts_loop T skip (t # ts) p =
     (if skip \<and> t \<in> set (all_special_tokens T) then sub_texts_loop T skip ts p
      else if t \<in> set (added_vocab T) then sub_texts_loop T skip ts (flush_sub_text T p @ [t], [])
      else sub_texts_loop T skip ts (fst p, snd p @ [t]))"

definition convert_tokens_to_string :: "'d hf_tokenizer \<Rightarrow> bool \<Rightarrow> bool \<Rightarrow> string list \<Rightarrow> string" where
  "convert_tokens_to_string T skip spaces tokens =
     (if is_fast T \<or> added_vocab T = [] then raw_tokens_to_string T tokens
      else let sub_texts = sub_texts_loop T skip tokens ([], []) in
        if spaces then concat (case sub_texts of [] \<Rightarrow> [] | t # ts \<Rightarrow> t # concat (map (\<lambda>t. ['' '', t]) ts)) else concat sub_texts)"

section \<open>Incremental decoding\<close>

datatype 'd detok_state = Trtllm_State (last_new_tokens: "string list") (pending_tokens: "string list") | Hf_State 'd

definition ends_replacement :: "string \<Rightarrow> bool" where
  "ends_replacement s \<longleftrightarrow> s \<noteq> [] \<and> last s = replacement"

definition new_tokens :: "'d hf_tokenizer \<Rightarrow> bool \<Rightarrow> int list \<Rightarrow> string list" where
  \<comment> \<open>without \<open>None\<close>\<close>
  "new_tokens T skip ids = map the (filter (\<lambda>t. t \<noteq> None) (ids_to_tokens T skip ids))"

definition trtllm_decode_incrementally ::
    "'d hf_tokenizer \<Rightarrow> bool \<Rightarrow> bool \<Rightarrow> bool option \<Rightarrow> bool \<Rightarrow> int list \<Rightarrow> string \<Rightarrow> 'd detok_state option \<Rightarrow> string \<times> 'd detok_state" where
  "trtllm_decode_incrementally T skip spaces clean_opt do_flush token_ids prev_text states =
     (let (last_new, pending0) = (case states of Some (Trtllm_State l p) \<Rightarrow> (l, p) | _ \<Rightarrow> ([], []));
          conv = convert_tokens_to_string T skip spaces;
          last_new_text = (if last_new \<noteq> [] then conv last_new else []);
          pending = pending0 @ new_tokens T skip token_ids;
          curr_new_text = conv (last_new @ pending) in
      if \<not> do_flush \<and> (length (rstrip curr_new_text) \<le> length (rstrip last_new_text) \<or> ends_replacement curr_new_text) then
        (prev_text, Trtllm_State last_new pending)
      else
        let new_text = drop (length last_new_text) curr_new_text;
            clean = (case clean_opt of Some b \<Rightarrow> b | None \<Rightarrow> clean_up_spaces T) in
        (prev_text @ (if clean then clean_up T new_text else new_text), Trtllm_State pending []))"

fun stream_steps :: "'d hf_tokenizer \<Rightarrow> int list \<Rightarrow> 'd \<Rightarrow> string \<times> 'd" where
  "stream_steps T [] d = ([], d)"
| "stream_steps T (i # is1) d =
     (case stream_step T d i of (r, d1) \<Rightarrow> case stream_steps T is1 d1 of (s, d2) \<Rightarrow> ((case r of Some t \<Rightarrow> t | None \<Rightarrow> []) @ s, d2))"

definition hf_decode_incrementally ::
    "'d hf_tokenizer \<Rightarrow> bool \<Rightarrow> bool option \<Rightarrow> int list \<Rightarrow> string \<Rightarrow> 'd detok_state option \<Rightarrow> (string \<times> 'd detok_state) result" where
  "hf_decode_incrementally T skip clean_opt token_ids prev_text states =
     (case states of
        Some (Trtllm_State _ _) \<Rightarrow> if token_ids = [] then Inr (prev_text @ (if (case clean_opt of Some b \<Rightarrow> b | None \<Rightarrow> clean_up_spaces T) then clean_up T [] else []), the states)
                                 else Inl AttributeError
      | _ \<Rightarrow>
          (case stream_steps T token_ids (case states of Some (Hf_State d) \<Rightarrow> d | _ \<Rightarrow> new_stream T skip) of (new_text, d) \<Rightarrow>
             let clean = (case clean_opt of Some b \<Rightarrow> b | None \<Rightarrow> clean_up_spaces T) in
             Inr (prev_text @ (if clean then clean_up T new_text else new_text), Hf_State d)))"

record detok_config =
  trtllm_backend :: bool \<comment> \<open>\<open>TLLM_INCREMENTAL_DETOKENIZATION_BACKEND\<close> is \<open>TRTLLM\<close>\<close>
  stream_interval_threshold :: int

definition decode_incrementally ::
    "detok_config \<Rightarrow> 'd hf_tokenizer \<Rightarrow> bool \<Rightarrow> bool \<Rightarrow> bool option \<Rightarrow> int \<Rightarrow> bool \<Rightarrow> int list \<Rightarrow> string \<Rightarrow> 'd detok_state option \<Rightarrow> (string \<times> 'd detok_state) result" where
  "decode_incrementally cfg T skip spaces clean_opt stream_interval do_flush token_ids prev_text states =
     (if trtllm_backend cfg \<or> stream_interval \<ge> stream_interval_threshold cfg \<or> \<not> spaces \<or> \<not> has_backend T
      then Inr (trtllm_decode_incrementally T skip spaces clean_opt do_flush token_ids prev_text states)
      else hf_decode_incrementally T skip clean_opt token_ids prev_text states)"

section \<open>Decoding in pieces is decoding at once\<close>

locale local_conversion =
  fixes conv :: "string list \<Rightarrow> string"
  assumes conv_Nil: "conv [] = []"
    and conv_local: "b \<noteq> [] \<Longrightarrow> \<not> ends_replacement (conv (a @ b)) \<Longrightarrow> conv (a @ b @ c) = conv (a @ b) @ drop (length (conv b)) (conv (b @ c))"
    and conv_keeps: "b \<noteq> [] \<Longrightarrow> \<not> ends_replacement (conv (a @ b)) \<Longrightarrow> prefix (conv b) (conv (b @ c))"

definition detok_inv :: "(string list \<Rightarrow> string) \<Rightarrow> string list \<Rightarrow> string \<Rightarrow> 'd detok_state option \<Rightarrow> bool" where
  \<comment> \<open>of the tokens \<open>ts\<close> those before the pending ones are decoded\<close>
  "detok_inv conv ts s st \<longleftrightarrow>
     (case st of
        None \<Rightarrow> ts = [] \<and> s = []
      | Some (Trtllm_State l p) \<Rightarrow> (\<exists>d. ts = d @ p \<and> s = conv d \<and> (d = [] \<and> l = [] \<or> l \<noteq> [] \<and> suffix l d \<and> \<not> ends_replacement (conv d)))
      | Some (Hf_State _) \<Rightarrow> False)"

context local_conversion begin

lemma extend_decoded:
  assumes "d = [] \<and> l = [] \<or> l \<noteq> [] \<and> suffix l d \<and> \<not> ends_replacement (conv d)"
  shows "conv (d @ p) = conv d @ drop (length (if l \<noteq> [] then conv l else [])) (conv (l @ p))"
    and "\<exists>x. conv (l @ p) = (if l \<noteq> [] then conv l else []) @ x"
proof -
  have "conv (d @ p) = conv d @ drop (length (if l \<noteq> [] then conv l else [])) (conv (l @ p))
     \<and> (\<exists>x. conv (l @ p) = (if l \<noteq> [] then conv l else []) @ x)"
  proof (cases "l = []")
    case True
    then show ?thesis using assms conv_Nil by simp
  next
    case False
    then obtain a where a: "d = a @ l" "\<not> ends_replacement (conv (a @ l))" using assms by (auto simp: suffix_def)
    then show ?thesis using conv_local[OF False a(2), of p] conv_keeps[OF False a(2), of p] False by (auto simp: prefix_def)
  qed
  then show "conv (d @ p) = conv d @ drop (length (if l \<noteq> [] then conv l else [])) (conv (l @ p))"
    and "\<exists>x. conv (l @ p) = (if l \<noteq> [] then conv l else []) @ x" by blast+
qed

lemma extend_complete:
  assumes "d = [] \<and> l = [] \<or> l \<noteq> [] \<and> suffix l d \<and> \<not> ends_replacement (conv d)"
    and "length (rstrip (if l \<noteq> [] then conv l else [])) < length (rstrip (conv (l @ p)))" "\<not> ends_replacement (conv (l @ p))"
  shows "p \<noteq> [] \<and> \<not> ends_replacement (conv (d @ p))"
proof -
  obtain x where x: "conv (l @ p) = (if l \<noteq> [] then conv l else []) @ x" using extend_decoded(2)[OF assms(1)] by blast
  have "x \<noteq> []" using assms(2) unfolding x by auto
  moreover have "conv (d @ p) = conv d @ x" using extend_decoded(1)[OF assms(1), of p] unfolding x by simp
  ultimately have "\<not> ends_replacement (conv (d @ p))" using assms(3) unfolding x ends_replacement_def by auto
  moreover have "p \<noteq> []" using assms(2) conv_Nil by (auto split: if_splits)
  ultimately show ?thesis by simp
qed

end

lemma trtllm_step:
  assumes lc: "local_conversion (convert_tokens_to_string T skip spaces)"
    and inv: "detok_inv (convert_tokens_to_string T skip spaces) ts s st" and clean: "(case clean_opt of Some b \<Rightarrow> b | None \<Rightarrow> clean_up_spaces T) = False"
    and step: "trtllm_decode_incrementally T skip spaces clean_opt do_flush ids s st = (s', st')"
  shows "(\<not> do_flush \<longrightarrow> detok_inv (convert_tokens_to_string T skip spaces) (ts @ new_tokens T skip ids) s' (Some st'))
     \<and> (do_flush \<longrightarrow> s' = convert_tokens_to_string T skip spaces (ts @ new_tokens T skip ids)) \<and> prefix s s'"
proof -
  let ?conv = "convert_tokens_to_string T skip spaces"
  obtain l p where lp: "(case st of Some (Trtllm_State l p) \<Rightarrow> (l, p) | _ \<Rightarrow> ([], [])) = (l, p)" by (metis surj_pair)
  obtain d where d: "ts = d @ p" "s = ?conv d" "d = [] \<and> l = [] \<or> l \<noteq> [] \<and> suffix l d \<and> \<not> ends_replacement (?conv d)"
  proof (cases st)
    case None
    then show ?thesis using that[of "[]"] inv lp local_conversion.conv_Nil[OF lc] by (auto simp: detok_inv_def)
  next
    case (Some x)
    then show ?thesis using that inv lp by (cases x) (auto simp: detok_inv_def)
  qed
  define q where "q = p @ new_tokens T skip ids"
  have all: "ts @ new_tokens T skip ids = d @ q" by (simp add: d(1) q_def)
  define lt where "lt = (if l \<noteq> [] then ?conv l else [])"
  define hold where "hold \<longleftrightarrow> \<not> do_flush \<and> (length (rstrip (?conv (l @ q))) \<le> length (rstrip lt) \<or> ends_replacement (?conv (l @ q)))"
  have "trtllm_decode_incrementally T skip spaces clean_opt do_flush ids s st = (if hold then (s, Trtllm_State l q) else (s @ drop (length lt) (?conv (l @ q)), Trtllm_State q []))"
    unfolding trtllm_decode_incrementally_def Let_def lp prod.case clean if_False lt_def[symmetric] q_def[symmetric] hold_def[symmetric] by (rule refl)
  then have res: "(s', st') = (if hold then (s, Trtllm_State l q) else (s @ drop (length lt) (?conv (l @ q)), Trtllm_State q []))" using step by simp
  show ?thesis
  proof (cases hold)
    case True
    then have "s' = s" "st' = Trtllm_State l q" "\<not> do_flush" using res by (simp_all add: hold_def)
    then show ?thesis using d all by (auto simp: detok_inv_def)
  next
    case False
    then have r: "s' = s @ drop (length lt) (?conv (l @ q))" "st' = Trtllm_State q []" using res by simp_all
    have s': "s' = ?conv (d @ q)" using r(1) d(2) local_conversion.extend_decoded(1)[OF lc d(3), of q] by (simp add: lt_def)
    have "detok_inv ?conv (d @ q) s' (Some st')" if "\<not> do_flush"
    proof -
      have "q \<noteq> [] \<and> \<not> ends_replacement (?conv (d @ q))"
        using local_conversion.extend_complete[OF lc d(3), of q] False that by (simp add: hold_def lt_def)
      then show ?thesis using s' r(2) by (auto simp: detok_inv_def suffix_def)
    qed
    moreover have "prefix s s'" using r(1) by simp
    ultimately show ?thesis using s' all by simp
  qed
qed

section \<open>Byte-level tokens\<close>

text \<open>
  A conversion that has the laws: a token is a sequence of bytes, a lead byte and a continuation byte together are one character, and a byte that is not part of a
  character is replaced.
\<close>

definition lead :: char where "lead = CHR 0xC3"

definition cont :: "char \<Rightarrow> bool" where "cont c \<longleftrightarrow> c \<in> set [CHR 0x80, CHR 0x81]"

fun decode_bytes :: "string \<Rightarrow> string" where
  "decode_bytes [] = []"
| "decode_bytes [x] = [if x = lead \<or> cont x then replacement else x]"
| "decode_bytes (x # y # r) =
     (if x = lead \<and> cont y then (if y = CHR 0x80 then CHR 0xE0 else CHR 0xE1) # decode_bytes r
      else (if x = lead \<or> cont x then replacement else x) # decode_bytes (y # r))"

definition byte_tokenizer :: "nat hf_tokenizer" where
  \<comment> \<open>the token of \<open>i\<close> is the byte \<open>i\<close>; \<open>0\<close> is not a token\<close>
  "byte_tokenizer = \<lparr>ids_to_tokens = (\<lambda>skip is1. map (\<lambda>i. if i = 0 then None else Some [char_of (nat i)]) is1), raw_tokens_to_string = (\<lambda>ts. decode_bytes (concat ts)),
     is_fast = True, added_vocab = [], all_special_tokens = [], clean_up_spaces = False, clean_up = id, has_backend = False, new_stream = (\<lambda>_. 0), stream_step = (\<lambda>d i. (None, d)),
     hf_decode = (\<lambda>skip spaces is1. decode_bytes (map (char_of \<circ> nat) is1))\<rparr>"

lemma lead_not_cont: "\<not> cont lead"
  by (simp add: cont_def lead_def)

lemma decode_bytes_append: "xs = [] \<or> last xs \<noteq> lead \<Longrightarrow> decode_bytes (xs @ ys) = decode_bytes xs @ decode_bytes ys"
proof (induction xs rule: decode_bytes.induct)
  case (2 x)
  then show ?case by (cases ys) simp_all
qed (auto split: if_splits)

lemma decode_bytes_Nil: "decode_bytes xs = [] \<longleftrightarrow> xs = []"
  by (cases xs rule: decode_bytes.cases) auto

lemma last_decode_bytes: "xs \<noteq> [] \<Longrightarrow> last xs = lead \<Longrightarrow> last (decode_bytes xs) = replacement"
proof (induction xs rule: decode_bytes.induct)
  case (3 x y r)
  show ?case
  proof (cases "x = lead \<and> cont y")
    case True
    then have "r \<noteq> []" using "3.prems" lead_not_cont by auto
    then show ?thesis using 3 True decode_bytes_Nil[of r] by simp
  next
    case False
    then show ?thesis using 3 decode_bytes_Nil[of "y # r"] by auto
  qed
qed auto

lemma complete_bytes: "\<not> ends_replacement (decode_bytes xs) \<Longrightarrow> xs = [] \<or> last xs \<noteq> lead"
  using last_decode_bytes[of xs] decode_bytes_Nil[of xs] by (auto simp: ends_replacement_def)

interpretation bytes: local_conversion "convert_tokens_to_string byte_tokenizer skip spaces" for skip spaces
proof
  have c: "convert_tokens_to_string byte_tokenizer skip spaces ts = decode_bytes (concat ts)" for ts by (simp add: convert_tokens_to_string_def byte_tokenizer_def)
  show "convert_tokens_to_string byte_tokenizer skip spaces [] = []" by (simp add: c)
  fix a b d :: "string list"
  assume "\<not> ends_replacement (convert_tokens_to_string byte_tokenizer skip spaces (a @ b))"
  then have l: "concat a @ concat b = [] \<or> last (concat a @ concat b) \<noteq> lead" using complete_bytes[of "concat a @ concat b"] by (simp add: c)
  then have lb: "concat b = [] \<or> last (concat b) \<noteq> lead" by (metis append_is_Nil_conv last_appendR)
  have 1: "decode_bytes ((concat a @ concat b) @ concat d) = decode_bytes (concat a @ concat b) @ decode_bytes (concat d)" by (rule decode_bytes_append[OF l])
  have 2: "decode_bytes (concat b @ concat d) = decode_bytes (concat b) @ decode_bytes (concat d)" by (rule decode_bytes_append[OF lb])
  show "convert_tokens_to_string byte_tokenizer skip spaces (a @ b @ d) = convert_tokens_to_string byte_tokenizer skip spaces (a @ b)
     @ drop (length (convert_tokens_to_string byte_tokenizer skip spaces b)) (convert_tokens_to_string byte_tokenizer skip spaces (b @ d))"
    using 1 2 by (simp add: c)
  show "prefix (convert_tokens_to_string byte_tokenizer skip spaces b) (convert_tokens_to_string byte_tokenizer skip spaces (b @ d))" using 2 by (simp add: c)
qed

end
