(* ===== verification/Generation_Result.thy ===== *)
theory Generation_Result
  imports Detokenizer Finish_Reasons "HOL-Library.Option_ord"
begin

text \<open>
  The result of a generation request as the client sees it, \<open>executor/result.py\<close>: \<open>CompletionOutput\<close>, the handling of the responses of the
  executor by \<open>GenerationResultBase\<close> and \<open>DetokenizedGenerationResultBase\<close>, the selection of the best outputs, and the iteration and waiting of
  \<open>GenerationResult\<close>; with the stop words of \<open>sampling_params.py\<close>.

  Log probabilities are of a type \<open>'f\<close> with an order; rows of logits, entries of log probabilities and other data that is only passed on are of a type \<open>'x\<close>. Metrics, tracing and
  multimodal handles are left out. The handler of background errors is an argument. What an exception leaves behind in the result is not modelled.
\<close>

section \<open>Stop words\<close>

datatype stop_reason = Stop_Token int | Stop_String string

record sampling_params =
  n_outputs :: nat
  best_of :: nat
  use_beam_search :: bool
  stop_token_ids :: "int list option"
  stop_strings :: "string list option" \<comment> \<open>a single string as a list\<close>
  stop_word_ids :: "int list list option"
  include_stop_str_in_output :: bool
  skip_special_tokens :: bool
  spaces_between_special_tokens :: bool
  detokenize :: bool
  sp_stream_interval :: int

definition get_stop_words :: "sampling_params \<Rightarrow> int list list result" where
  "get_stop_words P =
     (let words = (case stop_token_ids P of Some is1 \<Rightarrow> map (\<lambda>i. [i]) is1 | None \<Rightarrow> []) in
      case stop_strings P of
        None \<Rightarrow> Inr words
      | Some _ \<Rightarrow> (case stop_word_ids P of None \<Rightarrow> Inl RuntimeError | Some ws \<Rightarrow> Inr (words @ ws)))"

definition get_stop_reasons_and_words :: "sampling_params \<Rightarrow> (stop_reason \<times> int list) list result" where
  "get_stop_reasons_and_words P =
     res_bind (get_stop_words P) (\<lambda>ws.
       Inr (zip ((case stop_token_ids P of Some is1 \<Rightarrow> map Stop_Token is1 | None \<Rightarrow> []) @ (case stop_strings P of Some ss \<Rightarrow> map Stop_String ss | None \<Rightarrow> [])) ws))"

section \<open>Outputs and responses\<close>

record 'x gen_disagg =
  gd_request_type :: "string option"
  gd_first_gen_tokens :: "int list option"
  gd_ctx_request_id :: "int option"
  gd_opaque_state :: "'x option"
  gd_draft_tokens :: "int list option"
  gd_embedding_handles :: "'x option"

definition no_disagg :: "'x gen_disagg" where
  "no_disagg = \<lparr>gd_request_type = None, gd_first_gen_tokens = None, gd_ctx_request_id = None, gd_opaque_state = None, gd_draft_tokens = None, gd_embedding_handles = None\<rparr>"

record ('f, 'x, 'd) completion_output =
  out_index :: nat
  out_text :: string
  token_ids :: "int list"
  cumulative_logprob :: "'f option"
  out_logprobs :: "'x list"
  prompt_logprobs :: "'x list"
  out_finish_reason :: "string option"
  out_stop_reason :: "stop_reason option"
  out_generation_logits :: "'x list option"
  additional_context :: "'x option"
  additional_generation :: "'x option"
  out_disagg :: "'x gen_disagg option"
  perf_metrics :: "'x option"
  last_text_len :: nat
  last_token_ids_len :: nat
  last_logprobs_len :: nat
  incremental_states :: "'d detok_state option"
  postprocess_result :: "'x option"

definition completion_output_init :: "nat \<Rightarrow> ('f, 'x, 'd) completion_output" where
  "completion_output_init i = \<lparr>out_index = i, out_text = [], token_ids = [], cumulative_logprob = None, out_logprobs = [], prompt_logprobs = [], out_finish_reason = None, out_stop_reason = None,
     out_generation_logits = None, additional_context = None, additional_generation = None, out_disagg = None, perf_metrics = None, last_text_len = 0, last_token_ids_len = 0, last_logprobs_len = 0,
     incremental_states = None, postprocess_result = None\<rparr>"

definition text_diff :: "('f, 'x, 'd) completion_output \<Rightarrow> string" where
  "text_diff o1 = drop (last_text_len o1) (out_text o1)"

definition token_ids_diff :: "('f, 'x, 'd) completion_output \<Rightarrow> int list" where
  "token_ids_diff o1 = drop (last_token_ids_len o1) (token_ids o1)"

definition logprobs_diff :: "('f, 'x, 'd) completion_output \<Rightarrow> 'x list" where
  "logprobs_diff o1 = drop (last_logprobs_len o1) (out_logprobs o1)"

record ('f, 'x) llm_result =
  is_final :: bool
  rs_decoding_iter :: int
  rs_cached_tokens :: int
  rs_avg_decoded :: "'x option"
  context_phase_params :: "(int list \<times> int \<times> 'x option \<times> int list option) option" \<comment> \<open>first tokens, request id, state and draft tokens\<close>
  finish_reasons :: "FinishReason list"
  output_token_ids :: "int list list"
  sequence_index :: int
  cum_log_probs :: "'f list option"
  rs_log_probs :: "'x list list option"
  rs_generation_logits :: "'x list list option"
  rs_context_logits :: "'x option"
  rs_additional_context :: "'x option"
  rs_additional_generation :: "'x option"
  rs_perf_metrics :: "'x option"

record 'x logprobs_result =
  lr_prompt :: "'x list option"
  lr_generation :: "'x list option"

datatype ('f, 'x, 'd) response =
    Llm_Response "string option" "'x logprobs_result option" "('f, 'x) llm_result" \<comment> \<open>an error message, log probabilities computed later and the result\<close>
  | Error_Response string
  | Postproc_Output bool "('f, 'x, 'd) completion_output + 'x" string "'x option" "'x gen_disagg option" \<comment> \<open>final, result, error, metrics and parameters\<close>

record ('f, 'x, 'd) gen_result =
  gr_params :: sampling_params
  gr_streaming :: bool
  gr_done :: bool
  gr_disagg :: "'x gen_disagg option"
  gr_decoding_iter :: int
  gr_cached_tokens :: int
  gr_avg_decoded :: "'x option"
  gr_outputs :: "('f, 'x, 'd) completion_output list"
  gr_context_logits :: "'x option"

definition gen_result_init :: "sampling_params \<Rightarrow> bool \<Rightarrow> 'x gen_disagg option \<Rightarrow> ('f, 'x, 'd) gen_result" where
  "gen_result_init P strm dp = \<lparr>gr_params = P, gr_streaming = strm, gr_done = False, gr_disagg = dp, gr_decoding_iter = 0, gr_cached_tokens = 0, gr_avg_decoded = None,
     gr_outputs = map completion_output_init [0..<best_of P], gr_context_logits = None\<rparr>"

section \<open>Handling a sequence\<close>

definition use_trtllm_sampler :: "sampling_params \<Rightarrow> bool" where
  "use_trtllm_sampler P \<longleftrightarrow> use_beam_search P \<and> best_of P > 1"

definition store_tokens :: "sampling_params \<Rightarrow> 'x gen_disagg option \<Rightarrow> ('f, 'x) llm_result \<Rightarrow> int \<Rightarrow> ('f, 'x, 'd) completion_output \<Rightarrow> ('f, 'x, 'd) completion_output result" where
  "store_tokens P dp r src o1 =
     res_bind (py_index (output_token_ids r) src) (\<lambda>ids.
       let o2 = o1\<lparr>out_disagg := dp, last_token_ids_len := length (token_ids o1), token_ids := (if use_beam_search P then ids else token_ids o1 @ ids)\<rparr> in
       case cum_log_probs r of
         None \<Rightarrow> Inr o2
       | Some ps \<Rightarrow> res_bind (py_index ps src) (\<lambda>p. Inr (o2\<lparr>cumulative_logprob := Some p\<rparr>)))"

definition store_logprobs :: "sampling_params \<Rightarrow> 'x logprobs_result option \<Rightarrow> ('f, 'x) llm_result \<Rightarrow> int \<Rightarrow> ('f, 'x, 'd) completion_output \<Rightarrow> ('f, 'x, 'd) completion_output result" where
  "store_logprobs P lr r src o0 =
     (let o1 = (case lr of Some l \<Rightarrow> (case lr_prompt l of Some p \<Rightarrow> o0\<lparr>prompt_logprobs := p\<rparr> | None \<Rightarrow> o0) | None \<Rightarrow> o0); len = length (out_logprobs o1) in
      case (case lr of Some l \<Rightarrow> lr_generation l | None \<Rightarrow> None) of
        Some g \<Rightarrow> Inr (o1\<lparr>last_logprobs_len := len, out_logprobs := out_logprobs o1 @ g\<rparr>)
      | None \<Rightarrow>
          (case rs_log_probs r of
             None \<Rightarrow> Inr o1
           | Some lps \<Rightarrow>
               res_bind (py_index lps src) (\<lambda>lp.
                 if use_trtllm_sampler P \<and> \<not> len \<le> length lp then Inl AssertionError
                 else
                   let o2 = o1\<lparr>last_logprobs_len := len, out_logprobs := out_logprobs o1 @ (if use_trtllm_sampler P then drop len lp else lp)\<rparr> in
                   res_bind (py_index (finish_reasons r) src) (\<lambda>fr.
                     let o3 = (if fr \<noteq> CANCELLED \<and> use_trtllm_sampler P \<and> length (out_logprobs o2) > length (token_ids o2)
                               then o2\<lparr>out_logprobs := take (length (token_ids o2)) (out_logprobs o2)\<rparr> else o2) in
                     res_bind (py_assert (length (out_logprobs o3) = length (token_ids o3))) (\<lambda>_. Inr o3)))))"

definition store_extras :: "('f, 'x) llm_result \<Rightarrow> int \<Rightarrow> ('f, 'x, 'd) completion_output \<Rightarrow> ('f, 'x, 'd) completion_output result" where
  "store_extras r src o0 =
     res_bind (case rs_generation_logits r of
                 None \<Rightarrow> Inr o0
               | Some rows \<Rightarrow> res_bind (py_index rows src) (\<lambda>row. Inr (o0\<lparr>out_generation_logits := Some (take (length (token_ids o0)) row)\<rparr>))) (\<lambda>o1.
       let o2 = (case rs_additional_context r of Some x \<Rightarrow> o1\<lparr>additional_context := Some x\<rparr> | None \<Rightarrow> o1);
           o3 = (case rs_additional_generation r of Some x \<Rightarrow> o2\<lparr>additional_generation := Some x\<rparr> | None \<Rightarrow> o2) in
       res_bind (if finish_reasons r = [] then Inr o3 else res_bind (py_index (finish_reasons r) src) (\<lambda>fr. Inr (if fr = CANCELLED then o3\<lparr>out_finish_reason := Some ''cancelled''\<rparr> else o3))) (\<lambda>o4.
       Inr (case rs_perf_metrics r of Some x \<Rightarrow> o4\<lparr>perf_metrics := Some x\<rparr> | None \<Rightarrow> o4)))"

definition last_tokens :: "nat \<Rightarrow> 'a list \<Rightarrow> 'a list" where
  \<comment> \<open>\<open>xs[-k:]\<close>\<close>
  "last_tokens k xs = (if k = 0 then xs else drop (length xs - k) xs)"

definition without_last :: "nat \<Rightarrow> 'a list \<Rightarrow> 'a list" where
  \<comment> \<open>\<open>xs[:-k]\<close>\<close>
  "without_last k xs = (if k = 0 then [] else take (length xs - k) xs)"

fun match_stop_word :: "bool \<Rightarrow> (stop_reason \<times> int list) list \<Rightarrow> ('f, 'x, 'd) completion_output \<Rightarrow> ('f, 'x, 'd) completion_output" where
  "match_stop_word keep [] o1 = o1"
| "match_stop_word keep ((reason, ids) # ws) o1 =
     (if last_tokens (length ids) (token_ids o1) = ids
      then let o2 = o1\<lparr>out_stop_reason := Some reason\<rparr> in if keep then o2 else o2\<lparr>token_ids := without_last (length ids) (token_ids o2)\<rparr>
      else match_stop_word keep ws o1)"

definition finish_sequence :: "sampling_params \<Rightarrow> 'x gen_disagg option \<Rightarrow> bool \<Rightarrow> ('f, 'x) llm_result \<Rightarrow> int \<Rightarrow> ('f, 'x, 'd) completion_output \<Rightarrow> ('f, 'x, 'd) completion_output result" where
  "finish_sequence P dp done1 r src o1 =
     res_bind (if finish_reasons r = [] then Inr False else res_bind (py_index (finish_reasons r) src) (\<lambda>fr. Inr (fr \<noteq> NOT_FINISHED \<and> fr \<noteq> CANCELLED))) (\<lambda>fin.
       if \<not> (fin \<or> done1) then Inr o1
       else
         res_bind (py_index (finish_reasons r) src) (\<lambda>fr.
           case fr of
             END_ID \<Rightarrow> Inr (o1\<lparr>out_finish_reason := Some ''stop''\<rparr>)
           | STOP_WORDS \<Rightarrow> res_bind (get_stop_reasons_and_words P) (\<lambda>ws. Inr (match_stop_word (include_stop_str_in_output P) ws (o1\<lparr>out_finish_reason := Some ''stop''\<rparr>)))
           | FinishReason.LENGTH \<Rightarrow> Inr (o1\<lparr>out_finish_reason := Some ''length''\<rparr>)
           | TIMED_OUT \<Rightarrow> Inr (o1\<lparr>out_finish_reason := Some ''timeout''\<rparr>)
           | NOT_FINISHED \<Rightarrow> (case dp of
               Some d \<Rightarrow> if gd_request_type d = Some ''context_only'' then Inr (o1\<lparr>out_finish_reason := Some ''not_finished''\<rparr>) else Inl ValueError
             | None \<Rightarrow> Inl ValueError)
           | CANCELLED \<Rightarrow> Inr o1))"

definition handle_sequence :: "'x logprobs_result option \<Rightarrow> ('f, 'x) llm_result \<Rightarrow> int \<Rightarrow> ('f, 'x, 'd) gen_result \<Rightarrow> ('f, 'x, 'd) gen_result result" where
  "handle_sequence lr r seq_idx g =
     (let P = gr_params g; src = (if use_beam_search P then seq_idx else 0) in
      res_bind (py_index (gr_outputs g) seq_idx) (\<lambda>o0.
      res_bind (store_tokens P (gr_disagg g) r src o0) (\<lambda>o1.
      res_bind (store_logprobs P lr r src o1) (\<lambda>o2.
      res_bind (store_extras r src o2) (\<lambda>o3.
      res_bind (finish_sequence P (gr_disagg g) (gr_done g) r src o3) (\<lambda>o4.
        Inr (g\<lparr>gr_outputs := (gr_outputs g)[py_pos (length (gr_outputs g)) seq_idx := o4]\<rparr>)))))))"

section \<open>Handling a response\<close>

type_synonym error_handler = "(string option \<Rightarrow> py_error option) option"

definition call_handler :: "error_handler \<Rightarrow> string option \<Rightarrow> unit result" where
  \<comment> \<open>the handler of background errors, if there is one, may raise\<close>
  "call_handler H msg = (case H of None \<Rightarrow> Inr () | Some h \<Rightarrow> (case h msg of Some e \<Rightarrow> Inl e | None \<Rightarrow> Inr ()))"

definition take_disagg :: "('f, 'x) llm_result \<Rightarrow> 'x gen_disagg option \<Rightarrow> 'x gen_disagg option" where
  "take_disagg r dp =
     (case context_phase_params r of
        None \<Rightarrow> dp
      | Some (first, req, st, drafts) \<Rightarrow>
          Some ((case dp of Some d \<Rightarrow> d | None \<Rightarrow> no_disagg)
            \<lparr>gd_request_type := Some ''context_only'', gd_first_gen_tokens := Some first, gd_ctx_request_id := Some req, gd_opaque_state := st, gd_draft_tokens := drafts, gd_embedding_handles := None\<rparr>))"

definition base_handle_response :: "error_handler \<Rightarrow> ('f, 'x, 'd) response \<Rightarrow> ('f, 'x, 'd) gen_result \<Rightarrow> ('f, 'x, 'd) gen_result result" where
  "base_handle_response H resp g =
     (case resp of
        Postproc_Output fin re err met dp \<Rightarrow>
          res_bind (py_index (gr_outputs g) 0) (\<lambda>o0.
            let o1 = (case re of Inl o1 \<Rightarrow> o1 | Inr x \<Rightarrow> o0\<lparr>postprocess_result := Some x\<rparr>);
                o2 = o1\<lparr>perf_metrics := met\<rparr>;
                o3 = (if out_disagg o2 = None then o2\<lparr>out_disagg := (if dp = None then gr_disagg g else dp)\<rparr> else o2);
                g1 = g\<lparr>gr_done := fin, gr_outputs := (gr_outputs g)[0 := o3]\<rparr> in
            if err \<noteq> [] then res_bind (call_handler H (Some err)) (\<lambda>_. Inr g1) else Inr g1)
      | Llm_Response msg lr r \<Rightarrow>
          res_bind (case msg of Some m \<Rightarrow> call_handler H (Some m) | None \<Rightarrow> Inr ()) (\<lambda>_.
            let g1 = g\<lparr>gr_done := is_final r, gr_decoding_iter := rs_decoding_iter r, gr_cached_tokens := rs_cached_tokens r, gr_avg_decoded := rs_avg_decoded r,
                       gr_disagg := take_disagg r (gr_disagg g)\<rparr> in
            res_bind (if use_beam_search (gr_params g1) then res_fold (handle_sequence lr r) (map int [0..<length (output_token_ids r)]) g1
                      else handle_sequence lr r (sequence_index r) g1) (\<lambda>g2.
            let g3 = (case rs_context_logits r of Some x \<Rightarrow> g2\<lparr>gr_context_logits := Some x\<rparr> | None \<Rightarrow> g2) in
            res_bind (call_handler H None) (\<lambda>_. Inr g3)))
      | Error_Response msg \<Rightarrow> res_bind (call_handler H (Some msg)) (\<lambda>_. Inr g))"

section \<open>The outputs\<close>

definition ranked :: "('f :: linorder, 'x, 'd) completion_output list \<Rightarrow> nat list" where
  \<comment> \<open>the positions by falling log probability, first ones first among equals; no log probability counts as minus infinity\<close>
  "ranked outs = rev (sort_key (\<lambda>p. cumulative_logprob (outs ! p)) (rev [0..<length outs]))"

definition in_order :: "sampling_params \<Rightarrow> bool" where
  "in_order P \<longleftrightarrow> use_beam_search P \<or> n_outputs P = best_of P"

definition reindex :: "('f :: linorder, 'x, 'd) gen_result \<Rightarrow> ('f, 'x, 'd) gen_result" where
  \<comment> \<open>what reading \<open>outputs\<close> changes\<close>
  "reindex g =
     (if in_order (gr_params g) then g
      else g\<lparr>gr_outputs := fold (\<lambda>(i, p) os. os[p := (os ! p)\<lparr>out_index := i\<rparr>]) (zip [0..<length (gr_outputs g)] (ranked (gr_outputs g))) (gr_outputs g)\<rparr>)"

definition output_positions :: "('f :: linorder, 'x, 'd) gen_result \<Rightarrow> nat list" where
  "output_positions g = take (n_outputs (gr_params g)) (if in_order (gr_params g) then [0..<length (gr_outputs g)] else ranked (gr_outputs g))"

definition outputs :: "('f :: linorder, 'x, 'd) gen_result \<Rightarrow> ('f, 'x, 'd) completion_output list" where
  "outputs g = map ((!) (gr_outputs (reindex g))) (output_positions g)"

section \<open>Detokenization\<close>

fun cut_at_stop :: "bool \<Rightarrow> (stop_reason \<times> int list) list \<Rightarrow> ('f, 'x, 'd) completion_output \<Rightarrow> ('f, 'x, 'd) completion_output option" where
  \<comment> \<open>\<open>None\<close> when no stop string occurs\<close>
  "cut_at_stop keep [] o1 = None"
| "cut_at_stop keep ((Stop_Token _, _) # ws) o1 = cut_at_stop keep ws o1"
| "cut_at_stop keep ((Stop_String s, _) # ws) o1 =
     (case str_find s (out_text o1) of
        Some i \<Rightarrow> Some (o1\<lparr>out_text := take (if keep then i + length s else i) (out_text o1), out_finish_reason := Some ''stop'', out_stop_reason := Some (Stop_String s)\<rparr>)
      | None \<Rightarrow> cut_at_stop keep ws o1)"

definition detok_output :: "detok_config \<Rightarrow> 'd hf_tokenizer \<Rightarrow> bool \<Rightarrow> sampling_params \<Rightarrow> bool \<Rightarrow> bool \<Rightarrow> ('f, 'x, 'd) completion_output \<Rightarrow> (bool \<times> ('f, 'x, 'd) completion_output) result" where
  \<comment> \<open>\<open>incremental\<close>: has the tokenizer \<open>decode_incrementally\<close>? The result says whether the request is done.\<close>
  "detok_output cfg T incremental P strm done1 o0 =
     (let o1 = o0\<lparr>last_text_len := length (out_text o0)\<rparr>; skip = skip_special_tokens P; spaces = spaces_between_special_tokens P in
      res_bind (if incremental \<and> strm \<and> \<not> use_beam_search P
                then res_bind (decode_incrementally cfg T skip spaces None (sp_stream_interval P) done1 (token_ids_diff o1) (out_text o1) (incremental_states o1))
                       (\<lambda>(s, st). Inr (o1\<lparr>out_text := s, incremental_states := Some st\<rparr>))
                else Inr (o1\<lparr>out_text := hf_decode T skip spaces (token_ids o1)\<rparr>)) (\<lambda>o2.
      if \<not> done1 \<or> out_finish_reason o2 = Some ''stop'' \<or> out_finish_reason o2 = Some ''length'' then
        res_bind (get_stop_reasons_and_words P) (\<lambda>ws.
          case cut_at_stop (include_stop_str_in_output P) ws o2 of Some o3 \<Rightarrow> Inr (True, o3) | None \<Rightarrow> Inr (done1, o2))
      else Inr (done1, o2)))"

fun detok_outputs :: "detok_config \<Rightarrow> 'd hf_tokenizer \<Rightarrow> bool \<Rightarrow> nat list \<Rightarrow> ('f, 'x, 'd) gen_result \<Rightarrow> ('f, 'x, 'd) gen_result result" where
  "detok_outputs cfg T incremental [] g = Inr g"
| "detok_outputs cfg T incremental (p # ps) g =
     res_bind (detok_output cfg T incremental (gr_params g) (gr_streaming g) (gr_done g) (gr_outputs g ! p)) (\<lambda>(d, o1).
       detok_outputs cfg T incremental ps (g\<lparr>gr_done := d, gr_outputs := (gr_outputs g)[p := o1]\<rparr>))"

definition detok_handle_response :: "detok_config \<Rightarrow> 'd hf_tokenizer option \<Rightarrow> bool \<Rightarrow> error_handler \<Rightarrow> ('f :: linorder, 'x, 'd) response \<Rightarrow> ('f, 'x, 'd) gen_result \<Rightarrow> ('f, 'x, 'd) gen_result result" where
  "detok_handle_response cfg tok incremental H resp g =
     res_bind (base_handle_response H resp g) (\<lambda>g1.
       case resp of
         Postproc_Output _ _ _ _ _ \<Rightarrow> Inr g1
       | _ \<Rightarrow>
           (case tok of
              Some T \<Rightarrow> if detokenize (gr_params g1) then detok_outputs cfg T incremental (output_positions g1) (reindex g1) else Inr g1
            | None \<Rightarrow> Inr g1))"

section \<open>Waiting and iterating\<close>

fun result_loop :: "(('f, 'x, 'd) response \<Rightarrow> ('f, 'x, 'd) gen_result \<Rightarrow> ('f, 'x, 'd) gen_result result) \<Rightarrow> ('f, 'x, 'd) response list \<Rightarrow> ('f, 'x, 'd) gen_result \<Rightarrow> ('f, 'x, 'd) gen_result result option" where
  \<comment> \<open>\<open>result\<close> on the responses that come in; \<open>None\<close> is waiting for more\<close>
  "result_loop handle [] g = (if gr_done g then Some (Inr g) else None)"
| "result_loop handle (r # rs) g =
     (if gr_done g then Some (Inr g)
      else case handle r g of Inl e \<Rightarrow> Some (Inl e) | Inr g1 \<Rightarrow> result_loop handle rs g1)"

fun iterate :: "(('f, 'x, 'd) response \<Rightarrow> ('f, 'x, 'd) gen_result \<Rightarrow> ('f, 'x, 'd) gen_result result) \<Rightarrow> ('f, 'x, 'd) response list \<Rightarrow> ('f, 'x, 'd) gen_result \<Rightarrow> ('f, 'x, 'd) gen_result list result" where
  \<comment> \<open>the results that \<open>__next__\<close> gives\<close>
  "iterate handle [] g = Inr []"
| "iterate handle (r # rs) g =
     (if gr_done g then Inr []
      else res_bind (handle r g) (\<lambda>g1. res_bind (iterate handle rs g1) (\<lambda>gs. Inr (g1 # gs))))"

section \<open>One sampled output\<close>

definition sampled_response :: "bool \<Rightarrow> int list \<Rightarrow> 'x list \<Rightarrow> FinishReason \<Rightarrow> bool \<Rightarrow> ('f, 'x, 'd) response \<Rightarrow> bool" where
  \<comment> \<open>a response with the tokens \<open>ids\<close> of the first sequence and, if \<open>lp\<close>, their log probabilities\<close>
  "sampled_response lp ids ls fr fin resp \<longleftrightarrow>
     (case resp of
        Llm_Response None None r \<Rightarrow> is_final r = fin \<and> output_token_ids r = [ids] \<and> sequence_index r = 0 \<and> finish_reasons r = [fr]
          \<and> cum_log_probs r \<noteq> Some [] \<and> rs_generation_logits r \<noteq> Some [] \<and> length ls = length ids \<and> rs_log_probs r = (if lp then Some [ls] else None)
      | _ \<Rightarrow> False)"

definition finish_name :: "FinishReason \<Rightarrow> string option" where
  "finish_name fr = (case fr of END_ID \<Rightarrow> Some ''stop'' | FinishReason.LENGTH \<Rightarrow> Some ''length'' | TIMED_OUT \<Rightarrow> Some ''timeout'' | _ \<Rightarrow> None)"

definition plain_finish :: "FinishReason \<Rightarrow> bool \<Rightarrow> bool" where
  \<comment> \<open>not finished, or finished for a reason that leaves the tokens as they are\<close>
  "plain_finish fr fin \<longleftrightarrow> (if fin then fr \<in> set [END_ID, FinishReason.LENGTH, TIMED_OUT] else fr = NOT_FINISHED)"

lemma handle_sampled:
  assumes "sampled_response lp ids ls fr fin resp" "gr_outputs g = [o1]" "gr_params g = P" "\<not> use_beam_search P" "call_handler H None = Inr ()" "plain_finish fr fin"
    and "lp \<Longrightarrow> length (out_logprobs o1) = length (token_ids o1)"
  shows "\<exists>g' o2. base_handle_response H resp g = Inr g' \<and> gr_outputs g' = [o2] \<and> gr_params g' = P \<and> gr_done g' = fin \<and> gr_streaming g' = gr_streaming g
     \<and> token_ids o2 = token_ids o1 @ ids \<and> last_token_ids_len o2 = length (token_ids o1) \<and> out_text o2 = out_text o1 \<and> incremental_states o2 = incremental_states o1
     \<and> (lp \<longrightarrow> out_logprobs o2 = out_logprobs o1 @ ls \<and> last_logprobs_len o2 = length (out_logprobs o1))
     \<and> (fin \<longrightarrow> out_finish_reason o2 = finish_name fr) \<and> (\<not> fin \<longrightarrow> out_finish_reason o2 = out_finish_reason o1) \<and> out_index o2 = out_index o1"
proof -
  obtain r where r: "resp = Llm_Response None None r" "is_final r = fin" "output_token_ids r = [ids]" "sequence_index r = 0" "finish_reasons r = [fr]"
    "cum_log_probs r \<noteq> Some []" "rs_generation_logits r \<noteq> Some []" "length ls = length ids" "rs_log_probs r = (if lp then Some [ls] else None)"
    using assms(1) by (auto simp: sampled_response_def split: response.splits option.splits)
  let ?dp = "take_disagg r (gr_disagg g)"
  have nt: "\<not> use_trtllm_sampler P" using assms(4) by (simp add: use_trtllm_sampler_def)
  have "\<exists>o2. store_tokens P ?dp r 0 o1 = Inr o2 \<and> token_ids o2 = token_ids o1 @ ids \<and> last_token_ids_len o2 = length (token_ids o1) \<and> out_text o2 = out_text o1
     \<and> incremental_states o2 = incremental_states o1 \<and> out_logprobs o2 = out_logprobs o1 \<and> out_finish_reason o2 = out_finish_reason o1 \<and> out_index o2 = out_index o1"
    using r(3,6) assms(4) by (cases "cum_log_probs r") (simp_all add: store_tokens_def py_index_def)
  then obtain o2 where 1: "store_tokens P ?dp r 0 o1 = Inr o2" "token_ids o2 = token_ids o1 @ ids" "last_token_ids_len o2 = length (token_ids o1)" "out_text o2 = out_text o1"
    "incremental_states o2 = incremental_states o1" "out_logprobs o2 = out_logprobs o1" "out_finish_reason o2 = out_finish_reason o1" "out_index o2 = out_index o1" by blast
  have "\<exists>o3. store_logprobs P None r 0 o2 = Inr o3 \<and> token_ids o3 = token_ids o2 \<and> last_token_ids_len o3 = last_token_ids_len o2 \<and> out_text o3 = out_text o2
     \<and> incremental_states o3 = incremental_states o2 \<and> (lp \<longrightarrow> out_logprobs o3 = out_logprobs o2 @ ls \<and> last_logprobs_len o3 = length (out_logprobs o2)) \<and> out_finish_reason o3 = out_finish_reason o2 \<and> out_index o3 = out_index o2"
    using 1(2,6) r(5,8,9) nt assms(7) by (cases lp) (simp_all add: store_logprobs_def py_index_def py_assert_def)
  then obtain o3 where 2: "store_logprobs P None r 0 o2 = Inr o3" "token_ids o3 = token_ids o2" "last_token_ids_len o3 = last_token_ids_len o2" "out_text o3 = out_text o2"
    "incremental_states o3 = incremental_states o2" "lp \<longrightarrow> out_logprobs o3 = out_logprobs o2 @ ls \<and> last_logprobs_len o3 = length (out_logprobs o2)" "out_finish_reason o3 = out_finish_reason o2" "out_index o3 = out_index o2" by blast
  have "fr \<noteq> CANCELLED" using assms(6) by (auto simp: plain_finish_def split: if_splits)
  then have "\<exists>o4. store_extras r 0 o3 = Inr o4 \<and> token_ids o4 = token_ids o3 \<and> last_token_ids_len o4 = last_token_ids_len o3 \<and> out_text o4 = out_text o3
     \<and> incremental_states o4 = incremental_states o3 \<and> out_logprobs o4 = out_logprobs o3 \<and> last_logprobs_len o4 = last_logprobs_len o3 \<and> out_finish_reason o4 = out_finish_reason o3 \<and> out_index o4 = out_index o3"
    using r(5,7) by (cases "rs_generation_logits r"; cases "rs_additional_context r"; cases "rs_additional_generation r"; cases "rs_perf_metrics r") (simp_all add: store_extras_def py_index_def)
  then obtain o4 where 3: "store_extras r 0 o3 = Inr o4" "token_ids o4 = token_ids o3" "last_token_ids_len o4 = last_token_ids_len o3" "out_text o4 = out_text o3"
    "incremental_states o4 = incremental_states o3" "out_logprobs o4 = out_logprobs o3" "last_logprobs_len o4 = last_logprobs_len o3" "out_finish_reason o4 = out_finish_reason o3" "out_index o4 = out_index o3" by blast
  have 4: "finish_sequence P ?dp fin r 0 o4 = Inr (if fin then o4\<lparr>out_finish_reason := finish_name fr\<rparr> else o4)"
    using assms(6) r(5) by (auto simp: finish_sequence_def plain_finish_def finish_name_def py_index_def split: if_splits)
  have "base_handle_response H resp g = Inr (let g2 = g\<lparr>gr_done := fin, gr_decoding_iter := rs_decoding_iter r, gr_cached_tokens := rs_cached_tokens r, gr_avg_decoded := rs_avg_decoded r,
       gr_disagg := ?dp, gr_outputs := [if fin then o4\<lparr>out_finish_reason := finish_name fr\<rparr> else o4]\<rparr> in case rs_context_logits r of Some x \<Rightarrow> g2\<lparr>gr_context_logits := Some x\<rparr> | None \<Rightarrow> g2)"
    using r(1,2,4) assms(2-5) 1(1) 2(1) 3(1) 4 by (cases "rs_context_logits r") (simp_all add: base_handle_response_def handle_sequence_def Let_def py_pos_def)
  then show ?thesis using 1(2-8) 2(2-8) 3(2-9) assms(3) by (cases "rs_context_logits r"; cases fin) (simp_all add: Let_def)
qed

definition trtllm_path :: "detok_config \<Rightarrow> 'd hf_tokenizer \<Rightarrow> sampling_params \<Rightarrow> bool" where
  "trtllm_path cfg T P \<longleftrightarrow> trtllm_backend cfg \<or> sp_stream_interval P \<ge> stream_interval_threshold cfg \<or> \<not> spaces_between_special_tokens P \<or> \<not> has_backend T"

definition conv_of :: "'d hf_tokenizer \<Rightarrow> sampling_params \<Rightarrow> string list \<Rightarrow> string" where
  "conv_of T P = convert_tokens_to_string T (skip_special_tokens P) (spaces_between_special_tokens P)"

definition no_stop_string :: "(stop_reason \<times> int list) list \<Rightarrow> string \<Rightarrow> bool" where
  "no_stop_string ws s \<longleftrightarrow> list_all (\<lambda>(reason, _). case reason of Stop_String t \<Rightarrow> \<not> contains t s | Stop_Token _ \<Rightarrow> True) ws"

definition one_output :: "detok_config \<Rightarrow> 'd hf_tokenizer \<Rightarrow> sampling_params \<Rightarrow> (stop_reason \<times> int list) list \<Rightarrow> bool" where
  \<comment> \<open>the settings: one output by sampling, detokenized by the TensorRT-LLM backend, with the stop words \<open>ws\<close>\<close>
  "one_output cfg T P ws \<longleftrightarrow> n_outputs P = 1 \<and> best_of P = 1 \<and> \<not> use_beam_search P \<and> detokenize P \<and> get_stop_reasons_and_words P = Inr ws
     \<and> trtllm_path cfg T P \<and> \<not> clean_up_spaces T"

lemma no_stop_string_cut: "no_stop_string ws (out_text o1) \<Longrightarrow> cut_at_stop keep ws o1 = None"
  by (induction keep ws o1 rule: cut_at_stop.induct) (auto simp: no_stop_string_def contains_def)

lemma no_stop_string_prefix: "no_stop_string ws s \<Longrightarrow> prefix s' s \<Longrightarrow> no_stop_string ws s'"
  using contains_substring[of _ s' "[]"] by (fastforce simp: no_stop_string_def list_all_iff prefix_def split: stop_reason.splits)

lemma decoded_is_prefix:
  assumes "local_conversion conv" "detok_inv conv ts s st"
  shows "prefix s (conv (ts @ us))"
proof (cases st)
  case (Some x)
  then obtain l p d where "ts = d @ p" "s = conv d" "d = [] \<and> l = [] \<or> l \<noteq> [] \<and> suffix l d \<and> \<not> ends_replacement (conv d)"
    using assms(2) by (cases x) (auto simp: detok_inv_def)
  then show ?thesis using local_conversion.extend_decoded(1)[OF assms(1), of d l "p @ us"] by simp
qed (use assms(2) in \<open>simp add: detok_inv_def\<close>)

lemma detok_sampled:
  assumes set: "one_output cfg T P ws" and lc: "local_conversion (conv_of T P)" and inv: "detok_inv (conv_of T P) ts (out_text o1) (incremental_states o1)"
    and ns: "no_stop_string ws (conv_of T P (ts @ new_tokens T (skip_special_tokens P) (token_ids_diff o1) @ us))" and last: "fin \<longrightarrow> us = []"
  shows "\<exists>o2. detok_output cfg T True P True fin o1 = Inr (fin, o2) \<and> last_text_len o2 = length (out_text o1) \<and> prefix (out_text o1) (out_text o2)
     \<and> (fin \<longrightarrow> out_text o2 = conv_of T P (ts @ new_tokens T (skip_special_tokens P) (token_ids_diff o1)))
     \<and> (\<not> fin \<longrightarrow> detok_inv (conv_of T P) (ts @ new_tokens T (skip_special_tokens P) (token_ids_diff o1)) (out_text o2) (incremental_states o2))
     \<and> token_ids o2 = token_ids o1 \<and> last_token_ids_len o2 = last_token_ids_len o1 \<and> out_logprobs o2 = out_logprobs o1 \<and> last_logprobs_len o2 = last_logprobs_len o1
     \<and> out_finish_reason o2 = out_finish_reason o1 \<and> out_index o2 = out_index o1"
proof -
  let ?conv = "conv_of T P" and ?skip = "skip_special_tokens P" and ?new = "new_tokens T (skip_special_tokens P) (token_ids_diff o1)"
  obtain s st where s: "trtllm_decode_incrementally T ?skip (spaces_between_special_tokens P) None fin (token_ids_diff o1) (out_text o1) (incremental_states o1) = (s, st)" by (metis surj_pair)
  have step: "(\<not> fin \<longrightarrow> detok_inv ?conv (ts @ ?new) s (Some st)) \<and> (fin \<longrightarrow> s = ?conv (ts @ ?new)) \<and> prefix (out_text o1) s"
    using trtllm_step[OF lc[unfolded conv_of_def] inv[unfolded conv_of_def] _ s] set by (simp add: one_output_def conv_of_def)
  have "prefix s (?conv (ts @ ?new @ us))"
    using step last decoded_is_prefix[OF lc, of "ts @ ?new" s "Some st" us] by (cases fin) simp_all
  then have n: "no_stop_string ws s" using ns no_stop_string_prefix by blast
  let ?o2 = "o1\<lparr>last_text_len := length (out_text o1), out_text := s, incremental_states := Some st\<rparr>"
  have "token_ids_diff (o1\<lparr>last_text_len := length (out_text o1)\<rparr>) = token_ids_diff o1" by (simp add: token_ids_diff_def)
  then have "detok_output cfg T True P True fin o1 = Inr (fin, ?o2)"
    using set s n no_stop_string_cut[of ws ?o2] by (auto simp: detok_output_def one_output_def decode_incrementally_def trtllm_path_def Let_def)
  then show ?thesis using step by auto
qed

definition streaming_state :: "'d hf_tokenizer \<Rightarrow> sampling_params \<Rightarrow> bool \<Rightarrow> string list \<Rightarrow> ('f, 'x, 'd) gen_result \<Rightarrow> bool" where
  \<comment> \<open>before the end, after the tokens \<open>ts\<close>\<close>
  "streaming_state T P lp ts g \<longleftrightarrow> (\<exists>o1. gr_outputs g = [o1] \<and> gr_params g = P \<and> \<not> gr_done g \<and> gr_streaming g \<and> detok_inv (conv_of T P) ts (out_text o1) (incremental_states o1)
     \<and> (lp \<longrightarrow> length (out_logprobs o1) = length (token_ids o1)) \<and> out_finish_reason o1 = None \<and> out_index o1 = 0)"

definition extends_output :: "bool \<Rightarrow> int list \<Rightarrow> 'x list \<Rightarrow> ('f, 'x, 'd) completion_output \<Rightarrow> ('f, 'x, 'd) completion_output \<Rightarrow> bool" where
  \<comment> \<open>the differences of the second output lead from the first to it\<close>
  "extends_output lp ids ls o1 o2 \<longleftrightarrow> out_text o2 = out_text o1 @ text_diff o2 \<and> token_ids o2 = token_ids o1 @ ids \<and> token_ids_diff o2 = ids
     \<and> (lp \<longrightarrow> out_logprobs o2 = out_logprobs o1 @ ls \<and> logprobs_diff o2 = ls)"

lemma handle_step:
  assumes set: "one_output cfg T P ws" and lc: "local_conversion (conv_of T P)" and h: "call_handler H None = Inr ()" and st: "streaming_state T P lp ts g"
    and resp: "sampled_response lp ids ls fr fin resp" "plain_finish fr fin"
    and ns: "no_stop_string ws (conv_of T P (ts @ new_tokens T (skip_special_tokens P) ids @ us))" and last: "fin \<longrightarrow> us = []"
  shows "\<exists>g'. detok_handle_response cfg (Some T) True H resp g = Inr g' \<and> length (gr_outputs g') = 1 \<and> out_index (hd (gr_outputs g')) = 0 \<and> gr_params g' = P \<and> gr_done g' = fin \<and> extends_output lp ids ls (hd (gr_outputs g)) (hd (gr_outputs g'))
     \<and> (\<not> fin \<longrightarrow> streaming_state T P lp (ts @ new_tokens T (skip_special_tokens P) ids) g' \<and> out_finish_reason (hd (gr_outputs g')) = None)
     \<and> (fin \<longrightarrow> out_text (hd (gr_outputs g')) = conv_of T P (ts @ new_tokens T (skip_special_tokens P) ids) \<and> out_finish_reason (hd (gr_outputs g')) = finish_name fr)"
proof -
  obtain o1 where o1: "gr_outputs g = [o1]" "gr_params g = P" "\<not> gr_done g" "gr_streaming g" "detok_inv (conv_of T P) ts (out_text o1) (incremental_states o1)"
    "lp \<longrightarrow> length (out_logprobs o1) = length (token_ids o1)" "out_finish_reason o1 = None" "out_index o1 = 0" using st by (auto simp: streaming_state_def)
  have P: "n_outputs P = 1" "best_of P = 1" "\<not> use_beam_search P" "detokenize P" using set by (simp_all add: one_output_def)
  obtain g1 o2 where 1: "base_handle_response H resp g = Inr g1" "gr_outputs g1 = [o2]" "gr_params g1 = P" "gr_done g1 = fin" "gr_streaming g1" "token_ids o2 = token_ids o1 @ ids"
    "last_token_ids_len o2 = length (token_ids o1)" "out_text o2 = out_text o1" "incremental_states o2 = incremental_states o1"
    "lp \<longrightarrow> out_logprobs o2 = out_logprobs o1 @ ls \<and> last_logprobs_len o2 = length (out_logprobs o1)" "fin \<longrightarrow> out_finish_reason o2 = finish_name fr"
    "\<not> fin \<longrightarrow> out_finish_reason o2 = None" "out_index o2 = 0"
    using handle_sampled[OF resp(1) o1(1,2) P(3) h resp(2)] o1(4,6-8) by auto
  have d: "token_ids_diff o2 = ids" using 1(6,7) by (simp add: token_ids_diff_def)
  obtain o3 where 3: "detok_output cfg T True P True fin o2 = Inr (fin, o3)" "last_text_len o3 = length (out_text o2)" "prefix (out_text o2) (out_text o3)"
    "fin \<longrightarrow> out_text o3 = conv_of T P (ts @ new_tokens T (skip_special_tokens P) ids)" "\<not> fin \<longrightarrow> detok_inv (conv_of T P) (ts @ new_tokens T (skip_special_tokens P) ids) (out_text o3) (incremental_states o3)"
    "token_ids o3 = token_ids o2" "last_token_ids_len o3 = last_token_ids_len o2" "out_logprobs o3 = out_logprobs o2" "last_logprobs_len o3 = last_logprobs_len o2" "out_finish_reason o3 = out_finish_reason o2" "out_index o3 = out_index o2"
    using detok_sampled[OF set lc, of ts o2 us fin] o1(5) 1(8,9) ns last d by auto
  have io: "in_order P" using P by (simp add: in_order_def)
  have "detok_handle_response cfg (Some T) True H resp g = Inr (g1\<lparr>gr_done := fin, gr_outputs := [o3]\<rparr>)"
    using resp(1) 1(1-5) 3(1) P io by (auto simp: detok_handle_response_def output_positions_def reindex_def sampled_response_def split: response.splits)
  moreover have "extends_output lp ids ls o1 o3" using 1 3 by (auto simp: extends_output_def text_diff_def token_ids_diff_def logprobs_diff_def prefix_def)
  moreover have "length ls = length ids" using resp(1) by (auto simp: sampled_response_def split: response.splits option.splits)
  ultimately show ?thesis using 1 3 o1(1,6) by (auto simp: streaming_state_def)
qed

definition pieces_tokens :: "'d hf_tokenizer \<Rightarrow> sampling_params \<Rightarrow> (int list \<times> 'x list) list \<Rightarrow> string list" where
  "pieces_tokens T P pieces = concat (map (\<lambda>(ids, ls). new_tokens T (skip_special_tokens P) ids) pieces)"

definition first_output :: "('f :: linorder, 'x, 'd) gen_result \<Rightarrow> ('f, 'x, 'd) completion_output" where
  "first_output g = hd (outputs g)"

lemma first_output_one: "length (gr_outputs g) = 1 \<Longrightarrow> in_order (gr_params g) \<Longrightarrow> n_outputs (gr_params g) = 1 \<Longrightarrow> first_output g = hd (gr_outputs g)"
  by (cases "gr_outputs g") (auto simp: first_output_def outputs_def output_positions_def reindex_def)

lemma iterate_pieces:
  assumes set: "one_output cfg T P ws" and lc: "local_conversion (conv_of T P)" and h: "call_handler H None = Inr ()"
    and final: "sampled_response lp idsN lsN fr True rN" "plain_finish fr True"
    and rs: "list_all2 (\<lambda>(ids, ls) r. sampled_response lp ids ls NOT_FINISHED False r) pieces rs"
    and ns: "no_stop_string ws (conv_of T P (ts @ pieces_tokens T P (pieces @ [(idsN, lsN)])))" and st: "streaming_state T P lp ts g"
  shows "\<exists>gs. iterate (detok_handle_response cfg (Some T) True H) (rs @ rN # later) g = Inr gs \<and> length gs = Suc (length rs) \<and> list_all (\<lambda>g. \<not> gr_done g) (butlast gs) \<and> gr_done (last gs)
     \<and> out_text (first_output (last gs)) = conv_of T P (ts @ pieces_tokens T P (pieces @ [(idsN, lsN)])) \<and> out_finish_reason (first_output (last gs)) = finish_name fr
     \<and> out_text (first_output (last gs)) = out_text (hd (gr_outputs g)) @ concat (map (text_diff \<circ> first_output) gs)
     \<and> token_ids (first_output (last gs)) = token_ids (hd (gr_outputs g)) @ concat (map fst (pieces @ [(idsN, lsN)])) \<and> map (token_ids_diff \<circ> first_output) gs = map fst (pieces @ [(idsN, lsN)])
     \<and> (lp \<longrightarrow> map (logprobs_diff \<circ> first_output) gs = map snd (pieces @ [(idsN, lsN)]))
     \<and> list_all (\<lambda>g. length (gr_outputs g) = 1 \<and> gr_params g = P \<and> out_index (first_output g) = 0) gs \<and> list_all (\<lambda>g. out_finish_reason (first_output g) = None) (butlast gs)"
  using rs ns st
proof (induction pieces rs arbitrary: ts g rule: list_all2_induct)
  case Nil
  have io: "in_order P" "n_outputs P = 1" using set by (simp_all add: one_output_def in_order_def)
  have nd: "\<not> gr_done g" using Nil.prems(2) by (auto simp: streaming_state_def)
  obtain g' where g': "detok_handle_response cfg (Some T) True H rN g = Inr g'" "length (gr_outputs g') = 1" "gr_params g' = P" "gr_done g'" "extends_output lp idsN lsN (hd (gr_outputs g)) (hd (gr_outputs g'))"
    "out_text (hd (gr_outputs g')) = conv_of T P (ts @ new_tokens T (skip_special_tokens P) idsN)" "out_finish_reason (hd (gr_outputs g')) = finish_name fr" "out_index (hd (gr_outputs g')) = 0"
    using handle_step[OF set lc h Nil.prems(2) final, of "[]"] Nil.prems(1) by (auto simp: pieces_tokens_def)
  have f: "first_output g' = hd (gr_outputs g')" using first_output_one g'(2,3) io by blast
  have "iterate (detok_handle_response cfg (Some T) True H) ([] @ rN # later) g = Inr [g']" using g'(1,4) nd by (cases later) simp_all
  then show ?case using g' f by (intro exI[of _ "[g']"]) (auto simp: pieces_tokens_def extends_output_def)
next
  case (Cons p pieces r rs)
  obtain ids ls where p: "p = (ids, ls)" by (cases p)
  have io: "in_order P" "n_outputs P = 1" using set by (simp_all add: one_output_def in_order_def)
  have nd: "\<not> gr_done g" using Cons.prems(2) by (auto simp: streaming_state_def)
  let ?new = "new_tokens T (skip_special_tokens P) ids"
  have all: "ts @ pieces_tokens T P ((p # pieces) @ [(idsN, lsN)]) = (ts @ ?new) @ pieces_tokens T P (pieces @ [(idsN, lsN)])" by (simp add: pieces_tokens_def p)
  have "plain_finish NOT_FINISHED False" by (simp add: plain_finish_def)
  then obtain g' where g': "detok_handle_response cfg (Some T) True H r g = Inr g'" "length (gr_outputs g') = 1" "gr_params g' = P" "\<not> gr_done g'" "extends_output lp ids ls (hd (gr_outputs g)) (hd (gr_outputs g'))"
    "streaming_state T P lp (ts @ ?new) g'" "out_finish_reason (hd (gr_outputs g')) = None" "out_index (hd (gr_outputs g')) = 0"
    using handle_step[OF set lc h Cons.prems(2), of ids ls NOT_FINISHED False r "pieces_tokens T P (pieces @ [(idsN, lsN)])"] Cons.hyps(1) Cons.prems(1) p all by auto
  obtain gs where gs: "iterate (detok_handle_response cfg (Some T) True H) (rs @ rN # later) g' = Inr gs" "length gs = Suc (length rs)" "list_all (\<lambda>g. \<not> gr_done g) (butlast gs)" "gr_done (last gs)"
    "out_text (first_output (last gs)) = conv_of T P ((ts @ ?new) @ pieces_tokens T P (pieces @ [(idsN, lsN)]))" "out_finish_reason (first_output (last gs)) = finish_name fr"
    "out_text (first_output (last gs)) = out_text (hd (gr_outputs g')) @ concat (map (text_diff \<circ> first_output) gs)"
    "token_ids (first_output (last gs)) = token_ids (hd (gr_outputs g')) @ concat (map fst (pieces @ [(idsN, lsN)]))" "map (token_ids_diff \<circ> first_output) gs = map fst (pieces @ [(idsN, lsN)])"
    "lp \<longrightarrow> map (logprobs_diff \<circ> first_output) gs = map snd (pieces @ [(idsN, lsN)])"
    "list_all (\<lambda>g. length (gr_outputs g) = 1 \<and> gr_params g = P \<and> out_index (first_output g) = 0) gs" "list_all (\<lambda>g. out_finish_reason (first_output g) = None) (butlast gs)"
    using Cons.IH[OF _ g'(6)] Cons.prems(1) unfolding all by blast
  have f: "first_output g' = hd (gr_outputs g')" using first_output_one g'(2,3) io by blast
  have "gs \<noteq> []" using gs(2) by auto
  then have b: "gs \<noteq> []" "butlast (g' # gs) = g' # butlast gs" "last (g' # gs) = last gs" by simp_all
  have "iterate (detok_handle_response cfg (Some T) True H) ((r # rs) @ rN # later) g = Inr (g' # gs)" using g'(1) gs(1) nd by simp
  then show ?case unfolding all using g'(2-5,7,8) gs(2-12) f p by (intro exI[of _ "g' # gs"]) (simp add: b extends_output_def comp_def)
qed

lemma iterate_result:
  "iterate handle rs g = Inr gs \<Longrightarrow> \<not> gr_done g \<Longrightarrow> gs \<noteq> [] \<Longrightarrow> gr_done (last gs) \<Longrightarrow> result_loop handle rs g = Some (Inr (last gs))"
proof (induction rs arbitrary: g gs)
  case (Cons r rs)
  obtain g1 gs1 where 1: "handle r g = Inr g1" "iterate handle rs g1 = Inr gs1" "gs = g1 # gs1" using Cons.prems(1,2) by auto
  show ?case
  proof (cases "gr_done g1")
    case True
    then have "gs1 = []" using 1(2) by (cases rs) auto
    then show ?thesis using 1 True Cons.prems(2) by (cases rs) simp_all
  next
    case False
    then have "gs1 \<noteq> []" using Cons.prems(4) 1(3) by auto
    then show ?thesis using Cons.IH[OF 1(2) False] 1 Cons.prems(2,4) by simp
  qed
qed simp

lemma streamed_from_start:
  fixes rs :: "('f :: linorder, 'x, 'd) response list"
  assumes "one_output cfg T P ws" "local_conversion (conv_of T P)" "call_handler H None = Inr ()"
    and "list_all2 (\<lambda>(ids, ls) r. sampled_response lp ids ls NOT_FINISHED False r) pieces rs" "sampled_response lp idsN lsN fr True rN" "plain_finish fr True"
    and "no_stop_string ws (conv_of T P (pieces_tokens T P (pieces @ [(idsN, lsN)])))"
  shows "\<exists>gs. iterate (detok_handle_response cfg (Some T) True H) (rs @ rN # later) (gen_result_init P True dp) = Inr gs \<and> length gs = Suc (length rs)
     \<and> list_all (\<lambda>g. \<not> gr_done g) (butlast gs) \<and> gr_done (last gs)
     \<and> result_loop (detok_handle_response cfg (Some T) True H) (rs @ rN # later) (gen_result_init P True dp) = Some (Inr (last gs))
     \<and> concat (map (text_diff \<circ> first_output) gs) = out_text (first_output (last gs)) \<and> out_text (first_output (last gs)) = conv_of T P (pieces_tokens T P (pieces @ [(idsN, lsN)]))
     \<and> map (token_ids_diff \<circ> first_output) gs = map fst (pieces @ [(idsN, lsN)]) \<and> token_ids (first_output (last gs)) = concat (map fst (pieces @ [(idsN, lsN)]))
     \<and> (lp \<longrightarrow> map (logprobs_diff \<circ> first_output) gs = map snd (pieces @ [(idsN, lsN)])) \<and> out_finish_reason (first_output (last gs)) = finish_name fr
     \<and> list_all (\<lambda>g. length (gr_outputs g) = 1 \<and> gr_params g = P \<and> out_index (first_output g) = 0) gs \<and> list_all (\<lambda>g. out_finish_reason (first_output g) = None) (butlast gs)"
proof -
  define g where "g = (gen_result_init P True dp :: ('f, 'x, 'd) gen_result)"
  have st: "streaming_state T P lp [] g" using assms(1) by (simp add: g_def streaming_state_def gen_result_init_def one_output_def completion_output_init_def detok_inv_def)
  have o: "out_text (hd (gr_outputs g)) = []" "token_ids (hd (gr_outputs g)) = []" using assms(1) by (simp_all add: g_def gen_result_init_def one_output_def completion_output_init_def)
  have nd: "\<not> gr_done g" by (simp add: g_def gen_result_init_def)
  obtain gs where gs: "iterate (detok_handle_response cfg (Some T) True H) (rs @ rN # later) g = Inr gs" "length gs = Suc (length rs)"
     "list_all (\<lambda>g. \<not> gr_done g) (butlast gs)" "gr_done (last gs)"
     "concat (map (text_diff \<circ> first_output) gs) = out_text (first_output (last gs))" "out_text (first_output (last gs)) = conv_of T P (pieces_tokens T P (pieces @ [(idsN, lsN)]))"
     "map (token_ids_diff \<circ> first_output) gs = map fst (pieces @ [(idsN, lsN)])" "token_ids (first_output (last gs)) = concat (map fst (pieces @ [(idsN, lsN)]))"
     "lp \<longrightarrow> map (logprobs_diff \<circ> first_output) gs = map snd (pieces @ [(idsN, lsN)])" "out_finish_reason (first_output (last gs)) = finish_name fr"
     "list_all (\<lambda>g. length (gr_outputs g) = 1 \<and> gr_params g = P \<and> out_index (first_output g) = 0) gs" "list_all (\<lambda>g. out_finish_reason (first_output g) = None) (butlast gs)"
    using iterate_pieces[OF assms(1-3,5,6,4) _ st, of later] assms(7) by (auto simp: o)
  have "gs \<noteq> []" using gs(2) by auto
  then have "result_loop (detok_handle_response cfg (Some T) True H) (rs @ rN # later) g = Some (Inr (last gs))" using iterate_result[OF gs(1) nd _ gs(4)] by blast
  then show ?thesis unfolding g_def[symmetric] using gs by blast
qed

section \<open>Properties\<close>

text \<open>C15: a request with one sampled output, streamed and detokenized in pieces by the TensorRT-LLM decoder (which the configuration, the stream interval, the spaces between special tokens or the tokenizer
  select; the default is the decoder of the tokenizer) without clean-up of spaces, for a tokenizer whose conversion is local: when the responses carry tokens, the last one is final
  with end id, length or timeout (not with stop words, whose tokens are cut off, and not cancelled), and no stop string occurs in the text, iterating over the result raises nothing and gives one result per response, only the last of them done; the differences of the token ids and log probabilities are
  those of the responses, the differences of the text put together to the text of the last result, and this is the conversion of all tokens at once. Waiting for the result ends with the last of them; responses after the final one are not read.\<close>

theorem streamed_result_is_complete:
  fixes rs :: "('f :: linorder, 'x, 'd) response list"
  assumes "one_output cfg T P ws" "local_conversion (conv_of T P)" "call_handler H None = Inr ()"
    and "list_all2 (\<lambda>(ids, ls) r. sampled_response lp ids ls NOT_FINISHED False r) pieces rs" "sampled_response lp idsN lsN fr True rN" "plain_finish fr True"
    and "no_stop_string ws (conv_of T P (pieces_tokens T P (pieces @ [(idsN, lsN)])))"
  shows "\<exists>gs. iterate (detok_handle_response cfg (Some T) True H) (rs @ rN # later) (gen_result_init P True dp) = Inr gs \<and> length gs = Suc (length rs)
     \<and> list_all (\<lambda>g. \<not> gr_done g) (butlast gs) \<and> gr_done (last gs)
     \<and> result_loop (detok_handle_response cfg (Some T) True H) (rs @ rN # later) (gen_result_init P True dp) = Some (Inr (last gs))
     \<and> concat (map (text_diff \<circ> first_output) gs) = out_text (first_output (last gs)) \<and> out_text (first_output (last gs)) = conv_of T P (pieces_tokens T P (pieces @ [(idsN, lsN)]))
     \<and> map (token_ids_diff \<circ> first_output) gs = map fst (pieces @ [(idsN, lsN)]) \<and> token_ids (first_output (last gs)) = concat (map fst (pieces @ [(idsN, lsN)]))
     \<and> (lp \<longrightarrow> map (logprobs_diff \<circ> first_output) gs = map snd (pieces @ [(idsN, lsN)])) \<and> out_finish_reason (first_output (last gs)) = finish_name fr"
  using streamed_from_start[OF assms, of later dp] by blast

section \<open>The best outputs\<close>

lemma ranked_perm: "distinct (ranked outs)" "set (ranked outs) = {0..<length outs}"
  by (simp_all add: ranked_def)

lemma ranked_sorted: "sorted_wrt (\<lambda>p q. cumulative_logprob (outs ! p) \<ge> cumulative_logprob (outs ! q)) (ranked outs)"
proof -
  have "sorted (map (\<lambda>p. cumulative_logprob (outs ! p)) (sort_key (\<lambda>p. cumulative_logprob (outs ! p)) (rev [0..<length outs])))" by (rule sorted_sort_key)
  then show ?thesis by (simp add: ranked_def sorted_wrt_rev sorted_map)
qed

lemma fold_update_positions:
  assumes "distinct ps" "set ps \<subseteq> {0..<length os}" "length ps = length is1"
  shows "let os' = fold (\<lambda>(i, p) os. os[p := f i (os ! p)]) (zip is1 ps) os in length os' = length os
    \<and> (\<forall>k < length ps. os' ! (ps ! k) = f (is1 ! k) (os ! (ps ! k))) \<and> (\<forall>q < length os. q \<notin> set ps \<longrightarrow> os' ! q = os ! q)"
  using assms
proof (induction ps arbitrary: os is1)
  case (Cons p ps)
  obtain i is2 where i: "is1 = i # is2" using Cons.prems(3) by (cases is1) auto
  let ?os = "os[p := f i (os ! p)]"
  let ?f = "fold (\<lambda>(i, p) os. os[p := f i (os ! p)]) (zip is2 ps) ?os"
  have IH: "length ?f = length ?os" "\<forall>k < length ps. ?f ! (ps ! k) = f (is2 ! k) (?os ! (ps ! k))" "\<forall>q < length ?os. q \<notin> set ps \<longrightarrow> ?f ! q = ?os ! q"
    using Cons.IH[of ?os is2] Cons.prems i by (auto simp: Let_def)
  have p: "p < length os" "p \<notin> set ps" using Cons.prems by auto
  have n: "?os ! (ps ! k) = os ! (ps ! k)" if "k < length ps" for k using p(2) that nth_mem by (metis nth_list_update_neq)
  have "?f ! ((p # ps) ! k) = f (is1 ! k) (os ! ((p # ps) ! k))" if "k < length (p # ps)" for k
    using that IH(2,3) p n i by (cases k) auto
  moreover have "?f ! q = os ! q" if "q < length os" "q \<notin> set (p # ps)" for q using that IH(3) by auto
  ultimately show ?case using IH(1) i by (simp add: Let_def)
qed simp

text \<open>When fewer outputs are returned than sampled, they are those of the highest log probability, in falling order and numbered from 0.\<close>

lemma outputs_are_best:
  assumes "\<not> in_order (gr_params g)"
  shows "map out_index (outputs g) = [0..<min (n_outputs (gr_params g)) (length (gr_outputs g))]"
    and "sorted_wrt (\<lambda>x y. cumulative_logprob x \<ge> cumulative_logprob y) (outputs g)"
    and "\<forall>x \<in> set (outputs g). \<forall>p < length (gr_outputs g). p \<notin> set (output_positions g) \<longrightarrow> cumulative_logprob (gr_outputs g ! p) \<le> cumulative_logprob x"
proof -
  let ?os = "gr_outputs g" and ?n = "n_outputs (gr_params g)"
  have l: "length (ranked ?os) = length ?os" by (simp add: ranked_def)
  have pos: "output_positions g = take ?n (ranked ?os)" using assms by (simp add: output_positions_def)
  have at: "gr_outputs (reindex g) ! (ranked ?os ! k) = (?os ! (ranked ?os ! k))\<lparr>out_index := k\<rparr>" if "k < length ?os" for k
    using fold_update_positions[OF ranked_perm(1), of ?os ?os "[0..<length ?os]" "\<lambda>i o1. o1\<lparr>out_index := i\<rparr>"] ranked_perm(2)[of ?os] l that assms by (simp add: reindex_def Let_def)
  have out: "outputs g = map (\<lambda>k. (?os ! (ranked ?os ! k))\<lparr>out_index := k\<rparr>) [0..<min ?n (length ?os)]"
    unfolding outputs_def pos by (rule nth_equalityI) (auto simp: l at)
  show "map out_index (outputs g) = [0..<min ?n (length ?os)]" unfolding out by (rule nth_equalityI) auto
  have s: "cumulative_logprob (?os ! (ranked ?os ! j)) \<le> cumulative_logprob (?os ! (ranked ?os ! i))" if "i < j" "j < length ?os" for i j
    using ranked_sorted[of ?os] that l by (simp add: sorted_wrt_iff_nth_less)
  show "sorted_wrt (\<lambda>x y. cumulative_logprob x \<ge> cumulative_logprob y) (outputs g)" unfolding out sorted_wrt_iff_nth_less using s by auto
  show "\<forall>x \<in> set (outputs g). \<forall>p < length ?os. p \<notin> set (output_positions g) \<longrightarrow> cumulative_logprob (?os ! p) \<le> cumulative_logprob x"
  proof (intro ballI allI impI)
    fix x p assume x: "x \<in> set (outputs g)" and p: "p < length ?os" "p \<notin> set (output_positions g)"
    obtain k where k: "k < min ?n (length ?os)" "x = (?os ! (ranked ?os ! k))\<lparr>out_index := k\<rparr>" using x unfolding out by auto
    obtain j where j: "j < length ?os" "ranked ?os ! j = p" using p(1) ranked_perm(2)[of ?os] l by (metis atLeastLessThan_iff in_set_conv_nth le0)
    have "\<not> j < ?n" using p(2) j l unfolding pos by (metis in_set_conv_nth length_take min_less_iff_conj nth_take)
    then have "k < j" using k(1) by simp
    then show "cumulative_logprob (?os ! p) \<le> cumulative_logprob x" using s[of k j] j k(2) by simp
  qed
qed

definition sample_params :: sampling_params where
  "sample_params = \<lparr>n_outputs = 1, best_of = 1, use_beam_search = False, stop_token_ids = None, stop_strings = Some [''zz''], stop_word_ids = Some [[122, 122]], include_stop_str_in_output = False,
     skip_special_tokens = True, spaces_between_special_tokens = True, detokenize = True, sp_stream_interval = 1\<rparr>"

definition sample_config :: detok_config where
  "sample_config = \<lparr>trtllm_backend = True, stream_interval_threshold = 24\<rparr>"

definition sample_response :: "int list \<Rightarrow> nat list option \<Rightarrow> int \<Rightarrow> FinishReason \<Rightarrow> bool \<Rightarrow> (nat, nat, nat) response" where
  "sample_response ids ls i fr fin = Llm_Response None None \<lparr>is_final = fin, rs_decoding_iter = 0, rs_cached_tokens = 0, rs_avg_decoded = None, context_phase_params = None, finish_reasons = [fr],
     output_token_ids = [ids], sequence_index = i, cum_log_probs = Some [1], rs_log_probs = map_option (\<lambda>l. [l]) ls, rs_generation_logits = None, rs_context_logits = None, rs_additional_context = None,
     rs_additional_generation = None, rs_perf_metrics = None\<rparr>"

theorem streamed_result_is_complete_witness:
  "\<exists>gs. iterate (detok_handle_response sample_config (Some byte_tokenizer) True None)
       ([sample_response [72, 195] (Some [5, 6]) 0 NOT_FINISHED False, sample_response [128] (Some [7]) 0 NOT_FINISHED False] @ sample_response [105, 195] (Some [8, 9]) 0 FinishReason.LENGTH True # [Error_Response []])
       (gen_result_init sample_params True None) = Inr gs \<and> length gs = 3
     \<and> concat (map (text_diff \<circ> first_output) gs) = [CHR ''H'', CHR 0xE0, CHR ''i'', replacement] \<and> map (token_ids_diff \<circ> first_output) gs = [[72, 195], [128], [105, 195]]
     \<and> map (logprobs_diff \<circ> first_output) gs = [[5, 6], [7], [8, 9]] \<and> out_finish_reason (first_output (last gs)) = Some ''length''"
proof -
  have s: "one_output sample_config byte_tokenizer sample_params [(Stop_String ''zz'', [122, 122])]" by code_simp
  have lc: "local_conversion (conv_of byte_tokenizer sample_params)" unfolding conv_of_def by (rule bytes.local_conversion_axioms)
  have h: "call_handler None None = Inr ()" by (simp add: call_handler_def)
  have rs: "list_all2 (\<lambda>(ids, ls) r. sampled_response True ids ls NOT_FINISHED False r) [([72, 195], [5, 6]), ([128], [7])]
     [sample_response [72, 195] (Some [5, 6]) 0 NOT_FINISHED False, sample_response [128] (Some [7]) 0 NOT_FINISHED False]" by (simp add: sampled_response_def sample_response_def)
  have fin: "sampled_response True [105, 195] [8, 9] FinishReason.LENGTH True (sample_response [105, 195] (Some [8, 9]) 0 FinishReason.LENGTH True)" by (simp add: sampled_response_def sample_response_def)
  have pf: "plain_finish FinishReason.LENGTH True" "finish_name FinishReason.LENGTH = Some ''length''" by (simp_all add: plain_finish_def finish_name_def)
  let ?all = "[([72, 195], [5, 6]), ([128], [7])] @ [([105, 195], [8, 9])] :: (int list \<times> nat list) list"
  have t: "conv_of byte_tokenizer sample_params (pieces_tokens byte_tokenizer sample_params ?all) = [CHR ''H'', CHR 0xE0, CHR ''i'', replacement]" by code_simp
  have ns: "no_stop_string [(Stop_String ''zz'', [122, 122])] (conv_of byte_tokenizer sample_params (pieces_tokens byte_tokenizer sample_params ?all))" unfolding t by code_simp
  show ?thesis by (rule ex_forward[OF streamed_result_is_complete[OF s lc h rs fin pf(1) ns, of "[Error_Response []]" None]]) (simp add: t[simplified] pf(2) del: iterate.simps result_loop.simps)
qed

section \<open>Departures\<close>

definition texts_of :: "sampling_params \<Rightarrow> (nat, nat, nat) response list \<Rightarrow> (string \<times> string) list list" where
  \<comment> \<open>after each response the text and its difference for every output\<close>
  "texts_of P rs = (case iterate (detok_handle_response sample_config (Some byte_tokenizer) True None) rs (gen_result_init P True None) of
     Inr gs \<Rightarrow> map (\<lambda>g. map (\<lambda>o1. (out_text o1, text_diff o1)) (outputs g)) gs | Inl _ \<Rightarrow> [])"

text \<open>With two sampled outputs, each response also decodes the last tokens of the other output again, so that its text is doubled.\<close>

lemma other_output_decoded_again:
  "texts_of (sample_params\<lparr>n_outputs := 2, best_of := 2\<rparr>) [sample_response [65] None 0 NOT_FINISHED False, sample_response [66] None 1 NOT_FINISHED False, sample_response [67] None 1 NOT_FINISHED False]
   = [[(''A'', ''A''), ([], [])], [(''AA'', ''A''), (''B'', ''B'')], [(''AAA'', ''A''), (''BC'', ''C'')]]"
  by code_simp

text \<open>The beginning of a stop string that came in with an earlier response has been passed on when the text is cut.\<close>

lemma stop_string_partly_sent:
  "texts_of sample_params [sample_response [65, 122] None 0 NOT_FINISHED False, sample_response [122] None 0 NOT_FINISHED False] = [[(''Az'', ''Az'')], [(''A'', [])]]"
  by code_simp

text \<open>When a stop word is removed, its log probabilities stay, and its tokens of earlier responses have been passed on.\<close>

lemma stop_word_tokens_remain:
  "(case iterate (detok_handle_response sample_config (Some byte_tokenizer) True None)
      [sample_response [65, 122] (Some [1, 2]) 0 NOT_FINISHED False, sample_response [122] (Some [3]) 0 STOP_WORDS True] (gen_result_init sample_params True None) of
      Inr gs \<Rightarrow> map (\<lambda>g. (token_ids (first_output g), token_ids_diff (first_output g), out_logprobs (first_output g))) gs | Inl _ \<Rightarrow> [])
   = [([65, 122], [65, 122], [1, 2]), ([65], [], [1, 2, 3])]"
  by code_simp

end
