(* ===== verification/Chat_Stream.thy ===== *)
theory Chat_Stream
  imports Generation_Result
begin

text \<open>
  The post-processors of the OpenAI server, \<open>serve/postprocess_handlers.py\<close>: what is sent to the client of a chat or a completion for the results of a
  request, with the reasoning parser and the tool parser per output. A chunk is modelled by its data instead of its JSON text. The classes of tool parsers are an
  argument, a \<open>tool_api\<close> for each class of the factory; \<open>qwen3_api\<close> and \<open>v32_api\<close> are those of the modelled ones. The texts and bytes of tokens in the log probabilities are left out, as are the
  model name, the average number of decoded tokens and, in the response to a completion, the disaggregated parameters and the context logits.
\<close>

section \<open>Arguments and chunks\<close>

record 't tool_api =
  tool_new :: 't
  tool_increment :: "string list \<Rightarrow> string \<Rightarrow> 't \<Rightarrow> parse_result \<times> 't"
  tool_detect :: "string list \<Rightarrow> string \<Rightarrow> parse_result result"

definition qwen3_api :: "'n json_library \<Rightarrow> 'n qwen3_parser tool_api" where
  "qwen3_api L = \<lparr>tool_new = qwen3_init, tool_increment = qwen3_increment L, tool_detect = detect_and_parse L\<rparr>"

definition v32_api :: "'n json_library \<Rightarrow> 'n deepseek_parser tool_api" where
  "v32_api L = \<lparr>tool_new = deepseek_init, tool_increment = v32_increment L, tool_detect = (\<lambda>tools s. Inr (v32_detect_and_parse L tools s))\<rparr>"

record 't chat_args =
  first_iteration :: bool
  num_prompt_tokens :: int
  ca_echo :: bool
  ca_role :: string
  num_choices :: nat
  ca_tools :: "string list option"
  named_tool :: "string option" \<comment> \<open>\<open>tool_choice\<close>, when it names a function\<close>
  return_logprobs :: bool
  stream_options :: "(bool \<times> bool) option" \<comment> \<open>\<open>include_usage\<close> and \<open>continuous_usage_stats\<close>\<close>
  last_message_content :: "string option"
  ca_reasoning_parser :: "string option"
  ca_tool_parser :: "string option"
  reasoning_parser_dict :: "(nat \<times> r1_parser) list"
  tool_parser_dict :: "(nat \<times> 't) list"
  has_tool_call :: "nat list" \<comment> \<open>the keys; the values are all \<open>True\<close>\<close>
  tool_call_id_type :: string
  thinking :: "bool option" \<comment> \<open>\<open>enable_thinking\<close> of the chat template arguments\<close>

datatype call_id = Function_Id string int | Random_Id

definition make_tool_call_id :: "string \<Rightarrow> string \<Rightarrow> int \<Rightarrow> call_id" where
  "make_tool_call_id ty name idx = (if ty = ''kimi_k2'' then Function_Id name idx else Random_Id)"

record delta_tool_call =
  dt_id :: "call_id option"
  dt_index :: int
  dt_name :: "string option"
  dt_arguments :: string

record usage_info =
  prompt_tokens :: int
  completion_tokens :: int
  total_tokens :: int
  u_cached_tokens :: int

record 'x chunk =
  ck_index :: nat
  ck_role :: "string option"
  ck_content :: "string option"
  ck_reasoning :: "string option"
  ck_tool_calls :: "delta_tool_call list option"
  ck_finish_reason :: "string option"
  ck_stop_reason :: "stop_reason option"
  ck_logprobs :: "(int \<times> 'x) list option"
  ck_usage :: "usage_info option"

datatype 'x event = Chunk "'x chunk" | Usage_Chunk usage_info

definition include_usage :: "'t chat_args \<Rightarrow> bool" where
  "include_usage A = (case stream_options A of Some (u, c) \<Rightarrow> u | None \<Rightarrow> False)"

definition include_continuous_usage :: "'t chat_args \<Rightarrow> bool" where
  "include_continuous_usage A = (case stream_options A of Some (u, c) \<Rightarrow> u \<and> c | None \<Rightarrow> False)"

definition usage_of :: "int \<Rightarrow> int \<Rightarrow> int \<Rightarrow> usage_info" where
  "usage_of prompt completion cached = \<lparr>prompt_tokens = prompt, completion_tokens = completion, total_tokens = completion + prompt, u_cached_tokens = cached\<rparr>"

definition create_logprobs :: "int list \<Rightarrow> 'x list \<Rightarrow> (int \<times> 'x) list result" where
  "create_logprobs ids lps = res_bind (py_assert (length ids = length lps)) (\<lambda>_. Inr (zip ids lps))"

section \<open>The parsers of an output\<close>

definition apply_reasoning_parser :: "nat \<Rightarrow> string \<Rightarrow> bool \<Rightarrow> 't chat_args \<Rightarrow> (string \<times> string \<times> 't chat_args) result" where
  \<comment> \<open>content and reasoning content\<close>
  "apply_reasoning_parser i s strm A =
     (case ca_reasoning_parser A of
        None \<Rightarrow> Inr (s, [], A)
      | Some name \<Rightarrow>
          res_bind (case map_of (reasoning_parser_dict A) i of Some p \<Rightarrow> Inr p | None \<Rightarrow> create_reasoning_parser name (thinking A)) (\<lambda>p.
            case (if strm then parse_delta s p else (parse (reasoning_at_start p) s, p)) of
              (r, p1) \<Rightarrow> Inr (content r, reasoning_content r, A\<lparr>reasoning_parser_dict := AList.update i p1 (reasoning_parser_dict A)\<rparr>)))"

definition apply_tool_parser :: "(parser_class \<Rightarrow> 't tool_api) \<Rightarrow> nat \<Rightarrow> string \<Rightarrow> bool \<Rightarrow> 't chat_args \<Rightarrow> (string \<times> tool_call_item list \<times> 't chat_args) result" where
  "apply_tool_parser api i s strm A =
     (case (ca_tool_parser A, ca_tools A) of
        (Some name, Some tools) \<Rightarrow>
          res_bind (create_tool_parser name) (\<lambda>c.
            let p = (case map_of (tool_parser_dict A) i of Some p \<Rightarrow> p | None \<Rightarrow> tool_new (api c)) in
            res_bind (if strm then Inr (tool_increment (api c) tools s p) else res_bind (tool_detect (api c) tools s) (\<lambda>r. Inr (r, p))) (\<lambda>(r, p1).
              Inr (normal_text r, calls r, A\<lparr>tool_parser_dict := AList.update i p1 (tool_parser_dict A),
                has_tool_call := (if calls r \<noteq> [] then i # has_tool_call A else has_tool_call A)\<rparr>)))
      | _ \<Rightarrow> Inr (s, [], A))"

section \<open>Chat\<close>

definition delta_call :: "string \<Rightarrow> tool_call_item \<Rightarrow> delta_tool_call" where
  "delta_call ty c =
     (case item_name c of
        Some n \<Rightarrow> if n \<noteq> [] then \<lparr>dt_id = Some (make_tool_call_id ty n (tool_index c)), dt_index = tool_index c, dt_name = Some n, dt_arguments = parameters c\<rparr>
                 else \<lparr>dt_id = None, dt_index = tool_index c, dt_name = None, dt_arguments = parameters c\<rparr>
      | None \<Rightarrow> \<lparr>dt_id = None, dt_index = tool_index c, dt_name = None, dt_arguments = parameters c\<rparr>)"

definition plain_chunk :: "nat \<Rightarrow> 'x chunk" where
  "plain_chunk i = \<lparr>ck_index = i, ck_role = None, ck_content = None, ck_reasoning = None, ck_tool_calls = None, ck_finish_reason = None, ck_stop_reason = None, ck_logprobs = None, ck_usage = None\<rparr>"

definition first_chunks :: "'t chat_args \<Rightarrow> int \<Rightarrow> 'x event list" where
  "first_chunks A cached =
     concat (map (\<lambda>i.
       let c = (plain_chunk i)\<lparr>ck_usage := (if include_continuous_usage A then Some (usage_of (num_prompt_tokens A) 0 cached) else None)\<rparr> in
       Chunk (c\<lparr>ck_role := Some (ca_role A)\<rparr>) #
       (case last_message_content A of Some m \<Rightarrow> if ca_echo A \<and> m \<noteq> [] then [Chunk (c\<lparr>ck_content := Some m\<rparr>)] else [] | None \<Rightarrow> []))
       [0..<num_choices A])"

definition finish_of :: "'t chat_args \<Rightarrow> nat \<Rightarrow> string option \<Rightarrow> string option" where
  "finish_of A i fr = (if fr = Some ''stop'' \<and> i \<in> set (has_tool_call A) then Some ''tool_calls'' else fr)"

definition chat_delta :: "(parser_class \<Rightarrow> 't tool_api) \<Rightarrow> ('f, 'x, 'd) completion_output \<Rightarrow> 't chat_args \<Rightarrow> ('x chunk option \<times> 't chat_args) result" where
  \<comment> \<open>the message of an output; \<open>None\<close> when there is nothing to send\<close>
  "chat_delta api o1 A =
     (let i = out_index o1 in
      res_bind (apply_reasoning_parser i (text_diff o1) True A) (\<lambda>(delta, reasoning, A1).
        case named_tool A1 of
          Some n \<Rightarrow> Inr (Some ((plain_chunk i)\<lparr>ck_tool_calls := Some [\<lparr>dt_id = None, dt_index = int i, dt_name = Some n, dt_arguments = delta\<rparr>]\<rparr>), A1)
        | None \<Rightarrow>
            res_bind (apply_tool_parser api i delta True A1) (\<lambda>(delta1, cs, A2).
              if cs \<noteq> [] \<or> delta1 \<noteq> [] \<or> reasoning \<noteq> [] \<or> out_finish_reason o1 \<noteq> None then
                Inr (Some ((plain_chunk i)\<lparr>ck_content := Some delta1, ck_reasoning := Some reasoning,
                  ck_tool_calls := (if cs \<noteq> [] then Some (map (delta_call (tool_call_id_type A2)) cs) else None)\<rparr>), A2)
              else Inr (None, A2))))"

definition chat_choice :: "('f :: linorder, 'x, 'd) gen_result \<Rightarrow> ('f, 'x, 'd) completion_output \<Rightarrow> 't chat_args \<Rightarrow> 'x chunk \<Rightarrow> 'x chunk result" where
  "chat_choice g o1 A c =
     res_bind (if return_logprobs A then res_bind (create_logprobs (token_ids_diff o1) (logprobs_diff o1)) (\<lambda>l. Inr (Some l)) else Inr None) (\<lambda>lps.
       Inr (c\<lparr>ck_stop_reason := out_stop_reason o1, ck_logprobs := lps, ck_finish_reason := finish_of A (out_index o1) (out_finish_reason o1),
         ck_usage := (if include_continuous_usage A then Some (usage_of (num_prompt_tokens A) (int (length (token_ids o1))) (gr_cached_tokens g)) else None)\<rparr>))"

fun chat_outputs :: "(parser_class \<Rightarrow> 't tool_api) \<Rightarrow> ('f :: linorder, 'x, 'd) gen_result \<Rightarrow> ('f, 'x, 'd) completion_output list \<Rightarrow> nat list \<Rightarrow> 't chat_args \<Rightarrow> ('x event list \<times> 't chat_args) result" where
  \<comment> \<open>with the outputs whose finish reason has been sent in this call\<close>
  "chat_outputs api g [] sent A = Inr ([], A)"
| "chat_outputs api g (o1 # os) sent A =
     (if out_index o1 \<ge> num_choices A then Inl IndexError
      else if out_index o1 \<in> set sent then chat_outputs api g os sent A
      else
        res_bind (chat_delta api o1 A) (\<lambda>(m, A1).
          case m of
            None \<Rightarrow> chat_outputs api g os sent A1
          | Some c \<Rightarrow>
              res_bind (chat_choice g o1 A1 c) (\<lambda>c1.
              res_bind (chat_outputs api g os (if out_finish_reason o1 \<noteq> None then out_index o1 # sent else sent) A1) (\<lambda>(cs, A2). Inr (Chunk c1 # cs, A2)))))"

definition chat_stream_post_processor :: "(parser_class \<Rightarrow> 't tool_api) \<Rightarrow> ('f :: linorder, 'x, 'd) gen_result \<Rightarrow> 't chat_args \<Rightarrow> ('x event list \<times> 't chat_args) result" where
  "chat_stream_post_processor api g A =
     (let first = (if first_iteration A then first_chunks A (gr_cached_tokens g) else []); A1 = A\<lparr>first_iteration := False\<rparr> in
      res_bind (chat_outputs api g (outputs g) [] A1) (\<lambda>(cs, A2).
        Inr (first @ cs @ (if include_usage A \<and> gr_done g
            then [Usage_Chunk (usage_of (num_prompt_tokens A) (sum_list (map (int \<circ> length \<circ> token_ids) (outputs g))) (gr_cached_tokens g))] else []), A2)))"

fun chat_stream :: "(parser_class \<Rightarrow> 't tool_api) \<Rightarrow> ('f :: linorder, 'x, 'd) gen_result list \<Rightarrow> 't chat_args \<Rightarrow> ('x event list \<times> 't chat_args) result" where
  \<comment> \<open>for all results of a request\<close>
  "chat_stream api [] A = Inr ([], A)"
| "chat_stream api (g # gs) A =
     res_bind (chat_stream_post_processor api g A) (\<lambda>(cs, A1). res_bind (chat_stream api gs A1) (\<lambda>(ds, A2). Inr (cs @ ds, A2)))"

record 'x chat_choice_data =
  cc_index :: nat
  cc_content :: string
  cc_reasoning :: "string option"
  cc_tool_calls :: "(string \<times> string) list" \<comment> \<open>names and arguments\<close>
  cc_finish_reason :: "string option"
  cc_stop_reason :: "stop_reason option"
  cc_logprobs :: "(int \<times> 'x) list option"
  cc_disagg :: "'x gen_disagg option"

definition chat_message :: "(parser_class \<Rightarrow> 't tool_api) \<Rightarrow> ('f, 'x, 'd) completion_output \<Rightarrow> 't chat_args \<Rightarrow> ('x chat_choice_data \<times> 't chat_args) result" where
  "chat_message api o1 A =
     (let i = out_index o1; c = \<lparr>cc_index = i, cc_content = [], cc_reasoning = None, cc_tool_calls = [], cc_finish_reason = None, cc_stop_reason = out_stop_reason o1, cc_logprobs = None, cc_disagg = out_disagg o1\<rparr> in
      res_bind (apply_reasoning_parser i (out_text o1) False A) (\<lambda>(s, reasoning, A1).
        res_bind (case named_tool A1 of
            Some n \<Rightarrow> Inr (c\<lparr>cc_tool_calls := [(n, s)]\<rparr>, A1)
          | None \<Rightarrow> res_bind (apply_tool_parser api i s False A1) (\<lambda>(s1, cs, A2).
              Inr (c\<lparr>cc_content := s1, cc_reasoning := Some reasoning, cc_tool_calls := map (\<lambda>k. (case item_name k of Some n \<Rightarrow> n | None \<Rightarrow> [], parameters k)) cs\<rparr>, A2))) (\<lambda>(c1, A2).
        res_bind (if return_logprobs A2 then res_bind (create_logprobs (token_ids o1) (out_logprobs o1)) (\<lambda>l. Inr (Some l)) else Inr None) (\<lambda>lps.
          Inr (c1\<lparr>cc_finish_reason := finish_of A2 i (out_finish_reason o1), cc_logprobs := lps\<rparr>, A2)))))"

fun chat_messages :: "(parser_class \<Rightarrow> 't tool_api) \<Rightarrow> ('f, 'x, 'd) completion_output list \<Rightarrow> 't chat_args \<Rightarrow> ('x chat_choice_data list \<times> 't chat_args) result" where
  "chat_messages api [] A = Inr ([], A)"
| "chat_messages api (o1 # os) A =
     res_bind (chat_message api o1 A) (\<lambda>(c, A1). res_bind (chat_messages api os A1) (\<lambda>(cs, A2). Inr (c # cs, A2)))"

definition chat_response_post_processor :: "(parser_class \<Rightarrow> 't tool_api) \<Rightarrow> ('f :: linorder, 'x, 'd) gen_result \<Rightarrow> 't chat_args \<Rightarrow> ('x chat_choice_data list \<times> usage_info \<times> 't chat_args) result" where
  "chat_response_post_processor api g A =
     res_bind (chat_messages api (outputs g) A) (\<lambda>(cs, A1).
       Inr ((case last_message_content A1 of Some m \<Rightarrow> if ca_echo A1 \<and> m \<noteq> [] then map (\<lambda>c. c\<lparr>cc_content := m @ cc_content c\<rparr>) cs else cs | None \<Rightarrow> cs),
            usage_of (num_prompt_tokens A1) (sum_list (map (int \<circ> length \<circ> token_ids) (outputs g))) (gr_cached_tokens g), A1))"

section \<open>Completions\<close>

record completion_args =
  cp_first_iteration :: bool
  cp_num_prompt_tokens :: int
  cp_echo :: bool
  cp_num_choices :: nat
  cp_prompt_idx :: nat
  cp_detokenize :: bool
  cp_prompt :: string
  cp_stream_options :: "(bool \<times> bool) option"

record completion_chunk =
  cch_index :: nat
  cch_text :: string
  cch_token_ids :: "int list option"
  cch_finish_reason :: "string option"
  cch_stop_reason :: "stop_reason option"
  cch_usage :: "usage_info option"

datatype completion_event = Completion_Chunk completion_chunk | Completion_Usage usage_info

definition completion_stream_chunk :: "completion_args \<Rightarrow> int \<Rightarrow> ('f, 'x, 'd) completion_output \<Rightarrow> completion_chunk" where
  "completion_stream_chunk A cached o1 =
     \<lparr>cch_index = cp_prompt_idx A * cp_num_choices A + out_index o1,
      cch_text = (if cp_detokenize A then (if cp_echo A \<and> cp_first_iteration A then cp_prompt A @ text_diff o1 else text_diff o1) else []),
      cch_token_ids = (if cp_detokenize A then None else Some (token_ids_diff o1)), cch_finish_reason = out_finish_reason o1, cch_stop_reason = out_stop_reason o1,
      cch_usage = (case cp_stream_options A of Some (True, True) \<Rightarrow> Some (usage_of (cp_num_prompt_tokens A) (int (length (token_ids o1))) cached) | _ \<Rightarrow> None)\<rparr>"

definition completion_stream_post_processor :: "('f :: linorder, 'x, 'd) gen_result \<Rightarrow> completion_args \<Rightarrow> completion_event list \<times> completion_args" where
  "completion_stream_post_processor g A =
     (map (Completion_Chunk \<circ> completion_stream_chunk A (gr_cached_tokens g)) (outputs g)
        @ (case cp_stream_options A of
             Some (True, _) \<Rightarrow> if gr_done g then [Completion_Usage (usage_of (cp_num_prompt_tokens A) (sum_list (map (int \<circ> length \<circ> token_ids) (outputs g))) (gr_cached_tokens g))] else []
           | _ \<Rightarrow> []),
      A\<lparr>cp_first_iteration := False\<rparr>)"

definition completion_response_choice :: "completion_args \<Rightarrow> ('f, 'x, 'd) completion_output \<Rightarrow> completion_chunk" where
  "completion_response_choice A o1 =
     \<lparr>cch_index = cp_prompt_idx A * cp_num_choices A + out_index o1,
      cch_text = (if cp_detokenize A then (if cp_echo A then cp_prompt A @ out_text o1 else out_text o1) else []),
      cch_token_ids = (if cp_detokenize A then None else Some (token_ids o1)), cch_finish_reason = out_finish_reason o1, cch_stop_reason = out_stop_reason o1, cch_usage = None\<rparr>"

definition completion_response_post_processor :: "('f :: linorder, 'x, 'd) gen_result \<Rightarrow> completion_args \<Rightarrow> completion_chunk list \<times> usage_info" where
  "completion_response_post_processor g A =
     (map (completion_response_choice A) (outputs g), usage_of (cp_num_prompt_tokens A) (sum_list (map (int \<circ> length \<circ> token_ids) (outputs g))) (gr_cached_tokens g))"

fun completion_stream :: "('f :: linorder, 'x, 'd) gen_result list \<Rightarrow> completion_args \<Rightarrow> completion_event list" where
  \<comment> \<open>for all results of a request\<close>
  "completion_stream [] A = []"
| "completion_stream (g # gs) A = (case completion_stream_post_processor g A of (es, A1) \<Rightarrow> es @ completion_stream gs A1)"

section \<open>A chat with reasoning\<close>

definition event_content :: "'x event \<Rightarrow> string" where
  "event_content e = (case e of Chunk c \<Rightarrow> (case ck_content c of Some s \<Rightarrow> s | None \<Rightarrow> []) | Usage_Chunk _ \<Rightarrow> [])"

definition event_reasoning :: "'x event \<Rightarrow> string" where
  "event_reasoning e = (case e of Chunk c \<Rightarrow> (case ck_reasoning c of Some s \<Rightarrow> s | None \<Rightarrow> []) | Usage_Chunk _ \<Rightarrow> [])"

definition event_finish :: "'x event \<Rightarrow> string list" where
  "event_finish e = (case e of Chunk c \<Rightarrow> (case ck_finish_reason c of Some s \<Rightarrow> [s] | None \<Rightarrow> []) | Usage_Chunk _ \<Rightarrow> [])"

definition echoed :: "'t chat_args \<Rightarrow> string" where
  "echoed A = (case last_message_content A of Some m \<Rightarrow> if first_iteration A \<and> ca_echo A then m else [] | None \<Rightarrow> [])"

definition reasoning_chat :: "r1_parser \<Rightarrow> 't chat_args \<Rightarrow> bool" where
  \<comment> \<open>one choice, the parser of DeepSeek R1, in the state \<open>p\<close>, and no tools\<close>
  "reasoning_chat p A \<longleftrightarrow> num_choices A = 1 \<and> ca_tools A = None \<and> named_tool A = None \<and> ca_reasoning_parser A = Some ''deepseek-r1'' \<and> has_tool_call A = []
     \<and> (case map_of (reasoning_parser_dict A) 0 of Some p1 \<Rightarrow> p1 = p | None \<Rightarrow> p = r1_init True)"

definition one_choice :: "'t chat_args \<Rightarrow> ('f :: linorder, 'x, 'd) gen_result \<Rightarrow> bool" where
  "one_choice A g \<longleftrightarrow> (\<exists>o1. outputs g = [o1] \<and> out_index o1 = 0 \<and> (return_logprobs A \<longrightarrow> length (token_ids_diff o1) = length (logprobs_diff o1)))"

lemma reasoning_chat_create: "create_reasoning_parser ''deepseek-r1'' t = Inr (r1_init True)"
  by (simp add: create_reasoning_parser_def str_lower_def)

lemma event_usage [simp]: "event_content (Usage_Chunk v) = []" "event_reasoning (Usage_Chunk v) = []" "event_finish (Usage_Chunk v) = []"
  by (simp_all add: event_content_def event_reasoning_def event_finish_def)

lemma first_chunks_one:
  assumes "num_choices A = 1"
  shows "concat (map event_content (first_chunks A k)) = (case last_message_content A of Some m \<Rightarrow> if ca_echo A then m else [] | None \<Rightarrow> [])"
    "concat (map event_reasoning (first_chunks A k)) = []" "concat (map event_finish (first_chunks A k)) = []"
  using assms by (auto simp: first_chunks_def event_content_def event_reasoning_def event_finish_def plain_chunk_def Let_def split: option.splits)

lemma chat_step:
  assumes "reasoning_chat p A" "one_choice A g" "parse_delta (text_diff (first_output g)) p = (r, p')"
  shows "\<exists>es A'. chat_stream_post_processor api g A = Inr (es, A') \<and> reasoning_chat p' A' \<and> \<not> first_iteration A' \<and> return_logprobs A' = return_logprobs A
     \<and> concat (map event_content es) = echoed A @ content r \<and> concat (map event_reasoning es) = reasoning_content r
     \<and> concat (map event_finish es) = (case out_finish_reason (first_output g) of Some s \<Rightarrow> [s] | None \<Rightarrow> [])"
proof -
  obtain o1 where o: "outputs g = [o1]" "out_index o1 = 0" "return_logprobs A \<longrightarrow> length (token_ids_diff o1) = length (logprobs_diff o1)" using assms(2) by (auto simp: one_choice_def)
  have f: "first_output g = o1" by (simp add: first_output_def o(1))
  have A: "num_choices A = 1" "ca_tools A = None" "named_tool A = None" "ca_reasoning_parser A = Some ''deepseek-r1''" "has_tool_call A = []"
    "(case map_of (reasoning_parser_dict A) 0 of Some p1 \<Rightarrow> p1 = p | None \<Rightarrow> p = r1_init True)" using assms(1) by (simp_all add: reasoning_chat_def)
  define A1 where "A1 = A\<lparr>first_iteration := False\<rparr>"
  define A2 where "A2 = A1\<lparr>reasoning_parser_dict := AList.update 0 p' (reasoning_parser_dict A)\<rparr>"
  have 1: "apply_reasoning_parser 0 (text_diff o1) True A1 = Inr (content r, reasoning_content r, A2)"
    using A(4,6) assms(3) f by (auto simp: apply_reasoning_parser_def A1_def A2_def reasoning_chat_create split: option.splits)
  have 2: "apply_tool_parser api 0 s True A2 = Inr (s, [], A2)" for s using A(2) by (simp add: apply_tool_parser_def A2_def A1_def split: option.splits)
  have n2: "named_tool A2 = None" "has_tool_call A2 = []" "num_choices A1 = 1" "return_logprobs A2 = return_logprobs A" using A by (simp_all add: A2_def A1_def)
  let ?send = "content r \<noteq> [] \<or> reasoning_content r \<noteq> [] \<or> out_finish_reason o1 \<noteq> None"
  obtain cs where cs: "chat_outputs api g [o1] [] A1 = Inr (cs, A2)" "concat (map event_content cs) = content r" "concat (map event_reasoning cs) = reasoning_content r"
    "concat (map event_finish cs) = (case out_finish_reason o1 of Some s \<Rightarrow> [s] | None \<Rightarrow> [])"
  proof (cases ?send)
    case True
    let ?c = "(plain_chunk 0)\<lparr>ck_content := Some (content r), ck_reasoning := Some (reasoning_content r), ck_tool_calls := None\<rparr> :: 'c chunk"
    have d: "chat_delta api o1 A1 = Inr (Some ?c, A2)" using 1 2 n2 True o(2) by (simp add: chat_delta_def)
    obtain c where c: "chat_choice g o1 A2 ?c = Inr c" "ck_content c = Some (content r)" "ck_reasoning c = Some (reasoning_content r)" "ck_finish_reason c = out_finish_reason o1"
    proof -
      have "\<exists>c. chat_choice g o1 A2 ?c = Inr c \<and> ck_content c = Some (content r) \<and> ck_reasoning c = Some (reasoning_content r) \<and> ck_finish_reason c = out_finish_reason o1"
        using o n2 by (cases "return_logprobs A") (simp_all add: chat_choice_def create_logprobs_def py_assert_def finish_of_def plain_chunk_def)
      then show thesis using that by blast
    qed
    have "chat_outputs api g [o1] [] A1 = Inr ([Chunk c], A2)" using d c(1) o(2) n2(3) by simp
    then show thesis using that[of "[Chunk c]"] c(2-4) by (simp add: event_content_def event_reasoning_def event_finish_def split: option.splits)
  next
    case False
    then have "chat_delta api o1 A1 = Inr (None, A2)" using 1 2 n2 o(2) by (simp add: chat_delta_def)
    then have "chat_outputs api g [o1] [] A1 = Inr ([], A2)" using o(2) n2(3) by simp
    then show thesis using that[of "[]"] False by simp
  qed
  have r2: "reasoning_chat p' A2" using A by (simp add: reasoning_chat_def A2_def A1_def)
  have e: "echoed A = (if first_iteration A then (case last_message_content A of Some m \<Rightarrow> if ca_echo A then m else [] | None \<Rightarrow> []) else [])" by (simp add: echoed_def split: option.splits)
  show ?thesis using cs r2 n2(4) e unfolding f chat_stream_post_processor_def o(1) A1_def[symmetric] Let_def
    by (cases "first_iteration A") (simp_all add: A2_def A1_def first_chunks_one[OF A(1)] del: concat_eq_Nil_conv)
qed

lemma chat_stream_parses:
  assumes "reasoning_chat p A" "list_all (one_choice A) gs" "stream (map (text_diff \<circ> first_output) gs) p = (c, rc, p')"
  shows "\<exists>es A'. chat_stream api gs A = Inr (es, A') \<and> concat (map event_content es) = (if gs = [] then [] else echoed A) @ c \<and> concat (map event_reasoning es) = rc
     \<and> concat (map event_finish es) = concat (map (\<lambda>g. case out_finish_reason (first_output g) of Some s \<Rightarrow> [s] | None \<Rightarrow> []) gs) \<and> reasoning_chat p' A'"
  using assms
proof (induction gs arbitrary: p A c rc)
  case (Cons g gs)
  obtain r p1 where r: "parse_delta (text_diff (first_output g)) p = (r, p1)" by (metis surj_pair)
  obtain c1 rc1 where s: "stream (map (text_diff \<circ> first_output) gs) p1 = (c1, rc1, p')" "c = content r @ c1" "rc = reasoning_content r @ rc1"
    using Cons.prems(3) r by (auto simp: comp_def split: prod.splits)
  obtain es1 A1 where 1: "chat_stream_post_processor api g A = Inr (es1, A1)" "reasoning_chat p1 A1" "\<not> first_iteration A1" "return_logprobs A1 = return_logprobs A"
    "concat (map event_content es1) = echoed A @ content r" "concat (map event_reasoning es1) = reasoning_content r"
    "concat (map event_finish es1) = (case out_finish_reason (first_output g) of Some s \<Rightarrow> [s] | None \<Rightarrow> [])"
    using chat_step[OF Cons.prems(1) _ r] Cons.prems(2) by force
  have "list_all (one_choice A1) gs" using Cons.prems(2) 1(4) by (simp add: one_choice_def list_all_iff)
  then obtain es2 A2 where 2: "chat_stream api gs A1 = Inr (es2, A2)" "concat (map event_content es2) = (if gs = [] then [] else echoed A1) @ c1" "concat (map event_reasoning es2) = rc1"
    "concat (map event_finish es2) = concat (map (\<lambda>g. case out_finish_reason (first_output g) of Some s \<Rightarrow> [s] | None \<Rightarrow> []) gs)" "reasoning_chat p' A2"
    using Cons.IH[OF 1(2) _ s(1)] by blast
  have "echoed A1 = []" using 1(3) by (simp add: echoed_def split: option.splits)
  then show ?case using 1 2 s by (auto split: if_splits)
qed auto

section \<open>Properties\<close>

lemma one_choice_results:
  assumes "n_outputs P = 1" "best_of P = 1" "list_all (\<lambda>g. length (gr_outputs g) = 1 \<and> gr_params g = P \<and> out_index (first_output g) = 0) gs"
    and "return_logprobs A \<Longrightarrow> list_all (\<lambda>g. length (token_ids_diff (first_output g)) = length (logprobs_diff (first_output g))) gs"
  shows "list_all (one_choice A) gs"
proof -
  have "one_choice A g" if g: "g \<in> set gs" for g
  proof -
    have 1: "length (gr_outputs g) = 1" "gr_params g = P" "out_index (first_output g) = 0" using assms(3) g by (auto simp: list_all_iff)
    obtain o1 where o: "gr_outputs g = [o1]" using 1(1) by (cases "gr_outputs g") auto
    have "outputs g = [o1]" using 1(2) o assms(1,2) by (simp add: outputs_def output_positions_def reindex_def in_order_def)
    moreover then have "first_output g = o1" by (simp add: first_output_def)
    ultimately show ?thesis using 1(3) assms(4) g by (auto simp: one_choice_def list_all_iff)
  qed
  then show ?thesis by (simp add: list_all_iff)
qed

lemma sampled_length: "sampled_response lp ids ls fr fin r \<Longrightarrow> length ls = length ids"
  by (auto simp: sampled_response_def split: response.splits option.splits)

lemma sampled_lengths:
  assumes "list_all2 (\<lambda>(ids, ls) r. sampled_response lp ids ls NOT_FINISHED False r) pieces rs"
  shows "list_all (\<lambda>(ids, ls). length ls = length ids) pieces"
  using assms by (induction rule: list_all2_induct) (auto dest: sampled_length)

text \<open>C7: from the responses of the executor to the chunks of a chat. One sampled output is streamed, detokenized in pieces by the TensorRT-LLM decoder (not by the decoder of the tokenizer, which is the default) without clean-up of spaces, for a tokenizer whose
  conversion is local, and parsed for reasoning by the parser of DeepSeek R1; there are no tools. The responses carry tokens (with log probabilities when they are to be returned), the last is
  final with end id, length or timeout, no stop string occurs in the text and the answer does not contain the start tag again.
  Then nothing is raised; the contents and the reasoning contents of the chunks put together, after an echoed message, to what the parser gives for the text of all tokens decoded at once, up to the
  beginning of a tag that the parser still holds back; and exactly one chunk has a finish reason, that of the last response.\<close>

theorem chat_stream_end_to_end:
  fixes rs :: "('f :: linorder, 'x, 'd) response list"
  assumes "one_output cfg T P ws" "local_conversion (conv_of T P)" "call_handler H None = Inr ()"
    and "list_all2 (\<lambda>(ids, ls) r. sampled_response lp ids ls NOT_FINISHED False r) pieces rs" "sampled_response lp idsN lsN fr True rN" "plain_finish fr True"
    and "no_stop_string ws (conv_of T P (pieces_tokens T P (pieces @ [(idsN, lsN)])))" "no_restart (conv_of T P (pieces_tokens T P (pieces @ [(idsN, lsN)])))"
    and "reasoning_chat (r1_init True) A" "return_logprobs A \<longrightarrow> lp"
  shows "\<exists>gs es A' p. iterate (detok_handle_response cfg (Some T) True H) (rs @ [rN]) (gen_result_init P True dp) = Inr gs \<and> chat_stream api gs A = Inr (es, A')
     \<and> (\<exists>c. concat (map event_content es) = echoed A @ c
         \<and> parse True (conv_of T P (pieces_tokens T P (pieces @ [(idsN, lsN)]))) = \<lparr>content = c @ content (flush p), reasoning_content = concat (map event_reasoning es) @ reasoning_content (flush p)\<rparr>)
     \<and> (starts_with (buffer p) reasoning_start \<or> starts_with (buffer p) reasoning_end) \<and> reasoning_chat p A'
     \<and> concat (map event_finish es) = [the (finish_name fr)]"
proof -
  let ?all = "pieces @ [(idsN, lsN)]"
  obtain gs where gs: "iterate (detok_handle_response cfg (Some T) True H) (rs @ [rN]) (gen_result_init P True dp) = Inr gs" "length gs = Suc (length rs)"
     "concat (map (text_diff \<circ> first_output) gs) = conv_of T P (pieces_tokens T P ?all)" "map (token_ids_diff \<circ> first_output) gs = map fst ?all" "lp \<longrightarrow> map (logprobs_diff \<circ> first_output) gs = map snd ?all"
     "out_finish_reason (first_output (last gs)) = finish_name fr" "list_all (\<lambda>g. length (gr_outputs g) = 1 \<and> gr_params g = P \<and> out_index (first_output g) = 0) gs"
     "list_all (\<lambda>g. out_finish_reason (first_output g) = None) (butlast gs)"
    using streamed_from_start[OF assms(1-7), of "[]" dp] by auto
  have ne: "gs \<noteq> []" using gs(2) by auto
  have len: "list_all (\<lambda>(ids, ls). length ls = length ids) ?all" using sampled_lengths[OF assms(4)] sampled_length[OF assms(5)] by simp
  have lps: "list_all (\<lambda>g. length (token_ids_diff (first_output g)) = length (logprobs_diff (first_output g))) gs" if "return_logprobs A"
  proof -
    have "lp" using assms(10) that by simp
    then have l: "map (logprobs_diff \<circ> first_output) gs = map snd ?all" using gs(5) by simp
    have "length (token_ids_diff (first_output (gs ! i))) = length (logprobs_diff (first_output (gs ! i)))" if i: "i < length gs" for i
    proof -
      have n: "i < length ?all" using i arg_cong[OF gs(4), of length] by simp
      have "token_ids_diff (first_output (gs ! i)) = fst (?all ! i)" using arg_cong[OF gs(4), of "\<lambda>l. l ! i"] i n by (simp del: map_append)
      moreover have "logprobs_diff (first_output (gs ! i)) = snd (?all ! i)" using arg_cong[OF l, of "\<lambda>l. l ! i"] i n by (simp del: map_append)
      moreover have "length (snd (?all ! i)) = length (fst (?all ! i))" using len n unfolding list_all_length by (cases "?all ! i") force
      ultimately show ?thesis by simp
    qed
    then show ?thesis by (simp add: list_all_length)
  qed
  have one: "list_all (one_choice A) gs" by (rule one_choice_results[OF _ _ gs(7) lps]) (use assms(1) in \<open>simp_all add: one_output_def\<close>)
  obtain c rc p where s: "stream (map (text_diff \<circ> first_output) gs) (r1_init True) = (c, rc, p)" by (metis surj_pair)
  have "stream_inv [] [] [] (r1_init True)" by (simp add: stream_inv_def r1_init_def starts_with_def)
  from stream_inv_stream[OF this s] assms(8) gs(3) have i: "stream_inv (conv_of T P (pieces_tokens T P ?all)) c rc p" by simp
  obtain es A' where es: "chat_stream api gs A = Inr (es, A')" "concat (map event_content es) = echoed A @ c" "concat (map event_reasoning es) = rc"
     "concat (map event_finish es) = concat (map (\<lambda>g. case out_finish_reason (first_output g) of Some s \<Rightarrow> [s] | None \<Rightarrow> []) gs)" "reasoning_chat p A'"
    using chat_stream_parses[OF assms(9) one s, of api] ne by auto
  have fin: "concat (map event_finish es) = [the (finish_name fr)]"
  proof -
    let ?f = "\<lambda>g. case out_finish_reason (first_output g) of Some s \<Rightarrow> [s] | None \<Rightarrow> []"
    have "map ?f gs = map ?f (butlast gs @ [last gs])" using ne by simp
    also have "\<dots> = map (\<lambda>g. []) (butlast gs) @ [[the (finish_name fr)]]" using gs(6,8) assms(6) by (auto simp: list_all_iff plain_finish_def finish_name_def simp del: append_butlast_last_id)
    finally have "map ?f gs = map (\<lambda>g. []) (butlast gs) @ [[the (finish_name fr)]]" .
    then show ?thesis unfolding es(4) by simp
  qed
  show ?thesis using gs(1) es stream_inv_flush[OF i] i fin by (intro exI[of _ gs] exI[of _ es] exI[of _ A'] exI[of _ p]) (auto simp: stream_inv_def)
qed

definition sample_chat :: "unit qwen3_parser chat_args" where
  "sample_chat = \<lparr>first_iteration = True, num_prompt_tokens = 3, ca_echo = True, ca_role = ''assistant'', num_choices = 1, ca_tools = None, named_tool = None, return_logprobs = True, stream_options = Some (True, False),
     last_message_content = Some ''Hm: '', ca_reasoning_parser = Some ''deepseek-r1'', ca_tool_parser = None, reasoning_parser_dict = [], tool_parser_dict = [], has_tool_call = [], tool_call_id_type = ''random'', thinking = None\<rparr>"

theorem chat_stream_end_to_end_witness:
  "\<exists>gs es A' p. iterate (detok_handle_response sample_config (Some byte_tokenizer) True None)
       ([sample_response [97, 60, 47] (Some [1, 2, 3]) 0 NOT_FINISHED False, sample_response [116, 104, 105] (Some [4, 5, 6]) 0 NOT_FINISHED False] @ [sample_response [110, 107, 62, 98] (Some [7, 8, 9, 10]) 0 END_ID True])
       (gen_result_init sample_params True None) = Inr gs \<and> chat_stream (\<lambda>c. qwen3_api small_json) gs sample_chat = Inr (es, A')
     \<and> (\<exists>c. concat (map event_content es) = ''Hm: '' @ c
         \<and> \<lparr>content = ''b'', reasoning_content = ''a''\<rparr> = \<lparr>content = c @ content (flush p), reasoning_content = concat (map event_reasoning es) @ reasoning_content (flush p)\<rparr>)
     \<and> concat (map event_finish es) = [''stop'']"
proof -
  have s: "one_output sample_config byte_tokenizer sample_params [(Stop_String ''zz'', [122, 122])]" by code_simp
  have lc: "local_conversion (conv_of byte_tokenizer sample_params)" unfolding conv_of_def by (rule bytes.local_conversion_axioms)
  have h: "call_handler None None = Inr ()" by (simp add: call_handler_def)
  have rs: "list_all2 (\<lambda>(ids, ls) r. sampled_response True ids ls NOT_FINISHED False r) [([97, 60, 47], [1, 2, 3]), ([116, 104, 105], [4, 5, 6])]
     [sample_response [97, 60, 47] (Some [1, 2, 3]) 0 NOT_FINISHED False, sample_response [116, 104, 105] (Some [4, 5, 6]) 0 NOT_FINISHED False]" by (simp add: sampled_response_def sample_response_def)
  have fin: "sampled_response True [110, 107, 62, 98] [7, 8, 9, 10] END_ID True (sample_response [110, 107, 62, 98] (Some [7, 8, 9, 10]) 0 END_ID True)" by (simp add: sampled_response_def sample_response_def)
  have pf: "plain_finish END_ID True" "finish_name END_ID = Some ''stop''" by (simp_all add: plain_finish_def finish_name_def)
  let ?all = "[([97, 60, 47], [1, 2, 3]), ([116, 104, 105], [4, 5, 6])] @ [([110, 107, 62, 98], [7, 8, 9, 10])] :: (int list \<times> nat list) list"
  have t: "conv_of byte_tokenizer sample_params (pieces_tokens byte_tokenizer sample_params ?all) = ''a</think>b''" by code_simp
  have ns: "no_stop_string [(Stop_String ''zz'', [122, 122])] (conv_of byte_tokenizer sample_params (pieces_tokens byte_tokenizer sample_params ?all))" unfolding t by code_simp
  have nr: "no_restart (conv_of byte_tokenizer sample_params (pieces_tokens byte_tokenizer sample_params ?all))" unfolding t by code_simp
  have c: "reasoning_chat (r1_init True) sample_chat" "return_logprobs sample_chat \<longrightarrow> True" "echoed sample_chat = ''Hm: ''" by code_simp+
  have p: "parse True ''a</think>b'' = \<lparr>content = ''b'', reasoning_content = ''a''\<rparr>" by code_simp
  show ?thesis using chat_stream_end_to_end[OF s lc h rs fin pf(1) ns nr c(1,2), of None "\<lambda>c. qwen3_api small_json"] unfolding t p c(3) pf(2) option.sel by blast
qed

section \<open>Completions and departures\<close>

text \<open>The texts of a streamed completion put together to the prompt, when it is echoed, and the differences of the results.\<close>

lemma completion_stream_text:
  assumes "list_all (\<lambda>g. \<exists>o1. outputs g = [o1]) gs" "cp_detokenize A" "gs \<noteq> []"
  shows "concat (map (\<lambda>e. case e of Completion_Chunk c \<Rightarrow> cch_text c | Completion_Usage _ \<Rightarrow> []) (completion_stream gs A))
     = (if cp_echo A \<and> cp_first_iteration A then cp_prompt A else []) @ concat (map (text_diff \<circ> first_output) gs)"
  using assms
proof (induction gs arbitrary: A)
  case (Cons g gs)
  let ?tx = "\<lambda>e. case e of Completion_Chunk c \<Rightarrow> cch_text c | Completion_Usage _ \<Rightarrow> []"
  obtain o1 where o: "outputs g = [o1]" using Cons.prems(1) by auto
  let ?A = "A\<lparr>cp_first_iteration := False\<rparr>"
  have e: "concat (map ?tx (fst (completion_stream_post_processor g A))) = (if cp_echo A \<and> cp_first_iteration A then cp_prompt A else []) @ text_diff o1"
    "snd (completion_stream_post_processor g A) = ?A"
    using Cons.prems(2) o by (auto simp: completion_stream_post_processor_def completion_stream_chunk_def split: option.splits bool.splits)
  have r: "concat (map ?tx (completion_stream gs ?A)) = concat (map (text_diff \<circ> first_output) gs)"
    using Cons.IH[of ?A] Cons.prems by (cases "gs = []") (simp_all add: comp_def)
  show ?case using e r by (simp add: case_prod_beta first_output_def o comp_def)
qed simp

text \<open>Which finish reasons have been sent is forgotten with each call: an output that has finished sends its last text and its finish reason again with every later response of the other output.\<close>

lemma finish_reason_sent_again:
  "(case iterate (detok_handle_response sample_config (Some byte_tokenizer) False None)
      [sample_response [65] None 0 END_ID False, sample_response [66] None 1 NOT_FINISHED False, sample_response [67] None 1 END_ID True] (gen_result_init (sample_params\<lparr>n_outputs := 2, best_of := 2\<rparr>) True None) of
     Inr gs \<Rightarrow> (case chat_stream (\<lambda>c. qwen3_api small_json) gs (sample_chat\<lparr>num_choices := 2, ca_echo := False, ca_reasoning_parser := None, return_logprobs := False, stream_options := None\<rparr>) of
        Inr (es, _) \<Rightarrow> map (\<lambda>e. case e of Chunk c \<Rightarrow> (ck_index c, ck_content c, ck_finish_reason c) | Usage_Chunk _ \<Rightarrow> (0, None, None)) es | Inl _ \<Rightarrow> []) | Inl _ \<Rightarrow> [])
   = [(0, None, None), (1, None, None), (0, Some ''A'', Some ''stop''), (0, Some [], Some ''stop''), (1, Some ''B'', None), (0, Some [], Some ''stop''), (1, Some ''C'', Some ''stop'')]"
  by code_simp

end
