(* ===== verification/Spec2Isabelle.thy ===== *)
theory Spec2Isabelle
  imports Parallel_Mapping KV_Cache_Manager Capacity_Scheduler Request_Queue Context_Partition Serve_Router Attention_Windows
    Handle_Logits Speculative_Drafting Disagg_Service Disagg_Config Reasoning_Parser
    Kv_Connector Draft_Tree Guided_Drafting Chat_Stream
begin

text \<open>
  \<^bold>\<open>A verification library of the control plane of TensorRT-LLM's Python code.\<close>

  The program serves large language models. Requests reach an executor on every rank of a distributed world; the executor
  queues them, schedules batches under the limits of cache blocks and slots, runs the model, and stores tokens and
  logits. In a disaggregated deployment a front server routes requests to context and generation
  workers that register themselves in a cluster storage. The numerical work is done by CUDA kernels and a C++
  runtime. The library models the Python code that decides: which rank owns what, which block belongs to which
  sequence, which request runs, where a request goes.

  \<^bold>\<open>Conventions.\<close> Python integers are \<open>int\<close>; a Python exception is a value of \<open>py_error\<close> and a fallible function returns
  \<open>'a result = py_error + 'a\<close>. An operation that mutates an object takes the state and returns it, together with the result when
  it may raise after a part of its work; the state after an exception is then part of the model. Dictionaries are
  association lists in insertion order. Objects that the code shares and mutates through several
  references live in explicit heaps (\<open>Paged_KV_Cache\<close>). Code that is not in this repository, or floating-point and tensor
  operations, are arguments of the definitions; what the code relies on is a named hypothesis
  (\<open>copy_spec\<close>, \<open>reshape_spec\<close>, \<open>drop_spec\<close>, the specifications of \<open>tensor_split\<close> and \<open>split\<close> in \<open>Parallel_Mapping\<close>, the
  choice from a set in \<open>Resource_Slots\<close>, \<open>llmatcher_laws\<close> and \<open>grammar_matcher\<close> in \<open>Guided_Decoding\<close>,
  \<open>reads_call\<close> in \<open>Tool_Parser\<close>, \<open>local_conversion\<close> in \<open>Detokenizer\<close>), each with a reference instance that satisfies it and is used in witnesses. Every
  function is total: loops are structural recursion, or recursion with a termination proof (\<open>bisect_loop\<close>, \<open>groups\<close>, \<open>remove_all\<close>, \<open>find_blocks\<close>, \<open>re_findall\<close>, \<open>v32_loop\<close>); no
  definition uses fuel. Machine integers occur where the code masks (64-bit request ids in \<open>Request_Queue\<close>, written with
  \<open>mod 2 ^ 64\<close>) and where it packs bits (32-bit words in \<open>Draft_Tree\<close>).

  \<^bold>\<open>Theories, the code they model and what is shown.\<close>

  \<^item> \<open>Py_Prelude\<close>, \<open>Py_Heap\<close>: exceptions, results, Python indexing, slices, ranges, dictionaries, and the priority queues of
    \<open>heapq\<close> with the locale \<open>min_heap\<close>, interpreted on the sorted-list implementation the model uses.
  \<^item> \<open>Owner_Pool\<close>: the contract of a pool of numbered units with owners (locales \<open>owner_pool\<close> and \<open>growing_pool\<close>), interpreted
    by \<open>blocks_pool\<close> (cache blocks), \<open>slot_pool\<close> (sequence slots) and \<open>token_pool\<close> (blocks per request).
  \<^item> \<open>Parallel_Mapping\<close>: \<open>tensorrt_llm/mapping.py\<close>. Construction and validation, rank arithmetic, all process groups, layer and
    expert distribution. The tensor-parallel groups partition the world, every rank sits in its groups at its position, layers
    have exactly one owner, the dictionary form loses \<open>pp_partition\<close>.
  \<^item> \<open>Paged_KV_Cache\<close>, \<open>KV_Cache_Manager\<close>: \<open>runtime/kv_cache_manager.py\<close>. Reference-counted blocks shared by beams, copy on
    write, the offset array, and the sequence-level manager. Blocks are conserved; in every reachable state each
    sequence has the blocks its tokens need and blocks of different sequences are disjoint; a step fails only
    for lack of blocks.
  \<^item> \<open>Resource_Slots\<close>, \<open>Resource_Pipeline\<close>, \<open>Llm_Request\<close>: \<open>SlotManager\<close>, \<open>BlockManager\<close> and \<open>ResourceManager\<close> of
    \<open>_torch/pyexecutor/resource_manager.py\<close>, \<open>seq_slot_manager.py\<close>, and the part of a request they read.
  \<^item> \<open>Capacity_Scheduler\<close>: \<open>scheduler.py\<close>. The no-eviction policy over the locale \<open>capacity_provider\<close>, interpreted on the cache's
    and the slot manager's estimate; over every sequence of rounds, a request that was scheduled and is generating is scheduled again until it finishes.
  \<^item> \<open>Attention_Windows\<close>: the window and memory computations of \<open>KVCacheManager\<close> in \<open>resource_manager.py\<close>, \<open>get_pp_layers\<close> and the byte
    sizes of \<open>_utils.py\<close>. The adjusted windows fit into the pool.
  \<^item> \<open>Request_Queue\<close>, \<open>Context_Partition\<close>: \<open>executor_request_queue.py\<close>. Ids, enqueueing, special items, the waiting queue, balancing
    over attention data-parallel ranks, broadcast objects, and the cutting of prompts over context-parallel ranks (helix
    and star attention).
  \<^item> \<open>Request_Results\<close>, \<open>Handle_Logits\<close>: the result part of \<open>llm_request.py\<close> and \<open>handle_logits.py\<close>. The ways of storing logits
    share the locale \<open>bounded_log\<close> (interpretations \<open>direct_log\<close>, \<open>chunked_log\<close>, \<open>iteration_log\<close>); every request
    receives exactly its own rows.
  \<^item> \<open>Speculative_Drafting\<close>: \<open>speculative/ngram.py\<close>, \<open>drafter.py\<close>, \<open>speculation_gate.py\<close>. Drafts are continuations that occurred, the
    gate is permanent, the draft length schedule is searched correctly.
  \<^item> \<open>Serve_Router\<close>: \<open>serve/router.py\<close>. Round robin, load balancing and KV-cache aware routing, and the monitoring of
    servers; the locale \<open>routing_policy\<close> is interpreted on the first two. What holds over sequences of calls covers the calls that raise.
  \<^item> \<open>Cluster_Storage\<close>, \<open>Cluster_Manager\<close>: \<open>serve/cluster_storage.py\<close> (the in-process server) and
    \<open>serve/disagg_auto_scaling.py\<close>. The server refines a map whose entries expire; it satisfies the locale
    \<open>watched_store\<close>, on which rests that the manager follows the registered workers; heartbeats keep a
    registration.
  \<^item> \<open>Openai_Client\<close>, \<open>Disagg_Service\<close>: \<open>serve/openai_client.py\<close> and \<open>serve/openai_disagg_service.py\<close>. The client relies on a
    router through the locale \<open>releasing_router\<close>, interpreted on the load-balancing and the round-robin router; the service on
    two of them (\<open>two_routers\<close>) and on server lists that follow events (\<open>server_list\<close>, \<open>cluster_routers\<close>). A request that is not
    streamed gives back all servers it takes, the generation request carries what the context server computed, and the server
    lists are the workers registered in the cluster storage.
  \<^item> \<open>Disagg_Config\<close>: \<open>llmapi/disagg_utils.py\<close>. Inheritance of settings (with the dictionaries that are shared), the server
    instances, and the splitting of the MPI world: every rank is placed in exactly one server's range.
  \<^item> \<open>Reasoning_Parser\<close>: \<open>llmapi/reasoning_parser.py\<close>. Streaming a text in pieces gives what parsing it at once gives,
    for the mode in which the text begins inside the reasoning; closed lemmas show where the other mode departs.
  \<^item> \<open>Kv_Connector\<close>: \<open>_torch/pyexecutor/kv_cache_connector.py\<close>, with one connector per rank. A request whose cache is saved in the
    background is returned on all ranks at once, when the workers of all ranks are done with it; the increments that the
    connector's scheduler receives put together to the blocks and tokens of each request.
  \<^item> \<open>Finish_Reasons\<close>, \<open>Draft_Verification\<close>, \<open>Draft_Tree\<close>: of \<open>_torch/pyexecutor/sampler.py\<close> the stop criteria and the verification of draft
    tokens, with \<open>_torch/speculative/spec_tree_manager.py\<close> and the check of the tree choices in \<open>llmapi/llm_args.py\<close>. The reasons computed
    for a batch, with the beams each beam continues, are those of the token by token criteria; a request whose drafts are verified goes through exactly the states of
    decoding one token at a time; the same tokens come out of a tree of drafts, whose packed masks (32-bit words) are the ancestor
    relation.
  \<^item> \<open>Guided_Decoding\<close>, \<open>Guided_Drafting\<close>: \<open>_torch/pyexecutor/guided_decoder.py\<close> and \<open>grammar_matcher.py\<close>. The grammar libraries are
    arguments; what is relied on of a matcher is the locale \<open>grammar_matcher\<close>, and \<open>LLGuidanceMatcher\<close> is shown to satisfy it when the
    library's own matcher keeps \<open>llmatcher_laws\<close> (interpretation \<open>literal\<close> on a library of literal texts). The rows of a step are those
    that the grammar allows after the text and each draft token; after an iteration with drafting each matcher stands exactly after the
    accepted tokens.
  \<^item> \<open>Tool_Parser\<close>: of \<open>serve/tool_parser\<close> the base class, its helpers, the parser of Qwen 3 and the factory. The JSON libraries are the
    argument \<open>json_library\<close>; what is relied on of reading a call that is not complete is \<open>reads_call\<close>, which the small JSON reader \<open>small_json\<close> satisfies for a call. A whole text gives
    its calls in order; a streamed text without tags is passed on; a streamed call comes out as its name and pieces that put together to its
    arguments. Closed lemmas show calls, arguments and texts that streaming loses.
  \<^item> \<open>Deepseek_Parser\<close>: \<open>serve/tool_parser/deepseekv32_parser.py\<close>, its regular expressions as functions. For any text and any pieces, the items
    that are streamed are those of the complete calls of the whole text; for calls of known tools in one section they agree with parsing the whole text.
  \<^item> \<open>Detokenizer\<close>, \<open>Generation_Result\<close>: \<open>tokenizer/tokenizer.py\<close> (incremental detokenization), \<open>executor/result.py\<close> and the stop words of
    \<open>sampling_params.py\<close>. What decoding in pieces relies on is the locale \<open>local_conversion\<close>, interpreted on a tokenizer of bytes (\<open>bytes\<close>). The differences that a streamed request gives put
    together to its tokens, log probabilities and text, and the text is that of decoding all tokens at once; the outputs returned are the best ones. Closed lemmas show
    what several outputs and stop strings do to the differences.
  \<^item> \<open>Chat_Stream\<close>: \<open>serve/postprocess_handlers.py\<close>, the post-processors of chats and completions. From the responses of the executor to the chunks
    of a chat with reasoning: contents and reasoning contents put together to what the reasoning parser gives for the whole text, with one finish reason.

  The components meet in the theorems where the code composes them: \<open>KV_Cache_Manager\<close> calls \<open>Paged_KV_Cache\<close>, the scheduler uses
  the capacity laws of the managers, \<open>Attention_Windows\<close> and \<open>Context_Partition\<close> use the mapping, \<open>Handle_Logits\<close> the storages of
  \<open>Request_Results\<close>, \<open>Chat_Stream\<close> the results, the reasoning parser and the tool parsers, \<open>Draft_Verification\<close> the reasons of \<open>Finish_Reasons\<close> and these the word lists of \<open>Request_Results\<close>, \<open>Cluster_Manager\<close> the events of \<open>Cluster_Storage\<close>, \<open>Disagg_Service\<close> the
  client, the routers and the cluster manager. Each property stands in the theory of
  the last component it needs, after a text block that states it in words; closed lemmas beside them show
  behaviour that departs from what comments or callers expect.

  \<^bold>\<open>Not modelled, and why.\<close> The C++ runtime, kernels, model definitions, attention backends, quantization, TensorRT graph building
  and sampling itself are numerical or foreign code. The executor loop, the model engine and the LLM API drive devices, processes
  and third-party validation; the HTTP servers, clients and etcd access are input and output. \<open>DeviceMeshTopology\<close> wraps
  \<open>torch.distributed\<close>. Messages of exceptions and logging are left out everywhere, as are wall-clock waits: a loop that sleeps
  is modelled by its body.

  \<^bold>\<open>Plan.\<close> Next come the other tool parsers (Kimi K2, DeepSeek V3 and V3.1, Qwen 3 coder) and the transfer of caches.
\<close>

end
